(* ===== verification/Prelude.thy ===== *)
theory Prelude
  imports Main "HOL-Library.List_Lexorder" "HOL-Library.Char_ord" "HOL-Library.Product_Lexorder"
begin

text \<open>
  What every component of the development shares: the result type for code that may throw
  (\<open>error + 'a\<close>), the truncating integer division of C, the decimal rendering of integers by a
  C++ stream, splitting a string after a maximal run of characters of one class, and the interface
  \<open>keyed_order\<close> of the hand-written \<open>operator<\<close> functions with the sorted insertion built on it.
\<close>

named_theorems result_simps \<open>evaluation of results\<close>
named_theorems sound \<open>the value of an expression is what the operation promises\<close>

section \<open>Results\<close>

text \<open>
  \<open>Assert_exception\<close> is the exception \<open>assert_exception\<close> of the source with its message;
  \<open>Out_of_range\<close> is \<open>std::out_of_range\<close>, thrown by \<open>substr\<close>; \<open>Invalid_argument\<close> is
  \<open>std::invalid_argument\<close>; \<open>Ir_error\<close> and \<open>Loop_error\<close> are \<open>ir_error\<close> and \<open>loop_error\<close> of the compiler CHiLL; \<open>Assertion\<close> is an
  \<open>assert\<close> that fails;
  \<open>Undefined\<close> stands for an execution whose behaviour C++ leaves undefined (a null
  dereference, a division by zero, an access out of bounds).
\<close>

datatype error = Assert_exception string | Out_of_range string | Undefined string
  | Invalid_argument string | Ir_error string | Loop_error string | Assertion string

type_synonym 'a result = "error + 'a"

definition bind_result :: "'a result \<Rightarrow> ('a \<Rightarrow> 'b result) \<Rightarrow> 'b result" where
  "bind_result r f = (case r of Inl e \<Rightarrow> Inl e | Inr x \<Rightarrow> f x)"

lemma bind_result_simps [simp, result_simps]:
  "bind_result (Inl e) f = Inl e"
  "bind_result (Inr x) f = f x"
  by (simp_all add: bind_result_def)

lemma bind_result_Inr [simp]:
  "bind_result r f = Inr y \<longleftrightarrow> (\<exists>x. r = Inr x \<and> f x = Inr y)"
  by (cases r) simp_all

lemma bind_result_cong [fundef_cong]:
  "r = s \<Longrightarrow> (\<And>x. s = Inr x \<Longrightarrow> f x = g x) \<Longrightarrow> bind_result r f = bind_result s g"
  by (cases s) simp_all

text \<open>A loop over a list whose body may throw; the first error ends it.\<close>

fun map_result :: "('a \<Rightarrow> 'b result) \<Rightarrow> 'a list \<Rightarrow> 'b list result" where
  "map_result f [] = Inr []"
| "map_result f (x # xs) = bind_result (f x) (\<lambda>y. bind_result (map_result f xs) (\<lambda>ys. Inr (y # ys)))"

lemma map_result_cong [fundef_cong]:
  "xs = ys \<Longrightarrow> (\<And>x. x \<in> set ys \<Longrightarrow> f x = g x) \<Longrightarrow> map_result f xs = map_result g ys"
  by (induction ys arbitrary: xs) auto

lemma map_result_Inr_iff:
  "map_result f xs = Inr ys \<longleftrightarrow> list_all2 (\<lambda>x y. f x = Inr y) xs ys"
  by (induction xs arbitrary: ys) (auto simp: list_all2_Cons1)

lemma map_result_pure: "(\<And>x. x \<in> set xs \<Longrightarrow> f x = Inr (g x)) \<Longrightarrow> map_result f xs = Inr (map g xs)"
  by (induction xs) auto

fun fold_result :: "('b \<Rightarrow> 'a \<Rightarrow> 'b result) \<Rightarrow> 'b \<Rightarrow> 'a list \<Rightarrow> 'b result" where
  "fold_result f b [] = Inr b"
| "fold_result f b (x # xs) = bind_result (f b x) (\<lambda>b'. fold_result f b' xs)"

lemma fold_result_cong [fundef_cong]:
  "b = b' \<Longrightarrow> xs = ys \<Longrightarrow> (\<And>x c. x \<in> set ys \<Longrightarrow> f c x = g c x) \<Longrightarrow>
    fold_result f b xs = fold_result g b' ys"
  by (induction ys arbitrary: xs b b') (auto intro!: bind_result_cong)

section \<open>C integer division\<close>

text \<open>Division and remainder of C truncate towards zero; the divisor is not 0 here.\<close>

definition c_div :: "int \<Rightarrow> int \<Rightarrow> int" where
  "c_div a b = sgn a * sgn b * (\<bar>a\<bar> div \<bar>b\<bar>)"

definition c_rem :: "int \<Rightarrow> int \<Rightarrow> int" where
  "c_rem a b = a - c_div a b * b"

lemma c_div_mult: "c_div (q * b) b = (if b = 0 then 0 else q)"
proof -
  have "b \<noteq> 0 \<Longrightarrow> \<bar>q\<bar> * \<bar>b\<bar> div \<bar>b\<bar> = \<bar>q\<bar>" by simp
  moreover have "b \<noteq> 0 \<Longrightarrow> sgn (q * b) * sgn b * \<bar>q\<bar> = q"
    by (cases q "0::int" rule: linorder_cases; cases b "0::int" rule: linorder_cases)
       (auto simp: sgn_mult)
  ultimately show ?thesis by (simp add: c_div_def abs_mult)
qed

lemma c_rem_eq_0_iff: "b \<noteq> 0 \<Longrightarrow> c_rem a b = 0 \<longleftrightarrow> b dvd a"
proof
  assume "b \<noteq> 0" "c_rem a b = 0"
  then show "b dvd a" by (auto simp: c_rem_def dvd_def algebra_simps)
next
  assume "b \<noteq> 0" "b dvd a"
  then obtain q where "a = q * b" by (auto simp: dvd_def algebra_simps)
  with \<open>b \<noteq> 0\<close> show "c_rem a b = 0" by (simp add: c_rem_def c_div_mult)
qed

lemma c_div_exact: "b \<noteq> 0 \<Longrightarrow> b dvd a \<Longrightarrow> c_div a b * b = a"
  by (auto simp: dvd_def c_div_mult mult.commute[of b])

section \<open>Decimal rendering\<close>

text \<open>What a stream prints for a signed integer in its default base.\<close>

fun show_nat :: "nat \<Rightarrow> string" where
  "show_nat n = (if n < 10 then [char_of (48 + n)] else show_nat (n div 10) @ [char_of (48 + n mod 10)])"

declare show_nat.simps [simp del]

definition show_int :: "int \<Rightarrow> string" where
  "show_int i = (if i < 0 then ''-'' @ show_nat (nat (- i)) else show_nat (nat i))"

definition is_digit :: "char \<Rightarrow> bool" where
  "is_digit c \<longleftrightarrow> 48 \<le> (of_char c :: nat) \<and> (of_char c :: nat) \<le> 57"

definition read_nat :: "string \<Rightarrow> nat" where
  "read_nat s = foldl (\<lambda>n c. 10 * n + (of_char c - 48)) 0 s"

lemma of_char_digit: "n < 10 \<Longrightarrow> (of_char (char_of (48 + n) :: char) :: nat) = 48 + n"
  by simp

lemma show_nat_digits: "\<forall>c \<in> set (show_nat n). is_digit c"
proof (induction n rule: show_nat.induct)
  case (1 n)
  then show ?case
    by (subst show_nat.simps) (auto simp: is_digit_def of_char_digit)
qed

lemma show_nat_nonempty [simp]: "show_nat n \<noteq> []"
  by (subst show_nat.simps) simp

lemma hd_show_nat_digit [simp]: "is_digit (hd (show_nat n))"
  using show_nat_digits[of n] by (simp add: list.set_sel(1))

lemma read_nat_show_nat [simp]: "read_nat (show_nat n) = n"
proof (induction n rule: show_nat.induct)
  case (1 n)
  then show ?case
    by (subst show_nat.simps) (auto simp: read_nat_def of_char_digit)
qed

section \<open>Maximal runs of characters\<close>

lemma takeWhile_run:
  "(\<And>c. c \<in> set s \<Longrightarrow> P c) \<Longrightarrow> r = [] \<or> \<not> P (hd r) \<Longrightarrow> takeWhile P (s @ r) = s"
  by (induction s) (cases r; auto)+

lemma dropWhile_run:
  "(\<And>c. c \<in> set s \<Longrightarrow> P c) \<Longrightarrow> r = [] \<or> \<not> P (hd r) \<Longrightarrow> dropWhile P (s @ r) = r"
  by (induction s) (cases r; auto)+

section \<open>Reading numbers\<close>

text \<open>White space, and a decimal number after white space with what follows it.\<close>

definition is_space :: "char \<Rightarrow> bool" where
  "is_space c \<longleftrightarrow> c = CHR '' '' \<or> 9 \<le> (of_char c :: nat) \<and> (of_char c :: nat) \<le> 13"

definition scan_int :: "string \<Rightarrow> (int \<times> string) option" where
  "scan_int s =
     (let s = dropWhile is_space s;
          sign = (if s \<noteq> '''' \<and> hd s = CHR ''-'' then -1 else 1);
          s = (if s \<noteq> '''' \<and> (hd s = CHR ''-'' \<or> hd s = CHR ''+'') then tl s else s);
          ds = takeWhile is_digit s
      in if ds = '''' then None else Some (sign * int (read_nat ds), dropWhile is_digit s))"

lemma dropWhile_show_nat: "dropWhile is_space (show_nat n @ s) = show_nat n @ s"
proof -
  obtain c cs where c: "show_nat n = c # cs" by (cases "show_nat n") auto
  have "is_digit c" using hd_show_nat_digit[of n] unfolding c by simp
  then have "\<not> is_space c" by (auto simp: is_digit_def is_space_def)
  then show ?thesis unfolding c by simp
qed

lemma scan_int_show:
  assumes "0 \<le> i" "s = [] \<or> \<not> is_digit (hd s)"
  shows "scan_int (show_int i @ s) = Some (i, s)" "dropWhile is_space (show_int i @ s) = show_int i @ s"
proof -
  obtain n where n: "i = int n" using assms(1) nonneg_int_cases by blast
  obtain c cs where c: "show_nat n = c # cs" by (cases "show_nat n") auto
  have d: "is_digit c" using hd_show_nat_digit[of n] unfolding c by simp
  then have nosign: "c \<noteq> CHR ''-''" "c \<noteq> CHR ''+''" by (auto simp: is_digit_def)
  have all: "\<And>x. x \<in> set (show_nat n) \<Longrightarrow> is_digit x" using show_nat_digits by blast
  note t = takeWhile_run[of "show_nat n" is_digit s, OF all assms(2)] dropWhile_run[of "show_nat n" is_digit s, OF all assms(2)]
  show "scan_int (show_int i @ s) = Some (i, s)"
    using t nosign dropWhile_show_nat[of n s] by (simp add: n scan_int_def show_int_def Let_def c) (simp flip: c)
  show "dropWhile is_space (show_int i @ s) = show_int i @ s" by (simp add: n show_int_def dropWhile_show_nat)
qed


section \<open>Hand-written comparison operators\<close>

text \<open>
  The classes of the source each define \<open>operator<\<close> by hand, and the equality of two objects is
  that neither is below the other. \<open>insert_unique\<close> is the loop by which the source keeps its
  constraint lists sorted and free of duplicates: an equal element is dropped, the first larger
  one gets the new element before it, and otherwise the new element goes to the end.
\<close>

definition incomparable :: "('a \<Rightarrow> 'a \<Rightarrow> bool) \<Rightarrow> 'a \<Rightarrow> 'a \<Rightarrow> bool" where
  "incomparable lt a b \<longleftrightarrow> \<not> (lt a b \<or> lt b a)"

fun insert_unique :: "('a \<Rightarrow> 'a \<Rightarrow> bool) \<Rightarrow> 'a \<Rightarrow> 'a list \<Rightarrow> 'a list" where
  "insert_unique lt x [] = [x]"
| "insert_unique lt x (y # ys) =
     (if incomparable lt x y then y # ys
      else if lt x y then x # y # ys
      else y # insert_unique lt x ys)"

text \<open>The element loop of the comparison operators over two lists of the same length.\<close>

fun list_less :: "('a \<Rightarrow> 'a \<Rightarrow> bool) \<Rightarrow> 'a list \<Rightarrow> 'a list \<Rightarrow> bool" where
  "list_less lt (x # xs) (y # ys) =
     (if lt x y then True else if lt y x then False else list_less lt xs ys)"
| "list_less lt _ _ = False"

text \<open>
  The interface: an \<open>operator<\<close> that is the strict order of a key in a linear order. It gives what
  the source expects of the operator (a strict weak order) and what the loop makes of it.
\<close>

locale keyed_order =
  fixes lt :: "'a \<Rightarrow> 'a \<Rightarrow> bool"
    and key :: "'a \<Rightarrow> 'k::linorder"
  assumes lt_key: "lt a b \<longleftrightarrow> key a < key b"
begin

lemma irreflexive: "\<not> lt a a"
  by (simp add: lt_key)

lemma transitive: "lt a b \<Longrightarrow> lt b c \<Longrightarrow> lt a c"
  by (auto simp: lt_key)

lemma incomparable_key: "incomparable lt a b \<longleftrightarrow> key a = key b"
  by (auto simp: incomparable_def lt_key)

lemma strict_weak_order:
  "\<not> lt a a \<and> (lt a b \<longrightarrow> \<not> lt b a) \<and> (lt a b \<and> lt b c \<longrightarrow> lt a c)
   \<and> (incomparable lt a b \<and> incomparable lt b c \<longrightarrow> incomparable lt a c)"
  by (auto simp: incomparable_key lt_key)

lemma list_less_key:
  "length xs = length ys \<Longrightarrow> list_less lt xs ys \<longleftrightarrow> map key xs < map key ys"
  by (induction xs ys rule: list_induct2) (auto simp: lt_key)

lemma keys_insert_unique: "key ` set (insert_unique lt x xs) = insert (key x) (key ` set xs)"
  by (induction xs) (auto simp: incomparable_key)

lemma set_insert_unique: "set (insert_unique lt x xs) \<subseteq> insert x (set xs)"
  by (induction xs) auto

lemma sorted_insert_unique:
  "sorted_wrt lt xs \<Longrightarrow> sorted_wrt lt (insert_unique lt x xs)"
proof (induction xs)
  case (Cons y ys)
  have "lt y z" if "z \<in> set (insert_unique lt x ys)" "\<not> incomparable lt x y" "\<not> lt x y" for z
  proof -
    from that have "lt y x" by (auto simp: incomparable_def)
    with that(1) set_insert_unique[of x ys] Cons.prems show ?thesis by auto
  qed
  moreover have "\<forall>z \<in> set ys. lt x y \<longrightarrow> lt x z"
    using Cons.prems by (auto intro: transitive)
  ultimately show ?case using Cons by auto
qed simp

lemma insert_unique_member:
  "key x \<in> key ` set xs \<Longrightarrow> sorted_wrt lt xs \<Longrightarrow> insert_unique lt x xs = xs"
  by (induction xs) (auto simp: incomparable_key lt_key)

lemma sorted_keys: "sorted_wrt lt xs \<longleftrightarrow> sorted_wrt (<) (map key xs)"
proof -
  have "lt = (\<lambda>a b. key a < key b)" by (intro ext) (rule lt_key)
  then show ?thesis by (simp add: sorted_wrt_map)
qed

end

text \<open>
  A constraint list is such a list of objects that hold or do not hold at a point; objects with the
  same key hold at the same points. The loop adds one constraint and changes nothing else.
\<close>

locale keyed_constraints = keyed_order lt key
  for lt :: "'a \<Rightarrow> 'a \<Rightarrow> bool" and key :: "'a \<Rightarrow> 'k::linorder" +
  fixes ok :: "'a \<Rightarrow> bool"
    and holds :: "'i \<Rightarrow> 'a \<Rightarrow> bool"
  assumes holds_key: "ok a \<Longrightarrow> ok b \<Longrightarrow> key a = key b \<Longrightarrow> holds I a \<longleftrightarrow> holds I b"
begin

lemma all_insert_unique:
  "ok x \<Longrightarrow> (\<forall>y \<in> set xs. ok y) \<Longrightarrow>
    (\<forall>y \<in> set (insert_unique lt x xs). holds I y) \<longleftrightarrow> holds I x \<and> (\<forall>y \<in> set xs. holds I y)"
proof (induction xs)
  case (Cons y ys)
  then have "key x = key y \<Longrightarrow> holds I x \<longleftrightarrow> holds I y" by (intro holds_key) auto
  with Cons show ?case by (auto simp: incomparable_key)
qed simp

lemma ex_insert_unique:
  "ok x \<Longrightarrow> (\<forall>y \<in> set xs. ok y) \<Longrightarrow>
    (\<exists>y \<in> set (insert_unique lt x xs). holds I y) \<longleftrightarrow> holds I x \<or> (\<exists>y \<in> set xs. holds I y)"
proof (induction xs)
  case (Cons y ys)
  then have "key x = key y \<Longrightarrow> holds I x \<longleftrightarrow> holds I y" by (intro holds_key) auto
  with Cons show ?case by (auto simp: incomparable_key)
qed simp

lemma ok_insert_unique:
  "ok x \<Longrightarrow> (\<forall>y \<in> set xs. ok y) \<Longrightarrow> \<forall>y \<in> set (insert_unique lt x xs). ok y"
  using set_insert_unique[of x xs] by auto

end

end
