(* ===== verification/Std_Map.thy ===== *)
theory Std_Map
  imports Prelude
begin

text \<open>
  The part of \<open>std::map\<close> and \<open>std::set\<close> the source relies on, for any comparison operator: the
  entries in increasing order of their keys, two keys equal when neither is below the other.
  \<open>std_find\<close> is \<open>find\<close>, \<open>std_insert\<close> is \<open>insert\<close> (an existing entry stays) and \<open>std_assign\<close> is
  the assignment through \<open>operator[]\<close> (an existing entry is overwritten, under its old key).
\<close>

type_synonym ('k, 'v) std_map = "('k \<times> 'v) list"

fun std_find :: "('k \<Rightarrow> 'k \<Rightarrow> bool) \<Rightarrow> 'k \<Rightarrow> ('k, 'v) std_map \<Rightarrow> 'v option" where
  "std_find lt k [] = None"
| "std_find lt k (q # m) = (if incomparable lt k (fst q) then Some (snd q) else std_find lt k m)"

fun std_insert :: "('k \<Rightarrow> 'k \<Rightarrow> bool) \<Rightarrow> 'k \<Rightarrow> 'v \<Rightarrow> ('k, 'v) std_map \<Rightarrow> ('k, 'v) std_map" where
  "std_insert lt k v [] = [(k, v)]"
| "std_insert lt k v (q # m) =
     (if incomparable lt k (fst q) then q # m
      else if lt k (fst q) then (k, v) # q # m
      else q # std_insert lt k v m)"

fun std_assign :: "('k \<Rightarrow> 'k \<Rightarrow> bool) \<Rightarrow> 'k \<Rightarrow> 'v \<Rightarrow> ('k, 'v) std_map \<Rightarrow> ('k, 'v) std_map" where
  "std_assign lt k v [] = [(k, v)]"
| "std_assign lt k v (q # m) =
     (if incomparable lt k (fst q) then (fst q, v) # m
      else if lt k (fst q) then (k, v) # q # m
      else q # std_assign lt k v m)"

text \<open>\<open>m.insert(other.begin(), other.end())\<close>\<close>

definition std_insert_range :: "('k \<Rightarrow> 'k \<Rightarrow> bool) \<Rightarrow> ('k, 'v) std_map \<Rightarrow> ('k, 'v) std_map \<Rightarrow> ('k, 'v) std_map" where
  "std_insert_range lt m other = foldl (\<lambda>acc q. std_insert lt (fst q) (snd q) acc) m other"

fun std_ok :: "('k \<Rightarrow> 'k \<Rightarrow> bool) \<Rightarrow> ('k, 'v) std_map \<Rightarrow> bool" where
  "std_ok lt [] = True"
| "std_ok lt (q # m) \<longleftrightarrow> list_all (\<lambda>r. lt (fst q) (fst r)) m \<and> std_ok lt m"

context keyed_order
begin

lemma find_key: "key k = key k' \<Longrightarrow> std_find lt k m = std_find lt k' m"
  by (induction m) (auto simp: incomparable_key)

lemma find_below: "std_ok lt m \<Longrightarrow> \<forall>q \<in> set m. lt k (fst q) \<Longrightarrow> std_find lt k m = None"
  by (induction m) (auto simp: incomparable_def)

lemma std_ok_Cons:
  "std_ok lt (q # m) \<longleftrightarrow> (\<forall>x \<in> key ` fst ` set m. key (fst q) < x) \<and> std_ok lt m"
  using lt_key[of "fst q"] by (simp add: list_all_iff)

lemma find_iff: "std_ok lt m \<Longrightarrow> std_find lt k m = Some v \<longleftrightarrow> (\<exists>q \<in> set m. key (fst q) = key k \<and> snd q = v)"
  by (induction m) (auto simp: incomparable_key std_ok_Cons simp del: std_ok.simps(2) split: if_splits)

lemma find_None_iff: "std_find lt k m = None \<longleftrightarrow> (\<forall>q \<in> set m. key (fst q) \<noteq> key k)"
  by (induction m) (auto simp: incomparable_key)

lemma insert_keys: "key ` fst ` set (std_insert lt k v m) = insert (key k) (key ` fst ` set m)"
  by (induction m) (auto simp: incomparable_key)

lemma assign_keys: "key ` fst ` set (std_assign lt k v m) = insert (key k) (key ` fst ` set m)"
  by (induction m) (auto simp: incomparable_key)

lemma insert_ok: "std_ok lt m \<Longrightarrow> std_ok lt (std_insert lt k v m)"
proof (induction m)
  case (Cons q m)
  then show ?case
    by (cases "key k" "key (fst q)" rule: linorder_cases)
       (auto simp: incomparable_key lt_key[of k "fst q"] std_ok_Cons insert_keys simp del: std_ok.simps(2))
qed simp

lemma assign_ok: "std_ok lt m \<Longrightarrow> std_ok lt (std_assign lt k v m)"
proof (induction m)
  case (Cons q m)
  then show ?case
    by (cases "key k" "key (fst q)" rule: linorder_cases)
       (auto simp: incomparable_key lt_key[of k "fst q"] std_ok_Cons assign_keys simp del: std_ok.simps(2))
qed simp

lemma find_insert:
  "std_ok lt m \<Longrightarrow> std_find lt k' (std_insert lt k v m) =
     (if key k = key k' then (case std_find lt k m of None \<Rightarrow> Some v | Some w \<Rightarrow> Some w)
      else std_find lt k' m)"
proof (induction m)
  case (Cons q m)
  have "key k < key (fst q) \<Longrightarrow> std_find lt k m = None"
    using Cons.prems by (intro find_below) (auto simp: list_all_iff lt_key[of k "fst q", symmetric] intro: transitive)
  moreover have "key k = key k' \<Longrightarrow> std_find lt k m = std_find lt k' m" by (rule find_key)
  ultimately show ?case using Cons lt_key[of k "fst q"] by (auto simp: incomparable_key)
qed (auto simp: incomparable_key)

lemma find_assign:
  "std_find lt k' (std_assign lt k v m) = (if key k = key k' then Some v else std_find lt k' m)"
  by (induction m) (auto simp: incomparable_key)

lemma insert_range_ok: "std_ok lt m \<Longrightarrow> std_ok lt (std_insert_range lt m other)"
  by (induction other arbitrary: m) (simp_all add: std_insert_range_def insert_ok)

lemma find_insert_range:
  "std_ok lt m \<Longrightarrow> std_find lt k (std_insert_range lt m other) =
     (case std_find lt k m of None \<Rightarrow> std_find lt k other | Some v \<Rightarrow> Some v)"
proof (induction other arbitrary: m)
  case (Cons q other)
  from Cons.IH[OF insert_ok[OF Cons.prems], of "fst q" "snd q"] find_key[of "fst q" k m]
  show ?case
    by (auto simp: std_insert_range_def find_insert[OF Cons.prems] incomparable_key split: option.splits)
qed (simp add: std_insert_range_def split: option.splits)

end

text \<open>Keys that are compared by value, as strings and integers are.\<close>

interpretation by_value: keyed_order "(<) :: 'a::linorder \<Rightarrow> 'a \<Rightarrow> bool" "\<lambda>x. x"
  by unfold_locales simp

end
