(* ===== verification/Environment.thy ===== *)
theory Environment
  imports Std_Map
begin

text \<open>
  The environment of declared uninterpreted functions (\<open>IEGenLib/src/set_relation/environment.h\<close>,
  \<open>environment.cc\<close>, \<open>UninterpFunc.h\<close>, \<open>UninterpFunc.cc\<close>): domains, ranges, inverses and the
  quantified monotonicity rules. Sets are a parameter \<open>'s\<close> here: the environment stores and copies
  them, and asks for nothing but their arity (\<open>arity\<close>) and their construction from a string
  (\<open>new_Set\<close>), both arguments of the operations that use them. The global \<open>currentEnv\<close> is the state
  each operation takes and returns. An operation that may throw returns the environment it leaves
  behind and the exception, since \<open>append\<close> throws halfway.
\<close>

section \<open>State\<close>

datatype monotonic_type =
  Monotonic_NONE | Monotonic_Nondecreasing | Monotonic_Increasing
  | Monotonic_Nonincreasing | Monotonic_Decreasing

record 's uninterp_func =
  mName :: string
  mDomain :: 's
  mRange :: 's
  mIsBijective :: bool
  mMonoType :: monotonic_type

datatype uniq_rule_type =
  Monotonicity | CoMonotonicity | Triangularity | DomainRange | FuncConsistency | TheOthers

record 's uniq_rule =
  mUniQuantRuleType :: uniq_rule_type
  mLeftSide :: 's
  mRightSide :: 's

record 's environment =
  mUninterpFuncMap :: "(string, 's uninterp_func) std_map"
  mInverseMap :: "(string, string) std_map"
  uniQuantRules :: "'s uniq_rule list"

definition empty_env :: "'s environment" where
  "empty_env = \<lparr>mUninterpFuncMap = [], mInverseMap = [], uniQuantRules = []\<rparr>"

abbreviation find_s :: "string \<Rightarrow> (string, 'v) std_map \<Rightarrow> 'v option" where
  "find_s \<equiv> std_find (<)"

abbreviation assign_s :: "string \<Rightarrow> 'v \<Rightarrow> (string, 'v) std_map \<Rightarrow> (string, 'v) std_map" where
  "assign_s \<equiv> std_assign (<)"

section \<open>Operations\<close>

text \<open>The constructor \<open>Environment(UninterpFunc*)\<close> starts from empty maps.\<close>

definition Environment_of :: "'s uninterp_func \<Rightarrow> 's environment result" where
  "Environment_of symfunc =
     (let env = empty_env; name = mName symfunc; inv_name = name @ ''_inv'' in
      if find_s name (mUninterpFuncMap env) \<noteq> None
      then Inl (Assert_exception
        ''Environment::Environment: UninterpFunc of same name already exists.'')
      else
        let env1 = env\<lparr>mUninterpFuncMap := assign_s name symfunc (mUninterpFuncMap env)\<rparr> in
        if mIsBijective symfunc then
          if find_s inv_name (mUninterpFuncMap env1) = None then
            Inr (env1\<lparr>
              mUninterpFuncMap := assign_s inv_name
                \<lparr>mName = inv_name, mDomain = mRange symfunc, mRange = mDomain symfunc,
                 mIsBijective = True, mMonoType = Monotonic_NONE\<rparr> (mUninterpFuncMap env1),
              mInverseMap := assign_s inv_name name (assign_s name inv_name (mInverseMap env1))\<rparr>)
          else Inl (Assert_exception (''Environment::Environment: UninterpFunc of same name '' @
            ''already exists for automatically created inverse''))
        else Inr env1)"

text \<open>The loop of \<open>append\<close> stops at the first function that is declared already.\<close>

fun append_funcs ::
  "(string, 's uninterp_func) std_map \<Rightarrow> (string, 's uninterp_func) std_map \<Rightarrow>
     (string, 's uninterp_func) std_map \<times> error option" where
  "append_funcs m [] = (m, None)"
| "append_funcs m (q # other) =
     (if find_s (fst q) m \<noteq> None
      then (m, Some (Assert_exception ''Environment::append: attempting to append duplicate UFs.''))
      else append_funcs (assign_s (fst q) (snd q) m) other)"

definition append_env :: "'s environment \<Rightarrow> 's environment \<Rightarrow> 's environment \<times> error option" where
  "append_env env other =
     (let env1 = env\<lparr>mInverseMap := std_insert_range (<) (mInverseMap env) (mInverseMap other)\<rparr>;
          (funcs, err) = append_funcs (mUninterpFuncMap env1) (mUninterpFuncMap other)
      in (env1\<lparr>mUninterpFuncMap := funcs\<rparr>, err))"

definition reset_env :: "'s environment \<Rightarrow> 's environment" where
  "reset_env env = env\<lparr>mUninterpFuncMap := [], mInverseMap := []\<rparr>"

definition environment_assign :: "'s environment \<Rightarrow> 's environment \<Rightarrow> 's environment" where
  "environment_assign env other =
     env\<lparr>mInverseMap := foldl (\<lambda>m q. assign_s (fst q) (snd q) m) (mInverseMap env) (mInverseMap other)\<rparr>"

definition setInverse :: "'s environment \<Rightarrow> string \<Rightarrow> string \<Rightarrow> 's environment" where
  "setInverse env funcName inverseName =
     env\<lparr>mInverseMap := assign_s inverseName funcName (assign_s funcName inverseName (mInverseMap env))\<rparr>"

definition funcInverse :: "'s environment \<Rightarrow> string \<Rightarrow> string" where
  "funcInverse env funcName =
     (case find_s funcName (mInverseMap env) of None \<Rightarrow> '''' | Some g \<Rightarrow> g)"

definition hasInverse :: "'s environment \<Rightarrow> string \<Rightarrow> bool" where
  "hasInverse env funcName \<longleftrightarrow> funcInverse env funcName \<noteq> ''''"

definition funcDomain :: "'s environment \<Rightarrow> string \<Rightarrow> 's option" where
  "funcDomain env funcName = map_option mDomain (find_s funcName (mUninterpFuncMap env))"

definition funcRange :: "'s environment \<Rightarrow> string \<Rightarrow> 's option" where
  "funcRange env funcName = map_option mRange (find_s funcName (mUninterpFuncMap env))"

definition funcMonoType :: "'s environment \<Rightarrow> string \<Rightarrow> monotonic_type" where
  "funcMonoType env funcName =
     (case find_s funcName (mUninterpFuncMap env) of None \<Rightarrow> Monotonic_NONE | Some f \<Rightarrow> mMonoType f)"

definition Environment_toString :: "'s environment \<Rightarrow> string" where
  "Environment_toString env =
     ''Environment:'' @ [CHR 0x0A] @
     concat (map (\<lambda>q. ''    '' @ fst q @ '' ==> '' @ snd q @ [CHR 0x0A]) (mInverseMap env))"

definition addUniQuantRule :: "'s environment \<Rightarrow> 's uniq_rule \<Rightarrow> 's environment" where
  "addUniQuantRule env uqRule = env\<lparr>uniQuantRules := uniQuantRules env @ [uqRule]\<rparr>"

definition getNoUniQuantRules :: "'s environment \<Rightarrow> nat" where
  "getNoUniQuantRules env = length (uniQuantRules env)"

definition getUniQuantRule :: "'s environment \<Rightarrow> int \<Rightarrow> 's uniq_rule result" where
  "getUniQuantRule env idx =
     (if 0 \<le> idx \<and> nat idx < length (uniQuantRules env)
      then Inr (uniQuantRules env ! nat idx)
      else Inl (Undefined ''vector index out of bounds''))"

definition UniQuantRule ::
  "(string \<Rightarrow> 's) \<Rightarrow> string \<Rightarrow> string \<Rightarrow> string \<Rightarrow> string \<Rightarrow> 's uniq_rule" where
  "UniQuantRule new_Set type tupleDecl leftSide rightSide =
     (let leftSideSet = ''{'' @ tupleDecl @ '' : '' @ leftSide @ '' }'';
          rightSideSet = ''{'' @ tupleDecl @ '' : '' @ rightSide @ '' }''
      in \<lparr>mUniQuantRuleType =
            (if type = ''Monotonicity'' then Monotonicity
             else if type = ''CoMonotonicity'' then CoMonotonicity
             else if type = ''Triangularity'' then Triangularity
             else if type = ''FuncConsistency'' then FuncConsistency
             else TheOthers),
          mLeftSide = new_Set leftSideSet, mRightSide = new_Set rightSideSet\<rparr>)"

section \<open>The current environment\<close>

definition setCurrEnv :: "'s environment \<Rightarrow> 's environment" where
  "setCurrEnv env = reset_env env"

text \<open>The rules of \<open>appendCurrEnv\<close>, in the order they are added.\<close>

definition monotonicity_sides :: "string \<Rightarrow> monotonic_type \<Rightarrow> (string \<times> string) list" where
  "monotonicity_sides funcName monoType =
     (if Monotonic_Increasing = monoType then
        [(''e1 < e2'', funcName @ ''(e1) < '' @ funcName @ ''(e2)''),
         (funcName @ ''(e1) < '' @ funcName @ ''(e2)'', ''e1 < e2'')]
      else if Monotonic_Nondecreasing = monoType then
        [(''e1 < e2'', funcName @ ''(e1) <= '' @ funcName @ ''(e2)'')]
      else if Monotonic_Decreasing = monoType then
        [(''e1 < e2'', funcName @ ''(e1) > '' @ funcName @ ''(e2)''),
         (funcName @ ''(e1) < '' @ funcName @ ''(e2)'', ''e1 > e2'')]
      else if Monotonic_Nonincreasing = monoType then
        [(''e1 < e2'', funcName @ ''(e1) >= '' @ funcName @ ''(e2)'')]
      else [])"

text \<open>
  \<open>currentEnv.append\<close> deletes the environment it is given and with it the sets \<open>domain\<close> and
  \<open>range\<close>, whose arities the source reads afterwards; the arities here are those of the sets passed.
\<close>

definition appendCurrEnv ::
  "(string \<Rightarrow> 's) \<Rightarrow> ('s \<Rightarrow> nat) \<Rightarrow> 's environment \<Rightarrow>
     string \<Rightarrow> 's \<Rightarrow> 's \<Rightarrow> bool \<Rightarrow> monotonic_type \<Rightarrow> 's environment \<times> error option" where
  "appendCurrEnv new_Set arity currentEnv funcName dom_set ran_set bijective monoType =
     (let ufunc = \<lparr>mName = funcName, mDomain = dom_set, mRange = ran_set,
                   mIsBijective = bijective, mMonoType = monoType\<rparr>
      in case Environment_of ufunc of
           Inl e \<Rightarrow> (currentEnv, Some e)
         | Inr env \<Rightarrow>
             (case append_env currentEnv env of
                (env1, Some e) \<Rightarrow> (env1, Some e)
              | (env1, None) \<Rightarrow>
                  (if arity dom_set = 1 \<and> arity ran_set = 1
                   then foldl (\<lambda>acc s. addUniQuantRule acc
                          (UniQuantRule new_Set ''Monotonicity'' ''[e1,e2]'' (fst s) (snd s)))
                          env1 (monotonicity_sides funcName monoType)
                   else env1, None)))"

definition setCurrEnv_func ::
  "(string \<Rightarrow> 's) \<Rightarrow> ('s \<Rightarrow> nat) \<Rightarrow> 's environment \<Rightarrow>
     string \<Rightarrow> 's \<Rightarrow> 's \<Rightarrow> bool \<Rightarrow> monotonic_type \<Rightarrow> 's environment \<times> error option" where
  "setCurrEnv_func new_Set arity currentEnv funcName dom_set ran_set bijective monoType =
     appendCurrEnv new_Set arity (reset_env currentEnv) funcName dom_set ran_set bijective monoType"

definition queryInverseCurrEnv :: "'s environment \<Rightarrow> string \<Rightarrow> string" where
  "queryInverseCurrEnv currentEnv funcName = funcInverse currentEnv funcName"

definition queryDomainCurrEnv :: "'s environment \<Rightarrow> string \<Rightarrow> 's result" where
  "queryDomainCurrEnv currentEnv funcName =
     (case funcDomain currentEnv funcName of
        None \<Rightarrow> Inl (Assert_exception (''queryDomainCurrEnv: the function '' @ funcName @
                  '' has not been declared in the current environment.''))
      | Some s \<Rightarrow> Inr s)"

definition queryRangeCurrEnv :: "'s environment \<Rightarrow> string \<Rightarrow> 's result" where
  "queryRangeCurrEnv currentEnv funcName =
     (case funcRange currentEnv funcName of
        None \<Rightarrow> Inl (Assert_exception (''queryRangeCurrEnv: the function '' @ funcName @
                  '' has not been declared in the current environment.''))
      | Some s \<Rightarrow> Inr s)"

definition queryMonoTypeEnv :: "'s environment \<Rightarrow> string \<Rightarrow> monotonic_type" where
  "queryMonoTypeEnv currentEnv funcName = funcMonoType currentEnv funcName"

definition queryRangeArityCurrEnv :: "('s \<Rightarrow> nat) \<Rightarrow> 's environment \<Rightarrow> string \<Rightarrow> nat result" where
  "queryRangeArityCurrEnv arity currentEnv funcName =
     bind_result (queryRangeCurrEnv currentEnv funcName) (\<lambda>s. Inr (arity s))"

definition queryDomainArityCurrEnv :: "('s \<Rightarrow> nat) \<Rightarrow> 's environment \<Rightarrow> string \<Rightarrow> nat result" where
  "queryDomainArityCurrEnv arity currentEnv funcName =
     bind_result (queryDomainCurrEnv currentEnv funcName) (\<lambda>s. Inr (arity s))"

section \<open>What the operations do to the maps\<close>

lemma append_funcs_None:
  assumes "append_funcs m other = (m', None)" "std_ok (<) m" "std_ok (<) other"
  shows "std_ok (<) m'" "\<forall>q \<in> set other. find_s (fst q) m = None"
    "find_s k m' = (case find_s k m of None \<Rightarrow> find_s k other | Some v \<Rightarrow> Some v)"
proof -
  have "std_ok (<) m' \<and> (\<forall>q \<in> set other. find_s (fst q) m = None) \<and>
    find_s k m' = (case find_s k m of None \<Rightarrow> find_s k other | Some v \<Rightarrow> Some v)"
    using assms
  proof (induction m other rule: append_funcs.induct)
    case (2 m q other)
    let ?m = "assign_s (fst q) (snd q) m"
    from 2(2,4) have new: "find_s (fst q) m = None" and rest: "append_funcs ?m other = (m', None)"
      and other: "std_ok (<) other" "\<forall>r \<in> set other. fst q < fst r"
      by (auto simp: list_all_iff split: if_splits)
    from 2(1)[OF _ rest by_value.assign_ok[OF 2(3)] other(1)] new
    have IH: "std_ok (<) m' \<and> (\<forall>r \<in> set other. find_s (fst r) ?m = None) \<and>
      find_s k m' = (case find_s k ?m of None \<Rightarrow> find_s k other | Some v \<Rightarrow> Some v)" by simp
    then have "\<forall>r \<in> set other. find_s (fst r) m = None"
      by (auto simp: by_value.find_assign split: if_splits)
    with IH new show ?case
      by (auto simp: by_value.find_assign by_value.incomparable_key split: if_splits option.splits)
  qed (simp split: option.splits)
  then show "std_ok (<) m'" "\<forall>q \<in> set other. find_s (fst q) m = None"
    "find_s k m' = (case find_s k m of None \<Rightarrow> find_s k other | Some v \<Rightarrow> Some v)" by auto
qed

lemma append_funcs_Some:
  "append_funcs m other = (m', Some e) \<Longrightarrow> std_ok (<) other \<Longrightarrow>
    e = Assert_exception ''Environment::append: attempting to append duplicate UFs.''
    \<and> (\<exists>q \<in> set other. find_s (fst q) m \<noteq> None)"
proof (induction m other rule: append_funcs.induct)
  case (2 m q other)
  then show ?case by (auto simp: by_value.find_assign list_all_iff split: if_splits)
qed simp

text \<open>The inverse that is declared along with a bijective function.\<close>

abbreviation inv_name :: "string \<Rightarrow> string" where
  "inv_name f \<equiv> f @ ''_inv''"

definition inverse_func :: "'s uninterp_func \<Rightarrow> 's uninterp_func" where
  "inverse_func f = \<lparr>mName = inv_name (mName f), mDomain = mRange f, mRange = mDomain f,
     mIsBijective = True, mMonoType = Monotonic_NONE\<rparr>"

lemma Environment_of_Inr:
  obtains env where "Environment_of f = Inr env"
    "std_ok (<) (mUninterpFuncMap env)" "std_ok (<) (mInverseMap env)"
    "\<And>k. find_s k (mUninterpFuncMap env) =
       (if mIsBijective f \<and> k = inv_name (mName f) then Some (inverse_func f)
        else if k = mName f then Some f else None)"
    "\<And>k. find_s k (mInverseMap env) =
       (if mIsBijective f \<and> k = inv_name (mName f) then Some (mName f)
        else if mIsBijective f \<and> k = mName f then Some (inv_name (mName f)) else None)"
proof
  let ?e = "if mIsBijective f then
      \<lparr>mUninterpFuncMap = assign_s (inv_name (mName f)) (inverse_func f) [(mName f, f)],
       mInverseMap = assign_s (inv_name (mName f)) (mName f) [(mName f, inv_name (mName f))],
       uniQuantRules = []\<rparr>
    else \<lparr>mUninterpFuncMap = [(mName f, f)], mInverseMap = [], uniQuantRules = []\<rparr>"
  show "Environment_of f = Inr ?e"
    by (simp add: Environment_of_def empty_env_def Let_def inverse_func_def by_value.incomparable_key)
  show "std_ok (<) (mUninterpFuncMap ?e)" "std_ok (<) (mInverseMap ?e)"
    by (simp_all add: by_value.assign_ok del: std_assign.simps)
  show "find_s k (mUninterpFuncMap ?e) =
     (if mIsBijective f \<and> k = inv_name (mName f) then Some (inverse_func f)
      else if k = mName f then Some f else None)" for k
    by (simp add: by_value.find_assign by_value.incomparable_key)
  show "find_s k (mInverseMap ?e) =
     (if mIsBijective f \<and> k = inv_name (mName f) then Some (mName f)
      else if mIsBijective f \<and> k = mName f then Some (inv_name (mName f)) else None)" for k
    by (simp add: by_value.find_assign by_value.incomparable_key)
qed

lemma Environment_of_maps:
  assumes "Environment_of f = Inr env"
  shows "std_ok (<) (mUninterpFuncMap env)"
    "find_s k (mUninterpFuncMap env) =
       (if mIsBijective f \<and> k = inv_name (mName f) then Some (inverse_func f)
        else if k = mName f then Some f else None)"
    "find_s k (mInverseMap env) =
       (if mIsBijective f \<and> k = inv_name (mName f) then Some (mName f)
        else if mIsBijective f \<and> k = mName f then Some (inv_name (mName f)) else None)"
  using assms by (auto intro: Environment_of_Inr[of f])

lemma foldl_addUniQuantRule [simp]:
  "foldl (\<lambda>acc s. addUniQuantRule acc (g s)) env xs =
     env\<lparr>uniQuantRules := uniQuantRules env @ map g xs\<rparr>"
  by (induction xs arbitrary: env) (simp_all add: addUniQuantRule_def)

section \<open>The environment invariant\<close>

text \<open>
  Both maps are sorted; a function is stored under its name; inverses are mutual, both are declared,
  and their domains and ranges are exchanged.
\<close>

definition env_ok :: "'s environment \<Rightarrow> bool" where
  "env_ok env \<longleftrightarrow>
     std_ok (<) (mUninterpFuncMap env) \<and> std_ok (<) (mInverseMap env)
     \<and> (\<forall>k f. find_s k (mUninterpFuncMap env) = Some f \<longrightarrow> mName f = k)
     \<and> (\<forall>f g. find_s f (mInverseMap env) = Some g \<longrightarrow>
          find_s g (mInverseMap env) = Some f
          \<and> (\<exists>a b. find_s f (mUninterpFuncMap env) = Some a \<and> find_s g (mUninterpFuncMap env) = Some b
               \<and> mDomain b = mRange a \<and> mRange b = mDomain a))"

lemma env_ok_empty [simp]: "env_ok empty_env"
  by (simp add: env_ok_def empty_env_def)

lemma env_ok_reset [simp]: "env_ok (reset_env env)"
  by (simp add: env_ok_def reset_env_def)

lemma env_ok_rules [simp]: "env_ok (uniQuantRules_update r env) = env_ok env"
  by (simp add: env_ok_def)

lemma append_env_ok:
  assumes "env_ok env" "env_ok other" "append_env env other = (env', None)"
  shows "env_ok env'"
    "find_s k (mUninterpFuncMap env') =
       (case find_s k (mUninterpFuncMap env) of None \<Rightarrow> find_s k (mUninterpFuncMap other) | Some v \<Rightarrow> Some v)"
    "find_s k (mInverseMap env') =
       (case find_s k (mInverseMap env) of None \<Rightarrow> find_s k (mInverseMap other) | Some v \<Rightarrow> Some v)"
proof -
  let ?inv = "std_insert_range (<) (mInverseMap env) (mInverseMap other)"
  obtain funcs where app: "append_funcs (mUninterpFuncMap env) (mUninterpFuncMap other) = (funcs, None)"
    and env': "env' = env\<lparr>mInverseMap := ?inv, mUninterpFuncMap := funcs\<rparr>"
    using assms(3) by (auto simp: append_env_def Let_def split: prod.splits)
  have ok: "std_ok (<) (mUninterpFuncMap env)" "std_ok (<) (mInverseMap env)"
    "std_ok (<) (mUninterpFuncMap other)"
    using assms(1,2) by (simp_all add: env_ok_def)
  note A = append_funcs_None[OF app ok(1,3)]
  have I: "find_s k ?inv = (case find_s k (mInverseMap env) of None \<Rightarrow> find_s k (mInverseMap other) | Some v \<Rightarrow> Some v)" for k
    by (rule by_value.find_insert_range[OF ok(2)])
  have new: "find_s k (mUninterpFuncMap env) = None" if "find_s k (mUninterpFuncMap other) = Some f" for k f
    using A(2) that by (auto simp: by_value.find_iff[OF ok(3)])
  show "find_s k (mUninterpFuncMap env') =
       (case find_s k (mUninterpFuncMap env) of None \<Rightarrow> find_s k (mUninterpFuncMap other) | Some v \<Rightarrow> Some v)"
    "find_s k (mInverseMap env') =
       (case find_s k (mInverseMap env) of None \<Rightarrow> find_s k (mInverseMap other) | Some v \<Rightarrow> Some v)"
    using A(3) I by (simp_all add: env')
  have inv: "find_s g ?inv = Some f \<and> (\<exists>a b. find_s f funcs = Some a \<and> find_s g funcs = Some b
      \<and> mDomain b = mRange a \<and> mRange b = mDomain a)" if "find_s f ?inv = Some g" for f g
  proof (cases "find_s f (mInverseMap env)")
    case None
    with that have g: "find_s f (mInverseMap other) = Some g" by (simp add: I)
    with assms(2) obtain a b where o: "find_s g (mInverseMap other) = Some f"
      "find_s f (mUninterpFuncMap other) = Some a" "find_s g (mUninterpFuncMap other) = Some b"
      "mDomain b = mRange a" "mRange b = mDomain a" unfolding env_ok_def by blast
    have "find_s g (mInverseMap env) = None"
    proof (rule ccontr)
      assume "find_s g (mInverseMap env) \<noteq> None"
      then obtain h where "find_s g (mInverseMap env) = Some h" by blast
      then have "find_s g (mUninterpFuncMap env) \<noteq> None"
        using assms(1) unfolding env_ok_def by blast
      with new[OF o(3)] show False by simp
    qed
    with o new[OF o(2)] new[OF o(3)] show ?thesis by (simp add: I A(3))
  next
    case (Some h)
    with that have "find_s f (mInverseMap env) = Some g" by (simp add: I)
    with assms(1) have "find_s g (mInverseMap env) = Some f
      \<and> (\<exists>a b. find_s f (mUninterpFuncMap env) = Some a \<and> find_s g (mUninterpFuncMap env) = Some b
           \<and> mDomain b = mRange a \<and> mRange b = mDomain a)" unfolding env_ok_def by blast
    then show ?thesis by (auto simp: I A(3))
  qed
  have names: "mName f = k" if "find_s k funcs = Some f" for k f
  proof -
    have n: "\<forall>f. find_s k (mUninterpFuncMap env) = Some f \<longrightarrow> mName f = k"
      "\<forall>f. find_s k (mUninterpFuncMap other) = Some f \<longrightarrow> mName f = k"
      using assms(1,2) unfolding env_ok_def by blast+
    with that show ?thesis
      by (cases "find_s k (mUninterpFuncMap env)") (simp_all add: A(3))
  qed
  have maps: "mUninterpFuncMap env' = funcs" "mInverseMap env' = ?inv" by (simp_all add: env')
  show "env_ok env'"
    unfolding env_ok_def maps using inv names A(1) by_value.insert_range_ok[OF ok(2)] by blast
qed

lemma Environment_of_ok:
  assumes "Environment_of f = Inr env"
  shows "env_ok env"
proof (rule Environment_of_Inr[of f])
  fix env'
  assume *: "Environment_of f = Inr env'"
    "std_ok (<) (mUninterpFuncMap env')" "std_ok (<) (mInverseMap env')"
    and F: "\<And>k. find_s k (mUninterpFuncMap env') =
       (if mIsBijective f \<and> k = inv_name (mName f) then Some (inverse_func f)
        else if k = mName f then Some f else None)"
    and I: "\<And>k. find_s k (mInverseMap env') =
       (if mIsBijective f \<and> k = inv_name (mName f) then Some (mName f)
        else if mIsBijective f \<and> k = mName f then Some (inv_name (mName f)) else None)"
  have "env = env'" using * assms by simp
  moreover have "find_s h (mInverseMap env') = Some g \<Longrightarrow>
      mIsBijective f \<and> (h = mName f \<and> g = inv_name (mName f) \<or> h = inv_name (mName f) \<and> g = mName f)" for g h
    by (simp add: I split: if_splits)
  ultimately show ?thesis using *(2,3)
    by (force simp: env_ok_def F I inverse_func_def split: if_splits)
qed

lemma appendCurrEnv_cases:
  assumes "appendCurrEnv new_Set arity env f d r bj mt = (env', err)"
  obtains e where "err = Some e" "\<And>ef. Environment_of \<lparr>mName = f, mDomain = d, mRange = r,
      mIsBijective = bj, mMonoType = mt\<rparr> = Inr ef \<Longrightarrow> append_env env ef = (env', Some e)"
  | ef env1 rs where "err = None" "Environment_of \<lparr>mName = f, mDomain = d, mRange = r,
      mIsBijective = bj, mMonoType = mt\<rparr> = Inr ef" "append_env env ef = (env1, None)"
      "env' = env1\<lparr>uniQuantRules := uniQuantRules env1 @ rs\<rparr>"
      "rs = (if arity d = 1 \<and> arity r = 1
        then map (\<lambda>s. UniQuantRule new_Set ''Monotonicity'' ''[e1,e2]'' (fst s) (snd s))
          (monotonicity_sides f mt) else [])"
proof (rule Environment_of_Inr[of "\<lparr>mName = f, mDomain = d, mRange = r,
      mIsBijective = bj, mMonoType = mt\<rparr>"])
  fix ef
  assume ef: "Environment_of \<lparr>mName = f, mDomain = d, mRange = r,
      mIsBijective = bj, mMonoType = mt\<rparr> = Inr ef"
  show thesis
  proof (cases "append_env env ef")
    case (Pair env1 err1)
    show thesis
    proof (cases err1)
      case None
      have "env1 = env1\<lparr>uniQuantRules := uniQuantRules env1 @ []\<rparr>" by simp
      with None Pair ef assms that(2) show thesis
        by (fastforce simp: appendCurrEnv_def Let_def split: if_splits)
    next
      case (Some e)
      with Pair ef assms have "err = Some e" "append_env env ef = (env', Some e)"
        by (simp_all add: appendCurrEnv_def Let_def)
      with ef show thesis by (intro that(1)[of e]) simp_all
    qed
  qed
qed

lemma appendCurrEnv_ok:
  assumes "env_ok env" "appendCurrEnv new_Set arity env f d r bj mt = (env', None)"
  shows "env_ok env'"
    "find_s k (mUninterpFuncMap env') = (case find_s k (mUninterpFuncMap env) of
       Some v \<Rightarrow> Some v
     | None \<Rightarrow> (let F = \<lparr>mName = f, mDomain = d, mRange = r, mIsBijective = bj, mMonoType = mt\<rparr> in
         if bj \<and> k = inv_name f then Some (inverse_func F) else if k = f then Some F else None))"
    "find_s k (mInverseMap env') = (case find_s k (mInverseMap env) of
       Some v \<Rightarrow> Some v
     | None \<Rightarrow> if bj \<and> k = inv_name f then Some f else if bj \<and> k = f then Some (inv_name f) else None)"
    "find_s f (mUninterpFuncMap env) = None \<and> (bj \<longrightarrow> find_s (inv_name f) (mUninterpFuncMap env) = None)"
proof -
  let ?F = "\<lparr>mName = f, mDomain = d, mRange = r, mIsBijective = bj, mMonoType = mt\<rparr>"
  have "env_ok env' \<and> find_s k (mUninterpFuncMap env') = (case find_s k (mUninterpFuncMap env) of
       Some v \<Rightarrow> Some v
     | None \<Rightarrow> if bj \<and> k = inv_name f then Some (inverse_func ?F) else if k = f then Some ?F else None)
    \<and> find_s k (mInverseMap env') = (case find_s k (mInverseMap env) of
       Some v \<Rightarrow> Some v
     | None \<Rightarrow> if bj \<and> k = inv_name f then Some f else if bj \<and> k = f then Some (inv_name f) else None)
    \<and> find_s f (mUninterpFuncMap env) = None \<and> (bj \<longrightarrow> find_s (inv_name f) (mUninterpFuncMap env) = None)"
    using assms(2)
  proof (cases rule: appendCurrEnv_cases)
    case (2 ef env1 rs)
    note E = Environment_of_maps[OF 2(2), simplified]
    note A = append_env_ok[OF assms(1) Environment_of_ok[OF 2(2)] 2(3)]
    obtain funcs where F: "append_funcs (mUninterpFuncMap env) (mUninterpFuncMap ef) = (funcs, None)"
      using 2(3) by (auto simp: append_env_def Let_def split: prod.splits)
    have ok: "std_ok (<) (mUninterpFuncMap env)" "std_ok (<) (mUninterpFuncMap ef)"
      using assms(1) E(1) by (simp_all add: env_ok_def)
    have new: "find_s k (mUninterpFuncMap env) = None" if "find_s k (mUninterpFuncMap ef) = Some g" for k g
      using append_funcs_None(2)[OF F ok] that by (auto simp: by_value.find_iff[OF ok(2)])
    have "find_s f (mUninterpFuncMap env) = None" by (rule new) (simp add: E(2))
    moreover have "find_s (inv_name f) (mUninterpFuncMap env) = None" if bj
      by (rule new) (use that in \<open>simp add: E(2)\<close>)
    ultimately show ?thesis
      using A(1) by (simp add: 2(4) A(2,3) E(2,3) cong: option.case_cong)
  qed simp
  then show "env_ok env'"
    "find_s k (mUninterpFuncMap env') = (case find_s k (mUninterpFuncMap env) of
       Some v \<Rightarrow> Some v
     | None \<Rightarrow> (let F = ?F in
         if bj \<and> k = inv_name f then Some (inverse_func F) else if k = f then Some F else None))"
    "find_s k (mInverseMap env') = (case find_s k (mInverseMap env) of
       Some v \<Rightarrow> Some v
     | None \<Rightarrow> if bj \<and> k = inv_name f then Some f else if bj \<and> k = f then Some (inv_name f) else None)"
    "find_s f (mUninterpFuncMap env) = None \<and> (bj \<longrightarrow> find_s (inv_name f) (mUninterpFuncMap env) = None)"
    by (simp_all add: Let_def cong: option.case_cong)
qed

lemma appendCurrEnv_error:
  assumes "env_ok env" "appendCurrEnv new_Set arity env f d r bj mt = (env', Some e)"
  shows "e = Assert_exception ''Environment::append: attempting to append duplicate UFs.''"
    "find_s f (mUninterpFuncMap env) \<noteq> None \<or> bj \<and> find_s (inv_name f) (mUninterpFuncMap env) \<noteq> None"
proof -
  let ?F = "\<lparr>mName = f, mDomain = d, mRange = r, mIsBijective = bj, mMonoType = mt\<rparr>"
  obtain ef where ef: "Environment_of ?F = Inr ef"
    by (rule Environment_of_Inr[of ?F])
  with assms(2) have "append_env env ef = (env', Some e)"
    by (cases rule: appendCurrEnv_cases) auto
  then obtain funcs where app: "append_funcs (mUninterpFuncMap env) (mUninterpFuncMap ef) = (funcs, Some e)"
    by (auto simp: append_env_def Let_def split: prod.splits)
  note E = Environment_of_maps[OF ef, simplified]
  from append_funcs_Some[OF app E(1)] obtain q where
    "q \<in> set (mUninterpFuncMap ef)" "find_s (fst q) (mUninterpFuncMap env) \<noteq> None" and
    e: "e = Assert_exception ''Environment::append: attempting to append duplicate UFs.''" by blast
  moreover from this(1) have "find_s (fst q) (mUninterpFuncMap ef) = Some (snd q)"
    by (auto simp: by_value.find_iff[OF E(1)])
  ultimately show "find_s f (mUninterpFuncMap env) \<noteq> None \<or> bj \<and> find_s (inv_name f) (mUninterpFuncMap env) \<noteq> None"
    by (auto simp: E(2) split: if_splits)
  show "e = Assert_exception ''Environment::append: attempting to append duplicate UFs.''" by (rule e)
qed

section \<open>What the rules say\<close>

text \<open>The meaning of the sides of a rule about the function \<open>fn\<close> when it denotes \<open>g\<close>.\<close>

definition comparisons :: "(string \<times> (int \<Rightarrow> int \<Rightarrow> bool)) list" where
  "comparisons = [('' < '', \<lambda>a b. a < b), ('' <= '', \<lambda>a b. a \<le> b), ('' > '', \<lambda>a b. a > b), ('' >= '', \<lambda>a b. a \<ge> b)]"

definition side_holds :: "string \<Rightarrow> (int \<Rightarrow> int) \<Rightarrow> string \<Rightarrow> int \<Rightarrow> int \<Rightarrow> bool" where
  "side_holds fn g s e1 e2 \<longleftrightarrow>
     list_ex (\<lambda>c. s = ''e1'' @ fst c @ ''e2'' \<and> snd c e1 e2
       \<or> s = fn @ ''(e1)'' @ fst c @ fn @ ''(e2)'' \<and> snd c (g e1) (g e2)) comparisons"

primrec is_monotonic :: "monotonic_type \<Rightarrow> (int \<Rightarrow> int) \<Rightarrow> bool" where
  "is_monotonic Monotonic_NONE g = True"
| "is_monotonic Monotonic_Nondecreasing g = (\<forall>a b. a < b \<longrightarrow> g a \<le> g b)"
| "is_monotonic Monotonic_Increasing g = (\<forall>a b. a < b \<longrightarrow> g a < g b)"
| "is_monotonic Monotonic_Nonincreasing g = (\<forall>a b. a < b \<longrightarrow> g a \<ge> g b)"
| "is_monotonic Monotonic_Decreasing g = (\<forall>a b. a < b \<longrightarrow> g a > g b)"


lemma call_text_neq: "fn @ ''(e1)'' @ op @ fn @ ''(e2)'' \<noteq> ''e1'' @ op' @ ''e2''"
proof
  assume *: "fn @ ''(e1)'' @ op @ fn @ ''(e2)'' = ''e1'' @ op' @ ''e2''"
  have "last (fn @ ''(e1)'' @ op @ fn @ ''(e2)'') = CHR '')''" by simp
  moreover have "last (''e1'' @ op' @ ''e2'') = CHR ''2''" by simp
  ultimately show False unfolding * by simp
qed

lemma comparisons_fun: "(op, R) \<in> set comparisons \<Longrightarrow> (op, R') \<in> set comparisons \<Longrightarrow> R = R'"
  by (auto simp: comparisons_def)

lemma side_call:
  assumes "(op, R) \<in> set comparisons"
  shows "side_holds fn g (fn @ ''(e1)'' @ op @ fn @ ''(e2)'') e1 e2 \<longleftrightarrow> R (g e1) (g e2)"
  using assms call_text_neq[of fn] by (auto simp: side_holds_def comparisons_def)

lemma side_arg:
  assumes "(op, R) \<in> set comparisons"
  shows "side_holds fn g (''e1'' @ op @ ''e2'') e1 e2 \<longleftrightarrow> R e1 e2"
proof -
  have "''e1'' @ op @ ''e2'' = ''e1'' @ op' @ ''e2'' \<longleftrightarrow> op = op'" for op' by simp
  then show ?thesis
    using assms comparisons_fun[OF assms] call_text_neq[of fn, symmetric]
    unfolding side_holds_def list_ex_iff by (metis fst_conv prod.collapse snd_conv)
qed

lemma side_args:
  "side_holds fn g ''e1 < e2'' e1 e2 \<longleftrightarrow> e1 < e2"
  "side_holds fn g ''e1 > e2'' e1 e2 \<longleftrightarrow> e1 > e2"
  using side_arg[of "'' < ''" "\<lambda>a b. a < b" fn g e1 e2] side_arg[of "'' > ''" "\<lambda>a b. a > b" fn g e1 e2]
  by (simp_all add: comparisons_def)

lemma side_calls:
  "side_holds fn g (fn @ ''(e1) < '' @ fn @ ''(e2)'') e1 e2 \<longleftrightarrow> g e1 < g e2"
  "side_holds fn g (fn @ ''(e1) <= '' @ fn @ ''(e2)'') e1 e2 \<longleftrightarrow> g e1 \<le> g e2"
  "side_holds fn g (fn @ ''(e1) > '' @ fn @ ''(e2)'') e1 e2 \<longleftrightarrow> g e1 > g e2"
  "side_holds fn g (fn @ ''(e1) >= '' @ fn @ ''(e2)'') e1 e2 \<longleftrightarrow> g e1 \<ge> g e2"
  using side_call[of "'' < ''" "\<lambda>a b. a < b" fn g e1 e2] side_call[of "'' <= ''" "\<lambda>a b. a \<le> b" fn g e1 e2]
    side_call[of "'' > ''" "\<lambda>a b. a > b" fn g e1 e2] side_call[of "'' >= ''" "\<lambda>a b. a \<ge> b" fn g e1 e2]
  by (simp_all add: comparisons_def)

lemmas side_meaning = side_args side_calls[unfolded append_Cons append_Nil]

lemma strict_rules:
  fixes g :: "int \<Rightarrow> int"
  shows "(\<forall>a b. a < b \<longrightarrow> g a < g b) \<and> (\<forall>a b. g a < g b \<longrightarrow> a < b) \<longleftrightarrow> (\<forall>a b. a < b \<longrightarrow> g a < g b)"
    "(\<forall>a b. a < b \<longrightarrow> g b < g a) \<and> (\<forall>a b. g a < g b \<longrightarrow> b < a) \<longleftrightarrow> (\<forall>a b. a < b \<longrightarrow> g b < g a)"
proof -
  have "\<forall>a b. a < b \<longrightarrow> g a < g b \<Longrightarrow> g a < g b \<Longrightarrow> a < b" for a b
    by (cases a b rule: linorder_cases) (auto dest: less_asym)
  moreover have "\<forall>a b. a < b \<longrightarrow> g b < g a \<Longrightarrow> g a < g b \<Longrightarrow> b < a" for a b
    by (cases a b rule: linorder_cases) (auto dest: less_asym)
  ultimately show "(\<forall>a b. a < b \<longrightarrow> g a < g b) \<and> (\<forall>a b. g a < g b \<longrightarrow> a < b) \<longleftrightarrow> (\<forall>a b. a < b \<longrightarrow> g a < g b)"
    "(\<forall>a b. a < b \<longrightarrow> g b < g a) \<and> (\<forall>a b. g a < g b \<longrightarrow> b < a) \<longleftrightarrow> (\<forall>a b. a < b \<longrightarrow> g b < g a)" by blast+
qed

section \<open>Properties\<close>

text \<open>C38: A declaration of a function that succeeds keeps a well-formed environment well formed: inverses stay
  mutual, both ends of an inverse pair stay declared, and their domains and ranges stay exchanged. (One that fails can
  leave inverses that are not mutual.)\<close>

theorem appendCurrEnv_invariant:
  assumes "env_ok env" "appendCurrEnv new_Set arity env f d r bj mt = (env', None)"
  shows "env_ok env'"
  by (rule appendCurrEnv_ok(1)[OF assms])

lemma appendCurrEnv_invariant_witness:
  "let env' = fst (appendCurrEnv (\<lambda>s. s) length empty_env ''f'' ''d'' ''r'' True Monotonic_Increasing)
   in env_ok env'"
proof -
  have "appendCurrEnv (\<lambda>s. s) length empty_env ''f'' ''d'' ''r'' True Monotonic_Increasing =
    (fst (appendCurrEnv (\<lambda>s. s) length empty_env ''f'' ''d'' ''r'' True Monotonic_Increasing), None)"
    by code_simp
  from appendCurrEnv_invariant[OF env_ok_empty this] show ?thesis by (simp add: Let_def)
qed

text \<open>A successful declaration makes the function known with its domain, range and monotonicity,
  gives a bijective one the inverse \<open>f_inv\<close> with domain and range exchanged, and changes what is
  known of no other function.\<close>

lemma appendCurrEnv_declares:
  assumes "env_ok env" "appendCurrEnv new_Set arity env f d r bj mt = (env', None)"
  shows "funcDomain env' f = Some d \<and> funcRange env' f = Some r \<and> funcMonoType env' f = mt
    \<and> (bj \<longrightarrow> funcInverse env' f = inv_name f \<and> funcInverse env' (inv_name f) = f
         \<and> funcDomain env' (inv_name f) = Some r \<and> funcRange env' (inv_name f) = Some d)
    \<and> (\<forall>g. g \<noteq> f \<and> (bj \<longrightarrow> g \<noteq> inv_name f) \<longrightarrow>
         funcDomain env' g = funcDomain env g \<and> funcRange env' g = funcRange env g
         \<and> funcMonoType env' g = funcMonoType env g \<and> funcInverse env' g = funcInverse env g)"
proof -
  note A = appendCurrEnv_ok[OF assms]
  have none: "find_s f (mInverseMap env) = None" "bj \<Longrightarrow> find_s (inv_name f) (mInverseMap env) = None"
    using A(4) assms(1) unfolding env_ok_def by (metis option.exhaust option.simps(3))+
  show ?thesis
    using A(4) none
    by (auto simp: funcDomain_def funcRange_def funcMonoType_def funcInverse_def A(2,3) Let_def
        inverse_func_def split: option.splits)
qed

text \<open>A declaration fails exactly when the function is declared already, or its inverse is to be
  declared and the name \<open>f_inv\<close> is taken; the exception is that of duplicate functions.\<close>

lemma appendCurrEnv_fails_iff:
  assumes "env_ok env"
  shows "snd (appendCurrEnv new_Set arity env f d r bj mt) =
    (if funcDomain env f \<noteq> None \<or> bj \<and> funcDomain env (inv_name f) \<noteq> None
     then Some (Assert_exception ''Environment::append: attempting to append duplicate UFs.'')
     else None)"
proof (cases "appendCurrEnv new_Set arity env f d r bj mt")
  case (Pair env' err)
  then show ?thesis
    using appendCurrEnv_error[OF assms, of new_Set arity f d r bj mt env']
      appendCurrEnv_ok(4)[OF assms, of new_Set arity f d r bj mt env']
    by (cases err) (auto simp: funcDomain_def)
qed

text \<open>The rules recorded for a monotonicity say exactly that the function is monotone in that way:
  all of them hold of \<open>g\<close> iff \<open>g\<close> has the declared monotonicity.\<close>

lemma monotonicity_rules_characterise:
  "(\<forall>(l, r) \<in> set (monotonicity_sides fn mt). \<forall>e1 e2. side_holds fn g l e1 e2 \<longrightarrow> side_holds fn g r e1 e2)
     \<longleftrightarrow> is_monotonic mt g"
proof (cases mt)
  case Monotonic_Increasing
  then show ?thesis using strict_rules(1)[of g]
    by (simp add: monotonicity_sides_def side_meaning)
next
  case Monotonic_Decreasing
  then show ?thesis using strict_rules(2)[of g]
    by (simp add: monotonicity_sides_def side_meaning)
qed (simp_all add: monotonicity_sides_def side_meaning)

text \<open>A declaration that throws is not undone: declaring the bijective \<open>f\<close> where \<open>f_inv\<close> is declared
  bijective already throws and leaves an environment in which \<open>f_inv\<close> is the inverse of \<open>f\<close>, while
  the inverse of \<open>f_inv\<close> is another function.\<close>

lemma failed_append_leaves_broken_inverses:
  "let env1 = fst (appendCurrEnv new_Set arity empty_env ''f_inv'' d r True Monotonic_NONE);
       (env2, err) = appendCurrEnv new_Set arity env1 ''f'' r d True Monotonic_NONE
   in err \<noteq> None \<and> env_ok env1 \<and> funcInverse env2 ''f'' = ''f_inv''
      \<and> funcInverse env2 ''f_inv'' = ''f_inv_inv'' \<and> \<not> env_ok env2"
proof -
  let ?e1 = "\<lparr>mUninterpFuncMap = [(''f_inv'', \<lparr>mName = ''f_inv'', mDomain = d, mRange = r, mIsBijective = True, mMonoType = Monotonic_NONE\<rparr>),
     (''f_inv_inv'', \<lparr>mName = ''f_inv_inv'', mDomain = r, mRange = d, mIsBijective = True, mMonoType = Monotonic_NONE\<rparr>)],
     mInverseMap = [(''f_inv'', ''f_inv_inv''), (''f_inv_inv'', ''f_inv'')], uniQuantRules = []\<rparr>"
  have e1: "appendCurrEnv new_Set arity empty_env ''f_inv'' d r True Monotonic_NONE = (?e1, None)"
    by (simp add: appendCurrEnv_def Environment_of_def append_env_def std_insert_range_def empty_env_def
        monotonicity_sides_def incomparable_def Let_def)
  have ok: "env_ok ?e1" by (rule appendCurrEnv_ok(1)[OF env_ok_empty e1])
  let ?e2 = "\<lparr>mUninterpFuncMap = (''f'', \<lparr>mName = ''f'', mDomain = r, mRange = d, mIsBijective = True, mMonoType = Monotonic_NONE\<rparr>)
       # mUninterpFuncMap ?e1,
     mInverseMap = (''f'', ''f_inv'') # mInverseMap ?e1, uniQuantRules = []\<rparr>"
  have e2: "appendCurrEnv new_Set arity ?e1 ''f'' r d True Monotonic_NONE =
    (?e2, Some (Assert_exception ''Environment::append: attempting to append duplicate UFs.''))"
    by (simp add: appendCurrEnv_def Environment_of_def append_env_def std_insert_range_def empty_env_def
        incomparable_def Let_def)
  have inv: "find_s ''f'' (mInverseMap ?e2) = Some ''f_inv''"
    "find_s ''f_inv'' (mInverseMap ?e2) = Some ''f_inv_inv''"
    by (simp_all add: incomparable_def)
  have "\<not> env_ok ?e2"
  proof
    assume "env_ok ?e2"
    then have "find_s ''f_inv'' (mInverseMap ?e2) = Some ''f''" using inv(1) unfolding env_ok_def by blast
    with inv(2) show False by simp
  qed
  with ok show ?thesis unfolding e1 e2 Let_def prod.case fst_conv
    by (simp only: funcInverse_def inv option.simps not_False_eq_True simp_thms)
qed

end
