(* ===== verification/Expression.thy ===== *)
theory Expression
  imports Prelude
begin

text \<open>
  The terms and expressions of IEGenLib (\<open>IEGenLib/src/set_relation/expression.h\<close> and
  \<open>expression.cc\<close>): a list of terms, each a coefficient times one, a symbolic constant, a tuple
  variable or an uninterpreted function call whose arguments are expressions again. The class
  hierarchy of \<open>Term\<close> is a datatype, a virtual method is a case distinction on it, and each override
  keeps its own definition, named \<open>Class_method\<close>. Pointers are owned and copied deeply in the
  source, so an object is its value; an operation that changes its object returns the new value.
  A \<open>UFCallTerm\<close> here has all its arguments set; \<open>Argument_Slots\<close> has the phase in which slots may be null.
  The class \<open>TupleExpTerm\<close> is not a term of this type; it is in \<open>Argument_Slots\<close>, too.
\<close>

section \<open>Data\<close>

datatype exptype = Expression | Inequality | Equality

datatype termtype = TupleVar | SymConst | UFCall | ConstVal | TupleExp

primrec termtype_rank :: "termtype \<Rightarrow> nat" where
  "termtype_rank TupleVar = 0"
| "termtype_rank SymConst = 1"
| "termtype_rank UFCall = 2"
| "termtype_rank ConstVal = 3"
| "termtype_rank TupleExp = 4"

lemma termtype_rank_inject [simp]: "termtype_rank a = termtype_rank b \<longleftrightarrow> a = b"
  by (cases a; cases b) simp_all

text \<open>The enumeration is compared by its position, as C++ compares enumerators.\<close>

instantiation termtype :: linorder
begin

definition less_eq_termtype :: "termtype \<Rightarrow> termtype \<Rightarrow> bool" where
  "a \<le> b \<longleftrightarrow> termtype_rank a \<le> termtype_rank b"

definition less_termtype :: "termtype \<Rightarrow> termtype \<Rightarrow> bool" where
  "a < b \<longleftrightarrow> termtype_rank a < termtype_rank b"

instance
  by standard (auto simp: less_eq_termtype_def less_termtype_def)

end

datatype trm =
    Term int
  | VarTerm int string
  | TupleVarTerm int int
  | UFCallTerm int string "exp list" int
and exp = Exp (mTerms: "trm list") (mExpType: exptype)

text \<open>\<open>new Exp()\<close>\<close>

abbreviation empty_exp :: exp where
  "empty_exp \<equiv> Exp [] Expression"

primrec getTermType :: "trm \<Rightarrow> termtype" where
  "getTermType (Term c) = ConstVal"
| "getTermType (VarTerm c s) = SymConst"
| "getTermType (TupleVarTerm c l) = TupleVar"
| "getTermType (UFCallTerm c f args i) = UFCall"

primrec coefficient :: "trm \<Rightarrow> int" where
  "coefficient (Term c) = c"
| "coefficient (VarTerm c s) = c"
| "coefficient (TupleVarTerm c l) = c"
| "coefficient (UFCallTerm c f args i) = c"

primrec setCoefficient :: "int \<Rightarrow> trm \<Rightarrow> trm" where
  "setCoefficient d (Term c) = Term d"
| "setCoefficient d (VarTerm c s) = VarTerm d s"
| "setCoefficient d (TupleVarTerm c l) = TupleVarTerm d l"
| "setCoefficient d (UFCallTerm c f args i) = UFCallTerm d f args i"

definition isUFCall :: "trm \<Rightarrow> bool" where
  "isUFCall t \<longleftrightarrow> getTermType t = UFCall"

definition isConst_term :: "trm \<Rightarrow> bool" where
  "isConst_term t \<longleftrightarrow> getTermType t = ConstVal"

text \<open>\<open>mTupleIndex\<close> is -1 for a call whose result is not indexed; \<open>tupleIndex\<close> then reads 0.\<close>

definition isIndexed :: "int \<Rightarrow> bool" where
  "isIndexed i = (if i = -1 then False else True)"

definition tupleIndex :: "int \<Rightarrow> int" where
  "tupleIndex i = (if \<not> isIndexed i then 0 else i)"

section \<open>Printing\<close>

definition coeffToStream :: "int \<Rightarrow> bool \<Rightarrow> string" where
  "coeffToStream c absValue =
     (if absValue then
        (if 1 = \<bar>c\<bar> then '''' else show_int \<bar>c\<bar> @ '' '')
      else
        (if 1 = c then ''''
         else if -1 = c then ''-''
         else show_int c @ '' ''))"

definition Term_toString :: "int \<Rightarrow> bool \<Rightarrow> string" where
  "Term_toString c absValue = show_int (if absValue then \<bar>c\<bar> else c)"

definition VarTerm_toString :: "int \<Rightarrow> string \<Rightarrow> bool \<Rightarrow> string" where
  "VarTerm_toString c s absValue = coeffToStream c absValue @ s"

definition TupleVarTerm_toString :: "int \<Rightarrow> int \<Rightarrow> bool \<Rightarrow> string" where
  "TupleVarTerm_toString c l absValue = coeffToStream c absValue @ ''__tv'' @ show_int l"

text \<open>The argument list, given the rendering of each argument.\<close>

fun argsToStream :: "string list \<Rightarrow> string" where
  "argsToStream [] = ''''"
| "argsToStream [a] = a"
| "argsToStream (a # b # as) = a @ '', '' @ argsToStream (b # as)"

definition UFCallTerm_toString :: "int \<Rightarrow> string \<Rightarrow> string list \<Rightarrow> int \<Rightarrow> bool \<Rightarrow> string" where
  "UFCallTerm_toString c f args i absValue =
     coeffToStream c absValue @ f @ ''('' @ argsToStream args @ '')'' @
     (if isIndexed i then ''['' @ show_int (tupleIndex i) @ '']'' else '''')"

fun toString_trm :: "trm \<Rightarrow> bool \<Rightarrow> string"
  and toString_exp :: "exp \<Rightarrow> string" where
  "toString_trm (Term c) absValue = Term_toString c absValue"
| "toString_trm (VarTerm c s) absValue = VarTerm_toString c s absValue"
| "toString_trm (TupleVarTerm c l) absValue = TupleVarTerm_toString c l absValue"
| "toString_trm (UFCallTerm c f args i) absValue =
     UFCallTerm_toString c f (map toString_exp args) i absValue"
| "toString_exp (Exp ts et) =
     (case ts of
        [] \<Rightarrow> ''0''
      | t # us \<Rightarrow>
          toString_trm t False @
          concat (map (\<lambda>u. (if coefficient u < 0 then '' - '' else '' + '') @ toString_trm u True) us))"

section \<open>Comparison and matching of terms\<close>

definition compareTermTypes :: "trm \<Rightarrow> trm \<Rightarrow> int" where
  "compareTermTypes t other =
     (if getTermType t < getTermType other then -1
      else if getTermType t > getTermType other then 1 else 0)"

definition Term_less :: "trm \<Rightarrow> trm \<Rightarrow> bool" where
  "Term_less t other =
     (if getTermType t < getTermType other then True
      else if getTermType t > getTermType other then False
      else coefficient t < coefficient other)"

fun VarTerm_less :: "trm \<Rightarrow> trm \<Rightarrow> bool" where
  "VarTerm_less (VarTerm c s) (VarTerm c' s') =
     (if s < s' then True else if s > s' then False
      else Term_less (VarTerm c s) (VarTerm c' s'))"
| "VarTerm_less t other = (compareTermTypes t other = -1)"

fun TupleVarTerm_less :: "trm \<Rightarrow> trm \<Rightarrow> bool" where
  "TupleVarTerm_less (TupleVarTerm c l) (TupleVarTerm c' l') =
     (if l < l' then True else if l > l' then False
      else Term_less (TupleVarTerm c l) (TupleVarTerm c' l'))"
| "TupleVarTerm_less t other = (compareTermTypes t other = -1)"

fun UFCallTerm_less :: "trm \<Rightarrow> trm \<Rightarrow> bool" where
  "UFCallTerm_less (UFCallTerm c f as i) (UFCallTerm c' g bs j) =
     (if f < g then True else if f > g then False
      else if i < j then True else if i > j then False
      else
        (let args = argsToStream (map toString_exp as);
             otherArgs = argsToStream (map toString_exp bs)
         in if args < otherArgs then True else if args > otherArgs then False
            else Term_less (UFCallTerm c f as i) (UFCallTerm c' g bs j)))"
| "UFCallTerm_less t other = (compareTermTypes t other = -1)"

definition trm_less :: "trm \<Rightarrow> trm \<Rightarrow> bool" where
  "trm_less t other =
     (case t of
        Term c \<Rightarrow> Term_less t other
      | VarTerm c s \<Rightarrow> VarTerm_less t other
      | TupleVarTerm c l \<Rightarrow> TupleVarTerm_less t other
      | UFCallTerm c f args i \<Rightarrow> UFCallTerm_less t other)"

definition trm_eq :: "trm \<Rightarrow> trm \<Rightarrow> bool" where
  "trm_eq t other \<longleftrightarrow> trm_less t other = False \<and> trm_less other t = False"

definition Term_factorMatches :: "trm \<Rightarrow> trm \<Rightarrow> bool" where
  "Term_factorMatches t other \<longleftrightarrow> getTermType other = getTermType t"

fun VarTerm_factorMatches :: "trm \<Rightarrow> trm \<Rightarrow> bool" where
  "VarTerm_factorMatches (VarTerm c s) (VarTerm c' s') \<longleftrightarrow> s = s'"
| "VarTerm_factorMatches t other \<longleftrightarrow> False"

fun TupleVarTerm_factorMatches :: "trm \<Rightarrow> trm \<Rightarrow> bool" where
  "TupleVarTerm_factorMatches (TupleVarTerm c l) (TupleVarTerm c' l') \<longleftrightarrow> l = l'"
| "TupleVarTerm_factorMatches t other \<longleftrightarrow> False"

fun UFCallTerm_factorMatches :: "trm \<Rightarrow> trm \<Rightarrow> bool" where
  "UFCallTerm_factorMatches (UFCallTerm c f as i) (UFCallTerm c' g bs j) =
     (if f \<noteq> g then False
      else if tupleIndex i \<noteq> tupleIndex j then False
      else argsToStream (map toString_exp as) = argsToStream (map toString_exp bs))"
| "UFCallTerm_factorMatches t other = False"

definition factorMatches :: "trm \<Rightarrow> trm \<Rightarrow> bool" where
  "factorMatches t other =
     (case t of
        Term c \<Rightarrow> Term_factorMatches t other
      | VarTerm c s \<Rightarrow> VarTerm_factorMatches t other
      | TupleVarTerm c l \<Rightarrow> TupleVarTerm_factorMatches t other
      | UFCallTerm c f args i \<Rightarrow> UFCallTerm_factorMatches t other)"

section \<open>Operations on terms\<close>

text \<open>\<open>None\<close> is the return value false.\<close>

definition combine :: "trm \<Rightarrow> trm \<Rightarrow> trm option" where
  "combine t other =
     (if \<not> factorMatches t other then None
      else Some (setCoefficient (coefficient t + coefficient other) t))"

definition multiplyBy_term :: "trm \<Rightarrow> int \<Rightarrow> trm" where
  "multiplyBy_term t k = setCoefficient (coefficient t * k) t"

definition divideBy_term :: "trm \<Rightarrow> int \<Rightarrow> trm result" where
  "divideBy_term t divisor =
     (if divisor = 0 then Inl (Undefined ''remainder by zero'')
      else if c_rem (coefficient t) divisor \<noteq> 0
      then Inl (Assert_exception ''Term::divideBy: mCoeff is not divisible by divisor'')
      else Inr (setCoefficient (c_div (coefficient t) divisor) t))"

section \<open>Operations on expressions\<close>

fun addTerm_loop :: "trm list \<Rightarrow> trm \<Rightarrow> trm list" where
  "addTerm_loop [] term = [term]"
| "addTerm_loop (t # ts) term =
     (case combine t term of
        Some t' \<Rightarrow> if 0 = coefficient t' then ts else t' # ts
      | None \<Rightarrow>
          if trm_less term t then term # t # ts
          else t # addTerm_loop ts term)"

definition addTerm :: "exp \<Rightarrow> trm \<Rightarrow> exp" where
  "addTerm e term =
     (if coefficient term = 0 then e
      else Exp (addTerm_loop (mTerms e) term) (mExpType e))"

definition addExp :: "exp \<Rightarrow> exp \<Rightarrow> exp" where
  "addExp e other = foldl addTerm e (mTerms other)"

definition multiplyBy :: "exp \<Rightarrow> int \<Rightarrow> exp" where
  "multiplyBy e k = Exp (map (\<lambda>t. multiplyBy_term t k) (mTerms e)) (mExpType e)"

text \<open>The loop leaves at the first remainder that is not 0, so a zero divisor is only reached
  when there is a term at all.\<close>

definition isDivisible :: "exp \<Rightarrow> int \<Rightarrow> bool result" where
  "isDivisible e divisor =
     (if mTerms e = [] then Inr True
      else if divisor = 0 then Inl (Undefined ''remainder by zero'')
      else Inr (list_all (\<lambda>t. c_rem (coefficient t) divisor = 0) (mTerms e)))"

definition divideBy :: "exp \<Rightarrow> int \<Rightarrow> exp result" where
  "divideBy e divisor =
     bind_result (map_result (\<lambda>t. divideBy_term t divisor) (mTerms e))
       (\<lambda>ts. Inr (Exp ts (mExpType e)))"

definition setExpression :: "exp \<Rightarrow> exp" where
  "setExpression e = Exp (mTerms e) Expression"

definition setInequality :: "exp \<Rightarrow> exp" where
  "setInequality e = Exp (mTerms e) Inequality"

definition setEquality :: "exp \<Rightarrow> exp" where
  "setEquality e = Exp (mTerms e) Equality"

definition normalizeForEquality :: "exp \<Rightarrow> exp" where
  "normalizeForEquality e =
     (if mTerms e = [] then e
      else
        (let e1 = (if coefficient (hd (mTerms e)) < 0 then multiplyBy e (-1) else e)
         in if coefficient (last (mTerms e1)) = 0
            then Exp (butlast (mTerms e1)) (mExpType e1) else e1))"

definition equalsZero :: "exp \<Rightarrow> bool" where
  "equalsZero e =
     (if length (mTerms e) = 0 then True
      else if length (mTerms e) > 1 then False
      else coefficient (hd (mTerms e)) = 0)"

definition exp_eq_term :: "exp \<Rightarrow> trm \<Rightarrow> bool" where
  "exp_eq_term e other =
     (if length (mTerms e) = 1 then trm_eq (hd (mTerms e)) other
      else if equalsZero e then trm_eq (Term 0) other
      else False)"

definition exp_less :: "exp \<Rightarrow> exp \<Rightarrow> bool" where
  "exp_less e other =
     (if length (mTerms e) < length (mTerms other) then True
      else if length (mTerms other) < length (mTerms e) then False
      else list_less trm_less (mTerms e) (mTerms other))"

definition exp_eq :: "exp \<Rightarrow> exp \<Rightarrow> bool" where
  "exp_eq e other \<longleftrightarrow> \<not> (exp_less e other \<or> exp_less other e)"

definition isConst :: "exp \<Rightarrow> bool" where
  "isConst e =
     (if equalsZero e \<or> (length (mTerms e) = 1 \<and> isConst_term (hd (mTerms e))) then True else False)"

definition isContradiction :: "exp \<Rightarrow> bool" where
  "isContradiction e =
     (if length (mTerms e) = 1 \<and>
         (isConst_term (hd (mTerms e)) \<and> coefficient (hd (mTerms e)) \<noteq> 0) \<and>
         mExpType e = Equality
      then True else False)"

definition getTerm :: "exp \<Rightarrow> trm option" where
  "getTerm e = (if length (mTerms e) = 1 then Some (hd (mTerms e)) else None)"

definition getConstTerm :: "exp \<Rightarrow> trm option" where
  "getConstTerm e = find isConst_term (mTerms e)"

fun dependsOn_trm :: "trm \<Rightarrow> trm \<Rightarrow> bool"
  and dependsOn :: "exp \<Rightarrow> trm \<Rightarrow> bool" where
  "dependsOn_trm (UFCallTerm c f args i) factor =
     (if factorMatches (UFCallTerm c f args i) factor then True
      else list_ex (\<lambda>arg. dependsOn arg factor) args)"
| "dependsOn_trm t factor = factorMatches t factor"
| "dependsOn (Exp ts et) factor = list_ex (\<lambda>t. dependsOn_trm t factor) ts"

text \<open>The first function call of the list decides, whatever calls follow it.\<close>

definition hasIndexedUFCall :: "exp \<Rightarrow> bool" where
  "hasIndexedUFCall e =
     (case find isUFCall (mTerms e) of
        Some (UFCallTerm c f args i) \<Rightarrow> isIndexed i
      | _ \<Rightarrow> False)"

definition cloneIndexedUFCallTerm :: "exp \<Rightarrow> trm option result" where
  "cloneIndexedUFCallTerm e =
     (if \<not> hasIndexedUFCall e
      then Inl (Assert_exception ''Exp::getIndexedUFCallTerm: no indexed UFCallTerm'')
      else fold_result
        (\<lambda>retval t. case t of
            UFCallTerm c f args i \<Rightarrow>
              if isIndexed i then
                (case retval of
                   Some r \<Rightarrow> Inl (Assert_exception
                     ''Exp::getIndexedUFCallTerm: more than one indexed UFCallTerm in expression'')
                 | None \<Rightarrow> Inr (Some t))
              else Inr retval
          | _ \<Rightarrow> Inr retval)
        None (mTerms e))"

text \<open>The symbolic constants of an expression, nested ones included.\<close>

fun symbols_trm :: "trm \<Rightarrow> string set"
  and symbols_exp :: "exp \<Rightarrow> string set" where
  "symbols_trm (VarTerm c s) = {s}"
| "symbols_trm (UFCallTerm c f args i) = \<Union> (set (map symbols_exp args))"
| "symbols_trm (Term c) = {}"
| "symbols_trm (TupleVarTerm c l) = {}"
| "symbols_exp (Exp ts et) = \<Union> (set (map symbols_trm ts))"

end
