(* ===== verification/Exp_Order.thy ===== *)
theory Exp_Order
  imports Expression Std_Map
begin

text \<open>
  The comparison operators of terms and expressions are the strict order of a key: what
  \<open>keyed_order\<close> of the prelude asks for. Sorting of the constraint lists rests on it.
\<close>

type_synonym trm_key = "termtype \<times> string \<times> int \<times> string \<times> int"

primrec key_of_trm :: "trm \<Rightarrow> trm_key" where
  "key_of_trm (Term c) = (ConstVal, '''', 0, '''', c)"
| "key_of_trm (VarTerm c s) = (SymConst, s, 0, '''', c)"
| "key_of_trm (TupleVarTerm c l) = (TupleVar, '''', l, '''', c)"
| "key_of_trm (UFCallTerm c f args i) =
     (UFCall, f, i, argsToStream (map toString_exp args), c)"

definition key_of_exp :: "exp \<Rightarrow> nat \<times> trm_key list" where
  "key_of_exp e = (length (mTerms e), map key_of_trm (mTerms e))"

lemmas trm_less_defs =
  trm_less_def Term_less_def compareTermTypes_def less_eq_termtype_def less_termtype_def

lemma trm_less_key: "trm_less t u \<longleftrightarrow> key_of_trm t < key_of_trm u"
  by (cases t; cases u) (auto simp: trm_less_defs Let_def)

interpretation trm_order: keyed_order trm_less key_of_trm
  by unfold_locales (rule trm_less_key)

lemma exp_less_key: "exp_less e e' \<longleftrightarrow> key_of_exp e < key_of_exp e'"
  by (auto simp: exp_less_def key_of_exp_def trm_order.list_less_key)

interpretation exp_order: keyed_order exp_less key_of_exp
  by unfold_locales (rule exp_less_key)

lemma exp_eq_incomparable: "exp_eq = incomparable exp_less"
  by (intro ext) (simp add: exp_eq_def incomparable_def)

lemma exp_eq_key: "exp_eq e e' \<longleftrightarrow> key_of_exp e = key_of_exp e'"
  by (simp add: exp_eq_incomparable exp_order.incomparable_key)

lemma exp_eq_refl [simp]: "exp_eq e e"
  by (simp add: exp_eq_key)

lemma trm_eq_key: "trm_eq t u \<longleftrightarrow> key_of_trm t = key_of_trm u"
  by (auto simp: trm_eq_def trm_less_key)

text \<open>Matching compares the key without coefficient, the tuple index read as \<open>tupleIndex\<close>.\<close>

lemma factorMatches_iff:
  "factorMatches t u \<longleftrightarrow>
     (case (key_of_trm t, key_of_trm u) of
        ((a, s, l, as, _), (b, s', l', bs, _)) \<Rightarrow>
          a = b \<and> s = s' \<and> as = bs \<and>
          (if a = UFCall then tupleIndex l = tupleIndex l' else l = l'))"
  by (cases t; cases u)
     (auto simp: factorMatches_def Term_factorMatches_def)

lemma factorMatches_refl [simp]: "factorMatches t t"
  by (simp add: factorMatches_iff split: prod.splits)

lemma factorMatches_sym: "factorMatches t u \<Longrightarrow> factorMatches u t"
  by (auto simp: factorMatches_iff split: prod.splits if_splits)

lemma factorMatches_trans: "factorMatches t u \<Longrightarrow> factorMatches u v \<Longrightarrow> factorMatches t v"
  by (auto simp: factorMatches_iff split: prod.splits if_splits)

lemma factorMatches_setCoefficient [simp]:
  "factorMatches (setCoefficient c t) u = factorMatches t u"
  "factorMatches t (setCoefficient c u) = factorMatches t u"
  by (cases t; simp add: factorMatches_iff)
     (cases u; simp add: factorMatches_iff)

lemma trm_eq_factorMatches: "trm_eq t u \<Longrightarrow> factorMatches t u \<and> coefficient t = coefficient u"
  by (cases t; cases u) (auto simp: trm_eq_key factorMatches_iff)

lemma coefficient_setCoefficient [simp]: "coefficient (setCoefficient c t) = c"
  by (cases t) simp_all

lemma setCoefficient_setCoefficient [simp]:
  "setCoefficient c (setCoefficient d t) = setCoefficient c t"
  by (cases t) simp_all

lemma setCoefficient_same [simp]: "setCoefficient (coefficient t) t = t"
  by (cases t) simp_all

lemma getTermType_setCoefficient [simp]: "getTermType (setCoefficient c t) = getTermType t"
  by (cases t) simp_all

end
