(* ===== verification/Exp_Print.thy ===== *)
theory Exp_Print
  imports Exp_Order
begin

text \<open>
  \<open>toString\<close> decides whether two calls of a function are the same factor and in which order they
  are kept, so what it loses matters. Here a reader for its output is defined and proved to give
  back the expression: two well-formed expressions with the same text are the same up to the
  empty sum, which prints as \<open>0\<close>.
\<close>

section \<open>Well-formed terms\<close>

definition is_letter :: "char \<Rightarrow> bool" where
  "is_letter c \<longleftrightarrow> (let n = (of_char c :: nat) in (65 \<le> n \<and> n \<le> 90) \<or> (97 \<le> n \<and> n \<le> 122))"

text \<open>The characters of the scanner's identifiers.\<close>

definition id_start :: "char \<Rightarrow> bool" where
  "id_start c \<longleftrightarrow> is_letter c \<or> c = CHR ''_'' \<or> c = CHR 0x27 \<or> c = CHR ''$''"

definition id_char :: "char \<Rightarrow> bool" where
  "id_char c \<longleftrightarrow> id_start c \<or> is_digit c"

definition ident :: "string \<Rightarrow> bool" where
  "ident s \<longleftrightarrow> s \<noteq> [] \<and> id_start (hd s) \<and> list_all id_char s"

text \<open>
  A symbolic constant must not look like the \<open>__tv\<close> name of a tuple variable, which the scanner
  rejects as an identifier.
\<close>

fun wf_trm :: "trm \<Rightarrow> bool" and wf_exp :: "exp \<Rightarrow> bool" where
  "wf_trm (Term c) = True"
| "wf_trm (VarTerm c s) = (ident s \<and> take 4 s \<noteq> ''__tv'')"
| "wf_trm (TupleVarTerm c l) = (0 \<le> l)"
| "wf_trm (UFCallTerm c f args i) = (ident f \<and> -1 \<le> i \<and> list_all wf_exp args)"
| "wf_exp (Exp ts et) = list_all wf_trm ts"

lemma wf_exp_iff: "wf_exp e \<longleftrightarrow> (\<forall>t \<in> set (mTerms e). wf_trm t)"
  by (cases e) (simp add: list_all_iff)

lemma wf_trm_setCoefficient [simp]: "wf_trm (setCoefficient c t) = wf_trm t"
  by (cases t) simp_all

text \<open>What printing forgets: the kind of the expression, and the empty sum.\<close>

fun canon_trm :: "trm \<Rightarrow> trm" and canon_exp :: "exp \<Rightarrow> exp" where
  "canon_trm (UFCallTerm c f args i) = UFCallTerm c f (map canon_exp args) i"
| "canon_trm t = t"
| "canon_exp (Exp ts et) =
     Exp (case ts of [] \<Rightarrow> [Term 0] | _ \<Rightarrow> map canon_trm ts) Expression"

section \<open>A reader for the printed form\<close>

definition starts :: "char \<Rightarrow> string \<Rightarrow> bool" where
  "starts c s \<longleftrightarrow> s \<noteq> [] \<and> hd s = c"

fun p_exp :: "nat \<Rightarrow> string \<Rightarrow> (exp \<times> string) option"
  and p_more :: "nat \<Rightarrow> string \<Rightarrow> (trm list \<times> string) option"
  and p_num :: "nat \<Rightarrow> int \<Rightarrow> string \<Rightarrow> (trm \<times> string) option"
  and p_body :: "nat \<Rightarrow> int \<Rightarrow> string \<Rightarrow> (trm \<times> string) option"
  and p_args :: "nat \<Rightarrow> string \<Rightarrow> (exp list \<times> string) option" where
  "p_exp 0 s = None"
| "p_exp (Suc n) s =
     (case (if starts CHR ''-'' s then p_num n (-1) (tl s) else p_num n 1 s) of
        None \<Rightarrow> None
      | Some (t, r) \<Rightarrow>
          (case p_more n r of None \<Rightarrow> None | Some (ts, r') \<Rightarrow> Some (Exp (t # ts) Expression, r')))"
| "p_more 0 s = None"
| "p_more (Suc n) s =
     (if take 3 s = '' + '' \<or> take 3 s = '' - '' then
        (case p_num n (if take 3 s = '' + '' then 1 else -1) (drop 3 s) of
           None \<Rightarrow> None
         | Some (t, r) \<Rightarrow>
             (case p_more n r of None \<Rightarrow> None | Some (ts, r') \<Rightarrow> Some (t # ts, r')))
      else Some ([], s))"
| "p_num 0 g s = None"
| "p_num (Suc n) g s =
     (let ds = takeWhile is_digit s; r = dropWhile is_digit s in
      if ds = [] then p_body n g s
      else if starts CHR '' '' r \<and> tl r \<noteq> [] \<and> id_start (hd (tl r))
      then p_body n (g * int (read_nat ds)) (tl r)
      else Some (Term (g * int (read_nat ds)), r))"
| "p_body 0 c s = None"
| "p_body (Suc n) c s =
     (let w = takeWhile id_char s; r = dropWhile id_char s in
      if starts CHR ''('' r then
        (case p_args n (tl r) of
           None \<Rightarrow> None
         | Some (as, q) \<Rightarrow>
             if starts CHR '')'' q then
               (if starts CHR ''['' (tl q)
                then Some (UFCallTerm c w as (int (read_nat (takeWhile is_digit (tl (tl q))))),
                           tl (dropWhile is_digit (tl (tl q))))
                else Some (UFCallTerm c w as (-1), tl q))
             else None)
      else if take 4 w = ''__tv'' then Some (TupleVarTerm c (int (read_nat (drop 4 w))), r)
      else Some (VarTerm c w, r))"
| "p_args 0 s = None"
| "p_args (Suc n) s =
     (if starts CHR '')'' s then Some ([], s)
      else
        (case p_exp n s of
           None \<Rightarrow> None
         | Some (e, r) \<Rightarrow>
             if take 2 r = '', '' then
               (case p_args n (drop 2 r) of None \<Rightarrow> None | Some (es, q) \<Rightarrow> Some (e # es, q))
             else Some ([e], r)))"

section \<open>The reader undoes printing\<close>

abbreviation enough :: "(nat \<Rightarrow> bool) \<Rightarrow> bool" where
  "enough P \<equiv> eventually P sequentially"

text \<open>What may follow a term, and what may follow an argument.\<close>

definition stop :: "string \<Rightarrow> bool" where
  "stop r \<longleftrightarrow> r = [] \<or> hd r = CHR '','' \<or> hd r = CHR '')'' \<or> take 3 r = '' + '' \<or> take 3 r = '' - ''"

definition stop_exp :: "string \<Rightarrow> bool" where
  "stop_exp r \<longleftrightarrow> r = [] \<or> hd r = CHR '','' \<or> hd r = CHR '')''"

lemma char_facts [simp]:
  "\<not> is_digit CHR ''-''" "\<not> is_digit CHR '' ''" "\<not> is_digit CHR '',''" "\<not> is_digit CHR '')''"
  "\<not> is_digit CHR '']''" "\<not> is_digit CHR ''_''" "\<not> is_digit CHR ''(''"
  "\<not> id_start CHR ''+''" "\<not> id_start CHR ''-''" "\<not> id_start CHR '')''"
  "\<not> id_char CHR '' ''" "\<not> id_char CHR '',''" "\<not> id_char CHR '')''" "\<not> id_char CHR ''(''"
  "id_start CHR ''_''" "id_char CHR ''_''" "id_char CHR ''t''" "id_char CHR ''v''"
  by code_simp+

lemma id_start_not_digit: "id_start c \<Longrightarrow> \<not> is_digit c"
proof -
  have "\<not> is_digit CHR ''_''" "\<not> is_digit CHR 0x27" "\<not> is_digit CHR ''$''" by code_simp+
  then show "id_start c \<Longrightarrow> \<not> is_digit c"
    by (auto simp: id_start_def is_letter_def is_digit_def Let_def)
qed

lemma id_start_id_char: "id_start c \<Longrightarrow> id_char c"
  by (simp add: id_char_def)

lemma take2_cases: "take 2 r = [a, b] \<longleftrightarrow> (\<exists>r'. r = a # b # r')"
  by (cases r; cases "tl r") (auto simp: numeral_2_eq_2)

lemma take3_cases: "take 3 r = [a, b, c] \<longleftrightarrow> (\<exists>r'. r = a # b # c # r')"
  by (cases r) (auto simp: take2_cases)

lemma stop_cases:
  assumes "stop r"
  obtains "r = []" | r' where "r = CHR '','' # r'" | r' where "r = CHR '')'' # r'"
    | r' where "r = '' + '' @ r'" | r' where "r = '' - '' @ r'"
  using assms by (cases r) (auto simp: stop_def take3_cases take2_cases)

lemma stop_not_digit: "stop r \<Longrightarrow> r = [] \<or> \<not> is_digit (hd r)"
  by (erule stop_cases) auto

lemma stop_not_id: "stop r \<Longrightarrow> r = [] \<or> \<not> id_char (hd r)"
  by (erule stop_cases) auto

lemma stop_not_paren: "stop r \<Longrightarrow> \<not> starts CHR ''('' r \<and> \<not> starts CHR ''['' r"
  by (erule stop_cases) (auto simp: starts_def)

lemma stop_no_name: "stop r \<Longrightarrow> \<not> (starts CHR '' '' r \<and> tl r \<noteq> [] \<and> id_start (hd (tl r)))"
  by (erule stop_cases) (auto simp: starts_def)

lemma stop_exp_stop: "stop_exp r \<Longrightarrow> stop r"
  by (auto simp: stop_exp_def stop_def)

lemma stop_exp_no_more: "stop_exp r \<Longrightarrow> \<not> (take 3 r = '' + '' \<or> take 3 r = '' - '')"
  by (auto simp: stop_exp_def take3_cases)

lemma stop_separator [simp]: "stop ('' + '' @ r)" "stop ('' - '' @ r)"
  by (simp_all add: stop_def)

lemma enough_Suc: "enough (\<lambda>n. P (Suc n)) \<Longrightarrow> enough P"
  by (simp add: eventually_sequentially_Suc)

lemma text_sign:
  "toString_trm t False = (if coefficient t < 0 then ''-'' else '''') @ toString_trm t True"
  by (cases t) (auto simp: Term_toString_def VarTerm_toString_def TupleVarTerm_toString_def
      UFCallTerm_toString_def coeffToStream_def show_int_def)
declare p_exp.simps [simp del] p_more.simps [simp del] p_num.simps [simp del]
  p_body.simps [simp del] p_args.simps [simp del]
lemmas reader_simps = p_exp.simps p_more.simps p_num.simps p_body.simps p_args.simps Let_def
lemma digit_runs:
  assumes "r = [] \<or> \<not> is_digit (hd r)"
  shows "takeWhile is_digit (show_nat k @ r) = show_nat k"
    "dropWhile is_digit (show_nat k @ r) = r"
  by (rule takeWhile_run dropWhile_run; use show_nat_digits[of k] assms in blast)+

lemma is_digit_id_char: "is_digit c \<Longrightarrow> id_char c"
  by (simp add: id_char_def)

lemma p_more_stop: "stop_exp r \<Longrightarrow> p_more (Suc n) r = Some ([], r)"
  using stop_exp_no_more by (simp add: reader_simps)

text \<open>Reading a coefficient and then a body whose first character starts an identifier.\<close>

lemma p_num_coeff:
  assumes body: "w \<noteq> []" "id_start (hd w)"
  shows "p_num (Suc n) g (coeffToStream c True @ w) = p_body n (g * \<bar>c\<bar>) w"
proof (cases "\<bar>c\<bar> = 1")
  case True
  with body show ?thesis
    by (cases w) (auto simp: coeffToStream_def id_start_not_digit reader_simps)
next
  case False
  let ?d = "show_nat (nat \<bar>c\<bar>)"
  from False have eq: "coeffToStream c True @ w = ?d @ '' '' @ w"
    by (auto simp: coeffToStream_def show_int_def)
  show ?thesis using body digit_runs[of "'' '' @ w"] unfolding eq
    by (simp add: starts_def reader_simps)
qed

lemma p_num_const:
  assumes "stop r"
  shows "p_num (Suc n) g (show_int \<bar>c\<bar> @ r) = Some (Term (g * \<bar>c\<bar>), r)"
proof -
  show ?thesis using digit_runs[OF stop_not_digit[OF assms]] stop_no_name[OF assms]
    by (auto simp: show_int_def reader_simps)
qed

lemma ident_runs:
  assumes "ident w" "r = [] \<or> \<not> id_char (hd r)"
  shows "takeWhile id_char (w @ r) = w" "dropWhile id_char (w @ r) = r"
  by (rule takeWhile_run dropWhile_run; use assms in \<open>auto simp: ident_def list_all_iff\<close>)+

lemma p_body_var:
  assumes "ident w" "take 4 w \<noteq> ''__tv''" "stop r"
  shows "p_body (Suc n) c (w @ r) = Some (VarTerm c w, r)"
  using assms ident_runs[OF assms(1) stop_not_id[OF assms(3)]] stop_not_paren[OF assms(3)]
  by (simp add: reader_simps)

lemma p_body_tv:
  assumes "0 \<le> l" "stop r"
  shows "p_body (Suc n) c (''__tv'' @ show_int l @ r) = Some (TupleVarTerm c l, r)"
proof -
  let ?w = "''__tv'' @ show_nat (nat l)"
  have "ident ?w" using show_nat_digits[of "nat l"]
    by (auto simp: ident_def list_all_iff intro: is_digit_id_char)
  from ident_runs[OF this stop_not_id[OF assms(2)]] stop_not_paren[OF assms(2)] assms(1)
  show ?thesis by (simp add: reader_simps show_int_def)
qed

lemma p_body_call:
  assumes "ident f" "-1 \<le> i" "stop r"
    and args: "p_args n (s @ '')'' @ u) = Some (as, '')'' @ u)"
    and u: "u = (if isIndexed i then ''['' @ show_int (tupleIndex i) @ '']'' else '''') @ r"
  shows "p_body (Suc n) c (f @ ''('' @ s @ '')'' @ u) = Some (UFCallTerm c f as i, r)"
proof -
  have "takeWhile id_char (f @ ''('' @ s @ '')'' @ u) = f"
    "dropWhile id_char (f @ ''('' @ s @ '')'' @ u) = ''('' @ s @ '')'' @ u"
    by (rule ident_runs[OF assms(1)]; simp)+
  then show ?thesis
    using args stop_not_paren[OF assms(3)] assms(2) digit_runs[of "'']'' @ r"]
    by (auto simp: reader_simps starts_def u isIndexed_def tupleIndex_def show_int_def)
qed

text \<open>The claim for a term printed without sign, and for an expression.\<close>

definition reads_trm :: "trm \<Rightarrow> bool" where
  "reads_trm t \<longleftrightarrow>
     (\<forall>g r. stop r \<longrightarrow>
        enough (\<lambda>n. p_num n g (toString_trm t True @ r)
          = Some (canon_trm (setCoefficient (g * \<bar>coefficient t\<bar>) t), r)))"

definition reads_exp :: "exp \<Rightarrow> bool" where
  "reads_exp e \<longleftrightarrow>
     (\<forall>r. stop_exp r \<longrightarrow>
        enough (\<lambda>n. p_exp n (toString_exp e @ r) = Some (canon_exp e, r)))"

lemma canon_setCoefficient: "canon_trm (setCoefficient c t) = setCoefficient c (canon_trm t)"
  by (cases t) simp_all

lemma abs_text_hd:
  assumes "wf_trm t" "starts c (toString_trm t True @ r)"
  shows "is_digit c \<or> id_start c"
proof -
  have d: "starts c (show_nat k @ s) \<Longrightarrow> is_digit c" for k s
    by (auto simp: starts_def)
  have w: "w \<noteq> [] \<Longrightarrow> id_start (hd w) \<Longrightarrow> starts c (coeffToStream a True @ w @ s) \<Longrightarrow> is_digit c \<or> id_start c"
    for a w s
    using d by (auto simp: coeffToStream_def show_int_def starts_def)
  show ?thesis
    using assms d[of "nat \<bar>coefficient t\<bar>" r] w[of "''__tv''"]
    by (cases t) (auto simp: Term_toString_def VarTerm_toString_def TupleVarTerm_toString_def
        UFCallTerm_toString_def show_int_def ident_def dest: w)
qed

lemma text_hd:
  assumes "wf_exp e" "starts c (toString_exp e @ r)"
  shows "is_digit c \<or> id_start c \<or> c = CHR ''-''"
proof (cases "mTerms e")
  case Nil
  have "is_digit CHR ''0''" by code_simp
  with Nil assms(2) show ?thesis by (cases e) (auto simp: starts_def)
next
  case (Cons t us)
  with assms obtain r' where "wf_trm t" "starts c (toString_trm t False @ r')"
    by (cases e) auto
  then show ?thesis using abs_text_hd[of t c r'] by (auto simp: text_sign starts_def split: if_splits)
qed

primrec separated :: "trm list \<Rightarrow> string" where
  "separated [] = ''''"
| "separated (u # us) =
     (if coefficient u < 0 then '' - '' else '' + '') @ toString_trm u True @ separated us"

lemma concat_separated:
  "concat (map (\<lambda>u. (if coefficient u < 0 then '' - '' else '' + '') @ toString_trm u True) us)
    = separated us"
  by (induction us) simp_all

lemma stop_separated: "stop_exp r \<Longrightarrow> stop (separated us @ r)"
  by (cases us) (simp_all add: stop_exp_stop, simp add: stop_def)

lemma reads_trm_sign:
  "reads_trm t \<Longrightarrow> stop r \<Longrightarrow>
    enough (\<lambda>n. p_num n (if coefficient t < 0 then -1 else 1) (toString_trm t True @ r)
      = Some (canon_trm t, r))"
  unfolding reads_trm_def
  by (drule spec[of _ "if coefficient t < 0 then -1 else 1"]) (auto split: if_splits)

lemma p_more_separated:
  assumes "stop_exp r"
  shows "\<forall>u \<in> set us. reads_trm u \<Longrightarrow>
    enough (\<lambda>n. p_more n (separated us @ r) = Some (map canon_trm us, r))"
proof (induction us)
  case Nil
  have "enough (\<lambda>n. p_more (Suc n) r = Some ([], r))"
    using p_more_stop[OF assms] by simp
  from enough_Suc[OF this] show ?case by simp
next
  case (Cons u us)
  let ?g = "if coefficient u < 0 then -1 else 1 :: int"
  from Cons.prems have "enough (\<lambda>n. p_num n ?g (toString_trm u True @ separated us @ r)
    = Some (canon_trm u, separated us @ r))"
    by (intro reads_trm_sign stop_separated[OF assms]) simp
  moreover from Cons have "enough (\<lambda>n. p_more n (separated us @ r) = Some (map canon_trm us, r))"
    by simp
  ultimately have "enough (\<lambda>n. p_more (Suc n) (separated (u # us) @ r)
    = Some (map canon_trm (u # us), r))"
    by eventually_elim (auto simp: reader_simps)
  then show ?case by (rule enough_Suc)
qed

lemma reads_exp_terms:
  assumes "\<And>t. t \<in> set ts \<Longrightarrow> reads_trm t" "\<And>t. t \<in> set ts \<Longrightarrow> wf_trm t"
  shows "reads_exp (Exp ts et)"
proof (cases ts)
  case Nil
  have "enough (\<lambda>n. p_exp (Suc (Suc n)) (''0'' @ r) = Some (Exp [Term 0] Expression, r))"
    if "stop_exp r" for r
  proof -
    have "show_int \<bar>0\<bar> = ''0''" by code_simp
    with p_num_const[OF stop_exp_stop[OF that], of _ 1 0] p_more_stop[OF that]
    show ?thesis by (simp add: starts_def p_exp.simps)
  qed
  with Nil show ?thesis
    by (simp add: reads_exp_def eventually_sequentially_Suc[of "\<lambda>n. p_exp (Suc n) _ = _"]
        eventually_sequentially_Suc[of "\<lambda>n. p_exp n _ = _"])
next
  case (Cons t us)
  show ?thesis unfolding reads_exp_def
  proof (intro allI impI)
    fix r assume r: "stop_exp r"
    let ?g = "if coefficient t < 0 then -1 else 1 :: int"
    from assms(1)[of t] Cons
    have num: "enough (\<lambda>n. p_num n ?g (toString_trm t True @ separated us @ r)
      = Some (canon_trm t, separated us @ r))"
      by (intro reads_trm_sign stop_separated[OF r]) simp
    have more: "enough (\<lambda>n. p_more n (separated us @ r) = Some (map canon_trm us, r))"
      by (rule p_more_separated[OF r]) (use assms Cons in auto)
    have shown: "toString_exp (Exp ts et) @ r
      = (if coefficient t < 0 then ''-'' else '''') @ toString_trm t True @ separated us @ r"
      using Cons by (simp add: text_sign concat_separated)
    have sign: "\<not> starts CHR ''-'' (toString_trm t True @ separated us @ r)"
      using abs_text_hd[of t "CHR ''-''"] assms(2)[of t] Cons by auto
    have "starts CHR ''-'' (''-'' @ toString_trm t True @ separated us @ r)"
      by (simp add: starts_def)
    with sign Cons have "p_exp (Suc n) (toString_exp (Exp ts et) @ r) = Some (canon_exp (Exp ts et), r)"
      if "p_num n ?g (toString_trm t True @ separated us @ r) = Some (canon_trm t, separated us @ r)"
        "p_more n (separated us @ r) = Some (map canon_trm us, r)" for n
      using that unfolding shown by (simp add: p_exp.simps split: if_splits)
    with num more have "enough (\<lambda>n. p_exp (Suc n) (toString_exp (Exp ts et) @ r)
      = Some (canon_exp (Exp ts et), r))"
      by (auto elim: eventually_elim2)
    then show "enough (\<lambda>n. p_exp n (toString_exp (Exp ts et) @ r) = Some (canon_exp (Exp ts et), r))"
      by (rule enough_Suc)
  qed
qed


lemma p_args_nil: "p_args (Suc n) ('')'' @ u) = Some ([], '')'' @ u)"
  by (simp add: reader_simps starts_def)

lemma p_args_reads:
  assumes "\<forall>e \<in> set es. reads_exp e \<and> wf_exp e"
  shows "enough (\<lambda>n. p_args n (argsToStream (map toString_exp es) @ '')'' @ u)
    = Some (map canon_exp es, '')'' @ u))"
  using assms
proof (induction "map toString_exp es" arbitrary: es rule: argsToStream.induct)
  case 1
  then have "enough (\<lambda>n. p_args (Suc n) (argsToStream (map toString_exp es) @ '')'' @ u)
    = Some (map canon_exp es, '')'' @ u))"
    using p_args_nil by simp
  then show ?case by (rule enough_Suc)
next
  case (2 a)
  then obtain e where e: "es = [e]" "a = toString_exp e" by auto
  have "enough (\<lambda>n. p_exp n (toString_exp e @ '')'' @ u) = Some (canon_exp e, '')'' @ u))"
    using 2 e by (simp add: reads_exp_def stop_exp_def)
  moreover have "\<not> starts CHR '')'' (toString_exp e @ '')'' @ u)"
    using text_hd[of e "CHR '')''"] 2 e by auto
  ultimately have "enough (\<lambda>n. p_args (Suc n) (toString_exp e @ '')'' @ u) = Some ([canon_exp e], '')'' @ u))"
    by (auto elim!: eventually_mono simp: p_args.simps take2_cases)
  then show ?case unfolding e by (intro enough_Suc[of "\<lambda>n. p_args n _ = _"]) simp
next
  case (3 a b as)
  then obtain e es' where e: "es = e # es'" "a = toString_exp e" "b # as = map toString_exp es'"
    by auto
  let ?rest = "argsToStream (map toString_exp es') @ '')'' @ u"
  have "enough (\<lambda>n. p_exp n (toString_exp e @ '', '' @ ?rest) = Some (canon_exp e, '', '' @ ?rest))"
    using 3 e by (simp add: reads_exp_def stop_exp_def)
  moreover have "enough (\<lambda>n. p_args n ?rest = Some (map canon_exp es', '')'' @ u))"
    using 3(1)[OF e(3)] 3(3) e(1) by simp
  ultimately have "enough (\<lambda>n. p_args (Suc n) (toString_exp e @ '', '' @ ?rest)
      = Some (map canon_exp es, '')'' @ u))"
    unfolding e(1)
  proof eventually_elim
    case (elim n)
    have "\<not> starts CHR '')'' (toString_exp e @ '', '' @ ?rest)"
      using text_hd[of e "CHR '')''"] 3 e by auto
    with elim show ?case by (simp add: p_args.simps)
  qed
  moreover have "argsToStream (map toString_exp es) @ '')'' @ u = toString_exp e @ '', '' @ ?rest"
    using e by (metis append.assoc argsToStream.simps(3) list.simps(9))
  ultimately show ?case by (intro enough_Suc[of "\<lambda>n. p_args n _ = _"]) simp
qed

lemma reads_atom:
  assumes "\<And>g r n. stop r \<Longrightarrow> p_num (Suc (Suc n)) g (toString_trm t True @ r)
          = Some (canon_trm (setCoefficient (g * \<bar>coefficient t\<bar>) t), r)"
  shows "reads_trm t"
  unfolding reads_trm_def
proof (intro allI impI)
  fix g r assume "stop r"
  with assms show "enough (\<lambda>n. p_num n g (toString_trm t True @ r)
      = Some (canon_trm (setCoefficient (g * \<bar>coefficient t\<bar>) t), r))"
    by (intro enough_Suc[of "\<lambda>n. p_num n _ _ = _"] enough_Suc[of "\<lambda>n. p_num (Suc n) _ _ = _"]) simp
qed

lemma reads_call:
  assumes "\<forall>e \<in> set es. reads_exp e \<and> wf_exp e" "ident f" "-1 \<le> i"
  shows "reads_trm (UFCallTerm c f es i)"
  unfolding reads_trm_def
proof (intro allI impI)
  fix g r assume r: "stop r"
  define u where "u = (if isIndexed i then ''['' @ show_int (tupleIndex i) @ '']'' else '''') @ r"
  have "enough (\<lambda>n. p_num (Suc (Suc n)) g (toString_trm (UFCallTerm c f es i) True @ r)
    = Some (UFCallTerm (g * \<bar>c\<bar>) f (map canon_exp es) i, r))"
  proof (rule eventually_mono[OF p_args_reads[OF assms(1)]])
    fix n
    assume "p_args n (argsToStream (map toString_exp es) @ '')'' @ u) = Some (map canon_exp es, '')'' @ u)"
    from p_body_call[OF assms(2,3) r this u_def] assms(2)
    show "p_num (Suc (Suc n)) g (toString_trm (UFCallTerm c f es i) True @ r)
      = Some (UFCallTerm (g * \<bar>c\<bar>) f (map canon_exp es) i, r)"
      using p_num_coeff[of "f @ ''('' @ argsToStream (map toString_exp es) @ '')'' @ u"]
      by (simp add: UFCallTerm_toString_def u_def ident_def)
  qed
  then show "enough (\<lambda>n. p_num n g (toString_trm (UFCallTerm c f es i) True @ r) =
      Some (canon_trm (setCoefficient (g * \<bar>coefficient (UFCallTerm c f es i)\<bar>) (UFCallTerm c f es i)), r))"
    by (intro enough_Suc[of "\<lambda>n. p_num n _ _ = _"] enough_Suc[of "\<lambda>n. p_num (Suc n) _ _ = _"]) simp
qed

lemma reads:
  "wf_trm t \<Longrightarrow> reads_trm t"
  "wf_exp e \<Longrightarrow> reads_exp e"
proof (induction t and e rule: trm.induct exp.induct)
  case (Term c)
  show ?case by (rule reads_atom) (simp add: Term_toString_def p_num_const)
next
  case (VarTerm c s)
  then show ?case
    by (intro reads_atom) (simp add: VarTerm_toString_def p_num_coeff p_body_var ident_def)
next
  case (TupleVarTerm c l)
  then show ?case
    using p_num_coeff[of "''__tv'' @ show_int l @ _"] p_body_tv
    by (intro reads_atom) (simp add: TupleVarTerm_toString_def)
next
  case (UFCallTerm c f es i)
  then show ?case by (intro reads_call) (auto simp: list_all_iff)
next
  case (Exp ts et)
  then show ?case by (intro reads_exp_terms) (auto simp: list_all_iff)
qed

lemma p_exp_toString:
  assumes "wf_exp e"
  shows "enough (\<lambda>n. p_exp n (toString_exp e) = Some (canon_exp e, []))"
  using reads(2)[OF assms] unfolding reads_exp_def
  by (auto dest!: spec[of _ "[]"] simp: stop_exp_def)

lemma toString_exp_inject:
  assumes "wf_exp e" "wf_exp e'" "toString_exp e = toString_exp e'"
  shows "canon_exp e = canon_exp e'"
proof -
  have "enough (\<lambda>n. canon_exp e = canon_exp e')"
    using p_exp_toString[OF assms(1)] p_exp_toString[OF assms(2)] unfolding assms(3)
    by eventually_elim simp
  then show ?thesis by simp
qed

lemma args_inject:
  assumes "list_all wf_exp es" "list_all wf_exp es'"
    "argsToStream (map toString_exp es) = argsToStream (map toString_exp es')"
  shows "map canon_exp es = map canon_exp es'"
proof -
  have r: "list_all wf_exp as \<Longrightarrow> \<forall>e \<in> set as. reads_exp e \<and> wf_exp e" for as
    by (auto simp: list_all_iff reads)
  have "enough (\<lambda>n. map canon_exp es = map canon_exp es')"
    using p_args_reads[OF r[OF assms(1)], of "[]"] p_args_reads[OF r[OF assms(2)], of "[]"]
    unfolding assms(3) by eventually_elim simp
  then show ?thesis by simp
qed

end
