(* ===== verification/Exp_Semantics.thy ===== *)
theory Exp_Semantics
  imports Exp_Print
begin

text \<open>
  What an expression denotes, and that every operation of theory \<open>Expression\<close> computes what its
  name says: \<open>addTerm\<close> and \<open>addExp\<close> add, \<open>multiplyBy\<close> multiplies, \<open>divideBy\<close> divides exactly or
  throws, equality of expressions means equal values. The value of a function call is that of its
  function at the component \<open>tupleIndex\<close> of the result, so that \<open>f(x)\<close> and \<open>f(x)[0]\<close> agree, which
  is what \<open>factorMatches\<close> assumes.
\<close>

section \<open>The value of an expression\<close>

record interp =
  tv :: "int \<Rightarrow> int"
  sym :: "string \<Rightarrow> int"
  uf :: "string \<Rightarrow> int \<Rightarrow> int list \<Rightarrow> int"

fun eval_trm :: "interp \<Rightarrow> trm \<Rightarrow> int" and eval_exp :: "interp \<Rightarrow> exp \<Rightarrow> int" where
  "eval_trm I (Term c) = c"
| "eval_trm I (VarTerm c s) = c * sym I s"
| "eval_trm I (TupleVarTerm c l) = c * tv I l"
| "eval_trm I (UFCallTerm c f args i) = c * uf I f (tupleIndex i) (map (eval_exp I) args)"
| "eval_exp I (Exp ts et) = sum_list (map (eval_trm I) ts)"

lemma eval_exp_terms: "eval_exp I e = sum_list (map (eval_trm I) (mTerms e))"
  by (cases e) simp

lemma eval_setCoefficient:
  "eval_trm I (setCoefficient k t) = k * eval_trm I (setCoefficient 1 t)"
  by (cases t) simp_all

lemma eval_trm_factor: "eval_trm I t = coefficient t * eval_trm I (setCoefficient 1 t)"
  by (cases t) simp_all

lemma eval_canon:
  "eval_trm I (canon_trm t) = eval_trm I t"
  "eval_exp I (canon_exp e) = eval_exp I e"
proof (induction t and e rule: trm.induct exp.induct)
  case (UFCallTerm c f es i)
  then have "map (eval_exp I) (map canon_exp es) = map (eval_exp I) es" by simp
  then show ?case unfolding canon_trm.simps eval_trm.simps by (rule arg_cong)
next
  case (Exp ts et)
  then have "map (eval_trm I) (map canon_trm ts) = map (eval_trm I) ts" by simp
  then have "sum_list (map (eval_trm I) (map canon_trm ts)) = sum_list (map (eval_trm I) ts)"
    by (rule arg_cong)
  then show ?case by (cases ts) simp_all
qed simp_all

section \<open>Matching factors\<close>

text \<open>Terms whose factors match differ in their coefficients only.\<close>

lemma factorMatches_eval:
  assumes "wf_trm t" "wf_trm u" "factorMatches t u"
  shows "eval_trm I (setCoefficient k t) = eval_trm I (setCoefficient k u)"
proof (cases t)
  case (UFCallTerm c f as i)
  with assms(3) obtain d bs j where u: "u = UFCallTerm d f bs j" "tupleIndex i = tupleIndex j"
    "argsToStream (map toString_exp as) = argsToStream (map toString_exp bs)"
    by (cases u) (auto simp: factorMatches_def split: if_splits)
  with assms UFCallTerm have "map canon_exp as = map canon_exp bs"
    by (intro args_inject) simp_all
  then have "map (eval_exp I) (map canon_exp as) = map (eval_exp I) (map canon_exp bs)"
    by (rule arg_cong)
  then have "map (eval_exp I) as = map (eval_exp I) bs"
    by (simp add: comp_def eval_canon)
  with UFCallTerm u show ?thesis by simp
qed (use assms(3) in \<open>cases u; simp add: factorMatches_def Term_factorMatches_def\<close>)+

lemma wf_combine: "combine t u = Some v \<Longrightarrow> wf_trm t \<Longrightarrow> wf_trm v"
  by (auto simp: combine_def split: if_splits)

lemma eval_combine [sound]:
  assumes "combine t u = Some v" "wf_trm t" "wf_trm u"
  shows "eval_trm I v = eval_trm I t + eval_trm I u"
proof -
  from assms(1) have m: "factorMatches t u" and v: "v = setCoefficient (coefficient t + coefficient u) t"
    by (auto simp: combine_def split: if_splits)
  from factorMatches_eval[OF assms(2,3) m, of I 1] eval_setCoefficient[of I "coefficient t + coefficient u" t]
  show ?thesis unfolding v eval_trm_factor[of I t] eval_trm_factor[of I u]
    by (simp add: algebra_simps)
qed

section \<open>Sums\<close>

lemma wf_addTerm_loop:
  "list_all wf_trm ts \<Longrightarrow> wf_trm t \<Longrightarrow> list_all wf_trm (addTerm_loop ts t)"
  by (induction ts) (auto split: option.splits dest: wf_combine)

lemma wf_addTerm [intro]: "wf_exp e \<Longrightarrow> wf_trm t \<Longrightarrow> wf_exp (addTerm e t)"
  by (cases e) (simp add: addTerm_def wf_addTerm_loop)

lemma eval_addTerm_loop:
  "list_all wf_trm ts \<Longrightarrow> wf_trm t \<Longrightarrow>
    sum_list (map (eval_trm I) (addTerm_loop ts t)) = sum_list (map (eval_trm I) ts) + eval_trm I t"
proof (induction ts)
  case (Cons u us)
  show ?case
  proof (cases "combine u t")
    case None
    with Cons show ?thesis by simp
  next
    case (Some v)
    with Cons.prems eval_combine[OF Some, of I] eval_trm_factor[of I v] show ?thesis by auto
  qed
qed simp

lemma eval_addTerm [sound]:
  assumes "wf_exp e" "wf_trm t"
  shows "eval_exp I (addTerm e t) = eval_exp I e + eval_trm I t"
proof (cases e)
  case (Exp ts et)
  with assms eval_addTerm_loop[of ts t I] eval_trm_factor[of I t]
  show ?thesis by (simp add: addTerm_def)
qed

lemma wf_addTerms: "wf_exp e \<Longrightarrow> list_all wf_trm ts \<Longrightarrow> wf_exp (foldl addTerm e ts)"
  by (induction ts arbitrary: e) auto

lemma eval_addTerms:
  "wf_exp e \<Longrightarrow> list_all wf_trm ts \<Longrightarrow>
    eval_exp I (foldl addTerm e ts) = eval_exp I e + sum_list (map (eval_trm I) ts)"
  by (induction ts arbitrary: e) (simp_all add: eval_addTerm wf_addTerm)

lemma wf_addExp [intro]: "wf_exp e \<Longrightarrow> wf_exp e' \<Longrightarrow> wf_exp (addExp e e')"
  unfolding addExp_def by (rule wf_addTerms) (auto simp: wf_exp_iff list_all_iff)

lemma eval_addExp [sound]:
  assumes "wf_exp e" "wf_exp e'"
  shows "eval_exp I (addExp e e') = eval_exp I e + eval_exp I e'"
  using assms eval_addTerms[of e "mTerms e'" I]
  by (simp add: addExp_def eval_exp_terms wf_exp_iff list_all_iff)

section \<open>Multiples and quotients\<close>

lemma wf_multiplyBy [simp]: "wf_exp (multiplyBy e k) = wf_exp e"
  by (cases e) (auto simp: multiplyBy_def multiplyBy_term_def list_all_iff)

lemma eval_multiplyBy_term [simp]: "eval_trm I (multiplyBy_term t k) = k * eval_trm I t"
  unfolding multiplyBy_term_def eval_setCoefficient[of I "coefficient t * k"] eval_trm_factor[of I t]
  by simp

lemma eval_multiplyBy [sound, simp]: "eval_exp I (multiplyBy e k) = k * eval_exp I e"
  by (simp add: multiplyBy_def eval_exp_terms comp_def sum_list_const_mult)

lemma divideBy_term_Inr:
  "divideBy_term t d = Inr t' \<longleftrightarrow>
     d \<noteq> 0 \<and> d dvd coefficient t \<and> t' = setCoefficient (c_div (coefficient t) d) t"
  by (auto simp: divideBy_term_def c_rem_eq_0_iff)

lemma eval_divideBy_term:
  assumes "divideBy_term t d = Inr t'"
  shows "d * eval_trm I t' = eval_trm I t"
proof -
  from assms have d: "c_div (coefficient t) d * d = coefficient t"
    and t': "t' = setCoefficient (c_div (coefficient t) d) t"
    by (simp_all add: divideBy_term_Inr c_div_exact)
  have "d * eval_trm I t' = (c_div (coefficient t) d * d) * eval_trm I (setCoefficient 1 t)"
    unfolding t' eval_setCoefficient[of I "c_div (coefficient t) d"] by (simp add: algebra_simps)
  then show ?thesis unfolding d using eval_trm_factor[of I t] by simp
qed

lemma divideBy_Inr:
  "divideBy e d = Inr e' \<longleftrightarrow>
     mExpType e' = mExpType e \<and> list_all2 (\<lambda>t t'. divideBy_term t d = Inr t') (mTerms e) (mTerms e')"
  by (cases e') (auto simp: divideBy_def map_result_Inr_iff)

lemma wf_divideBy: "divideBy e d = Inr e' \<Longrightarrow> wf_exp e \<Longrightarrow> wf_exp e'"
proof -
  assume "divideBy e d = Inr e'" "wf_exp e"
  then have "list_all2 (\<lambda>t t'. divideBy_term t d = Inr t') (mTerms e) (mTerms e')"
    "list_all wf_trm (mTerms e)"
    by (simp_all add: divideBy_Inr wf_exp_iff list_all_iff)
  then have "list_all wf_trm (mTerms e')"
    by (induction rule: list_all2_induct) (auto simp: divideBy_term_Inr)
  then show "wf_exp e'" by (simp add: wf_exp_iff list_all_iff)
qed

lemma eval_divideBy [sound]:
  assumes "divideBy e d = Inr e'"
  shows "d * eval_exp I e' = eval_exp I e"
proof -
  from assms have "list_all2 (\<lambda>t t'. divideBy_term t d = Inr t') (mTerms e) (mTerms e')"
    by (simp add: divideBy_Inr)
  then have "d * sum_list (map (eval_trm I) (mTerms e')) = sum_list (map (eval_trm I) (mTerms e))"
  proof (induction rule: list_all2_induct)
    case (Cons t ts t' ts')
    from eval_divideBy_term[OF Cons(1), of I] Cons(3) show ?case by (simp add: distrib_left)
  qed simp
  then show ?thesis by (simp add: eval_exp_terms)
qed

lemma divideBy_succeeds:
  assumes "isDivisible e d = Inr True"
  shows "\<exists>e'. divideBy e d = Inr e'"
proof -
  have "list_all (\<lambda>t. d \<noteq> 0 \<and> d dvd coefficient t) (mTerms e)"
    using assms by (auto simp: isDivisible_def list_all_iff c_rem_eq_0_iff split: if_splits)
  then have "map_result (\<lambda>t. divideBy_term t d) (mTerms e)
    = Inr (map (\<lambda>t. setCoefficient (c_div (coefficient t) d) t) (mTerms e))"
    by (intro map_result_pure) (simp add: divideBy_term_Inr list_all_iff)
  then show ?thesis by (simp add: divideBy_def)
qed

section \<open>Equality, signs and constants\<close>

lemma key_of_trm_eval:
  assumes "wf_trm t" "wf_trm u" "key_of_trm t = key_of_trm u"
  shows "eval_trm I t = eval_trm I u"
proof -
  from assms(3) have "trm_eq t u" by (simp add: trm_eq_key)
  then have "factorMatches t u" "coefficient t = coefficient u"
    by (auto dest: trm_eq_factorMatches)
  with factorMatches_eval[OF assms(1,2), of I "coefficient u"] show ?thesis
    by (metis setCoefficient_same)
qed

lemma key_of_exp_eval:
  assumes "wf_exp e" "wf_exp e'" "key_of_exp e = key_of_exp e'"
  shows "eval_exp I e = eval_exp I e'"
proof -
  have "length (mTerms e) = length (mTerms e') \<Longrightarrow> list_all wf_trm (mTerms e) \<Longrightarrow>
    list_all wf_trm (mTerms e') \<Longrightarrow> map key_of_trm (mTerms e) = map key_of_trm (mTerms e') \<Longrightarrow>
    map (eval_trm I) (mTerms e) = map (eval_trm I) (mTerms e')"
    by (induction rule: list_induct2) (simp_all add: key_of_trm_eval)
  then have "map (eval_trm I) (mTerms e) = map (eval_trm I) (mTerms e')"
    using assms by (simp add: key_of_exp_def wf_exp_iff list_all_iff)
  then show ?thesis by (simp add: eval_exp_terms)
qed

lemma exp_eq_eval [sound]:
  "wf_exp e \<Longrightarrow> wf_exp e' \<Longrightarrow> exp_eq e e' \<Longrightarrow> eval_exp I e = eval_exp I e'"
  by (rule key_of_exp_eval) (simp_all add: exp_eq_key)

lemma equalsZero_eval: "equalsZero e \<Longrightarrow> eval_exp I e = 0"
proof (cases "mTerms e")
  case (Cons t ts)
  moreover assume "equalsZero e"
  ultimately show ?thesis using eval_trm_factor[of I t]
    by (auto simp: equalsZero_def eval_exp_terms split: if_splits)
qed (simp add: eval_exp_terms)

lemma eval_normalizeForEquality [sound]:
  "\<exists>s. (s = 1 \<or> s = -1) \<and> eval_exp I (normalizeForEquality e) = s * eval_exp I e"
proof (cases "mTerms e")
  case (Cons t ts)
  let ?e = "if coefficient (hd (mTerms e)) < 0 then multiplyBy e (-1) else e"
  have ne: "mTerms ?e \<noteq> []" using Cons by (auto simp: multiplyBy_def)
  have "eval_exp I ?e = sum_list (map (eval_trm I) (butlast (mTerms ?e) @ [last (mTerms ?e)]))"
    unfolding append_butlast_last_id[OF ne] eval_exp_terms ..
  moreover have "coefficient (last (mTerms ?e)) = 0 \<Longrightarrow> eval_trm I (last (mTerms ?e)) = 0"
    using eval_trm_factor[of I "last (mTerms ?e)"] by simp
  ultimately have "eval_exp I (normalizeForEquality e) = eval_exp I ?e"
    using Cons by (simp add: normalizeForEquality_def Let_def eval_exp_terms split del: if_split split: if_splits)
  then show ?thesis by (cases "coefficient (hd (mTerms e)) < 0") (auto intro: exI[of _ 1] exI[of _ "-1"])
qed (auto simp: normalizeForEquality_def)

lemma wf_normalizeForEquality [intro]: "wf_exp e \<Longrightarrow> wf_exp (normalizeForEquality e)"
  by (auto simp: normalizeForEquality_def Let_def wf_exp_iff multiplyBy_def multiplyBy_term_def dest!: in_set_butlastD)

end
