(* ===== verification/Collapse.thy ===== *)
theory Collapse
  imports Exp_Semantics
begin

text \<open>
  \<open>collapseNestedInvertibleFunctions\<close> of \<open>UFCallTerm\<close>, \<open>Term\<close> and \<open>Exp\<close> (\<open>expression.cc\<close>): nested
  calls \<open>f(f_inv(x))\<close> and \<open>g(g_inv(x)[0], g_inv(x)[1])\<close> become \<open>x\<close>. The argument \<open>qinv\<close> is what
  \<open>queryInverseCurrEnv\<close> answers for the current environment: the name of the inverse, or the empty
  string.
\<close>

section \<open>The operation\<close>

text \<open>
  The loop over the arguments: whether all of them are calls to the inverse at their own index and
  with one and the same argument, and that argument (a null pointer before the first).
\<close>

fun scan_args :: "string \<Rightarrow> nat \<Rightarrow> exp option \<Rightarrow> exp list \<Rightarrow> (bool \<times> exp option) result" where
  "scan_args inverseFuncName arg_index saved_arg [] = Inr (True, saved_arg)"
| "scan_args inverseFuncName arg_index saved_arg (arg # args) =
     (case getTerm arg of
        Some (UFCallTerm c g nested i) \<Rightarrow>
          if g \<noteq> inverseFuncName then Inr (False, saved_arg)
          else if int arg_index \<noteq> tupleIndex i then Inr (False, saved_arg)
          else if length nested \<noteq> 1
          then Inl (Assert_exception (''UFCallTerm::collapseNestedInvertibleFunctions: '' @
                 ''nested invertible function should only take one arg''))
          else
            let nestedParam = hd nested in
            if arg_index = 0 then scan_args inverseFuncName (Suc arg_index) (Some nestedParam) args
            else (case saved_arg of
                    None \<Rightarrow> Inl (Undefined ''null pointer'')
                  | Some s \<Rightarrow>
                      if \<not> exp_eq nestedParam s then Inr (False, saved_arg)
                      else scan_args inverseFuncName (Suc arg_index) saved_arg args)
      | _ \<Rightarrow> Inr (False, saved_arg))"

lemma getTerm_eq: "getTerm e = Some t \<longleftrightarrow> mTerms e = [t]"
  by (cases e; cases "mTerms e") (auto simp: getTerm_def length_Suc_conv)

lemma size_nested:
  "getTerm arg = Some (UFCallTerm c g nested i) \<Longrightarrow> length nested = 1 \<Longrightarrow> size (hd nested) < size arg"
  by (cases arg) (auto simp: getTerm_eq length_Suc_conv)

lemma scan_args_size:
  "scan_args f k saved args = Inr (b, Some a) \<Longrightarrow> (\<forall>s. saved = Some s \<longrightarrow> size s < n) \<Longrightarrow>
    (\<forall>arg \<in> set args. size arg < n) \<Longrightarrow> size a < n"
proof (induction f k saved args rule: scan_args.induct)
  case (2 f k saved arg args)
  then show ?case
    by (auto simp: Let_def dest: size_nested split: option.splits trm.splits if_splits)
qed simp

lemma size_arg: "arg \<in> set args \<Longrightarrow> size arg < size (UFCallTerm c f args i)"
  by (induction args) auto

lemma size_term: "t \<in> set (mTerms e) \<Longrightarrow> size t < size e"
  by (cases e) (auto simp: less_Suc_eq_le size_list_estimation')

lemma scan_args_size0:
  "scan_args g 0 None args = Inr (b, Some a) \<Longrightarrow> size a < size (UFCallTerm c f args i)"
  using scan_args_size[of g 0 None args b a "size (UFCallTerm c f args i)"] size_arg[of _ args c f i] by blast

function collapse_trm :: "(string \<Rightarrow> string) \<Rightarrow> trm \<Rightarrow> exp result"
  and collapse_exp :: "(string \<Rightarrow> string) \<Rightarrow> exp \<Rightarrow> exp result" where
  "collapse_trm qinv (UFCallTerm c f args i) =
     (case scan_args (qinv f) 0 None args of
        Inl e \<Rightarrow> Inl e
      | Inr (True, None) \<Rightarrow> Inl (Undefined ''null pointer'')
      | Inr (True, Some arg) \<Rightarrow> bind_result (collapse_exp qinv arg) (\<lambda>e. Inr (multiplyBy e c))
      | Inr (False, _) \<Rightarrow>
          bind_result (map_result (collapse_exp qinv) args)
            (\<lambda>args'. Inr (addTerm empty_exp (UFCallTerm c f args' i))))"
| "collapse_trm qinv (Term c) = Inr (addTerm empty_exp (Term c))"
| "collapse_trm qinv (VarTerm c s) = Inr (addTerm empty_exp (VarTerm c s))"
| "collapse_trm qinv (TupleVarTerm c l) = Inr (addTerm empty_exp (TupleVarTerm c l))"
| "collapse_exp qinv e =
     fold_result (\<lambda>acc t. bind_result (collapse_trm qinv t) (\<lambda>e'. Inr (addExp acc e'))) empty_exp (mTerms e)"
  by pat_completeness auto

termination
  by (relation "measure (\<lambda>x. case x of Inl (qinv, t) \<Rightarrow> size t | Inr (qinv, e) \<Rightarrow> size e)")
    (auto dest: scan_args_size0 size_arg size_term simp del: trm.size exp.size)

declare collapse_trm.simps [simp del] collapse_exp.simps [simp del]


section \<open>What it preserves\<close>

text \<open>
  The signature of a function is the number of its arguments and of the components of its result.
  The law of the inverses in an interpretation: a function whose result is not a tuple, applied to
  all components of its inverse at \<open>x\<close>, gives \<open>x\<close>.
\<close>

definition respects_inverses :: "(string \<Rightarrow> string) \<Rightarrow> (string \<Rightarrow> nat \<times> nat) \<Rightarrow> interp \<Rightarrow> bool" where
  "respects_inverses qinv sig I \<longleftrightarrow>
     (\<forall>f x. qinv f \<noteq> '''' \<and> snd (sig f) = 1 \<longrightarrow>
        uf I f 0 (map (\<lambda>k. uf I (qinv f) (int k) [x]) [0..<fst (sig f)]) = x)"

text \<open>
  The calls the collapse is meant for: every call has arguments, and where a call of the inverse is
  an argument, the function is not tuple-valued, has the arguments of its signature, and the nested
  calls have coefficient 1 and one argument.
\<close>

definition nested_unit :: "string \<Rightarrow> exp \<Rightarrow> bool" where
  "nested_unit g arg \<longleftrightarrow>
     (case getTerm arg of
        Some (UFCallTerm c h nested i) \<Rightarrow> h = g \<longrightarrow> c = 1 \<and> length nested = 1
      | _ \<Rightarrow> True)"

definition calls :: "string \<Rightarrow> exp \<Rightarrow> bool" where
  "calls g arg \<longleftrightarrow> (case getTerm arg of Some (UFCallTerm c h nested i) \<Rightarrow> h = g | _ \<Rightarrow> False)"

lemma not_calls_nested_unit: "\<not> calls g arg \<Longrightarrow> nested_unit g arg"
  by (auto simp: calls_def nested_unit_def split: option.splits trm.splits)

lemma scan_args_calls: "scan_args g k saved (arg # args) = Inr (True, s) \<Longrightarrow> calls g arg"
  by (auto simp: calls_def split: option.splits trm.splits if_splits)

lemma calls_ident: "calls g arg \<Longrightarrow> wf_exp arg \<Longrightarrow> g \<noteq> ''''"
  by (cases arg) (auto simp: calls_def getTerm_def ident_def length_Suc_conv split: option.splits trm.splits if_splits)

fun collapsible_trm :: "(string \<Rightarrow> string) \<Rightarrow> (string \<Rightarrow> nat \<times> nat) \<Rightarrow> trm \<Rightarrow> bool"
  and collapsible_exp :: "(string \<Rightarrow> string) \<Rightarrow> (string \<Rightarrow> nat \<times> nat) \<Rightarrow> exp \<Rightarrow> bool" where
  "collapsible_trm qinv sig (UFCallTerm c f args i) \<longleftrightarrow>
     args \<noteq> [] \<and>
     (list_ex (calls (qinv f)) args \<longrightarrow>
        tupleIndex i = 0 \<and> sig f = (length args, 1) \<and> list_all (nested_unit (qinv f)) args)
     \<and> list_all (collapsible_exp qinv sig) args"
| "collapsible_trm qinv sig (Term c) \<longleftrightarrow> True"
| "collapsible_trm qinv sig (VarTerm c s) \<longleftrightarrow> True"
| "collapsible_trm qinv sig (TupleVarTerm c l) \<longleftrightarrow> True"
| "collapsible_exp qinv sig (Exp ts et) \<longleftrightarrow> list_all (collapsible_trm qinv sig) ts"

lemma wf_nested:
  "getTerm arg = Some (UFCallTerm c g nested i) \<Longrightarrow> wf_exp arg \<Longrightarrow> length nested = 1 \<Longrightarrow>
    ident g \<and> wf_exp (hd nested)"
  by (cases arg) (auto simp: getTerm_eq length_Suc_conv)

lemma eval_nested:
  "getTerm arg = Some (UFCallTerm c g nested i) \<Longrightarrow> length nested = 1 \<Longrightarrow>
    eval_exp I arg = c * uf I g (tupleIndex i) [eval_exp I (hd nested)]"
  by (cases arg) (auto simp: getTerm_eq length_Suc_conv)

lemma collapsible_nested:
  "getTerm arg = Some (UFCallTerm c g nested i) \<Longrightarrow> collapsible_exp qinv sig arg \<Longrightarrow> length nested = 1 \<Longrightarrow>
    collapsible_exp qinv sig (hd nested)"
  by (cases arg) (auto simp: getTerm_eq length_Suc_conv)

text \<open>When the scan succeeds, the arguments are the components of the inverse at the saved argument.\<close>

lemma scan_args_sound:
  assumes "scan_args g k saved args = Inr (True, saved')"
    "list_all wf_exp args" "list_all (nested_unit g) args" "list_all (collapsible_exp qinv sig) args"
    "\<And>s. saved = Some s \<Longrightarrow> wf_exp s \<and> collapsible_exp qinv sig s"
    "args \<noteq> [] \<or> saved \<noteq> None"
  obtains s where "saved' = Some s" "wf_exp s" "collapsible_exp qinv sig s"
    "k \<noteq> 0 \<Longrightarrow> saved = Some s" "args \<noteq> [] \<Longrightarrow> g = '''' \<Longrightarrow> False"
    "map (eval_exp I) args = map (\<lambda>j. uf I g (int j) [eval_exp I s]) [k..<k + length args]"
proof -
  have "\<exists>s. saved' = Some s \<and> wf_exp s \<and> collapsible_exp qinv sig s \<and> (k \<noteq> 0 \<longrightarrow> saved = Some s)
    \<and> (args \<noteq> [] \<longrightarrow> g \<noteq> '''')
    \<and> map (eval_exp I) args = map (\<lambda>j. uf I g (int j) [eval_exp I s]) [k..<k + length args]"
    using assms
  proof (induction g k saved args rule: scan_args.induct)
    case (2 g k saved arg args)
    from 2(3) obtain c h nested i where t: "getTerm arg = Some (UFCallTerm c h nested i)"
      by (auto split: option.splits trm.splits)
    with 2(3) have h: "h = g" "tupleIndex i = int k" "length nested = 1"
      by (auto split: if_splits)
    from 2(5) t h have c: "c = 1" by (simp add: nested_unit_def)
    let ?n = "hd nested"
    have n: "wf_exp ?n" "g \<noteq> ''''" "collapsible_exp qinv sig ?n"
      using wf_nested[OF t] collapsible_nested[OF t] h(3) 2(4,6) h(1) by (auto simp: ident_def)
    have ev: "eval_exp I arg = uf I g (int k) [eval_exp I ?n]"
      using eval_nested[OF t h(3)] c h by simp
    obtain s where s: "scan_args g (Suc k) (Some s) args = Inr (True, saved')" "wf_exp s"
      "collapsible_exp qinv sig s" "k \<noteq> 0 \<Longrightarrow> saved = Some s" "eval_exp I ?n = eval_exp I s"
      and IH: "list_all wf_exp args \<Longrightarrow> list_all (nested_unit g) args \<Longrightarrow>
        list_all (collapsible_exp qinv sig) args \<Longrightarrow>
        \<exists>s'. saved' = Some s' \<and> wf_exp s' \<and> collapsible_exp qinv sig s' \<and> Some s = Some s'
          \<and> (args \<noteq> [] \<longrightarrow> g \<noteq> '''')
          \<and> map (eval_exp I) args = map (\<lambda>j. uf I g (int j) [eval_exp I s']) [Suc k..<Suc k + length args]"
    proof (cases "k = 0")
      case True
      with 2(3) t h have r: "scan_args g (Suc k) (Some ?n) args = Inr (True, saved')" by simp
      show thesis
        by (rule that[OF r n(1,3)]) (use True 2(1)[OF t refl _ _ _ refl True r] h n in auto)
    next
      case False
      with 2(3) t h obtain s where s: "saved = Some s" "exp_eq ?n s"
        "scan_args g (Suc k) (Some s) args = Inr (True, saved')"
        by (auto simp: Let_def split: option.splits if_splits)
      with 2(7) have ok: "wf_exp s" "collapsible_exp qinv sig s" by auto
      show thesis
        by (rule that[OF s(3) ok]) (use False s exp_eq_eval[OF n(1) ok(1) s(2)] 2(2)[OF t refl _ _ _ refl False s(1)] h ok in auto)
    qed
    from IH 2(4-6) obtain s' where s': "saved' = Some s'" "s' = s"
      "map (eval_exp I) args = map (\<lambda>j. uf I g (int j) [eval_exp I s']) [Suc k..<Suc k + length args]" by auto
    have "[k..<k + length (arg # args)] = k # [Suc k..<Suc k + length args]"
      by (simp add: upt_conv_Cons del: upt_Suc)
    with s' s ev n show ?case by (intro exI[of _ s]) simp
  qed auto
  then show thesis using that by blast
qed

lemma wf_empty [simp]: "wf_exp empty_exp"
  by simp

lemma wf_addTerm_empty [simp]: "wf_exp (addTerm empty_exp t) \<longleftrightarrow> wf_trm t \<or> coefficient t = 0"
  by (simp add: addTerm_def)

lemma eval_addTerm_empty [simp]: "eval_exp I (addTerm empty_exp t) = eval_trm I t"
  using eval_trm_factor[of I t] by (simp add: addTerm_def)

lemma fold_collapse_sound:
  assumes "\<And>t e'. t \<in> set ts \<Longrightarrow> collapse_trm qinv t = Inr e' \<Longrightarrow> wf_exp e' \<and> eval_exp I e' = eval_trm I t"
  shows "fold_result (\<lambda>acc t. bind_result (collapse_trm qinv t) (\<lambda>e'. Inr (addExp acc e'))) acc ts = Inr e \<Longrightarrow>
    wf_exp acc \<Longrightarrow> wf_exp e \<and> eval_exp I e = eval_exp I acc + sum_list (map (eval_trm I) ts)"
  using assms
proof (induction ts arbitrary: acc)
  case (Cons t ts)
  then obtain e' where e': "collapse_trm qinv t = Inr e'"
    "fold_result (\<lambda>acc t. bind_result (collapse_trm qinv t) (\<lambda>e'. Inr (addExp acc e'))) (addExp acc e') ts = Inr e"
    by auto
  with Cons.prems(3) have "wf_exp e'" "eval_exp I e' = eval_trm I t" by auto
  moreover have "wf_exp e \<and> eval_exp I e = eval_exp I (addExp acc e') + sum_list (map (eval_trm I) ts)"
    by (rule Cons.IH[OF e'(2)]) (use Cons.prems \<open>wf_exp e'\<close> in auto)
  ultimately show ?case using Cons.prems(2) by (simp add: eval_addExp)
qed simp

lemma collapse_sound:
  assumes I: "respects_inverses qinv sig I"
  shows "collapse_trm qinv t = Inr e \<Longrightarrow> wf_trm t \<Longrightarrow> collapsible_trm qinv sig t \<Longrightarrow>
      wf_exp e \<and> eval_exp I e = eval_trm I t"
    and "collapse_exp qinv e0 = Inr e \<Longrightarrow> wf_exp e0 \<Longrightarrow> collapsible_exp qinv sig e0 \<Longrightarrow>
      wf_exp e \<and> eval_exp I e = eval_exp I e0"
  using I
proof (induction qinv t and qinv e0 arbitrary: e and e rule: collapse_trm_collapse_exp.induct)
  case (1 qinv c f args i)
  then have wf: "ident f" "-1 \<le> i" "list_all wf_exp args" and ok: "args \<noteq> []"
    "list_all (collapsible_exp qinv sig) args" by auto
  consider (self) arg e' where "scan_args (qinv f) 0 None args = Inr (True, Some arg)"
      "collapse_exp qinv arg = Inr e'" "e = multiplyBy e' c"
    | (args) saved args' where "scan_args (qinv f) 0 None args = Inr (False, saved)"
      "map_result (collapse_exp qinv) args = Inr args'"
      "e = addTerm empty_exp (UFCallTerm c f args' i)"
    using 1(3) by (auto simp: collapse_trm.simps split: sum.splits bool.splits option.splits)
  then show ?case
  proof cases
    case self
    have ex: "list_ex (calls (qinv f)) args"
      using self(1) ok(1) scan_args_calls by (cases args) fastforce+
    with wf(3) have inv: "qinv f \<noteq> ''''" by (auto simp: list_ex_iff list_all_iff dest: calls_ident)
    from ex 1(5) have call: "tupleIndex i = 0" "sig f = (length args, 1)" "list_all (nested_unit (qinv f)) args"
      by auto
    from scan_args_sound[OF self(1) wf(3) call(3) ok(2), where I = I] ok(1) obtain s where
      s: "arg = s" "wf_exp s" "collapsible_exp qinv sig s"
      "map (eval_exp I) args = map (\<lambda>j. uf I (qinv f) (int j) [eval_exp I s]) [0..<length args]"
      by auto
    with 1(1)[OF self(1) refl refl refl self(2)] 1(6) have "wf_exp e'" "eval_exp I e' = eval_exp I arg"
      by simp_all
    moreover have "uf I f 0 (map (eval_exp I) args) = eval_exp I s"
    proof -
      have "uf I f 0 (map (\<lambda>k. uf I (qinv f) (int k) [eval_exp I s]) [0..<fst (sig f)]) = eval_exp I s"
        using 1(6) inv call(2) unfolding respects_inverses_def by (metis snd_conv)
      with s(4) call(2) show ?thesis by simp
    qed
    ultimately show ?thesis using s(1) call(1) self(3) by simp
  next
    case args
    have "list_all2 (\<lambda>a a'. wf_exp a' \<and> eval_exp I a' = eval_exp I a) args args'"
      using args(2) 1(2)[OF args(1) refl refl] wf(3) ok(2) 1(6)
      unfolding map_result_Inr_iff by (simp add: list_all2_conv_all_nth list_all_length) (metis nth_mem)
    then have "list_all wf_exp args' \<and> map (eval_exp I) args' = map (eval_exp I) args"
      by (induction rule: list_all2_induct) auto
    with wf args(3) show ?thesis by simp
  qed
next
  case (5 qinv e0)
  show ?case
    using fold_collapse_sound[of "mTerms e0" qinv I empty_exp e] 5
    by (cases e0) (auto simp: collapse_exp.simps list_all_iff)
qed (auto simp: collapse_trm.simps)

section \<open>It returns\<close>

lemma scan_args_total:
  "list_all (nested_unit g) args \<Longrightarrow> k = 0 \<or> saved \<noteq> None \<Longrightarrow> \<exists>b s. scan_args g k saved args = Inr (b, s)"
proof (induction g k saved args rule: scan_args.induct)
  case (2 g k saved arg args)
  then show ?case
    by (auto simp: Let_def nested_unit_def split: option.splits trm.splits)
qed (simp add: exI[of _ True])

lemma map_result_total: "(\<And>x. x \<in> set xs \<Longrightarrow> \<exists>y. f x = Inr y) \<Longrightarrow> \<exists>ys. map_result f xs = Inr ys"
proof (induction xs)
  case (Cons x xs)
  then have "\<exists>ys. map_result f xs = Inr ys" "\<exists>y. f x = Inr y" by auto
  then show ?case by auto
qed simp

lemma fold_result_total: "(\<And>x b. x \<in> set xs \<Longrightarrow> \<exists>b'. f b x = Inr b') \<Longrightarrow> \<exists>b'. fold_result f b xs = Inr b'"
proof (induction xs arbitrary: b)
  case (Cons x xs)
  then obtain b1 where "f b x = Inr b1" by fastforce
  with Cons show ?case by simp
qed simp


lemma collapse_total:
  "wf_trm t \<Longrightarrow> collapsible_trm qinv sig t \<Longrightarrow> \<exists>e. collapse_trm qinv t = Inr e"
  "wf_exp e0 \<Longrightarrow> collapsible_exp qinv sig e0 \<Longrightarrow> \<exists>e. collapse_exp qinv e0 = Inr e"
proof (induction qinv t and qinv e0 rule: collapse_trm_collapse_exp.induct)
  case (1 qinv c f args i)
  then have wf: "list_all wf_exp args" and ok: "args \<noteq> []" "list_all (collapsible_exp qinv sig) args"
    "list_ex (calls (qinv f)) args \<Longrightarrow> list_all (nested_unit (qinv f)) args" by auto
  have unit: "list_all (nested_unit (qinv f)) args"
    using ok(3) by (auto simp: list_all_iff list_ex_iff intro: not_calls_nested_unit)
  from scan_args_total[OF unit] obtain b s where scan: "scan_args (qinv f) 0 None args = Inr (b, s)"
    by blast
  show ?case
  proof (cases b)
    case True
    from scan have "scan_args (qinv f) 0 None args = Inr (True, s)" using True by simp
    from scan_args_sound[OF this wf unit ok(2)] ok(1) obtain a
      where "s = Some a" "wf_exp a" "collapsible_exp qinv sig a" by auto
    with 1(1)[OF scan] True scan show ?thesis by (auto simp: collapse_trm.simps)
  next
    case False
    have "\<exists>ys. map_result (collapse_exp qinv) args = Inr ys"
      by (rule map_result_total) (use 1(2)[OF scan] False wf ok in \<open>auto simp: list_all_iff\<close>)
    with False scan show ?thesis by (auto simp: collapse_trm.simps)
  qed
next
  case (5 qinv e0)
  show ?case unfolding collapse_exp.simps
  proof (rule fold_result_total)
    fix t acc assume "t \<in> set (mTerms e0)"
    with 5 show "\<exists>b'. bind_result (collapse_trm qinv t) (\<lambda>e'. Inr (addExp acc e')) = Inr b'"
      by (cases e0) (fastforce simp: list_all_iff)
  qed
qed (auto simp: collapse_trm.simps)

section \<open>Properties\<close>

text \<open>C17: For a well-formed expression with the calls it is meant for (\<open>collapsible_exp\<close>: every call
  has arguments, and where one calls the inverse, the function has one value and the arguments of its signature, and the
  nested calls have coefficient 1 and one argument), collapsing nested invertible functions returns an expression of the
  same value, in every interpretation in which the declared inverses are inverses.\<close>

theorem collapse_correct:
  assumes "wf_exp e" "collapsible_exp qinv sig e" "respects_inverses qinv sig I"
  shows "\<exists>e'. collapse_exp qinv e = Inr e' \<and> wf_exp e' \<and> eval_exp I e' = eval_exp I e"
  using collapse_total(2)[OF assms(1,2)] collapse_sound(2)[OF assms(3) _ assms(1,2)] by blast

definition f_inverse :: "string \<Rightarrow> string" where
  "f_inverse f = (if f = ''f'' then ''f_inv'' else if f = ''f_inv'' then ''f'' else '''')"

lemma collapse_correct_witness:
  "\<exists>e'. collapse_exp f_inverse
       (Exp [UFCallTerm 3 ''f'' [Exp [UFCallTerm 1 ''f_inv'' [Exp [TupleVarTerm 1 0] Expression] (-1)] Expression] (-1)]
         Expression) = Inr e' \<and> eval_exp \<lparr>tv = \<lambda>l. 7, sym = \<lambda>s. 0, uf = \<lambda>f i as. hd as\<rparr> e' = 21"
proof -
  have "respects_inverses f_inverse (\<lambda>f. (1, 1)) \<lparr>tv = \<lambda>l. 7, sym = \<lambda>s. 0, uf = \<lambda>f i as. hd as\<rparr>"
    by (simp add: respects_inverses_def)
  moreover have "ident ''f''" "ident ''f_inv''" by code_simp+
  ultimately show ?thesis
    using collapse_correct[of "Exp [UFCallTerm 3 ''f'' [Exp [UFCallTerm 1 ''f_inv'' [Exp [TupleVarTerm 1 0]
        Expression] (-1)] Expression] (-1)] Expression" f_inverse "\<lambda>f. (1, 1)"
        "\<lparr>tv = \<lambda>l. 7, sym = \<lambda>s. 0, uf = \<lambda>f i as. hd as\<rparr>"]
    by (auto simp: nested_unit_def getTerm_def tupleIndex_def isIndexed_def f_inverse_def)
qed

text \<open>The coefficient of the nested call is dropped: \<open>f(2 f_inv(x))\<close> collapses to \<open>x\<close>.\<close>

lemma collapse_drops_nested_coefficient:
  "collapse_exp f_inverse
     (Exp [UFCallTerm 1 ''f'' [Exp [UFCallTerm 2 ''f_inv'' [Exp [TupleVarTerm 1 0] Expression] (-1)] Expression] (-1)]
       Expression) = Inr (Exp [TupleVarTerm 1 0] Expression)"
  by code_simp

end
