(* ===== verification/Exp_Canonical.thy ===== *)
theory Exp_Canonical
  imports Exp_Semantics
begin

text \<open>
  The canonical form that \<open>Exp::addTerm\<close> maintains: the terms in increasing order of their factors,
  no factor twice, no coefficient zero. On canonical expressions \<open>operator==\<close> decides whether two
  sums have the same coefficient at every factor, and \<open>addExp\<close> is commutative and associative up to
  it. The order looks at the stored tuple index and \<open>factorMatches\<close> at \<open>tupleIndex()\<close>, which read -1
  and 0 alike; the form therefore needs each function to be called either always with an index or
  always without (\<open>indexed_as\<close>), as the arity of its range decides in the source.
\<close>

section \<open>Factors and coefficients\<close>

type_synonym factor = "termtype \<times> string \<times> int \<times> string"

primrec fkey :: "trm \<Rightarrow> factor" where
  "fkey (Term c) = (ConstVal, '''', 0, '''')"
| "fkey (VarTerm c s) = (SymConst, s, 0, '''')"
| "fkey (TupleVarTerm c l) = (TupleVar, '''', l, '''')"
| "fkey (UFCallTerm c f args i) = (UFCall, f, i, argsToStream (map toString_exp args))"

primrec indexed_as :: "(string \<Rightarrow> bool) \<Rightarrow> trm \<Rightarrow> bool" where
  "indexed_as multi (Term c) = True"
| "indexed_as multi (VarTerm c s) = True"
| "indexed_as multi (TupleVarTerm c l) = True"
| "indexed_as multi (UFCallTerm c f args i) = (isIndexed i = multi f)"

lemma fkey_setCoefficient [simp]: "fkey (setCoefficient c t) = fkey t"
  by (cases t) simp_all

lemma indexed_as_setCoefficient [simp]: "indexed_as multi (setCoefficient c t) = indexed_as multi t"
  by (cases t) simp_all

lemma key_of_trm_fkey: "key_of_trm t = key_of_trm u \<longleftrightarrow> fkey t = fkey u \<and> coefficient t = coefficient u"
  by (cases t; cases u) auto

lemma trm_less_fkey:
  "trm_less t u \<longleftrightarrow> fkey t < fkey u \<or> fkey t = fkey u \<and> coefficient t < coefficient u"
  unfolding trm_less_key
  by (cases t; cases u) (auto simp: less_eq_termtype_def less_termtype_def)

lemma factorMatches_fkey:
  "indexed_as multi t \<Longrightarrow> indexed_as multi u \<Longrightarrow> factorMatches t u \<longleftrightarrow> fkey t = fkey u"
  by (cases t; cases u)
     (auto simp: factorMatches_iff tupleIndex_def isIndexed_def split: if_splits)

text \<open>The coefficient an expression has at a factor.\<close>

definition coef_at :: "trm list \<Rightarrow> factor \<Rightarrow> int" where
  "coef_at ts k = sum_list (map (\<lambda>t. if fkey t = k then coefficient t else 0) ts)"

lemma coef_at_simps [simp]:
  "coef_at [] k = 0"
  "coef_at (t # ts) k = (if fkey t = k then coefficient t else 0) + coef_at ts k"
  by (simp_all add: coef_at_def)

lemma coef_at_absent: "k \<notin> fkey ` set ts \<Longrightarrow> coef_at ts k = 0"
  by (induction ts) auto

section \<open>The canonical form\<close>

definition canonical :: "(string \<Rightarrow> bool) \<Rightarrow> exp \<Rightarrow> bool" where
  "canonical multi e \<longleftrightarrow>
     sorted_wrt (<) (map fkey (mTerms e))
     \<and> (\<forall>t \<in> set (mTerms e). coefficient t \<noteq> 0 \<and> indexed_as multi t)"

lemma combine_fkey:
  assumes "indexed_as multi t" "indexed_as multi u"
  shows "combine t u = (if fkey t = fkey u
    then Some (setCoefficient (coefficient t + coefficient u) t) else None)"
  using factorMatches_fkey[OF assms] by (simp add: combine_def)

lemma addTerm_loop_fkeys:
  assumes "indexed_as multi u" "\<forall>t \<in> set ts. indexed_as multi t"
  shows "fkey ` set (addTerm_loop ts u) \<subseteq> insert (fkey u) (fkey ` set ts)"
  using assms(2) by (induction ts) (auto simp: combine_fkey[OF _ assms(1)] split: if_splits)

lemma addTerm_loop_canonical:
  assumes "indexed_as multi u" "coefficient u \<noteq> 0"
  shows "sorted_wrt (<) (map fkey ts) \<Longrightarrow> \<forall>t \<in> set ts. coefficient t \<noteq> 0 \<and> indexed_as multi t \<Longrightarrow>
    sorted_wrt (<) (map fkey (addTerm_loop ts u))
    \<and> (\<forall>t \<in> set (addTerm_loop ts u). coefficient t \<noteq> 0 \<and> indexed_as multi t)"
proof (induction ts)
  case Nil
  with assms show ?case by simp
next
  case (Cons t ts)
  then have t: "indexed_as multi t" and IH: "sorted_wrt (<) (map fkey (addTerm_loop ts u))"
    "\<forall>t \<in> set (addTerm_loop ts u). coefficient t \<noteq> 0 \<and> indexed_as multi t" by auto
  have sub: "fkey ` set (addTerm_loop ts u) \<subseteq> insert (fkey u) (fkey ` set ts)"
    using addTerm_loop_fkeys[OF assms(1)] Cons.prems by auto
  show ?case
  proof (cases "fkey t = fkey u")
    case True
    with Cons.prems t show ?thesis by (auto simp: combine_fkey[OF t assms(1)])
  next
    case False
    then have lt: "trm_less u t \<longleftrightarrow> fkey u < fkey t" by (auto simp: trm_less_fkey)
    from False have "\<not> fkey u < fkey t \<Longrightarrow> fkey t < fkey u" by auto
    with Cons.prems sub IH False lt t assms show ?thesis
      by (auto simp: combine_fkey[OF t assms(1)] intro: less_trans)
  qed
qed

lemma canonical_addTerm:
  "canonical multi e \<Longrightarrow> indexed_as multi t \<Longrightarrow> canonical multi (addTerm e t)"
  using addTerm_loop_canonical[of multi t "mTerms e"] by (auto simp: canonical_def addTerm_def)

lemma canonical_addTerms:
  "canonical multi e \<Longrightarrow> \<forall>t \<in> set ts. indexed_as multi t \<Longrightarrow> canonical multi (foldl addTerm e ts)"
  by (induction ts arbitrary: e) (auto intro: canonical_addTerm)

lemma canonical_addExp:
  "canonical multi e \<Longrightarrow> canonical multi e' \<Longrightarrow> canonical multi (addExp e e')"
  unfolding addExp_def by (rule canonical_addTerms) (auto simp: canonical_def)

lemma canonical_empty [simp]: "canonical multi (Exp [] et)"
  by (simp add: canonical_def)

lemma multiplyBy_fkeys: "map fkey (mTerms (multiplyBy e k)) = map fkey (mTerms e)"
  by (simp add: multiplyBy_def multiplyBy_term_def)

lemma canonical_multiplyBy:
  "canonical multi e \<Longrightarrow> k \<noteq> 0 \<Longrightarrow> canonical multi (multiplyBy e k)"
  unfolding canonical_def multiplyBy_fkeys by (auto simp: multiplyBy_def multiplyBy_term_def)

lemma divideBy_fkeys: "divideBy e d = Inr e' \<Longrightarrow> map fkey (mTerms e') = map fkey (mTerms e)"
proof -
  assume "divideBy e d = Inr e'"
  then have "list_all2 (\<lambda>t t'. divideBy_term t d = Inr t') (mTerms e) (mTerms e')"
    by (simp add: divideBy_Inr)
  then show ?thesis by (induction rule: list_all2_induct) (auto simp: divideBy_term_Inr)
qed

section \<open>Coefficients of sums\<close>

lemma coef_addTerm_loop:
  assumes "indexed_as multi u" "\<forall>t \<in> set ts. indexed_as multi t"
  shows "coef_at (addTerm_loop ts u) k = coef_at ts k + (if fkey u = k then coefficient u else 0)"
  using assms(2) by (induction ts) (auto simp: combine_fkey[OF _ assms(1)])

lemma coef_addTerm:
  "canonical multi e \<Longrightarrow> indexed_as multi u \<Longrightarrow>
    coef_at (mTerms (addTerm e u)) k = coef_at (mTerms e) k + (if fkey u = k then coefficient u else 0)"
  using coef_addTerm_loop[of multi u "mTerms e" k] by (auto simp: addTerm_def canonical_def)

lemma coef_addTerms:
  "canonical multi e \<Longrightarrow> \<forall>t \<in> set ts. indexed_as multi t \<Longrightarrow>
    coef_at (mTerms (foldl addTerm e ts)) k = coef_at (mTerms e) k + coef_at ts k"
  by (induction ts arbitrary: e) (simp_all add: coef_addTerm canonical_addTerm)

lemma coef_addExp:
  "canonical multi e \<Longrightarrow> canonical multi e' \<Longrightarrow>
    coef_at (mTerms (addExp e e')) k = coef_at (mTerms e) k + coef_at (mTerms e') k"
  unfolding addExp_def by (rule coef_addTerms) (auto simp: canonical_def)

lemma coef_multiplyBy: "coef_at (mTerms (multiplyBy e c)) k = c * coef_at (mTerms e) k"
proof (cases e)
  case (Exp ts et)
  have "coef_at (map (\<lambda>t. multiplyBy_term t c) ts) k = c * coef_at ts k"
    by (induction ts) (auto simp: multiplyBy_term_def algebra_simps)
  with Exp show ?thesis by (simp add: multiplyBy_def)
qed

section \<open>Equality of canonical expressions\<close>

lemma coef_at_sorted:
  "sorted_wrt (<) (map fkey ts) \<Longrightarrow> t \<in> set ts \<Longrightarrow> coef_at ts (fkey t) = coefficient t"
proof (induction ts)
  case (Cons u us)
  then show ?case
  proof (cases "t = u")
    case True
    with Cons.prems have "fkey t \<notin> fkey ` set us" by force
    with True show ?thesis by (simp add: coef_at_absent)
  next
    case False
    with Cons.prems have "fkey u < fkey t" by simp
    then have "fkey u \<noteq> fkey t" by (rule less_imp_neq)
    with Cons False show ?thesis by simp
  qed
qed simp

lemma canonical_support:
  assumes "canonical multi e"
  shows "fkey ` set (mTerms e) = {k. coef_at (mTerms e) k \<noteq> 0}"
  using assms coef_at_sorted[of "mTerms e"] coef_at_absent[of _ "mTerms e"]
  by (fastforce simp: canonical_def)

lemma canonical_keys:
  assumes "canonical multi e" "canonical multi e'"
    and coefs: "\<And>k. coef_at (mTerms e) k = coef_at (mTerms e') k"
  shows "key_of_exp e = key_of_exp e'"
proof -
  let ?f = "\<lambda>e. map fkey (mTerms e)"
  have "set (?f e) = set (?f e')"
    using canonical_support[OF assms(1)] canonical_support[OF assms(2)] coefs by simp
  moreover have "sorted_wrt (<) (?f e)" "sorted_wrt (<) (?f e')"
    using assms by (simp_all add: canonical_def)
  ultimately have fk: "?f e = ?f e'"
    by (simp add: strict_sorted_equal)
  then have len: "length (mTerms e) = length (mTerms e')" by (rule map_eq_imp_length_eq)
  have "key_of_trm (mTerms e ! n) = key_of_trm (mTerms e' ! n)" if "n < length (mTerms e)" for n
  proof -
    from fk that len have f: "fkey (mTerms e ! n) = fkey (mTerms e' ! n)"
      by (metis nth_map)
    moreover have "coef_at (mTerms e) (fkey (mTerms e ! n)) = coefficient (mTerms e ! n)"
      "coef_at (mTerms e') (fkey (mTerms e' ! n)) = coefficient (mTerms e' ! n)"
      using assms(1,2) that len by (simp_all add: coef_at_sorted canonical_def)
    ultimately show ?thesis using coefs by (simp add: key_of_trm_fkey)
  qed
  with len show ?thesis by (simp add: key_of_exp_def list_eq_iff_nth_eq)
qed

lemma exp_eq_iff_coefs:
  assumes "canonical multi e" "canonical multi e'"
  shows "exp_eq e e' \<longleftrightarrow> (\<forall>k. coef_at (mTerms e) k = coef_at (mTerms e') k)"
proof
  assume "exp_eq e e'"
  then have "map key_of_trm (mTerms e) = map key_of_trm (mTerms e')"
    by (simp add: exp_eq_key key_of_exp_def)
  moreover have "map key_of_trm ts = map key_of_trm us \<Longrightarrow> coef_at ts k = coef_at us k" for ts us k
    by (induction ts us rule: list_induct2') (auto simp: key_of_trm_fkey)
  ultimately show "\<forall>k. coef_at (mTerms e) k = coef_at (mTerms e') k" by blast
next
  assume "\<forall>k. coef_at (mTerms e) k = coef_at (mTerms e') k"
  then have "key_of_exp e = key_of_exp e'" by (intro canonical_keys[OF assms]) blast
  then show "exp_eq e e'" by (simp only: exp_eq_key)
qed

lemma addExp_inverse:
  assumes "canonical multi e"
  shows "mTerms (addExp e (multiplyBy e (-1))) = []"
proof -
  let ?z = "addExp e (multiplyBy e (-1))"
  have n: "canonical multi (multiplyBy e (-1))" by (rule canonical_multiplyBy[OF assms]) simp
  then have c: "canonical multi ?z" by (rule canonical_addExp[OF assms])
  have "coef_at (mTerms ?z) k = 0" for k
    using coef_addExp[OF assms n] by (simp add: coef_multiplyBy)
  with canonical_support[OF c] show ?thesis by simp
qed

end
