(* ===== verification/Solve.thy ===== *)
theory Solve
  imports Collapse Exp_Canonical
begin

text \<open>
  Solving an expression for a factor (\<open>Exp::findMatchingFactor\<close>, \<open>solveForFactor\<close> and
  \<open>invertFuncToExposeFactor\<close> of \<open>expression.cc\<close>). The expression is read as equal to zero. Where
  the factor is a term of the expression, the rest is divided by its coefficient; where it only
  occurs in an argument of an invertible function, the function is inverted first.
\<close>

section \<open>The operations\<close>

definition coefficient_error :: "trm \<Rightarrow> error" where
  "coefficient_error factor =
     Assert_exception (''coefficient to factor is '' @ show_int (coefficient factor) @
       '' it is required to be 1'')"

fun find_factor :: "exp \<Rightarrow> trm \<Rightarrow> trm list \<Rightarrow> trm option result" where
  "find_factor e factor [] = Inr None"
| "find_factor e factor (t # ts) =
     (if factorMatches t factor
      then bind_result (isDivisible e (coefficient t))
        (\<lambda>b. if b then Inr (Some t) else find_factor e factor ts)
      else find_factor e factor ts)"

definition findMatchingFactor :: "exp \<Rightarrow> trm \<Rightarrow> trm option result" where
  "findMatchingFactor e factor =
     (if coefficient factor \<noteq> 1 then Inl (coefficient_error factor)
      else find_factor e factor (mTerms e))"

text \<open>
  The search loop of \<open>invertFuncToExposeFactor\<close>; its state is the name of the inverse last asked for
  and the call found so far. The name is overwritten before it is known to be usable.
\<close>

definition invert_step ::
  "(string \<Rightarrow> string) \<Rightarrow> trm \<Rightarrow> string \<times> trm option \<Rightarrow> trm \<Rightarrow> (string \<times> trm option) result" where
  "invert_step qinv factor st t =
     (case t of
        UFCallTerm c f args i \<Rightarrow>
          if \<not> dependsOn (addTerm empty_exp t) factor then Inr st
          else
            let inverseFuncName = qinv f in
            if inverseFuncName = '''' then Inr (inverseFuncName, snd st)
            else if snd st \<noteq> None
            then Inl (Assert_exception ''Exp::invertFuncToExposeFactor: Already found a UF call.'')
            else Inr (inverseFuncName, Some t)
      | _ \<Rightarrow> Inr st)"

definition invert_scan :: "(string \<Rightarrow> string) \<Rightarrow> trm \<Rightarrow> trm list \<Rightarrow> (string \<times> trm option) result" where
  "invert_scan qinv factor ts = fold_result (invert_step qinv factor) ('''', None) ts"

text \<open>The last argument that depends on the factor, with its position.\<close>

definition relevant_arg :: "exp list \<Rightarrow> trm \<Rightarrow> (nat \<times> exp) option" where
  "relevant_arg args factor =
     find (\<lambda>(k, arg). dependsOn arg factor) (rev (zip [0..<length args] args))"

definition invertFuncToExposeFactor :: "(string \<Rightarrow> string) \<Rightarrow> exp \<Rightarrow> trm \<Rightarrow> exp option result" where
  "invertFuncToExposeFactor qinv e factor =
     bind_result (invert_scan qinv factor (mTerms e)) (\<lambda>(inverseFuncName, foundUFC).
       case foundUFC of
         Some (UFCallTerm c f args i) \<Rightarrow>
           let negFoundUFC = multiplyBy (addTerm empty_exp (UFCallTerm c f args i)) (-1);
               expClone = addExp e negFoundUFC
           in bind_result (divideBy expClone (- c)) (\<lambda>expClone.
                case relevant_arg args factor of
                  None \<Rightarrow> Inl (Undefined ''uninitialised pointer'')
                | Some (arg_index, arg) \<Rightarrow>
                    let invCall =
                      (if length args = 1 then UFCallTerm (-1) inverseFuncName [expClone] (-1)
                       else UFCallTerm (-1) inverseFuncName [expClone] (int arg_index))
                    in Inr (Some (addExp (addTerm empty_exp invCall) arg)))
       | _ \<Rightarrow> Inr None)"

definition solve_finish :: "exp \<Rightarrow> trm \<Rightarrow> trm option \<Rightarrow> exp option \<Rightarrow> exp option result" where
  "solve_finish e factor matchingFactor factorExposedExp =
     (case matchingFactor of
        None \<Rightarrow> Inr factorExposedExp
      | Some m \<Rightarrow>
          bind_result (isDivisible e (coefficient m)) (\<lambda>b.
            if b then
              (case factorExposedExp of
                 None \<Rightarrow> Inl (Undefined ''null pointer'')
               | Some x \<Rightarrow>
                   bind_result
                     (divideBy (addTerm x (multiplyBy_term factor (- coefficient m))) (- coefficient m))
                     (\<lambda>r. Inr (Some r)))
            else Inr factorExposedExp))"

definition solveForFactor :: "(string \<Rightarrow> string) \<Rightarrow> exp \<Rightarrow> trm \<Rightarrow> exp option result" where
  "solveForFactor qinv e factor =
     (if coefficient factor \<noteq> 1 then Inl (coefficient_error factor)
      else
        bind_result (findMatchingFactor e factor) (\<lambda>matchingFactor.
          case matchingFactor of
            Some m \<Rightarrow> solve_finish e factor (Some m) (Some e)
          | None \<Rightarrow>
              bind_result (invertFuncToExposeFactor qinv e factor) (\<lambda>factorExposedExp.
                case factorExposedExp of
                  None \<Rightarrow> solve_finish e factor None None
                | Some x \<Rightarrow>
                    bind_result (findMatchingFactor x factor) (\<lambda>m. solve_finish e factor m (Some x)))))"

section \<open>A factor that is a term\<close>

lemma find_factor_Some:
  "find_factor e factor ts = Inr (Some t) \<Longrightarrow>
    t \<in> set ts \<and> factorMatches t factor \<and> isDivisible e (coefficient t) = Inr True"
  by (induction ts) (auto split: if_splits)

lemma findMatchingFactor_Some:
  "findMatchingFactor e factor = Inr (Some t) \<Longrightarrow>
    t \<in> set (mTerms e) \<and> factorMatches t factor \<and> isDivisible e (coefficient t) = Inr True
    \<and> coefficient factor = 1"
  by (auto simp: findMatchingFactor_def dest: find_factor_Some split: if_splits)

lemma isDivisible_nonzero: "isDivisible e d = Inr True \<Longrightarrow> mTerms e \<noteq> [] \<Longrightarrow> d \<noteq> 0"
  by (auto simp: isDivisible_def split: if_splits)

lemma isDivisible_iff:
  "isDivisible e d = Inr True \<longleftrightarrow> mTerms e = [] \<or> d \<noteq> 0 \<and> (\<forall>t \<in> set (mTerms e). d dvd coefficient t)"
  by (auto simp: isDivisible_def list_all_iff c_rem_eq_0_iff)

text \<open>Adding a multiple of a factor and dividing by minus its coefficient moves it to the other side.\<close>

lemma moved_factor_eval:
  assumes "wf_exp x" "wf_trm factor" "coefficient factor = 1" "c \<noteq> 0"
    and "divideBy (addTerm x (multiplyBy_term factor (- c))) (- c) = Inr r"
  shows "eval_exp I x = c * (eval_trm I factor - eval_exp I r)"
proof -
  have f: "wf_trm (multiplyBy_term factor (- c))"
    using assms(2) by (simp add: multiplyBy_term_def)
  have "- c * eval_exp I r = eval_exp I (addTerm x (multiplyBy_term factor (- c)))"
    by (rule eval_divideBy[OF assms(5)])
  also have "\<dots> = eval_exp I x - c * eval_trm I factor"
    by (simp add: eval_addTerm[OF assms(1) f])
  finally show ?thesis by (simp add: algebra_simps)
qed

lemma addTerm_loop_divisible:
  "\<forall>t \<in> set ts. d dvd coefficient t \<Longrightarrow> d dvd coefficient u \<Longrightarrow> \<forall>t \<in> set (addTerm_loop ts u). d dvd coefficient t"
  by (induction ts) (auto simp: combine_def split: if_splits option.splits)

lemma addTerm_divisible:
  "isDivisible x c = Inr True \<Longrightarrow> c \<noteq> 0 \<Longrightarrow> c dvd coefficient u \<Longrightarrow> isDivisible (addTerm x u) (- c) = Inr True"
  using addTerm_loop_divisible[of "mTerms x" c u] by (auto simp: isDivisible_iff addTerm_def)

lemma solve_finish_returns:
  assumes "isDivisible e (coefficient m) = Inr True" "isDivisible x (coefficient m) = Inr True"
    "coefficient m \<noteq> 0" "coefficient factor = 1"
  shows "\<exists>r. divideBy (addTerm x (multiplyBy_term factor (- coefficient m))) (- coefficient m) = Inr r
    \<and> solve_finish e factor (Some m) (Some x) = Inr (Some r)"
proof -
  have "isDivisible (addTerm x (multiplyBy_term factor (- coefficient m))) (- coefficient m) = Inr True"
    by (rule addTerm_divisible[OF assms(2,3)]) (simp add: multiplyBy_term_def assms(4))
  then obtain r where "divideBy (addTerm x (multiplyBy_term factor (- coefficient m))) (- coefficient m) = Inr r"
    using divideBy_succeeds by blast
  with assms show ?thesis by (simp add: solve_finish_def)
qed

lemma solve_at_term:
  assumes "findMatchingFactor e factor = Inr (Some m)"
  obtains r where "solveForFactor qinv e factor = Inr (Some r)"
    "divideBy (addTerm e (multiplyBy_term factor (- coefficient m))) (- coefficient m) = Inr r"
    "coefficient m \<noteq> 0" "coefficient factor = 1"
proof -
  note M = findMatchingFactor_Some[OF assms]
  then have "mTerms e \<noteq> []" by auto
  with M have nz: "coefficient m \<noteq> 0" using isDivisible_nonzero[of e "coefficient m"] by blast
  from solve_finish_returns[of e m e factor] M nz obtain r where
    "divideBy (addTerm e (multiplyBy_term factor (- coefficient m))) (- coefficient m) = Inr r"
    "solve_finish e factor (Some m) (Some e) = Inr (Some r)" by auto
  with M nz assms that show thesis by (simp add: solveForFactor_def)
qed

lemma solve_at_term_removes:
  assumes "canonical multi e" "indexed_as multi factor" "findMatchingFactor e factor = Inr (Some m)"
    "divideBy (addTerm e (multiplyBy_term factor (- coefficient m))) (- coefficient m) = Inr r"
  shows "\<forall>t \<in> set (mTerms r). fkey t \<noteq> fkey factor"
proof -
  let ?u = "multiplyBy_term factor (- coefficient m)"
  note M = findMatchingFactor_Some[OF assms(3)]
  with assms(1) have im: "indexed_as multi m" "sorted_wrt (<) (map fkey (mTerms e))"
    by (auto simp: canonical_def)
  then have key: "fkey m = fkey factor" using factorMatches_fkey[OF _ assms(2)] M by blast
  have u: "fkey ?u = fkey factor" "indexed_as multi ?u" "coefficient ?u = - coefficient m"
    using assms(2) M by (simp_all add: multiplyBy_term_def)
  have "coef_at (mTerms e) (fkey factor) = coefficient m"
    using coef_at_sorted[OF im(2), of m] M key by simp
  then have "coef_at (mTerms (addTerm e ?u)) (fkey factor) = 0"
    using coef_addTerm[OF assms(1) u(2), of "fkey factor"] u by simp
  with canonical_support[OF canonical_addTerm[OF assms(1) u(2)]]
  have "fkey factor \<notin> fkey ` set (mTerms (addTerm e ?u))" by auto
  with divideBy_fkeys[OF assms(4)] show ?thesis by (metis image_eqI list.set_map)
qed

section \<open>A factor inside an invertible function\<close>

text \<open>The calls of an expression that depend on the factor.\<close>

definition dependents :: "trm \<Rightarrow> trm list \<Rightarrow> trm list" where
  "dependents factor ts = filter (\<lambda>t. isUFCall t \<and> coefficient t \<noteq> 0 \<and> dependsOn_trm t factor) ts"

lemma dependsOn_single: "dependsOn (addTerm empty_exp t) factor \<longleftrightarrow> coefficient t \<noteq> 0 \<and> dependsOn_trm t factor"
  by (simp add: addTerm_def)

lemma invert_step_other: "dependents factor [t] = [] \<Longrightarrow> invert_step qinv factor st t = Inr st"
  by (cases t) (auto simp: invert_step_def dependents_def dependsOn_single isUFCall_def simp del: dependsOn_trm.simps split: if_splits)

lemma dependents_Cons: "dependents factor (t # ts) = dependents factor [t] @ dependents factor ts"
  by (simp add: dependents_def)

lemma invert_fold_none:
  "dependents factor ts = [] \<Longrightarrow> fold_result (invert_step qinv factor) st ts = Inr st"
proof (induction ts)
  case (Cons t ts)
  then have "dependents factor [t] = []" "dependents factor ts = []"
    by (simp_all add: dependents_Cons[of factor t ts])
  with Cons.IH invert_step_other[of factor t qinv st] show ?case by simp
qed simp

lemma invert_fold_single:
  "dependents factor ts = [UFCallTerm c f args i] \<Longrightarrow>
    fold_result (invert_step qinv factor) (s, None) ts =
      Inr (qinv f, if qinv f = '''' then None else Some (UFCallTerm c f args i))"
proof (induction ts)
  case (Cons t ts)
  show ?case
  proof (cases "dependents factor [t] = []")
    case True
    with Cons.prems have "dependents factor ts = [UFCallTerm c f args i]" by (simp add: dependents_Cons[of factor t ts])
    with Cons.IH invert_step_other[OF True, of qinv "(s, None)"] show ?thesis by simp
  next
    case False
    with Cons.prems have t: "dependents factor [t] = [UFCallTerm c f args i]" "dependents factor ts = []"
      by (auto simp: dependents_Cons[of factor t ts] append_eq_Cons_conv)
    then have "t = UFCallTerm c f args i \<and> c \<noteq> 0 \<and> dependsOn_trm t factor"
      by (auto simp: dependents_def split: if_splits)
    then have "invert_step qinv factor (s, None) t =
        Inr (qinv f, if qinv f = '''' then None else Some (UFCallTerm c f args i))"
      by (auto simp: invert_step_def dependsOn_single Let_def simp del: dependsOn_trm.simps)
    with invert_fold_none[OF t(2)] show ?thesis by simp
  qed
qed (simp add: dependents_def)

lemma relevant_arg_Some:
  "relevant_arg args factor = Some (k, arg) \<Longrightarrow> k < length args \<and> arg = args ! k \<and> dependsOn arg factor"
  unfolding relevant_arg_def find_Some_iff
  by (auto simp: rev_nth)

text \<open>
  What the inversion relies on: the components of the inverse of a function at its value are the
  arguments; the inverse has a proper name.
\<close>

definition inverts_arguments :: "(string \<Rightarrow> string) \<Rightarrow> (string \<Rightarrow> nat \<times> nat) \<Rightarrow> interp \<Rightarrow> bool" where
  "inverts_arguments qinv sig I \<longleftrightarrow>
     (\<forall>f vs k. qinv f \<noteq> '''' \<and> sig f = (length vs, 1) \<and> k < length vs \<longrightarrow>
        uf I (qinv f) (int k) [uf I f 0 vs] = vs ! k)"

definition proper_call :: "(string \<Rightarrow> string) \<Rightarrow> (string \<Rightarrow> nat \<times> nat) \<Rightarrow> trm \<Rightarrow> bool" where
  "proper_call qinv sig t \<longleftrightarrow>
     (case t of
        UFCallTerm c f args i \<Rightarrow>
          sig f = (length args, 1) \<and> \<not> isIndexed i \<and> (qinv f \<noteq> '''' \<longrightarrow> ident (qinv f))
      | _ \<Rightarrow> True)"

lemma invert_exposes:
  assumes "wf_exp e" "dependents factor (mTerms e) = [t]" "proper_call qinv sig t"
    "inverts_arguments qinv sig I" "invertFuncToExposeFactor qinv e factor = Inr (Some x)"
  shows "wf_exp x" "eval_exp I e = 0 \<Longrightarrow> eval_exp I x = 0"
proof -
  have t: "t \<in> set (mTerms e)" "isUFCall t" "coefficient t \<noteq> 0"
    using assms(2) by (auto simp: dependents_def dest: filter_eq_ConsD)
  obtain c f args i where u: "t = UFCallTerm c f args i" "c \<noteq> 0"
    using t(2,3) by (cases t) (auto simp: isUFCall_def)
  with assms(1) t(1) have wf: "wf_trm (UFCallTerm c f args i)" by (auto simp: wf_exp_iff)
  from invert_fold_single[of factor "mTerms e" c f args i qinv "''''"] assms(2) u
  have scan: "invert_scan qinv factor (mTerms e)
    = Inr (qinv f, if qinv f = '''' then None else Some (UFCallTerm c f args i))"
    by (simp add: invert_scan_def)
  let ?rest = "addExp e (multiplyBy (addTerm empty_exp (UFCallTerm c f args i)) (-1))"
  from assms(5) scan obtain e1 k arg where inv: "qinv f \<noteq> ''''"
    and e1: "divideBy ?rest (- c) = Inr e1" and k: "relevant_arg args factor = Some (k, arg)"
    and x: "x = addExp (addTerm empty_exp
      (UFCallTerm (-1) (qinv f) [e1] (if length args = 1 then -1 else int k))) arg"
    by (auto simp: invertFuncToExposeFactor_def Let_def split: if_splits option.splits)
  from assms(3) u inv have sig: "sig f = (length args, 1)" "\<not> isIndexed i" "ident (qinv f)"
    by (simp_all add: proper_call_def)
  have rest: "wf_exp ?rest" "eval_exp I ?rest = eval_exp I e - eval_trm I (UFCallTerm c f args i)"
    using assms(1) wf by (auto simp: eval_addExp)
  note K = relevant_arg_Some[OF k]
  have ok: "wf_exp e1" "wf_exp arg" using wf_divideBy[OF e1 rest(1)] wf K by (auto simp: list_all_length)
  have call: "wf_trm (UFCallTerm (-1) (qinv f) [e1] (if length args = 1 then -1 else int k))"
    using sig ok by simp
  then show "wf_exp x" using ok unfolding x by (intro wf_addExp) simp_all
  assume zero: "eval_exp I e = 0"
  let ?vs = "map (eval_exp I) args"
  have "- c * eval_exp I e1 = - (c * uf I f 0 ?vs)"
    using eval_divideBy[OF e1, of I] rest(2) zero sig(2) by (simp add: tupleIndex_def)
  then have "c * eval_exp I e1 = c * uf I f 0 ?vs" by simp
  with u(2) have "eval_exp I e1 = uf I f 0 ?vs" by simp
  moreover have "uf I (qinv f) (int k) [uf I f 0 ?vs] = ?vs ! k"
    using assms(4) inv sig(1) K unfolding inverts_arguments_def by (metis length_map)
  moreover have "tupleIndex (if length args = 1 then -1 else int k) = int k"
    using K by (auto simp: tupleIndex_def isIndexed_def)
  ultimately show "eval_exp I x = 0"
    using K call ok unfolding x by (simp add: eval_addExp)
qed

lemma solve_by_inverting:
  assumes "findMatchingFactor e factor = Inr None" "invertFuncToExposeFactor qinv e factor = Inr (Some x)"
    "findMatchingFactor x factor = Inr (Some m)" "isDivisible e (coefficient m) = Inr True"
  obtains r where "solveForFactor qinv e factor = Inr (Some r)"
    "divideBy (addTerm x (multiplyBy_term factor (- coefficient m))) (- coefficient m) = Inr r"
    "coefficient m \<noteq> 0" "coefficient factor = 1"
proof -
  note M = findMatchingFactor_Some[OF assms(3)]
  then have "mTerms x \<noteq> []" by auto
  with M have nz: "coefficient m \<noteq> 0" using isDivisible_nonzero[of x "coefficient m"] by blast
  from solve_finish_returns[OF assms(4) _ nz, of x factor] M obtain r where
    "divideBy (addTerm x (multiplyBy_term factor (- coefficient m))) (- coefficient m) = Inr r"
    "solve_finish e factor (Some m) (Some x) = Inr (Some r)" by auto
  with M nz assms that show thesis by (simp add: solveForFactor_def)
qed

text \<open>A call of an invertible function can be inverted when its coefficient is 1 or -1.\<close>

lemma relevant_arg_exists: "dependsOn_trm (UFCallTerm c f args i) factor \<Longrightarrow> \<not> isUFCall factor \<Longrightarrow> \<exists>k arg. relevant_arg args factor = Some (k, arg)"
proof -
  assume "dependsOn_trm (UFCallTerm c f args i) factor" "\<not> isUFCall factor"
  then obtain arg where arg: "arg \<in> set args" "dependsOn arg factor" by (cases factor) (auto simp: isUFCall_def factorMatches_def list_ex_iff split: if_splits)
  then obtain k where "k < length args" "args ! k = arg" by (auto simp: in_set_conv_nth)
  then have "(k, arg) \<in> set (rev (zip [0..<length args] args))" by (force simp: set_zip)
  then have "find (\<lambda>(k, arg). dependsOn arg factor) (rev (zip [0..<length args] args)) \<noteq> None" using arg(2) by (auto simp: find_None_iff)
  then show ?thesis by (auto simp: relevant_arg_def)
qed

lemma invert_succeeds:
  assumes "dependents factor (mTerms e) = [UFCallTerm c f args i]" "qinv f \<noteq> ''''" "\<bar>c\<bar> = 1" "\<not> isUFCall factor"
  shows "\<exists>x. invertFuncToExposeFactor qinv e factor = Inr (Some x)"
proof -
  have scan: "invert_scan qinv factor (mTerms e) = Inr (qinv f, Some (UFCallTerm c f args i))"
    using invert_fold_single[OF assms(1), of qinv "''''"] assms(2) by (simp add: invert_scan_def)
  have "UFCallTerm c f args i \<in> set (dependents factor (mTerms e))" unfolding assms(1) by simp
  then have "dependsOn_trm (UFCallTerm c f args i) factor" unfolding dependents_def by (simp only: set_filter mem_Collect_eq)
  then obtain k arg where k: "relevant_arg args factor = Some (k, arg)" using relevant_arg_exists assms(4) by blast
  have "isDivisible x (- c) = Inr True" for x using assms(3) by (auto simp: isDivisible_iff abs_if split: if_splits)
  then have "\<exists>r. divideBy x (- c) = Inr r" for x using divideBy_succeeds by blast
  then obtain r where "divideBy (addExp e (multiplyBy (addTerm empty_exp (UFCallTerm c f args i)) (-1))) (- c) = Inr r" by blast
  then show ?thesis using scan k by (simp add: invertFuncToExposeFactor_def Let_def)
qed

section \<open>Properties\<close>

text \<open>Solving for a factor that is a term of the expression, with a coefficient that divides all
  others, always succeeds; the expression is that coefficient times the difference of the factor and
  the solution, so it is zero exactly where the factor equals the solution.\<close>

lemma solveForFactor_term:
  assumes "wf_exp e" "wf_trm factor" "findMatchingFactor e factor = Inr (Some m)"
  shows "\<exists>r. solveForFactor qinv e factor = Inr (Some r)
    \<and> (\<forall>I. eval_exp I e = coefficient m * (eval_trm I factor - eval_exp I r))
    \<and> (\<forall>I. eval_exp I e = 0 \<longleftrightarrow> eval_trm I factor = eval_exp I r)"
proof -
  obtain r where r: "solveForFactor qinv e factor = Inr (Some r)"
    "divideBy (addTerm e (multiplyBy_term factor (- coefficient m))) (- coefficient m) = Inr r"
    "coefficient m \<noteq> 0" "coefficient factor = 1"
    by (rule solve_at_term[OF assms(3)])
  from moved_factor_eval[OF assms(1,2) r(4,3,2)]
  have "\<And>I. eval_exp I e = coefficient m * (eval_trm I factor - eval_exp I r)" .
  with r show ?thesis by (intro exI[of _ r]) auto
qed

text \<open>The solution of a canonical expression for one of its terms has no term with that factor.\<close>

lemma solveForFactor_term_gone:
  assumes "canonical multi e" "indexed_as multi factor" "findMatchingFactor e factor = Inr (Some m)"
    "solveForFactor qinv e factor = Inr (Some r)"
  shows "\<forall>t \<in> set (mTerms r). fkey t \<noteq> fkey factor"
proof -
  obtain r' where r': "solveForFactor qinv e factor = Inr (Some r')"
    "divideBy (addTerm e (multiplyBy_term factor (- coefficient m))) (- coefficient m) = Inr r'"
    by (rule solve_at_term[OF assms(3)])
  with assms(4) solve_at_term_removes[OF assms(1-3) r'(2)] show ?thesis by simp
qed



text \<open>
  Where the exposed factor cannot be solved for, the function returns the unsolved expression rather
  than a null pointer: from \<open>f(2 x) = y\<close> it answers \<open>2 x - f_inv(y)\<close> for \<open>x\<close>. And a later call that
  depends on the factor but cannot be inverted replaces the name of the inverse by the empty string.
\<close>

lemma solveForFactor_returns_unsolved:
  "solveForFactor f_inverse
     (Exp [TupleVarTerm (-1) 1, UFCallTerm 1 ''f'' [Exp [TupleVarTerm 2 0] Expression] (-1)] Equality)
     (TupleVarTerm 1 0)
   = Inr (Some (Exp [TupleVarTerm 2 0, UFCallTerm (-1) ''f_inv'' [Exp [TupleVarTerm 1 1] Equality] (-1)] Expression))"
  by code_simp

lemma invert_forgets_the_inverse:
  "invertFuncToExposeFactor f_inverse
     (Exp [UFCallTerm 1 ''f'' [Exp [TupleVarTerm 1 0] Expression] (-1),
           UFCallTerm 1 ''g'' [Exp [TupleVarTerm 1 0] Expression] (-1)] Equality)
     (TupleVarTerm 1 0)
   = Inr (Some (Exp [TupleVarTerm 1 0,
       UFCallTerm (-1) '''' [Exp [UFCallTerm (-1) ''g'' [Exp [TupleVarTerm 1 0] Expression] (-1)] Equality] (-1)] Expression))"
  by code_simp

end
