(* ===== verification/Substitute.thy ===== *)
theory Substitute
  imports Exp_Semantics Std_Map
begin

text \<open>
  Substitution maps (\<open>SubMap.h\<close>, \<open>SubMap.cc\<close>) and \<open>Exp::substitute\<close> (\<open>expression.cc\<close>). The map of
  the source is keyed by the address of the factor, and a lookup goes through the entries in the
  order of their addresses and takes the first whose factor matches; here an address is a number
  given by the caller.
\<close>

section \<open>Substitution maps\<close>

type_synonym sub_map = "(nat, trm \<times> exp) std_map"

record sub_map_state =
  mTerm2ExpMap :: sub_map
  mIter :: nat

definition SubMap_new :: sub_map_state where
  "SubMap_new = \<lparr>mTerm2ExpMap = [], mIter = 0\<rparr>"

definition insertPair :: "sub_map \<Rightarrow> nat \<Rightarrow> trm \<Rightarrow> exp \<Rightarrow> sub_map" where
  "insertPair m addr factor e = std_assign (<) addr (factor, e) m"

definition startIter :: "sub_map_state \<Rightarrow> sub_map_state" where
  "startIter s = s\<lparr>mIter := 0\<rparr>"

definition hasNext_sub :: "sub_map_state \<Rightarrow> bool" where
  "hasNext_sub s \<longleftrightarrow> mIter s \<noteq> length (mTerm2ExpMap s)"

definition next_sub :: "sub_map_state \<Rightarrow> (trm \<times> sub_map_state) result" where
  "next_sub s =
     (if mIter s < length (mTerm2ExpMap s)
      then Inr (fst (snd (mTerm2ExpMap s ! mIter s)), s\<lparr>mIter := Suc (mIter s)\<rparr>)
      else Inl (Undefined ''dereference of the end iterator''))"

fun subExp :: "sub_map \<Rightarrow> trm \<Rightarrow> exp option" where
  "subExp [] factor = None"
| "subExp (q # m) factor =
     (if factorMatches factor (fst (snd q)) then Some (snd (snd q)) else subExp m factor)"

definition SubMap_toString :: "sub_map \<Rightarrow> string" where
  "SubMap_toString m =
     ''SubMap:'' @ [CHR 0x0A] @
     concat (map (\<lambda>q. [CHR 0x09] @ ''term = '' @ toString_trm (fst (snd q)) False @
       '', exp = '' @ toString_exp (snd (snd q)) @ [CHR 0x0A]) m)"

section \<open>Substitution\<close>

text \<open>
  All terms leave the expression; each contributes its substitute times its coefficient, or itself
  with its arguments substituted, and the sum of the contributions is added to the empty expression
  of the old kind.
\<close>

fun substitute :: "sub_map \<Rightarrow> exp \<Rightarrow> exp" where
  "substitute m (Exp ts et) =
     addExp (Exp [] et)
       (foldl (\<lambda>addedTerms t.
          case subExp m t of
            Some sub \<Rightarrow> addExp addedTerms (multiplyBy sub (coefficient t))
          | None \<Rightarrow> addTerm addedTerms
              (case t of
                 UFCallTerm c f args i \<Rightarrow> UFCallTerm c f (map (substitute m) args) i
               | _ \<Rightarrow> t))
        empty_exp ts)"

text \<open>The step of the loop and the substituted term, by themselves.\<close>

definition subst_args :: "sub_map \<Rightarrow> trm \<Rightarrow> trm" where
  "subst_args m t =
     (case t of UFCallTerm c f args i \<Rightarrow> UFCallTerm c f (map (substitute m) args) i | _ \<Rightarrow> t)"

definition subst_step :: "sub_map \<Rightarrow> exp \<Rightarrow> trm \<Rightarrow> exp" where
  "subst_step m acc t =
     (case subExp m t of
        Some sub \<Rightarrow> addExp acc (multiplyBy sub (coefficient t))
      | None \<Rightarrow> addTerm acc (subst_args m t))"

lemma substitute_eq: "substitute m (Exp ts et) = addExp (Exp [] et) (foldl (subst_step m) empty_exp ts)"
proof -
  have "(\<lambda>acc t. case subExp m t of
            Some sub \<Rightarrow> addExp acc (multiplyBy sub (coefficient t))
          | None \<Rightarrow> addTerm acc
              (case t of UFCallTerm c f args i \<Rightarrow> UFCallTerm c f (map (substitute m) args) i | _ \<Rightarrow> t))
    = subst_step m"
    by (intro ext) (simp add: subst_step_def subst_args_def split: option.split)
  then show ?thesis by simp
qed

declare substitute.simps [simp del]

lemma subst_args_simps [simp]:
  "subst_args m (Term c) = Term c"
  "subst_args m (VarTerm c s) = VarTerm c s"
  "subst_args m (TupleVarTerm c l) = TupleVarTerm c l"
  "subst_args m (UFCallTerm c f args i) = UFCallTerm c f (map (substitute m) args) i"
  by (simp_all add: subst_args_def)

lemma subExp_Some: "subExp m t = Some s \<Longrightarrow> \<exists>q \<in> set m. factorMatches t (fst (snd q)) \<and> s = snd (snd q)"
  by (induction m) (auto split: if_splits)

lemma subExp_setCoefficient [simp]: "subExp m (setCoefficient c t) = subExp m t"
  by (induction m) auto

abbreviation wf_sub :: "sub_map \<Rightarrow> bool" where
  "wf_sub m \<equiv> \<forall>q \<in> set m. wf_exp (snd (snd q))"

section \<open>Its meaning\<close>

text \<open>
  The interpretation in which the factors of the map denote their substitutes: it agrees with \<open>I\<close> on
  the functions and on the variables that are not in the map.
\<close>

definition subst_interp :: "sub_map \<Rightarrow> interp \<Rightarrow> interp \<Rightarrow> bool" where
  "subst_interp m I I' \<longleftrightarrow>
     uf I' = uf I
     \<and> (\<forall>t s. subExp m t = Some s \<longrightarrow> eval_trm I' (setCoefficient 1 t) = eval_exp I s)
     \<and> (\<forall>t. subExp m t = None \<and> \<not> isUFCall t \<longrightarrow> eval_trm I' t = eval_trm I t)"

lemma fold_subst_sound:
  assumes "wf_sub m"
    and "\<And>t. t \<in> set ts \<Longrightarrow> subExp m t = None \<Longrightarrow>
      wf_trm (subst_args m t) \<and> eval_trm I (subst_args m t) = eval_trm I' t"
    and "\<And>t s. t \<in> set ts \<Longrightarrow> subExp m t = Some s \<Longrightarrow> coefficient t * eval_exp I s = eval_trm I' t"
    and "wf_exp acc"
  shows "wf_exp (foldl (subst_step m) acc ts)
    \<and> eval_exp I (foldl (subst_step m) acc ts) = eval_exp I acc + sum_list (map (eval_trm I') ts)"
  using assms(2-)
proof (induction ts arbitrary: acc)
  case (Cons t ts)
  have "wf_exp (subst_step m acc t) \<and> eval_exp I (subst_step m acc t) = eval_exp I acc + eval_trm I' t"
  proof (cases "subExp m t")
    case None
    with Cons.prems(1)[of t] Cons.prems(3) show ?thesis by (auto simp: subst_step_def eval_addTerm)
  next
    case (Some s)
    with subExp_Some[OF Some] assms(1) have "wf_exp s" by auto
    with Some Cons.prems(2)[of t s] Cons.prems(3) show ?thesis
      by (auto simp: subst_step_def eval_addExp)
  qed
  with Cons show ?case by simp
qed simp

lemma substitute_sound:
  "wf_sub m \<Longrightarrow> subst_interp m I I' \<Longrightarrow> wf_exp e \<Longrightarrow>
    wf_exp (substitute m e) \<and> eval_exp I (substitute m e) = eval_exp I' e"
proof (induction m e rule: substitute.induct)
  case (1 m ts et)
  let ?sum = "foldl (subst_step m) empty_exp ts"
  note I = 1(3)[unfolded subst_interp_def]
  have "wf_exp ?sum \<and> eval_exp I ?sum = eval_exp I empty_exp + sum_list (map (eval_trm I') ts)"
  proof (rule fold_subst_sound)
    fix t assume t: "t \<in> set ts" "subExp m t = None"
    show "wf_trm (subst_args m t) \<and> eval_trm I (subst_args m t) = eval_trm I' t"
    proof (cases t)
      case (UFCallTerm c f args i)
      with t 1(4) have wf: "ident f" "-1 \<le> i" "list_all wf_exp args" by (auto simp: list_all_iff)
      have "wf_exp (substitute m a) \<and> eval_exp I (substitute m a) = eval_exp I' a" if "a \<in> set args" for a
        using 1(1)[OF t UFCallTerm that 1(2,3)] wf(3) that by (simp add: list_all_iff)
      then have "list_all wf_exp (map (substitute m) args)"
        "map (eval_exp I) (map (substitute m) args) = map (eval_exp I') args"
        by (simp_all add: list_all_iff)
      moreover from this(2) have "uf I f (tupleIndex i) (map (eval_exp I) (map (substitute m) args))
        = uf I f (tupleIndex i) (map (eval_exp I') args)" by (rule arg_cong)
      ultimately show ?thesis using wf UFCallTerm I by simp
    qed (use t 1(4) I in \<open>auto simp: isUFCall_def list_all_iff\<close>)
  next
    fix t s assume "t \<in> set ts" "subExp m t = Some s"
    with I have "eval_trm I' (setCoefficient 1 t) = eval_exp I s" by blast
    then show "coefficient t * eval_exp I s = eval_trm I' t"
      using eval_trm_factor[of I' t] by simp
  qed (use 1(2) in auto)
  then show ?case unfolding substitute_eq by (auto simp: eval_addExp)
qed

section \<open>Substituting for a variable removes it\<close>

definition is_var :: "trm \<Rightarrow> bool" where
  "is_var x \<longleftrightarrow> getTermType x = TupleVar \<or> getTermType x = SymConst"

lemma dependsOn_setCoefficient [simp]: "dependsOn_trm (setCoefficient c t) x = dependsOn_trm t x"
  using factorMatches_setCoefficient(1)[of c t x] by (cases t) auto

lemma dependsOn_addTerm_loop:
  "list_ex (\<lambda>t. dependsOn_trm t x) (addTerm_loop ts u) \<Longrightarrow>
    list_ex (\<lambda>t. dependsOn_trm t x) ts \<or> dependsOn_trm u x"
  by (induction ts) (auto simp: combine_def split: option.splits if_splits)

lemma dependsOn_iff: "dependsOn e x \<longleftrightarrow> list_ex (\<lambda>t. dependsOn_trm t x) (mTerms e)"
  by (cases e) simp

lemma dependsOn_addTerm: "dependsOn (addTerm e u) x \<Longrightarrow> dependsOn e x \<or> dependsOn_trm u x"
  using dependsOn_addTerm_loop[of x "mTerms e" u] by (auto simp: dependsOn_iff addTerm_def split: if_splits)

lemma dependsOn_addTerms: "dependsOn (foldl addTerm e ts) x \<Longrightarrow> dependsOn e x \<or> list_ex (\<lambda>t. dependsOn_trm t x) ts"
  by (induction ts arbitrary: e) (auto dest: dependsOn_addTerm)

lemma dependsOn_addExp: "dependsOn (addExp e e') x \<Longrightarrow> dependsOn e x \<or> dependsOn e' x"
  unfolding addExp_def using dependsOn_addTerms by (auto simp: dependsOn_iff[of e'])

lemma dependsOn_multiplyBy [simp]: "dependsOn (multiplyBy e k) x = dependsOn e x"
  by (simp add: dependsOn_iff multiplyBy_def multiplyBy_term_def list.pred_map list_ex_iff)

lemma var_not_call: "is_var x \<Longrightarrow> \<not> factorMatches (UFCallTerm c f args i) x"
  by (cases x) (auto simp: is_var_def factorMatches_def)

lemma substitute_removes:
  assumes x: "is_var x" "\<And>t. factorMatches t x \<Longrightarrow> subExp m t \<noteq> None"
    and subs: "\<forall>q \<in> set m. \<not> dependsOn (snd (snd q)) x"
  shows "\<not> dependsOn (substitute m e) x"
  using assms
proof (induction m e rule: substitute.induct)
  case (1 m ts et)
  have step: "\<not> dependsOn (subst_step m acc t) x" if "t \<in> set ts" "\<not> dependsOn acc x" for acc t
  proof (cases "subExp m t")
    case (Some s)
    then show ?thesis
      using subExp_Some[OF Some] 1(4) that(2) dependsOn_addExp[of acc "multiplyBy s (coefficient t)" x]
      by (auto simp: subst_step_def)
  next
    case None
    have "\<not> dependsOn_trm (subst_args m t) x"
    proof (cases t)
      case (UFCallTerm c f args i)
      have "\<not> dependsOn (substitute m a) x" if "a \<in> set args" for a
        by (rule 1(1)[OF \<open>t \<in> set ts\<close> None UFCallTerm that]) (use 1(2-4) in auto)
      with UFCallTerm var_not_call[OF 1(2)] show ?thesis by (simp add: list_ex_iff)
    qed (use None 1(3)[of t] in auto)
    with None that(2) show ?thesis by (auto simp: subst_step_def dest: dependsOn_addTerm)
  qed
  have "set us \<subseteq> set ts \<Longrightarrow> \<not> dependsOn acc x \<Longrightarrow> \<not> dependsOn (foldl (subst_step m) acc us) x" for us acc
    by (induction us arbitrary: acc) (auto simp: step)
  then have "\<not> dependsOn (foldl (subst_step m) empty_exp ts) x" by simp
  then show ?case unfolding substitute_eq by (auto dest: dependsOn_addExp)
qed

section \<open>Properties\<close>

text \<open>C15: Substitution of well-formed expressions in a well-formed one is sound: the value of the result is the
  value of the original expression when every factor of the map denotes its substitute, for nested occurrences
  too.\<close>

theorem substitute_correct:
  assumes "wf_exp e" "wf_sub m" "subst_interp m I I'"
  shows "wf_exp (substitute m e) \<and> eval_exp I (substitute m e) = eval_exp I' e"
  by (rule substitute_sound[OF assms(2,3,1)])

lemma substitute_correct_witness:
  "let m = insertPair [] 7 (TupleVarTerm 1 0) (Exp [VarTerm 1 ''n'', Term (-1)] Expression);
       e = Exp [TupleVarTerm 2 0, UFCallTerm 1 ''f'' [Exp [TupleVarTerm 1 0] Expression] (-1)] Inequality;
       I = \<lparr>tv = \<lambda>l. 0, sym = \<lambda>s. 10, uf = \<lambda>f i as. sum_list as\<rparr>
   in eval_exp I (substitute m e) = 27"
proof -
  let ?m = "insertPair [] 7 (TupleVarTerm 1 0) (Exp [VarTerm 1 ''n'', Term (-1)] Expression)"
  let ?I = "\<lparr>tv = \<lambda>l. 0, sym = \<lambda>s. 10, uf = \<lambda>f i as. sum_list as\<rparr>"
  let ?I' = "?I\<lparr>tv := \<lambda>l. if l = 0 then 9 else 0\<rparr>"
  have ids: "ident ''n''" "ident ''f''" by code_simp+
  have "subst_interp ?m ?I ?I'" unfolding subst_interp_def
  proof (intro conjI allI impI)
    fix t s assume "subExp ?m t = Some s"
    then show "eval_trm ?I' (setCoefficient 1 t) = eval_exp ?I s"
      by (cases t) (auto simp: insertPair_def factorMatches_def Term_factorMatches_def split: if_splits)
  next
    fix t assume "subExp ?m t = None \<and> \<not> isUFCall t"
    then show "eval_trm ?I' t = eval_trm ?I t"
      by (cases t) (auto simp: insertPair_def factorMatches_def Term_factorMatches_def isUFCall_def split: if_splits)
  qed simp
  with ids show ?thesis
    using substitute_correct[of "Exp [TupleVarTerm 2 0, UFCallTerm 1 ''f'' [Exp [TupleVarTerm 1 0] Expression] (-1)] Inequality"
        ?m ?I ?I'] by (simp add: insertPair_def tupleIndex_def isIndexed_def)
qed

text \<open>A variable that the map replaces by expressions without it does not occur in the result, at
  any depth.\<close>

lemma substitute_eliminates:
  assumes "is_var x" "\<And>t. factorMatches t x \<Longrightarrow> subExp m t \<noteq> None"
    and "\<forall>q \<in> set m. \<not> dependsOn (snd (snd q)) x"
  shows "\<not> dependsOn (substitute m e) x"
  by (rule substitute_removes[OF assms])

end
