(* ===== verification/Remap.thy ===== *)
theory Remap
  imports Exp_Canonical
begin

text \<open>
  Renaming tuple variables (\<open>TupleVarTerm::remapLocation\<close> and \<open>Exp::remapTupleVars\<close> of
  \<open>expression.cc\<close>). The source changes the terms in place and an exception leaves the terms before
  the offending one changed; here the result is the renamed expression or the exception.
\<close>

section \<open>The operations\<close>

text \<open>
  The test that no two old locations go to the same new one: a vector of flags of the size of the
  largest new location.
\<close>

definition largest_loc :: "int list \<Rightarrow> int" where
  "largest_loc oldToNewLocs = foldl (\<lambda>m l. if l > m then l else m) 0 oldToNewLocs"

definition check_locs :: "int list \<Rightarrow> bool list result" where
  "check_locs oldToNewLocs =
     fold_result
       (\<lambda>newLocSeen l.
          if l \<ge> 0 then
            (if newLocSeen ! nat l
             then Inl (Assert_exception (''Exp::remapTupleVars: two old locations'' @
                    '' are being mapped to the same new location''))
             else Inr (newLocSeen[nat l := True]))
          else Inr newLocSeen)
       (replicate (nat (largest_loc oldToNewLocs + 1)) False) oldToNewLocs"

definition remapLocation :: "int list \<Rightarrow> int \<Rightarrow> int \<Rightarrow> int result" where
  "remapLocation oldToNewLocs c mLocation =
     (if mLocation \<ge> 0 \<and> nat mLocation < length oldToNewLocs then
        (if oldToNewLocs ! nat mLocation < 0
         then Inl (Assert_exception (''TupleVarTerm::remapLocation: mapping '' @
                TupleVarTerm_toString c mLocation False @ '' to location < 0''))
         else Inr (oldToNewLocs ! nat mLocation))
      else Inl (Assert_exception (''TupleVarTerm::remapLocation: mLocation = '' @ show_int mLocation @
             '', out of range [0,'' @
             (if oldToNewLocs = [] then ''18446744073709551615''
              else show_nat (length oldToNewLocs - 1)) @ '']'')))"

fun remap_trm :: "int list \<Rightarrow> trm \<Rightarrow> trm result"
  and remapTupleVars :: "int list \<Rightarrow> exp \<Rightarrow> exp result" where
  "remap_trm locs (TupleVarTerm c l) =
     bind_result (remapLocation locs c l) (\<lambda>l'. Inr (TupleVarTerm c l'))"
| "remap_trm locs (UFCallTerm c f args i) =
     bind_result (map_result (remapTupleVars locs) args) (\<lambda>args'. Inr (UFCallTerm c f args' i))"
| "remap_trm locs (Term c) = Inr (Term c)"
| "remap_trm locs (VarTerm c s) = Inr (VarTerm c s)"
| "remapTupleVars locs (Exp ts et) =
     bind_result (check_locs locs) (\<lambda>_.
       bind_result (map_result (remap_trm locs) ts) (\<lambda>ts'. Inr (Exp ts' et)))"

section \<open>The test for clashes\<close>

definition injective_locs :: "int list \<Rightarrow> bool" where
  "injective_locs locs \<longleftrightarrow> distinct (filter (\<lambda>l. l \<ge> 0) locs)"

lemma largest_loc_bounds: "\<forall>l \<in> set locs. l \<le> largest_loc locs" "0 \<le> largest_loc locs"
proof -
  have "m \<le> foldl (\<lambda>m l. if l > m then l else m) m ls \<and> (\<forall>l \<in> set ls. l \<le> foldl (\<lambda>m l. if l > m then l else m) m ls)"
    for m :: int and ls
  proof (induction ls arbitrary: m)
    case (Cons l ls)
    from Cons.IH[of "if l > m then l else m"] show ?case by (auto split: if_splits)
  qed simp
  from this[of 0 locs] show "\<forall>l \<in> set locs. l \<le> largest_loc locs" "0 \<le> largest_loc locs"
    by (simp_all add: largest_loc_def)
qed

lemma check_fold:
  assumes "\<forall>l \<in> set locs. l < int (length seen)"
  shows "(\<exists>s. fold_result
       (\<lambda>newLocSeen l.
          if l \<ge> 0 then
            (if newLocSeen ! nat l then Inl e else Inr (newLocSeen[nat l := True]))
          else Inr newLocSeen) seen locs = Inr s)
    \<longleftrightarrow> distinct (filter (\<lambda>l. l \<ge> 0) locs) \<and> (\<forall>l \<in> set locs. l \<ge> 0 \<longrightarrow> \<not> seen ! nat l)"
  using assms
proof (induction locs arbitrary: seen)
  case (Cons l ls)
  show ?case
  proof (cases "l \<ge> 0")
    case True
    with Cons.prems have "nat l < length seen" by auto
    have "seen[nat l := True] ! nat k \<longleftrightarrow> k = l \<or> seen ! nat k" if "k \<ge> 0" for k
      using \<open>nat l < length seen\<close> that True by (auto simp: nth_list_update)
    with True Cons show ?thesis by auto
  next
    case False
    with Cons show ?thesis by simp
  qed
qed simp

lemma check_locs_ok: "(\<exists>s. check_locs locs = Inr s) \<longleftrightarrow> injective_locs locs"
proof -
  let ?seen = "replicate (nat (largest_loc locs + 1)) False"
  have len: "\<forall>l \<in> set locs. l < int (length ?seen)" using largest_loc_bounds[of locs] by auto
  have "\<not> ?seen ! nat l" if "l \<in> set locs" "l \<ge> 0" for l
    using largest_loc_bounds[of locs] that by (subst nth_replicate) auto
  then show ?thesis
    unfolding check_locs_def injective_locs_def check_fold[OF len] by blast
qed

section \<open>What renaming does\<close>

text \<open>The tuple variables of an expression, nested ones included.\<close>

fun tvars_trm :: "trm \<Rightarrow> int set" and tvars :: "exp \<Rightarrow> int set" where
  "tvars_trm (TupleVarTerm c l) = {l}"
| "tvars_trm (UFCallTerm c f args i) = \<Union> (set (map tvars args))"
| "tvars_trm (Term c) = {}"
| "tvars_trm (VarTerm c s) = {}"
| "tvars (Exp ts et) = \<Union> (set (map tvars_trm ts))"

definition mapped :: "int list \<Rightarrow> int \<Rightarrow> bool" where
  "mapped locs l \<longleftrightarrow> 0 \<le> l \<and> nat l < length locs \<and> locs ! nat l \<ge> 0"

lemma remapLocation_Inr: "remapLocation locs c l = Inr l' \<longleftrightarrow> mapped locs l \<and> l' = locs ! nat l"
  by (auto simp: remapLocation_def mapped_def)

abbreviation rename_interp :: "int list \<Rightarrow> interp \<Rightarrow> interp" where
  "rename_interp locs I \<equiv> I\<lparr>tv := \<lambda>l. tv I (locs ! nat l)\<rparr>"

lemma remap_eval:
  "remap_trm locs t = Inr t' \<Longrightarrow> eval_trm I t' = eval_trm (rename_interp locs I) t \<and> (wf_trm t \<longrightarrow> wf_trm t')"
  "remapTupleVars locs e = Inr e' \<Longrightarrow> eval_exp I e' = eval_exp (rename_interp locs I) e \<and> (wf_exp e \<longrightarrow> wf_exp e')"
proof (induction locs t and locs e arbitrary: t' and e' rule: remap_trm_remapTupleVars.induct)
  case (1 locs c l)
  then show ?case by (auto simp: remapLocation_Inr mapped_def)
next
  case (2 locs c f args i)
  then obtain args' where a: "list_all2 (\<lambda>a a'. remapTupleVars locs a = Inr a') args args'"
    "t' = UFCallTerm c f args' i" by (auto simp: map_result_Inr_iff)
  from a(1) 2(1) have "map (eval_exp I) args' = map (eval_exp (rename_interp locs I)) args
    \<and> (list_all wf_exp args \<longrightarrow> list_all wf_exp args')"
    by (induction rule: list_all2_induct) auto
  then show ?case using a(2) by simp
next
  case (5 locs ts et)
  then obtain ts' s where a: "list_all2 (\<lambda>t t'. remap_trm locs t = Inr t') ts ts'" "e' = Exp ts' et"
    "check_locs locs = Inr s" by (auto simp: map_result_Inr_iff)
  from a(1) 5(1)[OF a(3)] have "map (eval_trm I) ts' = map (eval_trm (rename_interp locs I)) ts
    \<and> (list_all wf_trm ts \<longrightarrow> list_all wf_trm ts')"
    by (induction rule: list_all2_induct) auto
  then show ?case using a(2) by simp
qed auto

lemma map_result_ok: "(\<exists>ys. map_result f xs = Inr ys) \<longleftrightarrow> (\<forall>x \<in> set xs. \<exists>y. f x = Inr y)"
  by (induction xs) auto

lemma remap_ok:
  "injective_locs locs \<Longrightarrow> (\<exists>t'. remap_trm locs t = Inr t') \<longleftrightarrow> (\<forall>l \<in> tvars_trm t. mapped locs l)"
  "injective_locs locs \<Longrightarrow> (\<exists>e'. remapTupleVars locs e = Inr e') \<longleftrightarrow> (\<forall>l \<in> tvars e. mapped locs l)"
proof (induction locs t and locs e rule: remap_trm_remapTupleVars.induct)
  case (2 locs c f args i)
  have "(\<exists>t'. remap_trm locs (UFCallTerm c f args i) = Inr t')
    \<longleftrightarrow> (\<exists>ys. map_result (remapTupleVars locs) args = Inr ys)" by auto
  also have "\<dots> \<longleftrightarrow> (\<forall>l \<in> tvars_trm (UFCallTerm c f args i). mapped locs l)"
    using 2 by (simp add: map_result_ok)
  finally show ?case .
next
  case (5 locs ts et)
  then obtain s where s: "check_locs locs = Inr s" using check_locs_ok by blast
  have "(\<exists>e'. remapTupleVars locs (Exp ts et) = Inr e')
    \<longleftrightarrow> (\<exists>ys. map_result (remap_trm locs) ts = Inr ys)" using s by auto
  also have "\<dots> \<longleftrightarrow> (\<forall>l \<in> tvars (Exp ts et). mapped locs l)"
    using 5(1)[OF s _ 5(2)] by (simp add: map_result_ok)
  finally show ?case .
qed (auto simp: remapLocation_Inr)

lemma remap_iff:
  "(\<exists>e'. remapTupleVars locs e = Inr e') \<longleftrightarrow> injective_locs locs \<and> (\<forall>l \<in> tvars e. mapped locs l)"
  using remap_ok(2)[of locs e] check_locs_ok[of locs] by (cases e) auto

section \<open>Properties\<close>

text \<open>Renaming tuple variables succeeds exactly when no two locations are mapped to one and every
  variable of the expression is mapped to a location; the value of the result is then that of the
  expression with each variable read at its new location.\<close>

lemma remapTupleVars_correct:
  "((\<exists>e'. remapTupleVars locs e = Inr e') \<longleftrightarrow> injective_locs locs \<and> (\<forall>l \<in> tvars e. mapped locs l))
   \<and> (\<forall>e' I. remapTupleVars locs e = Inr e' \<longrightarrow> eval_exp I e' = eval_exp (rename_interp locs I) e)"
  using remap_iff remap_eval(2) by blast

text \<open>The renamed terms stay in their old places, so the result need not be in canonical form, and it
  is not equal to the same sum built in order.\<close>

lemma remap_loses_order:
  "remapTupleVars [1, 0] (Exp [TupleVarTerm 1 0, TupleVarTerm 2 1] Equality)
     = Inr (Exp [TupleVarTerm 1 1, TupleVarTerm 2 0] Equality)
   \<and> \<not> canonical multi (Exp [TupleVarTerm 1 1, TupleVarTerm 2 0] Equality)
   \<and> \<not> exp_eq (Exp [TupleVarTerm 1 1, TupleVarTerm 2 0] Equality)
       (addTerm (addTerm (Exp [] Equality) (TupleVarTerm 1 1)) (TupleVarTerm 2 0))"
proof (intro conjI)
  show "remapTupleVars [1, 0] (Exp [TupleVarTerm 1 0, TupleVarTerm 2 1] Equality)
     = Inr (Exp [TupleVarTerm 1 1, TupleVarTerm 2 0] Equality)" by code_simp
  show "\<not> canonical multi (Exp [TupleVarTerm 1 1, TupleVarTerm 2 0] Equality)"
    by (simp add: canonical_def less_termtype_def)
  show "\<not> exp_eq (Exp [TupleVarTerm 1 1, TupleVarTerm 2 0] Equality)
       (addTerm (addTerm (Exp [] Equality) (TupleVarTerm 1 1)) (TupleVarTerm 2 0))" by code_simp
qed

end
