(* ===== verification/TupleDecl.thy ===== *)
theory TupleDecl
  imports Expression "HOL-Library.Option_ord"
begin

text \<open>
  Tuple declarations (\<open>IEGenLib/src/set_relation/TupleDecl.h\<close>, \<open>TupleDecl.cc\<close>): for each element
  whether it is a constant, its constant value and its variable name. The source keeps three
  vectors of the length \<open>mSize\<close> that always grow together; here they are one list of elements.
  Element numbers are unsigned; the accessors that do not check theirs are undefined beyond the end.
\<close>

section \<open>State\<close>

record tuple_elem =
  mIsConst :: bool
  mConstVal :: int
  mVarString :: string

type_synonym tuple_decl = "tuple_elem list"

abbreviation var_elem :: "string \<Rightarrow> tuple_elem" where
  "var_elem s \<equiv> \<lparr>mIsConst = False, mConstVal = 0, mVarString = s\<rparr>"

section \<open>Operations\<close>

definition sDefaultTupleVarName :: "nat \<Rightarrow> string" where
  "sDefaultTupleVarName loc = ''tv'' @ show_nat loc"

definition TupleDecl_new :: "nat \<Rightarrow> tuple_decl" where
  "TupleDecl_new n = map (\<lambda>i. var_elem (sDefaultTupleVarName i)) [0..<n]"

definition setTupleElem_const :: "tuple_decl \<Rightarrow> nat \<Rightarrow> int \<Rightarrow> tuple_decl result" where
  "setTupleElem_const td elem_loc const_val =
     (if elem_loc \<ge> length td
      then Inl (Assert_exception ''TupleDecl::setTupleElem: elem_loc out of bounds'')
      else Inr (td[elem_loc := (td ! elem_loc)\<lparr>mIsConst := True, mConstVal := const_val\<rparr>]))"

definition setTupleElem_var :: "tuple_decl \<Rightarrow> nat \<Rightarrow> string \<Rightarrow> tuple_decl result" where
  "setTupleElem_var td elem_loc var_string =
     (if elem_loc \<ge> length td
      then Inl (Assert_exception ''TupleDecl::setTupleElem: elem_loc out of bounds'')
      else Inr (td[elem_loc := (td ! elem_loc)\<lparr>mIsConst := False, mVarString := var_string\<rparr>]))"

definition sDefaultTupleDecl :: "nat \<Rightarrow> tuple_decl result" where
  "sDefaultTupleDecl arity =
     fold_result (\<lambda>td i. setTupleElem_var td i (sDefaultTupleVarName i))
       (TupleDecl_new arity) [0..<arity]"

text \<open>The loop of \<open>operator<\<close> over the elements of two declarations of the same size.\<close>

fun elems_less :: "tuple_decl \<Rightarrow> tuple_decl \<Rightarrow> bool" where
  "elems_less (a # as) (b # bs) =
     (if \<not> mIsConst a \<and> \<not> mIsConst b then elems_less as bs
      else if mIsConst a \<and> \<not> mIsConst b then False
      else if mIsConst b \<and> \<not> mIsConst a then True
      else if mConstVal a < mConstVal b then True
      else if mConstVal b < mConstVal a then False
      else elems_less as bs)"
| "elems_less _ _ = False"

definition tuple_decl_less :: "tuple_decl \<Rightarrow> tuple_decl \<Rightarrow> bool" where
  "tuple_decl_less td other =
     (if length td < length other then True
      else if length other < length td then False
      else elems_less td other)"

definition tuple_decl_eq :: "tuple_decl \<Rightarrow> tuple_decl \<Rightarrow> bool" where
  "tuple_decl_eq td other \<longleftrightarrow> \<not> (tuple_decl_less td other \<or> tuple_decl_less other td)"

definition tuple_decl_concat :: "tuple_decl \<Rightarrow> tuple_decl \<Rightarrow> tuple_decl" where
  "tuple_decl_concat td other =
     td @ map (\<lambda>(j, e). if mVarString e = sDefaultTupleVarName j
                        then e\<lparr>mVarString := sDefaultTupleVarName (j + length td)\<rparr> else e)
            (zip [0..<length other] other)"

definition copyTupleElem :: "tuple_decl \<Rightarrow> tuple_decl \<Rightarrow> nat \<Rightarrow> nat \<Rightarrow> tuple_decl result" where
  "copyTupleElem td other elem_loc_from elem_loc_to =
     (if elem_loc_to < length td \<and> elem_loc_from < length other
      then Inr (td[elem_loc_to := other ! elem_loc_from])
      else Inl (Undefined ''vector index out of bounds''))"

definition elem_text :: "tuple_elem \<Rightarrow> string" where
  "elem_text e = (if mIsConst e then show_int (mConstVal e) else mVarString e)"

definition elemToString :: "tuple_decl \<Rightarrow> nat \<Rightarrow> string result" where
  "elemToString td elem_loc =
     (if elem_loc < length td then Inr (elem_text (td ! elem_loc))
      else Inl (Undefined ''vector index out of bounds''))"

definition elemIsConst :: "tuple_decl \<Rightarrow> nat \<Rightarrow> bool result" where
  "elemIsConst td elem_loc =
     (if elem_loc < length td then Inr (mIsConst (td ! elem_loc))
      else Inl (Undefined ''vector index out of bounds''))"

definition elemConstVal :: "tuple_decl \<Rightarrow> nat \<Rightarrow> int result" where
  "elemConstVal td elem_loc =
     (if elem_loc < length td then Inr (mConstVal (td ! elem_loc))
      else Inl (Undefined ''vector index out of bounds''))"

definition elemVarString :: "tuple_decl \<Rightarrow> nat \<Rightarrow> string result" where
  "elemVarString td elem_loc =
     (if elem_loc < length td then Inr (mVarString (td ! elem_loc))
      else Inl (Undefined ''vector index out of bounds''))"

definition elemCreateTerm :: "tuple_decl \<Rightarrow> nat \<Rightarrow> nat \<Rightarrow> trm result" where
  "elemCreateTerm td view_elem_loc use_elem_loc =
     (if view_elem_loc \<ge> length td
      then Inl (Assert_exception ''TupleDecl::elemCreateTerm: view_elem_loc parameter is out of bounds'')
      else if mIsConst (td ! view_elem_loc) then Inr (Term (mConstVal (td ! view_elem_loc)))
      else Inr (TupleVarTerm 1 (int use_elem_loc)))"

definition tuple_decl_toString :: "tuple_decl \<Rightarrow> bool \<Rightarrow> nat \<Rightarrow> string" where
  "tuple_decl_toString td withBrackets aritySplit =
     (if length td \<noteq> 0 then
        (if withBrackets then ''['' else '''') @
        concat (map (\<lambda>(i, e).
            (if i > 0 then (if aritySplit = i \<and> withBrackets then ''] -> ['' else '', '') else '''') @ elem_text e)
          (zip [0..<length td] td)) @
        (if withBrackets then '']'' else '''')
      else '''')"

section \<open>The order of declarations\<close>

text \<open>Variables count as below every constant and their names do not count.\<close>

definition elem_key :: "tuple_elem \<Rightarrow> int option" where
  "elem_key e = (if mIsConst e then Some (mConstVal e) else None)"

definition key_of_decl :: "tuple_decl \<Rightarrow> nat \<times> int option list" where
  "key_of_decl td = (length td, map elem_key td)"

lemma elems_less_key:
  "length as = length bs \<Longrightarrow> elems_less as bs \<longleftrightarrow> map elem_key as < map elem_key bs"
  by (induction as bs rule: list_induct2) (auto simp: elem_key_def)

interpretation decl_order: keyed_order tuple_decl_less key_of_decl
  by unfold_locales (auto simp: tuple_decl_less_def key_of_decl_def elems_less_key)

lemma tuple_decl_eq_key: "tuple_decl_eq td td' \<longleftrightarrow> map elem_key td = map elem_key td'"
  using decl_order.incomparable_key[of td td'] map_eq_imp_length_eq[of elem_key td elem_key td']
  by (auto simp: tuple_decl_eq_def incomparable_def key_of_decl_def)

section \<open>Concatenation and access\<close>

lemma length_concat_decl [simp]: "length (tuple_decl_concat td other) = length td + length other"
  by (simp add: tuple_decl_concat_def)

lemma nth_TupleDecl_new [simp]: "i < n \<Longrightarrow> TupleDecl_new n ! i = var_elem (sDefaultTupleVarName i)"
  by (simp add: TupleDecl_new_def)

lemma length_TupleDecl_new [simp]: "length (TupleDecl_new n) = n"
  by (simp add: TupleDecl_new_def)

lemma setTupleElem_var_same:
  "i < length td \<Longrightarrow> \<not> mIsConst (td ! i) \<Longrightarrow> mVarString (td ! i) = s \<Longrightarrow> setTupleElem_var td i s = Inr td"
  by (auto simp: setTupleElem_var_def list_eq_iff_nth_eq nth_list_update)

lemma sDefaultTupleDecl_new: "sDefaultTupleDecl n = Inr (TupleDecl_new n)"
proof -
  have "set is \<subseteq> {0..<n} \<Longrightarrow>
    fold_result (\<lambda>td i. setTupleElem_var td i (sDefaultTupleVarName i)) (TupleDecl_new n) is
      = Inr (TupleDecl_new n)" for "is"
    by (induction "is") (auto simp: setTupleElem_var_same)
  then show ?thesis by (simp add: sDefaultTupleDecl_def)
qed

lemma nth_concat_decl:
  "i < length td \<Longrightarrow> tuple_decl_concat td other ! i = td ! i"
  "i < length other \<Longrightarrow> elem_key (tuple_decl_concat td other ! (length td + i)) = elem_key (other ! i)"
  by (simp_all add: tuple_decl_concat_def nth_append elem_key_def)

section \<open>Properties\<close>

text \<open>\<open>operator<\<close> on tuple declarations is a strict weak order, and two declarations are equal when
  they have constants of the same value at the same places: names of variables do not matter.\<close>

lemma tuple_decl_order:
  "(\<not> tuple_decl_less a a) \<and> (tuple_decl_less a b \<longrightarrow> \<not> tuple_decl_less b a)
   \<and> (tuple_decl_less a b \<and> tuple_decl_less b c \<longrightarrow> tuple_decl_less a c)
   \<and> (tuple_decl_eq a b \<longleftrightarrow> map elem_key a = map elem_key b)"
  using decl_order.strict_weak_order[of a b c] by (simp add: tuple_decl_eq_key)

text \<open>Concatenation keeps the elements of the first declaration in place and puts the constants and
  variables of the second behind them; default declarations concatenate to the default declaration.\<close>

lemma tuple_decl_concat_spec:
  "map elem_key (tuple_decl_concat td other) = map elem_key td @ map elem_key other
   \<and> take (length td) (tuple_decl_concat td other) = td
   \<and> tuple_decl_concat (TupleDecl_new m) (TupleDecl_new n) = TupleDecl_new (m + n)"
proof (intro conjI)
  show "map elem_key (tuple_decl_concat td other) = map elem_key td @ map elem_key other"
    using nth_concat_decl(2)[of _ other td]
    by (intro nth_equalityI) (auto simp: nth_append nth_concat_decl(1) le_Suc_ex not_less
        dest!: le_Suc_ex)
  show "take (length td) (tuple_decl_concat td other) = td" by (simp add: tuple_decl_concat_def)
  show "tuple_decl_concat (TupleDecl_new m) (TupleDecl_new n) = TupleDecl_new (m + n)"
    by (rule nth_equalityI) (auto simp: tuple_decl_concat_def nth_append)
qed

end
