(* ===== verification/Util.thy ===== *)
theory Util
  imports Std_Map
begin

text \<open>
  The helpers of \<open>IEGenLib/src/util/util.cc\<close>: fresh names (\<open>createUniqueName\<close>) and the iterator
  over strings. The set of taken names is the sorted list of its members, as \<open>std::set\<close> keeps it;
  \<open>compareFileContentsToString\<close> reads a file and is not modelled.
\<close>

section \<open>Fresh names\<close>

lemma show_nat_inject [simp]: "show_nat m = show_nat n \<longleftrightarrow> m = n"
  by (metis read_nat_show_nat)

text \<open>The \<open>do\<close> loop; it ends because only finitely many names are taken.\<close>

function unique_loop :: "string \<Rightarrow> nat \<Rightarrow> string list \<Rightarrow> string" where
  "unique_loop name count taken =
     (let retval = name @ show_nat count in
      if retval \<in> set taken then unique_loop name (Suc count) taken else retval)"
  by pat_completeness auto

termination
proof (relation "measure (\<lambda>(name, count, taken). card {k. count \<le> k \<and> name @ show_nat k \<in> set taken})")
  fix name count taken retval
  assume "retval = name @ show_nat count" "retval \<in> set taken"
  then have c: "name @ show_nat count \<in> set taken" by simp
  let ?S = "\<lambda>c. {k. c \<le> k \<and> name @ show_nat k \<in> set taken}"
  have "(\<lambda>k. name @ show_nat k) ` ?S count \<subseteq> set taken" by auto
  then have "finite ((\<lambda>k. name @ show_nat k) ` ?S count)" by (rule finite_subset) simp
  then have "finite (?S count)" by (rule finite_imageD) (simp add: inj_on_def)
  moreover have "?S count = insert count (?S (Suc count))" using c by (auto simp: le_eq_less_or_eq)
  ultimately show "((name, Suc count, taken), (name, count, taken))
    \<in> measure (\<lambda>(name, count, taken). card {k. count \<le> k \<and> name @ show_nat k \<in> set taken})"
    by (simp add: card_insert_disjoint)
qed simp

declare unique_loop.simps [simp del]

definition createUniqueName :: "string \<Rightarrow> string list \<Rightarrow> string \<times> string list" where
  "createUniqueName name taken =
     (if name \<notin> set taken then (name, taken)
      else (let retval = unique_loop name 1 taken in (retval, insert_unique (<) retval taken)))"

lemma unique_loop_least:
  "\<exists>k \<ge> count. unique_loop name count taken = name @ show_nat k \<and> name @ show_nat k \<notin> set taken
     \<and> (\<forall>j. count \<le> j \<and> j < k \<longrightarrow> name @ show_nat j \<in> set taken)"
proof (induction name count taken rule: unique_loop.induct)
  case (1 name count taken)
  show ?case
  proof (cases "name @ show_nat count \<in> set taken")
    case True
    with 1 obtain k where k: "k \<ge> Suc count" "unique_loop name (Suc count) taken = name @ show_nat k"
      "name @ show_nat k \<notin> set taken" "\<forall>j. Suc count \<le> j \<and> j < k \<longrightarrow> name @ show_nat j \<in> set taken"
      by (auto simp: Let_def)
    have "name @ show_nat j \<in> set taken" if "count \<le> j" "j < k" for j
      using True k(4) that by (cases "j = count") auto
    with True k(1-3) show ?thesis
      by (subst unique_loop.simps) (auto simp: Let_def intro!: exI[of _ k])
  next
    case False
    then show ?thesis by (subst unique_loop.simps) (auto simp: Let_def intro!: exI[of _ count])
  qed
qed

section \<open>The string iterator\<close>

record string_iterator =
  mList :: "string list"
  mIter :: nat

definition StringIterator :: "string list \<Rightarrow> string_iterator" where
  "StringIterator aList = \<lparr>mList = aList, mIter = 0\<rparr>"

definition hasNext :: "string_iterator \<Rightarrow> bool" where
  "hasNext it \<longleftrightarrow> mIter it \<noteq> length (mList it)"

definition next_string :: "string_iterator \<Rightarrow> (string \<times> string_iterator) result" where
  "next_string it =
     (if mIter it < length (mList it)
      then Inr (mList it ! mIter it, it\<lparr>mIter := Suc (mIter it)\<rparr>)
      else Inl (Undefined ''dereference of the end iterator''))"

text \<open>What a caller does with the iterator: \<open>while (it.hasNext()) { ... it.next() ... }\<close>.\<close>

fun drain :: "nat \<Rightarrow> string_iterator \<Rightarrow> string list result" where
  "drain 0 it = Inr []"
| "drain (Suc n) it =
     (if hasNext it
      then bind_result (next_string it) (\<lambda>(s, it'). bind_result (drain n it') (\<lambda>ss. Inr (s # ss)))
      else Inr [])"

lemma drain_from:
  "k + n \<ge> length ss \<Longrightarrow> k \<le> length ss \<Longrightarrow> drain n \<lparr>mList = ss, mIter = k\<rparr> = Inr (drop k ss)"
proof (induction n arbitrary: k)
  case (Suc n)
  show ?case
  proof (cases "k = length ss")
    case False
    with Suc.prems have k: "k < length ss" by simp
    with Suc show ?thesis by (simp add: hasNext_def next_string_def Cons_nth_drop_Suc)
  qed (simp add: hasNext_def)
qed simp

section \<open>Properties\<close>

text \<open>The name \<open>createUniqueName\<close> returns is not taken; it is the base name when that is free, and
  otherwise the base name with the smallest positive number that gives a free name, which is then
  recorded as taken.\<close>

lemma createUniqueName_fresh:
  assumes "createUniqueName name taken = (r, taken')"
  shows "r \<notin> set taken \<and>
    (if name \<in> set taken
     then set taken' = insert r (set taken) \<and>
       (\<exists>k \<ge> 1. r = name @ show_nat k \<and> (\<forall>j. 1 \<le> j \<and> j < k \<longrightarrow> name @ show_nat j \<in> set taken))
     else r = name \<and> taken' = taken)"
proof (cases "name \<in> set taken")
  case True
  have "set (insert_unique (<) x xs) = insert x (set xs)" for x :: string and xs
    using by_value.keys_insert_unique[of x xs] by simp
  with True assms unique_loop_least[of 1 name taken] show ?thesis
    by (auto simp: createUniqueName_def Let_def)
qed (use assms in \<open>simp add: createUniqueName_def\<close>)

text \<open>Iterating over a list of strings with \<open>hasNext\<close> and \<open>next\<close> gives its strings in order, and
  never reads past the end.\<close>

lemma StringIterator_drains: "drain (length ss) (StringIterator ss) = Inr ss"
  unfolding StringIterator_def using drain_from[of ss 0 "length ss"] by simp

end
