(* ===== verification/Conjunction.thy ===== *)
theory Conjunction
  imports Solve Substitute Remap TupleDecl Util
begin

text \<open>
  Conjunctions of equalities (\<open>e = 0\<close>) and inequalities (\<open>e \<ge> 0\<close>) over the variables of a tuple
  declaration: the class \<open>Conjunction\<close> of \<open>IEGenLib/src/set_relation/set_relation.h\<close> and
  \<open>set_relation.cc\<close>. An object is a record, an operation that changes it returns the new one. The
  argument \<open>qinv\<close> of the operations that invert or collapse calls is \<open>queryInverseCurrEnv\<close> of the
  current environment.
\<close>

section \<open>State\<close>

record conjunction =
  mEqualities :: "exp list"
  mInequalities :: "exp list"
  mTupleDecl :: tuple_decl
  mInArity :: int
  unsat :: bool

definition Conjunction_of :: "tuple_decl \<Rightarrow> conjunction" where
  "Conjunction_of tdecl =
     \<lparr>mEqualities = [], mInequalities = [], mTupleDecl = tdecl, mInArity = 0, unsat = False\<rparr>"

definition Conjunction_new :: "nat \<Rightarrow> int \<Rightarrow> conjunction" where
  "Conjunction_new arity inarity = (Conjunction_of (TupleDecl_new arity))\<lparr>mInArity := inarity\<rparr>"

definition conj_arity :: "conjunction \<Rightarrow> nat" where
  "conj_arity c = length (mTupleDecl c)"

definition hasConstraints :: "conjunction \<Rightarrow> bool" where
  "hasConstraints c =
     (if length (mEqualities c) + length (mInequalities c) > 0 then True else False)"

definition setUnsat :: "conjunction \<Rightarrow> conjunction" where
  "setUnsat c = c\<lparr>unsat := True\<rparr>"

definition conj_less :: "conjunction \<Rightarrow> conjunction \<Rightarrow> bool" where
  "conj_less c other =
     (if tuple_decl_less (mTupleDecl c) (mTupleDecl other) then True
      else if tuple_decl_less (mTupleDecl other) (mTupleDecl c) then False
      else if length (mEqualities c) < length (mEqualities other) then True
      else if length (mEqualities other) < length (mEqualities c) then False
      else if length (mInequalities c) < length (mInequalities other) then True
      else if length (mInequalities other) < length (mInequalities c) then False
      else if list_less exp_less (mEqualities c) (mEqualities other) then True
      else if list_less exp_less (mEqualities other) (mEqualities c) then False
      else list_less exp_less (mInequalities c) (mInequalities other))"

section \<open>Adding constraints\<close>

definition addEquality :: "conjunction \<Rightarrow> exp \<Rightarrow> conjunction" where
  "addEquality c equality =
     (let e = normalizeForEquality equality in
      if equalsZero e then c
      else c\<lparr>mEqualities := insert_unique exp_less (setEquality e) (mEqualities c)\<rparr>)"

definition addInequality :: "conjunction \<Rightarrow> exp \<Rightarrow> conjunction" where
  "addInequality c inequality =
     (if equalsZero inequality then c
      else c\<lparr>mInequalities := insert_unique exp_less (setInequality inequality) (mInequalities c)\<rparr>)"

definition copyConstraintsFrom :: "conjunction \<Rightarrow> conjunction \<Rightarrow> conjunction" where
  "copyConstraintsFrom c source =
     c\<lparr>mEqualities := mEqualities c @ mEqualities source,
       mInequalities := mInequalities c @ mInequalities source\<rparr>"

definition cleanUp :: "(string \<Rightarrow> string) \<Rightarrow> conjunction \<Rightarrow> conjunction result" where
  "cleanUp qinv c =
     bind_result (map_result (\<lambda>e. collapse_exp qinv (normalizeForEquality e)) (mEqualities c)) (\<lambda>eqs.
       let c1 = foldl addEquality (c\<lparr>mEqualities := []\<rparr>) (filter (\<lambda>e. \<not> equalsZero e) eqs) in
       bind_result (map_result (collapse_exp qinv) (mInequalities c)) (\<lambda>ineqs.
         Inr (foldl addInequality (c1\<lparr>mInequalities := []\<rparr>) (filter (\<lambda>e. \<not> equalsZero e) ineqs))))"

definition substituteInConstraints ::
  "(string \<Rightarrow> string) \<Rightarrow> conjunction \<Rightarrow> sub_map \<Rightarrow> conjunction result" where
  "substituteInConstraints qinv c m =
     cleanUp qinv (c\<lparr>mEqualities := map (substitute m) (mEqualities c),
                     mInequalities := map (substitute m) (mInequalities c)\<rparr>)"

definition satisfiable :: "conjunction \<Rightarrow> bool" where
  "satisfiable c \<longleftrightarrow> \<not> list_ex isContradiction (mEqualities c)"

definition Conj_Intersect :: "conjunction \<Rightarrow> conjunction \<Rightarrow> conjunction" where
  "Conj_Intersect c rhs =
     foldl addInequality (foldl addEquality c (mEqualities rhs)) (mInequalities rhs)"

section \<open>Tuple declarations\<close>

definition setInArity :: "conjunction \<Rightarrow> int \<Rightarrow> conjunction result" where
  "setInArity c inarity =
     (if inarity < 0 \<or> inarity > int (conj_arity c) - 1
      then Inl (Assert_exception ''Conjunction::setInArity: impossible arity match'')
      else Inr (c\<lparr>mInArity := inarity\<rparr>))"

definition setTupleDecl :: "conjunction \<Rightarrow> tuple_decl \<Rightarrow> conjunction result" where
  "setTupleDecl c tuple_decl =
     bind_result
       (fold_result
         (\<lambda>td i.
            let mine = mTupleDecl c ! i; given = td ! i in
            if mIsConst mine \<and> mIsConst given \<and> elem_text mine \<noteq> elem_text given
            then Inl (Assert_exception ''Conjunction::setTupleDecl: constants don't match.'')
            else if mIsConst mine \<and> \<not> mIsConst given then Inr (td[i := mine])
            else Inr td)
         tuple_decl [0..<min (conj_arity c) (length tuple_decl)])
       (\<lambda>td. Inr (c\<lparr>mTupleDecl := td\<rparr>))"

definition setTupleDecl_inout :: "conjunction \<Rightarrow> tuple_decl \<Rightarrow> tuple_decl \<Rightarrow> conjunction result" where
  "setTupleDecl_inout c tuple_decl_in tuple_decl_out =
     setTupleDecl c (tuple_decl_concat tuple_decl_in tuple_decl_out)"

text \<open>
  The step of \<open>substituteTupleDecl\<close> for one element: a name seen before gives an equality of the two
  locations, a new name a substitution of the location for the name.
\<close>

definition subst_decl_step ::
  "conjunction \<times> (string, nat) std_map \<times> sub_map \<Rightarrow> nat \<Rightarrow>
     conjunction \<times> (string, nat) std_map \<times> sub_map" where
  "subst_decl_step st i =
     (case st of (c, nameToLocationMap, var2TupleVar) \<Rightarrow>
        let e = mTupleDecl c ! i; var = mVarString e in
        if mIsConst e then st
        else case std_find (<) var nameToLocationMap of
          Some l \<Rightarrow>
            (addEquality c (addTerm (addTerm empty_exp (TupleVarTerm 1 (int l))) (TupleVarTerm (-1) (int i))),
             nameToLocationMap, var2TupleVar)
        | None \<Rightarrow>
            (c, std_assign (<) var i nameToLocationMap,
             insertPair var2TupleVar i (VarTerm 1 var) (addTerm empty_exp (TupleVarTerm 1 (int i)))))"

definition substituteTupleDecl :: "(string \<Rightarrow> string) \<Rightarrow> conjunction \<Rightarrow> conjunction result" where
  "substituteTupleDecl qinv c =
     (case foldl subst_decl_step (c, [], []) [0..<conj_arity c] of
        (c1, _, m) \<Rightarrow>
          cleanUp qinv (c1\<lparr>mEqualities := map (substitute m) (mEqualities c1),
                           mInequalities := map (substitute m) (mInequalities c1)\<rparr>))"

definition push_const_step :: "conjunction \<Rightarrow> nat \<Rightarrow> conjunction" where
  "push_const_step c i =
     (let e = mTupleDecl c ! i; const_val = mConstVal e in
      if mIsConst e then
        addEquality
          (c\<lparr>mTupleDecl := (mTupleDecl c)[i := e\<lparr>mIsConst := False, mVarString := ''c_'' @ show_int const_val\<rparr>]\<rparr>)
          (addTerm (addTerm empty_exp (TupleVarTerm 1 (int i))) (Term (-1 * const_val)))
      else c)"

definition pushConstToConstraints :: "conjunction \<Rightarrow> conjunction" where
  "pushConstToConstraints c = foldl push_const_step c [0..<conj_arity c]"

text \<open>
  \<open>pushConstConstraintsToTupleDecl\<close>: the constants found for tuple locations and the equalities they
  were found in, one equality and one location at a time.
\<close>

definition const_of_solution :: "exp option \<Rightarrow> int option" where
  "const_of_solution solution =
     (case solution of
        None \<Rightarrow> None
      | Some s \<Rightarrow>
          if equalsZero s then Some 0
          else (case getTerm s of
                  Some t \<Rightarrow> if isConst_term t then Some (coefficient t) else None
                | None \<Rightarrow> None))"

definition push_eq_step ::
  "(string \<Rightarrow> string) \<Rightarrow> tuple_decl \<Rightarrow> exp \<Rightarrow> (nat, int) std_map \<times> exp list \<Rightarrow> nat \<Rightarrow>
     ((nat, int) std_map \<times> exp list) result" where
  "push_eq_step qinv decl e st i =
     (if mIsConst (decl ! i) then Inr st
      else bind_result (solveForFactor qinv e (TupleVarTerm 1 (int i))) (\<lambda>solution.
        case const_of_solution solution of
          None \<Rightarrow> Inr st
        | Some v \<Rightarrow> Inr (std_assign (<) i v (fst st), insert_unique exp_less e (snd st))))"

definition pushConstConstraintsToTupleDecl ::
  "(string \<Rightarrow> string) \<Rightarrow> conjunction \<Rightarrow> conjunction result" where
  "pushConstConstraintsToTupleDecl qinv c =
     bind_result
       (fold_result
         (\<lambda>st e. fold_result (push_eq_step qinv (mTupleDecl c) e) st [0..<conj_arity c])
         ([], []) (mEqualities c))
       (\<lambda>(tupleIndexToConst, equalitiesToRemove).
          Inr (c\<lparr>mTupleDecl :=
                   foldl (\<lambda>td q. td[fst q := (td ! fst q)\<lparr>mIsConst := True, mConstVal := snd q\<rparr>])
                     (mTupleDecl c) tupleIndexToConst,
                 mEqualities :=
                   filter (\<lambda>e. \<not> list_ex (incomparable exp_less e) equalitiesToRemove) (mEqualities c)\<rparr>))"

section \<open>Functions\<close>

text \<open>
  The search of \<open>findFunction\<close> and \<open>findAndRemoveFunction\<close>: the first equality with an acceptable
  solution, together with the equalities that remain when it is removed.
\<close>

fun find_function_eqs ::
  "(string \<Rightarrow> string) \<Rightarrow> nat \<Rightarrow> int \<Rightarrow> int \<Rightarrow> int \<Rightarrow> exp list \<Rightarrow> (exp \<times> exp list) option result" where
  "find_function_eqs qinv arity loc s e [] = Inr None"
| "find_function_eqs qinv arity loc s e (q # qs) =
     bind_result (solveForFactor qinv q (TupleVarTerm 1 loc)) (\<lambda>solution.
       let next = bind_result (find_function_eqs qinv arity loc s e qs) (\<lambda>r.
             Inr (map_option (\<lambda>(x, rest). (x, q # rest)) r))
       in case solution of
            None \<Rightarrow> next
          | Some x \<Rightarrow>
              if list_ex (\<lambda>j. \<not> (s \<le> int j \<and> int j \<le> e) \<and> dependsOn x (TupleVarTerm 1 (int j))) [0..<arity]
              then next else Inr (Some (x, qs)))"

definition findFunction ::
  "(string \<Rightarrow> string) \<Rightarrow> conjunction \<Rightarrow> nat \<Rightarrow> int \<Rightarrow> int \<Rightarrow> exp option result" where
  "findFunction qinv c tupleLocToFind startTupleRange endTupleRange =
     (if tupleLocToFind \<ge> conj_arity c then Inl (Undefined ''vector index out of bounds'')
      else if mIsConst (mTupleDecl c ! tupleLocToFind)
      then Inr (Some (addTerm empty_exp (Term (mConstVal (mTupleDecl c ! tupleLocToFind)))))
      else bind_result
        (find_function_eqs qinv (conj_arity c) (int tupleLocToFind) startTupleRange endTupleRange (mEqualities c))
        (\<lambda>r. Inr (map_option fst r)))"

definition findAndRemoveFunction ::
  "(string \<Rightarrow> string) \<Rightarrow> conjunction \<Rightarrow> nat \<Rightarrow> int \<Rightarrow> int \<Rightarrow> (exp option \<times> conjunction) result" where
  "findAndRemoveFunction qinv c tupleLocToFind startTupleRange endTupleRange =
     (if tupleLocToFind \<ge> conj_arity c then Inl (Undefined ''vector index out of bounds'')
      else if mIsConst (mTupleDecl c ! tupleLocToFind)
      then Inr (Some (addTerm empty_exp (Term (mConstVal (mTupleDecl c ! tupleLocToFind)))), c)
      else bind_result
        (find_function_eqs qinv (conj_arity c) (int tupleLocToFind) startTupleRange endTupleRange (mEqualities c))
        (\<lambda>r. case r of
               None \<Rightarrow> Inr (None, c)
             | Some (x, rest) \<Rightarrow> Inr (Some x, c\<lparr>mEqualities := rest\<rparr>)))"

text \<open>All locations of a list have a function; the first without one ends the search.\<close>

fun all_functions ::
  "(string \<Rightarrow> string) \<Rightarrow> conjunction \<Rightarrow> int \<Rightarrow> int \<Rightarrow> nat list \<Rightarrow> bool result" where
  "all_functions qinv c s e [] = Inr True"
| "all_functions qinv c s e (i # is) =
     bind_result (findFunction qinv c i s e) (\<lambda>funcExp.
       if funcExp = None then Inr False else all_functions qinv c s e is)"

definition conj_isFunction :: "(string \<Rightarrow> string) \<Rightarrow> conjunction \<Rightarrow> nat \<Rightarrow> bool result" where
  "conj_isFunction qinv c inArity =
     all_functions qinv c 0 (int inArity - 1) [inArity..<conj_arity c]"

definition conj_isFunctionInverse :: "(string \<Rightarrow> string) \<Rightarrow> conjunction \<Rightarrow> nat \<Rightarrow> bool result" where
  "conj_isFunctionInverse qinv c inArity =
     all_functions qinv c (int inArity) (int (conj_arity c) - 1) [0..<inArity]"

section \<open>Renaming and inverse\<close>

definition conj_remapTupleVars :: "conjunction \<Rightarrow> int list \<Rightarrow> conjunction result" where
  "conj_remapTupleVars c oldToNewLocs =
     bind_result (map_result (remapTupleVars oldToNewLocs) (mEqualities c)) (\<lambda>eqs.
     bind_result (map_result (remapTupleVars oldToNewLocs) (mInequalities c)) (\<lambda>ineqs.
       let maxLoc = foldl (\<lambda>m l. if l > m then l else m) (-1) oldToNewLocs in
       bind_result
         (fold_result
           (\<lambda>newDecl i. if oldToNewLocs ! i \<ge> 0
              then copyTupleElem newDecl (mTupleDecl c) i (nat (oldToNewLocs ! i)) else Inr newDecl)
           (TupleDecl_new (nat (maxLoc + 1))) [0..<length oldToNewLocs])
         (\<lambda>newDecl. Inr (c\<lparr>mEqualities := map normalizeForEquality eqs, mInequalities := ineqs,
                            mTupleDecl := newDecl\<rparr>))))"

definition conj_Inverse :: "conjunction \<Rightarrow> conjunction result" where
  "conj_Inverse c =
     (if mInArity c < 0 \<or> mInArity c > int (conj_arity c)
      then Inl (Undefined ''vector index out of bounds'')
      else
        let outArity = nat (int (conj_arity c) - mInArity c);
            oldToNewLocs = map int [outArity..<conj_arity c] @ map int [0..<outArity]
        in conj_remapTupleVars (c\<lparr>mInArity := int outArity\<rparr>) oldToNewLocs)"

definition conj_boundTupleExp ::
  "(string \<Rightarrow> string) \<Rightarrow> conjunction \<Rightarrow> exp option list \<Rightarrow> conjunction result" where
  "conj_boundTupleExp qinv c tuple_exp =
     (if length tuple_exp \<noteq> conj_arity c
      then Inl (Assert_exception (''Conjunction::boundTupleExp tuple_exp arity '' @
             ''does not match that of Conjunction''))
      else
        let dup = pushConstToConstraints c;
            retval = copyConstraintsFrom (Conjunction_new 0 0) dup
        in bind_result
             (fold_result
               (\<lambda>submap i. bind_result (elemCreateTerm (mTupleDecl dup) i i) (\<lambda>t.
                  case tuple_exp ! i of
                    None \<Rightarrow> Inl (Assert_exception ''TupleExpTerm::cloneExp: NULL exp'')
                  | Some elemExp \<Rightarrow> Inr (insertPair submap i t elemExp)))
               [] [0..<length tuple_exp])
             (\<lambda>submap. substituteInConstraints qinv retval submap))"

section \<open>Printing\<close>

definition conj_toString :: "conjunction \<Rightarrow> string" where
  "conj_toString c =
     (let parts = map (\<lambda>e. toString_exp e @ '' = 0'') (mEqualities c)
                  @ map (\<lambda>e. toString_exp e @ '' >= 0'') (mInequalities c)
      in ''{ '' @ tuple_decl_toString (mTupleDecl c) True (nat (mInArity c)) @
         concat (map (\<lambda>(k, p). (if k > (0::nat) then '' && '' else '' : '') @ p)
           (zip [0..<length parts] parts)) @ '' }'')"

end
