(* ===== verification/Conj_Apply.thy ===== *)
theory Conj_Apply
  imports Conjunction
begin

text \<open>
  \<open>Conjunction::Compose\<close> and \<open>Conjunction::Apply\<close> of \<open>set_relation.cc\<close>. Both put the constraints of
  the two operands side by side over one tuple, solve for the variables that go away, substitute
  the solutions everywhere and cut the tuple declaration. A location without a solution is left out
  of the substitution map, as a null entry of the map of the source is never used.
\<close>

section \<open>Parts shared by the two\<close>

definition shift_conj :: "conjunction \<Rightarrow> int list \<Rightarrow> conjunction result" where
  "shift_conj c shift = conj_remapTupleVars (pushConstToConstraints c) shift"

text \<open>One entry of the substitution map per location: its variable and its function.\<close>

definition solve_locs ::
  "(string \<Rightarrow> string) \<Rightarrow> conjunction \<Rightarrow> int \<Rightarrow> int \<Rightarrow> nat list \<Rightarrow> sub_map result" where
  "solve_locs qinv c startRange endRange locs =
     fold_result
       (\<lambda>m i. bind_result (elemCreateTerm (mTupleDecl c) i i) (\<lambda>t.
          bind_result (findFunction qinv c i startRange endRange) (\<lambda>f.
            Inr (case f of None \<Rightarrow> m | Some x \<Rightarrow> insertPair m i t x))))
       [] locs"

text \<open>The declaration of the first \<open>n\<close> locations.\<close>

definition truncate_decl :: "tuple_decl \<Rightarrow> nat \<Rightarrow> tuple_decl result" where
  "truncate_decl td n =
     fold_result (\<lambda>final_tdecl i. copyTupleElem final_tdecl td i i) (TupleDecl_new n) [0..<n]"

section \<open>Compose\<close>

definition show_bool :: "bool \<Rightarrow> string" where
  "show_bool b = (if b then ''1'' else ''0'')"

definition compose_shift_lhs :: "nat \<Rightarrow> nat \<Rightarrow> nat \<Rightarrow> int list" where
  "compose_shift_lhs inA outA inner =
     map (\<lambda>i. int (i + inA + outA)) [0..<inner] @ map (\<lambda>j. int (j + inA)) [0..<outA]"

definition compose_shift_rhs :: "nat \<Rightarrow> nat \<Rightarrow> nat \<Rightarrow> int list" where
  "compose_shift_rhs inA outA inner =
     map int [0..<inA] @ map (\<lambda>j. int (j + inA + outA)) [0..<inner]"

text \<open>The tuple declaration of the result: inputs of the right, outputs of the left with fresh names.\<close>

definition compose_decl ::
  "tuple_decl \<Rightarrow> tuple_decl \<Rightarrow> tuple_decl \<Rightarrow> nat \<Rightarrow> nat \<Rightarrow> tuple_decl result" where
  "compose_decl td lhs_decl rhs_decl inA outA =
     bind_result
       (fold_result
         (\<lambda>(td, takenNames) i.
            bind_result (copyTupleElem td rhs_decl i i) (\<lambda>td.
            bind_result (elemVarString td i) (\<lambda>s. Inr (td, insert_unique (<) s takenNames))))
         (td, []) [0..<inA])
       (\<lambda>(td, takenNames).
          bind_result
            (fold_result
              (\<lambda>(td, takenNames) i.
                 bind_result (elemVarString lhs_decl (inA + i)) (\<lambda>s.
                   case createUniqueName s takenNames of
                     (name, takenNames) \<Rightarrow>
                       bind_result (setTupleElem_var td (inA + i) name) (\<lambda>td. Inr (td, takenNames))))
              (td, takenNames) [0..<outA])
            (\<lambda>(td, takenNames). Inr td))"

text \<open>Both operands over the tuple of inputs, outputs and inner variables.\<close>

definition compose_joined :: "conjunction \<Rightarrow> conjunction \<Rightarrow> nat \<Rightarrow> conjunction result" where
  "compose_joined lhs rhs innerArity =
     (let inA = conj_arity rhs - innerArity;
          outA = conj_arity lhs - innerArity;
          result = (Conjunction_new (inA + outA + innerArity) 0)\<lparr>mInArity := int inA\<rparr>
      in bind_result (shift_conj lhs (compose_shift_lhs inA outA innerArity)) (\<lambda>lhs_copy.
         bind_result (shift_conj rhs (compose_shift_rhs inA outA innerArity)) (\<lambda>rhs_copy.
         bind_result
           (compose_decl (mTupleDecl result) (mTupleDecl lhs_copy) (mTupleDecl rhs_copy) inA outA)
           (\<lambda>td. Inr ((copyConstraintsFrom (copyConstraintsFrom result rhs_copy) lhs_copy)\<lparr>mTupleDecl := td\<rparr>)))))"

definition compose_range :: "bool \<Rightarrow> nat \<Rightarrow> nat \<Rightarrow> int \<times> int" where
  "compose_range functions inA outA =
     (if functions then (0, int inA - 1) else (int inA, int (inA + outA) - 1))"

definition conj_Compose ::
  "(string \<Rightarrow> string) \<Rightarrow> conjunction \<Rightarrow> conjunction \<Rightarrow> nat \<Rightarrow> conjunction result" where
  "conj_Compose qinv lhs rhs innerArity =
     (if innerArity > conj_arity lhs \<or> innerArity > conj_arity rhs
      then Inl (Undefined ''negative vector size'')
      else
        let inA = conj_arity rhs - innerArity; outA = conj_arity lhs - innerArity in
        bind_result (conj_isFunction qinv lhs innerArity) (\<lambda>lhsIsFunction.
        bind_result (conj_isFunction qinv rhs inA) (\<lambda>rhsIsFunction.
        bind_result (conj_isFunctionInverse qinv lhs innerArity) (\<lambda>lhsIsFunctionInverse.
        bind_result (conj_isFunctionInverse qinv rhs inA) (\<lambda>rhsIsFunctionInverse.
          if \<not> (lhsIsFunction \<and> rhsIsFunction \<or> lhsIsFunctionInverse \<and> rhsIsFunctionInverse)
          then Inl (Assert_exception (''Conjunction::Compose: both relations are '' @
                 ''required to be a function or a function '' @ ''inverse: lhsIsFunction:'' @
                 show_bool lhsIsFunction @ '' lhsIsFunctionInverse:'' @ show_bool lhsIsFunctionInverse @
                 '' rhsIsFunction:'' @ show_bool rhsIsFunction @
                 '' rhsIsFunctionInverse:'' @ show_bool rhsIsFunctionInverse))
          else
            bind_result (compose_joined lhs rhs innerArity) (\<lambda>result.
            let rng = compose_range (lhsIsFunction \<and> rhsIsFunction) inA outA in
            bind_result
              (solve_locs qinv result (fst rng) (snd rng) [inA + outA..<inA + outA + innerArity]) (\<lambda>submap.
            bind_result (substituteInConstraints qinv result submap) (\<lambda>result.
            bind_result (truncate_decl (mTupleDecl result) (inA + outA)) (\<lambda>final_tdecl.
            bind_result (setTupleDecl result final_tdecl) (\<lambda>result.
              pushConstConstraintsToTupleDecl qinv result))))))))))"

section \<open>Apply\<close>

definition apply_shift_lhs :: "nat \<Rightarrow> nat \<Rightarrow> int list" where
  "apply_shift_lhs inA outA = map (\<lambda>i. int (i + outA)) [0..<inA] @ map int [0..<outA]"

definition apply_joined :: "conjunction \<Rightarrow> conjunction \<Rightarrow> conjunction result" where
  "apply_joined lhs rhs =
     (let inA = conj_arity rhs; outA = conj_arity lhs - inA
      in bind_result
           (conj_remapTupleVars ((pushConstToConstraints lhs)\<lparr>mInArity := int outA\<rparr>) (apply_shift_lhs inA outA))
           (\<lambda>result.
         bind_result (shift_conj rhs (map (\<lambda>i. int (i + outA)) [0..<inA])) (\<lambda>rhs_copy.
           Inr (copyConstraintsFrom result rhs_copy))))"

definition conj_Apply :: "(string \<Rightarrow> string) \<Rightarrow> conjunction \<Rightarrow> conjunction \<Rightarrow> conjunction result" where
  "conj_Apply qinv lhs rhs =
     bind_result (conj_isFunctionInverse qinv lhs (conj_arity rhs)) (\<lambda>lhsIsFunctionInverse.
       if \<not> lhsIsFunctionInverse
       then Inl (Assert_exception ''Conjunction::Apply: Relation not invertible'')
       else
         let outA = conj_arity lhs - conj_arity rhs in
         bind_result (apply_joined lhs rhs) (\<lambda>result.
         bind_result (solve_locs qinv result 0 (int outA - 1) [outA..<conj_arity result]) (\<lambda>submap.
         bind_result (substituteInConstraints qinv result submap) (\<lambda>result.
         bind_result (truncate_decl (mTupleDecl result) outA) (\<lambda>final_tdecl.
           pushConstConstraintsToTupleDecl qinv (copyConstraintsFrom (Conjunction_of final_tdecl) result))))))"

end
