(* ===== verification/Sets.thy ===== *)
theory Sets
  imports Conj_Apply
begin

text \<open>
  Sets and relations: the classes \<open>SparseConstraints\<close>, \<open>Set\<close> and \<open>Relation\<close> of \<open>set_relation.h\<close> and
  \<open>set_relation.cc\<close>. The base class is the list of its conjunctions; a set adds its arity and a
  relation its two arities. Copying an object of these classes is an operation of its own: it adds
  the conjunctions one by one to an empty object and cleans up.
\<close>

section \<open>Lists of conjunctions\<close>

type_synonym sparse = "conjunction list"

definition sparse_list_less :: "sparse \<Rightarrow> sparse \<Rightarrow> bool" where
  "sparse_list_less cs other =
     (if length cs < length other then True
      else if length other < length cs then False
      else list_less conj_less cs other)"

definition sparse_addConjunction :: "sparse \<Rightarrow> conjunction \<Rightarrow> sparse" where
  "sparse_addConjunction cs adopted =
     insert_unique conj_less adopted
       (if length cs = 1 \<and> \<not> hasConstraints (hd cs) then [] else cs)"

text \<open>The sort of \<open>std::list\<close> is stable.\<close>

fun stable_insert :: "('a \<Rightarrow> 'a \<Rightarrow> bool) \<Rightarrow> 'a \<Rightarrow> 'a list \<Rightarrow> 'a list" where
  "stable_insert lt x [] = [x]"
| "stable_insert lt x (y # ys) = (if lt x y then x # y # ys else y # stable_insert lt x ys)"

definition list_sort :: "('a \<Rightarrow> 'a \<Rightarrow> bool) \<Rightarrow> 'a list \<Rightarrow> 'a list" where
  "list_sort lt xs = foldl (\<lambda>acc x. stable_insert lt x acc) [] xs"

definition sparse_cleanUp :: "(string \<Rightarrow> string) \<Rightarrow> sparse \<Rightarrow> sparse result" where
  "sparse_cleanUp qinv cs =
     bind_result (map_result (cleanUp qinv) cs) (\<lambda>cs.
       Inr (list_sort conj_less (filter satisfiable cs)))"

definition sparse_copy :: "(string \<Rightarrow> string) \<Rightarrow> sparse \<Rightarrow> sparse result" where
  "sparse_copy qinv other = sparse_cleanUp qinv (foldl sparse_addConjunction [] other)"

text \<open>The operator of the source compares copies where it is called on sets and relations.\<close>

definition sparse_less :: "(string \<Rightarrow> string) \<Rightarrow> sparse \<Rightarrow> sparse \<Rightarrow> bool result" where
  "sparse_less qinv cs other =
     bind_result (sparse_copy qinv cs) (\<lambda>a. bind_result (sparse_copy qinv other) (\<lambda>b.
       Inr (sparse_list_less a b)))"

definition sparse_setTupleDecl :: "sparse \<Rightarrow> tuple_decl \<Rightarrow> sparse result" where
  "sparse_setTupleDecl cs tuple_decl = map_result (\<lambda>c. setTupleDecl c tuple_decl) cs"

definition sparse_setTupleDecl_inout :: "sparse \<Rightarrow> tuple_decl \<Rightarrow> tuple_decl \<Rightarrow> sparse result" where
  "sparse_setTupleDecl_inout cs tuple_decl_in tuple_decl_out =
     map_result (\<lambda>c. setTupleDecl_inout c tuple_decl_in tuple_decl_out) cs"

definition sparse_getTupleDecl :: "sparse \<Rightarrow> tuple_decl result" where
  "sparse_getTupleDecl cs =
     (case cs of [] \<Rightarrow> Inl (Undefined ''front of an empty list'') | c # _ \<Rightarrow> Inr (mTupleDecl c))"

definition sparse_substituteInConstraints ::
  "(string \<Rightarrow> string) \<Rightarrow> sparse \<Rightarrow> sub_map \<Rightarrow> sparse result" where
  "sparse_substituteInConstraints qinv cs m =
     (if list_ex (\<lambda>q. isConst_term (fst (snd q))) m
      then Inl (Assert_exception (''SparseConstraints::substituteInConstraints:'' @
             '' at least one Term in map is a constant, not allowed''))
      else map_result (\<lambda>c. substituteInConstraints qinv c m) cs)"

definition sparse_remapTupleVars :: "sparse \<Rightarrow> int list \<Rightarrow> sparse result" where
  "sparse_remapTupleVars cs oldToNewLocs = map_result (\<lambda>c. conj_remapTupleVars c oldToNewLocs) cs"

text \<open>The result is a \<open>std::set\<close> of expressions.\<close>

definition sparse_constraintsDifference :: "sparse \<Rightarrow> sparse \<Rightarrow> exp list result" where
  "sparse_constraintsDifference cs A =
     (if length cs \<noteq> 1
      then Inl (Assert_exception (''constraintsDifference:: '' @ ''more than one Conjunction in Relation''))
      else case A of
          [] \<Rightarrow> Inl (Undefined ''front of an empty list'')
        | conjA # _ \<Rightarrow>
            let conjB = hd cs;
                diff = (\<lambda>bs as acc. foldl (\<lambda>s b. if list_ex (exp_eq b) as then s else insert_unique exp_less b s) acc bs)
            in Inr (diff (mInequalities conjB) (mInequalities conjA)
                 (diff (mEqualities conjB) (mEqualities conjA) [])))"

definition sparse_toString :: "sparse \<Rightarrow> nat \<Rightarrow> nat \<Rightarrow> string result" where
  "sparse_toString cs arity aritySplit =
     (if cs = []
      then bind_result (sDefaultTupleDecl arity) (\<lambda>td.
             Inr (''{ '' @ tuple_decl_toString td True aritySplit @ '' : FALSE }''))
      else Inr (concat (map (\<lambda>(i, c). (if i > (0::nat) then '' union '' else '''') @ conj_toString c)
             (zip [0..<length cs] cs))))"

section \<open>Sets\<close>

record set_object =
  mConjunctions :: sparse
  mArity :: nat

definition Set_new :: "nat \<Rightarrow> set_object result" where
  "Set_new arity =
     bind_result (sDefaultTupleDecl arity) (\<lambda>td.
       Inr \<lparr>mConjunctions = sparse_addConjunction [] (Conjunction_of td), mArity = arity\<rparr>)"

definition Set_of_decl :: "tuple_decl \<Rightarrow> set_object" where
  "Set_of_decl tdecl =
     \<lparr>mConjunctions = sparse_addConjunction [] (Conjunction_of tdecl), mArity = length tdecl\<rparr>"

definition Set_copy :: "(string \<Rightarrow> string) \<Rightarrow> set_object \<Rightarrow> set_object result" where
  "Set_copy qinv other =
     bind_result (sparse_copy qinv (mConjunctions other)) (\<lambda>cs.
       Inr \<lparr>mConjunctions = cs, mArity = mArity other\<rparr>)"

definition Set_addConjunction :: "set_object \<Rightarrow> conjunction \<Rightarrow> set_object" where
  "Set_addConjunction s adopted = s\<lparr>mConjunctions := sparse_addConjunction (mConjunctions s) adopted\<rparr>"

definition Set_less :: "(string \<Rightarrow> string) \<Rightarrow> set_object \<Rightarrow> set_object \<Rightarrow> bool result" where
  "Set_less qinv s other =
     (if mArity s < mArity other then Inr True
      else if mArity s > mArity other then Inr False
      else sparse_less qinv (mConjunctions s) (mConjunctions other))"

definition Set_eq :: "(string \<Rightarrow> string) \<Rightarrow> set_object \<Rightarrow> set_object \<Rightarrow> bool result" where
  "Set_eq qinv s other =
     bind_result (Set_less qinv s other) (\<lambda>below.
       if below then Inr False
       else bind_result (Set_less qinv other s) (\<lambda>above. if above then Inr False else Inr True))"

definition Set_setTupleDecl :: "set_object \<Rightarrow> tuple_decl \<Rightarrow> set_object result" where
  "Set_setTupleDecl s tuple_decl =
     bind_result (sparse_setTupleDecl (mConjunctions s) tuple_decl) (\<lambda>cs.
       Inr \<lparr>mConjunctions = cs, mArity = length tuple_decl\<rparr>)"

definition Set_Union :: "set_object \<Rightarrow> set_object \<Rightarrow> set_object result" where
  "Set_Union s rhs =
     (if mArity rhs \<noteq> mArity s then Inl (Assert_exception ''Set::Union: mismatched arities'')
      else
        bind_result (Set_new (mArity s)) (\<lambda>result.
          let result = (if length (mConjunctions result) = 1 \<and> \<not> hasConstraints (hd (mConjunctions result))
                        then result\<lparr>mConjunctions := []\<rparr> else result)
          in Inr (foldl Set_addConjunction (foldl Set_addConjunction result (mConjunctions s)) (mConjunctions rhs))))"

definition Set_Intersect :: "set_object \<Rightarrow> set_object \<Rightarrow> set_object result" where
  "Set_Intersect s rhs =
     (if mArity rhs \<noteq> mArity s then Inl (Assert_exception ''Set::Intersect: mismatched arities'')
      else
        bind_result (Set_new (mArity s)) (\<lambda>result.
          Inr (foldl (\<lambda>result i.
                 foldl (\<lambda>result j. Set_addConjunction result (Conj_Intersect i j)) result (mConjunctions rhs))
               result (mConjunctions s))))"

definition Set_boundTupleExp :: "(string \<Rightarrow> string) \<Rightarrow> set_object \<Rightarrow> exp option list \<Rightarrow> set_object result" where
  "Set_boundTupleExp qinv s tuple_exp =
     bind_result (Set_new 0) (\<lambda>result.
       fold_result (\<lambda>result c.
         bind_result (conj_boundTupleExp qinv c tuple_exp) (\<lambda>b. Inr (Set_addConjunction result b)))
       result (mConjunctions s))"

section \<open>Relations\<close>

record relation_object =
  rConjunctions :: sparse
  rInArity :: nat
  rOutArity :: nat

definition Relation_new :: "nat \<Rightarrow> nat \<Rightarrow> relation_object" where
  "Relation_new inArity outArity = \<lparr>rConjunctions = [], rInArity = inArity, rOutArity = outArity\<rparr>"

definition Relation_addConjunction :: "relation_object \<Rightarrow> conjunction \<Rightarrow> relation_object result" where
  "Relation_addConjunction r adopted =
     (if mInArity adopted \<noteq> int (rInArity r)
      then Inl (Assert_exception ''Relation::addConjunction: mismatched arities'')
      else Inr (r\<lparr>rConjunctions := sparse_addConjunction (rConjunctions r) adopted\<rparr>))"

definition Relation_addConjunctions :: "relation_object \<Rightarrow> sparse \<Rightarrow> relation_object result" where
  "Relation_addConjunctions r cs = fold_result Relation_addConjunction r cs"

definition Relation_cleanUp :: "(string \<Rightarrow> string) \<Rightarrow> relation_object \<Rightarrow> relation_object result" where
  "Relation_cleanUp qinv r =
     bind_result (sparse_cleanUp qinv (rConjunctions r)) (\<lambda>cs. Inr (r\<lparr>rConjunctions := cs\<rparr>))"

definition Relation_copy :: "(string \<Rightarrow> string) \<Rightarrow> relation_object \<Rightarrow> relation_object result" where
  "Relation_copy qinv other =
     bind_result (Relation_addConjunctions (Relation_new (rInArity other) (rOutArity other)) (rConjunctions other))
       (Relation_cleanUp qinv)"

text \<open>\<open>Relation::operator=(const Set&)\<close>: the relation keeps its input arity.\<close>

definition Relation_of_set :: "(string \<Rightarrow> string) \<Rightarrow> relation_object \<Rightarrow> set_object \<Rightarrow> relation_object result" where
  "Relation_of_set qinv r other =
     (if rInArity r \<ge> mArity other
      then Inl (Assert_exception (''Relation::operator=(Set): '' @ ''impossible arity match''))
      else
        bind_result
          (fold_result
            (\<lambda>r c. bind_result
               (setTupleDecl (Conjunction_new (conj_arity c) (int (rInArity r))) (mTupleDecl c)) (\<lambda>c'.
                  Relation_addConjunction r (copyConstraintsFrom c' c)))
            \<lparr>rConjunctions = [], rInArity = rInArity r, rOutArity = mArity other - rInArity r\<rparr>
            (mConjunctions other))
          (Relation_cleanUp qinv))"

definition Relation_less :: "(string \<Rightarrow> string) \<Rightarrow> relation_object \<Rightarrow> relation_object \<Rightarrow> bool result" where
  "Relation_less qinv r other =
     (if rInArity r < rInArity other then Inr True
      else if rInArity r > rInArity other then Inr False
      else if rOutArity r < rOutArity other then Inr True
      else if rOutArity r > rOutArity other then Inr False
      else sparse_less qinv (rConjunctions r) (rConjunctions other))"

definition Relation_eq :: "(string \<Rightarrow> string) \<Rightarrow> relation_object \<Rightarrow> relation_object \<Rightarrow> bool result" where
  "Relation_eq qinv r other =
     bind_result (Relation_less qinv r other) (\<lambda>below.
       if below then Inr False
       else bind_result (Relation_less qinv other r) (\<lambda>above. if above then Inr False else Inr True))"

definition Relation_setTupleDecl :: "relation_object \<Rightarrow> tuple_decl \<Rightarrow> relation_object result" where
  "Relation_setTupleDecl r tuple_decl =
     (if length tuple_decl < rInArity r then Inl (Undefined ''negative arity'')
      else bind_result (sparse_setTupleDecl (rConjunctions r) tuple_decl) (\<lambda>cs.
             Inr (r\<lparr>rConjunctions := cs, rOutArity := length tuple_decl - rInArity r\<rparr>)))"

definition Relation_Compose ::
  "(string \<Rightarrow> string) \<Rightarrow> relation_object \<Rightarrow> relation_object \<Rightarrow> relation_object result" where
  "Relation_Compose qinv r rhs =
     (if rOutArity rhs \<noteq> rInArity r then Inl (Assert_exception ''Relation::Compose: mismatched arities'')
      else
        bind_result
          (fold_result
            (\<lambda>result l. fold_result
               (\<lambda>result r'. bind_result (conj_Compose qinv l r' (rOutArity rhs)) (Relation_addConjunction result))
               result (rConjunctions rhs))
            (Relation_new (rInArity rhs) (rOutArity r)) (rConjunctions r))
          (Relation_cleanUp qinv))"

definition Relation_Apply ::
  "(string \<Rightarrow> string) \<Rightarrow> relation_object \<Rightarrow> set_object \<Rightarrow> set_object result" where
  "Relation_Apply qinv r rhs =
     (if mArity rhs \<noteq> rInArity r then Inl (Assert_exception ''Relation::Apply: mismatched arities'')
      else
        bind_result (Set_new (rOutArity r)) (\<lambda>result.
        bind_result
          (fold_result
            (\<lambda>result l. fold_result
               (\<lambda>result s. bind_result (conj_Apply qinv l s) (\<lambda>c. Inr (Set_addConjunction result c)))
               result (mConjunctions rhs))
            result (rConjunctions r))
          (\<lambda>result. bind_result (sparse_cleanUp qinv (mConjunctions result)) (\<lambda>cs.
             Inr (result\<lparr>mConjunctions := cs\<rparr>)))))"

definition Relation_Union :: "relation_object \<Rightarrow> relation_object \<Rightarrow> relation_object result" where
  "Relation_Union r rhs =
     (if rInArity rhs \<noteq> rInArity r \<or> rOutArity rhs \<noteq> rOutArity r
      then Inl (Assert_exception ''Relation::Union: mismatched arities'')
      else bind_result (Relation_addConjunctions (Relation_new (rInArity r) (rOutArity r)) (rConjunctions r)) (\<lambda>result.
             Relation_addConjunctions result (rConjunctions rhs)))"

definition Relation_Intersect :: "relation_object \<Rightarrow> relation_object \<Rightarrow> relation_object result" where
  "Relation_Intersect r rhs =
     (if rInArity rhs \<noteq> rInArity r \<or> rOutArity rhs \<noteq> rOutArity r
      then Inl (Assert_exception ''Relation::Union: mismatched arities'')
      else fold_result
             (\<lambda>result i. Relation_addConjunctions result (map (Conj_Intersect i) (rConjunctions rhs)))
             (Relation_new (rInArity r) (rOutArity r)) (rConjunctions r))"

definition Relation_Inverse :: "(string \<Rightarrow> string) \<Rightarrow> relation_object \<Rightarrow> relation_object result" where
  "Relation_Inverse qinv r =
     bind_result
       (fold_result (\<lambda>result c. bind_result (conj_Inverse c) (Relation_addConjunction result))
         (Relation_new (rOutArity r) (rInArity r)) (rConjunctions r))
       (Relation_cleanUp qinv)"

text \<open>The test of one conjunction is not made once another has failed.\<close>

definition Relation_isFunction :: "(string \<Rightarrow> string) \<Rightarrow> relation_object \<Rightarrow> bool result" where
  "Relation_isFunction qinv r =
     fold_result (\<lambda>result c. if result then conj_isFunction qinv c (rInArity r) else Inr False) True (rConjunctions r)"

definition Relation_isFunctionInverse :: "(string \<Rightarrow> string) \<Rightarrow> relation_object \<Rightarrow> bool result" where
  "Relation_isFunctionInverse qinv r =
     fold_result (\<lambda>result c. if result then conj_isFunctionInverse qinv c (rInArity r) else Inr False) True
       (rConjunctions r)"

definition Relation_findFunction ::
  "(string \<Rightarrow> string) \<Rightarrow> relation_object \<Rightarrow> nat \<Rightarrow> int \<Rightarrow> int \<Rightarrow> exp option result" where
  "Relation_findFunction qinv r tupleLocToFind startTupleRange endTupleRange =
     (if length (rConjunctions r) \<noteq> 1
      then Inl (Assert_exception ''more than one Conjunction in Relation'')
      else findFunction qinv (hd (rConjunctions r)) tupleLocToFind startTupleRange endTupleRange)"

end
