(* ===== verification/Exp_Facts.thy ===== *)
theory Exp_Facts
  imports Exp_Canonical
begin

text \<open>
  The properties of terms and expressions that the theories on printing, order, semantics and
  canonical form establish, and what the queries \<open>dependsOn\<close>, \<open>isContradiction\<close> and
  \<open>cloneIndexedUFCallTerm\<close> answer.
\<close>

section \<open>Dependence\<close>

text \<open>Two interpretations that differ in the variable \<open>x\<close> only.\<close>

definition same_but :: "trm \<Rightarrow> interp \<Rightarrow> interp \<Rightarrow> bool" where
  "same_but x I J \<longleftrightarrow> uf I = uf J
     \<and> (\<forall>l. \<not> factorMatches (TupleVarTerm 1 l) x \<longrightarrow> tv I l = tv J l)
     \<and> (\<forall>s. \<not> factorMatches (VarTerm 1 s) x \<longrightarrow> sym I s = sym J s)"

lemma factor_ignores_coefficient:
  "factorMatches (TupleVarTerm c l) x = factorMatches (TupleVarTerm 1 l) x"
  "factorMatches (VarTerm c s) x = factorMatches (VarTerm 1 s) x"
  by (cases x; simp add: factorMatches_def)+

lemma not_dependsOn_eval:
  "same_but x I J \<Longrightarrow> \<not> dependsOn_trm t x \<Longrightarrow> eval_trm I t = eval_trm J t"
  "same_but x I J \<Longrightarrow> \<not> dependsOn e x \<Longrightarrow> eval_exp I e = eval_exp J e"
proof (induction t and e rule: trm.induct exp.induct)
  case (VarTerm c s)
  then show ?case using factor_ignores_coefficient(2)[of c s x] by (auto simp: same_but_def)
next
  case (TupleVarTerm c l)
  then show ?case using factor_ignores_coefficient(1)[of c l x] by (auto simp: same_but_def)
next
  case (UFCallTerm c f es i)
  from UFCallTerm.prems(2) have "\<not> list_ex (\<lambda>a. dependsOn a x) es" by (auto split: if_splits)
  with UFCallTerm have "map (eval_exp I) es = map (eval_exp J) es" by (auto simp: list_ex_iff)
  then have "uf I f (tupleIndex i) (map (eval_exp I) es) = uf I f (tupleIndex i) (map (eval_exp J) es)"
    by (rule arg_cong)
  with UFCallTerm.prems(1) show ?case by (simp add: same_but_def)
next
  case (Exp ts et)
  then have "map (eval_trm I) ts = map (eval_trm J) ts" by (auto simp: list_ex_iff)
  then show ?case by (simp only: eval_exp.simps)
qed simp

section \<open>Indexed calls\<close>

primrec indexed_call :: "trm \<Rightarrow> bool" where
  "indexed_call (UFCallTerm c f args i) = isIndexed i"
| "indexed_call (Term c) = False"
| "indexed_call (VarTerm c s) = False"
| "indexed_call (TupleVarTerm c l) = False"

abbreviation clone_step :: "trm option \<Rightarrow> trm \<Rightarrow> trm option result" where
  "clone_step retval t \<equiv>
     (if indexed_call t then
        (case retval of
           Some r \<Rightarrow> Inl (Assert_exception
             ''Exp::getIndexedUFCallTerm: more than one indexed UFCallTerm in expression'')
         | None \<Rightarrow> Inr (Some t))
      else Inr retval)"

lemma clone_fold:
  "fold_result clone_step acc ts =
     (case filter indexed_call ts of
        [] \<Rightarrow> Inr acc
      | [t] \<Rightarrow> (case acc of None \<Rightarrow> Inr (Some t) | Some r \<Rightarrow> Inl (Assert_exception
             ''Exp::getIndexedUFCallTerm: more than one indexed UFCallTerm in expression''))
      | _ \<Rightarrow> Inl (Assert_exception
             ''Exp::getIndexedUFCallTerm: more than one indexed UFCallTerm in expression''))"
  by (induction ts arbitrary: acc) (auto split: option.splits list.splits)

lemma cloneIndexedUFCallTerm_eq:
  "cloneIndexedUFCallTerm e =
     (if \<not> hasIndexedUFCall e
      then Inl (Assert_exception ''Exp::getIndexedUFCallTerm: no indexed UFCallTerm'')
      else fold_result clone_step None (mTerms e))"
proof -
  have "(\<lambda>retval t. case t of
            UFCallTerm c f args i \<Rightarrow>
              if isIndexed i then
                (case retval of
                   Some r \<Rightarrow> Inl (Assert_exception
                     ''Exp::getIndexedUFCallTerm: more than one indexed UFCallTerm in expression'')
                 | None \<Rightarrow> Inr (Some t))
              else Inr retval
          | _ \<Rightarrow> Inr retval) = clone_step"
    by (intro ext) (auto split: trm.split)
  then show ?thesis by (simp add: cloneIndexedUFCallTerm_def)
qed

section \<open>Properties\<close>

text \<open>C18: Printing loses nothing but the kind of an expression and the empty sum (which prints as \<open>0\<close>):
  well-formed expressions with the same text are otherwise the same.\<close>

theorem toString_injective:
  assumes "wf_exp e" "wf_exp e'" "toString_exp e = toString_exp e'"
  shows "canon_exp e = canon_exp e'"
  by (rule toString_exp_inject[OF assms])

lemma toString_injective_witness:
  "canon_exp (Exp [] Equality) = canon_exp (Exp [Term 0] Inequality)
   \<and> toString_exp (Exp [UFCallTerm (-3) ''f'' [Exp [TupleVarTerm 1 0, Term (-1)] Expression] 2] Equality)
      = ''-3 f(__tv0 - 1)[2]''"
proof
  show "canon_exp (Exp [] Equality) = canon_exp (Exp [Term 0] Inequality)"
    by (rule toString_injective) (simp, simp, code_simp)
qed code_simp

text \<open>\<open>operator<\<close> on terms and on expressions is a strict weak order; the constraint lists are sorted
  by it.\<close>

lemma comparison_strict_weak_order:
  "(\<not> trm_less t t \<and> (trm_less t u \<longrightarrow> \<not> trm_less u t) \<and> (trm_less t u \<and> trm_less u v \<longrightarrow> trm_less t v)
      \<and> (incomparable trm_less t u \<and> incomparable trm_less u v \<longrightarrow> incomparable trm_less t v))
   \<and> (\<not> exp_less a a \<and> (exp_less a b \<longrightarrow> \<not> exp_less b a) \<and> (exp_less a b \<and> exp_less b c \<longrightarrow> exp_less a c)
      \<and> (incomparable exp_less a b \<and> incomparable exp_less b c \<longrightarrow> incomparable exp_less a c))"
  by (intro conjI impI) (use trm_order.strict_weak_order exp_order.strict_weak_order in blast)+

text \<open>C13: \<open>addExp\<close> adds values of well-formed canonical expressions, and keeps the canonical form:
  terms in increasing order of their factors, no factor twice, no coefficient zero.\<close>

theorem addExp_correct:
  assumes "wf_exp a" "wf_exp b" "canonical multi a" "canonical multi b"
  shows "wf_exp (addExp a b) \<and> canonical multi (addExp a b)
    \<and> eval_exp I (addExp a b) = eval_exp I a + eval_exp I b"
  using wf_addExp[OF assms(1,2)] canonical_addExp[OF assms(3,4)] eval_addExp[OF assms(1,2)] by blast

lemma addExp_correct_witness:
  "let s = addExp (Exp [TupleVarTerm 2 0, Term 3] Equality) (Exp [TupleVarTerm (-2) 0, VarTerm 1 ''n''] Expression)
   in canonical (\<lambda>f. False) s \<and> s = Exp [VarTerm 1 ''n'', Term 3] Equality"
proof -
  let ?a = "Exp [TupleVarTerm 2 0, Term 3] Equality"
  let ?b = "Exp [TupleVarTerm (-2) 0, VarTerm 1 ''n''] Expression"
  have "ident ''n''" by code_simp
  then have "wf_exp ?a" "wf_exp ?b" "canonical (\<lambda>f. False) ?a" "canonical (\<lambda>f. False) ?b"
    by (simp_all add: canonical_def less_termtype_def)
  note addExp_correct[OF this]
  moreover have "addExp ?a ?b = Exp [VarTerm 1 ''n'', Term 3] Equality" by code_simp
  ultimately show ?thesis by simp
qed

text \<open>C14: On canonical expressions \<open>operator==\<close> decides whether two sums have the same coefficient at
  every factor; in particular the order in which expressions are added does not matter, and an
  expression minus itself is empty.\<close>

theorem exp_eq_decides_coefficients:
  assumes "canonical multi a" "canonical multi b" "canonical multi c"
  shows "(exp_eq a b \<longleftrightarrow> (\<forall>k. coef_at (mTerms a) k = coef_at (mTerms b) k))
    \<and> exp_eq (addExp a b) (addExp b a)
    \<and> exp_eq (addExp (addExp a b) c) (addExp a (addExp b c))
    \<and> mTerms (addExp a (multiplyBy a (-1))) = []"
proof (intro conjI)
  note C = canonical_addExp[OF assms(1,2)] canonical_addExp[OF assms(2,1)] canonical_addExp[OF assms(2,3)]
  show "exp_eq a b \<longleftrightarrow> (\<forall>k. coef_at (mTerms a) k = coef_at (mTerms b) k)"
    by (rule exp_eq_iff_coefs[OF assms(1,2)])
  show "exp_eq (addExp a b) (addExp b a)"
    by (simp add: exp_eq_iff_coefs[OF C(1,2)] coef_addExp[OF assms(1,2)] coef_addExp[OF assms(2,1)])
  show "exp_eq (addExp (addExp a b) c) (addExp a (addExp b c))"
    by (simp add: exp_eq_iff_coefs[OF canonical_addExp[OF C(1) assms(3)] canonical_addExp[OF assms(1) C(3)]]
        coef_addExp[OF C(1) assms(3)] coef_addExp[OF assms(1) C(3)] coef_addExp[OF assms(1,2)] coef_addExp[OF assms(2,3)])
  show "mTerms (addExp a (multiplyBy a (-1))) = []" by (rule addExp_inverse[OF assms(1)])
qed

lemma exp_eq_decides_coefficients_witness:
  "exp_eq (addExp (Exp [TupleVarTerm 1 0] Equality) (Exp [VarTerm 1 ''n'', Term 1] Equality))
     (addExp (Exp [VarTerm 1 ''n'', Term 1] Equality) (Exp [TupleVarTerm 1 0] Equality))"
proof -
  have "canonical (\<lambda>f. False) (Exp [TupleVarTerm 1 0] Equality)"
    "canonical (\<lambda>f. False) (Exp [VarTerm 1 ''n'', Term 1] Equality)"
    by (simp_all add: canonical_def less_termtype_def)
  from exp_eq_decides_coefficients[OF this this(1)] show ?thesis by blast
qed

text \<open>\<open>divideBy\<close> succeeds exactly when \<open>isDivisible\<close> holds, the quotient times the divisor is the
  expression, and multiplying and dividing by the same number gives the expression back.\<close>

lemma divideBy_correct:
  assumes "d \<noteq> 0"
  shows "((\<exists>q. divideBy e d = Inr q) \<longleftrightarrow> isDivisible e d = Inr True)
    \<and> (\<forall>q. divideBy e d = Inr q \<longrightarrow> multiplyBy q d = e \<and> (\<forall>I. d * eval_exp I q = eval_exp I e))
    \<and> divideBy (multiplyBy e d) d = Inr e"
proof (intro conjI allI impI)
  have all2: "divideBy e d = Inr q \<Longrightarrow> list_all2 (\<lambda>t t'. divideBy_term t d = Inr t') (mTerms e) (mTerms q)" for q
    by (simp add: divideBy_Inr)
  show "(\<exists>q. divideBy e d = Inr q) \<longleftrightarrow> isDivisible e d = Inr True"
  proof
    assume "\<exists>q. divideBy e d = Inr q"
    then obtain q where "list_all2 (\<lambda>t t'. divideBy_term t d = Inr t') (mTerms e) (mTerms q)"
      using all2 by blast
    then have "\<forall>t \<in> set (mTerms e). d dvd coefficient t"
      by (induction rule: list_all2_induct) (auto simp: divideBy_term_Inr)
    with assms show "isDivisible e d = Inr True"
      by (auto simp: isDivisible_def list_all_iff c_rem_eq_0_iff)
  qed (rule divideBy_succeeds)
  fix q I assume q: "divideBy e d = Inr q"
  have "map (\<lambda>t. multiplyBy_term t d) (mTerms q) = mTerms e"
    using all2[OF q]
    by (induction rule: list_all2_induct)
       (auto simp: divideBy_term_Inr multiplyBy_term_def c_div_exact)
  with q show "multiplyBy q d = e" by (cases e; cases q) (auto simp: multiplyBy_def divideBy_Inr)
  show "d * eval_exp I q = eval_exp I e" by (rule eval_divideBy[OF q])
next
  show "divideBy (multiplyBy e d) d = Inr e"
    using assms unfolding divideBy_Inr
    by (auto simp: multiplyBy_def multiplyBy_term_def divideBy_term_Inr list_all2_conv_all_nth c_div_mult)
qed

text \<open>Normalising an equality keeps its solutions, and leaves a first coefficient that is positive
  unless the expression was zero at its head.\<close>

lemma normalizeForEquality_correct:
  "(eval_exp I (normalizeForEquality e) = 0 \<longleftrightarrow> eval_exp I e = 0)
   \<and> (mTerms (normalizeForEquality e) = [] \<or> coefficient (hd (mTerms (normalizeForEquality e))) \<ge> 0)
   \<and> mExpType (normalizeForEquality e) = mExpType e"
proof (intro conjI)
  show "eval_exp I (normalizeForEquality e) = 0 \<longleftrightarrow> eval_exp I e = 0"
    using eval_normalizeForEquality[of I e] by auto
  show "mTerms (normalizeForEquality e) = [] \<or> coefficient (hd (mTerms (normalizeForEquality e))) \<ge> 0"
  proof (cases "mTerms e")
    case (Cons t ts)
    let ?e = "if coefficient (hd (mTerms e)) < 0 then multiplyBy e (-1) else e"
    have "mTerms ?e \<noteq> []" "coefficient (hd (mTerms ?e)) \<ge> 0"
      using Cons by (auto simp: multiplyBy_def multiplyBy_term_def)
    moreover have "butlast xs \<noteq> [] \<Longrightarrow> hd (butlast xs) = hd xs" for xs :: "trm list"
      by (cases xs) (auto split: if_splits)
    then have "butlast (mTerms ?e) \<noteq> [] \<Longrightarrow> hd (butlast (mTerms ?e)) = hd (mTerms ?e)" .
    moreover have "mTerms (normalizeForEquality e)
      = (if coefficient (last (mTerms ?e)) = 0 then butlast (mTerms ?e) else mTerms ?e)"
      using Cons by (simp add: normalizeForEquality_def Let_def)
    ultimately show ?thesis by metis
  qed (simp add: normalizeForEquality_def)
  show "mExpType (normalizeForEquality e) = mExpType e"
    by (simp add: normalizeForEquality_def Let_def multiplyBy_def)
qed

text \<open>An expression that does not depend on a variable has the same value whatever the variable is.\<close>

lemma dependsOn_sound:
  assumes "\<not> dependsOn e x" "same_but x I J"
  shows "eval_exp I e = eval_exp J e"
  by (rule not_dependsOn_eval(2)[OF assms(2,1)])

text \<open>An equality that \<open>isContradiction\<close> reports is false at every point, and a constant expression
  has the same value everywhere.\<close>

lemma isContradiction_sound:
  assumes "isContradiction e"
  shows "eval_exp I e \<noteq> 0 \<and> isConst e \<and> eval_exp J e = eval_exp I e"
proof -
  obtain t where t: "mTerms e = [t]" "isConst_term t" "coefficient t \<noteq> 0"
    using assms by (cases "mTerms e") (auto simp: isContradiction_def split: if_splits)
  then show ?thesis by (cases t) (auto simp: isConst_term_def isConst_def eval_exp_terms)
qed

text \<open>\<open>cloneIndexedUFCallTerm\<close> returns the indexed call of an expression whose first call is indexed
  and throws if there is another one; where an unindexed call comes first it reports that there is no
  indexed call, even if there is.\<close>

lemma cloneIndexedUFCallTerm_correct:
  "cloneIndexedUFCallTerm e =
     (if \<not> hasIndexedUFCall e
      then Inl (Assert_exception ''Exp::getIndexedUFCallTerm: no indexed UFCallTerm'')
      else case filter indexed_call (mTerms e) of
             [t] \<Rightarrow> Inr (Some t)
           | _ \<Rightarrow> Inl (Assert_exception
               ''Exp::getIndexedUFCallTerm: more than one indexed UFCallTerm in expression''))
   \<and> (hasIndexedUFCall e \<longleftrightarrow> (\<exists>t. find isUFCall (mTerms e) = Some t \<and> indexed_call t))"
proof -
  have has: "hasIndexedUFCall e \<longleftrightarrow> (\<exists>t. find isUFCall (mTerms e) = Some t \<and> indexed_call t)"
    by (auto simp: hasIndexedUFCall_def split: option.splits trm.splits)
  then have "hasIndexedUFCall e \<Longrightarrow> filter indexed_call (mTerms e) \<noteq> []"
    by (auto simp: find_Some_iff filter_empty_conv)
  with has show ?thesis
    by (auto simp: cloneIndexedUFCallTerm_eq clone_fold split: list.splits)
qed

end
