(* ===== verification/Conj_Semantics.thy ===== *)
theory Conj_Semantics
  imports Conjunction Exp_Facts
begin

text \<open>
  Which points satisfy a conjunction, and that the operations of theory \<open>Conjunction\<close> change this as
  they should. The lists of constraints are instances of \<open>keyed_constraints\<close> of the prelude, so that
  adding to them is adding to the meaning.
\<close>

section \<open>Points of a conjunction\<close>

definition holds_eq :: "interp \<Rightarrow> exp \<Rightarrow> bool" where
  "holds_eq I e \<longleftrightarrow> eval_exp I e = 0"

definition holds_ineq :: "interp \<Rightarrow> exp \<Rightarrow> bool" where
  "holds_ineq I e \<longleftrightarrow> eval_exp I e \<ge> 0"

definition decl_holds :: "interp \<Rightarrow> tuple_decl \<Rightarrow> bool" where
  "decl_holds I td \<longleftrightarrow> (\<forall>i < length td. mIsConst (td ! i) \<longrightarrow> tv I (int i) = mConstVal (td ! i))"

definition conj_holds :: "interp \<Rightarrow> conjunction \<Rightarrow> bool" where
  "conj_holds I c \<longleftrightarrow> decl_holds I (mTupleDecl c)
     \<and> (\<forall>e \<in> set (mEqualities c). holds_eq I e) \<and> (\<forall>e \<in> set (mInequalities c). holds_ineq I e)"

definition conj_wf :: "conjunction \<Rightarrow> bool" where
  "conj_wf c \<longleftrightarrow> (\<forall>e \<in> set (mEqualities c). wf_exp e) \<and> (\<forall>e \<in> set (mInequalities c). wf_exp e)"

definition conj_sorted :: "conjunction \<Rightarrow> bool" where
  "conj_sorted c \<longleftrightarrow> sorted_wrt exp_less (mEqualities c) \<and> sorted_wrt exp_less (mInequalities c)"

interpretation eqs: keyed_constraints exp_less key_of_exp wf_exp holds_eq
  by unfold_locales (metis holds_eq_def key_of_exp_eval)

interpretation ineqs: keyed_constraints exp_less key_of_exp wf_exp holds_ineq
  by unfold_locales (metis holds_ineq_def key_of_exp_eval)

lemma eval_kind [simp]:
  "eval_exp I (setEquality e) = eval_exp I e" "eval_exp I (setInequality e) = eval_exp I e"
  "wf_exp (setEquality e) = wf_exp e" "wf_exp (setInequality e) = wf_exp e"
  by (cases e; simp add: setEquality_def setInequality_def)+

lemma decl_holds_same:
  assumes "map elem_key a = map elem_key b"
  shows "decl_holds I a = decl_holds I b"
proof -
  have "decl_holds I td \<longleftrightarrow> (\<forall>i < length td. \<forall>v. elem_key (td ! i) = Some v \<longrightarrow> tv I (int i) = v)" for td
    by (auto simp: decl_holds_def elem_key_def)
  moreover have len: "length a = length b" using assms by (rule map_eq_imp_length_eq)
  moreover have "elem_key (a ! i) = elem_key (b ! i)" if "i < length a" for i
    using assms len that by (metis nth_map)
  ultimately show ?thesis by simp
qed

section \<open>Adding constraints\<close>

lemma addEquality_simps [simp]:
  "mTupleDecl (addEquality c e) = mTupleDecl c" "mInequalities (addEquality c e) = mInequalities c"
  "mInArity (addEquality c e) = mInArity c" "unsat (addEquality c e) = unsat c"
  by (simp_all add: addEquality_def Let_def)

lemma addInequality_simps [simp]:
  "mTupleDecl (addInequality c e) = mTupleDecl c" "mEqualities (addInequality c e) = mEqualities c"
  "mInArity (addInequality c e) = mInArity c" "unsat (addInequality c e) = unsat c"
  by (simp_all add: addInequality_def)

lemma eqs_addEquality:
  assumes "\<forall>e \<in> set (mEqualities c). wf_exp e" "wf_exp e"
  shows "\<forall>e \<in> set (mEqualities (addEquality c e)). wf_exp e"
    "(\<forall>e \<in> set (mEqualities (addEquality c e)). holds_eq I e)
      \<longleftrightarrow> (\<forall>e \<in> set (mEqualities c). holds_eq I e) \<and> holds_eq I e"
    "sorted_wrt exp_less (mEqualities c) \<Longrightarrow> sorted_wrt exp_less (mEqualities (addEquality c e))"
proof -
  let ?n = "setEquality (normalizeForEquality e)"
  have n: "wf_exp ?n" using assms(2) by (simp add: wf_normalizeForEquality)
  have h: "holds_eq I ?n \<longleftrightarrow> holds_eq I e"
    using eval_normalizeForEquality[of I e] by (auto simp: holds_eq_def)
  have z: "equalsZero (normalizeForEquality e) \<Longrightarrow> holds_eq I e"
    using equalsZero_eval[of "normalizeForEquality e" I] h by (simp add: holds_eq_def)
  show "\<forall>e \<in> set (mEqualities (addEquality c e)). wf_exp e"
    using eqs.ok_insert_unique[OF n assms(1)] assms(1) by (simp add: addEquality_def Let_def)
  show "(\<forall>e \<in> set (mEqualities (addEquality c e)). holds_eq I e)
      \<longleftrightarrow> (\<forall>e \<in> set (mEqualities c). holds_eq I e) \<and> holds_eq I e"
    using eqs.all_insert_unique[OF n assms(1), of I] z by (auto simp: addEquality_def Let_def h)
  show "sorted_wrt exp_less (mEqualities c) \<Longrightarrow> sorted_wrt exp_less (mEqualities (addEquality c e))"
    using exp_order.sorted_insert_unique by (simp add: addEquality_def Let_def)
qed

lemma ineqs_addInequality:
  assumes "\<forall>e \<in> set (mInequalities c). wf_exp e" "wf_exp e"
  shows "\<forall>e \<in> set (mInequalities (addInequality c e)). wf_exp e"
    "(\<forall>e \<in> set (mInequalities (addInequality c e)). holds_ineq I e)
      \<longleftrightarrow> (\<forall>e \<in> set (mInequalities c). holds_ineq I e) \<and> holds_ineq I e"
    "sorted_wrt exp_less (mInequalities c) \<Longrightarrow> sorted_wrt exp_less (mInequalities (addInequality c e))"
proof -
  let ?n = "setInequality e"
  have n: "wf_exp ?n" "holds_ineq I ?n \<longleftrightarrow> holds_ineq I e" using assms(2) by (simp_all add: holds_ineq_def)
  have z: "equalsZero e \<Longrightarrow> holds_ineq I e"
    using equalsZero_eval[of e I] by (simp add: holds_ineq_def)
  show "\<forall>e \<in> set (mInequalities (addInequality c e)). wf_exp e"
    using ineqs.ok_insert_unique[OF n(1) assms(1)] assms(1) by (simp add: addInequality_def)
  show "(\<forall>e \<in> set (mInequalities (addInequality c e)). holds_ineq I e)
      \<longleftrightarrow> (\<forall>e \<in> set (mInequalities c). holds_ineq I e) \<and> holds_ineq I e"
    using ineqs.all_insert_unique[OF n(1) assms(1), of I] z n(2) by (auto simp: addInequality_def)
  show "sorted_wrt exp_less (mInequalities c) \<Longrightarrow> sorted_wrt exp_less (mInequalities (addInequality c e))"
    using exp_order.sorted_insert_unique by (simp add: addInequality_def)
qed

lemma conj_addEquality:
  assumes "conj_wf c" "wf_exp e"
  shows "conj_wf (addEquality c e)" "conj_holds I (addEquality c e) \<longleftrightarrow> conj_holds I c \<and> holds_eq I e"
    "conj_sorted c \<Longrightarrow> conj_sorted (addEquality c e)"
  using assms eqs_addEquality[of c e] by (auto simp: conj_wf_def conj_holds_def conj_sorted_def)

lemma conj_addInequality:
  assumes "conj_wf c" "wf_exp e"
  shows "conj_wf (addInequality c e)" "conj_holds I (addInequality c e) \<longleftrightarrow> conj_holds I c \<and> holds_ineq I e"
    "conj_sorted c \<Longrightarrow> conj_sorted (addInequality c e)"
  using assms ineqs_addInequality[of c e] by (auto simp: conj_wf_def conj_holds_def conj_sorted_def)

text \<open>Adding a list of constraints, one kind at a time.\<close>

lemma foldl_addEquality:
  assumes "\<forall>e \<in> set (mEqualities c). wf_exp e" "\<forall>e \<in> set es. wf_exp e"
  shows "\<forall>e \<in> set (mEqualities (foldl addEquality c es)). wf_exp e"
    "(\<forall>e \<in> set (mEqualities (foldl addEquality c es)). holds_eq I e)
      \<longleftrightarrow> (\<forall>e \<in> set (mEqualities c). holds_eq I e) \<and> (\<forall>e \<in> set es. holds_eq I e)"
    "sorted_wrt exp_less (mEqualities c) \<Longrightarrow> sorted_wrt exp_less (mEqualities (foldl addEquality c es))"
proof -
  have "(\<forall>e \<in> set (mEqualities (foldl addEquality c es)). wf_exp e)
    \<and> ((\<forall>e \<in> set (mEqualities (foldl addEquality c es)). holds_eq I e)
      \<longleftrightarrow> (\<forall>e \<in> set (mEqualities c). holds_eq I e) \<and> (\<forall>e \<in> set es. holds_eq I e))
    \<and> (sorted_wrt exp_less (mEqualities c) \<longrightarrow> sorted_wrt exp_less (mEqualities (foldl addEquality c es)))"
    using assms
  proof (induction es arbitrary: c)
    case (Cons e es)
    then have wf: "wf_exp e" "\<forall>e \<in> set es. wf_exp e" by simp_all
    note c = eqs_addEquality[OF Cons.prems(1) wf(1)]
    show ?case using Cons.IH[OF c(1) wf(2)] c(2)[of I] c(3) by auto
  qed simp
  then show "\<forall>e \<in> set (mEqualities (foldl addEquality c es)). wf_exp e"
    "(\<forall>e \<in> set (mEqualities (foldl addEquality c es)). holds_eq I e)
      \<longleftrightarrow> (\<forall>e \<in> set (mEqualities c). holds_eq I e) \<and> (\<forall>e \<in> set es. holds_eq I e)"
    "sorted_wrt exp_less (mEqualities c) \<Longrightarrow> sorted_wrt exp_less (mEqualities (foldl addEquality c es))"
    by blast+
qed

lemma foldl_addInequality:
  assumes "\<forall>e \<in> set (mInequalities c). wf_exp e" "\<forall>e \<in> set es. wf_exp e"
  shows "\<forall>e \<in> set (mInequalities (foldl addInequality c es)). wf_exp e"
    "(\<forall>e \<in> set (mInequalities (foldl addInequality c es)). holds_ineq I e)
      \<longleftrightarrow> (\<forall>e \<in> set (mInequalities c). holds_ineq I e) \<and> (\<forall>e \<in> set es. holds_ineq I e)"
    "sorted_wrt exp_less (mInequalities c) \<Longrightarrow> sorted_wrt exp_less (mInequalities (foldl addInequality c es))"
proof -
  have "(\<forall>e \<in> set (mInequalities (foldl addInequality c es)). wf_exp e)
    \<and> ((\<forall>e \<in> set (mInequalities (foldl addInequality c es)). holds_ineq I e)
      \<longleftrightarrow> (\<forall>e \<in> set (mInequalities c). holds_ineq I e) \<and> (\<forall>e \<in> set es. holds_ineq I e))
    \<and> (sorted_wrt exp_less (mInequalities c) \<longrightarrow> sorted_wrt exp_less (mInequalities (foldl addInequality c es)))"
    using assms
  proof (induction es arbitrary: c)
    case (Cons e es)
    then have wf: "wf_exp e" "\<forall>e \<in> set es. wf_exp e" by simp_all
    note c = ineqs_addInequality[OF Cons.prems(1) wf(1)]
    show ?case using Cons.IH[OF c(1) wf(2)] c(2)[of I] c(3) by auto
  qed simp
  then show "\<forall>e \<in> set (mInequalities (foldl addInequality c es)). wf_exp e"
    "(\<forall>e \<in> set (mInequalities (foldl addInequality c es)). holds_ineq I e)
      \<longleftrightarrow> (\<forall>e \<in> set (mInequalities c). holds_ineq I e) \<and> (\<forall>e \<in> set es. holds_ineq I e)"
    "sorted_wrt exp_less (mInequalities c) \<Longrightarrow> sorted_wrt exp_less (mInequalities (foldl addInequality c es))"
    by blast+
qed

lemma foldl_addEquality_simps [simp]:
  "mTupleDecl (foldl addEquality c es) = mTupleDecl c" "mInequalities (foldl addEquality c es) = mInequalities c"
  "mInArity (foldl addEquality c es) = mInArity c" "unsat (foldl addEquality c es) = unsat c"
  by (induction es arbitrary: c) simp_all

lemma foldl_addInequality_simps [simp]:
  "mTupleDecl (foldl addInequality c es) = mTupleDecl c" "mEqualities (foldl addInequality c es) = mEqualities c"
  "mInArity (foldl addInequality c es) = mInArity c" "unsat (foldl addInequality c es) = unsat c"
  by (induction es arbitrary: c) simp_all

section \<open>Cleaning up\<close>

lemma collapsible_multiplyBy [simp]: "collapsible_exp qinv sig (multiplyBy e k) = collapsible_exp qinv sig e"
proof -
  have "collapsible_trm qinv sig (setCoefficient k t) = collapsible_trm qinv sig t" for k t
    by (cases t) simp_all
  then show ?thesis by (cases e) (simp add: multiplyBy_def multiplyBy_term_def list_all_iff)
qed

lemma collapsible_normalize:
  "collapsible_exp qinv sig e \<Longrightarrow> collapsible_exp qinv sig (normalizeForEquality e)"
proof -
  have b: "collapsible_exp qinv sig x \<Longrightarrow> collapsible_exp qinv sig (Exp (butlast (mTerms x)) et)" for x et
    by (cases x) (auto simp: list_all_iff dest: in_set_butlastD)
  assume "collapsible_exp qinv sig e"
  then show ?thesis
    using b[of e] b[of "multiplyBy e (-1)"] by (simp add: normalizeForEquality_def Let_def)
qed

definition conj_collapsible :: "(string \<Rightarrow> string) \<Rightarrow> (string \<Rightarrow> nat \<times> nat) \<Rightarrow> conjunction \<Rightarrow> bool" where
  "conj_collapsible qinv sig c \<longleftrightarrow>
     (\<forall>e \<in> set (mEqualities c). collapsible_exp qinv sig e) \<and> (\<forall>e \<in> set (mInequalities c). collapsible_exp qinv sig e)"

text \<open>The loop that collapses the constraints of a list after another function.\<close>

lemma map_collapse:
  assumes "\<forall>e \<in> set es. wf_exp (f e) \<and> collapsible_exp qinv sig (f e)" "respects_inverses qinv sig I"
  obtains es' where "map_result (\<lambda>e. collapse_exp qinv (f e)) es = Inr es'" "\<forall>e \<in> set es'. wf_exp e"
    "map (eval_exp I) es' = map (\<lambda>e. eval_exp I (f e)) es"
proof -
  have "\<exists>es'. map_result (\<lambda>e. collapse_exp qinv (f e)) es = Inr es'"
    by (rule map_result_total) (use assms(1) collapse_total(2) in blast)
  then obtain es' where r: "map_result (\<lambda>e. collapse_exp qinv (f e)) es = Inr es'" ..
  then have "list_all2 (\<lambda>e e'. collapse_exp qinv (f e) = Inr e') es es'" by (simp add: map_result_Inr_iff)
  then have "(\<forall>e \<in> set es'. wf_exp e) \<and> map (eval_exp I) es' = map (\<lambda>e. eval_exp I (f e)) es"
    using assms(1)
  proof (induction rule: list_all2_induct)
    case (Cons e es e' es')
    with collapse_correct[of "f e" qinv sig I] assms(2) show ?case by auto
  qed simp
  with r that show thesis by blast
qed

lemma all_values:
  "map (eval_exp I) es' = map (\<lambda>e. eval_exp I (f e)) es \<Longrightarrow>
    (\<forall>e \<in> set (filter (\<lambda>e. \<not> equalsZero e) es'). holds_eq I e) \<longleftrightarrow> (\<forall>e \<in> set es. holds_eq I (f e))"
  "map (eval_exp I) es' = map (\<lambda>e. eval_exp I (f e)) es \<Longrightarrow>
    (\<forall>e \<in> set (filter (\<lambda>e. \<not> equalsZero e) es'). holds_ineq I e) \<longleftrightarrow> (\<forall>e \<in> set es. holds_ineq I (f e))"
proof -
  assume m: "map (eval_exp I) es' = map (\<lambda>e. eval_exp I (f e)) es"
  have "(\<forall>e \<in> set es'. P (eval_exp I e)) \<longleftrightarrow> (\<forall>e \<in> set es. P (eval_exp I (f e)))" for P
    using arg_cong[OF m, of "\<lambda>vs. \<forall>v \<in> set vs. P v"] by simp
  from this[of "\<lambda>v. v = 0"] this[of "\<lambda>v. v \<ge> 0"] show
    "(\<forall>e \<in> set (filter (\<lambda>e. \<not> equalsZero e) es'). holds_eq I e) \<longleftrightarrow> (\<forall>e \<in> set es. holds_eq I (f e))"
    "(\<forall>e \<in> set (filter (\<lambda>e. \<not> equalsZero e) es'). holds_ineq I e) \<longleftrightarrow> (\<forall>e \<in> set es. holds_ineq I (f e))"
    using equalsZero_eval by (auto simp: holds_eq_def holds_ineq_def)
qed

lemma holds_normalizeForEquality [simp]: "holds_eq I (normalizeForEquality e) \<longleftrightarrow> holds_eq I e"
  using eval_normalizeForEquality[of I e] by (auto simp: holds_eq_def)

lemma cleanUp_sound:
  assumes "conj_wf c" "conj_collapsible qinv sig c" "respects_inverses qinv sig I"
  obtains c' where "cleanUp qinv c = Inr c'" "conj_wf c'" "conj_sorted c'"
    "conj_holds I c' \<longleftrightarrow> conj_holds I c" "mTupleDecl c' = mTupleDecl c" "mInArity c' = mInArity c"
proof -
  let ?z = "filter (\<lambda>e. \<not> equalsZero e)"
  obtain eqs where eqs: "map_result (\<lambda>e. collapse_exp qinv (normalizeForEquality e)) (mEqualities c) = Inr eqs"
    "\<forall>e \<in> set eqs. wf_exp e" "map (eval_exp I) eqs = map (\<lambda>e. eval_exp I (normalizeForEquality e)) (mEqualities c)"
    using assms map_collapse[of "mEqualities c" normalizeForEquality qinv sig I]
    by (auto simp: conj_wf_def conj_collapsible_def wf_normalizeForEquality collapsible_normalize)
  obtain ineqs where ineqs: "map_result (collapse_exp qinv) (mInequalities c) = Inr ineqs"
    "\<forall>e \<in> set ineqs. wf_exp e" "map (eval_exp I) ineqs = map (\<lambda>e. eval_exp I e) (mInequalities c)"
    using assms map_collapse[of "mInequalities c" "\<lambda>e. e" qinv sig I]
    by (auto simp: conj_wf_def conj_collapsible_def)
  define c1 where "c1 = foldl addEquality (c\<lparr>mEqualities := []\<rparr>) (?z eqs)"
  define c2 where "c2 = foldl addInequality (c1\<lparr>mInequalities := []\<rparr>) (?z ineqs)"
  have wf: "\<forall>e \<in> set (?z eqs). wf_exp e" "\<forall>e \<in> set (?z ineqs). wf_exp e" using eqs(2) ineqs(2) by simp_all
  have nil: "\<forall>e \<in> set (mEqualities (c\<lparr>mEqualities := []\<rparr>)). wf_exp e"
    "\<forall>e \<in> set (mInequalities (c1\<lparr>mInequalities := []\<rparr>)). wf_exp e" by simp_all
  note e = foldl_addEquality[OF nil(1) wf(1), folded c1_def] and i = foldl_addInequality[OF nil(2) wf(2), folded c2_def]
  have c1: "mTupleDecl c1 = mTupleDecl c" "mInArity c1 = mInArity c" by (simp_all add: c1_def)
  have c2: "mTupleDecl c2 = mTupleDecl c" "mEqualities c2 = mEqualities c1" "mInArity c2 = mInArity c"
    by (simp_all add: c2_def c1)
  show thesis
  proof (rule that[of c2])
    show "cleanUp qinv c = Inr c2" using eqs(1) ineqs(1) by (simp add: cleanUp_def Let_def c1_def c2_def)
    show "conj_wf c2" using e(1) i(1) c2(2) by (simp add: conj_wf_def)
    show "conj_sorted c2" using e(3) i(3) c2(2) by (simp add: conj_sorted_def)
    show "conj_holds I c2 \<longleftrightarrow> conj_holds I c"
      using e(2)[of I] i(2)[of I] all_values(1)[OF eqs(3)] all_values(2)[OF ineqs(3)] c2
      by (simp add: conj_holds_def)
  qed (simp_all add: c2)
qed

text \<open>
  What cleaning up makes of a list of constraints: each constraint of the result is one of the given ones, collapsed and put
  in its form, and is not trivial; and each of the given ones is there, up to the order of comparison, or is trivial.
\<close>

definition cleaned :: "(exp \<Rightarrow> exp result) \<Rightarrow> (exp \<Rightarrow> exp) \<Rightarrow> exp list \<Rightarrow> exp list \<Rightarrow> bool" where
  "cleaned f g es es' \<longleftrightarrow>
     (\<forall>e' \<in> set es'. \<not> equalsZero e' \<and> (\<exists>e \<in> set es. \<exists>d. f e = Inr d \<and> e' = g d)) \<and>
     (\<forall>e \<in> set es. \<exists>d. f e = Inr d \<and> (equalsZero (g d) \<or> (\<exists>e' \<in> set es'. key_of_exp e' = key_of_exp (g d))))"

lemma foldl_insert_unique:
  "set (foldl (\<lambda>es e. insert_unique exp_less (g e) es) es0 ds) \<subseteq> set es0 \<union> g ` set ds"
  "key_of_exp ` set (foldl (\<lambda>es e. insert_unique exp_less (g e) es) es0 ds) = key_of_exp ` set es0 \<union> key_of_exp ` g ` set ds"
proof (induction ds arbitrary: es0)
  case (Cons d ds)
  {
    case 1
    show ?case using Cons(1)[of "insert_unique exp_less (g d) es0"] exp_order.set_insert_unique[of "g d" es0] by auto
  next
    case 2
    show ?case using Cons(2)[of "insert_unique exp_less (g d) es0"] by (simp add: exp_order.keys_insert_unique)
  }
qed simp_all

lemma cleaned_fold:
  assumes run: "map_result f es = Inr ds"
  shows "cleaned f g es (foldl (\<lambda>es e. insert_unique exp_less (g e) es) [] (filter (\<lambda>d. \<not> equalsZero (g d)) ds))"
proof -
  have kept: "\<exists>d \<in> set ds. f e = Inr d" if "e \<in> set es" for e using run that by (induction es arbitrary: ds) auto
  have origin: "\<exists>e \<in> set es. f e = Inr d" if "d \<in> set ds" for d using run that by (induction es arbitrary: ds) auto
  let ?zs = "filter (\<lambda>d. \<not> equalsZero (g d)) ds" and ?es' = "foldl (\<lambda>es e. insert_unique exp_less (g e) es) [] (filter (\<lambda>d. \<not> equalsZero (g d)) ds)"
  have sub: "set ?es' \<subseteq> g ` set ?zs" and key: "key_of_exp ` set ?es' = key_of_exp ` g ` set ?zs"
    using foldl_insert_unique[of g "[]" ?zs] by simp_all
  show ?thesis
    unfolding cleaned_def
  proof (intro conjI ballI)
    fix e' assume "e' \<in> set ?es'"
    then obtain d where d: "d \<in> set ds" "\<not> equalsZero (g d)" "e' = g d" using sub by auto
    then show "\<not> equalsZero e'" by simp
    show "\<exists>e \<in> set es. \<exists>d. f e = Inr d \<and> e' = g d" using origin[OF d(1)] d(3) by blast
  next
    fix e assume "e \<in> set es"
    then obtain d where d: "d \<in> set ds" "f e = Inr d" using kept by blast
    have "\<exists>e' \<in> set ?es'. key_of_exp e' = key_of_exp (g d)" if "\<not> equalsZero (g d)"
    proof -
      have "key_of_exp (g d) \<in> key_of_exp ` set ?es'" unfolding key using d(1) that by auto
      then show ?thesis by auto
    qed
    then show "\<exists>d. f e = Inr d \<and> (equalsZero (g d) \<or> (\<exists>e' \<in> set ?es'. key_of_exp e' = key_of_exp (g d)))" using d(2) by blast
  qed
qed

definition equality_form :: "exp \<Rightarrow> exp" where
  "equality_form e = setEquality (normalizeForEquality e)"

lemma equalsZero_kind: "equalsZero (setEquality e) = equalsZero e" "equalsZero (setInequality e) = equalsZero e"
  by (cases e; simp add: equalsZero_def setEquality_def setInequality_def)+

lemma equalsZero_normalize: "equalsZero e \<Longrightarrow> equalsZero (normalizeForEquality e)"
  by (cases e; cases "mTerms e") (auto simp: equalsZero_def normalizeForEquality_def Let_def multiplyBy_def)

lemma fold_equalities:
  "foldl addEquality c (filter (\<lambda>d. \<not> equalsZero d) ds) =
     c\<lparr>mEqualities := foldl (\<lambda>es e. insert_unique exp_less (equality_form e) es) (mEqualities c) (filter (\<lambda>d. \<not> equalsZero (equality_form d)) ds)\<rparr>"
  by (induction ds arbitrary: c) (auto simp: addEquality_def Let_def equality_form_def equalsZero_kind equalsZero_normalize)

lemma fold_inequalities:
  "foldl addInequality c (filter (\<lambda>d. \<not> equalsZero d) ds) =
     c\<lparr>mInequalities := foldl (\<lambda>es e. insert_unique exp_less (setInequality e) es) (mInequalities c) (filter (\<lambda>d. \<not> equalsZero (setInequality d)) ds)\<rparr>"
  by (induction ds arbitrary: c) (auto simp: addInequality_def equalsZero_kind)

lemma cleanUp_cleaned:
  assumes "cleanUp qinv c = Inr c'"
  shows "cleaned (\<lambda>e. collapse_exp qinv (normalizeForEquality e)) equality_form (mEqualities c) (mEqualities c')"
    "cleaned (collapse_exp qinv) setInequality (mInequalities c) (mInequalities c')"
proof -
  let ?add = "\<lambda>g es e. insert_unique exp_less (g e) es" and ?z = "\<lambda>g. filter (\<lambda>d. \<not> equalsZero (g d))"
  obtain eqs ineqs where r: "map_result (\<lambda>e. collapse_exp qinv (normalizeForEquality e)) (mEqualities c) = Inr eqs"
    "map_result (collapse_exp qinv) (mInequalities c) = Inr ineqs"
    "c' = foldl addInequality ((foldl addEquality (c\<lparr>mEqualities := []\<rparr>) (filter (\<lambda>e. \<not> equalsZero e) eqs))\<lparr>mInequalities := []\<rparr>)
      (filter (\<lambda>e. \<not> equalsZero e) ineqs)"
    using assms by (auto simp: cleanUp_def Let_def)
  have c': "mEqualities c' = foldl (?add equality_form) [] (?z equality_form eqs)"
    "mInequalities c' = foldl (?add setInequality) [] (?z setInequality ineqs)"
    unfolding r(3) by (simp_all add: fold_equalities fold_inequalities)
  show "cleaned (\<lambda>e. collapse_exp qinv (normalizeForEquality e)) equality_form (mEqualities c) (mEqualities c')"
    unfolding c' by (rule cleaned_fold[OF r(1)])
  show "cleaned (collapse_exp qinv) setInequality (mInequalities c) (mInequalities c')"
    unfolding c' by (rule cleaned_fold[OF r(2)])
qed

section \<open>Other operations\<close>

lemma conj_addEqualities:
  assumes "conj_wf c" "\<forall>e \<in> set es. wf_exp e"
  shows "conj_wf (foldl addEquality c es)"
    "conj_holds I (foldl addEquality c es) \<longleftrightarrow> conj_holds I c \<and> (\<forall>e \<in> set es. holds_eq I e)"
    "conj_sorted c \<Longrightarrow> conj_sorted (foldl addEquality c es)"
  using assms foldl_addEquality[of c es] by (auto simp: conj_wf_def conj_holds_def conj_sorted_def)

lemma conj_addInequalities:
  assumes "conj_wf c" "\<forall>e \<in> set es. wf_exp e"
  shows "conj_wf (foldl addInequality c es)"
    "conj_holds I (foldl addInequality c es) \<longleftrightarrow> conj_holds I c \<and> (\<forall>e \<in> set es. holds_ineq I e)"
    "conj_sorted c \<Longrightarrow> conj_sorted (foldl addInequality c es)"
  using assms foldl_addInequality[of c es] by (auto simp: conj_wf_def conj_holds_def conj_sorted_def)

lemma Conj_Intersect_sound:
  assumes "conj_wf c" "conj_wf rhs"
  shows "conj_wf (Conj_Intersect c rhs)" "mTupleDecl (Conj_Intersect c rhs) = mTupleDecl c"
    "conj_holds I (Conj_Intersect c rhs) \<longleftrightarrow> conj_holds I c \<and> conj_holds I (rhs\<lparr>mTupleDecl := []\<rparr>)"
proof -
  have e: "\<forall>e \<in> set (mEqualities rhs). wf_exp e" "\<forall>e \<in> set (mInequalities rhs). wf_exp e"
    using assms(2) by (auto simp: conj_wf_def)
  note c1 = conj_addEqualities[OF assms(1) e(1)] and c2 = conj_addInequalities[OF conj_addEqualities(1)[OF assms(1) e(1)] e(2)]
  show "conj_wf (Conj_Intersect c rhs)" "mTupleDecl (Conj_Intersect c rhs) = mTupleDecl c"
    by (simp_all add: Conj_Intersect_def c2)
  show "conj_holds I (Conj_Intersect c rhs) \<longleftrightarrow> conj_holds I c \<and> conj_holds I (rhs\<lparr>mTupleDecl := []\<rparr>)"
    by (simp add: Conj_Intersect_def c1 c2) (auto simp: conj_holds_def decl_holds_def)
qed

lemma satisfiable_sound: "\<not> satisfiable c \<Longrightarrow> \<not> conj_holds I c"
proof -
  assume "\<not> satisfiable c"
  then obtain e where e: "e \<in> set (mEqualities c)" "isContradiction e" by (auto simp: satisfiable_def list_ex_iff)
  then have "eval_exp I e = coefficient (hd (mTerms e)) \<and> coefficient (hd (mTerms e)) \<noteq> 0"
    by (cases "mTerms e"; cases "hd (mTerms e)") (auto simp: isContradiction_def isConst_term_def eval_exp_terms split: if_splits)
  then have "\<not> holds_eq I e" by (simp add: holds_eq_def)
  with e(1) show ?thesis by (auto simp: conj_holds_def)
qed

section \<open>Substitution\<close>

lemma decl_holds_nil [simp]: "decl_holds I []"
  by (simp add: decl_holds_def)

lemma substituteInConstraints_sound:
  assumes "conj_wf c" "wf_sub m" "subst_interp m I I'" "respects_inverses qinv sig I"
    and "conj_collapsible qinv sig
      (c\<lparr>mEqualities := map (substitute m) (mEqualities c), mInequalities := map (substitute m) (mInequalities c)\<rparr>)"
  obtains c' where "substituteInConstraints qinv c m = Inr c'" "conj_wf c'" "conj_sorted c'"
    "mTupleDecl c' = mTupleDecl c" "mInArity c' = mInArity c"
    "conj_holds I c' \<longleftrightarrow> decl_holds I (mTupleDecl c) \<and> conj_holds I' (c\<lparr>mTupleDecl := []\<rparr>)"
proof -
  let ?c = "c\<lparr>mEqualities := map (substitute m) (mEqualities c), mInequalities := map (substitute m) (mInequalities c)\<rparr>"
  have s: "wf_exp (substitute m e)" "eval_exp I (substitute m e) = eval_exp I' e" if "wf_exp e" for e
    using substitute_sound[OF assms(2,3) that] by simp_all
  with assms(1) have "conj_wf ?c" by (auto simp: conj_wf_def)
  from cleanUp_sound[OF this assms(5,4)] obtain c' where c': "cleanUp qinv ?c = Inr c'" "conj_wf c'" "conj_sorted c'"
    "conj_holds I c' \<longleftrightarrow> conj_holds I ?c" "mTupleDecl c' = mTupleDecl ?c" "mInArity c' = mInArity ?c" by blast
  have "conj_holds I ?c \<longleftrightarrow> decl_holds I (mTupleDecl c) \<and> conj_holds I' (c\<lparr>mTupleDecl := []\<rparr>)"
    using assms(1) s(2) by (auto simp: conj_holds_def conj_wf_def holds_eq_def holds_ineq_def)
  with c' show thesis by (intro that[of c']) (simp_all add: substituteInConstraints_def)
qed

section \<open>Constants of the declaration as equalities\<close>

lemma conj_holds_addEquality_decl:
  assumes "conj_wf c" "wf_exp e"
  shows "conj_holds I (addEquality (c\<lparr>mTupleDecl := td\<rparr>) e)
    \<longleftrightarrow> decl_holds I td \<and> conj_holds I (c\<lparr>mTupleDecl := []\<rparr>) \<and> holds_eq I e"
proof -
  have "conj_wf (c\<lparr>mTupleDecl := td\<rparr>)" using assms(1) by (simp add: conj_wf_def)
  from conj_addEquality(2)[OF this assms(2), of I] show ?thesis by (auto simp: conj_holds_def)
qed

lemma wf_conj_decl [simp]: "conj_wf (c\<lparr>mTupleDecl := td\<rparr>) = conj_wf c" "conj_sorted (c\<lparr>mTupleDecl := td\<rparr>) = conj_sorted c"
  by (simp_all add: conj_wf_def conj_sorted_def)

lemma push_const_step_sound:
  assumes "conj_wf c" "i < conj_arity c"
  shows "conj_wf (push_const_step c i)" "conj_arity (push_const_step c i) = conj_arity c"
    "conj_holds I (push_const_step c i) \<longleftrightarrow> conj_holds I c"
    "mTupleDecl (push_const_step c i) ! j = (if j = i \<and> mIsConst (mTupleDecl c ! i)
       then (mTupleDecl c ! i)\<lparr>mIsConst := False, mVarString := ''c_'' @ show_int (mConstVal (mTupleDecl c ! i))\<rparr>
       else mTupleDecl c ! j)"
    "mInArity (push_const_step c i) = mInArity c"
    "conj_sorted c \<Longrightarrow> conj_sorted (push_const_step c i)"
proof -
  let ?x = "mTupleDecl c ! i"
  let ?td = "(mTupleDecl c)[i := ?x\<lparr>mIsConst := False, mVarString := ''c_'' @ show_int (mConstVal ?x)\<rparr>]"
  let ?e = "addTerm (addTerm empty_exp (TupleVarTerm 1 (int i))) (Term (-1 * mConstVal ?x))"
  have e: "wf_exp ?e" by (intro wf_addTerm) simp_all
  have h: "holds_eq I ?e \<longleftrightarrow> tv I (int i) = mConstVal ?x"
    by (simp add: holds_eq_def eval_addTerm)
  have d: "decl_holds I (mTupleDecl c) \<longleftrightarrow> decl_holds I ?td \<and> (mIsConst ?x \<longrightarrow> tv I (int i) = mConstVal ?x)"
    using assms(2) by (auto simp: decl_holds_def conj_arity_def nth_list_update)
  have wf: "conj_wf (c\<lparr>mTupleDecl := ?td\<rparr>)" using assms(1) by simp
  note st = conj_addEquality[OF wf e]
  show "conj_wf (push_const_step c i)" "conj_arity (push_const_step c i) = conj_arity c"
    "mInArity (push_const_step c i) = mInArity c"
    using st(1) assms(1) by (simp_all add: push_const_step_def Let_def conj_arity_def)
  show "conj_sorted c \<Longrightarrow> conj_sorted (push_const_step c i)"
    using st(3) by (simp add: push_const_step_def Let_def)
  show "conj_holds I (push_const_step c i) \<longleftrightarrow> conj_holds I c"
    using conj_holds_addEquality_decl[OF assms(1) e, of I ?td] d h
    by (auto simp: push_const_step_def Let_def conj_holds_def)
  show "mTupleDecl (push_const_step c i) ! j = (if j = i \<and> mIsConst ?x
       then ?x\<lparr>mIsConst := False, mVarString := ''c_'' @ show_int (mConstVal ?x)\<rparr> else mTupleDecl c ! j)"
    using assms(2) by (auto simp: push_const_step_def Let_def conj_arity_def nth_list_update)
qed

lemma pushConstToConstraints_sound:
  assumes "conj_wf c"
  shows "conj_wf (pushConstToConstraints c)" "conj_arity (pushConstToConstraints c) = conj_arity c"
    "conj_holds I (pushConstToConstraints c) \<longleftrightarrow> conj_holds I c"
    "\<forall>e \<in> set (mTupleDecl (pushConstToConstraints c)). \<not> mIsConst e"
    "mInArity (pushConstToConstraints c) = mInArity c"
    "conj_sorted c \<Longrightarrow> conj_sorted (pushConstToConstraints c)"
proof -
  have "n \<le> conj_arity c \<Longrightarrow>
    (let c' = foldl push_const_step c [0..<n] in
      conj_wf c' \<and> conj_arity c' = conj_arity c \<and> (conj_holds I c' \<longleftrightarrow> conj_holds I c)
      \<and> (\<forall>j < n. \<not> mIsConst (mTupleDecl c' ! j)) \<and> mInArity c' = mInArity c
      \<and> (conj_sorted c \<longrightarrow> conj_sorted c'))" for n
  proof (induction n)
    case (Suc n)
    let ?c = "foldl push_const_step c [0..<n]"
    have ok: "conj_wf ?c" "n < conj_arity ?c" using Suc by (simp_all add: Let_def)
    show ?case using Suc push_const_step_sound[OF ok] by (auto simp: Let_def less_Suc_eq)
  qed (simp add: assms)
  from this[of "conj_arity c"] show
    "conj_wf (pushConstToConstraints c)" "conj_arity (pushConstToConstraints c) = conj_arity c"
    "conj_holds I (pushConstToConstraints c) \<longleftrightarrow> conj_holds I c"
    "\<forall>e \<in> set (mTupleDecl (pushConstToConstraints c)). \<not> mIsConst e"
    "mInArity (pushConstToConstraints c) = mInArity c"
    "conj_sorted c \<Longrightarrow> conj_sorted (pushConstToConstraints c)"
    by (auto simp: Let_def pushConstToConstraints_def conj_arity_def all_set_conv_all_nth)
qed

end
