(* ===== verification/Conj_Solve.thy ===== *)
theory Conj_Solve
  imports Conj_Semantics
begin

text \<open>
  The operations of a conjunction that solve its equalities: the search for functions, and moving
  constants from the equalities into the tuple declaration. What they find is right at every point of
  the conjunction as long as \<open>solveForFactor\<close> really solves.
\<close>

section \<open>Solving the equalities\<close>

text \<open>
  Where \<open>solveForFactor\<close> has to invert a call, what it returns is a solution only if one call holds the
  factor and inverting it leaves the factor alone with a usable coefficient.
\<close>

definition exposes :: "(string \<Rightarrow> string) \<Rightarrow> (string \<Rightarrow> nat \<times> nat) \<Rightarrow> exp \<Rightarrow> trm \<Rightarrow> bool" where
  "exposes qinv sig e factor \<longleftrightarrow>
     (findMatchingFactor e factor = Inr None \<longrightarrow>
       (\<forall>x. invertFuncToExposeFactor qinv e factor = Inr (Some x) \<longrightarrow>
          (\<exists>t. dependents factor (mTerms e) = [t] \<and> proper_call qinv sig t)
          \<and> (\<exists>m. findMatchingFactor x factor = Inr (Some m) \<and> isDivisible e (coefficient m) = Inr True)))"

lemma invert_fold_no_inverse:
  "(\<And>f. qinv f = '''') \<Longrightarrow> fold_result (invert_step qinv factor) (s, None) ts = Inr st \<Longrightarrow> snd st = None"
proof (induction ts arbitrary: s)
  case (Cons t ts)
  have "\<exists>s'. invert_step qinv factor (s, None) t = Inr (s', None)"
    using Cons.prems(1) by (cases t) (simp_all add: invert_step_def)
  then obtain s' where "invert_step qinv factor (s, None) t = Inr (s', None)" ..
  with Cons.prems(2) have "fold_result (invert_step qinv factor) (s', None) ts = Inr st" by simp
  with Cons.IH[OF Cons.prems(1)] show ?case by blast
qed auto

lemma exposes_no_inverse: "(\<And>f. qinv f = '''') \<Longrightarrow> exposes qinv sig e factor"
  using invert_fold_no_inverse[of qinv factor "''''" "mTerms e"]
  by (auto simp: exposes_def invertFuncToExposeFactor_def invert_scan_def split: option.splits)

lemma solve_sound:
  assumes "wf_exp e" "wf_trm factor" "exposes qinv sig e factor" "inverts_arguments qinv sig I"
    "solveForFactor qinv e factor = Inr (Some r)" "eval_exp I e = 0"
  shows "eval_trm I factor = eval_exp I r"
proof -
  have one: "coefficient factor = 1" using assms(5) by (auto simp: solveForFactor_def split: if_splits)
  from assms(5) one obtain mm where mm: "findMatchingFactor e factor = Inr mm"
    by (auto simp: solveForFactor_def)
  show ?thesis
  proof (cases mm)
    case (Some m)
    with mm obtain r' where r': "solveForFactor qinv e factor = Inr (Some r')"
      "divideBy (addTerm e (multiplyBy_term factor (- coefficient m))) (- coefficient m) = Inr r'"
      "coefficient m \<noteq> 0" by (metis solve_at_term)
    from moved_factor_eval[OF assms(1,2) one r'(3,2), of I] r' assms(5,6) show ?thesis by simp
  next
    case None
    with mm one assms(5) obtain x where x: "invertFuncToExposeFactor qinv e factor = Inr (Some x)"
      by (auto simp: solveForFactor_def solve_finish_def split: option.splits)
    with assms(3) mm None obtain t m where t: "dependents factor (mTerms e) = [t]" "proper_call qinv sig t"
      and m: "findMatchingFactor x factor = Inr (Some m)" "isDivisible e (coefficient m) = Inr True"
      by (auto simp: exposes_def)
    obtain r' where r': "solveForFactor qinv e factor = Inr (Some r')"
      "divideBy (addTerm x (multiplyBy_term factor (- coefficient m))) (- coefficient m) = Inr r'"
      "coefficient m \<noteq> 0"
      by (rule solve_by_inverting[OF mm[unfolded None] x m])
    note X = invert_exposes[OF assms(1) t assms(4) x]
    from moved_factor_eval[OF X(1) assms(2) one r'(3,2), of I] X(2)[OF assms(6)] r' assms(5)
    show ?thesis by simp
  qed
qed

lemma find_function_eqs_Some:
  "find_function_eqs qinv arity loc s e qs = Inr (Some (x, rest)) \<Longrightarrow>
    \<exists>q \<in> set qs. solveForFactor qinv q (TupleVarTerm 1 loc) = Inr (Some x)
      \<and> set qs = insert q (set rest)
      \<and> (\<forall>j < arity. \<not> (s \<le> int j \<and> int j \<le> e) \<longrightarrow> \<not> dependsOn x (TupleVarTerm 1 (int j)))"
proof (induction qs arbitrary: rest)
  case (Cons q qs)
  then obtain sol where sol: "solveForFactor qinv q (TupleVarTerm 1 loc) = Inr sol" by auto
  show ?case
  proof (cases "\<exists>x0. sol = Some x0 \<and> \<not> list_ex (\<lambda>j. \<not> (s \<le> int j \<and> int j \<le> e) \<and> dependsOn x0 (TupleVarTerm 1 (int j))) [0..<arity]")
    case True
    then obtain x0 where x0: "sol = Some x0" "\<not> list_ex (\<lambda>j. \<not> (s \<le> int j \<and> int j \<le> e) \<and> dependsOn x0 (TupleVarTerm 1 (int j))) [0..<arity]"
      by blast
    with sol Cons.prems have "x0 = x" "rest = qs" by (simp_all add: Let_def)
    with sol x0 show ?thesis by (auto simp: list_ex_iff)
  next
    case False
    with sol Cons.prems obtain rest' where "find_function_eqs qinv arity loc s e qs = Inr (Some (x, rest'))" "rest = q # rest'"
      by (auto simp: Let_def split: option.splits if_splits)
    with Cons.IH[of rest'] show ?thesis by auto
  qed
qed simp

section \<open>Functions\<close>

text \<open>Points that agree on everything but some tuple variables.\<close>

definition same_outside :: "int set \<Rightarrow> interp \<Rightarrow> interp \<Rightarrow> bool" where
  "same_outside L I J \<longleftrightarrow> sym I = sym J \<and> uf I = uf J \<and> (\<forall>l. l \<notin> L \<longrightarrow> tv I l = tv J l)"

lemma independent_eval:
  "same_outside L I J \<Longrightarrow> \<forall>l \<in> L. \<not> dependsOn_trm t (TupleVarTerm 1 l) \<Longrightarrow> eval_trm I t = eval_trm J t"
  "same_outside L I J \<Longrightarrow> \<forall>l \<in> L. \<not> dependsOn e (TupleVarTerm 1 l) \<Longrightarrow> eval_exp I e = eval_exp J e"
proof (induction t and e rule: trm.induct exp.induct)
  case (TupleVarTerm c l)
  then have "l \<notin> L" by (auto simp: factorMatches_def)
  with TupleVarTerm show ?case by (simp add: same_outside_def)
next
  case (UFCallTerm c f es i)
  from UFCallTerm.prems(2) have "\<forall>l \<in> L. \<not> list_ex (\<lambda>a. dependsOn a (TupleVarTerm 1 l)) es"
    by (auto split: if_splits)
  with UFCallTerm have "map (eval_exp I) es = map (eval_exp J) es" by (auto simp: list_ex_iff)
  then have "uf I f (tupleIndex i) (map (eval_exp I) es) = uf I f (tupleIndex i) (map (eval_exp J) es)"
    by (rule arg_cong)
  with UFCallTerm.prems(1) show ?case by (simp add: same_outside_def)
next
  case (Exp ts et)
  then have "map (eval_trm I) ts = map (eval_trm J) ts" by (auto simp: list_ex_iff)
  then show ?case by (simp only: eval_exp.simps)
qed (simp_all add: same_outside_def)

text \<open>A location with a function has its value determined by the variables the function may use.\<close>

lemma findFunction_value:
  assumes "findFunction qinv c i s e = Inr (Some x)" "conj_wf c" "conj_holds I c"
    "\<forall>q \<in> set (mEqualities c). exposes qinv sig q (TupleVarTerm 1 (int i))" "inverts_arguments qinv sig I"
  shows "tv I (int i) = eval_exp I x"
    "j < conj_arity c \<Longrightarrow> \<not> (s \<le> int j \<and> int j \<le> e) \<Longrightarrow> \<not> dependsOn x (TupleVarTerm 1 (int j))"
proof -
  have i: "i < length (mTupleDecl c)" using assms(1) by (auto simp: findFunction_def conj_arity_def split: if_splits)
  have "tv I (int i) = eval_exp I x \<and> (\<forall>j < conj_arity c. \<not> (s \<le> int j \<and> int j \<le> e) \<longrightarrow> \<not> dependsOn x (TupleVarTerm 1 (int j)))"
  proof (cases "mIsConst (mTupleDecl c ! i)")
    case True
    with assms(1) i have x: "x = addTerm empty_exp (Term (mConstVal (mTupleDecl c ! i)))"
      by (simp add: findFunction_def conj_arity_def)
    have "tv I (int i) = mConstVal (mTupleDecl c ! i)"
      using assms(3) True i by (simp add: conj_holds_def decl_holds_def)
    moreover have "\<not> dependsOn x (TupleVarTerm 1 l)" for l
      unfolding x by (simp add: addTerm_def factorMatches_def Term_factorMatches_def)
    ultimately show ?thesis by (simp add: x)
  next
    case False
    with assms(1) i obtain rest where
      "find_function_eqs qinv (conj_arity c) (int i) s e (mEqualities c) = Inr (Some (x, rest))"
      by (auto simp: findFunction_def conj_arity_def)
    from find_function_eqs_Some[OF this] obtain q where q: "q \<in> set (mEqualities c)"
      "solveForFactor qinv q (TupleVarTerm 1 (int i)) = Inr (Some x)"
      "\<forall>j < conj_arity c. \<not> (s \<le> int j \<and> int j \<le> e) \<longrightarrow> \<not> dependsOn x (TupleVarTerm 1 (int j))" by blast
    have "eval_trm I (TupleVarTerm 1 (int i)) = eval_exp I x"
      by (rule solve_sound[OF _ _ _ assms(5) q(2)])
        (use q(1) assms(2-4) in \<open>auto simp: conj_wf_def conj_holds_def holds_eq_def\<close>)
    with q(3) show ?thesis by simp
  qed
  then show "tv I (int i) = eval_exp I x"
    "j < conj_arity c \<Longrightarrow> \<not> (s \<le> int j \<and> int j \<le> e) \<Longrightarrow> \<not> dependsOn x (TupleVarTerm 1 (int j))" by blast+
qed

lemma all_functions_True:
  "all_functions qinv c s e is = Inr True \<longleftrightarrow> (\<forall>i \<in> set is. \<exists>x. findFunction qinv c i s e = Inr (Some x))"
  by (induction "is") (auto split: if_splits)

lemma all_functions_determine:
  assumes "all_functions qinv c s e is = Inr True" "conj_wf c" "conj_holds I c" "conj_holds J c"
    "\<forall>q \<in> set (mEqualities c). \<forall>i \<in> set is. exposes qinv sig q (TupleVarTerm 1 (int i))"
    "inverts_arguments qinv sig I" "inverts_arguments qinv sig J"
    "same_outside (int ` set is) I J" "\<forall>i \<in> set is. i < conj_arity c \<and> \<not> (s \<le> int i \<and> int i \<le> e)"
  shows "\<forall>i \<in> set is. tv I (int i) = tv J (int i)"
proof
  fix i assume i: "i \<in> set is"
  with assms(1) obtain x where x: "findFunction qinv c i s e = Inr (Some x)" by (auto simp: all_functions_True)
  have ex: "\<forall>q \<in> set (mEqualities c). exposes qinv sig q (TupleVarTerm 1 (int i))" using assms(5) i by blast
  have "\<forall>l \<in> int ` set is. \<not> dependsOn x (TupleVarTerm 1 l)"
    using findFunction_value(2)[OF x assms(2,3) ex assms(6)] assms(9) by auto
  then have "eval_exp I x = eval_exp J x" by (rule independent_eval(2)[OF assms(8)])
  with findFunction_value(1)[OF x assms(2) assms(3) ex assms(6)] findFunction_value(1)[OF x assms(2) assms(4) ex assms(7)]
  show "tv I (int i) = tv J (int i)" by simp
qed

section \<open>Constants of the equalities in the declaration\<close>

text \<open>The factor is solved for as a term of the expression, not by inverting a call.\<close>

definition direct :: "(string \<Rightarrow> string) \<Rightarrow> exp \<Rightarrow> trm \<Rightarrow> bool" where
  "direct qinv e factor \<longleftrightarrow>
     (findMatchingFactor e factor = Inr None \<longrightarrow> (\<forall>x. invertFuncToExposeFactor qinv e factor \<noteq> Inr (Some x)))"

lemma direct_no_inverse: "(\<And>f. qinv f = '''') \<Longrightarrow> direct qinv e factor"
  using invert_fold_no_inverse[of qinv factor "''''" "mTerms e"]
  by (auto simp: direct_def invertFuncToExposeFactor_def invert_scan_def split: option.splits)

lemma solve_direct_iff:
  assumes "wf_exp e" "wf_trm factor" "direct qinv e factor" "solveForFactor qinv e factor = Inr (Some r)"
  shows "eval_exp I e = 0 \<longleftrightarrow> eval_trm I factor = eval_exp I r"
proof -
  have one: "coefficient factor = 1" using assms(4) by (auto simp: solveForFactor_def split: if_splits)
  from assms(4) one obtain mm where mm: "findMatchingFactor e factor = Inr mm"
    by (auto simp: solveForFactor_def)
  then obtain m where "mm = Some m" using assms(3,4) one
    by (cases mm) (auto simp: solveForFactor_def solve_finish_def direct_def split: option.splits)
  with mm obtain r' where r': "solveForFactor qinv e factor = Inr (Some r')"
    "divideBy (addTerm e (multiplyBy_term factor (- coefficient m))) (- coefficient m) = Inr r'"
    "coefficient m \<noteq> 0" by (metis solve_at_term)
  from moved_factor_eval[OF assms(1,2) one r'(3,2), of I] r' assms(4) show ?thesis by simp
qed

lemma const_of_solution_Some: "const_of_solution (Some r) = Some v \<Longrightarrow> eval_exp I r = v"
proof -
  assume a: "const_of_solution (Some r) = Some v"
  show ?thesis
  proof (cases "equalsZero r")
    case True
    with a equalsZero_eval[of r I] show ?thesis by (simp add: const_of_solution_def)
  next
    case False
    with a obtain t where t: "getTerm r = Some t" "isConst_term t" "coefficient t = v"
      by (auto simp: const_of_solution_def split: option.splits if_splits)
    then have "mTerms r = [t]" by (cases "mTerms r") (auto simp: getTerm_def split: if_splits)
    with t show ?thesis by (cases t) (auto simp: isConst_term_def eval_exp_terms)
  qed
qed

text \<open>An equality fixes a location when its solution for the location is a constant.\<close>

definition fixes_loc :: "(string \<Rightarrow> string) \<Rightarrow> exp \<Rightarrow> nat \<Rightarrow> int \<Rightarrow> bool" where
  "fixes_loc qinv e i v \<longleftrightarrow>
     (\<exists>r. solveForFactor qinv e (TupleVarTerm 1 (int i)) = Inr (Some r) \<and> const_of_solution (Some r) = Some v)"

lemma fixes_loc_iff:
  assumes "wf_exp e" "direct qinv e (TupleVarTerm 1 (int i))" "fixes_loc qinv e i v"
  shows "holds_eq I e \<longleftrightarrow> tv I (int i) = v"
proof -
  obtain r where r: "solveForFactor qinv e (TupleVarTerm 1 (int i)) = Inr (Some r)"
    "const_of_solution (Some r) = Some v" using assms(3) by (auto simp: fixes_loc_def)
  from solve_direct_iff[OF assms(1) _ assms(2) r(1), of I] const_of_solution_Some[OF r(2), of I]
  show ?thesis by (simp add: holds_eq_def)
qed

lemma assign_nat:
  "set (std_assign (<) (i::nat) v m) \<subseteq> insert (i, v) (set m)"
  "fst ` set (std_assign (<) i v m) = insert i (fst ` set m)"
  by (induction m) (auto simp: by_value.incomparable_key split: if_splits)

lemma std_ok_distinct: "std_ok (<) (m :: (nat \<times> 'v) list) \<Longrightarrow> distinct (map fst m)"
  by (induction m) (fastforce simp: list_all_iff)+

text \<open>What the two loops keep: entries come from equalities that fix their location, and a recorded
  equality has its location among the entries.\<close>

definition push_inv :: "(string \<Rightarrow> string) \<Rightarrow> tuple_decl \<Rightarrow> exp list \<Rightarrow> (nat, int) std_map \<times> exp list \<Rightarrow> bool" where
  "push_inv qinv td eqs st \<longleftrightarrow> std_ok (<) (fst st)
     \<and> (\<forall>q \<in> set (fst st). fst q < length td \<and> \<not> mIsConst (td ! fst q) \<and> (\<exists>e \<in> set eqs. fixes_loc qinv e (fst q) (snd q)))
     \<and> (\<forall>e \<in> set (snd st). e \<in> set eqs \<and> (\<exists>i < length td. \<exists>v. i \<in> fst ` set (fst st) \<and> fixes_loc qinv e i v))"

lemma push_eq_step_inv:
  assumes "push_inv qinv td eqs st" "e \<in> set eqs" "i < length td" "push_eq_step qinv td e st i = Inr st'"
  shows "push_inv qinv td eqs st'"
proof (cases "mIsConst (td ! i)")
  case False
  with assms(4) have "\<exists>sol. solveForFactor qinv e (TupleVarTerm 1 (int i)) = Inr sol
    \<and> (case const_of_solution sol of None \<Rightarrow> Inr st
      | Some v \<Rightarrow> Inr (std_assign (<) i v (fst st), insert_unique exp_less e (snd st))) = (Inr st' :: _ result)"
    by (simp add: push_eq_step_def)
  then obtain sol where sol: "solveForFactor qinv e (TupleVarTerm 1 (int i)) = Inr sol"
    and st': "(case const_of_solution sol of None \<Rightarrow> Inr st
      | Some v \<Rightarrow> Inr (std_assign (<) i v (fst st), insert_unique exp_less e (snd st))) = (Inr st' :: _ result)" by blast
  show ?thesis
  proof (cases "const_of_solution sol")
    case (Some v)
    then obtain r where "sol = Some r" by (auto simp: const_of_solution_def split: option.splits)
    with sol Some have fx: "fixes_loc qinv e i v" by (auto simp: fixes_loc_def)
    have s: "fst st' = std_assign (<) i v (fst st)" "set (snd st') \<subseteq> insert e (set (snd st))"
      using Some st' exp_order.set_insert_unique[of e "snd st"] by auto
    show ?thesis unfolding push_inv_def
    proof (intro conjI ballI)
      show "std_ok (<) (fst st')" using assms(1) s(1) by (simp add: push_inv_def by_value.assign_ok)
    next
      fix q assume "q \<in> set (fst st')"
      then have "q = (i, v) \<or> q \<in> set (fst st)" using assign_nat(1)[of i v "fst st"] s(1) by auto
      then show "fst q < length td" "\<not> mIsConst (td ! fst q)" "\<exists>e \<in> set eqs. fixes_loc qinv e (fst q) (snd q)"
        using assms(1,2,3) fx False by (auto simp: push_inv_def)
    next
      fix x assume "x \<in> set (snd st')"
      then have "x = e \<or> x \<in> set (snd st)" using s(2) by auto
      then show "x \<in> set eqs" "\<exists>i < length td. \<exists>v. i \<in> fst ` set (fst st') \<and> fixes_loc qinv x i v"
        using assms(1,2,3) fx unfolding s(1) assign_nat(2) push_inv_def by blast+
    qed
  qed (use st' assms(1) in auto)
qed (use assms in \<open>auto simp: push_eq_step_def\<close>)

lemma fold_result_inv:
  "fold_result f b xs = Inr b' \<Longrightarrow> P b \<Longrightarrow> (\<And>x b b'. x \<in> set xs \<Longrightarrow> P b \<Longrightarrow> f b x = Inr b' \<Longrightarrow> P b') \<Longrightarrow> P b'"
proof (induction xs arbitrary: b)
  case (Cons x xs)
  then obtain b1 where b1: "f b x = Inr b1" "fold_result f b1 xs = Inr b'" by auto
  then show ?case using Cons by (meson list.set_intros)
qed simp

lemma push_loops_inv:
  assumes "fold_result (\<lambda>st e. fold_result (push_eq_step qinv td e) st [0..<length td]) ([], []) eqs = Inr st"
  shows "push_inv qinv td eqs st"
  using assms
proof (rule fold_result_inv)
  show "push_inv qinv td eqs ([], [])" by (simp add: push_inv_def)
next
  fix e b b' assume "e \<in> set eqs" "push_inv qinv td eqs b"
    "fold_result (push_eq_step qinv td e) b [0..<length td] = Inr b'"
  then show "push_inv qinv td eqs b'"
    by (intro fold_result_inv[of "push_eq_step qinv td e" b "[0..<length td]" b' "push_inv qinv td eqs"])
      (auto intro: push_eq_step_inv)
qed

lemma decl_constants:
  assumes "distinct (map fst m)" "\<forall>q \<in> set m. fst q < length td \<and> \<not> mIsConst (td ! fst q)"
  shows "decl_holds I (foldl (\<lambda>td q. td[fst q := (td ! fst q)\<lparr>mIsConst := True, mConstVal := snd q\<rparr>]) td m)
      \<longleftrightarrow> decl_holds I td \<and> (\<forall>q \<in> set m. tv I (int (fst q)) = snd q)"
  using assms
proof (induction m arbitrary: td)
  case (Cons q m)
  let ?td = "td[fst q := (td ! fst q)\<lparr>mIsConst := True, mConstVal := snd q\<rparr>]"
  have "\<forall>r \<in> set m. fst r < length ?td \<and> \<not> mIsConst (?td ! fst r)"
    using Cons.prems by (auto simp: nth_list_update)
  moreover have "decl_holds I ?td \<longleftrightarrow> decl_holds I td \<and> tv I (int (fst q)) = snd q"
    using Cons.prems by (auto simp: decl_holds_def nth_list_update)
  ultimately show ?case using Cons by auto
qed simp

lemma pushConstConstraints_sound:
  assumes "conj_wf c" "pushConstConstraintsToTupleDecl qinv c = Inr c'"
    "\<forall>e \<in> set (mEqualities c). \<forall>i < conj_arity c. direct qinv e (TupleVarTerm 1 (int i))"
  shows "conj_wf c'" "conj_holds I c \<Longrightarrow> conj_holds I c'" "conj_holds J c \<Longrightarrow> conj_holds I c' \<Longrightarrow> conj_holds I c"
proof -
  obtain m rem where st: "fold_result (\<lambda>st e. fold_result (push_eq_step qinv (mTupleDecl c) e) st [0..<conj_arity c])
      ([], []) (mEqualities c) = Inr (m, rem)"
    and c': "c' = c\<lparr>mTupleDecl :=
           foldl (\<lambda>td q. td[fst q := (td ! fst q)\<lparr>mIsConst := True, mConstVal := snd q\<rparr>]) (mTupleDecl c) m,
         mEqualities := filter (\<lambda>e. \<not> list_ex (incomparable exp_less e) rem) (mEqualities c)\<rparr>"
    using assms(2) by (auto simp: pushConstConstraintsToTupleDecl_def)
  note inv = push_loops_inv[OF st[unfolded conj_arity_def], unfolded push_inv_def fst_conv snd_conv]
  have d: "decl_holds I (mTupleDecl c') \<longleftrightarrow> decl_holds I (mTupleDecl c) \<and> (\<forall>q \<in> set m. tv I (int (fst q)) = snd q)" for I
    unfolding c' by (simp, rule decl_constants) (use inv std_ok_distinct in auto)
  have fx: "holds_eq I e \<longleftrightarrow> tv I (int i) = v" if "e \<in> set (mEqualities c)" "i < conj_arity c" "fixes_loc qinv e i v" for e i v I
    using fixes_loc_iff[OF _ _ that(3)] that(1,2) assms(1,3) by (auto simp: conj_wf_def)
  have entry: "tv I (int (fst q)) = snd q" if "conj_holds I c" "q \<in> set m" for I q
    using that inv fx by (fastforce simp: conj_holds_def conj_arity_def)
  show "conj_wf c'" using assms(1) by (auto simp: conj_wf_def c')
  show "conj_holds I c'" if "conj_holds I c"
    using that entry[OF that] d[of I] by (auto simp: conj_holds_def) (auto simp: c')
  show "conj_holds I c" if J: "conj_holds J c" and I: "conj_holds I c'"
  proof -
    have "holds_eq I e" if e: "e \<in> set (mEqualities c)" for e
    proof (cases "list_ex (incomparable exp_less e) rem")
      case True
      then obtain r where r: "r \<in> set rem" "incomparable exp_less e r" by (auto simp: list_ex_iff)
      with inv obtain i v where i: "r \<in> set (mEqualities c)" "i < conj_arity c" "i \<in> fst ` set m" "fixes_loc qinv r i v"
        unfolding conj_arity_def by blast
      from i(3) obtain w where w: "(i, w) \<in> set m" by auto
      have "w = v" using entry[OF J w] fx[OF i(1,2,4), of J] J i(1) by (simp add: conj_holds_def)
      moreover have "tv I (int i) = w" using I d[of I] w by (auto simp: conj_holds_def)
      ultimately have "holds_eq I r" using fx[OF i(1,2,4), of I] by simp
      with r(2) show ?thesis
        using assms(1) e i(1) eqs.holds_key[of e r I] by (auto simp: conj_wf_def exp_order.incomparable_key)
    next
      case False
      with I e show ?thesis by (simp add: conj_holds_def c')
    qed
    with I d[of I] show ?thesis by (simp add: conj_holds_def) (simp add: c')
  qed
qed

text \<open>An equality that leaves the list fixes a location of the tuple.\<close>

lemma pushConstConstraints_removed:
  assumes "conj_wf c" "pushConstConstraintsToTupleDecl qinv c = Inr c'"
    "\<forall>e \<in> set (mEqualities c). \<forall>i < conj_arity c. direct qinv e (TupleVarTerm 1 (int i))"
    "e \<in> set (mEqualities c)" "e \<notin> set (mEqualities c')"
  shows "\<exists>i < conj_arity c. \<exists>v. \<forall>I. holds_eq I e \<longleftrightarrow> tv I (int i) = v"
proof -
  obtain m rem where st: "fold_result (\<lambda>st e. fold_result (push_eq_step qinv (mTupleDecl c) e) st [0..<conj_arity c])
      ([], []) (mEqualities c) = Inr (m, rem)"
    and c': "mEqualities c' = filter (\<lambda>e. \<not> list_ex (incomparable exp_less e) rem) (mEqualities c)"
    using assms(2) by (auto simp: pushConstConstraintsToTupleDecl_def)
  note inv = push_loops_inv[OF st[unfolded conj_arity_def], unfolded push_inv_def fst_conv snd_conv]
  from assms(4,5) c' obtain r where r: "r \<in> set rem" "incomparable exp_less e r" by (auto simp: list_ex_iff)
  with inv obtain i v where i: "r \<in> set (mEqualities c)" "i < conj_arity c" "fixes_loc qinv r i v"
    unfolding conj_arity_def by blast
  have "holds_eq I e \<longleftrightarrow> holds_eq I r" for I
    using r(2) assms(1,4) i(1) eqs.holds_key[of e r I] by (auto simp: conj_wf_def exp_order.incomparable_key)
  moreover have "holds_eq I r \<longleftrightarrow> tv I (int i) = v" for I
    using fixes_loc_iff[OF _ _ i(3)] i(1,2) assms(1,3) by (auto simp: conj_wf_def)
  ultimately show ?thesis using i(2) by auto
qed

lemma pushConst_frame:
  "pushConstConstraintsToTupleDecl qinv c = Inr c' \<Longrightarrow>
    mInequalities c' = mInequalities c \<and> mInArity c' = mInArity c \<and> conj_arity c' = conj_arity c"
proof -
  have "length (foldl (\<lambda>td q. td[fst q := (td ! fst q)\<lparr>mIsConst := True, mConstVal := snd q\<rparr>]) td m) = length td" for td m
    by (induction m arbitrary: td) auto
  then show "pushConstConstraintsToTupleDecl qinv c = Inr c' \<Longrightarrow>
    mInequalities c' = mInequalities c \<and> mInArity c' = mInArity c \<and> conj_arity c' = conj_arity c"
    by (auto simp: pushConstConstraintsToTupleDecl_def conj_arity_def)
qed

end
