(* ===== verification/Conj_Rename.thy ===== *)
theory Conj_Rename
  imports Conj_Semantics
begin

text \<open>
  Renaming the tuple variables of a conjunction and the inverse of a relation's conjunction, which
  exchanges the input and the output variables.
\<close>

section \<open>The renamed declaration\<close>

lemma largest_from:
  "m \<le> foldl (\<lambda>m l. if l > m then l else m) (m::int) ls"
  "l \<in> set ls \<Longrightarrow> l \<le> foldl (\<lambda>m l. if l > m then l else m) m ls"
proof -
  have "m \<le> foldl (\<lambda>m l. if l > m then l else m) m ls \<and> (\<forall>l \<in> set ls. l \<le> foldl (\<lambda>m l. if l > m then l else m) m ls)"
  proof (induction ls arbitrary: m)
    case (Cons l ls)
    from Cons.IH[of "if l > m then l else m"] show ?case by (auto split: if_splits)
  qed simp
  then show "m \<le> foldl (\<lambda>m l. if l > m then l else m) m ls"
    "l \<in> set ls \<Longrightarrow> l \<le> foldl (\<lambda>m l. if l > m then l else m) m ls" by auto
qed

lemma largest_reached:
  "foldl (\<lambda>m l. if l > m then l else m) (m::int) ls \<in> insert m (set ls)"
proof (induction ls arbitrary: m)
  case (Cons l ls)
  from Cons.IH[of "if l > m then l else m"] show ?case by (auto split: if_splits)
qed simp

lemma largest_all:
  assumes "set locs = int ` {0..<n}"
  shows "foldl (\<lambda>m l. if l > m then l else m) (-1) locs = int n - 1"
proof (cases "n = 0")
  case False
  have s: "l \<in> set locs \<longleftrightarrow> 0 \<le> l \<and> l < int n" for l
    unfolding assms by (auto simp: image_iff) (metis atLeastLessThan_iff le0 nat_less_iff int_nat_eq)
  from False have "int n - 1 \<in> set locs" unfolding s by simp
  from largest_from(2)[OF this, of "-1"] largest_reached[of "-1" locs] show ?thesis
    using False unfolding insert_iff s by auto
qed (use assms in simp)

text \<open>Copying the elements of a declaration to their new places.\<close>

lemma copy_elems:
  assumes "\<forall>i < n. 0 \<le> locs ! i \<and> nat (locs ! i) < length td0" "n \<le> length td" "inj_on (\<lambda>i. locs ! i) {..<n}"
    "\<forall>e \<in> set td0. \<not> mIsConst e"
  shows "\<exists>td'. fold_result
      (\<lambda>newDecl i. if locs ! i \<ge> 0 then copyTupleElem newDecl td i (nat (locs ! i)) else Inr newDecl)
      td0 [0..<n] = Inr td' \<and> length td' = length td0
    \<and> (\<forall>i < n. td' ! nat (locs ! i) = td ! i)
    \<and> (\<forall>k < length td0. k \<notin> (\<lambda>i. nat (locs ! i)) ` {..<n} \<longrightarrow> \<not> mIsConst (td' ! k))"
  using assms
proof (induction n)
  case (Suc n)
  have "inj_on (\<lambda>i. locs ! i) {..<n}" by (rule inj_on_subset[OF Suc.prems(3)]) auto
  with Suc obtain td' where td': "fold_result
      (\<lambda>newDecl i. if locs ! i \<ge> 0 then copyTupleElem newDecl td i (nat (locs ! i)) else Inr newDecl)
      td0 [0..<n] = Inr td'" "length td' = length td0" "\<forall>i < n. td' ! nat (locs ! i) = td ! i"
    "\<forall>k < length td0. k \<notin> (\<lambda>i. nat (locs ! i)) ` {..<n} \<longrightarrow> \<not> mIsConst (td' ! k)" by auto
  have new: "nat (locs ! i) \<noteq> nat (locs ! n)" if "i < n" for i
  proof -
    have "locs ! i \<noteq> locs ! n" using that inj_onD[OF Suc.prems(3), of i n] by auto
    moreover have "0 \<le> locs ! i" "0 \<le> locs ! n" using that Suc.prems(1) by auto
    ultimately show ?thesis by (simp add: eq_nat_nat_iff)
  qed
  have app: "fold_result f b (xs @ [x]) = bind_result (fold_result f b xs) (\<lambda>b'. f b' x)" for f b xs and x :: nat
    by (induction xs arbitrary: b) (auto simp: bind_result_def split: sum.splits)
  let ?td = "td'[nat (locs ! n) := td ! n]"
  have l: "nat (locs ! n) < length td'" "n < length td" using Suc.prems(1,2) td'(2) by auto
  have "fold_result
      (\<lambda>newDecl i. if locs ! i \<ge> 0 then copyTupleElem newDecl td i (nat (locs ! i)) else Inr newDecl)
      td0 [0..<Suc n] = Inr ?td"
    using td'(1,2) Suc.prems(1,2) by (simp add: app copyTupleElem_def)
  moreover have "?td ! nat (locs ! i) = td ! i" if "i < Suc n" for i
    using td'(3) l new[of i] that by (cases "i = n") (auto simp: nth_list_update_neq[OF new[symmetric]])
  moreover have "\<forall>k < length td0. k \<notin> (\<lambda>i. nat (locs ! i)) ` {..<Suc n} \<longrightarrow> \<not> mIsConst (?td ! k)"
    using td'(4) by (auto simp: nth_list_update lessThan_Suc)
  ultimately show ?case using td'(2) by auto
qed simp

section \<open>What renaming does to the points\<close>

text \<open>A renaming of all variables: every old location has a new one, no two the same.\<close>

definition total_locs :: "nat \<Rightarrow> int list \<Rightarrow> bool" where
  "total_locs n locs \<longleftrightarrow> length locs = n \<and> (\<forall>l \<in> set locs. 0 \<le> l) \<and> distinct locs"

lemma total_injective: "total_locs n locs \<Longrightarrow> injective_locs locs"
  by (simp add: total_locs_def injective_locs_def)

definition conj_tvars :: "conjunction \<Rightarrow> int set" where
  "conj_tvars c = (\<Union>e \<in> set (mEqualities c) \<union> set (mInequalities c). tvars e)"

lemma map_remap:
  assumes "map_result (remapTupleVars locs) es = Inr es'"
  shows "map (eval_exp I) es' = map (eval_exp (rename_interp locs I)) es" "\<forall>e \<in> set es. wf_exp e \<Longrightarrow> \<forall>e \<in> set es'. wf_exp e"
proof -
  from assms have "list_all2 (\<lambda>e e'. remapTupleVars locs e = Inr e') es es'" by (simp add: map_result_Inr_iff)
  then have "map (eval_exp I) es' = map (eval_exp (rename_interp locs I)) es
    \<and> ((\<forall>e \<in> set es. wf_exp e) \<longrightarrow> (\<forall>e \<in> set es'. wf_exp e))"
  proof (induction rule: list_all2_induct)
    case (Cons e es e' es')
    from remap_eval(2)[OF Cons.hyps(1)] Cons.IH show ?case by simp
  qed simp
  then show "map (eval_exp I) es' = map (eval_exp (rename_interp locs I)) es"
    "\<forall>e \<in> set es. wf_exp e \<Longrightarrow> \<forall>e \<in> set es'. wf_exp e" by auto
qed

lemma map_remap_ok:
  assumes "injective_locs locs" "\<forall>e \<in> set es. \<forall>l \<in> tvars e. mapped locs l"
  shows "\<exists>es'. map_result (remapTupleVars locs) es = Inr es'"
  by (rule map_result_total) (use assms remap_iff in blast)

lemma conj_remap_sound:
  assumes "conj_wf c" "total_locs (conj_arity c) locs" "conj_tvars c \<subseteq> {0..<int (conj_arity c)}"
  obtains c' where "conj_remapTupleVars c locs = Inr c'" "conj_wf c'" "mInArity c' = mInArity c"
    "conj_arity c' = nat (foldl (\<lambda>m l. if l > m then l else m) (-1) locs + 1)"
    "\<And>I. conj_holds I c' \<longleftrightarrow> conj_holds (rename_interp locs I) c"
    "\<And>i. i < conj_arity c \<Longrightarrow> mTupleDecl c' ! nat (locs ! i) = mTupleDecl c ! i"
    "\<forall>x \<in> set (mTupleDecl c). \<not> mIsConst x \<Longrightarrow> \<forall>x \<in> set (mTupleDecl c'). \<not> mIsConst x"
proof -
  let ?n = "conj_arity c" and ?max = "foldl (\<lambda>m l. if l > m then l else m) (-1) locs"
  let ?td0 = "TupleDecl_new (nat (?max + 1))"
  have len: "length locs = ?n" and pos: "\<forall>l \<in> set locs. 0 \<le> l" and d: "distinct locs"
    using assms(2) by (auto simp: total_locs_def)
  have m: "mapped locs l" if "0 \<le> l" "l < int ?n" for l
    using that len pos by (auto simp: mapped_def nat_less_iff)
  obtain eqs where eqs: "map_result (remapTupleVars locs) (mEqualities c) = Inr eqs"
    using map_remap_ok[OF total_injective[OF assms(2)], of "mEqualities c"] assms(3) m by (force simp: conj_tvars_def)
  obtain ineqs where ineqs: "map_result (remapTupleVars locs) (mInequalities c) = Inr ineqs"
    using map_remap_ok[OF total_injective[OF assms(2)], of "mInequalities c"] assms(3) m by (force simp: conj_tvars_def)
  have range_ok: "\<forall>i < ?n. 0 \<le> locs ! i \<and> nat (locs ! i) < length ?td0"
  proof (intro allI impI)
    fix i assume "i < ?n"
    then have "locs ! i \<in> set locs" using len by simp
    with pos largest_from(2)[OF this, of "-1"] show "0 \<le> locs ! i \<and> nat (locs ! i) < length ?td0" by auto
  qed
  have "inj_on (\<lambda>i. locs ! i) {..<?n}" using d len by (auto simp: inj_on_def nth_eq_iff_index_eq)
  moreover have "\<forall>e \<in> set ?td0. \<not> mIsConst e" by (auto simp: TupleDecl_new_def)
  ultimately obtain td where td: "fold_result
      (\<lambda>newDecl i. if locs ! i \<ge> 0 then copyTupleElem newDecl (mTupleDecl c) i (nat (locs ! i)) else Inr newDecl)
      ?td0 [0..<?n] = Inr td" "length td = length ?td0" "\<forall>i < ?n. td ! nat (locs ! i) = mTupleDecl c ! i"
    "\<forall>k < length ?td0. k \<notin> (\<lambda>i. nat (locs ! i)) ` {..<?n} \<longrightarrow> \<not> mIsConst (td ! k)"
    using copy_elems[OF range_ok, of "mTupleDecl c"] by (auto simp: conj_arity_def)
  let ?c = "c\<lparr>mEqualities := map normalizeForEquality eqs, mInequalities := ineqs, mTupleDecl := td\<rparr>"
  have decl: "decl_holds I td \<longleftrightarrow> decl_holds (rename_interp locs I) (mTupleDecl c)" for I
  proof -
    have "decl_holds I td \<longleftrightarrow> (\<forall>i < ?n. mIsConst (mTupleDecl c ! i) \<longrightarrow> tv I (locs ! i) = mConstVal (mTupleDecl c ! i))"
    proof
      assume h: "decl_holds I td"
      show "\<forall>i < ?n. mIsConst (mTupleDecl c ! i) \<longrightarrow> tv I (locs ! i) = mConstVal (mTupleDecl c ! i)"
      proof (intro allI impI)
        fix i assume i: "i < ?n" "mIsConst (mTupleDecl c ! i)"
        with range_ok td(2,3) have "nat (locs ! i) < length td" "td ! nat (locs ! i) = mTupleDecl c ! i" by auto
        with h i(2) have "tv I (int (nat (locs ! i))) = mConstVal (mTupleDecl c ! i)"
          unfolding decl_holds_def by metis
        then show "tv I (locs ! i) = mConstVal (mTupleDecl c ! i)" using range_ok i(1) by simp
      qed
    next
      assume h: "\<forall>i < ?n. mIsConst (mTupleDecl c ! i) \<longrightarrow> tv I (locs ! i) = mConstVal (mTupleDecl c ! i)"
      show "decl_holds I td" unfolding decl_holds_def
      proof (intro allI impI)
        fix k assume k: "k < length td" "mIsConst (td ! k)"
        with td(2,4) obtain i where i: "i < ?n" "k = nat (locs ! i)" by auto
        with h k td(3) range_ok show "tv I (int k) = mConstVal (td ! k)" by auto
      qed
    qed
    then show ?thesis by (simp add: decl_holds_def conj_arity_def)
  qed
  have holds: "conj_holds I ?c \<longleftrightarrow> conj_holds (rename_interp locs I) c" for I
    using decl[of I] arg_cong[OF map_remap(1)[OF eqs, of I], of "\<lambda>vs. \<forall>v \<in> set vs. v = 0"]
      arg_cong[OF map_remap(1)[OF ineqs, of I], of "\<lambda>vs. \<forall>v \<in> set vs. v \<ge> 0"]
    by (simp add: conj_holds_def) (simp add: holds_eq_def holds_ineq_def)
  show thesis
  proof (rule that[of ?c])
    show "conj_remapTupleVars c locs = Inr ?c"
      using eqs ineqs td(1) len by (simp add: conj_remapTupleVars_def Let_def)
    have "\<forall>e \<in> set (mEqualities c). wf_exp e" "\<forall>e \<in> set (mInequalities c). wf_exp e"
      using assms(1) by (simp_all add: conj_wf_def)
    from map_remap(2)[OF eqs this(1)] map_remap(2)[OF ineqs this(2)]
    have "\<forall>e \<in> set eqs. wf_exp e" "\<forall>e \<in> set ineqs. wf_exp e" by simp_all
    then show "conj_wf ?c" by (simp add: conj_wf_def wf_normalizeForEquality)
    show "conj_arity ?c = nat (?max + 1)" using td(2) by (simp add: conj_arity_def)
    show "\<forall>x \<in> set (mTupleDecl ?c). \<not> mIsConst x" if no: "\<forall>x \<in> set (mTupleDecl c). \<not> mIsConst x"
    proof
      fix x assume "x \<in> set (mTupleDecl ?c)"
      then obtain k where k: "k < length td" "x = td ! k" by (auto simp: in_set_conv_nth)
      show "\<not> mIsConst x"
      proof (cases "k \<in> (\<lambda>i. nat (locs ! i)) ` {..<?n}")
        case True
        then obtain i where "i < ?n" "x = mTupleDecl c ! i" using k td(3) by auto
        then show ?thesis using no by (simp add: conj_arity_def)
      qed (use k td(2,4) in auto)
    qed
  qed (use holds td(3) in simp_all)
qed

section \<open>The inverse\<close>

text \<open>The point that reads the variables of the inverse: its first variables are the old outputs.\<close>

definition swap_interp :: "nat \<Rightarrow> nat \<Rightarrow> interp \<Rightarrow> interp" where
  "swap_interp inA outA I =
     I\<lparr>tv := \<lambda>l. if 0 \<le> l \<and> l < int inA then tv I (l + int outA)
                 else if int inA \<le> l \<and> l < int (inA + outA) then tv I (l - int inA) else tv I l\<rparr>"

lemma tv_outside:
  "\<forall>l \<in> tvars_trm t. tv I l = tv J l \<Longrightarrow> sym I = sym J \<Longrightarrow> uf I = uf J \<Longrightarrow> eval_trm I t = eval_trm J t"
  "\<forall>l \<in> tvars e. tv I l = tv J l \<Longrightarrow> sym I = sym J \<Longrightarrow> uf I = uf J \<Longrightarrow> eval_exp I e = eval_exp J e"
proof (induction t and e rule: trm.induct exp.induct)
  case (UFCallTerm c f es i)
  then have "map (eval_exp I) es = map (eval_exp J) es" by auto
  then have "uf I f (tupleIndex i) (map (eval_exp I) es) = uf I f (tupleIndex i) (map (eval_exp J) es)"
    by (rule arg_cong)
  with UFCallTerm.prems(3) show ?case by simp
next
  case (Exp ts et)
  then have "map (eval_trm I) ts = map (eval_trm J) ts" by auto
  then show ?case by (simp only: eval_exp.simps)
qed simp_all

lemma conj_holds_tvars:
  assumes "conj_tvars c \<subseteq> {0..<int (conj_arity c)}" "\<And>l. 0 \<le> l \<Longrightarrow> l < int (conj_arity c) \<Longrightarrow> tv I l = tv J l"
    "sym I = sym J" "uf I = uf J"
  shows "conj_holds I c \<longleftrightarrow> conj_holds J c"
proof -
  have "eval_exp I e = eval_exp J e" if "e \<in> set (mEqualities c) \<union> set (mInequalities c)" for e
    by (rule tv_outside(2)) (use that assms in \<open>force simp: conj_tvars_def\<close>)+
  moreover have "decl_holds I (mTupleDecl c) = decl_holds J (mTupleDecl c)"
    using assms(2) by (auto simp: decl_holds_def conj_arity_def)
  ultimately show ?thesis by (simp add: conj_holds_def holds_eq_def holds_ineq_def)
qed

lemma conj_Inverse_sound:
  assumes "conj_wf c" "conj_arity c = inA + outA" "mInArity c = int inA" "conj_tvars c \<subseteq> {0..<int (conj_arity c)}"
  obtains c' where "conj_Inverse c = Inr c'" "conj_wf c'" "conj_arity c' = conj_arity c" "mInArity c' = int outA"
    "\<And>I. conj_holds I c' \<longleftrightarrow> conj_holds (swap_interp inA outA I) c"
proof -
  let ?locs = "map int [outA..<conj_arity c] @ map int [0..<outA]"
  let ?c = "c\<lparr>mInArity := int outA\<rparr>"
  have t: "total_locs (conj_arity ?c) ?locs"
    using assms(2) by (auto simp: total_locs_def conj_arity_def distinct_map)
  have c: "conj_wf ?c" "conj_tvars ?c \<subseteq> {0..<int (conj_arity ?c)}"
    using assms by (auto simp: conj_wf_def conj_tvars_def conj_arity_def)
  obtain c' where c': "conj_remapTupleVars ?c ?locs = Inr c'" "conj_wf c'" "mInArity c' = mInArity ?c"
    "conj_arity c' = nat (foldl (\<lambda>m l. if l > m then l else m) (-1) ?locs + 1)"
    "\<And>I. conj_holds I c' \<longleftrightarrow> conj_holds (rename_interp ?locs I) ?c"
    by (rule conj_remap_sound[OF c(1) t c(2)]) blast
  have max: "foldl (\<lambda>m l. if l > m then l else m) (-1) ?locs = int (conj_arity c) - 1"
  proof (rule largest_all)
    have "set ?locs = int ` ({outA..<conj_arity c} \<union> {0..<outA})" by (simp add: image_Un)
    also have "{outA..<conj_arity c} \<union> {0..<outA} = {0..<conj_arity c}" using assms(2) by auto
    finally show "set ?locs = int ` {0..<conj_arity c}" .
  qed
  have "tv (rename_interp ?locs I) l = tv (swap_interp inA outA I) l" if "0 \<le> l" "l < int (conj_arity c)" for l I
  proof (cases "nat l < inA")
    case True
    then have "?locs ! nat l = int outA + l" using assms(2) that by (simp add: nth_append)
    moreover have "l < int inA" using True that by (simp add: nat_less_iff)
    ultimately show ?thesis using that by (simp add: swap_interp_def add.commute)
  next
    case False
    then have "?locs ! nat l = l - int inA" using assms(2) that by (simp add: nth_append nat_less_iff)
    moreover have "int inA \<le> l" using False that by (simp add: nat_less_iff)
    ultimately show ?thesis using that assms(2) by (simp add: swap_interp_def)
  qed
  then have "conj_holds (rename_interp ?locs I) ?c \<longleftrightarrow> conj_holds (swap_interp inA outA I) ?c" for I
    by (intro conj_holds_tvars[OF c(2)]) (simp_all add: conj_arity_def swap_interp_def)
  moreover have "conj_holds J ?c \<longleftrightarrow> conj_holds J c" for J by (simp add: conj_holds_def)
  moreover have "conj_Inverse c = Inr c'"
    using c'(1) assms(2,3) by (simp add: conj_Inverse_def Let_def nat_add_distrib)
  ultimately show thesis using c' max by (intro that[of c']) simp_all
qed

end
