(* ===== verification/Term_Property.thy ===== *)
theory Term_Property
  imports Conj_Solve Conj_Rename
begin

text \<open>
  Properties of terms that do not depend on their coefficients, such as the variables a term has,
  and that the operations on expressions and conjunctions hand on from their operands to their
  results.
\<close>

section \<open>The interface\<close>

definition conj_all :: "(trm \<Rightarrow> bool) \<Rightarrow> conjunction \<Rightarrow> bool" where
  "conj_all P c \<longleftrightarrow> (\<forall>e \<in> set (mEqualities c) \<union> set (mInequalities c). list_all P (mTerms e))"

locale term_property =
  fixes P :: "trm \<Rightarrow> bool"
  assumes P_coefficient: "P (setCoefficient k t) = P t"
begin

lemma all_addTerm_loop: "list_all P ts \<Longrightarrow> P t \<Longrightarrow> list_all P (addTerm_loop ts t)"
  by (induction ts) (auto simp: combine_def P_coefficient split: option.splits if_splits)

lemma all_addTerm: "list_all P (mTerms e) \<Longrightarrow> P t \<Longrightarrow> list_all P (mTerms (addTerm e t))"
  by (simp add: addTerm_def all_addTerm_loop)

lemma all_addExp:
  assumes "list_all P (mTerms e)" "list_all P (mTerms e')"
  shows "list_all P (mTerms (addExp e e'))"
proof -
  have "list_all P us \<Longrightarrow> list_all P (mTerms a) \<Longrightarrow> list_all P (mTerms (foldl addTerm a us))" for us a
    by (induction us arbitrary: a) (auto simp: all_addTerm)
  with assms show ?thesis by (simp add: addExp_def)
qed

lemma all_multiplyBy: "list_all P (mTerms (multiplyBy e k)) = list_all P (mTerms e)"
  by (simp add: multiplyBy_def multiplyBy_term_def list.pred_map comp_def P_coefficient)

lemma all_divideBy: "divideBy e d = Inr e' \<Longrightarrow> list_all P (mTerms e) \<Longrightarrow> list_all P (mTerms e')"
proof -
  assume "divideBy e d = Inr e'" "list_all P (mTerms e)"
  then have "list_all2 (\<lambda>t t'. divideBy_term t d = Inr t') (mTerms e) (mTerms e')" "list_all P (mTerms e)"
    by (simp_all add: divideBy_Inr)
  then show ?thesis
    by (induction rule: list_all2_induct) (auto simp: divideBy_term_Inr P_coefficient)
qed

lemma all_normalizeForEquality:
  assumes "list_all P (mTerms e)"
  shows "list_all P (mTerms (normalizeForEquality e))"
proof -
  have "list_all P ts \<Longrightarrow> list_all P (butlast ts)" for ts by (auto simp: list_all_iff dest: in_set_butlastD)
  with assms show ?thesis by (simp add: normalizeForEquality_def Let_def all_multiplyBy)
qed

lemma all_kind:
  "list_all P (mTerms (setEquality e)) = list_all P (mTerms e)"
  "list_all P (mTerms (setInequality e)) = list_all P (mTerms e)"
  by (simp_all add: setEquality_def setInequality_def)

lemma conj_all_addEquality:
  assumes "conj_all P c" "list_all P (mTerms e)"
  shows "conj_all P (addEquality c e)"
  using assms(1) exp_order.set_insert_unique[of "setEquality (normalizeForEquality e)" "mEqualities c"]
    all_normalizeForEquality[OF assms(2)]
  by (auto simp: conj_all_def addEquality_def Let_def all_kind)

lemma conj_all_push_const:
  assumes "conj_all P c" "\<And>i. i < conj_arity c \<Longrightarrow> P (TupleVarTerm 1 (int i))" "\<And>k. P (Term k)"
  shows "conj_all P (pushConstToConstraints c)"
proof -
  have step: "conj_all P (push_const_step c' i)" if "conj_all P c'" "i < conj_arity c" for c' i
  proof -
    have "list_all P (mTerms (addTerm (addTerm empty_exp (TupleVarTerm 1 (int i))) (Term (-1 * mConstVal (mTupleDecl c' ! i)))))"
      using assms(2,3) that(2) by (intro all_addTerm) simp_all
    moreover have "conj_all P (c'\<lparr>mTupleDecl := td\<rparr>)" for td using that(1) by (simp add: conj_all_def)
    ultimately show ?thesis using that(1) by (simp add: push_const_step_def Let_def conj_all_addEquality)
  qed
  have "set is \<subseteq> {..<conj_arity c} \<Longrightarrow> conj_all P c' \<Longrightarrow> conj_all P (foldl push_const_step c' is)" for "is" c'
    by (induction "is" arbitrary: c') (auto simp: step)
  with assms(1) show ?thesis by (simp add: pushConstToConstraints_def subset_eq)
qed

text \<open>A solution that was not found by inverting a call.\<close>

lemma all_solution:
  assumes "solveForFactor qinv e factor = Inr (Some r)" "direct qinv e factor" "list_all P (mTerms e)" "P factor"
  shows "list_all P (mTerms r)"
proof -
  obtain mm where mm: "findMatchingFactor e factor = Inr mm"
    using assms(1) by (auto simp: solveForFactor_def split: if_splits)
  then obtain m where "mm = Some m" using assms(1,2)
    by (cases mm) (auto simp: solveForFactor_def solve_finish_def direct_def split: option.splits if_splits)
  with mm obtain r' where r': "solveForFactor qinv e factor = Inr (Some r')"
    "divideBy (addTerm e (multiplyBy_term factor (- coefficient m))) (- coefficient m) = Inr r'"
    by (metis solve_at_term)
  have "list_all P (mTerms r')"
    by (rule all_divideBy[OF r'(2)]) (intro all_addTerm, use assms(3,4) in \<open>simp_all add: multiplyBy_term_def P_coefficient\<close>)
  with r'(1) assms(1) show ?thesis by simp
qed

end

text \<open>A property that a call has when its arguments have it and there are as many as it wants.\<close>

locale deep_term_property = term_property P
  for P :: "trm \<Rightarrow> bool" +
  fixes A :: "nat \<Rightarrow> bool"
  assumes P_call: "P (UFCallTerm c f args i) \<longleftrightarrow> A (length args) \<and> (\<forall>a \<in> set args. list_all P (mTerms a))"
begin

lemma all_substitute:
  assumes "\<forall>q \<in> set m. list_all P (mTerms (snd (snd q)))"
  shows "list_all P (mTerms e) \<Longrightarrow> list_all P (mTerms (substitute m e))"
  using assms
proof (induction m e rule: substitute.induct)
  case (1 m ts et)
  have step: "list_all P (mTerms (subst_step m acc t))" if t: "t \<in> set ts" "list_all P (mTerms acc)" for acc t
  proof (cases "subExp m t")
    case (Some s)
    then have "list_all P (mTerms (multiplyBy s (coefficient t)))"
      using subExp_Some[OF Some] 1(3) by (auto simp: all_multiplyBy)
    with Some t(2) show ?thesis by (simp add: subst_step_def all_addExp)
  next
    case None
    have "P t" using t(1) 1(2) by (simp add: list_all_iff)
    have "P (subst_args m t)"
    proof (cases t)
      case (UFCallTerm c f args i)
      have "list_all P (mTerms (substitute m a))" if "a \<in> set args" for a
        by (rule 1(1)[OF t(1) None UFCallTerm that]) (use \<open>P t\<close> UFCallTerm that 1(3) in \<open>auto simp: P_call\<close>)
      with \<open>P t\<close> UFCallTerm show ?thesis by (simp add: P_call)
    qed (use \<open>P t\<close> in simp_all)
    with None t(2) show ?thesis by (simp add: subst_step_def all_addTerm)
  qed
  have "set us \<subseteq> set ts \<Longrightarrow> list_all P (mTerms acc) \<Longrightarrow> list_all P (mTerms (foldl (subst_step m) acc us))" for us acc
    by (induction us arbitrary: acc) (auto simp: step)
  then have "list_all P (mTerms (foldl (subst_step m) empty_exp ts))" by simp
  then show ?case unfolding substitute_eq by (intro all_addExp) simp_all
qed

lemma conj_all_substitute:
  "conj_all P c \<Longrightarrow> \<forall>q \<in> set m. list_all P (mTerms (snd (snd q))) \<Longrightarrow>
    conj_all P (c\<lparr>mEqualities := map (substitute m) (mEqualities c), mInequalities := map (substitute m) (mInequalities c)\<rparr>)"
  by (auto simp: conj_all_def all_substitute)

end

section \<open>Its instances\<close>

text \<open>The tuple variables lie in a set.\<close>

definition tvars_within :: "int set \<Rightarrow> trm \<Rightarrow> bool" where
  "tvars_within S t \<longleftrightarrow> tvars_trm t \<subseteq> S"

lemma tvars_terms: "tvars e \<subseteq> S \<longleftrightarrow> list_all (tvars_within S) (mTerms e)"
  by (cases e) (auto simp: tvars_within_def list_all_iff)

interpretation tvars_within: deep_term_property "tvars_within S" "\<lambda>n. True" for S
proof unfold_locales
  show "tvars_within S (setCoefficient k t) = tvars_within S t" for k t by (cases t) (simp_all add: tvars_within_def)
  show "tvars_within S (UFCallTerm c f args i) \<longleftrightarrow> True \<and> (\<forall>a \<in> set args. list_all (tvars_within S) (mTerms a))" for c f args i
    using tvars_terms[of _ S] by (auto simp: tvars_within_def[of S "UFCallTerm c f args i"])
qed

lemma conj_tvars_all: "conj_tvars c \<subseteq> S \<longleftrightarrow> conj_all (tvars_within S) c"
  by (auto simp: conj_tvars_def conj_all_def UN_subset_iff tvars_terms)

text \<open>Every call has an argument.\<close>

fun has_args :: "trm \<Rightarrow> bool" and has_args_exp :: "exp \<Rightarrow> bool" where
  "has_args (UFCallTerm c f args i) \<longleftrightarrow> args \<noteq> [] \<and> list_all has_args_exp args"
| "has_args (Term c) \<longleftrightarrow> True"
| "has_args (VarTerm c s) \<longleftrightarrow> True"
| "has_args (TupleVarTerm c l) \<longleftrightarrow> True"
| "has_args_exp (Exp ts et) \<longleftrightarrow> list_all has_args ts"

lemma has_args_terms: "has_args_exp e \<longleftrightarrow> list_all has_args (mTerms e)"
  by (cases e) simp

interpretation has_args: deep_term_property has_args "\<lambda>n. n \<noteq> 0"
proof unfold_locales
  show "has_args (setCoefficient k t) = has_args t" for k t by (cases t) simp_all
  show "has_args (UFCallTerm c f args i) \<longleftrightarrow> length args \<noteq> 0 \<and> (\<forall>a \<in> set args. list_all has_args (mTerms a))" for c f args i
    by (simp add: list_all_iff has_args_terms)
qed

lemma has_args_remap:
  "remap_trm locs t = Inr t' \<Longrightarrow> has_args t' = has_args t"
  "remapTupleVars locs e = Inr e' \<Longrightarrow> has_args_exp e' = has_args_exp e"
proof (induction locs t and locs e arbitrary: t' and e' rule: remap_trm_remapTupleVars.induct)
  case (2 locs c f args i)
  then obtain args' where a: "list_all2 (\<lambda>a a'. remapTupleVars locs a = Inr a') args args'"
    "t' = UFCallTerm c f args' i" by (auto simp: map_result_Inr_iff)
  from a(1) 2(1) have "list_all has_args_exp args' = list_all has_args_exp args \<and> (args' = [] \<longleftrightarrow> args = [])"
    by (induction rule: list_all2_induct) auto
  then show ?case using a(2) by simp
next
  case (5 locs ts et)
  then obtain ts' s where a: "list_all2 (\<lambda>t t'. remap_trm locs t = Inr t') ts ts'" "e' = Exp ts' et"
    "check_locs locs = Inr s" by (auto simp: map_result_Inr_iff)
  from a(1) 5(1)[OF a(3)] have "list_all has_args ts' = list_all has_args ts"
    by (induction rule: list_all2_induct) auto
  then show ?case using a(2) by simp
qed auto

text \<open>Without inverses, such expressions are the ones that can be collapsed.\<close>

lemma has_args_collapsible:
  "(\<And>f. qinv f = '''') \<Longrightarrow> wf_trm t \<Longrightarrow> has_args t \<Longrightarrow> collapsible_trm qinv sig t"
  "(\<And>f. qinv f = '''') \<Longrightarrow> wf_exp e \<Longrightarrow> has_args_exp e \<Longrightarrow> collapsible_exp qinv sig e"
proof (induction t and e rule: trm.induct exp.induct)
  case (UFCallTerm c f es i)
  then have wf: "list_all wf_exp es" by simp
  then have "\<not> list_ex (calls '''') es" by (auto simp: list_ex_iff list_all_iff dest: calls_ident)
  moreover have "qinv f = ''''" by (rule UFCallTerm.prems(1))
  moreover have "list_all (collapsible_exp qinv sig) es"
    using UFCallTerm.IH[OF _ UFCallTerm.prems(1)] wf UFCallTerm.prems(3) by (simp add: list_all_iff)
  ultimately show ?case using UFCallTerm.prems(3) by simp
qed (simp_all add: list_all_iff)

lemma conj_has_args_collapsible:
  "(\<And>f. qinv f = '''') \<Longrightarrow> conj_wf c \<Longrightarrow> conj_all has_args c \<Longrightarrow> conj_collapsible qinv sig c"
  by (auto simp: conj_wf_def conj_all_def conj_collapsible_def has_args_terms has_args_collapsible)

lemma no_inverse_respected: "(\<And>f. qinv f = '''') \<Longrightarrow> respects_inverses qinv sig I"
  "(\<And>f. qinv f = '''') \<Longrightarrow> inverts_arguments qinv sig I"
  by (simp_all add: respects_inverses_def inverts_arguments_def)

end
