(* ===== verification/Conj_Image.thy ===== *)
theory Conj_Image
  imports Term_Property Conj_Apply
begin

text \<open>
  \<open>Conjunction::Apply\<close> computes the image of a set under a relation and \<open>Conjunction::Compose\<close> the
  composition of two relations, in an environment without inverse functions, for constraints whose
  calls all have arguments: the variables that are solved for and substituted are quantified away.
\<close>

interpretation wf_terms: term_property wf_trm
  by unfold_locales (rule wf_trm_setCoefficient)

section \<open>Conjunctions as the parser and the operations build them\<close>

definition conj_nonzero :: "conjunction \<Rightarrow> bool" where
  "conj_nonzero c \<longleftrightarrow> (\<forall>e \<in> set (mEqualities c). \<forall>t \<in> set (mTerms e). coefficient t \<noteq> 0)"

definition conj_proper :: "conjunction \<Rightarrow> bool" where
  "conj_proper c \<longleftrightarrow> conj_wf c \<and> conj_all has_args c \<and> conj_nonzero c
     \<and> conj_tvars c \<subseteq> {0..<int (conj_arity c)}"

lemma nonzero_addTerm_loop:
  "\<forall>t \<in> set ts. coefficient t \<noteq> 0 \<Longrightarrow> coefficient u \<noteq> 0 \<Longrightarrow> \<forall>t \<in> set (addTerm_loop ts u). coefficient t \<noteq> 0"
  by (induction ts) (auto simp: combine_def split: option.splits if_splits)

lemma nonzero_addTerm:
  "\<forall>t \<in> set (mTerms e). coefficient t \<noteq> 0 \<Longrightarrow> \<forall>t \<in> set (mTerms (addTerm e u)). coefficient t \<noteq> 0"
  using nonzero_addTerm_loop[of "mTerms e" u] by (simp add: addTerm_def)

lemma nonzero_addExp:
  "\<forall>t \<in> set (mTerms e). coefficient t \<noteq> 0 \<Longrightarrow> \<forall>t \<in> set (mTerms (addExp e e')). coefficient t \<noteq> 0"
proof -
  have "\<forall>t \<in> set (mTerms e). coefficient t \<noteq> 0 \<Longrightarrow> \<forall>t \<in> set (mTerms (foldl addTerm e us)). coefficient t \<noteq> 0" for us
    by (induction us arbitrary: e) (auto intro!: nonzero_addTerm)
  then show "\<forall>t \<in> set (mTerms e). coefficient t \<noteq> 0 \<Longrightarrow> \<forall>t \<in> set (mTerms (addExp e e')). coefficient t \<noteq> 0"
    by (simp add: addExp_def)
qed

lemma nonzero_normalize:
  "\<forall>t \<in> set (mTerms e). coefficient t \<noteq> 0 \<Longrightarrow> \<forall>t \<in> set (mTerms (normalizeForEquality e)). coefficient t \<noteq> 0"
  by (auto simp: normalizeForEquality_def Let_def multiplyBy_def multiplyBy_term_def dest!: in_set_butlastD)

lemma nonzero_collapse: "collapse_exp qinv e = Inr e' \<Longrightarrow> \<forall>t \<in> set (mTerms e'). coefficient t \<noteq> 0"
  unfolding collapse_exp.simps
  by (erule fold_result_inv[where P = "\<lambda>e. \<forall>t \<in> set (mTerms e). coefficient t \<noteq> 0"]) (auto simp: nonzero_addExp)

lemma nonzero_addEquality:
  assumes "conj_nonzero c" "\<forall>t \<in> set (mTerms e). coefficient t \<noteq> 0"
  shows "conj_nonzero (addEquality c e)"
  using assms(1) nonzero_normalize[OF assms(2)]
    exp_order.set_insert_unique[of "setEquality (normalizeForEquality e)" "mEqualities c"]
  by (auto simp: conj_nonzero_def addEquality_def Let_def setEquality_def)

lemma nonzero_addEqualities:
  "conj_nonzero c \<Longrightarrow> \<forall>e \<in> set es. \<forall>t \<in> set (mTerms e). coefficient t \<noteq> 0 \<Longrightarrow> conj_nonzero (foldl addEquality c es)"
  by (induction es arbitrary: c) (auto simp: nonzero_addEquality)

lemma nonzero_cleanUp:
  assumes "cleanUp qinv c = Inr c'"
  shows "conj_nonzero c'"
proof -
  obtain eqs where m: "map_result (\<lambda>e. collapse_exp qinv (normalizeForEquality e)) (mEqualities c) = Inr eqs"
    and c': "mEqualities c' = mEqualities (foldl addEquality (c\<lparr>mEqualities := []\<rparr>) (filter (\<lambda>e. \<not> equalsZero e) eqs))"
    using assms by (auto simp: cleanUp_def Let_def)
  have "list_all2 (\<lambda>e e'. collapse_exp qinv (normalizeForEquality e) = Inr e') (mEqualities c) eqs"
    using m by (simp add: map_result_Inr_iff)
  then have "\<forall>e \<in> set eqs. \<forall>t \<in> set (mTerms e). coefficient t \<noteq> 0"
    by (induction rule: list_all2_induct) (auto dest: nonzero_collapse)
  then have "conj_nonzero (foldl addEquality (c\<lparr>mEqualities := []\<rparr>) (filter (\<lambda>e. \<not> equalsZero e) eqs))"
    by (intro nonzero_addEqualities) (auto simp: conj_nonzero_def)
  with c' show ?thesis by (simp add: conj_nonzero_def)
qed

lemma pushConst_proper:
  assumes "conj_proper c"
  shows "conj_proper (pushConstToConstraints c)"
proof -
  have "conj_nonzero (pushConstToConstraints c)"
  proof -
    have step: "conj_nonzero (push_const_step c' i)" if "conj_nonzero c'" for c' i
    proof -
      have "conj_nonzero (c'\<lparr>mTupleDecl := td\<rparr>)" for td using that by (simp add: conj_nonzero_def)
      moreover have "\<forall>t \<in> set (mTerms (addTerm (addTerm empty_exp u) v)). coefficient t \<noteq> 0" for u v
        by (intro nonzero_addTerm) simp
      ultimately show ?thesis using that by (simp add: push_const_step_def Let_def nonzero_addEquality)
    qed
    have "conj_nonzero c' \<Longrightarrow> conj_nonzero (foldl push_const_step c' is)" for c' "is"
      by (induction "is" arbitrary: c') (auto simp: step)
    then show ?thesis using assms by (simp add: conj_proper_def pushConstToConstraints_def)
  qed
  moreover have "conj_all has_args (pushConstToConstraints c)"
    using assms by (intro has_args.conj_all_push_const) (simp_all add: conj_proper_def)
  moreover have "conj_tvars (pushConstToConstraints c) \<subseteq> {0..<int (conj_arity c)}"
    unfolding conj_tvars_all
    by (rule tvars_within.conj_all_push_const)
      (use assms in \<open>auto simp: conj_proper_def conj_tvars_all tvars_within_def\<close>)
  ultimately show ?thesis using assms pushConstToConstraints_sound[of c] by (simp add: conj_proper_def)
qed

lemma remap_coefficient: "remap_trm locs t = Inr t' \<Longrightarrow> coefficient t' = coefficient t"
  by (cases t) auto

lemma shifted_proper:
  assumes "conj_remapTupleVars c locs = Inr c'" "conj_nonzero c" "conj_all has_args c"
  shows "conj_nonzero c'" "conj_all has_args c'"
proof -
  obtain eqs ineqs where m: "map_result (remapTupleVars locs) (mEqualities c) = Inr eqs"
    "map_result (remapTupleVars locs) (mInequalities c) = Inr ineqs"
    and c': "mEqualities c' = map normalizeForEquality eqs" "mInequalities c' = ineqs"
    using assms(1) by (auto simp: conj_remapTupleVars_def Let_def)
  have nz: "\<forall>t \<in> set (mTerms e'). coefficient t \<noteq> 0"
    if r: "remapTupleVars locs e = Inr e'" and z: "\<forall>t \<in> set (mTerms e). coefficient t \<noteq> 0" for e e'
  proof -
    have "list_all2 (\<lambda>t t'. remap_trm locs t = Inr t') (mTerms e) (mTerms e')"
      using r by (cases e) (auto simp: map_result_Inr_iff)
    then show ?thesis using z by (induction rule: list_all2_induct) (auto dest: remap_coefficient)
  qed
  have e: "list_all2 (\<lambda>e e'. remapTupleVars locs e = Inr e') (mEqualities c) eqs"
    and i: "list_all2 (\<lambda>e e'. remapTupleVars locs e = Inr e') (mInequalities c) ineqs"
    using m by (simp_all add: map_result_Inr_iff)
  have "\<forall>e \<in> set eqs. \<forall>t \<in> set (mTerms e). coefficient t \<noteq> 0"
    using e assms(2) unfolding conj_nonzero_def by (induction rule: list_all2_induct) (auto dest: nz)
  then have "\<forall>e \<in> set eqs. \<forall>t \<in> set (mTerms (normalizeForEquality e)). coefficient t \<noteq> 0"
    using nonzero_normalize by blast
  then show "conj_nonzero c'" by (simp add: conj_nonzero_def c')
  have "\<forall>e \<in> set eqs. has_args_exp e" "\<forall>e \<in> set ineqs. has_args_exp e"
    using e i assms(3) unfolding conj_all_def has_args_terms[symmetric]
    by (auto simp: list_all2_conv_all_nth in_set_conv_nth) (metis has_args_remap(2) nth_mem UnI1 UnI2)+
  then show "conj_all has_args c'"
    by (auto simp: conj_all_def c' has_args_terms has_args.all_normalizeForEquality)
qed

section \<open>Everything returns\<close>

definition no_inverses :: "(string \<Rightarrow> string) \<Rightarrow> bool" where
  "no_inverses qinv \<longleftrightarrow> (\<forall>f. qinv f = '''')"

lemma no_inverses_facts:
  assumes "no_inverses qinv"
  shows "direct qinv e factor" "exposes qinv sig e factor" "respects_inverses qinv sig I"
    "inverts_arguments qinv sig I" "conj_wf c \<Longrightarrow> conj_all has_args c \<Longrightarrow> conj_collapsible qinv sig c"
    "fold_result (invert_step qinv factor) (s, None) ts = Inr st \<Longrightarrow> snd st = None"
proof -
  have none: "qinv f = ''''" for f using assms by (simp add: no_inverses_def)
  show "direct qinv e factor" by (rule direct_no_inverse) (rule none)
  show "exposes qinv sig e factor" by (rule exposes_no_inverse) (rule none)
  show "respects_inverses qinv sig I" by (rule no_inverse_respected(1)) (rule none)
  show "inverts_arguments qinv sig I" by (rule no_inverse_respected(2)) (rule none)
  show "conj_wf c \<Longrightarrow> conj_all has_args c \<Longrightarrow> conj_collapsible qinv sig c"
    by (rule conj_has_args_collapsible) (rule none)
  show "fold_result (invert_step qinv factor) (s, None) ts = Inr st \<Longrightarrow> snd st = None"
    by (rule invert_fold_no_inverse) (rule none)
qed

lemma find_factor_returns:
  "\<forall>t \<in> set ts. coefficient t \<noteq> 0 \<Longrightarrow> \<exists>r. find_factor e factor ts = Inr r"
  by (induction ts) (auto simp: isDivisible_def)

lemma solve_returns:
  assumes none: "no_inverses qinv" and "\<forall>t \<in> set (mTerms e). coefficient t \<noteq> 0" "coefficient factor = 1"
  shows "\<exists>r. solveForFactor qinv e factor = Inr r"
proof -
  obtain mm where mm: "findMatchingFactor e factor = Inr mm"
    using find_factor_returns[OF assms(2), of e factor] assms(3) by (auto simp: findMatchingFactor_def)
  show ?thesis
  proof (cases mm)
    case (Some m)
    with mm solve_at_term[of e factor m qinv] show ?thesis by metis
  next
    case None
    have "\<exists>st. fold_result (invert_step qinv factor) (s, None) ts = Inr st" for s ts
    proof (induction ts arbitrary: s)
      case (Cons t ts)
      have "\<exists>s'. invert_step qinv factor (s, None) t = Inr (s', None)"
        using none by (cases t) (simp_all add: invert_step_def no_inverses_def)
      with Cons show ?case by auto
    qed simp
    then have "\<exists>st. invert_scan qinv factor (mTerms e) = Inr st" by (simp add: invert_scan_def)
    then obtain st where st: "invert_scan qinv factor (mTerms e) = Inr st" ..
    then have "snd st = None" using no_inverses_facts(6)[OF none] by (simp add: invert_scan_def)
    with st mm None assms(3) show ?thesis
      by (cases st) (simp add: solveForFactor_def invertFuncToExposeFactor_def solve_finish_def)
  qed
qed

lemma find_function_eqs_returns:
  assumes "no_inverses qinv"
  shows "\<forall>q \<in> set qs. \<forall>t \<in> set (mTerms q). coefficient t \<noteq> 0 \<Longrightarrow>
    \<exists>r. find_function_eqs qinv arity loc s e qs = Inr r"
proof (induction qs)
  case (Cons q qs)
  then obtain sol where sol: "solveForFactor qinv q (TupleVarTerm 1 loc) = Inr sol"
    using solve_returns[OF assms, of q "TupleVarTerm 1 loc"] by auto
  from Cons obtain r where "find_function_eqs qinv arity loc s e qs = Inr r" by auto
  with sol show ?case by (cases sol) (auto simp: Let_def)
qed simp

lemma findFunction_returns:
  assumes "no_inverses qinv" "conj_nonzero c" "i < conj_arity c"
  shows "\<exists>f. findFunction qinv c i s e = Inr f"
  using find_function_eqs_returns[OF assms(1), of "mEqualities c" "conj_arity c" "int i" s e] assms(2,3)
  by (auto simp: findFunction_def conj_nonzero_def)

lemma all_functions_returns:
  assumes "no_inverses qinv" "conj_nonzero c"
  shows "\<forall>i \<in> set is. i < conj_arity c \<Longrightarrow> \<exists>b. all_functions qinv c s e is = Inr b"
proof (induction "is")
  case (Cons i "is")
  then obtain f where "findFunction qinv c i s e = Inr f" using findFunction_returns[OF assms, of i s e] by auto
  with Cons show ?case by (cases f) auto
qed auto

lemma pushConstConstraints_returns:
  assumes none: "no_inverses qinv" and "conj_nonzero c"
  shows "\<exists>c'. pushConstConstraintsToTupleDecl qinv c = Inr c'"
proof -
  have "\<exists>st'. push_eq_step qinv td e st i = Inr st'" if e: "e \<in> set (mEqualities c)" for td e st i
  proof -
    have "\<forall>t \<in> set (mTerms e). coefficient t \<noteq> 0" using e assms(2) by (simp add: conj_nonzero_def)
    with solve_returns[OF none this, of "TupleVarTerm 1 (int i)"] obtain r
      where "solveForFactor qinv e (TupleVarTerm 1 (int i)) = Inr r" by auto
    then show ?thesis by (cases "const_of_solution r") (simp_all add: push_eq_step_def)
  qed
  then have "\<exists>st. fold_result (\<lambda>st e. fold_result (push_eq_step qinv (mTupleDecl c) e) st [0..<conj_arity c])
      ([], []) (mEqualities c) = Inr st"
    by (intro fold_result_total)
  then show ?thesis by (auto simp: pushConstConstraintsToTupleDecl_def split: prod.split)
qed

lemma truncate_decl_spec:
  assumes "n \<le> length td"
  shows "truncate_decl td n = Inr (take n td)"
proof -
  have "fold_result (\<lambda>d i. copyTupleElem d td i i) (TupleDecl_new n) [0..<k]
    = Inr (take k td @ drop k (TupleDecl_new n))" if "k \<le> n" for k
    using that
  proof (induction k)
    case (Suc k)
    have app: "fold_result f b (xs @ [x]) = bind_result (fold_result f b xs) (\<lambda>b'. f b' x)" for f b xs and x :: nat
      by (induction xs arbitrary: b) (auto simp: bind_result_def split: sum.splits)
    have "take k td @ td ! k # drop (Suc k) (TupleDecl_new n) = take (Suc k) td @ drop (Suc k) (TupleDecl_new n)"
      using Suc.prems assms by (simp add: take_Suc_conv_app_nth)
    moreover have "drop k (TupleDecl_new n) = TupleDecl_new n ! k # drop (Suc k) (TupleDecl_new n)"
      using Suc.prems Cons_nth_drop_Suc[of k "TupleDecl_new n"] by (simp only: length_TupleDecl_new Suc_le_eq)
    ultimately show ?case using Suc assms by (simp add: app copyTupleElem_def list_update_append)
  qed simp
  then show ?thesis by (simp add: truncate_decl_def)
qed

section \<open>Solving and substituting quantifies the locations away\<close>

lemma insertPair_entries:
  "set (insertPair m i t x) \<subseteq> insert (i, t, x) (set m)"
  unfolding insertPair_def by (rule assign_nat(1))

text \<open>The entries of the map are the variables of the locations with functions of the conjunction.\<close>

lemma solve_locs_entries:
  assumes "solve_locs qinv c s e locs = Inr m" "\<forall>x \<in> set (mTupleDecl c). \<not> mIsConst x"
  shows "\<forall>q \<in> set m. fst q \<in> set locs \<and> fst (snd q) = TupleVarTerm 1 (int (fst q))
    \<and> findFunction qinv c (fst q) s e = Inr (Some (snd (snd q)))"
  using assms(1) unfolding solve_locs_def
proof (rule fold_result_inv)
  fix i m m' assume i: "i \<in> set locs" and inv: "\<forall>q \<in> set m. fst q \<in> set locs
      \<and> fst (snd q) = TupleVarTerm 1 (int (fst q)) \<and> findFunction qinv c (fst q) s e = Inr (Some (snd (snd q)))"
    and step: "bind_result (elemCreateTerm (mTupleDecl c) i i) (\<lambda>t. bind_result (findFunction qinv c i s e)
       (\<lambda>f. Inr (case f of None \<Rightarrow> m | Some x \<Rightarrow> insertPair m i t x))) = Inr m'"
  then obtain t f where t: "elemCreateTerm (mTupleDecl c) i i = Inr t" "findFunction qinv c i s e = Inr f"
    "m' = (case f of None \<Rightarrow> m | Some x \<Rightarrow> insertPair m i t x)" by auto
  from t(1) assms(2) have "t = TupleVarTerm 1 (int i)" by (auto simp: elemCreateTerm_def split: if_splits)
  then show "\<forall>q \<in> set m'. fst q \<in> set locs \<and> fst (snd q) = TupleVarTerm 1 (int (fst q))
      \<and> findFunction qinv c (fst q) s e = Inr (Some (snd (snd q)))"
  proof (cases f)
    case (Some x)
    with t(3) insertPair_entries[of m i t x] have "set m' \<subseteq> insert (i, t, x) (set m)" by simp
    with inv i t(2) Some \<open>t = _\<close> show ?thesis by fastforce
  qed (use inv t(3) in simp)
qed simp

lemma solve_locs_returns:
  assumes "no_inverses qinv" "conj_nonzero c" "\<forall>i \<in> set locs. i < conj_arity c"
  shows "\<exists>m. solve_locs qinv c s e locs = Inr m"
  unfolding solve_locs_def
proof (rule fold_result_total)
  fix i m assume "i \<in> set locs"
  with assms(3) have i: "i < conj_arity c" by simp
  obtain f where "findFunction qinv c i s e = Inr f" using findFunction_returns[OF assms(1,2) i] by blast
  moreover have "\<exists>t. elemCreateTerm (mTupleDecl c) i i = Inr t"
    using i by (simp add: elemCreateTerm_def conj_arity_def)
  then obtain t where "elemCreateTerm (mTupleDecl c) i i = Inr t" ..
  ultimately show "\<exists>b'. bind_result (elemCreateTerm (mTupleDecl c) i i) (\<lambda>t. bind_result (findFunction qinv c i s e)
       (\<lambda>f. Inr (case f of None \<Rightarrow> m | Some x \<Rightarrow> insertPair m i t x))) = Inr b'" by simp
qed

lemma subExp_TupleVar:
  assumes "\<forall>q \<in> set m. fst (snd q) = TupleVarTerm 1 (int (fst q))"
  shows "subExp m t = Some x \<Longrightarrow> \<exists>c i. t = TupleVarTerm c (int i) \<and> (\<exists>q \<in> set m. fst q = i \<and> snd (snd q) = x)"
    "subExp m (TupleVarTerm c l) = subExp m (TupleVarTerm 1 l)"
proof -
  have f: "factorMatches t (TupleVarTerm 1 l) \<Longrightarrow> \<exists>c. t = TupleVarTerm c l" for t l
    by (cases t) (auto simp: factorMatches_def Term_factorMatches_def)
  show "subExp m t = Some x \<Longrightarrow> \<exists>c i. t = TupleVarTerm c (int i) \<and> (\<exists>q \<in> set m. fst q = i \<and> snd (snd q) = x)"
  proof -
    assume "subExp m t = Some x"
    from subExp_Some[OF this] obtain q where q: "q \<in> set m" "factorMatches t (fst (snd q))" "x = snd (snd q)" by blast
    with assms f[of t "int (fst q)"] show ?thesis by auto
  qed
  show "subExp m (TupleVarTerm c l) = subExp m (TupleVarTerm 1 l)"
    using subExp_setCoefficient[of m c "TupleVarTerm 1 l"] by simp
qed

text \<open>The point at which the locations of the map have the values of their functions at \<open>I\<close>.\<close>

definition solved_point :: "sub_map \<Rightarrow> interp \<Rightarrow> interp" where
  "solved_point m I =
     I\<lparr>tv := \<lambda>l. case subExp m (TupleVarTerm 1 l) of None \<Rightarrow> tv I l | Some x \<Rightarrow> eval_exp I x\<rparr>"

lemma solved_point_subst:
  assumes "\<forall>q \<in> set m. fst (snd q) = TupleVarTerm 1 (int (fst q))"
  shows "subst_interp m I (solved_point m I)"
  unfolding subst_interp_def
proof (intro conjI allI impI)
  fix t x assume x: "subExp m t = Some x"
  with subExp_TupleVar(1)[OF assms] obtain c i where t: "t = TupleVarTerm c (int i)" by blast
  have "subExp m (TupleVarTerm 1 (int i)) = Some x"
    using x unfolding t subExp_TupleVar(2)[OF assms, of c] .
  with t show "eval_trm (solved_point m I) (setCoefficient 1 t) = eval_exp I x" by (simp add: solved_point_def)
next
  fix t assume t: "subExp m t = None \<and> \<not> isUFCall t"
  show "eval_trm (solved_point m I) t = eval_trm I t"
  proof (cases t)
    case (TupleVarTerm c l)
    then have "subExp m (TupleVarTerm 1 l) = None"
      using t subExp_TupleVar(2)[OF assms, of c l] by metis
    with TupleVarTerm show ?thesis by (simp add: solved_point_def)
  qed (use t in \<open>simp_all add: solved_point_def isUFCall_def\<close>)
qed (simp add: solved_point_def)

lemma eliminate:
  assumes none: "no_inverses qinv"
    and c: "conj_wf c" "conj_all has_args c" "conj_nonzero c" "\<forall>x \<in> set (mTupleDecl c). \<not> mIsConst x"
    and locs: "\<forall>i \<in> set locs. i < conj_arity c"
  obtains m c' where "solve_locs qinv c s e locs = Inr m" "substituteInConstraints qinv c m = Inr c'"
    "conj_wf c'" "conj_nonzero c'" "mTupleDecl c' = mTupleDecl c" "mInArity c' = mInArity c"
    "\<And>I. conj_holds I c' \<Longrightarrow> \<exists>J. same_outside (int ` set locs) I J \<and> conj_holds J c"
    "\<And>J. conj_holds J c \<Longrightarrow> conj_holds J c'"
proof -
  obtain m where m: "solve_locs qinv c s e locs = Inr m" using solve_locs_returns[OF none c(3) locs] by blast
  note ent = solve_locs_entries[OF m c(4)]
  then have var: "\<forall>q \<in> set m. fst (snd q) = TupleVarTerm 1 (int (fst q))" by blast
  have sol: "\<exists>r \<in> set (mEqualities c). solveForFactor qinv r (TupleVarTerm 1 (int (fst q))) = Inr (Some (snd (snd q)))"
    if q: "q \<in> set m" for q
  proof -
    have f: "findFunction qinv c (fst q) s e = Inr (Some (snd (snd q)))" "fst q < conj_arity c" using ent q locs by auto
    moreover have "\<not> mIsConst (mTupleDecl c ! fst q)" using f(2) c(4) by (simp add: conj_arity_def)
    ultimately obtain rest where "find_function_eqs qinv (conj_arity c) (int (fst q)) s e (mEqualities c) = Inr (Some (snd (snd q), rest))"
      by (auto simp: findFunction_def)
    then show ?thesis using find_function_eqs_Some by blast
  qed
  have ok: "wf_exp x \<and> list_all has_args (mTerms x)" if q: "q \<in> set m" "x = snd (snd q)" for q x
  proof -
    obtain r where r: "r \<in> set (mEqualities c)" "solveForFactor qinv r (TupleVarTerm 1 (int (fst q))) = Inr (Some x)"
      using sol[OF q(1)] q(2) by blast
    have "list_all has_args (mTerms x)"
      by (rule has_args.all_solution[OF r(2) no_inverses_facts(1)[OF none]])
        (use r(1) c(2) in \<open>simp_all add: conj_all_def\<close>)
    moreover have "list_all wf_trm (mTerms x)"
      by (rule wf_terms.all_solution[OF r(2) no_inverses_facts(1)[OF none]])
        (use r(1) c(1) in \<open>auto simp: conj_wf_def wf_exp_iff list_all_iff\<close>)
    ultimately show ?thesis by (simp add: wf_exp_iff list_all_iff)
  qed
  let ?s = "c\<lparr>mEqualities := map (substitute m) (mEqualities c), mInequalities := map (substitute m) (mInequalities c)\<rparr>"
  have wfs: "wf_sub m" using ok by blast
  note S = solved_point_subst[OF var]
  have args: "conj_all has_args ?s" using ok c(2) by (intro has_args.conj_all_substitute) auto
  have "conj_wf ?s" using c(1) substitute_sound[OF wfs S] by (auto simp: conj_wf_def)
  note col = no_inverses_facts(5)[OF none this args]
  note resp = no_inverses_facts(3)[OF none]
  obtain c' where c': "substituteInConstraints qinv c m = Inr c'" "conj_wf c'" "mTupleDecl c' = mTupleDecl c" "mInArity c' = mInArity c"
    using substituteInConstraints_sound[OF c(1) wfs S resp col] by metis
  have decl: "decl_holds I (mTupleDecl c)" for I using c(4) by (simp add: decl_holds_def)
  have iff: "conj_holds I c' \<longleftrightarrow> conj_holds (solved_point m I) c" for I
  proof -
    have "conj_holds I c' \<longleftrightarrow> decl_holds I (mTupleDecl c) \<and> conj_holds (solved_point m I) (c\<lparr>mTupleDecl := []\<rparr>)"
      using substituteInConstraints_sound[OF c(1) wfs S resp col] c'(1) by (metis sum.inject(2))
    with decl[of I] decl[of "solved_point m I"] show ?thesis by (simp add: conj_holds_def)
  qed
  have fixed: "solved_point m J = J" if J: "conj_holds J c" for J
  proof -
    have "eval_exp J x = tv J l" if x: "subExp m (TupleVarTerm 1 l) = Some x" for l x
    proof -
      from subExp_TupleVar(1)[OF var x] obtain q where q: "q \<in> set m" "int (fst q) = l" "snd (snd q) = x" by auto
      then obtain r where r: "r \<in> set (mEqualities c)" "solveForFactor qinv r (TupleVarTerm 1 l) = Inr (Some x)"
        using sol[OF q(1)] by auto
      have "eval_exp J r = 0" using J r(1) by (simp add: conj_holds_def holds_eq_def)
      with solve_direct_iff[OF _ _ no_inverses_facts(1)[OF none] r(2), of J] r(1) c(1) q(2) show ?thesis
        by (auto simp: conj_wf_def)
    qed
    then have "tv (solved_point m J) l = tv J l" for l by (simp add: solved_point_def split: option.split)
    then show ?thesis by (intro interp.equality) (auto simp: solved_point_def)
  qed
  have out: "same_outside (int ` set locs) I (solved_point m I)" for I
  proof -
    have "subExp m (TupleVarTerm 1 l) = None" if "l \<notin> int ` set locs" for l
      using subExp_TupleVar(1)[OF var, of "TupleVarTerm 1 l"] ent that by (cases "subExp m (TupleVarTerm 1 l)") auto
    then show ?thesis by (simp add: same_outside_def solved_point_def)
  qed
  have "conj_nonzero c'" using c'(1) nonzero_cleanUp by (auto simp: substituteInConstraints_def)
  with that m c' iff fixed out show thesis by metis
qed

end
