(* ===== verification/Conj_Apply_Correct.thy ===== *)
theory Conj_Apply_Correct
  imports Conj_Image
begin

text \<open>
  The image: \<open>Conjunction::Apply\<close> returns for every relation that passes its test, and what it returns
  holds at the outputs of the points of the set.
\<close>

section \<open>Operands over the tuple of the result\<close>

lemma shift_sound:
  assumes "conj_proper c" "total_locs (conj_arity c) locs"
  obtains c' where "conj_remapTupleVars ((pushConstToConstraints c)\<lparr>mInArity := k\<rparr>) locs = Inr c'"
    "shift_conj c locs = Inr (c'\<lparr>mInArity := mInArity c\<rparr>)"
    "conj_wf c'" "conj_nonzero c'" "conj_all has_args c'" "\<forall>x \<in> set (mTupleDecl c'). \<not> mIsConst x"
    "mInArity c' = k"
    "conj_arity c' = nat (foldl (\<lambda>m l. if l > m then l else m) (-1) locs + 1)"
    "\<And>I. conj_holds I c' \<longleftrightarrow> conj_holds (rename_interp locs I) c"
proof -
  let ?p = "pushConstToConstraints c"
  have p: "conj_proper ?p" by (rule pushConst_proper[OF assms(1)])
  note P = pushConstToConstraints_sound[of c]
  have wf: "conj_wf c" using assms(1) by (simp add: conj_proper_def)
  have q: "conj_wf (?p\<lparr>mInArity := k\<rparr>)" "conj_tvars (?p\<lparr>mInArity := k\<rparr>) \<subseteq> {0..<int (conj_arity (?p\<lparr>mInArity := k\<rparr>))}"
    "total_locs (conj_arity (?p\<lparr>mInArity := k\<rparr>)) locs"
    using p assms(2) P(2)[OF wf] by (auto simp: conj_proper_def conj_wf_def conj_tvars_def conj_arity_def)
  obtain c' where c': "conj_remapTupleVars (?p\<lparr>mInArity := k\<rparr>) locs = Inr c'" "conj_wf c'" "mInArity c' = k"
    "conj_arity c' = nat (foldl (\<lambda>m l. if l > m then l else m) (-1) locs + 1)"
    "\<And>I. conj_holds I c' \<longleftrightarrow> conj_holds (rename_interp locs I) (?p\<lparr>mInArity := k\<rparr>)"
    "\<forall>x \<in> set (mTupleDecl (?p\<lparr>mInArity := k\<rparr>)). \<not> mIsConst x \<Longrightarrow> \<forall>x \<in> set (mTupleDecl c'). \<not> mIsConst x"
    by (rule conj_remap_sound[OF q(1,3,2)]) simp
  have h: "conj_holds J (?p\<lparr>mInArity := k\<rparr>) \<longleftrightarrow> conj_holds J c" for J
    using P(3)[OF wf, of J] by (simp add: conj_holds_def)
  have nz: "conj_nonzero (?p\<lparr>mInArity := k\<rparr>)" "conj_all has_args (?p\<lparr>mInArity := k\<rparr>)"
    using p by (simp_all add: conj_proper_def conj_nonzero_def conj_all_def)
  show thesis
  proof (rule that[OF c'(1)])
    have "?p = (?p\<lparr>mInArity := k\<rparr>)\<lparr>mInArity := mInArity c\<rparr>" using P(5)[OF wf] by simp
    moreover have "conj_remapTupleVars (d\<lparr>mInArity := j\<rparr>) locs = bind_result (conj_remapTupleVars d locs) (\<lambda>d. Inr (d\<lparr>mInArity := j\<rparr>))" for d j
      by (cases d) (simp add: conj_remapTupleVars_def bind_result_def Let_def split: sum.split cong: if_cong)
    ultimately show "shift_conj c locs = Inr (c'\<lparr>mInArity := mInArity c\<rparr>)"
      using c'(1) unfolding shift_conj_def by (metis bind_result_simps(2))
  qed (use c' h shifted_proper[OF c'(1) nz] P(4)[OF wf] in simp_all)
qed

lemma copy_holds:
  assumes "\<forall>x \<in> set (mTupleDecl src). \<not> mIsConst x"
  shows "conj_holds I (copyConstraintsFrom c src) \<longleftrightarrow> conj_holds I c \<and> conj_holds I src"
proof -
  have "decl_holds I (mTupleDecl src)" using assms by (simp add: decl_holds_def)
  then show ?thesis by (auto simp: copyConstraintsFrom_def conj_holds_def)
qed

lemma copy_proper:
  "conj_wf c \<Longrightarrow> conj_wf src \<Longrightarrow> conj_wf (copyConstraintsFrom c src)"
  "conj_nonzero c \<Longrightarrow> conj_nonzero src \<Longrightarrow> conj_nonzero (copyConstraintsFrom c src)"
  "conj_all P c \<Longrightarrow> conj_all P src \<Longrightarrow> conj_all P (copyConstraintsFrom c src)"
  "mTupleDecl (copyConstraintsFrom c src) = mTupleDecl c"
  by (auto simp: copyConstraintsFrom_def conj_wf_def conj_nonzero_def conj_all_def)

text \<open>A point of the renamed conjunction, up to what the conjunction reads.\<close>

lemma rename_reads:
  assumes "conj_proper c" "length locs = conj_arity c"
    "\<And>l. l < conj_arity c \<Longrightarrow> tv I (locs ! l) = tv J (int l)" "sym I = sym J" "uf I = uf J"
  shows "conj_holds (rename_interp locs I) c \<longleftrightarrow> conj_holds J c"
proof (rule conj_holds_tvars)
  show "conj_tvars c \<subseteq> {0..<int (conj_arity c)}" using assms(1) by (simp add: conj_proper_def)
  show "tv (rename_interp locs I) l = tv J l" if "0 \<le> l" "l < int (conj_arity c)" for l
    using that assms(3)[of "nat l"] by (simp add: nat_less_iff)
qed (use assms in simp_all)

section \<open>The last step\<close>

text \<open>
  What comes after the substitution: the constraints over the first locations of the tuple. The
  hypothesis is that the result no longer mentions the variables that were to be eliminated.
\<close>

lemma finish:
  assumes none: "no_inverses qinv" and c: "conj_wf c" "conj_nonzero c" "\<forall>x \<in> set (mTupleDecl c). \<not> mIsConst x"
    and p: "pushConstConstraintsToTupleDecl qinv c = Inr c'"
  shows "conj_wf c'" "conj_arity c' = conj_arity c" "conj_holds I c \<Longrightarrow> conj_holds I c'"
    "conj_holds K c \<Longrightarrow> conj_holds I c' \<Longrightarrow> conj_holds I c"
    "conj_tvars c' \<subseteq> {0..<int (conj_arity c)} \<Longrightarrow> same_outside L I J \<Longrightarrow> L \<inter> {0..<int (conj_arity c)} = {} \<Longrightarrow>
      conj_holds J c \<Longrightarrow> conj_holds I c"
proof -
  have d: "\<forall>e \<in> set (mEqualities c). \<forall>i < conj_arity c. direct qinv e (TupleVarTerm 1 (int i))"
    using no_inverses_facts(1)[OF none] by blast
  note S = pushConstConstraints_sound[OF c(1) p d]
  show "conj_wf c'" "conj_holds I c \<Longrightarrow> conj_holds I c'" "conj_holds K c \<Longrightarrow> conj_holds I c' \<Longrightarrow> conj_holds I c"
    by (rule S; assumption)+
  show ar: "conj_arity c' = conj_arity c" using pushConst_frame[OF p] by simp
  assume t: "conj_tvars c' \<subseteq> {0..<int (conj_arity c)}" and o: "same_outside L I J"
    and L: "L \<inter> {0..<int (conj_arity c)} = {}" and J: "conj_holds J c"
  have same: "tv I l = tv J l" if "0 \<le> l" "l < int (conj_arity c)" for l
    using o L that by (auto simp: same_outside_def)
  have ev: "eval_exp I e = eval_exp J e" if "tvars e \<subseteq> {0..<int (conj_arity c)}" for e
    by (rule tv_outside(2)) (use o that same in \<open>auto simp: same_outside_def\<close>)
  have "holds_eq I e" if e: "e \<in> set (mEqualities c)" for e
  proof (cases "e \<in> set (mEqualities c')")
    case True
    with t have "tvars e \<subseteq> {0..<int (conj_arity c)}" by (auto simp: conj_tvars_def)
    with ev J e show ?thesis by (simp add: conj_holds_def holds_eq_def)
  next
    case False
    from pushConstConstraints_removed[OF c(1) p d e False] obtain i v
      where "i < conj_arity c" "\<And>I. holds_eq I e \<longleftrightarrow> tv I (int i) = v" by blast
    moreover have "holds_eq J e" using J e by (simp add: conj_holds_def)
    ultimately show ?thesis using same[of "int i"] by (metis of_nat_0_le_iff of_nat_less_iff)
  qed
  moreover have "holds_ineq I e" if e: "e \<in> set (mInequalities c)" for e
  proof -
    have "tvars e \<subseteq> {0..<int (conj_arity c)}" using e t pushConst_frame[OF p] by (auto simp: conj_tvars_def)
    with ev J e show ?thesis by (simp add: conj_holds_def holds_ineq_def)
  qed
  ultimately show "conj_holds I c" using c(3) by (simp add: conj_holds_def decl_holds_def)
qed

section \<open>Apply\<close>

text \<open>The outputs of \<open>I\<close> are related to a tuple \<open>xs\<close> of the set.\<close>

definition in_image :: "interp \<Rightarrow> conjunction \<Rightarrow> conjunction \<Rightarrow> bool" where
  "in_image I lhs rhs \<longleftrightarrow>
     (\<exists>xs. length xs = conj_arity rhs
        \<and> conj_holds (I\<lparr>tv := \<lambda>l. xs ! nat l\<rparr>) rhs
        \<and> conj_holds (I\<lparr>tv := \<lambda>l. if l < int (length xs) then xs ! nat l else tv I (l - int (length xs))\<rparr>) lhs)"

lemma apply_joined_sound:
  assumes "conj_proper lhs" "conj_proper rhs" "conj_arity lhs = inA + outA" "conj_arity rhs = inA"
  obtains c where "apply_joined lhs rhs = Inr c" "conj_wf c" "conj_nonzero c" "conj_all has_args c"
    "\<forall>x \<in> set (mTupleDecl c). \<not> mIsConst x" "conj_arity c = inA + outA"
    "\<And>J. conj_holds J c \<longleftrightarrow> conj_holds (J\<lparr>tv := \<lambda>l. tv J (l + int outA)\<rparr>) rhs
       \<and> conj_holds (J\<lparr>tv := \<lambda>l. if l < int inA then tv J (l + int outA) else tv J (l - int inA)\<rparr>) lhs"
proof -
  let ?L = "apply_shift_lhs inA outA" and ?R = "map (\<lambda>i. int (i + outA)) [0..<inA]"
  have L: "total_locs (conj_arity lhs) ?L" and R: "total_locs (conj_arity rhs) ?R"
    using assms(3,4) by (auto simp: total_locs_def apply_shift_lhs_def distinct_map inj_on_def)
  obtain l where l: "conj_remapTupleVars ((pushConstToConstraints lhs)\<lparr>mInArity := int outA\<rparr>) ?L = Inr l"
    "conj_wf l" "conj_nonzero l" "conj_all has_args l" "\<forall>x \<in> set (mTupleDecl l). \<not> mIsConst x"
    "conj_arity l = nat (foldl (\<lambda>m l. if l > m then l else m) (-1) ?L + 1)"
    "\<And>I. conj_holds I l \<longleftrightarrow> conj_holds (rename_interp ?L I) lhs"
    by (rule shift_sound[OF assms(1) L]) blast
  obtain r where r: "shift_conj rhs ?R = Inr (r\<lparr>mInArity := mInArity rhs\<rparr>)"
    "conj_wf r" "conj_nonzero r" "conj_all has_args r" "\<forall>x \<in> set (mTupleDecl r). \<not> mIsConst x"
    "\<And>I. conj_holds I r \<longleftrightarrow> conj_holds (rename_interp ?R I) rhs"
    by (rule shift_sound[OF assms(2) R]) blast
  let ?r = "r\<lparr>mInArity := mInArity rhs\<rparr>" and ?c = "copyConstraintsFrom l (r\<lparr>mInArity := mInArity rhs\<rparr>)"
  have r': "conj_wf ?r" "conj_nonzero ?r" "conj_all has_args ?r" "\<forall>x \<in> set (mTupleDecl ?r). \<not> mIsConst x"
    "\<And>I. conj_holds I ?r \<longleftrightarrow> conj_holds (rename_interp ?R I) rhs"
    using r by (auto simp: conj_wf_def conj_nonzero_def conj_all_def conj_holds_def)
  have "set ?L = int ` ((\<lambda>i. i + outA) ` {0..<inA} \<union> {0..<outA})"
    by (simp only: apply_shift_lhs_def set_append set_map set_upt image_Un image_image)
  also have "(\<lambda>i. i + outA) ` {0..<inA} \<union> {0..<outA} = {0..<inA + outA}"
    by (auto simp: image_add_atLeastLessThan')
  finally have ar: "conj_arity l = inA + outA" using l(6) largest_all[of ?L] by simp
  show thesis
  proof (rule that[of ?c])
    show "apply_joined lhs rhs = Inr ?c"
      using l(1) r(1) assms(3,4) by (simp add: apply_joined_def)
    show "conj_arity ?c = inA + outA" using ar by (simp add: conj_arity_def copy_proper(4))
    fix J
    have "conj_holds (rename_interp ?R J) rhs \<longleftrightarrow> conj_holds (J\<lparr>tv := \<lambda>l. tv J (l + int outA)\<rparr>) rhs"
      by (rule rename_reads[OF assms(2)]) (simp_all add: assms(4))
    moreover have "conj_holds (rename_interp ?L J) lhs
        \<longleftrightarrow> conj_holds (J\<lparr>tv := \<lambda>l. if l < int inA then tv J (l + int outA) else tv J (l - int inA)\<rparr>) lhs"
      by (rule rename_reads[OF assms(1)])
        (auto simp: assms(3) apply_shift_lhs_def nth_append of_nat_diff)
    ultimately show "conj_holds J ?c \<longleftrightarrow> conj_holds (J\<lparr>tv := \<lambda>l. tv J (l + int outA)\<rparr>) rhs
       \<and> conj_holds (J\<lparr>tv := \<lambda>l. if l < int inA then tv J (l + int outA) else tv J (l - int inA)\<rparr>) lhs"
      using copy_holds[OF r'(4), of J l] l(7)[of J] r'(5)[of J] by blast
  qed (use l r' copy_proper in simp_all)
qed

lemma isFunctionInverse_arity:
  assumes "conj_isFunctionInverse qinv lhs n = Inr True"
  shows "n \<le> conj_arity lhs"
proof (rule ccontr)
  assume n: "\<not> n \<le> conj_arity lhs"
  then have "conj_arity lhs \<in> set [0..<n]" by simp
  with assms obtain x where "findFunction qinv lhs (conj_arity lhs) (int n) (int (conj_arity lhs) - 1) = Inr (Some x)"
    unfolding conj_isFunctionInverse_def all_functions_True by blast
  then show False by (simp add: findFunction_def)
qed

text \<open>The steps after the operands have been put together.\<close>

lemma apply_steps:
  assumes none: "no_inverses qinv" and c: "conj_wf c" "conj_nonzero c" "conj_all has_args c"
    "\<forall>x \<in> set (mTupleDecl c). \<not> mIsConst x" and ar: "conj_arity c = inA + outA"
  obtains m c1 c' where "solve_locs qinv c s e [outA..<inA + outA] = Inr m" "substituteInConstraints qinv c m = Inr c1"
    "truncate_decl (mTupleDecl c1) outA = Inr (take outA (mTupleDecl c))"
    "pushConstConstraintsToTupleDecl qinv (copyConstraintsFrom (Conjunction_of (take outA (mTupleDecl c))) c1) = Inr c'"
    "conj_wf c'" "conj_arity c' = outA"
    "\<And>I J. conj_tvars c' \<subseteq> {0..<int outA} \<Longrightarrow> same_outside {int outA..<int (inA + outA)} I J \<Longrightarrow>
      conj_holds J c \<Longrightarrow> conj_holds I c'"
    "\<And>I J K. conj_tvars c' \<subseteq> {0..<int outA} \<Longrightarrow> conj_holds K c \<Longrightarrow>
      conj_holds I c' \<Longrightarrow> \<exists>J. same_outside {int outA..<int (inA + outA)} I J \<and> conj_holds J c"
proof -
  have "\<forall>i \<in> set [outA..<inA + outA]. i < conj_arity c" using ar by simp
  from eliminate[OF none c(1,3,2,4) this] obtain m c1 where m: "solve_locs qinv c s e [outA..<inA + outA] = Inr m"
    "substituteInConstraints qinv c m = Inr c1"
    "conj_wf c1" "conj_nonzero c1" "mTupleDecl c1 = mTupleDecl c"
    "\<And>I. conj_holds I c1 \<Longrightarrow> \<exists>J. same_outside (int ` set [outA..<inA + outA]) I J \<and> conj_holds J c"
    "\<And>J. conj_holds J c \<Longrightarrow> conj_holds J c1" by metis
  let ?td = "take outA (mTupleDecl c)"
  let ?f = "copyConstraintsFrom (Conjunction_of ?td) c1"
  have L: "int ` set [outA..<inA + outA] = {int outA..<int (inA + outA)}"
    by (simp add: image_int_atLeastLessThan)
  have f: "conj_wf ?f" "conj_nonzero ?f" "\<forall>x \<in> set (mTupleDecl ?f). \<not> mIsConst x" "conj_arity ?f = outA"
    using m(3,4) c(4) ar
    by (auto simp: copyConstraintsFrom_def Conjunction_of_def conj_wf_def conj_nonzero_def conj_arity_def dest: in_set_takeD)
  have h: "conj_holds I ?f \<longleftrightarrow> conj_holds I c1" for I
    using c(4) m(5) by (auto simp: copyConstraintsFrom_def Conjunction_of_def conj_holds_def decl_holds_def)
  obtain c' where c': "pushConstConstraintsToTupleDecl qinv ?f = Inr c'"
    using pushConstConstraints_returns[OF none f(2)] by blast
  note F = finish[OF none f(1-3) c', unfolded f(4)]
  show thesis
  proof (rule that[OF m(1,2) _ c' F(1,2)])
    show "truncate_decl (mTupleDecl c1) outA = Inr ?td"
      using m(5) ar by (simp add: truncate_decl_spec conj_arity_def)
  next
    fix I J assume t: "conj_tvars c' \<subseteq> {0..<int outA}" "same_outside {int outA..<int (inA + outA)} I J" "conj_holds J c"
    then have "conj_holds J ?f" using m(7) h by simp
    with F(5)[OF t(1,2)] have "conj_holds I ?f" by auto
    then show "conj_holds I c'" by (rule F(3))
  next
    fix I K assume t: "conj_tvars c' \<subseteq> {0..<int outA}" "conj_holds K c" "conj_holds I c'"
    then have "conj_holds K ?f" using m(7) h by simp
    from F(4)[OF this t(3)] have "conj_holds I c1" using h by simp
    with m(6) show "\<exists>J. same_outside {int outA..<int (inA + outA)} I J \<and> conj_holds J c" unfolding L by blast
  qed
qed

lemma joined_image:
  assumes "\<And>J. conj_holds J c \<longleftrightarrow> conj_holds (J\<lparr>tv := \<lambda>l. tv J (l + int outA)\<rparr>) rhs
       \<and> conj_holds (J\<lparr>tv := \<lambda>l. if l < int inA then tv J (l + int outA) else tv J (l - int inA)\<rparr>) lhs"
    and p: "conj_proper lhs" "conj_proper rhs" "conj_arity lhs = inA + outA" "conj_arity rhs = inA"
  shows "in_image I lhs rhs \<longleftrightarrow> (\<exists>J. same_outside {int outA..<int (inA + outA)} I J \<and> conj_holds J c)"
proof
  assume "in_image I lhs rhs"
  then obtain xs where xs: "length xs = inA" "conj_holds (I\<lparr>tv := \<lambda>l. xs ! nat l\<rparr>) rhs"
    "conj_holds (I\<lparr>tv := \<lambda>l. if l < int inA then xs ! nat l else tv I (l - int inA)\<rparr>) lhs"
    unfolding in_image_def p(4) by auto
  let ?J = "I\<lparr>tv := \<lambda>l. if int outA \<le> l \<and> l < int (inA + outA) then xs ! nat (l - int outA) else tv I l\<rparr>"
  have t: "conj_tvars lhs \<subseteq> {0..<int (conj_arity lhs)}" "conj_tvars rhs \<subseteq> {0..<int (conj_arity rhs)}"
    using p(1,2) by (simp_all add: conj_proper_def)
  have "conj_holds (?J\<lparr>tv := \<lambda>l. tv ?J (l + int outA)\<rparr>) rhs \<longleftrightarrow> conj_holds (I\<lparr>tv := \<lambda>l. xs ! nat l\<rparr>) rhs"
    by (rule conj_holds_tvars[OF t(2)]) (simp_all add: p(4))
  moreover have "conj_holds (?J\<lparr>tv := \<lambda>l. if l < int inA then tv ?J (l + int outA) else tv ?J (l - int inA)\<rparr>) lhs
      \<longleftrightarrow> conj_holds (I\<lparr>tv := \<lambda>l. if l < int inA then xs ! nat l else tv I (l - int inA)\<rparr>) lhs"
    by (rule conj_holds_tvars[OF t(1)]) (simp_all add: p(3))
  ultimately have "conj_holds ?J c" unfolding assms(1)[of ?J] using xs(2,3) by blast
  moreover have "same_outside {int outA..<int (inA + outA)} I ?J" by (simp add: same_outside_def)
  ultimately show "\<exists>J. same_outside {int outA..<int (inA + outA)} I J \<and> conj_holds J c" by blast
next
  assume "\<exists>J. same_outside {int outA..<int (inA + outA)} I J \<and> conj_holds J c"
  then obtain J where J: "same_outside {int outA..<int (inA + outA)} I J" "conj_holds J c" by blast
  let ?xs = "map (\<lambda>i. tv J (int (i + outA))) [0..<inA]"
  have t: "conj_tvars lhs \<subseteq> {0..<int (conj_arity lhs)}" "conj_tvars rhs \<subseteq> {0..<int (conj_arity rhs)}"
    using p(1,2) by (simp_all add: conj_proper_def)
  have "conj_holds (I\<lparr>tv := \<lambda>l. ?xs ! nat l\<rparr>) rhs \<longleftrightarrow> conj_holds (J\<lparr>tv := \<lambda>l. tv J (l + int outA)\<rparr>) rhs"
    by (rule conj_holds_tvars[OF t(2)]) (use J(1) in \<open>simp_all add: p(4) same_outside_def nat_less_iff\<close>)
  moreover have "conj_holds (I\<lparr>tv := \<lambda>l. if l < int (length ?xs) then ?xs ! nat l else tv I (l - int (length ?xs))\<rparr>) lhs
      \<longleftrightarrow> conj_holds (J\<lparr>tv := \<lambda>l. if l < int inA then tv J (l + int outA) else tv J (l - int inA)\<rparr>) lhs"
    by (rule conj_holds_tvars[OF t(1)]) (use J(1) in \<open>simp_all add: p(3) same_outside_def nat_less_iff\<close>)
  ultimately show "in_image I lhs rhs"
    unfolding in_image_def using J(2) assms(1)[of J] p(4) by (intro exI[of _ ?xs]) simp
qed

lemma Apply_sound:
  assumes "no_inverses qinv" "conj_proper lhs" "conj_proper rhs"
    "conj_isFunctionInverse qinv lhs (conj_arity rhs) = Inr True"
  obtains c' where "conj_Apply qinv lhs rhs = Inr c'" "conj_wf c'" "conj_arity c' + conj_arity rhs = conj_arity lhs"
    "\<And>I. conj_tvars c' \<subseteq> {0..<int (conj_arity c')} \<Longrightarrow> in_image I lhs rhs \<Longrightarrow> conj_holds I c'"
    "\<And>I K. conj_tvars c' \<subseteq> {0..<int (conj_arity c')} \<Longrightarrow> in_image K lhs rhs \<Longrightarrow> conj_holds I c' \<Longrightarrow> in_image I lhs rhs"
proof -
  let ?inA = "conj_arity rhs" and ?outA = "conj_arity lhs - conj_arity rhs"
  have ar: "conj_arity lhs = ?inA + ?outA" using isFunctionInverse_arity[OF assms(4)] by simp
  obtain c where c: "apply_joined lhs rhs = Inr c" "conj_wf c" "conj_nonzero c" "conj_all has_args c"
    "\<forall>x \<in> set (mTupleDecl c). \<not> mIsConst x" "conj_arity c = ?inA + ?outA"
    "\<And>J. conj_holds J c \<longleftrightarrow> conj_holds (J\<lparr>tv := \<lambda>l. tv J (l + int ?outA)\<rparr>) rhs
       \<and> conj_holds (J\<lparr>tv := \<lambda>l. if l < int ?inA then tv J (l + int ?outA) else tv J (l - int ?inA)\<rparr>) lhs"
    by (rule apply_joined_sound[OF assms(2,3) ar refl]) blast
  note img = joined_image[OF c(7) assms(2,3) ar refl]
  obtain m c1 c' where s: "solve_locs qinv c 0 (int ?outA - 1) [?outA..<?inA + ?outA] = Inr m"
    "substituteInConstraints qinv c m = Inr c1" "truncate_decl (mTupleDecl c1) ?outA = Inr (take ?outA (mTupleDecl c))"
    "pushConstConstraintsToTupleDecl qinv (copyConstraintsFrom (Conjunction_of (take ?outA (mTupleDecl c))) c1) = Inr c'"
    "conj_wf c'" "conj_arity c' = ?outA"
    "\<And>I J. conj_tvars c' \<subseteq> {0..<int ?outA} \<Longrightarrow> same_outside {int ?outA..<int (?inA + ?outA)} I J \<Longrightarrow>
      conj_holds J c \<Longrightarrow> conj_holds I c'"
    "\<And>I J K. conj_tvars c' \<subseteq> {0..<int ?outA} \<Longrightarrow> conj_holds K c \<Longrightarrow>
      conj_holds I c' \<Longrightarrow> \<exists>J. same_outside {int ?outA..<int (?inA + ?outA)} I J \<and> conj_holds J c"
    by (rule apply_steps[OF assms(1) c(2-6)]) blast
  show thesis
  proof (rule that[of c'])
    show "conj_Apply qinv lhs rhs = Inr c'"
      using assms(4) c(1,6) s(1-4) by (simp add: conj_Apply_def)
    show "conj_arity c' + conj_arity rhs = conj_arity lhs" using s(6) ar by simp
  next
    fix I assume t: "conj_tvars c' \<subseteq> {0..<int (conj_arity c')}" "in_image I lhs rhs"
    then show "conj_holds I c'" using s(6,7) img by metis
  next
    fix I K assume t: "conj_tvars c' \<subseteq> {0..<int (conj_arity c')}" "in_image K lhs rhs" "conj_holds I c'"
    then show "in_image I lhs rhs" using s(6,8) img by metis
  qed (rule s(5))
qed

end
