(* ===== verification/Conj_Compose_Correct.thy ===== *)
theory Conj_Compose_Correct
  imports Conj_Apply_Correct
begin

text \<open>
  The composition: \<open>Conjunction::Compose\<close> returns for two functions and for two inverses of functions,
  and what it returns holds at the inputs and outputs that are related through an inner tuple.
\<close>

section \<open>The tuple of the result\<close>

lemma fold_result_total_inv:
  assumes "P b" "\<And>x b. x \<in> set xs \<Longrightarrow> P b \<Longrightarrow> \<exists>b'. f b x = Inr b' \<and> P b'"
  shows "\<exists>b'. fold_result f b xs = Inr b' \<and> P b'"
  using assms
proof (induction xs arbitrary: b)
  case (Cons x xs)
  then obtain b1 where "f b x = Inr b1" "P b1" by (meson list.set_intros(1))
  with Cons show ?case by auto
qed simp

lemma compose_decl_spec:
  assumes "\<forall>x \<in> set td. \<not> mIsConst x" "\<forall>x \<in> set lhs_decl. \<not> mIsConst x" "\<forall>x \<in> set rhs_decl. \<not> mIsConst x"
    "inA + outA \<le> length td" "outA \<noteq> 0 \<Longrightarrow> inA + outA \<le> length lhs_decl" "inA \<le> length rhs_decl"
  obtains td' where "compose_decl td lhs_decl rhs_decl inA outA = Inr td'" "length td' = length td"
    "\<forall>x \<in> set td'. \<not> mIsConst x"
proof -
  let ?P = "\<lambda>st :: tuple_decl \<times> string list. length (fst st) = length td \<and> (\<forall>x \<in> set (fst st). \<not> mIsConst x)"
  have upd: "\<forall>x \<in> set (xs[i := y]). \<not> mIsConst x" if "\<forall>x \<in> set xs. \<not> mIsConst x" "\<not> mIsConst y" for xs i y
    using that set_update_subset_insert[of xs i y] by auto
  let ?f = "\<lambda>(td, takenNames) i. bind_result (copyTupleElem td rhs_decl i i) (\<lambda>td.
            bind_result (elemVarString td i) (\<lambda>s. Inr (td, insert_unique (<) s takenNames)))"
  have "\<exists>st. fold_result ?f (td, []) [0..<inA] = Inr st \<and> ?P st"
  proof (rule fold_result_total_inv)
    fix i and st :: "tuple_decl \<times> string list" assume "i \<in> set [0..<inA]" "?P st"
    moreover from this have "\<not> mIsConst (rhs_decl ! i)" using assms(3,6) by simp
    ultimately show "\<exists>st'. ?f st i = Inr st' \<and> ?P st'"
      using assms(4,6) upd[of "fst st" "rhs_decl ! i" i]
      by (cases st) (simp add: copyTupleElem_def elemVarString_def)
  qed (use assms(1) in simp)
  then obtain td1 names where 1: "fold_result ?f (td, []) [0..<inA] = Inr (td1, names)" "?P (td1, names)" by auto
  let ?g = "\<lambda>(td, takenNames) i. bind_result (elemVarString lhs_decl (inA + i)) (\<lambda>s.
       case createUniqueName s takenNames of
         (name, takenNames) \<Rightarrow> bind_result (setTupleElem_var td (inA + i) name) (\<lambda>td. Inr (td, takenNames)))"
  have "\<exists>st. fold_result ?g (td1, names) [0..<outA] = Inr st \<and> ?P st"
  proof (rule fold_result_total_inv)
    fix i and st :: "tuple_decl \<times> string list" assume "i \<in> set [0..<outA]" "?P st"
    then show "\<exists>st'. ?g st i = Inr st' \<and> ?P st'"
      using assms(4,5) upd[of "fst st" "(fst st ! (inA + i))\<lparr>mIsConst := False, mVarString := s\<rparr>" "inA + i" for s]
      by (cases st) (simp add: elemVarString_def setTupleElem_var_def split: prod.split)
  qed (rule 1(2))
  then obtain td2 names2 where "fold_result ?g (td1, names) [0..<outA] = Inr (td2, names2)" "?P (td2, names2)" by auto
  with 1 show thesis by (intro that[of td2]) (simp_all add: compose_decl_def)
qed

lemma setTupleDecl_no_const:
  assumes "\<forall>x \<in> set (mTupleDecl c). \<not> mIsConst x"
  shows "setTupleDecl c td = Inr (c\<lparr>mTupleDecl := td\<rparr>)"
proof -
  have "set is \<subseteq> {..<conj_arity c} \<Longrightarrow> fold_result
         (\<lambda>td i.
            let mine = mTupleDecl c ! i; given = td ! i in
            if mIsConst mine \<and> mIsConst given \<and> elem_text mine \<noteq> elem_text given
            then Inl (Assert_exception ''Conjunction::setTupleDecl: constants don't match.'')
            else if mIsConst mine \<and> \<not> mIsConst given then Inr (td[i := mine])
            else Inr td) td is = Inr td" for "is"
    using assms by (induction "is") (auto simp: Let_def conj_arity_def)
  note step = this
  have "set [0..<min (conj_arity c) (length td)] \<subseteq> {..<conj_arity c}" by auto
  from step[OF this] show ?thesis unfolding setTupleDecl_def by simp
qed

section \<open>Compose\<close>

text \<open>The inputs and outputs of \<open>I\<close> are related through an inner tuple \<open>ys\<close>.\<close>

definition in_composition :: "interp \<Rightarrow> conjunction \<Rightarrow> conjunction \<Rightarrow> nat \<Rightarrow> bool" where
  "in_composition I lhs rhs inner \<longleftrightarrow>
     (let inA = int (conj_arity rhs - inner) in
      \<exists>ys. length ys = inner
        \<and> conj_holds (I\<lparr>tv := \<lambda>l. if l < inA then tv I l else ys ! nat (l - inA)\<rparr>) rhs
        \<and> conj_holds (I\<lparr>tv := \<lambda>l. if l < int inner then ys ! nat l else tv I (l - int inner + inA)\<rparr>) lhs)"

lemma compose_joined_sound:
  assumes p: "conj_proper lhs" "conj_proper rhs" and ar: "conj_arity lhs = inner + outA" "conj_arity rhs = inA + inner"
  obtains c where "compose_joined lhs rhs inner = Inr c" "conj_wf c" "conj_nonzero c" "conj_all has_args c"
    "\<forall>x \<in> set (mTupleDecl c). \<not> mIsConst x" "conj_arity c = inA + outA + inner" "mInArity c = int inA"
    "\<And>J. conj_holds J c \<longleftrightarrow>
       conj_holds (J\<lparr>tv := \<lambda>l. if l < int inA then tv J l else tv J (l + int outA)\<rparr>) rhs
       \<and> conj_holds (J\<lparr>tv := \<lambda>l. if l < int inner then tv J (l + int (inA + outA)) else tv J (l - int inner + int inA)\<rparr>) lhs"
proof -
  let ?L = "compose_shift_lhs inA outA inner" and ?R = "compose_shift_rhs inA outA inner"
  have L: "total_locs (conj_arity lhs) ?L" and R: "total_locs (conj_arity rhs) ?R"
    using ar by (auto simp: total_locs_def compose_shift_lhs_def compose_shift_rhs_def distinct_map inj_on_def)
  obtain l where l: "shift_conj lhs ?L = Inr (l\<lparr>mInArity := mInArity lhs\<rparr>)"
    "conj_wf l" "conj_nonzero l" "conj_all has_args l" "\<forall>x \<in> set (mTupleDecl l). \<not> mIsConst x"
    "conj_arity l = nat (foldl (\<lambda>m l. if l > m then l else m) (-1) ?L + 1)"
    "\<And>I. conj_holds I l \<longleftrightarrow> conj_holds (rename_interp ?L I) lhs"
    by (rule shift_sound[OF p(1) L]) blast
  obtain r where r: "shift_conj rhs ?R = Inr (r\<lparr>mInArity := mInArity rhs\<rparr>)"
    "conj_wf r" "conj_nonzero r" "conj_all has_args r" "\<forall>x \<in> set (mTupleDecl r). \<not> mIsConst x"
    "conj_arity r = nat (foldl (\<lambda>m l. if l > m then l else m) (-1) ?R + 1)"
    "\<And>I. conj_holds I r \<longleftrightarrow> conj_holds (rename_interp ?R I) rhs"
    by (rule shift_sound[OF p(2) R]) blast
  have big: "n \<le> nat (foldl (\<lambda>m l. if l > m then l else m) (-1) ls + 1)" if "n \<noteq> 0 \<Longrightarrow> int n - 1 \<in> set ls" for n ls
    using largest_from(2)[of "int n - 1" ls "-1"] that by (cases "n = 0") auto
  have lenl: "outA \<noteq> 0 \<Longrightarrow> inA + outA \<le> length (mTupleDecl l)"
  proof -
    assume "outA \<noteq> 0"
    then have "int (inA + outA) - 1 \<in> (\<lambda>j. int (j + inA)) ` {0..<outA}"
      by (intro image_eqI[of _ _ "outA - 1"]) auto
    then have "int (inA + outA) - 1 \<in> set ?L" 
      unfolding compose_shift_lhs_def set_append set_map set_upt by (rule UnI2)
    then show ?thesis using l(6) big[of "inA + outA" ?L] by (simp add: conj_arity_def)
  qed
  have lenr: "inA \<le> length (mTupleDecl r)"
  proof -
    have "inA \<noteq> 0 \<Longrightarrow> int inA - 1 \<in> int ` {0..<inA}" by (intro image_eqI[of _ _ "inA - 1"]) auto
    then have "inA \<noteq> 0 \<Longrightarrow> int inA - 1 \<in> set ?R" 
      unfolding compose_shift_rhs_def set_append set_map set_upt by (rule UnI1)
    then show ?thesis using r(6) big[of inA ?R] by (simp add: conj_arity_def)
  qed
  let ?td0 = "TupleDecl_new (inA + outA + inner)"
  have nc: "\<forall>x \<in> set ?td0. \<not> mIsConst x" by (auto simp: TupleDecl_new_def)
  obtain td where td: "compose_decl ?td0 (mTupleDecl l) (mTupleDecl r) inA outA = Inr td"
    "length td = inA + outA + inner" "\<forall>x \<in> set td. \<not> mIsConst x"
    by (rule compose_decl_spec[OF nc l(5) r(5) _ lenl lenr]) simp_all
  let ?res = "(Conjunction_new (inA + outA + inner) 0)\<lparr>mInArity := int inA\<rparr>"
  let ?c = "(copyConstraintsFrom (copyConstraintsFrom ?res (r\<lparr>mInArity := mInArity rhs\<rparr>)) (l\<lparr>mInArity := mInArity lhs\<rparr>))\<lparr>mTupleDecl := td\<rparr>"
  show thesis
  proof (rule that[of ?c])
    show "compose_joined lhs rhs inner = Inr ?c"
      using l(1) r(1) td(1) ar by (simp add: compose_joined_def Let_def Conjunction_new_def Conjunction_of_def)
    fix J
    have "conj_holds J ?c \<longleftrightarrow> conj_holds J r \<and> conj_holds J l"
      using td(3) l(5) r(5) by (auto simp: copyConstraintsFrom_def Conjunction_new_def Conjunction_of_def conj_holds_def decl_holds_def)
    moreover have "conj_holds (rename_interp ?R J) rhs
        \<longleftrightarrow> conj_holds (J\<lparr>tv := \<lambda>l. if l < int inA then tv J l else tv J (l + int outA)\<rparr>) rhs"
      by (rule rename_reads[OF p(2)]) (auto simp: ar(2) compose_shift_rhs_def nth_append of_nat_diff)
    moreover have "conj_holds (rename_interp ?L J) lhs
        \<longleftrightarrow> conj_holds (J\<lparr>tv := \<lambda>l. if l < int inner then tv J (l + int (inA + outA)) else tv J (l - int inner + int inA)\<rparr>) lhs"
      by (rule rename_reads[OF p(1)]) (auto simp: ar(1) compose_shift_lhs_def nth_append of_nat_diff add.assoc)
    ultimately show "conj_holds J ?c \<longleftrightarrow>
       conj_holds (J\<lparr>tv := \<lambda>l. if l < int inA then tv J l else tv J (l + int outA)\<rparr>) rhs
       \<and> conj_holds (J\<lparr>tv := \<lambda>l. if l < int inner then tv J (l + int (inA + outA)) else tv J (l - int inner + int inA)\<rparr>) lhs"
      using l(7)[of J] r(7)[of J] by blast
  qed (use l r td in \<open>auto simp: copyConstraintsFrom_def Conjunction_new_def Conjunction_of_def conj_wf_def conj_nonzero_def conj_all_def conj_arity_def\<close>)
qed

text \<open>The steps after the operands have been put together.\<close>

lemma compose_steps:
  assumes none: "no_inverses qinv" and c: "conj_wf c" "conj_nonzero c" "conj_all has_args c"
    "\<forall>x \<in> set (mTupleDecl c). \<not> mIsConst x" and ar: "conj_arity c = n + inner"
  obtains m c1 c' where "solve_locs qinv c s e [n..<n + inner] = Inr m" "substituteInConstraints qinv c m = Inr c1"
    "truncate_decl (mTupleDecl c1) n = Inr (take n (mTupleDecl c))"
    "setTupleDecl c1 (take n (mTupleDecl c)) = Inr (c1\<lparr>mTupleDecl := take n (mTupleDecl c)\<rparr>)"
    "pushConstConstraintsToTupleDecl qinv (c1\<lparr>mTupleDecl := take n (mTupleDecl c)\<rparr>) = Inr c'"
    "conj_wf c'" "conj_arity c' = n" "mInArity c' = mInArity c"
    "\<And>I J. conj_tvars c' \<subseteq> {0..<int n} \<Longrightarrow> same_outside {int n..<int (n + inner)} I J \<Longrightarrow>
      conj_holds J c \<Longrightarrow> conj_holds I c'"
    "\<And>I J K. conj_tvars c' \<subseteq> {0..<int n} \<Longrightarrow> conj_holds K c \<Longrightarrow>
      conj_holds I c' \<Longrightarrow> \<exists>J. same_outside {int n..<int (n + inner)} I J \<and> conj_holds J c"
proof -
  have "\<forall>i \<in> set [n..<n + inner]. i < conj_arity c" using ar by simp
  from eliminate[OF none c(1,3,2,4) this] obtain m c1 where m: "solve_locs qinv c s e [n..<n + inner] = Inr m"
    "substituteInConstraints qinv c m = Inr c1"
    "conj_wf c1" "conj_nonzero c1" "mTupleDecl c1 = mTupleDecl c" "mInArity c1 = mInArity c"
    "\<And>I. conj_holds I c1 \<Longrightarrow> \<exists>J. same_outside (int ` set [n..<n + inner]) I J \<and> conj_holds J c"
    "\<And>J. conj_holds J c \<Longrightarrow> conj_holds J c1" by metis
  let ?td = "take n (mTupleDecl c)"
  let ?f = "c1\<lparr>mTupleDecl := ?td\<rparr>"
  have L: "int ` set [n..<n + inner] = {int n..<int (n + inner)}"
    by (simp add: image_int_atLeastLessThan)
  have f: "conj_wf ?f" "conj_nonzero ?f" "\<forall>x \<in> set (mTupleDecl ?f). \<not> mIsConst x" "conj_arity ?f = n"
    using m(3,4) c(4) ar by (auto simp: conj_nonzero_def conj_arity_def dest: in_set_takeD)
  have h: "conj_holds I ?f \<longleftrightarrow> conj_holds I c1" for I
    using c(4) m(5) by (auto simp: conj_holds_def decl_holds_def)
  obtain c' where c': "pushConstConstraintsToTupleDecl qinv ?f = Inr c'"
    using pushConstConstraints_returns[OF none f(2)] by blast
  note F = finish[OF none f(1-3) c', unfolded f(4)]
  show thesis
  proof (rule that[OF m(1,2) _ _ c' F(1,2)])
    show "truncate_decl (mTupleDecl c1) n = Inr ?td"
      using m(5) ar by (simp add: truncate_decl_spec conj_arity_def)
    show "setTupleDecl c1 ?td = Inr ?f" using c(4) m(5) by (simp add: setTupleDecl_no_const)
    show "mInArity c' = mInArity c" using pushConst_frame[OF c'] m(6) by simp
  next
    fix I J assume t: "conj_tvars c' \<subseteq> {0..<int n}" "same_outside {int n..<int (n + inner)} I J" "conj_holds J c"
    then have "conj_holds J ?f" using m(8) h by simp
    with F(5)[OF t(1,2)] have "conj_holds I ?f" by auto
    then show "conj_holds I c'" by (rule F(3))
  next
    fix I K assume t: "conj_tvars c' \<subseteq> {0..<int n}" "conj_holds K c" "conj_holds I c'"
    then have "conj_holds K ?f" using m(8) h by simp
    from F(4)[OF this t(3)] have "conj_holds I c1" using h by simp
    with m(7) show "\<exists>J. same_outside {int n..<int (n + inner)} I J \<and> conj_holds J c" unfolding L by blast
  qed
qed

lemma joined_composition:
  assumes c: "\<And>J. conj_holds J c \<longleftrightarrow>
       conj_holds (J\<lparr>tv := \<lambda>l. if l < int inA then tv J l else tv J (l + int outA)\<rparr>) rhs
       \<and> conj_holds (J\<lparr>tv := \<lambda>l. if l < int inner then tv J (l + int (inA + outA)) else tv J (l - int inner + int inA)\<rparr>) lhs"
    and p: "conj_proper lhs" "conj_proper rhs" "conj_arity lhs = inner + outA" "conj_arity rhs = inA + inner"
  shows "in_composition I lhs rhs inner
    \<longleftrightarrow> (\<exists>J. same_outside {int (inA + outA)..<int (inA + outA + inner)} I J \<and> conj_holds J c)"
proof
  have t: "conj_tvars lhs \<subseteq> {0..<int (conj_arity lhs)}" "conj_tvars rhs \<subseteq> {0..<int (conj_arity rhs)}"
    using p(1,2) by (simp_all add: conj_proper_def)
  have inA: "int (conj_arity rhs - inner) = int inA" using p(4) by simp
  {
    assume "in_composition I lhs rhs inner"
    then obtain ys where ys: "length ys = inner"
      "conj_holds (I\<lparr>tv := \<lambda>l. if l < int inA then tv I l else ys ! nat (l - int inA)\<rparr>) rhs"
      "conj_holds (I\<lparr>tv := \<lambda>l. if l < int inner then ys ! nat l else tv I (l - int inner + int inA)\<rparr>) lhs"
      unfolding in_composition_def Let_def inA by blast
    let ?J = "I\<lparr>tv := \<lambda>l. if int (inA + outA) \<le> l \<and> l < int (inA + outA + inner) then ys ! nat (l - int (inA + outA)) else tv I l\<rparr>"
    have "conj_holds (?J\<lparr>tv := \<lambda>l. if l < int inA then tv ?J l else tv ?J (l + int outA)\<rparr>) rhs
        \<longleftrightarrow> conj_holds (I\<lparr>tv := \<lambda>l. if l < int inA then tv I l else ys ! nat (l - int inA)\<rparr>) rhs"
      by (rule conj_holds_tvars[OF t(2)]) (auto simp: p(4) algebra_simps)
    moreover have "conj_holds (?J\<lparr>tv := \<lambda>l. if l < int inner then tv ?J (l + int (inA + outA)) else tv ?J (l - int inner + int inA)\<rparr>) lhs
        \<longleftrightarrow> conj_holds (I\<lparr>tv := \<lambda>l. if l < int inner then ys ! nat l else tv I (l - int inner + int inA)\<rparr>) lhs"
      by (rule conj_holds_tvars[OF t(1)]) (auto simp: p(3))
    ultimately have "conj_holds ?J c" unfolding c[of ?J] using ys(2,3) by blast
    moreover have "same_outside {int (inA + outA)..<int (inA + outA + inner)} I ?J" by (simp add: same_outside_def)
    ultimately show "\<exists>J. same_outside {int (inA + outA)..<int (inA + outA + inner)} I J \<and> conj_holds J c" by blast
  next
    assume "\<exists>J. same_outside {int (inA + outA)..<int (inA + outA + inner)} I J \<and> conj_holds J c"
    then obtain J where J: "same_outside {int (inA + outA)..<int (inA + outA + inner)} I J" "conj_holds J c" by blast
    let ?ys = "map (\<lambda>i. tv J (int (i + inA + outA))) [0..<inner]"
    have "conj_holds (I\<lparr>tv := \<lambda>l. if l < int inA then tv I l else ?ys ! nat (l - int inA)\<rparr>) rhs
        \<longleftrightarrow> conj_holds (J\<lparr>tv := \<lambda>l. if l < int inA then tv J l else tv J (l + int outA)\<rparr>) rhs"
      by (rule conj_holds_tvars[OF t(2)]) (use J(1) in \<open>auto simp: p(4) same_outside_def nat_less_iff\<close>)
    moreover have "conj_holds (I\<lparr>tv := \<lambda>l. if l < int inner then ?ys ! nat l else tv I (l - int inner + int inA)\<rparr>) lhs
        \<longleftrightarrow> conj_holds (J\<lparr>tv := \<lambda>l. if l < int inner then tv J (l + int (inA + outA)) else tv J (l - int inner + int inA)\<rparr>) lhs"
      by (rule conj_holds_tvars[OF t(1)]) (use J(1) in \<open>auto simp: p(3) same_outside_def nat_less_iff add.assoc\<close>)
    ultimately show "in_composition I lhs rhs inner"
      unfolding in_composition_def Let_def inA using J(2) c[of J] by (intro exI[of _ ?ys]) auto
  }
qed

lemma Compose_sound:
  assumes none: "no_inverses qinv" and p: "conj_proper lhs" "conj_proper rhs"
    and ar: "inner \<le> conj_arity lhs" "inner \<le> conj_arity rhs"
    and fn: "conj_isFunction qinv lhs inner = Inr True \<and> conj_isFunction qinv rhs (conj_arity rhs - inner) = Inr True
      \<or> conj_isFunctionInverse qinv lhs inner = Inr True \<and> conj_isFunctionInverse qinv rhs (conj_arity rhs - inner) = Inr True"
  obtains c' where "conj_Compose qinv lhs rhs inner = Inr c'" "conj_wf c'"
    "conj_arity c' = (conj_arity rhs - inner) + (conj_arity lhs - inner)" "mInArity c' = int (conj_arity rhs - inner)"
    "\<And>I. conj_tvars c' \<subseteq> {0..<int (conj_arity c')} \<Longrightarrow> in_composition I lhs rhs inner \<Longrightarrow> conj_holds I c'"
    "\<And>I K. conj_tvars c' \<subseteq> {0..<int (conj_arity c')} \<Longrightarrow> in_composition K lhs rhs inner \<Longrightarrow>
      conj_holds I c' \<Longrightarrow> in_composition I lhs rhs inner"
proof -
  let ?inA = "conj_arity rhs - inner" and ?outA = "conj_arity lhs - inner"
  have ars: "conj_arity lhs = inner + ?outA" "conj_arity rhs = ?inA + inner" using ar by simp_all
  have nz: "conj_nonzero lhs" "conj_nonzero rhs" using p by (simp_all add: conj_proper_def)
  obtain lf where lf: "conj_isFunction qinv lhs inner = Inr lf"
    using all_functions_returns[OF none nz(1), of "[inner..<conj_arity lhs]"] by (auto simp: conj_isFunction_def)
  obtain rf where rf: "conj_isFunction qinv rhs ?inA = Inr rf"
    using all_functions_returns[OF none nz(2), of "[?inA..<conj_arity rhs]"] by (auto simp: conj_isFunction_def)
  obtain li where li: "conj_isFunctionInverse qinv lhs inner = Inr li"
    using all_functions_returns[OF none nz(1), of "[0..<inner]"] ar by (auto simp: conj_isFunctionInverse_def)
  obtain ri where ri: "conj_isFunctionInverse qinv rhs ?inA = Inr ri"
    using all_functions_returns[OF none nz(2), of "[0..<?inA]" "int ?inA" "int (conj_arity rhs) - 1"]
    by (fastforce simp: conj_isFunctionInverse_def)
  obtain c where c: "compose_joined lhs rhs inner = Inr c" "conj_wf c" "conj_nonzero c" "conj_all has_args c"
    "\<forall>x \<in> set (mTupleDecl c). \<not> mIsConst x" "conj_arity c = ?inA + ?outA + inner" "mInArity c = int ?inA"
    "\<And>J. conj_holds J c \<longleftrightarrow>
       conj_holds (J\<lparr>tv := \<lambda>l. if l < int ?inA then tv J l else tv J (l + int ?outA)\<rparr>) rhs
       \<and> conj_holds (J\<lparr>tv := \<lambda>l. if l < int inner then tv J (l + int (?inA + ?outA)) else tv J (l - int inner + int ?inA)\<rparr>) lhs"
    by (rule compose_joined_sound[OF p ars]) blast
  note img = joined_composition[OF c(8) p ars]
  define rng where "rng = compose_range (lf \<and> rf) ?inA ?outA"
  obtain m c1 c' where s: "solve_locs qinv c (fst rng) (snd rng) [?inA + ?outA..<?inA + ?outA + inner] = Inr m"
    "substituteInConstraints qinv c m = Inr c1"
    "truncate_decl (mTupleDecl c1) (?inA + ?outA) = Inr (take (?inA + ?outA) (mTupleDecl c))"
    "setTupleDecl c1 (take (?inA + ?outA) (mTupleDecl c)) = Inr (c1\<lparr>mTupleDecl := take (?inA + ?outA) (mTupleDecl c)\<rparr>)"
    "pushConstConstraintsToTupleDecl qinv (c1\<lparr>mTupleDecl := take (?inA + ?outA) (mTupleDecl c)\<rparr>) = Inr c'"
    "conj_wf c'" "conj_arity c' = ?inA + ?outA" "mInArity c' = mInArity c"
    "\<And>I J. conj_tvars c' \<subseteq> {0..<int (?inA + ?outA)} \<Longrightarrow>
      same_outside {int (?inA + ?outA)..<int (?inA + ?outA + inner)} I J \<Longrightarrow> conj_holds J c \<Longrightarrow> conj_holds I c'"
    "\<And>I J K. conj_tvars c' \<subseteq> {0..<int (?inA + ?outA)} \<Longrightarrow> conj_holds K c \<Longrightarrow>
      conj_holds I c' \<Longrightarrow> \<exists>J. same_outside {int (?inA + ?outA)..<int (?inA + ?outA + inner)} I J \<and> conj_holds J c"
    by (rule compose_steps[OF none c(2-6)]) blast
  show thesis
  proof (rule that[of c'])
    have "lf \<and> rf \<or> li \<and> ri" using fn lf rf li ri by simp
    then show "conj_Compose qinv lhs rhs inner = Inr c'"
      using ar lf rf li ri c(1) s(1-5) unfolding rng_def by (simp add: conj_Compose_def Let_def)
  next
    fix I assume t: "conj_tvars c' \<subseteq> {0..<int (conj_arity c')}" "in_composition I lhs rhs inner"
    then show "conj_holds I c'" using s(7,9) img by metis
  next
    fix I K assume t: "conj_tvars c' \<subseteq> {0..<int (conj_arity c')}" "in_composition K lhs rhs inner" "conj_holds I c'"
    then show "in_composition I lhs rhs inner" using s(7,10) img by metis
  qed (use s c(7) in simp_all)
qed

end
