(* ===== verification/Set_Semantics.thy ===== *)
theory Set_Semantics
  imports Sets Conj_Compose_Correct
begin

text \<open>
  The points of sets and relations: a list of conjunctions holds where one of them does. The order of
  conjunctions is that of a key, so the lists are instances of \<open>keyed_constraints\<close> again.
\<close>

section \<open>The order of conjunctions\<close>

definition key_of_conj :: "conjunction \<Rightarrow> _" where
  "key_of_conj c = (key_of_decl (mTupleDecl c), length (mEqualities c), length (mInequalities c),
     map key_of_exp (mEqualities c), map key_of_exp (mInequalities c))"

interpretation conj_order: keyed_order conj_less key_of_conj
proof
  fix a b :: conjunction
  have e: "length (mEqualities a) = length (mEqualities b) \<Longrightarrow>
    list_less exp_less (mEqualities a) (mEqualities b) \<longleftrightarrow> map key_of_exp (mEqualities a) < map key_of_exp (mEqualities b)"
    "length (mEqualities a) = length (mEqualities b) \<Longrightarrow>
    list_less exp_less (mEqualities b) (mEqualities a) \<longleftrightarrow> map key_of_exp (mEqualities b) < map key_of_exp (mEqualities a)"
    by (rule exp_order.list_less_key; simp)+
  have i: "length (mInequalities a) = length (mInequalities b) \<Longrightarrow>
    list_less exp_less (mInequalities a) (mInequalities b) \<longleftrightarrow> map key_of_exp (mInequalities a) < map key_of_exp (mInequalities b)"
    by (rule exp_order.list_less_key)
  show "conj_less a b \<longleftrightarrow> key_of_conj a < key_of_conj b"
    by (cases "length (mEqualities a)" "length (mEqualities b)" rule: linorder_cases;
        cases "length (mInequalities a)" "length (mInequalities b)" rule: linorder_cases;
        simp add: conj_less_def key_of_conj_def e i decl_order.lt_key; fastforce?)
qed

lemma conj_holds_key:
  assumes "conj_wf a" "conj_wf b" "key_of_conj a = key_of_conj b"
  shows "conj_holds I a \<longleftrightarrow> conj_holds I b"
proof -
  have all: "(\<forall>e \<in> set es. P (eval_exp I e)) \<longleftrightarrow> (\<forall>e \<in> set es'. P (eval_exp I e))"
    if "map key_of_exp es = map key_of_exp es'" "\<forall>e \<in> set es. wf_exp e" "\<forall>e \<in> set es'. wf_exp e" for es es' P
  proof -
    have "length es = length es'" using that(1) by (rule map_eq_imp_length_eq)
    then have "map (eval_exp I) es = map (eval_exp I) es'" using that
      by (induction es es' rule: list_induct2) (auto intro: key_of_exp_eval)
    from arg_cong[OF this, of "\<lambda>vs. \<forall>v \<in> set vs. P v"] show ?thesis by simp
  qed
  have k: "map elem_key (mTupleDecl a) = map elem_key (mTupleDecl b)"
    "map key_of_exp (mEqualities a) = map key_of_exp (mEqualities b)"
    "map key_of_exp (mInequalities a) = map key_of_exp (mInequalities b)"
    using assms(3) by (simp_all add: key_of_conj_def key_of_decl_def)
  show ?thesis
    using assms(1,2) all[OF k(2), of "\<lambda>v. v = 0"] all[OF k(3), of "\<lambda>v. v \<ge> 0"] decl_holds_same[OF k(1), of I]
    by (simp add: conj_wf_def conj_holds_def holds_eq_def holds_ineq_def)
qed

interpretation conjs: keyed_constraints conj_less key_of_conj conj_wf conj_holds
  by unfold_locales (rule conj_holds_key)

section \<open>Points\<close>

definition sparse_holds :: "interp \<Rightarrow> sparse \<Rightarrow> bool" where
  "sparse_holds I cs \<longleftrightarrow> (\<exists>c \<in> set cs. conj_holds I c)"

definition sparse_wf :: "sparse \<Rightarrow> bool" where
  "sparse_wf cs \<longleftrightarrow> (\<forall>c \<in> set cs. conj_wf c)"

text \<open>
  A list from which the next addition removes nothing: it has no conjunction without constraints as its
  only element.
\<close>

definition keeps :: "sparse \<Rightarrow> bool" where
  "keeps cs \<longleftrightarrow> \<not> (length cs = 1 \<and> \<not> hasConstraints (hd cs))"

lemma addConjunction_sound:
  assumes "sparse_wf cs" "conj_wf c"
  shows "sparse_wf (sparse_addConjunction cs c)"
    "keeps cs \<Longrightarrow> sparse_holds I (sparse_addConjunction cs c) \<longleftrightarrow> sparse_holds I cs \<or> conj_holds I c"
    "\<not> keeps cs \<Longrightarrow> sparse_addConjunction cs c = [c]"
    "sorted_wrt conj_less cs \<Longrightarrow> sorted_wrt conj_less (sparse_addConjunction cs c)"
proof -
  have wf: "\<forall>d \<in> set cs. conj_wf d" using assms(1) by (simp add: sparse_wf_def)
  show "sparse_wf (sparse_addConjunction cs c)"
    using conjs.ok_insert_unique[OF assms(2) wf] assms(2) by (simp add: sparse_addConjunction_def sparse_wf_def)
  show "keeps cs \<Longrightarrow> sparse_holds I (sparse_addConjunction cs c) \<longleftrightarrow> sparse_holds I cs \<or> conj_holds I c"
    using conjs.ex_insert_unique[OF assms(2) wf, of I] by (auto simp: keeps_def sparse_addConjunction_def sparse_holds_def)
  show "\<not> keeps cs \<Longrightarrow> sparse_addConjunction cs c = [c]"
    by (simp add: keeps_def sparse_addConjunction_def)
  show "sorted_wrt conj_less cs \<Longrightarrow> sorted_wrt conj_less (sparse_addConjunction cs c)"
    using conj_order.sorted_insert_unique[of cs c] by (simp add: sparse_addConjunction_def)
qed

definition constrained :: "sparse \<Rightarrow> bool" where
  "constrained cs \<longleftrightarrow> (\<forall>c \<in> set cs. hasConstraints c)"

lemma constrained_keeps: "constrained cs \<Longrightarrow> keeps cs"
  by (cases cs) (auto simp: constrained_def keeps_def)

lemma constrained_add: "constrained cs \<Longrightarrow> hasConstraints c \<Longrightarrow> constrained (sparse_addConjunction cs c)"
  using conj_order.set_insert_unique[of c cs] conj_order.set_insert_unique[of c "[]"]
  by (auto simp: constrained_def sparse_addConjunction_def)

text \<open>Adding constrained conjunctions one by one adds their points.\<close>

lemma addConjunctions_sound:
  assumes "sparse_wf cs" "constrained cs" "sparse_wf ds" "constrained ds"
  shows "sparse_wf (foldl sparse_addConjunction cs ds)" "constrained (foldl sparse_addConjunction cs ds)"
    "sparse_holds I (foldl sparse_addConjunction cs ds) \<longleftrightarrow> sparse_holds I cs \<or> sparse_holds I ds"
proof -
  have "sparse_wf (foldl sparse_addConjunction cs ds) \<and> constrained (foldl sparse_addConjunction cs ds)
    \<and> (sparse_holds I (foldl sparse_addConjunction cs ds) \<longleftrightarrow> sparse_holds I cs \<or> sparse_holds I ds)"
    using assms
  proof (induction ds arbitrary: cs)
    case (Cons d ds)
    have d: "conj_wf d" "hasConstraints d" "sparse_wf ds" "constrained ds"
      using Cons.prems(3,4) by (simp_all add: sparse_wf_def constrained_def)
    note a = addConjunction_sound[OF Cons.prems(1) d(1)]
    from Cons.IH[OF a(1) constrained_add[OF Cons.prems(2) d(2)] d(3,4)] a(2)[OF constrained_keeps[OF Cons.prems(2)], of I]
    show ?case unfolding foldl_Cons by (simp add: sparse_holds_def disj_assoc)
  qed (simp add: sparse_holds_def)
  then show "sparse_wf (foldl sparse_addConjunction cs ds)" "constrained (foldl sparse_addConjunction cs ds)"
    "sparse_holds I (foldl sparse_addConjunction cs ds) \<longleftrightarrow> sparse_holds I cs \<or> sparse_holds I ds" by blast+
qed

section \<open>Cleaning up\<close>

lemma stable_insert_set: "set (stable_insert lt x xs) = insert x (set xs)"
  by (induction xs) auto

lemma list_sort_set: "set (list_sort lt xs) = set xs"
proof -
  have "set (foldl (\<lambda>acc x. stable_insert lt x acc) acc xs) = set acc \<union> set xs" for acc
    by (induction xs arbitrary: acc) (auto simp: stable_insert_set)
  then show ?thesis by (simp add: list_sort_def)
qed

lemma stable_insert_length: "length (stable_insert lt x xs) = Suc (length xs)"
  by (induction xs) auto

context keyed_order
begin

lemma stable_insert_keys:
  "sorted (map key xs) \<Longrightarrow> sorted (map key (stable_insert lt x xs))"
proof (induction xs)
  case (Cons y ys)
  show ?case
  proof (cases "lt x y")
    case True
    then have "key x < key y" by (simp add: lt_key)
    with True Cons.prems show ?thesis by auto
  next
    case False
    then have "key y \<le> key x" by (simp add: lt_key)
    with False Cons show ?thesis by (auto simp: stable_insert_set)
  qed
qed simp

lemma list_sort_keys: "sorted (map key (list_sort lt xs))"
proof -
  have "sorted (map key acc) \<Longrightarrow> sorted (map key (foldl (\<lambda>acc x. stable_insert lt x acc) acc xs))" for acc
    by (induction xs arbitrary: acc) (auto simp: stable_insert_keys)
  then show ?thesis by (simp add: list_sort_def)
qed

end

lemma sparse_cleanUp_sound:
  assumes "sparse_wf cs" "\<forall>c \<in> set cs. conj_collapsible qinv sig c" "respects_inverses qinv sig I"
  obtains cs' where "sparse_cleanUp qinv cs = Inr cs'" "sparse_wf cs'" "\<forall>c \<in> set cs'. conj_sorted c"
    "sparse_holds I cs' \<longleftrightarrow> sparse_holds I cs" "sorted (map key_of_conj cs')" "\<forall>c \<in> set cs'. satisfiable c"
proof -
  have one: "\<exists>c'. cleanUp qinv c = Inr c' \<and> conj_wf c' \<and> conj_sorted c' \<and> (conj_holds I c' \<longleftrightarrow> conj_holds I c)"
    if "c \<in> set cs" for c
    using cleanUp_sound[of c qinv sig I] that assms by (metis sparse_wf_def)
  then obtain ds where ds: "map_result (cleanUp qinv) cs = Inr ds" using map_result_total[of cs "cleanUp qinv"] by blast
  then have "list_all2 (\<lambda>c c'. cleanUp qinv c = Inr c') cs ds" by (simp add: map_result_Inr_iff)
  then have "(\<forall>d \<in> set ds. conj_wf d \<and> conj_sorted d) \<and> (sparse_holds I ds \<longleftrightarrow> sparse_holds I cs)"
    using one
  proof (induction rule: list_all2_induct)
    case (Cons c cs d ds)
    then obtain c' where "cleanUp qinv c = Inr c'" "conj_wf c'" "conj_sorted c'" "conj_holds I c' \<longleftrightarrow> conj_holds I c"
      by (meson list.set_intros(1))
    with Cons show ?case by (auto simp: sparse_holds_def)
  qed (simp add: sparse_holds_def)
  moreover have "sparse_holds I (filter satisfiable ds) \<longleftrightarrow> sparse_holds I ds"
    using satisfiable_sound by (auto simp: sparse_holds_def)
  ultimately show thesis
    using ds by (intro that[of "list_sort conj_less (filter satisfiable ds)"])
      (auto simp: sparse_cleanUp_def list_sort_set sparse_wf_def sparse_holds_def conj_order.list_sort_keys)
qed

section \<open>Equality\<close>

definition key_of_sparse :: "sparse \<Rightarrow> _" where
  "key_of_sparse cs = (length cs, map key_of_conj cs)"

interpretation sparse_order: keyed_order sparse_list_less key_of_sparse
  by unfold_locales (auto simp: sparse_list_less_def key_of_sparse_def conj_order.list_less_key)

lemma sparse_holds_key:
  assumes "sparse_wf cs" "sparse_wf ds" "key_of_sparse cs = key_of_sparse ds"
  shows "sparse_holds I cs \<longleftrightarrow> sparse_holds I ds"
proof -
  have "length cs = length ds" "map key_of_conj cs = map key_of_conj ds"
    using assms(3) by (simp_all add: key_of_sparse_def)
  then have "map (conj_holds I) cs = map (conj_holds I) ds" using assms(1,2)
    by (induction cs ds rule: list_induct2) (auto simp: sparse_wf_def dest: conj_holds_key)
  from arg_cong[OF this, of "\<lambda>bs. True \<in> set bs"] show ?thesis
    by (auto simp: sparse_holds_def image_iff)
qed

lemma sparse_copy_sound:
  assumes "sparse_wf cs" "constrained cs" "\<forall>c \<in> set cs. conj_collapsible qinv sig c" "respects_inverses qinv sig I"
  obtains cs' where "sparse_copy qinv cs = Inr cs'" "sparse_wf cs'" "sparse_holds I cs' \<longleftrightarrow> sparse_holds I cs"
proof -
  let ?ds = "foldl sparse_addConjunction [] cs"
  have nil: "sparse_wf []" "constrained []" by (simp_all add: sparse_wf_def constrained_def)
  note a = addConjunctions_sound[OF nil assms(1,2)]
  have sub: "set (sparse_addConjunction as c) \<subseteq> insert c (set as)" for as c
    using conj_order.set_insert_unique[of c as] conj_order.set_insert_unique[of c "[]"]
    by (auto simp: sparse_addConjunction_def)
  have "set (foldl sparse_addConjunction as bs) \<subseteq> set as \<union> set bs" for as bs
    by (induction bs arbitrary: as) (use sub in fastforce)+
  from this[of "[]" cs] have col: "\<forall>c \<in> set ?ds. conj_collapsible qinv sig c" using assms(3) by auto
  obtain cs' where "sparse_cleanUp qinv ?ds = Inr cs'" "sparse_wf cs'" "sparse_holds I cs' \<longleftrightarrow> sparse_holds I ?ds"
    by (rule sparse_cleanUp_sound[OF a(1) col assms(4)])
  with a(3)[of I] show thesis by (intro that[of cs']) (simp_all add: sparse_copy_def sparse_holds_def)
qed

lemma Set_eq_sound:
  assumes "Set_eq qinv s t = Inr True" "sparse_wf (mConjunctions s)" "sparse_wf (mConjunctions t)"
    "constrained (mConjunctions s)" "constrained (mConjunctions t)"
    "\<forall>c \<in> set (mConjunctions s) \<union> set (mConjunctions t). conj_collapsible qinv sig c" "respects_inverses qinv sig I"
  shows "mArity s = mArity t" "sparse_holds I (mConjunctions s) \<longleftrightarrow> sparse_holds I (mConjunctions t)"
proof -
  have col: "\<forall>c \<in> set (mConjunctions s). conj_collapsible qinv sig c" "\<forall>c \<in> set (mConjunctions t). conj_collapsible qinv sig c"
    using assms(6) by auto
  obtain cs where cs: "sparse_copy qinv (mConjunctions s) = Inr cs" "sparse_wf cs"
    "sparse_holds I cs \<longleftrightarrow> sparse_holds I (mConjunctions s)"
    by (rule sparse_copy_sound[OF assms(2,4) col(1) assms(7)])
  obtain ds where ds: "sparse_copy qinv (mConjunctions t) = Inr ds" "sparse_wf ds"
    "sparse_holds I ds \<longleftrightarrow> sparse_holds I (mConjunctions t)"
    by (rule sparse_copy_sound[OF assms(3,5) col(2) assms(7)])
  show ar: "mArity s = mArity t" using assms(1)
    by (auto simp: Set_eq_def Set_less_def split: if_splits)
  have "incomparable sparse_list_less cs ds"
    using assms(1) ar cs(1) ds(1) by (auto simp: Set_eq_def Set_less_def sparse_less_def incomparable_def split: if_splits)
  then have "key_of_sparse cs = key_of_sparse ds" by (simp add: sparse_order.incomparable_key)
  from sparse_holds_key[OF cs(2) ds(2) this, of I] cs(3) ds(3)
  show "sparse_holds I (mConjunctions s) \<longleftrightarrow> sparse_holds I (mConjunctions t)" by simp
qed

section \<open>Union and intersection\<close>

lemma Set_new_conj: "Set_new n = Inr \<lparr>mConjunctions = [Conjunction_of (TupleDecl_new n)], mArity = n\<rparr>"
  by (simp add: Set_new_def sDefaultTupleDecl_new sparse_addConjunction_def)

lemma hasConstraints_of [simp]: "\<not> hasConstraints (Conjunction_of td)"
  by (simp add: hasConstraints_def Conjunction_of_def)

lemma Set_addConjunctions:
  "mConjunctions (foldl Set_addConjunction s cs) = foldl sparse_addConjunction (mConjunctions s) cs"
  "mArity (foldl Set_addConjunction s cs) = mArity s"
  by (induction cs arbitrary: s) (simp_all add: Set_addConjunction_def)

lemma Set_Union_sound:
  assumes "mArity s = mArity t" "sparse_wf (mConjunctions s)" "sparse_wf (mConjunctions t)"
    "constrained (mConjunctions s)" "constrained (mConjunctions t)"
  obtains u where "Set_Union s t = Inr u" "mArity u = mArity s" "sparse_wf (mConjunctions u)"
    "constrained (mConjunctions u)"
    "\<And>I. sparse_holds I (mConjunctions u) \<longleftrightarrow> sparse_holds I (mConjunctions s) \<or> sparse_holds I (mConjunctions t)"
proof -
  let ?s = "foldl sparse_addConjunction [] (mConjunctions s)"
  let ?u = "foldl Set_addConjunction (foldl Set_addConjunction \<lparr>mConjunctions = [], mArity = mArity s\<rparr> (mConjunctions s)) (mConjunctions t)"
  have nil: "sparse_wf []" "constrained []" by (simp_all add: sparse_wf_def constrained_def)
  note a = addConjunctions_sound[OF nil assms(2,4)]
  note b = addConjunctions_sound[OF a(1,2) assms(3,5)]
  show thesis
  proof (rule that[of ?u])
    show "Set_Union s t = Inr ?u"
      using assms(1) by (simp add: Set_Union_def Set_new_conj)
  qed (use a b in \<open>simp_all add: Set_addConjunctions sparse_holds_def\<close>)
qed

definition intersections :: "sparse \<Rightarrow> sparse \<Rightarrow> sparse" where
  "intersections cs ds = concat (map (\<lambda>i. map (Conj_Intersect i) ds) cs)"

lemma intersect_folds:
  "foldl (\<lambda>result i. foldl (\<lambda>result j. Set_addConjunction result (Conj_Intersect i j)) result ds) s cs
    = foldl Set_addConjunction s (intersections cs ds)"
proof -
  have "foldl (\<lambda>result j. Set_addConjunction result (Conj_Intersect i j)) s ds
    = foldl Set_addConjunction s (map (Conj_Intersect i) ds)" for i s
    by (induction ds arbitrary: s) simp_all
  then show ?thesis by (induction cs arbitrary: s) (simp_all add: intersections_def)
qed

lemma Intersect_hasConstraints: "hasConstraints c \<Longrightarrow> hasConstraints (Conj_Intersect c d)"
proof -
  have l: "length xs \<le> length (insert_unique lt x xs)" for lt :: "exp \<Rightarrow> exp \<Rightarrow> bool" and x xs
    by (induction xs) auto
  have e: "length (mEqualities c) \<le> length (mEqualities (foldl addEquality c es))" for c es
  proof (induction es arbitrary: c)
    case (Cons e es)
    have "length (mEqualities c) \<le> length (mEqualities (addEquality c e))" by (simp add: addEquality_def Let_def l)
    also have "\<dots> \<le> length (mEqualities (foldl addEquality (addEquality c e) es))" by (rule Cons.IH)
    finally show ?case by simp
  qed simp
  have i: "length (mInequalities c) \<le> length (mInequalities (foldl addInequality c es))" for c es
  proof (induction es arbitrary: c)
    case (Cons e es)
    have "length (mInequalities c) \<le> length (mInequalities (addInequality c e))" by (simp add: addInequality_def l)
    also have "\<dots> \<le> length (mInequalities (foldl addInequality (addInequality c e) es))" by (rule Cons.IH)
    finally show ?case by simp
  qed simp
  assume "hasConstraints c"
  with e[of c "mEqualities d"] i[of "foldl addEquality c (mEqualities d)" "mInequalities d"] show ?thesis
    by (auto simp: hasConstraints_def Conj_Intersect_def split: if_splits)
qed

lemma Set_Intersect_sound:
  assumes "mArity s = mArity t" "sparse_wf (mConjunctions s)" "sparse_wf (mConjunctions t)"
    "constrained (mConjunctions s)" "mConjunctions s \<noteq> []" "mConjunctions t \<noteq> []"
    "\<forall>c \<in> set (mConjunctions t). \<forall>x \<in> set (mTupleDecl c). \<not> mIsConst x"
  obtains u where "Set_Intersect s t = Inr u" "mArity u = mArity s" "sparse_wf (mConjunctions u)"
    "\<And>I. sparse_holds I (mConjunctions u) \<longleftrightarrow> sparse_holds I (mConjunctions s) \<and> sparse_holds I (mConjunctions t)"
proof -
  let ?ps = "intersections (mConjunctions s) (mConjunctions t)"
  let ?s0 = "\<lparr>mConjunctions = [Conjunction_of (TupleDecl_new (mArity s))], mArity = mArity s\<rparr>"
  let ?u = "foldl Set_addConjunction ?s0 ?ps"
  have int: "conj_wf (Conj_Intersect c d)" "hasConstraints (Conj_Intersect c d)"
    "conj_holds I (Conj_Intersect c d) \<longleftrightarrow> conj_holds I c \<and> conj_holds I d"
    if "c \<in> set (mConjunctions s)" "d \<in> set (mConjunctions t)" for c d I
  proof -
    have wf: "conj_wf c" "conj_wf d" using assms(2,3) that by (auto simp: sparse_wf_def)
    have "decl_holds I (mTupleDecl d)" using assms(7) that(2) by (simp add: decl_holds_def)
    with Conj_Intersect_sound[OF wf] show "conj_wf (Conj_Intersect c d)"
      "conj_holds I (Conj_Intersect c d) \<longleftrightarrow> conj_holds I c \<and> conj_holds I d"
      by (simp_all add: conj_holds_def)
    show "hasConstraints (Conj_Intersect c d)"
      using assms(4) that(1) by (intro Intersect_hasConstraints) (simp add: constrained_def)
  qed
  have ps: "set ?ps = (\<Union>c \<in> set (mConjunctions s). Conj_Intersect c ` set (mConjunctions t))"
    by (auto simp: intersections_def)
  have ok: "sparse_wf ?ps" "constrained ?ps" using int(1,2) by (auto simp: ps sparse_wf_def constrained_def)
  have nil: "sparse_wf []" "constrained []" by (simp_all add: sparse_wf_def constrained_def)
  note a = addConjunctions_sound[OF nil ok]
  obtain p qs where pq: "?ps = p # qs"
    using assms(5,6) by (cases "mConjunctions s"; cases "mConjunctions t") (auto simp: intersections_def)
  have u: "mConjunctions ?u = foldl sparse_addConjunction [] ?ps"
    unfolding Set_addConjunctions pq by (simp add: sparse_addConjunction_def)
  show thesis
  proof (rule that[of ?u])
    show "Set_Intersect s t = Inr ?u"
      using assms(1) by (simp add: Set_Intersect_def Set_new_conj intersect_folds)
    show "sparse_holds I (mConjunctions ?u) \<longleftrightarrow> sparse_holds I (mConjunctions s) \<and> sparse_holds I (mConjunctions t)" for I
      unfolding u a(3) using int(3) by (fastforce simp: sparse_holds_def ps)
  qed (use a(1) u in \<open>simp_all add: Set_addConjunctions(2)\<close>)
qed

section \<open>The inverse of a relation\<close>

definition rel_proper :: "relation_object \<Rightarrow> bool" where
  "rel_proper r \<longleftrightarrow> (\<forall>c \<in> set (rConjunctions r).
     conj_proper c \<and> hasConstraints c \<and> conj_arity c = rInArity r + rOutArity r \<and> mInArity c = int (rInArity r))"

lemma Relation_add_fold:
  assumes "\<forall>c \<in> set cs. f c = Inr (g c) \<and> mInArity (g c) = int (rInArity r)"
  shows "fold_result (\<lambda>r c. bind_result (f c) (Relation_addConjunction r)) r cs
    = Inr (r\<lparr>rConjunctions := foldl sparse_addConjunction (rConjunctions r) (map g cs)\<rparr>)"
  using assms
proof (induction cs arbitrary: r)
  case (Cons c cs)
  let ?r = "r\<lparr>rConjunctions := sparse_addConjunction (rConjunctions r) (g c)\<rparr>"
  have "fold_result (\<lambda>r c. bind_result (f c) (Relation_addConjunction r)) ?r cs
    = Inr (?r\<lparr>rConjunctions := foldl sparse_addConjunction (rConjunctions ?r) (map g cs)\<rparr>)"
    by (rule Cons.IH) (use Cons.prems in simp)
  moreover have "f c = Inr (g c)" "Relation_addConjunction r (g c) = Inr ?r"
    using Cons.prems by (simp_all add: Relation_addConjunction_def)
  ultimately show ?case by simp
qed simp

lemma conj_Inverse_keeps:
  assumes "conj_Inverse c = Inr c'" "conj_proper c"
  shows "hasConstraints c' = hasConstraints c" "conj_all has_args c'"
proof -
  obtain locs where r: "conj_remapTupleVars (c\<lparr>mInArity := int (nat (int (conj_arity c) - mInArity c))\<rparr>) locs = Inr c'"
    using assms(1) by (auto simp: conj_Inverse_def Let_def split: if_splits)
  obtain eqs ineqs where m: "map_result (remapTupleVars locs) (mEqualities c) = Inr eqs"
    "map_result (remapTupleVars locs) (mInequalities c) = Inr ineqs"
    and c': "mEqualities c' = map normalizeForEquality eqs" "mInequalities c' = ineqs"
    using r by (auto simp: conj_remapTupleVars_def Let_def)
  have "length eqs = length (mEqualities c)" "length ineqs = length (mInequalities c)"
    using m by (auto simp: map_result_Inr_iff dest: list_all2_lengthD)
  then show "hasConstraints c' = hasConstraints c" unfolding hasConstraints_def c' by simp
  show "conj_all has_args c'"
    by (rule shifted_proper(2)[OF r]) (use assms(2) in \<open>simp_all add: conj_proper_def conj_nonzero_def conj_all_def\<close>)
qed

lemma Relation_Inverse_sound:
  assumes none: "no_inverses qinv" and r: "rel_proper r"
  obtains r' where "Relation_Inverse qinv r = Inr r'" "rInArity r' = rOutArity r" "rOutArity r' = rInArity r"
    "\<And>I. sparse_holds I (rConjunctions r') \<longleftrightarrow> sparse_holds (swap_interp (rInArity r) (rOutArity r) I) (rConjunctions r)"
proof -
  let ?g = "\<lambda>c. projr (conj_Inverse c)" and ?cs = "rConjunctions r"
  let ?ds = "foldl sparse_addConjunction [] (map ?g ?cs)"
  have g: "conj_Inverse c = Inr (?g c)" "conj_wf (?g c)" "mInArity (?g c) = int (rOutArity r)"
    "conj_holds I (?g c) \<longleftrightarrow> conj_holds (swap_interp (rInArity r) (rOutArity r) I) c"
    "hasConstraints (?g c)" "conj_all has_args (?g c)" if c: "c \<in> set ?cs" for c I
  proof -
    have p: "conj_proper c" "hasConstraints c" "conj_arity c = rInArity r + rOutArity r" "mInArity c = int (rInArity r)"
      using r c by (auto simp: rel_proper_def)
    then have q: "conj_wf c" "conj_tvars c \<subseteq> {0..<int (conj_arity c)}" by (simp_all add: conj_proper_def)
    obtain c' where c': "conj_Inverse c = Inr c'" "conj_wf c'" "mInArity c' = int (rOutArity r)"
      "\<And>I. conj_holds I c' \<longleftrightarrow> conj_holds (swap_interp (rInArity r) (rOutArity r) I) c"
      by (rule conj_Inverse_sound[OF q(1) p(3,4) q(2)]) blast
    then show "conj_Inverse c = Inr (?g c)" "conj_wf (?g c)" "mInArity (?g c) = int (rOutArity r)"
      "conj_holds I (?g c) \<longleftrightarrow> conj_holds (swap_interp (rInArity r) (rOutArity r) I) c"
      "hasConstraints (?g c)" "conj_all has_args (?g c)"
      using conj_Inverse_keeps[OF c'(1) p(1)] p(2) by simp_all
  qed
  have ok: "sparse_wf (map ?g ?cs)" "constrained (map ?g ?cs)"
    using g(2,5) by (auto simp: sparse_wf_def constrained_def)
  have nil: "sparse_wf []" "constrained []" by (simp_all add: sparse_wf_def constrained_def)
  note a = addConjunctions_sound[OF nil ok]
  have sub: "set (sparse_addConjunction as c) \<subseteq> insert c (set as)" for as c
    using conj_order.set_insert_unique[of c as] conj_order.set_insert_unique[of c "[]"]
    by (auto simp: sparse_addConjunction_def)
  have "set (foldl sparse_addConjunction as bs) \<subseteq> set as \<union> set bs" for as bs
    by (induction bs arbitrary: as) (use sub in fastforce)+
  from this[of "[]" "map ?g ?cs"] have "\<forall>c \<in> set ?ds. conj_all has_args c" using g(6) by auto
  then have col: "\<forall>c \<in> set ?ds. conj_collapsible qinv sig c" for sig
    using no_inverses_facts(5)[OF none] a(1) by (simp add: sparse_wf_def)
  have "\<exists>cs'. sparse_cleanUp qinv ?ds = Inr cs' \<and> (sparse_holds I cs' \<longleftrightarrow> sparse_holds I ?ds)" for I
    using sparse_cleanUp_sound[OF a(1) col no_inverses_facts(3)[OF none]] by metis
  then obtain cs' where cs': "sparse_cleanUp qinv ?ds = Inr cs'" "\<And>I. sparse_holds I cs' \<longleftrightarrow> sparse_holds I ?ds"
    by (metis sum.inject(2))
  have h: "sparse_holds I ?ds \<longleftrightarrow> sparse_holds (swap_interp (rInArity r) (rOutArity r) I) ?cs" for I
    unfolding a(3) using g(4) by (auto simp: sparse_holds_def)
  have "fold_result (\<lambda>r c. bind_result (conj_Inverse c) (Relation_addConjunction r)) (Relation_new (rOutArity r) (rInArity r)) ?cs
    = Inr ((Relation_new (rOutArity r) (rInArity r))\<lparr>rConjunctions := foldl sparse_addConjunction (rConjunctions (Relation_new (rOutArity r) (rInArity r))) (map ?g ?cs)\<rparr>)"
    by (rule Relation_add_fold) (use g(1,3) in \<open>simp add: Relation_new_def\<close>)
  then have "Relation_Inverse qinv r = Inr \<lparr>rConjunctions = cs', rInArity = rOutArity r, rOutArity = rInArity r\<rparr>"
    using cs'(1) by (simp add: Relation_Inverse_def Relation_new_def Relation_cleanUp_def)
  with cs'(2) h that show thesis by simp
qed

section \<open>Where the empty and the universal set are lost\<close>

text \<open>
  No conjunction stands for the empty set and a conjunction without constraints for all tuples. An
  intersection with the empty set never reaches the code that removes the initial conjunction, and
  \<open>addConjunction\<close> takes any lone conjunction without constraints for the initial one, even one that
  has constants in its tuple declaration.
\<close>

lemma Intersect_with_empty:
  "Set_Intersect s \<lparr>mConjunctions = [], mArity = mArity s\<rparr> = Set_new (mArity s)"
proof -
  have "foldl (\<lambda>result i. result) x cs = x" for x and cs :: sparse by (induction cs) simp_all
  then show ?thesis by (simp add: Set_Intersect_def Set_new_conj)
qed

lemma Apply_to_empty:
  "Relation_Apply qinv r \<lparr>mConjunctions = [], mArity = rInArity r\<rparr> = Set_new (rOutArity r)"
proof -
  have "fold_result (\<lambda>result l. Inr result) x cs = Inr x" for x :: set_object and cs :: sparse by (induction cs) simp_all
  then show ?thesis
    by (simp add: Relation_Apply_def Set_new_conj sparse_cleanUp_def cleanUp_def Conjunction_of_def satisfiable_def
        list_sort_def)
qed

lemma Union_loses_universe:
  assumes "hasConstraints c"
  shows "Set_Union (Set_of_decl (TupleDecl_new n)) \<lparr>mConjunctions = [c], mArity = n\<rparr>
    = Inr \<lparr>mConjunctions = [c], mArity = n\<rparr>"
  by (simp add: Set_Union_def Set_new_conj Set_of_decl_def Set_addConjunction_def sparse_addConjunction_def)

text \<open>The union the other way round keeps both conjunctions, but a copy of it does not.\<close>

lemma copy_loses_universe:
  assumes "conj_less (Conjunction_of td) c" "\<not> conj_less c (Conjunction_of td)" "hasConstraints c"
  shows "sparse_addConjunction [c] (Conjunction_of td) = [Conjunction_of td, c]
    \<and> foldl sparse_addConjunction [] [Conjunction_of td, c] = [c]"
  using assms by (simp add: sparse_addConjunction_def incomparable_def)

text \<open>Constants in the declaration of the right operand are ignored: \<open>{[3]}\<close> meets \<open>{[4]}\<close> in \<open>{[3]}\<close>.\<close>

lemma Intersect_ignores_constants:
  "Conj_Intersect (Conjunction_of [\<lparr>mIsConst = True, mConstVal = 3, mVarString = ''''\<rparr>])
     (Conjunction_of [\<lparr>mIsConst = True, mConstVal = 4, mVarString = ''''\<rparr>])
   = Conjunction_of [\<lparr>mIsConst = True, mConstVal = 3, mVarString = ''''\<rparr>]"
  by (simp add: Conj_Intersect_def Conjunction_of_def)

end
