(* ===== verification/Conj_Properties.thy ===== *)
theory Conj_Properties
  imports Set_Semantics
begin

text \<open>
  The properties of conjunctions, sets and relations, each applied to a small example. The examples
  are about the relation \<open>{[i] -> [j] : i - j + 1 = 0}\<close> and the set \<open>{[i] : i - 3 >= 0}\<close>.
\<close>

section \<open>Examples\<close>

definition no_inverse :: "string \<Rightarrow> string" where
  "no_inverse f = ''''"

definition succ_rel :: conjunction where
  "succ_rel = (Conjunction_new 2 1)\<lparr>mEqualities := [Exp [TupleVarTerm 1 0, TupleVarTerm (-1) 1, Term 1] Equality]\<rparr>"

definition from_3 :: conjunction where
  "from_3 = (Conjunction_new 1 0)\<lparr>mInequalities := [Exp [TupleVarTerm 1 0, Term (-3)] Inequality]\<rparr>"

definition point :: "int list \<Rightarrow> interp" where
  "point xs = \<lparr>tv = \<lambda>l. if 0 \<le> l \<and> nat l < length xs then xs ! nat l else 0, sym = \<lambda>s. 0, uf = \<lambda>f i as. 0\<rparr>"

lemma tv_point [simp]: "tv (point [a]) 0 = a" "tv (point [a, b]) 0 = a" "tv (point [a, b]) 1 = b"
  by (simp_all add: point_def)

lemma no_inverse [simp]: "no_inverses no_inverse"
  by (simp add: no_inverses_def no_inverse_def)

lemmas conj_defs = conj_holds_def decl_holds_def holds_eq_def holds_ineq_def Conjunction_new_def Conjunction_of_def
  conj_wf_def conj_all_def conj_nonzero_def conj_tvars_def conj_arity_def conj_proper_def less_Suc_eq

lemma succ_rel_facts:
  "conj_proper succ_rel" "conj_arity succ_rel = 2" "mInArity succ_rel = 1"
  "conj_holds I succ_rel \<longleftrightarrow> tv I 1 = tv I 0 + 1" "hasConstraints succ_rel"
  by (auto simp: succ_rel_def conj_defs hasConstraints_def TupleDecl_new_def)

lemma from_3_facts:
  "conj_proper from_3" "conj_arity from_3 = 1" "conj_holds I from_3 \<longleftrightarrow> tv I 0 \<ge> 3" "hasConstraints from_3"
  by (auto simp: from_3_def conj_defs hasConstraints_def TupleDecl_new_def)

lemma same_tail: "conj_collapsible no_inverse sig succ_rel" "conj_collapsible no_inverse sig from_3"
  by (rule no_inverses_facts(5); use succ_rel_facts(1) from_3_facts(1) in \<open>simp add: conj_proper_def\<close>)+

section \<open>Conjunctions\<close>

text \<open>C2: Applying a relation whose inputs are functions of its outputs to a set returns, for constraints
  whose calls all have arguments and without inverse functions. When the result mentions no variable
  outside its tuple, it holds at every output of a point of the set, and if there is such an output
  at all, nowhere else.\<close>

theorem Apply_correct:
  assumes "no_inverses qinv" "conj_proper lhs" "conj_proper rhs"
    "conj_isFunctionInverse qinv lhs (conj_arity rhs) = Inr True"
  shows "\<exists>c'. conj_Apply qinv lhs rhs = Inr c' \<and> conj_arity c' + conj_arity rhs = conj_arity lhs
    \<and> (conj_tvars c' \<subseteq> {0..<int (conj_arity c')} \<longrightarrow>
        (\<forall>I. in_image I lhs rhs \<longrightarrow> conj_holds I c')
        \<and> (\<forall>I K. in_image K lhs rhs \<and> conj_holds I c' \<longrightarrow> in_image I lhs rhs))"
  by (rule Apply_sound[OF assms]) blast

lemma Apply_correct_witness:
  "\<exists>c'. conj_Apply no_inverse succ_rel from_3 = Inr c'
     \<and> mInequalities c' = [Exp [TupleVarTerm 1 0, Term (-4)] Inequality]
     \<and> in_image (point [7]) succ_rel from_3"
proof -
  have f: "conj_isFunctionInverse no_inverse succ_rel (conj_arity from_3) = Inr True" by code_simp
  obtain c' where c': "conj_Apply no_inverse succ_rel from_3 = Inr c'" "conj_arity c' + conj_arity from_3 = conj_arity succ_rel"
    "conj_tvars c' \<subseteq> {0..<int (conj_arity c')} \<longrightarrow>
        (\<forall>I. in_image I succ_rel from_3 \<longrightarrow> conj_holds I c')
        \<and> (\<forall>I K. in_image K succ_rel from_3 \<and> conj_holds I c' \<longrightarrow> in_image I succ_rel from_3)"
    using Apply_correct[OF no_inverse succ_rel_facts(1) from_3_facts(1) f] by blast
  have v: "conj_Apply no_inverse succ_rel from_3 = Inr \<lparr>mEqualities = [],
      mInequalities = [Exp [TupleVarTerm 1 0, Term (-4)] Inequality], mTupleDecl = [var_elem ''tv1''],
      mInArity = 0, unsat = False\<rparr>" by code_simp
  have img: "in_image (point [n]) succ_rel from_3" if "n \<ge> 4" for n
    unfolding in_image_def from_3_facts(2,3) succ_rel_facts(4)
    by (rule exI[of _ "[n - 1]"]) (use that in \<open>simp add: point_def\<close>)
  have "conj_tvars c' \<subseteq> {0..<int (conj_arity c')}" "conj_holds (point [7]) c'"
    using c'(1) v by (auto simp: conj_defs point_def)
  then have "in_image (point [7]) succ_rel from_3" using c'(3) img[of 9] by (meson order_refl numeral_le_iff semiring_norm)
  with c'(1) v show ?thesis by auto
qed

text \<open>C3: Let no function have a declared inverse, and let the constraints of two conjunctions be well formed, with
  arguments for every call, without zero coefficients in equalities and without variables outside the tuple
  (\<open>conj_proper\<close>). Composing the two as relations that share an inner tuple, which is no longer than either
  tuple, returns when both are functions or both are inverses of functions, with the arities of the composition. When the
  result mentions no variable outside its tuple, it holds at every input and output that are related through an inner
  tuple, and if there are such at all, nowhere else.\<close>

theorem Compose_correct:
  assumes "no_inverses qinv" "conj_proper lhs" "conj_proper rhs"
    "inner \<le> conj_arity lhs" "inner \<le> conj_arity rhs"
    "conj_isFunction qinv lhs inner = Inr True \<and> conj_isFunction qinv rhs (conj_arity rhs - inner) = Inr True
      \<or> conj_isFunctionInverse qinv lhs inner = Inr True \<and> conj_isFunctionInverse qinv rhs (conj_arity rhs - inner) = Inr True"
  shows "\<exists>c'. conj_Compose qinv lhs rhs inner = Inr c'
    \<and> conj_arity c' = (conj_arity rhs - inner) + (conj_arity lhs - inner)
    \<and> mInArity c' = int (conj_arity rhs - inner)
    \<and> (conj_tvars c' \<subseteq> {0..<int (conj_arity c')} \<longrightarrow>
        (\<forall>I. in_composition I lhs rhs inner \<longrightarrow> conj_holds I c')
        \<and> (\<forall>I K. in_composition K lhs rhs inner \<and> conj_holds I c' \<longrightarrow> in_composition I lhs rhs inner))"
  by (rule Compose_sound[OF assms]) blast

lemma Compose_correct_witness:
  "\<exists>c'. conj_Compose no_inverse succ_rel succ_rel 1 = Inr c'
     \<and> mEqualities c' = [Exp [TupleVarTerm 1 0, TupleVarTerm (-1) 1, Term 2] Equality]
     \<and> in_composition (point [5, 7]) succ_rel succ_rel 1"
proof -
  have f: "conj_isFunction no_inverse succ_rel 1 = Inr True"
    "conj_isFunction no_inverse succ_rel (conj_arity succ_rel - 1) = Inr True" by code_simp+
  obtain c' where c': "conj_Compose no_inverse succ_rel succ_rel 1 = Inr c'"
    "conj_tvars c' \<subseteq> {0..<int (conj_arity c')} \<longrightarrow>
        (\<forall>I. in_composition I succ_rel succ_rel 1 \<longrightarrow> conj_holds I c')
        \<and> (\<forall>I K. in_composition K succ_rel succ_rel 1 \<and> conj_holds I c' \<longrightarrow> in_composition I succ_rel succ_rel 1)"
    using Compose_correct[OF no_inverse succ_rel_facts(1) succ_rel_facts(1), of 1] f succ_rel_facts(2) by auto
  have v: "conj_Compose no_inverse succ_rel succ_rel 1 = Inr
     \<lparr>mEqualities = [Exp [TupleVarTerm 1 0, TupleVarTerm (-1) 1, Term 2] Equality], mInequalities = [],
      mTupleDecl = [var_elem ''tv0'', var_elem ''tv1''], mInArity = 1, unsat = False\<rparr>" by code_simp
  have K: "in_composition (point [0, 2]) succ_rel succ_rel 1"
    unfolding in_composition_def succ_rel_facts(2,4) Let_def
    by (rule exI[of _ "[1]"]) (simp add: point_def)
  have "conj_tvars c' \<subseteq> {0..<int (conj_arity c')}" "conj_holds (point [5, 7]) c'"
    using c'(1) v by (auto simp: conj_defs point_def)
  then have "in_composition (point [5, 7]) succ_rel succ_rel 1" using c'(2) K by blast
  with c'(1) v show ?thesis by auto
qed

text \<open>C10: When a relation of well-formed constraints is reported to be a function, two of its points with the same
  inputs, symbols and functions have the same outputs, at which the declared inverses are inverses, as long as no solution
  had to invert a call it cannot invert (\<open>exposes\<close>).\<close>

theorem isFunction_correct:
  assumes "conj_isFunction qinv c inArity = Inr True" "conj_wf c" "conj_holds I c" "conj_holds J c"
    "\<forall>q \<in> set (mEqualities c). \<forall>i \<in> {inArity..<conj_arity c}. exposes qinv sig q (TupleVarTerm 1 (int i))"
    "inverts_arguments qinv sig I" "inverts_arguments qinv sig J"
    "same_outside {int inArity..<int (conj_arity c)} I J"
  shows "tv I = tv J"
proof
  fix l
  have L: "int ` set [inArity..<conj_arity c] = {int inArity..<int (conj_arity c)}"
    by (simp add: image_int_atLeastLessThan)
  have same: "\<forall>i \<in> set [inArity..<conj_arity c]. tv I (int i) = tv J (int i)"
    by (rule all_functions_determine[OF assms(1)[unfolded conj_isFunction_def] assms(2-4) _ assms(6,7)])
      (use assms(5,8) L in auto)
  show "tv I l = tv J l"
  proof (cases "l \<in> {int inArity..<int (conj_arity c)}")
    case True
    then have "nat l \<in> set [inArity..<conj_arity c]" by auto
    with same have "tv I (int (nat l)) = tv J (int (nat l))" by blast
    with True show ?thesis by simp
  qed (use assms(8) in \<open>simp add: same_outside_def\<close>)
qed

lemma isFunction_correct_witness:
  "conj_isFunction no_inverse succ_rel 1 = Inr True \<and> tv (point [5, 6]) 1 = tv (point [5]\<lparr>tv := (\<lambda>l. if l = 0 then 5 else if l = 1 then 6 else 0)\<rparr>) 1"
proof -
  let ?J = "point [5]\<lparr>tv := (\<lambda>l. if l = 0 then 5 else if l = 1 then 6 else 0)\<rparr>"
  have f: "conj_isFunction no_inverse succ_rel 1 = Inr True" by code_simp
  have "tv (point [5, 6]) = tv ?J"
  proof (rule isFunction_correct[OF f, where sig = "\<lambda>f. (1, 1)"])
    show "conj_wf succ_rel" using succ_rel_facts(1) by (simp add: conj_proper_def)
    show "conj_holds (point [5, 6]) succ_rel" "conj_holds ?J succ_rel" by (simp_all add: succ_rel_facts(4) point_def)
    show "same_outside {int 1..<int (conj_arity succ_rel)} (point [5, 6]) ?J"
      by (auto simp: same_outside_def point_def succ_rel_facts(2))
  qed (simp_all add: no_inverses_facts(2)[OF no_inverse] no_inverses_facts(4)[OF no_inverse])
  with f show ?thesis by simp
qed

text \<open>Moving constants from the equalities into the tuple declaration keeps every point, and when the
  conjunction has any point at all it adds none.\<close>

lemma pushConstConstraints_correct:
  assumes "conj_wf c" "pushConstConstraintsToTupleDecl qinv c = Inr c'"
    "\<forall>e \<in> set (mEqualities c). \<forall>i < conj_arity c. direct qinv e (TupleVarTerm 1 (int i))"
  shows "conj_wf c' \<and> (conj_holds I c \<longrightarrow> conj_holds I c') \<and> (conj_holds J c \<and> conj_holds I c' \<longrightarrow> conj_holds I c)"
  using pushConstConstraints_sound[OF assms] by blast

definition fixed_two :: conjunction where
  "fixed_two = (Conjunction_new 2 0)\<lparr>mEqualities := [Exp [TupleVarTerm 1 0, TupleVarTerm (-1) 1] Equality, Exp [TupleVarTerm 1 0, Term (-3)] Equality]\<rparr>"

text \<open>Without a point, points can appear: of two constants for one variable the last one is kept and
  both equalities are removed.\<close>

lemma pushConstConstraints_conflict:
  "pushConstConstraintsToTupleDecl no_inverse
     ((Conjunction_new 1 0)\<lparr>mEqualities := [Exp [TupleVarTerm 1 0, Term (-4)] Equality, Exp [TupleVarTerm 1 0, Term (-3)] Equality]\<rparr>)
   = Inr \<lparr>mEqualities = [], mInequalities = [],
      mTupleDecl = [\<lparr>mIsConst = True, mConstVal = 3, mVarString = ''tv0''\<rparr>], mInArity = 0, unsat = False\<rparr>"
  by code_simp

text \<open>C20: Cleaning up a conjunction of well-formed constraints whose calls can be collapsed (\<open>conj_collapsible\<close>) returns,
  with the declaration and the arities kept. Every constraint of the result is the collapse of a given one, normalised
  for an equality, none is trivial, and each of the given ones is there in this form or is trivial in it; both lists are
  strictly sorted, so without duplicates. The points at which the declared inverses are inverses stay the same.\<close>

theorem cleanUp_correct:
  assumes "conj_wf c" "conj_collapsible qinv sig c" "respects_inverses qinv sig I"
  shows "\<exists>c'. cleanUp qinv c = Inr c' \<and> conj_wf c' \<and> conj_sorted c' \<and> (conj_holds I c' \<longleftrightarrow> conj_holds I c)
    \<and> cleaned (\<lambda>e. collapse_exp qinv (normalizeForEquality e)) equality_form (mEqualities c) (mEqualities c')
    \<and> cleaned (collapse_exp qinv) setInequality (mInequalities c) (mInequalities c')
    \<and> mTupleDecl c' = mTupleDecl c \<and> mInArity c' = mInArity c"
proof (rule cleanUp_sound[OF assms])
  fix c' assume c: "cleanUp qinv c = Inr c'" "conj_wf c'" "conj_sorted c'"
    "conj_holds I c' \<longleftrightarrow> conj_holds I c" "mTupleDecl c' = mTupleDecl c" "mInArity c' = mInArity c"
  then show ?thesis using cleanUp_cleaned[OF c(1)] by blast
qed

definition nested_pair :: conjunction where
  "nested_pair = (Conjunction_new 2 0)\<lparr>mEqualities := [Exp [TupleVarTerm (-1) 1, UFCallTerm 1 ''f'' [Exp [UFCallTerm 1 ''f_inv''
       [Exp [TupleVarTerm 1 0] Expression] (-1)] Expression] (-1)] Equality, Exp [TupleVarTerm 1 0, TupleVarTerm (-1) 1] Equality],
     mInequalities := [Exp [Term 0] Inequality]\<rparr>"

lemma nested_pair_cleaned: "cleanUp f_inverse nested_pair = Inr ((Conjunction_new 2 0)\<lparr>mEqualities := [Exp [TupleVarTerm 1 0, TupleVarTerm (-1) 1] Equality]\<rparr>)"
  by code_simp

theorem cleanUp_correct_witness:
  "let I = \<lparr>tv = \<lambda>l. 7, sym = \<lambda>s. 0, uf = \<lambda>f i as. hd as\<rparr>; c' = (Conjunction_new 2 0)\<lparr>mEqualities := [Exp [TupleVarTerm 1 0, TupleVarTerm (-1) 1] Equality]\<rparr>
   in cleanUp f_inverse nested_pair = Inr c' \<and> conj_sorted c' \<and> (conj_holds I c' \<longleftrightarrow> conj_holds I nested_pair)
    \<and> cleaned (collapse_exp f_inverse) setInequality [Exp [Term 0] Inequality] (mInequalities c')"
proof -
  let ?I = "\<lparr>tv = \<lambda>l. 7, sym = \<lambda>s. 0, uf = \<lambda>f i as. hd as\<rparr>" and ?c' = "(Conjunction_new 2 0)\<lparr>mEqualities := [Exp [TupleVarTerm 1 0, TupleVarTerm (-1) 1] Equality]\<rparr>"
  have "ident ''f''" "ident ''f_inv''" by code_simp+
  then have wf: "conj_wf nested_pair" by (simp add: conj_wf_def nested_pair_def)
  have col: "conj_collapsible f_inverse (\<lambda>f. (1, 1)) nested_pair"
    by (auto simp: conj_collapsible_def nested_pair_def Conjunction_new_def Conjunction_of_def nested_unit_def getTerm_def tupleIndex_def isIndexed_def f_inverse_def)
  have inv: "respects_inverses f_inverse (\<lambda>f. (1, 1)) ?I" by (simp add: respects_inverses_def)
  from cleanUp_correct[OF wf col inv] show ?thesis
    unfolding nested_pair_cleaned Let_def by (auto simp: nested_pair_def)
qed

text \<open>Substituting in the constraints of a conjunction gives a conjunction that holds where the old
  constraints hold with every factor of the map read as its substitute.\<close>

lemma substituteInConstraints_correct:
  assumes "conj_wf c" "wf_sub m" "subst_interp m I I'" "respects_inverses qinv sig I"
    and "conj_collapsible qinv sig
      (c\<lparr>mEqualities := map (substitute m) (mEqualities c), mInequalities := map (substitute m) (mInequalities c)\<rparr>)"
  shows "\<exists>c'. substituteInConstraints qinv c m = Inr c' \<and> conj_wf c' \<and> conj_sorted c'
    \<and> (conj_holds I c' \<longleftrightarrow> decl_holds I (mTupleDecl c) \<and> conj_holds I' (c\<lparr>mTupleDecl := []\<rparr>))"
  by (rule substituteInConstraints_sound[OF assms]) blast

text \<open>Turning the constants of the tuple declaration into equalities leaves a declaration without
  constants and the same points.\<close>

lemma pushConstToConstraints_correct:
  assumes "conj_wf c"
  shows "conj_wf (pushConstToConstraints c) \<and> conj_arity (pushConstToConstraints c) = conj_arity c
    \<and> list_all (\<lambda>e. \<not> mIsConst e) (mTupleDecl (pushConstToConstraints c))
    \<and> (conj_holds I (pushConstToConstraints c) \<longleftrightarrow> conj_holds I c)"
  using pushConstToConstraints_sound[OF assms] by (simp add: list_all_iff)

text \<open>The inverse of a relation's conjunction over its own variables exists, has the arities exchanged and
  holds at a point exactly when the relation holds with inputs and outputs exchanged.\<close>

lemma conj_Inverse_correct:
  assumes "conj_wf c" "conj_arity c = inA + outA" "mInArity c = int inA" "conj_tvars c \<subseteq> {0..<int (conj_arity c)}"
  shows "\<exists>c'. conj_Inverse c = Inr c' \<and> conj_wf c' \<and> conj_arity c' = conj_arity c \<and> mInArity c' = int outA
    \<and> (\<forall>I. conj_holds I c' \<longleftrightarrow> conj_holds (swap_interp inA outA I) c)"
  by (rule conj_Inverse_sound[OF assms]) blast

section \<open>Sets and relations\<close>

text \<open>The union of two sets of the same arity whose conjunctions all have constraints has their arity
  and holds where one of them does.\<close>

lemma Set_Union_correct:
  assumes "mArity s = mArity t" "sparse_wf (mConjunctions s)" "sparse_wf (mConjunctions t)"
    "constrained (mConjunctions s)" "constrained (mConjunctions t)"
  shows "\<exists>u. Set_Union s t = Inr u \<and> mArity u = mArity s \<and> sparse_wf (mConjunctions u)
    \<and> (\<forall>I. sparse_holds I (mConjunctions u) \<longleftrightarrow> sparse_holds I (mConjunctions s) \<or> sparse_holds I (mConjunctions t))"
  by (rule Set_Union_sound[OF assms]) blast

definition ex_set :: "conjunction \<Rightarrow> set_object" where
  "ex_set c = \<lparr>mConjunctions = [c], mArity = conj_arity c\<rparr>"

definition only_1 :: conjunction where
  "only_1 = (Conjunction_new 1 0)\<lparr>mEqualities := [Exp [TupleVarTerm 1 0, Term (-1)] Equality]\<rparr>"

lemma only_1_facts:
  "conj_wf only_1" "conj_arity only_1 = 1" "conj_holds I only_1 \<longleftrightarrow> tv I 0 = 1" "hasConstraints only_1"
  by (auto simp: only_1_def conj_defs hasConstraints_def TupleDecl_new_def)

text \<open>The intersection of two sets that are not empty lists, the left one with constraints in every
  conjunction and the right one without constants in its declarations, holds where both do.\<close>

lemma Set_Intersect_correct:
  assumes "mArity s = mArity t" "sparse_wf (mConjunctions s)" "sparse_wf (mConjunctions t)"
    "constrained (mConjunctions s)" "mConjunctions s \<noteq> []" "mConjunctions t \<noteq> []"
    "\<forall>c \<in> set (mConjunctions t). \<forall>x \<in> set (mTupleDecl c). \<not> mIsConst x"
  shows "\<exists>u. Set_Intersect s t = Inr u \<and> mArity u = mArity s \<and> sparse_wf (mConjunctions u)
    \<and> (\<forall>I. sparse_holds I (mConjunctions u) \<longleftrightarrow> sparse_holds I (mConjunctions s) \<and> sparse_holds I (mConjunctions t))"
  by (rule Set_Intersect_sound[OF assms]) blast

definition up_to_5 :: conjunction where
  "up_to_5 = (Conjunction_new 1 0)\<lparr>mInequalities := [Exp [TupleVarTerm (-1) 0, Term 5] Inequality]\<rparr>"

lemma up_to_5_facts:
  "conj_wf up_to_5" "conj_arity up_to_5 = 1" "conj_holds I up_to_5 \<longleftrightarrow> tv I 0 \<le> 5" "\<forall>x \<in> set (mTupleDecl up_to_5). \<not> mIsConst x"
  by (auto simp: up_to_5_def conj_defs TupleDecl_new_def)

text \<open>Two sets that compare equal have the same arity and the same points.\<close>

lemma Set_eq_correct:
  assumes "Set_eq qinv s t = Inr True" "sparse_wf (mConjunctions s)" "sparse_wf (mConjunctions t)"
    "constrained (mConjunctions s)" "constrained (mConjunctions t)"
    "\<forall>c \<in> set (mConjunctions s) \<union> set (mConjunctions t). conj_collapsible qinv sig c" "respects_inverses qinv sig I"
  shows "mArity s = mArity t \<and> (sparse_holds I (mConjunctions s) \<longleftrightarrow> sparse_holds I (mConjunctions t))"
  using Set_eq_sound[OF assms] by blast

text \<open>C24: Let no function have a declared inverse, and let the conjunctions of a relation have constraints, all
  well formed, with arguments for every call, without zero coefficients in equalities and without variables outside the
  tuple, and the arities of the relation (\<open>rel_proper\<close>). Then the inverse of the relation exists, exchanges
  its arities and holds at a point exactly when the relation holds with inputs and outputs exchanged.\<close>

theorem Relation_Inverse_correct:
  assumes "no_inverses qinv" "rel_proper r"
  shows "\<exists>r'. Relation_Inverse qinv r = Inr r' \<and> rInArity r' = rOutArity r \<and> rOutArity r' = rInArity r
    \<and> (\<forall>I. sparse_holds I (rConjunctions r') \<longleftrightarrow> sparse_holds (swap_interp (rInArity r) (rOutArity r) I) (rConjunctions r))"
  by (rule Relation_Inverse_sound[OF assms]) blast

lemma Relation_Inverse_correct_witness:
  "\<exists>r'. Relation_Inverse no_inverse \<lparr>rConjunctions = [succ_rel], rInArity = 1, rOutArity = 1\<rparr> = Inr r'
     \<and> sparse_holds (point [6, 5]) (rConjunctions r') \<and> \<not> sparse_holds (point [5, 6]) (rConjunctions r')"
proof -
  let ?r = "\<lparr>rConjunctions = [succ_rel], rInArity = 1, rOutArity = 1\<rparr>"
  have "rel_proper ?r" using succ_rel_facts by (simp add: rel_proper_def)
  from Relation_Inverse_correct[OF no_inverse this] obtain r' where r': "Relation_Inverse no_inverse ?r = Inr r'"
    "\<forall>I. sparse_holds I (rConjunctions r') \<longleftrightarrow> sparse_holds (swap_interp (rInArity ?r) (rOutArity ?r) I) (rConjunctions ?r)"
    by blast
  have s: "tv (swap_interp 1 1 (point [a, b])) 0 = b" "tv (swap_interp 1 1 (point [a, b])) 1 = a" for a b
    by (simp_all add: swap_interp_def)
  have "sparse_holds (point [a, b]) (rConjunctions r') \<longleftrightarrow> a = b + 1" for a b
    using r'(2)[rule_format, of "point [a, b]"] by (simp add: sparse_holds_def succ_rel_facts(4) s del: One_nat_def)
  with r'(1) show ?thesis by simp
qed

end
