(* ===== verification/Visitor.thy ===== *)
theory Visitor
  imports Set_Semantics
begin

text \<open>
  The visitor pattern of \<open>IEGenLib/src/set_relation/Visitor.h\<close>, the methods \<open>acceptVisitor\<close> of
  \<open>expression.cc\<close> and \<open>set_relation.cc\<close>, and the visitors that only look at a set. A visitor is a record
  of its methods, each of which takes the object visited and the fields of the visitor, and may throw.
  The visitors of the source change a tuple variable when they come to it, a call and a conjunction when
  they leave it, and nothing else; these methods return the changed object too.
\<close>

section \<open>Visitors\<close>

record 's visitor =
  preVisitTerm :: "trm \<Rightarrow> 's \<Rightarrow> 's result"
  preVisitVarTerm :: "trm \<Rightarrow> 's \<Rightarrow> 's result"
  preVisitTupleVarTerm :: "trm \<Rightarrow> 's \<Rightarrow> (trm \<times> 's) result"
  preVisitUFCallTerm :: "trm \<Rightarrow> 's \<Rightarrow> 's result"
  postVisitUFCallTerm :: "trm \<Rightarrow> 's \<Rightarrow> (trm \<times> 's) result"
  preVisitExp :: "exp \<Rightarrow> 's \<Rightarrow> 's result"
  postVisitExp :: "exp \<Rightarrow> 's \<Rightarrow> 's result"
  preVisitConjunction :: "conjunction \<Rightarrow> 's \<Rightarrow> 's result"
  postVisitConjunction :: "conjunction \<Rightarrow> 's \<Rightarrow> (conjunction \<times> 's) result"
  preVisitSparseConstraints :: "sparse \<Rightarrow> 's \<Rightarrow> 's result"
  postVisitSparseConstraints :: "sparse \<Rightarrow> 's \<Rightarrow> 's result"
  preVisitSet :: "set_object \<Rightarrow> 's \<Rightarrow> 's result"
  postVisitSet :: "set_object \<Rightarrow> 's \<Rightarrow> 's result"
  preVisitRelation :: "relation_object \<Rightarrow> 's \<Rightarrow> 's result"
  postVisitRelation :: "relation_object \<Rightarrow> 's \<Rightarrow> 's result"

text \<open>The methods of the base class do nothing.\<close>

definition base_Visitor :: "'s visitor" where
  "base_Visitor = \<lparr>
     preVisitTerm = \<lambda>t s. Inr s, preVisitVarTerm = \<lambda>t s. Inr s, preVisitTupleVarTerm = \<lambda>t s. Inr (t, s),
     preVisitUFCallTerm = \<lambda>t s. Inr s, postVisitUFCallTerm = \<lambda>t s. Inr (t, s),
     preVisitExp = \<lambda>e s. Inr s, postVisitExp = \<lambda>e s. Inr s,
     preVisitConjunction = \<lambda>c s. Inr s, postVisitConjunction = \<lambda>c s. Inr (c, s),
     preVisitSparseConstraints = \<lambda>cs s. Inr s, postVisitSparseConstraints = \<lambda>cs s. Inr s,
     preVisitSet = \<lambda>x s. Inr s, postVisitSet = \<lambda>x s. Inr s,
     preVisitRelation = \<lambda>r s. Inr s, postVisitRelation = \<lambda>r s. Inr s\<rparr>"

text \<open>A loop over objects that may be changed.\<close>

fun visit_all :: "('a \<Rightarrow> 's \<Rightarrow> ('a \<times> 's) result) \<Rightarrow> 'a list \<Rightarrow> 's \<Rightarrow> ('a list \<times> 's) result" where
  "visit_all f [] s = Inr ([], s)"
| "visit_all f (x # xs) s = bind_result (f x s) (\<lambda>(x, s). bind_result (visit_all f xs s) (\<lambda>(xs, s). Inr (x # xs, s)))"

lemma visit_all_cong [fundef_cong]:
  "xs = ys \<Longrightarrow> s = s' \<Longrightarrow> (\<And>x s. x \<in> set ys \<Longrightarrow> f x s = g x s) \<Longrightarrow> visit_all f xs s = visit_all g ys s'"
proof (induction ys arbitrary: xs s s')
  case (Cons y ys)
  have "f y s' = g y s'" "\<And>s. visit_all f ys s = visit_all g ys s" using Cons by auto
  then show ?case using Cons.prems by simp
qed simp

fun accept_trm :: "'s visitor \<Rightarrow> trm \<Rightarrow> 's \<Rightarrow> (trm \<times> 's) result"
  and accept_exp :: "'s visitor \<Rightarrow> exp \<Rightarrow> 's \<Rightarrow> (exp \<times> 's) result" where
  "accept_trm v (Term c) s = bind_result (preVisitTerm v (Term c) s) (\<lambda>s. Inr (Term c, s))"
| "accept_trm v (VarTerm c x) s = bind_result (preVisitVarTerm v (VarTerm c x) s) (\<lambda>s. Inr (VarTerm c x, s))"
| "accept_trm v (TupleVarTerm c l) s = preVisitTupleVarTerm v (TupleVarTerm c l) s"
| "accept_trm v (UFCallTerm c f args i) s =
     bind_result (preVisitUFCallTerm v (UFCallTerm c f args i) s) (\<lambda>s.
     bind_result (visit_all (accept_exp v) args s) (\<lambda>(args, s).
       postVisitUFCallTerm v (UFCallTerm c f args i) s))"
| "accept_exp v (Exp ts et) s =
     bind_result (preVisitExp v (Exp ts et) s) (\<lambda>s.
     bind_result (visit_all (accept_trm v) ts s) (\<lambda>(ts, s).
     bind_result (postVisitExp v (Exp ts et) s) (\<lambda>s. Inr (Exp ts et, s))))"

definition accept_conj :: "'s visitor \<Rightarrow> conjunction \<Rightarrow> 's \<Rightarrow> (conjunction \<times> 's) result" where
  "accept_conj v c s =
     bind_result (preVisitConjunction v c s) (\<lambda>s.
     bind_result (visit_all (accept_exp v) (mEqualities c) s) (\<lambda>(eqs, s).
     bind_result (visit_all (accept_exp v) (mInequalities c) s) (\<lambda>(ineqs, s).
       postVisitConjunction v (c\<lparr>mEqualities := eqs, mInequalities := ineqs\<rparr>) s)))"

definition accept_sparse :: "'s visitor \<Rightarrow> sparse \<Rightarrow> 's \<Rightarrow> (sparse \<times> 's) result" where
  "accept_sparse v cs s =
     bind_result (preVisitSparseConstraints v cs s) (\<lambda>s.
     bind_result (visit_all (accept_conj v) cs s) (\<lambda>(cs, s).
     bind_result (postVisitSparseConstraints v cs s) (\<lambda>s. Inr (cs, s))))"

definition accept_Set :: "'s visitor \<Rightarrow> set_object \<Rightarrow> 's \<Rightarrow> (set_object \<times> 's) result" where
  "accept_Set v x s =
     bind_result (preVisitSet v x s) (\<lambda>s.
     bind_result (accept_sparse v (mConjunctions x) s) (\<lambda>(cs, s).
     let x = x\<lparr>mConjunctions := cs\<rparr> in
     bind_result (postVisitSet v x s) (\<lambda>s. Inr (x, s))))"

definition accept_Relation :: "'s visitor \<Rightarrow> relation_object \<Rightarrow> 's \<Rightarrow> (relation_object \<times> 's) result" where
  "accept_Relation v r s =
     bind_result (preVisitRelation v r s) (\<lambda>s.
     bind_result (accept_sparse v (rConjunctions r) s) (\<lambda>(cs, s).
     let r = r\<lparr>rConjunctions := cs\<rparr> in
     bind_result (postVisitRelation v r s) (\<lambda>s. Inr (r, s))))"

section \<open>Loops over objects\<close>

text \<open>The loop rule: \<open>Q ys zs s\<close> says that the objects \<open>ys\<close> have been visited and have become \<open>zs\<close>.\<close>

lemma visit_all_rule:
  assumes "Q [] [] s" and "\<And>ys zs x s. x \<in> set xs \<Longrightarrow> Q ys zs s \<Longrightarrow> \<exists>x' s'. f x s = Inr (x', s') \<and> Q (ys @ [x]) (zs @ [x']) s'"
  shows "\<exists>xs' s'. visit_all f xs s = Inr (xs', s') \<and> Q xs xs' s'"
proof -
  have "Q ys zs s \<Longrightarrow> set us \<subseteq> set xs \<Longrightarrow>
    \<exists>us' s'. visit_all f us s = Inr (us', s') \<and> Q (ys @ us) (zs @ us') s'" for us ys zs s
  proof (induction us arbitrary: ys zs s)
    case (Cons u us)
    then obtain u' s1 where u: "f u s = Inr (u', s1)" "Q (ys @ [u]) (zs @ [u']) s1" using assms(2)[of u ys zs s] by auto
    with Cons.IH[OF u(2)] Cons.prems(2) obtain us' s' where
      "visit_all f us s1 = Inr (us', s')" "Q ((ys @ [u]) @ us) ((zs @ [u']) @ us') s'" by auto
    with u(1) show ?case by auto
  qed simp
  from this[OF assms(1) order_refl] show ?thesis by simp
qed

text \<open>The rule for visits that leave the objects as they are.\<close>

lemma visit_all_same_rule:
  assumes "Q [] s" and "\<And>ys x s. x \<in> set xs \<Longrightarrow> Q ys s \<Longrightarrow> \<exists>s'. f x s = Inr (x, s') \<and> Q (ys @ [x]) s'"
  shows "\<exists>s'. visit_all f xs s = Inr (xs, s') \<and> Q xs s'"
  using visit_all_rule[of "\<lambda>ys zs s. zs = ys \<and> Q ys s" s xs f] assms by auto

text \<open>Objects whose visit does not depend on the state and keeps it.\<close>

lemma visit_all_map:
  "(\<And>x. x \<in> set xs \<Longrightarrow> f x s = Inr (g x, s)) \<Longrightarrow> visit_all f xs s = Inr (map g xs, s)"
  by (induction xs) auto

section \<open>Kinds of expressions\<close>

text \<open>The arguments of calls are plain expressions; visitors tell them from constraints by that.\<close>

fun args_kind_trm :: "trm \<Rightarrow> bool" and args_kind :: "exp \<Rightarrow> bool" where
  "args_kind_trm (UFCallTerm c f args i) \<longleftrightarrow> list_all (\<lambda>a. mExpType a = Expression \<and> args_kind a) args"
| "args_kind_trm (Term c) = True"
| "args_kind_trm (VarTerm c s) = True"
| "args_kind_trm (TupleVarTerm c l) = True"
| "args_kind (Exp ts et) = list_all args_kind_trm ts"

definition conj_kinds :: "conjunction \<Rightarrow> bool" where
  "conj_kinds c \<longleftrightarrow> (\<forall>e \<in> set (mEqualities c). mExpType e = Equality \<and> args_kind e)
     \<and> (\<forall>e \<in> set (mInequalities c). mExpType e = Inequality \<and> args_kind e)"

definition sparse_kinds :: "sparse \<Rightarrow> bool" where
  "sparse_kinds cs \<longleftrightarrow> (\<forall>c \<in> set cs. conj_kinds c)"

text \<open>The variables in arguments of calls, and how deep calls are nested.\<close>

fun arg_tvars_trm :: "trm \<Rightarrow> int set" where
  "arg_tvars_trm (UFCallTerm c f args i) = \<Union> (set (map tvars args))"
| "arg_tvars_trm (Term c) = {}"
| "arg_tvars_trm (VarTerm c s) = {}"
| "arg_tvars_trm (TupleVarTerm c l) = {}"

definition arg_tvars :: "exp \<Rightarrow> int set" where
  "arg_tvars e = \<Union> (set (map arg_tvars_trm (mTerms e)))"

definition sparse_arg_tvars :: "sparse \<Rightarrow> int set" where
  "sparse_arg_tvars cs = \<Union> (set (map arg_tvars (concat (map (\<lambda>c. mEqualities c @ mInequalities c) cs))))"

fun call_depth_trm :: "trm \<Rightarrow> nat" and call_depth :: "exp \<Rightarrow> nat" where
  "call_depth_trm (UFCallTerm c f args i) = Suc (fold max (map call_depth args) 0)"
| "call_depth_trm (Term c) = 0"
| "call_depth_trm (VarTerm c s) = 0"
| "call_depth_trm (TupleVarTerm c l) = 0"
| "call_depth (Exp ts et) = fold max (map call_depth_trm ts) 0"

lemma fold_max_le: "fold max ns k \<le> m \<longleftrightarrow> k \<le> m \<and> (\<forall>n \<in> set ns. n \<le> m)" for m :: nat
  by (induction ns arbitrary: k) auto

lemma call_depth_trm_le: "call_depth_trm (UFCallTerm c f args i) \<le> Suc n \<longleftrightarrow> (\<forall>a \<in> set args. call_depth a \<le> n)"
  by (auto simp: fold_max_le)

lemma call_depth_le: "call_depth (Exp ts et) \<le> n \<longleftrightarrow> (\<forall>t \<in> set ts. call_depth_trm t \<le> n)"
  by (auto simp: fold_max_le)

end
