(* ===== verification/UFCall_Map.thy ===== *)
theory UFCall_Map
  imports Set_Semantics
begin

text \<open>
  The class \<open>UFCallMap\<close> (\<open>IEGenLib/src/set_relation/UFCallMap.h\<close>, \<open>UFCallMap.cc\<close>): symbolic constants
  that stand for the calls of an uninterpreted function where a library without such functions is asked.
  One map leads from calls to symbols and one back; both are \<open>std::map\<close> with the order of terms, and
  all terms in them have the coefficient 1. The symbol of a call is made from its text.
\<close>

section \<open>State and operations\<close>

record ufcall_map =
  mUFC2VarParam :: "(trm, trm) std_map"
  mVarParam2UFC :: "(trm, trm) std_map"

definition UFCallMap :: ufcall_map where
  "UFCallMap = \<lparr>mUFC2VarParam = [], mVarParam2UFC = []\<rparr>"

definition symUFC_char :: "char \<Rightarrow> string" where
  "symUFC_char c =
     (if c \<noteq> CHR '' '' \<and> c \<noteq> CHR '','' then
        if c = CHR ''('' \<or> c = CHR '')'' then ''_''
        else if c = CHR ''['' \<or> c = CHR '']'' then ''B''
        else if c = CHR ''+'' then ''P''
        else if c = CHR ''-'' then ''M''
        else [c]
      else '''')"

definition symUFC :: "string \<Rightarrow> string" where
  "symUFC ufcName = concat (map symUFC_char ufcName)"

definition find_VarTerm :: "ufcall_map \<Rightarrow> trm \<Rightarrow> trm option" where
  "find_VarTerm m vt = std_find trm_less (setCoefficient 1 vt) (mVarParam2UFC m)"

definition insert_call :: "ufcall_map \<Rightarrow> trm \<Rightarrow> trm \<times> ufcall_map" where
  "insert_call m ufc =
     (let ufcterm = setCoefficient 1 ufc;
          vt = VarTerm 1 (symUFC (toString_trm ufcterm False))
      in if find_VarTerm m vt \<noteq> None then (vt, m)
         else (vt, m\<lparr>mUFC2VarParam := std_insert trm_less ufcterm vt (mUFC2VarParam m),
                     mVarParam2UFC := std_insert trm_less vt ufcterm (mVarParam2UFC m)\<rparr>))"

primrec symbol :: "trm \<Rightarrow> string" where
  "symbol (VarTerm c s) = s"
| "symbol (Term c) = ''''"
| "symbol (TupleVarTerm c l) = ''''"
| "symbol (UFCallTerm c f args i) = ''''"

definition find_UFCallTerm :: "ufcall_map \<Rightarrow> trm \<Rightarrow> trm \<times> ufcall_map" where
  "find_UFCallTerm m ufc =
     (let ufcterm = setCoefficient 1 ufc in
      case std_find trm_less ufcterm (mUFC2VarParam m) of
        None \<Rightarrow> (let (vt, m') = insert_call m ufcterm in (VarTerm 1 (symbol vt), m'))
      | Some vt \<Rightarrow> (vt, m))"

definition UFCallMap_toString :: "ufcall_map \<Rightarrow> string" where
  "UFCallMap_toString m = ''UFCallMap:'' @ [CHR 0x0A] @
     concat (map (\<lambda>(ufc, vt). [CHR 0x09] @ ''UFC = '' @ toString_trm ufc False @ ''  ,  sym = ''
       @ toString_trm vt False @ [CHR 0x0A]) (mUFC2VarParam m))"

fun join_commas :: "string list \<Rightarrow> string" where
  "join_commas [] = ''''"
| "join_commas [s] = s"
| "join_commas (s # t # ss) = s @ '', '' @ join_commas (t # ss)"

definition varTermStrList :: "ufcall_map \<Rightarrow> string" where
  "varTermStrList m = join_commas (map (\<lambda>(ufc, vt). toString_trm vt False) (mUFC2VarParam m))"

section \<open>The invariant\<close>

definition call_symbol :: "trm \<Rightarrow> string" where
  "call_symbol t = symUFC (toString_trm (setCoefficient 1 t) False)"

definition map_calls :: "ufcall_map \<Rightarrow> trm set" where
  "map_calls m = fst ` set (mUFC2VarParam m)"

text \<open>Each entry of one map is the reverse of an entry of the other, and a symbol is that of its call.\<close>

definition ufcall_map_ok :: "ufcall_map \<Rightarrow> bool" where
  "ufcall_map_ok m \<longleftrightarrow> std_ok trm_less (mUFC2VarParam m) \<and> std_ok trm_less (mVarParam2UFC m)
     \<and> set (mVarParam2UFC m) = prod.swap ` set (mUFC2VarParam m)
     \<and> (\<forall>(u, v) \<in> set (mUFC2VarParam m). isUFCall u \<and> coefficient u = 1 \<and> v = VarTerm 1 (call_symbol u))"

lemma UFCallMap_ok [simp]: "ufcall_map_ok UFCallMap" "map_calls UFCallMap = {}"
  by (simp_all add: ufcall_map_ok_def UFCallMap_def map_calls_def)

lemma text_of_key:
  assumes "isUFCall u" "key_of_trm t = key_of_trm u"
  shows "toString_trm t False = toString_trm u False"
proof -
  obtain c f args i where u: "u = UFCallTerm c f args i" using assms(1) by (cases u) (auto simp: isUFCall_def)
  then show ?thesis using assms(2) by (cases t) (auto simp: UFCallTerm_toString_def)
qed

lemma call_symbol_key:
  assumes "isUFCall u" "key_of_trm (setCoefficient 1 t) = key_of_trm (setCoefficient 1 u)"
  shows "call_symbol t = call_symbol u"
proof -
  have "isUFCall (setCoefficient 1 u)" using assms(1) by (simp add: isUFCall_def)
  from text_of_key[OF this assms(2)] show ?thesis by (simp add: call_symbol_def)
qed

lemma call_symbol_unit [simp]: "call_symbol (setCoefficient c t) = call_symbol t"
  by (simp add: call_symbol_def)

lemma insert_set:
  assumes "std_ok trm_less m" "std_find trm_less k m = None"
  shows "set (std_insert trm_less k v m) = insert (k, v) (set m)"
  using assms by (induction m) (auto simp: trm_order.incomparable_key split: if_splits)

lemma find_VarTerm_iff:
  assumes "ufcall_map_ok m"
  shows "find_VarTerm m (VarTerm c s) = Some u \<longleftrightarrow> u \<in> map_calls m \<and> call_symbol u = s"
proof -
  have ok: "std_ok trm_less (mVarParam2UFC m)" and sw: "set (mVarParam2UFC m) = prod.swap ` set (mUFC2VarParam m)"
    and v: "\<And>u v. (u, v) \<in> set (mUFC2VarParam m) \<Longrightarrow> v = VarTerm 1 (call_symbol u)"
    using assms by (auto simp: ufcall_map_ok_def)
  have "find_VarTerm m (VarTerm c s) = Some u \<longleftrightarrow>
      (\<exists>q \<in> set (mUFC2VarParam m). key_of_trm (snd q) = key_of_trm (VarTerm 1 s) \<and> fst q = u)"
    unfolding find_VarTerm_def setCoefficient.simps trm_order.find_iff[OF ok] sw by auto
  also have "\<dots> \<longleftrightarrow> u \<in> map_calls m \<and> call_symbol u = s"
  proof
    assume "\<exists>q \<in> set (mUFC2VarParam m). key_of_trm (snd q) = key_of_trm (VarTerm 1 s) \<and> fst q = u"
    then obtain w where "(u, w) \<in> set (mUFC2VarParam m)" "key_of_trm w = key_of_trm (VarTerm 1 s)" by auto
    with v[of u w] show "u \<in> map_calls m \<and> call_symbol u = s" by (force simp: map_calls_def)
  next
    assume "u \<in> map_calls m \<and> call_symbol u = s"
    then obtain w where "(u, w) \<in> set (mUFC2VarParam m)" "call_symbol u = s" by (auto simp: map_calls_def)
    with v[of u w] show "\<exists>q \<in> set (mUFC2VarParam m). key_of_trm (snd q) = key_of_trm (VarTerm 1 s) \<and> fst q = u"
      by force
  qed
  finally show ?thesis .
qed

lemma map_calls_unit: "ufcall_map_ok m \<Longrightarrow> u \<in> map_calls m \<Longrightarrow> isUFCall u \<and> coefficient u = 1"
  by (auto simp: ufcall_map_ok_def map_calls_def)

lemma map_calls_symbol_inj:
  assumes "ufcall_map_ok m" "u \<in> map_calls m" "u' \<in> map_calls m" "call_symbol u = call_symbol u'"
  shows "u = u'"
  using find_VarTerm_iff[OF assms(1), of 1 "call_symbol u"] assms(2-) by (metis option.inject)

lemma find_call_iff:
  assumes "ufcall_map_ok m"
  shows "std_find trm_less (setCoefficient 1 t) (mUFC2VarParam m) = Some v \<longleftrightarrow>
    (\<exists>u \<in> map_calls m. key_of_trm u = key_of_trm (setCoefficient 1 t) \<and> v = VarTerm 1 (call_symbol u))"
proof -
  have ok: "std_ok trm_less (mUFC2VarParam m)"
    and v: "\<And>u v. (u, v) \<in> set (mUFC2VarParam m) \<Longrightarrow> v = VarTerm 1 (call_symbol u)"
    using assms by (auto simp: ufcall_map_ok_def)
  show ?thesis unfolding trm_order.find_iff[OF ok] map_calls_def using v by fastforce
qed

text \<open>A call gets the symbol made from its text, and the symbol is then known.\<close>

lemma find_UFCallTerm_correct:
  assumes ok: "ufcall_map_ok m" and t: "isUFCall t" and r: "find_UFCallTerm m t = (vt, m')"
  shows "vt = VarTerm 1 (call_symbol t)" "ufcall_map_ok m'" "map_calls m \<subseteq> map_calls m'"
    "map_calls m' \<subseteq> insert (setCoefficient 1 t) (map_calls m)"
    "\<exists>u \<in> map_calls m'. call_symbol u = call_symbol t"
    "\<forall>u \<in> map_calls m. call_symbol u = call_symbol t \<longrightarrow> m' = m"
proof -
  let ?t = "setCoefficient 1 t" and ?v = "VarTerm 1 (call_symbol t)"
  have unit: "isUFCall ?t" "coefficient ?t = 1" using t by (simp_all add: isUFCall_def)
  have "vt = ?v \<and> ufcall_map_ok m' \<and> map_calls m \<subseteq> map_calls m' \<and> map_calls m' \<subseteq> insert ?t (map_calls m) \<and>
    (\<exists>u \<in> map_calls m'. call_symbol u = call_symbol t) \<and>
    (\<forall>u \<in> map_calls m. call_symbol u = call_symbol t \<longrightarrow> m' = m)"
  proof (cases "std_find trm_less ?t (mUFC2VarParam m)")
    case (Some w)
    then obtain u where u: "u \<in> map_calls m" "key_of_trm u = key_of_trm ?t" "w = VarTerm 1 (call_symbol u)"
      unfolding find_call_iff[OF ok] by blast
    have "call_symbol u = call_symbol t"
      using call_symbol_key[OF unit(1), of u] u(2) map_calls_unit[OF ok u(1)]
      by (metis call_symbol_unit setCoefficient_same setCoefficient_setCoefficient)
    with u Some r ok show ?thesis by (auto simp: find_UFCallTerm_def Let_def)
  next
    case None
    show ?thesis
    proof (cases "find_VarTerm m ?v")
      case (Some u)
      then have "u \<in> map_calls m" "call_symbol u = call_symbol t" by (simp_all add: find_VarTerm_iff[OF ok])
      moreover have "m' = m" "vt = ?v"
        using r None Some by (auto simp: find_UFCallTerm_def insert_call_def Let_def call_symbol_def)
      ultimately show ?thesis using ok by auto
    next
      case new: None
      have m': "m' = m\<lparr>mUFC2VarParam := std_insert trm_less ?t ?v (mUFC2VarParam m),
          mVarParam2UFC := std_insert trm_less ?v ?t (mVarParam2UFC m)\<rparr>" and v: "vt = ?v"
        using r None new by (auto simp: find_UFCallTerm_def insert_call_def Let_def call_symbol_def)
      have old: "std_ok trm_less (mUFC2VarParam m)" "std_ok trm_less (mVarParam2UFC m)"
        using ok by (simp_all add: ufcall_map_ok_def)
      have "std_find trm_less ?v (mVarParam2UFC m) = None" using new by (simp add: find_VarTerm_def)
      note ins = insert_set[OF old(1) None] insert_set[OF old(2) this]
      have sets: "set (mUFC2VarParam m') = insert (?t, ?v) (set (mUFC2VarParam m))"
        "set (mVarParam2UFC m') = insert (?v, ?t) (set (mVarParam2UFC m))"
        by (simp_all add: m' ins)
      have oks: "std_ok trm_less (mUFC2VarParam m')" "std_ok trm_less (mVarParam2UFC m')"
        by (simp_all add: m' trm_order.insert_ok old)
      have "ufcall_map_ok m'"
        using ok unit oks unfolding ufcall_map_ok_def sets by auto
      moreover have "map_calls m' = insert ?t (map_calls m)" by (simp add: map_calls_def sets)
      moreover have "call_symbol u \<noteq> call_symbol t" if "u \<in> map_calls m" for u
        using new find_VarTerm_iff[OF ok, of 1 "call_symbol t" u] that by auto
      ultimately show ?thesis using v by auto
    qed
  qed
  then show "vt = ?v" "ufcall_map_ok m'" "map_calls m \<subseteq> map_calls m'" "map_calls m' \<subseteq> insert ?t (map_calls m)"
    "\<exists>u \<in> map_calls m'. call_symbol u = call_symbol t"
    "\<forall>u \<in> map_calls m. call_symbol u = call_symbol t \<longrightarrow> m' = m" by blast+
qed

text \<open>Looking a call up returns its symbol and keeps the map consistent: the symbol then leads back to a call
  with the same text, what other symbols lead to does not change, and when no known call shares the symbol
  it leads back to the call itself, with coefficient 1.\<close>

lemma find_UFCallTerm_roundtrip:
  assumes "ufcall_map_ok m" "isUFCall t" "find_UFCallTerm m t = (vt, m')"
  shows "ufcall_map_ok m' \<and>
    (\<exists>u. find_VarTerm m' vt = Some u \<and> call_symbol u = call_symbol t) \<and>
    (\<forall>c s u. find_VarTerm m (VarTerm c s) = Some u \<longrightarrow> find_VarTerm m' (VarTerm c s) = Some u) \<and>
    ((\<forall>u \<in> map_calls m. call_symbol u \<noteq> call_symbol t) \<longrightarrow> find_VarTerm m' vt = Some (setCoefficient 1 t))"
proof -
  note r = find_UFCallTerm_correct[OF assms]
  from r(5) obtain u where u: "u \<in> map_calls m'" "call_symbol u = call_symbol t" ..
  then have found: "find_VarTerm m' vt = Some u" by (simp add: r(1) find_VarTerm_iff[OF r(2)])
  have kept: "\<forall>c s u. find_VarTerm m (VarTerm c s) = Some u \<longrightarrow> find_VarTerm m' (VarTerm c s) = Some u"
    using r(3) by (auto simp: find_VarTerm_iff[OF assms(1)] find_VarTerm_iff[OF r(2)])
  have "u = setCoefficient 1 t" if "\<forall>u \<in> map_calls m. call_symbol u \<noteq> call_symbol t"
    using u r(4) that by blast
  with u found kept r(2) show ?thesis by blast
qed

text \<open>The text loses commas and blanks, so two calls may share a symbol, and the second finds the first.\<close>

lemma symbols_collide:
  "call_symbol (UFCallTerm 1 ''f'' [Exp [Term 1] Expression, Exp [Term 2] Expression] (-1))
   = call_symbol (UFCallTerm 1 ''f'' [Exp [Term 12] Expression] (-1))"
  by code_simp

end
