(* ===== verification/Plain_Sets.thy ===== *)
theory Plain_Sets
  imports Visitor UFCall_Map
begin

text \<open>
  Sets as the library handles them when no function has a declared inverse: collapsing rebuilds each
  expression term by term, which keeps properties of its terms, the kinds of expressions and the points.
  What copying and cleaning up do to a set of at most one conjunction.
\<close>

section \<open>Collapsing without inverses\<close>

lemma scan_args_no_inverse:
  assumes "args \<noteq> []" "list_all wf_exp args"
  shows "\<exists>a. scan_args '''' 0 None args = Inr (False, a)"
proof -
  obtain arg rest where args: "args = arg # rest" using assms(1) by (cases args) auto
  have "g \<noteq> ''''" if "getTerm arg = Some (UFCallTerm c g nested i)" for c g nested i
  proof -
    have "mTerms arg = [UFCallTerm c g nested i]" using that by (simp add: getTerm_eq)
    then show ?thesis using assms(2) args by (auto simp: wf_exp_iff ident_def)
  qed
  then show ?thesis by (auto simp: args split: option.splits trm.splits)
qed

lemma collapse_call:
  assumes "no_inverses qinv" "args \<noteq> []" "list_all wf_exp args"
  shows "collapse_trm qinv (UFCallTerm c f args i) = bind_result (map_result (collapse_exp qinv) args)
    (\<lambda>args'. Inr (addTerm empty_exp (UFCallTerm c f args' i)))"
  using assms scan_args_no_inverse[OF assms(2,3)] by (auto simp: no_inverses_def collapse_trm.simps)

lemma type_addTerm [simp]: "mExpType (addTerm e t) = mExpType e"
  by (simp add: addTerm_def)

lemma type_addExp [simp]: "mExpType (addExp e e') = mExpType e"
proof -
  have "mExpType (foldl addTerm e ts) = mExpType e" for ts by (induction ts arbitrary: e) auto
  then show ?thesis by (simp add: addExp_def)
qed

lemma collapse_exp_type: "collapse_exp qinv e = Inr e' \<Longrightarrow> mExpType e' = Expression"
proof -
  have "fold_result (\<lambda>acc t. bind_result (collapse_trm qinv t) (\<lambda>e'. Inr (addExp acc e'))) acc ts = Inr e' \<Longrightarrow>
    mExpType e' = mExpType acc" for acc ts
    by (induction ts arbitrary: acc) auto
  from this[of empty_exp "mTerms e"] show "collapse_exp qinv e = Inr e' \<Longrightarrow> mExpType e' = Expression"
    by (simp add: collapse_exp.simps)
qed

lemma collapse_call_Inr:
  assumes "no_inverses qinv" "collapse_trm qinv (UFCallTerm c f args i) = Inr e'"
    "wf_trm (UFCallTerm c f args i)" "has_args (UFCallTerm c f args i)"
  obtains args' where "e' = addTerm empty_exp (UFCallTerm c f args' i)" "length args' = length args"
    "\<forall>a' \<in> set args'. mExpType a' = Expression \<and> (\<exists>a \<in> set args. collapse_exp qinv a = Inr a' \<and> wf_exp a \<and> has_args_exp a)"
proof -
  have wf: "args \<noteq> []" "list_all wf_exp args" using assms(3,4) by simp_all
  obtain args' where args': "list_all2 (\<lambda>a a'. collapse_exp qinv a = Inr a') args args'"
    "e' = addTerm empty_exp (UFCallTerm c f args' i)"
    using assms(2) by (auto simp: collapse_call[OF assms(1) wf] map_result_Inr_iff)
  have "mExpType a' = Expression \<and> (\<exists>a \<in> set args. collapse_exp qinv a = Inr a' \<and> wf_exp a \<and> has_args_exp a)"
    if "a' \<in> set args'" for a'
  proof -
    obtain n where n: "n < length args'" "a' = args' ! n" using \<open>a' \<in> set args'\<close> by (auto simp: in_set_conv_nth)
    then have "args ! n \<in> set args" "collapse_exp qinv (args ! n) = Inr a'"
      using args'(1) by (auto simp: list_all2_conv_all_nth)
    with assms(3,4) show ?thesis by (auto simp: list_all_iff intro: collapse_exp_type)
  qed
  with args' list_all2_lengthD[OF args'(1)] that show thesis by simp
qed

context term_property
begin

lemma all_collapse_terms:
  assumes "\<And>t e'. t \<in> set (mTerms e) \<Longrightarrow> collapse_trm qinv t = Inr e' \<Longrightarrow> list_all P (mTerms e')"
    and "collapse_exp qinv e = Inr e'"
  shows "list_all P (mTerms e')"
proof -
  have "set us \<subseteq> set (mTerms e) \<Longrightarrow> list_all P (mTerms acc) \<Longrightarrow>
    fold_result (\<lambda>acc t. bind_result (collapse_trm qinv t) (\<lambda>e'. Inr (addExp acc e'))) acc us = Inr e' \<Longrightarrow>
    list_all P (mTerms e')" for us acc
    by (induction us arbitrary: acc) (auto intro: all_addExp assms(1))
  from this[of "mTerms e" empty_exp] assms(2) show ?thesis by (simp add: collapse_exp.simps)
qed

end

section \<open>What cleaning up leaves\<close>

lemma mTerms_kind [simp]: "mTerms (setEquality e) = mTerms e" "mTerms (setInequality e) = mTerms e"
  "mExpType (setEquality e) = Equality" "mExpType (setInequality e) = Inequality"
  by (simp_all add: setEquality_def setInequality_def)

lemma foldl_addEquality_from:
  "e \<in> set (mEqualities (foldl addEquality c es)) \<Longrightarrow>
    e \<in> set (mEqualities c) \<or> (\<exists>d \<in> set es. e = setEquality (normalizeForEquality d))"
proof (induction es arbitrary: c)
  case (Cons d es)
  have "set (mEqualities (addEquality c d)) \<subseteq> insert (setEquality (normalizeForEquality d)) (set (mEqualities c))"
    using exp_order.set_insert_unique by (auto simp: addEquality_def Let_def)
  with Cons.IH[of "addEquality c d"] Cons.prems show ?case by auto
qed simp

lemma foldl_addInequality_from:
  "e \<in> set (mInequalities (foldl addInequality c es)) \<Longrightarrow>
    e \<in> set (mInequalities c) \<or> (\<exists>d \<in> set es. e = setInequality d)"
proof (induction es arbitrary: c)
  case (Cons d es)
  have "set (mInequalities (addInequality c d)) \<subseteq> insert (setInequality d) (set (mInequalities c))"
    using exp_order.set_insert_unique by (auto simp: addInequality_def)
  with Cons.IH[of "addInequality c d"] Cons.prems show ?case by auto
qed simp

lemma map_result_from: "map_result f xs = Inr ys \<Longrightarrow> y \<in> set ys \<Longrightarrow> \<exists>x \<in> set xs. f x = Inr y"
  by (fastforce simp: map_result_Inr_iff list_all2_conv_all_nth in_set_conv_nth)

text \<open>Each constraint comes from one before, collapsed.\<close>

lemma cleanUp_terms:
  assumes "cleanUp qinv c = Inr c'"
  shows "e' \<in> set (mEqualities c') \<Longrightarrow> mExpType e' = Equality \<and> (\<exists>e \<in> set (mEqualities c). \<exists>d.
      collapse_exp qinv (normalizeForEquality e) = Inr d \<and> mTerms e' = mTerms (normalizeForEquality d))"
    "e' \<in> set (mInequalities c') \<Longrightarrow> mExpType e' = Inequality \<and> (\<exists>e \<in> set (mInequalities c). \<exists>d.
      collapse_exp qinv e = Inr d \<and> mTerms e' = mTerms d)"
    "mTupleDecl c' = mTupleDecl c" "mInArity c' = mInArity c"
proof -
  let ?z = "filter (\<lambda>e. \<not> equalsZero e)"
  obtain eqs ineqs where eqs: "map_result (\<lambda>e. collapse_exp qinv (normalizeForEquality e)) (mEqualities c) = Inr eqs"
    and ineqs: "map_result (collapse_exp qinv) (mInequalities c) = Inr ineqs"
    and c': "c' = foldl addInequality ((foldl addEquality (c\<lparr>mEqualities := []\<rparr>) (?z eqs))\<lparr>mInequalities := []\<rparr>) (?z ineqs)"
    using assms by (auto simp: cleanUp_def Let_def)
  show "mTupleDecl c' = mTupleDecl c" "mInArity c' = mInArity c" by (simp_all add: c')
  show "mExpType e' = Equality \<and> (\<exists>e \<in> set (mEqualities c). \<exists>d.
      collapse_exp qinv (normalizeForEquality e) = Inr d \<and> mTerms e' = mTerms (normalizeForEquality d))"
    if "e' \<in> set (mEqualities c')"
    using that foldl_addEquality_from[of e' "c\<lparr>mEqualities := []\<rparr>" "?z eqs"] map_result_from[OF eqs] by (fastforce simp: c')
  show "mExpType e' = Inequality \<and> (\<exists>e \<in> set (mInequalities c). \<exists>d. collapse_exp qinv e = Inr d \<and> mTerms e' = mTerms d)"
    if "e' \<in> set (mInequalities c')"
    using that foldl_addInequality_from[of e' _ "?z ineqs"] map_result_from[OF ineqs] by (fastforce simp: c')
qed

section \<open>Properties that collapsing keeps\<close>

text \<open>What holds of all terms of a rebuilt expression when \<open>R\<close> holds of all terms before.\<close>

locale rebuilt = term_property P + src: term_property R
  for P R :: "trm \<Rightarrow> bool" +
  assumes atoms: "R t \<Longrightarrow> \<not> isUFCall t \<Longrightarrow> P t"
    and R_args: "R (UFCallTerm c f args i) \<Longrightarrow> a \<in> set args \<Longrightarrow> list_all R (mTerms a)"
    and calls: "R (UFCallTerm c f args i) \<Longrightarrow> length args' = length args \<Longrightarrow>
      \<forall>a \<in> set args'. mExpType a = Expression \<and> list_all P (mTerms a) \<Longrightarrow> P (UFCallTerm c f args' i)"
begin

lemma all_collapse:
  "no_inverses qinv \<Longrightarrow> collapse_trm qinv t = Inr e' \<Longrightarrow> wf_trm t \<Longrightarrow> has_args t \<Longrightarrow> R t \<Longrightarrow> list_all P (mTerms e')"
  "no_inverses qinv \<Longrightarrow> collapse_exp qinv e = Inr e' \<Longrightarrow> wf_exp e \<Longrightarrow> has_args_exp e \<Longrightarrow> list_all R (mTerms e) \<Longrightarrow>
    list_all P (mTerms e')"
proof (induction t and e arbitrary: e' and e' rule: trm.induct exp.induct)
  case (UFCallTerm c f args i)
  obtain args' where e': "e' = addTerm empty_exp (UFCallTerm c f args' i)" "length args' = length args"
    and args': "\<forall>a' \<in> set args'. mExpType a' = Expression \<and> (\<exists>a \<in> set args. collapse_exp qinv a = Inr a' \<and> wf_exp a \<and> has_args_exp a)"
    by (rule collapse_call_Inr[OF UFCallTerm.prems(1-4)])
  have "\<forall>a' \<in> set args'. mExpType a' = Expression \<and> list_all P (mTerms a')"
    using args' UFCallTerm.IH UFCallTerm.prems(1) R_args[OF UFCallTerm.prems(5)] by blast
  with e'(2) have "P (UFCallTerm c f args' i)" by (rule calls[OF UFCallTerm.prems(5)])
  then show ?case unfolding e'(1) by (intro all_addTerm) simp_all
next
  case (Exp ts et)
  show ?case
  proof (rule all_collapse_terms[OF _ Exp.prems(2)])
    fix t d assume "t \<in> set (mTerms (Exp ts et))" "collapse_trm qinv t = Inr d"
    then show "list_all P (mTerms d)" using Exp.IH[of t d] Exp.prems by (simp add: list_all_iff)
  qed
qed (auto intro!: all_addTerm atoms simp: collapse_trm.simps isUFCall_def)

end

text \<open>The same where calls are to have arguments with another such property.\<close>

locale rebuilt_calls = term_property P + arg: rebuilt Q S + src: term_property R
  for P Q S R :: "trm \<Rightarrow> bool" +
  assumes atoms: "R t \<Longrightarrow> \<not> isUFCall t \<Longrightarrow> P t"
    and R_args: "R (UFCallTerm c f args i) \<Longrightarrow> a \<in> set args \<Longrightarrow> list_all S (mTerms a)"
    and calls: "R (UFCallTerm c f args i) \<Longrightarrow> length args' = length args \<Longrightarrow>
      \<forall>a \<in> set args'. mExpType a = Expression \<and> list_all Q (mTerms a) \<Longrightarrow> P (UFCallTerm c f args' i)"
begin

lemma all_collapse:
  assumes "no_inverses qinv" "collapse_exp qinv e = Inr e'" "wf_exp e" "has_args_exp e" "list_all R (mTerms e)"
  shows "list_all P (mTerms e')"
proof (rule all_collapse_terms[OF _ assms(2)])
  fix t d assume t: "t \<in> set (mTerms e)" "collapse_trm qinv t = Inr d"
  have ok: "wf_trm t" "has_args t" "R t" using t(1) assms(3-5) by (auto simp: wf_exp_iff has_args_terms list_all_iff)
  show "list_all P (mTerms d)"
  proof (cases t)
    case (UFCallTerm c f args i)
    obtain args' where d: "d = addTerm empty_exp (UFCallTerm c f args' i)" "length args' = length args"
      and args': "\<forall>a' \<in> set args'. mExpType a' = Expression \<and> (\<exists>a \<in> set args. collapse_exp qinv a = Inr a' \<and> wf_exp a \<and> has_args_exp a)"
      by (rule collapse_call_Inr[OF assms(1) t(2)[unfolded UFCallTerm]]) (use ok UFCallTerm in simp_all)
    have "\<forall>a' \<in> set args'. mExpType a' = Expression \<and> list_all Q (mTerms a')"
      using args' arg.all_collapse(2)[OF assms(1)] R_args[OF ok(3)[unfolded UFCallTerm]] by blast
    with d(2) have "P (UFCallTerm c f args' i)" by (rule calls[OF ok(3)[unfolded UFCallTerm]])
    then show ?thesis unfolding d(1) by (intro all_addTerm) simp_all
  qed (use t(2) ok in \<open>auto intro!: all_addTerm atoms simp: collapse_trm.simps isUFCall_def\<close>)
qed

lemma conj_all_cleanUp:
  assumes none: "no_inverses qinv" and r: "cleanUp qinv c = Inr c'" and c: "conj_wf c" "conj_all has_args c" "conj_all R c"
  shows "conj_all P c'"
proof -
  have ok: "wf_exp e" "has_args_exp e" "list_all R (mTerms e)" if "e \<in> set (mEqualities c) \<union> set (mInequalities c)" for e
    using that c by (auto simp: conj_wf_def conj_all_def has_args_terms)
  have "list_all P (mTerms e')" if "e' \<in> set (mEqualities c')" for e'
  proof -
    obtain e d where e: "e \<in> set (mEqualities c)" "collapse_exp qinv (normalizeForEquality e) = Inr d"
      "mTerms e' = mTerms (normalizeForEquality d)" using cleanUp_terms(1)[OF r \<open>e' \<in> set (mEqualities c')\<close>] by blast
    have "list_all P (mTerms d)"
      by (rule all_collapse[OF none e(2)])
        (use ok[of e] e(1) in \<open>auto simp: has_args_terms intro: has_args.all_normalizeForEquality src.all_normalizeForEquality\<close>)
    then show ?thesis unfolding e(3) by (rule all_normalizeForEquality)
  qed
  moreover have "list_all P (mTerms e')" if "e' \<in> set (mInequalities c')" for e'
  proof -
    obtain e d where e: "e \<in> set (mInequalities c)" "collapse_exp qinv e = Inr d" "mTerms e' = mTerms d"
      using cleanUp_terms(2)[OF r \<open>e' \<in> set (mInequalities c')\<close>] by blast
    then show ?thesis using all_collapse[OF none e(2)] ok[of e] by simp
  qed
  ultimately show ?thesis by (auto simp: conj_all_def)
qed

end

sublocale rebuilt \<subseteq> own: rebuilt_calls P P R R
  by unfold_locales (auto intro: atoms R_args calls)

sublocale deep_term_property \<subseteq> kept: rebuilt P P
  by unfold_locales (auto simp: P_call)

text \<open>Arguments are plain expressions afterwards, whatever they were.\<close>

lemma args_kind_terms: "args_kind e \<longleftrightarrow> list_all args_kind_trm (mTerms e)"
  by (cases e) simp

interpretation args_kind: rebuilt args_kind_trm "\<lambda>_. True"
proof unfold_locales
  show "args_kind_trm (setCoefficient k t) = args_kind_trm t" for k t by (cases t) simp_all
  show "\<not> isUFCall t \<Longrightarrow> args_kind_trm t" for t by (cases t) (simp_all add: isUFCall_def)
qed (auto simp: list_all_iff args_kind_terms)

lemma conj_kinds_all: "conj_kinds c \<longleftrightarrow> conj_all args_kind_trm c
    \<and> (\<forall>e \<in> set (mEqualities c). mExpType e = Equality) \<and> (\<forall>e \<in> set (mInequalities c). mExpType e = Inequality)"
  by (auto simp: conj_kinds_def conj_all_def args_kind_terms)

text \<open>A variable is in no argument.\<close>

definition not_in_args :: "int \<Rightarrow> trm \<Rightarrow> bool" where
  "not_in_args k t \<longleftrightarrow> k \<notin> arg_tvars_trm t"

interpretation not_in_args: rebuilt_calls "not_in_args k" "tvars_within (- {k})" "tvars_within (- {k})" "not_in_args k" for k
proof unfold_locales
  show "not_in_args k (setCoefficient j t) = not_in_args k t" for j t by (cases t) (simp_all add: not_in_args_def)
next
  fix c f args i a assume "not_in_args k (UFCallTerm c f args i)" "a \<in> set args"
  then have "tvars a \<subseteq> - {k}" by (auto simp: not_in_args_def)
  then show "list_all (tvars_within (- {k})) (mTerms a)" by (simp only: tvars_terms)
next
  fix c f and args args' :: "exp list" and i
  assume "\<forall>a \<in> set args'. mExpType a = Expression \<and> list_all (tvars_within (- {k})) (mTerms a)"
  then show "not_in_args k (UFCallTerm c f args' i)" using tvars_terms[of _ "- {k}"] by (auto simp: not_in_args_def)
qed auto

lemma arg_tvars_all: "k \<notin> arg_tvars e \<longleftrightarrow> list_all (not_in_args k) (mTerms e)"
  by (auto simp: arg_tvars_def not_in_args_def list_all_iff)

text \<open>No symbolic constant of a set of names occurs.\<close>

definition symbols_within :: "string set \<Rightarrow> trm \<Rightarrow> bool" where
  "symbols_within S t \<longleftrightarrow> symbols_trm t \<subseteq> S"

lemma symbols_terms: "symbols_exp e \<subseteq> S \<longleftrightarrow> list_all (symbols_within S) (mTerms e)"
  by (cases e) (auto simp: symbols_within_def list_all_iff)

interpretation symbols_within: deep_term_property "symbols_within S" "\<lambda>n. True" for S
proof unfold_locales
  show "symbols_within S (setCoefficient k t) = symbols_within S t" for k t by (cases t) (simp_all add: symbols_within_def)
  show "symbols_within S (UFCallTerm c f args i) \<longleftrightarrow> True \<and> (\<forall>a \<in> set args. list_all (symbols_within S) (mTerms a))" for c f args i
    using symbols_terms[of _ S] by (auto simp: symbols_within_def[of S "UFCallTerm c f args i"])
qed

section \<open>Plain sets\<close>

text \<open>
  A conjunction as the library builds them: its identifiers can be printed, calls have arguments, every
  expression is of its kind, and the input arity leaves an output variable, as \<open>setInArity\<close> demands.
\<close>

definition plain_conj :: "conjunction \<Rightarrow> bool" where
  "plain_conj c \<longleftrightarrow> conj_wf c \<and> conj_all has_args c \<and> conj_kinds c \<and> 0 \<le> mInArity c \<and> mInArity c < int (conj_arity c)"

definition plain_sparse :: "nat \<Rightarrow> sparse \<Rightarrow> bool" where
  "plain_sparse n cs \<longleftrightarrow> length cs \<le> 1 \<and> (\<forall>c \<in> set cs. plain_conj c \<and> conj_arity c = n)"

lemma plain_kinds: "plain_sparse n cs \<Longrightarrow> sparse_kinds cs"
  by (simp add: plain_sparse_def plain_conj_def sparse_kinds_def)

lemma cleanUp_plain:
  assumes none: "no_inverses qinv" and c: "plain_conj c"
  obtains c' where "cleanUp qinv c = Inr c'" "plain_conj c'" "conj_sorted c'" "\<forall>I. conj_holds I c' \<longleftrightarrow> conj_holds I c"
    "mTupleDecl c' = mTupleDecl c" "mInArity c' = mInArity c"
proof -
  have p: "conj_wf c" "conj_all has_args c" "conj_kinds c" "0 \<le> mInArity c" "mInArity c < int (conj_arity c)"
    using c by (simp_all add: plain_conj_def)
  have col: "conj_collapsible qinv (\<lambda>_. (0, 0)) c" using no_inverses_facts(5)[OF none p(1,2)] .
  have "\<exists>c'. cleanUp qinv c = Inr c' \<and> conj_wf c' \<and> conj_sorted c' \<and> (conj_holds I c' \<longleftrightarrow> conj_holds I c)" for I
    using cleanUp_sound[OF p(1) col no_inverses_facts(3)[OF none]] by metis
  then obtain c' where c': "cleanUp qinv c = Inr c'" "conj_wf c'" "conj_sorted c'" "\<forall>I. conj_holds I c' \<longleftrightarrow> conj_holds I c"
    by (metis sum.inject(2))
  note t = cleanUp_terms[OF c'(1)]
  have "conj_all has_args c'" using has_args.kept.own.conj_all_cleanUp[OF none c'(1) p(1,2,2)] .
  moreover have "conj_all args_kind_trm c'"
    by (rule args_kind.own.conj_all_cleanUp[OF none c'(1) p(1,2)]) (simp add: conj_all_def list_all_iff)
  ultimately have "plain_conj c'" using c'(2) p(4,5) t by (auto simp: plain_conj_def conj_kinds_all conj_arity_def)
  with c' t(3,4) that show thesis by blast
qed

lemma short_list: "length cs \<le> 1 \<longleftrightarrow> cs = [] \<or> (\<exists>c. cs = [c])"
  by (cases cs) (auto simp: length_Suc_conv)

lemma add_short [simp]: "sparse_addConjunction [] c = [c]"
  by (simp add: sparse_addConjunction_def)

lemma list_sort_short [simp]: "list_sort lt [] = []" "list_sort lt [c] = [c]"
  by (simp_all add: list_sort_def)

lemma sparse_holds_short [simp]: "sparse_holds I [] = False" "sparse_holds I [c] = conj_holds I c"
  by (simp_all add: sparse_holds_def)

text \<open>A copy keeps the points; each of its conjunctions is one of the original, cleaned up.\<close>

lemma sparse_copy_plain:
  assumes none: "no_inverses qinv" and cs: "plain_sparse n cs"
  obtains cs' where "sparse_copy qinv cs = Inr cs'" "plain_sparse n cs'" "\<forall>I. sparse_holds I cs' \<longleftrightarrow> sparse_holds I cs"
    "\<forall>c' \<in> set cs'. \<exists>c \<in> set cs. cleanUp qinv c = Inr c' \<and> plain_conj c"
proof (cases "cs = []")
  case True
  then show thesis using that[of "[]"] by (simp add: sparse_copy_def sparse_cleanUp_def plain_sparse_def)
next
  case False
  then obtain c where c: "cs = [c]" "plain_conj c" "conj_arity c = n" using cs short_list[of cs] by (auto simp: plain_sparse_def)
  obtain c' where c': "cleanUp qinv c = Inr c'" "plain_conj c'" "\<forall>I. conj_holds I c' \<longleftrightarrow> conj_holds I c"
    "mTupleDecl c' = mTupleDecl c" by (rule cleanUp_plain[OF none c(2)]) blast
  have r: "sparse_copy qinv cs = Inr (if satisfiable c' then [c'] else [])"
    using c c'(1) by (simp add: sparse_copy_def sparse_cleanUp_def)
  show thesis
  proof (rule that[OF r])
    show "plain_sparse n (if satisfiable c' then [c'] else [])"
      using c'(2,4) c(3) by (simp add: plain_sparse_def conj_arity_def)
    show "\<forall>I. sparse_holds I (if satisfiable c' then [c'] else []) \<longleftrightarrow> sparse_holds I cs"
      using c c'(3) satisfiable_sound[of c'] by auto
  qed (use c c' in auto)
qed

lemma Set_copy_plain:
  assumes "no_inverses qinv" "plain_sparse n (mConjunctions s)"
  obtains s' where "Set_copy qinv s = Inr s'" "plain_sparse n (mConjunctions s')" "mArity s' = mArity s"
    "\<forall>I. sparse_holds I (mConjunctions s') \<longleftrightarrow> sparse_holds I (mConjunctions s)"
    "\<forall>c' \<in> set (mConjunctions s'). \<exists>c \<in> set (mConjunctions s). cleanUp qinv c = Inr c' \<and> plain_conj c"
proof -
  obtain cs' where "sparse_copy qinv (mConjunctions s) = Inr cs'" "plain_sparse n cs'"
    "\<forall>I. sparse_holds I cs' \<longleftrightarrow> sparse_holds I (mConjunctions s)"
    "\<forall>c' \<in> set cs'. \<exists>c \<in> set (mConjunctions s). cleanUp qinv c = Inr c' \<and> plain_conj c"
    by (rule sparse_copy_plain[OF assms]) blast
  then show thesis using that[of "\<lparr>mConjunctions = cs', mArity = mArity s\<rparr>"] by (simp add: Set_copy_def)
qed

section \<open>Building a conjunction\<close>

text \<open>Visitors that build a new conjunction add its constraints to an empty one with the same declaration.\<close>

definition build_conj :: "tuple_decl \<Rightarrow> int \<Rightarrow> exp list \<Rightarrow> exp list \<Rightarrow> conjunction" where
  "build_conj td a eqs ineqs =
     foldl addInequality (foldl addEquality ((Conjunction_of td)\<lparr>mInArity := a\<rparr>) eqs) ineqs"

lemma build_conj_simps [simp]:
  "mTupleDecl (build_conj td a eqs ineqs) = td" "mInArity (build_conj td a eqs ineqs) = a"
  "conj_arity (build_conj td a eqs ineqs) = length td"
  by (simp_all add: build_conj_def Conjunction_of_def conj_arity_def)

lemma build_conj_terms:
  "e \<in> set (mEqualities (build_conj td a eqs ineqs)) \<Longrightarrow> \<exists>d \<in> set eqs. e = setEquality (normalizeForEquality d)"
  "e \<in> set (mInequalities (build_conj td a eqs ineqs)) \<Longrightarrow> \<exists>d \<in> set ineqs. e = setInequality d"
  using foldl_addEquality_from[of e _ eqs] foldl_addInequality_from[of e _ ineqs]
  by (fastforce simp: build_conj_def Conjunction_of_def)+

lemma build_conj_holds:
  assumes "\<forall>e \<in> set eqs \<union> set ineqs. wf_exp e"
  shows "conj_wf (build_conj td a eqs ineqs)"
    "conj_holds I (build_conj td a eqs ineqs) \<longleftrightarrow>
      decl_holds I td \<and> (\<forall>e \<in> set eqs. holds_eq I e) \<and> (\<forall>e \<in> set ineqs. holds_ineq I e)"
proof -
  let ?c = "(Conjunction_of td)\<lparr>mInArity := a\<rparr>"
  have c: "conj_wf ?c" "conj_holds I ?c \<longleftrightarrow> decl_holds I td" by (simp_all add: Conjunction_of_def conj_wf_def conj_holds_def)
  have wf: "\<forall>e \<in> set eqs. wf_exp e" "\<forall>e \<in> set ineqs. wf_exp e" using assms by auto
  note e = conj_addEqualities[OF c(1) wf(1)]
  note i = conj_addInequalities[OF e(1) wf(2)]
  show "conj_wf (build_conj td a eqs ineqs)" unfolding build_conj_def by (rule i(1))
  show "conj_holds I (build_conj td a eqs ineqs) \<longleftrightarrow>
      decl_holds I td \<and> (\<forall>e \<in> set eqs. holds_eq I e) \<and> (\<forall>e \<in> set ineqs. holds_ineq I e)"
    unfolding build_conj_def i(2) e(2) c(2) by blast
qed

context term_property
begin

lemma conj_all_build:
  assumes "\<forall>e \<in> set eqs \<union> set ineqs. list_all P (mTerms e)"
  shows "conj_all P (build_conj td a eqs ineqs)"
  using assms build_conj_terms[of _ td a eqs ineqs] all_normalizeForEquality
  by (fastforce simp: conj_all_def)

end

definition plain_exp :: "exp \<Rightarrow> bool" where
  "plain_exp e \<longleftrightarrow> wf_exp e \<and> has_args_exp e \<and> args_kind e"

lemma plain_conj_exps:
  "plain_conj c \<longleftrightarrow> (\<forall>e \<in> set (mEqualities c). plain_exp e \<and> mExpType e = Equality)
     \<and> (\<forall>e \<in> set (mInequalities c). plain_exp e \<and> mExpType e = Inequality) \<and> 0 \<le> mInArity c \<and> mInArity c < int (conj_arity c)"
  by (auto simp: plain_conj_def plain_exp_def conj_wf_def conj_kinds_def conj_all_def has_args_terms)

lemma build_conj_plain:
  assumes "\<forall>e \<in> set eqs \<union> set ineqs. plain_exp e" "0 \<le> a" "a < int (length td)"
  shows "plain_conj (build_conj td a eqs ineqs)"
proof -
  let ?c = "build_conj td a eqs ineqs"
  have "\<forall>e \<in> set eqs \<union> set ineqs. wf_exp e" using assms(1) by (simp add: plain_exp_def)
  then have "conj_wf ?c" by (rule build_conj_holds)
  moreover have "conj_all has_args ?c"
    by (rule has_args.conj_all_build) (use assms(1) in \<open>simp add: plain_exp_def has_args_terms\<close>)
  moreover have "conj_all args_kind_trm ?c"
    by (rule args_kind.conj_all_build) (use assms(1) in \<open>simp add: plain_exp_def args_kind_terms\<close>)
  moreover have "mExpType e = Equality" if "e \<in> set (mEqualities ?c)" for e
    using build_conj_terms(1)[OF that] by auto
  moreover have "mExpType e = Inequality" if "e \<in> set (mInequalities ?c)" for e
    using build_conj_terms(2)[OF that] by auto
  ultimately show ?thesis using assms(2,3) by (simp add: plain_conj_def conj_kinds_all)
qed

text \<open>Properties of all terms of a set, under copying.\<close>

context rebuilt_calls
begin

lemma copy_keeps:
  assumes "no_inverses qinv" "\<forall>c' \<in> set cs'. \<exists>c \<in> set cs. cleanUp qinv c = Inr c' \<and> plain_conj c" "\<forall>c \<in> set cs. conj_all R c"
  shows "\<forall>c' \<in> set cs'. conj_all P c'"
proof
  fix c' assume "c' \<in> set cs'"
  with assms(2) obtain c where c: "c \<in> set cs" "cleanUp qinv c = Inr c'" "plain_conj c" by blast
  have "conj_wf c" "conj_all has_args c" using c(3) by (simp_all add: plain_conj_def)
  then show "conj_all P c'" using assms(3) c(1) by (intro conj_all_cleanUp[OF assms(1) c(2)]) simp_all
qed

end

end
