(* ===== verification/UF_Params.thy ===== *)
theory UF_Params
  imports Plain_Sets
begin

text \<open>
  Tuple variables in the arguments of calls: \<open>isUFCallParam\<close>, \<open>numUFCallConstsMustRemove\<close>,
  \<open>removeUFCallConsts\<close> and \<open>removeExpensiveConstraints\<close> of \<open>set_relation.cc\<close> with their visitors.
\<close>

section \<open>Is a variable in an argument?\<close>

primrec tvloc :: "trm \<Rightarrow> int" where
  "tvloc (TupleVarTerm c l) = l"
| "tvloc (Term c) = -1"
| "tvloc (VarTerm c s) = -1"
| "tvloc (UFCallTerm c f args i) = -1"

record param_state =
  mResult :: bool
  mSeenTupleVar :: bool
  prevSeen :: bool

definition VisitorIsUFCallParam :: "int \<Rightarrow> param_state visitor" where
  "VisitorIsUFCallParam tupleID = base_Visitor\<lparr>
     preVisitTupleVarTerm := \<lambda>t s. Inr (t, if tvloc t = tupleID then s\<lparr>mSeenTupleVar := True\<rparr> else s),
     preVisitExp := \<lambda>e s. Inr (s\<lparr>prevSeen := mSeenTupleVar s, mSeenTupleVar := False\<rparr>),
     postVisitExp := \<lambda>e s.
       let s1 = (if mExpType e = Expression \<and> mSeenTupleVar s then s\<lparr>mResult := True\<rparr> else s)
       in Inr (s1\<lparr>mSeenTupleVar := prevSeen s1\<rparr>)\<rparr>"

definition isUFCallParam :: "sparse \<Rightarrow> int \<Rightarrow> bool result" where
  "isUFCallParam cs tupleID =
     bind_result (accept_sparse (VisitorIsUFCallParam tupleID) cs
         \<lparr>mResult = False, mSeenTupleVar = False, prevSeen = False\<rparr>) (\<lambda>(cs, s).
       Inr (mResult s))"

lemma param_hooks [simp]:
  "preVisitTerm (VisitorIsUFCallParam k) = (\<lambda>t s. Inr s)" "preVisitVarTerm (VisitorIsUFCallParam k) = (\<lambda>t s. Inr s)"
  "preVisitUFCallTerm (VisitorIsUFCallParam k) = (\<lambda>t s. Inr s)"
  "postVisitUFCallTerm (VisitorIsUFCallParam k) = (\<lambda>t s. Inr (t, s))"
  "preVisitConjunction (VisitorIsUFCallParam k) = (\<lambda>c s. Inr s)"
  "postVisitConjunction (VisitorIsUFCallParam k) = (\<lambda>c s. Inr (c, s))"
  "preVisitSparseConstraints (VisitorIsUFCallParam k) = (\<lambda>cs s. Inr s)"
  "postVisitSparseConstraints (VisitorIsUFCallParam k) = (\<lambda>cs s. Inr s)"
  by (simp_all add: VisitorIsUFCallParam_def base_Visitor_def)

lemma param_exp_hooks [simp]:
  "preVisitTupleVarTerm (VisitorIsUFCallParam k) (TupleVarTerm c l) s
     = Inr (TupleVarTerm c l, if l = k then s\<lparr>mSeenTupleVar := True\<rparr> else s)"
  "preVisitExp (VisitorIsUFCallParam k) e s = Inr (s\<lparr>prevSeen := mSeenTupleVar s, mSeenTupleVar := False\<rparr>)"
  "postVisitExp (VisitorIsUFCallParam k) e s =
     Inr (s\<lparr>mResult := mResult s \<or> mExpType e = Expression \<and> mSeenTupleVar s, mSeenTupleVar := prevSeen s\<rparr>)"
  by (auto simp: VisitorIsUFCallParam_def base_Visitor_def Let_def)

text \<open>A call or argument without the variable sets none of the flags.\<close>

lemma param_absent:
  "k \<notin> tvars_trm t \<Longrightarrow> \<exists>s'. accept_trm (VisitorIsUFCallParam k) t s = Inr (t, s') \<and> mResult s' = mResult s \<and>
     (mSeenTupleVar s' \<longrightarrow> mSeenTupleVar s) \<and> (prevSeen s' \<longrightarrow> prevSeen s \<or> mSeenTupleVar s)"
  "k \<notin> tvars e \<Longrightarrow> \<exists>s'. accept_exp (VisitorIsUFCallParam k) e s = Inr (e, s') \<and> mResult s' = mResult s \<and>
     (mSeenTupleVar s' \<longrightarrow> mSeenTupleVar s) \<and> (prevSeen s' \<longrightarrow> mSeenTupleVar s)"
proof (induction t and e arbitrary: s and s rule: trm.induct exp.induct)
  case (UFCallTerm c f args i)
  have "\<exists>s'. visit_all (accept_exp (VisitorIsUFCallParam k)) args s = Inr (args, s') \<and> (mResult s' = mResult s \<and>
     (mSeenTupleVar s' \<longrightarrow> mSeenTupleVar s) \<and> (prevSeen s' \<longrightarrow> prevSeen s \<or> mSeenTupleVar s))"
  proof (rule visit_all_same_rule[of "\<lambda>xs s'. mResult s' = mResult s \<and>
     (mSeenTupleVar s' \<longrightarrow> mSeenTupleVar s) \<and> (prevSeen s' \<longrightarrow> prevSeen s \<or> mSeenTupleVar s)"])
    fix ys a and s1 :: param_state
    assume a: "a \<in> set args" and "mResult s1 = mResult s \<and>
     (mSeenTupleVar s1 \<longrightarrow> mSeenTupleVar s) \<and> (prevSeen s1 \<longrightarrow> prevSeen s \<or> mSeenTupleVar s)"
    with UFCallTerm.IH[OF a, of s1] UFCallTerm.prems show "\<exists>s'. accept_exp (VisitorIsUFCallParam k) a s1 = Inr (a, s') \<and>
      mResult s' = mResult s \<and> (mSeenTupleVar s' \<longrightarrow> mSeenTupleVar s) \<and> (prevSeen s' \<longrightarrow> prevSeen s \<or> mSeenTupleVar s)"
      by auto
  qed simp
  then show ?case by auto
next
  case (Exp ts et)
  let ?s = "s\<lparr>prevSeen := mSeenTupleVar s, mSeenTupleVar := False\<rparr>"
  have "\<exists>s'. visit_all (accept_trm (VisitorIsUFCallParam k)) ts ?s = Inr (ts, s') \<and> (mResult s' = mResult s \<and>
     \<not> mSeenTupleVar s' \<and> (prevSeen s' \<longrightarrow> mSeenTupleVar s))"
  proof (rule visit_all_same_rule[of "\<lambda>xs s'. mResult s' = mResult s \<and> \<not> mSeenTupleVar s' \<and> (prevSeen s' \<longrightarrow> mSeenTupleVar s)"])
    fix ys t and s1 :: param_state
    assume t: "t \<in> set ts" and "mResult s1 = mResult s \<and> \<not> mSeenTupleVar s1 \<and> (prevSeen s1 \<longrightarrow> mSeenTupleVar s)"
    with Exp.IH[OF t, of s1] Exp.prems show "\<exists>s'. accept_trm (VisitorIsUFCallParam k) t s1 = Inr (t, s') \<and>
      mResult s' = mResult s \<and> \<not> mSeenTupleVar s' \<and> (prevSeen s' \<longrightarrow> mSeenTupleVar s)"
      by auto
  qed simp
  then show ?case by auto
qed auto

lemma param_total:
  "\<exists>s'. accept_trm (VisitorIsUFCallParam k) t s = Inr (t, s')"
  "\<exists>s'. accept_exp (VisitorIsUFCallParam k) e s = Inr (e, s')"
proof (induction t and e arbitrary: s and s rule: trm.induct exp.induct)
  case (UFCallTerm c f args i)
  have "\<exists>s'. visit_all (accept_exp (VisitorIsUFCallParam k)) args s = Inr (args, s') \<and> True"
    by (rule visit_all_same_rule[of "\<lambda>_ _. True"]) (simp_all add: UFCallTerm.IH)
  then show ?case by auto
next
  case (Exp ts et)
  have "\<exists>s'. visit_all (accept_trm (VisitorIsUFCallParam k)) ts s = Inr (ts, s') \<and> True" for s
    by (rule visit_all_same_rule[of "\<lambda>_ _. True"]) (simp_all add: Exp.IH)
  from this[of "s\<lparr>prevSeen := mSeenTupleVar s, mSeenTupleVar := False\<rparr>"] show ?case by auto
qed auto

lemma param_mono:
  "accept_trm (VisitorIsUFCallParam k) t s = Inr (t', s') \<Longrightarrow> mResult s \<Longrightarrow> mResult s'"
  "accept_exp (VisitorIsUFCallParam k) e s = Inr (e', s') \<Longrightarrow> mResult s \<Longrightarrow> mResult s'"
proof (induction t and e arbitrary: s t' s' and s e' s' rule: trm.induct exp.induct)
  case (UFCallTerm c f args i)
  have "\<exists>s'. visit_all (accept_exp (VisitorIsUFCallParam k)) args s = Inr (args, s') \<and> mResult s'"
  proof (rule visit_all_same_rule[of "\<lambda>_. mResult"])
    fix ys a and s1 :: param_state assume "a \<in> set args" "mResult s1"
    then show "\<exists>s'. accept_exp (VisitorIsUFCallParam k) a s1 = Inr (a, s') \<and> mResult s'"
      using UFCallTerm.IH param_total(2)[of k a s1] by blast
  qed (rule UFCallTerm.prems)
  then show ?case using UFCallTerm.prems by auto
next
  case (Exp ts et)
  let ?s = "s\<lparr>prevSeen := mSeenTupleVar s, mSeenTupleVar := False\<rparr>"
  have "\<exists>s'. visit_all (accept_trm (VisitorIsUFCallParam k)) ts ?s = Inr (ts, s') \<and> mResult s'"
  proof (rule visit_all_same_rule[of "\<lambda>_. mResult"])
    fix ys t and s1 :: param_state assume "t \<in> set ts" "mResult s1"
    then show "\<exists>s'. accept_trm (VisitorIsUFCallParam k) t s1 = Inr (t, s') \<and> mResult s'"
      using Exp.IH param_total(1)[of k t s1] by blast
  qed (simp add: Exp.prems)
  then show ?case using Exp.prems by auto
qed auto

text \<open>A constraint: what is found, is there, and if calls are not nested too deep it is found.\<close>

lemma param_flat:
  assumes "call_depth e = 0" "mExpType e = Expression"
  shows "\<exists>s'. accept_exp (VisitorIsUFCallParam k) e s = Inr (e, s') \<and>
    mResult s' = (mResult s \<or> k \<in> tvars e) \<and> mSeenTupleVar s' = mSeenTupleVar s"
proof -
  obtain ts where e: "e = Exp ts Expression" using assms(2) by (cases e) auto
  let ?s = "s\<lparr>prevSeen := mSeenTupleVar s, mSeenTupleVar := False\<rparr>"
  let ?Q = "\<lambda>ys s'. s' = ?s\<lparr>mSeenTupleVar := \<exists>t \<in> set ys. k \<in> tvars_trm t\<rparr>"
  have "\<exists>s'. visit_all (accept_trm (VisitorIsUFCallParam k)) ts ?s = Inr (ts, s') \<and> ?Q ts s'"
  proof (rule visit_all_same_rule[of ?Q])
    fix ys t and s1 :: param_state
    assume t: "t \<in> set ts" and s1: "?Q ys s1"
    have "call_depth_trm t \<le> 0" using assms(1) t e call_depth_le[of ts Expression 0] by simp
    then show "\<exists>s'. accept_trm (VisitorIsUFCallParam k) t s1 = Inr (t, s') \<and> ?Q (ys @ [t]) s'"
      by (cases t) (auto simp: s1)
  qed simp
  then show ?thesis by (auto simp: e)
qed

lemma param_nested:
  assumes "call_depth e \<le> 1" "mExpType e = Expression" "args_kind e"
  shows "\<exists>s'. accept_exp (VisitorIsUFCallParam k) e s = Inr (e, s') \<and> mResult s' = (mResult s \<or> k \<in> tvars e)"
proof -
  obtain ts where e: "e = Exp ts Expression" using assms(2) by (cases e) auto
  let ?s = "s\<lparr>prevSeen := mSeenTupleVar s, mSeenTupleVar := False\<rparr>"
  let ?Q = "\<lambda>ys s'. (mResult s' \<or> mSeenTupleVar s') = (mResult s \<or> (\<exists>t \<in> set ys. k \<in> tvars_trm t))"
  have "\<exists>s'. visit_all (accept_trm (VisitorIsUFCallParam k)) ts ?s = Inr (ts, s') \<and> ?Q ts s'"
  proof (rule visit_all_same_rule[of ?Q])
    fix ys t and s1 :: param_state
    assume t: "t \<in> set ts" and s1: "?Q ys s1"
    show "\<exists>s'. accept_trm (VisitorIsUFCallParam k) t s1 = Inr (t, s') \<and> ?Q (ys @ [t]) s'"
    proof (cases t)
      case (UFCallTerm c f args i)
      have args: "\<forall>a \<in> set args. call_depth a = 0 \<and> mExpType a = Expression"
        using assms t e UFCallTerm call_depth_le[of ts Expression 1] call_depth_trm_le[of c f args i 0]
        by (auto simp: list_all_iff simp del: call_depth_trm.simps call_depth.simps)
      let ?R = "\<lambda>xs s'. mResult s' = (mResult s1 \<or> (\<exists>a \<in> set xs. k \<in> tvars a)) \<and> mSeenTupleVar s' = mSeenTupleVar s1"
      have "\<exists>s'. visit_all (accept_exp (VisitorIsUFCallParam k)) args s1 = Inr (args, s') \<and> ?R args s'"
      proof (rule visit_all_same_rule[of ?R])
        fix xs a and s2 :: param_state
        assume "a \<in> set args" "?R xs s2"
        with param_flat[of a k s2] args show "\<exists>s'. accept_exp (VisitorIsUFCallParam k) a s2 = Inr (a, s') \<and> ?R (xs @ [a]) s'"
          by auto
      qed simp
      with s1 UFCallTerm show ?thesis by auto
    qed (use s1 in auto)
  qed simp
  then show ?thesis by (auto simp: e)
qed

lemma param_constraint:
  assumes "mExpType e \<noteq> Expression" "args_kind e"
  shows "\<exists>s'. accept_exp (VisitorIsUFCallParam k) e s = Inr (e, s') \<and> (mResult s' \<longrightarrow> mResult s \<or> k \<in> arg_tvars e)
    \<and> (mResult s \<longrightarrow> mResult s') \<and> (call_depth e \<le> 2 \<and> k \<in> arg_tvars e \<longrightarrow> mResult s')"
proof -
  obtain ts et where e: "e = Exp ts et" "et \<noteq> Expression" using assms(1) by (cases e) auto
  let ?s = "s\<lparr>prevSeen := mSeenTupleVar s, mSeenTupleVar := False\<rparr>"
  let ?Q = "\<lambda>ys s'. (mResult s' \<longrightarrow> mResult s \<or> (\<exists>t \<in> set ys. k \<in> arg_tvars_trm t)) \<and> (mResult s \<longrightarrow> mResult s')
    \<and> (call_depth e \<le> 2 \<and> (\<exists>t \<in> set ys. k \<in> arg_tvars_trm t) \<longrightarrow> mResult s')"
  have "\<exists>s'. visit_all (accept_trm (VisitorIsUFCallParam k)) ts ?s = Inr (ts, s') \<and> ?Q ts s'"
  proof (rule visit_all_same_rule[of ?Q])
    fix ys t and s1 :: param_state
    assume t: "t \<in> set ts" and s1: "?Q ys s1"
    show "\<exists>s'. accept_trm (VisitorIsUFCallParam k) t s1 = Inr (t, s') \<and> ?Q (ys @ [t]) s'"
    proof (cases t)
      case (UFCallTerm c f args i)
      have args: "mExpType a = Expression \<and> args_kind a \<and> (call_depth e \<le> 2 \<longrightarrow> call_depth a \<le> 1)" if "a \<in> set args" for a
      proof -
        have "call_depth_trm t \<le> 2" if "call_depth e \<le> 2" using that t e(1) call_depth_le[of ts et 2] by blast
        then show ?thesis using assms(2) t e UFCallTerm that call_depth_trm_le[of c f args i 1]
          by (auto simp: list_all_iff numeral_2_eq_2 simp del: call_depth_trm.simps)
      qed
      let ?R = "\<lambda>xs s'. (mResult s' \<longrightarrow> mResult s1 \<or> (\<exists>a \<in> set xs. k \<in> tvars a)) \<and> (mResult s1 \<longrightarrow> mResult s')
        \<and> (call_depth e \<le> 2 \<and> (\<exists>a \<in> set xs. k \<in> tvars a) \<longrightarrow> mResult s')"
      have "\<exists>s'. visit_all (accept_exp (VisitorIsUFCallParam k)) args s1 = Inr (args, s') \<and> ?R args s'"
      proof (rule visit_all_same_rule[of ?R])
        fix xs a and s2 :: param_state
        assume a: "a \<in> set args" and R: "?R xs s2"
        obtain s' where s': "accept_exp (VisitorIsUFCallParam k) a s2 = Inr (a, s')" using param_total(2) by blast
        moreover have "mResult s' \<longrightarrow> mResult s2 \<or> k \<in> tvars a" using param_absent(2)[of k a s2] s' by auto
        moreover have "mResult s2 \<longrightarrow> mResult s'" using param_mono(2) s' by blast
        moreover have "call_depth e \<le> 2 \<and> k \<in> tvars a \<longrightarrow> mResult s'" using param_nested[of a k s2] args[OF a] s' by auto
        ultimately show "\<exists>s'. accept_exp (VisitorIsUFCallParam k) a s2 = Inr (a, s') \<and> ?R (xs @ [a]) s'"
          using R by auto
      qed simp
      with s1 UFCallTerm show ?thesis by auto
    qed (use s1 in auto)
  qed simp
  then show ?thesis by (auto simp: e arg_tvars_def)
qed

lemma param_constraints:
  assumes "\<forall>e \<in> set es. mExpType e \<noteq> Expression \<and> args_kind e"
  shows "\<exists>s'. visit_all (accept_exp (VisitorIsUFCallParam k)) es s = Inr (es, s')
    \<and> (mResult s' \<longrightarrow> mResult s \<or> (\<exists>e \<in> set es. k \<in> arg_tvars e)) \<and> (mResult s \<longrightarrow> mResult s')
    \<and> (\<forall>e \<in> set es. call_depth e \<le> 2 \<and> k \<in> arg_tvars e \<longrightarrow> mResult s')"
proof (rule visit_all_same_rule[of "\<lambda>ys s'. (mResult s' \<longrightarrow> mResult s \<or> (\<exists>e \<in> set ys. k \<in> arg_tvars e))
    \<and> (mResult s \<longrightarrow> mResult s') \<and> (\<forall>e \<in> set ys. call_depth e \<le> 2 \<and> k \<in> arg_tvars e \<longrightarrow> mResult s')"])
  fix ys e and s1 :: param_state
  assume "e \<in> set es" "(mResult s1 \<longrightarrow> mResult s \<or> (\<exists>e \<in> set ys. k \<in> arg_tvars e))
    \<and> (mResult s \<longrightarrow> mResult s1) \<and> (\<forall>e \<in> set ys. call_depth e \<le> 2 \<and> k \<in> arg_tvars e \<longrightarrow> mResult s1)"
  with param_constraint[of e k s1] assms show "\<exists>s'. accept_exp (VisitorIsUFCallParam k) e s1 = Inr (e, s') \<and>
    ((mResult s' \<longrightarrow> mResult s \<or> (\<exists>e \<in> set (ys @ [e]). k \<in> arg_tvars e))
    \<and> (mResult s \<longrightarrow> mResult s') \<and> (\<forall>e \<in> set (ys @ [e]). call_depth e \<le> 2 \<and> k \<in> arg_tvars e \<longrightarrow> mResult s'))"
    by auto
qed simp

definition constraints_of :: "conjunction \<Rightarrow> exp list" where
  "constraints_of c = mEqualities c @ mInequalities c"

lemma param_conj:
  assumes "conj_kinds c"
  shows "\<exists>s'. accept_conj (VisitorIsUFCallParam k) c s = Inr (c, s')
    \<and> (mResult s' \<longrightarrow> mResult s \<or> (\<exists>e \<in> set (constraints_of c). k \<in> arg_tvars e)) \<and> (mResult s \<longrightarrow> mResult s')
    \<and> (\<forall>e \<in> set (constraints_of c). call_depth e \<le> 2 \<and> k \<in> arg_tvars e \<longrightarrow> mResult s')"
proof -
  have kinds: "\<forall>e \<in> set (mEqualities c). mExpType e \<noteq> Expression \<and> args_kind e"
    "\<forall>e \<in> set (mInequalities c). mExpType e \<noteq> Expression \<and> args_kind e"
    using assms by (auto simp: conj_kinds_def)
  from param_constraints[OF kinds(1), of k s] obtain s1 where s1:
    "visit_all (accept_exp (VisitorIsUFCallParam k)) (mEqualities c) s = Inr (mEqualities c, s1)"
    "mResult s1 \<longrightarrow> mResult s \<or> (\<exists>e \<in> set (mEqualities c). k \<in> arg_tvars e)" "mResult s \<longrightarrow> mResult s1"
    "\<forall>e \<in> set (mEqualities c). call_depth e \<le> 2 \<and> k \<in> arg_tvars e \<longrightarrow> mResult s1" by blast
  from param_constraints[OF kinds(2), of k s1] obtain s2 where s2:
    "visit_all (accept_exp (VisitorIsUFCallParam k)) (mInequalities c) s1 = Inr (mInequalities c, s2)"
    "mResult s2 \<longrightarrow> mResult s1 \<or> (\<exists>e \<in> set (mInequalities c). k \<in> arg_tvars e)" "mResult s1 \<longrightarrow> mResult s2"
    "\<forall>e \<in> set (mInequalities c). call_depth e \<le> 2 \<and> k \<in> arg_tvars e \<longrightarrow> mResult s2" by blast
  have "accept_conj (VisitorIsUFCallParam k) c s = Inr (c, s2)" using s1(1) s2(1) by (simp add: accept_conj_def)
  then show ?thesis using s1(2-4) s2(2-4) by (auto simp: constraints_of_def)
qed

definition nested_at_most :: "nat \<Rightarrow> sparse \<Rightarrow> bool" where
  "nested_at_most n cs \<longleftrightarrow> list_all (\<lambda>c. list_all (\<lambda>e. call_depth e \<le> n) (constraints_of c)) cs"

lemma sparse_arg_tvars_iff: "k \<in> sparse_arg_tvars cs \<longleftrightarrow> (\<exists>c \<in> set cs. \<exists>e \<in> set (constraints_of c). k \<in> arg_tvars e)"
  by (auto simp: sparse_arg_tvars_def constraints_of_def)

lemma isUFCallParam_found:
  assumes "sparse_kinds cs"
  obtains r where "isUFCallParam cs k = Inr r" "r \<longrightarrow> k \<in> sparse_arg_tvars cs"
    "nested_at_most 2 cs \<Longrightarrow> r \<longleftrightarrow> k \<in> sparse_arg_tvars cs"
proof -
  let ?s = "\<lparr>mResult = False, mSeenTupleVar = False, prevSeen = False\<rparr>"
  let ?Q = "\<lambda>ys s'. (mResult s' \<longrightarrow> (\<exists>c \<in> set ys. \<exists>e \<in> set (constraints_of c). k \<in> arg_tvars e)) \<and>
    (\<forall>c \<in> set ys. \<forall>e \<in> set (constraints_of c). call_depth e \<le> 2 \<and> k \<in> arg_tvars e \<longrightarrow> mResult s')"
  have "\<exists>s'. visit_all (accept_conj (VisitorIsUFCallParam k)) cs ?s = Inr (cs, s') \<and> ?Q cs s'"
  proof (rule visit_all_same_rule[of ?Q])
    fix ys c and s1 :: param_state
    assume c: "c \<in> set cs" and Q: "?Q ys s1"
    obtain s2 where s2: "accept_conj (VisitorIsUFCallParam k) c s1 = Inr (c, s2)"
      "mResult s2 \<longrightarrow> mResult s1 \<or> (\<exists>e \<in> set (constraints_of c). k \<in> arg_tvars e)" "mResult s1 \<longrightarrow> mResult s2"
      "\<forall>e \<in> set (constraints_of c). call_depth e \<le> 2 \<and> k \<in> arg_tvars e \<longrightarrow> mResult s2"
      using param_conj[of c k s1] assms c unfolding sparse_kinds_def by blast
    have "?Q (ys @ [c]) s2" using s2(2-4) Q by simp blast
    with s2(1) show "\<exists>s'. accept_conj (VisitorIsUFCallParam k) c s1 = Inr (c, s') \<and> ?Q (ys @ [c]) s'" by blast
  qed simp
  then obtain s' where s': "visit_all (accept_conj (VisitorIsUFCallParam k)) cs ?s = Inr (cs, s')" "?Q cs s'" by blast
  show thesis
  proof (rule that[of "mResult s'"])
    show "isUFCallParam cs k = Inr (mResult s')" using s'(1) by (simp add: isUFCallParam_def accept_sparse_def)
    show "mResult s' \<longrightarrow> k \<in> sparse_arg_tvars cs" using s'(2) by (simp add: sparse_arg_tvars_iff)
    assume "nested_at_most 2 cs"
    then show "mResult s' \<longleftrightarrow> k \<in> sparse_arg_tvars cs"
      using s'(2) unfolding nested_at_most_def list_all_iff sparse_arg_tvars_iff by blast
  qed
qed

text \<open>Deeper it may be missed, as the flag of the outer argument is saved in one field only: \<open>f(i + g(h(j))) = 0\<close>.\<close>

definition deep_call :: conjunction where
  "deep_call = (let arg = (\<lambda>t. Exp [t] Expression) in
     (Conjunction_new 2 0)\<lparr>mEqualities := [Exp [UFCallTerm 1 ''f''
       [Exp [TupleVarTerm 1 0, UFCallTerm 1 ''g'' [arg (UFCallTerm 1 ''h'' [arg (TupleVarTerm 1 1)] (-1))] (-1)] Expression] (-1)]
       Equality]\<rparr>)"

lemma isUFCallParam_misses:
  "isUFCallParam [deep_call] 0 = Inr False" "0 \<in> sparse_arg_tvars [deep_call]" "sparse_kinds [deep_call]"
  apply (simp add: isUFCallParam_def accept_sparse_def accept_conj_def deep_call_def Conjunction_new_def Conjunction_of_def Let_def)
  apply (simp add: deep_call_def Conjunction_new_def Conjunction_of_def Let_def sparse_arg_tvars_def arg_tvars_def)
  apply (simp add: deep_call_def Conjunction_new_def Conjunction_of_def Let_def sparse_kinds_def conj_kinds_def)
  done

section \<open>Watching the arguments of calls\<close>

text \<open>Two visitors look for a variable in arguments and decide about a constraint when they leave it.\<close>

record watch_state =
  seenTupleVar :: bool
  UFCLevel :: int

definition watch_tuple_var :: "int \<Rightarrow> trm \<Rightarrow> 'a watch_state_scheme \<Rightarrow> (trm \<times> 'a watch_state_scheme) result" where
  "watch_tuple_var k t s = Inr (t, if UFCLevel s > 0 \<and> tvloc t = k then s\<lparr>seenTupleVar := True\<rparr> else s)"

definition watch_exp :: "exp \<Rightarrow> 'a watch_state_scheme \<Rightarrow> 'a watch_state_scheme result" where
  "watch_exp e s = Inr (if mExpType e = Equality \<or> mExpType e = Inequality
     then s\<lparr>UFCLevel := 0, seenTupleVar := False\<rparr>
     else if mExpType e = Expression then s\<lparr>UFCLevel := UFCLevel s + 1\<rparr> else s)"

locale arg_watcher =
  fixes v :: "'a watch_state_scheme visitor" and k :: int
  assumes hooks [simp]: "preVisitTerm v = (\<lambda>t s. Inr s)" "preVisitVarTerm v = (\<lambda>t s. Inr s)"
      "preVisitTupleVarTerm v = watch_tuple_var k" "preVisitUFCallTerm v = (\<lambda>t s. Inr s)"
      "postVisitUFCallTerm v = (\<lambda>t s. Inr (t, s))" "preVisitExp v = watch_exp"
    and leave_arg [simp]: "mExpType e = Expression \<Longrightarrow> postVisitExp v e s = Inr (s\<lparr>UFCLevel := UFCLevel s - 1\<rparr>)"
begin

lemma args:
  "args_kind_trm t \<Longrightarrow> UFCLevel s > 0 \<Longrightarrow>
     accept_trm v t s = Inr (t, s\<lparr>seenTupleVar := seenTupleVar s \<or> k \<in> tvars_trm t\<rparr>)"
  "args_kind e \<Longrightarrow> mExpType e = Expression \<Longrightarrow> UFCLevel s \<ge> 0 \<Longrightarrow>
     accept_exp v e s = Inr (e, s\<lparr>seenTupleVar := seenTupleVar s \<or> k \<in> tvars e\<rparr>)"
proof (induction t and e arbitrary: s and s rule: trm.induct exp.induct)
  case (UFCallTerm c f as i)
  let ?Q = "\<lambda>ys s'. s' = s\<lparr>seenTupleVar := seenTupleVar s \<or> (\<exists>a \<in> set ys. k \<in> tvars a)\<rparr>"
  have "\<exists>s'. visit_all (accept_exp v) as s = Inr (as, s') \<and> ?Q as s'"
  proof (rule visit_all_same_rule[of ?Q])
    fix ys a and s1 :: "'a watch_state_scheme"
    assume "a \<in> set as" "?Q ys s1"
    with UFCallTerm.IH[of a s1] UFCallTerm.prems show "\<exists>s'. accept_exp v a s1 = Inr (a, s') \<and> ?Q (ys @ [a]) s'"
      by (auto simp: list_all_iff disj_ac)
  qed simp
  then show ?case by auto
next
  case (Exp ts et)
  let ?s = "s\<lparr>UFCLevel := UFCLevel s + 1\<rparr>"
  let ?Q = "\<lambda>ys s'. s' = ?s\<lparr>seenTupleVar := seenTupleVar s \<or> (\<exists>t \<in> set ys. k \<in> tvars_trm t)\<rparr>"
  have "\<exists>s'. visit_all (accept_trm v) ts ?s = Inr (ts, s') \<and> ?Q ts s'"
  proof (rule visit_all_same_rule[of ?Q])
    fix ys t and s1 :: "'a watch_state_scheme"
    assume "t \<in> set ts" "?Q ys s1"
    with Exp.IH[of t s1] Exp.prems show "\<exists>s'. accept_trm v t s1 = Inr (t, s') \<and> ?Q (ys @ [t]) s'"
      by (auto simp: list_all_iff disj_ac)
  qed simp
  then show ?case using Exp.prems by (auto simp: watch_exp_def)
qed (auto simp: watch_tuple_var_def)

lemma constraint:
  assumes "args_kind e" "mExpType e \<noteq> Expression"
  shows "accept_exp v e s =
    bind_result (postVisitExp v e (s\<lparr>UFCLevel := 0, seenTupleVar := k \<in> arg_tvars e\<rparr>)) (\<lambda>s. Inr (e, s))"
proof -
  obtain ts et where e: "e = Exp ts et" "et \<noteq> Expression" using assms(2) by (cases e) auto
  let ?s = "s\<lparr>UFCLevel := 0, seenTupleVar := False\<rparr>"
  let ?Q = "\<lambda>ys s'. s' = ?s\<lparr>seenTupleVar := \<exists>t \<in> set ys. k \<in> arg_tvars_trm t\<rparr>"
  have "\<exists>s'. visit_all (accept_trm v) ts ?s = Inr (ts, s') \<and> ?Q ts s'"
  proof (rule visit_all_same_rule[of ?Q])
    fix ys t and s1 :: "'a watch_state_scheme"
    assume t: "t \<in> set ts" and s1: "?Q ys s1"
    show "\<exists>s'. accept_trm v t s1 = Inr (t, s') \<and> ?Q (ys @ [t]) s'"
    proof (cases t)
      case (UFCallTerm c f as i)
      have as: "\<forall>a \<in> set as. args_kind a \<and> mExpType a = Expression"
        using assms(1) t e UFCallTerm by (auto simp: list_all_iff)
      let ?R = "\<lambda>xs s'. s' = s1\<lparr>seenTupleVar := seenTupleVar s1 \<or> (\<exists>a \<in> set xs. k \<in> tvars a)\<rparr>"
      have "\<exists>s'. visit_all (accept_exp v) as s1 = Inr (as, s') \<and> ?R as s'"
      proof (rule visit_all_same_rule[of ?R])
        fix xs a and s2 :: "'a watch_state_scheme"
        assume "a \<in> set as" "?R xs s2"
        with args(2)[of a s2] as s1 show "\<exists>s'. accept_exp v a s2 = Inr (a, s') \<and> ?R (xs @ [a]) s'"
          by (auto simp: disj_ac)
      qed simp
      with s1 UFCallTerm show ?thesis by (auto simp: disj_ac)
    qed (use s1 in \<open>auto simp: watch_tuple_var_def\<close>)
  qed simp
  moreover have "watch_exp e s = Inr ?s" using e by (cases et) (simp_all add: watch_exp_def)
  ultimately show ?thesis by (auto simp: e arg_tvars_def)
qed

end

section \<open>Counting and removing constraints\<close>

record count_state = watch_state +
  count :: int

text \<open>The set \<open>ignore\<close> is a \<open>std::set\<close> of expressions.\<close>

definition VisitorNumUFCallConstsMustRemove :: "int \<Rightarrow> exp list \<Rightarrow> count_state visitor" where
  "VisitorNumUFCallConstsMustRemove tupleID ignore = base_Visitor\<lparr>
     preVisitTupleVarTerm := watch_tuple_var tupleID,
     preVisitExp := watch_exp,
     postVisitExp := \<lambda>e s. Inr
       (if mExpType e = Expression then s\<lparr>UFCLevel := UFCLevel s - 1\<rparr>
        else if seenTupleVar s then
          (if \<not> list_ex (exp_eq e) ignore then s\<lparr>count := count s + 1\<rparr> else s)
        else s)\<rparr>"

definition numUFCallConstsMustRemove :: "sparse \<Rightarrow> int \<Rightarrow> exp list \<Rightarrow> int result" where
  "numUFCallConstsMustRemove cs i ignore =
     bind_result (accept_sparse (VisitorNumUFCallConstsMustRemove i ignore) cs
         \<lparr>seenTupleVar = False, UFCLevel = 0, count = 0\<rparr>) (\<lambda>(cs, s). Inr (count s))"

text \<open>The conjunction being built and the finished ones are pointers and a list; \<open>redConj\<close> is set by
  \<open>preVisitConjunction\<close> before it is used.\<close>

record remove_state = watch_state +
  redConj :: conjunction
  mRedConj :: sparse
  redSparseConstraints :: sparse

definition VisitorRemoveUFCallConsts :: "int \<Rightarrow> remove_state visitor" where
  "VisitorRemoveUFCallConsts tupleID = base_Visitor\<lparr>
     preVisitTupleVarTerm := watch_tuple_var tupleID,
     preVisitExp := watch_exp,
     postVisitExp := \<lambda>e s. Inr
       (if mExpType e = Expression then s\<lparr>UFCLevel := UFCLevel s - 1\<rparr>
        else if \<not> seenTupleVar s then
          (if mExpType e = Inequality then s\<lparr>redConj := addInequality (redConj s) e\<rparr>
           else s\<lparr>redConj := addEquality (redConj s) e\<rparr>)
        else s),
     preVisitConjunction := \<lambda>c s. bind_result (setInArity (Conjunction_of (mTupleDecl c)) (mInArity c)) (\<lambda>r.
       Inr (s\<lparr>redConj := r\<rparr>)),
     postVisitConjunction := \<lambda>c s. Inr (c, s\<lparr>mRedConj := mRedConj s @ [redConj s]\<rparr>),
     postVisitSparseConstraints := \<lambda>cs s. Inr (s\<lparr>redSparseConstraints := foldl sparse_addConjunction [] (mRedConj s)\<rparr>)\<rparr>"

definition removeUFCallConsts :: "(string \<Rightarrow> string) \<Rightarrow> sparse \<Rightarrow> int \<Rightarrow> sparse result" where
  "removeUFCallConsts qinv cs i =
     bind_result (accept_sparse (VisitorRemoveUFCallConsts i) cs
         \<lparr>seenTupleVar = False, UFCLevel = 0, redConj = Conjunction_new 0 0, mRedConj = [], redSparseConstraints = []\<rparr>)
       (\<lambda>(cs, s). sparse_copy qinv (redSparseConstraints s))"

definition remove_expensive_step ::
  "(string \<Rightarrow> string) \<Rightarrow> nat list \<Rightarrow> exp list \<Rightarrow> sparse \<times> int \<Rightarrow> nat \<Rightarrow> (sparse \<times> int) result" where
  "remove_expensive_step qinv parallelTvs ignore st i =
     (case st of (cs, mNumConstsToRemove) \<Rightarrow>
        if i \<in> set parallelTvs then Inr st
        else bind_result (numUFCallConstsMustRemove cs (int i) ignore) (\<lambda>nConstsToRemove.
          if nConstsToRemove > mNumConstsToRemove then Inr st
          else if 0 \<le> nConstsToRemove \<and> nConstsToRemove \<le> mNumConstsToRemove then
            bind_result (removeUFCallConsts qinv cs (int i)) (\<lambda>cs. Inr (cs, mNumConstsToRemove - nConstsToRemove))
          else Inr st))"

definition removeExpensiveConstraints ::
  "(string \<Rightarrow> string) \<Rightarrow> nat \<Rightarrow> sparse \<Rightarrow> nat list \<Rightarrow> int \<Rightarrow> exp list \<Rightarrow> sparse result" where
  "removeExpensiveConstraints qinv arity cs parallelTvs mNumConstsToRemove ignore =
     bind_result (fold_result (remove_expensive_step qinv parallelTvs ignore) (cs, mNumConstsToRemove) (rev [0..<arity]))
       (\<lambda>(cs, n). Inr cs)"

interpretation counting: arg_watcher "VisitorNumUFCallConstsMustRemove k ignore" k
  by unfold_locales (simp_all add: VisitorNumUFCallConstsMustRemove_def base_Visitor_def)

interpretation removing: arg_watcher "VisitorRemoveUFCallConsts k" k
  by unfold_locales (simp_all add: VisitorRemoveUFCallConsts_def base_Visitor_def)

subsection \<open>Counting\<close>

abbreviation counts :: "int \<Rightarrow> exp list \<Rightarrow> exp \<Rightarrow> bool" where
  "counts k ignore e \<equiv> k \<in> arg_tvars e \<and> \<not> list_ex (exp_eq e) ignore"

lemma count_exps:
  assumes "\<forall>e \<in> set es. args_kind e \<and> mExpType e \<noteq> Expression"
  shows "\<exists>s'. visit_all (accept_exp (VisitorNumUFCallConstsMustRemove k ignore)) es s = Inr (es, s')
    \<and> count s' = count s + int (length (filter (counts k ignore) es))"
proof (rule visit_all_same_rule[of "\<lambda>ys s'. count s' = count s + int (length (filter (counts k ignore) ys))"])
  fix ys e and s1 :: count_state
  assume e: "e \<in> set es" and s1: "count s1 = count s + int (length (filter (counts k ignore) ys))"
  show "\<exists>s'. accept_exp (VisitorNumUFCallConstsMustRemove k ignore) e s1 = Inr (e, s')
    \<and> count s' = count s + int (length (filter (counts k ignore) (ys @ [e])))"
    using assms e s1 counting.constraint[of e k ignore s1]
    by (auto simp: VisitorNumUFCallConstsMustRemove_def base_Visitor_def)
qed simp

lemma count_conj:
  assumes "conj_kinds c"
  shows "\<exists>s'. accept_conj (VisitorNumUFCallConstsMustRemove k ignore) c s = Inr (c, s')
    \<and> count s' = count s + int (length (filter (counts k ignore) (constraints_of c)))"
proof -
  have kinds: "\<forall>e \<in> set (mEqualities c). args_kind e \<and> mExpType e \<noteq> Expression"
    "\<forall>e \<in> set (mInequalities c). args_kind e \<and> mExpType e \<noteq> Expression"
    using assms by (auto simp: conj_kinds_def)
  obtain s1 where s1: "visit_all (accept_exp (VisitorNumUFCallConstsMustRemove k ignore)) (mEqualities c) s = Inr (mEqualities c, s1)"
    "count s1 = count s + int (length (filter (counts k ignore) (mEqualities c)))" using count_exps[OF kinds(1)] by blast
  obtain s2 where s2: "visit_all (accept_exp (VisitorNumUFCallConstsMustRemove k ignore)) (mInequalities c) s1 = Inr (mInequalities c, s2)"
    "count s2 = count s1 + int (length (filter (counts k ignore) (mInequalities c)))" using count_exps[OF kinds(2)] by blast
  have "accept_conj (VisitorNumUFCallConstsMustRemove k ignore) c s = Inr (c, s2)"
    using s1(1) s2(1) by (simp add: accept_conj_def VisitorNumUFCallConstsMustRemove_def base_Visitor_def)
  with s1(2) s2(2) show ?thesis by (simp add: constraints_of_def)
qed

lemma numUFCallConstsMustRemove_counts:
  assumes "sparse_kinds cs"
  shows "numUFCallConstsMustRemove cs k ignore =
    Inr (int (length (filter (counts k ignore) (concat (map constraints_of cs)))))"
proof -
  let ?s = "\<lparr>seenTupleVar = False, UFCLevel = 0, count = 0\<rparr>"
  let ?Q = "\<lambda>ys s'. count s' = int (length (filter (counts k ignore) (concat (map constraints_of ys))))"
  have "\<exists>s'. visit_all (accept_conj (VisitorNumUFCallConstsMustRemove k ignore)) cs ?s = Inr (cs, s') \<and> ?Q cs s'"
  proof (rule visit_all_same_rule[of ?Q])
    fix ys c and s1 :: count_state
    assume "c \<in> set cs" "?Q ys s1"
    with count_conj[of c k ignore s1] assms
    show "\<exists>s'. accept_conj (VisitorNumUFCallConstsMustRemove k ignore) c s1 = Inr (c, s') \<and> ?Q (ys @ [c]) s'"
      by (auto simp: sparse_kinds_def)
  qed simp
  then show ?thesis
    by (auto simp: numUFCallConstsMustRemove_def accept_sparse_def VisitorNumUFCallConstsMustRemove_def base_Visitor_def)
qed

subsection \<open>Removing\<close>

text \<open>The conjunction without the constraints in which the variable is in an argument.\<close>

definition reduced :: "int \<Rightarrow> conjunction \<Rightarrow> conjunction" where
  "reduced k c = build_conj (mTupleDecl c) (mInArity c)
     (filter (\<lambda>e. k \<notin> arg_tvars e) (mEqualities c)) (filter (\<lambda>e. k \<notin> arg_tvars e) (mInequalities c))"

lemma remove_exps:
  assumes "\<forall>e \<in> set es. args_kind e \<and> mExpType e = et" "et = Equality \<and> add = addEquality \<or> et = Inequality \<and> add = addInequality"
  shows "\<exists>s'. visit_all (accept_exp (VisitorRemoveUFCallConsts k)) es s = Inr (es, s')
    \<and> redConj s' = foldl add (redConj s) (filter (\<lambda>e. k \<notin> arg_tvars e) es) \<and> mRedConj s' = mRedConj s"
proof (rule visit_all_same_rule[of "\<lambda>ys s'. redConj s' = foldl add (redConj s) (filter (\<lambda>e. k \<notin> arg_tvars e) ys) \<and> mRedConj s' = mRedConj s"])
  fix ys e and s1 :: remove_state
  assume e: "e \<in> set es"
    and s1: "redConj s1 = foldl add (redConj s) (filter (\<lambda>e. k \<notin> arg_tvars e) ys) \<and> mRedConj s1 = mRedConj s"
  show "\<exists>s'. accept_exp (VisitorRemoveUFCallConsts k) e s1 = Inr (e, s')
    \<and> redConj s' = foldl add (redConj s) (filter (\<lambda>e. k \<notin> arg_tvars e) (ys @ [e])) \<and> mRedConj s' = mRedConj s"
    using assms e s1 removing.constraint[of e k s1]
    by (auto simp: VisitorRemoveUFCallConsts_def base_Visitor_def)
qed simp

lemma remove_conj:
  assumes "plain_conj c"
  shows "\<exists>s'. accept_conj (VisitorRemoveUFCallConsts k) c s = Inr (c, s') \<and> mRedConj s' = mRedConj s @ [reduced k c]"
proof -
  have kinds: "\<forall>e \<in> set (mEqualities c). args_kind e \<and> mExpType e = Equality"
    "\<forall>e \<in> set (mInequalities c). args_kind e \<and> mExpType e = Inequality"
    using assms by (auto simp: plain_conj_def conj_kinds_def)
  have pre: "preVisitConjunction (VisitorRemoveUFCallConsts k) c s =
    Inr (s\<lparr>redConj := (Conjunction_of (mTupleDecl c))\<lparr>mInArity := mInArity c\<rparr>\<rparr>)"
    using assms by (simp add: VisitorRemoveUFCallConsts_def base_Visitor_def setInArity_def plain_conj_def
      Conjunction_of_def conj_arity_def)
  let ?s = "s\<lparr>redConj := (Conjunction_of (mTupleDecl c))\<lparr>mInArity := mInArity c\<rparr>\<rparr>"
  obtain s1 where s1: "visit_all (accept_exp (VisitorRemoveUFCallConsts k)) (mEqualities c) ?s = Inr (mEqualities c, s1)"
    "redConj s1 = foldl addEquality (redConj ?s) (filter (\<lambda>e. k \<notin> arg_tvars e) (mEqualities c))" "mRedConj s1 = mRedConj s"
    using remove_exps[OF kinds(1), of addEquality k ?s] by auto
  obtain s2 where s2: "visit_all (accept_exp (VisitorRemoveUFCallConsts k)) (mInequalities c) s1 = Inr (mInequalities c, s2)"
    "redConj s2 = foldl addInequality (redConj s1) (filter (\<lambda>e. k \<notin> arg_tvars e) (mInequalities c))" "mRedConj s2 = mRedConj s"
    using remove_exps[OF kinds(2), of addInequality k s1] s1(3) by auto
  have "redConj s2 = reduced k c" using s1(2) s2(2) by (simp add: reduced_def build_conj_def)
  moreover have "accept_conj (VisitorRemoveUFCallConsts k) c s = Inr (c, s2\<lparr>mRedConj := mRedConj s2 @ [redConj s2]\<rparr>)"
    using s1(1) s2(1) by (simp add: accept_conj_def pre) (simp add: VisitorRemoveUFCallConsts_def base_Visitor_def)
  ultimately show ?thesis using s2(3) by simp
qed

lemma reduced_plain:
  assumes "plain_conj c"
  shows "plain_conj (reduced k c)" "conj_arity (reduced k c) = conj_arity c" "conj_all (not_in_args k) (reduced k c)"
    "conj_holds I (reduced k c) \<longleftrightarrow> decl_holds I (mTupleDecl c) \<and>
      (\<forall>e \<in> set (mEqualities c). k \<notin> arg_tvars e \<longrightarrow> holds_eq I e) \<and>
      (\<forall>e \<in> set (mInequalities c). k \<notin> arg_tvars e \<longrightarrow> holds_ineq I e)"
    "conj_all (not_in_args j) c \<Longrightarrow> conj_all (not_in_args j) (reduced k c)"
proof -
  let ?f = "filter (\<lambda>e. k \<notin> arg_tvars e)"
  have e: "\<forall>e \<in> set (?f (mEqualities c)) \<union> set (?f (mInequalities c)). plain_exp e"
    using assms by (auto simp: plain_conj_exps)
  show "plain_conj (reduced k c)" "conj_arity (reduced k c) = conj_arity c"
    using e build_conj_plain[of "?f (mEqualities c)" "?f (mInequalities c)" "mInArity c" "mTupleDecl c"] assms
    by (simp_all add: reduced_def plain_conj_def conj_arity_def)
  show "conj_all (not_in_args k) (reduced k c)" unfolding reduced_def
    by (rule not_in_args.conj_all_build) (auto simp: arg_tvars_all)
  show "conj_all (not_in_args j) c \<Longrightarrow> conj_all (not_in_args j) (reduced k c)" unfolding reduced_def
    by (rule not_in_args.conj_all_build) (auto simp: conj_all_def)
  have "\<forall>e \<in> set (?f (mEqualities c)) \<union> set (?f (mInequalities c)). wf_exp e" using e by (auto simp: plain_exp_def)
  from build_conj_holds(2)[OF this] show "conj_holds I (reduced k c) \<longleftrightarrow> decl_holds I (mTupleDecl c) \<and>
      (\<forall>e \<in> set (mEqualities c). k \<notin> arg_tvars e \<longrightarrow> holds_eq I e) \<and>
      (\<forall>e \<in> set (mInequalities c). k \<notin> arg_tvars e \<longrightarrow> holds_ineq I e)"
    by (auto simp: reduced_def)
qed

lemma sparse_args_all: "k \<notin> sparse_arg_tvars cs \<longleftrightarrow> (\<forall>c \<in> set cs. conj_all (not_in_args k) c)"
  by (auto simp: sparse_arg_tvars_iff conj_all_def constraints_of_def arg_tvars_all[symmetric])

lemma removeUFCallConsts_run:
  assumes cs: "plain_sparse n cs"
  shows "removeUFCallConsts qinv cs k = sparse_copy qinv (map (reduced k) cs)"
proof -
  let ?s = "\<lparr>seenTupleVar = False, UFCLevel = 0, redConj = Conjunction_new 0 0, mRedConj = [], redSparseConstraints = []\<rparr>"
  have "\<exists>s'. visit_all (accept_conj (VisitorRemoveUFCallConsts k)) cs ?s = Inr (cs, s') \<and> mRedConj s' = map (reduced k) cs"
  proof (rule visit_all_same_rule[of "\<lambda>ys s'. mRedConj s' = map (reduced k) ys"])
    fix ys c and s1 :: remove_state
    assume "c \<in> set cs" "mRedConj s1 = map (reduced k) ys"
    with remove_conj[of c k s1] cs show "\<exists>s'. accept_conj (VisitorRemoveUFCallConsts k) c s1 = Inr (c, s')
      \<and> mRedConj s' = map (reduced k) (ys @ [c])" by (auto simp: plain_sparse_def)
  qed simp
  then obtain s' where s': "visit_all (accept_conj (VisitorRemoveUFCallConsts k)) cs ?s = Inr (cs, s')"
    "mRedConj s' = map (reduced k) cs" by blast
  have one: "foldl sparse_addConjunction [] (map (reduced k) cs) = map (reduced k) cs"
    using cs short_list[of cs] by (auto simp: plain_sparse_def)
  show ?thesis
    using s' one by (simp add: removeUFCallConsts_def accept_sparse_def) (simp add: VisitorRemoveUFCallConsts_def base_Visitor_def)
qed

lemma removeUFCallConsts_reduces:
  assumes none: "no_inverses qinv" and cs: "plain_sparse n cs"
  obtains cs' where "removeUFCallConsts qinv cs k = Inr cs'" "plain_sparse n cs'" "k \<notin> sparse_arg_tvars cs'"
    "\<forall>I. sparse_holds I cs' \<longleftrightarrow> (\<exists>c \<in> set cs. conj_holds I (reduced k c))"
    "\<forall>j. j \<notin> sparse_arg_tvars cs \<longrightarrow> j \<notin> sparse_arg_tvars cs'"
proof -
  have r: "removeUFCallConsts qinv cs k = sparse_copy qinv (map (reduced k) cs)" by (rule removeUFCallConsts_run[OF cs])
  have "plain_sparse n (map (reduced k) cs)" using cs by (auto simp: plain_sparse_def reduced_plain)
  then obtain cs' where cs': "sparse_copy qinv (map (reduced k) cs) = Inr cs'" "plain_sparse n cs'"
    "\<forall>I. sparse_holds I cs' \<longleftrightarrow> sparse_holds I (map (reduced k) cs)"
    and from_reduced: "\<forall>c' \<in> set cs'. \<exists>c \<in> set (map (reduced k) cs). cleanUp qinv c = Inr c' \<and> plain_conj c"
    by (rule sparse_copy_plain[OF none])
  note keep = not_in_args.copy_keeps[OF none from_reduced]
  show thesis
  proof (rule that[of cs'])
    show "removeUFCallConsts qinv cs k = Inr cs'" using r cs'(1) by simp
    show "k \<notin> sparse_arg_tvars cs'"
      using keep[of k] cs reduced_plain(3) by (simp add: sparse_args_all plain_sparse_def)
    show "\<forall>j. j \<notin> sparse_arg_tvars cs \<longrightarrow> j \<notin> sparse_arg_tvars cs'"
      using keep cs reduced_plain(5) by (simp add: sparse_args_all plain_sparse_def)
    show "\<forall>I. sparse_holds I cs' \<longleftrightarrow> (\<exists>c \<in> set cs. conj_holds I (reduced k c))"
      using cs'(3) by (simp add: sparse_holds_def)
  qed (rule cs'(2))
qed

subsection \<open>The heuristic\<close>

text \<open>With a constraint removed more points are left.\<close>

lemma reduced_weaker: "plain_conj c \<Longrightarrow> conj_holds I c \<Longrightarrow> conj_holds I (reduced k c)"
  by (simp add: reduced_plain(4)) (auto simp: conj_holds_def)

lemma reduced_same:
  assumes "plain_conj c" "\<forall>e \<in> set (constraints_of c). k \<notin> arg_tvars e"
  shows "conj_holds I (reduced k c) \<longleftrightarrow> conj_holds I c"
  using assms(2) unfolding reduced_plain(4)[OF assms(1)] by (auto simp: conj_holds_def constraints_of_def)

text \<open>One step: a variable that costs more than is left changes nothing; otherwise it is in no argument.\<close>

lemma remove_expensive_step_cases:
  assumes none: "no_inverses qinv" and cs: "plain_sparse n cs" and i: "i \<notin> set parallelTvs"
  obtains (skip) "remove_expensive_step qinv parallelTvs ignore (cs, m) i = Inr (cs, m)"
      "m < int (length (filter (counts (int i) ignore) (concat (map constraints_of cs))))"
    | (remove) cs' m' where "remove_expensive_step qinv parallelTvs ignore (cs, m) i = Inr (cs', m')" "plain_sparse n cs'"
      "m' = m - int (length (filter (counts (int i) ignore) (concat (map constraints_of cs))))" "0 \<le> m'"
      "int i \<notin> sparse_arg_tvars cs'" "\<forall>j. j \<notin> sparse_arg_tvars cs \<longrightarrow> j \<notin> sparse_arg_tvars cs'"
      "\<forall>I. sparse_holds I cs' \<longleftrightarrow> (\<exists>c \<in> set cs. conj_holds I (reduced (int i) c))"
proof -
  let ?n = "int (length (filter (counts (int i) ignore) (concat (map constraints_of cs))))"
  have num: "numUFCallConstsMustRemove cs (int i) ignore = Inr ?n"
    by (rule numUFCallConstsMustRemove_counts[OF plain_kinds[OF cs]])
  show thesis
  proof (cases "?n > m")
    case True
    then show thesis using skip i num by (simp add: remove_expensive_step_def)
  next
    case False
    obtain cs' where cs': "removeUFCallConsts qinv cs (int i) = Inr cs'" "plain_sparse n cs'" "int i \<notin> sparse_arg_tvars cs'"
      "\<forall>I. sparse_holds I cs' \<longleftrightarrow> (\<exists>c \<in> set cs. conj_holds I (reduced (int i) c))"
      "\<forall>j. j \<notin> sparse_arg_tvars cs \<longrightarrow> j \<notin> sparse_arg_tvars cs'"
      by (rule removeUFCallConsts_reduces[OF none cs, where k = "int i"])
    have "remove_expensive_step qinv parallelTvs ignore (cs, m) i = Inr (cs', m - ?n)"
      using False i num cs'(1) by (simp add: remove_expensive_step_def)
    then show thesis using remove[OF _ cs'(2) refl] False cs'(3-5) by auto
  qed
qed

lemma remove_expensive_loop:
  assumes none: "no_inverses qinv"
  shows "plain_sparse n cs \<Longrightarrow> \<exists>cs' m'. fold_result (remove_expensive_step qinv parallelTvs ignore) (cs, m) is = Inr (cs', m') \<and>
    plain_sparse n cs' \<and> m' \<le> m \<and> (0 \<le> m \<longrightarrow> 0 \<le> m') \<and> (\<forall>I. sparse_holds I cs \<longrightarrow> sparse_holds I cs') \<and>
    (\<forall>j. j \<notin> sparse_arg_tvars cs \<longrightarrow> j \<notin> sparse_arg_tvars cs') \<and>
    (m = 0 \<and> ignore = [] \<longrightarrow> (\<forall>I. sparse_holds I cs' \<longrightarrow> sparse_holds I cs))"
proof (induction "is" arbitrary: cs m)
  case (Cons i "is")
  show ?case
  proof (cases "i \<in> set parallelTvs")
    case True
    then have "remove_expensive_step qinv parallelTvs ignore (cs, m) i = Inr (cs, m)"
      by (simp add: remove_expensive_step_def)
    with Cons show ?thesis by simp
  next
    case False
    from none Cons.prems False show ?thesis
    proof (cases rule: remove_expensive_step_cases[of qinv n cs i parallelTvs ignore m])
      case skip
      with Cons show ?thesis by simp
    next
      case (remove cs1 m1)
      from Cons.IH[OF remove(2), of m1] obtain cs' m' where r:
        "fold_result (remove_expensive_step qinv parallelTvs ignore) (cs1, m1) is = Inr (cs', m')" "plain_sparse n cs'"
        "m' \<le> m1" "0 \<le> m1 \<longrightarrow> 0 \<le> m'" "\<forall>I. sparse_holds I cs1 \<longrightarrow> sparse_holds I cs'"
        "\<forall>j. j \<notin> sparse_arg_tvars cs1 \<longrightarrow> j \<notin> sparse_arg_tvars cs'"
        "m1 = 0 \<and> ignore = [] \<longrightarrow> (\<forall>I. sparse_holds I cs' \<longrightarrow> sparse_holds I cs1)" by blast
      have plain: "plain_conj c" if "c \<in> set cs" for c using that Cons.prems by (simp add: plain_sparse_def)
      have up: "sparse_holds I cs \<longrightarrow> sparse_holds I cs1" for I
        using remove(7)[rule_format, of I] plain reduced_weaker unfolding sparse_holds_def by blast
      have down: "sparse_holds I cs1 \<longrightarrow> sparse_holds I cs" if "m = 0" "ignore = []" for I
      proof -
        have "length (filter (counts (int i) ignore) (concat (map constraints_of cs))) = 0" using that(1) remove(3,4) by simp
        then have "\<forall>c \<in> set cs. \<forall>e \<in> set (constraints_of c). int i \<notin> arg_tvars e"
          using that(2) by (auto simp: filter_empty_conv)
        then show ?thesis using remove(7)[rule_format, of I] plain reduced_same unfolding sparse_holds_def by blast
      qed
      have m: "m1 \<le> m" "0 \<le> m1" "m = 0 \<Longrightarrow> m1 = 0" using remove(3,4) by linarith+
      have "fold_result (remove_expensive_step qinv parallelTvs ignore) (cs, m) (i # is) = Inr (cs', m')"
        using r(1) remove(1) by simp
      moreover have "m' \<le> m" "0 \<le> m'" using m r(3,4) by simp_all
      moreover have "\<forall>I. sparse_holds I cs \<longrightarrow> sparse_holds I cs'" using up r(5) by blast
      moreover have "\<forall>j. j \<notin> sparse_arg_tvars cs \<longrightarrow> j \<notin> sparse_arg_tvars cs'" using remove(6) r(6) by blast
      moreover have "m = 0 \<and> ignore = [] \<longrightarrow> (\<forall>I. sparse_holds I cs' \<longrightarrow> sparse_holds I cs)"
        using m(3) r(7) down by blast
      ultimately show ?thesis using r(2) by blast
    qed
  qed
qed simp

subsection \<open>The budget\<close>

text \<open>
  Constraints that cleaning up leaves as they are: sorted, not trivial, in their form and collapsed. Their sum of removals can
  be counted on the original set.
\<close>

definition tidy :: "(exp \<Rightarrow> exp result) \<Rightarrow> (exp \<Rightarrow> exp) \<Rightarrow> exp list \<Rightarrow> bool" where
  "tidy f g es \<longleftrightarrow> sorted_wrt exp_less es \<and>
     list_all (\<lambda>e. \<not> equalsZero e \<and> g e = e \<and> (case f e of Inr d \<Rightarrow> g d = e | Inl _ \<Rightarrow> False)) es"

definition tidy_conj :: "(string \<Rightarrow> string) \<Rightarrow> conjunction \<Rightarrow> bool" where
  "tidy_conj qinv c \<longleftrightarrow> \<not> unsat c \<and> satisfiable c \<and> tidy (\<lambda>e. collapse_exp qinv (normalizeForEquality e)) equality_form (mEqualities c) \<and>
     tidy (collapse_exp qinv) setInequality (mInequalities c)"

definition keep_conj :: "int set \<Rightarrow> conjunction \<Rightarrow> conjunction" where
  "keep_conj R c = c\<lparr>mEqualities := filter (\<lambda>e. arg_tvars e \<inter> R = {}) (mEqualities c),
     mInequalities := filter (\<lambda>e. arg_tvars e \<inter> R = {}) (mInequalities c)\<rparr>"

definition lost :: "exp list \<Rightarrow> conjunction \<Rightarrow> int set \<Rightarrow> int" where
  "lost ignore c R = int (length (filter (\<lambda>e. arg_tvars e \<inter> R \<noteq> {} \<and> \<not> list_ex (exp_eq e) ignore) (constraints_of c)))"

lemma keep_conj_simps [simp]: "mTupleDecl (keep_conj R c) = mTupleDecl c" "mInArity (keep_conj R c) = mInArity c"
  "conj_arity (keep_conj R c) = conj_arity c"
  by (simp_all add: keep_conj_def conj_arity_def)

lemma keep_conj_empty: "keep_conj {} c = c"
  by (simp add: keep_conj_def)

lemma keep_conj_insert: "keep_conj {k} (keep_conj R c) = keep_conj (insert k R) c"
  by (simp add: keep_conj_def conj_commute Int_insert_right)

lemma tidy_filter: "tidy f g es \<Longrightarrow> tidy f g (filter P es)"
  by (auto simp: tidy_def list_all_iff sorted_wrt_filter)

lemma tidy_keep: "tidy_conj qinv c \<Longrightarrow> tidy_conj qinv (keep_conj R c)"
  by (auto simp: tidy_conj_def keep_conj_def tidy_filter satisfiable_def list_ex_iff)

lemma insert_last: "sorted_wrt exp_less (xs @ [x]) \<Longrightarrow> insert_unique exp_less x xs = xs @ [x]"
proof (induction xs)
  case (Cons y xs)
  then have "exp_less y x" by simp
  then have "\<not> exp_less x y" "\<not> incomparable exp_less x y" by (auto simp: incomparable_def exp_order.lt_key)
  with Cons show ?case by simp
qed simp

lemma foldl_insert_sorted: "sorted_wrt exp_less es \<Longrightarrow> foldl (\<lambda>es e. insert_unique exp_less e es) [] es = es"
proof (induction es rule: rev_induct)
  case (snoc e es)
  then have "sorted_wrt exp_less es" by (simp add: sorted_wrt_append)
  with snoc insert_last[OF snoc.prems] show ?case by simp
qed simp

lemma tidy_run:
  assumes "tidy f g es"
  obtains ds where "map_result f es = Inr ds" "map g ds = es"
    "foldl (\<lambda>es e. insert_unique exp_less (g e) es) [] (filter (\<lambda>d. \<not> equalsZero (g d)) ds) = es"
    "foldl (\<lambda>es e. insert_unique exp_less (g e) es) [] (filter (\<lambda>d. \<not> equalsZero (g d)) es) = es"
    "filter (\<lambda>d. \<not> equalsZero d) es = es"
proof -
  have ok: "list_all (\<lambda>e. case f e of Inr d \<Rightarrow> g d = e | Inl _ \<Rightarrow> False) es" and g: "map g es = es" and nz: "\<forall>e \<in> set es. \<not> equalsZero e"
    using assms by (auto simp: tidy_def list_all_iff intro: map_idI)
  have "\<exists>ds. map_result f es = Inr ds \<and> map g ds = es" using ok by (induction es) (auto split: sum.splits)
  then obtain ds where ds: "map_result f es = Inr ds" "map g ds = es" by blast
  have fold: "foldl (\<lambda>es e. insert_unique exp_less (g e) es) [] (filter (\<lambda>d. \<not> equalsZero (g d)) xs) = es" if "map g xs = es" for xs
  proof -
    have "foldl (\<lambda>es e. insert_unique exp_less (g e) es) a ys = foldl (\<lambda>es e. insert_unique exp_less e es) a (map g ys)" for a ys
      by (induction ys arbitrary: a) simp_all
    moreover have "\<forall>x \<in> set xs. g x \<in> set es" using that by auto
    then have "filter (\<lambda>d. \<not> equalsZero (g d)) xs = xs" using nz by (simp add: filter_id_conv)
    ultimately show ?thesis using foldl_insert_sorted[of es] assms that by (simp add: tidy_def)
  qed
  have "filter (\<lambda>d. \<not> equalsZero d) es = es" using nz by (simp add: filter_id_conv)
  then show thesis by (rule that[OF ds fold[OF ds(2)] fold[OF g]])
qed

lemma cleanUp_tidy: "tidy_conj qinv c \<Longrightarrow> cleanUp qinv c = Inr c"
proof -
  assume t: "tidy_conj qinv c"
  obtain ds where e: "map_result (\<lambda>e. collapse_exp qinv (normalizeForEquality e)) (mEqualities c) = Inr ds"
    "foldl (\<lambda>es e. insert_unique exp_less (equality_form e) es) [] (filter (\<lambda>d. \<not> equalsZero (equality_form d)) ds) = mEqualities c"
    by (rule tidy_run[of "\<lambda>e. collapse_exp qinv (normalizeForEquality e)" equality_form "mEqualities c"])
      (use t in \<open>simp_all add: tidy_conj_def\<close>)
  obtain ds' where i: "map_result (collapse_exp qinv) (mInequalities c) = Inr ds'"
    "foldl (\<lambda>es e. insert_unique exp_less (setInequality e) es) [] (filter (\<lambda>d. \<not> equalsZero (setInequality d)) ds') = mInequalities c"
    by (rule tidy_run[of "collapse_exp qinv" setInequality "mInequalities c"]) (use t in \<open>simp_all add: tidy_conj_def\<close>)
  show ?thesis by (simp add: cleanUp_def Let_def e i fold_equalities fold_inequalities)
qed

lemma reduced_tidy: "tidy_conj qinv c \<Longrightarrow> reduced k c = keep_conj {k} c"
proof -
  assume t: "tidy_conj qinv c"
  then have "tidy_conj qinv (keep_conj {k} c)" by (rule tidy_keep)
  then have t': "tidy (\<lambda>e. collapse_exp qinv (normalizeForEquality e)) equality_form (filter (\<lambda>e. k \<notin> arg_tvars e) (mEqualities c))"
    "tidy (collapse_exp qinv) setInequality (filter (\<lambda>e. k \<notin> arg_tvars e) (mInequalities c))"
    by (simp_all add: tidy_conj_def keep_conj_def)
  have eq: "foldl addEquality c0 (filter (\<lambda>e. k \<notin> arg_tvars e) (mEqualities c)) = c0\<lparr>mEqualities := filter (\<lambda>e. k \<notin> arg_tvars e) (mEqualities c)\<rparr>"
    if "mEqualities c0 = []" for c0
    by (rule tidy_run[OF t'(1)]) (metis fold_equalities that)
  have ineq: "foldl addInequality c0 (filter (\<lambda>e. k \<notin> arg_tvars e) (mInequalities c)) = c0\<lparr>mInequalities := filter (\<lambda>e. k \<notin> arg_tvars e) (mInequalities c)\<rparr>"
    if "mInequalities c0 = []" for c0
    by (rule tidy_run[OF t'(2)]) (metis fold_inequalities that)
  have "reduced k c = ((Conjunction_of (mTupleDecl c))\<lparr>mInArity := mInArity c\<rparr>)
      \<lparr>mEqualities := filter (\<lambda>e. k \<notin> arg_tvars e) (mEqualities c), mInequalities := filter (\<lambda>e. k \<notin> arg_tvars e) (mInequalities c)\<rparr>"
    by (simp add: reduced_def build_conj_def eq ineq Conjunction_of_def)
  then show ?thesis using t by (simp add: keep_conj_def Conjunction_of_def tidy_conj_def)
qed

lemma removeUFCallConsts_tidy:
  assumes c: "plain_conj c" "tidy_conj qinv c"
  shows "removeUFCallConsts qinv [c] k = Inr [keep_conj {k} c]"
proof -
  have "plain_sparse (conj_arity c) [c]" using c(1) by (simp add: plain_sparse_def)
  from removeUFCallConsts_run[OF this, of qinv k] show ?thesis
    using cleanUp_tidy[OF tidy_keep[OF c(2)]] tidy_keep[OF c(2), of "{k}"]
    by (simp add: tidy_conj_def reduced_tidy[OF c(2)] sparse_copy_def sparse_cleanUp_def)
qed

lemma plain_keep: "plain_conj c \<Longrightarrow> plain_conj (keep_conj R c)"
  by (auto simp: plain_conj_exps) (auto simp: keep_conj_def)

lemma lost_insert:
  "lost ignore c (insert k R) = lost ignore c R + int (length (filter (counts k ignore) (constraints_of (keep_conj R c))))"
proof -
  have "length (filter (\<lambda>e. arg_tvars e \<inter> insert k R \<noteq> {} \<and> P e) es) = length (filter (\<lambda>e. arg_tvars e \<inter> R \<noteq> {} \<and> P e) es) +
      length (filter (\<lambda>e. k \<in> arg_tvars e \<and> P e) (filter (\<lambda>e. arg_tvars e \<inter> R = {}) es))" for es :: "exp list" and P
    by (induction es) auto
  then show ?thesis by (simp add: lost_def constraints_of_def keep_conj_def)
qed

text \<open>The variables that are removed, from the last one down.\<close>

lemma remove_expensive_run:
  assumes c: "plain_conj c" "tidy_conj qinv c"
  shows "R \<subseteq> {int k..} \<Longrightarrow> R = {} \<or> lost ignore c R \<le> m \<Longrightarrow>
    \<exists>R'. fold_result (remove_expensive_step qinv parallelTvs ignore) ([keep_conj R c], m - lost ignore c R) (rev [0..<k]) =
        Inr ([keep_conj R' c], m - lost ignore c R') \<and>
      R \<subseteq> R' \<and> R' - R \<subseteq> int ` ({0..<k} - set parallelTvs) \<and> (R' = {} \<or> lost ignore c R' \<le> m) \<and>
      (\<forall>i < k. i \<notin> set parallelTvs \<longrightarrow> int i \<notin> R' \<longrightarrow> m < lost ignore c (insert (int i) {j \<in> R'. int i < j}))"
proof (induction k arbitrary: R)
  case 0
  then show ?case by (intro exI[of _ R]) simp
next
  case (Suc k)
  let ?step = "remove_expensive_step qinv parallelTvs ignore" and ?st = "([keep_conj R c], m - lost ignore c R)"
  let ?n = "int (length (filter (counts (int k) ignore) (constraints_of (keep_conj R c))))"
  have kinds: "sparse_kinds [keep_conj R c]" using plain_keep[OF c(1), of R] by (simp add: sparse_kinds_def plain_conj_def)
  have num: "numUFCallConstsMustRemove [keep_conj R c] (int k) ignore = Inr ?n"
    using numUFCallConstsMustRemove_counts[OF kinds] by simp
  have R: "R \<subseteq> {int k..}" "int k \<notin> R" using Suc.prems(1) by auto
  show ?case
  proof (cases "k \<notin> set parallelTvs \<and> lost ignore c (insert (int k) R) \<le> m")
    case True
    then have "?step ?st k = Inr ([keep_conj (insert (int k) R) c], m - lost ignore c (insert (int k) R))"
      using removeUFCallConsts_tidy[OF plain_keep[OF c(1)] tidy_keep[OF c(2)], of R "int k"]
      by (simp add: remove_expensive_step_def num lost_insert keep_conj_insert)
    moreover have "insert (int k) R \<subseteq> {int k..}" using R by auto
    from Suc.IH[OF this] True obtain R' where R': "fold_result ?step ([keep_conj (insert (int k) R) c], m - lost ignore c (insert (int k) R)) (rev [0..<k]) =
        Inr ([keep_conj R' c], m - lost ignore c R')" "insert (int k) R \<subseteq> R'" "R' - insert (int k) R \<subseteq> int ` ({0..<k} - set parallelTvs)"
      "R' = {} \<or> lost ignore c R' \<le> m"
      "\<forall>i < k. i \<notin> set parallelTvs \<longrightarrow> int i \<notin> R' \<longrightarrow> m < lost ignore c (insert (int i) {j \<in> R'. int i < j})" by blast
    moreover have "R' - R \<subseteq> int ` ({0..<Suc k} - set parallelTvs)" using R'(3) True by fastforce
    moreover have "\<forall>i < Suc k. i \<notin> set parallelTvs \<longrightarrow> int i \<notin> R' \<longrightarrow> m < lost ignore c (insert (int i) {j \<in> R'. int i < j})"
      using R'(2,5) by (auto simp: less_Suc_eq)
    ultimately show ?thesis by (intro exI[of _ R']) simp
  next
    case False
    then have "?step ?st k = Inr ?st"
      using lost_insert[of ignore c "int k" R] by (auto simp: remove_expensive_step_def num)
    moreover obtain R' where R': "fold_result ?step ?st (rev [0..<k]) = Inr ([keep_conj R' c], m - lost ignore c R')"
      "R \<subseteq> R'" "R' - R \<subseteq> int ` ({0..<k} - set parallelTvs)" "R' = {} \<or> lost ignore c R' \<le> m"
      "\<forall>i < k. i \<notin> set parallelTvs \<longrightarrow> int i \<notin> R' \<longrightarrow> m < lost ignore c (insert (int i) {j \<in> R'. int i < j})"
      using Suc.IH[OF R(1) Suc.prems(2)] by blast
    moreover have "R' - R \<subseteq> int ` ({0..<Suc k} - set parallelTvs)" using R'(3) by auto
    moreover have "{j \<in> R'. int k < j} = R" using R'(2,3) R Suc.prems(1) by fastforce
    then have "\<forall>i < Suc k. i \<notin> set parallelTvs \<longrightarrow> int i \<notin> R' \<longrightarrow> m < lost ignore c (insert (int i) {j \<in> R'. int i < j})"
      using R'(5) False by (auto simp: less_Suc_eq)
    ultimately show ?thesis by (intro exI[of _ R']) simp
  qed
qed

definition within_budget :: "nat \<Rightarrow> nat list \<Rightarrow> int \<Rightarrow> exp list \<Rightarrow> conjunction \<Rightarrow> int set \<Rightarrow> bool" where
  "within_budget n parallelTvs m ignore c R \<longleftrightarrow>
     R \<subseteq> int ` ({0..<n} - set parallelTvs) \<and> (R = {} \<or> lost ignore c R \<le> m) \<and>
     (\<forall>i < n. i \<notin> set parallelTvs \<longrightarrow> int i \<notin> R \<longrightarrow> m < lost ignore c (insert (int i) {j \<in> R. int i < j}))"

lemma removeExpensiveConstraints_tidy:
  assumes "plain_conj c" "tidy_conj qinv c"
  shows "\<exists>R. within_budget n parallelTvs m ignore c R \<and> removeExpensiveConstraints qinv n [c] parallelTvs m ignore = Inr [keep_conj R c]"
proof -
  have "lost ignore c {} = 0" by (simp add: lost_def)
  with remove_expensive_run[OF assms, of "{}" n ignore m parallelTvs] obtain R where
    "fold_result (remove_expensive_step qinv parallelTvs ignore) ([c], m) (rev [0..<n]) = Inr ([keep_conj R c], m - lost ignore c R)"
    "within_budget n parallelTvs m ignore c R" by (auto simp: keep_conj_empty within_budget_def)
  then show ?thesis by (intro exI[of _ R]) (simp add: removeExpensiveConstraints_def)
qed

section \<open>Properties\<close>

text \<open>\<open>isUFCallParam\<close> never throws; a variable it reports is in an argument of a call, and when calls are
  nested at most two deep it reports every such variable.\<close>

lemma isUFCallParam_correct:
  assumes "sparse_kinds cs"
  shows "\<exists>r. isUFCallParam cs k = Inr r \<and> (r \<longrightarrow> k \<in> sparse_arg_tvars cs) \<and>
    (nested_at_most 2 cs \<longrightarrow> (r \<longleftrightarrow> k \<in> sparse_arg_tvars cs))"
proof -
  obtain r where "isUFCallParam cs k = Inr r" "r \<longrightarrow> k \<in> sparse_arg_tvars cs"
    "nested_at_most 2 cs \<Longrightarrow> r \<longleftrightarrow> k \<in> sparse_arg_tvars cs" by (rule isUFCallParam_found[OF assms]) blast
  then show ?thesis by blast
qed

text \<open>C30: For a set of at most one conjunction as the library builds it and without declared inverses,
  \<open>removeExpensiveConstraints\<close> returns. It only drops constraints, so no point is lost; it brings no variable into an
  argument; with budget 0 and nothing to ignore it keeps the points. Where cleaning up leaves the constraints as they are
  (\<open>tidy_conj\<close>) the result is the conjunction without the constraints in which a removed variable is in an argument: the
  removed variables are not parallel, the number of constraints lost for them, those to ignore not counted, is within the
  budget, and every other variable that is not parallel would exceed it with the removed ones behind it.\<close>

theorem removeExpensiveConstraints_superset:
  assumes "no_inverses qinv" "plain_sparse n cs"
  shows "\<exists>cs'. removeExpensiveConstraints qinv n cs parallelTvs m ignore = Inr cs' \<and> plain_sparse n cs' \<and>
    (\<forall>I. sparse_holds I cs \<longrightarrow> sparse_holds I cs') \<and>
    (\<forall>j. j \<notin> sparse_arg_tvars cs \<longrightarrow> j \<notin> sparse_arg_tvars cs') \<and>
    (m = 0 \<and> ignore = [] \<longrightarrow> (\<forall>I. sparse_holds I cs' \<longleftrightarrow> sparse_holds I cs)) \<and>
    (\<forall>c. cs = [c] \<and> tidy_conj qinv c \<longrightarrow> (\<exists>R. within_budget n parallelTvs m ignore c R \<and> cs' = [keep_conj R c]))"
proof -
  obtain cs' m' where r: "fold_result (remove_expensive_step qinv parallelTvs ignore) (cs, m) (rev [0..<n]) = Inr (cs', m')"
    "plain_sparse n cs'" "\<forall>I. sparse_holds I cs \<longrightarrow> sparse_holds I cs'" "\<forall>j. j \<notin> sparse_arg_tvars cs \<longrightarrow> j \<notin> sparse_arg_tvars cs'"
    "m = 0 \<and> ignore = [] \<longrightarrow> (\<forall>I. sparse_holds I cs' \<longrightarrow> sparse_holds I cs)"
    using remove_expensive_loop[OF assms, of parallelTvs ignore m "rev [0..<n]"] by blast
  then have run: "removeExpensiveConstraints qinv n cs parallelTvs m ignore = Inr cs'" by (simp add: removeExpensiveConstraints_def)
  have "\<exists>R. within_budget n parallelTvs m ignore c R \<and> cs' = [keep_conj R c]" if c: "cs = [c]" "tidy_conj qinv c" for c
  proof -
    have "plain_conj c" using assms(2) c(1) by (simp add: plain_sparse_def)
    from removeExpensiveConstraints_tidy[OF this c(2), of n parallelTvs m ignore] run show ?thesis by (auto simp: c(1))
  qed
  then show ?thesis using run r(2-5) by blast
qed

lemma deep_call_plain: "plain_sparse 2 [deep_call]"
  by code_simp

lemma deep_call_tidy: "tidy_conj (\<lambda>f. '''') deep_call"
  by code_simp

theorem removeExpensiveConstraints_superset_witness:
  "\<exists>R cs'. removeExpensiveConstraints (\<lambda>f. '''') 2 [deep_call] [1] 3 [] = Inr cs' \<and> cs' = [keep_conj R deep_call] \<and>
    within_budget 2 [1] 3 [] deep_call R"
proof -
  have "no_inverses (\<lambda>f. '''')" by (simp add: no_inverses_def)
  from removeExpensiveConstraints_superset[OF this deep_call_plain, of "[1]" 3 "[]"] deep_call_tidy show ?thesis by blast
qed

end
