(* ===== verification/ISL_Strings.thy ===== *)
theory ISL_Strings
  imports TupleDecl
begin

text \<open>
  The functions on the text of sets and relations in \<open>IEGenLib/src/set_relation/isl_str_manipulation.cc\<close>.
  The library isl renames tuple variables that an equality determines; these functions put the declared
  variables back, remove a variable, and turn sets into relations and back, all on the text. Positions are of
  type \<open>int\<close> in the source: \<open>npos\<close> becomes -1, and a negative length becomes a huge one, so that \<open>substr\<close>
  returns the rest.
\<close>

section \<open>Strings of C++\<close>

fun index_from :: "char \<Rightarrow> nat \<Rightarrow> string \<Rightarrow> int" where
  "index_from c n [] = -1"
| "index_from c n (x # xs) = (if x = c then int n else index_from c (Suc n) xs)"

definition find_first_of :: "string \<Rightarrow> char \<Rightarrow> int \<Rightarrow> int" where
  "find_first_of s c pos = (if pos < 0 then -1 else index_from c (nat pos) (drop (nat pos) s))"

definition substr :: "string \<Rightarrow> int \<Rightarrow> int \<Rightarrow> string result" where
  "substr s pos n =
     (if pos < 0 \<or> int (length s) < pos then Inl (Out_of_range ''basic_string::substr'')
      else Inr (if n < 0 then drop (nat pos) s else take (nat n) (drop (nat pos) s)))"

section \<open>The functions\<close>

definition trim :: "string \<Rightarrow> string" where
  "trim s = rev (dropWhile is_space (rev (dropWhile is_space s)))"

text \<open>The inner loop of \<open>tupVarsExtract\<close>, and one round of the outer loop.\<close>

fun extract_vars :: "string \<Rightarrow> nat \<Rightarrow> int \<Rightarrow> string list result" where
  "extract_vars str 0 tst = Inr []"
| "extract_vars str (Suc n) tst =
     (let tend = find_first_of str (CHR '','') tst in
      bind_result (substr str tst (tend - tst)) (\<lambda>v.
      bind_result (extract_vars str n (tend + 1)) (\<lambda>vs. Inr (trim v # vs))))"

definition extract_part :: "string \<Rightarrow> nat \<Rightarrow> int \<Rightarrow> (string list \<times> int) result" where
  "extract_part tupDecl arity st0 =
     (let st = find_first_of tupDecl (CHR ''['') st0; end' = find_first_of tupDecl (CHR '']'') st in
      bind_result (substr tupDecl (st + 1) (end' - st - 1)) (\<lambda>str.
      bind_result (extract_vars str arity 0) (\<lambda>vs. Inr (vs, end' + 1))))"

definition tupVarsExtract :: "string \<Rightarrow> nat \<Rightarrow> nat \<Rightarrow> string list result" where
  "tupVarsExtract tupDecl inArity outArity =
     (if outArity \<noteq> 0 then
        bind_result (extract_part tupDecl inArity 0) (\<lambda>(ins, st).
        bind_result (extract_part tupDecl outArity st) (\<lambda>(outs, st). Inr (ins @ outs)))
      else bind_result (extract_part tupDecl (inArity + outArity) 0) (\<lambda>(ins, st). Inr ins))"

text \<open>The loop of \<open>missingEqs\<close> over the two queues, with \<open>firstEq\<close>.\<close>

fun missing_loop :: "bool \<Rightarrow> (string \<times> string) list \<Rightarrow> string" where
  "missing_loop firstEq [] = ''''"
| "missing_loop firstEq ((orig, isl_var) # qs) =
     (if orig \<noteq> isl_var then
        (if firstEq then '' '' @ orig @ '' = '' @ isl_var else '' and '' @ orig @ '' = '' @ isl_var) @ missing_loop False qs
      else missing_loop firstEq qs)"

definition missingEqs :: "string \<Rightarrow> string \<Rightarrow> nat \<Rightarrow> nat \<Rightarrow> string result" where
  "missingEqs origTupDecl islTupDecl inArity outArity =
     bind_result (tupVarsExtract origTupDecl inArity outArity) (\<lambda>origTupVars.
     bind_result (tupVarsExtract islTupDecl inArity outArity) (\<lambda>islTupVars.
       Inr (missing_loop True (zip origTupVars islTupVars))))"

record srParts =
  symVars :: string
  sC :: string
  tupDecl :: string
  sepC :: string
  constraints :: string
  eC :: string

definition srParts_new :: srParts where
  "srParts_new = \<lparr>symVars = '''', sC = ''{'', tupDecl = '''', sepC = '':'', constraints = '''', eC = ''}''\<rparr>"

definition getPartsFromStr :: "string \<Rightarrow> srParts result" where
  "getPartsFromStr str =
     (let l1 = find_first_of str (CHR ''{'') 0; l2 = find_first_of str (CHR '':'') l1 in
      if l2 < 0 then
        bind_result (substr str 0 (l1 - 0)) (\<lambda>sv.
        let l3 = find_first_of str (CHR ''}'') l1 in
        bind_result (substr str (l1 + 1) (l3 - (l1 + 1) - 1)) (\<lambda>td.
          Inr (srParts_new\<lparr>symVars := sv, tupDecl := td, constraints := ''''\<rparr>)))
      else
        let l3 = find_first_of str (CHR ''}'') l2 in
        bind_result (substr str 0 (l1 - 0)) (\<lambda>sv.
        bind_result (substr str (l1 + 1) (l2 - (l1 + 1))) (\<lambda>td.
        bind_result (substr str (l2 + 1) (l3 - (l2 + 1))) (\<lambda>cs.
          Inr (srParts_new\<lparr>symVars := sv, tupDecl := td, constraints := cs\<rparr>)))))"

definition revertISLTupDeclToOrig :: "string \<Rightarrow> string \<Rightarrow> nat \<Rightarrow> nat \<Rightarrow> string result" where
  "revertISLTupDeclToOrig origStr islStr inArity outArity =
     bind_result (getPartsFromStr origStr) (\<lambda>origParts.
     bind_result (getPartsFromStr islStr) (\<lambda>islParts.
     bind_result (missingEqs (tupDecl origParts) (tupDecl islParts) inArity outArity) (\<lambda>eqsStr.
       Inr (if length (constraints islParts) = 0 then
              symVars islParts @ sC islParts @ tupDecl origParts @ sepC islParts @ eqsStr @ eC islParts
            else if length eqsStr = 0 then
              symVars islParts @ sC islParts @ tupDecl origParts @ sepC islParts @ constraints islParts @ eC islParts
            else
              symVars islParts @ sC islParts @ tupDecl origParts @ sepC islParts @ constraints islParts @
              '' and '' @ eqsStr @ eC islParts))))"

text \<open>One round of the loop of \<open>projectOutStrCorrection\<close>.\<close>

definition project_round :: "int \<Rightarrow> int \<Rightarrow> int \<Rightarrow> int \<Rightarrow> string \<Rightarrow> string" where
  "project_round poTv inArity outArity i orig =
     (let arity = inArity + outArity in
      (if i = inArity \<and> outArity \<noteq> 0 then ''] -> ['' else '''') @
      (if i \<noteq> poTv then
         orig @
         (if i \<noteq> arity - 1 \<and> i \<noteq> inArity - 1 \<and>
             \<not> ((i = arity - 2 \<and> poTv = arity - 1) \<or> (i = inArity - 2 \<and> poTv = inArity - 1))
          then '', '' else '''')
       else ''''))"

definition projectOutStrCorrection :: "string \<Rightarrow> int \<Rightarrow> nat \<Rightarrow> nat \<Rightarrow> string result" where
  "projectOutStrCorrection str poTv inArity outArity =
     bind_result (getPartsFromStr str) (\<lambda>parts.
     bind_result (tupVarsExtract (tupDecl parts) inArity outArity) (\<lambda>origTupVars.
       let newTupDecl = ''['' @
             concat (map (\<lambda>(i, orig). project_round poTv (int inArity) (int outArity) (int i) orig)
               (zip [0..<inArity + outArity] origTupVars)) @ ''] ''
       in Inr (if length (constraints parts) = 0 then symVars parts @ sC parts @ newTupDecl @ eC parts
               else symVars parts @ sC parts @ newTupDecl @ sepC parts @ constraints parts @ eC parts)))"

definition getFullStrFromParts :: "srParts \<Rightarrow> string" where
  "getFullStrFromParts parts =
     (if symVars parts \<noteq> '''' then symVars parts @ '' -> '' else '''') @
     sC parts @ tupDecl parts @ sepC parts @ constraints parts @ eC parts"

definition setStr2RelationStr :: "string \<Rightarrow> nat \<Rightarrow> nat \<Rightarrow> string result" where
  "setStr2RelationStr set_str inArity outArity =
     bind_result (getPartsFromStr set_str) (\<lambda>setParts.
     bind_result (tupVarsExtract (tupDecl setParts) (inArity + outArity) 0) (\<lambda>iters.
       let newTupDecl = ''['' @
             concat (map (\<lambda>(i, iter). (if i = inArity then ''] -> ['' else if i \<noteq> 0 then '','' else '''') @ iter)
               (zip [0..<inArity + outArity] iters)) @ '']''
       in Inr (getFullStrFromParts (setParts\<lparr>tupDecl := newTupDecl\<rparr>))))"

definition relationStr2SetStr :: "string \<Rightarrow> nat \<Rightarrow> nat \<Rightarrow> string result" where
  "relationStr2SetStr relation_str inArity outArity =
     bind_result (getPartsFromStr relation_str) (\<lambda>relationParts.
     bind_result (tupVarsExtract (tupDecl relationParts) inArity outArity) (\<lambda>iters.
       let newTupDecl = ''['' @
             concat (map (\<lambda>(i, iter). (if i \<noteq> 0 then '','' else '''') @ iter) (zip [0..<inArity + outArity] iters)) @ '']''
       in Inr (getFullStrFromParts (relationParts\<lparr>tupDecl := newTupDecl\<rparr>))))"

definition strAddConstraints :: "string \<Rightarrow> string \<Rightarrow> string result" where
  "strAddConstraints dest src =
     bind_result (getPartsFromStr dest) (\<lambda>destParts.
     bind_result (getPartsFromStr src) (\<lambda>srcParts.
       Inr (getFullStrFromParts (destParts\<lparr>constraints := constraints srcParts @ '' && '' @ constraints destParts\<rparr>))))"

section \<open>Finding and cutting\<close>

lemma index_from_found: "c \<notin> set xs \<Longrightarrow> index_from c n (xs @ c # ys) = int (n + length xs)"
  by (induction xs arbitrary: n) auto

lemma index_from_none: "c \<notin> set xs \<Longrightarrow> index_from c n xs = -1"
  by (induction xs arbitrary: n) auto

lemma find_at:
  "pos = int (length pre) \<Longrightarrow> c \<notin> set mid \<Longrightarrow> find_first_of (pre @ mid @ c # post) c pos = int (length pre) + int (length mid)"
  by (simp add: find_first_of_def index_from_found)

lemma find_none: "pos = int (length pre) \<Longrightarrow> c \<notin> set post \<Longrightarrow> find_first_of (pre @ post) c pos = -1"
  by (simp add: find_first_of_def index_from_none)

lemma substr_mid: "pos = int (length pre) \<Longrightarrow> n = int (length mid) \<Longrightarrow> substr (pre @ mid @ post) pos n = Inr mid"
  by (simp add: substr_def)

lemma substr_rest: "pos = int (length pre) \<Longrightarrow> n < 0 \<Longrightarrow> substr (pre @ post) pos n = Inr post"
  by (simp add: substr_def)

section \<open>The parts of a text\<close>

text \<open>A set or relation in text: symbols, declaration, constraints.\<close>

definition parts_text :: "string \<Rightarrow> string \<Rightarrow> string \<Rightarrow> string" where
  "parts_text sv td cs = sv @ ''{'' @ td @ '':'' @ cs @ ''}''"

lemma getParts_text:
  assumes "CHR ''{'' \<notin> set sv" "CHR '':'' \<notin> set td" "CHR ''}'' \<notin> set cs"
  shows "getPartsFromStr (parts_text sv td cs @ rest) = Inr (srParts_new\<lparr>symVars := sv, tupDecl := td, constraints := cs\<rparr>)"
proof -
  let ?s = "parts_text sv td cs @ rest"
  have s1: "?s = [] @ sv @ CHR ''{'' # td @ CHR '':'' # cs @ CHR ''}'' # rest"
    and s2: "?s = sv @ (CHR ''{'' # td) @ CHR '':'' # cs @ CHR ''}'' # rest"
    and s3: "?s = (sv @ CHR ''{'' # td) @ (CHR '':'' # cs) @ CHR ''}'' # rest"
    and s4: "?s = (sv @ ''{'') @ td @ CHR '':'' # cs @ CHR ''}'' # rest"
    and s5: "?s = (sv @ CHR ''{'' # td @ '':'') @ cs @ CHR ''}'' # rest" by (simp_all add: parts_text_def)
  have l1: "find_first_of ?s (CHR ''{'') 0 = int (length sv)" unfolding s1 by (subst find_at) (use assms in simp_all)
  have l2: "find_first_of ?s (CHR '':'') (int (length sv)) = int (length sv) + int (length td) + 1"
    unfolding s2 by (subst find_at) (use assms in simp_all)
  have l3: "find_first_of ?s (CHR ''}'') (int (length sv) + int (length td) + 1) = int (length sv) + int (length td) + int (length cs) + 2"
    unfolding s3 by (subst find_at) (use assms in simp_all)
  have "substr ?s 0 (int (length sv)) = Inr sv" unfolding s1 by (rule substr_mid) simp_all
  moreover have "substr ?s (int (length sv) + 1) (int (length td)) = Inr td" unfolding s4 by (rule substr_mid) simp_all
  moreover have "substr ?s (int (length sv) + int (length td) + 1 + 1) (int (length cs)) = Inr cs"
    unfolding s5 by (rule substr_mid) simp_all
  ultimately show ?thesis unfolding getPartsFromStr_def Let_def l1 l2 l3 by (simp add: algebra_simps)
qed

text \<open>Without constraints the last character before the closing brace is left out of the declaration.\<close>

lemma getParts_bare:
  assumes "CHR ''{'' \<notin> set sv" "CHR '':'' \<notin> set sv \<union> set td \<union> {c}" "CHR ''}'' \<notin> set td \<union> {c}" "td \<noteq> []"
  shows "getPartsFromStr (sv @ ''{'' @ td @ [c] @ ''}'') = Inr (srParts_new\<lparr>symVars := sv, tupDecl := td\<rparr>)"
proof -
  let ?s = "sv @ ''{'' @ td @ [c] @ ''}''"
  have s1: "?s = [] @ sv @ CHR ''{'' # td @ c # ''}''" and s3: "?s = sv @ (CHR ''{'' # td @ [c]) @ CHR ''}'' # []"
    and s4: "?s = (sv @ ''{'') @ td @ c # ''}''" by simp_all
  have l1: "find_first_of ?s (CHR ''{'') 0 = int (length sv)" unfolding s1 by (subst find_at) (use assms in simp_all)
  have l2: "find_first_of ?s (CHR '':'') (int (length sv)) = -1" by (rule find_none) (use assms in auto)
  have l3: "find_first_of ?s (CHR ''}'') (int (length sv)) = int (length sv) + int (length td) + 2"
    unfolding s3 by (subst find_at) (use assms in auto)
  have "substr ?s 0 (int (length sv)) = Inr sv" unfolding s1 by (rule substr_mid) simp_all
  moreover have "substr ?s (int (length sv) + 1) (int (length td)) = Inr td" unfolding s4 by (rule substr_mid) simp_all
  ultimately show ?thesis unfolding getPartsFromStr_def Let_def l1 l2 l3 by (simp add: algebra_simps srParts_new_def)
qed

section \<open>The variables of a declaration\<close>

fun joined :: "string \<Rightarrow> string list \<Rightarrow> string" where
  "joined sep [] = ''''"
| "joined sep [v] = v"
| "joined sep (v # w # vs) = v @ sep @ joined sep (w # vs)"

definition plain_name :: "string \<Rightarrow> bool" where
  "plain_name v \<longleftrightarrow> v \<noteq> '''' \<and> list_all (\<lambda>c. \<not> is_space c \<and> c \<notin> set '',[]{}:'') v"

lemma dropWhile_none: "list_all (\<lambda>c. \<not> P c) v \<Longrightarrow> dropWhile P (v @ w) = (if v = [] then dropWhile P w else v @ w)"
  by (cases v) auto

lemma trim_name: "plain_name v \<Longrightarrow> trim v = v" "plain_name v \<Longrightarrow> trim (CHR '' '' # v) = v"
proof -
  assume v: "plain_name v"
  then have "list_all (\<lambda>c. \<not> is_space c) v" "list_all (\<lambda>c. \<not> is_space c) (rev v)"
    by (auto simp: plain_name_def list_all_iff)
  then have d: "dropWhile is_space v = v" "dropWhile is_space (rev v) = rev v"
    using dropWhile_none[of is_space v "[]"] dropWhile_none[of is_space "rev v" "[]"] by auto
  then show "trim v = v" by (simp add: trim_def)
  show "trim (CHR '' '' # v) = v" using d by (simp add: trim_def is_space_def)
qed

lemma map_trim: "list_all plain_name vs \<Longrightarrow> map trim vs = vs"
  by (induction vs) (simp_all add: trim_name)

lemma joined_chars: "c \<notin> set sep \<Longrightarrow> list_all (\<lambda>v. c \<notin> set v) vs \<Longrightarrow> c \<notin> set (joined sep vs)"
  by (induction sep vs rule: joined.induct) auto

lemma names_lack: "c \<in> set '',[]{}:'' \<Longrightarrow> list_all plain_name vs \<Longrightarrow> list_all (\<lambda>v. c \<notin> set v) vs"
  by (auto simp: list_all_iff plain_name_def)

lemma no_comma: "plain_name v \<Longrightarrow> p \<in> {'''', '' ''} \<Longrightarrow> CHR '','' \<notin> set (p @ v)"
  using names_lack[of "CHR '',''" "[v]"] by auto

text \<open>After a comma there may be a blank.\<close>

lemma extract_joined:
  assumes "list_all plain_name vs" "sep = '','' \<or> sep = '', ''" "p \<in> {'''', '' ''}"
  shows "extract_vars (pre @ p @ joined sep vs) (length vs) (int (length pre)) = Inr vs"
  using assms
proof (induction sep vs arbitrary: pre p rule: joined.induct)
  case (2 sep v)
  then have v: "plain_name v" "CHR '','' \<notin> set (p @ v)" using no_comma[of v p] by simp_all
  have "find_first_of (pre @ p @ v) (CHR '','') (int (length pre)) = -1"
    by (rule find_none) (use v(2) in simp_all)
  moreover have "substr (pre @ p @ v) (int (length pre)) (-1 - int (length pre)) = Inr (p @ v)" by (rule substr_rest) simp_all
  moreover have "trim (p @ v) = v" using 2 v(1) by (auto simp: trim_name)
  ultimately show ?case by simp
next
  case (3 sep v w vs)
  then have v: "plain_name v" "CHR '','' \<notin> set (p @ v)" using no_comma[of v p] by simp_all
  obtain q where q: "sep = CHR '','' # q" "q \<in> {'''', '' ''}" using 3(3) by auto
  let ?s = "pre @ p @ joined sep (v # w # vs)"
  have s1: "?s = pre @ (p @ v) @ CHR '','' # q @ joined sep (w # vs)" and s2: "?s = (pre @ p @ v @ '','') @ q @ joined sep (w # vs)"
    by (simp_all add: q(1))
  have f: "find_first_of ?s (CHR '','') (int (length pre)) = int (length pre) + int (length (p @ v))"
    unfolding s1 by (rule find_at) (use v(2) in simp_all)
  have t: "substr ?s (int (length pre)) (int (length (p @ v))) = Inr (p @ v)" unfolding s1 by (rule substr_mid) simp_all
  have "extract_vars ?s (length (w # vs)) (int (length (pre @ p @ v @ '',''))) = Inr (w # vs)"
    unfolding s2 by (rule 3(1)) (use 3(2,3) q(2) in simp_all)
  moreover have n: "int (length (pre @ p @ v @ '','')) = int (length pre) + int (length (p @ v)) + 1" by simp
  ultimately have r: "extract_vars ?s (length (w # vs)) (int (length pre) + int (length (p @ v)) + 1) = Inr (w # vs)"
    by (simp only:)
  have e: "int (length pre) + int (length (p @ v)) - int (length pre) = int (length (p @ v))" by simp
  have "trim (p @ v) = v" using 3(4) v(1) by (auto simp: trim_name)
  moreover have "extract_vars ?s (Suc (length (w # vs))) (int (length pre)) = Inr (trim (p @ v) # w # vs)"
    unfolding extract_vars.simps(2) Let_def f e t bind_result_simps r ..
  ultimately show ?case by simp
qed simp

lemma extract_part_joined:
  assumes "list_all plain_name vs" "sep = '','' \<or> sep = '', ''" "CHR ''['' \<notin> set b"
  shows "extract_part (a @ b @ ''['' @ joined sep vs @ '']'' @ c) (length vs) (int (length a))
    = Inr (vs, int (length (a @ b @ ''['' @ joined sep vs @ '']'')))"
proof -
  let ?s = "a @ b @ ''['' @ joined sep vs @ '']'' @ c"
  have s1: "?s = a @ b @ CHR ''['' # joined sep vs @ '']'' @ c" and s2: "?s = (a @ b) @ (CHR ''['' # joined sep vs) @ CHR '']'' # c"
    and s3: "?s = (a @ b @ ''['') @ joined sep vs @ '']'' @ c" by simp_all
  have out: "CHR '']'' \<notin> set (joined sep vs)"
    by (rule joined_chars) (use assms names_lack[of "CHR '']''" vs] in auto)
  have f1: "find_first_of ?s (CHR ''['') (int (length a)) = int (length a) + int (length b)"
    unfolding s1 by (rule find_at) (use assms in simp_all)
  have f2: "find_first_of ?s (CHR '']'') (int (length a) + int (length b)) = int (length (a @ b)) + int (length (joined sep vs)) + 1"
    unfolding s2 by (subst find_at) (use out in simp_all)
  have "substr ?s (int (length a) + int (length b) + 1) (int (length (joined sep vs))) = Inr (joined sep vs)"
    unfolding s3 by (rule substr_mid) simp_all
  moreover have "extract_vars (joined sep vs) (length vs) 0 = Inr vs"
    using extract_joined[OF assms(1,2), of "[]" "[]"] by simp
  ultimately show ?thesis unfolding extract_part_def Let_def f1 f2 by (simp add: algebra_simps)
qed

text \<open>The declarations of sets and relations.\<close>

definition set_decl :: "string \<Rightarrow> string list \<Rightarrow> string" where
  "set_decl sep vs = ''['' @ joined sep vs @ '']''"

definition relation_decl :: "string \<Rightarrow> string list \<Rightarrow> string list \<Rightarrow> string" where
  "relation_decl sep ins outs = set_decl sep ins @ '' -> '' @ set_decl sep outs"

lemma extract_set:
  assumes "list_all plain_name vs" "sep = '','' \<or> sep = '', ''" "CHR ''['' \<notin> set a" "n = length vs"
  shows "tupVarsExtract (a @ set_decl sep vs @ b) n 0 = Inr vs"
  using extract_part_joined[OF assms(1,2), of a "[]" b] assms(3,4) by (simp add: tupVarsExtract_def set_decl_def)

lemma extract_relation:
  assumes "list_all plain_name ins" "list_all plain_name outs" "sep = '','' \<or> sep = '', ''" "CHR ''['' \<notin> set a"
    "n = length ins" "m = length outs" "outs \<noteq> []"
  shows "tupVarsExtract (a @ relation_decl sep ins outs @ b) n m = Inr (ins @ outs)"
proof -
  have "extract_part (a @ relation_decl sep ins outs @ b) n 0 = Inr (ins, int (length (a @ set_decl sep ins)))"
    using extract_part_joined[OF assms(1,3), of a "[]"] assms(4,5) by (simp add: relation_decl_def set_decl_def)
  moreover have "extract_part (a @ relation_decl sep ins outs @ b) m (int (length (a @ set_decl sep ins)))
      = Inr (outs, int (length (a @ relation_decl sep ins outs)))"
    using extract_part_joined[OF assms(2,3), of "'' -> ''" "a @ set_decl sep ins" b] assms(6)
    by (simp add: relation_decl_def set_decl_def)
  ultimately show ?thesis using assms(6,7) by (simp add: tupVarsExtract_def)
qed

section \<open>Building declarations\<close>

lemma joined_from:
  "concat (map (\<lambda>(i, v). (if i \<noteq> 0 then sep else '''') @ v) (zip [k..<k + length vs] vs))
    = (if k \<noteq> 0 \<and> vs \<noteq> [] then sep else '''') @ joined sep vs"
proof (induction vs arbitrary: k)
  case (Cons v vs)
  from Cons[of "Suc k"] show ?case by (cases vs) (simp_all add: upt_conv_Cons del: upt_Suc)
qed simp

lemma joined_all: "concat (map (\<lambda>(i, v). (if i \<noteq> 0 then sep else '''') @ v) (zip [0..<length vs] vs)) = joined sep vs"
  using joined_from[of sep 0 vs] by simp

lemma joined_relation:
  assumes "outs \<noteq> []"
  shows "concat (map (\<lambda>(i, v). (if i = length ins then ''] -> ['' else if i \<noteq> 0 then '','' else '''') @ v)
      (zip [0..<length ins + length outs] (ins @ outs))) = joined '','' ins @ ''] -> ['' @ joined '','' outs"
proof -
  let ?f = "\<lambda>(i, v). (if i = length ins then ''] -> ['' else if i \<noteq> 0 then '','' else '''') @ v"
  have z: "zip [0..<length ins + length outs] (ins @ outs) = zip [0..<length ins] ins @ zip [length ins..<length ins + length outs] outs"
    by (subst upt_add_eq_append[of 0]) (simp_all add: zip_append2)
  have "map ?f (zip [0..<length ins] ins) = map (\<lambda>(i, v). (if i \<noteq> 0 then '','' else '''') @ v) (zip [0..<length ins] ins)"
    by (auto simp: set_zip)
  note l = arg_cong[of _ _ concat, OF this, unfolded joined_all]
  obtain v vs where outs: "outs = v # vs" using assms by (cases outs) auto
  have "map ?f (zip [Suc (length ins)..<Suc (length ins) + length vs] vs)
      = map (\<lambda>(i, v). (if i \<noteq> 0 then '','' else '''') @ v) (zip [Suc (length ins)..<Suc (length ins) + length vs] vs)"
    by (auto simp: set_zip simp del: upt_Suc)
  note arg_cong[of _ _ concat, OF this, unfolded joined_from]
  then have "concat (map ?f (zip [length ins..<length ins + length outs] outs)) = ''] -> ['' @ joined '','' outs"
    by (cases vs) (simp_all add: outs upt_conv_Cons del: upt_Suc)
  with l show ?thesis by (simp add: z)
qed

text \<open>Leaving one variable out.\<close>

definition without :: "nat \<Rightarrow> 'a list \<Rightarrow> 'a list" where
  "without k vs = take k vs @ drop (Suc k) vs"

lemma joined_append: "xs \<noteq> [] \<Longrightarrow> ys \<noteq> [] \<Longrightarrow> joined sep (xs @ ys) = concat (map (\<lambda>v. v @ sep) xs) @ joined sep ys"
  by (induction sep xs rule: joined.induct) (cases ys, simp_all)+

lemma joined_last: "joined sep (xs @ [v]) = concat (map (\<lambda>v. v @ sep) xs) @ v"
  by (cases "xs = []") (simp_all add: joined_append)

lemma project_rounds:
  assumes "k < length vs"
  shows "concat (map (\<lambda>(i, v). project_round (int k) (int (length vs)) 0 (int i) v) (zip [0..<length vs] vs))
    = joined '', '' (without k vs)"
proof -
  note upt_Suc [simp del]
  let ?n = "length vs"
  let ?f = "\<lambda>(i, v). project_round (int k) (int ?n) 0 (int i) v"
  let ?g = "\<lambda>i v. if i = k then '''' else if i = ?n - 1 \<or> i = ?n - 2 \<and> k = ?n - 1 then v else v @ '', ''"
  have f: "?f (i, v) = ?g i v" if "i < ?n" for i v
    using that assms by (auto simp: project_round_def Let_def)
  obtain xs x ys where vs: "vs = xs @ x # ys" "length xs = k" using id_take_nth_drop[OF assms] assms by force
  have w: "without k vs = xs @ ys" by (simp add: without_def vs)
  have z: "zip [0..<?n] vs = zip [0..<k] xs @ (k, x) # zip [Suc k..<?n] ys"
  proof -
    have "[0..<?n] = [0..<k] @ k # [Suc k..<?n]"
      using upt_add_eq_append[of 0 k "?n - k"] assms by (simp add: upt_conv_Cons)
    then show ?thesis by (simp add: vs)
  qed
  have r: "concat (map ?f (zip [0..<?n] vs)) = concat (map (\<lambda>(i, v). ?g i v) (zip [0..<?n] vs))"
    by (intro arg_cong[of _ _ concat] map_cong) (use f in \<open>auto simp: set_zip\<close>)
  have right: "concat (map (\<lambda>(i, v). ?g i v) (zip [Suc k..<?n] ys)) = joined '', '' ys"
  proof (cases ys rule: rev_cases)
    case (snoc zs z)
    have e: "[Suc k..<?n] = [Suc k..<?n - 1] @ [?n - 1]" "length [Suc k..<?n - 1] = length zs"
      using vs snoc by (simp_all add: upt_Suc_append)
    have zz: "zip [Suc k..<?n] ys = zip [Suc k..<?n - 1] zs @ [(?n - 1, z)]"
      unfolding e(1) snoc zip_append[OF e(2)] by simp
    have "map (\<lambda>(i, v). ?g i v) (zip [Suc k..<?n - 1] zs) = map (\<lambda>(i, v). v @ '', '') (zip [Suc k..<?n - 1] zs)"
      using vs snoc by (auto simp: set_zip)
    also have "\<dots> = map (\<lambda>v. v @ '', '') zs" using vs snoc by (intro nth_equalityI) auto
    finally have m: "map (\<lambda>(i, v). ?g i v) (zip [Suc k..<?n - 1] zs) = map (\<lambda>v. v @ '', '') zs" .
    show ?thesis unfolding zz unfolding map_append concat_append m unfolding snoc joined_last using vs snoc by simp
  qed simp
  show ?thesis
  proof (cases "ys = []")
    case False
    have "map (\<lambda>(i, v). ?g i v) (zip [0..<k] xs) = map (\<lambda>(i, v). v @ '', '') (zip [0..<k] xs)"
      using vs False by (auto simp: set_zip)
    also have "\<dots> = map (\<lambda>v. v @ '', '') xs" using vs by (intro nth_equalityI) auto
    finally have "concat (map (\<lambda>(i, v). ?g i v) (zip [0..<?n] vs)) = concat (map (\<lambda>v. v @ '', '') xs) @ joined '', '' ys"
      using right by (simp add: z)
    then show ?thesis using False r w by (cases "xs = []") (simp_all add: joined_append)
  next
    case True
    show ?thesis
    proof (cases xs rule: rev_cases)
      case Nil
      with True r w z show ?thesis using vs by simp
    next
      case (snoc zs u)
      have k: "k = Suc (length zs)" "?n = Suc k" using vs snoc True by simp_all
      have "map (\<lambda>(i, v). ?g i v) (zip [0..<length zs] zs) = map (\<lambda>(i, v). v @ '', '') (zip [0..<length zs] zs)"
        using k by (auto simp: set_zip)
      also have "\<dots> = map (\<lambda>v. v @ '', '') zs" by (intro nth_equalityI) auto
      finally have m: "map (\<lambda>(i, v). ?g i v) (zip [0..<length zs] zs) = map (\<lambda>v. v @ '', '') zs" .
      have "zip [0..<k] xs = zip [0..<length zs] zs @ [(length zs, u)]" using k snoc by (simp add: upt_Suc_append)
      then have "concat (map (\<lambda>(i, v). ?g i v) (zip [0..<k] xs)) = concat (map (\<lambda>v. v @ '', '') zs) @ u"
        using k m by simp
      then show ?thesis using True r w z snoc k by (simp add: joined_last)
    qed
  qed
qed

section \<open>Properties\<close>

text \<open>The conditions under which a text splits at its brackets.\<close>

definition splits :: "string \<Rightarrow> string \<Rightarrow> string \<Rightarrow> string \<Rightarrow> bool" where
  "splits sv a b cs \<longleftrightarrow> CHR ''{'' \<notin> set sv \<and> list_all (\<lambda>c. c \<noteq> CHR '':'' \<and> c \<noteq> CHR ''['') (a @ b) \<and> CHR ''}'' \<notin> set cs"

lemma decl_chars:
  assumes "list_all plain_name vs" "sep = '','' \<or> sep = '', ''"
  shows "CHR '':'' \<notin> set (set_decl sep vs)"
  using assms joined_chars[of "CHR '':''" sep vs] names_lack[of "CHR '':''" vs] by (auto simp: set_decl_def)

lemma parts_of_set:
  assumes "splits sv a b cs" "list_all plain_name vs" "sep = '','' \<or> sep = '', ''"
  shows "getPartsFromStr (parts_text sv (a @ set_decl sep vs @ b) cs @ rest)
    = Inr (srParts_new\<lparr>symVars := sv, tupDecl := a @ set_decl sep vs @ b, constraints := cs\<rparr>)"
  by (rule getParts_text) (use assms(1) decl_chars[OF assms(2,3)] in \<open>auto simp: splits_def list_all_iff\<close>)

text \<open>Turning the text of a set into that of a relation and back gives the set again: the variables are divided in
  order, the constraints stay, and blanks around the declaration disappear.\<close>

lemma setStr2RelationStr_roundtrip:
  assumes "splits '''' a b cs" "list_all plain_name (ins @ outs)" "outs \<noteq> []"
  shows "setStr2RelationStr (parts_text '''' (a @ set_decl '','' (ins @ outs) @ b) cs) (length ins) (length outs)
      = Inr (parts_text '''' (relation_decl '','' ins outs) cs) \<and>
    relationStr2SetStr (parts_text '''' (relation_decl '','' ins outs) cs) (length ins) (length outs)
      = Inr (parts_text '''' (set_decl '','' (ins @ outs)) cs)"
proof -
  have names: "list_all plain_name ins" "list_all plain_name outs" using assms(2) by simp_all
  have "getPartsFromStr (parts_text '''' (a @ set_decl '','' (ins @ outs) @ b) cs)
      = Inr (srParts_new\<lparr>symVars := '''', tupDecl := a @ set_decl '','' (ins @ outs) @ b, constraints := cs\<rparr>)"
    using parts_of_set[OF assms(1,2), of "'',''" "[]"] by simp
  moreover have "tupVarsExtract (a @ set_decl '','' (ins @ outs) @ b) (length ins + length outs) 0 = Inr (ins @ outs)"
    by (rule extract_set[OF assms(2)]) (use assms(1) in \<open>auto simp: splits_def list_all_iff\<close>)
  ultimately have "setStr2RelationStr (parts_text '''' (a @ set_decl '','' (ins @ outs) @ b) cs) (length ins) (length outs)
      = Inr (parts_text '''' (relation_decl '','' ins outs) cs)"
    using joined_relation[OF assms(3), of ins]
    by (simp add: setStr2RelationStr_def getFullStrFromParts_def parts_text_def relation_decl_def set_decl_def srParts_new_def)
  moreover have "getPartsFromStr (parts_text '''' (relation_decl '','' ins outs) cs)
      = Inr (srParts_new\<lparr>symVars := '''', tupDecl := relation_decl '','' ins outs, constraints := cs\<rparr>)"
    using getParts_text[of "''''" "relation_decl '','' ins outs" cs "[]"] assms(1) decl_chars[OF names(1)] decl_chars[OF names(2)]
    by (simp add: splits_def relation_decl_def)
  moreover have "tupVarsExtract (relation_decl '','' ins outs) (length ins) (length outs) = Inr (ins @ outs)"
    using extract_relation[OF names, of "'',''" "[]" _ _ "[]"] assms(3) by simp
  ultimately show ?thesis using joined_all[of "'',''" "ins @ outs"]
    by (simp add: relationStr2SetStr_def getFullStrFromParts_def parts_text_def set_decl_def srParts_new_def)
qed

text \<open>The equalities for the variables that isl has replaced.\<close>

definition replaced_eqs :: "string list \<Rightarrow> string list \<Rightarrow> string list" where
  "replaced_eqs origs isls = map (\<lambda>(u, v). u @ '' = '' @ v) (filter (\<lambda>(u, v). u \<noteq> v) (zip origs isls))"

lemma missing_loop_eqs:
  "missing_loop f qs = (case map (\<lambda>(u, v). u @ '' = '' @ v) (filter (\<lambda>(u, v). u \<noteq> v) qs) of
     [] \<Rightarrow> ''''
   | es \<Rightarrow> (if f then '' '' else '' and '') @ joined '' and '' es)"
proof (induction f qs rule: missing_loop.induct)
  case (2 f u v qs)
  then show ?case by (cases "map (\<lambda>(u, v). u @ '' = '' @ v) (filter (\<lambda>(u, v). u \<noteq> v) qs)") auto
qed simp

definition conjoined :: "string \<Rightarrow> string list \<Rightarrow> string" where
  "conjoined cs es =
     (if cs = '''' then (if es = [] then '''' else '' '' @ joined '' and '' es)
      else if es = [] then cs else cs @ '' and '' @ '' '' @ joined '' and '' es)"

lemma revert_parts:
  assumes o: "getPartsFromStr orig = Inr (srParts_new\<lparr>symVars := sv0, tupDecl := a0 @ set_decl sep0 us @ b0, constraints := cs0\<rparr>)"
    and i: "getPartsFromStr isl_str = Inr (srParts_new\<lparr>symVars := sv, tupDecl := a @ set_decl sep vs @ b, constraints := cs\<rparr>)"
    and names: "list_all plain_name us" "list_all plain_name vs" "length us = length vs"
    and seps: "sep0 = '','' \<or> sep0 = '', ''" "sep = '','' \<or> sep = '', ''"
    and brackets: "CHR ''['' \<notin> set a0" "CHR ''['' \<notin> set a"
  shows "revertISLTupDeclToOrig orig isl_str (length us) 0 =
    Inr (parts_text sv (a0 @ set_decl sep0 us @ b0) (conjoined cs (replaced_eqs us vs)))"
proof -
  have "missingEqs (a0 @ set_decl sep0 us @ b0) (a @ set_decl sep vs @ b) (length us) 0
      = Inr (case replaced_eqs us vs of [] \<Rightarrow> '''' | es \<Rightarrow> '' '' @ joined '' and '' es)"
    using extract_set[OF names(1) seps(1) brackets(1) refl] extract_set[OF names(2) seps(2) brackets(2) names(3)]
    by (simp add: missingEqs_def missing_loop_eqs replaced_eqs_def)
  then show ?thesis
    using o i by (cases "replaced_eqs us vs") (simp_all add: revertISLTupDeclToOrig_def parts_text_def srParts_new_def conjoined_def)
qed

text \<open>\<open>revertISLTupDeclToOrig\<close> returns isl's text with the declared variables, and with an equality for exactly those
  variables that isl has replaced, whether isl's text has constraints or ends after the declaration and a blank.\<close>

lemma revertISLTupDeclToOrig_correct:
  assumes "splits sv0 a0 b0 cs0" "splits sv a b cs" "list_all plain_name us" "list_all plain_name vs" "length us = length vs"
    "CHR '':'' \<notin> set sv" "CHR ''}'' \<notin> set (a @ b)"
  shows "revertISLTupDeclToOrig (parts_text sv0 (a0 @ set_decl '', '' us @ b0) cs0)
        (parts_text sv (a @ set_decl '', '' vs @ b) cs) (length us) 0
      = Inr (parts_text sv (a0 @ set_decl '', '' us @ b0) (conjoined cs (replaced_eqs us vs))) \<and>
    revertISLTupDeclToOrig (parts_text sv0 (a0 @ set_decl '', '' us @ b0) cs0)
        (sv @ ''{'' @ (a @ set_decl '', '' vs @ b) @ '' }'') (length us) 0
      = Inr (parts_text sv (a0 @ set_decl '', '' us @ b0) (conjoined '''' (replaced_eqs us vs)))"
proof
  have o: "getPartsFromStr (parts_text sv0 (a0 @ set_decl '', '' us @ b0) cs0)
      = Inr (srParts_new\<lparr>symVars := sv0, tupDecl := a0 @ set_decl '', '' us @ b0, constraints := cs0\<rparr>)"
    using parts_of_set[OF assms(1,3), of "'', ''" "[]"] by simp
  have br: "CHR ''['' \<notin> set a0" "CHR ''['' \<notin> set a" using assms(1,2) by (auto simp: splits_def list_all_iff)
  have "getPartsFromStr (parts_text sv (a @ set_decl '', '' vs @ b) cs)
      = Inr (srParts_new\<lparr>symVars := sv, tupDecl := a @ set_decl '', '' vs @ b, constraints := cs\<rparr>)"
    using parts_of_set[OF assms(2,4), of "'', ''" "[]"] by simp
  from revert_parts[OF o this assms(3-5) _ _ br]
  show "revertISLTupDeclToOrig (parts_text sv0 (a0 @ set_decl '', '' us @ b0) cs0)
        (parts_text sv (a @ set_decl '', '' vs @ b) cs) (length us) 0
      = Inr (parts_text sv (a0 @ set_decl '', '' us @ b0) (conjoined cs (replaced_eqs us vs)))" by simp
  have "CHR ''}'' \<notin> set (set_decl '', '' vs)"
    using joined_chars[of "CHR ''}''" "'', ''" vs] names_lack[of "CHR ''}''" vs] assms(4) by (auto simp: set_decl_def)
  then have "getPartsFromStr (sv @ ''{'' @ (a @ set_decl '', '' vs @ b) @ [CHR '' ''] @ ''}'')
      = Inr (srParts_new\<lparr>symVars := sv, tupDecl := a @ set_decl '', '' vs @ b\<rparr>)"
    using assms(2,6,7) decl_chars[OF assms(4), of "'', ''"]
    by (intro getParts_bare) (auto simp: splits_def list_all_iff set_decl_def)
  then have "getPartsFromStr (sv @ ''{'' @ (a @ set_decl '', '' vs @ b) @ '' }'')
      = Inr (srParts_new\<lparr>symVars := sv, tupDecl := a @ set_decl '', '' vs @ b, constraints := ''''\<rparr>)"
    by (simp add: srParts_new_def)
  from revert_parts[OF o this assms(3-5) _ _ br]
  show "revertISLTupDeclToOrig (parts_text sv0 (a0 @ set_decl '', '' us @ b0) cs0)
        (sv @ ''{'' @ (a @ set_decl '', '' vs @ b) @ '' }'') (length us) 0
      = Inr (parts_text sv (a0 @ set_decl '', '' us @ b0) (conjoined '''' (replaced_eqs us vs)))" by simp
qed

text \<open>\<open>projectOutStrCorrection\<close> removes exactly one variable from the declaration of a set, wherever it stands, with
  the commas that the rest needs, and keeps symbols and constraints.\<close>

lemma projectOutStrCorrection_correct:
  assumes "splits sv a b cs" "list_all plain_name vs" "k < length vs"
  shows "projectOutStrCorrection (parts_text sv (a @ set_decl '', '' vs @ b) cs) (int k) (length vs) 0 =
      Inr (sv @ ''{'' @ set_decl '', '' (without k vs) @ '' '' @ (if cs = '''' then '''' else '':'' @ cs) @ ''}'') \<and>
    tupVarsExtract (set_decl '', '' (without k vs)) (length vs - 1) 0 = Inr (without k vs)"
proof
  have p: "getPartsFromStr (parts_text sv (a @ set_decl '', '' vs @ b) cs)
      = Inr (srParts_new\<lparr>symVars := sv, tupDecl := a @ set_decl '', '' vs @ b, constraints := cs\<rparr>)"
    using parts_of_set[OF assms(1,2), of "'', ''" "[]"] by simp
  have v: "tupVarsExtract (a @ set_decl '', '' vs @ b) (length vs) 0 = Inr vs"
    by (rule extract_set[OF assms(2)]) (use assms(1) in \<open>auto simp: splits_def list_all_iff\<close>)
  show "projectOutStrCorrection (parts_text sv (a @ set_decl '', '' vs @ b) cs) (int k) (length vs) 0 =
      Inr (sv @ ''{'' @ set_decl '', '' (without k vs) @ '' '' @ (if cs = '''' then '''' else '':'' @ cs) @ ''}'')"
    using p v project_rounds[OF assms(3)]
    by (simp add: projectOutStrCorrection_def Let_def srParts_new_def set_decl_def)
  have "list_all plain_name (without k vs)"
    using assms(2) by (auto simp: without_def list_all_iff dest: in_set_takeD in_set_dropD)
  moreover have "length vs - 1 = length (without k vs)" using assms(3) by (simp add: without_def)
  ultimately show "tupVarsExtract (set_decl '', '' (without k vs)) (length vs - 1) 0 = Inr (without k vs)"
    using extract_set[of "without k vs" "'', ''" "[]" "length vs - 1" "[]"] by simp
qed

text \<open>The functions that build a text from parts put an arrow after symbols that have one already.\<close>

lemma strAddConstraints_doubles_arrow:
  "strAddConstraints ''[n] -> { [i] : i < n}'' ''{ [i] : 0 <= i}'' = Inr ''[n] ->  -> { [i] : 0 <= i &&  i < n}''"
  by code_simp

text \<open>Without a blank before the brace the declaration loses its bracket.\<close>

lemma getPartsFromStr_cuts: "bind_result (getPartsFromStr ''{[i,j]}'') (\<lambda>p. Inr (tupDecl p)) = Inr ''[i,j''"
  by code_simp

end
