(* ===== verification/Affine.thy ===== *)
theory Affine
  imports UF_Params UFCall_Map Environment
begin

text \<open>
  Sets without calls in place of sets with calls, as a library for affine sets needs them:
  \<open>superAffineSet\<close>, \<open>reverseAffineSubstitution\<close>, \<open>boundDomainRange\<close>, \<open>normalize\<close>, \<open>projectOut\<close> and
  \<open>simplifyForPartialParallel\<close> of \<open>set_relation.cc\<close> with their visitors. The library isl is a parameter:
  the functions \<open>isl_pass\<close> and \<open>isl_project\<close> stand for \<open>passSetThruISL\<close> and \<open>islSetProjectOut\<close>, which
  hand it the text of a set and read its answer.
\<close>

section \<open>Indexing calls\<close>

definition setTupleIndex :: "int \<Rightarrow> trm \<Rightarrow> trm" where
  "setTupleIndex idx t = (case t of UFCallTerm c f args i \<Rightarrow> UFCallTerm c f args idx | _ \<Rightarrow> t)"

definition index_call :: "set_object environment \<Rightarrow> trm \<Rightarrow> trm result" where
  "index_call env t = (case t of
     UFCallTerm c f args i \<Rightarrow>
       bind_result (queryDomainCurrEnv env f) (\<lambda>s.
         if length args = 1 \<and> mArity s > 1 then
           (case getTerm (hd args) of
              Some (UFCallTerm d g nested j) \<Rightarrow>
                Inr (UFCallTerm c f (map (\<lambda>k. addTerm empty_exp (setTupleIndex (int k) (UFCallTerm d g nested j)))
                  [0..<mArity s]) (-1))
            | _ \<Rightarrow> Inl (Assert_exception ''VisitorIndexUFC: Null or non UFC tuple argument''))
         else Inr t)
   | _ \<Rightarrow> Inr t)"

definition VisitorIndexUFC :: "set_object environment \<Rightarrow> unit visitor" where
  "VisitorIndexUFC env = base_Visitor\<lparr>
     postVisitUFCallTerm := \<lambda>t s. bind_result (index_call env t) (\<lambda>t. Inr (t, s))\<rparr>"

definition indexUFCs :: "set_object environment \<Rightarrow> sparse \<Rightarrow> sparse result" where
  "indexUFCs env cs = bind_result (accept_sparse (VisitorIndexUFC env) cs ()) (\<lambda>(cs, s). Inr cs)"

section \<open>Domain and range of calls\<close>

definition UFCallTerm_size :: "set_object environment \<Rightarrow> string \<Rightarrow> nat result" where
  "UFCallTerm_size env f = queryRangeArityCurrEnv mArity env f"

record bounds_state =
  addedConstSet :: set_object
  in_ar :: int

text \<open>The bounds of a tuple of expressions, added to the constraints gathered so far.\<close>

definition add_bounds :: "(string \<Rightarrow> string) \<Rightarrow> set_object \<Rightarrow> exp option list \<Rightarrow> set_object \<Rightarrow> set_object result" where
  "add_bounds qinv bound tuple_exp added =
     bind_result (Set_boundTupleExp qinv bound tuple_exp) (\<lambda>constraintSet.
     bind_result (sparse_getTupleDecl (mConjunctions added)) (\<lambda>td.
     bind_result (Set_setTupleDecl constraintSet td) (\<lambda>constraintSet.
       Set_Intersect added constraintSet)))"

definition bound_call :: "(string \<Rightarrow> string) \<Rightarrow> set_object environment \<Rightarrow> trm \<Rightarrow> set_object \<Rightarrow> set_object result" where
  "bound_call qinv env t added = (case setCoefficient 1 t of
     UFCallTerm c f args i \<Rightarrow>
       bind_result (bind_result (queryDomainCurrEnv env f) (Set_copy qinv)) (\<lambda>dom.
       bind_result (add_bounds qinv dom (map Some args) added) (\<lambda>added.
       bind_result (bind_result (queryRangeCurrEnv env f) (Set_copy qinv)) (\<lambda>ran.
       bind_result (UFCallTerm_size env f) (\<lambda>size.
         if \<not> isIndexed i \<and> mArity ran \<noteq> size
         then Inl (Assert_exception (''Set::boundDomainRange: '' @ ''ufcall returning fewer dimensions than declared range''))
         else
           let out_arity = mArity ran;
               elem = (\<lambda>k. addTerm empty_exp
                 (if out_arity = 1 then UFCallTerm c f args i else setTupleIndex (int k) (UFCallTerm c f args i)))
           in add_bounds qinv ran (map (\<lambda>k. if k < out_arity then Some (elem k) else None) [0..<size]) added))))
   | _ \<Rightarrow> Inr added)"

definition VisitorBoundDomainRange :: "(string \<Rightarrow> string) \<Rightarrow> set_object environment \<Rightarrow> bounds_state visitor" where
  "VisitorBoundDomainRange qinv env = base_Visitor\<lparr>
     preVisitUFCallTerm := \<lambda>t s. bind_result (bound_call qinv env t (addedConstSet s)) (\<lambda>a. Inr (s\<lparr>addedConstSet := a\<rparr>)),
     preVisitConjunction := \<lambda>c s. Inr (s\<lparr>in_ar := mInArity c, addedConstSet := Set_of_decl (mTupleDecl c)\<rparr>),
     postVisitConjunction := \<lambda>c s. (case mConjunctions (addedConstSet s) of
         [] \<Rightarrow> Inl (Undefined ''front of an empty list'')
       | a # _ \<Rightarrow> bind_result (setInArity (Conj_Intersect c a) (in_ar s)) (\<lambda>c. Inr (c, s)))\<rparr>"

text \<open>The fields are set by \<open>preVisitConjunction\<close> before they are used.\<close>

definition bounds_start :: bounds_state where
  "bounds_start = \<lparr>addedConstSet = \<lparr>mConjunctions = [], mArity = 0\<rparr>, in_ar = 0\<rparr>"

definition Set_boundDomainRange :: "(string \<Rightarrow> string) \<Rightarrow> set_object environment \<Rightarrow> set_object \<Rightarrow> set_object result" where
  "Set_boundDomainRange qinv env s =
     bind_result (Set_copy qinv s) (\<lambda>s.
     bind_result (accept_Set (VisitorBoundDomainRange qinv env) s bounds_start) (\<lambda>(s, st). Inr s))"

definition Relation_boundDomainRange ::
  "(string \<Rightarrow> string) \<Rightarrow> set_object environment \<Rightarrow> relation_object \<Rightarrow> relation_object result" where
  "Relation_boundDomainRange qinv env r =
     bind_result (Relation_copy qinv r) (\<lambda>r.
     bind_result (accept_Relation (VisitorBoundDomainRange qinv env) r bounds_start) (\<lambda>(r, st). Inr r))"

section \<open>Replacing calls by symbols\<close>

text \<open>\<open>ufcDepth\<close> and \<open>affineExp\<close> are set when a constraint is entered, \<open>affineConj\<close> when a conjunction is.\<close>

record affine_state =
  ufcmap :: ufcall_map
  affineConj :: conjunction
  maffineConj :: sparse
  affineExp :: exp
  ufcDepth :: int
  affineSet :: set_object
  affineRelation :: relation_object

definition affine_add :: "trm \<Rightarrow> affine_state \<Rightarrow> affine_state" where
  "affine_add t s = (if ufcDepth s = 0 then s\<lparr>affineExp := addTerm (affineExp s) t\<rparr> else s)"

definition affine_leave :: "exp \<Rightarrow> affine_state \<Rightarrow> affine_state" where
  "affine_leave e s =
     (if mExpType e = Expression then s\<lparr>ufcDepth := ufcDepth s - 1\<rparr>
      else if mExpType e = Inequality then s\<lparr>affineConj := addInequality (affineConj s) (affineExp s)\<rparr>
      else s\<lparr>affineConj := addEquality (affineConj s) (affineExp s)\<rparr>)"

definition affine_start_conj :: "conjunction \<Rightarrow> conjunction result" where
  "affine_start_conj c = setInArity (Conjunction_of (mTupleDecl c)) (mInArity c)"

definition affine_set_of :: "nat \<Rightarrow> sparse \<Rightarrow> set_object result" where
  "affine_set_of arity cs = bind_result (Set_new arity) (\<lambda>s. Inr (foldl Set_addConjunction s cs))"

definition affine_relation_of :: "nat \<Rightarrow> nat \<Rightarrow> sparse \<Rightarrow> relation_object result" where
  "affine_relation_of inArity outArity cs = Relation_addConjunctions (Relation_new inArity outArity) cs"

definition VisitorSuperAffineSet :: "affine_state visitor" where
  "VisitorSuperAffineSet = base_Visitor\<lparr>
     preVisitTerm := \<lambda>t s. Inr (affine_add t s),
     preVisitUFCallTerm := \<lambda>t s. Inr
       (if ufcDepth s = 0 then
          (let (vt, m) = find_UFCallTerm (ufcmap s) t
           in s\<lparr>ufcmap := m, affineExp := addTerm (affineExp s) (setCoefficient (coefficient t) vt)\<rparr>)
        else s),
     preVisitTupleVarTerm := \<lambda>t s. Inr (t, affine_add t s),
     preVisitVarTerm := \<lambda>t s. Inr (affine_add t s),
     preVisitExp := \<lambda>e s. Inr (if mExpType e = Expression then s\<lparr>ufcDepth := ufcDepth s + 1\<rparr>
       else s\<lparr>ufcDepth := 0, affineExp := empty_exp\<rparr>),
     postVisitExp := \<lambda>e s. Inr (affine_leave e s),
     preVisitConjunction := \<lambda>c s. bind_result (affine_start_conj c) (\<lambda>a. Inr (s\<lparr>affineConj := a\<rparr>)),
     postVisitConjunction := \<lambda>c s. Inr (c, s\<lparr>maffineConj := maffineConj s @ [affineConj s]\<rparr>),
     postVisitSet := \<lambda>x s. bind_result (affine_set_of (mArity x) (maffineConj s)) (\<lambda>a. Inr (s\<lparr>affineSet := a\<rparr>)),
     postVisitRelation := \<lambda>r s. bind_result (affine_relation_of (rInArity r) (rOutArity r) (maffineConj s)) (\<lambda>a.
       Inr (s\<lparr>affineRelation := a\<rparr>))\<rparr>"

definition affine_start :: "ufcall_map \<Rightarrow> affine_state" where
  "affine_start m = \<lparr>ufcmap = m, affineConj = Conjunction_new 0 0, maffineConj = [], affineExp = empty_exp, ufcDepth = 0,
     affineSet = \<lparr>mConjunctions = [], mArity = 0\<rparr>, affineRelation = Relation_new 0 0\<rparr>"

definition superAffineSet ::
  "(string \<Rightarrow> string) \<Rightarrow> set_object environment \<Rightarrow> set_object \<Rightarrow> ufcall_map \<Rightarrow> bool \<Rightarrow> (set_object \<times> ufcall_map) result" where
  "superAffineSet qinv env s m boundUFCs =
     bind_result (Set_copy qinv s) (\<lambda>copy.
       if length (mConjunctions copy) = 0 then Inr (copy, m)
       else
         bind_result (if boundUFCs then Set_boundDomainRange qinv env s else Set_copy qinv s) (\<lambda>copySet.
         bind_result (accept_Set VisitorSuperAffineSet copySet (affine_start m)) (\<lambda>(copySet, st).
           Inr (affineSet st, ufcmap st))))"

definition superAffineRelation ::
  "(string \<Rightarrow> string) \<Rightarrow> set_object environment \<Rightarrow> relation_object \<Rightarrow> ufcall_map \<Rightarrow> bool \<Rightarrow>
     (relation_object \<times> ufcall_map) result" where
  "superAffineRelation qinv env r m boundUFCs =
     (if length (rConjunctions r) = 0 then bind_result (Relation_copy qinv r) (\<lambda>copy. Inr (copy, m))
      else
        bind_result (if boundUFCs then Relation_boundDomainRange qinv env r else Relation_copy qinv r) (\<lambda>copyRelation.
        bind_result (accept_Relation VisitorSuperAffineSet copyRelation (affine_start m)) (\<lambda>(copyRelation, st).
          Inr (affineRelation st, ufcmap st))))"

section \<open>Putting the calls back\<close>

record reverse_state =
  nonAffineConj :: conjunction
  nonMAffineConj :: sparse
  nonAffineExp :: exp
  visit :: bool
  nonAffineSet :: set_object
  nonAffineRelation :: relation_object

definition reverse_add :: "trm \<Rightarrow> reverse_state \<Rightarrow> reverse_state" where
  "reverse_add t s = (if visit s then s\<lparr>nonAffineExp := addTerm (nonAffineExp s) t\<rparr> else s)"

definition reverse_var :: "ufcall_map \<Rightarrow> trm \<Rightarrow> trm" where
  "reverse_var m t = (case find_VarTerm m t of None \<Rightarrow> t | Some ufc \<Rightarrow> setCoefficient (coefficient t) ufc)"

definition VisitorReverseAffineSubstitution :: "ufcall_map \<Rightarrow> reverse_state visitor" where
  "VisitorReverseAffineSubstitution m = base_Visitor\<lparr>
     preVisitTerm := \<lambda>t s. Inr (reverse_add t s),
     preVisitUFCallTerm := \<lambda>t s.
       Inl (Assert_exception (''VisitorReverseAffineSubstitution: '' @ replicate 29 (CHR '' '') @ ''An UFCall term found in affine set!'')),
     preVisitTupleVarTerm := \<lambda>t s. Inr (t, reverse_add t s),
     preVisitVarTerm := \<lambda>t s. Inr (reverse_add (reverse_var m t) s),
     preVisitExp := \<lambda>e s. Inr (if mExpType e = Expression then s\<lparr>visit := False\<rparr>
       else s\<lparr>visit := True, nonAffineExp := empty_exp\<rparr>),
     postVisitExp := \<lambda>e s. Inr
       (if mExpType e = Expression then s\<lparr>visit := True\<rparr>
        else if mExpType e = Inequality then s\<lparr>nonAffineConj := addInequality (nonAffineConj s) (nonAffineExp s)\<rparr>
        else s\<lparr>nonAffineConj := addEquality (nonAffineConj s) (nonAffineExp s)\<rparr>),
     preVisitConjunction := \<lambda>c s. bind_result (affine_start_conj c) (\<lambda>a. Inr (s\<lparr>nonAffineConj := a\<rparr>)),
     postVisitConjunction := \<lambda>c s. Inr (c, s\<lparr>nonMAffineConj := nonMAffineConj s @ [nonAffineConj s]\<rparr>),
     postVisitSet := \<lambda>x s. bind_result (affine_set_of (mArity x) (nonMAffineConj s)) (\<lambda>a. Inr (s\<lparr>nonAffineSet := a\<rparr>)),
     postVisitRelation := \<lambda>r s. bind_result (affine_relation_of (rInArity r) (rOutArity r) (nonMAffineConj s)) (\<lambda>a.
       Inr (s\<lparr>nonAffineRelation := a\<rparr>))\<rparr>"

definition reverse_start :: reverse_state where
  "reverse_start = \<lparr>nonAffineConj = Conjunction_new 0 0, nonMAffineConj = [], nonAffineExp = empty_exp, visit = True,
     nonAffineSet = \<lparr>mConjunctions = [], mArity = 0\<rparr>, nonAffineRelation = Relation_new 0 0\<rparr>"

definition Set_reverseAffineSubstitution :: "set_object \<Rightarrow> ufcall_map \<Rightarrow> set_object result" where
  "Set_reverseAffineSubstitution s m =
     bind_result (accept_Set (VisitorReverseAffineSubstitution m) s reverse_start) (\<lambda>(s, st). Inr (nonAffineSet st))"

definition Relation_reverseAffineSubstitution :: "relation_object \<Rightarrow> ufcall_map \<Rightarrow> relation_object result" where
  "Relation_reverseAffineSubstitution r m =
     bind_result (accept_Relation (VisitorReverseAffineSubstitution m) r reverse_start) (\<lambda>(r, st). Inr (nonAffineRelation st))"

section \<open>Normalisation\<close>

text \<open>
  \<open>thru_isl\<close> stands for \<open>passSetThruISL\<close>: the text of the set as isl reads it, isl's answer, and the parser.
\<close>

definition Set_normalize ::
  "(set_object \<Rightarrow> set_object result) \<Rightarrow> (string \<Rightarrow> string) \<Rightarrow> set_object environment \<Rightarrow> set_object \<Rightarrow> bool \<Rightarrow> set_object result" where
  "Set_normalize thru_isl qinv env s bdr =
     bind_result (indexUFCs env (mConjunctions s)) (\<lambda>cs.
     bind_result (superAffineSet qinv env (s\<lparr>mConjunctions := cs\<rparr>) UFCallMap bdr) (\<lambda>(superset_copy, uf_call_map).
     bind_result (thru_isl superset_copy) (\<lambda>superset_normalized.
     bind_result (Set_reverseAffineSubstitution superset_normalized uf_call_map) (\<lambda>normalized_copy.
       Set_copy qinv normalized_copy))))"

definition Relation_normalize ::
  "(relation_object \<Rightarrow> relation_object result) \<Rightarrow> (string \<Rightarrow> string) \<Rightarrow> set_object environment \<Rightarrow> relation_object \<Rightarrow> bool \<Rightarrow>
     relation_object result" where
  "Relation_normalize thru_isl qinv env r bdr =
     bind_result (indexUFCs env (rConjunctions r)) (\<lambda>cs.
     bind_result (superAffineRelation qinv env (r\<lparr>rConjunctions := cs\<rparr>) UFCallMap bdr) (\<lambda>(superset_copy, uf_call_map).
     bind_result (thru_isl superset_copy) (\<lambda>superset_normalized.
     bind_result (Relation_reverseAffineSubstitution superset_normalized uf_call_map) (\<lambda>normalized_copy.
       Relation_copy qinv normalized_copy))))"

section \<open>Projecting a variable out\<close>

record project_state =
  mNewConj :: sparse
  newSet :: set_object
  newRelation :: relation_object

text \<open>\<open>isl_project\<close> stands for \<open>islSetProjectOut\<close>. Of its answer, only the first conjunction is kept.\<close>

definition project_conj ::
  "(set_object \<Rightarrow> int \<Rightarrow> set_object result) \<Rightarrow> int \<Rightarrow> int \<Rightarrow> conjunction \<Rightarrow> sparse \<Rightarrow> sparse result" where
  "project_conj isl_project tvar inArity c new =
     bind_result (setInArity c 0) (\<lambda>cc.
     bind_result (Set_new (conj_arity cc)) (\<lambda>cs.
     bind_result (isl_project (Set_addConjunction cs cc) tvar) (\<lambda>islSet.
       case mConjunctions islSet of
         [] \<Rightarrow> Inr new
       | crc # _ \<Rightarrow> bind_result (setInArity crc inArity) (\<lambda>crc. Inr (new @ [crc])))))"

definition adjusted_inArity :: "int \<Rightarrow> int \<Rightarrow> int" where
  "adjusted_inArity tvar ia = (if tvar < ia \<and> ia \<noteq> 0 then ia - 1 else ia)"

text \<open>An arity of 0 has no variable to project out; the arities below 0 that the source forms then are left out.\<close>

definition smaller :: "nat \<Rightarrow> nat result" where
  "smaller n = (if n = 0 then Inl (Undefined ''negative arity'') else Inr (n - 1))"

definition VisitorProjectOut ::
  "(set_object \<Rightarrow> int \<Rightarrow> set_object result) \<Rightarrow> int \<Rightarrow> int \<Rightarrow> project_state visitor" where
  "VisitorProjectOut isl_project tvar ia = base_Visitor\<lparr>
     postVisitConjunction := \<lambda>c s.
       bind_result (project_conj isl_project tvar (adjusted_inArity tvar ia) c (mNewConj s)) (\<lambda>new. Inr (c, s\<lparr>mNewConj := new\<rparr>)),
     postVisitSet := \<lambda>x s.
       bind_result (smaller (mArity x)) (\<lambda>n. bind_result (affine_set_of n (mNewConj s)) (\<lambda>a. Inr (s\<lparr>newSet := a\<rparr>))),
     postVisitRelation := \<lambda>r s.
       bind_result (if tvar < int (rInArity r) then bind_result (smaller (rInArity r)) (\<lambda>ia. Inr (ia, rOutArity r))
                    else bind_result (smaller (rOutArity r)) (\<lambda>oa. Inr (rInArity r, oa))) (\<lambda>(ia, oa).
         bind_result (affine_relation_of ia oa (mNewConj s)) (\<lambda>a. Inr (s\<lparr>newRelation := a\<rparr>)))\<rparr>"

definition project_start :: project_state where
  "project_start = \<lparr>mNewConj = [], newSet = \<lparr>mConjunctions = [], mArity = 0\<rparr>, newRelation = Relation_new 0 0\<rparr>"

text \<open>The state is \<open>nc_ufc\<close>, the number of calls around the term visited.\<close>

definition VisitorProjectOutCleanUp :: "int \<Rightarrow> int visitor" where
  "VisitorProjectOutCleanUp tvar = base_Visitor\<lparr>
     preVisitUFCallTerm := \<lambda>t nc_ufc. Inr (nc_ufc + 1),
     postVisitUFCallTerm := \<lambda>t nc_ufc. Inr (t, nc_ufc - 1),
     preVisitTupleVarTerm := \<lambda>t nc_ufc. Inr
       (if nc_ufc \<noteq> 0 \<and> tvloc t > tvar then TupleVarTerm (coefficient t) (tvloc t - 1) else t, nc_ufc)\<rparr>"

definition Set_projectOut ::
  "(set_object \<Rightarrow> int \<Rightarrow> set_object result) \<Rightarrow> (string \<Rightarrow> string) \<Rightarrow> set_object environment \<Rightarrow> set_object \<Rightarrow> int \<Rightarrow>
     set_object option result" where
  "Set_projectOut isl_project qinv env s tvar =
     bind_result (isUFCallParam (mConjunctions s) tvar) (\<lambda>param.
       if param then Inr None
       else
         bind_result (superAffineSet qinv env s UFCallMap True) (\<lambda>(sup_s, ufcmap).
         bind_result (accept_Set (VisitorProjectOut isl_project tvar 0) sup_s project_start) (\<lambda>(sup_s, pv).
         bind_result (Set_reverseAffineSubstitution (newSet pv) ufcmap) (\<lambda>res.
         bind_result (accept_Set (VisitorProjectOutCleanUp tvar) res 0) (\<lambda>(res, cv).
           Inr (Some res))))))"

definition Relation_projectOut ::
  "(set_object \<Rightarrow> int \<Rightarrow> set_object result) \<Rightarrow> (string \<Rightarrow> string) \<Rightarrow> set_object environment \<Rightarrow> relation_object \<Rightarrow> int \<Rightarrow>
     relation_object option result" where
  "Relation_projectOut isl_project qinv env r tvar =
     bind_result (isUFCallParam (rConjunctions r) tvar) (\<lambda>param.
       if param then Inr None
       else
         bind_result (superAffineRelation qinv env r UFCallMap True) (\<lambda>(sup_r, ufcmap).
         bind_result (accept_Relation (VisitorProjectOut isl_project tvar (int (rInArity sup_r))) sup_r project_start) (\<lambda>(sup_r, pv).
         bind_result (Relation_reverseAffineSubstitution (newRelation pv) ufcmap) (\<lambda>res.
         bind_result (accept_Relation (VisitorProjectOutCleanUp tvar) res 0) (\<lambda>(res, cv).
           Inr (Some res))))))"

section \<open>Simplification\<close>

definition Set_isDefault :: "(string \<Rightarrow> string) \<Rightarrow> set_object \<Rightarrow> bool result" where
  "Set_isDefault qinv s = bind_result (Set_new (mArity s)) (Set_eq qinv s)"

definition Relation_isDefault :: "(string \<Rightarrow> string) \<Rightarrow> relation_object \<Rightarrow> bool result" where
  "Relation_isDefault qinv r = Relation_eq qinv r (Relation_new (rInArity r) (rOutArity r))"

text \<open>
  The loop over the variables, from the last to the first. \<open>None\<close> stands for \<open>NULL\<close>; it is returned as soon
  as the set equals a new one.
\<close>

definition simplify_step ::
  "('a \<Rightarrow> int \<Rightarrow> 'a option result) \<Rightarrow> ('a \<Rightarrow> bool result) \<Rightarrow> nat list \<Rightarrow> 'a option \<Rightarrow> nat \<Rightarrow> 'a option result" where
  "simplify_step projectOut isDefault parallelTvs state i = (case state of
     None \<Rightarrow> Inr None
   | Some s \<Rightarrow>
       if i \<in> set parallelTvs then Inr (Some s)
       else
         bind_result (projectOut s (int i)) (\<lambda>temp.
           let s = (case temp of None \<Rightarrow> s | Some t \<Rightarrow> t) in
           bind_result (isDefault s) (\<lambda>d. Inr (if d then None else Some s))))"

definition Set_simplifyForPartialParallel ::
  "(set_object \<Rightarrow> set_object result) \<Rightarrow> (set_object \<Rightarrow> int \<Rightarrow> set_object result) \<Rightarrow> (string \<Rightarrow> string) \<Rightarrow>
     set_object environment \<Rightarrow> set_object \<Rightarrow> nat list \<Rightarrow> set_object option result" where
  "Set_simplifyForPartialParallel thru_isl isl_project qinv env s parallelTvs =
     bind_result (Set_copy qinv s) (\<lambda>res.
     bind_result (Set_normalize thru_isl qinv env res True) (\<lambda>res.
       fold_result (simplify_step (Set_projectOut isl_project qinv env) (Set_isDefault qinv) parallelTvs)
         (Some res) (rev [0..<mArity s])))"

definition Relation_simplifyForPartialParallel ::
  "(set_object \<Rightarrow> int \<Rightarrow> set_object result) \<Rightarrow> (string \<Rightarrow> string) \<Rightarrow> set_object environment \<Rightarrow> relation_object \<Rightarrow>
     nat list \<Rightarrow> relation_object option result" where
  "Relation_simplifyForPartialParallel isl_project qinv env r parallelTvs =
     bind_result (Relation_copy qinv r) (\<lambda>res.
       fold_result (simplify_step (Relation_projectOut isl_project qinv env) (Relation_isDefault qinv) parallelTvs)
         (Some res) (rev [0..<rInArity r + rOutArity r]))"

end
