(* ===== verification/Rebuild.thy ===== *)
theory Rebuild
  imports Affine
begin

text \<open>
  Visitors that build a new conjunction from one they visit, replacing each term of a constraint that is
  not in an argument: \<open>VisitorSuperAffineSet\<close> and \<open>VisitorReverseAffineSubstitution\<close>. What they build,
  stated once for both.
\<close>

section \<open>What is built\<close>

definition rebuild_exp :: "(trm \<Rightarrow> trm) \<Rightarrow> exp \<Rightarrow> exp" where
  "rebuild_exp f e = foldl addTerm empty_exp (map f (mTerms e))"

definition rebuild_conj :: "(trm \<Rightarrow> trm) \<Rightarrow> conjunction \<Rightarrow> conjunction" where
  "rebuild_conj f c = build_conj (mTupleDecl c) (mInArity c)
     (map (rebuild_exp f) (mEqualities c)) (map (rebuild_exp f) (mInequalities c))"

context term_property
begin

lemma all_addTerms: "list_all P (mTerms e) \<Longrightarrow> list_all P ts \<Longrightarrow> list_all P (mTerms (foldl addTerm e ts))"
  by (induction ts arbitrary: e) (auto simp: all_addTerm)

lemma all_rebuild_exp: "\<forall>t \<in> set (mTerms e). P (f t) \<Longrightarrow> list_all P (mTerms (rebuild_exp f e))"
  unfolding rebuild_exp_def by (rule all_addTerms) (auto simp: list_all_iff)

lemma conj_all_rebuild:
  assumes "\<forall>e \<in> set (constraints_of c). \<forall>t \<in> set (mTerms e). P (f t)"
  shows "conj_all P (rebuild_conj f c)"
proof -
  have "list_all P (mTerms (rebuild_exp f e))" if "e \<in> set (constraints_of c)" for e
    using assms that by (intro all_rebuild_exp) blast
  then show ?thesis unfolding rebuild_conj_def by (intro conj_all_build) (auto simp: constraints_of_def)
qed

end

definition plain_trm :: "trm \<Rightarrow> bool" where
  "plain_trm t \<longleftrightarrow> wf_trm t \<and> has_args t \<and> args_kind_trm t"

lemma plain_exp_terms: "plain_exp e \<longleftrightarrow> (\<forall>t \<in> set (mTerms e). plain_trm t)"
  by (auto simp: plain_exp_def plain_trm_def wf_exp_iff has_args_terms args_kind_terms list_all_iff)

interpretation plain_trm: term_property plain_trm
proof unfold_locales
  show "plain_trm (setCoefficient k t) = plain_trm t" for k t by (cases t) (simp_all add: plain_trm_def)
qed

lemma rebuild_exp_plain:
  assumes "\<forall>t \<in> set (mTerms e). plain_trm (f t)"
  shows "plain_exp (rebuild_exp f e)" "eval_exp I (rebuild_exp f e) = sum_list (map (\<lambda>t. eval_trm I (f t)) (mTerms e))"
proof -
  show "plain_exp (rebuild_exp f e)"
    using plain_trm.all_rebuild_exp[OF assms] by (simp add: plain_exp_terms list_all_iff)
  have "list_all wf_trm (map f (mTerms e))" using assms by (auto simp: list_all_iff plain_trm_def)
  then show "eval_exp I (rebuild_exp f e) = sum_list (map (\<lambda>t. eval_trm I (f t)) (mTerms e))"
    by (simp add: rebuild_exp_def eval_addTerms comp_def)
qed

text \<open>Where the replaced terms have the values of the old ones, the points are the same.\<close>

lemma rebuild_conj_plain:
  assumes c: "plain_conj c" and f: "\<forall>e \<in> set (constraints_of c). \<forall>t \<in> set (mTerms e). plain_trm (f t)"
  shows "plain_conj (rebuild_conj f c)" "conj_arity (rebuild_conj f c) = conj_arity c"
    "conj_holds I (rebuild_conj f c) \<longleftrightarrow> decl_holds I (mTupleDecl c)
      \<and> (\<forall>e \<in> set (mEqualities c). sum_list (map (\<lambda>t. eval_trm I (f t)) (mTerms e)) = 0)
      \<and> (\<forall>e \<in> set (mInequalities c). sum_list (map (\<lambda>t. eval_trm I (f t)) (mTerms e)) \<ge> 0)"
    "\<forall>e \<in> set (constraints_of c). \<forall>t \<in> set (mTerms e). eval_trm I (f t) = eval_trm J t \<Longrightarrow> tv I = tv J \<Longrightarrow>
      conj_holds I (rebuild_conj f c) \<longleftrightarrow> conj_holds J c"
proof -
  have p: "plain_exp (rebuild_exp f e)" if "e \<in> set (constraints_of c)" for e
    using rebuild_exp_plain(1) f that by blast
  have plain: "\<forall>e \<in> set (map (rebuild_exp f) (mEqualities c)) \<union> set (map (rebuild_exp f) (mInequalities c)). plain_exp e"
    using p by (auto simp: constraints_of_def)
  show "plain_conj (rebuild_conj f c)" "conj_arity (rebuild_conj f c) = conj_arity c"
    using build_conj_plain[OF plain] c by (simp_all add: rebuild_conj_def plain_conj_def conj_arity_def)
  have wf: "\<forall>e \<in> set (map (rebuild_exp f) (mEqualities c)) \<union> set (map (rebuild_exp f) (mInequalities c)). wf_exp e"
    using plain by (auto simp: plain_exp_def)
  have v: "eval_exp I (rebuild_exp f e) = sum_list (map (\<lambda>t. eval_trm I (f t)) (mTerms e))"
    if "e \<in> set (constraints_of c)" for e
    using rebuild_exp_plain(2) f that by blast
  show h: "conj_holds I (rebuild_conj f c) \<longleftrightarrow> decl_holds I (mTupleDecl c)
      \<and> (\<forall>e \<in> set (mEqualities c). sum_list (map (\<lambda>t. eval_trm I (f t)) (mTerms e)) = 0)
      \<and> (\<forall>e \<in> set (mInequalities c). sum_list (map (\<lambda>t. eval_trm I (f t)) (mTerms e)) \<ge> 0)"
    unfolding rebuild_conj_def build_conj_holds(2)[OF wf] holds_eq_def holds_ineq_def
    using v by (auto simp: constraints_of_def)
  assume same: "\<forall>e \<in> set (constraints_of c). \<forall>t \<in> set (mTerms e). eval_trm I (f t) = eval_trm J t" "tv I = tv J"
  have "sum_list (map (\<lambda>t. eval_trm I (f t)) (mTerms e)) = eval_exp J e" if "e \<in> set (constraints_of c)" for e
    using same(1) that by (auto simp: eval_exp_terms intro!: arg_cong[of _ _ sum_list])
  then show "conj_holds I (rebuild_conj f c) \<longleftrightarrow> conj_holds J c"
    using same(2) unfolding h by (auto simp: conj_holds_def constraints_of_def holds_eq_def holds_ineq_def decl_holds_def)
qed

section \<open>Visitors that build it\<close>

text \<open>
  The fields of such a visitor: the expression and the conjunction it is building, the conjunctions built, and
  a field that the terms update. \<open>top\<close> says that the visitor is in a constraint and in no argument.
\<close>

locale rebuilder =
  fixes v :: "'s visitor" and f :: "trm \<Rightarrow> trm" and g :: "trm \<Rightarrow> 'a \<Rightarrow> 'a" and ok :: "trm \<Rightarrow> bool"
    and top :: "'s \<Rightarrow> bool" and good :: "'a \<Rightarrow> bool"
    and ex :: "'s \<Rightarrow> exp" and cj :: "'s \<Rightarrow> conjunction" and built :: "'s \<Rightarrow> sparse" and aux :: "'s \<Rightarrow> 'a"
  assumes visit_term: "ok t \<Longrightarrow> top s \<Longrightarrow> good (aux s) \<Longrightarrow> \<exists>s'. accept_trm v t s = Inr (t, s') \<and> top s' \<and> good (aux s') \<and>
        ex s' = addTerm (ex s) (f t) \<and> aux s' = g t (aux s) \<and> cj s' = cj s \<and> built s' = built s"
    and enter: "mExpType e \<noteq> Expression \<Longrightarrow> \<exists>s'. preVisitExp v e s = Inr s' \<and> top s' \<and> ex s' = empty_exp \<and>
        aux s' = aux s \<and> cj s' = cj s \<and> built s' = built s"
    and leave: "mExpType e \<noteq> Expression \<Longrightarrow> \<exists>s'. postVisitExp v e s = Inr s' \<and> aux s' = aux s \<and> built s' = built s \<and>
        cj s' = (if mExpType e = Inequality then addInequality (cj s) (ex s) else addEquality (cj s) (ex s))"
    and enter_conj: "plain_conj c \<Longrightarrow> \<exists>s'. preVisitConjunction v c s = Inr s' \<and> aux s' = aux s \<and> built s' = built s \<and>
        cj s' = (Conjunction_of (mTupleDecl c))\<lparr>mInArity := mInArity c\<rparr>"
    and leave_conj: "\<exists>s'. postVisitConjunction v c s = Inr (c, s') \<and> aux s' = aux s \<and> built s' = built s @ [cj s]"
begin

lemma constraint:
  assumes "mExpType e \<noteq> Expression" "list_all ok (mTerms e)" "good (aux s)"
  shows "\<exists>s'. accept_exp v e s = Inr (e, s') \<and> good (aux s') \<and> aux s' = fold g (mTerms e) (aux s) \<and> built s' = built s \<and>
    cj s' = (if mExpType e = Inequality then addInequality else addEquality) (cj s) (rebuild_exp f e)"
proof -
  obtain ts et where e: "e = Exp ts et" by (cases e)
  obtain s1 where s1: "preVisitExp v e s = Inr s1" "top s1" "ex s1 = empty_exp" "aux s1 = aux s" "cj s1 = cj s" "built s1 = built s"
    using enter[OF assms(1)] by blast
  let ?Q = "\<lambda>us s'. top s' \<and> good (aux s') \<and> ex s' = foldl addTerm empty_exp (map f us) \<and> aux s' = fold g us (aux s)
    \<and> cj s' = cj s \<and> built s' = built s"
  have "\<exists>s'. visit_all (accept_trm v) ts s1 = Inr (ts, s') \<and> ?Q ts s'"
  proof (rule visit_all_same_rule[of ?Q])
    fix us t s2 assume t: "t \<in> set ts" and Q: "?Q us s2"
    have "ok t" using assms(2) t e by (simp add: list_all_iff)
    from visit_term[OF this, of s2] Q show "\<exists>s'. accept_trm v t s2 = Inr (t, s') \<and> ?Q (us @ [t]) s'" by auto
  qed (use s1 assms(3) in simp)
  then obtain s2 where s2: "visit_all (accept_trm v) ts s1 = Inr (ts, s2)" "?Q ts s2" by blast
  obtain s3 where s3: "postVisitExp v e s2 = Inr s3" "aux s3 = aux s2" "built s3 = built s2"
    "cj s3 = (if mExpType e = Inequality then addInequality (cj s2) (ex s2) else addEquality (cj s2) (ex s2))"
    using leave[OF assms(1)] by blast
  have "accept_exp v e s = Inr (e, s3)" using s1(1) s2(1) s3(1) by (simp add: e)
  moreover have "good (aux s3) \<and> aux s3 = fold g (mTerms e) (aux s) \<and> built s3 = built s \<and>
    cj s3 = (if mExpType e = Inequality then addInequality else addEquality) (cj s) (rebuild_exp f e)"
    using s2(2) s3(2-4) by (auto simp: e rebuild_exp_def)
  ultimately show ?thesis by blast
qed

lemma constraints:
  assumes "\<forall>e \<in> set es. mExpType e = et \<and> list_all ok (mTerms e)" "good (aux s)" "et \<noteq> Expression"
  shows "\<exists>s'. visit_all (accept_exp v) es s = Inr (es, s') \<and> good (aux s') \<and>
    aux s' = fold g (concat (map mTerms es)) (aux s) \<and> built s' = built s \<and>
    cj s' = foldl (if et = Inequality then addInequality else addEquality) (cj s) (map (rebuild_exp f) es)"
proof (rule visit_all_same_rule[of "\<lambda>us s'. good (aux s') \<and> aux s' = fold g (concat (map mTerms us)) (aux s) \<and>
    built s' = built s \<and> cj s' = foldl (if et = Inequality then addInequality else addEquality) (cj s) (map (rebuild_exp f) us)"])
  fix us e s1
  assume e: "e \<in> set es" and Q: "good (aux s1) \<and> aux s1 = fold g (concat (map mTerms us)) (aux s) \<and>
    built s1 = built s \<and> cj s1 = foldl (if et = Inequality then addInequality else addEquality) (cj s) (map (rebuild_exp f) us)"
  have "mExpType e = et" "list_all ok (mTerms e)" using assms(1) e by simp_all
  with constraint[of e s1] Q assms(3) show "\<exists>s'. accept_exp v e s1 = Inr (e, s') \<and> (good (aux s') \<and>
    aux s' = fold g (concat (map mTerms (us @ [e]))) (aux s) \<and> built s' = built s \<and>
    cj s' = foldl (if et = Inequality then addInequality else addEquality) (cj s) (map (rebuild_exp f) (us @ [e])))"
    by auto
qed (simp add: assms(2))

lemma conjunction:
  assumes c: "plain_conj c" and ok: "conj_all ok c" and good: "good (aux s)"
  shows "\<exists>s'. accept_conj v c s = Inr (c, s') \<and> good (aux s') \<and>
    aux s' = fold g (concat (map mTerms (constraints_of c))) (aux s) \<and> built s' = built s @ [rebuild_conj f c]"
proof -
  have kinds: "\<forall>e \<in> set (mEqualities c). mExpType e = Equality \<and> list_all ok (mTerms e)"
    "\<forall>e \<in> set (mInequalities c). mExpType e = Inequality \<and> list_all ok (mTerms e)"
    using c ok by (auto simp: plain_conj_def conj_kinds_def conj_all_def)
  obtain s1 where s1: "preVisitConjunction v c s = Inr s1" "aux s1 = aux s" "built s1 = built s"
    "cj s1 = (Conjunction_of (mTupleDecl c))\<lparr>mInArity := mInArity c\<rparr>" using enter_conj[OF c] by blast
  obtain s2 where s2: "visit_all (accept_exp v) (mEqualities c) s1 = Inr (mEqualities c, s2)" "good (aux s2)"
    "aux s2 = fold g (concat (map mTerms (mEqualities c))) (aux s)" "built s2 = built s"
    "cj s2 = foldl addEquality (cj s1) (map (rebuild_exp f) (mEqualities c))"
    using constraints[OF kinds(1), of s1] s1 good by auto
  obtain s3 where s3: "visit_all (accept_exp v) (mInequalities c) s2 = Inr (mInequalities c, s3)" "good (aux s3)"
    "aux s3 = fold g (concat (map mTerms (mInequalities c))) (aux s2)" "built s3 = built s2"
    "cj s3 = foldl addInequality (cj s2) (map (rebuild_exp f) (mInequalities c))"
    using constraints[OF kinds(2), of s2] s2 by auto
  obtain s4 where s4: "postVisitConjunction v c s3 = Inr (c, s4)" "aux s4 = aux s3" "built s4 = built s3 @ [cj s3]"
    using leave_conj by blast
  have "accept_conj v c s = Inr (c, s4)" using s1(1) s2(1) s3(1) s4(1) by (simp add: accept_conj_def)
  moreover have "cj s3 = rebuild_conj f c" using s1(4) s2(5) s3(5) by (simp add: rebuild_conj_def build_conj_def)
  ultimately show ?thesis using s2 s3 s4 by (simp add: constraints_of_def)
qed

lemma conjunctions:
  assumes "\<forall>c \<in> set cs. plain_conj c \<and> conj_all ok c" "good (aux s)"
  shows "\<exists>s'. visit_all (accept_conj v) cs s = Inr (cs, s') \<and> good (aux s') \<and>
    aux s' = fold g (concat (map mTerms (concat (map constraints_of cs)))) (aux s) \<and>
    built s' = built s @ map (rebuild_conj f) cs"
proof (rule visit_all_same_rule[of "\<lambda>us s'. good (aux s') \<and>
    aux s' = fold g (concat (map mTerms (concat (map constraints_of us)))) (aux s) \<and> built s' = built s @ map (rebuild_conj f) us"])
  fix us c s1
  assume "c \<in> set cs" "good (aux s1) \<and> aux s1 = fold g (concat (map mTerms (concat (map constraints_of us)))) (aux s) \<and>
    built s1 = built s @ map (rebuild_conj f) us"
  with assms(1) conjunction[of c s1] show "\<exists>s'. accept_conj v c s1 = Inr (c, s') \<and> (good (aux s') \<and>
    aux s' = fold g (concat (map mTerms (concat (map constraints_of (us @ [c]))))) (aux s) \<and>
    built s' = built s @ map (rebuild_conj f) (us @ [c]))" by auto
qed (simp add: assms(2))

end

end
