(* ===== verification/Super_Affine.thy ===== *)
theory Super_Affine
  imports Rebuild
begin

text \<open>
  What \<open>superAffineSet\<close> and \<open>reverseAffineSubstitution\<close> do to the points of a set: where each symbol has
  the value of its call, a set and its super affine set have the same points, and so have a set with symbols
  and the one with the calls put back.
\<close>

section \<open>Calls and their symbols\<close>

definition top_terms :: "sparse \<Rightarrow> trm list" where
  "top_terms cs = concat (map mTerms (concat (map constraints_of cs)))"

definition no_calls :: "conjunction \<Rightarrow> bool" where
  "no_calls c \<longleftrightarrow> conj_all (\<lambda>t. \<not> isUFCall t) c"

definition map_call_list :: "ufcall_map \<Rightarrow> trm list" where
  "map_call_list m = map fst (mUFC2VarParam m)"

text \<open>Every symbol can be read as a symbolic constant, no two calls share one, and none is in use already.\<close>

definition symbols_ok :: "trm list \<Rightarrow> bool" where
  "symbols_ok ts \<longleftrightarrow> list_all (\<lambda>t. isUFCall t \<longrightarrow> wf_trm (VarTerm 1 (call_symbol t)) \<and>
     list_all (\<lambda>u. (if isUFCall u then call_symbol t = call_symbol u \<longrightarrow> setCoefficient 1 t = setCoefficient 1 u
       else call_symbol t \<noteq> symbol u)) ts) ts"

text \<open>The interpretation \<open>I\<close>, with the symbols of a map standing for the values of its calls in \<open>K\<close>.\<close>

definition with_symbols :: "ufcall_map \<Rightarrow> interp \<Rightarrow> interp \<Rightarrow> interp" where
  "with_symbols m K I = I\<lparr>sym := \<lambda>x. case find_VarTerm m (VarTerm 1 x) of None \<Rightarrow> sym I x | Some u \<Rightarrow> eval_trm K u\<rparr>"

lemma with_symbols_simps [simp]: "tv (with_symbols m K I) = tv I" "uf (with_symbols m K I) = uf I"
  by (simp_all add: with_symbols_def)

lemma with_symbols_sym:
  assumes "ufcall_map_ok m"
  shows "u \<in> map_calls m \<Longrightarrow> sym (with_symbols m K I) (call_symbol u) = eval_trm K u"
    "x \<notin> call_symbol ` map_calls m \<Longrightarrow> sym (with_symbols m K I) x = sym I x"
proof -
  show "u \<in> map_calls m \<Longrightarrow> sym (with_symbols m K I) (call_symbol u) = eval_trm K u"
    using find_VarTerm_iff[OF assms, of 1 "call_symbol u" u] by (simp add: with_symbols_def)
  assume "x \<notin> call_symbol ` map_calls m"
  have "find_VarTerm m (VarTerm 1 x) = None"
  proof (cases "find_VarTerm m (VarTerm 1 x)")
    case (Some u)
    then have "u \<in> map_calls m \<and> call_symbol u = x" using find_VarTerm_iff[OF assms] by blast
    with \<open>x \<notin> call_symbol ` map_calls m\<close> show ?thesis by blast
  qed
  then show "sym (with_symbols m K I) x = sym I x" by (simp add: with_symbols_def)
qed

lemma map_calls_list: "map_calls m = set (map_call_list m)"
  by (simp add: map_calls_def map_call_list_def)

lemma top_terms_simps [simp]: "top_terms [] = []" "top_terms (c # cs) = concat (map mTerms (constraints_of c)) @ top_terms cs"
  by (simp_all add: top_terms_def)

interpretation no_call: term_property "\<lambda>t. \<not> isUFCall t"
proof unfold_locales
  show "(\<not> isUFCall (setCoefficient k t)) = (\<not> isUFCall t)" for k t by (simp add: isUFCall_def)
qed

section \<open>The visitor that replaces calls\<close>

definition affine_trm :: "trm \<Rightarrow> trm" where
  "affine_trm t = (if isUFCall t then VarTerm (coefficient t) (call_symbol t) else t)"

definition affine_step :: "trm \<Rightarrow> ufcall_map \<Rightarrow> ufcall_map" where
  "affine_step t m = (if isUFCall t then snd (find_UFCallTerm m t) else m)"

lemma affine_hooks [simp]:
  "preVisitTerm VisitorSuperAffineSet t s = Inr (affine_add t s)"
  "preVisitTupleVarTerm VisitorSuperAffineSet t s = Inr (t, affine_add t s)"
  "preVisitVarTerm VisitorSuperAffineSet t s = Inr (affine_add t s)"
  "preVisitUFCallTerm VisitorSuperAffineSet t s = Inr (if ufcDepth s = 0 then
      (let (vt, m) = find_UFCallTerm (ufcmap s) t
       in s\<lparr>ufcmap := m, affineExp := addTerm (affineExp s) (setCoefficient (coefficient t) vt)\<rparr>) else s)"
  "postVisitUFCallTerm VisitorSuperAffineSet t s = Inr (t, s)"
  "preVisitExp VisitorSuperAffineSet e s = Inr (if mExpType e = Expression then s\<lparr>ufcDepth := ufcDepth s + 1\<rparr>
      else s\<lparr>ufcDepth := 0, affineExp := empty_exp\<rparr>)"
  "postVisitExp VisitorSuperAffineSet e s = Inr (affine_leave e s)"
  by (simp_all add: VisitorSuperAffineSet_def base_Visitor_def)

text \<open>Arguments are passed over.\<close>

lemma affine_args:
  "args_kind_trm t \<Longrightarrow> ufcDepth s > 0 \<Longrightarrow> accept_trm VisitorSuperAffineSet t s = Inr (t, s)"
  "args_kind e \<Longrightarrow> mExpType e = Expression \<Longrightarrow> ufcDepth s \<ge> 0 \<Longrightarrow> accept_exp VisitorSuperAffineSet e s = Inr (e, s)"
proof (induction t and e arbitrary: s and s rule: trm.induct exp.induct)
  case (UFCallTerm c f args i)
  have "visit_all (accept_exp VisitorSuperAffineSet) args s = Inr (map id args, s)"
    by (rule visit_all_map) (use UFCallTerm in \<open>auto simp: list_all_iff\<close>)
  then show ?case using UFCallTerm.prems by simp
next
  case (Exp ts et)
  let ?s = "s\<lparr>ufcDepth := ufcDepth s + 1\<rparr>"
  have "visit_all (accept_trm VisitorSuperAffineSet) ts ?s = Inr (map id ts, ?s)"
    by (rule visit_all_map) (use Exp in \<open>auto simp: list_all_iff\<close>)
  then show ?case using Exp.prems by (simp add: affine_leave_def)
qed (simp_all add: affine_add_def)

lemma affine_start_conj_plain:
  "plain_conj c \<Longrightarrow> affine_start_conj c = Inr ((Conjunction_of (mTupleDecl c))\<lparr>mInArity := mInArity c\<rparr>)"
  by (simp add: affine_start_conj_def setInArity_def plain_conj_def Conjunction_of_def conj_arity_def)

lemma symbol_at_top:
  assumes "ufcall_map_ok m" "isUFCall t"
  shows "find_UFCallTerm m t = (VarTerm 1 (call_symbol t), affine_step t m)" "ufcall_map_ok (affine_step t m)"
proof -
  obtain vt m' where r: "find_UFCallTerm m t = (vt, m')" by (cases "find_UFCallTerm m t")
  note c = find_UFCallTerm_correct[OF assms r]
  show "find_UFCallTerm m t = (VarTerm 1 (call_symbol t), affine_step t m)" "ufcall_map_ok (affine_step t m)"
    using r c(1,2) assms(2) by (simp_all add: affine_step_def)
qed

interpretation affine: rebuilder VisitorSuperAffineSet affine_trm affine_step args_kind_trm "\<lambda>s :: affine_state. ufcDepth s = 0"
  ufcall_map_ok affineExp affineConj maffineConj ufcmap
proof unfold_locales
  fix t and s :: affine_state
  assume ok: "args_kind_trm t" and top: "ufcDepth s = 0" and m: "ufcall_map_ok (ufcmap s)"
  show "\<exists>s'. accept_trm VisitorSuperAffineSet t s = Inr (t, s') \<and> ufcDepth s' = 0 \<and> ufcall_map_ok (ufcmap s') \<and>
    affineExp s' = addTerm (affineExp s) (affine_trm t) \<and> ufcmap s' = affine_step t (ufcmap s) \<and>
    affineConj s' = affineConj s \<and> maffineConj s' = maffineConj s"
  proof (cases t)
    case (UFCallTerm c f args i)
    have call: "isUFCall t" by (simp add: UFCallTerm isUFCall_def)
    let ?s = "s\<lparr>ufcmap := affine_step t (ufcmap s), affineExp := addTerm (affineExp s) (affine_trm t)\<rparr>"
    have "visit_all (accept_exp VisitorSuperAffineSet) args ?s = Inr (map id args, ?s)"
      by (rule visit_all_map) (use ok top UFCallTerm affine_args(2) in \<open>auto simp: list_all_iff\<close>)
    moreover have "preVisitUFCallTerm VisitorSuperAffineSet t s = Inr ?s"
      using top call symbol_at_top[OF m call] by (simp add: affine_trm_def)
    ultimately have "accept_trm VisitorSuperAffineSet t s = Inr (t, ?s)" by (simp add: UFCallTerm del: affine_hooks(4))
    then show ?thesis using top symbol_at_top(2)[OF m call] by simp
  qed (use top m in \<open>simp_all add: affine_add_def affine_trm_def affine_step_def isUFCall_def\<close>)
qed (auto simp: affine_leave_def affine_start_conj_plain VisitorSuperAffineSet_def base_Visitor_def)

text \<open>The map afterwards.\<close>

lemma affine_map:
  assumes "ufcall_map_ok m" "m' = fold affine_step ts m"
  shows "ufcall_map_ok m'" "map_calls m \<subseteq> map_calls m'"
    "map_calls m' \<subseteq> setCoefficient 1 ` set (filter isUFCall ts) \<union> map_calls m"
    "\<forall>t \<in> set (filter isUFCall ts). \<exists>u \<in> map_calls m'. call_symbol u = call_symbol t"
proof -
  have "ufcall_map_ok m' \<and> map_calls m \<subseteq> map_calls m' \<and>
    map_calls m' \<subseteq> setCoefficient 1 ` set (filter isUFCall ts) \<union> map_calls m \<and>
    (\<forall>t \<in> set (filter isUFCall ts). \<exists>u \<in> map_calls m'. call_symbol u = call_symbol t)"
    using assms
  proof (induction ts arbitrary: m)
    case (Cons t ts)
    show ?case
    proof (cases "isUFCall t")
      case True
      obtain vt m1 where r: "find_UFCallTerm m t = (vt, m1)" by (cases "find_UFCallTerm m t")
      note c = find_UFCallTerm_correct[OF Cons.prems(1) True r]
      have "m1 = affine_step t m" using r True by (simp add: affine_step_def)
      with Cons.prems(2) have "m' = fold affine_step ts m1" by simp
      note IH = Cons.IH[OF c(2) this]
      obtain u where u: "u \<in> map_calls m1" "call_symbol u = call_symbol t" using c(5) by blast
      have "map_calls m' \<subseteq> setCoefficient 1 ` set (filter isUFCall (t # ts)) \<union> map_calls m"
        using IH c(4) True by auto
      moreover have "\<forall>t \<in> set (filter isUFCall (t # ts)). \<exists>u \<in> map_calls m'. call_symbol u = call_symbol t"
        using IH u True by (simp only: filter.simps if_True list.set ball_simps) blast
      moreover have "ufcall_map_ok m'" "map_calls m \<subseteq> map_calls m'" using IH c(3) by blast+
      ultimately show ?thesis by blast
    next
      case False
      then show ?thesis using Cons by (simp add: affine_step_def)
    qed
  qed simp
  then show "ufcall_map_ok m'" "map_calls m \<subseteq> map_calls m'"
    "map_calls m' \<subseteq> setCoefficient 1 ` set (filter isUFCall ts) \<union> map_calls m"
    "\<forall>t \<in> set (filter isUFCall ts). \<exists>u \<in> map_calls m'. call_symbol u = call_symbol t" by blast+
qed

lemma symbols_ok_facts:
  assumes "symbols_ok ts" "t \<in> set ts" "isUFCall t"
  shows "wf_trm (VarTerm c (call_symbol t))" "u \<in> set ts \<Longrightarrow> isUFCall u \<Longrightarrow> call_symbol t = call_symbol u \<Longrightarrow>
      setCoefficient 1 t = setCoefficient 1 u"
    "u \<in> set ts \<Longrightarrow> \<not> isUFCall u \<Longrightarrow> call_symbol t \<noteq> symbol u"
proof -
  have "wf_trm (VarTerm 1 (call_symbol t))"
    "\<forall>u \<in> set ts. if isUFCall u then call_symbol t = call_symbol u \<longrightarrow> setCoefficient 1 t = setCoefficient 1 u
       else call_symbol t \<noteq> symbol u"
    using assms unfolding symbols_ok_def list_all_iff by blast+
  then show "wf_trm (VarTerm c (call_symbol t))" "u \<in> set ts \<Longrightarrow> isUFCall u \<Longrightarrow> call_symbol t = call_symbol u \<Longrightarrow>
      setCoefficient 1 t = setCoefficient 1 u"
    "u \<in> set ts \<Longrightarrow> \<not> isUFCall u \<Longrightarrow> call_symbol t \<noteq> symbol u" by auto
qed

lemma unit_same: "coefficient u = 1 \<Longrightarrow> setCoefficient 1 u = u"
  by (cases u) simp_all

text \<open>Where the symbols stand for the calls, replacing a call by its symbol keeps its value.\<close>

lemma affine_trm_value:
  assumes m: "ufcall_map_ok m" and ok: "symbols_ok (ts @ map_call_list m)" and m': "m' = fold affine_step ts m"
    and t: "t \<in> set ts"
  shows "eval_trm (with_symbols m' K I) (affine_trm t) = eval_trm (if isUFCall t then K else I) t"
proof -
  note a = affine_map[OF m m']
  have origin: "\<exists>w \<in> set (ts @ map_call_list m). isUFCall w \<and> u = setCoefficient 1 w" if "u \<in> map_calls m'" for u
  proof -
    have "u \<in> setCoefficient 1 ` set (filter isUFCall ts) \<union> map_calls m" using that a(3) by blast
    moreover have "isUFCall u \<and> u = setCoefficient 1 u" if "u \<in> map_calls m" using map_calls_unit[OF m that] unit_same by simp
    ultimately show ?thesis by (auto simp: map_calls_list)
  qed
  have t': "t \<in> set (ts @ map_call_list m)" using t by simp
  show ?thesis
  proof (cases "isUFCall t")
    case True
    obtain u where u: "u \<in> map_calls m'" "call_symbol u = call_symbol t" using a(4) t True by auto
    then obtain w where w: "w \<in> set (ts @ map_call_list m)" "isUFCall w" "u = setCoefficient 1 w" using origin by blast
    have "setCoefficient 1 w = setCoefficient 1 t"
      using symbols_ok_facts(2)[OF ok w(1,2) t' True] u(2) w(3) by simp
    then have "sym (with_symbols m' K I) (call_symbol t) = eval_trm K (setCoefficient 1 t)"
      using with_symbols_sym(1)[OF a(1) u(1), of K I] u(2) w(3) by simp
    then show ?thesis using True by (simp add: affine_trm_def eval_trm_factor[of K t])
  next
    case False
    have "symbol t \<notin> call_symbol ` map_calls m'"
    proof
      assume "symbol t \<in> call_symbol ` map_calls m'"
      then obtain u where "u \<in> map_calls m'" "symbol t = call_symbol u" by blast
      with origin obtain w where "w \<in> set (ts @ map_call_list m)" "isUFCall w" "symbol t = call_symbol w" by fastforce
      with symbols_ok_facts(3)[OF ok this(1,2) t' False] show False by simp
    qed
    then have "sym (with_symbols m' K I) (symbol t) = sym I (symbol t)" by (rule with_symbols_sym(2)[OF a(1)])
    then show ?thesis using False by (cases t) (simp_all add: affine_trm_def isUFCall_def)
  qed
qed

text \<open>The conjunction built has no calls, and its points are those of the old one.\<close>

lemma affine_conj_correct:
  assumes c: "plain_conj c" and m: "ufcall_map_ok m" and ok: "symbols_ok (top_terms [c] @ map_call_list m)"
    and m': "m' = fold affine_step (top_terms [c]) m"
  shows "plain_conj (rebuild_conj affine_trm c)" "no_calls (rebuild_conj affine_trm c)"
    "conj_holds (with_symbols m' I I) (rebuild_conj affine_trm c) \<longleftrightarrow> conj_holds I c"
proof -
  have top: "t \<in> set (top_terms [c] @ map_call_list m)" if "e \<in> set (constraints_of c)" "t \<in> set (mTerms e)" for e t
    using that by (auto simp: top_terms_def)
  have p: "\<forall>e \<in> set (constraints_of c). \<forall>t \<in> set (mTerms e). plain_trm (affine_trm t)"
  proof (intro ballI)
    fix e t assume e: "e \<in> set (constraints_of c)" "t \<in> set (mTerms e)"
    have "plain_trm t" using c e by (auto simp: plain_conj_exps constraints_of_def plain_exp_terms)
    then show "plain_trm (affine_trm t)" using symbols_ok_facts(1)[OF ok top[OF e]]
      by (simp add: affine_trm_def plain_trm_def)
  qed
  show "plain_conj (rebuild_conj affine_trm c)" by (rule rebuild_conj_plain(1)[OF c p])
  show "no_calls (rebuild_conj affine_trm c)" unfolding no_calls_def
    by (rule no_call.conj_all_rebuild) (simp add: affine_trm_def isUFCall_def)
  show "conj_holds (with_symbols m' I I) (rebuild_conj affine_trm c) \<longleftrightarrow> conj_holds I c"
  proof (rule rebuild_conj_plain(4)[OF c p]; (intro ballI)?)
    fix e t assume "e \<in> set (constraints_of c)" "t \<in> set (mTerms e)"
    then have "t \<in> set (top_terms [c])" by (auto simp: top_terms_def)
    from affine_trm_value[OF m ok m' this, of I I]
    show "eval_trm (with_symbols m' I I) (affine_trm t) = eval_trm I t" by simp
  qed simp
qed

section \<open>The visitor that puts calls back\<close>

definition reverse_trm :: "ufcall_map \<Rightarrow> trm \<Rightarrow> trm" where
  "reverse_trm m t = (case t of VarTerm c x \<Rightarrow> reverse_var m t | _ \<Rightarrow> t)"

interpretation reverse: rebuilder "VisitorReverseAffineSubstitution m" "reverse_trm m" "\<lambda>t u. u" "\<lambda>t. \<not> isUFCall t"
  "\<lambda>s :: reverse_state. visit s" "\<lambda>_. True" nonAffineExp nonAffineConj nonMAffineConj "\<lambda>_. ()" for m
proof unfold_locales
  fix t and s :: reverse_state assume "\<not> isUFCall t" "visit s"
  then show "\<exists>s'. accept_trm (VisitorReverseAffineSubstitution m) t s = Inr (t, s') \<and> visit s' \<and> True \<and>
    nonAffineExp s' = addTerm (nonAffineExp s) (reverse_trm m t) \<and> () = () \<and>
    nonAffineConj s' = nonAffineConj s \<and> nonMAffineConj s' = nonMAffineConj s" for m
    by (cases t) (simp_all add: VisitorReverseAffineSubstitution_def base_Visitor_def reverse_add_def reverse_trm_def isUFCall_def)
qed (auto simp: affine_start_conj_plain VisitorReverseAffineSubstitution_def base_Visitor_def)

lemma reverse_trm_value:
  assumes m: "ufcall_map_ok m" and t: "\<not> isUFCall t"
  shows "eval_trm (with_symbols m I I) t = eval_trm I (reverse_trm m t)"
proof (cases t)
  case (VarTerm c x)
  show ?thesis
  proof (cases "find_VarTerm m (VarTerm c x)")
    case None
    then have "find_VarTerm m (VarTerm 1 x) = None" by (simp add: find_VarTerm_def)
    with None VarTerm show ?thesis by (simp add: reverse_trm_def reverse_var_def with_symbols_def)
  next
    case (Some u)
    then have "u \<in> map_calls m \<and> call_symbol u = x" by (simp add: find_VarTerm_iff[OF m])
    then have u: "u \<in> map_calls m" "x = call_symbol u" by simp_all
    have "setCoefficient 1 u = u" using map_calls_unit[OF m u(1)] by (intro unit_same) simp
    then have "sym (with_symbols m I I) x = eval_trm I (setCoefficient 1 u)"
      unfolding u(2) using with_symbols_sym(1)[OF m u(1)] by simp
    with Some VarTerm show ?thesis by (simp add: reverse_trm_def reverse_var_def eval_setCoefficient[of I c u])
  qed
qed (use t in \<open>simp_all add: reverse_trm_def isUFCall_def\<close>)

lemma reverse_trm_plain:
  assumes "ufcall_map_ok m" "\<forall>u \<in> map_calls m. plain_trm u" "plain_trm t"
  shows "plain_trm (reverse_trm m t)"
proof (cases t)
  case (VarTerm c x)
  then show ?thesis using assms by (auto simp: reverse_trm_def reverse_var_def plain_trm.P_coefficient
      find_VarTerm_iff[OF assms(1)] split: option.splits)
qed (use assms(3) in \<open>simp_all add: reverse_trm_def\<close>)

lemma reverse_conj_correct:
  assumes c: "plain_conj c" "no_calls c" and m: "ufcall_map_ok m" "\<forall>u \<in> map_calls m. plain_trm u"
  shows "plain_conj (rebuild_conj (reverse_trm m) c)"
    "conj_holds I (rebuild_conj (reverse_trm m) c) \<longleftrightarrow> conj_holds (with_symbols m I I) c"
proof -
  have p: "\<forall>e \<in> set (constraints_of c). \<forall>t \<in> set (mTerms e). plain_trm (reverse_trm m t)"
    using c(1) reverse_trm_plain[OF m] by (auto simp: plain_conj_exps constraints_of_def plain_exp_terms)
  show "plain_conj (rebuild_conj (reverse_trm m) c)" by (rule rebuild_conj_plain(1)[OF c(1) p])
  show "conj_holds I (rebuild_conj (reverse_trm m) c) \<longleftrightarrow> conj_holds (with_symbols m I I) c"
  proof (rule rebuild_conj_plain(4)[OF c(1) p]; (intro ballI)?)
    fix e t assume "e \<in> set (constraints_of c)" "t \<in> set (mTerms e)"
    then have "\<not> isUFCall t" using c(2) by (auto simp: no_calls_def conj_all_def constraints_of_def list_all_iff)
    then show "eval_trm I (reverse_trm m t) = eval_trm (with_symbols m I I) t" by (simp add: reverse_trm_value[OF m(1)])
  qed simp
qed

end
