(* ===== verification/Bounds.thy ===== *)
theory Bounds
  imports Super_Affine
begin

text \<open>
  What \<open>boundDomainRange\<close> adds to a set: for each call in it, at any depth, that the arguments are in the
  declared domain of the function and the value in its range.
\<close>

section \<open>The bounds of a tuple of expressions\<close>

lemma assign_last: "\<forall>q \<in> set m. fst q < i \<Longrightarrow> std_assign (<) i v m = m @ [(i, v)]" for i :: nat
  by (induction m) (auto simp: incomparable_def)

definition tuple_map :: "exp list \<Rightarrow> sub_map" where
  "tuple_map es = map (\<lambda>i. (i, TupleVarTerm 1 (int i), es ! i)) [0..<length es]"

lemma bound_map:
  assumes "length td = length es" "\<forall>x \<in> set td. \<not> mIsConst x"
  shows "fold_result (\<lambda>submap i. bind_result (elemCreateTerm td i i) (\<lambda>t.
      case map Some es ! i of None \<Rightarrow> Inl (Assert_exception ''TupleExpTerm::cloneExp: NULL exp'')
      | Some elemExp \<Rightarrow> Inr (insertPair submap i t elemExp))) [] [0..<length es] = Inr (tuple_map es)"
proof -
  let ?f = "\<lambda>submap i. bind_result (elemCreateTerm td i i) (\<lambda>t.
      case map Some es ! i of None \<Rightarrow> Inl (Assert_exception ''TupleExpTerm::cloneExp: NULL exp'')
      | Some elemExp \<Rightarrow> Inr (insertPair submap i t elemExp))"
  have app: "fold_result ?f b (xs @ [x]) = bind_result (fold_result ?f b xs) (\<lambda>b'. ?f b' x)" for b xs x
    by (induction xs arbitrary: b) (auto simp: bind_result_def split: sum.splits)
  have "n \<le> length es \<Longrightarrow> fold_result ?f [] [0..<n] = Inr (map (\<lambda>i. (i, TupleVarTerm 1 (int i), es ! i)) [0..<n])" for n
  proof (induction n)
    case (Suc n)
    have "elemCreateTerm td n n = Inr (TupleVarTerm 1 (int n))"
      using Suc.prems assms by (simp add: elemCreateTerm_def)
    with Suc show ?case by (simp add: app insertPair_def assign_last del: fold_result.simps)
  qed simp
  then show ?thesis by (simp add: tuple_map_def)
qed

lemma tuple_map_var: "\<forall>q \<in> set (tuple_map es). fst (snd q) = TupleVarTerm 1 (int (fst q))"
  by (auto simp: tuple_map_def)

lemma subExp_tuple_map:
  "i < length es \<Longrightarrow> subExp (tuple_map es) (TupleVarTerm c (int i)) = Some (es ! i)"
  "subExp (tuple_map es) t = Some x \<Longrightarrow> x \<in> set es"
proof -
  have "\<forall>i \<in> set is. i < length es \<Longrightarrow> i \<in> set is \<Longrightarrow>
    subExp (map (\<lambda>i. (i, TupleVarTerm 1 (int i), es ! i)) is) (TupleVarTerm c (int i)) = Some (es ! i)" for "is"
    by (induction "is") (auto simp: factorMatches_def Term_factorMatches_def)
  from this[of "[0..<length es]"] show "i < length es \<Longrightarrow> subExp (tuple_map es) (TupleVarTerm c (int i)) = Some (es ! i)"
    by (simp add: tuple_map_def)
  show "subExp (tuple_map es) t = Some x \<Longrightarrow> x \<in> set es"
    using subExp_Some[of "tuple_map es" t x] by (auto simp: tuple_map_def)
qed

text \<open>Variables of an expression all of whose own variables are replaced.\<close>

lemma tvars_substitute:
  assumes "\<forall>q \<in> set m. fst (snd q) = TupleVarTerm 1 (int (fst q))" "\<forall>q \<in> set m. list_all (tvars_within T) (mTerms (snd (snd q)))"
  shows "\<forall>l \<in> tvars e. subExp m (TupleVarTerm 1 l) \<noteq> None \<Longrightarrow> list_all (tvars_within T) (mTerms (substitute m e))"
  using assms
proof (induction m e rule: substitute.induct)
  case (1 m ts et)
  have step: "list_all (tvars_within T) (mTerms (subst_step m acc t))"
    if t: "t \<in> set ts" "list_all (tvars_within T) (mTerms acc)" for acc t
  proof (cases "subExp m t")
    case (Some s)
    then have "list_all (tvars_within T) (mTerms (multiplyBy s (coefficient t)))"
      using subExp_Some[OF Some] 1(4) by (auto simp: tvars_within.all_multiplyBy)
    with Some t(2) show ?thesis by (simp add: subst_step_def tvars_within.all_addExp)
  next
    case None
    have here: "\<forall>l \<in> tvars_trm t. subExp m (TupleVarTerm 1 l) \<noteq> None" using t(1) 1(2) by auto
    have "tvars_within T (subst_args m t)"
    proof (cases t)
      case (UFCallTerm c f args i)
      have "list_all (tvars_within T) (mTerms (substitute m a))" if "a \<in> set args" for a
        by (rule 1(1)[OF t(1) None UFCallTerm that]) (use here UFCallTerm that 1(3,4) in auto)
      then show ?thesis using UFCallTerm by (simp add: tvars_within.P_call)
    next
      case (TupleVarTerm c l)
      then show ?thesis using here None subExp_TupleVar(2)[OF 1(3), of c l] by simp
    qed (simp_all add: tvars_within_def)
    with None t(2) show ?thesis by (simp add: subst_step_def tvars_within.all_addTerm)
  qed
  have "set us \<subseteq> set ts \<Longrightarrow> list_all (tvars_within T) (mTerms acc) \<Longrightarrow>
    list_all (tvars_within T) (mTerms (foldl (subst_step m) acc us))" for us acc
    by (induction us arbitrary: acc) (auto simp: step)
  then have "list_all (tvars_within T) (mTerms (foldl (subst_step m) empty_exp ts))" by simp
  then show ?case unfolding substitute_eq by (intro tvars_within.all_addExp) simp_all
qed

text \<open>The constraints that bound a tuple of expressions hold where their values form a point of the bound.\<close>

definition at_point :: "interp \<Rightarrow> (int \<Rightarrow> int) \<Rightarrow> interp" where
  "at_point I p = I\<lparr>tv := p\<rparr>"

definition closed_conj :: "conjunction \<Rightarrow> bool" where
  "closed_conj c \<longleftrightarrow> conj_wf c \<and> conj_all has_args c \<and> conj_tvars c \<subseteq> {0..<int (conj_arity c)}"

definition built_conj :: "int set \<Rightarrow> conjunction \<Rightarrow> bool" where
  "built_conj T c \<longleftrightarrow> conj_wf c \<and> conj_all has_args c \<and> conj_kinds c \<and> conj_tvars c \<subseteq> T"

lemma conj_boundTupleExp_correct:
  assumes none: "no_inverses qinv" and c: "closed_conj c" and es: "length es = conj_arity c"
    "\<forall>e \<in> set es. wf_exp e \<and> has_args_exp e \<and> tvars e \<subseteq> T"
  obtains b where "conj_boundTupleExp qinv c (map Some es) = Inr b" "built_conj T b" "mTupleDecl b = []" "mInArity b = 0"
    "\<forall>I. conj_holds I b \<longleftrightarrow> conj_holds (at_point I (\<lambda>l. eval_exp I (es ! nat l))) c"
proof -
  let ?dup = "pushConstToConstraints c" and ?m = "tuple_map es"
  let ?r = "copyConstraintsFrom (Conjunction_new 0 0) ?dup"
  have wf: "conj_wf c" and ha: "conj_all has_args c" and tc: "conj_tvars c \<subseteq> {0..<int (conj_arity c)}"
    using c by (simp_all add: closed_conj_def)
  note P = pushConstToConstraints_sound[OF wf]
  have dup: "length (mTupleDecl ?dup) = length es" "conj_all has_args ?dup" "conj_all (tvars_within {0..<int (length es)}) ?dup"
  proof -
    show "length (mTupleDecl ?dup) = length es" using P(2) es(1) by (simp add: conj_arity_def)
    show "conj_all has_args ?dup" using ha by (intro has_args.conj_all_push_const) simp_all
    show "conj_all (tvars_within {0..<int (length es)}) ?dup"
      using tc es(1) by (intro tvars_within.conj_all_push_const) (simp_all add: conj_tvars_all tvars_within_def)
  qed
  have r: "mEqualities ?r = mEqualities ?dup" "mInequalities ?r = mInequalities ?dup" "mTupleDecl ?r = []" "mInArity ?r = 0"
    by (simp_all add: copyConstraintsFrom_def Conjunction_new_def Conjunction_of_def TupleDecl_new_def)
  have rwf: "conj_wf ?r" "conj_all has_args ?r" "conj_all (tvars_within {0..<int (length es)}) ?r"
    using P(1) dup(2,3) by (simp_all add: conj_wf_def conj_all_def r)
  have res: "conj_boundTupleExp qinv c (map Some es) = substituteInConstraints qinv ?r ?m"
    using bound_map[OF dup(1) P(4)] es(1) by (simp add: conj_boundTupleExp_def Let_def del: fold_result.simps)
  have sub: "\<forall>q \<in> set ?m. snd (snd q) \<in> set es" by (auto simp: tuple_map_def)
  have wfs: "wf_sub ?m" using sub es(2) by blast
  let ?s = "?r\<lparr>mEqualities := map (substitute ?m) (mEqualities ?r), mInequalities := map (substitute ?m) (mInequalities ?r)\<rparr>"
  have args: "conj_all has_args ?s"
    by (rule has_args.conj_all_substitute[OF rwf(2)]) (use sub es(2) in \<open>auto simp: has_args_terms\<close>)
  note S = solved_point_subst[OF tuple_map_var[of es]]
  have swf: "conj_wf ?s" using rwf(1) substitute_sound[OF wfs S] by (auto simp: conj_wf_def)
  have tvs: "conj_all (tvars_within T) ?s"
  proof -
    have "list_all (tvars_within T) (mTerms (substitute ?m e))" if "e \<in> set (mEqualities ?r) \<union> set (mInequalities ?r)" for e
    proof (rule tvars_substitute[OF tuple_map_var])
      show "\<forall>q \<in> set ?m. list_all (tvars_within T) (mTerms (snd (snd q)))" using sub es(2) tvars_terms[of _ T] by blast
      have "tvars e \<subseteq> {0..<int (length es)}" using rwf(3) that by (auto simp: conj_all_def tvars_terms)
      moreover have "subExp ?m (TupleVarTerm 1 l) \<noteq> None" if "l \<in> {0..<int (length es)}" for l
        using subExp_tuple_map(1)[of "nat l" es 1] that by (simp add: nat_less_iff)
      ultimately show "\<forall>l \<in> tvars e. subExp ?m (TupleVarTerm 1 l) \<noteq> None" by blast
    qed
    then show ?thesis by (auto simp: conj_all_def)
  qed
  note col = no_inverses_facts(5)[OF none swf args]
  note resp = no_inverses_facts(3)[OF none]
  obtain b where b: "substituteInConstraints qinv ?r ?m = Inr b" "conj_wf b" "mTupleDecl b = []" "mInArity b = 0"
    using substituteInConstraints_sound[OF rwf(1) wfs S resp col] r(3,4) by metis
  have cl: "cleanUp qinv ?s = Inr b" using b(1) by (simp add: substituteInConstraints_def)
  show thesis
  proof (rule that[of b])
    have "conj_all has_args b" using has_args.kept.own.conj_all_cleanUp[OF none cl swf args args] .
    moreover have "conj_all args_kind_trm b"
      by (rule args_kind.own.conj_all_cleanUp[OF none cl swf args]) (simp add: conj_all_def list_all_iff)
    moreover have "conj_all (tvars_within T) b" using tvars_within.kept.own.conj_all_cleanUp[OF none cl swf args tvs] .
    ultimately show "built_conj T b" using b(2) cleanUp_terms(1,2)[OF cl]
      by (auto simp: built_conj_def conj_kinds_all conj_tvars_all)
    show "\<forall>I. conj_holds I b \<longleftrightarrow> conj_holds (at_point I (\<lambda>l. eval_exp I (es ! nat l))) c"
    proof
      fix I
      have "conj_holds I b \<longleftrightarrow> conj_holds (solved_point ?m I) (?r\<lparr>mTupleDecl := []\<rparr>)"
        using substituteInConstraints_sound[OF rwf(1) wfs S resp col] b(1) r(3)
        by (metis sum.inject(2) decl_holds_def length_0_conv less_nat_zero_code)
      also have "\<dots> \<longleftrightarrow> conj_holds (solved_point ?m I) ?dup"
        using P(4) by (simp add: conj_holds_def r decl_holds_def)
      also have "\<dots> \<longleftrightarrow> conj_holds (solved_point ?m I) c" by (rule P(3))
      also have "\<dots> \<longleftrightarrow> conj_holds (at_point I (\<lambda>l. eval_exp I (es ! nat l))) c"
      proof (rule conj_holds_tvars[OF tc])
        fix l assume l: "0 \<le> l" "l < int (conj_arity c)"
        then show "tv (solved_point ?m I) l = tv (at_point I (\<lambda>l. eval_exp I (es ! nat l))) l"
          using subExp_tuple_map(1)[of "nat l" es 1] es(1) by (simp add: solved_point_def at_point_def nat_less_iff)
      qed (simp_all add: solved_point_def at_point_def)
      finally show "conj_holds I b \<longleftrightarrow> conj_holds (at_point I (\<lambda>l. eval_exp I (es ! nat l))) c" .
    qed
  qed (use b res in simp_all)
qed

section \<open>Adding the bounds of one call\<close>

context term_property
begin

lemma conj_all_Intersect:
  assumes "conj_all P a" "conj_all P b"
  shows "conj_all P (Conj_Intersect a b)"
  unfolding conj_all_def
proof
  fix e assume "e \<in> set (mEqualities (Conj_Intersect a b)) \<union> set (mInequalities (Conj_Intersect a b))"
  then consider "e \<in> set (mEqualities a) \<union> set (mInequalities a)"
    | d where "d \<in> set (mEqualities b)" "e = setEquality (normalizeForEquality d)"
    | d where "d \<in> set (mInequalities b)" "e = setInequality d"
    using foldl_addEquality_from[of e a "mEqualities b"]
      foldl_addInequality_from[of e "foldl addEquality a (mEqualities b)" "mInequalities b"]
    by (auto simp: Conj_Intersect_def)
  then show "list_all P (mTerms e)"
    by cases (use assms all_normalizeForEquality in \<open>auto simp: conj_all_def\<close>)
qed

end

lemma add_bounds_correct:
  assumes none: "no_inverses qinv" and d: "closed_conj d" and es: "length es = conj_arity d"
    "\<forall>e \<in> set es. wf_exp e \<and> has_args_exp e \<and> tvars e \<subseteq> T" and a: "built_conj T a"
  obtains a' where "add_bounds qinv \<lparr>mConjunctions = [d], mArity = k\<rparr> (map Some es) \<lparr>mConjunctions = [a], mArity = conj_arity a\<rparr>
      = Inr \<lparr>mConjunctions = [a'], mArity = conj_arity a\<rparr>" "built_conj T a'" "mTupleDecl a' = mTupleDecl a"
    "\<forall>I. conj_holds I a' \<longleftrightarrow> conj_holds I a \<and> conj_holds (at_point I (\<lambda>l. eval_exp I (es ! nat l))) d"
proof -
  obtain b where b: "conj_boundTupleExp qinv d (map Some es) = Inr b" "built_conj T b" "mTupleDecl b = []"
    "\<forall>I. conj_holds I b \<longleftrightarrow> conj_holds (at_point I (\<lambda>l. eval_exp I (es ! nat l))) d"
    by (rule conj_boundTupleExp_correct[OF none d es]) blast
  let ?b = "b\<lparr>mTupleDecl := mTupleDecl a\<rparr>"
  let ?c = "Conj_Intersect a ?b"
  have wf: "conj_wf a" "conj_wf ?b" using a b(2) by (simp_all add: built_conj_def conj_wf_def)
  note i = Conj_Intersect_sound[OF wf]
  have td: "setTupleDecl b (mTupleDecl a) = Inr ?b" using b(3) by (simp add: setTupleDecl_def conj_arity_def)
  have from_eq: "e \<in> set (mEqualities a) \<or> (\<exists>d \<in> set (mEqualities b). e = setEquality (normalizeForEquality d))"
    if "e \<in> set (mEqualities ?c)" for e
    using that foldl_addEquality_from[of e a "mEqualities b"] by (simp add: Conj_Intersect_def)
  have from_ineq: "e \<in> set (mInequalities a) \<or> (\<exists>d \<in> set (mInequalities b). e = setInequality d)"
    if "e \<in> set (mInequalities ?c)" for e
    using that foldl_addInequality_from[of e "foldl addEquality a (mEqualities b)" "mInequalities b"] by (simp add: Conj_Intersect_def)
  show thesis
  proof (rule that[of ?c])
    have "add_bounds qinv \<lparr>mConjunctions = [d], mArity = k\<rparr> (map Some es) \<lparr>mConjunctions = [a], mArity = conj_arity a\<rparr>
      = Set_Intersect \<lparr>mConjunctions = [a], mArity = conj_arity a\<rparr> \<lparr>mConjunctions = [?b], mArity = conj_arity a\<rparr>"
      using b(1) td by (simp add: add_bounds_def Set_boundTupleExp_def Set_new_conj Set_addConjunction_def sparse_addConjunction_def
        sparse_getTupleDecl_def Set_setTupleDecl_def sparse_setTupleDecl_def conj_arity_def)
    also have "\<dots> = Inr \<lparr>mConjunctions = [?c], mArity = conj_arity a\<rparr>"
      by (simp add: Set_Intersect_def Set_new_conj Set_addConjunction_def sparse_addConjunction_def)
    finally show "add_bounds qinv \<lparr>mConjunctions = [d], mArity = k\<rparr> (map Some es) \<lparr>mConjunctions = [a], mArity = conj_arity a\<rparr>
      = Inr \<lparr>mConjunctions = [?c], mArity = conj_arity a\<rparr>" .
    have "conj_all has_args ?c" using a b(2) by (intro has_args.conj_all_Intersect) (simp_all add: built_conj_def conj_all_def)
    moreover have "conj_all args_kind_trm ?c" using a b(2)
      by (intro args_kind.conj_all_Intersect) (simp_all add: built_conj_def conj_kinds_all conj_all_def)
    moreover have "conj_all (tvars_within T) ?c" using a b(2)
      by (intro tvars_within.conj_all_Intersect) (simp_all add: built_conj_def conj_tvars_all conj_all_def)
    moreover have "mExpType e = Equality" if "e \<in> set (mEqualities ?c)" for e
      using from_eq[OF that] a by (auto simp: built_conj_def conj_kinds_def)
    moreover have "mExpType e = Inequality" if "e \<in> set (mInequalities ?c)" for e
      using from_ineq[OF that] a by (auto simp: built_conj_def conj_kinds_def)
    ultimately show "built_conj T ?c" using i(1) by (simp add: built_conj_def conj_kinds_all conj_tvars_all)
    show "mTupleDecl ?c = mTupleDecl a" by (rule i(2))
    show "\<forall>I. conj_holds I ?c \<longleftrightarrow> conj_holds I a \<and> conj_holds (at_point I (\<lambda>l. eval_exp I (es ! nat l))) d"
      using b(3,4) unfolding i(3) by (simp add: conj_holds_def decl_holds_def)
  qed
qed

section \<open>The bounds of the calls of a set\<close>

text \<open>The declared domain and range of a function, where each is one conjunction.\<close>

definition bounds_of :: "(string \<Rightarrow> string) \<Rightarrow> set_object environment \<Rightarrow> string \<Rightarrow> (conjunction \<times> conjunction) option" where
  "bounds_of qinv env f =
     (case (bind_result (queryDomainCurrEnv env f) (Set_copy qinv), bind_result (queryRangeCurrEnv env f) (Set_copy qinv)) of
        (Inr dm, Inr rn) \<Rightarrow>
          (case (mConjunctions dm, mConjunctions rn) of
             ([d], [r]) \<Rightarrow> if conj_arity r = mArity rn \<and> closed_conj d \<and> closed_conj r then Some (d, r) else None
           | _ \<Rightarrow> None)
      | _ \<Rightarrow> None)"

text \<open>All calls of an expression, nested ones too.\<close>

fun calls_trm :: "trm \<Rightarrow> trm list" and calls_exp :: "exp \<Rightarrow> trm list" where
  "calls_trm (UFCallTerm c f args i) = UFCallTerm c f args i # concat (map calls_exp args)"
| "calls_trm (Term c) = []"
| "calls_trm (VarTerm c s) = []"
| "calls_trm (TupleVarTerm c l) = []"
| "calls_exp (Exp ts et) = concat (map calls_trm ts)"

definition conj_calls :: "conjunction \<Rightarrow> trm list" where
  "conj_calls c = concat (map calls_exp (constraints_of c))"

definition declared :: "(string \<Rightarrow> string) \<Rightarrow> set_object environment \<Rightarrow> trm \<Rightarrow> bool" where
  "declared qinv env t = (case t of
     UFCallTerm c f args i \<Rightarrow> (case bounds_of qinv env f of None \<Rightarrow> False | Some (d, r) \<Rightarrow> conj_arity d = length args)
   | _ \<Rightarrow> True)"

text \<open>A call is within its bounds: its arguments are in the domain and its value is in the range.\<close>

definition within_bounds :: "(string \<Rightarrow> string) \<Rightarrow> set_object environment \<Rightarrow> interp \<Rightarrow> trm \<Rightarrow> bool" where
  "within_bounds qinv env I t = (case t of
     UFCallTerm c f args i \<Rightarrow> (case bounds_of qinv env f of None \<Rightarrow> False | Some (d, r) \<Rightarrow>
       conj_holds (at_point I (\<lambda>l. eval_exp I (args ! nat l))) d \<and>
       conj_holds (at_point I (\<lambda>l. uf I f (if conj_arity r = 1 then tupleIndex i else l) (map (eval_exp I) args))) r)
   | _ \<Rightarrow> True)"

lemma bounds_of_Some:
  assumes "bounds_of qinv env f = Some (d, r)"
  shows "\<exists>k. bind_result (queryDomainCurrEnv env f) (Set_copy qinv) = Inr \<lparr>mConjunctions = [d], mArity = k\<rparr>"
    "bind_result (queryRangeCurrEnv env f) (Set_copy qinv) = Inr \<lparr>mConjunctions = [r], mArity = conj_arity r\<rparr>"
    "UFCallTerm_size env f = Inr (conj_arity r)" "closed_conj d" "closed_conj r"
proof -
  obtain dm rn where q: "bind_result (queryDomainCurrEnv env f) (Set_copy qinv) = Inr dm"
      "bind_result (queryRangeCurrEnv env f) (Set_copy qinv) = Inr rn"
    using assms by (auto simp: bounds_of_def split: sum.splits)
  then have m: "mConjunctions dm = [d]" "mConjunctions rn = [r]" "conj_arity r = mArity rn" "closed_conj d" "closed_conj r"
    using assms by (auto simp: bounds_of_def split: list.splits if_splits)
  have "\<And>s. s = \<lparr>mConjunctions = mConjunctions s, mArity = mArity s\<rparr>" for s :: set_object by simp
  with q m show "\<exists>k. bind_result (queryDomainCurrEnv env f) (Set_copy qinv) = Inr \<lparr>mConjunctions = [d], mArity = k\<rparr>"
    "bind_result (queryRangeCurrEnv env f) (Set_copy qinv) = Inr \<lparr>mConjunctions = [r], mArity = conj_arity r\<rparr>" by metis+
  obtain ran0 where "queryRangeCurrEnv env f = Inr ran0" "Set_copy qinv ran0 = Inr rn" using q(2) by auto
  then show "UFCallTerm_size env f = Inr (conj_arity r)"
    using m(3) by (auto simp: UFCallTerm_size_def queryRangeArityCurrEnv_def Set_copy_def)
  show "closed_conj d" "closed_conj r" by (rule m)+
qed

lemma bound_call_correct:
  assumes none: "no_inverses qinv" and t: "t = UFCallTerm c f args i" "declared qinv env t" "wf_trm t" "has_args t"
      "tvars_trm t \<subseteq> T" and a: "built_conj T a"
  obtains a' where "bound_call qinv env t \<lparr>mConjunctions = [a], mArity = conj_arity a\<rparr>
      = Inr \<lparr>mConjunctions = [a'], mArity = conj_arity a'\<rparr>" "built_conj T a'" "mTupleDecl a' = mTupleDecl a"
    "\<forall>I. conj_holds I a' \<longleftrightarrow> conj_holds I a \<and> within_bounds qinv env I t"
proof -
  obtain d r where b: "bounds_of qinv env f = Some (d, r)" "conj_arity d = length args"
    using t(2) by (auto simp: declared_def t(1) split: option.splits)
  note B = bounds_of_Some[OF b(1)]
  obtain k where dom: "bind_result (queryDomainCurrEnv env f) (Set_copy qinv) = Inr \<lparr>mConjunctions = [d], mArity = k\<rparr>" using B(1) ..
  have args: "\<forall>e \<in> set args. wf_exp e \<and> has_args_exp e \<and> tvars e \<subseteq> T"
    using t(3-5) by (auto simp: t(1) list_all_iff)
  let ?elem = "\<lambda>k. addTerm empty_exp (if conj_arity r = 1 then UFCallTerm 1 f args i else setTupleIndex (int k) (UFCallTerm 1 f args i))"
  let ?j = "\<lambda>l. if conj_arity r = 1 then i else l"
  have elem: "?elem k = Exp [UFCallTerm 1 f args (?j (int k))] Expression" for k
    by (simp add: addTerm_def setTupleIndex_def)
  let ?es = "map ?elem [0..<conj_arity r]"
  have es: "length ?es = conj_arity r" "\<forall>e \<in> set ?es. wf_exp e \<and> has_args_exp e \<and> tvars e \<subseteq> T"
    unfolding elem using t(3-5) by (auto simp: t(1))
  obtain a1 where a1: "add_bounds qinv \<lparr>mConjunctions = [d], mArity = k\<rparr> (map Some args) \<lparr>mConjunctions = [a], mArity = conj_arity a\<rparr>
      = Inr \<lparr>mConjunctions = [a1], mArity = conj_arity a\<rparr>" "built_conj T a1" "mTupleDecl a1 = mTupleDecl a"
    "\<forall>I. conj_holds I a1 \<longleftrightarrow> conj_holds I a \<and> conj_holds (at_point I (\<lambda>l. eval_exp I (args ! nat l))) d"
    by (rule add_bounds_correct[OF none B(4) b(2)[symmetric] args a]) blast
  have ar: "conj_arity a1 = conj_arity a" using a1(3) by (simp add: conj_arity_def)
  obtain a2 where a2: "add_bounds qinv \<lparr>mConjunctions = [r], mArity = conj_arity r\<rparr> (map Some ?es)
      \<lparr>mConjunctions = [a1], mArity = conj_arity a1\<rparr> = Inr \<lparr>mConjunctions = [a2], mArity = conj_arity a1\<rparr>"
    "built_conj T a2" "mTupleDecl a2 = mTupleDecl a1"
    "\<forall>I. conj_holds I a2 \<longleftrightarrow> conj_holds I a1 \<and> conj_holds (at_point I (\<lambda>l. eval_exp I (?es ! nat l))) r"
    by (rule add_bounds_correct[OF none B(5) es a1(2)]) blast
  have ar2: "conj_arity a2 = conj_arity a1" using a2(3) by (simp add: conj_arity_def)
  have range_map: "map (\<lambda>k. if k < conj_arity r then Some (?elem k) else None) [0..<conj_arity r] = map Some ?es"
    by (simp add: comp_def)
  have range: "conj_holds (at_point I (\<lambda>l. eval_exp I (?es ! nat l))) r \<longleftrightarrow>
    conj_holds (at_point I (\<lambda>l. uf I f (if conj_arity r = 1 then tupleIndex i else l) (map (eval_exp I) args))) r" for I
  proof (rule conj_holds_tvars)
    show "conj_tvars r \<subseteq> {0..<int (conj_arity r)}" using B(5) by (simp add: closed_conj_def)
    fix l assume "0 \<le> l" "l < int (conj_arity r)"
    then show "tv (at_point I (\<lambda>l. eval_exp I (?es ! nat l))) l =
        tv (at_point I (\<lambda>l. uf I f (if conj_arity r = 1 then tupleIndex i else l) (map (eval_exp I) args))) l"
      unfolding elem by (auto simp: at_point_def nat_less_iff tupleIndex_def isIndexed_def)
  qed (simp_all add: at_point_def)
  have a2': "add_bounds qinv \<lparr>mConjunctions = [r], mArity = conj_arity r\<rparr>
      (map (\<lambda>k. if k < conj_arity r then Some (?elem k) else None) [0..<conj_arity r])
      \<lparr>mConjunctions = [a1], mArity = conj_arity a1\<rparr> = Inr \<lparr>mConjunctions = [a2], mArity = conj_arity a1\<rparr>"
    unfolding range_map by (rule a2(1))
  show thesis
  proof (rule that[of a2])
    show "bound_call qinv env t \<lparr>mConjunctions = [a], mArity = conj_arity a\<rparr> = Inr \<lparr>mConjunctions = [a2], mArity = conj_arity a2\<rparr>"
      using a1(1) a2' by (simp add: bound_call_def t(1) dom B(2,3) ar ar2 Let_def del: upt_Suc One_nat_def)
    show "\<forall>I. conj_holds I a2 \<longleftrightarrow> conj_holds I a \<and> within_bounds qinv env I t"
      using a1(4) a2(4) range by (simp add: within_bounds_def t(1) b(1))
  qed (use a1(3) a2(2,3) in simp_all)
qed

section \<open>The visitor\<close>

definition grown :: "int set \<Rightarrow> tuple_decl \<Rightarrow> (interp \<Rightarrow> bool) \<Rightarrow> bounds_state \<Rightarrow> bool" where
  "grown T td \<Phi> s \<longleftrightarrow> (\<exists>a. addedConstSet s = \<lparr>mConjunctions = [a], mArity = length td\<rparr> \<and> built_conj T a \<and> mTupleDecl a = td \<and>
     (\<forall>I. conj_holds I a \<longleftrightarrow> decl_holds I td \<and> \<Phi> I))"

lemma grown_cong: "grown T td \<Phi> s \<Longrightarrow> (\<And>I. \<Phi> I \<longleftrightarrow> \<Psi> I) \<Longrightarrow> grown T td \<Psi> s"
  by (simp add: grown_def)

definition boundable :: "(string \<Rightarrow> string) \<Rightarrow> set_object environment \<Rightarrow> int set \<Rightarrow> trm \<Rightarrow> bool" where
  "boundable qinv env T u \<longleftrightarrow> declared qinv env u \<and> wf_trm u \<and> has_args u \<and> tvars_trm u \<subseteq> T"

lemma bound_hooks [simp]:
  "preVisitTerm (VisitorBoundDomainRange qinv env) = (\<lambda>t s. Inr s)"
  "preVisitVarTerm (VisitorBoundDomainRange qinv env) = (\<lambda>t s. Inr s)"
  "preVisitTupleVarTerm (VisitorBoundDomainRange qinv env) = (\<lambda>t s. Inr (t, s))"
  "preVisitUFCallTerm (VisitorBoundDomainRange qinv env) =
     (\<lambda>t s. bind_result (bound_call qinv env t (addedConstSet s)) (\<lambda>a. Inr (s\<lparr>addedConstSet := a\<rparr>)))"
  "postVisitUFCallTerm (VisitorBoundDomainRange qinv env) = (\<lambda>t s. Inr (t, s))"
  "preVisitExp (VisitorBoundDomainRange qinv env) = (\<lambda>e s. Inr s)"
  "postVisitExp (VisitorBoundDomainRange qinv env) = (\<lambda>e s. Inr s)"
  by (simp_all add: VisitorBoundDomainRange_def base_Visitor_def)

lemma bound_call_grown:
  assumes "no_inverses qinv" "t = UFCallTerm c f args i" "boundable qinv env T t" "grown T td \<Phi> s"
  shows "\<exists>x. bound_call qinv env t (addedConstSet s) = Inr x \<and>
    grown T td (\<lambda>I. \<Phi> I \<and> within_bounds qinv env I t) (s\<lparr>addedConstSet := x\<rparr>)"
proof -
  obtain a where a: "addedConstSet s = \<lparr>mConjunctions = [a], mArity = length td\<rparr>" "built_conj T a" "mTupleDecl a = td"
    "\<forall>I. conj_holds I a \<longleftrightarrow> decl_holds I td \<and> \<Phi> I" using assms(4) by (auto simp: grown_def)
  have t: "declared qinv env t" "wf_trm t" "has_args t" "tvars_trm t \<subseteq> T" using assms(3) by (simp_all add: boundable_def)
  obtain a' where a': "bound_call qinv env t \<lparr>mConjunctions = [a], mArity = conj_arity a\<rparr>
      = Inr \<lparr>mConjunctions = [a'], mArity = conj_arity a'\<rparr>" "built_conj T a'" "mTupleDecl a' = mTupleDecl a"
    "\<forall>I. conj_holds I a' \<longleftrightarrow> conj_holds I a \<and> within_bounds qinv env I t"
    by (rule bound_call_correct[OF assms(1,2) t a(2)]) blast
  have ar: "conj_arity a = length td" "conj_arity a' = length td" using a(3) a'(3) by (simp_all add: conj_arity_def)
  show ?thesis
  proof (intro exI conjI)
    show "bound_call qinv env t (addedConstSet s) = Inr \<lparr>mConjunctions = [a'], mArity = length td\<rparr>"
      using a(1) a'(1) ar by simp
    show "grown T td (\<lambda>I. \<Phi> I \<and> within_bounds qinv env I t) (s\<lparr>addedConstSet := \<lparr>mConjunctions = [a'], mArity = length td\<rparr>\<rparr>)"
      using a(3,4) a'(2-4) by (auto simp: grown_def)
  qed
qed

lemma bound_visit_all:
  assumes "\<And>x \<Phi> s. x \<in> set xs \<Longrightarrow> grown T td \<Phi> s \<Longrightarrow>
      \<exists>s'. f x s = Inr (x, s') \<and> in_ar s' = in_ar s \<and> grown T td (\<lambda>I. \<Phi> I \<and> W I x) s'"
    and s: "grown T td \<Phi> s"
  shows "\<exists>s'. visit_all f xs s = Inr (xs, s') \<and> in_ar s' = in_ar s \<and> grown T td (\<lambda>I. \<Phi> I \<and> (\<forall>x \<in> set xs. W I x)) s'"
proof (rule visit_all_same_rule[of "\<lambda>ys s'. in_ar s' = in_ar s \<and> grown T td (\<lambda>I. \<Phi> I \<and> (\<forall>x \<in> set ys. W I x)) s'"])
  fix ys x and s1 :: bounds_state
  assume x: "x \<in> set xs" and Q: "in_ar s1 = in_ar s \<and> grown T td (\<lambda>I. \<Phi> I \<and> (\<forall>x \<in> set ys. W I x)) s1"
  obtain s2 where s2: "f x s1 = Inr (x, s2)" "in_ar s2 = in_ar s1"
    "grown T td (\<lambda>I. (\<Phi> I \<and> (\<forall>x \<in> set ys. W I x)) \<and> W I x) s2"
    using assms(1)[OF x conjunct2[OF Q]] by blast
  have "grown T td (\<lambda>I. \<Phi> I \<and> (\<forall>x \<in> set (ys @ [x]). W I x)) s2"
    by (rule grown_cong[OF s2(3)]) auto
  with s2(1,2) Q show "\<exists>s'. f x s1 = Inr (x, s') \<and> in_ar s' = in_ar s \<and> grown T td (\<lambda>I. \<Phi> I \<and> (\<forall>x \<in> set (ys @ [x]). W I x)) s'"
    by auto
qed (use s in simp)

abbreviation calls_within :: "(string \<Rightarrow> string) \<Rightarrow> set_object environment \<Rightarrow> interp \<Rightarrow> trm list \<Rightarrow> bool" where
  "calls_within qinv env I ts \<equiv> \<forall>u \<in> set ts. within_bounds qinv env I u"

lemma bound_visit:
  assumes none: "no_inverses qinv"
  shows "\<forall>u \<in> set (calls_trm t). boundable qinv env T u \<Longrightarrow> grown T td \<Phi> s \<Longrightarrow>
      \<exists>s'. accept_trm (VisitorBoundDomainRange qinv env) t s = Inr (t, s') \<and> in_ar s' = in_ar s \<and>
        grown T td (\<lambda>I. \<Phi> I \<and> calls_within qinv env I (calls_trm t)) s'"
    "\<forall>u \<in> set (calls_exp e). boundable qinv env T u \<Longrightarrow> grown T td \<Phi> s \<Longrightarrow>
      \<exists>s'. accept_exp (VisitorBoundDomainRange qinv env) e s = Inr (e, s') \<and> in_ar s' = in_ar s \<and>
        grown T td (\<lambda>I. \<Phi> I \<and> calls_within qinv env I (calls_exp e)) s'"
proof (induction t and e arbitrary: \<Phi> s and \<Phi> s rule: trm.induct exp.induct)
  case (UFCallTerm c f args i)
  let ?t = "UFCallTerm c f args i"
  have "boundable qinv env T ?t" using UFCallTerm.prems(1) by simp
  from bound_call_grown[OF none refl this UFCallTerm.prems(2)] obtain x where
    x: "bound_call qinv env ?t (addedConstSet s) = Inr x"
      "grown T td (\<lambda>I. \<Phi> I \<and> within_bounds qinv env I ?t) (s\<lparr>addedConstSet := x\<rparr>)" by blast
  have "\<exists>s'. visit_all (accept_exp (VisitorBoundDomainRange qinv env)) args (s\<lparr>addedConstSet := x\<rparr>) = Inr (args, s') \<and>
    in_ar s' = in_ar (s\<lparr>addedConstSet := x\<rparr>) \<and> grown T td (\<lambda>I. (\<Phi> I \<and> within_bounds qinv env I ?t) \<and>
      (\<forall>a \<in> set args. calls_within qinv env I (calls_exp a))) s'"
  proof (rule bound_visit_all[OF _ x(2)])
    fix a \<Psi> s1 assume a: "a \<in> set args" "grown T td \<Psi> s1"
    have "\<forall>u \<in> set (calls_exp a). boundable qinv env T u" using UFCallTerm.prems(1) a(1) by auto
    then show "\<exists>s'. accept_exp (VisitorBoundDomainRange qinv env) a s1 = Inr (a, s') \<and> in_ar s' = in_ar s1 \<and>
      grown T td (\<lambda>I. \<Psi> I \<and> calls_within qinv env I (calls_exp a)) s'" by (rule UFCallTerm.IH[OF a(1) _ a(2)])
  qed
  then obtain s' where s': "visit_all (accept_exp (VisitorBoundDomainRange qinv env)) args (s\<lparr>addedConstSet := x\<rparr>) = Inr (args, s')"
    "in_ar s' = in_ar s" "grown T td (\<lambda>I. (\<Phi> I \<and> within_bounds qinv env I ?t) \<and> (\<forall>a \<in> set args. calls_within qinv env I (calls_exp a))) s'"
    by auto
  have "accept_trm (VisitorBoundDomainRange qinv env) ?t s = Inr (?t, s')" using x(1) s'(1) by simp
  moreover have "grown T td (\<lambda>I. \<Phi> I \<and> calls_within qinv env I (calls_trm ?t)) s'"
    by (rule grown_cong[OF s'(3)]) auto
  ultimately show ?case using s'(2) by blast
next
  case (Exp ts et)
  have "\<exists>s'. visit_all (accept_trm (VisitorBoundDomainRange qinv env)) ts s = Inr (ts, s') \<and> in_ar s' = in_ar s \<and>
    grown T td (\<lambda>I. \<Phi> I \<and> (\<forall>t \<in> set ts. calls_within qinv env I (calls_trm t))) s'"
  proof (rule bound_visit_all[OF _ Exp.prems(2)])
    fix t \<Psi> s1 assume t: "t \<in> set ts" "grown T td \<Psi> s1"
    have "\<forall>u \<in> set (calls_trm t). boundable qinv env T u" using Exp.prems(1) t(1) by auto
    then show "\<exists>s'. accept_trm (VisitorBoundDomainRange qinv env) t s1 = Inr (t, s') \<and> in_ar s' = in_ar s1 \<and>
      grown T td (\<lambda>I. \<Psi> I \<and> calls_within qinv env I (calls_trm t)) s'" by (rule Exp.IH[OF t(1) _ t(2)])
  qed
  then obtain s' where s': "visit_all (accept_trm (VisitorBoundDomainRange qinv env)) ts s = Inr (ts, s')"
    "in_ar s' = in_ar s" "grown T td (\<lambda>I. \<Phi> I \<and> (\<forall>t \<in> set ts. calls_within qinv env I (calls_trm t))) s'" by blast
  have "grown T td (\<lambda>I. \<Phi> I \<and> calls_within qinv env I (calls_exp (Exp ts et))) s'"
    by (rule grown_cong[OF s'(3)]) auto
  with s'(1,2) show ?case by auto
qed (auto intro: grown_cong)

lemma bound_conj:
  assumes none: "no_inverses qinv" and c: "plain_conj c"
    and calls: "\<forall>e \<in> set (constraints_of c). \<forall>u \<in> set (calls_exp e). boundable qinv env T u"
  obtains c' s' where "accept_conj (VisitorBoundDomainRange qinv env) c s = Inr (c', s')" "plain_conj c'"
    "mTupleDecl c' = mTupleDecl c" "mInArity c' = mInArity c"
    "\<forall>I. conj_holds I c' \<longleftrightarrow> conj_holds I c \<and> calls_within qinv env I (conj_calls c)"
    "\<forall>k. k \<notin> T \<longrightarrow> conj_all (not_in_args k) c \<longrightarrow> conj_all (not_in_args k) c'"
proof -
  let ?V = "VisitorBoundDomainRange qinv env" and ?td = "mTupleDecl c"
  let ?s = "s\<lparr>in_ar := mInArity c, addedConstSet := Set_of_decl ?td\<rparr>"
  have pre: "preVisitConjunction ?V c s = Inr ?s" by (simp add: VisitorBoundDomainRange_def base_Visitor_def)
  have start: "grown T ?td (\<lambda>I. True) ?s"
    by (simp add: grown_def Set_of_decl_def built_conj_def Conjunction_of_def conj_wf_def conj_all_def conj_kinds_def
        conj_tvars_def conj_holds_def)
  have visit: "\<exists>s'. visit_all (accept_exp ?V) es s1 = Inr (es, s') \<and> in_ar s' = in_ar s1 \<and>
    grown T ?td (\<lambda>I. \<Phi> I \<and> (\<forall>e \<in> set es. calls_within qinv env I (calls_exp e))) s'"
    if "set es \<subseteq> set (constraints_of c)" "grown T ?td \<Phi> s1" for es \<Phi> s1
    by (rule bound_visit_all[OF bound_visit(2)[OF none] that(2)]) (use that(1) calls in blast)
  obtain s1 where s1: "visit_all (accept_exp ?V) (mEqualities c) ?s = Inr (mEqualities c, s1)" "in_ar s1 = mInArity c"
    "grown T ?td (\<lambda>I. True \<and> (\<forall>e \<in> set (mEqualities c). calls_within qinv env I (calls_exp e))) s1"
    using visit[OF _ start, of "mEqualities c"] by (auto simp: constraints_of_def)
  obtain s2 where s2: "visit_all (accept_exp ?V) (mInequalities c) s1 = Inr (mInequalities c, s2)" "in_ar s2 = mInArity c"
    "grown T ?td (\<lambda>I. (True \<and> (\<forall>e \<in> set (mEqualities c). calls_within qinv env I (calls_exp e))) \<and>
      (\<forall>e \<in> set (mInequalities c). calls_within qinv env I (calls_exp e))) s2"
    using visit[OF _ s1(3), of "mInequalities c"] s1(2) by (auto simp: constraints_of_def)
  have "grown T ?td (\<lambda>I. calls_within qinv env I (conj_calls c)) s2"
    by (rule grown_cong[OF s2(3)]) (auto simp: conj_calls_def constraints_of_def)
  then obtain a where a: "addedConstSet s2 = \<lparr>mConjunctions = [a], mArity = length ?td\<rparr>" "built_conj T a" "mTupleDecl a = ?td"
    "\<forall>I. conj_holds I a \<longleftrightarrow> decl_holds I ?td \<and> calls_within qinv env I (conj_calls c)" by (auto simp: grown_def)
  let ?c = "Conj_Intersect c a" and ?c' = "(Conj_Intersect c a)\<lparr>mInArity := mInArity c\<rparr>"
  have p: "conj_wf c" "conj_all has_args c" "conj_kinds c" "0 \<le> mInArity c" "mInArity c < int (conj_arity c)"
    using c by (simp_all add: plain_conj_def)
  have wa: "conj_wf a" "conj_all has_args a" "conj_kinds a" "conj_all (tvars_within T) a"
    using a(2) by (simp_all add: built_conj_def conj_tvars_all)
  note i = Conj_Intersect_sound[OF p(1) wa(1)]
  have ar: "conj_arity ?c = conj_arity c" using i(2) by (simp add: conj_arity_def)
  have post: "postVisitConjunction ?V c s2 = Inr (?c', s2)"
    using a(1) s2(2) p(4,5) ar by (simp add: VisitorBoundDomainRange_def base_Visitor_def setInArity_def)
  show thesis
  proof (rule that)
    show "accept_conj ?V c s = Inr (?c', s2)" using pre s1(1) s2(1) post by (simp add: accept_conj_def)
    have "conj_all has_args ?c" "conj_all args_kind_trm ?c"
      using p(2,3) wa(2,3) by (auto intro!: has_args.conj_all_Intersect args_kind.conj_all_Intersect simp: conj_kinds_all)
    moreover have "mExpType e = Equality" if "e \<in> set (mEqualities ?c)" for e
      using that foldl_addEquality_from[of e c "mEqualities a"] p(3) by (auto simp: Conj_Intersect_def conj_kinds_def)
    moreover have "mExpType e = Inequality" if "e \<in> set (mInequalities ?c)" for e
      using that foldl_addInequality_from[of e "foldl addEquality c (mEqualities a)" "mInequalities a"] p(3)
      by (auto simp: Conj_Intersect_def conj_kinds_def)
    ultimately show "plain_conj ?c'" using i(1) p(4,5) ar
      by (simp add: plain_conj_def conj_wf_def conj_all_def conj_kinds_def conj_arity_def args_kind_terms)
    show "\<forall>I. conj_holds I ?c' \<longleftrightarrow> conj_holds I c \<and> calls_within qinv env I (conj_calls c)"
    proof
      fix I
      have "conj_holds I ?c' \<longleftrightarrow> conj_holds I ?c" by (simp add: conj_holds_def)
      also have "\<dots> \<longleftrightarrow> conj_holds I c \<and> conj_holds I a" using a(3) unfolding i(3) by (auto simp: conj_holds_def)
      also have "\<dots> \<longleftrightarrow> conj_holds I c \<and> calls_within qinv env I (conj_calls c)" using a(4) by (auto simp: conj_holds_def)
      finally show "conj_holds I ?c' \<longleftrightarrow> conj_holds I c \<and> calls_within qinv env I (conj_calls c)" .
    qed
    show "\<forall>k. k \<notin> T \<longrightarrow> conj_all (not_in_args k) c \<longrightarrow> conj_all (not_in_args k) ?c'"
    proof (intro allI impI)
      fix k assume k: "k \<notin> T" "conj_all (not_in_args k) c"
      have "arg_tvars_trm t \<subseteq> tvars_trm t" for t by (cases t) simp_all
      then have "conj_all (not_in_args k) a" using wa(4) k(1)
        by (fastforce simp: conj_all_def list_all_iff not_in_args_def tvars_within_def)
      then have "conj_all (not_in_args k) ?c" by (rule not_in_args.conj_all_Intersect[OF k(2)])
      then show "conj_all (not_in_args k) ?c'" by (simp add: conj_all_def)
    qed
  qed (use i(2) in simp_all)
qed

section \<open>Bounding a set\<close>

definition all_declared :: "(string \<Rightarrow> string) \<Rightarrow> set_object environment \<Rightarrow> sparse \<Rightarrow> bool" where
  "all_declared qinv env cs \<longleftrightarrow> list_all (declared qinv env) (concat (map conj_calls cs))"

lemma calls_parts:
  "plain_trm t \<Longrightarrow> u \<in> set (calls_trm t) \<Longrightarrow> wf_trm u \<and> has_args u \<and> tvars_trm u \<subseteq> arg_tvars_trm t"
  "plain_exp e \<Longrightarrow> u \<in> set (calls_exp e) \<Longrightarrow> wf_trm u \<and> has_args u \<and> tvars_trm u \<subseteq> tvars e"
proof (induction t and e rule: trm.induct exp.induct)
  case (UFCallTerm c f args i)
  have args: "plain_exp a" if "a \<in> set args" for a
    using UFCallTerm.prems(1) that by (auto simp: plain_trm_def plain_exp_def list_all_iff)
  show ?case
  proof (cases "u = UFCallTerm c f args i")
    case False
    then obtain a where a: "a \<in> set args" "u \<in> set (calls_exp a)" using UFCallTerm.prems(2) by auto
    with UFCallTerm.IH[OF a(1) args[OF a(1)] a(2)] show ?thesis by auto
  qed (use UFCallTerm.prems(1) in \<open>auto simp: plain_trm_def\<close>)
next
  case (Exp ts et)
  then obtain t where t: "t \<in> set ts" "u \<in> set (calls_trm t)" by auto
  moreover have "plain_trm t" using Exp.prems(1) t(1) by (simp add: plain_exp_terms)
  moreover have "arg_tvars_trm t \<subseteq> tvars_trm t" by (cases t) simp_all
  ultimately show ?case using Exp.IH[OF t(1)] by fastforce
qed simp_all

lemma conj_calls_parts:
  assumes "plain_conj c" "e \<in> set (constraints_of c)" "u \<in> set (calls_exp e)"
  shows "wf_trm u" "has_args u" "tvars_trm u \<subseteq> sparse_arg_tvars [c]"
proof -
  obtain t where t: "t \<in> set (mTerms e)" "u \<in> set (calls_trm t)" using assms(3) by (cases e) auto
  have "plain_trm t" using assms(1,2) t(1) by (auto simp: plain_conj_exps constraints_of_def plain_exp_terms)
  note u = calls_parts(1)[OF this t(2)]
  moreover have "arg_tvars_trm t \<subseteq> sparse_arg_tvars [c]"
    using assms(2) t(1) by (force simp: sparse_arg_tvars_iff arg_tvars_def)
  ultimately show "wf_trm u" "has_args u" "tvars_trm u \<subseteq> sparse_arg_tvars [c]" by blast+
qed

lemma not_in_arg_tvars: "k \<notin> sparse_arg_tvars [c] \<longleftrightarrow> conj_all (not_in_args k) c"
  by (auto simp: sparse_arg_tvars_iff conj_all_def arg_tvars_all constraints_of_def)

text \<open>The set bounded: the conjunction of its copy, with the bounds of the calls of the copy.\<close>

lemma Set_bound_copy:
  assumes none: "no_inverses qinv" and s: "plain_sparse n (mConjunctions s)"
    and copy: "Set_copy qinv s = Inr s0" and dec: "all_declared qinv env (mConjunctions s0)"
  obtains s' where "Set_boundDomainRange qinv env s = Inr s'" "plain_sparse n (mConjunctions s')" "mArity s' = mArity s"
    "\<forall>I. sparse_holds I (mConjunctions s') \<longleftrightarrow> sparse_holds I (mConjunctions s) \<and>
      (\<forall>c \<in> set (mConjunctions s0). calls_within qinv env I (conj_calls c))"
    "\<forall>k. k \<notin> sparse_arg_tvars (mConjunctions s0) \<longrightarrow> k \<notin> sparse_arg_tvars (mConjunctions s')"
    "mConjunctions s' = [] \<longleftrightarrow> mConjunctions s0 = []"
proof -
  have c0: "plain_sparse n (mConjunctions s0)" "mArity s0 = mArity s"
    "\<forall>I. sparse_holds I (mConjunctions s0) \<longleftrightarrow> sparse_holds I (mConjunctions s)"
    using Set_copy_plain[OF none s] copy by (metis sum.inject(2))+
  let ?V = "VisitorBoundDomainRange qinv env"
  have hooks: "preVisitSet ?V x b = Inr b" "postVisitSet ?V x b = Inr b" "preVisitSparseConstraints ?V cs b = Inr b"
    "postVisitSparseConstraints ?V cs b = Inr b" for x cs b
    by (simp_all add: VisitorBoundDomainRange_def base_Visitor_def)
  show thesis
  proof (cases "mConjunctions s0 = []")
    case True
    have "Set_boundDomainRange qinv env s = Inr s0"
      using copy True by (simp add: Set_boundDomainRange_def accept_Set_def accept_sparse_def hooks)
    with that[of s0] c0 True show thesis by simp
  next
    case False
    then obtain c where c: "mConjunctions s0 = [c]" "plain_conj c" "conj_arity c = n"
      using c0(1) short_list[of "mConjunctions s0"] by (auto simp: plain_sparse_def)
    let ?T = "sparse_arg_tvars [c]"
    have "boundable qinv env ?T u" if "e \<in> set (constraints_of c)" "u \<in> set (calls_exp e)" for e u
      using conj_calls_parts[OF c(2) that] dec that
      by (auto simp: boundable_def all_declared_def conj_calls_def c(1) list_all_iff)
    then have all: "\<forall>e \<in> set (constraints_of c). \<forall>u \<in> set (calls_exp e). boundable qinv env ?T u" by blast
    obtain c' b where c': "accept_conj ?V c bounds_start = Inr (c', b)" "plain_conj c'"
      "mTupleDecl c' = mTupleDecl c" "\<forall>I. conj_holds I c' \<longleftrightarrow> conj_holds I c \<and> calls_within qinv env I (conj_calls c)"
      "\<forall>k. k \<notin> ?T \<longrightarrow> conj_all (not_in_args k) c \<longrightarrow> conj_all (not_in_args k) c'"
      by (rule bound_conj[OF none c(2) all, of bounds_start]) simp
    have ar: "conj_arity c' = n" using c'(3) c(3) by (simp add: conj_arity_def)
    let ?s' = "\<lparr>mConjunctions = [c'], mArity = mArity s\<rparr>"
    show thesis
    proof (rule that[of ?s'])
      show "Set_boundDomainRange qinv env s = Inr ?s'"
        using copy c(1) c'(1) c0(2) by (simp add: Set_boundDomainRange_def accept_Set_def accept_sparse_def hooks)
      show "\<forall>I. sparse_holds I (mConjunctions ?s') \<longleftrightarrow> sparse_holds I (mConjunctions s) \<and>
        (\<forall>c \<in> set (mConjunctions s0). calls_within qinv env I (conj_calls c))"
        using c'(4) c0(3) by (simp add: c(1))
      show "\<forall>k. k \<notin> sparse_arg_tvars (mConjunctions s0) \<longrightarrow> k \<notin> sparse_arg_tvars (mConjunctions ?s')"
        using c'(5) by (simp add: c(1) not_in_arg_tvars)
    qed (use c'(2) ar c(1) in \<open>simp_all add: plain_sparse_def\<close>)
  qed
qed

section \<open>Properties\<close>

text \<open>C29: For a set of at most one conjunction as the library builds it, without declared inverses and with
  functions declared with a domain and a range of one conjunction each: \<open>boundDomainRange\<close> returns the set of
  those of its points at which every call in the cleaned copy of the set, nested ones too, has its arguments in the domain
  of its function and its value in the range; no variable comes into an argument that is in none of the copy.\<close>

theorem boundDomainRange_correct:
  assumes "no_inverses qinv" "plain_sparse n (mConjunctions s)" "Set_copy qinv s = Inr s0"
    "all_declared qinv env (mConjunctions s0)"
  shows "\<exists>s'. Set_boundDomainRange qinv env s = Inr s' \<and> plain_sparse n (mConjunctions s') \<and> mArity s' = mArity s \<and>
    (\<forall>I. sparse_holds I (mConjunctions s') \<longleftrightarrow> sparse_holds I (mConjunctions s) \<and>
      (\<forall>c \<in> set (mConjunctions s0). calls_within qinv env I (conj_calls c))) \<and>
    (\<forall>k. k \<notin> sparse_arg_tvars (mConjunctions s0) \<longrightarrow> k \<notin> sparse_arg_tvars (mConjunctions s'))"
  by (rule Set_bound_copy[OF assms]) blast

text \<open>An example: the function \<open>col\<close>, from positions to columns, and the set of \<open>[i, k]\<close> with \<open>col(k) = i\<close>.\<close>

definition example_bound :: "string \<Rightarrow> set_object" where
  "example_bound limit = \<lparr>mConjunctions = [(Conjunction_new 1 0)\<lparr>mInequalities :=
     [Exp [TupleVarTerm 1 0] Inequality, Exp [VarTerm 1 limit, TupleVarTerm (-1) 0, Term (-1)] Inequality]\<rparr>], mArity = 1\<rparr>"

definition example_env :: "set_object environment" where
  "example_env = empty_env\<lparr>mUninterpFuncMap := [(''col'', \<lparr>mName = ''col'', mDomain = example_bound ''nnz'',
     mRange = example_bound ''n'', mIsBijective = False, mMonoType = Monotonic_NONE\<rparr>)]\<rparr>"

definition example_conj :: conjunction where
  "example_conj = (Conjunction_new 2 0)\<lparr>mEqualities :=
     [Exp [TupleVarTerm 1 0, UFCallTerm (-1) ''col'' [Exp [TupleVarTerm 1 1] Expression] (-1)] Equality]\<rparr>"

definition example_set :: set_object where
  "example_set = \<lparr>mConjunctions = [example_conj], mArity = 2\<rparr>"

definition example_copy :: set_object where
  "example_copy = (case Set_copy (\<lambda>f. '''') example_set of Inr s \<Rightarrow> s | Inl e \<Rightarrow> example_set)"

lemma example_facts:
  "no_inverses (\<lambda>f. '''')" "plain_sparse 2 (mConjunctions example_set)" "Set_copy (\<lambda>f. '''') example_set = Inr example_copy"
  "all_declared (\<lambda>f. '''') example_env (mConjunctions example_copy)"
proof -
  show "no_inverses (\<lambda>f. '''')" by (simp add: no_inverses_def)
  show "plain_sparse 2 (mConjunctions example_set)" by code_simp
  show "Set_copy (\<lambda>f. '''') example_set = Inr example_copy" by code_simp
  show "all_declared (\<lambda>f. '''') example_env (mConjunctions example_copy)" by code_simp
qed

theorem boundDomainRange_correct_witness:
  "\<exists>s'. Set_boundDomainRange (\<lambda>f. '''') example_env example_set = Inr s' \<and> plain_sparse 2 (mConjunctions s') \<and> mArity s' = mArity example_set \<and>
    (\<forall>I. sparse_holds I (mConjunctions s') \<longleftrightarrow> sparse_holds I (mConjunctions example_set) \<and>
      (\<forall>c \<in> set (mConjunctions example_copy). calls_within (\<lambda>f. '''') example_env I (conj_calls c))) \<and>
    (\<forall>k. k \<notin> sparse_arg_tvars (mConjunctions example_copy) \<longrightarrow> k \<notin> sparse_arg_tvars (mConjunctions s'))"
  by (rule boundDomainRange_correct[OF example_facts])

end
