(* ===== verification/Normalize.thy ===== *)
theory Normalize
  imports Bounds
begin

text \<open>
  The composition: \<open>superAffineSet\<close>, \<open>reverseAffineSubstitution\<close> and \<open>normalize\<close> on sets of one conjunction.
  What the library isl is trusted with is a hypothesis about the parameter that stands for it.
\<close>

section \<open>Replacing the calls of a set\<close>

lemma affine_visit:
  assumes c: "plain_conj c" and m: "ufcall_map_ok m"
  obtains x st where "accept_Set VisitorSuperAffineSet \<lparr>mConjunctions = [c], mArity = k\<rparr> (affine_start m) = Inr (x, st)"
    "affineSet st = \<lparr>mConjunctions = [rebuild_conj affine_trm c], mArity = k\<rparr>" "ufcmap st = fold affine_step (top_terms [c]) m"
proof -
  have kinds: "conj_all args_kind_trm c" using c by (simp add: plain_conj_def conj_kinds_all)
  have "ufcall_map_ok (ufcmap (affine_start m))" using m by (simp add: affine_start_def)
  from affine.conjunction[OF c kinds this] obtain s' where s':
    "accept_conj VisitorSuperAffineSet c (affine_start m) = Inr (c, s')"
    "ufcmap s' = fold affine_step (top_terms [c]) m" "maffineConj s' = [rebuild_conj affine_trm c]"
    by (auto simp: affine_start_def top_terms_def)
  let ?a = "\<lparr>mConjunctions = [rebuild_conj affine_trm c], mArity = k\<rparr>"
  have hooks: "preVisitSet VisitorSuperAffineSet x s = Inr s" "preVisitSparseConstraints VisitorSuperAffineSet cs s = Inr s"
    "postVisitSparseConstraints VisitorSuperAffineSet cs s = Inr s"
    "postVisitSet VisitorSuperAffineSet x s = bind_result (affine_set_of (mArity x) (maffineConj s)) (\<lambda>a. Inr (s\<lparr>affineSet := a\<rparr>))"
    for x cs s by (simp_all add: VisitorSuperAffineSet_def base_Visitor_def)
  have "affine_set_of k [rebuild_conj affine_trm c] = Inr ?a"
    by (simp add: affine_set_of_def Set_new_conj Set_addConjunction_def sparse_addConjunction_def)
  then have "accept_Set VisitorSuperAffineSet \<lparr>mConjunctions = [c], mArity = k\<rparr> (affine_start m)
    = Inr (\<lparr>mConjunctions = [c], mArity = k\<rparr>, s'\<lparr>affineSet := ?a\<rparr>)"
    using s' by (simp add: accept_Set_def accept_sparse_def hooks)
  then show thesis by (rule that) (use s'(2) in simp_all)
qed

lemma reverse_visit:
  assumes c: "plain_conj c" "no_calls c"
  shows "Set_reverseAffineSubstitution \<lparr>mConjunctions = [c], mArity = k\<rparr> m
    = Inr \<lparr>mConjunctions = [rebuild_conj (reverse_trm m) c], mArity = k\<rparr>"
proof -
  let ?V = "VisitorReverseAffineSubstitution m"
  from reverse.conjunction[OF c(1) c(2)[unfolded no_calls_def], of m reverse_start] obtain s' where s':
    "accept_conj ?V c reverse_start = Inr (c, s')" "nonMAffineConj s' = [rebuild_conj (reverse_trm m) c]"
    by (auto simp: reverse_start_def)
  have hooks: "preVisitSet ?V x s = Inr s" "preVisitSparseConstraints ?V cs s = Inr s"
    "postVisitSparseConstraints ?V cs s = Inr s"
    "postVisitSet ?V x s = bind_result (affine_set_of (mArity x) (nonMAffineConj s)) (\<lambda>a. Inr (s\<lparr>nonAffineSet := a\<rparr>))"
    for x cs s by (simp_all add: VisitorReverseAffineSubstitution_def base_Visitor_def)
  have "affine_set_of k [rebuild_conj (reverse_trm m) c] = Inr \<lparr>mConjunctions = [rebuild_conj (reverse_trm m) c], mArity = k\<rparr>"
    by (simp add: affine_set_of_def Set_new_conj Set_addConjunction_def sparse_addConjunction_def)
  with s' show ?thesis by (simp add: Set_reverseAffineSubstitution_def accept_Set_def accept_sparse_def hooks)
qed

lemma set_object_eta: "mConjunctions s = cs \<Longrightarrow> mArity s = n \<Longrightarrow> s = \<lparr>mConjunctions = cs, mArity = n\<rparr>" for s :: set_object
  by simp

text \<open>The set whose calls are replaced: the copy, or the copy with the bounds of its calls.\<close>

definition copied :: "(string \<Rightarrow> string) \<Rightarrow> set_object environment \<Rightarrow> set_object \<Rightarrow> bool \<Rightarrow> set_object result" where
  "copied qinv env s boundUFCs = (if boundUFCs then Set_boundDomainRange qinv env s else Set_copy qinv s)"

definition points_within :: "(string \<Rightarrow> string) \<Rightarrow> set_object environment \<Rightarrow> bool \<Rightarrow> interp \<Rightarrow> sparse \<Rightarrow> bool" where
  "points_within qinv env boundUFCs I cs \<longleftrightarrow> (boundUFCs \<longrightarrow> (\<forall>c \<in> set cs. calls_within qinv env I (conj_calls c)))"

lemma copied_points:
  assumes none: "no_inverses qinv" and s: "plain_sparse n (mConjunctions s)" "Set_copy qinv s = Inr s0"
    and dec: "boundUFCs \<longrightarrow> all_declared qinv env (mConjunctions s0)" and s1: "copied qinv env s boundUFCs = Inr s1"
  shows "plain_sparse n (mConjunctions s1)" "mArity s1 = mArity s" "mConjunctions s1 = [] \<longleftrightarrow> mConjunctions s0 = []"
    "\<forall>I. sparse_holds I (mConjunctions s1) \<longleftrightarrow> sparse_holds I (mConjunctions s) \<and> points_within qinv env boundUFCs I (mConjunctions s0)"
    "\<forall>k. k \<notin> sparse_arg_tvars (mConjunctions s0) \<longrightarrow> k \<notin> sparse_arg_tvars (mConjunctions s1)"
proof -
  have "plain_sparse n (mConjunctions s1) \<and> mArity s1 = mArity s \<and> (mConjunctions s1 = [] \<longleftrightarrow> mConjunctions s0 = []) \<and>
    (\<forall>I. sparse_holds I (mConjunctions s1) \<longleftrightarrow> sparse_holds I (mConjunctions s) \<and> points_within qinv env boundUFCs I (mConjunctions s0)) \<and>
    (\<forall>k. k \<notin> sparse_arg_tvars (mConjunctions s0) \<longrightarrow> k \<notin> sparse_arg_tvars (mConjunctions s1))"
  proof (cases boundUFCs)
    case True
    obtain s' where "Set_boundDomainRange qinv env s = Inr s'" "plain_sparse n (mConjunctions s')" "mArity s' = mArity s"
      "\<forall>I. sparse_holds I (mConjunctions s') \<longleftrightarrow> sparse_holds I (mConjunctions s) \<and>
        (\<forall>c \<in> set (mConjunctions s0). calls_within qinv env I (conj_calls c))"
      "\<forall>k. k \<notin> sparse_arg_tvars (mConjunctions s0) \<longrightarrow> k \<notin> sparse_arg_tvars (mConjunctions s')"
      "mConjunctions s' = [] \<longleftrightarrow> mConjunctions s0 = []"
      by (rule Set_bound_copy[OF none s]) (use True dec in simp_all)
    with s1 True show ?thesis by (simp add: copied_def points_within_def)
  next
    case False
    then have "s1 = s0" using s(2) s1 by (simp add: copied_def)
    with False Set_copy_plain[OF none s(1)] s(2) show ?thesis by (metis points_within_def sum.inject(2))
  qed
  then show "plain_sparse n (mConjunctions s1)" "mArity s1 = mArity s" "mConjunctions s1 = [] \<longleftrightarrow> mConjunctions s0 = []"
    "\<forall>I. sparse_holds I (mConjunctions s1) \<longleftrightarrow> sparse_holds I (mConjunctions s) \<and> points_within qinv env boundUFCs I (mConjunctions s0)"
    "\<forall>k. k \<notin> sparse_arg_tvars (mConjunctions s0) \<longrightarrow> k \<notin> sparse_arg_tvars (mConjunctions s1)" by blast+
qed

text \<open>The super affine set of a set with points.\<close>

lemma superAffineSet_run:
  assumes none: "no_inverses qinv" and s: "plain_sparse n (mConjunctions s)" "Set_copy qinv s = Inr s0"
    and dec: "boundUFCs \<longrightarrow> all_declared qinv env (mConjunctions s0)" and s1: "copied qinv env s boundUFCs = Inr s1"
    and m: "ufcall_map_ok m" and some: "mConjunctions s0 \<noteq> []" and ok: "symbols_ok (top_terms (mConjunctions s1) @ map_call_list m)"
  obtains c where "mConjunctions s1 = [c]" "plain_conj c" "conj_arity c = n"
    "superAffineSet qinv env s m boundUFCs =
      Inr (\<lparr>mConjunctions = [rebuild_conj affine_trm c], mArity = mArity s\<rparr>, fold affine_step (top_terms [c]) m)"
proof -
  note p = copied_points[OF none s dec s1]
  obtain c where c: "mConjunctions s1 = [c]" "plain_conj c" "conj_arity c = n"
    using p(1,3) some short_list[of "mConjunctions s1"] by (auto simp: plain_sparse_def)
  obtain x st where v: "accept_Set VisitorSuperAffineSet \<lparr>mConjunctions = [c], mArity = mArity s\<rparr> (affine_start m) = Inr (x, st)"
    "affineSet st = \<lparr>mConjunctions = [rebuild_conj affine_trm c], mArity = mArity s\<rparr>"
    "ufcmap st = fold affine_step (top_terms [c]) m" by (rule affine_visit[OF c(2) m])
  have "superAffineSet qinv env s m boundUFCs =
      Inr (\<lparr>mConjunctions = [rebuild_conj affine_trm c], mArity = mArity s\<rparr>, fold affine_step (top_terms [c]) m)"
    using s(2) some s1 v set_object_eta[OF c(1) p(2)] by (simp add: superAffineSet_def copied_def)
  with c show thesis by (rule that)
qed

section \<open>The composition\<close>

lemma map_calls_plain:
  assumes m: "ufcall_map_ok m" "\<forall>u \<in> map_calls m. plain_trm u" and c: "plain_conj c"
  shows "ufcall_map_ok (fold affine_step (top_terms [c]) m)" "\<forall>u \<in> map_calls (fold affine_step (top_terms [c]) m). plain_trm u"
proof -
  note a = affine_map[OF m(1) refl, of "top_terms [c]"]
  show "ufcall_map_ok (fold affine_step (top_terms [c]) m)" by (rule a(1))
  have "plain_trm t" if "t \<in> set (top_terms [c])" for t
    using c that by (auto simp: plain_conj_exps constraints_of_def plain_exp_terms top_terms_def)
  then have "\<forall>u \<in> setCoefficient 1 ` set (filter isUFCall (top_terms [c])) \<union> map_calls m. plain_trm u"
    using m(2) by (simp add: plain_trm.P_coefficient ball_Un del: set_filter) (simp add: top_terms_def)
  then show "\<forall>u \<in> map_calls (fold affine_step (top_terms [c]) m). plain_trm u" using a(3) by blast
qed

text \<open>What the library isl is trusted with: a set with points, without calls, is returned with the same points.\<close>

definition isl_keeps :: "(set_object \<Rightarrow> set_object result) \<Rightarrow> bool" where
  "isl_keeps thru_isl \<longleftrightarrow> (\<forall>s. plain_sparse (mArity s) (mConjunctions s) \<longrightarrow> (\<forall>c \<in> set (mConjunctions s). no_calls c) \<longrightarrow>
     (\<exists>I. sparse_holds I (mConjunctions s)) \<longrightarrow>
     (\<exists>s'. thru_isl s = Inr s' \<and> mArity s' = mArity s \<and> plain_sparse (mArity s) (mConjunctions s') \<and>
       (\<forall>c \<in> set (mConjunctions s'). no_calls c) \<and> (\<forall>I. sparse_holds I (mConjunctions s') \<longleftrightarrow> sparse_holds I (mConjunctions s))))"

text \<open>Calls that \<open>indexUFCs\<close> leaves alone: not one argument for a function of several.\<close>

definition index_free :: "set_object environment \<Rightarrow> trm \<Rightarrow> bool" where
  "index_free env t = (case t of
     UFCallTerm c f args i \<Rightarrow> (case queryDomainCurrEnv env f of Inl e \<Rightarrow> False | Inr d \<Rightarrow> \<not> (length args = 1 \<and> mArity d > 1))
   | _ \<Rightarrow> True)"

lemma index_same:
  "\<forall>u \<in> set (calls_trm t). index_free env u \<Longrightarrow> accept_trm (VisitorIndexUFC env) t s = Inr (t, s)"
  "\<forall>u \<in> set (calls_exp e). index_free env u \<Longrightarrow> accept_exp (VisitorIndexUFC env) e s = Inr (e, s)"
proof (induction t and e arbitrary: s and s rule: trm.induct exp.induct)
  case (UFCallTerm c f args i)
  have "visit_all (accept_exp (VisitorIndexUFC env)) args s = Inr (map id args, s)"
    by (rule visit_all_map) (use UFCallTerm in auto)
  moreover have "index_call env (UFCallTerm c f args i) = Inr (UFCallTerm c f args i)"
    using UFCallTerm.prems by (auto simp: index_call_def index_free_def split: sum.splits)
  ultimately show ?case by (simp add: VisitorIndexUFC_def base_Visitor_def)
next
  case (Exp ts et)
  have "visit_all (accept_trm (VisitorIndexUFC env)) ts s = Inr (map id ts, s)"
    by (rule visit_all_map) (use Exp in auto)
  then show ?case by (simp add: VisitorIndexUFC_def base_Visitor_def)
qed (simp_all add: VisitorIndexUFC_def base_Visitor_def)

lemma indexUFCs_same:
  assumes "\<forall>u \<in> set (concat (map conj_calls cs)). index_free env u"
  shows "indexUFCs env cs = Inr cs"
proof -
  let ?V = "VisitorIndexUFC env"
  have hooks: "preVisitSparseConstraints ?V x s = Inr s" "postVisitSparseConstraints ?V x s = Inr s"
    "preVisitConjunction ?V c s = Inr s" "postVisitConjunction ?V c s = Inr (c, s)" for x c s
    by (simp_all add: VisitorIndexUFC_def base_Visitor_def)
  have es: "visit_all (accept_exp ?V) es s = Inr (es, s)" if "\<forall>e \<in> set es. \<forall>u \<in> set (calls_exp e). index_free env u" for es s
    using visit_all_map[of es "accept_exp ?V" s id] index_same(2) that by simp
  have "accept_conj ?V c s = Inr (c, s)" if c: "c \<in> set cs" for c s
  proof -
    have free: "index_free env u" if "e \<in> set (constraints_of c)" "u \<in> set (calls_exp e)" for e u
      using assms c that by (auto simp: conj_calls_def)
    have "visit_all (accept_exp ?V) (mEqualities c) s = Inr (mEqualities c, s)"
      "visit_all (accept_exp ?V) (mInequalities c) s = Inr (mInequalities c, s)"
      by (rule es, use free in \<open>auto simp: constraints_of_def\<close>)+
    then show ?thesis by (simp add: accept_conj_def hooks)
  qed
  then have "visit_all (accept_conj ?V) cs () = Inr (cs, ())" using visit_all_map[of cs "accept_conj ?V" "()" id] by simp
  then show ?thesis by (simp add: indexUFCs_def accept_sparse_def hooks)
qed

section \<open>Properties\<close>

text \<open>C25: For a set of one conjunction as the library builds it that is not dropped as a contradiction when it is
  copied, without declared inverses, with functions declared with bounds of one conjunction where \<open>boundUFCs\<close>
  asks for them, and with calls whose symbols (together with those of the map passed in, which is well formed) differ from
  each other and from the symbolic constants (\<open>symbols_ok\<close>; \<open>f(1, 2)\<close> and \<open>f(12)\<close>
  have the same symbol): \<open>superAffineSet\<close> returns a set without calls and a map from calls to symbols, which
  extends the one passed in. With the values of the calls for the symbols of the map, a point is in the result exactly
  when it is in the set and, with \<open>boundUFCs\<close>, the calls of the copied set are within their bounds.\<close>

theorem superAffineSet_correct:
  assumes "no_inverses qinv" "plain_sparse n (mConjunctions s)" "Set_copy qinv s = Inr s0"
    "boundUFCs \<longrightarrow> all_declared qinv env (mConjunctions s0)" "copied qinv env s boundUFCs = Inr s1"
    "ufcall_map_ok m" "mConjunctions s0 \<noteq> []" "symbols_ok (top_terms (mConjunctions s1) @ map_call_list m)"
  shows "\<exists>s' m'. superAffineSet qinv env s m boundUFCs = Inr (s', m') \<and> mArity s' = mArity s \<and>
    plain_sparse n (mConjunctions s') \<and> (\<forall>c \<in> set (mConjunctions s'). no_calls c) \<and>
    ufcall_map_ok m' \<and> map_calls m \<subseteq> map_calls m' \<and>
    (\<forall>I. sparse_holds (with_symbols m' I I) (mConjunctions s') \<longleftrightarrow>
      sparse_holds I (mConjunctions s) \<and> points_within qinv env boundUFCs I (mConjunctions s0))"
proof -
  obtain c where c: "mConjunctions s1 = [c]" "plain_conj c" "conj_arity c = n"
    "superAffineSet qinv env s m boundUFCs =
      Inr (\<lparr>mConjunctions = [rebuild_conj affine_trm c], mArity = mArity s\<rparr>, fold affine_step (top_terms [c]) m)"
    by (rule superAffineSet_run[OF assms])
  let ?m' = "fold affine_step (top_terms [c]) m"
  note a = affine_conj_correct[OF c(2) assms(6) assms(8)[unfolded c(1)] refl]
  have "conj_arity (rebuild_conj affine_trm c) = n" using c(3) by (simp add: rebuild_conj_def conj_arity_def)
  moreover have "sparse_holds (with_symbols ?m' I I) [rebuild_conj affine_trm c] \<longleftrightarrow>
      sparse_holds I (mConjunctions s) \<and> points_within qinv env boundUFCs I (mConjunctions s0)" for I
    using copied_points(4)[OF assms(1-5)] a(3)[of I] by (simp add: c(1))
  ultimately show ?thesis using c(4) a(1,2) affine_map(1,2)[OF assms(6) refl] by (auto simp: plain_sparse_def)
qed

text \<open>C27: \<open>reverseAffineSubstitution\<close> undoes \<open>superAffineSet\<close>, for a set of one
  conjunction as the library builds it that is not dropped as a contradiction when it is copied, without declared
  inverses, with functions declared with bounds of one conjunction where \<open>boundUFCs\<close> asks for them, and with
  different symbols for different calls and symbolic constants (\<open>symbols_ok\<close>): with the map of the
  replacement, which started empty, it returns a set with the points of the original one, with \<open>boundUFCs\<close>
  only those at which the calls of the copied set are within their bounds.\<close>

theorem reverse_undoes_superAffineSet:
  assumes "no_inverses qinv" "plain_sparse n (mConjunctions s)" "Set_copy qinv s = Inr s0"
    "boundUFCs \<longrightarrow> all_declared qinv env (mConjunctions s0)" "copied qinv env s boundUFCs = Inr s1"
    "mConjunctions s0 \<noteq> []" "symbols_ok (top_terms (mConjunctions s1))"
  shows "\<exists>s' m' r. superAffineSet qinv env s UFCallMap boundUFCs = Inr (s', m') \<and>
    Set_reverseAffineSubstitution s' m' = Inr r \<and> mArity r = mArity s \<and> plain_sparse n (mConjunctions r) \<and>
    (\<forall>I. sparse_holds I (mConjunctions r) \<longleftrightarrow>
      sparse_holds I (mConjunctions s) \<and> points_within qinv env boundUFCs I (mConjunctions s0))"
proof -
  have m: "ufcall_map_ok UFCallMap" "\<forall>u \<in> map_calls UFCallMap. plain_trm u" by simp_all
  have ok: "symbols_ok (top_terms (mConjunctions s1) @ map_call_list UFCallMap)"
    using assms(7) by (simp add: map_call_list_def UFCallMap_def)
  obtain c where c: "mConjunctions s1 = [c]" "plain_conj c" "conj_arity c = n"
    "superAffineSet qinv env s UFCallMap boundUFCs =
      Inr (\<lparr>mConjunctions = [rebuild_conj affine_trm c], mArity = mArity s\<rparr>, fold affine_step (top_terms [c]) UFCallMap)"
    by (rule superAffineSet_run[OF assms(1-5) m(1) assms(6) ok])
  let ?m' = "fold affine_step (top_terms [c]) UFCallMap" and ?d = "rebuild_conj affine_trm c"
  note a = affine_conj_correct[OF c(2) m(1) ok[unfolded c(1)] refl]
  note r = reverse_conj_correct[OF a(1,2) map_calls_plain[OF m c(2)]]
  have "conj_arity (rebuild_conj (reverse_trm ?m') ?d) = n" using c(3) by (simp add: rebuild_conj_def conj_arity_def)
  moreover have "sparse_holds I [rebuild_conj (reverse_trm ?m') ?d] \<longleftrightarrow>
      sparse_holds I (mConjunctions s) \<and> points_within qinv env boundUFCs I (mConjunctions s0)" for I
    using copied_points(4)[OF assms(1-5)] a(3)[of I] r(2)[of I] by (simp add: c(1))
  ultimately show ?thesis using c(4) reverse_visit[OF a(1,2)] r(1) by (auto simp: plain_sparse_def)
qed

text \<open>C26: For a set of one conjunction as the library builds it that has a point (with \<open>bdr\<close>, one at
  which its calls are within their bounds), without declared inverses, with functions declared with bounds of one
  conjunction where \<open>bdr\<close> asks for them, with different symbols for different calls and symbolic constants
  (\<open>symbols_ok\<close>), and without a call of one argument to a function of several: \<open>normalize\<close>
  returns a set with the points of the set (with \<open>bdr\<close>: those at which the calls of its copy are within their
  bounds), if isl keeps the points of the sets without calls that it is given.\<close>

theorem normalize_correct:
  assumes "no_inverses qinv" "plain_sparse (mArity s) (mConjunctions s)" "Set_copy qinv s = Inr s0"
    "bdr \<longrightarrow> all_declared qinv env (mConjunctions s0)" "copied qinv env s bdr = Inr s1"
    "symbols_ok (top_terms (mConjunctions s1))" "list_all (index_free env) (concat (map conj_calls (mConjunctions s)))"
    "isl_keeps thru_isl" "sparse_holds I0 (mConjunctions s1)"
  shows "\<exists>r. Set_normalize thru_isl qinv env s bdr = Inr r \<and> mArity r = mArity s \<and> plain_sparse (mArity s) (mConjunctions r) \<and>
    (\<forall>I. sparse_holds I (mConjunctions r) \<longleftrightarrow>
      sparse_holds I (mConjunctions s) \<and> points_within qinv env bdr I (mConjunctions s0))"
proof -
  have m: "ufcall_map_ok UFCallMap" "\<forall>u \<in> map_calls UFCallMap. plain_trm u" by simp_all
  have ok: "symbols_ok (top_terms (mConjunctions s1) @ map_call_list UFCallMap)"
    using assms(6) by (simp add: map_call_list_def UFCallMap_def)
  have "mConjunctions s1 \<noteq> []" using assms(9) by auto
  then have some: "mConjunctions s0 \<noteq> []" using copied_points(3)[OF assms(1-5)] by simp
  obtain c where c: "mConjunctions s1 = [c]" "plain_conj c" "conj_arity c = mArity s"
    "superAffineSet qinv env s UFCallMap bdr =
      Inr (\<lparr>mConjunctions = [rebuild_conj affine_trm c], mArity = mArity s\<rparr>, fold affine_step (top_terms [c]) UFCallMap)"
    by (rule superAffineSet_run[OF assms(1-5) m(1) some ok])
  let ?m' = "fold affine_step (top_terms [c]) UFCallMap" and ?d = "rebuild_conj affine_trm c"
  let ?s = "\<lparr>mConjunctions = [?d], mArity = mArity s\<rparr>"
  note a = affine_conj_correct[OF c(2) m(1) ok[unfolded c(1)] refl]
  have d: "plain_sparse (mArity ?s) (mConjunctions ?s)" "\<forall>c \<in> set (mConjunctions ?s). no_calls c"
    using a(1,2) c(3) by (simp_all add: plain_sparse_def rebuild_conj_def conj_arity_def)
  have "sparse_holds (with_symbols ?m' I0 I0) (mConjunctions ?s)" using a(3)[of I0] assms(9) by (simp add: c(1))
  then have "\<exists>s'. thru_isl ?s = Inr s' \<and> mArity s' = mArity ?s \<and> plain_sparse (mArity ?s) (mConjunctions s') \<and>
      (\<forall>c \<in> set (mConjunctions s'). no_calls c) \<and> (\<forall>I. sparse_holds I (mConjunctions s') \<longleftrightarrow> sparse_holds I (mConjunctions ?s))"
    using assms(8)[unfolded isl_keeps_def] d by blast
  then obtain s' where s': "thru_isl ?s = Inr s'" "mArity s' = mArity s" "plain_sparse (mArity s) (mConjunctions s')"
    "\<forall>c \<in> set (mConjunctions s'). no_calls c" "\<forall>I. sparse_holds I (mConjunctions s') \<longleftrightarrow> conj_holds I ?d"
    by auto
  have "sparse_holds (with_symbols ?m' I0 I0) (mConjunctions s')" using a(3)[of I0] assms(9) s'(5) by (simp add: c(1))
  then obtain d' where d': "mConjunctions s' = [d']" "plain_conj d'" "conj_arity d' = mArity s" "no_calls d'"
    using s'(3,4) short_list[of "mConjunctions s'"] by (auto simp: plain_sparse_def)
  note r = reverse_conj_correct[OF d'(2,4) map_calls_plain[OF m c(2)]]
  let ?r = "\<lparr>mConjunctions = [rebuild_conj (reverse_trm ?m') d'], mArity = mArity s\<rparr>"
  have rp: "plain_sparse (mArity s) (mConjunctions ?r)"
    using r(1) d'(3) by (simp add: plain_sparse_def rebuild_conj_def conj_arity_def)
  obtain q where q: "Set_copy qinv ?r = Inr q" "plain_sparse (mArity s) (mConjunctions q)" "mArity q = mArity ?r"
    "\<forall>I. sparse_holds I (mConjunctions q) \<longleftrightarrow> sparse_holds I (mConjunctions ?r)"
    by (rule Set_copy_plain[OF assms(1) rp]) blast
  have idx: "indexUFCs env (mConjunctions s) = Inr (mConjunctions s)"
    using assms(7) by (intro indexUFCs_same) (simp add: list_all_iff)
  have rev: "Set_reverseAffineSubstitution s' ?m' = Inr ?r"
    using reverse_visit[OF d'(2,4), of "mArity s" ?m'] set_object_eta[OF d'(1) s'(2)] by simp
  have "Set_normalize thru_isl qinv env s bdr = Inr q"
    using idx c(4) s'(1) rev q(1) by (simp add: Set_normalize_def)
  moreover have "sparse_holds I (mConjunctions q) \<longleftrightarrow>
      sparse_holds I (mConjunctions s) \<and> points_within qinv env bdr I (mConjunctions s0)" for I
    using q(4) r(2)[of I] s'(5) a(3)[of I] copied_points(4)[OF assms(1-5)] by (simp add: c(1) d'(1))
  ultimately show ?thesis using q(2,3) by auto
qed

text \<open>The example: \<open>{[i, k] : i = col(k)}\<close> with the bounds of its call.\<close>

definition example_bounded :: set_object where
  "example_bounded = (case copied (\<lambda>f. '''') example_env example_set True of Inr s \<Rightarrow> s | Inl e \<Rightarrow> example_set)"

definition example_point :: interp where
  "example_point = \<lparr>tv = \<lambda>l. 0, sym = \<lambda>s. 1, uf = \<lambda>f i as. 0\<rparr>"

lemma example_affine:
  "True \<longrightarrow> all_declared (\<lambda>f. '''') example_env (mConjunctions example_copy)"
  "copied (\<lambda>f. '''') example_env example_set True = Inr example_bounded" "mConjunctions example_copy \<noteq> []"
  "symbols_ok (top_terms (mConjunctions example_bounded) @ map_call_list UFCallMap)"
  "symbols_ok (top_terms (mConjunctions example_bounded))"
  "list_all (index_free example_env) (concat (map conj_calls (mConjunctions example_set)))"
  "isl_keeps Inr" "sparse_holds example_point (mConjunctions example_bounded)"
proof -
  show "True \<longrightarrow> all_declared (\<lambda>f. '''') example_env (mConjunctions example_copy)" using example_facts(4) by simp
  show "copied (\<lambda>f. '''') example_env example_set True = Inr example_bounded" by code_simp
  show "mConjunctions example_copy \<noteq> []" by code_simp
  show "symbols_ok (top_terms (mConjunctions example_bounded) @ map_call_list UFCallMap)" by code_simp
  show "symbols_ok (top_terms (mConjunctions example_bounded))" by code_simp
  show "list_all (index_free example_env) (concat (map conj_calls (mConjunctions example_set)))" by code_simp
  show "isl_keeps Inr" by (auto simp: isl_keeps_def)
  show "sparse_holds example_point (mConjunctions example_bounded)" by code_simp
qed

theorem superAffineSet_correct_witness:
  "\<exists>s' m'. superAffineSet (\<lambda>f. '''') example_env example_set UFCallMap True = Inr (s', m') \<and> mArity s' = mArity example_set \<and>
    plain_sparse 2 (mConjunctions s') \<and> (\<forall>c \<in> set (mConjunctions s'). no_calls c) \<and>
    ufcall_map_ok m' \<and> map_calls UFCallMap \<subseteq> map_calls m' \<and>
    (\<forall>I. sparse_holds (with_symbols m' I I) (mConjunctions s') \<longleftrightarrow>
      sparse_holds I (mConjunctions example_set) \<and> points_within (\<lambda>f. '''') example_env True I (mConjunctions example_copy))"
  by (rule superAffineSet_correct[OF example_facts(1-3) example_affine(1,2) UFCallMap_ok(1) example_affine(3,4)])

theorem reverse_undoes_superAffineSet_witness:
  "\<exists>s' m' r. superAffineSet (\<lambda>f. '''') example_env example_set UFCallMap True = Inr (s', m') \<and>
    Set_reverseAffineSubstitution s' m' = Inr r \<and> mArity r = mArity example_set \<and> plain_sparse 2 (mConjunctions r) \<and>
    (\<forall>I. sparse_holds I (mConjunctions r) \<longleftrightarrow>
      sparse_holds I (mConjunctions example_set) \<and> points_within (\<lambda>f. '''') example_env True I (mConjunctions example_copy))"
  by (rule reverse_undoes_superAffineSet[OF example_facts(1-3) example_affine(1,2,3,5)])

theorem normalize_correct_witness:
  "\<exists>r. Set_normalize Inr (\<lambda>f. '''') example_env example_set True = Inr r \<and> mArity r = mArity example_set \<and>
    plain_sparse (mArity example_set) (mConjunctions r) \<and>
    (\<forall>I. sparse_holds I (mConjunctions r) \<longleftrightarrow>
      sparse_holds I (mConjunctions example_set) \<and> points_within (\<lambda>f. '''') example_env True I (mConjunctions example_copy))"
proof (rule normalize_correct[OF example_facts(1) _ example_facts(3) example_affine(1,2,5,6,7,8)])
  show "plain_sparse (mArity example_set) (mConjunctions example_set)" using example_facts(2) by (simp add: example_set_def)
qed

end
