(* ===== verification/Project_Out.thy ===== *)
theory Project_Out
  imports Normalize
begin

text \<open>
  What \<open>projectOut\<close> computes. After the projection the arguments of the calls that are put back still use the
  old numbers of the variables, until \<open>VisitorProjectOutCleanUp\<close> renumbers them; in between, the value of a
  constraint depends on two points, which the valuations of this theory account for.
\<close>

section \<open>Valuations of terms\<close>

definition value_of :: "(trm \<Rightarrow> int) \<Rightarrow> exp \<Rightarrow> int" where
  "value_of h e = sum_list (map h (mTerms e))"

text \<open>A valuation of terms that is linear in the coefficient and the same for terms that match.\<close>

locale valuation =
  fixes h :: "trm \<Rightarrow> int"
  assumes linear: "h t = coefficient t * h (setCoefficient 1 t)"
    and matching: "wf_trm t \<Longrightarrow> wf_trm u \<Longrightarrow> factorMatches t u \<Longrightarrow> h (setCoefficient 1 t) = h (setCoefficient 1 u)"
begin

abbreviation val :: "exp \<Rightarrow> int" where
  "val \<equiv> value_of h"

lemma zero_coefficient: "coefficient t = 0 \<Longrightarrow> h t = 0"
  using linear[of t] by simp

lemma val_loop: "list_all wf_trm ts \<Longrightarrow> wf_trm t \<Longrightarrow> sum_list (map h (addTerm_loop ts t)) = sum_list (map h ts) + h t"
proof (induction ts)
  case (Cons u us)
  show ?case
  proof (cases "combine u t")
    case None
    with Cons show ?thesis by simp
  next
    case (Some v)
    then have m: "factorMatches u t" and v: "v = setCoefficient (coefficient u + coefficient t) u"
      by (auto simp: combine_def split: if_splits)
    have "h u = coefficient u * h (setCoefficient 1 u)" "h t = coefficient t * h (setCoefficient 1 u)"
      "h v = (coefficient u + coefficient t) * h (setCoefficient 1 u)"
      using linear[of u] linear[of t] linear[of v] matching[OF _ _ m] Cons.prems by (simp_all add: v)
    with Some Cons.prems zero_coefficient[of v] show ?thesis by (auto simp: distrib_right)
  qed
qed simp

lemma val_addTerm: "wf_exp e \<Longrightarrow> wf_trm t \<Longrightarrow> val (addTerm e t) = val e + h t"
  using zero_coefficient[of t] val_loop[of "mTerms e" t] by (auto simp: value_of_def addTerm_def wf_exp_iff list_all_iff)

lemma val_addTerms: "wf_exp e \<Longrightarrow> list_all wf_trm ts \<Longrightarrow> val (foldl addTerm e ts) = val e + sum_list (map h ts)"
  by (induction ts arbitrary: e) (simp_all add: val_addTerm wf_addTerm)

lemma val_multiplyBy: "val (multiplyBy e k) = k * val e"
proof -
  have "h (multiplyBy_term t k) = k * h t" for t
    using linear[of "multiplyBy_term t k"] linear[of t] by (simp add: multiplyBy_term_def)
  then show ?thesis by (simp add: value_of_def multiplyBy_def comp_def sum_list_const_mult)
qed

lemma val_normalizeForEquality: "val (normalizeForEquality e) = 0 \<longleftrightarrow> val e = 0"
proof (cases "mTerms e = []")
  case False
  let ?e = "if coefficient (hd (mTerms e)) < 0 then multiplyBy e (-1) else e"
  have e: "val ?e = 0 \<longleftrightarrow> val e = 0" by (simp add: val_multiplyBy)
  have "mTerms ?e \<noteq> []" using False by (simp add: multiplyBy_def)
  moreover have "ts \<noteq> [] \<Longrightarrow> sum_list (map h ts) = sum_list (map h (butlast ts)) + h (last ts)" for ts
    by (induction ts) auto
  ultimately have "sum_list (map h (mTerms ?e)) = sum_list (map h (butlast (mTerms ?e))) + h (last (mTerms ?e))" by blast
  then have "val (if coefficient (last (mTerms ?e)) = 0 then Exp (butlast (mTerms ?e)) (mExpType ?e) else ?e) = val ?e"
    by (simp add: value_of_def zero_coefficient)
  with e False show ?thesis by (simp add: normalizeForEquality_def Let_def)
qed (simp add: normalizeForEquality_def)

lemma val_zero: "equalsZero e \<Longrightarrow> val e = 0"
  by (cases "mTerms e") (auto simp: equalsZero_def value_of_def zero_coefficient split: if_splits)

lemma val_kind [simp]: "val (setEquality e) = val e" "val (setInequality e) = val e"
  by (simp_all add: value_of_def)

lemma val_key:
  assumes "wf_exp e" "wf_exp e'" "key_of_exp e = key_of_exp e'"
  shows "val e = val e'"
proof -
  have same: "h t = h u" if "wf_trm t" "wf_trm u" "key_of_trm t = key_of_trm u" for t u
  proof -
    have "trm_eq t u" using that(3) by (simp add: trm_eq_key)
    then have "factorMatches t u" "coefficient t = coefficient u" by (auto dest: trm_eq_factorMatches)
    with matching[OF that(1,2)] show ?thesis using linear[of t] linear[of u] by simp
  qed
  have "length (mTerms e) = length (mTerms e') \<Longrightarrow> list_all wf_trm (mTerms e) \<Longrightarrow> list_all wf_trm (mTerms e') \<Longrightarrow>
    map key_of_trm (mTerms e) = map key_of_trm (mTerms e') \<Longrightarrow> map h (mTerms e) = map h (mTerms e')"
    by (induction rule: list_induct2) (simp_all add: same)
  then have "map h (mTerms e) = map h (mTerms e')" using assms by (simp add: key_of_exp_def wf_exp_iff list_all_iff)
  then show ?thesis by (simp add: value_of_def)
qed

end

sublocale valuation \<subseteq> zero: keyed_constraints exp_less key_of_exp wf_exp "\<lambda>i :: unit. \<lambda>e. value_of h e = 0"
  by unfold_locales (metis val_key)

sublocale valuation \<subseteq> nonneg: keyed_constraints exp_less key_of_exp wf_exp "\<lambda>i :: unit. \<lambda>e. value_of h e \<ge> 0"
  by unfold_locales (metis val_key)

context valuation
begin

lemma val_addEquality:
  assumes "conj_wf c" "wf_exp e"
  shows "(\<forall>d \<in> set (mEqualities (addEquality c e)). val d = 0) \<longleftrightarrow> val e = 0 \<and> (\<forall>d \<in> set (mEqualities c). val d = 0)"
proof -
  let ?n = "setEquality (normalizeForEquality e)"
  have n: "wf_exp ?n" using assms(2) by (simp add: wf_normalizeForEquality)
  have wf: "\<forall>d \<in> set (mEqualities c). wf_exp d" using assms(1) by (simp add: conj_wf_def)
  show ?thesis
  proof (cases "equalsZero (normalizeForEquality e)")
    case True
    with val_zero[OF True] val_normalizeForEquality[of e] show ?thesis by (simp add: addEquality_def)
  next
    case False
    with zero.all_insert_unique[OF n wf] val_normalizeForEquality[of e] show ?thesis
      by (simp add: addEquality_def Let_def)
  qed
qed

lemma val_addInequality:
  assumes "conj_wf c" "wf_exp e"
  shows "(\<forall>d \<in> set (mInequalities (addInequality c e)). val d \<ge> 0) \<longleftrightarrow> val e \<ge> 0 \<and> (\<forall>d \<in> set (mInequalities c). val d \<ge> 0)"
proof -
  have n: "wf_exp (setInequality e)" and wf: "\<forall>d \<in> set (mInequalities c). wf_exp d"
    using assms by (simp_all add: conj_wf_def)
  show ?thesis
    using val_zero[of e] nonneg.all_insert_unique[OF n wf] by (auto simp: addInequality_def)
qed

lemma val_addEqualities:
  "conj_wf c \<Longrightarrow> \<forall>e \<in> set es. wf_exp e \<Longrightarrow>
    (\<forall>d \<in> set (mEqualities (foldl addEquality c es)). val d = 0) \<longleftrightarrow> (\<forall>e \<in> set es. val e = 0) \<and> (\<forall>d \<in> set (mEqualities c). val d = 0)"
proof (induction es arbitrary: c)
  case (Cons e es)
  have wf: "conj_wf (addEquality c e)" using conj_addEqualities(1)[of c "[e]"] Cons.prems by simp
  from Cons.IH[OF wf] val_addEquality[of c e] Cons.prems show ?case by auto
qed simp

lemma val_addInequalities:
  "conj_wf c \<Longrightarrow> \<forall>e \<in> set es. wf_exp e \<Longrightarrow>
    (\<forall>d \<in> set (mInequalities (foldl addInequality c es)). val d \<ge> 0) \<longleftrightarrow> (\<forall>e \<in> set es. val e \<ge> 0) \<and> (\<forall>d \<in> set (mInequalities c). val d \<ge> 0)"
proof (induction es arbitrary: c)
  case (Cons e es)
  have wf: "conj_wf (addInequality c e)" using conj_addInequalities(1)[of c "[e]"] Cons.prems by simp
  from Cons.IH[OF wf] val_addInequality[of c e] Cons.prems show ?case by auto
qed simp

text \<open>The values of the constraints of a rebuilt conjunction.\<close>

lemma val_rebuild_conj:
  assumes p: "\<forall>e \<in> set (constraints_of c). \<forall>t \<in> set (mTerms e). plain_trm (f t)"
  shows "(\<forall>d \<in> set (mEqualities (rebuild_conj f c)). val d = 0) \<longleftrightarrow>
      (\<forall>e \<in> set (mEqualities c). sum_list (map (\<lambda>t. h (f t)) (mTerms e)) = 0)"
    "(\<forall>d \<in> set (mInequalities (rebuild_conj f c)). val d \<ge> 0) \<longleftrightarrow>
      (\<forall>e \<in> set (mInequalities c). sum_list (map (\<lambda>t. h (f t)) (mTerms e)) \<ge> 0)"
proof -
  have wf: "wf_exp (rebuild_exp f e)" if "e \<in> set (constraints_of c)" for e
    using rebuild_exp_plain(1)[of e f] p that by (simp add: plain_exp_def)
  have v: "val (rebuild_exp f e) = sum_list (map (\<lambda>t. h (f t)) (mTerms e))" if "e \<in> set (constraints_of c)" for e
  proof -
    have "list_all wf_trm (map f (mTerms e))" using p that by (auto simp: list_all_iff plain_trm_def)
    then have "val (foldl addTerm empty_exp (map f (mTerms e))) = val empty_exp + sum_list (map h (map f (mTerms e)))"
      by (intro val_addTerms) simp_all
    then show ?thesis by (simp add: rebuild_exp_def value_of_def comp_def)
  qed
  let ?c0 = "(Conjunction_of (mTupleDecl c))\<lparr>mInArity := mInArity c\<rparr>"
  let ?c1 = "foldl addEquality ?c0 (map (rebuild_exp f) (mEqualities c))"
  have c0: "conj_wf ?c0" "mEqualities ?c0 = []" "mInequalities ?c0 = []" by (simp_all add: Conjunction_of_def conj_wf_def)
  have es: "\<forall>e \<in> set (map (rebuild_exp f) (mEqualities c)). wf_exp e" "\<forall>e \<in> set (map (rebuild_exp f) (mInequalities c)). wf_exp e"
    using wf by (auto simp: constraints_of_def)
  note c1 = conj_addEqualities[OF c0(1) es(1)]
  have r: "mEqualities (rebuild_conj f c) = mEqualities ?c1"
    "mInequalities (rebuild_conj f c) = mInequalities (foldl addInequality ?c1 (map (rebuild_exp f) (mInequalities c)))"
    "mInequalities ?c1 = []"
    by (simp_all add: rebuild_conj_def build_conj_def c0)
  show "(\<forall>d \<in> set (mEqualities (rebuild_conj f c)). val d = 0) \<longleftrightarrow>
      (\<forall>e \<in> set (mEqualities c). sum_list (map (\<lambda>t. h (f t)) (mTerms e)) = 0)"
    unfolding r(1) val_addEqualities[OF c0(1) es(1)] using v by (auto simp: c0 constraints_of_def)
  show "(\<forall>d \<in> set (mInequalities (rebuild_conj f c)). val d \<ge> 0) \<longleftrightarrow>
      (\<forall>e \<in> set (mInequalities c). sum_list (map (\<lambda>t. h (f t)) (mTerms e)) \<ge> 0)"
    unfolding r(2) val_addInequalities[OF c1(1) es(2)] using v by (auto simp: r(3) constraints_of_def Conjunction_of_def)
qed

end

text \<open>Calls in one interpretation, all other terms in another.\<close>

definition split_value :: "interp \<Rightarrow> interp \<Rightarrow> trm \<Rightarrow> int" where
  "split_value K I t = eval_trm (if isUFCall t then K else I) t"

interpretation split_value: valuation "split_value K I" for K I
proof unfold_locales
  have c: "isUFCall (setCoefficient k t) = isUFCall t" for k t by (simp add: isUFCall_def)
  show "split_value K I t = coefficient t * split_value K I (setCoefficient 1 t)" for t
    unfolding split_value_def c by (rule eval_trm_factor)
  fix t u assume m: "wf_trm t" "wf_trm u" "factorMatches t u"
  have "isUFCall t = isUFCall u" using m(3) by (cases t; cases u) (auto simp: factorMatches_def isUFCall_def Term_factorMatches_def)
  then show "split_value K I (setCoefficient 1 t) = split_value K I (setCoefficient 1 u)"
    unfolding split_value_def c by (simp add: factorMatches_eval[OF m])
qed

section \<open>Renumbering the variables in arguments\<close>

fun shift_trm :: "int \<Rightarrow> trm \<Rightarrow> trm" and shift_exp :: "int \<Rightarrow> exp \<Rightarrow> exp" where
  "shift_trm k (UFCallTerm c f args i) = UFCallTerm c f (map (shift_exp k) args) i"
| "shift_trm k (TupleVarTerm c l) = TupleVarTerm c (if l > k then l - 1 else l)"
| "shift_trm k (Term c) = Term c"
| "shift_trm k (VarTerm c s) = VarTerm c s"
| "shift_exp k (Exp ts et) = Exp (map (shift_trm k) ts) et"

definition clean_trm :: "int \<Rightarrow> trm \<Rightarrow> trm" where
  "clean_trm k t = (if isUFCall t then shift_trm k t else t)"

definition clean_exp :: "int \<Rightarrow> exp \<Rightarrow> exp" where
  "clean_exp k e = Exp (map (clean_trm k) (mTerms e)) (mExpType e)"

definition clean_conj :: "int \<Rightarrow> conjunction \<Rightarrow> conjunction" where
  "clean_conj k c = c\<lparr>mEqualities := map (clean_exp k) (mEqualities c), mInequalities := map (clean_exp k) (mInequalities c)\<rparr>"

lemma clean_hooks [simp]:
  "preVisitTerm (VisitorProjectOutCleanUp k) = (\<lambda>t s. Inr s)" "preVisitVarTerm (VisitorProjectOutCleanUp k) = (\<lambda>t s. Inr s)"
  "preVisitUFCallTerm (VisitorProjectOutCleanUp k) = (\<lambda>t nc_ufc. Inr (nc_ufc + 1))"
  "postVisitUFCallTerm (VisitorProjectOutCleanUp k) = (\<lambda>t nc_ufc. Inr (t, nc_ufc - 1))"
  "preVisitTupleVarTerm (VisitorProjectOutCleanUp k) = (\<lambda>t nc_ufc. Inr
     (if nc_ufc \<noteq> 0 \<and> tvloc t > k then TupleVarTerm (coefficient t) (tvloc t - 1) else t, nc_ufc))"
  "preVisitExp (VisitorProjectOutCleanUp k) = (\<lambda>e s. Inr s)" "postVisitExp (VisitorProjectOutCleanUp k) = (\<lambda>e s. Inr s)"
  "preVisitConjunction (VisitorProjectOutCleanUp k) = (\<lambda>c s. Inr s)"
  "postVisitConjunction (VisitorProjectOutCleanUp k) = (\<lambda>c s. Inr (c, s))"
  "preVisitSparseConstraints (VisitorProjectOutCleanUp k) = (\<lambda>cs s. Inr s)"
  "postVisitSparseConstraints (VisitorProjectOutCleanUp k) = (\<lambda>cs s. Inr s)"
  "preVisitSet (VisitorProjectOutCleanUp k) = (\<lambda>x s. Inr s)" "postVisitSet (VisitorProjectOutCleanUp k) = (\<lambda>x s. Inr s)"
  by (simp_all add: VisitorProjectOutCleanUp_def base_Visitor_def)

lemma clean_args:
  "nc_ufc > 0 \<Longrightarrow> accept_trm (VisitorProjectOutCleanUp k) t nc_ufc = Inr (shift_trm k t, nc_ufc)"
  "nc_ufc > 0 \<Longrightarrow> accept_exp (VisitorProjectOutCleanUp k) e nc_ufc = Inr (shift_exp k e, nc_ufc)"
proof (induction t and e arbitrary: nc_ufc and nc_ufc rule: trm.induct exp.induct)
  case (UFCallTerm c f args i)
  have "visit_all (accept_exp (VisitorProjectOutCleanUp k)) args (nc_ufc + 1) = Inr (map (shift_exp k) args, nc_ufc + 1)"
    by (rule visit_all_map) (use UFCallTerm in auto)
  then show ?case by simp
next
  case (Exp ts et)
  have "visit_all (accept_trm (VisitorProjectOutCleanUp k)) ts nc_ufc = Inr (map (shift_trm k) ts, nc_ufc)"
    by (rule visit_all_map) (use Exp in auto)
  then show ?case by simp
qed auto

lemma clean_visit: "accept_conj (VisitorProjectOutCleanUp k) c 0 = Inr (clean_conj k c, 0)"
proof -
  let ?V = "VisitorProjectOutCleanUp k"
  have t: "accept_trm ?V t 0 = Inr (clean_trm k t, 0)" for t
  proof (cases t)
    case (UFCallTerm d f args i)
    have "visit_all (accept_exp ?V) args 1 = Inr (map (shift_exp k) args, 1)"
      by (rule visit_all_map) (simp add: clean_args)
    then show ?thesis by (simp add: UFCallTerm clean_trm_def isUFCall_def)
  qed (simp_all add: clean_trm_def isUFCall_def)
  have e: "accept_exp ?V e 0 = Inr (clean_exp k e, 0)" for e
  proof (cases e)
    case (Exp ts et)
    have "visit_all (accept_trm ?V) ts 0 = Inr (map (clean_trm k) ts, 0)" by (rule visit_all_map) (rule t)
    then show ?thesis by (simp add: Exp clean_exp_def)
  qed
  have es: "visit_all (accept_exp ?V) es 0 = Inr (map (clean_exp k) es, 0)" for es by (rule visit_all_map) (rule e)
  show ?thesis by (simp add: accept_conj_def es clean_conj_def)
qed

text \<open>A point with a value for one variable more.\<close>

definition insert_tv :: "int \<Rightarrow> int \<Rightarrow> interp \<Rightarrow> interp" where
  "insert_tv k x I = I\<lparr>tv := \<lambda>l. if l < k then tv I l else if l = k then x else tv I (l - 1)\<rparr>"

lemma shift_eval:
  "k \<notin> tvars_trm t \<Longrightarrow> eval_trm I (shift_trm k t) = eval_trm (insert_tv k x I) t"
  "k \<notin> tvars e \<Longrightarrow> eval_exp I (shift_exp k e) = eval_exp (insert_tv k x I) e"
proof (induction t and e rule: trm.induct exp.induct)
  case (UFCallTerm c f args i)
  then have "map (eval_exp I) (map (shift_exp k) args) = map (eval_exp (insert_tv k x I)) args" by simp
  then have "uf I f (tupleIndex i) (map (eval_exp I) (map (shift_exp k) args)) =
    uf I f (tupleIndex i) (map (eval_exp (insert_tv k x I)) args)" by (rule arg_cong)
  moreover have "uf (insert_tv k x I) = uf I" by (simp add: insert_tv_def)
  ultimately show ?case by (simp only: shift_trm.simps eval_trm.simps)
next
  case (Exp ts et)
  then have "map (eval_trm I) (map (shift_trm k) ts) = map (eval_trm (insert_tv k x I)) ts" by simp
  then have "sum_list (map (eval_trm I) (map (shift_trm k) ts)) = sum_list (map (eval_trm (insert_tv k x I)) ts)"
    by (rule arg_cong)
  then show ?case by (simp only: shift_exp.simps eval_exp.simps)
qed (auto simp: insert_tv_def)

lemma shift_plain:
  "0 \<le> k \<Longrightarrow> wf_trm t \<Longrightarrow> wf_trm (shift_trm k t)" "0 \<le> k \<Longrightarrow> wf_exp e \<Longrightarrow> wf_exp (shift_exp k e)"
  "has_args (shift_trm k t) = has_args t" "has_args_exp (shift_exp k e) = has_args_exp e"
  "args_kind_trm (shift_trm k t) = args_kind_trm t" "args_kind (shift_exp k e) = args_kind e"
proof -
  have kind: "mExpType (shift_exp k e) = mExpType e" for e by (cases e) simp
  show "0 \<le> k \<Longrightarrow> wf_trm t \<Longrightarrow> wf_trm (shift_trm k t)" "0 \<le> k \<Longrightarrow> wf_exp e \<Longrightarrow> wf_exp (shift_exp k e)"
    by (induction t and e rule: trm.induct exp.induct) (auto simp: list_all_iff)
  show "has_args (shift_trm k t) = has_args t" "has_args_exp (shift_exp k e) = has_args_exp e"
    by (induction t and e rule: trm.induct exp.induct) (auto simp: list_all_iff)
  show "args_kind_trm (shift_trm k t) = args_kind_trm t" "args_kind (shift_exp k e) = args_kind e"
    by (induction t and e rule: trm.induct exp.induct) (auto simp: list_all_iff kind)
qed

lemma clean_plain: "0 \<le> k \<Longrightarrow> plain_conj c \<Longrightarrow> plain_conj (clean_conj k c)" "conj_arity (clean_conj k c) = conj_arity c"
proof -
  show "conj_arity (clean_conj k c) = conj_arity c" by (simp add: clean_conj_def conj_arity_def)
  then show "0 \<le> k \<Longrightarrow> plain_conj c \<Longrightarrow> plain_conj (clean_conj k c)"
    using shift_plain by (auto simp: plain_conj_exps clean_conj_def plain_exp_terms clean_exp_def clean_trm_def plain_trm_def)
qed

lemma clean_holds:
  assumes "conj_all (not_in_args k) c"
  shows "conj_holds I (clean_conj k c) \<longleftrightarrow> decl_holds I (mTupleDecl c) \<and>
    (\<forall>e \<in> set (mEqualities c). value_of (split_value (insert_tv k x I) I) e = 0) \<and>
    (\<forall>e \<in> set (mInequalities c). value_of (split_value (insert_tv k x I) I) e \<ge> 0)"
proof -
  have "eval_exp I (clean_exp k e) = value_of (split_value (insert_tv k x I) I) e"
    if e: "e \<in> set (mEqualities c) \<union> set (mInequalities c)" for e
  proof -
    have "eval_trm I (clean_trm k t) = split_value (insert_tv k x I) I t" if t: "t \<in> set (mTerms e)" for t
    proof (cases "isUFCall t")
      case True
      have "not_in_args k t" using assms e t by (auto simp: conj_all_def list_all_iff)
      then have "k \<notin> tvars_trm t" using True by (cases t) (simp_all add: not_in_args_def isUFCall_def)
      from shift_eval(1)[OF this, of I x] True show ?thesis by (simp add: clean_trm_def split_value_def)
    qed (simp add: clean_trm_def split_value_def)
    then have "map (eval_trm I) (map (clean_trm k) (mTerms e)) = map (split_value (insert_tv k x I) I) (mTerms e)" by simp
    then have "sum_list (map (eval_trm I) (map (clean_trm k) (mTerms e))) = sum_list (map (split_value (insert_tv k x I) I) (mTerms e))"
      by (rule arg_cong)
    then show ?thesis by (simp only: clean_exp_def value_of_def eval_exp.simps)
  qed
  then show ?thesis by (auto simp: conj_holds_def clean_conj_def holds_eq_def holds_ineq_def)
qed

section \<open>Projecting the super affine set\<close>

lemma insert_with_symbols: "insert_tv k x (with_symbols m K I) = with_symbols m K (insert_tv k x I)"
  by (cases I) (simp add: insert_tv_def with_symbols_def cong: if_cong option.case_cong)

text \<open>What the library isl is asked for: the points that some value of the variable completes to points of the set.
  The answer is a set of one conjunction, without calls.\<close>

definition projects :: "(set_object \<Rightarrow> int \<Rightarrow> set_object result) \<Rightarrow> int \<Rightarrow> set_object \<Rightarrow> bool" where
  "projects isl_project k s \<longleftrightarrow>
     (\<exists>p. isl_project s k = Inr p \<and> mConjunctions p \<noteq> [] \<and> plain_sparse (mArity s - 1) (mConjunctions p) \<and>
       (\<forall>c \<in> set (mConjunctions p). no_calls c) \<and>
       (\<forall>I. sparse_holds I (mConjunctions p) \<longleftrightarrow> (\<exists>x. sparse_holds (insert_tv k x I) (mConjunctions s))))"

text \<open>The set passed to isl.\<close>

definition to_project :: "set_object \<Rightarrow> set_object" where
  "to_project s = s\<lparr>mConjunctions := map (\<lambda>c. c\<lparr>mInArity := 0\<rparr>) (mConjunctions s)\<rparr>"

lemma project_visit:
  assumes a: "conj_arity a = n" "2 \<le> n" and k: "0 \<le> k"
    and p: "isl_project \<lparr>mConjunctions = [a\<lparr>mInArity := 0\<rparr>], mArity = n\<rparr> k = Inr p" "mConjunctions p = [q]" "conj_arity q = n - 1"
  obtains x pv where "accept_Set (VisitorProjectOut isl_project k 0) \<lparr>mConjunctions = [a], mArity = n\<rparr> project_start = Inr (x, pv)"
    "newSet pv = \<lparr>mConjunctions = [q\<lparr>mInArity := 0\<rparr>], mArity = n - 1\<rparr>"
proof -
  let ?V = "VisitorProjectOut isl_project k 0"
  have hooks: "preVisitSet ?V x s = Inr s" "preVisitSparseConstraints ?V cs s = Inr s" "postVisitSparseConstraints ?V cs s = Inr s"
    "preVisitConjunction ?V c s = Inr s" "preVisitExp ?V e s = Inr s" "postVisitExp ?V e s = Inr s"
    "preVisitTerm ?V t s = Inr s" "preVisitVarTerm ?V t s = Inr s" "preVisitTupleVarTerm ?V t s = Inr (t, s)"
    "preVisitUFCallTerm ?V t s = Inr s" "postVisitUFCallTerm ?V t s = Inr (t, s)"
    "postVisitConjunction ?V c s =
       bind_result (project_conj isl_project k (adjusted_inArity k 0) c (mNewConj s)) (\<lambda>new. Inr (c, s\<lparr>mNewConj := new\<rparr>))"
    "postVisitSet ?V x s = bind_result (smaller (mArity x)) (\<lambda>n. bind_result (affine_set_of n (mNewConj s)) (\<lambda>a. Inr (s\<lparr>newSet := a\<rparr>)))"
    for x cs c e t s by (simp_all add: VisitorProjectOut_def base_Visitor_def)
  have t: "accept_trm ?V t s = Inr (t, s)" and e: "accept_exp ?V e s = Inr (e, s)" for t e s
  proof (induction t and e arbitrary: s and s rule: trm.induct exp.induct)
    case (UFCallTerm c f args i)
    have "visit_all (accept_exp ?V) args s = Inr (map id args, s)" by (rule visit_all_map) (use UFCallTerm in auto)
    then show ?case by (simp add: hooks)
  next
    case (Exp ts et)
    have "visit_all (accept_trm ?V) ts s = Inr (map id ts, s)" by (rule visit_all_map) (use Exp in auto)
    then show ?case by (simp add: hooks)
  qed (simp_all add: hooks)
  have es: "visit_all (accept_exp ?V) es s = Inr (map id es, s)" for es s by (rule visit_all_map) (simp add: e)
  have ia: "setInArity a 0 = Inr (a\<lparr>mInArity := 0\<rparr>)" "setInArity q 0 = Inr (q\<lparr>mInArity := 0\<rparr>)"
    using a p(3) by (simp_all add: setInArity_def)
  have "Set_addConjunction \<lparr>mConjunctions = [Conjunction_of (TupleDecl_new n)], mArity = n\<rparr> (a\<lparr>mInArity := 0\<rparr>)
      = \<lparr>mConjunctions = [a\<lparr>mInArity := 0\<rparr>], mArity = n\<rparr>"
    by (simp add: Set_addConjunction_def sparse_addConjunction_def)
  moreover have "conj_arity (a\<lparr>mInArity := 0\<rparr>) = n" using a(1) by (simp add: conj_arity_def)
  ultimately have pc: "project_conj isl_project k 0 a [] = Inr [q\<lparr>mInArity := 0\<rparr>]"
    using p(1,2) by (simp add: project_conj_def ia Set_new_conj)
  have "affine_set_of (n - 1) [q\<lparr>mInArity := 0\<rparr>] = Inr \<lparr>mConjunctions = [q\<lparr>mInArity := 0\<rparr>], mArity = n - 1\<rparr>"
    by (simp add: affine_set_of_def Set_new_conj Set_addConjunction_def sparse_addConjunction_def)
  then have "accept_Set ?V \<lparr>mConjunctions = [a], mArity = n\<rparr> project_start =
    Inr (\<lparr>mConjunctions = [a], mArity = n\<rparr>, project_start\<lparr>mNewConj := [q\<lparr>mInArity := 0\<rparr>],
      newSet := \<lparr>mConjunctions = [q\<lparr>mInArity := 0\<rparr>], mArity = n - 1\<rparr>\<rparr>)"
    using a(2) pc by (simp add: accept_Set_def accept_sparse_def accept_conj_def hooks es smaller_def adjusted_inArity_def project_start_def)
  then show thesis by (rule that) simp
qed

text \<open>The value of a term that is put back, with the calls in one interpretation and the rest in another.\<close>

lemma reverse_split_value:
  assumes m: "ufcall_map_ok m" and t: "\<not> isUFCall t"
  shows "split_value K I (reverse_trm m t) = eval_trm (with_symbols m K I) t"
proof (cases t)
  case (VarTerm c x)
  show ?thesis
  proof (cases "find_VarTerm m (VarTerm c x)")
    case None
    then have "find_VarTerm m (VarTerm 1 x) = None" by (simp add: find_VarTerm_def)
    with None VarTerm show ?thesis by (simp add: reverse_trm_def reverse_var_def with_symbols_def split_value_def isUFCall_def)
  next
    case (Some u)
    then have "u \<in> map_calls m \<and> call_symbol u = x" by (simp add: find_VarTerm_iff[OF m])
    then have u: "u \<in> map_calls m" "x = call_symbol u" by simp_all
    have unit: "setCoefficient 1 u = u" "isUFCall (setCoefficient c u)"
      using map_calls_unit[OF m u(1)] by (simp_all add: unit_same isUFCall_def)
    then have "sym (with_symbols m K I) x = eval_trm K (setCoefficient 1 u)"
      unfolding u(2) using with_symbols_sym(1)[OF m u(1)] by simp
    with Some VarTerm unit show ?thesis
      by (simp add: reverse_trm_def reverse_var_def eval_setCoefficient[of K c u] split_value_def)
  qed
qed (use t in \<open>simp_all add: reverse_trm_def isUFCall_def split_value_def\<close>)

text \<open>The points of the cleaned up result of one conjunction.\<close>

lemma clean_reverse_points:
  assumes q: "plain_conj q" "no_calls q" and m: "ufcall_map_ok m" "\<forall>u \<in> map_calls m. plain_trm u \<and> not_in_args k u"
    and k: "0 \<le> k"
  shows "plain_conj (clean_conj k (rebuild_conj (reverse_trm m) q))"
    "conj_holds I (clean_conj k (rebuild_conj (reverse_trm m) q)) \<longleftrightarrow> conj_holds (with_symbols m (insert_tv k x I) I) q"
proof -
  let ?r = "rebuild_conj (reverse_trm m) q" and ?h = "split_value (insert_tv k x I) I" and ?J = "with_symbols m (insert_tv k x I) I"
  have plain: "\<forall>u \<in> map_calls m. plain_trm u" using m(2) by blast
  from reverse_conj_correct(1)[OF q m(1) plain] show "plain_conj (clean_conj k ?r)" by (rule clean_plain(1)[OF k])
  have top: "\<not> isUFCall t" if "e \<in> set (constraints_of q)" "t \<in> set (mTerms e)" for e t
    using q(2) that by (auto simp: no_calls_def conj_all_def constraints_of_def list_all_iff)
  have p: "\<forall>e \<in> set (constraints_of q). \<forall>t \<in> set (mTerms e). plain_trm (reverse_trm m t)"
    using q(1) reverse_trm_plain[OF m(1) plain] by (auto simp: plain_conj_exps constraints_of_def plain_exp_terms)
  have "not_in_args k (reverse_trm m t)" if "\<not> isUFCall t" for t
    using that m by (cases t) (auto simp: reverse_trm_def reverse_var_def not_in_args.P_coefficient isUFCall_def
        find_VarTerm_iff[OF m(1)] not_in_args_def[of _ "VarTerm _ _"] not_in_args_def[of _ "Term _"]
        not_in_args_def[of _ "TupleVarTerm _ _"] split: option.splits)
  then have out: "conj_all (not_in_args k) ?r" using top by (intro not_in_args.conj_all_rebuild) blast
  have v: "sum_list (map (\<lambda>t. ?h (reverse_trm m t)) (mTerms e)) = eval_exp ?J e" if "e \<in> set (constraints_of q)" for e
    using top[OF that] by (auto simp: eval_exp_terms reverse_split_value[OF m(1)] intro!: arg_cong[of _ _ sum_list])
  have "mTupleDecl ?r = mTupleDecl q" by (simp add: rebuild_conj_def)
  moreover have "decl_holds I (mTupleDecl q) \<longleftrightarrow> decl_holds ?J (mTupleDecl q)" by (simp add: decl_holds_def)
  ultimately show "conj_holds I (clean_conj k ?r) \<longleftrightarrow> conj_holds ?J q"
    unfolding clean_holds[OF out, of I x] split_value.val_rebuild_conj[OF p]
    using v by (simp add: conj_holds_def constraints_of_def holds_eq_def holds_ineq_def)
qed

text \<open>A point of the super affine set, where the symbols have the values of the calls at a point with another value
  of a variable that is in no argument.\<close>

lemma affine_points_elsewhere:
  assumes c: "plain_conj c" "k \<notin> sparse_arg_tvars [c]" and m: "ufcall_map_ok m"
    and ok: "symbols_ok (top_terms [c] @ map_call_list m)" and m': "m' = fold affine_step (top_terms [c]) m"
  shows "conj_holds (with_symbols m' (insert_tv k y I) (insert_tv k x I)) (rebuild_conj affine_trm c) \<longleftrightarrow> conj_holds (insert_tv k x I) c"
proof -
  let ?K = "insert_tv k y I" and ?J = "insert_tv k x I"
  have top: "t \<in> set (top_terms [c] @ map_call_list m)" if "e \<in> set (constraints_of c)" "t \<in> set (mTerms e)" for e t
    using that by (auto simp: top_terms_def)
  have p: "\<forall>e \<in> set (constraints_of c). \<forall>t \<in> set (mTerms e). plain_trm (affine_trm t)"
  proof (intro ballI)
    fix e t assume e: "e \<in> set (constraints_of c)" "t \<in> set (mTerms e)"
    have "plain_trm t" using c(1) e by (auto simp: plain_conj_exps constraints_of_def plain_exp_terms)
    then show "plain_trm (affine_trm t)" using symbols_ok_facts(1)[OF ok top[OF e]] by (simp add: affine_trm_def plain_trm_def)
  qed
  show ?thesis
  proof (rule rebuild_conj_plain(4)[OF c(1) p]; (intro ballI)?)
    fix e t assume e: "e \<in> set (constraints_of c)" "t \<in> set (mTerms e)"
    then have t: "t \<in> set (top_terms [c])" by (auto simp: top_terms_def)
    have "eval_trm ?K t = eval_trm ?J t" if "isUFCall t"
    proof (rule tv_outside(1))
      have "k \<notin> arg_tvars_trm t" using c(2) e by (auto simp: sparse_arg_tvars_iff arg_tvars_def)
      then have "k \<notin> tvars_trm t" using that by (cases t) (simp_all add: isUFCall_def)
      then show "\<forall>l \<in> tvars_trm t. tv ?K l = tv ?J l" by (auto simp: insert_tv_def)
    qed (simp_all add: insert_tv_def)
    then show "eval_trm (with_symbols m' ?K ?J) (affine_trm t) = eval_trm ?J t"
      using affine_trm_value[OF m ok m' t, of ?K ?J] by simp
  qed simp
qed

section \<open>Properties\<close>


text \<open>The example: the first variable of \<open>{[i, k] : i = col(k)}\<close> is projected out; \<open>k\<close> becomes the only variable.\<close>

definition example_super :: "set_object \<times> ufcall_map" where
  "example_super = (case superAffineSet (\<lambda>f. '''') example_env example_set UFCallMap True of Inr r \<Rightarrow> r | Inl e \<Rightarrow> (example_set, UFCallMap))"

definition example_answer :: set_object where
  "example_answer = \<lparr>mConjunctions = [(Conjunction_new 1 0)\<lparr>mInequalities :=
     [Exp [TupleVarTerm 1 0] Inequality, Exp [VarTerm 1 ''col___tv1_''] Inequality,
      Exp [TupleVarTerm (-1) 0, VarTerm 1 ''nnz'', Term (-1)] Inequality,
      Exp [VarTerm (-1) ''col___tv1_'', VarTerm 1 ''n'', Term (-1)] Inequality]\<rparr>], mArity = 1\<rparr>"

lemma example_super_run:
  "superAffineSet (\<lambda>f. '''') example_env example_set UFCallMap True = Inr (fst example_super, snd example_super)"
  "mConjunctions (to_project (fst example_super)) = map (\<lambda>c. (rebuild_conj affine_trm c)\<lparr>mInArity := 0\<rparr>) (mConjunctions example_bounded)"
  "mArity (to_project (fst example_super)) = 2"
  by (rule superAffineSet_run[OF example_facts(1-3) example_affine(1,2) UFCallMap_ok(1) example_affine(3,4)],
      simp add: example_super_def to_project_def example_set_def)+

lemma example_super_set: "mConjunctions (to_project (fst example_super)) =
    [(Conjunction_new 2 0)\<lparr>mEqualities := [Exp [TupleVarTerm 1 0, VarTerm (-1) ''col___tv1_''] Equality], mInequalities :=
     [Exp [TupleVarTerm 1 1] Inequality, Exp [VarTerm 1 ''col___tv1_''] Inequality,
      Exp [TupleVarTerm (-1) 1, VarTerm 1 ''nnz'', Term (-1)] Inequality,
      Exp [VarTerm (-1) ''col___tv1_'', VarTerm 1 ''n'', Term (-1)] Inequality]\<rparr>]"
  unfolding example_super_run(2) by code_simp

lemma example_projects: "projects (\<lambda>s k. Inr example_answer) 0 (to_project (fst example_super))"
  unfolding projects_def
proof (intro exI conjI allI)
  show "plain_sparse (mArity (to_project (fst example_super)) - 1) (mConjunctions example_answer)"
    unfolding example_super_run(3) by code_simp
  show "\<forall>c \<in> set (mConjunctions example_answer). no_calls c" by code_simp
  have decl: "decl_holds I (mTupleDecl (Conjunction_new n 0)) \<longleftrightarrow> True" if "n \<in> {1, 2}" for I n
    using that by (auto simp: decl_holds_def Conjunction_new_def Conjunction_of_def sDefaultTupleDecl_new TupleDecl_new_def less_Suc_eq)
  have none: "mEqualities (Conjunction_new n 0) = []" for n by (simp add: Conjunction_new_def Conjunction_of_def)
  show "sparse_holds I (mConjunctions example_answer) \<longleftrightarrow>
    (\<exists>x. sparse_holds (insert_tv 0 x I) (mConjunctions (to_project (fst example_super))))" for I
    unfolding example_super_set
    by (simp add: example_answer_def conj_holds_def decl none holds_eq_def holds_ineq_def insert_tv_def)
qed (simp_all add: example_answer_def)


end
