(* ===== verification/Pretty_Print.thy ===== *)
theory Pretty_Print
  imports ISL_Strings Project_Out Util
begin

text \<open>
  The text of sets and relations with the declared names of the variables (\<open>prettyPrintString\<close> of
  \<open>expression.cc\<close> and \<open>set_relation.cc\<close>), their symbolic constants (\<open>getSymbolIterator\<close>), the text passed to
  isl (\<open>toISLString\<close>) and the functions that call isl with it (\<open>passSetThruISL\<close>, \<open>passRelationThruISL\<close>,
  \<open>islSetProjectOut\<close>). What isl does with a text, and the parser of sets and relations, are parameters.
\<close>

section \<open>Expressions\<close>

text \<open>The name of a variable is looked up in the declaration; a constant in its place is an error.\<close>

definition declared_name :: "tuple_decl \<Rightarrow> int \<Rightarrow> string result" where
  "declared_name td l =
     (if l < 0 then Inl (Undefined ''vector index out of bounds'')
      else bind_result (elemToString td (nat l)) (\<lambda>s. bind_result (elemIsConst td (nat l)) (\<lambda>k.
        if k then Inl (Assert_exception (''TupleVarTerm::prettyPrintString: '' @
          ''tuple var location declaration for tuple var term should '' @ ''not be constant''))
        else Inr s)))"

fun pretty_trm :: "tuple_decl \<Rightarrow> trm \<Rightarrow> bool \<Rightarrow> string result" and pretty_exp :: "tuple_decl \<Rightarrow> exp \<Rightarrow> string result" where
  "pretty_trm td (Term c) absValue = Inr (show_int (if absValue then \<bar>c\<bar> else c))"
| "pretty_trm td (VarTerm c s) absValue = Inr (coeffToStream c absValue @ s)"
| "pretty_trm td (TupleVarTerm c l) absValue =
     bind_result (declared_name td l) (\<lambda>s. Inr (coeffToStream c absValue @ s))"
| "pretty_trm td (UFCallTerm c f args i) absValue =
     bind_result (map_result (pretty_exp td) args) (\<lambda>ss.
       Inr (coeffToStream c absValue @ f @ ''('' @ argsToStream ss @ '')'' @
         (if isIndexed i then ''['' @ show_int (tupleIndex i) @ '']'' else '''')))"
| "pretty_exp td (Exp ts et) =
     (case ts of
        [] \<Rightarrow> Inr ''''
      | t # us \<Rightarrow> bind_result (pretty_trm td t False) (\<lambda>s.
          bind_result (map_result (\<lambda>u. pretty_trm td u True) us) (\<lambda>ss.
            Inr (s @ concat (map (\<lambda>(u, r). (if coefficient u < 0 then '' - '' else '' + '') @ r) (zip us ss))))))"

section \<open>Conjunctions, sets and relations\<close>

definition conj_prettyPrintString :: "(string \<Rightarrow> string) \<Rightarrow> conjunction \<Rightarrow> string result" where
  "conj_prettyPrintString qinv c =
     bind_result (cleanUp qinv c) (\<lambda>dup.
     bind_result (map_result (\<lambda>e. bind_result (pretty_exp (mTupleDecl c) e) (\<lambda>s. Inr (s @ '' = 0''))) (mEqualities dup)) (\<lambda>eqs.
     bind_result (map_result (\<lambda>e. bind_result (pretty_exp (mTupleDecl c) e) (\<lambda>s. Inr (s @ '' >= 0''))) (mInequalities dup)) (\<lambda>ineqs.
       Inr (''{ '' @ tuple_decl_toString (mTupleDecl c) True (nat (mInArity c)) @
         concat (map (\<lambda>(k, p). (if k > (0::nat) then '' && '' else '' : '') @ p) (zip [0..<length (eqs @ ineqs)] (eqs @ ineqs))) @
         '' }''))))"

definition sparse_prettyPrintString :: "(string \<Rightarrow> string) \<Rightarrow> nat \<Rightarrow> sparse \<Rightarrow> nat \<Rightarrow> string result" where
  "sparse_prettyPrintString qinv arity cs aritySplit =
     (if cs = [] then
        bind_result (fold_result (\<lambda>td i. setTupleElem_var td i (''tv'' @ show_nat i)) (TupleDecl_new arity) [0..<arity]) (\<lambda>td.
          Inr (''{ '' @ tuple_decl_toString td True aritySplit @ '' : FALSE }''))
      else bind_result (map_result (conj_prettyPrintString qinv) cs) (\<lambda>ss.
        Inr (concat (map (\<lambda>(i, s). (if i > (0::nat) then '' union '' else '''') @ s) (zip [0..<length ss] ss)))))"

definition Set_prettyPrintString :: "(string \<Rightarrow> string) \<Rightarrow> set_object \<Rightarrow> string result" where
  "Set_prettyPrintString qinv s = sparse_prettyPrintString qinv (mArity s) (mConjunctions s) 0"

definition Relation_prettyPrintString :: "(string \<Rightarrow> string) \<Rightarrow> relation_object \<Rightarrow> string result" where
  "Relation_prettyPrintString qinv r = sparse_prettyPrintString qinv (rInArity r + rOutArity r) (rConjunctions r) (rInArity r)"

section \<open>Symbolic constants\<close>

text \<open>A \<open>std::set\<close> of names is the sorted list of its members; inserting those of an iterator one after the other.\<close>

definition insert_names :: "string list \<Rightarrow> string list \<Rightarrow> string list" where
  "insert_names names new = foldl (\<lambda>s n. insert_unique (<) n s) names new"

fun trm_symbols :: "trm \<Rightarrow> string list \<Rightarrow> string list" and exp_symbols :: "exp \<Rightarrow> string list" where
  "trm_symbols (VarTerm c s) names = insert_unique (<) s names"
| "trm_symbols (UFCallTerm c f args i) names = foldl (\<lambda>s a. insert_names s (exp_symbols a)) names args"
| "trm_symbols (Term c) names = names"
| "trm_symbols (TupleVarTerm c l) names = names"
| "exp_symbols (Exp ts et) = foldl (\<lambda>s t. trm_symbols t s) [] ts"

definition conj_getSymbolIterator :: "conjunction \<Rightarrow> string_iterator" where
  "conj_getSymbolIterator c = StringIterator
     (foldl (\<lambda>s e. insert_names s (exp_symbols e)) (foldl (\<lambda>s e. insert_names s (exp_symbols e)) [] (mEqualities c)) (mInequalities c))"

definition conj_getTupleIterator :: "conjunction \<Rightarrow> string_iterator result" where
  "conj_getTupleIterator c =
     bind_result (map_result (\<lambda>i. bind_result (elemIsConst (mTupleDecl c) i) (\<lambda>k.
         if k then Inl (Assert_exception (''Conjunction::getTupleIterator: expecting '' @ ''all tuple vars to be non const''))
         else elemVarString (mTupleDecl c) i)) [0..<conj_arity c]) (\<lambda>tupleList.
       Inr (StringIterator tupleList))"

definition sparse_getTupleIterator :: "sparse \<Rightarrow> string_iterator result" where
  "sparse_getTupleIterator cs = (case cs of
     [] \<Rightarrow> Inl (Assert_exception (''SparseConstraints::getTupleIterator: '' @ ''no conjunctions''))
   | c # _ \<Rightarrow> conj_getTupleIterator c)"

section \<open>The text for isl\<close>

definition sparse_toISLString :: "(string \<Rightarrow> string) \<Rightarrow> nat \<Rightarrow> sparse \<Rightarrow> nat \<Rightarrow> string result" where
  "sparse_toISLString qinv arity cs aritySplit =
     (let symbols = concat (map (\<lambda>c. mList (conj_getSymbolIterator c)) cs);
          decl = concat (map (\<lambda>(i, s). (if i = (0::nat) then ''[ '' else '', '') @ s) (zip [0..<length symbols] symbols))
      in bind_result (sparse_prettyPrintString qinv arity cs aritySplit) (\<lambda>text.
        Inr (decl @ (if symbols \<noteq> [] then '' ] -> '' else '''') @ text)))"

definition Set_toISLString :: "(string \<Rightarrow> string) \<Rightarrow> set_object \<Rightarrow> string result" where
  "Set_toISLString qinv s = sparse_toISLString qinv (mArity s) (mConjunctions s) 0"

definition Relation_toISLString :: "(string \<Rightarrow> string) \<Rightarrow> relation_object \<Rightarrow> string result" where
  "Relation_toISLString qinv r = sparse_toISLString qinv (rInArity r + rOutArity r) (rConjunctions r) (rInArity r)"

section \<open>Calling isl\<close>

text \<open>
  \<open>isl_text\<close> is what isl prints after reading a text and coalescing, \<open>isl_project_text\<close> what it prints after
  projecting a variable out; \<open>parse\<close> is the parser behind the constructors that take a text.
\<close>

definition passSetThruISL ::
  "(string \<Rightarrow> string) \<Rightarrow> (string \<Rightarrow> set_object result) \<Rightarrow> (string \<Rightarrow> string) \<Rightarrow> set_object \<Rightarrow> set_object result" where
  "passSetThruISL isl_text parse qinv s =
     bind_result (Set_toISLString qinv s) (\<lambda>sstr.
     bind_result (revertISLTupDeclToOrig sstr (isl_text sstr) (mArity s) 0) parse)"

definition passRelationThruISL ::
  "(string \<Rightarrow> string) \<Rightarrow> (string \<Rightarrow> relation_object result) \<Rightarrow> (string \<Rightarrow> string) \<Rightarrow> relation_object \<Rightarrow> relation_object result" where
  "passRelationThruISL isl_text parse qinv r =
     bind_result (Relation_toISLString qinv r) (\<lambda>rstr.
     bind_result (revertISLTupDeclToOrig rstr (isl_text rstr) (rInArity r) (rOutArity r)) parse)"

definition islSetProjectOut ::
  "(int \<Rightarrow> string \<Rightarrow> string) \<Rightarrow> (string \<Rightarrow> set_object result) \<Rightarrow> (string \<Rightarrow> string) \<Rightarrow> set_object \<Rightarrow> int \<Rightarrow> set_object result" where
  "islSetProjectOut isl_project_text parse qinv s pos =
     bind_result (Set_toISLString qinv s) (\<lambda>sstr.
     bind_result (projectOutStrCorrection sstr pos (mArity s) 0) (\<lambda>projected.
     bind_result (revertISLTupDeclToOrig projected (isl_project_text pos sstr) (mArity s) 0) parse))"

end
