(* ===== verification/Rules.thy ===== *)
theory Rules
  imports Pretty_Print
begin

text \<open>
  The use of domain information (\<open>detectUnsatOrFindEqualities\<close> of \<open>set_relation.cc\<close>). The rules of the
  environment say for all values of two variables that one set of constraints implies another. They are
  instantiated with the arguments of the calls of a set; isl adds the consequent of an instance when the
  antecedent follows from the set, and the negated antecedent when the negated consequent does. When the result
  is empty the dependence cannot exist; otherwise its equalities are added to the set.

  The library isl is a record of its functions. A set of isl has the type \<open>'i\<close>; a null result, which stands
  for an error inside lib, is not modelled.
\<close>

section \<open>The arguments of calls\<close>

definition getParamExp :: "trm \<Rightarrow> nat \<Rightarrow> exp result" where
  "getParamExp t i = (case t of
     UFCallTerm c f args k \<Rightarrow>
       (if i \<ge> length args then Inl (Assert_exception ''UFCallTerm::setParamExp: i is out of bounds'') else Inr (args ! i))
   | _ \<Rightarrow> Inl (Undefined ''no call''))"

definition VisitorGatherAllParameters :: "exp list visitor" where
  "VisitorGatherAllParameters = base_Visitor\<lparr>
     preVisitUFCallTerm := \<lambda>t instExps. bind_result (getParamExp t 0) (\<lambda>e. Inr (insert_unique exp_less e instExps))\<rparr>"

section \<open>Instances of rules\<close>

text \<open>The addresses of the two variables only order the map, whose factors differ.\<close>

definition inst_map :: "exp \<Rightarrow> exp \<Rightarrow> sub_map" where
  "inst_map x1 x2 = insertPair (insertPair (mTerm2ExpMap SubMap_new) 0 (TupleVarTerm 1 0) x1) 1 (TupleVarTerm 1 1) x2"

definition inst_side ::
  "(string \<Rightarrow> string) \<Rightarrow> set_object \<Rightarrow> exp \<Rightarrow> exp \<Rightarrow> tuple_decl \<Rightarrow> set_object result" where
  "inst_side qinv side x1 x2 origTupleDecl =
     bind_result (Set_copy qinv side) (\<lambda>s.
     bind_result (sparse_substituteInConstraints qinv (mConjunctions s) (inst_map x1 x2)) (\<lambda>cs.
       Set_setTupleDecl (s\<lparr>mConjunctions := cs\<rparr>) origTupleDecl))"

text \<open>The constraints in the text of a set, as isl reads them.\<close>

definition side_text :: "(string \<Rightarrow> string) \<Rightarrow> set_object \<Rightarrow> string result" where
  "side_text qinv s =
     bind_result (Set_prettyPrintString qinv s) (\<lambda>str.
     bind_result (getPartsFromStr str) (\<lambda>parts.
       let cs = trim (constraints parts) in
       Inr (if cs = '''' then ''true'' else if cs = ''FALSE'' then ''false'' else cs)))"

definition inst_sets ::
  "(string \<Rightarrow> string) \<Rightarrow> set_object environment \<Rightarrow> set_object uniq_rule \<Rightarrow> exp \<Rightarrow> exp \<Rightarrow> ufcall_map \<Rightarrow> tuple_decl \<Rightarrow>
     (set_object \<times> set_object \<times> ufcall_map) result" where
  "inst_sets qinv env uqRule x1 x2 m origTupleDecl =
     bind_result (inst_side qinv (mLeftSide uqRule) x1 x2 origTupleDecl) (\<lambda>leftSideOfTheRule.
     bind_result (inst_side qinv (mRightSide uqRule) x1 x2 origTupleDecl) (\<lambda>rightSideOfTheRule.
     bind_result (superAffineSet qinv env leftSideOfTheRule m False) (\<lambda>(supAffLeft, m).
     bind_result (superAffineSet qinv env rightSideOfTheRule m False) (\<lambda>(supAffRight, m).
       Inr (supAffLeft, supAffRight, m)))))"

definition instantiate ::
  "(string \<Rightarrow> string) \<Rightarrow> set_object environment \<Rightarrow> set_object uniq_rule \<Rightarrow> exp \<Rightarrow> exp \<Rightarrow> ufcall_map \<Rightarrow> tuple_decl \<Rightarrow>
     ((string \<times> string) \<times> ufcall_map) result" where
  "instantiate qinv env uqRule x1 x2 m origTupleDecl =
     bind_result (inst_sets qinv env uqRule x1 x2 m origTupleDecl) (\<lambda>(supAffLeft, supAffRight, m).
     bind_result (side_text qinv supAffLeft) (\<lambda>leftStr.
     bind_result (side_text qinv supAffRight) (\<lambda>rightStr.
       Inr ((leftStr, rightStr), m))))"

text \<open>The position of a kind of rule in the enumeration indexes the array \<open>useRule\<close>.\<close>

definition rule_index :: "uniq_rule_type \<Rightarrow> nat" where
  "rule_index t = (case t of Monotonicity \<Rightarrow> 0 | CoMonotonicity \<Rightarrow> 1 | Triangularity \<Rightarrow> 2 | DomainRange \<Rightarrow> 3
     | FuncConsistency \<Rightarrow> 4 | TheOthers \<Rightarrow> 5)"

definition use_rule :: "bool list \<Rightarrow> uniq_rule_type \<Rightarrow> bool result" where
  "use_rule useRule t =
     (if rule_index t < length useRule then Inr (useRule ! rule_index t) else Inl (Undefined ''array index out of bounds''))"

text \<open>The instances of one rule with all pairs of expressions.\<close>

definition rule_instances ::
  "(string \<Rightarrow> string) \<Rightarrow> set_object environment \<Rightarrow> exp list \<Rightarrow> tuple_decl \<Rightarrow> set_object uniq_rule \<Rightarrow>
     (string \<times> string) list \<times> ufcall_map \<Rightarrow> ((string \<times> string) list \<times> ufcall_map) result" where
  "rule_instances qinv env instExps origTupleDecl uqRule st =
     fold_result (\<lambda>(insts, m) (e1, e2).
         bind_result (instantiate qinv env uqRule e1 e2 m origTupleDecl) (\<lambda>(p, m). Inr (insert_unique (<) p insts, m)))
       st (concat (map (\<lambda>e1. map (\<lambda>e2. (e1, e2)) instExps) instExps))"

definition ruleInstantiation ::
  "(string \<Rightarrow> string) \<Rightarrow> set_object environment \<Rightarrow> exp list \<Rightarrow> bool list option \<Rightarrow> tuple_decl \<Rightarrow> ufcall_map \<Rightarrow>
     ((string \<times> string) list \<times> ufcall_map) result" where
  "ruleInstantiation qinv env instExps useRule0 origTupleDecl m =
     (let noAvalRules = getNoUniQuantRules env;
          useRule = (case useRule0 of None \<Rightarrow> replicate (rule_index TheOthers) True | Some u \<Rightarrow> u)
      in fold_result (\<lambda>st i.
           bind_result (getUniQuantRule env (int i)) (\<lambda>uqRule.
           bind_result (use_rule useRule (mUniQuantRuleType uqRule)) (\<lambda>use.
             if \<not> use then Inr st else rule_instances qinv env instExps origTupleDecl uqRule st)))
         ([], m) [0..<noAvalRules])"

section \<open>Adding instances with isl\<close>

record 'i isl_library =
  isl_set_read_from_str :: "string \<Rightarrow> 'i"
  isl_set_gist :: "'i \<Rightarrow> 'i \<Rightarrow> 'i"
  isl_set_plain_is_universe :: "'i \<Rightarrow> bool"
  isl_set_intersect :: "'i \<Rightarrow> 'i \<Rightarrow> 'i"
  isl_set_coalesce :: "'i \<Rightarrow> 'i"
  isl_set_complement :: "'i \<Rightarrow> 'i"
  isl_set_is_empty :: "'i \<Rightarrow> bool"
  isl_set_is_equal :: "'i \<Rightarrow> 'i \<Rightarrow> bool"
  isl_set_affine_hull :: "'i \<Rightarrow> 'i"
  isl_printer_get_str :: "'i \<Rightarrow> string"

definition symsForInstantiationSet :: "set_object \<Rightarrow> ufcall_map \<Rightarrow> string result" where
  "symsForInstantiationSet drOrigSet m =
     (case mConjunctions drOrigSet of
        [] \<Rightarrow> Inl (Undefined ''dereference of the end iterator'')
      | c # _ \<Rightarrow>
          let ss = join_commas (mList (conj_getSymbolIterator c)); vs = varTermStrList m in
          Inr (if ss \<noteq> '''' \<and> vs \<noteq> '''' then ''['' @ ss @ '', '' @ vs @ ''] -> ''
               else if vs = '''' then ''['' @ ss @ ''] -> ''
               else if ss = '''' then ''['' @ vs @ ''] -> '' else ''''))"

definition isl_side :: "string \<Rightarrow> srParts \<Rightarrow> string \<Rightarrow> string" where
  "isl_side syms supSetParts cs = syms @ ''{'' @ tupDecl supSetParts @ '' : '' @ cs @ ''}''"

definition add_instance ::
  "'i isl_library \<Rightarrow> (string \<Rightarrow> string) \<Rightarrow> 'i \<Rightarrow> string \<times> string \<Rightarrow> 'i" where
  "add_instance lib side iset it =
     (let from_text = (\<lambda>cs. isl_set_read_from_str lib (side cs)) in
      if isl_set_plain_is_universe lib (isl_set_gist lib (from_text (fst it)) iset)
      then isl_set_coalesce lib (isl_set_intersect lib iset (from_text (snd it)))
      else if isl_set_plain_is_universe lib (isl_set_gist lib (isl_set_complement lib (from_text (snd it))) iset)
      then isl_set_coalesce lib (isl_set_intersect lib iset (isl_set_complement lib (from_text (fst it))))
      else iset)"

text \<open>The rounds over all instances; the first argument counts those that are left.\<close>

fun add_rounds :: "'i isl_library \<Rightarrow> (string \<Rightarrow> string) \<Rightarrow> (string \<times> string) list \<Rightarrow> nat \<Rightarrow> 'i \<Rightarrow> 'i \<Rightarrow> 'i" where
  "add_rounds lib side instantiations 0 iset old_set = iset"
| "add_rounds lib side instantiations (Suc n) iset old_set =
     (let iset = foldl (add_instance lib side) iset instantiations in
      if isl_set_is_empty lib iset then iset
      else if isl_set_is_equal lib old_set iset then iset
      else add_rounds lib side instantiations n iset iset)"

definition instantiationSet ::
  "'i isl_library \<Rightarrow> srParts \<Rightarrow> (string \<times> string) list \<Rightarrow> string \<Rightarrow> 'i" where
  "instantiationSet lib supSetParts instantiations syms =
     (let iset = isl_set_read_from_str lib (isl_side syms supSetParts (constraints supSetParts))
      in add_rounds lib (isl_side syms supSetParts) instantiations 2 iset iset)"

section \<open>The equalities of the result\<close>

record useful_state =
  foundTvVar :: bool
  UFnestLevel :: int
  uEqsC :: conjunction
  uEqsS :: "set_object option"

definition VisitorGetUsefulEqs :: "useful_state visitor" where
  "VisitorGetUsefulEqs = base_Visitor\<lparr>
     preVisitUFCallTerm := \<lambda>t s. Inr (s\<lparr>UFnestLevel := UFnestLevel s + 1\<rparr>),
     postVisitUFCallTerm := \<lambda>t s. Inr (t, s\<lparr>UFnestLevel := UFnestLevel s - 1\<rparr>),
     preVisitTupleVarTerm := \<lambda>t s. Inr (t, if UFnestLevel s = 0 then s\<lparr>foundTvVar := True\<rparr> else s),
     preVisitExp := \<lambda>e s. Inr (if UFnestLevel s = 0 then s\<lparr>foundTvVar := False\<rparr> else s),
     postVisitExp := \<lambda>e s. Inr
       (if UFnestLevel s = 0 \<and> foundTvVar s then s\<lparr>uEqsC := addEquality (uEqsC s) e\<rparr> else s),
     preVisitConjunction := \<lambda>c s. Inr (s\<lparr>UFnestLevel := 0, uEqsC := Conjunction_of (mTupleDecl c)\<rparr>),
     postVisitConjunction := \<lambda>c s. Inr (c, s\<lparr>uEqsS := Some (Set_addConjunction (Set_of_decl (mTupleDecl c)) (uEqsC s))\<rparr>)\<rparr>"

text \<open>\<open>uEqsC\<close> is set when a conjunction is entered; \<open>uEqsS\<close> is an uninitialised pointer until one is left.\<close>

definition useful_start :: useful_state where
  "useful_start = \<lparr>foundTvVar = False, UFnestLevel = 0, uEqsC = Conjunction_new 0 0, uEqsS = None\<rparr>"

definition getUsefulEqs :: "useful_state \<Rightarrow> set_object result" where
  "getUsefulEqs s = (case uEqsS s of None \<Rightarrow> Inl (Undefined ''uninitialised pointer'') | Some u \<Rightarrow> Inr u)"

definition checkIslSet ::
  "'i isl_library \<Rightarrow> (string \<Rightarrow> set_object result) \<Rightarrow> 'i \<Rightarrow> ufcall_map \<Rightarrow> set_object \<Rightarrow> set_object option result" where
  "checkIslSet lib parse iset m origSet =
     (if isl_set_is_empty lib iset then Inr None
      else
        bind_result (parse (isl_printer_get_str lib (isl_set_affine_hull lib iset))) (\<lambda>affineEqs.
        bind_result (Set_reverseAffineSubstitution affineEqs m) (\<lambda>eQs.
        bind_result (accept_Set VisitorGetUsefulEqs eQs useful_start) (\<lambda>(eQs, v).
        bind_result (getUsefulEqs v) (\<lambda>uEqs.
        bind_result (Set_Intersect origSet uEqs) (\<lambda>result. Inr (Some result)))))))"

section \<open>The whole test\<close>

definition Set_detectUnsatOrFindEqualities ::
  "'i isl_library \<Rightarrow> (string \<Rightarrow> set_object result) \<Rightarrow> (string \<Rightarrow> string) \<Rightarrow> set_object environment \<Rightarrow> set_object \<Rightarrow>
     bool list option \<Rightarrow> set_object option result" where
  "Set_detectUnsatOrFindEqualities lib parse qinv env s useRule =
     bind_result (accept_Set VisitorGatherAllParameters s []) (\<lambda>(s, instExps).
     bind_result (sparse_getTupleDecl (mConjunctions s)) (\<lambda>origTupleDecl.
     bind_result (ruleInstantiation qinv env instExps useRule origTupleDecl UFCallMap) (\<lambda>(instantiations, m).
     bind_result (superAffineSet qinv env s m True) (\<lambda>(supAffSet, m).
     bind_result (Set_prettyPrintString qinv supAffSet) (\<lambda>str.
     bind_result (getPartsFromStr str) (\<lambda>supSetParts.
     bind_result (Set_boundDomainRange qinv env s) (\<lambda>bounded.
     bind_result (symsForInstantiationSet bounded m) (\<lambda>syms.
       checkIslSet lib parse (instantiationSet lib supSetParts instantiations syms) m s))))))))"

definition Relation_detectUnsatOrFindEqualities ::
  "'i isl_library \<Rightarrow> (string \<Rightarrow> set_object result) \<Rightarrow> (string \<Rightarrow> relation_object result) \<Rightarrow> (string \<Rightarrow> string) \<Rightarrow>
     set_object environment \<Rightarrow> relation_object \<Rightarrow> bool list option \<Rightarrow> relation_object option result" where
  "Relation_detectUnsatOrFindEqualities lib parse parse_relation qinv env r useRule =
     bind_result (accept_Relation VisitorGatherAllParameters r []) (\<lambda>(r, instExps).
     bind_result (sparse_getTupleDecl (rConjunctions r)) (\<lambda>origTupleDecl.
     bind_result (ruleInstantiation qinv env instExps useRule origTupleDecl UFCallMap) (\<lambda>(instantiations, m).
     bind_result (Relation_prettyPrintString qinv r) (\<lambda>rstr.
     bind_result (relationStr2SetStr rstr (rInArity r) (rOutArity r)) (\<lambda>eqStr.
     bind_result (parse eqStr) (\<lambda>eqSet.
     bind_result (superAffineSet qinv env eqSet m True) (\<lambda>(supAffSet, m).
     bind_result (Set_prettyPrintString qinv supAffSet) (\<lambda>str.
     bind_result (getPartsFromStr str) (\<lambda>supSetParts.
     bind_result (Set_boundDomainRange qinv env eqSet) (\<lambda>bounded.
     bind_result (symsForInstantiationSet bounded m) (\<lambda>syms.
     bind_result (checkIslSet lib parse (instantiationSet lib supSetParts instantiations syms) m eqSet) (\<lambda>resultSet.
       case resultSet of
         None \<Rightarrow> Inr None
       | Some rs \<Rightarrow>
           bind_result (Set_prettyPrintString qinv rs) (\<lambda>str.
           bind_result (setStr2RelationStr str (rInArity r) (rOutArity r)) (\<lambda>str.
           bind_result (parse_relation str) (\<lambda>result. Inr (Some result))))))))))))))))"

section \<open>What isl is trusted with\<close>

text \<open>
  \<open>den\<close> gives the points of a set of isl, \<open>'p\<close> the points of the space. Emptiness and \<open>plain_is_universe\<close> are only
  trusted when they say yes; the hull may have more points.
\<close>

definition isl_laws :: "'i isl_library \<Rightarrow> ('i \<Rightarrow> 'p set) \<Rightarrow> bool" where
  "isl_laws lib den \<longleftrightarrow>
     (\<forall>a b. den (isl_set_intersect lib a b) = den a \<inter> den b) \<and> (\<forall>a. den (isl_set_coalesce lib a) = den a) \<and>
     (\<forall>a. den (isl_set_complement lib a) = - den a) \<and>
     (\<forall>a b. den (isl_set_gist lib a b) \<inter> den b = den a \<inter> den b) \<and>
     (\<forall>a. isl_set_plain_is_universe lib a \<longrightarrow> den a = UNIV) \<and> (\<forall>a. isl_set_is_empty lib a \<longrightarrow> den a = {}) \<and>
     (\<forall>a. den a \<subseteq> den (isl_set_affine_hull lib a))"

text \<open>An instance is valid on a set of points when its antecedent implies its consequent there.\<close>

definition valid_instance :: "'i isl_library \<Rightarrow> ('i \<Rightarrow> 'p set) \<Rightarrow> (string \<Rightarrow> string) \<Rightarrow> 'p set \<Rightarrow> string \<times> string \<Rightarrow> bool" where
  "valid_instance lib den side V it \<longleftrightarrow>
     V \<inter> den (isl_set_read_from_str lib (side (fst it))) \<subseteq> den (isl_set_read_from_str lib (side (snd it)))"

lemma add_instance_points:
  assumes laws: "isl_laws lib den" and valid: "valid_instance lib den side V it"
  shows "den (add_instance lib side iset it) \<subseteq> den iset" "V \<inter> den iset \<subseteq> den (add_instance lib side iset it)"
proof -
  let ?a = "isl_set_read_from_str lib (side (fst it))" and ?c = "isl_set_read_from_str lib (side (snd it))"
  have follows: "den iset \<subseteq> den x" if "isl_set_plain_is_universe lib (isl_set_gist lib x iset)" for x
  proof -
    have "den (isl_set_gist lib x iset) = UNIV" using laws that by (simp add: isl_laws_def)
    moreover have "den (isl_set_gist lib x iset) \<inter> den iset = den x \<inter> den iset" using laws by (simp add: isl_laws_def)
    ultimately show ?thesis by blast
  qed
  have ops: "den (isl_set_coalesce lib (isl_set_intersect lib iset x)) = den iset \<inter> den x" "den (isl_set_complement lib x) = - den x"
    for x using laws by (simp_all add: isl_laws_def)
  have v: "V \<inter> den ?a \<subseteq> den ?c" using valid by (simp add: valid_instance_def)
  show "den (add_instance lib side iset it) \<subseteq> den iset" by (auto simp: add_instance_def Let_def ops)
  show "V \<inter> den iset \<subseteq> den (add_instance lib side iset it)"
  proof (cases "isl_set_plain_is_universe lib (isl_set_gist lib ?a iset)")
    case True
    then show ?thesis using v follows[OF True] by (auto simp: add_instance_def Let_def ops)
  next
    case False
    show ?thesis
    proof (cases "isl_set_plain_is_universe lib (isl_set_gist lib (isl_set_complement lib ?c) iset)")
      case True
      then show ?thesis using False v follows[OF True] by (auto simp: add_instance_def Let_def ops)
    qed (use False in \<open>simp add: add_instance_def Let_def\<close>)
  qed
qed

lemma add_rounds_points:
  assumes "isl_laws lib den" "\<forall>it \<in> set insts. valid_instance lib den side V it"
  shows "den (add_rounds lib side insts n iset old) \<subseteq> den iset" "V \<inter> den iset \<subseteq> den (add_rounds lib side insts n iset old)"
proof -
  have fold: "den (foldl (add_instance lib side) i its) \<subseteq> den i \<and> V \<inter> den i \<subseteq> den (foldl (add_instance lib side) i its)"
    if "set its \<subseteq> set insts" for i its
    using that
  proof (induction its arbitrary: i)
    case (Cons it its)
    have "valid_instance lib den side V it" using assms(2) Cons.prems by simp
    note one = add_instance_points[OF assms(1) this, of i]
    have "den (foldl (add_instance lib side) (add_instance lib side i it) its) \<subseteq> den (add_instance lib side i it) \<and>
      V \<inter> den (add_instance lib side i it) \<subseteq> den (foldl (add_instance lib side) (add_instance lib side i it) its)"
      by (rule Cons.IH) (use Cons.prems in simp)
    with one show ?case by auto
  qed simp
  have "den (add_rounds lib side insts n iset old) \<subseteq> den iset \<and> V \<inter> den iset \<subseteq> den (add_rounds lib side insts n iset old)"
  proof (induction n arbitrary: iset old)
    case (Suc n)
    let ?f = "foldl (add_instance lib side) iset insts"
    show ?case using fold[of insts iset] Suc.IH[of ?f ?f] by (auto simp: Let_def)
  qed simp
  then show "den (add_rounds lib side insts n iset old) \<subseteq> den iset" "V \<inter> den iset \<subseteq> den (add_rounds lib side insts n iset old)"
    by blast+
qed

lemma instantiationSet_points:
  assumes "isl_laws lib den" "\<forall>it \<in> set insts. valid_instance lib den (isl_side syms parts) V it"
  shows "den (instantiationSet lib parts insts syms) \<subseteq> den (isl_set_read_from_str lib (isl_side syms parts (constraints parts)))"
    "V \<inter> den (isl_set_read_from_str lib (isl_side syms parts (constraints parts))) \<subseteq> den (instantiationSet lib parts insts syms)"
  unfolding instantiationSet_def Let_def by (rule add_rounds_points[OF assms])+

end
