(* ===== verification/Rule_Instances.thy ===== *)
theory Rule_Instances
  imports Rules
begin

text \<open>
  What the instances of rules say. With the variables of a rule replaced by two expressions and the calls by their
  symbols, a side of the rule holds at a point when it holds for the values of the expressions there, so an
  instance is valid wherever its rule is.
\<close>

section \<open>One side of a rule\<close>

text \<open>The sides of a rule are sets of two variables.\<close>

definition rule_side :: "set_object \<Rightarrow> bool" where
  "rule_side s \<longleftrightarrow> (case mConjunctions s of
     [c] \<Rightarrow> plain_conj c \<and> conj_arity c = 2 \<and> mInArity c = 0 \<and> list_all (\<lambda>x. \<not> mIsConst x) (mTupleDecl c) \<and>
       conj_tvars c \<subseteq> {0..<2}
   | _ \<Rightarrow> False)"

definition at_pair :: "interp \<Rightarrow> int \<Rightarrow> int \<Rightarrow> interp" where
  "at_pair I a b = at_point I (\<lambda>l. if l = 0 then a else b)"

definition inst_exp :: "exp \<Rightarrow> bool" where
  "inst_exp e \<longleftrightarrow> wf_exp e \<and> has_args_exp e"

lemma inst_map_tuple: "inst_map x1 x2 = tuple_map [x1, x2]"
  by (simp add: inst_map_def tuple_map_def SubMap_new_def insertPair_def incomparable_def upt_rec)

lemma setTupleDecl_plain:
  assumes "\<forall>x \<in> set (mTupleDecl c). \<not> mIsConst x"
  shows "setTupleDecl c td = Inr (c\<lparr>mTupleDecl := td\<rparr>)"
proof -
  let ?f = "\<lambda>td i. let mine = mTupleDecl c ! i; given = td ! i in
            if mIsConst mine \<and> mIsConst given \<and> elem_text mine \<noteq> elem_text given
            then Inl (Assert_exception ''Conjunction::setTupleDecl: constants don't match.'')
            else if mIsConst mine \<and> \<not> mIsConst given then Inr (td[i := mine])
            else Inr td"
  have "\<forall>i \<in> set is. i < conj_arity c \<Longrightarrow> fold_result ?f td is = Inr td" for "is" td
    using assms by (induction "is") (auto simp: conj_arity_def Let_def)
  then show ?thesis by (simp add: setTupleDecl_def)
qed

lemma inst_conj_correct:
  assumes none: "no_inverses qinv" and c: "plain_conj c" "conj_arity c = 2" "mInArity c = 0" "conj_tvars c \<subseteq> {0..<2}"
    "\<forall>x \<in> set (mTupleDecl c). \<not> mIsConst x" and e: "inst_exp x1" "inst_exp x2" and td: "td \<noteq> []"
  obtains b d where "substituteInConstraints qinv c (inst_map x1 x2) = Inr b" "setTupleDecl b td = Inr d" "plain_conj d"
    "conj_arity d = length td"
    "\<forall>I. conj_holds I d \<longleftrightarrow> decl_holds I td \<and> conj_holds (at_pair I (eval_exp I x1) (eval_exp I x2)) c"
proof -
  let ?es = "[x1, x2]" let ?m = "tuple_map ?es"
  have wf: "conj_wf c" and ha: "conj_all has_args c" using c(1) by (simp_all add: plain_conj_def)
  have sub: "\<forall>q \<in> set ?m. snd (snd q) \<in> {x1, x2}" by (auto simp: tuple_map_def nth_Cons split: nat.splits)
  then have wfs: "wf_sub ?m" using e by (auto simp: inst_exp_def)
  let ?s = "c\<lparr>mEqualities := map (substitute ?m) (mEqualities c), mInequalities := map (substitute ?m) (mInequalities c)\<rparr>"
  have args: "conj_all has_args ?s"
    by (rule has_args.conj_all_substitute[OF ha]) (use sub e in \<open>auto simp: has_args_terms inst_exp_def\<close>)
  note S = solved_point_subst[OF tuple_map_var[of ?es]]
  have swf: "conj_wf ?s" using wf substitute_sound[OF wfs S] by (auto simp: conj_wf_def)
  note col = no_inverses_facts(5)[OF none swf args]
  note resp = no_inverses_facts(3)[OF none]
  obtain b where b: "substituteInConstraints qinv c ?m = Inr b" "conj_wf b" "mTupleDecl b = mTupleDecl c" "mInArity b = 0"
    using substituteInConstraints_sound[OF wf wfs S resp col] c(3) by metis
  have cl: "cleanUp qinv ?s = Inr b" using b(1) by (simp add: substituteInConstraints_def)
  let ?d = "b\<lparr>mTupleDecl := td\<rparr>"
  show thesis
  proof (rule that)
    show "substituteInConstraints qinv c (inst_map x1 x2) = Inr b" using b(1) by (simp add: inst_map_tuple)
    show "setTupleDecl b td = Inr ?d" using c(5) b(3) by (intro setTupleDecl_plain) simp
    have "conj_all has_args b" using has_args.kept.own.conj_all_cleanUp[OF none cl swf args args] .
    moreover have "conj_all args_kind_trm b"
      by (rule args_kind.own.conj_all_cleanUp[OF none cl swf args]) (simp add: conj_all_def list_all_iff)
    ultimately show "plain_conj ?d" using b(2,4) td cleanUp_terms(1,2)[OF cl]
      by (auto simp: plain_conj_def conj_kinds_all conj_wf_def conj_all_def conj_arity_def)
    show "conj_arity ?d = length td" by (simp add: conj_arity_def)
    show "\<forall>I. conj_holds I ?d \<longleftrightarrow> decl_holds I td \<and> conj_holds (at_pair I (eval_exp I x1) (eval_exp I x2)) c"
    proof
      fix I
      have decl: "decl_holds J (mTupleDecl c)" for J using c(5) by (simp add: decl_holds_def)
      have "conj_holds I b \<longleftrightarrow> conj_holds (solved_point ?m I) (c\<lparr>mTupleDecl := []\<rparr>)"
        using substituteInConstraints_sound[OF wf wfs S resp col] b(1) decl by (metis sum.inject(2))
      also have "\<dots> \<longleftrightarrow> conj_holds (solved_point ?m I) c" using decl by (simp add: conj_holds_def decl_holds_def)
      also have "\<dots> \<longleftrightarrow> conj_holds (at_pair I (eval_exp I x1) (eval_exp I x2)) c"
      proof (rule conj_holds_tvars)
        show "conj_tvars c \<subseteq> {0..<int (conj_arity c)}" using c(2,4) by simp
        fix l assume l: "0 \<le> l" "l < int (conj_arity c)"
        then have "l = 0 \<or> l = 1" using c(2) by auto
        then show "tv (solved_point ?m I) l = tv (at_pair I (eval_exp I x1) (eval_exp I x2)) l"
          using subExp_tuple_map(1)[of 0 ?es 1] subExp_tuple_map(1)[of 1 ?es 1]
          by (auto simp: solved_point_def at_pair_def at_point_def)
      qed (simp_all add: solved_point_def at_pair_def at_point_def)
      finally show "conj_holds I ?d \<longleftrightarrow> decl_holds I td \<and> conj_holds (at_pair I (eval_exp I x1) (eval_exp I x2)) c"
        using decl[of I] b(3) by (simp add: conj_holds_def)
    qed
  qed
qed

lemma inst_side_correct:
  assumes none: "no_inverses qinv" and side: "rule_side side" and e: "inst_exp x1" "inst_exp x2" and td: "td \<noteq> []"
  obtains cs where "inst_side qinv side x1 x2 td = Inr \<lparr>mConjunctions = cs, mArity = length td\<rparr>" "plain_sparse (length td) cs"
    "\<forall>I. sparse_holds I cs \<longleftrightarrow>
      decl_holds I td \<and> sparse_holds (at_pair I (eval_exp I x1) (eval_exp I x2)) (mConjunctions side)"
proof -
  obtain c where c: "mConjunctions side = [c]" "plain_conj c" "conj_arity c = 2" "mInArity c = 0"
    "\<forall>x \<in> set (mTupleDecl c). \<not> mIsConst x" "conj_tvars c \<subseteq> {0..<2}"
    using side by (auto simp: rule_side_def list_all_iff split: list.splits)
  have p: "conj_wf c" "conj_all has_args c" using c(2) by (simp_all add: plain_conj_def)
  have ps: "plain_sparse 2 (mConjunctions side)" using c(1-3) by (simp add: plain_sparse_def)
  obtain s where s: "Set_copy qinv side = Inr s" "plain_sparse 2 (mConjunctions s)"
    "\<forall>I. sparse_holds I (mConjunctions s) \<longleftrightarrow> sparse_holds I (mConjunctions side)"
    "\<forall>c' \<in> set (mConjunctions s). \<exists>c \<in> set (mConjunctions side). cleanUp qinv c = Inr c' \<and> plain_conj c"
    by (rule Set_copy_plain[OF none ps]) blast
  have novar: "\<not> list_ex (\<lambda>q. isConst_term (fst (snd q))) (inst_map x1 x2)"
    by (simp add: inst_map_tuple tuple_map_def upt_rec isConst_term_def)
  show thesis
  proof (cases "mConjunctions s = []")
    case True
    have "inst_side qinv side x1 x2 td = Inr \<lparr>mConjunctions = [], mArity = length td\<rparr>"
      using s(1) True novar by (simp add: inst_side_def sparse_substituteInConstraints_def Set_setTupleDecl_def sparse_setTupleDecl_def)
    moreover have "\<not> sparse_holds J (mConjunctions side)" for J using s(3)[rule_format, of J] True by simp
    ultimately show thesis by (intro that[of "[]"]) (simp_all add: plain_sparse_def)
  next
    case False
    then obtain c' where c': "mConjunctions s = [c']" "plain_conj c'" "conj_arity c' = 2"
      using s(2) short_list[of "mConjunctions s"] by (auto simp: plain_sparse_def)
    have cl: "cleanUp qinv c = Inr c'" using s(4) by (simp add: c'(1) c(1))
    have tv: "conj_tvars c' \<subseteq> {0..<2}"
      using tvars_within.kept.own.conj_all_cleanUp[OF none cl p] c(6) by (simp add: conj_tvars_all)
    have nc: "\<forall>x \<in> set (mTupleDecl c'). \<not> mIsConst x" "mInArity c' = 0" using c(4,5) cleanUp_terms(3,4)[OF cl] by simp_all
    obtain b d where d: "substituteInConstraints qinv c' (inst_map x1 x2) = Inr b" "setTupleDecl b td = Inr d" "plain_conj d"
      "conj_arity d = length td"
      "\<forall>I. conj_holds I d \<longleftrightarrow> decl_holds I td \<and> conj_holds (at_pair I (eval_exp I x1) (eval_exp I x2)) c'"
      by (rule inst_conj_correct[OF none c'(2,3) nc(2) tv nc(1) e td]) blast
    show thesis
    proof (rule that)
      show "inst_side qinv side x1 x2 td = Inr \<lparr>mConjunctions = [d], mArity = length td\<rparr>"
        using s(1) c'(1) novar d(1,2)
        by (simp add: inst_side_def sparse_substituteInConstraints_def Set_setTupleDecl_def sparse_setTupleDecl_def)
      show "\<forall>I. sparse_holds I [d] \<longleftrightarrow>
        decl_holds I td \<and> sparse_holds (at_pair I (eval_exp I x1) (eval_exp I x2)) (mConjunctions side)"
        using d(5) s(3) by (simp add: c'(1))
    qed (use d(3,4) in \<open>simp add: plain_sparse_def\<close>)
  qed
qed

section \<open>An instance\<close>

definition copied_side :: "(string \<Rightarrow> string) \<Rightarrow> tuple_decl \<Rightarrow> set_object \<Rightarrow> exp \<times> exp \<Rightarrow> sparse" where
  "copied_side qinv td side p =
     (case bind_result (inst_side qinv side (fst p) (snd p) td) (Set_copy qinv) of Inr s \<Rightarrow> mConjunctions s | Inl e \<Rightarrow> [])"

definition affine_side :: "(string \<Rightarrow> string) \<Rightarrow> tuple_decl \<Rightarrow> set_object \<Rightarrow> exp \<times> exp \<Rightarrow> set_object" where
  "affine_side qinv td side p =
     \<lparr>mConjunctions = map (rebuild_conj affine_trm) (copied_side qinv td side p), mArity = length td\<rparr>"

lemma superAffineSet_value:
  assumes none: "no_inverses qinv" and s: "plain_sparse n (mConjunctions s)" "Set_copy qinv s = Inr s0"
    and dec: "boundUFCs \<longrightarrow> all_declared qinv env (mConjunctions s0)" and s1: "copied qinv env s boundUFCs = Inr s1"
    and m: "ufcall_map_ok m"
  shows "superAffineSet qinv env s m boundUFCs = Inr (\<lparr>mConjunctions = map (rebuild_conj affine_trm) (mConjunctions s1),
    mArity = mArity s\<rparr>, fold affine_step (top_terms (mConjunctions s1)) m)"
proof -
  note p = copied_points[OF none s dec s1]
  have a0: "mArity s0 = mArity s" using Set_copy_plain[OF none s(1)] s(2) by (metis sum.inject(2))
  show ?thesis
  proof (cases "mConjunctions s0 = []")
    case True
    then show ?thesis using s(2) p(3) a0 by (simp add: superAffineSet_def)
  next
    case False
    then obtain c where c: "mConjunctions s1 = [c]" "plain_conj c"
      using p(1,3) short_list[of "mConjunctions s1"] by (auto simp: plain_sparse_def)
    obtain x st where v: "accept_Set VisitorSuperAffineSet \<lparr>mConjunctions = [c], mArity = mArity s\<rparr> (affine_start m) = Inr (x, st)"
      "affineSet st = \<lparr>mConjunctions = [rebuild_conj affine_trm c], mArity = mArity s\<rparr>"
      "ufcmap st = fold affine_step (top_terms [c]) m" by (rule affine_visit[OF c(2) m])
    show ?thesis using s(2) v s1 False set_object_eta[OF c(1) p(2)] c(1) by (simp add: superAffineSet_def copied_def)
  qed
qed

definition use_terms :: "(string \<Rightarrow> string) \<Rightarrow> tuple_decl \<Rightarrow> set_object uniq_rule \<times> exp \<times> exp \<Rightarrow> trm list" where
  "use_terms qinv td u = top_terms (copied_side qinv td (mLeftSide (fst u)) (snd u)) @
     top_terms (copied_side qinv td (mRightSide (fst u)) (snd u))"

definition use_text :: "(string \<Rightarrow> string) \<Rightarrow> tuple_decl \<Rightarrow> set_object uniq_rule \<times> exp \<times> exp \<Rightarrow> (string \<times> string) result" where
  "use_text qinv td u =
     bind_result (side_text qinv (affine_side qinv td (mLeftSide (fst u)) (snd u))) (\<lambda>l.
     bind_result (side_text qinv (affine_side qinv td (mRightSide (fst u)) (snd u))) (\<lambda>r. Inr (l, r)))"

text \<open>A rule with two such sides, and two expressions for its variables.\<close>

definition rule_use :: "set_object uniq_rule \<times> exp \<times> exp \<Rightarrow> bool" where
  "rule_use u \<longleftrightarrow> rule_side (mLeftSide (fst u)) \<and> rule_side (mRightSide (fst u)) \<and> inst_exp (fst (snd u)) \<and> inst_exp (snd (snd u))"

lemma copied_side_correct:
  assumes none: "no_inverses qinv" and side: "rule_side side" and e: "inst_exp (fst p)" "inst_exp (snd p)" and td: "td \<noteq> []"
  obtains cs where "inst_side qinv side (fst p) (snd p) td = Inr \<lparr>mConjunctions = cs, mArity = length td\<rparr>"
    "plain_sparse (length td) cs"
    "Set_copy qinv \<lparr>mConjunctions = cs, mArity = length td\<rparr> = Inr \<lparr>mConjunctions = copied_side qinv td side p, mArity = length td\<rparr>"
    "plain_sparse (length td) (copied_side qinv td side p)"
    "\<forall>I. sparse_holds I (copied_side qinv td side p) \<longleftrightarrow> decl_holds I td \<and>
      sparse_holds (at_pair I (eval_exp I (fst p)) (eval_exp I (snd p))) (mConjunctions side)"
proof -
  obtain cs where cs: "inst_side qinv side (fst p) (snd p) td = Inr \<lparr>mConjunctions = cs, mArity = length td\<rparr>"
    "plain_sparse (length td) cs" "\<forall>I. sparse_holds I cs \<longleftrightarrow> decl_holds I td \<and>
      sparse_holds (at_pair I (eval_exp I (fst p)) (eval_exp I (snd p))) (mConjunctions side)"
    by (rule inst_side_correct[OF none side e td]) blast
  let ?s = "\<lparr>mConjunctions = cs, mArity = length td\<rparr>"
  have ps: "plain_sparse (length td) (mConjunctions ?s)" using cs(2) by simp
  obtain s0 where s0: "Set_copy qinv ?s = Inr s0" "plain_sparse (length td) (mConjunctions s0)" "mArity s0 = mArity ?s"
    "\<forall>I. sparse_holds I (mConjunctions s0) \<longleftrightarrow> sparse_holds I (mConjunctions ?s)"
    by (rule Set_copy_plain[OF none ps]) blast
  have "copied_side qinv td side p = mConjunctions s0" using cs(1) s0(1) by (simp add: copied_side_def)
  moreover have "s0 = \<lparr>mConjunctions = mConjunctions s0, mArity = length td\<rparr>" using s0(3) by simp
  ultimately show thesis using that[of cs] cs s0 by simp
qed

lemma inst_sets_value:
  assumes none: "no_inverses qinv" and u: "rule_use u" and td: "td \<noteq> []" and m: "ufcall_map_ok m"
  shows "inst_sets qinv env (fst u) (fst (snd u)) (snd (snd u)) m td =
    Inr (affine_side qinv td (mLeftSide (fst u)) (snd u), affine_side qinv td (mRightSide (fst u)) (snd u),
      fold affine_step (use_terms qinv td u) m)"
proof -
  note r = u[unfolded rule_use_def]
  let ?l = "copied_side qinv td (mLeftSide (fst u)) (snd u)" and ?r = "copied_side qinv td (mRightSide (fst u)) (snd u)"
  obtain lcs where l: "inst_side qinv (mLeftSide (fst u)) (fst (snd u)) (snd (snd u)) td = Inr \<lparr>mConjunctions = lcs, mArity = length td\<rparr>"
    "plain_sparse (length td) lcs" "Set_copy qinv \<lparr>mConjunctions = lcs, mArity = length td\<rparr> = Inr \<lparr>mConjunctions = ?l, mArity = length td\<rparr>"
    by (rule copied_side_correct[OF none _ _ _ td, of "mLeftSide (fst u)" "snd u"]) (use r in auto)
  obtain rcs where rs: "inst_side qinv (mRightSide (fst u)) (fst (snd u)) (snd (snd u)) td = Inr \<lparr>mConjunctions = rcs, mArity = length td\<rparr>"
    "plain_sparse (length td) rcs" "Set_copy qinv \<lparr>mConjunctions = rcs, mArity = length td\<rparr> = Inr \<lparr>mConjunctions = ?r, mArity = length td\<rparr>"
    by (rule copied_side_correct[OF none _ _ _ td, of "mRightSide (fst u)" "snd u"]) (use r in auto)
  have ps: "plain_sparse (length td) (mConjunctions \<lparr>mConjunctions = lcs, mArity = length td\<rparr>)"
    "plain_sparse (length td) (mConjunctions \<lparr>mConjunctions = rcs, mArity = length td\<rparr>)" using l(2) rs(2) by simp_all
  note L = superAffineSet_value[OF none ps(1) l(3) _ _ m, of False env, unfolded copied_def]
  have m1: "ufcall_map_ok (fold affine_step (top_terms ?l) m)" by (rule affine_map(1)[OF m refl])
  note R = superAffineSet_value[OF none ps(2) rs(3) _ _ m1, of False env, unfolded copied_def]
  show ?thesis using l(1,3) rs(1,3) L R by (simp add: inst_sets_def affine_side_def use_terms_def)
qed

lemma instantiate_value:
  assumes "no_inverses qinv" "rule_use u" "td \<noteq> []" "ufcall_map_ok m"
  shows "instantiate qinv env (fst u) (fst (snd u)) (snd (snd u)) m td =
    bind_result (use_text qinv td u) (\<lambda>p. Inr (p, fold affine_step (use_terms qinv td u) m))"
  by (simp add: instantiate_def inst_sets_value[OF assms] use_text_def bind_result_def split: sum.split)

section \<open>All instances\<close>

definition pairs_of :: "exp list \<Rightarrow> (exp \<times> exp) list" where
  "pairs_of es = concat (map (\<lambda>e1. map (\<lambda>e2. (e1, e2)) es) es)"

definition rule_uses :: "set_object environment \<Rightarrow> bool list \<Rightarrow> exp list \<Rightarrow> (set_object uniq_rule \<times> exp \<times> exp) list" where
  "rule_uses env useRule es =
     concat (map (\<lambda>r. if useRule ! rule_index (mUniQuantRuleType r) then map (Pair r) (pairs_of es) else []) (uniQuantRules env))"

definition all_rules :: "bool list option \<Rightarrow> bool list" where
  "all_rules useRule = (case useRule of None \<Rightarrow> replicate (rule_index TheOthers) True | Some u \<Rightarrow> u)"

lemma insert_unique_subset: "set (insert_unique lt x xs) \<subseteq> insert x (set xs)"
  by (induction xs) auto

text \<open>One rule with a list of pairs.\<close>

lemma rule_instances_value:
  assumes none: "no_inverses qinv" and td: "td \<noteq> []" and ok: "\<forall>u \<in> Pair r ` set ps. rule_use u" and m: "ufcall_map_ok m"
    and run: "fold_result (\<lambda>(insts, m) (e1, e2).
      bind_result (instantiate qinv env r e1 e2 m td) (\<lambda>(p, m). Inr (insert_unique (<) p insts, m))) (insts, m) ps = Inr (insts', m')"
  shows "m' = fold affine_step (concat (map (use_terms qinv td) (map (Pair r) ps))) m"
    "set insts' \<subseteq> set insts \<union> {x. \<exists>u \<in> Pair r ` set ps. use_text qinv td u = Inr x}"
proof -
  let ?f = "\<lambda>(insts, m) (e1, e2).
      bind_result (instantiate qinv env r e1 e2 m td) (\<lambda>(p, m). Inr (insert_unique (<) p insts, m))"
  have "m' = fold affine_step (concat (map (use_terms qinv td) (map (Pair r) ps))) m \<and>
    set insts' \<subseteq> set insts \<union> {x. \<exists>u \<in> Pair r ` set ps. use_text qinv td u = Inr x}"
    using ok m run
  proof (induction ps arbitrary: insts m)
    case (Cons p ps)
    have p: "rule_use (r, p)" using Cons.prems(1) by simp
    from instantiate_value[OF none p td Cons.prems(2), of env]
    obtain x where x: "use_text qinv td (r, p) = Inr x" "?f (insts, m) p = Inr (insert_unique (<) x insts, fold affine_step (use_terms qinv td (r, p)) m)"
      using Cons.prems(3) by (cases "use_text qinv td (r, p)"; cases p) (auto simp del: bind_result_Inr simp: bind_result_def)
    have m1: "ufcall_map_ok (fold affine_step (use_terms qinv td (r, p)) m)" by (rule affine_map(1)[OF Cons.prems(2) refl])
    have "fold_result ?f (insert_unique (<) x insts, fold affine_step (use_terms qinv td (r, p)) m) ps = Inr (insts', m')"
      using Cons.prems(3) x(2) by simp
    from Cons.IH[OF _ m1 this] Cons.prems(1) insert_unique_subset[of "(<)" x insts] x(1) show ?case by fastforce
  qed simp
  then show "m' = fold affine_step (concat (map (use_terms qinv td) (map (Pair r) ps))) m"
    "set insts' \<subseteq> set insts \<union> {x. \<exists>u \<in> Pair r ` set ps. use_text qinv td u = Inr x}" by blast+
qed

lemma ruleInstantiation_value:
  assumes none: "no_inverses qinv" and td: "td \<noteq> []" and m: "ufcall_map_ok m"
    and ok: "\<forall>u \<in> set (rule_uses env (all_rules useRule) es). rule_use u"
    and run: "ruleInstantiation qinv env es useRule td m = Inr (insts, m')"
  shows "m' = fold affine_step (concat (map (use_terms qinv td) (rule_uses env (all_rules useRule) es))) m"
    "set insts \<subseteq> {x. \<exists>u \<in> set (rule_uses env (all_rules useRule) es). use_text qinv td u = Inr x}"
proof -
  let ?R = "uniQuantRules env" and ?A = "all_rules useRule"
  let ?one = "\<lambda>r. if ?A ! rule_index (mUniQuantRuleType r) then map (Pair r) (pairs_of es) else []"
  let ?f = "\<lambda>st i. bind_result (getUniQuantRule env (int i)) (\<lambda>uqRule.
           bind_result (use_rule ?A (mUniQuantRuleType uqRule)) (\<lambda>use.
             if \<not> use then Inr st else rule_instances qinv env es td uqRule st))"
  have uses: "rule_uses env ?A es = concat (map ?one (map (nth ?R) [0..<length ?R]))"
    by (simp add: rule_uses_def map_nth)
  have "m' = fold affine_step (concat (map (use_terms qinv td) (concat (map ?one (map (nth ?R) is))))) m \<and>
    set insts' \<subseteq> set insts \<union> {x. \<exists>u \<in> set (concat (map ?one (map (nth ?R) is))). use_text qinv td u = Inr x}"
    if "\<forall>i \<in> set is. i < length ?R" "\<forall>u \<in> set (concat (map ?one (map (nth ?R) is))). rule_use u" "ufcall_map_ok m"
      "fold_result ?f (insts, m) is = Inr (insts', m')" for "is" insts insts' m m'
    using that
  proof (induction "is" arbitrary: insts m)
    case (Cons i "is")
    let ?r = "?R ! i"
    have get: "getUniQuantRule env (int i) = Inr ?r" using Cons.prems(1) by (simp add: getUniQuantRule_def)
    obtain use st where use: "use_rule ?A (mUniQuantRuleType ?r) = Inr use" "use = ?A ! rule_index (mUniQuantRuleType ?r)"
      and st: "?f (insts, m) i = Inr st" "fold_result ?f st is = Inr (insts', m')"
      using Cons.prems(4) get by (auto simp: use_rule_def split: if_splits)
    have IH: "m' = fold affine_step (concat (map (use_terms qinv td) (concat (map ?one (map (nth ?R) is))))) m1 \<and>
      set insts' \<subseteq> set insts1 \<union> {x. \<exists>u \<in> set (concat (map ?one (map (nth ?R) is))). use_text qinv td u = Inr x}"
      if "st = (insts1, m1)" "ufcall_map_ok m1" for insts1 m1
      by (rule Cons.IH) (use Cons.prems that st(2) in auto)
    show ?case
    proof (cases use)
      case False
      then have "st = (insts, m)" using st(1) get use(1) by simp
      from IH[OF this Cons.prems(3)] False use(2) show ?thesis by simp
    next
      case True
      obtain insts1 m1 where s: "st = (insts1, m1)" by (cases st)
      have "fold_result (\<lambda>(insts, m) (e1, e2).
        bind_result (instantiate qinv env ?r e1 e2 m td) (\<lambda>(p, m). Inr (insert_unique (<) p insts, m))) (insts, m) (pairs_of es)
        = Inr (insts1, m1)"
        using st(1) get use(1) True s by (simp add: rule_instances_def pairs_of_def)
      from rule_instances_value[OF none td _ Cons.prems(3) this] Cons.prems(2) True use(2)
      have one: "m1 = fold affine_step (concat (map (use_terms qinv td) (map (Pair ?r) (pairs_of es)))) m"
        "set insts1 \<subseteq> set insts \<union> {x. \<exists>u \<in> Pair ?r ` set (pairs_of es). use_text qinv td u = Inr x}" by auto
      have "ufcall_map_ok m1" by (rule affine_map(1)[OF Cons.prems(3) one(1)])
      from IH[OF s this] one True use(2) show ?thesis by fastforce
    qed
  qed simp
  from this[of "[0..<length ?R]" m "[]" insts m'] run ok m
  show "m' = fold affine_step (concat (map (use_terms qinv td) (rule_uses env ?A es))) m"
    "set insts \<subseteq> {x. \<exists>u \<in> set (rule_uses env ?A es). use_text qinv td u = Inr x}"
    unfolding uses by (simp_all add: ruleInstantiation_def Let_def all_rules_def getNoUniQuantRules_def)
qed

section \<open>The values of an instance\<close>

text \<open>Where the symbols of all calls of a run stand for their values.\<close>

lemma affine_conj_value:
  assumes c: "plain_conj c" and ok: "symbols_ok ts" and M: "M = fold affine_step ts UFCallMap"
    and sub: "set (top_terms [c]) \<subseteq> set ts"
  shows "conj_holds (with_symbols M I I) (rebuild_conj affine_trm c) \<longleftrightarrow> conj_holds I c"
proof -
  have ok': "symbols_ok (ts @ map_call_list UFCallMap)" using ok by (simp add: map_call_list_def UFCallMap_def)
  have top: "t \<in> set ts" if "e \<in> set (constraints_of c)" "t \<in> set (mTerms e)" for e t
    using that sub by (auto simp: top_terms_def)
  have p: "\<forall>e \<in> set (constraints_of c). \<forall>t \<in> set (mTerms e). plain_trm (affine_trm t)"
  proof (intro ballI)
    fix e t assume e: "e \<in> set (constraints_of c)" "t \<in> set (mTerms e)"
    have "plain_trm t" using c e by (auto simp: plain_conj_exps constraints_of_def plain_exp_terms)
    then show "plain_trm (affine_trm t)" using symbols_ok_facts(1)[OF ok top[OF e]]
      by (simp add: affine_trm_def plain_trm_def)
  qed
  show ?thesis
  proof (rule rebuild_conj_plain(4)[OF c p]; (intro ballI)?)
    fix e t assume "e \<in> set (constraints_of c)" "t \<in> set (mTerms e)"
    from affine_trm_value[OF UFCallMap_ok(1) ok' M top[OF this], of I I]
    show "eval_trm (with_symbols M I I) (affine_trm t) = eval_trm I t" by simp
  qed simp
qed

lemma affine_sparse_value:
  assumes cs: "plain_sparse n cs" and ok: "symbols_ok ts" and M: "M = fold affine_step ts UFCallMap"
    and sub: "set (top_terms cs) \<subseteq> set ts"
  shows "sparse_holds (with_symbols M I I) (map (rebuild_conj affine_trm) cs) \<longleftrightarrow> sparse_holds I cs"
proof (cases "cs = []")
  case False
  then obtain c where "cs = [c]" "plain_conj c" using cs short_list[of cs] by (auto simp: plain_sparse_def)
  with affine_conj_value[OF _ ok M, of c I] sub show ?thesis by simp
qed simp

definition rule_true :: "interp \<Rightarrow> set_object uniq_rule \<Rightarrow> bool" where
  "rule_true I r \<longleftrightarrow> (\<forall>a b. sparse_holds (at_pair I a b) (mConjunctions (mLeftSide r)) \<longrightarrow>
     sparse_holds (at_pair I a b) (mConjunctions (mRightSide r)))"

lemma affine_side_points:
  assumes none: "no_inverses qinv" and td: "td \<noteq> []" and u: "rule_use u" "u \<in> set uses"
    and ok: "symbols_ok (concat (map (use_terms qinv td) uses) @ ts)"
    and M: "M = fold affine_step (concat (map (use_terms qinv td) uses) @ ts) UFCallMap"
  shows "sparse_holds (with_symbols M I I) (mConjunctions (affine_side qinv td (mLeftSide (fst u)) (snd u))) \<longleftrightarrow> decl_holds I td \<and>
      sparse_holds (at_pair I (eval_exp I (fst (snd u))) (eval_exp I (snd (snd u)))) (mConjunctions (mLeftSide (fst u)))"
    "sparse_holds (with_symbols M I I) (mConjunctions (affine_side qinv td (mRightSide (fst u)) (snd u))) \<longleftrightarrow> decl_holds I td \<and>
      sparse_holds (at_pair I (eval_exp I (fst (snd u))) (eval_exp I (snd (snd u)))) (mConjunctions (mRightSide (fst u)))"
proof -
  have side: "sparse_holds (with_symbols M I I) (mConjunctions (affine_side qinv td side (snd u))) \<longleftrightarrow> decl_holds I td \<and>
      sparse_holds (at_pair I (eval_exp I (fst (snd u))) (eval_exp I (snd (snd u)))) (mConjunctions side)"
    if "rule_side side" "set (top_terms (copied_side qinv td side (snd u))) \<subseteq> set (use_terms qinv td u)" for side
  proof -
    have sub: "set (top_terms (copied_side qinv td side (snd u))) \<subseteq> set (concat (map (use_terms qinv td) uses) @ ts)"
      using that(2) u(2) by auto
    note s = that(1)
    obtain cs where "inst_side qinv side (fst (snd u)) (snd (snd u)) td = Inr \<lparr>mConjunctions = cs, mArity = length td\<rparr>"
      and cp: "plain_sparse (length td) (copied_side qinv td side (snd u))"
      "\<forall>I. sparse_holds I (copied_side qinv td side (snd u)) \<longleftrightarrow> decl_holds I td \<and>
        sparse_holds (at_pair I (eval_exp I (fst (snd u))) (eval_exp I (snd (snd u)))) (mConjunctions side)"
      by (rule copied_side_correct[OF none s _ _ td, of "snd u"]) (use u(1) in \<open>auto simp: rule_use_def\<close>)
    with affine_sparse_value[OF cp(1) ok M sub, of I] show ?thesis by (simp add: affine_side_def)
  qed
  show "sparse_holds (with_symbols M I I) (mConjunctions (affine_side qinv td (mLeftSide (fst u)) (snd u))) \<longleftrightarrow> decl_holds I td \<and>
      sparse_holds (at_pair I (eval_exp I (fst (snd u))) (eval_exp I (snd (snd u)))) (mConjunctions (mLeftSide (fst u)))"
    "sparse_holds (with_symbols M I I) (mConjunctions (affine_side qinv td (mRightSide (fst u)) (snd u))) \<longleftrightarrow> decl_holds I td \<and>
      sparse_holds (at_pair I (eval_exp I (fst (snd u))) (eval_exp I (snd (snd u)))) (mConjunctions (mRightSide (fst u)))"
    by (rule side; use u(1) in \<open>auto simp: rule_use_def use_terms_def\<close>)+
qed

section \<open>The parameters of calls\<close>

lemma gather_hooks [simp]:
  "preVisitTerm VisitorGatherAllParameters = (\<lambda>t s. Inr s)" "preVisitVarTerm VisitorGatherAllParameters = (\<lambda>t s. Inr s)"
  "preVisitTupleVarTerm VisitorGatherAllParameters = (\<lambda>t s. Inr (t, s))"
  "postVisitUFCallTerm VisitorGatherAllParameters = (\<lambda>t s. Inr (t, s))"
  "preVisitExp VisitorGatherAllParameters = (\<lambda>e s. Inr s)" "postVisitExp VisitorGatherAllParameters = (\<lambda>e s. Inr s)"
  "preVisitConjunction VisitorGatherAllParameters = (\<lambda>c s. Inr s)"
  "postVisitConjunction VisitorGatherAllParameters = (\<lambda>c s. Inr (c, s))"
  "preVisitSparseConstraints VisitorGatherAllParameters = (\<lambda>cs s. Inr s)"
  "postVisitSparseConstraints VisitorGatherAllParameters = (\<lambda>cs s. Inr s)"
  "preVisitSet VisitorGatherAllParameters = (\<lambda>cs s. Inr s)" "postVisitSet VisitorGatherAllParameters = (\<lambda>cs s. Inr s)"
  by (simp_all add: VisitorGatherAllParameters_def base_Visitor_def)

lemma gather_visit:
  "wf_trm t \<Longrightarrow> has_args t \<Longrightarrow> \<forall>e \<in> set es. inst_exp e \<Longrightarrow>
    \<exists>es'. accept_trm VisitorGatherAllParameters t es = Inr (t, es') \<and> (\<forall>e \<in> set es'. inst_exp e)"
  "wf_exp e \<Longrightarrow> has_args_exp e \<Longrightarrow> \<forall>e \<in> set es. inst_exp e \<Longrightarrow>
    \<exists>es'. accept_exp VisitorGatherAllParameters e es = Inr (e, es') \<and> (\<forall>e \<in> set es'. inst_exp e)"
proof (induction t and e arbitrary: es and es rule: trm.induct exp.induct)
  case (UFCallTerm c f args i)
  have a: "args \<noteq> []" "\<forall>a \<in> set args. wf_exp a \<and> has_args_exp a" using UFCallTerm.prems by (auto simp: list_all_iff)
  let ?es = "insert_unique exp_less (args ! 0) es"
  have first: "preVisitUFCallTerm VisitorGatherAllParameters (UFCallTerm c f args i) es = Inr ?es"
    using a(1) by (simp add: VisitorGatherAllParameters_def base_Visitor_def getParamExp_def)
  have "inst_exp (args ! 0)" using a by (auto simp: inst_exp_def)
  then have start: "\<forall>e \<in> set ?es. inst_exp e" using UFCallTerm.prems(3) insert_unique_subset[of exp_less "args ! 0" es] by blast
  have "\<exists>es'. visit_all (accept_exp VisitorGatherAllParameters) args ?es = Inr (args, es') \<and> (\<forall>e \<in> set es'. inst_exp e)"
    by (rule visit_all_same_rule[of "\<lambda>_ es. \<forall>e \<in> set es. inst_exp e"]) (use start UFCallTerm.IH a(2) in blast)+
  then show ?case using first by auto
next
  case (Exp ts et)
  have "\<exists>es'. visit_all (accept_trm VisitorGatherAllParameters) ts es = Inr (ts, es') \<and> (\<forall>e \<in> set es'. inst_exp e)"
    by (rule visit_all_same_rule[of "\<lambda>_ es. \<forall>e \<in> set es. inst_exp e"])
      (use Exp in \<open>auto simp: wf_exp_iff list_all_iff\<close>)
  then show ?case by auto
qed auto

lemma gather_set:
  assumes "plain_sparse n (mConjunctions s)"
  obtains es where "accept_Set VisitorGatherAllParameters s [] = Inr (s, es)" "\<forall>e \<in> set es. inst_exp e"
proof -
  let ?V = VisitorGatherAllParameters
  have es: "\<exists>es'. visit_all (accept_exp ?V) xs es = Inr (xs, es') \<and> (\<forall>e \<in> set es'. inst_exp e)"
    if "\<forall>e \<in> set xs. wf_exp e \<and> has_args_exp e" "\<forall>e \<in> set es. inst_exp e" for xs es
    by (rule visit_all_same_rule[of "\<lambda>_ es. \<forall>e \<in> set es. inst_exp e"]) (use that gather_visit(2) in blast)+
  have c: "\<exists>es'. accept_conj ?V c es = Inr (c, es') \<and> (\<forall>e \<in> set es'. inst_exp e)"
    if c: "c \<in> set (mConjunctions s)" and ok: "\<forall>e \<in> set es. inst_exp e" for c es
  proof -
    have p: "\<forall>e \<in> set (mEqualities c). wf_exp e \<and> has_args_exp e" "\<forall>e \<in> set (mInequalities c). wf_exp e \<and> has_args_exp e"
      using assms c by (auto simp: plain_sparse_def plain_conj_def conj_wf_def conj_all_def has_args_terms)
    obtain e1 where e1: "visit_all (accept_exp ?V) (mEqualities c) es = Inr (mEqualities c, e1)" "\<forall>e \<in> set e1. inst_exp e"
      using es[OF p(1) ok] by blast
    obtain e2 where "visit_all (accept_exp ?V) (mInequalities c) e1 = Inr (mInequalities c, e2)" "\<forall>e \<in> set e2. inst_exp e"
      using es[OF p(2) e1(2)] by blast
    with e1(1) show ?thesis by (simp add: accept_conj_def)
  qed
  have "\<exists>es'. visit_all (accept_conj ?V) (mConjunctions s) [] = Inr (mConjunctions s, es') \<and> (\<forall>e \<in> set es'. inst_exp e)"
    by (rule visit_all_same_rule[of "\<lambda>_ es. \<forall>e \<in> set es. inst_exp e"]) (use c in auto)
  then show thesis using that by (auto simp: accept_Set_def accept_sparse_def)
qed

section \<open>The set given to isl\<close>

text \<open>The terms whose calls become symbols, and the map of a whole run.\<close>

definition detect_terms ::
  "(string \<Rightarrow> string) \<Rightarrow> tuple_decl \<Rightarrow> (set_object uniq_rule \<times> exp \<times> exp) list \<Rightarrow> set_object \<Rightarrow> trm list" where
  "detect_terms qinv td uses s1 = concat (map (use_terms qinv td) uses) @ top_terms (mConjunctions s1)"

definition affine_of :: "set_object \<Rightarrow> set_object" where
  "affine_of s1 = s1\<lparr>mConjunctions := map (rebuild_conj affine_trm) (mConjunctions s1)\<rparr>"

text \<open>isl reads each text of the run as the set that was printed.\<close>

definition isl_reads ::
  "'i isl_library \<Rightarrow> ('i \<Rightarrow> interp set) \<Rightarrow> (string \<Rightarrow> string) \<Rightarrow> string \<Rightarrow> srParts \<Rightarrow> tuple_decl \<Rightarrow>
     (set_object uniq_rule \<times> exp \<times> exp) list \<Rightarrow> set_object \<Rightarrow> bool" where
  "isl_reads lib den qinv syms parts td uses s1 \<longleftrightarrow>
     (let points = (\<lambda>t. den (isl_set_read_from_str lib (isl_side syms parts t))) in
      points (constraints parts) = {J. sparse_holds J (mConjunctions (affine_of s1))} \<and>
      (\<forall>u \<in> set uses. \<forall>l r. use_text qinv td u = Inr (l, r) \<longrightarrow>
        points l = {J. sparse_holds J (mConjunctions (affine_side qinv td (mLeftSide (fst u)) (snd u)))} \<and>
        points r = {J. sparse_holds J (mConjunctions (affine_side qinv td (mRightSide (fst u)) (snd u)))}))"

lemma detect_run:
  assumes none: "no_inverses qinv" and s: "plain_sparse n (mConjunctions s)" "Set_copy qinv s = Inr s0"
    "all_declared qinv env (mConjunctions s0)" "Set_boundDomainRange qinv env s = Inr s1"
    "sparse_getTupleDecl (mConjunctions s) = Inr td" "accept_Set VisitorGatherAllParameters s [] = Inr (s, es)"
    and uses: "uses = rule_uses env (all_rules useRule) es" "\<forall>u \<in> set uses. rule_use u" "td \<noteq> []"
    and run: "Set_detectUnsatOrFindEqualities lib parse qinv env s useRule = Inr res"
  obtains str parts syms insts where "Set_prettyPrintString qinv (affine_of s1) = Inr str" "getPartsFromStr str = Inr parts"
    "symsForInstantiationSet s1 (fold affine_step (detect_terms qinv td uses s1) UFCallMap) = Inr syms"
    "set insts \<subseteq> {x. \<exists>u \<in> set uses. use_text qinv td u = Inr x}"
    "checkIslSet lib parse (instantiationSet lib parts insts syms)
       (fold affine_step (detect_terms qinv td uses s1) UFCallMap) s = Inr res"
proof -
  obtain insts m where rI: "ruleInstantiation qinv env es useRule td UFCallMap = Inr (insts, m)"
    using run s(5,6) by (auto simp: Set_detectUnsatOrFindEqualities_def)
  note v = ruleInstantiation_value[OF none uses(3) UFCallMap_ok(1) uses(2)[unfolded uses(1)] rI]
  have m: "ufcall_map_ok m" by (rule affine_map(1)[OF UFCallMap_ok(1) v(1)])
  have s1: "copied qinv env s True = Inr s1" using s(4) by (simp add: copied_def)
  have dec: "True \<longrightarrow> all_declared qinv env (mConjunctions s0)" using s(3) by simp
  have "mArity s1 = mArity s" by (rule copied_points(2)[OF none s(1,2) dec s1])
  with superAffineSet_value[OF none s(1,2) dec s1 m]
  have sup: "superAffineSet qinv env s m True = Inr (affine_of s1, fold affine_step (detect_terms qinv td uses s1) UFCallMap)"
    by (simp add: affine_of_def v(1) detect_terms_def uses(1))
  show thesis using run s(4,5,6) rI sup v(2) that
    by (auto simp: Set_detectUnsatOrFindEqualities_def uses(1))
qed

text \<open>A point of the set at which the rules hold and the calls are within their bounds is a point of the isl set.\<close>

lemma detect_points:
  assumes none: "no_inverses qinv" and s: "plain_sparse n (mConjunctions s)" "Set_copy qinv s = Inr s0"
    "all_declared qinv env (mConjunctions s0)" "Set_boundDomainRange qinv env s = Inr s1"
    "sparse_getTupleDecl (mConjunctions s) = Inr td"
    and uses: "\<forall>u \<in> set uses. rule_use u" "td \<noteq> []"
    and ok: "symbols_ok (detect_terms qinv td uses s1)" and M: "M = fold affine_step (detect_terms qinv td uses s1) UFCallMap"
    and laws: "isl_laws lib den" "isl_reads lib den qinv syms parts td uses s1"
    and insts: "set insts \<subseteq> {x. \<exists>u \<in> set uses. use_text qinv td u = Inr x}"
  shows "sparse_holds I (mConjunctions s) \<Longrightarrow> points_within qinv env True I (mConjunctions s0) \<Longrightarrow>
      \<forall>u \<in> set uses. rule_true I (fst u) \<Longrightarrow> with_symbols M I I \<in> den (instantiationSet lib parts insts syms)"
    "with_symbols M I I \<in> den (instantiationSet lib parts insts syms) \<Longrightarrow> sparse_holds I (mConjunctions s)"
proof -
  let ?V = "{with_symbols M I I | I. decl_holds I td \<and> (\<forall>u \<in> set uses. rule_true I (fst u))}"
  let ?read = "\<lambda>t. den (isl_set_read_from_str lib (isl_side syms parts t))"
  have ok': "symbols_ok (concat (map (use_terms qinv td) uses) @ top_terms (mConjunctions s1))"
    and M': "M = fold affine_step (concat (map (use_terms qinv td) uses) @ top_terms (mConjunctions s1)) UFCallMap"
    using ok M by (simp_all add: detect_terms_def)
  have "valid_instance lib den (isl_side syms parts) ?V it" if it: "it \<in> set insts" for it
  proof -
    obtain u where u: "u \<in> set uses" "use_text qinv td u = Inr (fst it, snd it)"
      using insts it unfolding prod.collapse by blast
    have reads: "?read (fst it) = {J. sparse_holds J (mConjunctions (affine_side qinv td (mLeftSide (fst u)) (snd u)))}"
      "?read (snd it) = {J. sparse_holds J (mConjunctions (affine_side qinv td (mRightSide (fst u)) (snd u)))}"
      using laws(2) u unfolding isl_reads_def Let_def by blast+
    have "rule_use u" using uses(1) u(1) by blast
    note p = affine_side_points[OF none uses(2) this u(1) ok' M']
    show ?thesis unfolding valid_instance_def reads
    proof
      fix J assume J: "J \<in> ?V \<inter> {J. sparse_holds J (mConjunctions (affine_side qinv td (mLeftSide (fst u)) (snd u)))}"
      then obtain I where I: "J = with_symbols M I I" "decl_holds I td" "rule_true I (fst u)" using u(1) by blast
      with J p show "J \<in> {J. sparse_holds J (mConjunctions (affine_side qinv td (mRightSide (fst u)) (snd u)))}"
        by (simp add: rule_true_def)
    qed
  qed
  then have "\<forall>it \<in> set insts. valid_instance lib den (isl_side syms parts) ?V it" by blast
  note iset = instantiationSet_points[OF laws(1) this]
  have base: "?read (constraints parts) = {J. sparse_holds J (mConjunctions (affine_of s1))}"
    using laws(2) by (simp add: isl_reads_def Let_def)
  have s1: "copied qinv env s True = Inr s1" using s(4) by (simp add: copied_def)
  have dec: "True \<longrightarrow> all_declared qinv env (mConjunctions s0)" using s(3) by simp
  note c = copied_points[OF none s(1,2) dec s1]
  have affine: "sparse_holds (with_symbols M I I) (mConjunctions (affine_of s1)) \<longleftrightarrow>
    sparse_holds I (mConjunctions s) \<and> points_within qinv env True I (mConjunctions s0)"
    using affine_sparse_value[OF c(1) ok' M', of I] c(4) by (simp add: affine_of_def)
  show "with_symbols M I I \<in> den (instantiationSet lib parts insts syms)"
    if h: "sparse_holds I (mConjunctions s)" "points_within qinv env True I (mConjunctions s0)" "\<forall>u \<in> set uses. rule_true I (fst u)"
  proof -
    obtain c where c: "c \<in> set (mConjunctions s)" "conj_holds I c" using h(1) by (auto simp: sparse_holds_def)
    moreover have "mTupleDecl c = td" using s(1,5) c(1) short_list[of "mConjunctions s"]
      by (auto simp: plain_sparse_def sparse_getTupleDecl_def split: list.splits)
    ultimately have "with_symbols M I I \<in> ?V" using h(3) by (auto simp: conj_holds_def)
    moreover have "with_symbols M I I \<in> ?read (constraints parts)" using affine h(1,2) by (simp add: base)
    ultimately show ?thesis using iset(2) by blast
  qed
  show "sparse_holds I (mConjunctions s)" if "with_symbols M I I \<in> den (instantiationSet lib parts insts syms)"
    using that iset(1) affine by (auto simp: base)
qed

end
