(* ===== verification/Detect.thy ===== *)
theory Detect
  imports Rule_Instances
begin

text \<open>
  What \<open>detectUnsatOrFindEqualities\<close> returns. No result means that the set has no points at which the rules hold
  and the calls are within their bounds; a result has the points of the set, except perhaps some at which they do not.
\<close>

section \<open>Useful equalities\<close>

definition useful :: "exp \<Rightarrow> bool" where
  "useful e \<longleftrightarrow> (\<exists>c l. TupleVarTerm c l \<in> set (mTerms e))"

lemma useful_hooks [simp]:
  "preVisitTerm VisitorGetUsefulEqs = (\<lambda>t s. Inr s)" "preVisitVarTerm VisitorGetUsefulEqs = (\<lambda>t s. Inr s)"
  "preVisitTupleVarTerm VisitorGetUsefulEqs = (\<lambda>t s. Inr (t, if UFnestLevel s = 0 then s\<lparr>foundTvVar := True\<rparr> else s))"
  "preVisitUFCallTerm VisitorGetUsefulEqs = (\<lambda>t s. Inr (s\<lparr>UFnestLevel := UFnestLevel s + 1\<rparr>))"
  "postVisitUFCallTerm VisitorGetUsefulEqs = (\<lambda>t s. Inr (t, s\<lparr>UFnestLevel := UFnestLevel s - 1\<rparr>))"
  "preVisitExp VisitorGetUsefulEqs = (\<lambda>e s. Inr (if UFnestLevel s = 0 then s\<lparr>foundTvVar := False\<rparr> else s))"
  "postVisitExp VisitorGetUsefulEqs = (\<lambda>e s. Inr
     (if UFnestLevel s = 0 \<and> foundTvVar s then s\<lparr>uEqsC := addEquality (uEqsC s) e\<rparr> else s))"
  "preVisitConjunction VisitorGetUsefulEqs = (\<lambda>c s. Inr (s\<lparr>UFnestLevel := 0, uEqsC := Conjunction_of (mTupleDecl c)\<rparr>))"
  "postVisitConjunction VisitorGetUsefulEqs = (\<lambda>c s. Inr (c,
     s\<lparr>uEqsS := Some (Set_addConjunction (Set_of_decl (mTupleDecl c)) (uEqsC s))\<rparr>))"
  "preVisitSparseConstraints VisitorGetUsefulEqs = (\<lambda>cs s. Inr s)"
  "postVisitSparseConstraints VisitorGetUsefulEqs = (\<lambda>cs s. Inr s)"
  "preVisitSet VisitorGetUsefulEqs = (\<lambda>x s. Inr s)" "postVisitSet VisitorGetUsefulEqs = (\<lambda>x s. Inr s)"
  by (simp_all add: VisitorGetUsefulEqs_def base_Visitor_def)

text \<open>Inside a call nothing is recorded.\<close>

lemma useful_inside:
  "UFnestLevel s > 0 \<Longrightarrow> accept_trm VisitorGetUsefulEqs t s = Inr (t, s)"
  "UFnestLevel s > 0 \<Longrightarrow> accept_exp VisitorGetUsefulEqs e s = Inr (e, s)"
proof (induction t and e arbitrary: s and s rule: trm.induct exp.induct)
  case (UFCallTerm c f args i)
  let ?s = "s\<lparr>UFnestLevel := UFnestLevel s + 1\<rparr>"
  have "visit_all (accept_exp VisitorGetUsefulEqs) args ?s = Inr (map id args, ?s)"
    by (rule visit_all_map) (use UFCallTerm in simp)
  then show ?case by simp
next
  case (Exp ts et)
  have "visit_all (accept_trm VisitorGetUsefulEqs) ts s = Inr (map id ts, s)"
    by (rule visit_all_map) (use Exp in simp)
  then show ?case using Exp.prems by simp
qed simp_all

lemma useful_trm:
  assumes "UFnestLevel s = 0"
  shows "accept_trm VisitorGetUsefulEqs t s =
    Inr (t, if \<exists>c l. t = TupleVarTerm c l then s\<lparr>foundTvVar := True\<rparr> else s)"
proof (cases t)
  case (UFCallTerm c f args i)
  let ?s = "s\<lparr>UFnestLevel := UFnestLevel s + 1\<rparr>"
  have "visit_all (accept_exp VisitorGetUsefulEqs) args ?s = Inr (map id args, ?s)"
    by (rule visit_all_map) (use assms useful_inside(2) in simp)
  then show ?thesis using UFCallTerm by simp
qed (use assms in simp_all)

lemma useful_exp:
  assumes "UFnestLevel s = 0"
  shows "accept_exp VisitorGetUsefulEqs e s = Inr (e, s\<lparr>foundTvVar := useful e,
    uEqsC := if useful e then addEquality (uEqsC s) e else uEqsC s\<rparr>)"
proof -
  obtain ts et where e: "e = Exp ts et" by (cases e)
  let ?s = "s\<lparr>foundTvVar := False\<rparr>"
  have "\<exists>s'. visit_all (accept_trm VisitorGetUsefulEqs) ts ?s = Inr (ts, s') \<and>
    s' = ?s\<lparr>foundTvVar := \<exists>t \<in> set ts. \<exists>c l. t = TupleVarTerm c l\<rparr>"
    by (rule visit_all_same_rule[of "\<lambda>ys s'. s' = ?s\<lparr>foundTvVar := \<exists>t \<in> set ys. \<exists>c l. t = TupleVarTerm c l\<rparr>"])
      (use assms in \<open>auto simp: useful_trm\<close>)
  moreover have "useful e \<longleftrightarrow> (\<exists>t \<in> set ts. \<exists>c l. t = TupleVarTerm c l)" by (auto simp: useful_def e)
  ultimately show ?thesis using assms by (cases "useful e") (auto simp: e)
qed

lemma useful_exps:
  assumes "UFnestLevel s = 0"
  obtains s' where "visit_all (accept_exp VisitorGetUsefulEqs) es s = Inr (es, s')" "UFnestLevel s' = 0"
    "uEqsC s' = foldl addEquality (uEqsC s) (filter useful es)"
proof -
  have "\<exists>s'. visit_all (accept_exp VisitorGetUsefulEqs) es s = Inr (es, s') \<and>
    UFnestLevel s' = 0 \<and> uEqsC s' = foldl addEquality (uEqsC s) (filter useful es)"
    by (rule visit_all_same_rule[of "\<lambda>ys s'. UFnestLevel s' = 0 \<and> uEqsC s' = foldl addEquality (uEqsC s) (filter useful ys)"])
      (use assms in \<open>auto simp: useful_exp\<close>)
  then show thesis using that by blast
qed

text \<open>The set collected: of each constraint with a variable of its own, an inequality too, the equality.\<close>

definition useful_conj :: "conjunction \<Rightarrow> conjunction" where
  "useful_conj c = foldl addEquality (Conjunction_of (mTupleDecl c)) (filter useful (constraints_of c))"

lemma useful_set:
  assumes "mConjunctions s = [c]"
  obtains v where "accept_Set VisitorGetUsefulEqs s useful_start = Inr (s, v)"
    "getUsefulEqs v = Inr \<lparr>mConjunctions = [useful_conj c], mArity = conj_arity c\<rparr>"
proof -
  let ?s = "useful_start\<lparr>UFnestLevel := 0, uEqsC := Conjunction_of (mTupleDecl c)\<rparr>"
  obtain s1 where s1: "visit_all (accept_exp VisitorGetUsefulEqs) (mEqualities c) ?s = Inr (mEqualities c, s1)" "UFnestLevel s1 = 0"
    "uEqsC s1 = foldl addEquality (uEqsC ?s) (filter useful (mEqualities c))" by (rule useful_exps[of ?s]) simp
  obtain s2 where s2: "visit_all (accept_exp VisitorGetUsefulEqs) (mInequalities c) s1 = Inr (mInequalities c, s2)" "UFnestLevel s2 = 0"
    "uEqsC s2 = foldl addEquality (uEqsC s1) (filter useful (mInequalities c))" by (rule useful_exps[OF s1(2)])
  have u: "uEqsC s2 = useful_conj c" using s1(3) s2(3) by (simp add: useful_conj_def constraints_of_def)
  have "accept_Set VisitorGetUsefulEqs s useful_start =
    Inr (s, s2\<lparr>uEqsS := Some (Set_addConjunction (Set_of_decl (mTupleDecl c)) (uEqsC s2))\<rparr>)"
    using s1(1) s2(1) assms by (simp add: accept_Set_def accept_sparse_def accept_conj_def)
  then show thesis
    by (rule that) (simp add: getUsefulEqs_def u Set_addConjunction_def Set_of_decl_def sparse_addConjunction_def
      Conjunction_of_def hasConstraints_def conj_arity_def)
qed

lemma useful_conj_holds:
  assumes "conj_wf c"
  shows "conj_wf (useful_conj c)" "mTupleDecl (useful_conj c) = mTupleDecl c"
    "conj_holds I (useful_conj c) \<longleftrightarrow> decl_holds I (mTupleDecl c) \<and> (\<forall>e \<in> set (constraints_of c). useful e \<longrightarrow> holds_eq I e)"
proof -
  have c: "conj_wf (Conjunction_of (mTupleDecl c))" by (simp add: Conjunction_of_def conj_wf_def)
  have wf: "\<forall>e \<in> set (filter useful (constraints_of c)). wf_exp e" using assms by (auto simp: conj_wf_def constraints_of_def)
  show "conj_wf (useful_conj c)" unfolding useful_conj_def by (rule conj_addEqualities(1)[OF c wf])
  show "conj_holds I (useful_conj c) \<longleftrightarrow> decl_holds I (mTupleDecl c) \<and> (\<forall>e \<in> set (constraints_of c). useful e \<longrightarrow> holds_eq I e)"
    unfolding useful_conj_def conj_addEqualities(2)[OF c wf] by (auto simp: conj_holds_def Conjunction_of_def)
  have "mTupleDecl (foldl addEquality d es) = mTupleDecl d" for d es by (induction es arbitrary: d) (auto simp: addEquality_def Let_def)
  then show "mTupleDecl (useful_conj c) = mTupleDecl c" by (simp add: useful_conj_def Conjunction_of_def)
qed

section \<open>The answer of isl\<close>

text \<open>
  What the parser makes of the text of a hull: one conjunction of equalities without calls, with the points of the hull.
\<close>

definition isl_answers ::
  "'i isl_library \<Rightarrow> ('i \<Rightarrow> interp set) \<Rightarrow> (string \<Rightarrow> set_object result) \<Rightarrow> nat \<Rightarrow> bool" where
  "isl_answers lib den parse n \<longleftrightarrow> (\<forall>x a. parse (isl_printer_get_str lib (isl_set_affine_hull lib x)) = Inr a \<longrightarrow>
     (\<exists>c. a = \<lparr>mConjunctions = [c], mArity = n\<rparr> \<and> plain_conj c \<and> conj_arity c = n \<and> no_calls c \<and> mInequalities c = [] \<and>
       (\<forall>J. conj_holds J c \<longleftrightarrow> J \<in> den (isl_set_affine_hull lib x))))"

lemma detect_terms_plain:
  assumes none: "no_inverses qinv" and uses: "\<forall>u \<in> set uses. rule_use u" "td \<noteq> []" and s1: "plain_sparse n (mConjunctions s1)"
  shows "\<forall>t \<in> set (detect_terms qinv td uses s1). plain_trm t"
proof -
  have top: "\<forall>t \<in> set (top_terms cs). plain_trm t" if "plain_sparse k cs" for k cs
    using that by (fastforce simp: plain_sparse_def top_terms_def plain_conj_exps constraints_of_def plain_exp_terms)
  have side: "plain_sparse (length td) (copied_side qinv td side p)" if h: "rule_side side" "inst_exp (fst p)" "inst_exp (snd p)" for side p
    by (rule copied_side_correct[OF none h uses(2)])
  have "\<forall>t \<in> set (use_terms qinv td u). plain_trm t" if "u \<in> set uses" for u
    using top[OF side[of "mLeftSide (fst u)" "snd u"]] top[OF side[of "mRightSide (fst u)" "snd u"]] uses(1) that
    by (auto simp: use_terms_def rule_use_def)
  with top[OF s1] show ?thesis by (auto simp: detect_terms_def)
qed

lemma map_calls_of_terms:
  assumes "\<forall>t \<in> set ts. plain_trm t"
  shows "ufcall_map_ok (fold affine_step ts UFCallMap)" "\<forall>u \<in> map_calls (fold affine_step ts UFCallMap). plain_trm u"
proof -
  note a = affine_map[OF UFCallMap_ok(1) refl, of ts]
  show "ufcall_map_ok (fold affine_step ts UFCallMap)" by (rule a(1))
  have "\<forall>u \<in> setCoefficient 1 ` set (filter isUFCall ts). plain_trm u" using assms by (auto simp: plain_trm.P_coefficient)
  moreover have "map_calls UFCallMap = {}" by (simp add: map_calls_def UFCallMap_def)
  ultimately show "\<forall>u \<in> map_calls (fold affine_step ts UFCallMap). plain_trm u" using a(3) by blast
qed

section \<open>The whole test\<close>

definition rules_plain :: "set_object environment \<Rightarrow> bool" where
  "rules_plain env \<longleftrightarrow> list_all (\<lambda>r. rule_side (mLeftSide r) \<and> rule_side (mRightSide r)) (uniQuantRules env)"

lemma rule_uses_ok:
  assumes "rules_plain env" "\<forall>e \<in> set es. inst_exp e"
  shows "\<forall>u \<in> set (rule_uses env A es). rule_use u"
  using assms by (auto simp: rules_plain_def list_all_iff rule_uses_def pairs_of_def rule_use_def)

text \<open>What is known of a point: the rules that were used hold, and the calls of the set are within their bounds.\<close>

definition known :: "(string \<Rightarrow> string) \<Rightarrow> set_object environment \<Rightarrow> sparse \<Rightarrow> (set_object uniq_rule \<times> exp \<times> exp) list \<Rightarrow> interp \<Rightarrow> bool" where
  "known qinv env cs uses I \<longleftrightarrow> points_within qinv env True I cs \<and> (\<forall>u \<in> set uses. rule_true I (fst u))"

lemma check_correct:
  assumes laws: "isl_laws lib den" "isl_answers lib den parse n" and s: "mConjunctions s = [c]" "plain_conj c" "mArity s = n"
    and M: "ufcall_map_ok M" "\<forall>u \<in> map_calls M. plain_trm u"
    and points: "\<And>I. conj_holds I c \<Longrightarrow> K I \<Longrightarrow> with_symbols M I I \<in> den iset"
    and run: "checkIslSet lib parse iset M s = Inr res"
  shows "case res of None \<Rightarrow> \<forall>I. \<not> (conj_holds I c \<and> K I)
    | Some r \<Rightarrow> \<forall>I. (sparse_holds I (mConjunctions r) \<longrightarrow> conj_holds I c) \<and> (conj_holds I c \<longrightarrow> K I \<longrightarrow> sparse_holds I (mConjunctions r))"
proof (cases "isl_set_is_empty lib iset")
  case True
  then have "den iset = {}" using laws(1) by (simp add: isl_laws_def)
  moreover have "res = None" using run True by (simp add: checkIslSet_def)
  ultimately show ?thesis using points by auto
next
  case False
  let ?hull = "isl_set_affine_hull lib iset"
  obtain a where a: "parse (isl_printer_get_str lib ?hull) = Inr a" using run False by (auto simp: checkIslSet_def)
  obtain d where d: "a = \<lparr>mConjunctions = [d], mArity = n\<rparr>" "plain_conj d" "conj_arity d = n" "no_calls d" "mInequalities d = []"
    "\<forall>J. conj_holds J d \<longleftrightarrow> J \<in> den ?hull" using laws(2) a unfolding isl_answers_def by blast
  let ?r = "rebuild_conj (reverse_trm M) d"
  have rev: "Set_reverseAffineSubstitution a M = Inr \<lparr>mConjunctions = [?r], mArity = n\<rparr>"
    unfolding d(1) by (rule reverse_visit[OF d(2,4)])
  note rp = reverse_conj_correct[OF d(2,4) M]
  have ineqs: "mInequalities ?r = []"
  proof -
    have "mInequalities (foldl addEquality e es) = mInequalities e" for e es
      by (induction es arbitrary: e) (auto simp: addEquality_def Let_def)
    then show ?thesis by (simp add: rebuild_conj_def build_conj_def d(5) Conjunction_of_def)
  qed
  obtain v where v: "accept_Set VisitorGetUsefulEqs \<lparr>mConjunctions = [?r], mArity = n\<rparr> useful_start =
      Inr (\<lparr>mConjunctions = [?r], mArity = n\<rparr>, v)"
    "getUsefulEqs v = Inr \<lparr>mConjunctions = [useful_conj ?r], mArity = conj_arity ?r\<rparr>"
    by (rule useful_set[of "\<lparr>mConjunctions = [?r], mArity = n\<rparr>" ?r]) simp
  have ar: "conj_arity ?r = n" using d(3) by (simp add: rebuild_conj_def conj_arity_def)
  let ?q = "Conj_Intersect c (useful_conj ?r)"
  have "Set_Intersect s \<lparr>mConjunctions = [useful_conj ?r], mArity = n\<rparr> = Inr \<lparr>mConjunctions = [?q], mArity = n\<rparr>"
    using s(1,3) by (simp add: Set_Intersect_def Set_new_conj Set_addConjunction_def sparse_addConjunction_def)
  then have res: "res = Some \<lparr>mConjunctions = [?q], mArity = n\<rparr>"
    using run False a rev v ar by (simp add: checkIslSet_def)
  have wf: "conj_wf c" "conj_wf ?r" using s(2) rp(1) by (simp_all add: plain_conj_def)
  note u = useful_conj_holds[OF wf(2)]
  have q: "conj_holds I ?q \<longleftrightarrow> conj_holds I c \<and> conj_holds I ((useful_conj ?r)\<lparr>mTupleDecl := []\<rparr>)" for I
    by (rule Conj_Intersect_sound(3)[OF wf(1) u(1)])
  have "conj_holds I ?q" if "conj_holds I c" "K I" for I
  proof -
    have "with_symbols M I I \<in> den ?hull" using points[OF that] laws(1) by (auto simp: isl_laws_def)
    then have "conj_holds I ?r" using d(6) rp(2) by simp
    then have "conj_holds I (useful_conj ?r)" unfolding u(3) using ineqs by (auto simp: conj_holds_def constraints_of_def)
    with that(1) show ?thesis unfolding q by (auto simp: conj_holds_def decl_holds_def)
  qed
  then show ?thesis using q by (simp add: res)
qed

text \<open>C31: Take a set of one conjunction as the library builds it, without declared inverses, with functions
  declared with bounds of one conjunction, rules between sets of one conjunction over two variables, and different symbols
  for different calls and symbolic constants of the set, its bounds and the instances of the rules
  (\<open>symbols_ok\<close>). The library isl is trusted with the laws of its operations and to read what is printed; the
  parser, to read its answer. When \<open>detectUnsatOrFindEqualities\<close> then returns no set, no point of the set is
  one at which the rules that were used hold and the calls of its copy are within their bounds; a set that it returns has
  only points of the original one, and all of those at which they do.\<close>

theorem detectUnsatOrFindEqualities_correct:
  assumes "no_inverses qinv" "plain_sparse n (mConjunctions s)" "mArity s = n" "Set_copy qinv s = Inr s0"
    "all_declared qinv env (mConjunctions s0)" "Set_boundDomainRange qinv env s = Inr s1"
    "sparse_getTupleDecl (mConjunctions s) = Inr td" "accept_Set VisitorGatherAllParameters s [] = Inr (s, es)"
    "rules_plain env" "uses = rule_uses env (all_rules useRule) es" "symbols_ok (detect_terms qinv td uses s1)"
    "isl_laws lib den" "isl_answers lib den parse n"
    "\<And>str parts syms. Set_prettyPrintString qinv (affine_of s1) = Inr str \<Longrightarrow> getPartsFromStr str = Inr parts \<Longrightarrow>
      symsForInstantiationSet s1 (fold affine_step (detect_terms qinv td uses s1) UFCallMap) = Inr syms \<Longrightarrow>
      isl_reads lib den qinv syms parts td uses s1"
    "Set_detectUnsatOrFindEqualities lib parse qinv env s useRule = Inr res"
  shows "case res of
      None \<Rightarrow> \<forall>I. \<not> (sparse_holds I (mConjunctions s) \<and> known qinv env (mConjunctions s0) uses I)
    | Some r \<Rightarrow> \<forall>I. (sparse_holds I (mConjunctions r) \<longrightarrow> sparse_holds I (mConjunctions s)) \<and>
        (sparse_holds I (mConjunctions s) \<longrightarrow> known qinv env (mConjunctions s0) uses I \<longrightarrow> sparse_holds I (mConjunctions r))"
proof -
  obtain c where c: "mConjunctions s = [c]" "plain_conj c" "conj_arity c = n" "mTupleDecl c = td"
    using assms(2,7) short_list[of "mConjunctions s"] by (auto simp: plain_sparse_def sparse_getTupleDecl_def split: list.splits)
  have td: "td \<noteq> []" using c(2,4) by (auto simp: plain_conj_def conj_arity_def)
  obtain es' where "accept_Set VisitorGatherAllParameters s [] = Inr (s, es')" "\<forall>e \<in> set es'. inst_exp e"
    by (rule gather_set[OF assms(2)])
  then have "\<forall>e \<in> set es. inst_exp e" using assms(8) by simp
  then have uses: "\<forall>u \<in> set uses. rule_use u" unfolding assms(10) by (rule rule_uses_ok[OF assms(9)])
  let ?M = "fold affine_step (detect_terms qinv td uses s1) UFCallMap"
  obtain str parts syms insts where r: "Set_prettyPrintString qinv (affine_of s1) = Inr str" "getPartsFromStr str = Inr parts"
    "symsForInstantiationSet s1 ?M = Inr syms" "set insts \<subseteq> {x. \<exists>u \<in> set uses. use_text qinv td u = Inr x}"
    "checkIslSet lib parse (instantiationSet lib parts insts syms) ?M s = Inr res"
    by (rule detect_run[OF assms(1,2,4-8,10) uses td assms(15)])
  note reads = assms(14)[OF r(1-3)]
  note p = detect_points[OF assms(1,2,4-7) uses td assms(11) refl assms(12) reads r(4)]
  have s1: "copied qinv env s True = Inr s1" "True \<longrightarrow> all_declared qinv env (mConjunctions s0)"
    using assms(5,6) by (simp_all add: copied_def)
  have "plain_sparse n (mConjunctions s1)" by (rule copied_points(1)[OF assms(1,2,4) s1(2,1)])
  note M = map_calls_of_terms[OF detect_terms_plain[OF assms(1) uses td this]]
  have "case res of None \<Rightarrow> \<forall>I. \<not> (conj_holds I c \<and> known qinv env (mConjunctions s0) uses I)
    | Some r \<Rightarrow> \<forall>I. (sparse_holds I (mConjunctions r) \<longrightarrow> conj_holds I c) \<and>
        (conj_holds I c \<longrightarrow> known qinv env (mConjunctions s0) uses I \<longrightarrow> sparse_holds I (mConjunctions r))"
    by (rule check_correct[OF assms(12,13) c(1,2) assms(3) M _ r(5)]) (use p(1) c(1) in \<open>simp add: known_def\<close>)
  then show ?thesis by (cases res) (simp_all add: c(1))
qed

text \<open>An example: \<open>{[i, k] : i = col(k)}\<close> where \<open>col\<close> is increasing, with a library that never finds a set empty.\<close>

definition example_rule :: "set_object uniq_rule" where
  "example_rule = \<lparr>mUniQuantRuleType = Monotonicity,
     mLeftSide = \<lparr>mConjunctions = [(Conjunction_new 2 0)\<lparr>mInequalities :=
       [Exp [TupleVarTerm (-1) 0, TupleVarTerm 1 1, Term (-1)] Inequality]\<rparr>], mArity = 2\<rparr>,
     mRightSide = \<lparr>mConjunctions = [(Conjunction_new 2 0)\<lparr>mInequalities :=
       [Exp [UFCallTerm (-1) ''col'' [Exp [TupleVarTerm 1 0] Expression] (-1),
             UFCallTerm 1 ''col'' [Exp [TupleVarTerm 1 1] Expression] (-1), Term (-1)] Inequality]\<rparr>], mArity = 2\<rparr>\<rparr>"

definition rule_env :: "set_object environment" where
  "rule_env = example_env\<lparr>uniQuantRules := [example_rule]\<rparr>"

definition example_td :: tuple_decl where
  "example_td = mTupleDecl example_conj"

definition example_uses :: "(set_object uniq_rule \<times> exp \<times> exp) list" where
  "example_uses = rule_uses rule_env (all_rules None) [Exp [TupleVarTerm 1 1] Expression]"

definition example_parts :: srParts where
  "example_parts = \<lparr>symVars = [], sC = ''{'', tupDecl = '' [tv0, tv1] '', sepC = '':'', constraints =
     '' tv0 - col___tv1_ = 0 && tv1 >= 0 && col___tv1_ >= 0 && -tv1 + nnz - 1 >= 0 && -col___tv1_ + n - 1 >= 0 '', eC = ''}''\<rparr>"

definition example_isl :: "(interp \<Rightarrow> bool) isl_library" where
  "example_isl = \<lparr>isl_set_read_from_str = \<lambda>t J. t \<noteq> isl_side ''[n, nnz, col___tv1_] -> '' example_parts ''-1 >= 0'' \<and>
       sparse_holds J (mConjunctions (affine_of example_bounded)),
     isl_set_gist = \<lambda>a b. a, isl_set_plain_is_universe = \<lambda>a. False, isl_set_intersect = \<lambda>a b J. a J \<and> b J,
     isl_set_coalesce = \<lambda>a. a, isl_set_complement = \<lambda>a J. \<not> a J, isl_set_is_empty = \<lambda>a. False,
     isl_set_is_equal = \<lambda>a b. True, isl_set_affine_hull = \<lambda>a J. True, isl_printer_get_str = \<lambda>a. ''{ [i, k] }''\<rparr>"

definition example_parse :: "string \<Rightarrow> set_object result" where
  "example_parse t = Inr \<lparr>mConjunctions = [Conjunction_new 2 0], mArity = 2\<rparr>"

lemma example_isl_facts: "isl_laws example_isl Collect" "isl_answers example_isl Collect example_parse 2"
proof -
  show "isl_laws example_isl Collect" by (auto simp: isl_laws_def example_isl_def)
  have "plain_conj (Conjunction_new 2 0)" "conj_arity (Conjunction_new 2 0) = 2" "no_calls (Conjunction_new 2 0)"
    "mInequalities (Conjunction_new 2 0) = []" by code_simp+
  moreover have "conj_holds J (Conjunction_new 2 0)" for J
    by (simp add: conj_holds_def decl_holds_def Conjunction_new_def Conjunction_of_def TupleDecl_new_def)
  ultimately show "isl_answers example_isl Collect example_parse 2"
    by (auto simp: isl_answers_def example_parse_def example_isl_def)
qed

lemma example_detect_facts:
  "all_declared (\<lambda>f. '''') rule_env (mConjunctions example_copy)"
  "Set_boundDomainRange (\<lambda>f. '''') rule_env example_set = Inr example_bounded"
  "sparse_getTupleDecl (mConjunctions example_set) = Inr example_td"
  "accept_Set VisitorGatherAllParameters example_set [] = Inr (example_set, [Exp [TupleVarTerm 1 1] Expression])"
  "rules_plain rule_env" "symbols_ok (detect_terms (\<lambda>f. '''') example_td example_uses example_bounded)"
  "symsForInstantiationSet example_bounded
     (fold affine_step (detect_terms (\<lambda>f. '''') example_td example_uses example_bounded) UFCallMap) = Inr ''[n, nnz, col___tv1_] -> ''"
  "bind_result (Set_prettyPrintString (\<lambda>f. '''') (affine_of example_bounded)) getPartsFromStr = Inr example_parts"
  "map (use_text (\<lambda>f. '''') example_td) example_uses = [Inr (''-1 >= 0'', ''-1 >= 0'')]"
  by code_simp+

lemma example_sides:
  assumes "u \<in> set example_uses"
  shows "\<not> sparse_holds J (mConjunctions (affine_side (\<lambda>f. '''') example_td (mLeftSide (fst u)) (snd u)))"
    "\<not> sparse_holds J (mConjunctions (affine_side (\<lambda>f. '''') example_td (mRightSide (fst u)) (snd u)))"
proof -
  have "example_uses = [(example_rule, Exp [TupleVarTerm 1 1] Expression, Exp [TupleVarTerm 1 1] Expression)]" by code_simp
  then have "u \<in> set [(example_rule, Exp [TupleVarTerm 1 1] Expression, Exp [TupleVarTerm 1 1] Expression)]"
    using assms by (rule subst)
  then have u: "u = (example_rule, Exp [TupleVarTerm 1 1] Expression, Exp [TupleVarTerm 1 1] Expression)" by simp
  let ?s = "\<lparr>mConjunctions = [(Conjunction_new 2 0)\<lparr>mInequalities := [Exp [Term (-1)] Inequality]\<rparr>], mArity = 2\<rparr>"
  have "affine_side (\<lambda>f. '''') example_td (mLeftSide example_rule) (Exp [TupleVarTerm 1 1] Expression, Exp [TupleVarTerm 1 1] Expression) = ?s"
    "affine_side (\<lambda>f. '''') example_td (mRightSide example_rule) (Exp [TupleVarTerm 1 1] Expression, Exp [TupleVarTerm 1 1] Expression) = ?s"
    by code_simp+
  then show "\<not> sparse_holds J (mConjunctions (affine_side (\<lambda>f. '''') example_td (mLeftSide (fst u)) (snd u)))"
    "\<not> sparse_holds J (mConjunctions (affine_side (\<lambda>f. '''') example_td (mRightSide (fst u)) (snd u)))"
    by (simp_all add: u conj_holds_def holds_ineq_def)
qed

lemma example_instances:
  "ruleInstantiation (\<lambda>f. '''') rule_env [Exp [TupleVarTerm 1 1] Expression] None example_td UFCallMap
    = Inr ([(''-1 >= 0'', ''-1 >= 0'')], UFCallMap)"
  by code_simp

lemma example_detect_run:
  "Set_detectUnsatOrFindEqualities example_isl example_parse (\<lambda>f. '''') rule_env example_set None =
     Inr (Some \<lparr>mConjunctions = [example_conj], mArity = 2\<rparr>)"
proof -
  let ?M = "fold affine_step (top_terms (mConjunctions example_bounded)) UFCallMap"
  have bounded: "copied (\<lambda>f. '''') rule_env example_set True = Inr example_bounded"
    "True \<longrightarrow> all_declared (\<lambda>f. '''') rule_env (mConjunctions example_copy)"
    using example_detect_facts(1,2) by (simp_all add: copied_def)
  have "mArity example_bounded = mArity example_set" by (rule copied_points(2)[OF example_facts(1-3) bounded(2,1)])
  with superAffineSet_value[OF example_facts(1-3) bounded(2,1) UFCallMap_ok(1)]
  have sup: "superAffineSet (\<lambda>f. '''') rule_env example_set UFCallMap True = Inr (affine_of example_bounded, ?M)"
    by (simp add: affine_of_def)
  obtain str where str: "Set_prettyPrintString (\<lambda>f. '''') (affine_of example_bounded) = Inr str" "getPartsFromStr str = Inr example_parts"
    using example_detect_facts(8) by (auto simp: bind_result_def split: sum.splits)
  have M: "?M = fold affine_step (detect_terms (\<lambda>f. '''') example_td example_uses example_bounded) UFCallMap" by code_simp
  have run: "Set_detectUnsatOrFindEqualities example_isl example_parse (\<lambda>f. '''') rule_env example_set None =
    checkIslSet example_isl example_parse (instantiationSet example_isl example_parts [(''-1 >= 0'', ''-1 >= 0'')] ''[n, nnz, col___tv1_] -> '') ?M example_set"
    using example_detect_facts(2-4,7) example_instances sup str M by (simp add: Set_detectUnsatOrFindEqualities_def)
  have rev: "Set_reverseAffineSubstitution \<lparr>mConjunctions = [Conjunction_new 2 0], mArity = 2\<rparr> ?M =
      Inr \<lparr>mConjunctions = [Conjunction_new 2 0], mArity = 2\<rparr>"
    "bind_result (accept_Set VisitorGetUsefulEqs \<lparr>mConjunctions = [Conjunction_new 2 0], mArity = 2\<rparr> useful_start) (\<lambda>(eQs, v).
        bind_result (getUsefulEqs v) (\<lambda>uEqs. bind_result (Set_Intersect example_set uEqs) (\<lambda>result. Inr (Some result)))) =
      Inr (Some \<lparr>mConjunctions = [example_conj], mArity = 2\<rparr>)"
    by code_simp+
  show ?thesis unfolding run using rev by (simp add: checkIslSet_def example_isl_def example_parse_def)
qed

theorem detectUnsatOrFindEqualities_correct_witness:
  "\<forall>I. (sparse_holds I [example_conj] \<longrightarrow> sparse_holds I (mConjunctions example_set)) \<and>
     (sparse_holds I (mConjunctions example_set) \<longrightarrow>
       known (\<lambda>f. '''') rule_env (mConjunctions example_copy) example_uses I \<longrightarrow> sparse_holds I [example_conj])"
proof -
  have reads: "isl_reads example_isl Collect (\<lambda>f. '''') syms parts example_td example_uses example_bounded"
    if "Set_prettyPrintString (\<lambda>f. '''') (affine_of example_bounded) = Inr str" "getPartsFromStr str = Inr parts"
      "symsForInstantiationSet example_bounded
        (fold affine_step (detect_terms (\<lambda>f. '''') example_td example_uses example_bounded) UFCallMap) = Inr syms"
    for str parts syms
  proof -
    have p: "parts = example_parts" "syms = ''[n, nnz, col___tv1_] -> ''" using that example_detect_facts(7,8) by simp_all
    have lr: "l = ''-1 >= 0'' \<and> r = ''-1 >= 0''" if "u \<in> set example_uses" "use_text (\<lambda>f. '''') example_td u = Inr (l, r)" for u l r
    proof -
      have "Inr (l, r) \<in> set (map (use_text (\<lambda>f. '''') example_td) example_uses)" using that by (metis imageI list.set_map)
      then show ?thesis unfolding example_detect_facts(9) by simp
    qed
    have "isl_side syms example_parts (constraints example_parts) \<noteq> isl_side syms example_parts ''-1 >= 0''"
      by (simp add: isl_side_def example_parts_def)
    then have base: "Collect (isl_set_read_from_str example_isl (isl_side syms parts (constraints parts))) =
      {J. sparse_holds J (mConjunctions (affine_of example_bounded))}" by (simp add: example_isl_def p)
    have "Collect (isl_set_read_from_str example_isl (isl_side syms parts ''-1 >= 0'')) = {}" by (simp add: example_isl_def p)
    then have "Collect (isl_set_read_from_str example_isl (isl_side syms parts l)) =
        {J. sparse_holds J (mConjunctions (affine_side (\<lambda>f. '''') example_td (mLeftSide (fst u)) (snd u)))} \<and>
      Collect (isl_set_read_from_str example_isl (isl_side syms parts r)) =
        {J. sparse_holds J (mConjunctions (affine_side (\<lambda>f. '''') example_td (mRightSide (fst u)) (snd u)))}"
      if "u \<in> set example_uses" "use_text (\<lambda>f. '''') example_td u = Inr (l, r)" for u l r
      using lr[OF that] example_sides[OF that(1)] by simp
    with base show ?thesis unfolding isl_reads_def Let_def by blast
  qed
  from detectUnsatOrFindEqualities_correct[OF example_facts(1,2) _ example_facts(3) example_detect_facts(1-5) _
      example_detect_facts(6) example_isl_facts reads example_detect_run]
  show ?thesis by (simp add: example_set_def example_uses_def)
qed

end
