(* ===== verification/Solver_Text.thy ===== *)
theory Solver_Text
  imports Detect
begin

text \<open>
  The text of sets for people and for a solver: \<open>getString\<close> and \<open>getZ3form\<close> of \<open>set_relation.cc\<close> with their
  visitors, \<open>UniQuantRule::toString\<close>, \<open>UniQuantRule::getZ3Form\<close> and \<open>getUQRForFuncDomainRange\<close> of
  \<open>environment.cc\<close>.
\<close>

section \<open>Text with the terms on both sides\<close>

definition const_of :: "exp \<Rightarrow> bool \<times> int" where
  "const_of e = foldl (\<lambda>(haveConstT, constT) t. if isConst_term t then (True, coefficient t) else (haveConstT, constT))
     (False, 0) (mTerms e)"

definition left_terms :: "exp \<Rightarrow> trm list" where
  "left_terms e = rev (filter (\<lambda>t. \<not> isConst_term t \<and> coefficient t < 0) (mTerms e))"

definition right_terms :: "exp \<Rightarrow> trm list" where
  "right_terms e = rev (filter (\<lambda>t. \<not> isConst_term t \<and> \<not> coefficient t < 0) (mTerms e))"

definition side_terms :: "tuple_decl \<Rightarrow> trm list \<Rightarrow> string result" where
  "side_terms td ts = bind_result (map_result (\<lambda>t. pretty_trm td t True) ts) (\<lambda>ss. Inr (concat ss))"

text \<open>The middle of a constraint: the constant on the left and the comparison.\<close>

definition comparison_text :: "exptype \<Rightarrow> bool \<Rightarrow> bool \<Rightarrow> int \<Rightarrow> string" where
  "comparison_text et leftEmpty haveConstT constT =
     (if et = Equality then
        (if haveConstT \<and> constT < 0 then (if leftEmpty then '''' else '' + '') @ show_int (constT * (-1)) else '''') @ '' = ''
      else if et = Inequality then
        (if haveConstT \<and> constT < 0 then
           (let tempT = constT * (-1) - 1 in
             (if tempT \<noteq> 0 then (if leftEmpty then '''' else '' + '') @ show_int tempT
              else if tempT = 0 \<and> leftEmpty then ''0'' else '''') @ '' < '')
         else if haveConstT \<and> constT > 0 \<and> leftEmpty then show_int (constT * (-1) - 1) @ '' < ''
         else '' <= '')
      else '''')"

definition right_text :: "exptype \<Rightarrow> bool \<Rightarrow> bool \<Rightarrow> bool \<Rightarrow> int \<Rightarrow> string" where
  "right_text et leftEmpty rightEmpty haveConstT constT =
     (if et = Equality \<and> haveConstT \<and> constT > 0 then (if leftEmpty then '''' else '' + '') @ show_int constT
      else if et = Inequality \<and> haveConstT \<and> constT > 0 \<and> \<not> leftEmpty then
        (if rightEmpty then '''' else '' + '') @ show_int constT
      else '''')"

definition getString_exp :: "tuple_decl \<Rightarrow> exp \<Rightarrow> string result" where
  "getString_exp td e =
     (let (haveConstT, constT) = const_of e; leftSide = left_terms e; rightSide = right_terms e in
      bind_result (side_terms td leftSide) (\<lambda>l.
      bind_result (side_terms td rightSide) (\<lambda>r.
        Inr (l @ (if leftSide = [] \<and> \<not> haveConstT then ''0'' else '''') @
             comparison_text (mExpType e) (leftSide = []) haveConstT constT @
             r @ (if rightSide = [] \<and> \<not> haveConstT then ''0'' else '''') @
             right_text (mExpType e) (leftSide = []) (rightSide = []) haveConstT constT))))"

text \<open>\<open>aTupleDecl\<close> and \<open>aritySplit\<close> are set before they are used.\<close>

record string_state =
  str :: string
  aTupleDecl :: tuple_decl
  split_at :: nat
  firstConj :: bool
  firstExp :: bool

definition empty_text :: "nat \<Rightarrow> nat \<Rightarrow> string result" where
  "empty_text arity aritySplit = bind_result (sDefaultTupleDecl arity) (\<lambda>td.
     Inr (''{ '' @ tuple_decl_toString td True aritySplit @ '' : FALSE }''))"

definition VisitorGetString :: "string_state visitor" where
  "VisitorGetString = base_Visitor\<lparr>
     preVisitExp := \<lambda>e s.
       if mExpType e = Expression then Inr s
       else bind_result (getString_exp (aTupleDecl s) e) (\<lambda>t.
         Inr (s\<lparr>str := str s @ (if firstExp s then '''' else '' && '') @ t, firstExp := False\<rparr>)),
     preVisitConjunction := \<lambda>c s. Inr
       (s\<lparr>aTupleDecl := mTupleDecl c, firstConj := False, firstExp := True,
         str := str s @ (if firstConj s then '''' else '' union '') @
           ''{ '' @ tuple_decl_toString (mTupleDecl c) True (split_at s) @ '' : ''\<rparr>),
     postVisitConjunction := \<lambda>c s. Inr (c, s\<lparr>str := str s @ '' }''\<rparr>),
     preVisitSet := \<lambda>x s. (if length (mConjunctions x) = 0
       then bind_result (empty_text (mArity x) 0) (\<lambda>t. Inr (s\<lparr>split_at := 0, str := t\<rparr>))
       else Inr (s\<lparr>split_at := 0\<rparr>)),
     preVisitRelation := \<lambda>r s. (if length (rConjunctions r) = 0
       then bind_result (empty_text (rInArity r + rOutArity r) (rInArity r)) (\<lambda>t. Inr (s\<lparr>split_at := rInArity r, str := t\<rparr>))
       else Inr (s\<lparr>split_at := rInArity r\<rparr>))\<rparr>"

definition string_start :: string_state where
  "string_start = \<lparr>str = '''', aTupleDecl = [], split_at = 0, firstConj = True, firstExp = True\<rparr>"

definition Set_getString :: "set_object \<Rightarrow> string result" where
  "Set_getString s = bind_result (accept_Set VisitorGetString s string_start) (\<lambda>(s, v). Inr (str v))"

definition Relation_getString :: "relation_object \<Rightarrow> string result" where
  "Relation_getString r = bind_result (accept_Relation VisitorGetString r string_start) (\<lambda>(r, v). Inr (str v))"

section \<open>Constraints for a solver\<close>

definition VisitorGetVarTerms :: "string list visitor" where
  "VisitorGetVarTerms = base_Visitor\<lparr>
     preVisitVarTerm := \<lambda>t vtTs. Inr (insert_unique (<) (toString_trm t True) vtTs)\<rparr>"

text \<open>The fields of \<open>VisitorGetZ3form\<close>; those that the constructor does not set are set before they are used.\<close>

record z3_state =
  z3_decl :: tuple_decl
  cc :: int
  tvTs :: "string list"
  vtTs :: "string list"
  ufsTs :: "string list"
  expZ3Form :: "string list"
  conjZ3Form :: "string list"
  z3Form :: "string list"
  z3_constT :: int
  leftSide :: string
  rightSide :: string
  z3_level :: int
  UFparamT :: string
  UFparamExp :: string

definition z3_start :: "string list \<Rightarrow> string list \<Rightarrow> z3_state" where
  "z3_start inUfsTs inVtTs = \<lparr>z3_decl = [], cc = 1, tvTs = [], vtTs = inVtTs, ufsTs = inUfsTs, expZ3Form = [],
     conjZ3Form = [], z3Form = [], z3_constT = 0, leftSide = '''', rightSide = '''', z3_level = 0, UFparamT = '''', UFparamExp = ''''\<rparr>"

text \<open>A term that is not in an argument is a side of the constraint, by the sign of its coefficient.\<close>

definition z3_side :: "int \<Rightarrow> string \<Rightarrow> z3_state \<Rightarrow> z3_state" where
  "z3_side coeff t s = (if coeff < 0 then s\<lparr>leftSide := t\<rparr> else s\<lparr>rightSide := t\<rparr>)"

definition z3_var :: "int \<Rightarrow> string \<Rightarrow> z3_state \<Rightarrow> z3_state" where
  "z3_var coeff t s = (if z3_level s = 0 then z3_side coeff t s else s\<lparr>UFparamT := t\<rparr>)"

definition z3_enter_call :: "trm \<Rightarrow> z3_state \<Rightarrow> z3_state" where
  "z3_enter_call t s =
     (let f = (case t of UFCallTerm c f args i \<Rightarrow> f | _ \<Rightarrow> '''');
          s = s\<lparr>ufsTs := insert_unique (<) f (ufsTs s)\<rparr>;
          s = (if z3_level s = 0 then s\<lparr>UFparamT := '''', UFparamExp := ''''\<rparr> else s)
      in s\<lparr>z3_level := z3_level s + 1\<rparr>)"

definition z3_leave_call :: "trm \<Rightarrow> z3_state \<Rightarrow> z3_state" where
  "z3_leave_call t s =
     (let f = (case t of UFCallTerm c f args i \<Rightarrow> f | _ \<Rightarrow> '''');
          s = s\<lparr>z3_level := z3_level s - 1\<rparr>;
          text = ''('' @ f @ '' '' @ UFparamExp s @ '')''
      in if z3_level s = 0 then z3_side (coefficient t) text s else s\<lparr>UFparamExp := text\<rparr>)"

definition z3_constraint :: "bool \<Rightarrow> z3_state \<Rightarrow> string" where
  "z3_constraint equality s =
     (let (comp, constT) = (if equality then (''='', z3_constT s) else if z3_constT s = 0 then (''<='', 0) else (''<'', z3_constT s + 1));
          l = (if leftSide s = '''' then ''0'' else leftSide s); r = (if rightSide s = '''' then ''0'' else rightSide s)
      in if constT = 0 then ''('' @ comp @ '' '' @ l @ '' '' @ r @ '')''
         else if constT < 0 then ''('' @ comp @ '' (+ '' @ l @ '' '' @ show_int (constT * (-1)) @ '') '' @ r @ '')''
         else ''('' @ comp @ '' '' @ l @ '' (+ '' @ r @ '' '' @ show_int constT @ '') )'')"

definition z3_argument :: "trm option \<Rightarrow> z3_state \<Rightarrow> string" where
  "z3_argument cons s = (case cons of
     None \<Rightarrow> if UFparamExp s = '''' then UFparamT s else UFparamExp s
   | Some c \<Rightarrow> ''(+ '' @ (if UFparamExp s = '''' then UFparamT s else UFparamExp s) @ '' '' @ show_int (coefficient c) @ '')'')"

definition z3_leave_sparse :: "bool \<Rightarrow> z3_state \<Rightarrow> z3_state result" where
  "z3_leave_sparse termDef s =
     (if termDef then
        let s = s\<lparr>z3Form := z3Form s @ map (\<lambda>t. ''(declare-const '' @ t @ '' Int)'') (tvTs s)\<rparr>
        in Inr (foldl (\<lambda>s t. s\<lparr>z3Form := z3Form s @ [''(assert (! '' @ t @ '' :named c1'' @ show_int (cc s) @ '') )''], cc := cc s + 1\<rparr>)
          s (conjZ3Form s))
      else (case conjZ3Form s of
          [] \<Rightarrow> Inl (Undefined ''vector index out of bounds'')
        | t # _ \<Rightarrow> Inr (s\<lparr>z3Form := z3Form s @ [''(assert '' @ t @ '' )'']\<rparr>)))"

definition VisitorGetZ3form :: "bool \<Rightarrow> z3_state visitor" where
  "VisitorGetZ3form termDef = base_Visitor\<lparr>
     preVisitTerm := \<lambda>t s. Inr (if z3_level s > 0 then s else s\<lparr>z3_constT := coefficient t\<rparr>),
     preVisitUFCallTerm := \<lambda>t s. Inr (z3_enter_call t s),
     postVisitUFCallTerm := \<lambda>t s. Inr (t, z3_leave_call t s),
     preVisitTupleVarTerm := \<lambda>t s. bind_result (pretty_trm (z3_decl s) t True) (\<lambda>v.
       Inr (t, z3_var (coefficient t) v (s\<lparr>tvTs := insert_unique (<) v (tvTs s)\<rparr>))),
     preVisitVarTerm := \<lambda>t s.
       let v = toString_trm t True in Inr (z3_var (coefficient t) v (s\<lparr>vtTs := insert_unique (<) v (vtTs s)\<rparr>)),
     preVisitExp := \<lambda>e s. Inr (if mExpType e \<noteq> Expression
       then s\<lparr>leftSide := '''', rightSide := '''', z3_constT := 0, z3_level := 0\<rparr> else s),
     postVisitExp := \<lambda>e s. Inr (if mExpType e \<noteq> Expression
       then s\<lparr>expZ3Form := expZ3Form s @ [z3_constraint (mExpType e = Equality) s]\<rparr>
       else s\<lparr>UFparamExp := z3_argument (getConstTerm e) s\<rparr>),
     preVisitConjunction := \<lambda>c s. Inr (s\<lparr>z3_decl := mTupleDecl c, expZ3Form := []\<rparr>),
     postVisitConjunction := \<lambda>c s. Inr (c,
       if length (expZ3Form s) > 0 then
         (if termDef then s\<lparr>conjZ3Form := conjZ3Form s @ expZ3Form s\<rparr>
          else s\<lparr>conjZ3Form := conjZ3Form s @ [''(and'' @ concat (map (\<lambda>t. '' '' @ t) (expZ3Form s)) @ '' )'']\<rparr>)
       else s),
     preVisitSparseConstraints := \<lambda>cs s. Inr (s\<lparr>conjZ3Form := []\<rparr>),
     postVisitSparseConstraints := \<lambda>cs s. z3_leave_sparse termDef s\<rparr>"

text \<open>The sets of function and symbol names come in and go out.\<close>

definition getZ3form ::
  "sparse \<Rightarrow> string list \<Rightarrow> string list \<Rightarrow> bool \<Rightarrow> (string list \<times> string list \<times> string list) result" where
  "getZ3form cs UFSyms VarSyms termDef =
     bind_result (accept_sparse (VisitorGetZ3form termDef) cs (z3_start UFSyms VarSyms)) (\<lambda>(cs, v).
       Inr (z3Form v, ufsTs v, vtTs v))"

section \<open>Rules for a solver\<close>

fun contains :: "string \<Rightarrow> string \<Rightarrow> bool" where
  "contains pat [] \<longleftrightarrow> pat = []"
| "contains pat (c # s) \<longleftrightarrow> take (length pat) (c # s) = pat \<or> contains pat s"

definition UniQuantRule_toString :: "(string \<Rightarrow> string) \<Rightarrow> set_object uniq_rule \<Rightarrow> string result" where
  "UniQuantRule_toString qinv r =
     bind_result (bind_result (Set_prettyPrintString qinv (mLeftSide r)) getPartsFromStr) (\<lambda>l.
     bind_result (bind_result (Set_prettyPrintString qinv (mRightSide r)) getPartsFromStr) (\<lambda>p.
     bind_result (sparse_getTupleDecl (mConjunctions (mLeftSide r))) (\<lambda>td.
       Inr (''Forall '' @ tuple_decl_toString td False 0 @ ''  '' @ constraints l @ '' => '' @ constraints p))))"

text \<open>The first assertion that is a conjunction, without \<open>(assert \<close> and the last bracket.\<close>

definition and_text :: "string list \<Rightarrow> string" where
  "and_text ts = (case filter (contains ''(assert (and '') ts of [] \<Rightarrow> ''()'' | t # _ \<Rightarrow> butlast (drop 8 t))"

definition UniQuantRule_getZ3Form ::
  "set_object uniq_rule \<Rightarrow> string list \<Rightarrow> string list \<Rightarrow> int \<Rightarrow> (string \<times> string list \<times> string list) result" where
  "UniQuantRule_getZ3Form r relevantUFSs glVarSyms n =
     (if relevantUFSs = [] then Inr ('''', relevantUFSs, glVarSyms)
      else
        bind_result (sparse_getTupleDecl (mConjunctions (mLeftSide r))) (\<lambda>tupleDecl.
        bind_result (map_result (\<lambda>i. bind_result (elemToString tupleDecl i) (\<lambda>e. Inr (''('' @ e @ '' Int) '')))
            [0..<length tupleDecl]) (\<lambda>vars.
        bind_result (getZ3form (mConjunctions (mLeftSide r)) [] [] False) (\<lambda>(leftSideZ3, UFSyms, apVarSyms).
        bind_result (getZ3form (mConjunctions (mRightSide r)) UFSyms apVarSyms False) (\<lambda>(rightSideZ3, UFSyms, apVarSyms).
          let z3Str = ''(assert (! (forall ( '' @ concat vars @ '') (=> '' @ and_text leftSideZ3 @ and_text rightSideZ3 @
                '') )  :named a'' @ show_int n @ '') )'';
              found = list_ex (\<lambda>f. f \<in> set relevantUFSs \<or> f = ''ALL_UFSs'') UFSyms
          in Inr (if \<not> found then ('''', relevantUFSs, glVarSyms)
                  else (z3Str, insert_names relevantUFSs UFSyms, insert_names glVarSyms apVarSyms)))))))"

text \<open>\<open>std::string::find\<close> of a string from a position on, and \<open>replace\<close>, which throws behind the end.\<close>

fun find_from :: "string \<Rightarrow> nat \<Rightarrow> string \<Rightarrow> nat option" where
  "find_from pat n [] = (if pat = [] then Some n else None)"
| "find_from pat n (c # s) = (if take (length pat) (c # s) = pat then Some n else find_from pat (Suc n) s)"

definition string_find :: "string \<Rightarrow> string \<Rightarrow> nat \<Rightarrow> nat option" where
  "string_find s pat pos = (if length s < pos then None else find_from pat pos (drop pos s))"

definition string_replace :: "string \<Rightarrow> nat option \<Rightarrow> nat \<Rightarrow> string \<Rightarrow> string result" where
  "string_replace s pos n t = (case pos of
     None \<Rightarrow> Inl (Out_of_range ''basic_string::replace'')
   | Some p \<Rightarrow> if length s < p then Inl (Out_of_range ''basic_string::replace'') else Inr (take p s @ t @ drop (p + n) s))"

text \<open>The name of the range variable is replaced by the call, at its first two places.\<close>

definition range_of_call :: "string \<Rightarrow> string \<Rightarrow> string \<Rightarrow> string result" where
  "range_of_call range_const_str rtv ufc =
     (let found = string_find range_const_str rtv 0 in
      bind_result (string_replace range_const_str found (length rtv) ufc) (\<lambda>s.
        case found of
          None \<Rightarrow> Inr s
        | Some p \<Rightarrow> if p < length s then string_replace s (string_find s rtv (p + 1)) (length rtv) ufc else Inr s))"

definition getUQRForFuncDomainRange ::
  "(string \<Rightarrow> set_object) \<Rightarrow> (string \<Rightarrow> string) \<Rightarrow> set_object environment \<Rightarrow> string \<Rightarrow> set_object uniq_rule result" where
  "getUQRForFuncDomainRange parse qinv env func =
     bind_result (bind_result (queryDomainCurrEnv env func) (Set_copy qinv)) (\<lambda>domain.
     bind_result (bind_result (queryRangeCurrEnv env func) (Set_copy qinv)) (\<lambda>range'.
     bind_result (bind_result (Set_getString domain) getPartsFromStr) (\<lambda>domain_parts.
     bind_result (bind_result (Set_getString range') getPartsFromStr) (\<lambda>range_parts.
     bind_result (tupVarsExtract (tupDecl domain_parts) (mArity domain) 0) (\<lambda>dtd_its.
     bind_result (tupVarsExtract (tupDecl range_parts) (mArity range') 0) (\<lambda>rtd_its.
       (case (dtd_its, rtd_its) of
          (d # _, rtv # _) \<Rightarrow>
            bind_result (range_of_call (constraints range_parts) rtv (func @ ''('' @ d @ '')'')) (\<lambda>range_const_str.
              Inr (UniQuantRule parse ''DomainRange'' (tupDecl domain_parts) (constraints domain_parts) range_const_str))
        | _ \<Rightarrow> Inl (Undefined ''front of an empty queue''))))))))"

end
