(* ===== verification/Solver_Correct.thy ===== *)
theory Solver_Correct
  imports Solver_Text
begin

text \<open>
  What the text for the solver says. Constraints of at most one term on each side, with nested calls of one
  argument, become assertions that hold at the same points; other constraints lose terms.
\<close>

section \<open>Terms of the solver\<close>

datatype smt = SInt int | SName string | SPlus smt int | SCall string smt

fun smt_text :: "smt \<Rightarrow> string" where
  "smt_text (SInt n) = show_int n"
| "smt_text (SName x) = x"
| "smt_text (SPlus a k) = ''(+ '' @ smt_text a @ '' '' @ show_int k @ '')''"
| "smt_text (SCall f a) = ''('' @ f @ '' '' @ smt_text a @ '')''"

fun smt_eval :: "(string \<Rightarrow> int) \<Rightarrow> (string \<Rightarrow> int \<Rightarrow> int) \<Rightarrow> smt \<Rightarrow> int" where
  "smt_eval V U (SInt n) = n"
| "smt_eval V U (SName x) = V x"
| "smt_eval V U (SPlus a k) = smt_eval V U a + k"
| "smt_eval V U (SCall f a) = U f (smt_eval V U a)"

fun smt_names :: "smt \<Rightarrow> string set" and smt_calls :: "smt \<Rightarrow> string set" where
  "smt_names (SInt n) = {}"
| "smt_names (SName x) = {x}"
| "smt_names (SPlus a k) = smt_names a"
| "smt_names (SCall f a) = smt_names a"
| "smt_calls (SInt n) = {}"
| "smt_calls (SName x) = {}"
| "smt_calls (SPlus a k) = smt_calls a"
| "smt_calls (SCall f a) = insert f (smt_calls a)"

text \<open>The term of the solver for a term without its sign, where there is one.\<close>

fun smt_of_trm :: "tuple_decl \<Rightarrow> trm \<Rightarrow> smt option" and smt_of_arg :: "tuple_decl \<Rightarrow> exp \<Rightarrow> smt option" where
  "smt_of_trm td (Term c) = None"
| "smt_of_trm td (VarTerm c x) = (if \<bar>c\<bar> = 1 \<and> x \<noteq> '''' then Some (SName x) else None)"
| "smt_of_trm td (TupleVarTerm c l) =
     (case declared_name td l of Inr x \<Rightarrow> if \<bar>c\<bar> = 1 \<and> x \<noteq> '''' then Some (SName x) else None | Inl e \<Rightarrow> None)"
| "smt_of_trm td (UFCallTerm c f args i) =
     (case args of [a] \<Rightarrow> if \<bar>c\<bar> = 1 \<and> i = -1 then map_option (SCall f) (smt_of_arg td a) else None | _ \<Rightarrow> None)"
| "smt_of_arg td (Exp ts et) =
     (if et \<noteq> Expression then None
      else case ts of
        [t] \<Rightarrow> if coefficient t = 1 then smt_of_trm td t else None
      | [t, u] \<Rightarrow>
          if isConst_term u \<and> coefficient t = 1 then map_option (\<lambda>a. SPlus a (coefficient u)) (smt_of_trm td t)
          else if isConst_term t \<and> coefficient u = 1 then map_option (\<lambda>a. SPlus a (coefficient t)) (smt_of_trm td u)
          else None
      | _ \<Rightarrow> None)"

lemma smt_text_nonempty: "smt_of_trm td t = Some a \<Longrightarrow> smt_text a \<noteq> ''''"
  by (cases t) (auto split: if_splits sum.splits list.splits)

text \<open>The values agree where the names of the solver have the values of variables and symbols.\<close>

definition agrees :: "tuple_decl \<Rightarrow> string set \<Rightarrow> (string \<Rightarrow> int) \<Rightarrow> interp \<Rightarrow> bool" where
  "agrees td S V I \<longleftrightarrow> (\<forall>l x. declared_name td l = Inr x \<longrightarrow> V x = tv I l) \<and> (\<forall>x \<in> S. V x = sym I x)"

definition unary :: "interp \<Rightarrow> string \<Rightarrow> int \<Rightarrow> int" where
  "unary I f x = uf I f 0 [x]"

lemma isConst_Term: "isConst_term t \<longleftrightarrow> (\<exists>c. t = Term c)"
  by (cases t) (simp_all add: isConst_term_def)

lemma smt_value:
  "smt_of_trm td t = Some a \<Longrightarrow> agrees td S V I \<Longrightarrow> symbols_trm t \<subseteq> S \<Longrightarrow>
    eval_trm I t = coefficient t * smt_eval V (unary I) a"
  "smt_of_arg td e = Some b \<Longrightarrow> agrees td S V I \<Longrightarrow> symbols_exp e \<subseteq> S \<Longrightarrow> eval_exp I e = smt_eval V (unary I) b"
proof (induction td t and td e arbitrary: a and b rule: smt_of_trm_smt_of_arg.induct)
  case (4 td c f args i)
  then show ?case by (auto simp: unary_def tupleIndex_def isIndexed_def split: list.splits if_splits)
next
  case (5 td ts et)
  then show ?case by (fastforce simp: isConst_Term split: list.splits if_splits)
qed (auto simp: agrees_def split: if_splits sum.splits)

section \<open>The visitor in the arguments of calls\<close>

lemma z3_hooks [simp]:
  "preVisitTerm (VisitorGetZ3form d) t s = Inr (if z3_level s > 0 then s else s\<lparr>z3_constT := coefficient t\<rparr>)"
  "preVisitUFCallTerm (VisitorGetZ3form d) t s = Inr (z3_enter_call t s)"
  "postVisitUFCallTerm (VisitorGetZ3form d) t s = Inr (t, z3_leave_call t s)"
  "preVisitTupleVarTerm (VisitorGetZ3form d) t s = bind_result (pretty_trm (z3_decl s) t True) (\<lambda>v.
       Inr (t, z3_var (coefficient t) v (s\<lparr>tvTs := insert_unique (<) v (tvTs s)\<rparr>)))"
  "preVisitVarTerm (VisitorGetZ3form d) t s = Inr (z3_var (coefficient t) (toString_trm t True)
      (s\<lparr>vtTs := insert_unique (<) (toString_trm t True) (vtTs s)\<rparr>))"
  "preVisitExp (VisitorGetZ3form d) e s = Inr (if mExpType e \<noteq> Expression
       then s\<lparr>leftSide := '''', rightSide := '''', z3_constT := 0, z3_level := 0\<rparr> else s)"
  "postVisitExp (VisitorGetZ3form d) e s = Inr (if mExpType e \<noteq> Expression
       then s\<lparr>expZ3Form := expZ3Form s @ [z3_constraint (mExpType e = Equality) s]\<rparr>
       else s\<lparr>UFparamExp := z3_argument (getConstTerm e) s\<rparr>)"
  by (simp_all add: VisitorGetZ3form_def base_Visitor_def Let_def)

lemma set_insert_name: "set (insert_unique (<) x xs) = insert x (set xs)" for x :: string
  by (induction xs) (auto simp: incomparable_def)

text \<open>In an argument only the collected names and the text of the argument change.\<close>

definition outer :: "z3_state \<Rightarrow> (tuple_decl \<times> int \<times> string list \<times> string list \<times> string list) \<times> int \<times> string \<times> string \<times> int" where
  "outer s = ((z3_decl s, cc s, expZ3Form s, conjZ3Form s, z3Form s), z3_constT s, leftSide s, rightSide s, z3_level s)"

definition grows :: "z3_state \<Rightarrow> z3_state \<Rightarrow> bool" where
  "grows s s' \<longleftrightarrow> set (tvTs s) \<subseteq> set (tvTs s') \<and> set (vtTs s) \<subseteq> set (vtTs s') \<and> set (ufsTs s) \<subseteq> set (ufsTs s')"

definition inside :: "z3_state \<Rightarrow> z3_state \<Rightarrow> bool" where
  "inside s s' \<longleftrightarrow> outer s' = outer s \<and> grows s s'"

definition collected :: "z3_state \<Rightarrow> smt \<Rightarrow> bool" where
  "collected s a \<longleftrightarrow> smt_names a \<subseteq> set (tvTs s) \<union> set (vtTs s) \<and> smt_calls a \<subseteq> set (ufsTs s)"

definition arg_text :: "z3_state \<Rightarrow> string" where
  "arg_text s = (if UFparamExp s = '''' then UFparamT s else UFparamExp s)"

lemma z3_argument_text:
  "z3_argument None s = arg_text s" "z3_argument (Some (Term k)) s = ''(+ '' @ arg_text s @ '' '' @ show_int k @ '')''"
  by (simp_all add: z3_argument_def arg_text_def)

lemma inside_visit:
  "smt_of_trm td t = Some a \<Longrightarrow> z3_decl s = td \<Longrightarrow> z3_level s > 0 \<Longrightarrow> UFparamExp s = '''' \<Longrightarrow>
    \<exists>s'. accept_trm (VisitorGetZ3form d) t s = Inr (t, s') \<and> inside s s' \<and> collected s' a \<and> arg_text s' = smt_text a"
  "smt_of_arg td e = Some b \<Longrightarrow> z3_decl s = td \<Longrightarrow> z3_level s > 0 \<Longrightarrow> UFparamExp s = '''' \<Longrightarrow>
    \<exists>s'. accept_exp (VisitorGetZ3form d) e s = Inr (e, s') \<and> inside s s' \<and> collected s' b \<and> UFparamExp s' = smt_text b"
proof (induction td t and td e arbitrary: a s and b s rule: smt_of_trm_smt_of_arg.induct)
  case (2 td c x)
  then have x: "toString_trm (VarTerm c x) True = x" "a = SName x" by (auto simp: VarTerm_toString_def coeffToStream_def split: if_splits)
  let ?s = "s\<lparr>vtTs := insert_unique (<) x (vtTs s), UFparamT := x\<rparr>"
  have "accept_trm (VisitorGetZ3form d) (VarTerm c x) s = Inr (VarTerm c x, ?s)"
    using x(1) 2(3) by (simp add: z3_var_def del: toString_trm.simps)
  moreover have "inside s ?s" "collected ?s a" "arg_text ?s = smt_text a"
    using 2(4) x(2) by (auto simp: inside_def outer_def grows_def collected_def arg_text_def set_insert_name)
  ultimately show ?case by blast
next
  case (3 td c l)
  then obtain x where x: "pretty_trm td (TupleVarTerm c l) True = Inr x" "a = SName x"
    by (auto simp: coeffToStream_def split: if_splits sum.splits)
  let ?s = "s\<lparr>tvTs := insert_unique (<) x (tvTs s), UFparamT := x\<rparr>"
  have "accept_trm (VisitorGetZ3form d) (TupleVarTerm c l) s = Inr (TupleVarTerm c l, ?s)"
    using x(1) 3(2,3) by (simp add: z3_var_def del: pretty_trm.simps)
  moreover have "inside s ?s" "collected ?s a" "arg_text ?s = smt_text a"
    using 3(4) x(2) by (auto simp: inside_def outer_def grows_def collected_def arg_text_def set_insert_name)
  ultimately show ?case by blast
next
  case (4 td c f args i)
  obtain x b where x: "args = [x]" "smt_of_arg td x = Some b" "a = SCall f b" "\<bar>c\<bar> = 1 \<and> i = -1"
    using 4(2) by (auto split: list.splits if_splits)
  let ?t = "UFCallTerm c f args i"
  let ?s = "z3_enter_call ?t s"
  have s: "z3_decl ?s = td" "z3_level ?s > 0" "UFparamExp ?s = ''''" "z3_level ?s = z3_level s + 1"
    "outer ?s = (fst (outer s), z3_constT s, leftSide s, rightSide s, z3_level s + 1)" "grows s ?s" "f \<in> set (ufsTs ?s)"
    using 4(3-5) by (auto simp: z3_enter_call_def Let_def set_insert_name outer_def grows_def)
  obtain s' where s': "accept_exp (VisitorGetZ3form d) x ?s = Inr (x, s')" "inside ?s s'" "collected s' b" "UFparamExp s' = smt_text b"
    using 4(1)[OF x(1) refl x(4) x(2) s(1-3)] by blast
  let ?s' = "z3_leave_call ?t s'"
  have "z3_level s' = z3_level s + 1" using s'(2) s(5) by (simp add: inside_def outer_def)
  then have leave: "?s' = s'\<lparr>z3_level := z3_level s, UFparamExp := smt_text a\<rparr>"
    using 4(4) s'(4) x(3) by (simp add: z3_leave_call_def Let_def)
  have "accept_trm (VisitorGetZ3form d) ?t s = Inr (?t, ?s')" using s'(1) x(1) by simp
  moreover have "inside s ?s'" using s'(2) s(5,6) unfolding leave by (auto simp: inside_def outer_def grows_def)
  moreover have "collected ?s' a" using s'(2,3) s(7) x(3) unfolding leave by (auto simp: inside_def grows_def collected_def)
  moreover have "arg_text ?s' = smt_text a" unfolding leave by (simp add: arg_text_def x(3))
  ultimately show ?case by blast
next
  case (5 td ts et)
  have et: "\<not> et \<noteq> Expression" using 5(4) by (auto split: if_splits)
  let ?V = "VisitorGetZ3form d"
  have const: "accept_trm ?V (Term k) s1 = Inr (Term k, s1)" if "z3_level s1 > 0" for k s1 using that by simp
  have level: "z3_level s1 > 0" if "inside s s1" for s1 using that 5(6) by (simp add: inside_def outer_def)
  have nonconst: "\<not> isConst_term t" if "smt_of_trm td t = Some a" for t a using that by (auto simp: isConst_Term)
  have leave: "\<exists>s'. accept_exp ?V (Exp ts et) s = Inr (Exp ts et, s') \<and> inside s s' \<and> collected s' b \<and> UFparamExp s' = smt_text b"
    if "visit_all (accept_trm ?V) ts s = Inr (ts, s1)" "inside s s1" "collected s1 b"
      "z3_argument (getConstTerm (Exp ts et)) s1 = smt_text b" for s1
  proof -
    have "accept_exp ?V (Exp ts et) s = Inr (Exp ts et, s1\<lparr>UFparamExp := smt_text b\<rparr>)" using et that(1,4) by simp
    moreover have "inside s (s1\<lparr>UFparamExp := smt_text b\<rparr>)" "collected (s1\<lparr>UFparamExp := smt_text b\<rparr>) b"
      using that(2,3) by (auto simp: inside_def outer_def grows_def collected_def)
    ultimately show ?thesis by fastforce
  qed
  consider t where "ts = [t]" "coefficient t = 1" "smt_of_trm td t = Some b"
    | t k a where "ts = [t, Term k]" "coefficient t = 1" "smt_of_trm td t = Some a" "b = SPlus a k"
    | t k a where "ts = [Term k, t]" "coefficient t = 1" "smt_of_trm td t = Some a" "b = SPlus a k" "\<not> isConst_term t"
    using 5(4) et nonconst by (auto simp: isConst_Term split: list.splits if_splits)
  then show ?case
  proof cases
    case (1 t)
    obtain s1 where s1: "accept_trm ?V t s = Inr (t, s1)" "inside s s1" "collected s1 b" "arg_text s1 = smt_text b"
      using 5(1)[OF et 1(1) refl 1(2,3) 5(5-7)] by blast
    show ?thesis by (rule leave[of s1]) (use 1 s1 nonconst[OF 1(3)] in \<open>simp_all add: getConstTerm_def z3_argument_text\<close>)
  next
    case (2 t k a)
    have uc: "isConst_term (Term k) \<and> coefficient t = 1" using 2(2) by (simp add: isConst_Term)
    obtain s1 where s1: "accept_trm ?V t s = Inr (t, s1)" "inside s s1" "collected s1 a" "arg_text s1 = smt_text a"
      using 5(2)[OF et 2(1) refl refl uc 2(3) 5(5-7)] by blast
    show ?thesis by (rule leave[of s1]) (use 2 s1 nonconst[OF 2(3)] level[OF s1(2)] in
      \<open>simp_all add: getConstTerm_def z3_argument_text isConst_term_def collected_def\<close>)
  next
    case (3 t k a)
    have uc: "\<not> (isConst_term t \<and> coefficient (Term k) = 1)" "isConst_term (Term k) \<and> coefficient t = 1"
      using 3(2,5) by (simp_all add: isConst_Term)
    obtain s1 where s1: "accept_trm ?V t s = Inr (t, s1)" "inside s s1" "collected s1 a" "arg_text s1 = smt_text a"
      using 5(3)[OF et 3(1) refl refl uc 3(3) 5(5-7)] by blast
    show ?thesis by (rule leave[of s1]) (use 3 s1 5(6) in
      \<open>simp_all add: getConstTerm_def z3_argument_text isConst_term_def collected_def\<close>)
  qed
qed simp

section \<open>Constraints\<close>

datatype smt_atom = SAtom string smt smt

primrec atom_text :: "smt_atom \<Rightarrow> string" where
  "atom_text (SAtom cmp l r) =
     ''('' @ cmp @ '' '' @ smt_text l @ '' '' @ smt_text r @ (case r of SPlus a k \<Rightarrow> '' )'' | _ \<Rightarrow> '')'')"

primrec atom_holds :: "(string \<Rightarrow> int) \<Rightarrow> (string \<Rightarrow> int \<Rightarrow> int) \<Rightarrow> smt_atom \<Rightarrow> bool" where
  "atom_holds V U (SAtom cmp l r) =
     (if cmp = ''='' then smt_eval V U l = smt_eval V U r
      else if cmp = ''<='' then smt_eval V U l \<le> smt_eval V U r
      else smt_eval V U l < smt_eval V U r)"

primrec atom_names :: "smt_atom \<Rightarrow> string set" where
  "atom_names (SAtom cmp l r) = smt_names l \<union> smt_names r"

primrec atom_calls :: "smt_atom \<Rightarrow> string set" where
  "atom_calls (SAtom cmp l r) = smt_calls l \<union> smt_calls r"

definition neg_term :: "trm \<Rightarrow> bool" where
  "neg_term t \<longleftrightarrow> \<not> isConst_term t \<and> coefficient t < 0"

definition pos_term :: "trm \<Rightarrow> bool" where
  "pos_term t \<longleftrightarrow> \<not> isConst_term t \<and> \<not> coefficient t < 0"

text \<open>At most one term on each side and one constant, with unit coefficients.\<close>

definition simple_constraint :: "tuple_decl \<Rightarrow> exp \<Rightarrow> bool" where
  "simple_constraint td e \<longleftrightarrow> mExpType e \<noteq> Expression \<and> length (filter neg_term (mTerms e)) \<le> 1 \<and>
     length (filter pos_term (mTerms e)) \<le> 1 \<and> length (filter isConst_term (mTerms e)) \<le> 1 \<and>
     list_all (\<lambda>t. isConst_term t \<or> smt_of_trm td t \<noteq> None) (mTerms e)"

definition last_term :: "tuple_decl \<Rightarrow> trm list \<Rightarrow> smt" where
  "last_term td ts = (if ts = [] then SInt 0 else the (smt_of_trm td (last ts)))"

definition last_text :: "tuple_decl \<Rightarrow> trm list \<Rightarrow> string" where
  "last_text td ts = (if ts = [] then '''' else smt_text (the (smt_of_trm td (last ts))))"

definition last_const :: "trm list \<Rightarrow> int" where
  "last_const ts = (if ts = [] then 0 else coefficient (last ts))"

definition atom_of :: "tuple_decl \<Rightarrow> exp \<Rightarrow> smt_atom" where
  "atom_of td e =
     (let l = last_term td (filter neg_term (mTerms e)); r = last_term td (filter pos_term (mTerms e));
          k = last_const (filter isConst_term (mTerms e));
          (cmp, k) = (if mExpType e = Equality then (''='', k) else if k = 0 then (''<='', 0) else (''<'', k + 1))
      in if k = 0 then SAtom cmp l r else if k < 0 then SAtom cmp (SPlus l (-k)) r else SAtom cmp l (SPlus r k))"

text \<open>A term that is not in an argument.\<close>

lemma top_visit:
  assumes a: "smt_of_trm td t = Some a" and s: "z3_decl s = td" "z3_level s = 0"
  obtains s' where "accept_trm (VisitorGetZ3form d) t s = Inr (t, s')"
    "outer s' = outer (z3_side (coefficient t) (smt_text a) s)" "grows s s'" "collected s' a"
proof (cases t)
  case (Term c)
  with a show thesis by simp
next
  case (VarTerm c x)
  with a have x: "toString_trm t True = x" "a = SName x" by (auto simp: VarTerm_toString_def coeffToStream_def split: if_splits)
  let ?s = "s\<lparr>vtTs := insert_unique (<) x (vtTs s)\<rparr>"
  have "accept_trm (VisitorGetZ3form d) t s = Inr (t, z3_side (coefficient t) x ?s)"
    using x(1) s VarTerm by (simp add: z3_var_def del: toString_trm.simps)
  then show thesis by (rule that)
    (use x(2) in \<open>auto simp: z3_side_def outer_def grows_def collected_def set_insert_name\<close>)
next
  case (TupleVarTerm c l)
  with a obtain x where x: "pretty_trm td t True = Inr x" "a = SName x"
    by (auto simp: coeffToStream_def split: if_splits sum.splits)
  let ?s = "s\<lparr>tvTs := insert_unique (<) x (tvTs s)\<rparr>"
  have "accept_trm (VisitorGetZ3form d) t s = Inr (t, z3_side (coefficient t) x ?s)"
    using x(1) s TupleVarTerm by (simp add: z3_var_def del: pretty_trm.simps)
  then show thesis by (rule that)
    (use x(2) in \<open>auto simp: z3_side_def outer_def grows_def collected_def set_insert_name\<close>)
next
  case (UFCallTerm c f args i)
  obtain x b where x: "args = [x]" "smt_of_arg td x = Some b" "a = SCall f b"
    using a UFCallTerm by (auto split: list.splits if_splits)
  let ?s = "z3_enter_call t s"
  have e: "z3_decl ?s = td" "z3_level ?s > 0" "UFparamExp ?s = ''''"
    "outer ?s = (fst (outer s), z3_constT s, leftSide s, rightSide s, 1)" "grows s ?s" "f \<in> set (ufsTs ?s)"
    using s UFCallTerm by (auto simp: z3_enter_call_def Let_def set_insert_name outer_def grows_def)
  obtain s' where s': "accept_exp (VisitorGetZ3form d) x ?s = Inr (x, s')" "inside ?s s'" "collected s' b" "UFparamExp s' = smt_text b"
    using inside_visit(2)[OF x(2) e(1-3)] by blast
  let ?s' = "z3_leave_call t s'"
  have "z3_level s' = 1" using s'(2) e(4) by (simp add: inside_def outer_def)
  then have leave: "?s' = z3_side c (smt_text a) (s'\<lparr>z3_level := 0\<rparr>)"
    using s'(4) x(3) UFCallTerm by (simp add: z3_leave_call_def Let_def)
  have "accept_trm (VisitorGetZ3form d) t s = Inr (t, ?s')" using s'(1) x(1) UFCallTerm by simp
  then show thesis
  proof (rule that)
    show "outer ?s' = outer (z3_side (coefficient t) (smt_text a) s)"
      using s'(2) e(4) s(2) UFCallTerm unfolding leave by (auto simp: inside_def outer_def z3_side_def)
    show "grows s ?s'" using s'(2) e(5) unfolding leave by (auto simp: inside_def grows_def z3_side_def)
    show "collected ?s' a" using s'(2,3) e(6) x(3) unfolding leave by (auto simp: inside_def grows_def collected_def z3_side_def)
  qed
qed

lemma collected_mono: "collected s a \<Longrightarrow> grows s s' \<Longrightarrow> collected s' a"
  by (auto simp: collected_def grows_def)

lemma grows_trans: "grows s s' \<Longrightarrow> grows s' s'' \<Longrightarrow> grows s s''"
  by (auto simp: grows_def)

lemma constraint_visit:
  assumes e: "simple_constraint td e" and s: "z3_decl s = td"
  obtains s' where "accept_exp (VisitorGetZ3form d) e s = Inr (e, s')" "grows s s'"
    "expZ3Form s' = expZ3Form s @ [atom_text (atom_of td e)]" "z3_decl s' = td" "cc s' = cc s"
    "conjZ3Form s' = conjZ3Form s" "z3Form s' = z3Form s"
    "atom_names (atom_of td e) \<subseteq> set (tvTs s') \<union> set (vtTs s')" "atom_calls (atom_of td e) \<subseteq> set (ufsTs s')"
proof -
  obtain ts et where et: "e = Exp ts et" by (cases e)
  let ?V = "VisitorGetZ3form d" and ?s = "s\<lparr>leftSide := '''', rightSide := '''', z3_constT := 0, z3_level := 0\<rparr>"
  have ok: "et \<noteq> Expression" "\<forall>t \<in> set ts. isConst_term t \<or> smt_of_trm td t \<noteq> None"
    using e et by (auto simp: simple_constraint_def list_all_iff)
  let ?Q = "\<lambda>us s'. fst (outer s') = fst (outer s) \<and> z3_level s' = 0 \<and> grows s s' \<and>
    leftSide s' = last_text td (filter neg_term us) \<and> rightSide s' = last_text td (filter pos_term us) \<and>
    z3_constT s' = last_const (filter isConst_term us) \<and> (\<forall>t \<in> set us. \<not> isConst_term t \<longrightarrow> collected s' (the (smt_of_trm td t)))"
  have "\<exists>s'. visit_all (accept_trm ?V) ts ?s = Inr (ts, s') \<and> ?Q ts s'"
  proof (rule visit_all_same_rule[of ?Q])
    show "?Q [] ?s" by (simp add: outer_def grows_def last_text_def last_const_def)
    fix us t s1 assume t: "t \<in> set ts" and Q: "?Q us s1"
    have decl: "z3_decl s1 = td" using Q s by (simp add: outer_def)
    show "\<exists>s'. accept_trm ?V t s1 = Inr (t, s') \<and> ?Q (us @ [t]) s'"
    proof (cases "isConst_term t")
      case True
      then obtain k where k: "t = Term k" by (auto simp: isConst_Term)
      have "accept_trm ?V t s1 = Inr (t, s1\<lparr>z3_constT := k\<rparr>)" using Q k by simp
      moreover have "?Q (us @ [t]) (s1\<lparr>z3_constT := k\<rparr>)" using Q k True
        by (auto simp: outer_def grows_def neg_term_def pos_term_def last_const_def collected_def)
      ultimately show ?thesis by blast
    next
      case False
      then obtain a where a: "smt_of_trm td t = Some a" using ok(2) t by auto
      obtain s' where s': "accept_trm ?V t s1 = Inr (t, s')" "outer s' = outer (z3_side (coefficient t) (smt_text a) s1)"
        "grows s1 s'" "collected s' a" by (rule top_visit[OF a decl, of d]) (use Q in auto)
      have "?Q (us @ [t]) s'"
        using Q s' a False grows_trans[of s s1 s'] collected_mono[of s1 _ s']
        by (auto simp: outer_def z3_side_def neg_term_def pos_term_def last_text_def split: if_splits)
      with s'(1) show ?thesis by blast
    qed
  qed
  then obtain s1 where s1: "visit_all (accept_trm ?V) ts ?s = Inr (ts, s1)" "?Q ts s1" by blast
  let ?s' = "s1\<lparr>expZ3Form := expZ3Form s1 @ [z3_constraint (et = Equality) s1]\<rparr>"
  have acc: "accept_exp ?V e s = Inr (e, ?s')" using s1(1) ok(1) et by simp
  have side: "(if last_text td us = '''' then ''0'' else last_text td us) = smt_text (last_term td us)"
    if "\<forall>t \<in> set us. smt_of_trm td t \<noteq> None" for us
  proof (cases "us = []")
    case False
    then have "smt_of_trm td (last us) \<noteq> None" using that by simp
    then show ?thesis using smt_text_nonempty[of td "last us"] False by (auto simp: last_text_def last_term_def)
  next
    case True
    have "show_int 0 = ''0''" by code_simp
    with True show ?thesis by (simp add: last_text_def last_term_def)
  qed
  have no_plus: "smt_of_trm td t \<noteq> Some (SPlus a k)" for t a k by (cases t) (auto split: list.splits sum.splits)
  let ?l = "filter neg_term ts" and ?r = "filter pos_term ts"
  have some: "\<forall>t \<in> set ?l. smt_of_trm td t \<noteq> None" "\<forall>t \<in> set ?r. smt_of_trm td t \<noteq> None"
    using ok(2) by (auto simp: neg_term_def pos_term_def)
  have plain: "(case last_term td ?r of SPlus a k \<Rightarrow> '' )'' | _ \<Rightarrow> '')'') = '')''"
  proof (cases "?r = []")
    case False
    then have "last ?r \<in> set ?r" by (rule last_in_set)
    with some(2) obtain a where "smt_of_trm td (last ?r) = Some a" by blast
    with False no_plus show ?thesis by (auto simp: last_term_def split: smt.split)
  qed (simp add: last_term_def)
  have same: "z3_constraint (et = Equality) s1 = atom_text (atom_of td e)"
  proof -
    have lt: "(if leftSide s1 = '''' then ''0'' else leftSide s1) = smt_text (last_term td ?l)"
      and rt: "(if rightSide s1 = '''' then ''0'' else rightSide s1) = smt_text (last_term td ?r)"
      and kt: "z3_constT s1 = last_const (filter isConst_term ts)"
      using s1(2) side[OF some(1)] side[OF some(2)] by auto
    show ?thesis
      unfolding z3_constraint_def atom_of_def Let_def lt rt kt et exp.sel
      by (cases "et = Equality"; simp add: plain)
  qed
  have names: "smt_names (last_term td us) \<subseteq> set (tvTs s1) \<union> set (vtTs s1)" "smt_calls (last_term td us) \<subseteq> set (ufsTs s1)"
    if "set us \<subseteq> {t \<in> set ts. \<not> isConst_term t}" for us
  proof -
    have "collected s1 (the (smt_of_trm td (last us)))" if "us \<noteq> []"
      using s1(2) \<open>set us \<subseteq> _\<close> last_in_set[OF that] by blast
    then show "smt_names (last_term td us) \<subseteq> set (tvTs s1) \<union> set (vtTs s1)" "smt_calls (last_term td us) \<subseteq> set (ufsTs s1)"
      by (auto simp: last_term_def collected_def)
  qed
  have sub: "set ?l \<subseteq> {t \<in> set ts. \<not> isConst_term t}" "set ?r \<subseteq> {t \<in> set ts. \<not> isConst_term t}"
    by (auto simp: neg_term_def pos_term_def)
  have parts: "atom_names (atom_of td e) \<subseteq> smt_names (last_term td ?l) \<union> smt_names (last_term td ?r)"
    "atom_calls (atom_of td e) \<subseteq> smt_calls (last_term td ?l) \<union> smt_calls (last_term td ?r)"
    by (auto simp: atom_of_def Let_def et split: if_splits)
  show thesis
  proof (rule that[OF acc])
    show "grows s ?s'" using s1(2) by (simp add: grows_def)
    show "expZ3Form ?s' = expZ3Form s @ [atom_text (atom_of td e)]" using s1(2) same by (simp add: outer_def)
    show "atom_names (atom_of td e) \<subseteq> set (tvTs ?s') \<union> set (vtTs ?s')"
      using parts(1) names(1)[OF sub(1)] names(1)[OF sub(2)] by auto
    show "atom_calls (atom_of td e) \<subseteq> set (ufsTs ?s')"
      using parts(2) names(2)[OF sub(1)] names(2)[OF sub(2)] by auto
  qed (use s1(2) s in \<open>simp_all add: outer_def\<close>)
qed

text \<open>The assertion holds where the constraint does.\<close>

lemma filter_sum3:
  fixes f :: "trm \<Rightarrow> int"
  shows "sum_list (map f ts) = sum_list (map f (filter neg_term ts)) + sum_list (map f (filter pos_term ts)) +
    sum_list (map f (filter isConst_term ts))"
  by (induction ts) (auto simp: neg_term_def pos_term_def)

lemma sum_short:
  fixes f :: "trm \<Rightarrow> int"
  assumes "length us \<le> 1" "\<forall>t \<in> set us. f t = g t"
  shows "sum_list (map f us) = (if us = [] then 0 else g (last us))"
  using assms by (cases us) auto

lemma atom_value:
  assumes e: "simple_constraint td e" and a: "agrees td S V I" "symbols_exp e \<subseteq> S"
  shows "atom_holds V (unary I) (atom_of td e) \<longleftrightarrow> (if mExpType e = Equality then holds_eq I e else holds_ineq I e)"
proof -
  let ?ts = "mTerms e" and ?v = "smt_eval V (unary I)"

  have sym: "symbols_trm t \<subseteq> S" if "t \<in> set ?ts" for t using a(2) that by (cases e) auto
  have val: "eval_trm I t = coefficient t * ?v (the (smt_of_trm td t)) \<and> (coefficient t = 1 \<or> coefficient t = -1)"
    if t: "t \<in> set ?ts" "\<not> isConst_term t" for t
  proof -
    obtain x where x: "smt_of_trm td t = Some x" using e t by (auto simp: simple_constraint_def list_all_iff)
    have "coefficient t = 1 \<or> coefficient t = -1" using x by (cases t) (auto split: if_splits sum.splits list.splits)
    with smt_value(1)[OF x a(1) sym[OF t(1)]] x show ?thesis by simp
  qed
  have L: "sum_list (map (eval_trm I) (filter neg_term ?ts)) = - ?v (last_term td (filter neg_term ?ts))"
  proof -
    have "\<forall>t \<in> set (filter neg_term ?ts). eval_trm I t = - ?v (the (smt_of_trm td t))"
      using val by (fastforce simp: neg_term_def)
    from sum_short[OF _ this] e show ?thesis by (simp add: simple_constraint_def last_term_def)
  qed
  have R: "sum_list (map (eval_trm I) (filter pos_term ?ts)) = ?v (last_term td (filter pos_term ?ts))"
  proof -
    have "\<forall>t \<in> set (filter pos_term ?ts). eval_trm I t = ?v (the (smt_of_trm td t))"
      using val by (fastforce simp: pos_term_def)
    from sum_short[OF _ this] e show ?thesis by (simp add: simple_constraint_def last_term_def)
  qed
  have K: "sum_list (map (eval_trm I) (filter isConst_term ?ts)) = last_const (filter isConst_term ?ts)"
  proof -
    have "\<forall>t \<in> set (filter isConst_term ?ts). eval_trm I t = coefficient t" by (auto simp: isConst_Term)
    from sum_short[OF _ this] e show ?thesis by (simp add: simple_constraint_def last_const_def)
  qed
  have "eval_exp I e = - ?v (last_term td (filter neg_term ?ts)) + ?v (last_term td (filter pos_term ?ts)) + last_const (filter isConst_term ?ts)"
    using filter_sum3[of "eval_trm I" ?ts, unfolded L R K] by (simp only: eval_exp_terms)
  then show ?thesis by (auto simp: atom_of_def Let_def holds_eq_def holds_ineq_def)
qed

section \<open>A conjunction\<close>

lemma z3_conj_hooks [simp]:
  "preVisitConjunction (VisitorGetZ3form d) c s = Inr (s\<lparr>z3_decl := mTupleDecl c, expZ3Form := []\<rparr>)"
  "postVisitConjunction (VisitorGetZ3form d) c s = Inr (c,
       if length (expZ3Form s) > 0 then
         (if d then s\<lparr>conjZ3Form := conjZ3Form s @ expZ3Form s\<rparr>
          else s\<lparr>conjZ3Form := conjZ3Form s @ [''(and'' @ concat (map (\<lambda>t. '' '' @ t) (expZ3Form s)) @ '' )'']\<rparr>)
       else s)"
  "preVisitSparseConstraints (VisitorGetZ3form d) cs s = Inr (s\<lparr>conjZ3Form := []\<rparr>)"
  "postVisitSparseConstraints (VisitorGetZ3form d) cs s = z3_leave_sparse d s"
  by (simp_all add: VisitorGetZ3form_def base_Visitor_def)

definition named_in :: "z3_state \<Rightarrow> smt_atom \<Rightarrow> bool" where
  "named_in s a \<longleftrightarrow> atom_names a \<subseteq> set (tvTs s) \<union> set (vtTs s) \<and> atom_calls a \<subseteq> set (ufsTs s)"

lemma named_in_mono: "named_in s a \<Longrightarrow> grows s s' \<Longrightarrow> named_in s' a"
  by (auto simp: named_in_def grows_def)

lemma constraints_visit:
  assumes e: "\<forall>e \<in> set es. simple_constraint td e" and s: "z3_decl s = td"
  obtains s' where "visit_all (accept_exp (VisitorGetZ3form d)) es s = Inr (es, s')" "grows s s'" "z3_decl s' = td"
    "expZ3Form s' = expZ3Form s @ map (\<lambda>e. atom_text (atom_of td e)) es" "cc s' = cc s" "conjZ3Form s' = conjZ3Form s"
    "z3Form s' = z3Form s" "\<forall>e \<in> set es. named_in s' (atom_of td e)"
proof -
  let ?Q = "\<lambda>us s'. grows s s' \<and> z3_decl s' = td \<and> expZ3Form s' = expZ3Form s @ map (\<lambda>e. atom_text (atom_of td e)) us \<and>
    cc s' = cc s \<and> conjZ3Form s' = conjZ3Form s \<and> z3Form s' = z3Form s \<and> (\<forall>e \<in> set us. named_in s' (atom_of td e))"
  have "\<exists>s'. visit_all (accept_exp (VisitorGetZ3form d)) es s = Inr (es, s') \<and> ?Q es s'"
  proof (rule visit_all_same_rule[of ?Q])
    show "?Q [] s" using s by (simp add: grows_def)
    fix us x s1 assume x: "x \<in> set es" and Q: "?Q us s1"
    have "simple_constraint td x" "z3_decl s1 = td" using e x Q by blast+
    then obtain s' where s': "accept_exp (VisitorGetZ3form d) x s1 = Inr (x, s')" "grows s1 s'"
      "expZ3Form s' = expZ3Form s1 @ [atom_text (atom_of td x)]" "z3_decl s' = td" "cc s' = cc s1"
      "conjZ3Form s' = conjZ3Form s1" "z3Form s' = z3Form s1"
      "atom_names (atom_of td x) \<subseteq> set (tvTs s') \<union> set (vtTs s')" "atom_calls (atom_of td x) \<subseteq> set (ufsTs s')"
      by (rule constraint_visit)
    have "named_in s' a" if "named_in s1 a" for a by (rule named_in_mono[OF that s'(2)])
    then have "?Q (us @ [x]) s'" using Q s' grows_trans[of s s1 s'] by (simp add: named_in_def)
    with s'(1) show "\<exists>s'. accept_exp (VisitorGetZ3form d) x s1 = Inr (x, s') \<and> ?Q (us @ [x]) s'" by blast
  qed
  then show thesis using that by blast
qed

definition assert_text :: "nat \<Rightarrow> string \<Rightarrow> string" where
  "assert_text i t = ''(assert (! '' @ t @ '' :named c1'' @ show_int (int i + 1) @ '') )''"

definition declare_text :: "string \<Rightarrow> string" where
  "declare_text x = ''(declare-const '' @ x @ '' Int)''"

lemma assertions_fold:
  "foldl (\<lambda>s t. s\<lparr>z3Form := z3Form s @ [''(assert (! '' @ t @ '' :named c1'' @ show_int (cc s) @ '') )''], cc := cc s + 1\<rparr>) s ts
    = s\<lparr>z3Form := z3Form s @ map (\<lambda>(i, t). ''(assert (! '' @ t @ '' :named c1'' @ show_int (cc s + int i) @ '') )'') (zip [0..<length ts] ts),
        cc := cc s + int (length ts)\<rparr>"
proof (induction ts rule: rev_induct)
  case (snoc t ts)
  then show ?case by simp
qed simp

lemma leave_sparse_named:
  assumes "cc s = 1" "z3Form s = []"
  obtains s' where "z3_leave_sparse True s = Inr s'" "z3Form s' = map declare_text (tvTs s) @
    map (\<lambda>(i, t). assert_text i t) (zip [0..<length (conjZ3Form s)] (conjZ3Form s))" "ufsTs s' = ufsTs s" "vtTs s' = vtTs s"
proof -
  have d: "(\<lambda>t. ''(declare-const '' @ t @ '' Int)'') = declare_text" by (intro ext) (simp only: declare_text_def)
  have a: "(\<lambda>(i, t). ''(assert (! '' @ t @ '' :named c1'' @ show_int (1 + int i) @ '') )'') = (\<lambda>(i, t). assert_text i t)"
    by (intro ext) (simp only: assert_text_def add.commute split: prod.split)
  let ?s = "s\<lparr>z3Form := z3Form s @ map (\<lambda>t. ''(declare-const '' @ t @ '' Int)'') (tvTs s)\<rparr>"
  let ?n = "zip [0..<length (conjZ3Form s)] (conjZ3Form s)"
  have s: "conjZ3Form ?s = conjZ3Form s" "cc ?s = 1" "z3Form ?s = map declare_text (tvTs s)" using assms d by simp_all
  show thesis
  proof (rule that)
    show "z3_leave_sparse True s = Inr (?s\<lparr>z3Form := map declare_text (tvTs s) @ map (\<lambda>(i, t). assert_text i t) ?n,
      cc := 1 + int (length (conjZ3Form s))\<rparr>)"
      unfolding z3_leave_sparse_def if_True Let_def assertions_fold s a ..
  qed simp_all
qed

text \<open>The names are declared, and the functions and symbols of the assertions are returned for the caller to declare.\<close>

lemma getZ3form_conj:
  assumes e: "\<forall>e \<in> set (constraints_of c). simple_constraint (mTupleDecl c) e"
  obtains tvs fs vs where "getZ3form [c] fs0 vs0 True = Inr (map declare_text tvs @
      map (\<lambda>(i, e). assert_text i (atom_text (atom_of (mTupleDecl c) e))) (zip [0..<length (constraints_of c)] (constraints_of c)), fs, vs)"
    "\<forall>e \<in> set (constraints_of c). atom_names (atom_of (mTupleDecl c) e) \<subseteq> set tvs \<union> set vs \<and> atom_calls (atom_of (mTupleDecl c) e) \<subseteq> set fs"
proof -
  let ?V = "VisitorGetZ3form True" and ?td = "mTupleDecl c"
  let ?s = "(z3_start fs0 vs0)\<lparr>conjZ3Form := [], z3_decl := ?td, expZ3Form := []\<rparr>"
  have eqs: "\<forall>e \<in> set (mEqualities c). simple_constraint ?td e" "\<forall>e \<in> set (mInequalities c). simple_constraint ?td e"
    using e by (simp_all add: constraints_of_def)
  obtain s1 where s1: "visit_all (accept_exp ?V) (mEqualities c) ?s = Inr (mEqualities c, s1)" "grows ?s s1" "z3_decl s1 = ?td"
    "expZ3Form s1 = expZ3Form ?s @ map (\<lambda>e. atom_text (atom_of ?td e)) (mEqualities c)" "cc s1 = cc ?s" "conjZ3Form s1 = conjZ3Form ?s"
    "z3Form s1 = z3Form ?s" "\<forall>e \<in> set (mEqualities c). named_in s1 (atom_of ?td e)"
    by (rule constraints_visit[OF eqs(1), of ?s True]) simp
  obtain s2 where s2: "visit_all (accept_exp ?V) (mInequalities c) s1 = Inr (mInequalities c, s2)" "grows s1 s2" "z3_decl s2 = ?td"
    "expZ3Form s2 = expZ3Form s1 @ map (\<lambda>e. atom_text (atom_of ?td e)) (mInequalities c)" "cc s2 = cc s1" "conjZ3Form s2 = conjZ3Form s1"
    "z3Form s2 = z3Form s1" "\<forall>e \<in> set (mInequalities c). named_in s2 (atom_of ?td e)"
    by (rule constraints_visit[OF eqs(2) s1(3), of True]) blast
  let ?ts = "map (\<lambda>e. atom_text (atom_of ?td e)) (constraints_of c)"
  have exps: "expZ3Form s2 = ?ts" using s1(4) s2(4) by (simp add: constraints_of_def)
  let ?s3 = "s2\<lparr>conjZ3Form := ?ts\<rparr>"
  have "postVisitConjunction ?V c s2 = Inr (c, ?s3)" using exps s1(6) s2(6) by (cases "constraints_of c = []") simp_all
  then have conj: "accept_conj ?V c ((z3_start fs0 vs0)\<lparr>conjZ3Form := []\<rparr>) = Inr (c, ?s3)"
    using s1(1) s2(1) by (simp add: accept_conj_def)
  let ?out = "map declare_text (tvTs s2) @ map (\<lambda>(i, t). assert_text i t) (zip [0..<length ?ts] ?ts)"
  have cc: "cc s2 = 1" "z3Form s2 = []" using s1(5,7) s2(5,7) by (simp_all add: z3_start_def)
  have "cc ?s3 = 1" "z3Form ?s3 = []" using cc by simp_all
  then obtain s5 where s5: "z3_leave_sparse True ?s3 = Inr s5" "z3Form s5 = map declare_text (tvTs ?s3) @
      map (\<lambda>(i, t). assert_text i t) (zip [0..<length (conjZ3Form ?s3)] (conjZ3Form ?s3))" "ufsTs s5 = ufsTs ?s3" "vtTs s5 = vtTs ?s3"
    by (rule leave_sparse_named)
  then have "getZ3form [c] fs0 vs0 True = Inr (?out, ufsTs s2, vtTs s2)"
    using conj by (simp add: getZ3form_def accept_sparse_def)
  moreover have "map (\<lambda>(i, t). assert_text i t) (zip [0..<length ?ts] ?ts) =
    map (\<lambda>(i, e). assert_text i (atom_text (atom_of ?td e))) (zip [0..<length (constraints_of c)] (constraints_of c))"
    unfolding zip_map2 length_map map_map by (rule map_cong) auto
  moreover have "\<forall>e \<in> set (constraints_of c). named_in s2 (atom_of ?td e)"
    using s1(8) s2(8) named_in_mono[OF _ s2(2)] unfolding constraints_of_def set_append by blast
  ultimately show thesis using that[of "tvTs s2" "ufsTs s2" "vtTs s2"] by (simp add: named_in_def)
qed

section \<open>Properties\<close>

text \<open>The variables have different names, which are no symbols.\<close>

definition names_ok :: "conjunction \<Rightarrow> bool" where
  "names_ok c \<longleftrightarrow> distinct (map elem_text (mTupleDecl c)) \<and>
     list_all (\<lambda>x. \<not> mIsConst x \<and> list_all (\<lambda>e. elem_text x \<notin> symbols_exp e) (constraints_of c)) (mTupleDecl c)"

definition simple_conj :: "conjunction \<Rightarrow> bool" where
  "simple_conj c \<longleftrightarrow> list_all (simple_constraint (mTupleDecl c)) (constraints_of c) \<and>
     list_all (\<lambda>e. mExpType e = Equality) (mEqualities c) \<and> list_all (\<lambda>e. mExpType e = Inequality) (mInequalities c)"

definition conj_symbols :: "conjunction \<Rightarrow> string set" where
  "conj_symbols c = (\<Union>e \<in> set (constraints_of c). symbols_exp e)"

lemma declared_name_iff:
  assumes "names_ok c"
  shows "declared_name (mTupleDecl c) l = Inr x \<longleftrightarrow> 0 \<le> l \<and> l < int (length (mTupleDecl c)) \<and> x = elem_text (mTupleDecl c ! nat l)"
  using assms by (auto simp: names_ok_def list_all_length declared_name_def elemToString_def elemIsConst_def nat_less_iff split: if_splits)

lemma values_for_point:
  assumes ok: "names_ok c"
  obtains V where "agrees (mTupleDecl c) (conj_symbols c) V I"
proof -
  let ?td = "mTupleDecl c"
  let ?m = "map_of (zip (map elem_text ?td) (map int [0..<length ?td]))"
  let ?V = "\<lambda>x. case ?m x of Some l \<Rightarrow> tv I l | None \<Rightarrow> sym I x"
  have "agrees ?td (conj_symbols c) ?V I" unfolding agrees_def
  proof (intro conjI allI impI ballI)
    fix l x assume "declared_name ?td l = Inr x"
    then have l: "0 \<le> l" "nat l < length ?td" "x = map elem_text ?td ! nat l"
      by (auto simp: declared_name_iff[OF ok] nat_less_iff)
    have "?m (map elem_text ?td ! nat l) = Some (map int [0..<length ?td] ! nat l)"
      by (rule map_of_zip_nth) (use l(2) ok in \<open>auto simp: names_ok_def\<close>)
    then show "?V x = tv I l" using l by simp
  next
    fix x assume "x \<in> conj_symbols c"
    then have "x \<notin> set (map elem_text ?td)" using ok by (auto simp: names_ok_def conj_symbols_def list_all_iff)
    then have "?m x = None" unfolding map_of_eq_None_iff by (auto dest: set_zip_leftD)
    then show "?V x = sym I x" by (simp only: option.case)
  qed
  then show thesis by (rule that)
qed

lemma point_for_values:
  obtains I where "unary I = U" "agrees td S V I"
proof -
  let ?I = "\<lparr>tv = \<lambda>l. case declared_name td l of Inr x \<Rightarrow> V x | Inl e \<Rightarrow> 0, sym = V, uf = \<lambda>f i as. U f (hd as)\<rparr>"
  have "unary ?I = U" by (intro ext) (simp add: unary_def)
  moreover have "agrees td S V ?I" by (auto simp: agrees_def)
  ultimately show thesis by (rule that)
qed

lemma conj_atoms:
  assumes ok: "names_ok c" and c: "simple_conj c" and a: "agrees (mTupleDecl c) (conj_symbols c) V I"
  shows "conj_holds I c \<longleftrightarrow> (\<forall>e \<in> set (constraints_of c). atom_holds V (unary I) (atom_of (mTupleDecl c) e))"
proof -
  have "atom_holds V (unary I) (atom_of (mTupleDecl c) e) \<longleftrightarrow> (if mExpType e = Equality then holds_eq I e else holds_ineq I e)"
    if "e \<in> set (constraints_of c)" for e
    by (rule atom_value[OF _ a]) (use c that in \<open>auto simp: simple_conj_def list_all_iff conj_symbols_def\<close>)
  moreover have "decl_holds I (mTupleDecl c)" using ok by (simp add: decl_holds_def names_ok_def list_all_length)
  ultimately show ?thesis using c by (auto simp: conj_holds_def constraints_of_def simple_conj_def list_all_iff)
qed


text \<open>An example: \<open>{[i, k] : k + 10 < diag(i) \<and> i < n \<and> row(col(k) + 1) = i}\<close>.\<close>

definition solver_conj :: conjunction where
  "solver_conj = (Conjunction_new 2 0)\<lparr>
     mEqualities := [Exp [TupleVarTerm (-1) 0, UFCallTerm 1 ''row'' [Exp [UFCallTerm 1 ''col'' [Exp [TupleVarTerm 1 1] Expression] (-1), Term 1] Expression] (-1)] Equality],
     mInequalities := [Exp [TupleVarTerm (-1) 1, UFCallTerm 1 ''diag'' [Exp [TupleVarTerm 1 0] Expression] (-1), Term (-11)] Inequality,
       Exp [VarTerm 1 ''n'', TupleVarTerm (-1) 0, Term (-1)] Inequality]\<rparr>"

lemma solver_conj_facts: "names_ok solver_conj" "simple_conj solver_conj"
  by code_simp+

lemma solver_conj_text:
  "getZ3form [solver_conj] [] [] True = Inr ([''(declare-const tv0 Int)'', ''(declare-const tv1 Int)'',
     ''(assert (! (= tv0 (row (+ (col tv1) 1))) :named c11) )'', ''(assert (! (< (+ tv1 10) (diag tv0)) :named c12) )'',
     ''(assert (! (< tv0 n) :named c13) )''], [''col'', ''diag'', ''row''], [''n''])"
  by code_simp


text \<open>Constraints with more terms lose all but the last on each side, coefficients of calls are lost, other coefficients
  become part of a name, and the constraints of two conjunctions are asserted together.\<close>

lemma getZ3form_drops_terms:
  "getZ3form [(Conjunction_new 3 0)\<lparr>mInequalities := [Exp [TupleVarTerm 1 0, TupleVarTerm 1 1, TupleVarTerm (-1) 2] Inequality]\<rparr>] [] [] True
    = Inr ([''(declare-const tv0 Int)'', ''(declare-const tv1 Int)'', ''(declare-const tv2 Int)'',
        ''(assert (! (<= tv2 tv1) :named c11) )''], [], [])"
  by code_simp

lemma getZ3form_coefficients:
  "getZ3form [(Conjunction_new 1 0)\<lparr>mInequalities := [Exp [VarTerm (-2) ''n'', UFCallTerm 3 ''f'' [Exp [TupleVarTerm 1 0] Expression] (-1)] Inequality]\<rparr>] [] [] True
    = Inr ([''(declare-const tv0 Int)'', ''(assert (! (<= 2 n (f tv0)) :named c11) )''], [''f''], [''2 n''])"
  by code_simp

lemma getZ3form_second_argument:
  "getZ3form [(Conjunction_new 1 0)\<lparr>mEqualities := [Exp [UFCallTerm 1 ''f'' [Exp [TupleVarTerm 1 0] Expression, Exp [VarTerm 1 ''n''] Expression] (-1)] Equality]\<rparr>] [] [] True
    = Inr ([''(declare-const tv0 Int)'', ''(assert (! (= 0 (f tv0)) :named c11) )''], [''f''], [''n''])"
  by code_simp

lemma getZ3form_conjoins_union:
  "getZ3form [(Conjunction_new 1 0)\<lparr>mEqualities := [Exp [TupleVarTerm 1 0] Equality]\<rparr>,
      (Conjunction_new 1 0)\<lparr>mEqualities := [Exp [TupleVarTerm 1 0, Term (-1)] Equality]\<rparr>] [] [] True
    = Inr ([''(declare-const tv0 Int)'', ''(assert (! (= 0 tv0) :named c11) )'', ''(assert (! (= (+ 0 1) tv0) :named c12) )''], [], [])"
  by code_simp

lemma getString_loses_sides:
  "Set_getString \<lparr>mConjunctions = [(Conjunction_new 1 0)\<lparr>mEqualities := [Exp [TupleVarTerm 1 0, Term 5] Equality]\<rparr>], mArity = 1\<rparr>
     = Inr ''{ [tv0] :  = tv05 }''"
  "Set_getString \<lparr>mConjunctions = [(Conjunction_new 1 0)\<lparr>mInequalities := [Exp [TupleVarTerm (-1) 0, Term (-5)] Inequality]\<rparr>], mArity = 1\<rparr>
     = Inr ''{ [tv0] : tv0 + 4 <  }''"
  "Set_getString \<lparr>mConjunctions = [(Conjunction_new 2 0)\<lparr>mInequalities := [Exp [TupleVarTerm 1 0, TupleVarTerm 1 1] Inequality]\<rparr>], mArity = 2\<rparr>
     = Inr ''{ [tv0, tv1] : 0 <= tv1tv0 }''"
  by code_simp+

end
