(* ===== verification/Solver_Rules.thy ===== *)
theory Solver_Rules
  imports Solver_Correct
begin

text \<open>
  Quantified rules as assertions for the solver: the text of \<open>UniQuantRule::getZ3Form\<close> says what the rule says.
\<close>

section \<open>Formulas of the solver\<close>

datatype smt_formula = SAssert smt_atom | SForall "string list" "smt_atom list" "smt_atom list"

primrec formula_holds :: "(string \<Rightarrow> int) \<Rightarrow> (string \<Rightarrow> int \<Rightarrow> int) \<Rightarrow> smt_formula \<Rightarrow> bool" where
  "formula_holds V U (SAssert a) \<longleftrightarrow> atom_holds V U a"
| "formula_holds V U (SForall xs as bs) \<longleftrightarrow> (\<forall>W. (\<forall>x. x \<notin> set xs \<longrightarrow> W x = V x) \<longrightarrow>
     (\<forall>a \<in> set as. atom_holds W U a) \<longrightarrow> (\<forall>b \<in> set bs. atom_holds W U b))"

definition conjunction_text :: "smt_atom list \<Rightarrow> string" where
  "conjunction_text as = ''(and'' @ concat (map (\<lambda>a. '' '' @ atom_text a) as) @ '' ) ''"

definition rule_text :: "int \<Rightarrow> string list \<Rightarrow> smt_atom list \<Rightarrow> smt_atom list \<Rightarrow> string" where
  "rule_text n xs as bs = ''(assert (! (forall ( '' @ concat (map (\<lambda>x. ''('' @ x @ '' Int) '') xs) @ '') (=> '' @
     conjunction_text as @ conjunction_text bs @ '') )  :named a'' @ show_int n @ '') )''"

definition atoms_of :: "conjunction \<Rightarrow> smt_atom list" where
  "atoms_of c = map (atom_of (mTupleDecl c)) (constraints_of c)"

section \<open>The functions that are collected\<close>

fun call_names_trm :: "trm \<Rightarrow> string set" and call_names :: "exp \<Rightarrow> string set" where
  "call_names_trm (UFCallTerm c f args i) = insert f (\<Union>a \<in> set args. call_names a)"
| "call_names_trm (Term c) = {}"
| "call_names_trm (VarTerm c x) = {}"
| "call_names_trm (TupleVarTerm c l) = {}"
| "call_names (Exp ts et) = (\<Union>t \<in> set ts. call_names_trm t)"

lemma visit_all_names:
  assumes "visit_all f xs s = Inr (ys, s')"
    and "\<And>x y s s'. x \<in> set xs \<Longrightarrow> f x s = Inr (y, s') \<Longrightarrow> set (ufsTs s') \<subseteq> set (ufsTs s) \<union> F x"
  shows "set (ufsTs s') \<subseteq> set (ufsTs s) \<union> (\<Union>x \<in> set xs. F x)"
  using assms
proof (induction xs arbitrary: s ys)
  case (Cons x xs)
  from Cons.prems(1) obtain y s1 zs where 1: "f x s = Inr (y, s1)" "visit_all f xs s1 = Inr (zs, s')" by auto
  have "set (ufsTs s1) \<subseteq> set (ufsTs s) \<union> F x" using Cons.prems(2)[OF _ 1(1)] by simp
  moreover have "set (ufsTs s') \<subseteq> set (ufsTs s1) \<union> (\<Union>x \<in> set xs. F x)"
  proof (rule Cons.IH[OF 1(2)])
    fix x' y s s' assume "x' \<in> set xs" "f x' s = Inr (y, s')"
    then show "set (ufsTs s') \<subseteq> set (ufsTs s) \<union> F x'" using Cons.prems(2)[of x' s y s'] by simp
  qed
  ultimately show ?case by auto
qed simp

lemma z3_names [simp]:
  "ufsTs (z3_side c t s) = ufsTs s" "ufsTs (z3_var c t s) = ufsTs s" "ufsTs (z3_leave_call u s) = ufsTs s"
  "set (ufsTs (z3_enter_call (UFCallTerm c f args i) s)) = insert f (set (ufsTs s))"
  by (simp_all add: z3_side_def z3_var_def z3_leave_call_def z3_enter_call_def Let_def set_insert_name)

text \<open>The visitor collects functions of what it visits only.\<close>

lemma visit_names:
  "accept_trm (VisitorGetZ3form d) t s = Inr (t', s') \<Longrightarrow> set (ufsTs s') \<subseteq> set (ufsTs s) \<union> call_names_trm t"
  "accept_exp (VisitorGetZ3form d) e s = Inr (e', s') \<Longrightarrow> set (ufsTs s') \<subseteq> set (ufsTs s) \<union> call_names e"
proof (induction t and e arbitrary: s t' s' and s e' s' rule: call_names_trm_call_names.induct)
  case (1 c f args i)
  let ?t = "UFCallTerm c f args i"
  obtain ys s1 where 1: "visit_all (accept_exp (VisitorGetZ3form d)) args (z3_enter_call ?t s) = Inr (ys, s1)" "ufsTs s' = ufsTs s1"
    using "1.prems" by auto
  have "set (ufsTs s1) \<subseteq> set (ufsTs (z3_enter_call ?t s)) \<union> (\<Union>a \<in> set args. call_names a)"
    by (rule visit_all_names[OF 1(1)]) (rule "1.IH")
  then show ?case using 1(2) by auto
next
  case (5 ts et)
  obtain ys s0 s1 where 1: "visit_all (accept_trm (VisitorGetZ3form d)) ts s0 = Inr (ys, s1)" "ufsTs s0 = ufsTs s" "ufsTs s' = ufsTs s1"
    using "5.prems" by (auto split: if_splits)
  have "set (ufsTs s1) \<subseteq> set (ufsTs s0) \<union> (\<Union>t \<in> set ts. call_names_trm t)"
    by (rule visit_all_names[OF 1(1)]) (rule "5.IH")
  then show ?case using 1(2,3) by auto
qed auto

lemma smt_call_names:
  "smt_of_trm td t = Some a \<Longrightarrow> call_names_trm t = smt_calls a"
  "smt_of_arg td e = Some b \<Longrightarrow> call_names e = smt_calls b"
proof (induction td t and td e arbitrary: a and b rule: smt_of_trm_smt_of_arg.induct)
  case (4 td c f args i)
  then show ?case by (auto split: list.splits if_splits)
next
  case (5 td ts et)
  then show ?case by (fastforce simp: isConst_Term split: list.splits if_splits)
qed (auto split: if_splits sum.splits)

lemma constraint_names:
  assumes e: "simple_constraint td e"
  shows "call_names e \<subseteq> atom_calls (atom_of td e)"
proof
  let ?ts = "mTerms e" and ?l = "filter neg_term (mTerms e)" and ?r = "filter pos_term (mTerms e)"
  fix f assume "f \<in> call_names e"
  then obtain t where t: "t \<in> set ?ts" "f \<in> call_names_trm t" by (cases e) auto
  then have const: "\<not> isConst_term t" by (auto simp: isConst_Term)
  then obtain a where a: "smt_of_trm td t = Some a" using e t(1) by (auto simp: simple_constraint_def list_all_iff)
  have "smt_calls (last_term td us) = call_names_trm t" if "t \<in> set us" "length us \<le> 1" for us
  proof -
    have "us = [t]" using that by (cases us) auto
    then show ?thesis using a smt_call_names(1)[OF a] by (simp add: last_term_def)
  qed
  moreover have "t \<in> set ?l \<or> t \<in> set ?r" using t(1) const by (auto simp: neg_term_def pos_term_def)
  ultimately have "f \<in> smt_calls (last_term td ?l) \<union> smt_calls (last_term td ?r)"
    using t(2) e by (auto simp: simple_constraint_def)
  moreover have "atom_calls (atom_of td e) = smt_calls (last_term td ?l) \<union> smt_calls (last_term td ?r)"
    by (auto simp: atom_of_def Let_def split: prod.split)
  ultimately show "f \<in> atom_calls (atom_of td e)" by simp
qed

lemma constraints_names:
  assumes "visit_all (accept_exp (VisitorGetZ3form d)) es s = Inr (es', s')" "\<forall>e \<in> set es. simple_constraint td e"
  shows "set (ufsTs s') \<subseteq> set (ufsTs s) \<union> (\<Union>e \<in> set es. atom_calls (atom_of td e))"
  by (rule visit_all_names[OF assms(1)]) (use assms(2) visit_names(2) constraint_names in blast)

section \<open>The text of a rule\<close>

lemma contains_prefix: "contains pat (pat @ s)"
proof (cases pat)
  case Nil
  then show ?thesis by (cases s) simp_all
qed simp

lemma and_text_conjunction:
  assumes "as \<noteq> []"
  shows "and_text [''(assert '' @ (''(and'' @ concat (map (\<lambda>t. '' '' @ t) (map atom_text as)) @ '' )'') @ '' )''] = conjunction_text as"
proof -
  obtain a bs where as: "as = a # bs" using assms by (cases as) auto
  have "contains ''(assert (and '' (''(assert (and '' @ atom_text a @ concat (map (\<lambda>t. '' '' @ t) (map atom_text bs)) @ '' ) )'')"
    by (rule contains_prefix)
  then have c: "contains ''(assert (and '' (''(assert '' @ (''(and'' @ concat (map (\<lambda>t. '' '' @ t) (map atom_text as)) @ '' )'') @ '' )'')"
    unfolding as by simp
  have "drop 8 (''(assert '' @ x @ '' )'') = x @ '' )''" for x :: string by simp
  then show ?thesis using c by (simp add: and_text_def conjunction_text_def butlast_append comp_def del: contains.simps)
qed

lemma getZ3form_and:
  assumes e: "\<forall>e \<in> set (constraints_of c). simple_constraint (mTupleDecl c) e" and some: "constraints_of c \<noteq> []"
  obtains fs vs where "getZ3form [c] fs0 vs0 False =
      Inr ([''(assert '' @ (''(and'' @ concat (map (\<lambda>t. '' '' @ t) (map atom_text (atoms_of c))) @ '' )'') @ '' )''], fs, vs)"
    "set fs = set fs0 \<union> (\<Union>a \<in> set (atoms_of c). atom_calls a)"
proof -
  let ?V = "VisitorGetZ3form False" and ?td = "mTupleDecl c"
  let ?s = "(z3_start fs0 vs0)\<lparr>conjZ3Form := [], z3_decl := ?td, expZ3Form := []\<rparr>"
  have eqs: "\<forall>e \<in> set (mEqualities c). simple_constraint ?td e" "\<forall>e \<in> set (mInequalities c). simple_constraint ?td e"
    using e by (simp_all add: constraints_of_def)
  obtain s1 where s1: "visit_all (accept_exp ?V) (mEqualities c) ?s = Inr (mEqualities c, s1)" "grows ?s s1" "z3_decl s1 = ?td"
    "expZ3Form s1 = expZ3Form ?s @ map (\<lambda>e. atom_text (atom_of ?td e)) (mEqualities c)" "cc s1 = cc ?s" "conjZ3Form s1 = conjZ3Form ?s"
    "z3Form s1 = z3Form ?s" "\<forall>e \<in> set (mEqualities c). named_in s1 (atom_of ?td e)"
    by (rule constraints_visit[OF eqs(1), of ?s False]) simp
  obtain s2 where s2: "visit_all (accept_exp ?V) (mInequalities c) s1 = Inr (mInequalities c, s2)" "grows s1 s2" "z3_decl s2 = ?td"
    "expZ3Form s2 = expZ3Form s1 @ map (\<lambda>e. atom_text (atom_of ?td e)) (mInequalities c)" "cc s2 = cc s1" "conjZ3Form s2 = conjZ3Form s1"
    "z3Form s2 = z3Form s1" "\<forall>e \<in> set (mInequalities c). named_in s2 (atom_of ?td e)"
    by (rule constraints_visit[OF eqs(2) s1(3), of False]) blast
  let ?ts = "map atom_text (atoms_of c)"
  have exps: "expZ3Form s2 = ?ts" using s1(4) s2(4) by (simp add: constraints_of_def atoms_of_def)
  let ?and = "''(and'' @ concat (map (\<lambda>t. '' '' @ t) ?ts) @ '' )''"
  let ?s3 = "s2\<lparr>conjZ3Form := [?and]\<rparr>"
  have some': "length ?ts > 0" using some by (simp add: atoms_of_def)
  have nil: "conjZ3Form s2 = []" using s1(6) s2(6) by simp
  have "postVisitConjunction ?V c s2 = Inr (c, ?s3)"
    unfolding z3_conj_hooks exps nil if_P[OF some'] if_False append_Nil ..
  then have conj: "accept_conj ?V c ((z3_start fs0 vs0)\<lparr>conjZ3Form := []\<rparr>) = Inr (c, ?s3)"
    using s1(1) s2(1) by (simp add: accept_conj_def)
  have "z3Form s2 = []" using s1(7) s2(7) by (simp add: z3_start_def)
  then have "z3_leave_sparse False ?s3 = Inr (?s3\<lparr>z3Form := [''(assert '' @ ?and @ '' )'']\<rparr>)"
    by (simp add: z3_leave_sparse_def)
  then have "getZ3form [c] fs0 vs0 False = Inr ([''(assert '' @ ?and @ '' )''], ufsTs s2, vtTs s2)"
    using conj by (simp add: getZ3form_def accept_sparse_def)
  moreover have "\<forall>e \<in> set (constraints_of c). named_in s2 (atom_of ?td e)"
    using s1(8) s2(8) named_in_mono[OF _ s2(2)] unfolding constraints_of_def set_append by blast
  then have "\<forall>a \<in> set (atoms_of c). atom_calls a \<subseteq> set (ufsTs s2)" by (simp add: named_in_def atoms_of_def)
  moreover have "set fs0 \<subseteq> set (ufsTs s2)" using grows_trans[OF s1(2) s2(2)] by (simp add: grows_def z3_start_def)
  moreover have "set (ufsTs s2) \<subseteq> set fs0 \<union> (\<Union>a \<in> set (atoms_of c). atom_calls a)"
    using constraints_names[OF s1(1) eqs(1)] constraints_names[OF s2(1) eqs(2)]
    by (auto simp: z3_start_def atoms_of_def constraints_of_def)
  ultimately show thesis by (intro that[of "ufsTs s2" "vtTs s2"]) auto
qed

text \<open>A rule that is a simple conjunction on both sides, over the same variables.\<close>

definition simple_rule :: "conjunction \<Rightarrow> conjunction \<Rightarrow> bool" where
  "simple_rule p q \<longleftrightarrow> names_ok p \<and> names_ok q \<and> simple_conj p \<and> simple_conj q \<and> constraints_of p \<noteq> [] \<and>
     constraints_of q \<noteq> [] \<and> mTupleDecl q = mTupleDecl p"

definition rule_formula :: "conjunction \<Rightarrow> conjunction \<Rightarrow> smt_formula" where
  "rule_formula p q = SForall (map elem_text (mTupleDecl p)) (atoms_of p) (atoms_of q)"

definition rule_assertion :: "int \<Rightarrow> conjunction \<Rightarrow> conjunction \<Rightarrow> string" where
  "rule_assertion n p q = rule_text n (map elem_text (mTupleDecl p)) (atoms_of p) (atoms_of q)"

definition rule_calls :: "conjunction \<Rightarrow> conjunction \<Rightarrow> string set" where
  "rule_calls p q = (\<Union>a \<in> set (atoms_of p @ atoms_of q). atom_calls a)"

lemma set_insert_names: "set (insert_names names new) = set names \<union> set new"
  unfolding insert_names_def by (induction new arbitrary: names) (auto simp: set_insert_name)

lemma simple_conjD: "simple_conj c \<Longrightarrow> \<forall>e \<in> set (constraints_of c). simple_constraint (mTupleDecl c) e"
  by (simp add: simple_conj_def list_all_iff)

lemma decl_texts:
  assumes "names_ok c"
  shows "map_result (\<lambda>i. bind_result (elemToString (mTupleDecl c) i) (\<lambda>e. Inr (''('' @ e @ '' Int) ''))) [0..<length (mTupleDecl c)]
    = Inr (map (\<lambda>x. ''('' @ x @ '' Int) '') (map elem_text (mTupleDecl c)))"
proof -
  let ?td = "mTupleDecl c"
  have one: "elemToString ?td i = Inr (elem_text (?td ! i))" if "i < length ?td" for i
    using that by (simp add: elemToString_def)
  have "map_result (\<lambda>i. bind_result (elemToString ?td i) (\<lambda>e. Inr (''('' @ e @ '' Int) ''))) is
      = Inr (map (\<lambda>i. ''('' @ elem_text (?td ! i) @ '' Int) '') is)" if "\<forall>i \<in> set is. i < length ?td" for "is"
    using that by (induction "is") (simp_all add: one)
  then have "map_result (\<lambda>i. bind_result (elemToString ?td i) (\<lambda>e. Inr (''('' @ e @ '' Int) ''))) [0..<length ?td]
      = Inr (map (\<lambda>i. ''('' @ elem_text (?td ! i) @ '' Int) '') [0..<length ?td])" by simp
  also have "map (\<lambda>i. ''('' @ elem_text (?td ! i) @ '' Int) '') [0..<length ?td] = map (\<lambda>x. ''('' @ x @ '' Int) '') (map elem_text ?td)"
    by (rule nth_equalityI) simp_all
  finally show ?thesis .
qed

lemma getZ3Form_text:
  assumes r: "simple_rule p q" "mConjunctions (mLeftSide r) = [p]" "mConjunctions (mRightSide r) = [q]" and rel: "relUFSs \<noteq> []"
  obtains fs vs where "UniQuantRule_getZ3Form r relUFSs glVarSyms n =
      Inr (if \<exists>f \<in> set fs. f \<in> set relUFSs \<or> f = ''ALL_UFSs''
           then (rule_assertion n p q, insert_names relUFSs fs, insert_names glVarSyms vs) else ('''', relUFSs, glVarSyms))"
    "set fs = rule_calls p q"
proof -
  have ok: "names_ok p" "simple_conj p" "simple_conj q" "constraints_of p \<noteq> []" "constraints_of q \<noteq> []"
    using r(1) by (simp_all add: simple_rule_def)
  obtain fs1 vs1 where 1: "getZ3form [p] [] [] False =
      Inr ([''(assert '' @ (''(and'' @ concat (map (\<lambda>t. '' '' @ t) (map atom_text (atoms_of p))) @ '' )'') @ '' )''], fs1, vs1)"
    "set fs1 = set [] \<union> (\<Union>a \<in> set (atoms_of p). atom_calls a)"
    by (rule getZ3form_and[OF simple_conjD[OF ok(2)] ok(4)])
  obtain fs vs where 2: "getZ3form [q] fs1 vs1 False =
      Inr ([''(assert '' @ (''(and'' @ concat (map (\<lambda>t. '' '' @ t) (map atom_text (atoms_of q))) @ '' )'') @ '' )''], fs, vs)"
    "set fs = set fs1 \<union> (\<Union>a \<in> set (atoms_of q). atom_calls a)"
    by (rule getZ3form_and[OF simple_conjD[OF ok(3)] ok(5)])
  have some: "atoms_of p \<noteq> []" "atoms_of q \<noteq> []" using ok(4,5) by (simp_all add: atoms_of_def)
  have td: "sparse_getTupleDecl [p] = Inr (mTupleDecl p)" by (simp add: sparse_getTupleDecl_def)
  show thesis
  proof (rule that)
    show "UniQuantRule_getZ3Form r relUFSs glVarSyms n =
      Inr (if \<exists>f \<in> set fs. f \<in> set relUFSs \<or> f = ''ALL_UFSs''
           then (rule_assertion n p q, insert_names relUFSs fs, insert_names glVarSyms vs) else ('''', relUFSs, glVarSyms))"
      unfolding UniQuantRule_getZ3Form_def if_not_P[OF rel] td bind_result_simps decl_texts[OF ok(1)] r(2,3) 1(1) 2(1) Let_def prod.case
        and_text_conjunction[OF some(1)] and_text_conjunction[OF some(2)]
      by (simp add: rule_assertion_def rule_text_def list_ex_iff)
    show "set fs = rule_calls p q" using 1(2) 2(2) by (auto simp: rule_calls_def)
  qed
qed

text \<open>The rule at the symbols of a point: for all values of the variables.\<close>

definition rule_holds :: "interp \<Rightarrow> conjunction \<Rightarrow> conjunction \<Rightarrow> bool" where
  "rule_holds I p q \<longleftrightarrow> (\<forall>f. conj_holds (I\<lparr>tv := f\<rparr>) p \<longrightarrow> conj_holds (I\<lparr>tv := f\<rparr>) q)"

definition rule_symbols :: "conjunction \<Rightarrow> conjunction \<Rightarrow> string set" where
  "rule_symbols p q = conj_symbols p \<union> conj_symbols q"

lemma rule_formula_value:
  assumes r: "simple_rule p q" and V: "\<forall>x \<in> rule_symbols p q. V x = sym I x"
  shows "formula_holds V (unary I) (rule_formula p q) \<longleftrightarrow> rule_holds I p q"
proof -
  let ?td = "mTupleDecl p" and ?S = "rule_symbols p q"
  let ?names = "set (map elem_text ?td)"
  have ok: "names_ok p" "names_ok q" "simple_conj p" "simple_conj q" "mTupleDecl q = ?td" using r by (simp_all add: simple_rule_def)
  have apart: "x \<notin> ?names" if "x \<in> ?S" for x
    using that ok(1,2,5) by (auto simp: rule_symbols_def names_ok_def conj_symbols_def list_all_iff)
  have unary: "unary (I\<lparr>tv := f\<rparr>) = unary I" for f by (intro ext) (simp add: unary_def)
  have atoms: "conj_holds (I\<lparr>tv := f\<rparr>) p \<longleftrightarrow> (\<forall>a \<in> set (atoms_of p). atom_holds W (unary I) a)"
    "conj_holds (I\<lparr>tv := f\<rparr>) q \<longleftrightarrow> (\<forall>a \<in> set (atoms_of q). atom_holds W (unary I) a)" if "agrees ?td ?S W (I\<lparr>tv := f\<rparr>)" for f W
    using conj_atoms[OF ok(1,3), of W "I\<lparr>tv := f\<rparr>"] conj_atoms[OF ok(2,4), of W "I\<lparr>tv := f\<rparr>"] that
    by (simp_all add: atoms_of_def unary agrees_def rule_symbols_def ok(5) ball_Un)
  show ?thesis
  proof
    assume F: "formula_holds V (unary I) (rule_formula p q)"
    show "rule_holds I p q" unfolding rule_holds_def
    proof (intro allI impI)
      fix f assume P: "conj_holds (I\<lparr>tv := f\<rparr>) p"
      obtain W0 where W0: "agrees ?td (conj_symbols p) W0 (I\<lparr>tv := f\<rparr>)" by (rule values_for_point[OF ok(1)])
      let ?W = "\<lambda>x. if x \<in> ?names then W0 x else V x"
      have "agrees ?td ?S ?W (I\<lparr>tv := f\<rparr>)"
        using W0 V apart by (auto simp: agrees_def declared_name_iff[OF ok(1)] nat_less_iff)
      from atoms[OF this] P F show "conj_holds (I\<lparr>tv := f\<rparr>) q" by (auto simp: rule_formula_def)
    qed
  next
    assume R: "rule_holds I p q"
    show "formula_holds V (unary I) (rule_formula p q)" unfolding rule_formula_def formula_holds.simps
    proof (intro allI impI)
      fix W assume W: "\<forall>x. x \<notin> ?names \<longrightarrow> W x = V x" and P: "\<forall>a \<in> set (atoms_of p). atom_holds W (unary I) a"
      let ?f = "\<lambda>l. case declared_name ?td l of Inr x \<Rightarrow> W x | Inl e \<Rightarrow> 0"
      have "agrees ?td ?S W (I\<lparr>tv := ?f\<rparr>)" using W V apart by (auto simp: agrees_def)
      from atoms[OF this] P R show "\<forall>a \<in> set (atoms_of q). atom_holds W (unary I) a" by (auto simp: rule_holds_def)
    qed
  qed
qed


text \<open>An example: \<open>e1 < e2 => rowptr(e1) < rowptr(e2)\<close>.\<close>

definition monotone_left :: conjunction where
  "monotone_left = (Conjunction_new 2 0)\<lparr>mInequalities := [Exp [TupleVarTerm (-1) 0, TupleVarTerm 1 1, Term (-1)] Inequality]\<rparr>"

definition monotone_right :: conjunction where
  "monotone_right = (Conjunction_new 2 0)\<lparr>mInequalities := [Exp [UFCallTerm (-1) ''rowptr'' [Exp [TupleVarTerm 1 0] Expression] (-1),
     UFCallTerm 1 ''rowptr'' [Exp [TupleVarTerm 1 1] Expression] (-1), Term (-1)] Inequality]\<rparr>"

definition monotone_rule :: "set_object uniq_rule" where
  "monotone_rule = \<lparr>mUniQuantRuleType = Monotonicity, mLeftSide = \<lparr>mConjunctions = [monotone_left], mArity = 2\<rparr>,
     mRightSide = \<lparr>mConjunctions = [monotone_right], mArity = 2\<rparr>\<rparr>"

lemma monotone_simple: "simple_rule monotone_left monotone_right"
  by code_simp

lemma monotone_rule_text:
  "UniQuantRule_getZ3Form monotone_rule [''rowptr''] [] 3 = Inr
     (''(assert (! (forall ( (tv0 Int) (tv1 Int) ) (=> (and (< tv0 tv1) ) (and (< (rowptr tv0) (rowptr tv1)) ) ) )  :named a3) )'', [''rowptr''], [])"
  by code_simp


end
