(* ===== verification/Driver.thy ===== *)
theory Driver
  imports Solver_Rules
begin

text \<open>
  The driver \<open>findFullParWithZ3.cc\<close> with \<open>jsonHelper.cc\<close>: which rules each round uses, the script for the solver, the
  decision for one dependence, the loop over the dependences of a loop and the rounds, and the texts it reads and
  writes. What a JSON file holds is a record, the parser of relations and the solver are parameters: the solver is given
  the number of the script and its text and returns the lines it prints. Timing and the log of a loop are left out.
\<close>

section \<open>The environment from the input file\<close>

record ufc_info =
  ufc_Name :: string
  ufc_Domain :: string
  ufc_Range :: string
  ufc_Bijective :: string
  ufc_Monotonicity :: string

definition json_monotonicity :: "string \<Rightarrow> monotonic_type" where
  "json_monotonicity s =
     (if s = ''Monotonic_Nondecreasing'' then Monotonic_Nondecreasing
      else if s = ''Monotonic_Increasing'' then Monotonic_Increasing
      else Monotonic_NONE)"

text \<open>An exception of \<open>appendCurrEnv\<close> leaves the loop and the environment it has made so far.\<close>

fun addUFCs ::
  "(string \<Rightarrow> set_object) \<Rightarrow> set_object environment \<Rightarrow> ufc_info list \<Rightarrow> set_object environment \<times> error option" where
  "addUFCs parse env [] = (env, None)"
| "addUFCs parse env (u # us) =
     (case appendCurrEnv parse mArity env (ufc_Name u) (parse (ufc_Domain u)) (parse (ufc_Range u))
         (ufc_Bijective u = ''true'') (json_monotonicity (ufc_Monotonicity u)) of
        (env, None) \<Rightarrow> addUFCs parse env us
      | (env, Some e) \<Rightarrow> (env, Some e))"

record rule_info =
  rule_Type :: string
  rule_UniQuantVar :: string
  rule_p :: string
  rule_q :: string

definition addUniQuantRules :: "(string \<Rightarrow> set_object) \<Rightarrow> set_object environment \<Rightarrow> rule_info list \<Rightarrow> set_object environment" where
  "addUniQuantRules parse env uqCons =
     foldl (\<lambda>env u. addUniQuantRule env (UniQuantRule parse (rule_Type u) (rule_UniQuantVar u) (rule_p u) (rule_q u))) env uqCons"

text \<open>The first variable with the name, or -1.\<close>

definition notProjectIters :: "relation_object \<Rightarrow> int list \<Rightarrow> string list \<Rightarrow> int list result" where
  "notProjectIters rel parallelTvs np =
     bind_result (sparse_getTupleDecl (rConjunctions rel)) (\<lambda>td.
       fold_result (\<lambda>tvs tvS.
           bind_result (map_result (elemToString td) [0..<length td]) (\<lambda>names.
             Inr (insert_unique (<) (case find (\<lambda>c. names ! c = tvS) [0..<length names] of None \<Rightarrow> -1 | Some c \<Rightarrow> int c) tvs)))
         parallelTvs np)"

section \<open>The rules of each round\<close>

abbreviation NRL :: nat where "NRL \<equiv> 8"

abbreviation NART :: nat where "NART \<equiv> 3"

definition set_use :: "bool list list \<Rightarrow> nat \<times> nat \<Rightarrow> bool list list" where
  "set_use t = (\<lambda>(i, j). t[i := (t ! i)[j := True]])"

definition check_useRule :: "bool list list" where
  "check_useRule = foldl set_use (replicate NRL (replicate 10 False))
     [(1, 0), (2, 1), (3, 2), (4, 0), (4, 1), (5, 0), (5, 2), (6, 1), (6, 2), (7, 0), (7, 1), (7, 2)]"

definition checkRuleStr :: "string list" where
  "checkRuleStr = [''[Only Functional Consistency]'', ''[Monotonicity]'', ''[Periodic Monotonicity]'', ''[Triangularity]'',
     ''[Monotonicity,Periodic Monotonicity]'', ''[Monotonicity,Triangularity]'', ''[Periodic Monotonicity,Triangularity]'',
     ''[Monotonicity,Periodic Monotonicity,Triangularity]'']"

definition useRule_of :: "nat \<Rightarrow> bool list" where
  "useRule_of rlc = map (\<lambda>i. if i \<le> NART then check_useRule ! rlc ! i else False) [0..<10]"

definition getUQR_step ::
  "bool list \<Rightarrow> set_object environment \<Rightarrow> string list \<times> string list \<times> string list \<times> int \<Rightarrow> nat \<Rightarrow>
     (string list \<times> string list \<times> string list \<times> int) result" where
  "getUQR_step useRule env = (\<lambda>(uqrs, UFSyms, VarSyms, uqa_c) i.
     bind_result (getUniQuantRule env (int i)) (\<lambda>uqRule.
     bind_result (use_rule useRule (mUniQuantRuleType uqRule)) (\<lambda>use.
       if \<not> use then Inr (uqrs, UFSyms, VarSyms, uqa_c)
       else bind_result (UniQuantRule_getZ3Form uqRule UFSyms VarSyms uqa_c) (\<lambda>(z3Str, UFSyms, VarSyms).
         Inr (if z3Str \<noteq> '''' then uqrs @ [z3Str] else uqrs, UFSyms, VarSyms, uqa_c + 1)))))"

definition getUQR ::
  "set_object environment \<Rightarrow> nat \<Rightarrow> string list \<Rightarrow> string list \<Rightarrow> int \<Rightarrow>
     (string list \<times> string list \<times> string list \<times> int) result" where
  "getUQR env rlc UFSyms VarSyms uqa_c =
     fold_result (getUQR_step (useRule_of rlc) env) ([], UFSyms, VarSyms, uqa_c) [0..<getNoUniQuantRules env]"

section \<open>One dependence\<close>

record z3_info =
  z3_Path :: string
  z3_timeout :: string
  z3_Extra_Symbols :: "string list"

definition declare_fun :: "set_object environment \<Rightarrow> string \<Rightarrow> string result" where
  "declare_fun env f =
     bind_result (queryDomainArityCurrEnv mArity env f) (\<lambda>nd.
     bind_result (queryRangeArityCurrEnv mArity env f) (\<lambda>nr.
       Inr (''(declare-fun '' @ f @ '' ( '' @ concat (replicate nd ''Int '') @ '')'' @ concat (replicate nr '' Int'') @ '') '')))"

definition uf_step ::
  "(string \<Rightarrow> set_object) \<Rightarrow> set_object environment \<Rightarrow> string list \<times> string list \<times> int \<Rightarrow> string \<Rightarrow>
     (string list \<times> string list \<times> int) result" where
  "uf_step parse env = (\<lambda>(UFSymDef, glVarSyms, uqa_c) f.
     bind_result (declare_fun env f) (\<lambda>z3Str.
     bind_result (getUQRForFuncDomainRange parse (queryInverseCurrEnv env) env f) (\<lambda>uqRule.
     bind_result (UniQuantRule_getZ3Form uqRule [f] glVarSyms uqa_c) (\<lambda>(drZ3Str, relUFSs, glVarSyms).
       Inr (UFSymDef @ [z3Str, drZ3Str], glVarSyms, uqa_c + 1)))))"

abbreviation newline :: string where "newline \<equiv> [CHR 0x0A]"

definition text_lines :: "string list \<Rightarrow> string" where
  "text_lines ls = concat (map (\<lambda>l. l @ newline) ls)"

definition script_text :: "string \<Rightarrow> string list \<Rightarrow> string list \<Rightarrow> string \<Rightarrow> string list \<Rightarrow> string list \<Rightarrow> string" where
  "script_text timeout glVarSyms UFSymDef dep constrants properties =
     ''(set-option :timeout '' @ timeout @ '')'' @ newline @ ''(set-option :produce-unsat-cores true)'' @ newline @
     newline @ newline @ ''; Defining Global variables:'' @ newline @ newline @
     text_lines (map (\<lambda>v. ''(declare-const '' @ v @ '' Int)'') glVarSyms) @
     newline @ newline @ '';  Defining UFSymbols, and their domain and range :'' @ newline @ newline @
     text_lines UFSymDef @
     newline @ newline @ ''; Defining the constraints in the dependence relation (and tuple variables):'' @ newline @ newline @
     ''; Dependence (IEGenLib Relation) = '' @ dep @ newline @ newline @
     text_lines constrants @
     newline @ newline @ ''; Defining universially quantified assertions relevant to UFCalls found in the dependence:'' @ newline @ newline @
     text_lines properties @
     newline @ newline @ ''(check-sat)'' @ newline @ newline @ newline @ ''(get-unsat-core)'' @ newline"

text \<open>The answer is the first line that the solver prints.\<close>

definition first_line :: "string list \<Rightarrow> string" where
  "first_line ls = (case ls of [] \<Rightarrow> '''' | l # _ \<Rightarrow> l)"

definition decideWithZ3 ::
  "(string \<Rightarrow> set_object) \<Rightarrow> (string \<Rightarrow> string \<Rightarrow> string list) \<Rightarrow> set_object environment \<Rightarrow> z3_info \<Rightarrow> relation_object \<Rightarrow> int \<Rightarrow>
     string list \<Rightarrow> string list \<Rightarrow> string list \<Rightarrow> string list \<Rightarrow> int \<Rightarrow> bool result" where
  "decideWithZ3 parse z3 env z3Info dep n glVarSyms UFSyms constrants properties uqa_c =
     bind_result (fold_result (uf_step parse env) ([], glVarSyms, uqa_c) UFSyms) (\<lambda>(UFSymDef, glVarSyms, uqa_c).
     bind_result (Relation_getString dep) (\<lambda>depStr.
       let glVarSyms = insert_names glVarSyms (z3_Extra_Symbols z3Info);
           n_outF = z3_Path z3Info @ ''_'' @ show_int n @ ''.smt2'';
           ans = first_line (z3 n_outF (script_text (z3_timeout z3Info) glVarSyms UFSymDef depStr constrants properties))
       in Inr (ans \<noteq> ''unsat'')))"

text \<open>The body of the loop over the dependences: the text of the relation, the rules of the round, and the decision.\<close>

definition decide_relation ::
  "(string \<Rightarrow> set_object) \<Rightarrow> (string \<Rightarrow> string \<Rightarrow> string list) \<Rightarrow> set_object environment \<Rightarrow> z3_info \<Rightarrow> nat \<Rightarrow> relation_object \<Rightarrow> int \<Rightarrow>
     bool result" where
  "decide_relation parse z3 env z3Info rlc rel n =
     bind_result (getZ3form (rConjunctions rel) [] [] True) (\<lambda>(constrants, UFSyms, VarSyms).
     bind_result (if rlc > 0 then getUQR env rlc UFSyms VarSyms 1 else Inr ([], UFSyms, VarSyms, 1))
       (\<lambda>(properties, UFSyms, VarSyms, uqa_c).
       decideWithZ3 parse z3 env z3Info rel n VarSyms UFSyms constrants properties uqa_c))"

section \<open>The dependences of a loop\<close>

record dep_rel =
  dep_relation :: "relation_object option"
  simpRel :: "relation_object option"
  unsat :: int
  dep_fs :: bool
  dep_mono :: bool
  dep_coMono :: bool
  dep_tri :: bool
  dep_dr :: bool
  dep_combo :: bool
  origComplexity :: string
  simpComplexity :: string

definition depRel_new :: dep_rel where
  "depRel_new = \<lparr>dep_relation = None, simpRel = None, unsat = 0, dep_fs = False, dep_mono = False, dep_coMono = False, dep_tri = False, dep_dr = False,
     dep_combo = False, origComplexity = '''', simpComplexity = ''''\<rparr>"

definition setDependencesVal :: "dep_rel list \<Rightarrow> nat \<Rightarrow> int \<Rightarrow> bool \<Rightarrow> dep_rel list" where
  "setDependencesVal dependences relNo ruleCombo val = dependences[relNo := (dependences ! relNo)\<lparr>unsat := ruleCombo\<rparr>]"

text \<open>\<open>uniqueRelations\<close> is the list of the copies in the set.\<close>

fun relation_known :: "(string \<Rightarrow> string) \<Rightarrow> relation_object \<Rightarrow> relation_object list \<Rightarrow> bool result" where
  "relation_known qinv rel [] = Inr False"
| "relation_known qinv rel (r # rs) =
     bind_result (Relation_less qinv rel r) (\<lambda>below. bind_result (Relation_less qinv r rel) (\<lambda>above.
       if \<not> below \<and> \<not> above then Inr True else relation_known qinv rel rs))"

record missing_info =
  induction_iterator :: string
  constraints_to_add :: string
  iterators_to_add :: "string list"

definition add_iterator :: "string list \<times> string list \<Rightarrow> string \<Rightarrow> (string list \<times> string list) result" where
  "add_iterator = (\<lambda>(ins, outs) itToAdd.
     if itToAdd = '''' then Inl (Undefined ''string index out of bounds'')
     else if last itToAdd = CHR ''p'' then
       (if length outs < 20 then Inr (ins, outs @ [itToAdd]) else Inl (Undefined ''array index out of bounds''))
     else (if length ins < 20 then Inr (ins @ [itToAdd], outs) else Inl (Undefined ''array index out of bounds'')))"

definition add_missing ::
  "string \<Rightarrow> bool \<times> string \<times> string list \<times> string list \<Rightarrow> missing_info \<Rightarrow> (bool \<times> string \<times> string list \<times> string list) result" where
  "add_missing relStr = (\<lambda>(notChanged, constr, ins, outs) m.
     if contains (induction_iterator m) relStr then
       bind_result (fold_result add_iterator (ins, outs) (iterators_to_add m)) (\<lambda>(ins, outs).
         Inr (False, constr @ '' && '' @ constraints_to_add m, ins, outs))
     else Inr (notChanged, constr, ins, outs))"

definition comma_list :: "string list \<Rightarrow> string" where
  "comma_list xs = hd xs @ concat (map (\<lambda>x. '','' @ x) (tl xs))"

definition adMissingInductionConstraints :: "string \<Rightarrow> missing_info list \<Rightarrow> string result" where
  "adMissingInductionConstraints relStr missingConstraints =
     bind_result (getPartsFromStr relStr) (\<lambda>parts.
     bind_result (tupVarsExtract (tupDecl parts) 5 5) (\<lambda>tupVars.
       if length tupVars < 10 then Inl (Undefined ''front of an empty queue'')
       else bind_result (fold_result (add_missing relStr) (True, constraints parts, take 5 tupVars, take 5 (drop 5 tupVars)) missingConstraints)
         (\<lambda>(notChanged, constr, ins, outs).
           Inr (if notChanged then relStr
                else getFullStrFromParts (parts\<lparr>constraints := constr, tupDecl := ''['' @ comma_list ins @ ''] -> ['' @ comma_list outs @ '']''\<rparr>)))))"

text \<open>Reading: the unique relations go to the first places of a vector of 100.\<close>

definition read_dependence ::
  "(string \<Rightarrow> relation_object) \<Rightarrow> (string \<Rightarrow> string) \<Rightarrow> missing_info list \<Rightarrow> relation_object list \<times> dep_rel list \<times> nat \<Rightarrow> string \<Rightarrow>
     (relation_object list \<times> dep_rel list \<times> nat) result" where
  "read_dependence new_Relation qinv missingConstraints = (\<lambda>(uniqueRelations, dependences, i) line.
     bind_result (if length missingConstraints > 0 then adMissingInductionConstraints line missingConstraints else Inr line) (\<lambda>line.
       let rel = new_Relation line in
       bind_result (relation_known qinv rel uniqueRelations) (\<lambda>known.
         if known then Inr (uniqueRelations, dependences, i)
         else bind_result (Relation_copy qinv rel) (\<lambda>copy.
           if i < length dependences
           then Inr (uniqueRelations @ [copy], dependences[i := (dependences ! i)\<lparr>dep_relation := Some rel\<rparr>], i + 1)
           else Inl (Undefined ''vector index out of bounds'')))))"

text \<open>One dependence in one round: the dependences, the number of the next script, and how many are found unsatisfiable.\<close>

definition check_dependence ::
  "(string \<Rightarrow> set_object) \<Rightarrow> (string \<Rightarrow> string \<Rightarrow> string list) \<Rightarrow> set_object environment \<Rightarrow> z3_info \<Rightarrow> nat \<Rightarrow>
     dep_rel list \<times> int \<times> nat \<Rightarrow> nat \<Rightarrow> (dep_rel list \<times> int \<times> nat) result" where
  "check_dependence parse z3 env z3Info rlc = (\<lambda>(dependences, z3_f_c, unSatFound) i.
     if unsat (dependences ! i) \<noteq> 0 then Inr (dependences, z3_f_c, unSatFound + 1)
     else (case dep_relation (dependences ! i) of
         None \<Rightarrow> Inl (Undefined ''null pointer'')
       | Some rel \<Rightarrow>
           bind_result (decide_relation parse z3 env z3Info rlc rel z3_f_c) (\<lambda>sat.
             if sat then Inr (dependences, z3_f_c + 1, unSatFound)
             else Inr (if rlc = 0 then setDependencesVal dependences i (int rlc + 1) True else dependences, z3_f_c + 1, unSatFound + 1))))"

definition fully_parallel_text :: "nat \<Rightarrow> string" where
  "fully_parallel_text rlc = newline @ ''--- Loop is Fully parallel! Based on '' @ checkRuleStr ! rlc"

definition not_parallel_text :: string where
  "not_parallel_text = newline @ ''--- Loop is Not Fully parallel!''"

text \<open>One round: the last component is what the driver prints about the loop.\<close>

definition rule_round ::
  "(string \<Rightarrow> set_object) \<Rightarrow> (string \<Rightarrow> string \<Rightarrow> string list) \<Rightarrow> set_object environment \<Rightarrow> z3_info \<Rightarrow> nat \<Rightarrow>
     dep_rel list \<times> int \<times> bool \<times> string list \<Rightarrow> nat \<Rightarrow> (dep_rel list \<times> int \<times> bool \<times> string list) result" where
  "rule_round parse z3 env z3Info nUniqueRels = (\<lambda>(dependences, z3_f_c, foundUnSat, out) rlc.
     bind_result (fold_result (check_dependence parse z3 env z3Info rlc) (dependences, z3_f_c, 0) [0..<nUniqueRels])
       (\<lambda>(dependences, z3_f_c, unSatFound).
         Inr (if unSatFound = nUniqueRels then
                (dependences, z3_f_c, True, if \<not> foundUnSat then out @ [fully_parallel_text rlc] else out)
              else (dependences, z3_f_c, foundUnSat, if rlc = NRL - 1 then out @ [not_parallel_text] else out))))"

text \<open>The dependences of one loop: what is printed and the number of the next script.\<close>

definition process_loop ::
  "(string \<Rightarrow> set_object) \<Rightarrow> (string \<Rightarrow> relation_object) \<Rightarrow> (string \<Rightarrow> string \<Rightarrow> string list) \<Rightarrow> set_object environment \<Rightarrow> z3_info \<Rightarrow>
     missing_info list \<Rightarrow> int \<Rightarrow> string list \<Rightarrow> (string list \<times> int) result" where
  "process_loop parse new_Relation z3 env z3Info missingConstraints z3_f_c rel_lines =
     bind_result (fold_result (read_dependence new_Relation (queryInverseCurrEnv env) missingConstraints)
         ([], replicate 100 depRel_new, 0) rel_lines) (\<lambda>(uniqueRelations, dependences, nUniqueRels).
     bind_result (fold_result (rule_round parse z3 env z3Info nUniqueRels) (dependences, z3_f_c, False, []) [0..<NRL])
       (\<lambda>(dependences, z3_f_c, foundUnSat, out). Inr (out, z3_f_c)))"

section \<open>All loops of a file\<close>

text \<open>\<open>sscanf\<close> with decimal numbers: the numbers read before the first mismatch.\<close>

fun sscanf :: "string \<Rightarrow> string \<Rightarrow> int list" where
  "sscanf [] s = []"
| "sscanf (c # cs) s =
     (if c = CHR ''%'' then (case scan_int s of None \<Rightarrow> [] | Some (i, s) \<Rightarrow> i # sscanf (tl cs) s)
      else if is_space c then sscanf cs (dropWhile is_space s)
      else case s of [] \<Rightarrow> [] | d # s \<Rightarrow> if c = d then sscanf cs s else [])"

text \<open>What is not read keeps its value, which is 0.\<close>

definition readLoop :: "string \<Rightarrow> int \<times> int \<times> int" where
  "readLoop s =
     (let is = sscanf ''[First stmt = %d, Loop level = %d, No. of Rels = %d]'' s @ [0, 0, 0]
      in (is ! 0, is ! 1, is ! 2))"

text \<open>The lines of a file that ends with a newline; a line that is not there is empty.\<close>

definition read_lines :: "nat \<Rightarrow> string list \<Rightarrow> string list" where
  "read_lines n ls = take n ls @ replicate (n - length ls) ''''"

record loop_result =
  loop_stNo :: int
  loop_parLL :: int
  loop_nRels :: int
  loop_out :: "string list"

function process_loops ::
  "(string \<Rightarrow> set_object) \<Rightarrow> (string \<Rightarrow> relation_object) \<Rightarrow> (string \<Rightarrow> string \<Rightarrow> string list) \<Rightarrow> set_object environment \<Rightarrow> z3_info \<Rightarrow>
     missing_info list \<Rightarrow> int \<Rightarrow> string list \<Rightarrow> loop_result list result" where
  "process_loops parse new_Relation z3 env z3Info missingConstraints z3_f_c [] = Inr []"
| "process_loops parse new_Relation z3 env z3Info missingConstraints z3_f_c (line # depf) =
     (let (stNo, parLL, nRels) = readLoop line in
      bind_result (process_loop parse new_Relation z3 env z3Info missingConstraints z3_f_c (read_lines (nat nRels) depf)) (\<lambda>(out, z3_f_c).
      bind_result (process_loops parse new_Relation z3 env z3Info missingConstraints z3_f_c (drop (nat nRels) depf)) (\<lambda>rs.
        Inr (\<lparr>loop_stNo = stNo, loop_parLL = parLL, loop_nRels = nRels, loop_out = out\<rparr> # rs))))"
  by pat_completeness auto
termination
  by (relation "measure (\<lambda>(parse, new_Relation, z3, env, z3Info, missing, n, depf). length depf)") auto

text \<open>An input file; \<open>setCurrEnv\<close> clears the functions of the environment.\<close>

record input_file =
  in_UFS :: "ufc_info list"
  in_User_Defined :: "rule_info list"
  in_z3_info :: z3_info
  in_missing :: "missing_info list"

definition input_environment :: "(string \<Rightarrow> set_object) \<Rightarrow> set_object environment \<Rightarrow> input_file \<Rightarrow> set_object environment result" where
  "input_environment parse currentEnv input =
     (case addUFCs parse (setCurrEnv currentEnv) (in_UFS input) of
        (env, Some e) \<Rightarrow> Inl e
      | (env, None) \<Rightarrow> Inr (addUniQuantRules parse env (in_User_Defined input)))"

text \<open>The driver over the input files, each with what the compiler writes for it.\<close>

fun driver ::
  "(string \<Rightarrow> set_object) \<Rightarrow> (string \<Rightarrow> relation_object) \<Rightarrow> (string \<Rightarrow> string \<Rightarrow> string list) \<Rightarrow> set_object environment \<Rightarrow>
     (input_file \<times> string list) list \<Rightarrow> loop_result list list result" where
  "driver parse new_Relation z3 currentEnv [] = Inr []"
| "driver parse new_Relation z3 currentEnv ((input, depf) # inputs) =
     bind_result (input_environment parse currentEnv input) (\<lambda>env.
     bind_result (process_loops parse new_Relation z3 env (in_z3_info input) (in_missing input) 0 depf) (\<lambda>rs.
     bind_result (driver parse new_Relation z3 env inputs) (\<lambda>rss. Inr (rs # rss))))"

section \<open>Texts\<close>

record chill_info =
  chill_Source :: string
  chill_Destination :: string
  chill_Procedure :: string
  chill_Loop :: string
  chill_Output_file :: string
  chill_Private_Arrays :: string
  chill_Reduction_Statements :: string

abbreviation quote :: string where "quote \<equiv> [CHR 0x27]"

definition genChillScript :: "chill_info \<Rightarrow> string" where
  "genChillScript analysisInfo =
     ''from chill import *'' @ newline @
     ''source('' @ quote @ chill_Source analysisInfo @ quote @ '')'' @ newline @
     ''destination('' @ quote @ chill_Destination analysisInfo @ quote @ '')'' @ newline @
     ''procedure('' @ quote @ chill_Procedure analysisInfo @ quote @ '')'' @ newline @
     ''loop('' @ chill_Loop analysisInfo @ '')'' @ newline @
     ''print_dep_ufs('' @ quote @ chill_Output_file analysisInfo @ quote @ '','' @ quote @ chill_Private_Arrays analysisInfo @
       quote @ '','' @ quote @ chill_Reduction_Statements analysisInfo @ quote @ '')'' @ newline"

definition getPrettyComplexity :: "string \<Rightarrow> string" where
  "getPrettyComplexity c =
     (case map_of [(''O(0)'', ''O(0)''), (''O(1)'', ''O(1)''), (''O(n^1)'', ''O(n)''), (''O(nnz^1)'', ''O(nnz)''),
        (''O(nnz^2/n^1)'', ''O(nnz*(nnz/n))''), (''O(nnz^3/n^2)'', ''O(nnz*(nnz/n)^2)''), (''O(nnz^4/n^3)'', ''O(nnz*(nnz/n)^3)''),
        (''O(nnz^5/n^4)'', ''O(nnz*(nnz/n)^4)''), (''O(n^2)'', ''O(n^2)''), (''O(n^1*nnz^1)'', ''O(n*nnz)''),
        (''O(nnz^2)'', ''O(nnz^2)''), (''O(nnz^3/n^1)'', ''O((nnz^2)*(nnz/n))''), (''O(nnz^4/n^2)'', ''O((nnz^2)*(nnz/n)^2)''),
        (''O(nnz^5/n^3)'', ''O((nnz^2)*(nnz/n)^3)'')] c of
      None \<Rightarrow> ''NaN'' | Some p \<Rightarrow> p)"

definition initComplexities :: "(string, int) std_map \<Rightarrow> (string, int) std_map" where
  "initComplexities complexities =
     foldl (\<lambda>m c. assign_s c 0 m) complexities [''O(0)'', ''O(1)'', ''O(n^1)'', ''O(nnz^1)'', ''O(nnz^2/n^1)'', ''O(nnz^3/n^2)'',
       ''O(nnz^4/n^3)'', ''O(nnz^5/n^4)'', ''O(n^2)'', ''O(n^1*nnz^1)'', ''O(nnz^2)'', ''O(nnz^3/n^1)'', ''O(nnz^2/n^2)'', ''O(nnz^5/n^3)'']"

definition comp_table :: "(string \<times> int) list" where
  "comp_table = [(''O(0)'', 0), (''O(1)'', 1), (''O(n^1)'', 2), (''O(nnz^1)'', 3), (''O(nnz^2/n^1)'', 4), (''O(nnz^3/n^2)'', 5),
     (''O(nnz^4/n^3)'', 6), (''O(nnz^5/n^4)'', 7), (''O(n^2)'', 8), (''O(n^1*nnz^1)'', 9), (''O(nnz^2)'', 10), (''O(nnz^3/n^1)'', 11),
     (''O(nnz^4/n^2)'', 12), (''O(nnz^5/n^3)'', 13)]"

text \<open>A key that is not in the map is added with 0.\<close>

definition comp_index :: "string \<Rightarrow> int" where
  "comp_index c = (case map_of comp_table c of None \<Rightarrow> 0 | Some n \<Rightarrow> n)"

definition compCompare :: "string \<Rightarrow> string \<Rightarrow> int" where
  "compCompare comp1 comp2 =
     (if comp_index comp1 < comp_index comp2 then -1
      else if comp_index comp1 = comp_index comp2 then 0
      else if comp_index comp1 > comp_index comp2 then 1 else -1)"

definition giveCompWithOrd :: "int \<Rightarrow> string" where
  "giveCompWithOrd ord =
     (case map_of [(0::int, ''O(0)''), (1, ''O(1)''), (2, ''O(n^1)''), (3, ''O(nnz^1)''), (4, ''O(nnz^2/n^1)''), (5, ''O(nnz^3/n^2)''),
        (6, ''O(nnz^4/n^3)''), (7, ''O(nnz^5/n^4)''), (8, ''O(n^2)''), (9, ''O(n^1*nnz^1)''), (10, ''O(nnz^2)''), (11, ''O(nnz^3/n^1)''),
        (12, ''O(nnz^4/n^2)''), (13, ''O(nnz^5/n^3)'')] ord of
      None \<Rightarrow> ''NaN'' | Some s \<Rightarrow> s)"

definition restComplexities :: "(string, int) std_map \<Rightarrow> (string, int) std_map" where
  "restComplexities complexities = map (\<lambda>(c, n). (c, 0)) complexities"

definition printComplexities :: "(string, int) std_map \<Rightarrow> string \<Rightarrow> string" where
  "printComplexities complexities stage = newline @ stage @ concat (map (\<lambda>(c, n). ''  '' @ show_int n @ ''  '') complexities)"

definition trimO :: "string \<Rightarrow> string" where
  "trimO s = drop 1 s"

definition propName :: "int \<Rightarrow> string" where
  "propName prop =
     (if prop = int (rule_index Monotonicity) then ''Monotonicity''
      else if prop = int (rule_index CoMonotonicity) then ''Periodic Monotonicity''
      else if prop = int (rule_index Triangularity) then ''Triangularity''
      else if prop = int (rule_index DomainRange) then ''Domain and Range''
      else if prop = -1 then ''Functional Consistency''
      else if prop = int (rule_index FuncConsistency) then ''All properties''
      else '''')"

section \<open>What the compiler prints\<close>

text \<open>The output of \<open>Loop::depRelsForAllLoopPar\<close> for one loop, which the driver reads.\<close>

definition dep_rels_lines :: "nat \<Rightarrow> nat \<Rightarrow> (string \<times> string) list \<Rightarrow> string list" where
  "dep_rels_lines first_stmt_in_parallel_loop parallelLoopLevel dep_rels =
     (''[First stmt = '' @ show_int (int first_stmt_in_parallel_loop) @ '', Loop level = '' @ show_int (int parallelLoopLevel) @
       '', No. of Rels = '' @ show_int (int (length dep_rels * 2)) @ '']'') #
     concat (map (\<lambda>(a, b). [a, b]) dep_rels)"

end
