(* ===== verification/Driver_Correct.thy ===== *)
theory Driver_Correct
  imports Driver
begin

text \<open>
  What the verdict of the driver rests on: a loop is only called fully parallel when the solver has answered
  \<open>unsat\<close> for each of its dependences, on a script that can be satisfied when the dependence has a point at which the
  rules that are used hold and the calls are within their domains and ranges.
\<close>

section \<open>What a script says\<close>

definition is_declaration :: "string \<Rightarrow> bool" where
  "is_declaration l \<longleftrightarrow> l = '''' \<or> (\<exists>x. l = declare_text x) \<or> take 13 l = ''(declare-fun ''"

fun formula_line :: "string \<Rightarrow> smt_formula \<Rightarrow> bool" where
  "formula_line l (SAssert a) \<longleftrightarrow> (\<exists>i. l = assert_text i (atom_text a))"
| "formula_line l (SForall xs as bs) \<longleftrightarrow> (\<exists>n. l = rule_text n xs as bs)"

text \<open>The lines are declarations, empty, or the assertions of the formulas in their order.\<close>

fun lines_say :: "string list \<Rightarrow> smt_formula list \<Rightarrow> bool" where
  "lines_say [] fs \<longleftrightarrow> fs = []"
| "lines_say (l # ls) fs \<longleftrightarrow> is_declaration l \<and> lines_say ls fs \<or>
     (case fs of [] \<Rightarrow> False | f # fs \<Rightarrow> formula_line l f \<and> lines_say ls fs)"

definition script_says :: "string \<Rightarrow> smt_formula list \<Rightarrow> bool" where
  "script_says t fs \<longleftrightarrow> (\<exists>timeout vs ds dep cs ps. t = script_text timeout vs ds dep cs ps \<and> lines_say (ds @ cs @ ps) fs)"

lemma lines_say_append: "lines_say ls fs \<Longrightarrow> lines_say ms gs \<Longrightarrow> lines_say (ls @ ms) (fs @ gs)"
proof (induction ls arbitrary: fs)
  case (Cons l ls)
  show ?case
  proof (cases "is_declaration l \<and> lines_say ls fs")
    case True
    with Cons show ?thesis by simp
  next
    case False
    with Cons.prems(1) obtain f fs' where "fs = f # fs'" "formula_line l f" "lines_say ls fs'" by (auto split: list.splits)
    with Cons show ?thesis by simp
  qed
qed simp

lemma lines_say_declarations: "list_all is_declaration ls \<Longrightarrow> lines_say ls []"
  by (induction ls) simp_all

lemma lines_say_map: "list_all2 formula_line ls fs \<Longrightarrow> lines_say ls fs"
  by (induction rule: list_all2_induct) simp_all

section \<open>Rules\<close>

definition solver_rule :: "set_object uniq_rule \<Rightarrow> bool" where
  "solver_rule r \<longleftrightarrow> (case (mConjunctions (mLeftSide r), mConjunctions (mRightSide r)) of
     ([p], [q]) \<Rightarrow> simple_rule p q | _ \<Rightarrow> False)"

definition left_conj :: "set_object uniq_rule \<Rightarrow> conjunction" where
  "left_conj r = hd (mConjunctions (mLeftSide r))"

definition right_conj :: "set_object uniq_rule \<Rightarrow> conjunction" where
  "right_conj r = hd (mConjunctions (mRightSide r))"

definition formula_of :: "set_object uniq_rule \<Rightarrow> smt_formula" where
  "formula_of r = rule_formula (left_conj r) (right_conj r)"

definition UniQuantRule_holds :: "interp \<Rightarrow> set_object uniq_rule \<Rightarrow> bool" where
  "UniQuantRule_holds I r \<longleftrightarrow> rule_holds I (left_conj r) (right_conj r)"

lemma solver_ruleE:
  assumes "solver_rule r"
  obtains "mConjunctions (mLeftSide r) = [left_conj r]" "mConjunctions (mRightSide r) = [right_conj r]"
    "simple_rule (left_conj r) (right_conj r)"
  using assms by (auto simp: solver_rule_def left_conj_def right_conj_def split: list.splits)

lemma getZ3Form_says:
  assumes r: "solver_rule r" and ok: "UniQuantRule_getZ3Form r relUFSs glVarSyms n = Inr (t, fs, vs)"
  shows "t = '''' \<or> formula_line t (formula_of r)"
proof (cases "relUFSs = []")
  case True
  with ok show ?thesis by (simp add: UniQuantRule_getZ3Form_def)
next
  case False
  from r obtain c: "mConjunctions (mLeftSide r) = [left_conj r]" "mConjunctions (mRightSide r) = [right_conj r]"
    "simple_rule (left_conj r) (right_conj r)" by (rule solver_ruleE)
  obtain gs ws where "UniQuantRule_getZ3Form r relUFSs glVarSyms n =
      Inr (if \<exists>f \<in> set gs. f \<in> set relUFSs \<or> f = ''ALL_UFSs''
           then (rule_assertion n (left_conj r) (right_conj r), insert_names relUFSs gs, insert_names glVarSyms ws)
           else ('''', relUFSs, glVarSyms))"
    by (rule getZ3Form_text[OF c(3,1,2) False])
  with ok have "t = '''' \<or> t = rule_assertion n (left_conj r) (right_conj r)" by (auto split: if_splits)
  then show ?thesis by (auto simp: formula_of_def rule_formula_def rule_assertion_def)
qed

text \<open>The rules of the environment that a round uses.\<close>

definition used_rules :: "set_object environment \<Rightarrow> nat \<Rightarrow> set_object uniq_rule list" where
  "used_rules env rlc = filter (\<lambda>r. useRule_of rlc ! rule_index (mUniQuantRuleType r)) (uniQuantRules env)"

lemma getUQR_says:
  assumes rules: "\<forall>r \<in> set (uniQuantRules env). solver_rule r"
    and ok: "getUQR env rlc fs0 vs0 n0 = Inr (ls, fs, vs, n)"
  obtains gs where "lines_say ls gs" "set gs \<subseteq> formula_of ` set (used_rules env rlc)"
proof -
  let ?used = "formula_of ` set (used_rules env rlc)"
  have step: "\<exists>gs'. lines_say (fst st') gs' \<and> set gs' \<subseteq> ?used"
    if st: "\<exists>gs. lines_say (fst st) gs \<and> set gs \<subseteq> ?used" and s: "getUQR_step (useRule_of rlc) env st i = Inr st'"
    for st st' i
  proof -
    obtain uqrs UF VS n where [simp]: "st = (uqrs, UF, VS, n)" by (cases st)
    obtain gs where gs: "lines_say uqrs gs" "set gs \<subseteq> ?used" using st by auto
    obtain r use where r: "getUniQuantRule env (int i) = Inr r" "use_rule (useRule_of rlc) (mUniQuantRuleType r) = Inr use"
      and out: "if \<not> use then st' = st else \<exists>t UF' VS'. UniQuantRule_getZ3Form r UF VS n = Inr (t, UF', VS') \<and>
        st' = (if t \<noteq> '''' then uqrs @ [t] else uqrs, UF', VS', n + 1)"
      using s by (auto simp: getUQR_step_def split: if_splits)
    have mem: "r \<in> set (uniQuantRules env)" using r(1) by (auto simp: getUniQuantRule_def split: if_splits)
    show ?thesis
    proof (cases use)
      case False
      with out gs show ?thesis by auto
    next
      case True
      with out obtain t UF' VS' where t: "UniQuantRule_getZ3Form r UF VS n = Inr (t, UF', VS')"
        "st' = (if t \<noteq> '''' then uqrs @ [t] else uqrs, UF', VS', n + 1)" by auto
      have "formula_of r \<in> ?used" using True r(2) mem by (auto simp: used_rules_def use_rule_def split: if_splits)
      moreover have "t = '''' \<or> formula_line t (formula_of r)" using getZ3Form_says[OF _ t(1)] rules mem by blast
      ultimately show ?thesis
        using gs lines_say_append[OF gs(1), of "[t]" "[formula_of r]"] t(2)
        by (intro exI[of _ "if t = '''' then gs else gs @ [formula_of r]"]) auto
    qed
  qed
  have "\<exists>gs. lines_say (fst (ls, fs, vs, n)) gs \<and> set gs \<subseteq> ?used"
    by (rule fold_result_inv[where P = "\<lambda>st. \<exists>gs. lines_say (fst st) gs \<and> set gs \<subseteq> ?used", OF ok[unfolded getUQR_def]])
      (simp, rule step)
  with that show thesis by auto
qed

section \<open>Domains and ranges\<close>

abbreviation range_rule :: "(string \<Rightarrow> set_object) \<Rightarrow> set_object environment \<Rightarrow> string \<Rightarrow> set_object uniq_rule result" where
  "range_rule parse env f \<equiv> getUQRForFuncDomainRange parse (queryInverseCurrEnv env) env f"

definition range_formulas :: "(string \<Rightarrow> set_object) \<Rightarrow> set_object environment \<Rightarrow> smt_formula set" where
  "range_formulas parse env = {formula_of r |f r. range_rule parse env f = Inr r}"

lemma uf_definitions_say:
  assumes rules: "\<And>f r. range_rule parse env f = Inr r \<Longrightarrow> solver_rule r"
    and ok: "fold_result (uf_step parse env) ([], vs0, n0) fs = Inr (ds, vs, n)"
  obtains gs where "lines_say ds gs" "set gs \<subseteq> range_formulas parse env"
proof -
  let ?used = "range_formulas parse env"
  have step: "\<exists>gs'. lines_say (fst st') gs' \<and> set gs' \<subseteq> ?used"
    if st: "\<exists>gs. lines_say (fst st) gs \<and> set gs \<subseteq> ?used" and s: "uf_step parse env st f = Inr st'" for st st' f
  proof -
    obtain ds vs n where [simp]: "st = (ds, vs, n)" by (cases st)
    obtain gs where gs: "lines_say ds gs" "set gs \<subseteq> ?used" using st by auto
    obtain d r t fs' vs' where r: "declare_fun env f = Inr d" "range_rule parse env f = Inr r"
      "UniQuantRule_getZ3Form r [f] vs n = Inr (t, fs', vs')" "st' = (ds @ [d, t], vs', n + 1)"
      using s by (auto simp: uf_step_def)
    have d: "is_declaration d" using r(1) by (auto simp: declare_fun_def is_declaration_def)
    have "formula_of r \<in> ?used" using r(2) by (auto simp: range_formulas_def)
    moreover have "t = '''' \<or> formula_line t (formula_of r)" by (rule getZ3Form_says[OF rules[OF r(2)] r(3)])
    moreover have "is_declaration ''''" by (simp add: is_declaration_def)
    ultimately show ?thesis
      using gs lines_say_append[OF gs(1), of "[d, t]" "[formula_of r]"] lines_say_append[OF gs(1), of "[d, t]" "[]"] d r(4)
      by (intro exI[of _ "if t = '''' then gs else gs @ [formula_of r]"]) auto
  qed
  have "\<exists>gs. lines_say (fst (ds, vs, n)) gs \<and> set gs \<subseteq> ?used"
    by (rule fold_result_inv[where P = "\<lambda>st. \<exists>gs. lines_say (fst st) gs \<and> set gs \<subseteq> ?used", OF ok]) (simp, rule step)
  with that show thesis by auto
qed

section \<open>The constraints\<close>

lemma constraints_say:
  assumes "simple_conj p" "getZ3form [p] [] [] True = Inr (ls, fs, vs)"
  shows "lines_say ls (map SAssert (atoms_of p))"
proof -
  have simple: "\<forall>e \<in> set (constraints_of p). simple_constraint (mTupleDecl p) e" by (rule simple_conjD[OF assms(1)])
  obtain tvs fs' vs' where t: "getZ3form [p] [] [] True = Inr (map declare_text tvs @
      map (\<lambda>(i, e). assert_text i (atom_text (atom_of (mTupleDecl p) e))) (zip [0..<length (constraints_of p)] (constraints_of p)), fs', vs')"
    by (rule getZ3form_conj[OF simple, of "[]" "[]"])
  let ?as = "map (\<lambda>(i, e). assert_text i (atom_text (atom_of (mTupleDecl p) e))) (zip [0..<length (constraints_of p)] (constraints_of p))"
  have "lines_say (map declare_text tvs) []" by (rule lines_say_declarations) (auto simp: list_all_iff is_declaration_def)
  moreover have "list_all2 formula_line ?as (map SAssert (atoms_of p))"
    by (auto simp: list_all2_conv_all_nth atoms_of_def)
  from lines_say_map[OF this] have "lines_say ?as (map SAssert (atoms_of p))" .
  ultimately have "lines_say (map declare_text tvs @ ?as) ([] @ map SAssert (atoms_of p))" by (rule lines_say_append)
  with t assms(2) show ?thesis by simp
qed

section \<open>The decision\<close>

lemma decide_relation_script:
  assumes rules: "\<forall>r \<in> set (uniQuantRules env). solver_rule r" "\<And>f r. range_rule parse env f = Inr r \<Longrightarrow> solver_rule r"
    and p: "rConjunctions rel = [p]" "simple_conj p"
    and ok: "decide_relation parse z3 env z3Info rlc rel n = Inr sat"
  obtains n_outF t fs where "sat \<longleftrightarrow> first_line (z3 n_outF t) \<noteq> ''unsat''" "script_says t fs"
    "set fs \<subseteq> SAssert ` set (atoms_of p) \<union> formula_of ` set (used_rules env rlc) \<union> range_formulas parse env"
proof -
  obtain cs UF VS ps UF' VS' m where c: "getZ3form [p] [] [] True = Inr (cs, UF, VS)"
    "(if rlc > 0 then getUQR env rlc UF VS 1 else Inr ([], UF, VS, 1)) = Inr (ps, UF', VS', m)"
    "decideWithZ3 parse z3 env z3Info rel n VS' UF' cs ps m = Inr sat"
    using ok by (auto simp: decide_relation_def p(1))
  obtain gs where gs: "lines_say ps gs" "set gs \<subseteq> formula_of ` set (used_rules env rlc)"
  proof (cases "rlc > 0")
    case True
    then have "getUQR env rlc UF VS 1 = Inr (ps, UF', VS', m)" using c(2) by simp
    then show thesis by (rule getUQR_says[OF rules(1)]) (rule that)
  next
    case False
    then have "ps = []" using c(2) by simp
    then show thesis using that[of "[]"] by simp
  qed
  obtain ds vs k dep where d: "fold_result (uf_step parse env) ([], VS', m) UF' = Inr (ds, vs, k)"
    "sat \<longleftrightarrow> first_line (z3 (z3_Path z3Info @ ''_'' @ show_int n @ ''.smt2'')
       (script_text (z3_timeout z3Info) (insert_names vs (z3_Extra_Symbols z3Info)) ds dep cs ps)) \<noteq> ''unsat''"
    using c(3) by (auto simp: decideWithZ3_def Let_def)
  obtain hs where hs: "lines_say ds hs" "set hs \<subseteq> range_formulas parse env"
    by (rule uf_definitions_say[OF rules(2) d(1)])
  have "lines_say (ds @ cs @ ps) (hs @ map SAssert (atoms_of p) @ gs)"
    by (intro lines_say_append hs(1) gs(1) constraints_say[OF p(2) c(1)])
  then have "script_says (script_text (z3_timeout z3Info) (insert_names vs (z3_Extra_Symbols z3Info)) ds dep cs ps)
      (hs @ map SAssert (atoms_of p) @ gs)" unfolding script_says_def by blast
  from that[OF d(2) this] show thesis using hs(2) gs(2) by auto
qed

text \<open>The values of the names at a point, where no variable has the name of a symbol.\<close>

definition point_values :: "tuple_decl \<Rightarrow> interp \<Rightarrow> string \<Rightarrow> int" where
  "point_values td I x =
     (case find (\<lambda>l. elem_text (td ! l) = x) [0..<length td] of None \<Rightarrow> sym I x | Some l \<Rightarrow> tv I (int l))"

lemma point_values_agree:
  assumes "names_ok p" "\<forall>x \<in> S. x \<notin> set (map elem_text (mTupleDecl p))"
  shows "agrees (mTupleDecl p) S (point_values (mTupleDecl p) I) I" "x \<in> S \<Longrightarrow> point_values (mTupleDecl p) I x = sym I x"
proof -
  let ?td = "mTupleDecl p"
  have none: "point_values ?td I x = sym I x" if "x \<in> S" for x
  proof -
    have "find (\<lambda>l. elem_text (?td ! l) = x) [0..<length ?td] = None" using assms(2) that by (auto simp: find_None_iff)
    then show ?thesis by (simp add: point_values_def)
  qed
  have "point_values ?td I x = tv I l" if n: "declared_name ?td l = Inr x" for l x
  proof -
    have l: "0 \<le> l" "nat l < length ?td" "x = elem_text (?td ! nat l)"
      using n by (auto simp: declared_name_iff[OF assms(1)] nat_less_iff)
    have "find (\<lambda>k. elem_text (?td ! k) = x) [0..<length ?td] = Some (nat l)"
      unfolding find_Some_iff using l assms(1)
      by (intro exI[of _ "nat l"]) (auto simp: names_ok_def distinct_conv_nth)
    then show ?thesis using l(1) by (simp add: point_values_def)
  qed
  with none show "agrees ?td S (point_values ?td I) I" by (simp add: agrees_def)
  show "x \<in> S \<Longrightarrow> point_values ?td I x = sym I x" by (rule none)
qed

text \<open>No variable of the dependence has the name of a symbol of a rule.\<close>

definition names_apart :: "conjunction \<Rightarrow> set_object uniq_rule \<Rightarrow> bool" where
  "names_apart p r \<longleftrightarrow> (\<forall>x \<in> rule_symbols (left_conj r) (right_conj r). x \<notin> set (map elem_text (mTupleDecl p)))"

definition rules_hold :: "(string \<Rightarrow> set_object) \<Rightarrow> set_object environment \<Rightarrow> nat \<Rightarrow> interp \<Rightarrow> bool" where
  "rules_hold parse env rlc I \<longleftrightarrow> (\<forall>r \<in> set (used_rules env rlc). UniQuantRule_holds I r) \<and>
     (\<forall>f r. range_rule parse env f = Inr r \<longrightarrow> UniQuantRule_holds I r)"

definition solver_rules :: "(string \<Rightarrow> set_object) \<Rightarrow> set_object environment \<Rightarrow> conjunction \<Rightarrow> bool" where
  "solver_rules parse env p \<longleftrightarrow> (\<forall>r \<in> set (uniQuantRules env). solver_rule r \<and> names_apart p r) \<and>
     (\<forall>f r. range_rule parse env f = Inr r \<longrightarrow> solver_rule r \<and> names_apart p r)"

lemma formula_of_holds:
  assumes "names_ok p" "solver_rule r" "names_apart p r" "UniQuantRule_holds I r"
  shows "formula_holds (point_values (mTupleDecl p) I) (unary I) (formula_of r)"
proof -
  from assms(2) obtain "simple_rule (left_conj r) (right_conj r)" by (rule solver_ruleE)
  moreover have "\<forall>x \<in> rule_symbols (left_conj r) (right_conj r). point_values (mTupleDecl p) I x = sym I x"
    using point_values_agree(2)[OF assms(1)] assms(3) by (auto simp: names_apart_def)
  ultimately show ?thesis using rule_formula_value assms(4) by (simp add: formula_of_def UniQuantRule_holds_def)
qed

lemma names_ok_symbols: "names_ok p \<Longrightarrow> \<forall>x \<in> conj_symbols p. x \<notin> set (map elem_text (mTupleDecl p))"
  by (auto simp: names_ok_def conj_symbols_def list_all_iff)

lemma decide_relation_point:
  assumes rules: "solver_rules parse env p" and p: "rConjunctions rel = [p]" "simple_conj p" "names_ok p"
    and ok: "decide_relation parse z3 env z3Info rlc rel n = Inr sat"
  shows "\<exists>n_outF t fs. (sat \<longleftrightarrow> first_line (z3 n_outF t) \<noteq> ''unsat'') \<and> script_says t fs \<and>
    (\<forall>I. conj_holds I p \<and> rules_hold parse env rlc I \<longrightarrow> (\<exists>V. \<forall>f \<in> set fs. formula_holds V (unary I) f))"
proof -
  have sr: "\<forall>r \<in> set (uniQuantRules env). solver_rule r" "\<And>f r. range_rule parse env f = Inr r \<Longrightarrow> solver_rule r"
    using rules by (auto simp: solver_rules_def)
  obtain n_outF t fs where s: "sat \<longleftrightarrow> first_line (z3 n_outF t) \<noteq> ''unsat''" "script_says t fs"
    "set fs \<subseteq> SAssert ` set (atoms_of p) \<union> formula_of ` set (used_rules env rlc) \<union> range_formulas parse env"
    by (rule decide_relation_script[OF sr p(1,2) ok])
  have "formula_holds (point_values (mTupleDecl p) I) (unary I) f"
    if I: "conj_holds I p" "rules_hold parse env rlc I" and f: "f \<in> set fs" for I f
  proof -
    consider a where "a \<in> set (atoms_of p)" "f = SAssert a" | r where "r \<in> set (used_rules env rlc)" "f = formula_of r"
      | g r where "range_rule parse env g = Inr r" "f = formula_of r"
      using s(3) f by (auto simp: range_formulas_def)
    then show ?thesis
    proof cases
      case (1 a)
      have "agrees (mTupleDecl p) (conj_symbols p) (point_values (mTupleDecl p) I) I"
        by (rule point_values_agree(1)[OF p(3) names_ok_symbols[OF p(3)]])
      from conj_atoms[OF p(3,2) this] I(1) 1 show ?thesis by (auto simp: atoms_of_def)
    next
      case (2 r)
      then have "r \<in> set (uniQuantRules env)" by (simp add: used_rules_def)
      with 2 I(2) rules show ?thesis
        by (auto simp: solver_rules_def rules_hold_def intro!: formula_of_holds[OF p(3)])
    next
      case (3 g r)
      with I(2) rules show ?thesis
        by (auto simp: solver_rules_def rules_hold_def intro!: formula_of_holds[OF p(3)])
    qed
  qed
  with s(1,2) show ?thesis by blast
qed

section \<open>The relations of a loop\<close>

abbreviation rel_points :: "relation_object \<Rightarrow> interp \<Rightarrow> bool" where
  "rel_points R I \<equiv> sparse_holds I (rConjunctions R)"

text \<open>A relation of one conjunction as the library builds it.\<close>

definition plain_relation :: "relation_object \<Rightarrow> bool" where
  "plain_relation R \<longleftrightarrow> (\<exists>n. plain_sparse n (rConjunctions R))"

lemma plain_sparse_wf: "plain_sparse n cs \<Longrightarrow> sparse_wf cs"
  by (simp add: plain_sparse_def plain_conj_def sparse_wf_def)

lemma Relation_copy_plain:
  assumes none: "no_inverses qinv" and R: "plain_relation R" and ok: "Relation_copy qinv R = Inr R'"
  shows "plain_relation R'" "rel_points R' I \<longleftrightarrow> rel_points R I"
proof -
  obtain n where n: "plain_sparse n (rConjunctions R)" using R by (auto simp: plain_relation_def)
  obtain cs' where cs': "sparse_copy qinv (rConjunctions R) = Inr cs'" "plain_sparse n cs'"
    "\<forall>I. sparse_holds I cs' \<longleftrightarrow> sparse_holds I (rConjunctions R)" by (rule sparse_copy_plain[OF none n])
  have "rConjunctions R' = cs'"
    using ok cs'(1) n short_list[of "rConjunctions R"]
    by (auto simp: Relation_copy_def Relation_addConjunctions_def Relation_addConjunction_def Relation_new_def Relation_cleanUp_def
      sparse_copy_def plain_sparse_def split: if_splits)
  with cs'(2,3) show "plain_relation R'" "rel_points R' I \<longleftrightarrow> rel_points R I" by (auto simp: plain_relation_def)
qed

lemma Relation_equal_points:
  assumes none: "no_inverses qinv" and R: "plain_relation R" "plain_relation S"
    and less: "Relation_less qinv R S = Inr False" "Relation_less qinv S R = Inr False"
  shows "rel_points R I \<longleftrightarrow> rel_points S I"
proof -
  obtain n m where n: "plain_sparse n (rConjunctions R)" "plain_sparse m (rConjunctions S)" using R by (auto simp: plain_relation_def)
  obtain cs where cs: "sparse_copy qinv (rConjunctions R) = Inr cs" "plain_sparse n cs"
    "\<forall>I. sparse_holds I cs \<longleftrightarrow> rel_points R I" by (rule sparse_copy_plain[OF none n(1)])
  obtain ds where ds: "sparse_copy qinv (rConjunctions S) = Inr ds" "plain_sparse m ds"
    "\<forall>I. sparse_holds I ds \<longleftrightarrow> rel_points S I" by (rule sparse_copy_plain[OF none n(2)])
  have "incomparable sparse_list_less cs ds"
    using less cs(1) ds(1) by (auto simp: Relation_less_def sparse_less_def incomparable_def split: if_splits)
  then have "key_of_sparse cs = key_of_sparse ds" by (simp add: sparse_order.incomparable_key)
  from sparse_holds_key[OF plain_sparse_wf[OF cs(2)] plain_sparse_wf[OF ds(2)] this, of I] cs(3) ds(3)
  show ?thesis by simp
qed

lemma relation_known_points:
  assumes none: "no_inverses qinv" and R: "plain_relation R"
  shows "relation_known qinv R rs = Inr True \<Longrightarrow> \<forall>S \<in> set rs. plain_relation S \<Longrightarrow> \<exists>S \<in> set rs. \<forall>I. rel_points R I \<longleftrightarrow> rel_points S I"
proof (induction rs)
  case (Cons S rs)
  from Cons.prems(1) obtain below above where l: "Relation_less qinv R S = Inr below" "Relation_less qinv S R = Inr above"
    "(if \<not> below \<and> \<not> above then Inr True else relation_known qinv R rs) = Inr True" by auto
  show ?case
  proof (cases "below \<or> above")
    case True
    with l(3) Cons show ?thesis by auto
  next
    case False
    with l(1,2) Relation_equal_points[OF none R, of S] Cons.prems(2) show ?thesis by auto
  qed
qed simp

section \<open>Reading the relations\<close>

text \<open>The text of a relation after the missing constraints are added.\<close>

definition corrected :: "missing_info list \<Rightarrow> string \<Rightarrow> string result" where
  "corrected missing line = (if length missing > 0 then adMissingInductionConstraints line missing else Inr line)"

text \<open>Every relation that was read has the points of a stored one.\<close>

definition stored :: "dep_rel list \<Rightarrow> nat \<Rightarrow> relation_object \<Rightarrow> bool" where
  "stored deps n R \<longleftrightarrow> (\<exists>i < n. dep_relation (deps ! i) = Some R)"

definition represented :: "dep_rel list \<Rightarrow> nat \<Rightarrow> relation_object \<Rightarrow> bool" where
  "represented deps n R \<longleftrightarrow> (\<exists>S. stored deps n S \<and> (\<forall>I. rel_points R I \<longleftrightarrow> rel_points S I))"

definition reading :: "(string \<Rightarrow> relation_object) \<Rightarrow> string set \<Rightarrow> string set \<Rightarrow> relation_object list \<times> dep_rel list \<times> nat \<Rightarrow> bool" where
  "reading new_Relation all_texts texts = (\<lambda>(uniq, deps, n). length deps = 100 \<and> n \<le> 100 \<and> (\<forall>i < n. unsat (deps ! i) = 0) \<and>
     (\<forall>i < 100. n \<le> i \<longrightarrow> unsat (deps ! i) = 0) \<and>
     (\<forall>i < n. \<exists>R. dep_relation (deps ! i) = Some R) \<and>
     (\<forall>R. stored deps n R \<longrightarrow> R \<in> new_Relation ` all_texts) \<and> (\<forall>l \<in> texts. represented deps n (new_Relation l)) \<and>
     (\<forall>S \<in> set uniq. plain_relation S \<and> represented deps n S))"

lemma stored_update:
  "n < length deps \<Longrightarrow> stored (deps[n := (deps ! n)\<lparr>dep_relation := Some R\<rparr>]) (n + 1) S \<longleftrightarrow> stored deps n S \<or> S = R"
  unfolding stored_def by (auto simp: nth_list_update less_Suc_eq)

lemma represented_update:
  "n < length deps \<Longrightarrow> represented deps n S \<Longrightarrow> represented (deps[n := (deps ! n)\<lparr>dep_relation := Some R\<rparr>]) (n + 1) S"
  unfolding represented_def using stored_update[of n deps R] by blast

lemma read_dependence_reading:
  assumes none: "no_inverses qinv" and plain: "\<forall>l \<in> all_texts. plain_relation (new_Relation l)" and l: "corrected missing line = Inr l" "l \<in> all_texts"
    and st: "reading new_Relation all_texts texts st" and ok: "read_dependence new_Relation qinv missing st line = Inr st'"
  shows "reading new_Relation all_texts (insert l texts) st'"
proof -
  obtain uniq deps n where [simp]: "st = (uniq, deps, n)" by (cases st)
  let ?R = "new_Relation l"
  have pl: "plain_relation ?R" using plain l(2) by blast
  obtain known where k: "relation_known qinv ?R uniq = Inr known"
    "if known then st' = st else n < length deps \<and> (\<exists>copy. Relation_copy qinv ?R = Inr copy \<and>
       st' = (uniq @ [copy], deps[n := (deps ! n)\<lparr>dep_relation := Some ?R\<rparr>], n + 1))"
    using ok l(1) by (auto simp: read_dependence_def corrected_def Let_def split: if_splits)
  have inv: "length deps = 100" "n \<le> 100" "\<forall>i < n. unsat (deps ! i) = 0" "\<forall>i < 100. n \<le> i \<longrightarrow> unsat (deps ! i) = 0"
    "\<forall>i < n. \<exists>R. dep_relation (deps ! i) = Some R" "\<And>R. stored deps n R \<Longrightarrow> R \<in> new_Relation ` all_texts"
    "\<And>l. l \<in> texts \<Longrightarrow> represented deps n (new_Relation l)" "\<forall>S \<in> set uniq. plain_relation S" "\<And>S. S \<in> set uniq \<Longrightarrow> represented deps n S"
    using st by (auto simp: reading_def)
  show ?thesis
  proof (cases known)
    case True
    with k(1) relation_known_points[OF none pl _ inv(8)] obtain S where "S \<in> set uniq" "\<forall>I. rel_points ?R I \<longleftrightarrow> rel_points S I" by auto
    with inv(9) have "represented deps n ?R" by (auto simp: represented_def)
    with True k(2) st show ?thesis by (simp add: reading_def)
  next
    case False
    then obtain copy where c: "n < length deps" "Relation_copy qinv ?R = Inr copy"
      "st' = (uniq @ [copy], deps[n := (deps ! n)\<lparr>dep_relation := Some ?R\<rparr>], n + 1)" using k(2) by auto
    let ?deps = "deps[n := (deps ! n)\<lparr>dep_relation := Some ?R\<rparr>]"
    have new: "stored ?deps (n + 1) ?R" using stored_update[OF c(1)] by blast
    have "plain_relation copy \<and> represented ?deps (n + 1) copy"
      using Relation_copy_plain[OF none pl c(2)] new by (auto simp: represented_def)
    moreover have "represented ?deps (n + 1) ?R" using new by (auto simp: represented_def)
    moreover have "R \<in> new_Relation ` all_texts" if "stored ?deps (n + 1) R" for R
      using that inv(6) l(2) unfolding stored_update[OF c(1)] by blast
    moreover have "unsat (?deps ! i) = 0" if "i < 100" for i
      using inv(1,3,4) that by (cases "i < n") (auto simp: nth_list_update)
    moreover have "\<exists>R. dep_relation (?deps ! i) = Some R" if "i < n + 1" for i
      using inv(1,5) that c(1) by (auto simp: nth_list_update less_Suc_eq)
    ultimately show ?thesis using inv(1,2,7,8,9) c(1) represented_update[OF c(1)] unfolding c(3) by (auto simp: reading_def)
  qed
qed

section \<open>The rounds\<close>

definition refuted ::
  "(string \<Rightarrow> set_object) \<Rightarrow> (string \<Rightarrow> string \<Rightarrow> string list) \<Rightarrow> set_object environment \<Rightarrow> z3_info \<Rightarrow> nat \<Rightarrow> relation_object \<Rightarrow> bool" where
  "refuted parse z3 env z3Info rlc R \<longleftrightarrow> (\<exists>n. decide_relation parse z3 env z3Info rlc R n = Inr False)"

text \<open>The relations stay, and a relation is only marked when it was refuted in the first round.\<close>

definition marked_ok ::
  "(nat \<Rightarrow> relation_object \<Rightarrow> bool) \<Rightarrow> nat \<Rightarrow> dep_rel list \<Rightarrow> dep_rel list \<Rightarrow> bool" where
  "marked_ok Q n deps0 deps \<longleftrightarrow> length deps = length deps0 \<and> (\<forall>i. dep_relation (deps ! i) = dep_relation (deps0 ! i)) \<and>
     (\<forall>i < n. unsat (deps ! i) \<noteq> 0 \<longrightarrow> (\<exists>R. dep_relation (deps0 ! i) = Some R \<and> Q 0 R))"

lemma fold_result_snoc: "fold_result f b (xs @ [x]) = bind_result (fold_result f b xs) (\<lambda>c. f c x)"
  by (induction xs arbitrary: b) (auto simp: bind_result_def split: sum.splits)

definition out_rels :: "dep_rel list \<Rightarrow> nat \<Rightarrow> relation_object set" where
  "out_rels deps n = {R. stored deps n R}"

lemma marked_set:
  assumes "i < length deps" "marked_ok Q n deps0 deps" "dep_relation (deps0 ! i) = Some R" "Q 0 R"
  shows "marked_ok Q n deps0 (setDependencesVal deps i 1 True)"
  using assms unfolding marked_ok_def setDependencesVal_def by (auto simp: nth_list_update)

lemma round_invariant:
  assumes n: "n \<le> length deps0" and m: "marked_ok Q n deps0 deps"
    and Q: "\<And>R k. decide_relation parse z3 env z3Info rlc R k = Inr False \<Longrightarrow> Q rlc R"
  shows "m \<le> n \<Longrightarrow> fold_result (check_dependence parse z3 env z3Info rlc) (deps, k, 0) [0..<m] = Inr (deps', k', c) \<Longrightarrow>
    marked_ok Q n deps0 deps' \<and> c \<le> m \<and> (c = m \<longrightarrow> (\<forall>i < m. \<exists>R. dep_relation (deps0 ! i) = Some R \<and> (Q rlc R \<or> Q 0 R)))"
proof (induction m arbitrary: deps' k' c)
  case 0
  with m show ?case by simp
next
  case (Suc m)
  from Suc.prems(2) obtain deps1 k1 c1 where f: "fold_result (check_dependence parse z3 env z3Info rlc) (deps, k, 0) [0..<m] = Inr (deps1, k1, c1)"
    "check_dependence parse z3 env z3Info rlc (deps1, k1, c1) m = Inr (deps', k', c)"
    by (auto simp: fold_result_snoc)
  have IH: "marked_ok Q n deps0 deps1" "c1 \<le> m" "c1 = m \<longrightarrow> (\<forall>i < m. \<exists>R. dep_relation (deps0 ! i) = Some R \<and> (Q rlc R \<or> Q 0 R))"
    using Suc.IH[OF _ f(1)] Suc.prems(1) by auto
  have len: "m < length deps1" using Suc.prems(1) n IH(1) by (simp add: marked_ok_def)
  show ?case
  proof (cases "unsat (deps1 ! m) = 0")
    case False
    then have "deps' = deps1" "c = c1 + 1" using f(2) by (auto simp: check_dependence_def)
    moreover have "m < n" using Suc.prems(1) by simp
    with IH(1) False obtain R where "dep_relation (deps0 ! m) = Some R" "Q 0 R"
      unfolding marked_ok_def by blast
    ultimately show ?thesis using IH by (auto simp: less_Suc_eq)
  next
    case True
    then obtain R sat where R: "dep_relation (deps1 ! m) = Some R" "decide_relation parse z3 env z3Info rlc R k1 = Inr sat"
      "if sat then deps' = deps1 \<and> c = c1
       else deps' = (if rlc = 0 then setDependencesVal deps1 m (int rlc + 1) True else deps1) \<and> c = c1 + 1"
      using f(2) by (auto simp: check_dependence_def split: option.splits if_splits)
    have R0: "dep_relation (deps0 ! m) = Some R" using R(1) IH(1) by (simp add: marked_ok_def)
    show ?thesis
    proof (cases sat)
      case True
      then show ?thesis using R(3) IH by auto
    next
      case False
      then have q: "Q rlc R" using Q R(2) by simp
      have "marked_ok Q n deps0 deps'"
        using R(3) False IH(1) marked_set[OF len IH(1) R0] q by (auto split: if_splits)
      then show ?thesis using R(3) False IH q R0 by (auto simp: less_Suc_eq)
    qed
  qed
qed

lemma checkRuleStr_distinct: "i < NRL \<Longrightarrow> j < NRL \<Longrightarrow> checkRuleStr ! i = checkRuleStr ! j \<Longrightarrow> i = j"
proof -
  have "distinct checkRuleStr" "length checkRuleStr = NRL" by code_simp+
  then show "i < NRL \<Longrightarrow> j < NRL \<Longrightarrow> checkRuleStr ! i = checkRuleStr ! j \<Longrightarrow> i = j" by (simp add: nth_eq_iff_index_eq)
qed

definition verdicts :: "(nat \<Rightarrow> relation_object \<Rightarrow> bool) \<Rightarrow> nat \<Rightarrow> dep_rel list \<Rightarrow> string list \<Rightarrow> bool" where
  "verdicts Q n deps0 out \<longleftrightarrow> (\<forall>t \<in> set out. t = not_parallel_text \<or> (\<exists>rlc < NRL. t = fully_parallel_text rlc \<and>
     (\<forall>i < n. \<exists>R. dep_relation (deps0 ! i) = Some R \<and> (Q rlc R \<or> Q 0 R))))"

lemma rounds_verdicts:
  assumes n: "n \<le> length deps0" and m: "marked_ok Q n deps0 deps0"
    and Q: "\<And>rlc R k. decide_relation parse z3 env z3Info rlc R k = Inr False \<Longrightarrow> Q rlc R"
    and ok: "fold_result (rule_round parse z3 env z3Info n) (deps0, k, False, []) [0..<NRL] = Inr (deps', k', u, out)"
  shows "verdicts Q n deps0 out"
proof -
  let ?P = "\<lambda>(deps, k, u, out). marked_ok Q n deps0 deps \<and> verdicts Q n deps0 out"
  have "?P (deps', k', u, out)"
  proof (rule fold_result_inv[where P = ?P, OF ok])
    show "?P (deps0, k, False, [])" using m by (simp add: verdicts_def)
  next
    fix rlc st st' assume rlc: "rlc \<in> set [0..<NRL]" and P: "?P st" and s: "rule_round parse z3 env z3Info n st rlc = Inr st'"
    obtain deps k u out where [simp]: "st = (deps, k, u, out)" by (cases st)
    obtain deps1 k1 c where f: "fold_result (check_dependence parse z3 env z3Info rlc) (deps, k, 0) [0..<n] = Inr (deps1, k1, c)"
      "st' = (if c = n then (deps1, k1, True, if \<not> u then out @ [fully_parallel_text rlc] else out)
              else (deps1, k1, u, if rlc = NRL - 1 then out @ [not_parallel_text] else out))"
      using s by (auto simp: rule_round_def)
    have inv: "marked_ok Q n deps0 deps1" "c = n \<longrightarrow> (\<forall>i < n. \<exists>R. dep_relation (deps0 ! i) = Some R \<and> (Q rlc R \<or> Q 0 R))"
      using round_invariant[where Q = Q, OF n _ Q order.refl f(1)] P by auto
    have "verdicts Q n deps0 (out @ [fully_parallel_text rlc])" if "c = n"
      using P inv(2) that rlc by (auto simp: verdicts_def)
    moreover have "verdicts Q n deps0 (out @ [not_parallel_text])" using P by (simp add: verdicts_def)
    ultimately show "?P st'" using inv(1) P f(2) by auto
  qed
  then show ?thesis by simp
qed

section \<open>The verdict\<close>

definition texts_of :: "missing_info list \<Rightarrow> string list \<Rightarrow> string set" where
  "texts_of missing ls = {l. \<exists>line \<in> set ls. corrected missing line = Inr l}"

lemma reading_all:
  assumes none: "no_inverses qinv" and plain: "\<forall>l \<in> all_texts. plain_relation (new_Relation l)"
  shows "fold_result (read_dependence new_Relation qinv missing) st ls = Inr st' \<Longrightarrow> reading new_Relation all_texts texts st \<Longrightarrow>
    texts_of missing ls \<subseteq> all_texts \<Longrightarrow> reading new_Relation all_texts (texts \<union> texts_of missing ls) st'"
proof (induction ls arbitrary: st texts)
  case Nil
  then show ?case by (simp add: texts_of_def)
next
  case (Cons line ls)
  obtain st1 where st1: "read_dependence new_Relation qinv missing st line = Inr st1"
    "fold_result (read_dependence new_Relation qinv missing) st1 ls = Inr st'" using Cons.prems(1) by auto
  obtain uniq deps n where st: "st = (uniq, deps, n)" by (cases st)
  obtain l where l: "corrected missing line = Inr l"
    using st1(1) unfolding st read_dependence_def corrected_def[symmetric] by auto
  have "l \<in> all_texts" using l Cons.prems(3) by (auto simp: texts_of_def)
  note r = read_dependence_reading[OF none plain l this Cons.prems(2) st1(1)]
  have "insert l texts \<union> texts_of missing ls = texts \<union> texts_of missing (line # ls)" using l by (auto simp: texts_of_def)
  with Cons.IH[OF st1(2) r] Cons.prems(3) show ?case by (auto simp: texts_of_def)
qed

text \<open>A dependence as the solver can be asked about it: one conjunction that the library has built, with constraints of at
  most one term on each side, and rules of the same kind without its names.\<close>

definition solver_relation :: "(string \<Rightarrow> set_object) \<Rightarrow> set_object environment \<Rightarrow> relation_object \<Rightarrow> bool" where
  "solver_relation parse env R \<longleftrightarrow> (\<exists>p. rConjunctions R = [p] \<and> plain_conj p \<and> simple_conj p \<and> names_ok p \<and> solver_rules parse env p)"

lemma rules_hold_first: "rules_hold parse env rlc I \<Longrightarrow> rules_hold parse env 0 I"
proof -
  have none: "useRule_of 0 = replicate 10 False" by code_simp
  have "rule_index t < 10" for t by (cases t) (simp_all add: rule_index_def)
  then have "\<not> useRule_of 0 ! rule_index t" for t unfolding none by simp
  then have "used_rules env 0 = []" by (simp add: used_rules_def)
  then show "rules_hold parse env rlc I \<Longrightarrow> rules_hold parse env 0 I" by (simp add: rules_hold_def)
qed


section \<open>An example\<close>

text \<open>The function \<open>rowptr\<close> from \<open>0 <= tv0 <= n\<close> to \<open>0 <= y <= nnz\<close> with the rule that it increases, and the dependence
  \<open>tv0 < tv1 \<and> rowptr(tv1) < rowptr(tv0)\<close>; the solver refutes it in the rounds that use the rule.\<close>

definition rowptr_call :: "int \<Rightarrow> int \<Rightarrow> trm" where
  "rowptr_call c l = UFCallTerm c ''rowptr'' [Exp [TupleVarTerm 1 l] Expression] (-1)"

definition rowptr_domain :: set_object where
  "rowptr_domain = \<lparr>mConjunctions = [(Conjunction_new 1 0)\<lparr>mInequalities :=
     [Exp [TupleVarTerm 1 0] Inequality, Exp [VarTerm 1 ''n'', TupleVarTerm (-1) 0] Inequality]\<rparr>], mArity = 1\<rparr>"

definition rowptr_range :: set_object where
  "rowptr_range = \<lparr>mConjunctions = [(Conjunction_of [var_elem ''y''])\<lparr>mInequalities :=
     [Exp [TupleVarTerm 1 0] Inequality, Exp [VarTerm 1 ''nnz'', TupleVarTerm (-1) 0] Inequality]\<rparr>], mArity = 1\<rparr>"

definition rowptr_bounds :: set_object where
  "rowptr_bounds = \<lparr>mConjunctions = [(Conjunction_new 1 0)\<lparr>mInequalities :=
     [Exp [rowptr_call 1 0] Inequality, Exp [VarTerm 1 ''nnz'', rowptr_call (-1) 0] Inequality]\<rparr>], mArity = 1\<rparr>"

definition driver_env :: "set_object environment" where
  "driver_env = \<lparr>mUninterpFuncMap = [(''rowptr'', \<lparr>mName = ''rowptr'', mDomain = rowptr_domain, mRange = rowptr_range,
      mIsBijective = False, mMonoType = Monotonic_NONE\<rparr>)], mInverseMap = [], uniQuantRules = [monotone_rule]\<rparr>"

definition driver_parse :: "string \<Rightarrow> set_object" where
  "driver_parse s = (if s = ''{ [tv0]  :  0 <= rowptr(tv0) && rowptr(tv0) <= nnz  }'' then rowptr_bounds else rowptr_domain)"

definition driver_relation :: relation_object where
  "driver_relation = \<lparr>rConjunctions = [(Conjunction_new 2 1)\<lparr>mInequalities :=
     [Exp [TupleVarTerm (-1) 0, TupleVarTerm 1 1, Term (-1)] Inequality, Exp [rowptr_call 1 0, rowptr_call (-1) 1, Term (-1)] Inequality]\<rparr>],
     rInArity = 1, rOutArity = 1\<rparr>"

definition driver_z3 :: "string \<Rightarrow> string \<Rightarrow> string list" where
  "driver_z3 n_outF t = (if n_outF \<in> {''out_1.smt2'', ''out_4.smt2'', ''out_5.smt2'', ''out_7.smt2''}
     then [''unsat'', ''(a1 c11 c12)''] else [''sat''])"

lemma driver_range_rule:
  "range_rule driver_parse driver_env f = (if f = ''rowptr'' then Inr \<lparr>mUniQuantRuleType = TheOthers, mLeftSide = rowptr_domain, mRightSide = rowptr_bounds\<rparr>
     else Inl (Assert_exception (''queryDomainCurrEnv: the function '' @ f @ '' has not been declared in the current environment.'')))"
proof (cases "f = ''rowptr''")
  case True
  have "range_rule driver_parse driver_env ''rowptr'' = Inr \<lparr>mUniQuantRuleType = TheOthers, mLeftSide = rowptr_domain, mRightSide = rowptr_bounds\<rparr>"
    by code_simp
  with True show ?thesis by simp
next
  case False
  then show ?thesis
    by (simp add: getUQRForFuncDomainRange_def queryDomainCurrEnv_def funcDomain_def driver_env_def by_value.incomparable_key)
qed

lemma driver_relation_ok: "solver_relation driver_parse driver_env driver_relation"
proof -
  let ?p = "hd (rConjunctions driver_relation)"
  have p: "rConjunctions driver_relation = [?p]" by (simp add: driver_relation_def)
  have rule: "uniQuantRules driver_env = [monotone_rule]" by (simp add: driver_env_def)
  have "plain_conj ?p" "simple_conj ?p" "names_ok ?p" by code_simp+
  moreover have "solver_rule monotone_rule" "names_apart ?p monotone_rule" by code_simp+
  moreover have "solver_rule \<lparr>mUniQuantRuleType = TheOthers, mLeftSide = rowptr_domain, mRightSide = rowptr_bounds\<rparr>"
    "names_apart ?p \<lparr>mUniQuantRuleType = TheOthers, mLeftSide = rowptr_domain, mRightSide = rowptr_bounds\<rparr>" by code_simp+
  ultimately show ?thesis
    unfolding solver_relation_def solver_rules_def driver_range_rule using p rule by (intro exI[of _ ?p]) (simp split: if_splits)
qed

lemma driver_run:
  "process_loop driver_parse (\<lambda>s. driver_relation) driver_z3 driver_env \<lparr>z3_Path = ''out'', z3_timeout = ''4000'', z3_Extra_Symbols = []\<rparr> [] 0
     [''first'', ''second''] = Inr ([fully_parallel_text 1], 8)"
  by code_simp


text \<open>A point where the hypotheses on the rules hold, and one where the dependence holds without them.\<close>

lemma driver_relation_without_rule:
  "rel_points driver_relation \<lparr>tv = \<lambda>l. l, sym = \<lambda>s. 5, uf = \<lambda>f i as. 1 - hd as\<rparr>"
  by code_simp

section \<open>What the compiler prints is read\<close>

lemma readLoop_header:
  "readLoop (hd (dep_rels_lines first_stmt level rels)) = (int first_stmt, int level, int (2 * length rels))"
proof -
  have "\<not> is_digit CHR '',''" "\<not> is_digit CHR '']''" by (simp_all add: is_digit_def)
  then show ?thesis
    unfolding readLoop_def dep_rels_lines_def list.sel(1)
    by (simp add: scan_int_show is_space_def Let_def)
qed

text \<open>C34: When the driver gets through the output of the compiler, the loops that it analyses are those the
  compiler has printed: with their numbers, in their order, and each with its own relations, of which the printed count is
  twice the number of pairs.\<close>

theorem process_loops_output:
  assumes "process_loops parse new_Relation z3 env z3Info missing k
      (concat (map (\<lambda>(st, ll, rels). dep_rels_lines st ll rels) loops)) = Inr rs"
  shows "list_all2 (\<lambda>(st, ll, rels) r. loop_stNo r = int st \<and> loop_parLL r = int ll \<and> loop_nRels r = int (2 * length rels) \<and>
    (\<exists>k k'. process_loop parse new_Relation z3 env z3Info missing k (concat (map (\<lambda>(a, b). [a, b]) rels)) = Inr (loop_out r, k')))
    loops rs"
  using assms
proof (induction loops arbitrary: k rs)
  case (Cons l loops)
  obtain st ll rels where l: "l = (st, ll, rels)" by (cases l)
  let ?rels = "concat (map (\<lambda>(a, b). [a, b]) rels)" and ?rest = "concat (map (\<lambda>(st, ll, rels). dep_rels_lines st ll rels) loops)"
  have len: "length ?rels = 2 * length rels" by (induction rels) auto
  have lines: "dep_rels_lines st ll rels = hd (dep_rels_lines st ll rels) # ?rels" by (simp add: dep_rels_lines_def)
  have reads: "read_lines (2 * length rels) (?rels @ ?rest) = ?rels" "drop (2 * length rels) (?rels @ ?rest) = ?rest"
    using len by (simp_all add: read_lines_def)
  have all: "concat (map (\<lambda>(st, ll, rels). dep_rels_lines st ll rels) (l # loops)) = hd (dep_rels_lines st ll rels) # (?rels @ ?rest)"
    using arg_cong[OF lines, of "\<lambda>x. x @ ?rest"] by (simp add: l)
  note Cons.prems[unfolded all process_loops.simps readLoop_header Let_def prod.case nat_int reads]
  then obtain out k' rs' where r: "process_loop parse new_Relation z3 env z3Info missing k ?rels = Inr (out, k')"
    "process_loops parse new_Relation z3 env z3Info missing k' ?rest = Inr rs'"
    "rs = \<lparr>loop_stNo = int st, loop_parLL = int ll, loop_nRels = int (2 * length rels), loop_out = out\<rparr> # rs'"
    by (auto split: prod.splits)
  from Cons.IH[OF r(2)] r(1,3) show ?case by (auto simp: l)
qed simp

theorem process_loops_output_witness:
  "\<exists>r. process_loops driver_parse (\<lambda>s. driver_relation) driver_z3 driver_env \<lparr>z3_Path = ''out'', z3_timeout = ''4000'', z3_Extra_Symbols = []\<rparr> [] 0
       (dep_rels_lines 2 1 [(''first'', ''second'')]) = Inr [r] \<and>
     loop_stNo r = 2 \<and> loop_parLL r = 1 \<and> loop_nRels r = 2"
proof -
  let ?loops = "[(2, 1, [(''first'', ''second'')])]"
  have lines: "concat (map (\<lambda>(st, ll, rels). dep_rels_lines st ll rels) ?loops) =
      hd (dep_rels_lines 2 1 [(''first'', ''second'')]) # [''first'', ''second'']"
    by (simp add: dep_rels_lines_def)
  obtain r where r: "process_loops driver_parse (\<lambda>s. driver_relation) driver_z3 driver_env \<lparr>z3_Path = ''out'', z3_timeout = ''4000'', z3_Extra_Symbols = []\<rparr> [] 0
      (concat (map (\<lambda>(st, ll, rels). dep_rels_lines st ll rels) ?loops)) = Inr [r]"
    unfolding lines by (simp add: readLoop_header driver_run read_lines_def)
  from process_loops_output[OF r] r show ?thesis by auto
qed

section \<open>Complexities\<close>

text \<open>The names of the complexities are compared by their positions.\<close>

lemma compCompare_order:
  assumes "0 \<le> i" "i \<le> 13" "0 \<le> j" "j \<le> 13"
  shows "compCompare (giveCompWithOrd i) (giveCompWithOrd j) = sgn (i - j)"
proof -
  have "\<forall>i \<in> set [0..13]. comp_index (giveCompWithOrd i) = i" by code_simp
  then have "comp_index (giveCompWithOrd i) = i" "comp_index (giveCompWithOrd j) = j" using assms by auto
  then show ?thesis by (simp add: compCompare_def sgn_if)
qed

text \<open>A text that is no complexity compares as the smallest.\<close>

lemma compCompare_unknown: "compCompare (giveCompWithOrd 14) ''O(0)'' = 0" "compCompare ''O(n^3)'' ''O(1)'' = -1"
  by code_simp+

text \<open>The counters do not have the complexity with index 12.\<close>

lemma initComplexities_misses: "find_s (giveCompWithOrd 12) (initComplexities []) = None" "find_s ''O(nnz^2/n^2)'' (initComplexities []) = Some 0"
  by code_simp+

section \<open>What goes wrong\<close>

text \<open>The rules of one input file are still in the environment for the next.\<close>

lemma addUniQuantRules_rules: "uniQuantRules (addUniQuantRules parse env us) =
    uniQuantRules env @ map (\<lambda>u. UniQuantRule parse (rule_Type u) (rule_UniQuantVar u) (rule_p u) (rule_q u)) us"
  by (simp add: addUniQuantRules_def)

lemma driver_keeps_rules:
  "input_environment parse env \<lparr>in_UFS = [], in_User_Defined = us, in_z3_info = z, in_missing = ms\<rparr> = Inr env' \<Longrightarrow>
    set (uniQuantRules env) \<subseteq> set (uniQuantRules env')"
  by (auto simp: input_environment_def addUniQuantRules_rules setCurrEnv_def reset_env_def)

text \<open>The range of \<open>Lp\<close> in \<open>data/fs_csc.json\<close> has the name of the domain variable: its second place is found in the call.\<close>

lemma fs_csc_range:
  "range_of_call '' 0 <= it1 && it1 <= nnz '' ''it1'' ''Lp(it1)'' = Inr '' 0 <= Lp(Lp(it1)) && it1 <= nnz ''"
  by code_simp

lemma range_of_call_single:
  "range_of_call '' 0 <= y '' ''y'' ''f(x)'' = Inl (Out_of_range ''basic_string::replace'')"
  by code_simp

text \<open>A relation that is new when the vector is full is written behind it.\<close>

lemma read_dependence_overflow:
  assumes "relation_known qinv (new_Relation line) uniq = Inr False" "Relation_copy qinv (new_Relation line) = Inr copy" "length deps \<le> n"
  shows "read_dependence new_Relation qinv [] (uniq, deps, n) line = Inl (Undefined ''vector index out of bounds'')"
  using assms by (simp add: read_dependence_def Let_def)

text \<open>A solver that gives up in the last round makes the driver print both verdicts.\<close>

lemma both_verdicts:
  "rule_round parse z3 env z3Info 1 (deps, k, True, [fully_parallel_text 0]) (NRL - 1) = Inr (deps', k', u, out) \<Longrightarrow>
    fold_result (check_dependence parse z3 env z3Info 7) (deps, k, 0) [0] = Inr (deps', k', 0) \<Longrightarrow>
    out = [fully_parallel_text 0, not_parallel_text]"
  by (auto simp: rule_round_def)

end
