(* ===== verification/C_Arrays.thy ===== *)
theory C_Arrays
  imports Prelude
begin

text \<open>
  Arrays and counted loops of the numeric code (\<open>src/timeResults/src\<close>, \<open>src/data\<close>). An array is the
  list of its elements; an access outside it is undefined behaviour. Indices are \<open>int\<close>, as in the
  code. A loop \<open>for (p = lo; p < hi; p++)\<close> runs its body over \<open>lo, \<dots>, hi - 1\<close>. The locale
  \<open>array_memory\<close> is what the kernels need of an array; the rule \<open>scatter\<close> for a loop that adds
  a value to one element per iteration is proved in it.
\<close>

section \<open>Arrays\<close>

definition elt :: "'a list \<Rightarrow> int \<Rightarrow> 'a" where
  "elt a i = a ! nat i"

definition alen :: "'a list \<Rightarrow> int" where
  "alen a = int (length a)"

definition rd :: "'a list \<Rightarrow> int \<Rightarrow> 'a result" where
  "rd a i = (if 0 \<le> i \<and> i < alen a then Inr (elt a i) else Inl (Undefined ''read outside an array''))"

definition upd :: "'a list \<Rightarrow> int \<Rightarrow> 'a \<Rightarrow> 'a list" where
  "upd a i v = a[nat i := v]"

definition wr :: "'a list \<Rightarrow> int \<Rightarrow> 'a \<Rightarrow> 'a list result" where
  "wr a i v = (if 0 \<le> i \<and> i < alen a then Inr (upd a i v) else Inl (Undefined ''write outside an array''))"

text \<open>Reading through a pointer that may be null.\<close>

definition rdp :: "'a list option \<Rightarrow> int \<Rightarrow> 'a result" where
  "rdp p i = (case p of None \<Rightarrow> Inl (Undefined ''null pointer'') | Some a \<Rightarrow> rd a i)"

lemma rdp_Some [simp]: "rdp (Some a) i = rd a i"
  by (simp add: rdp_def)

lemma alen_nonneg [simp]: "0 \<le> alen a"
  by (simp add: alen_def)

lemma alen_upd [simp]: "alen (upd a i v) = alen a"
  by (simp add: alen_def upd_def)

lemma elt_upd [simp]:
  "0 \<le> i \<Longrightarrow> i < alen a \<Longrightarrow> 0 \<le> j \<Longrightarrow> elt (upd a i v) j = (if j = i then v else elt a j)"
  by (auto simp: elt_def upd_def alen_def nth_list_update)

lemma rd_elt [simp]: "0 \<le> i \<Longrightarrow> i < alen a \<Longrightarrow> rd a i = Inr (elt a i)"
  by (simp add: rd_def)

lemma wr_upd [simp]: "0 \<le> i \<Longrightarrow> i < alen a \<Longrightarrow> wr a i v = Inr (upd a i v)"
  by (simp add: wr_def)

lemma rd_outside: "i < 0 \<or> alen a \<le> i \<Longrightarrow> rd a i = Inl (Undefined ''read outside an array'')"
  by (auto simp: rd_def)

lemma rd_Inr_iff: "rd a i = Inr v \<longleftrightarrow> 0 \<le> i \<and> i < alen a \<and> v = elt a i"
  by (auto simp: rd_def)

lemma wr_Inr_iff: "wr a i v = Inr b \<longleftrightarrow> 0 \<le> i \<and> i < alen a \<and> b = upd a i v"
  by (auto simp: wr_def)

lemma alen_replicate [simp]: "0 \<le> n \<Longrightarrow> alen (replicate (nat n) v) = n"
  by (simp add: alen_def)

lemma elt_replicate [simp]: "0 \<le> i \<Longrightarrow> i < n \<Longrightarrow> elt (replicate (nat n) v) i = v"
  by (simp add: elt_def)

lemma array_eqI:
  assumes "alen a = alen b" "\<And>i. 0 \<le> i \<Longrightarrow> i < alen a \<Longrightarrow> elt a i = elt b i"
  shows "a = b"
proof (rule nth_equalityI)
  show "length a = length b" using assms(1) by (simp add: alen_def)
  fix k assume "k < length a"
  then show "a ! k = b ! k" using assms(2)[of "int k"] by (simp add: alen_def elt_def)
qed

section \<open>Counted loops\<close>

definition for_loop :: "int \<Rightarrow> int \<Rightarrow> ('s \<Rightarrow> int \<Rightarrow> 's result) \<Rightarrow> 's \<Rightarrow> 's result" where
  "for_loop lo hi body s = fold_result body s [lo..hi - 1]"

lemma for_loop_empty [simp]: "hi \<le> lo \<Longrightarrow> for_loop lo hi body s = Inr s"
  by (simp add: for_loop_def)

lemma for_loop_first:
  "lo < hi \<Longrightarrow> for_loop lo hi body s = bind_result (body s lo) (\<lambda>s'. for_loop (lo + 1) hi body s')"
  by (simp add: for_loop_def upto_rec1)

lemma fold_result_append:
  "fold_result f s (xs @ ys) = bind_result (fold_result f s xs) (\<lambda>s'. fold_result f s' ys)"
  by (induction xs arbitrary: s) (auto simp: bind_result_def split: sum.splits)

lemma nested_fold: "fold_result (\<lambda>st i. fold_result f st (h i)) st xs = fold_result f st (concat (map h xs))"
  by (induction xs arbitrary: st) (simp_all add: fold_result_append)

lemma fold_result_map: "fold_result f st (map h xs) = fold_result (\<lambda>st x. f st (h x)) st xs"
  by (induction xs arbitrary: st) simp_all

lemma for_loop_last:
  "lo < hi \<Longrightarrow> for_loop lo hi body s = bind_result (for_loop lo (hi - 1) body s) (\<lambda>s'. body s' (hi - 1))"
  by (simp add: for_loop_def upto_rec2 fold_result_append bind_result_def split: sum.splits)

text \<open>Total correctness of a loop: an invariant that every iteration reestablishes.\<close>

lemma for_loop_rule:
  assumes "lo \<le> hi" and "I lo s"
    and step: "\<And>i s. lo \<le> i \<Longrightarrow> i < hi \<Longrightarrow> I i s \<Longrightarrow> \<exists>s'. body s i = Inr s' \<and> I (i + 1) s'"
  shows "\<exists>s'. for_loop lo hi body s = Inr s' \<and> I hi s'"
proof -
  have "m \<le> hi \<longrightarrow> (\<exists>s'. for_loop lo m body s = Inr s' \<and> I m s')" if "lo \<le> m" for m
    using that
  proof (induction m rule: int_ge_induct)
    case base
    then show ?case using assms(2) by simp
  next
    case (step k)
    show ?case
    proof
      assume "k + 1 \<le> hi"
      with step obtain s' where "for_loop lo k body s = Inr s'" "I k s'" by auto
      moreover from this(2) obtain s'' where "body s' k = Inr s''" "I (k + 1) s''"
        using assms(3)[of k s'] step.hyps \<open>k + 1 \<le> hi\<close> by auto
      ultimately show "\<exists>s'. for_loop lo (k + 1) body s = Inr s' \<and> I (k + 1) s'"
        using step.hyps by (simp add: for_loop_last)
    qed
  qed
  with assms(1) show ?thesis by blast
qed

lemma for_loop_cong:
  assumes "\<And>i t. lo \<le> i \<Longrightarrow> i < hi \<Longrightarrow> body t i = body' t i"
  shows "for_loop lo hi body s = for_loop lo hi body' s"
  unfolding for_loop_def by (rule fold_result_cong) (auto simp: assms)

lemma for_loop_preserves:
  assumes "for_loop lo hi body s = Inr s'" "P s"
    and "\<And>i s s'. lo \<le> i \<Longrightarrow> i < hi \<Longrightarrow> P s \<Longrightarrow> body s i = Inr s' \<Longrightarrow> P s'"
  shows "P s'"
proof -
  have "P s'" if "fold_result body s xs = Inr s'" "\<forall>i \<in> set xs. lo \<le> i \<and> i < hi" "P s" for xs
    using that
  proof (induction xs arbitrary: s)
    case (Cons i xs)
    then show ?case using assms(3)[of i s] by auto
  qed simp
  from this[of "[lo..hi - 1]"] assms(1,2) show ?thesis by (simp add: for_loop_def)
qed

lemma for_loop_establishes:
  assumes run: "for_loop lo hi body s = Inr s'" and k: "lo \<le> k" "k < hi"
    and at_k: "\<And>s s'. body s k = Inr s' \<Longrightarrow> Q s'"
    and keep: "\<And>i s s'. lo \<le> i \<Longrightarrow> i < hi \<Longrightarrow> Q s \<Longrightarrow> body s i = Inr s' \<Longrightarrow> Q s'"
  shows "Q s'"
proof -
  have "[lo..hi - 1] = [lo..k - 1] @ k # [k + 1..hi - 1]"
    using k by (intro upto_split3) auto
  from run[unfolded for_loop_def this fold_result_append bind_result_Inr]
  obtain t where "fold_result body t (k # [k + 1..hi - 1]) = Inr s'" by blast
  then obtain u where "body t k = Inr u" "fold_result body u [k + 1..hi - 1] = Inr s'"
    unfolding fold_result.simps bind_result_Inr by blast
  then have steps: "body t k = Inr u" "for_loop (k + 1) hi body u = Inr s'"
    unfolding for_loop_def by blast+
  show ?thesis
  proof (rule for_loop_preserves[where P = Q, OF steps(2) at_k[OF steps(1)]])
    fix i t t' assume "k + 1 \<le> i" "i < hi" "Q t" "body t i = Inr t'"
    then show "Q t'" using keep[of i t t'] k by simp
  qed
qed

lemma sum_upto_last: "lo \<le> i \<Longrightarrow> (\<Sum>p \<in> {lo..<i + 1}. f p) = (\<Sum>p \<in> {lo..<i}. f p) + f (i::int)"
proof -
  assume "lo \<le> i"
  then have "{lo..<i + 1} = insert i {lo..<i}" by auto
  then show ?thesis by (simp add: add.commute)
qed

section \<open>What the kernels need of an array\<close>

locale array_memory =
  fixes get :: "'m \<Rightarrow> int \<Rightarrow> 'a::comm_monoid_add result"
    and put :: "'m \<Rightarrow> int \<Rightarrow> 'a \<Rightarrow> 'm result"
    and elem :: "'m \<Rightarrow> int \<Rightarrow> 'a"
    and size_of :: "'m \<Rightarrow> int"
  assumes get_elem: "0 \<le> i \<Longrightarrow> i < size_of m \<Longrightarrow> get m i = Inr (elem m i)"
    and put_elem: "0 \<le> i \<Longrightarrow> i < size_of m \<Longrightarrow> \<exists>m'. put m i v = Inr m' \<and> size_of m' = size_of m \<and>
      (\<forall>j. 0 \<le> j \<longrightarrow> j < size_of m \<longrightarrow> elem m' j = (if j = i then v else elem m j))"
begin

text \<open>
  A loop that adds \<open>v p\<close> to the element \<open>idx p\<close>, for each \<open>p\<close>: at the end every element has
  grown by the sum of the values sent to it. The body may depend on elements that the loop does not
  write.
\<close>

lemma scatter:
  assumes lohi: "lo \<le> hi"
    and idx: "\<And>p. lo \<le> p \<Longrightarrow> p < hi \<Longrightarrow> 0 \<le> idx p \<and> idx p < size_of m"
    and body: "\<And>p m'. lo \<le> p \<Longrightarrow> p < hi \<Longrightarrow> size_of m' = size_of m \<Longrightarrow>
      (\<And>i. 0 \<le> i \<Longrightarrow> i < size_of m \<Longrightarrow> (\<forall>q. lo \<le> q \<longrightarrow> q < hi \<longrightarrow> idx q \<noteq> i) \<Longrightarrow> elem m' i = elem m i) \<Longrightarrow>
      body m' p = bind_result (get m' (idx p)) (\<lambda>x. put m' (idx p) (x + v p))"
  shows "\<exists>m'. for_loop lo hi body m = Inr m' \<and> size_of m' = size_of m \<and>
    (\<forall>i. 0 \<le> i \<longrightarrow> i < size_of m \<longrightarrow>
      elem m' i = elem m i + (\<Sum>p \<in> {lo..<hi}. if idx p = i then v p else 0))"
proof -
  define I where "I k m' \<longleftrightarrow> size_of m' = size_of m \<and> (\<forall>i. 0 \<le> i \<longrightarrow> i < size_of m \<longrightarrow>
      elem m' i = elem m i + (\<Sum>p \<in> {lo..<k}. if idx p = i then v p else 0))" for k :: int and m'
  have "\<exists>m'. for_loop lo hi body m = Inr m' \<and> I hi m'"
  proof (rule for_loop_rule[OF lohi])
    show "I lo m" by (simp add: I_def)
  next
    fix p m' assume p: "lo \<le> p" "p < hi" and I: "I p m'"
    have "elem m' i = elem m i"
      if "0 \<le> i" "i < size_of m" "\<forall>q. lo \<le> q \<longrightarrow> q < hi \<longrightarrow> idx q \<noteq> i" for i
    proof -
      have "(\<Sum>q \<in> {lo..<p}. if idx q = i then v q else 0) = 0"
        using that(3) p(2) by (intro sum.neutral) auto
      then show ?thesis using I that(1,2) by (simp add: I_def)
    qed
    then have "body m' p = bind_result (get m' (idx p)) (\<lambda>x. put m' (idx p) (x + v p))"
      using I p by (intro body) (auto simp: I_def)
    moreover obtain m'' where "put m' (idx p) (elem m' (idx p) + v p) = Inr m''" "size_of m'' = size_of m"
      "\<forall>j. 0 \<le> j \<longrightarrow> j < size_of m \<longrightarrow>
        elem m'' j = (if j = idx p then elem m' (idx p) + v p else elem m' j)"
      using put_elem[of "idx p" m' "elem m' (idx p) + v p"] idx[OF p] I by (auto simp: I_def)
    ultimately show "\<exists>s'. body m' p = Inr s' \<and> I (p + 1) s'"
      using I idx[OF p] p by (auto simp: I_def get_elem sum_upto_last add.assoc)
  qed
  then show ?thesis by (simp add: I_def)
qed

end

interpretation arr: array_memory rd wr elt alen
  by unfold_locales auto

end
