(* ===== verification/Sparse_Matrix.thy ===== *)
theory Sparse_Matrix
  imports C_Arrays
begin

text \<open>
  Matrices in compressed column or row format, the data of all kernels: \<open>ptr\<close> (\<open>Lp\<close>, \<open>colPtr\<close>,
  \<open>rowPtr\<close>) has the first position of each column (row) and the end of the last one, \<open>idx\<close> (\<open>Li\<close>,
  \<open>rowIdx\<close>, \<open>colIdx\<close>) the row (column) of each position and \<open>val\<close> its value. The code states
  no conditions; the ones the kernels rely on are the predicates of this theory. Equal indices in one
  column are allowed: their values add up.
\<close>

definition compressed :: "int \<Rightarrow> int list \<Rightarrow> int list \<Rightarrow> bool" where
  "compressed n ptr idx \<longleftrightarrow> 0 \<le> n \<and> n + 1 \<le> alen ptr \<and> 0 \<le> elt ptr 0 \<and>
    (\<forall>j \<in> {0..<n}. elt ptr j \<le> elt ptr (j + 1)) \<and> elt ptr n \<le> alen idx \<and>
    (\<forall>p \<in> {elt ptr 0..<elt ptr n}. 0 \<le> elt idx p \<and> elt idx p < n)"

text \<open>The diagonal element comes first in its column, and everything else is below it.\<close>

definition lower_csc :: "int \<Rightarrow> int list \<Rightarrow> int list \<Rightarrow> bool" where
  "lower_csc n ptr idx \<longleftrightarrow> compressed n ptr idx \<and>
    (\<forall>j \<in> {0..<n}. elt ptr j < elt ptr (j + 1) \<and> elt idx (elt ptr j) = j \<and>
      (\<forall>p \<in> {elt ptr j + 1..<elt ptr (j + 1)}. j < elt idx p))"

text \<open>The same by rows: the diagonal element comes last in its row.\<close>

definition lower_csr :: "int \<Rightarrow> int list \<Rightarrow> int list \<Rightarrow> bool" where
  "lower_csr n ptr idx \<longleftrightarrow> compressed n ptr idx \<and>
    (\<forall>i \<in> {0..<n}. elt ptr i < elt ptr (i + 1) \<and> elt idx (elt ptr (i + 1) - 1) = i \<and>
      (\<forall>p \<in> {elt ptr i..<elt ptr (i + 1) - 1}. elt idx p < i))"

text \<open>The element of line \<open>c\<close> (a column in CSC, a row in CSR) at index \<open>i\<close>.\<close>

definition entry :: "int list \<Rightarrow> int list \<Rightarrow> 'a::comm_monoid_add list \<Rightarrow> int \<Rightarrow> int \<Rightarrow> 'a" where
  "entry ptr idx val c i = (\<Sum>p \<in> {elt ptr c..<elt ptr (c + 1)}. if elt idx p = i then elt val p else 0)"

lemma ptr_mono:
  assumes "compressed n ptr idx" "0 \<le> i" "i \<le> j" "j \<le> n"
  shows "elt ptr i \<le> elt ptr j"
proof -
  have "j \<le> n \<longrightarrow> elt ptr i \<le> elt ptr j"
    using assms(3)
  proof (induction j rule: int_ge_induct)
    case (step k)
    show ?case
    proof
      assume "k + 1 \<le> n"
      then have "elt ptr k \<le> elt ptr (k + 1)"
        using assms(1,2) step.hyps by (auto simp: compressed_def)
      moreover have "elt ptr i \<le> elt ptr k" using step.IH \<open>k + 1 \<le> n\<close> by simp
      ultimately show "elt ptr i \<le> elt ptr (k + 1)" by simp
    qed
  qed simp
  with assms(4) show ?thesis by simp
qed

lemma compressedD:
  assumes "compressed n ptr idx"
  shows "0 \<le> n" and "n < alen ptr" and "0 \<le> j \<Longrightarrow> j < n \<Longrightarrow> elt ptr j \<le> elt ptr (j + 1)"
  using assms by (auto simp: compressed_def)

lemma position_ok:
  assumes "compressed n ptr idx" "0 \<le> j" "j < n" "elt ptr j \<le> p" "p < elt ptr (j + 1)"
  shows "0 \<le> p" and "p < elt ptr n" and "p < alen idx" and "0 \<le> elt idx p" and "elt idx p < n"
proof -
  have "0 \<le> elt ptr 0" "elt ptr n \<le> alen idx"
    and idx: "\<And>q. elt ptr 0 \<le> q \<Longrightarrow> q < elt ptr n \<Longrightarrow> 0 \<le> elt idx q \<and> elt idx q < n"
    using assms(1) by (auto simp: compressed_def)
  moreover have "elt ptr 0 \<le> elt ptr j" "elt ptr (j + 1) \<le> elt ptr n"
    using assms by (auto intro: ptr_mono)
  ultimately show "0 \<le> p" "p < elt ptr n" "p < alen idx" "0 \<le> elt idx p" "elt idx p < n"
    using assms(4,5) idx[of p] by linarith+
qed

lemma lower_cscD:
  assumes "lower_csc n ptr idx" "0 \<le> j" "j < n"
  shows "elt ptr j < elt ptr (j + 1)" and "elt idx (elt ptr j) = j"
    and "elt ptr j < p \<Longrightarrow> p < elt ptr (j + 1) \<Longrightarrow> j < elt idx p"
  using assms by (auto simp: lower_csc_def)

lemma lower_csc_compressed [intro]: "lower_csc n ptr idx \<Longrightarrow> compressed n ptr idx"
  by (simp add: lower_csc_def)

lemma lower_csrD:
  assumes "lower_csr n ptr idx" "0 \<le> i" "i < n"
  shows "elt ptr i < elt ptr (i + 1)" and "elt idx (elt ptr (i + 1) - 1) = i"
    and "elt ptr i \<le> p \<Longrightarrow> p < elt ptr (i + 1) - 1 \<Longrightarrow> elt idx p < i"
  using assms by (auto simp: lower_csr_def)

lemma lower_csr_compressed [intro]: "lower_csr n ptr idx \<Longrightarrow> compressed n ptr idx"
  by (simp add: lower_csr_def)

lemma entry_split_first:
  "elt ptr c < elt ptr (c + 1) \<Longrightarrow> entry ptr idx val c i =
    (if elt idx (elt ptr c) = i then elt val (elt ptr c) else 0) +
    (\<Sum>p \<in> {elt ptr c + 1..<elt ptr (c + 1)}. if elt idx p = i then elt val p else 0)"
proof -
  assume "elt ptr c < elt ptr (c + 1)"
  then have "{elt ptr c..<elt ptr (c + 1)} = insert (elt ptr c) {elt ptr c + 1..<elt ptr (c + 1)}" by auto
  then show ?thesis by (simp add: entry_def)
qed

lemma entry_lower_csc:
  assumes "lower_csc n ptr idx" "0 \<le> j" "j < n"
  shows "entry ptr idx val j j = elt val (elt ptr j)" and "i < j \<Longrightarrow> entry ptr idx val j i = 0"
    and "i \<noteq> j \<Longrightarrow> (\<Sum>p \<in> {elt ptr j + 1..<elt ptr (j + 1)}. if elt idx p = i then elt val p else 0) =
      entry ptr idx val j i"
proof -
  have no: "(\<Sum>p \<in> {elt ptr j + 1..<elt ptr (j + 1)}. if elt idx p = k then elt val p else 0) = 0"
    if "k \<le> j" for k
  proof (rule sum.neutral, rule ballI)
    fix p assume "p \<in> {elt ptr j + 1..<elt ptr (j + 1)}"
    then have "j < elt idx p" using lower_cscD(3)[OF assms] by simp
    with that show "(if elt idx p = k then elt val p else 0) = 0" by simp
  qed
  note first = entry_split_first[OF lower_cscD(1)[OF assms], of idx val] lower_cscD(2)[OF assms]
  show "entry ptr idx val j j = elt val (elt ptr j)"
    by (simp only: first no[OF order_refl]) simp
  show "i < j \<Longrightarrow> entry ptr idx val j i = 0"
    using no[of i] by (simp add: first)
  show "i \<noteq> j \<Longrightarrow> (\<Sum>p \<in> {elt ptr j + 1..<elt ptr (j + 1)}. if elt idx p = i then elt val p else 0) =
      entry ptr idx val j i"
    by (simp add: first)
qed

end
