(* ===== verification/Triangular.thy ===== *)
theory Triangular
  imports Sparse_Matrix "HOL-Library.Multiset"
begin

text \<open>
  Forward substitution: \<open>lsolve\<close>, \<open>lsolve_parInner\<close>, \<open>rhsInit\<close> and \<open>testTriangular\<close> of
  \<open>src/timeResults/src/triangularSolve.h\<close>, the kernels \<open>fs_csc\<close> and \<open>fs_csr\<close> of \<open>src/data\<close> and the
  check that \<open>src/timeResults/test/ForwardSolveCSC.cc\<close> runs on them. A \<open>double\<close> is an element of a
  field: rounding is not modelled. The arrays of one call do not overlap (the source declares them
  \<open>__restrict__\<close> or passes separate allocations).
\<close>

section \<open>The sequential solve\<close>

definition lsolve_update ::
  "int list \<Rightarrow> 'a::field list option \<Rightarrow> int \<Rightarrow> 'a list \<Rightarrow> int \<Rightarrow> 'a list result" where
  "lsolve_update Li Lx j x p =
    bind_result (rd Li p) (\<lambda>i. bind_result (rdp Lx p) (\<lambda>a. bind_result (rd x j) (\<lambda>xj.
    bind_result (rd x i) (\<lambda>xi. wr x i (xi - a * xj)))))"

definition lsolve_column ::
  "int list \<Rightarrow> int list \<Rightarrow> 'a::field list option \<Rightarrow> 'a list \<Rightarrow> int \<Rightarrow> 'a list result" where
  "lsolve_column Lp Li Lx x j =
    bind_result (rd Lp j) (\<lambda>d. bind_result (rdp Lx d) (\<lambda>a. bind_result (rd x j) (\<lambda>xj.
    bind_result (wr x j (xj / a)) (\<lambda>x. bind_result (rd Lp (j + 1)) (\<lambda>ub.
    for_loop (d + 1) ub (lsolve_update Li Lx j) x)))))"

definition lsolve :: "int \<Rightarrow> int list option \<Rightarrow> int list option \<Rightarrow> 'a::field list option \<Rightarrow>
  'a list option \<Rightarrow> (int \<times> 'a list option) result" where
  "lsolve n Lp Li Lx x = (case (Lp, Li, x) of
      (Some lp, Some li, Some xs) \<Rightarrow>
        bind_result (for_loop 0 n (lsolve_column lp li Lx) xs) (\<lambda>y. Inr (1, Some y))
    | _ \<Rightarrow> Inr (0, x))"

definition fs_csc ::
  "int \<Rightarrow> int list \<Rightarrow> int list \<Rightarrow> 'a::field list \<Rightarrow> 'a list \<Rightarrow> 'a list result" where
  "fs_csc n Lp Li Lx x = for_loop 0 n (lsolve_column Lp Li (Some Lx)) x"

section \<open>The parallel inner loop\<close>

text \<open>
  OpenMP runs the iterations of the inner loop in any interleaving. An iteration first loads
  \<open>x[Li[p]]\<close> (and \<open>x[j]\<close>, which no iteration writes in a lower triangular matrix) and later stores the
  difference. A schedule lists the iterations in the order of their loads and stores: each occurs
  twice.
\<close>

datatype 'a iteration = Todo | Loaded 'a | Done

definition thread_step :: "int list \<Rightarrow> 'a::field list option \<Rightarrow> int \<Rightarrow>
  'a list \<times> (int \<Rightarrow> 'a iteration) \<Rightarrow> int \<Rightarrow> ('a list \<times> (int \<Rightarrow> 'a iteration)) result" where
  "thread_step Li Lx j s p = (case s of (x, phase) \<Rightarrow> (case phase p of
      Todo \<Rightarrow> bind_result (rd Li p) (\<lambda>i. bind_result (rdp Lx p) (\<lambda>a. bind_result (rd x j) (\<lambda>xj.
        bind_result (rd x i) (\<lambda>xi. Inr (x, phase(p := Loaded (xi - a * xj)))))))
    | Loaded v \<Rightarrow> bind_result (rd Li p) (\<lambda>i. bind_result (wr x i v) (\<lambda>x. Inr (x, phase(p := Done))))
    | Done \<Rightarrow> Inr (x, phase)))"

definition valid_schedule :: "int \<Rightarrow> int \<Rightarrow> int list \<Rightarrow> bool" where
  "valid_schedule lb ub ps \<longleftrightarrow> (\<forall>p \<in> set ps. lb \<le> p \<and> p < ub) \<and> (\<forall>p \<in> {lb..<ub}. count_list ps p = 2)"

definition parallel_for :: "int list \<Rightarrow> 'a::field list option \<Rightarrow> int \<Rightarrow> int list \<Rightarrow> 'a list \<Rightarrow> 'a list result" where
  "parallel_for Li Lx j schedule x =
    bind_result (fold_result (thread_step Li Lx j) (x, \<lambda>_. Todo) schedule) (\<lambda>s. Inr (fst s))"

definition lsolve_parInner_column :: "int list \<Rightarrow> int list \<Rightarrow> 'a::field list option \<Rightarrow> (int \<Rightarrow> int list) \<Rightarrow>
  'a list \<Rightarrow> int \<Rightarrow> 'a list result" where
  "lsolve_parInner_column Lp Li Lx schedule x j =
    bind_result (rd Lp j) (\<lambda>d. bind_result (rdp Lx d) (\<lambda>a. bind_result (rd x j) (\<lambda>xj.
    bind_result (wr x j (xj / a)) (\<lambda>x. bind_result (rd Lp (j + 1)) (\<lambda>ub.
    parallel_for Li Lx j (schedule j) x)))))"

definition lsolve_parInner :: "int \<Rightarrow> int list option \<Rightarrow> int list option \<Rightarrow> 'a::field list option \<Rightarrow>
  (int \<Rightarrow> int list) \<Rightarrow> 'a list option \<Rightarrow> (int \<times> 'a list option) result" where
  "lsolve_parInner n Lp Li Lx schedule x = (case (Lp, Li, x) of
      (Some lp, Some li, Some xs) \<Rightarrow>
        bind_result (for_loop 0 n (lsolve_parInner_column lp li Lx schedule) xs) (\<lambda>y. Inr (1, Some y))
    | _ \<Rightarrow> Inr (0, x))"

section \<open>Right-hand side and test\<close>

definition rhs_add :: "int list \<Rightarrow> 'a::field list \<Rightarrow> 'a list \<Rightarrow> int \<Rightarrow> 'a list result" where
  "rhs_add Ai Ax b cc =
    bind_result (rd Ai cc) (\<lambda>i. bind_result (rd Ax cc) (\<lambda>a. bind_result (rd b i) (\<lambda>bi. wr b i (bi + a))))"

definition rhsInit :: "int \<Rightarrow> int list \<Rightarrow> int list \<Rightarrow> 'a::field list \<Rightarrow> 'a list \<Rightarrow> 'a list result" where
  "rhsInit n Ap Ai Ax b =
    bind_result (for_loop 0 n (\<lambda>b j. wr b j 0) b) (\<lambda>b.
    for_loop 0 n (\<lambda>b c. bind_result (rd Ap c) (\<lambda>lo. bind_result (rd Ap (c + 1)) (\<lambda>hi.
      for_loop lo hi (rhs_add Ai Ax) b))) b)"

text \<open>\<open>n - test > 0\<close> is computed in \<open>size_t\<close>, so it holds whenever the two differ.\<close>

definition testTriangular :: "int \<Rightarrow> 'a::linordered_field list \<Rightarrow> bool result" where
  "testTriangular n x =
    bind_result (for_loop 0 n (\<lambda>test i. bind_result (rd x i) (\<lambda>xi.
      Inr (if 1 - xi < 1 / 1000 then test + 1 else test))) (0::int)) (\<lambda>test.
    Inr (if n - test \<noteq> 0 then False else True))"

text \<open>One iteration of the serial and of the parallel experiment: is the solution reported right?\<close>

definition serial_check :: "int \<Rightarrow> int list \<Rightarrow> int list \<Rightarrow> 'a::linordered_field list \<Rightarrow> 'a list \<Rightarrow> bool result" where
  "serial_check n colA rowA valA x =
    bind_result (rhsInit n colA rowA valA x) (\<lambda>x.
    bind_result (lsolve n (Some colA) (Some rowA) (Some valA) (Some x)) (\<lambda>(r, x).
    testTriangular n (the x)))"

definition parallel_check :: "int \<Rightarrow> int list \<Rightarrow> int list \<Rightarrow> 'a::linordered_field list \<Rightarrow> (int \<Rightarrow> int list) \<Rightarrow>
  'a list \<Rightarrow> bool result" where
  "parallel_check n colA rowA valA schedule x =
    bind_result (rhsInit n colA rowA valA x) (\<lambda>x.
    bind_result (lsolve_parInner n (Some colA) (Some rowA) (Some valA) schedule (Some x)) (\<lambda>(r, x).
    testTriangular n (the x)))"

section \<open>One column\<close>

lemma lsolve_update_add:
  assumes "0 \<le> p" "p < alen Li" "p < alen Lx" "0 \<le> j" "j < alen x"
  shows "lsolve_update Li (Some Lx) j x p =
    bind_result (rd x (elt Li p)) (\<lambda>xi. wr x (elt Li p) (xi + - (elt Lx p * elt x j)))"
  using assms by (simp add: lsolve_update_def)

definition column_step :: "int list \<Rightarrow> int list \<Rightarrow> 'a::field list \<Rightarrow> int \<Rightarrow> 'a list \<Rightarrow> 'a list \<Rightarrow> bool" where
  "column_step Lp Li Lx j x y \<longleftrightarrow> alen y = alen x \<and> (\<forall>i. 0 \<le> i \<longrightarrow> i < alen x \<longrightarrow>
    elt y i = (if i = j then elt x j / elt Lx (elt Lp j)
      else elt x i - (\<Sum>p \<in> {elt Lp j + 1..<elt Lp (j + 1)}. if elt Li p = i then elt Lx p else 0) *
        (elt x j / elt Lx (elt Lp j))))"

lemma column_step_unique: "column_step Lp Li Lx j x y \<Longrightarrow> column_step Lp Li Lx j x z \<Longrightarrow> y = z"
  by (rule array_eqI) (auto simp: column_step_def)

lemma sum_zero_outside:
  "(\<And>p. p \<in> A \<Longrightarrow> f p \<noteq> i) \<Longrightarrow> (\<Sum>p \<in> A. if f p = i then g p else (0::'a::comm_monoid_add)) = 0"
  by (rule sum.neutral) auto

lemma sum_if_mult:
  "(\<Sum>p \<in> A. if f p = i then - (g p * c) else 0) = - ((\<Sum>p \<in> A. if f p = i then g p else (0::'a::field)) * c)"
  unfolding sum_distrib_right sum_negf[symmetric] by (rule sum.cong) auto

lemma lsolve_column_step:
  assumes lower: "lower_csc n Lp Li" and Lx: "elt Lp n \<le> alen Lx" and x: "n \<le> alen x"
    and j: "0 \<le> j" "j < n"
  shows "\<exists>y. lsolve_column Lp Li (Some Lx) x j = Inr y \<and> column_step Lp Li Lx j x y"
proof -
  have C: "compressed n Lp Li" using lower by (rule lower_csc_compressed)
  note pos = position_ok[OF C j] and L = lower_cscD[OF lower j]
  define x1 where "x1 = upd x j (elt x j / elt Lx (elt Lp j))"
  have d: "0 \<le> elt Lp j" "elt Lp j < alen Lx" using pos[of "elt Lp j"] L(1) Lx by auto
  have "\<exists>y. for_loop (elt Lp j + 1) (elt Lp (j + 1)) (lsolve_update Li (Some Lx) j) x1 = Inr y \<and>
    alen y = alen x1 \<and> (\<forall>i. 0 \<le> i \<longrightarrow> i < alen x1 \<longrightarrow> elt y i = elt x1 i +
      (\<Sum>p \<in> {elt Lp j + 1..<elt Lp (j + 1)}. if elt Li p = i then - (elt Lx p * elt x1 j) else 0))"
  proof (rule arr.scatter)
    show "elt Lp j + 1 \<le> elt Lp (j + 1)" using L(1) by simp
    show "0 \<le> elt Li p \<and> elt Li p < alen x1" if "elt Lp j + 1 \<le> p" "p < elt Lp (j + 1)" for p
      using pos[of p] that x by (simp add: x1_def)
    fix p m assume p: "elt Lp j + 1 \<le> p" "p < elt Lp (j + 1)" and len: "alen m = alen x1"
      and same: "\<And>i. 0 \<le> i \<Longrightarrow> i < alen x1 \<Longrightarrow>
        \<forall>q. elt Lp j + 1 \<le> q \<longrightarrow> q < elt Lp (j + 1) \<longrightarrow> elt Li q \<noteq> i \<Longrightarrow> elt m i = elt x1 i"
    have "elt Li q \<noteq> j" if "elt Lp j + 1 \<le> q" "q < elt Lp (j + 1)" for q
      using L(3)[of q] that by simp
    then have "elt m j = elt x1 j" using j x by (intro same) (auto simp: x1_def)
    then show "lsolve_update Li (Some Lx) j m p = bind_result (rd m (elt Li p))
        (\<lambda>xi. wr m (elt Li p) (xi + - (elt Lx p * elt x1 j)))"
      using pos[of p] p Lx j x len by (simp add: lsolve_update_add x1_def)
  qed
  then obtain y where y: "for_loop (elt Lp j + 1) (elt Lp (j + 1)) (lsolve_update Li (Some Lx) j) x1 = Inr y"
    "alen y = alen x1" and aty: "\<And>i. 0 \<le> i \<Longrightarrow> i < alen x1 \<Longrightarrow> elt y i = elt x1 i +
      (\<Sum>p \<in> {elt Lp j + 1..<elt Lp (j + 1)}. if elt Li p = i then - (elt Lx p * elt x1 j) else 0)"
    by blast
  have "lsolve_column Lp Li (Some Lx) x j = Inr y"
    using y(1) d j x compressedD[OF C] by (simp add: lsolve_column_def x1_def)
  moreover have "column_step Lp Li Lx j x y"
  proof -
    have "(\<Sum>p \<in> {elt Lp j + 1..<elt Lp (j + 1)}. if elt Li p = j then elt Lx p else 0) = 0"
    proof (rule sum_zero_outside)
      fix p assume "p \<in> {elt Lp j + 1..<elt Lp (j + 1)}"
      then show "elt Li p \<noteq> j" using L(3)[of p] by simp
    qed
    then show ?thesis using y(2) aty j x
      by (auto simp: column_step_def x1_def sum_if_mult)
  qed
  ultimately show ?thesis by blast
qed

section \<open>All columns\<close>

definition solved_up_to :: "int list \<Rightarrow> int list \<Rightarrow> 'a::field list \<Rightarrow> int \<Rightarrow> 'a list \<Rightarrow> int \<Rightarrow> 'a list \<Rightarrow> bool" where
  "solved_up_to Lp Li Lx n b k y \<longleftrightarrow> alen y = alen b \<and>
    (\<forall>i. n \<le> i \<longrightarrow> i < alen b \<longrightarrow> elt y i = elt b i) \<and>
    (\<forall>i. 0 \<le> i \<longrightarrow> i < n \<longrightarrow>
      (\<Sum>c \<in> {0..<k}. entry Lp Li Lx c i * elt y c) + (if i < k then 0 else elt y i) = elt b i)"

lemma solved_up_to_step:
  assumes lower: "lower_csc n Lp Li" and x: "n \<le> alen b"
    and diag: "elt Lx (elt Lp j) \<noteq> 0" and j: "0 \<le> j" "j < n"
    and I: "solved_up_to Lp Li Lx n b j x" and S: "column_step Lp Li Lx j x y"
  shows "solved_up_to Lp Li Lx n b (j + 1) y"
proof -
  have C: "compressed n Lp Li" using lower by (rule lower_csc_compressed)
  note E = entry_lower_csc[OF lower j, where val = Lx]
  let ?g = "\<lambda>i. \<Sum>p \<in> {elt Lp j + 1..<elt Lp (j + 1)}. if elt Li p = i then elt Lx p else 0"
  have len: "alen x = alen b" using I by (simp add: solved_up_to_def)
  have below: "?g i = 0" if "i \<le> j \<or> n \<le> i" for i
  proof (rule sum_zero_outside)
    fix p assume "p \<in> {elt Lp j + 1..<elt Lp (j + 1)}"
    then have "j < elt Li p" "elt Li p < n"
      using lower_cscD(3)[OF lower j, of p] position_ok(5)[OF C j, of p] by auto
    with that show "elt Li p \<noteq> i" by auto
  qed
  have yi: "elt y i = (if i = j then elt x j / elt Lx (elt Lp j)
      else elt x i - ?g i * (elt x j / elt Lx (elt Lp j)))" if "0 \<le> i" "i < alen b" for i
    using S that len by (simp add: column_step_def)
  have yold: "elt y c = elt x c" if "0 \<le> c" "c < j" for c
    using yi[of c] below[of c] that j x by simp
  have sums: "(\<Sum>c \<in> {0..<j + 1}. entry Lp Li Lx c i * elt y c) =
      (\<Sum>c \<in> {0..<j}. entry Lp Li Lx c i * elt x c) + entry Lp Li Lx j i * (elt x j / elt Lx (elt Lp j))" for i
  proof -
    have "(\<Sum>c \<in> {0..<j}. entry Lp Li Lx c i * elt y c) = (\<Sum>c \<in> {0..<j}. entry Lp Li Lx c i * elt x c)"
      by (rule sum.cong) (auto simp: yold)
    moreover have "elt y j = elt x j / elt Lx (elt Lp j)" using yi[of j] j x by simp
    ultimately show ?thesis using j by (simp add: sum_upto_last)
  qed
  have "(\<Sum>c \<in> {0..<j + 1}. entry Lp Li Lx c i * elt y c) + (if i < j + 1 then 0 else elt y i) = elt b i"
    if i: "0 \<le> i" "i < n" for i
  proof -
    have old: "(\<Sum>c \<in> {0..<j}. entry Lp Li Lx c i * elt x c) + (if i < j then 0 else elt x i) = elt b i"
      using I i by (simp add: solved_up_to_def)
    consider "i < j" | "i = j" | "j < i" by linarith
    then show ?thesis
    proof cases
      case 1
      then show ?thesis using old E(2) by (simp add: sums)
    next
      case 2
      then show ?thesis using old E(1) diag by (simp add: sums)
    next
      case 3
      have "elt y i = elt x i - entry Lp Li Lx j i * (elt x j / elt Lx (elt Lp j))"
        using yi[of i] E(3)[of i] 3 i x by simp
      then show ?thesis using old 3 by (simp add: sums)
    qed
  qed
  moreover have "elt y i = elt b i" if "n \<le> i" "i < alen b" for i
    using yi[of i] below[of i] that j I by (auto simp: solved_up_to_def)
  ultimately show ?thesis using S len by (auto simp: solved_up_to_def column_step_def)
qed

text \<open>\<open>y\<close> solves the lower triangular system with right-hand side \<open>b\<close>; elements past \<open>n\<close> are kept.\<close>

definition solution :: "int list \<Rightarrow> int list \<Rightarrow> 'a::field list \<Rightarrow> int \<Rightarrow> 'a list \<Rightarrow> 'a list \<Rightarrow> bool" where
  "solution Lp Li Lx n b y \<longleftrightarrow> alen y = alen b \<and>
    (\<forall>i \<in> {n..<alen b}. elt y i = elt b i) \<and>
    (\<forall>i \<in> {0..<n}. (\<Sum>c \<in> {0..<n}. entry Lp Li Lx c i * elt y c) = elt b i)"

lemma solve_columns:
  assumes lower: "lower_csc n Lp Li" and x: "n \<le> alen b"
    and diag: "\<forall>j \<in> {0..<n}. elt Lx (elt Lp j) \<noteq> 0"
    and step: "\<And>x j. 0 \<le> j \<Longrightarrow> j < n \<Longrightarrow> alen x = alen b \<Longrightarrow>
      \<exists>y. body x j = Inr y \<and> column_step Lp Li Lx j x y"
  shows "\<exists>y. for_loop 0 n body b = Inr y \<and> solution Lp Li Lx n b y"
proof -
  have "0 \<le> n" using lower_csc_compressed[OF lower] by (rule compressedD)
  have "\<exists>y. for_loop 0 n body b = Inr y \<and> solved_up_to Lp Li Lx n b n y"
  proof (rule for_loop_rule[OF \<open>0 \<le> n\<close>, where I = "solved_up_to Lp Li Lx n b"])
    show "solved_up_to Lp Li Lx n b 0 b" by (simp add: solved_up_to_def)
    fix j s assume "0 \<le> j" "j < n" "solved_up_to Lp Li Lx n b j s"
    moreover from this obtain y where "body s j = Inr y" "column_step Lp Li Lx j s y"
      using step[of j s] by (auto simp: solved_up_to_def)
    ultimately show "\<exists>s'. body s j = Inr s' \<and> solved_up_to Lp Li Lx n b (j + 1) s'"
      using solved_up_to_step[OF lower x, of Lx j s y] diag by auto
  qed
  then show ?thesis by (auto simp: solved_up_to_def solution_def)
qed

lemma fs_csc_solves:
  assumes "lower_csc n Lp Li" "elt Lp n \<le> alen Lx" "n \<le> alen b"
    and "\<forall>j \<in> {0..<n}. elt Lx (elt Lp j) \<noteq> 0"
  shows "\<exists>y. fs_csc n Lp Li Lx b = Inr y \<and> solution Lp Li Lx n b y"
  unfolding fs_csc_def
proof (rule solve_columns[OF assms(1,3,4)])
  fix x :: "'a list" and j
  assume "0 \<le> j" "j < n" "alen x = alen b"
  then show "\<exists>y. lsolve_column Lp Li (Some Lx) x j = Inr y \<and> column_step Lp Li Lx j x y"
    using assms by (intro lsolve_column_step) auto
qed

lemma lsolve_fs_csc:
  "lsolve n (Some Lp) (Some Li) (Some Lx) (Some b) =
    bind_result (fs_csc n Lp Li Lx b) (\<lambda>y. Inr (1, Some y))"
  by (simp add: lsolve_def fs_csc_def)

section \<open>Uniqueness\<close>

lemma row_sum:
  assumes lower: "lower_csc n Lp Li" and i: "0 \<le> i" "i < n"
  shows "(\<Sum>c \<in> {0..<n}. entry Lp Li Lx c i * f c) =
    (\<Sum>c \<in> {0..<i}. entry Lp Li Lx c i * f c) + elt Lx (elt Lp i) * (f i :: 'a::field)"
proof -
  have "(\<Sum>c \<in> {0..<n}. entry Lp Li Lx c i * f c) = (\<Sum>c \<in> {0..<i + 1}. entry Lp Li Lx c i * f c)"
  proof (rule sum.mono_neutral_right)
    show "\<forall>c \<in> {0..<n} - {0..<i + 1}. entry Lp Li Lx c i * f c = 0"
      using i entry_lower_csc(2)[OF lower, of _ i Lx] by auto
  qed (use i in auto)
  then show ?thesis using i entry_lower_csc(1)[OF lower i, of Lx] by (simp add: sum_upto_last)
qed

lemma solution_unique:
  assumes lower: "lower_csc n Lp Li" and diag: "\<forall>j \<in> {0..<n}. elt Lx (elt Lp j) \<noteq> 0"
    and y: "solution Lp Li Lx n b y" and z: "solution Lp Li Lx n b z"
  shows "y = z"
proof (rule array_eqI)
  show "alen y = alen z" using y z by (simp add: solution_def)
  fix i assume i: "0 \<le> i" "i < alen y"
  have "elt y i = elt z i" if "0 \<le> i" "i < n" for i
    using that
  proof (induction i rule: measure_induct_rule[where f = nat])
    case (less i)
    have "(\<Sum>c \<in> {0..<i}. entry Lp Li Lx c i * elt y c) = (\<Sum>c \<in> {0..<i}. entry Lp Li Lx c i * elt z c)"
      by (rule sum.cong) (use less in auto)
    moreover have "(\<Sum>c \<in> {0..<n}. entry Lp Li Lx c i * elt y c) = (\<Sum>c \<in> {0..<n}. entry Lp Li Lx c i * elt z c)"
      using y z less.prems by (simp add: solution_def)
    ultimately have "elt Lx (elt Lp i) * elt y i = elt Lx (elt Lp i) * elt z i"
      by (simp add: row_sum[OF lower less.prems])
    then show ?case using diag less.prems by simp
  qed
  then show "elt y i = elt z i" using i y z by (cases "i < n") (auto simp: solution_def)
qed

section \<open>Every schedule of the parallel loop gives the sequential result\<close>

text \<open>No column has a row twice; with duplicates two iterations race for the same element.\<close>

definition distinct_rows :: "int \<Rightarrow> int list \<Rightarrow> int list \<Rightarrow> bool" where
  "distinct_rows n ptr idx \<longleftrightarrow>
    (\<forall>j \<in> {0..<n}. \<forall>p \<in> {elt ptr j..<elt ptr (j + 1)}. \<forall>q \<in> {elt ptr j..<elt ptr (j + 1)}.
      elt idx p = elt idx q \<longrightarrow> p = q)"

definition phase_of :: "'a list \<Rightarrow> int list \<Rightarrow> (int \<Rightarrow> 'a) \<Rightarrow> nat \<Rightarrow> int \<Rightarrow> 'a iteration" where
  "phase_of x0 Li v k p = (if k = 0 then Todo else if k = 1 then Loaded (v p) else Done)"

lemma parallel_for_any_order:
  fixes Lx :: "'a::field list"
  assumes idx: "\<And>p. lb \<le> p \<Longrightarrow> p < ub \<Longrightarrow> 0 \<le> p \<and> p < alen Li \<and> p < alen Lx \<and>
      0 \<le> elt Li p \<and> elt Li p < alen x0 \<and> elt Li p \<noteq> j"
    and inj: "\<And>p q. lb \<le> p \<Longrightarrow> p < ub \<Longrightarrow> lb \<le> q \<Longrightarrow> q < ub \<Longrightarrow> elt Li p = elt Li q \<Longrightarrow> p = q"
    and j: "0 \<le> j" "j < alen x0"
    and ps: "\<forall>p \<in> set ps. lb \<le> p \<and> p < ub"
  defines "v p \<equiv> elt x0 (elt Li p) - elt Lx p * elt x0 j"
  shows "\<exists>x phase. fold_result (thread_step Li (Some Lx) j) (x0, \<lambda>_. Todo) ps = Inr (x, phase) \<and>
    alen x = alen x0 \<and> (\<forall>p. phase p = phase_of x0 Li v (count_list ps p) p) \<and>
    (\<forall>p. lb \<le> p \<longrightarrow> p < ub \<longrightarrow> elt x (elt Li p) = (if 2 \<le> count_list ps p then v p else elt x0 (elt Li p))) \<and>
    (\<forall>i. 0 \<le> i \<longrightarrow> i < alen x0 \<longrightarrow> (\<forall>p. lb \<le> p \<longrightarrow> p < ub \<longrightarrow> elt Li p \<noteq> i) \<longrightarrow> elt x i = elt x0 i)"
  using ps
proof (induction ps rule: rev_induct)
  case Nil
  then show ?case by (simp add: phase_of_def)
next
  case (snoc q ps)
  then obtain x phase where run: "fold_result (thread_step Li (Some Lx) j) (x0, \<lambda>_. Todo) ps = Inr (x, phase)"
    and len: "alen x = alen x0" and ph: "\<And>p. phase p = phase_of x0 Li v (count_list ps p) p"
    and val: "\<And>p. lb \<le> p \<Longrightarrow> p < ub \<Longrightarrow>
      elt x (elt Li p) = (if 2 \<le> count_list ps p then v p else elt x0 (elt Li p))"
    and frame: "\<And>i. 0 \<le> i \<Longrightarrow> i < alen x0 \<Longrightarrow> (\<forall>p. lb \<le> p \<longrightarrow> p < ub \<longrightarrow> elt Li p \<noteq> i) \<Longrightarrow>
      elt x i = elt x0 i"
    by auto
  have q: "lb \<le> q" "q < ub" using snoc.prems by auto
  note iq = idx[OF q]
  have xj: "elt x j = elt x0 j" using j idx by (intro frame) auto
  consider "count_list ps q = 0" | "count_list ps q = 1" | "2 \<le> count_list ps q" by linarith
  then show ?case
  proof cases
    case 1
    then have "phase q = Todo" "elt x (elt Li q) = elt x0 (elt Li q)"
      using val[OF q] by (auto simp: ph phase_of_def)
    then have "thread_step Li (Some Lx) j (x, phase) q = Inr (x, phase(q := Loaded (v q)))"
      using iq j len xj by (simp add: thread_step_def v_def)
    then show ?thesis using run len ph val frame 1
      by (auto simp: fold_result_append phase_of_def)
  next
    case 2
    then have "phase q = Loaded (v q)" by (simp add: ph phase_of_def)
    then have "thread_step Li (Some Lx) j (x, phase) q = Inr (upd x (elt Li q) (v q), phase(q := Done))"
      using iq len by (simp add: thread_step_def)
    moreover have "elt (upd x (elt Li q) (v q)) (elt Li p) =
        (if 2 \<le> count_list (ps @ [q]) p then v p else elt x0 (elt Li p))" if "lb \<le> p" "p < ub" for p
      using iq idx[OF that] val[OF that] inj[OF that q] len 2 by auto
    moreover have "elt (upd x (elt Li q) (v q)) i = elt x0 i"
      if "0 \<le> i" "i < alen x0" "\<forall>p. lb \<le> p \<longrightarrow> p < ub \<longrightarrow> elt Li p \<noteq> i" for i
      using that frame[OF that] iq len q by auto
    ultimately show ?thesis using run len ph 2
      by (simp add: fold_result_append phase_of_def)
  next
    case 3
    then have "phase q = Done" by (simp add: ph phase_of_def)
    then have "thread_step Li (Some Lx) j (x, phase) q = Inr (x, phase)"
      by (simp add: thread_step_def)
    moreover have "elt x (elt Li p) = (if 2 \<le> count_list (ps @ [q]) p then v p else elt x0 (elt Li p))"
      if "lb \<le> p" "p < ub" for p
      using val[OF that] 3 by auto
    ultimately show ?thesis using run len ph frame 3
      by (auto simp: fold_result_append phase_of_def)
  qed
qed

definition valid_schedules :: "int \<Rightarrow> int list \<Rightarrow> (int \<Rightarrow> int list) \<Rightarrow> bool" where
  "valid_schedules n Lp schedule \<longleftrightarrow>
    (\<forall>j \<in> {0..<n}. valid_schedule (elt Lp j + 1) (elt Lp (j + 1)) (schedule j))"

lemma sum_single:
  "finite A \<Longrightarrow> q \<in> A \<Longrightarrow> (\<And>p. p \<in> A \<Longrightarrow> f p = i \<longleftrightarrow> p = q) \<Longrightarrow>
    (\<Sum>p \<in> A. if f p = i then g p else (0::'a::comm_monoid_add)) = g q"
proof -
  assume A: "finite A" "q \<in> A" "\<And>p. p \<in> A \<Longrightarrow> f p = i \<longleftrightarrow> p = q"
  then have "(\<Sum>p \<in> A. if f p = i then g p else 0) = (\<Sum>p \<in> A. if p = q then g p else 0)"
    by (intro sum.cong) auto
  with A(1,2) show ?thesis by simp
qed

lemma parInner_column_step:
  assumes lower: "lower_csc n Lp Li" and Lx: "elt Lp n \<le> alen Lx" and x: "n \<le> alen x"
    and j: "0 \<le> j" "j < n" and dist: "distinct_rows n Lp Li" and sched: "valid_schedules n Lp schedule"
  shows "\<exists>y. lsolve_parInner_column Lp Li (Some Lx) schedule x j = Inr y \<and> column_step Lp Li Lx j x y"
proof -
  have C: "compressed n Lp Li" using lower by (rule lower_csc_compressed)
  note pos = position_ok[OF C j] and L = lower_cscD[OF lower j]
  define lb ub c x1 where "lb = elt Lp j + 1" "ub = elt Lp (j + 1)" "c = elt x j / elt Lx (elt Lp j)"
    "x1 = upd x j c"
  note defs = this
  have idx: "0 \<le> p \<and> p < alen Li \<and> p < alen Lx \<and> 0 \<le> elt Li p \<and> elt Li p < alen x1 \<and> elt Li p \<noteq> j"
    if "lb \<le> p" "p < ub" for p
    using pos[of p] L(3)[of p] that x Lx by (auto simp: defs)
  have inj: "p = q" if "lb \<le> p" "p < ub" "lb \<le> q" "q < ub" "elt Li p = elt Li q" for p q
    using dist j that by (force simp: distinct_rows_def defs)
  have s: "valid_schedule lb ub (schedule j)" using sched j by (simp add: valid_schedules_def defs)
  have j1: "0 \<le> j" "j < alen x1" "elt x1 j = c" using j x by (simp_all add: defs)
  obtain y phase where run: "fold_result (thread_step Li (Some Lx) j) (x1, \<lambda>_. Todo) (schedule j) = Inr (y, phase)"
    and y: "alen y = alen x1"
    and val: "\<And>p. lb \<le> p \<Longrightarrow> p < ub \<Longrightarrow> elt y (elt Li p) =
      (if 2 \<le> count_list (schedule j) p then elt x1 (elt Li p) - elt Lx p * elt x1 j else elt x1 (elt Li p))"
    and frame: "\<And>i. 0 \<le> i \<Longrightarrow> i < alen x1 \<Longrightarrow> (\<forall>p. lb \<le> p \<longrightarrow> p < ub \<longrightarrow> elt Li p \<noteq> i) \<Longrightarrow> elt y i = elt x1 i"
    using parallel_for_any_order[of lb ub Li Lx x1 j "schedule j"] idx inj j1 s
    by (auto simp: valid_schedule_def)
  have "lsolve_parInner_column Lp Li (Some Lx) schedule x j = Inr y"
    using run j x Lx L(1) pos[of "elt Lp j"] compressedD[OF C]
    by (simp add: lsolve_parInner_column_def parallel_for_def defs)
  moreover have "elt y i = (if i = j then c else elt x i - (\<Sum>p \<in> {lb..<ub}. if elt Li p = i then elt Lx p else 0) * c)"
    if i: "0 \<le> i" "i < alen x" for i
  proof (cases "\<exists>q. lb \<le> q \<and> q < ub \<and> elt Li q = i")
    case True
    then obtain q where q: "lb \<le> q" "q < ub" "elt Li q = i" by blast
    have "(\<Sum>p \<in> {lb..<ub}. if elt Li p = i then elt Lx p else 0) = elt Lx q"
      by (rule sum_single) (use q inj in auto)
    moreover have "elt y i = elt x1 i - elt Lx q * c"
      using val[OF q(1,2)] q s j1 by (auto simp: valid_schedule_def)
    ultimately show ?thesis using idx[OF q(1,2)] q(3) i j x by (auto simp: defs)
  next
    case False
    then have "(\<Sum>p \<in> {lb..<ub}. if elt Li p = i then elt Lx p else 0) = 0"
      by (intro sum_zero_outside) auto
    moreover have "elt y i = elt x1 i" using False i by (intro frame) (auto simp: defs)
    ultimately show ?thesis using i j x by (auto simp: defs)
  qed
  then have "column_step Lp Li Lx j x y" using y by (simp add: column_step_def defs)
  ultimately show ?thesis by blast
qed

lemma parInner_lsolve:
  assumes lower: "lower_csc n Lp Li" and Lx: "elt Lp n \<le> alen Lx" and b: "n \<le> alen b"
    and dist: "distinct_rows n Lp Li" and sched: "valid_schedules n Lp schedule"
  shows "lsolve_parInner n (Some Lp) (Some Li) (Some Lx) schedule (Some b) =
    lsolve n (Some Lp) (Some Li) (Some Lx) (Some b)"
proof -
  let ?par = "lsolve_parInner_column Lp Li (Some Lx) schedule" and ?seq = "lsolve_column Lp Li (Some Lx)"
  have "0 \<le> n" using lower_csc_compressed[OF lower] by (rule compressedD)
  have same: "?par x j = ?seq x j" if "0 \<le> j" "j < n" "n \<le> alen x" for x j
    using lsolve_column_step[OF lower Lx that(3,1,2)] parInner_column_step[OF lower Lx that(3,1,2) dist sched]
      column_step_unique by metis
  have "\<exists>y. for_loop 0 n ?par b = Inr y \<and> (for_loop 0 n ?seq b = Inr y \<and> alen y = alen b)"
  proof -
    have "m \<le> n \<longrightarrow> (\<exists>y. for_loop 0 m ?par b = Inr y \<and> for_loop 0 m ?seq b = Inr y \<and> alen y = alen b)"
      if "0 \<le> m" for m
      using that
    proof (induction m rule: int_ge_induct)
      case (step k)
      show ?case
      proof
        assume k: "k + 1 \<le> n"
        with step.IH obtain y where y: "for_loop 0 k ?par b = Inr y" "for_loop 0 k ?seq b = Inr y"
          "alen y = alen b" by auto
        moreover obtain z where "?seq y k = Inr z" "column_step Lp Li Lx k y z"
          using lsolve_column_step[OF lower Lx _ step.hyps, of y] k y(3) b by auto
        ultimately show "\<exists>y. for_loop 0 (k + 1) ?par b = Inr y \<and> for_loop 0 (k + 1) ?seq b = Inr y \<and>
            alen y = alen b"
          using same[of k y] step.hyps k b by (simp add: for_loop_last column_step_def)
      qed
    qed simp
    with \<open>0 \<le> n\<close> show ?thesis by blast
  qed
  then show ?thesis by (auto simp: lsolve_parInner_def lsolve_def)
qed

section \<open>The right-hand side whose solution is all ones\<close>

lemma rhsInit_sums:
  assumes C: "compressed n Ap Ai" and Ax: "elt Ap n \<le> alen Ax" and b: "n \<le> alen b"
  shows "\<exists>y. rhsInit n Ap Ai Ax b = Inr y \<and> alen y = alen b \<and>
    (\<forall>i. 0 \<le> i \<longrightarrow> i < n \<longrightarrow> elt y i = (\<Sum>c \<in> {0..<n}. entry Ap Ai Ax c i)) \<and>
    (\<forall>i. n \<le> i \<longrightarrow> i < alen b \<longrightarrow> elt y i = elt b i)"
proof -
  have n: "0 \<le> n" using C by (rule compressedD)
  define Z where "Z k z \<longleftrightarrow> alen z = alen b \<and> (\<forall>i. 0 \<le> i \<longrightarrow> i < alen b \<longrightarrow>
    elt z i = (if i < k then 0 else elt b i))" for k :: int and z :: "'a list"
  have "\<exists>z. for_loop 0 n (\<lambda>b j. wr b j 0) b = Inr z \<and> Z n z"
  proof (rule for_loop_rule[OF n, where I = Z])
    show "Z 0 b" by (simp add: Z_def)
    fix j z assume "0 \<le> j" "j < n" "Z j z"
    then show "\<exists>s'. wr z j 0 = Inr s' \<and> Z (j + 1) s'" using b by (auto simp: Z_def)
  qed
  then obtain z where z: "for_loop 0 n (\<lambda>b j. wr b j 0) b = Inr z" "Z n z" by blast
  define I where "I k y \<longleftrightarrow> alen y = alen b \<and>
    (\<forall>i. 0 \<le> i \<longrightarrow> i < alen b \<longrightarrow> elt y i = elt z i + (\<Sum>c \<in> {0..<k}. entry Ap Ai Ax c i))"
    for k :: int and y
  let ?body = "\<lambda>b c. bind_result (rd Ap c) (\<lambda>lo. bind_result (rd Ap (c + 1)) (\<lambda>hi.
      for_loop lo hi (rhs_add Ai Ax) b))"
  have "\<exists>y. for_loop 0 n ?body z = Inr y \<and> I n y"
  proof (rule for_loop_rule[OF n, where I = I])
    show "I 0 z" using z(2) by (simp add: I_def Z_def)
    fix c y assume c: "0 \<le> c" "c < n" and I: "I c y"
    note pos = position_ok[OF C c]
    have "\<exists>y'. for_loop (elt Ap c) (elt Ap (c + 1)) (rhs_add Ai Ax) y = Inr y' \<and> alen y' = alen y \<and>
      (\<forall>i. 0 \<le> i \<longrightarrow> i < alen y \<longrightarrow> elt y' i = elt y i +
        (\<Sum>p \<in> {elt Ap c..<elt Ap (c + 1)}. if elt Ai p = i then elt Ax p else 0))"
    proof (rule arr.scatter)
      show "elt Ap c \<le> elt Ap (c + 1)" using compressedD(3)[OF C c] .
      show "0 \<le> elt Ai p \<and> elt Ai p < alen y" if "elt Ap c \<le> p" "p < elt Ap (c + 1)" for p
        using pos[of p] that b I by (auto simp: I_def)
      show "rhs_add Ai Ax m p = bind_result (rd m (elt Ai p)) (\<lambda>x. wr m (elt Ai p) (x + elt Ax p))"
        if "elt Ap c \<le> p" "p < elt Ap (c + 1)" for p m
        using pos[of p] that Ax by (simp add: rhs_add_def)
    qed
    then show "\<exists>s'. ?body y c = Inr s' \<and> I (c + 1) s'"
      using I c compressedD[OF C] by (auto simp: I_def entry_def sum_upto_last add.assoc)
  qed
  then obtain y where "for_loop 0 n ?body z = Inr y" "I n y" by blast
  moreover have "(\<Sum>c \<in> {0..<n}. entry Ap Ai Ax c i) = 0" if "n \<le> i" for i
    unfolding entry_def
  proof (intro sum.neutral ballI)
    fix c p assume "c \<in> {0..<n}" "p \<in> {elt Ap c..<elt Ap (c + 1)}"
    then show "(if elt Ai p = i then elt Ax p else 0) = 0"
      using position_ok[OF C, of c p] that by auto
  qed
  ultimately show ?thesis using z b n by (auto simp: rhsInit_def I_def Z_def)
qed

lemma rhsInit_ones:
  assumes lower: "lower_csc n Ap Ai" and Ax: "elt Ap n \<le> alen Ax" and x: "alen x = n"
  shows "\<exists>b. rhsInit n Ap Ai Ax x = Inr b \<and> alen b = n \<and>
    solution Ap Ai Ax n b (replicate (nat n) (1::'a::field))"
  using rhsInit_sums[OF lower_csc_compressed[OF lower] Ax, of x] x
    compressedD(1)[OF lower_csc_compressed[OF lower]]
  by (auto simp: solution_def)

lemma testTriangular_count:
  assumes "0 \<le> n" "n \<le> alen x"
  shows "testTriangular n x = Inr (\<forall>i \<in> {0..<n}. 1 - elt x i < 1 / 1000)"
proof -
  define P where "P i \<longleftrightarrow> 1 - elt x i < 1 / 1000" for i
  define I where "I k t \<longleftrightarrow> t = int (card {i \<in> {0..<k}. P i})" for k t :: int
  let ?body = "\<lambda>test i. bind_result (rd x i) (\<lambda>xi. Inr (if 1 - xi < 1 / 1000 then test + 1 else test))"
  have "\<exists>t. for_loop 0 n ?body (0::int) = Inr t \<and> I n t"
  proof (rule for_loop_rule[OF assms(1), where I = I])
    show "I 0 0" by (simp add: I_def)
    fix k t assume k: "0 \<le> k" "k < n" and I: "I k t"
    then have body: "?body t k = Inr (if P k then t + 1 else t)" using assms by (simp add: P_def)
    have "{i \<in> {0..<k + 1}. P i} = (if P k then insert k {i \<in> {0..<k}. P i} else {i \<in> {0..<k}. P i})"
      using k by (auto simp: less_le)
    moreover have "finite {i \<in> {0..<k}. P i}" by (rule finite_subset[of _ "{0..<k}"]) auto
    then have "card (insert k {i \<in> {0..<k}. P i}) = Suc (card {i \<in> {0..<k}. P i})"
      by (rule card_insert_disjoint) simp
    ultimately have "card {i \<in> {0..<k + 1}. P i} = card {i \<in> {0..<k}. P i} + (if P k then 1 else 0)"
      by (cases "P k") (simp_all only: if_True if_False add_0_right Suc_eq_plus1)
    then have "I (k + 1) (if P k then t + 1 else t)" using I by (simp add: I_def)
    with body show "\<exists>s'. ?body t k = Inr s' \<and> I (k + 1) s'" by blast
  qed
  moreover have "int (card {i \<in> {0..<n}. P i}) = n \<longleftrightarrow> (\<forall>i \<in> {0..<n}. P i)"
  proof
    assume "int (card {i \<in> {0..<n}. P i}) = n"
    then have "{i \<in> {0..<n}. P i} = {0..<n}"
      using assms(1) by (intro card_subset_eq) auto
    then show "\<forall>i \<in> {0..<n}. P i" by blast
  next
    assume "\<forall>i \<in> {0..<n}. P i"
    then have "{i \<in> {0..<n}. P i} = {0..<n}" by blast
    then show "int (card {i \<in> {0..<n}. P i}) = n" using assms(1) by simp
  qed
  ultimately show ?thesis by (auto simp: testTriangular_def I_def P_def)
qed

lemma serial_check_true:
  assumes lower: "lower_csc n Ap Ai" and Ax: "elt Ap n \<le> alen Ax" and x: "alen x = n"
    and diag: "\<forall>j \<in> {0..<n}. elt Ax (elt Ap j) \<noteq> 0"
  shows "serial_check n Ap Ai Ax x = Inr True"
proof -
  obtain b where b: "rhsInit n Ap Ai Ax x = Inr b" "alen b = n"
    "solution Ap Ai Ax n b (replicate (nat n) 1)"
    using rhsInit_ones[OF lower Ax x] by blast
  obtain y where y: "fs_csc n Ap Ai Ax b = Inr y" "solution Ap Ai Ax n b y"
    using fs_csc_solves[OF lower Ax _ diag] b(2) by fastforce
  have "y = replicate (nat n) 1" using solution_unique[OF lower diag y(2) b(3)] .
  moreover have "0 \<le> n" using lower_csc_compressed[OF lower] by (rule compressedD)
  ultimately show ?thesis using b y
    by (simp add: serial_check_def lsolve_fs_csc testTriangular_count)
qed

lemma parallel_serial_check:
  assumes lower: "lower_csc n Ap Ai" and Ax: "elt Ap n \<le> alen Ax" and x: "alen x = n"
    and dist: "distinct_rows n Ap Ai" and sched: "valid_schedules n Ap schedule"
  shows "parallel_check n Ap Ai Ax schedule x = serial_check n Ap Ai Ax x"
proof -
  obtain b where "rhsInit n Ap Ai Ax x = Inr b" "alen b = n"
    using rhsInit_ones[OF lower Ax x] by blast
  then show ?thesis
    by (simp add: parallel_check_def serial_check_def parInner_lsolve[OF lower Ax _ dist sched])
qed

end
