(* ===== verification/Kernels.thy ===== *)
theory Kernels
  imports Triangular Complex_Main
begin

text \<open>
  The sparse kernels the dependence analysis is tried on (\<open>src/data\<close>) and the incomplete Cholesky
  factorisation of the experiments (\<open>src/timeResults/src/ic0_csc_k.h\<close>, \<open>ic0_csc_m7.h\<close>). \<open>sqrt\<close> is
  declared and not defined in these files: it is the parameter \<open>sqroot\<close>. A \<open>double\<close> stored in an \<open>int\<close> loses its
  fraction (\<open>c_trunc\<close>); values outside the range of \<open>int\<close> are not considered.
\<close>

section \<open>Matrix-vector product and forward solve by rows\<close>

definition spMV_element :: "int list \<Rightarrow> 'a::comm_ring_1 list \<Rightarrow> 'a list \<Rightarrow> int \<Rightarrow> 'a list \<Rightarrow> int \<Rightarrow> 'a list result" where
  "spMV_element col val x i y j =
    bind_result (rd y i) (\<lambda>yi. bind_result (rd val j) (\<lambda>v. bind_result (rd col j) (\<lambda>c.
    bind_result (rd x c) (\<lambda>xc. wr y i (yi + v * xc)))))"

definition spMV_Mul_csr :: "int \<Rightarrow> int list \<Rightarrow> int list \<Rightarrow> 'a::comm_ring_1 list \<Rightarrow> 'a list \<Rightarrow> 'a list \<Rightarrow> 'a list result" where
  "spMV_Mul_csr n rowPtr col val x y =
    for_loop 0 n (\<lambda>y i. bind_result (rd rowPtr i) (\<lambda>lo. bind_result (rd rowPtr (i + 1)) (\<lambda>hi.
      for_loop lo hi (spMV_element col val x i) y))) y"

definition c_trunc :: "'a::floor_ceiling \<Rightarrow> int" where
  "c_trunc x = (if x < 0 then \<lceil>x\<rceil> else \<lfloor>x\<rfloor>)"

text \<open>\<open>tmp\<close> is an uninitialised local array of 100 \<open>int\<close>s; the state is \<open>tmp\<close> and \<open>x\<close>.\<close>

definition fs_csr_row :: "int list \<Rightarrow> int list \<Rightarrow> 'a::floor_ceiling list \<Rightarrow> 'a list \<Rightarrow>
  int list \<times> 'a list \<Rightarrow> int \<Rightarrow> (int list \<times> 'a list) result" where
  "fs_csr_row rowPtr colIdx val b st i = (case st of (tmp, x) \<Rightarrow>
    bind_result (rd b i) (\<lambda>bi. bind_result (wr tmp i (c_trunc bi)) (\<lambda>tmp.
    bind_result (rd rowPtr i) (\<lambda>lo. bind_result (rd rowPtr (i + 1)) (\<lambda>hi.
    bind_result (for_loop lo (hi - 1) (\<lambda>tmp j.
      bind_result (rd tmp i) (\<lambda>t. bind_result (rd val j) (\<lambda>v. bind_result (rd colIdx j) (\<lambda>c.
      bind_result (rd x c) (\<lambda>xc. wr tmp i (c_trunc (of_int t - v * xc))))))) tmp) (\<lambda>tmp.
    bind_result (rd tmp i) (\<lambda>t. bind_result (rd val (hi - 1)) (\<lambda>d.
    bind_result (wr x i (of_int t / d)) (\<lambda>x. Inr (tmp, x))))))))))"

definition fs_csr :: "int \<Rightarrow> int list \<Rightarrow> int list \<Rightarrow> 'a::floor_ceiling list \<Rightarrow> 'a list \<Rightarrow> int list \<Rightarrow> 'a list \<Rightarrow>
  'a list result" where
  "fs_csr n rowPtr colIdx val b tmp x =
    bind_result (for_loop 0 n (fs_csr_row rowPtr colIdx val b) (tmp, x)) (\<lambda>(tmp, x). Inr x)"

section \<open>Gauss-Seidel\<close>

definition gs_csr_row :: "int list \<Rightarrow> int list \<Rightarrow> int list \<Rightarrow> 'a::comm_ring_1 list \<Rightarrow> 'a list \<Rightarrow>
  'a list \<times> 'a list \<Rightarrow> int \<Rightarrow> ('a list \<times> 'a list) result" where
  "gs_csr_row rowPtr colIdx idiag values b st i = (case st of (acc, y) \<Rightarrow>
    bind_result (rd b i) (\<lambda>bi. bind_result (wr acc i bi) (\<lambda>acc.
    bind_result (rd rowPtr i) (\<lambda>lo. bind_result (rd rowPtr (i + 1)) (\<lambda>hi.
    bind_result (for_loop lo hi (\<lambda>acc j.
      bind_result (rd acc i) (\<lambda>s. bind_result (rd values j) (\<lambda>v. bind_result (rd colIdx j) (\<lambda>c.
      bind_result (rd y c) (\<lambda>yc. wr acc i (s - v * yc)))))) acc) (\<lambda>acc.
    bind_result (rd acc i) (\<lambda>s. bind_result (rd idiag i) (\<lambda>d.
    bind_result (wr y i (s * of_int d)) (\<lambda>y. Inr (acc, y))))))))))"

text \<open>\<open>sum\<close> is an uninitialised local array of 100 elements.\<close>

definition gs_csr :: "int \<Rightarrow> int list \<Rightarrow> int list \<Rightarrow> int list \<Rightarrow> 'a::comm_ring_1 list \<Rightarrow> 'a list \<Rightarrow> 'a list \<Rightarrow> 'a list \<Rightarrow>
  'a list result" where
  "gs_csr n rowPtr colIdx idiag values acc y b =
    bind_result (for_loop 0 n (gs_csr_row rowPtr colIdx idiag values b) (acc, y)) (\<lambda>(acc, y). Inr y)"

text \<open>Arrays of arrays: \<open>a[i][j]\<close> and \<open>a[i][j] = v\<close>.\<close>

definition rd2 :: "'a list list \<Rightarrow> int \<Rightarrow> int \<Rightarrow> 'a result" where
  "rd2 a i j = bind_result (rd a i) (\<lambda>r. rd r j)"

definition wr2 :: "'a list list \<Rightarrow> int \<Rightarrow> int \<Rightarrow> 'a \<Rightarrow> 'a list list result" where
  "wr2 a i j v = bind_result (rd a i) (\<lambda>r. bind_result (wr r j v) (wr a i))"

definition gs_bcsr_row :: "'a::comm_ring_1 list list list \<Rightarrow> 'a list list \<Rightarrow> 'a list list list \<Rightarrow> int list \<Rightarrow> int list \<Rightarrow>
  int \<Rightarrow> 'a list \<times> 'a list list \<Rightarrow> int \<Rightarrow> ('a list \<times> 'a list list) result" where
  "gs_bcsr_row values b idiag rowptr colidx BS st i = (case st of (acc, y) \<Rightarrow>
    bind_result (for_loop 0 BS (\<lambda>acc ii1. bind_result (rd2 b i ii1) (wr acc ii1)) acc) (\<lambda>acc.
    bind_result (rd rowptr i) (\<lambda>lo. bind_result (rd rowptr (i + 1)) (\<lambda>hi.
    bind_result (for_loop lo hi (\<lambda>acc j. for_loop 0 BS (\<lambda>acc jj1. for_loop 0 BS (\<lambda>acc ii2.
      bind_result (rd acc ii2) (\<lambda>s. bind_result (rd values j) (\<lambda>vj. bind_result (rd2 vj jj1 ii2) (\<lambda>v.
      bind_result (rd colidx j) (\<lambda>c. bind_result (rd2 y c jj1) (\<lambda>yc. wr acc ii2 (s - v * yc))))))) acc) acc) acc)
      (\<lambda>acc.
    bind_result (for_loop 0 BS (\<lambda>y ii3. wr2 y i ii3 0) y) (\<lambda>y.
    bind_result (for_loop 0 BS (\<lambda>y jj2. for_loop 0 BS (\<lambda>y ii4.
      bind_result (rd2 y i ii4) (\<lambda>yi. bind_result (rd idiag i) (\<lambda>di. bind_result (rd2 di jj2 ii4) (\<lambda>d.
      bind_result (rd acc jj2) (\<lambda>s. wr2 y i ii4 (yi + d * s)))))) y) y) (\<lambda>y.
    Inr (acc, y))))))))"

text \<open>The bound \<open>n\<close> is an uninitialised local variable of the source: the parameter is what it holds.\<close>

definition gs_bcsr :: "int \<Rightarrow> 'a::comm_ring_1 list list list \<Rightarrow> 'a list list \<Rightarrow> 'a list list \<Rightarrow> 'a list list list \<Rightarrow> int list \<Rightarrow>
  int list \<Rightarrow> int \<Rightarrow> 'a list \<Rightarrow> ('a list \<times> 'a list list) result" where
  "gs_bcsr n values y b idiag rowptr colidx BS acc =
    for_loop 0 n (gs_bcsr_row values b idiag rowptr colidx BS) (acc, y)"

section \<open>Incomplete Cholesky\<close>

text \<open>S3: \<open>val[k] -= val[m] * val[l]\<close> under its condition, evaluated from left to right.\<close>

definition ic0_update :: "int list \<Rightarrow> int \<Rightarrow> int \<Rightarrow> 'a::field list \<Rightarrow> int \<Rightarrow> 'a list result" where
  "ic0_update rowIdx m k val l =
    bind_result (rd rowIdx l) (\<lambda>a. bind_result (rd rowIdx k) (\<lambda>b. if a \<noteq> b then Inr val else
    bind_result (rd rowIdx (l + 1)) (\<lambda>a. bind_result (rd rowIdx k) (\<lambda>b. if \<not> a \<le> b then Inr val else
    bind_result (rd val k) (\<lambda>vk. bind_result (rd val m) (\<lambda>vm. bind_result (rd val l) (\<lambda>vl.
    wr val k (vk - vm * vl))))))))"

definition ic0_scale :: "int list \<Rightarrow> int \<Rightarrow> 'a::field list \<Rightarrow> int \<Rightarrow> 'a list result" where
  "ic0_scale colPtr i val m =
    bind_result (rd val m) (\<lambda>vm. bind_result (rd colPtr i) (\<lambda>d. bind_result (rd val d) (\<lambda>vd.
    wr val m (vm / vd))))"

text \<open>S2 and S3 for one column, after its pivot is done.\<close>

definition ic0_rest :: "int list \<Rightarrow> int list \<Rightarrow> int \<Rightarrow> 'a::field list \<Rightarrow> 'a list result" where
  "ic0_rest colPtr rowIdx i val =
    bind_result (rd colPtr i) (\<lambda>lo. bind_result (rd colPtr (i + 1)) (\<lambda>hi.
    bind_result (for_loop (lo + 1) hi (ic0_scale colPtr i) val) (\<lambda>val.
    for_loop (lo + 1) hi (\<lambda>val m.
      bind_result (rd rowIdx m) (\<lambda>r. bind_result (rd colPtr r) (\<lambda>k0. bind_result (rd colPtr (r + 1)) (\<lambda>k1.
      for_loop k0 k1 (\<lambda>val k. for_loop m hi (ic0_update rowIdx m k) val) val)))) val)))"

definition ic0_csc :: "('a \<Rightarrow> 'a) \<Rightarrow> int \<Rightarrow> 'a::field list \<Rightarrow> int list \<Rightarrow> int list \<Rightarrow> 'a list result" where
  "ic0_csc sqroot n val colPtr rowIdx =
    for_loop 0 (n - 1) (\<lambda>val i.
      bind_result (rd colPtr i) (\<lambda>d. bind_result (rd val d) (\<lambda>temp.
      bind_result (wr val d (temp / sqroot temp)) (ic0_rest colPtr rowIdx i)))) val"

definition ic0_csr :: "('a \<Rightarrow> 'a) \<Rightarrow> int \<Rightarrow> 'a::field list \<Rightarrow> int list \<Rightarrow> int list \<Rightarrow> 'a list result" where
  "ic0_csr sqroot n val colPtr rowIdx =
    for_loop 0 (n - 1) (\<lambda>val i.
      bind_result (rd colPtr i) (\<lambda>d. bind_result (rd val d) (\<lambda>v.
      bind_result (wr val d (sqroot v)) (ic0_rest colPtr rowIdx i)))) val"

section \<open>Left-looking Cholesky\<close>

text \<open>
  The row loop carries \<open>f\<close>, \<open>tmp\<close> and the switch \<open>sw\<close>; \<open>tmp\<close> is set before it is used because the
  switch is.
\<close>

definition chol_apply :: "int list \<Rightarrow> 'a::field list \<Rightarrow> int \<Rightarrow> 'a list \<times> 'a \<times> bool \<Rightarrow> int \<Rightarrow> ('a list \<times> 'a \<times> bool) result" where
  "chol_apply lR lValues colNo st l = (case st of (f, tmp, sw) \<Rightarrow>
    bind_result (rd lR l) (\<lambda>r.
    bind_result (if r = colNo \<and> \<not> sw then bind_result (rd lValues l) (\<lambda>v. Inr (v, True)) else Inr (tmp, sw))
      (\<lambda>(tmp, sw).
    if sw then bind_result (rd f r) (\<lambda>fr. bind_result (rd lValues l) (\<lambda>v.
      bind_result (wr f r (fr - v * tmp)) (\<lambda>f. Inr (f, tmp, sw))))
    else Inr (f, tmp, sw))))"

definition chol_column :: "('a \<Rightarrow> 'a) \<Rightarrow> int list \<Rightarrow> int list \<Rightarrow> 'a::field list \<Rightarrow> int list \<Rightarrow> int list \<Rightarrow>
  int list \<Rightarrow> int list \<Rightarrow> 'a list \<times> 'a list \<times> 'a \<Rightarrow> int \<Rightarrow> ('a list \<times> 'a list \<times> 'a) result" where
  "chol_column sqroot vC vR values lC lR prunePtr pruneSet st colNo = (case st of (lValues, f, tmp) \<Rightarrow>
    bind_result (rd vC colNo) (\<lambda>lo. bind_result (rd vC (colNo + 1)) (\<lambda>hi.
    bind_result (for_loop lo hi (\<lambda>f nzNo. bind_result (rd values nzNo) (\<lambda>v. bind_result (rd vR nzNo) (\<lambda>r. wr f r v))) f)
      (\<lambda>f.
    bind_result (rd prunePtr colNo) (\<lambda>lo. bind_result (rd prunePtr (colNo + 1)) (\<lambda>hi.
    bind_result (for_loop lo hi (\<lambda>(f, tmp) i. bind_result (rd pruneSet i) (\<lambda>c.
        bind_result (rd lC c) (\<lambda>lo. bind_result (rd lC (c + 1)) (\<lambda>hi.
        bind_result (for_loop lo hi (chol_apply lR lValues colNo) (f, tmp, False)) (\<lambda>(f, tmp, sw). Inr (f, tmp))))))
      (f, tmp)) (\<lambda>(f, tmp).
    bind_result (rd f colNo) (\<lambda>temp. let tmpSqrt = sqroot temp in
    bind_result (wr f colNo 0) (\<lambda>f.
    bind_result (rd lC colNo) (\<lambda>d. bind_result (wr lValues d tmpSqrt) (\<lambda>lValues.
    bind_result (rd lC (colNo + 1)) (\<lambda>hi.
    bind_result (for_loop (d + 1) hi (\<lambda>(lValues, f) j. bind_result (rd lR j) (\<lambda>r. bind_result (rd f r) (\<lambda>fr.
        bind_result (wr lValues j (fr / tmpSqrt)) (\<lambda>lValues. bind_result (wr f r 0) (\<lambda>f. Inr (lValues, f))))))
      (lValues, f)) (\<lambda>(lValues, f).
    Inr (lValues, f, tmp))))))))))))))"

definition staticleftChol_csc :: "('a \<Rightarrow> 'a) \<Rightarrow> int \<Rightarrow> int list \<Rightarrow> int list \<Rightarrow> 'a::field list \<Rightarrow> int list \<Rightarrow> int list \<Rightarrow>
  'a list \<Rightarrow> int list \<Rightarrow> int list \<Rightarrow> 'a list \<Rightarrow> 'a \<Rightarrow> (int \<times> 'a list \<times> 'a list) result" where
  "staticleftChol_csc sqroot n vC vR values lC lR lValues prunePtr pruneSet f tmp =
    bind_result (for_loop 0 n (chol_column sqroot vC vR values lC lR prunePtr pruneSet) (lValues, f, tmp))
      (\<lambda>(lValues, f, tmp). Inr (1, lValues, f))"

section \<open>What they compute\<close>

lemma spMV_row:
  assumes C: "compressed n rowPtr col" and val: "elt rowPtr n \<le> alen val" and x: "n \<le> alen x" and y: "n \<le> alen y"
    and i: "0 \<le> i" "i < n"
  shows "\<exists>y'. for_loop (elt rowPtr i) (elt rowPtr (i + 1)) (spMV_element col val x i) y = Inr y' \<and> alen y' = alen y \<and>
    (\<forall>k. 0 \<le> k \<longrightarrow> k < alen y \<longrightarrow> elt y' k = (if k = i
      then elt y i + (\<Sum>p \<in> {elt rowPtr i..<elt rowPtr (i + 1)}. elt val p * elt x (elt col p)) else elt y k))"
proof -
  note pos = position_ok[OF C i]
  have "\<exists>y'. for_loop (elt rowPtr i) (elt rowPtr (i + 1)) (spMV_element col val x i) y = Inr y' \<and> alen y' = alen y \<and>
    (\<forall>k. 0 \<le> k \<longrightarrow> k < alen y \<longrightarrow> elt y' k = elt y k +
      (\<Sum>p \<in> {elt rowPtr i..<elt rowPtr (i + 1)}. if i = k then elt val p * elt x (elt col p) else 0))"
  proof (rule arr.scatter)
    show "elt rowPtr i \<le> elt rowPtr (i + 1)" using compressedD(3)[OF C i] .
    show "0 \<le> i \<and> i < alen y" using i y by simp
    show "spMV_element col val x i m p = bind_result (rd m i) (\<lambda>yi. wr m i (yi + elt val p * elt x (elt col p)))"
      if "elt rowPtr i \<le> p" "p < elt rowPtr (i + 1)" "alen m = alen y" for p m
      using pos[of p] that i x y val by (simp add: spMV_element_def)
  qed
  moreover have "(\<Sum>p \<in> A. if i = k then f p else 0) = (if k = i then \<Sum>p \<in> A. f p else (0::'a))" for k f and A :: "int set"
    by simp
  ultimately show ?thesis by fastforce
qed

lemma sum_by_column:
  assumes C: "compressed n ptr idx" and i: "0 \<le> i" "i < n"
  shows "(\<Sum>c \<in> {0..<n}. entry ptr idx val i c * f c) =
    (\<Sum>p \<in> {elt ptr i..<elt ptr (i + 1)}. elt val p * (f (elt idx p) :: 'a::comm_ring_1))"
proof -
  have "(\<Sum>c \<in> {0..<n}. entry ptr idx val i c * f c) =
      (\<Sum>c \<in> {0..<n}. \<Sum>p \<in> {elt ptr i..<elt ptr (i + 1)}. if elt idx p = c then elt val p * f c else 0)"
    by (simp add: entry_def sum_distrib_right if_distrib[of "\<lambda>v. v * _"] cong: if_cong)
  also have "\<dots> = (\<Sum>p \<in> {elt ptr i..<elt ptr (i + 1)}. \<Sum>c \<in> {0..<n}. if elt idx p = c then elt val p * f c else 0)"
    by (rule sum.swap)
  also have "\<dots> = (\<Sum>p \<in> {elt ptr i..<elt ptr (i + 1)}. elt val p * f (elt idx p))"
    using position_ok[OF C i] by (intro sum.cong) (auto simp: )
  finally show ?thesis .
qed

lemma spMV_product:
  assumes C: "compressed n rowPtr col" and val: "elt rowPtr n \<le> alen val" and x: "n \<le> alen x" and y: "n \<le> alen y"
  shows "\<exists>y'. spMV_Mul_csr n rowPtr col val x y = Inr y' \<and> alen y' = alen y \<and>
    (\<forall>i. 0 \<le> i \<longrightarrow> i < n \<longrightarrow> elt y' i = elt y i + (\<Sum>c \<in> {0..<n}. entry rowPtr col val i c * elt x c)) \<and>
    (\<forall>i. n \<le> i \<longrightarrow> i < alen y \<longrightarrow> elt y' i = elt y i)"
proof -
  have n: "0 \<le> n" using C by (rule compressedD)
  define I where "I k y' \<longleftrightarrow> alen y' = alen y \<and> (\<forall>i. 0 \<le> i \<longrightarrow> i < alen y \<longrightarrow> elt y' i = (if i < k
    then elt y i + (\<Sum>c \<in> {0..<n}. entry rowPtr col val i c * elt x c) else elt y i))" for k :: int and y'
  have "\<exists>y'. spMV_Mul_csr n rowPtr col val x y = Inr y' \<and> I n y'"
    unfolding spMV_Mul_csr_def
  proof (rule for_loop_rule[OF n, where I = I])
    show "I 0 y" by (simp add: I_def)
    fix i z assume i: "0 \<le> i" "i < n" and I: "I i z"
    from I y have "n \<le> alen z" by (simp add: I_def)
    from spMV_row[OF C val x this i] show "\<exists>s'. bind_result (rd rowPtr i) (\<lambda>lo. bind_result (rd rowPtr (i + 1)) (\<lambda>hi.
        for_loop lo hi (spMV_element col val x i) z)) = Inr s' \<and> I (i + 1) s'"
      using I i y compressedD[OF C] by (auto simp: I_def sum_by_column[OF C i])
  qed
  then obtain y' where "spMV_Mul_csr n rowPtr col val x y = Inr y'" "I n y'" by blast
  then show ?thesis using y n by (intro exI[of _ y']) (simp add: I_def)
qed

text \<open>The local arrays of \<open>fs_csr\<close> and \<open>gs_csr\<close> have 100 elements.\<close>

lemma local_array_bound:
  assumes run: "for_loop 0 n body st = Inr st'" and len: "alen (fst st) = m"
    and step: "\<And>i s s'. 0 \<le> i \<Longrightarrow> body s i = Inr s' \<Longrightarrow> alen (fst s') = alen (fst s) \<and> i < alen (fst s)"
  shows "n \<le> m"
proof (rule ccontr)
  assume "\<not> n \<le> m"
  then have "0 \<le> m" "m < n" using len by auto
  have keep: "alen (fst s) = m" if "for_loop 0 m body st = Inr s" for s
    using that len by (rule for_loop_preserves) (auto dest: step)
  have "[0..n - 1] = [0..m - 1] @ m # [m + 1..n - 1]"
    using \<open>0 \<le> m\<close> \<open>m < n\<close> by (intro upto_split3) auto
  from run[unfolded for_loop_def this fold_result_append bind_result_Inr]
  obtain t where "for_loop 0 m body st = Inr t" "fold_result body t (m # [m + 1..n - 1]) = Inr st'"
    unfolding for_loop_def by blast
  moreover from this(2) obtain u where "body t m = Inr u"
    unfolding fold_result.simps bind_result_Inr by blast
  ultimately show False using step[of m t u] keep \<open>0 \<le> m\<close> by auto
qed

lemma wr_alen: "wr a i v = Inr b \<Longrightarrow> alen b = alen a \<and> 0 \<le> i \<and> i < alen a"
  by (auto simp: wr_def split: if_splits)

lemma wr_loop_alen:
  assumes "for_loop lo hi body a = Inr b" "\<And>i s s'. body s i = Inr s' \<Longrightarrow> alen s' = alen s"
  shows "alen b = alen a"
  using assms(1) by (rule for_loop_preserves[where P = "\<lambda>s. alen s = alen a"]) (auto dest: assms(2))

lemma fs_csr_bound: "fs_csr n rowPtr colIdx val b tmp x = Inr y \<Longrightarrow> n \<le> alen tmp"
  unfolding fs_csr_def bind_result_Inr
  by (elim exE conjE, erule local_array_bound)
     (auto simp: fs_csr_row_def simp del: rd_elt wr_upd dest!: wr_alen wr_loop_alen)

lemma gs_csr_bound: "gs_csr n rowPtr colIdx idiag values acc y b = Inr y' \<Longrightarrow> n \<le> alen acc"
  unfolding gs_csr_def bind_result_Inr
  by (elim exE conjE, erule local_array_bound)
     (auto simp: gs_csr_row_def simp del: rd_elt wr_upd dest!: wr_alen wr_loop_alen)

lemma fs_csr_truncates: "fs_csr 1 [0, 1] [0] [1 :: rat] [1 / 2] (replicate 100 0) [0] = Inr [0]"
  by code_simp

lemma ic0_keeps_last_pivot: "ic0_csr sqroot 1 [4 :: rat] [0, 1] [0] = Inr [4]"
  by code_simp

end
