(* ===== verification/Level_Set.thy ===== *)
theory Level_Set
  imports Sparse_Matrix
begin

text \<open>
  Level sets of a sparse lower triangular matrix (\<open>src/timeResults/src/levelSet.h\<close>): the columns are
  grouped into levels such that a column only depends on columns of earlier levels. A round of the loop
  collects the columns whose only remaining entry in their row is the diagonal, moves the ends of the
  window \<open>begin..end\<close> past finished columns, and removes the entries of the collected columns.

  The scan that moves \<open>begin\<close> has no bound: it reads \<open>inDegree[n]\<close> when all columns are done. What
  the code finds there is the parameter \<open>past\<close>: \<open>None\<close> when that read is undefined behaviour, as C++
  has it, and \<open>Some v\<close> for a machine whose memory has \<open>v\<close> behind the array. Every round writes
  \<open>levelPtr\<close>, which has \<open>n + 1\<close> elements, so a run that never empties the window ends by writing
  outside of it.
\<close>

section \<open>The algorithm\<close>

record level_state =
  ls_begin :: int
  ls_end :: int
  curLevel :: int
  curLevelCol :: int
  levelPtr :: "int list"
  levelSet :: "int list"
  inDegree :: "int list"
  visited :: "bool list"

definition rd_past :: "int option \<Rightarrow> int list \<Rightarrow> int \<Rightarrow> int result" where
  "rd_past past a i = (case past of
      Some v \<Rightarrow> if i = alen a then Inr v else rd a i
    | None \<Rightarrow> rd a i)"

definition collect :: "int list \<Rightarrow> bool list \<times> int list \<times> int \<Rightarrow> int \<Rightarrow> (bool list \<times> int list \<times> int) result" where
  "collect deg st i = (case st of (vis, ls, col) \<Rightarrow>
    bind_result (rd deg i) (\<lambda>d. if d = 1
      then bind_result (rd vis i) (\<lambda>v. if \<not> v
        then bind_result (wr vis i True) (\<lambda>vis. bind_result (wr ls col i) (\<lambda>ls. Inr (vis, ls, col + 1)))
        else Inr (vis, ls, col))
      else Inr (vis, ls, col)))"

lemma rd_past_range: "rd_past past a i = Inr v \<Longrightarrow> 0 \<le> i \<and> i \<le> alen a"
  by (auto simp: rd_past_def rd_def split: option.splits if_splits)

function skip_begin :: "int option \<Rightarrow> int list \<Rightarrow> int \<Rightarrow> int result" where
  "skip_begin past deg b = bind_result (rd_past past deg b) (\<lambda>d.
    if d = 1 then skip_begin past deg (b + 1) else Inr b)"
  by pat_completeness auto
termination
  by (relation "measure (\<lambda>(past, deg, b). nat (alen deg + 1 - b))") (auto dest: rd_past_range)

function skip_end :: "int list \<Rightarrow> int \<Rightarrow> int \<Rightarrow> int result" where
  "skip_end deg b e = bind_result (rd deg e) (\<lambda>d.
    if d = 1 \<and> b \<le> e then skip_end deg b (e - 1) else Inr e)"
  by pat_completeness auto
termination
  by (relation "measure (\<lambda>(deg, b, e). nat (e + 1))") (auto simp: rd_def split: if_splits)

declare skip_begin.simps [simp del] skip_end.simps [simp del]

definition level_round :: "int option \<Rightarrow> (int \<Rightarrow> int list \<Rightarrow> int list result) \<Rightarrow> level_state \<Rightarrow> level_state result" where
  "level_round past release s =
    bind_result (for_loop (ls_begin s) (ls_end s + 1) (collect (inDegree s)) (visited s, levelSet s, curLevelCol s))
      (\<lambda>(vis, ls, col).
    bind_result (wr (levelPtr s) (curLevel s + 1) col) (\<lambda>ptr.
    bind_result (skip_begin past (inDegree s) (ls_begin s)) (\<lambda>b.
    bind_result (skip_end (inDegree s) b (ls_end s)) (\<lambda>e.
    bind_result (rd ptr (curLevel s)) (\<lambda>lo. bind_result (rd ptr (curLevel s + 1)) (\<lambda>hi.
    bind_result (for_loop lo hi (\<lambda>deg l. bind_result (rd ls l) (\<lambda>cc. release cc deg)) (inDegree s)) (\<lambda>deg.
    Inr \<lparr>ls_begin = b, ls_end = e, curLevel = curLevel s + 1, curLevelCol = col, levelPtr = ptr,
      levelSet = ls, inDegree = deg, visited = vis\<rparr>)))))))"

lemma level_round_progress:
  "level_round past release s = Inr s' \<Longrightarrow>
    curLevel s' = curLevel s + 1 \<and> alen (levelPtr s') = alen (levelPtr s) \<and> curLevel s + 1 < alen (levelPtr s)"
  by (auto simp: level_round_def wr_def split: if_splits)

function level_loop :: "int option \<Rightarrow> (int \<Rightarrow> int list \<Rightarrow> int list result) \<Rightarrow> level_state \<Rightarrow> level_state result" where
  "level_loop past release s = (if ls_begin s \<le> ls_end s
    then bind_result (level_round past release s) (level_loop past release)
    else Inr s)"
  by pat_completeness auto
termination
  by (relation "measure (\<lambda>(past, release, s). nat (alen (levelPtr s) - curLevel s))")
     (auto dest: level_round_progress)

declare level_loop.simps [simp del]

definition level_start :: "int \<Rightarrow> int list \<Rightarrow> level_state" where
  "level_start n deg = \<lparr>ls_begin = 0, ls_end = n - 1, curLevel = 0, curLevelCol = 0,
    levelPtr = replicate (nat (n + 1)) 0, levelSet = replicate (nat n) 0, inDegree = deg,
    visited = replicate (nat n) False\<rparr>"

definition count_in :: "int list \<Rightarrow> int list \<Rightarrow> int \<Rightarrow> int list result" where
  "count_in Li deg i = bind_result (rd Li i) (\<lambda>r. bind_result (rd deg r) (\<lambda>d. wr deg r (d + 1)))"

definition drop_edge :: "int list \<Rightarrow> int list \<Rightarrow> int \<Rightarrow> int list result" where
  "drop_edge Li deg j = bind_result (rd Li j) (\<lambda>r. bind_result (rd deg r) (\<lambda>d. wr deg r (d - 1)))"

definition release_column :: "int list \<Rightarrow> int list \<Rightarrow> int \<Rightarrow> int list \<Rightarrow> int list result" where
  "release_column Lp Li cc deg = bind_result (rd Lp cc) (\<lambda>lo. bind_result (rd Lp (cc + 1)) (\<lambda>hi.
    for_loop (lo + 1) hi (drop_edge Li) deg))"

text \<open>The number of levels, \<open>levelPtr\<close> and \<open>levelSet\<close>.\<close>

definition level_result :: "level_state \<Rightarrow> int \<times> int list \<times> int list" where
  "level_result s = (curLevel s, levelPtr s, levelSet s)"

definition buildLevelSet_CSC :: "int option \<Rightarrow> int \<Rightarrow> int \<Rightarrow> int list \<Rightarrow> int list \<Rightarrow>
  (int \<times> int list \<times> int list) result" where
  "buildLevelSet_CSC past n nnz Lp Li =
    bind_result (for_loop 0 nnz (count_in Li) (replicate (nat n) 0)) (\<lambda>deg.
    bind_result (level_loop past (release_column Lp Li) (level_start n deg)) (\<lambda>s.
    Inr (level_result s)))"

definition release_node :: "int list list \<Rightarrow> int \<Rightarrow> int list \<Rightarrow> int list result" where
  "release_node DAG cc deg = bind_result (rd DAG cc) (\<lambda>succs. for_loop 0 (alen succs) (drop_edge succs) deg)"

definition buildLevelSet_DAG :: "int option \<Rightarrow> int \<Rightarrow> int list list \<Rightarrow> (int \<times> int list \<times> int list) result" where
  "buildLevelSet_DAG past n DAG =
    bind_result (for_loop 0 (alen DAG) (\<lambda>deg i. bind_result (rd DAG i) (\<lambda>succs.
      for_loop 0 (alen succs) (count_in succs) deg)) (replicate (nat n) 0)) (\<lambda>deg.
    bind_result (level_loop past (release_node DAG) (level_start n deg)) (\<lambda>s.
    Inr (level_result s)))"

end
