(* ===== verification/Level_Set_Correct.thy ===== *)
theory Level_Set_Correct
  imports Level_Set
begin

text \<open>
  Correctness of \<open>buildLevelSet_CSC\<close> on a lower triangular matrix: the invariant of its rounds, and
  with it that the loop ends, that every column is in exactly one level and that the columns a column
  depends on are in earlier levels. The last section treats \<open>buildLevelSet_DAG\<close>.
\<close>

section \<open>Dependences\<close>

definition depends :: "int list \<Rightarrow> int list \<Rightarrow> int \<Rightarrow> int \<Rightarrow> bool" where
  "depends Lp Li c i \<longleftrightarrow> (\<exists>p \<in> {elt Lp c + 1..<elt Lp (c + 1)}. elt Li p = i)"

definition edges :: "int list \<Rightarrow> int list \<Rightarrow> int \<Rightarrow> int \<Rightarrow> int" where
  "edges Lp Li c i = (\<Sum>p \<in> {elt Lp c + 1..<elt Lp (c + 1)}. if elt Li p = i then 1 else 0)"

lemma edges_nonneg [simp]: "0 \<le> edges Lp Li c i"
  unfolding edges_def by (rule sum_nonneg) simp

lemma edges_zero: "edges Lp Li c i = 0 \<longleftrightarrow> \<not> depends Lp Li c i"
  unfolding edges_def depends_def by (subst sum_nonneg_eq_0_iff) auto

lemma depends_lower:
  assumes "lower_csc n Lp Li" "0 \<le> c" "c < n" "depends Lp Li c i"
  shows "c < i" and "i < n"
proof -
  obtain p where p: "elt Lp c < p" "p < elt Lp (c + 1)" "elt Li p = i"
    using assms(4) unfolding depends_def by force
  show "c < i" using lower_cscD(3)[OF assms(1-3) p(1,2)] p(3) by simp
  show "i < n" using position_ok(5)[OF lower_csc_compressed[OF assms(1)] assms(2,3)] p by auto
qed

lemma sum_columns:
  assumes C: "compressed n Lp Li" and k: "0 \<le> k" "k \<le> n"
  shows "(\<Sum>p \<in> {elt Lp 0..<elt Lp k}. f p) = (\<Sum>c \<in> {0..<k}. \<Sum>p \<in> {elt Lp c..<elt Lp (c + 1)}. f p)"
proof -
  have "k \<le> n \<longrightarrow> ?thesis"
    using k(1)
  proof (induction k rule: int_ge_induct)
    case (step j)
    show ?case
    proof
      assume j: "j + 1 \<le> n"
      have "{elt Lp 0..<elt Lp (j + 1)} = {elt Lp 0..<elt Lp j} \<union> {elt Lp j..<elt Lp (j + 1)}"
        using ptr_mono[OF C, of 0 j] ptr_mono[OF C, of j "j + 1"] step.hyps j by auto
      then have "(\<Sum>p \<in> {elt Lp 0..<elt Lp (j + 1)}. f p) =
          (\<Sum>p \<in> {elt Lp 0..<elt Lp j}. f p) + (\<Sum>p \<in> {elt Lp j..<elt Lp (j + 1)}. f p)"
        by (simp add: sum.union_disjoint ivl_disj_int)
      with step j show "(\<Sum>p \<in> {elt Lp 0..<elt Lp (j + 1)}. f p) =
          (\<Sum>c \<in> {0..<j + 1}. \<Sum>p \<in> {elt Lp c..<elt Lp (c + 1)}. f p)"
        by (simp add: sum_upto_last)
    qed
  qed simp
  with k(2) show ?thesis by simp
qed

lemma initial_degrees:
  assumes lower: "lower_csc n Lp Li" and Lp0: "elt Lp 0 = 0"
  shows "\<exists>deg. for_loop 0 (elt Lp n) (count_in Li) (replicate (nat n) 0) = Inr deg \<and> alen deg = n \<and>
    (\<forall>i. 0 \<le> i \<longrightarrow> i < n \<longrightarrow> elt deg i = 1 + (\<Sum>c \<in> {0..<n}. edges Lp Li c i))"
proof -
  have C: "compressed n Lp Li" and n: "0 \<le> n"
    using lower by (auto intro: compressedD)
  have "0 \<le> elt Lp n" using ptr_mono[OF C, of 0 n] n Lp0 by simp
  have "\<exists>deg. for_loop 0 (elt Lp n) (count_in Li) (replicate (nat n) 0) = Inr deg \<and>
      alen deg = alen (replicate (nat n) (0::int)) \<and>
      (\<forall>i. 0 \<le> i \<longrightarrow> i < alen (replicate (nat n) (0::int)) \<longrightarrow>
        elt deg i = elt (replicate (nat n) 0) i + (\<Sum>p \<in> {0..<elt Lp n}. if elt Li p = i then 1 else 0))"
  proof (rule arr.scatter)
    fix p m assume p: "0 \<le> p" "p < elt Lp n"
    then have "p < alen Li" using C by (auto simp: compressed_def)
    then show "count_in Li m p = bind_result (rd m (elt Li p)) (\<lambda>x. wr m (elt Li p) (x + 1))"
      using p by (simp add: count_in_def)
  next
    fix p assume "0 \<le> p" "p < elt Lp n"
    then show "0 \<le> elt Li p \<and> elt Li p < alen (replicate (nat n) (0::int))"
      using C n Lp0 by (auto simp: compressed_def)
  qed fact
  moreover have "(\<Sum>p \<in> {0..<elt Lp n}. if elt Li p = i then 1 else 0) =
      1 + (\<Sum>c \<in> {0..<n}. edges Lp Li c i)" if i: "0 \<le> i" "i < n" for i
  proof -
    have "(\<Sum>p \<in> {elt Lp c..<elt Lp (c + 1)}. if elt Li p = i then 1 else 0) =
        (if c = i then 1 else 0) + edges Lp Li c i" if "c \<in> {0..<n}" for c
    proof -
      have c: "0 \<le> c" "c < n" using that by auto
      have "{elt Lp c..<elt Lp (c + 1)} = insert (elt Lp c) {elt Lp c + 1..<elt Lp (c + 1)}"
        using lower_cscD(1)[OF lower c] by auto
      then show ?thesis using lower_cscD(2)[OF lower c] by (simp add: edges_def)
    qed
    then have "(\<Sum>c \<in> {0..<n}. \<Sum>p \<in> {elt Lp c..<elt Lp (c + 1)}. if elt Li p = i then 1 else 0) =
        (\<Sum>c \<in> {0..<n}. (if c = i then 1 else 0) + edges Lp Li c i)"
      by (rule sum.cong[OF refl])
    also have "\<dots> = 1 + (\<Sum>c \<in> {0..<n}. edges Lp Li c i)" using i by (simp add: sum.distrib)
    finally show ?thesis
      using sum_columns[OF C n order_refl, of "\<lambda>p. if elt Li p = i then 1 else 0 :: int"] Lp0 by simp
  qed
  ultimately show ?thesis using n by auto
qed

lemma release_column_edges:
  assumes lower: "lower_csc n Lp Li" and c: "0 \<le> c" "c < n" and deg: "alen deg = n"
  shows "\<exists>deg'. release_column Lp Li c deg = Inr deg' \<and> alen deg' = n \<and>
    (\<forall>i. 0 \<le> i \<longrightarrow> i < n \<longrightarrow> elt deg' i = elt deg i - edges Lp Li c i)"
proof -
  have C: "compressed n Lp Li" using lower by (rule lower_csc_compressed)
  note pos = position_ok[OF C c]
  have "\<exists>deg'. for_loop (elt Lp c + 1) (elt Lp (c + 1)) (drop_edge Li) deg = Inr deg' \<and> alen deg' = alen deg \<and>
      (\<forall>i. 0 \<le> i \<longrightarrow> i < alen deg \<longrightarrow> elt deg' i = elt deg i +
        (\<Sum>p \<in> {elt Lp c + 1..<elt Lp (c + 1)}. if elt Li p = i then - 1 else 0))"
  proof (rule arr.scatter)
    show "elt Lp c + 1 \<le> elt Lp (c + 1)" using lower_cscD(1)[OF lower c] by simp
    show "0 \<le> elt Li p \<and> elt Li p < alen deg" if "elt Lp c + 1 \<le> p" "p < elt Lp (c + 1)" for p
      using pos[of p] that deg by simp
    show "drop_edge Li m p = bind_result (rd m (elt Li p)) (\<lambda>x. wr m (elt Li p) (x + - 1))"
      if "elt Lp c + 1 \<le> p" "p < elt Lp (c + 1)" for p m
      using pos[of p] that by (simp add: drop_edge_def)
  qed
  moreover have "(\<Sum>p \<in> {elt Lp c + 1..<elt Lp (c + 1)}. if elt Li p = i then - 1 else 0) = - edges Lp Li c i" for i
    unfolding edges_def sum_negf[symmetric] by (rule sum.cong) auto
  ultimately show ?thesis using c deg compressedD[OF C] by (auto simp: release_column_def)
qed

section \<open>One round\<close>

definition done_set :: "bool list \<Rightarrow> int set" where
  "done_set vis = {i. 0 \<le> i \<and> i < alen vis \<and> elt vis i}"

lemma finite_done_set [simp]: "finite (done_set vis)"
  by (rule finite_subset[of _ "{0..<alen vis}"]) (auto simp: done_set_def)

lemma card_bounded: "A \<subseteq> {0..<n} \<Longrightarrow> 0 \<le> n \<Longrightarrow> int (card A) \<le> n"
  using card_mono[of "{0..<n}" A] by simp

lemma collect_loop:
  assumes n: "alen deg = n" "alen vis = n" "alen ls = n" and b: "0 \<le> b" "b \<le> e + 1" "e < n"
    and col: "col = int (card (done_set vis))"
  shows "\<exists>vis' ls' col'. for_loop b (e + 1) (collect deg) (vis, ls, col) = Inr (vis', ls', col') \<and>
    alen vis' = n \<and> alen ls' = n \<and>
    done_set vis' = done_set vis \<union> {i \<in> {b..e}. elt deg i = 1} \<and>
    col' = int (card (done_set vis')) \<and> col \<le> col' \<and>
    (\<forall>q. 0 \<le> q \<longrightarrow> q < col \<longrightarrow> elt ls' q = elt ls q) \<and>
    elt ls' ` {col..<col'} = done_set vis' - done_set vis \<and> inj_on (elt ls') {col..<col'}"
proof -
  define New where "New k = {i \<in> {b..<k}. elt deg i = 1} - done_set vis" for k
  define I where "I k st \<longleftrightarrow> (case st of (vis', ls', col') \<Rightarrow>
    alen vis' = n \<and> alen ls' = n \<and> (\<forall>i. 0 \<le> i \<longrightarrow> i < n \<longrightarrow> elt vis' i = (elt vis i \<or> i \<in> New k)) \<and>
    col' = col + int (card (New k)) \<and> (\<forall>q. 0 \<le> q \<longrightarrow> q < col \<longrightarrow> elt ls' q = elt ls q) \<and>
    elt ls' ` {col..<col'} = New k \<and> inj_on (elt ls') {col..<col'})" for k and st :: "bool list \<times> int list \<times> int"
  have fin: "finite (New k)" for k
    by (rule finite_subset[of _ "{b..<k}"]) (auto simp: New_def)
  have "\<exists>st. for_loop b (e + 1) (collect deg) (vis, ls, col) = Inr st \<and> I (e + 1) st"
  proof (rule for_loop_rule[OF b(2), where I = I])
    show "I b (vis, ls, col)" using n by (simp add: I_def New_def)
  next
    fix k st assume k: "b \<le> k" "k < e + 1" and I0: "I k st"
    obtain vis' ls' col' where st: "st = (vis', ls', col')" by (cases st)
    note I = I0[unfolded I_def st, simplified]
    have k0: "0 \<le> k" "k < n" using k b by auto
    have vk: "elt vis' k \<longleftrightarrow> elt vis k" using I k0 by (auto simp: New_def)
    show "\<exists>st'. collect deg st k = Inr st' \<and> I (k + 1) st'"
    proof (cases "elt deg k = 1 \<and> \<not> elt vis k")
      case True
      then have New: "New (k + 1) = insert k (New k)" and fresh: "k \<notin> New k"
        using k k0 n by (auto simp: New_def done_set_def)
      have "insert k (New k) \<union> done_set vis \<subseteq> {0..<n}" using b k0 k n by (auto simp: New_def done_set_def)
      from card_bounded[OF this] have "int (card (insert k (New k) \<union> done_set vis)) \<le> n" using k0 by simp
      moreover have "card (insert k (New k) \<union> done_set vis) = card (insert k (New k)) + card (done_set vis)"
        using k0 True fin by (intro card_Un_disjoint) (auto simp: New_def done_set_def[of vis, symmetric], auto simp: done_set_def)
      ultimately have c: "0 \<le> col'" "col' < n" using I fin fresh col by auto
      have len: "alen ls' = n" and img0: "elt ls' ` {col..<col'} = New k" and inj0: "inj_on (elt ls') {col..<col'}"
        using I by blast+
      have "collect deg st k = Inr (upd vis' k True, upd ls' col' k, col' + 1)"
        using True vk k0 n I c by (simp add: collect_def st)
      moreover have split: "{col..<col' + 1} = insert col' {col..<col'}" using I by auto
      have img: "elt (upd ls' col' k) ` {col..<col'} = New k"
      proof -
        have "elt (upd ls' col' k) ` {col..<col'} = elt ls' ` {col..<col'}"
          using c len col by (intro image_cong) auto
        then show ?thesis by (simp only: img0)
      qed
      have "elt (upd ls' col' k) ` {col..<col' + 1} = New (k + 1)"
        using c len by (simp only: split image_insert img New) simp
      moreover have "inj_on (elt (upd ls' col' k)) {col..<col' + 1}"
      proof -
        have "inj_on (elt (upd ls' col' k)) {col..<col'} \<longleftrightarrow> inj_on (elt ls') {col..<col'}"
          using c len col by (intro inj_on_cong) auto
        then have "inj_on (elt (upd ls' col' k)) {col..<col'}" by (simp only: inj0)
        then show ?thesis using c len fresh
          by (simp only: split inj_on_insert) (simp add: img)
      qed
      ultimately show ?thesis using I c k0 fin fresh col
        by (auto simp: I_def New)
    next
      case False
      then have "New (k + 1) = New k" using k k0 n by (auto simp: New_def done_set_def le_less)
      moreover have "collect deg st k = Inr st"
        using False vk k0 n I by (auto simp: collect_def st)
      ultimately show ?thesis using I0 by (simp add: I_def)
    qed
  qed
  then obtain vis' ls' col' where run: "for_loop b (e + 1) (collect deg) (vis, ls, col) = Inr (vis', ls', col')"
    and I: "I (e + 1) (vis', ls', col')" by auto
  have N: "New (e + 1) = {i \<in> {b..e}. elt deg i = 1} - done_set vis"
    by (auto simp: New_def)
  have D: "done_set vis' = done_set vis \<union> New (e + 1)"
    using I n b by (auto simp: I_def done_set_def New_def)
  have "card (done_set vis') = card (done_set vis) + card (New (e + 1))"
    unfolding D by (rule card_Un_disjoint[OF finite_done_set fin]) (auto simp: New_def)
  moreover have "done_set vis' - done_set vis = New (e + 1)" using D by (auto simp: New_def)
  ultimately show ?thesis using run I D N col by (auto simp: I_def)
qed

definition skipped :: "int option \<Rightarrow> int list \<Rightarrow> int \<Rightarrow> int \<Rightarrow> bool" where
  "skipped past deg b b' \<longleftrightarrow> b \<le> b' \<and> b' \<le> alen deg \<and> (\<forall>i. b \<le> i \<longrightarrow> i < b' \<longrightarrow> elt deg i = 1) \<and>
    (b' < alen deg \<longrightarrow> elt deg b' \<noteq> 1) \<and> (past = None \<longrightarrow> b' < alen deg)"

lemma skipped_Suc:
  assumes "skipped past deg (b + 1) b'" "elt deg b = 1"
  shows "skipped past deg b b'"
proof -
  have "elt deg i = 1" if "b \<le> i" "i < b'" for i
    using assms that by (cases "i = b") (auto simp: skipped_def)
  with assms(1) show ?thesis by (auto simp: skipped_def)
qed

lemma skip_begin_spec:
  assumes "0 \<le> b" "b \<le> alen deg" "past \<noteq> Some 1"
  shows "(\<exists>b'. skip_begin past deg b = Inr b' \<and> skipped past deg b b') \<or>
    (past = None \<and> skip_begin past deg b = Inl (Undefined ''read outside an array''))"
  using assms
proof (induction past deg b rule: skip_begin.induct)
  case (1 past deg b)
  show ?case
  proof (cases "b = alen deg")
    case True
    have "skip_begin past deg b = (case past of
        None \<Rightarrow> Inl (Undefined ''read outside an array'') | Some v \<Rightarrow> Inr b)"
      using True "1.prems"
      by (subst skip_begin.simps) (auto simp: rd_past_def rd_outside split: option.splits)
    then show ?thesis using True "1.prems" by (cases past) (auto simp: skipped_def)
  next
    case False
    then have read: "rd_past past deg b = Inr (elt deg b)"
      using "1.prems" by (auto simp: rd_past_def split: option.splits)
    then have unfold: "skip_begin past deg b = (if elt deg b = 1 then skip_begin past deg (b + 1) else Inr b)"
      by (subst skip_begin.simps) simp
    show ?thesis
    proof (cases "elt deg b = 1")
      case True
      have "b + 1 \<le> alen deg" using False "1.prems" by simp
      with "1.IH"[of "elt deg b"] read True "1.prems" show ?thesis
        unfolding unfold by (auto intro: skipped_Suc)
    next
      case False
      then have "skipped past deg b b" using "1.prems" \<open>b \<noteq> alen deg\<close> by (simp add: skipped_def)
      then show ?thesis using unfold False by simp
    qed
  qed
qed

lemma skip_end_spec:
  assumes "1 \<le> b" "0 \<le> e" "e < alen deg"
  shows "\<exists>e'. skip_end deg b e = Inr e' \<and> 0 \<le> e' \<and> e' \<le> e \<and> (e' = e \<or> b \<le> e' + 1) \<and>
    (\<forall>i. e' < i \<longrightarrow> i \<le> e \<longrightarrow> elt deg i = 1) \<and> (b \<le> e' \<longrightarrow> elt deg e' \<noteq> 1)"
  using assms
proof (induction deg b e rule: skip_end.induct)
  case (1 deg b e)
  show ?case
  proof (cases "elt deg e = 1 \<and> b \<le> e")
    case True
    then obtain e' where e': "skip_end deg b (e - 1) = Inr e'" "0 \<le> e'" "e' \<le> e - 1"
      "e' = e - 1 \<or> b \<le> e' + 1" "\<forall>i. e' < i \<longrightarrow> i \<le> e - 1 \<longrightarrow> elt deg i = 1" "b \<le> e' \<longrightarrow> elt deg e' \<noteq> 1"
      using "1.IH"[of "elt deg e"] "1.prems" by auto
    have "elt deg i = 1" if "e' < i" "i \<le> e" for i
      using that e'(5) True by (cases "i = e") auto
    then show ?thesis using e' True "1.prems" by (auto simp: skip_end.simps[of deg b e])
  next
    case False
    then show ?thesis using "1.prems" by (auto simp: skip_end.simps[of deg b e])
  qed
qed

lemma release_loop:
  assumes lower: "lower_csc n Lp Li" and deg: "alen deg = n" and range: "0 \<le> lo" "lo \<le> hi" "hi \<le> alen ls"
    and cols: "\<And>l. lo \<le> l \<Longrightarrow> l < hi \<Longrightarrow> 0 \<le> elt ls l \<and> elt ls l < n"
  shows "\<exists>deg'. for_loop lo hi (\<lambda>deg l. bind_result (rd ls l) (\<lambda>cc. release_column Lp Li cc deg)) deg = Inr deg' \<and>
    alen deg' = n \<and>
    (\<forall>i. 0 \<le> i \<longrightarrow> i < n \<longrightarrow> elt deg' i = elt deg i - (\<Sum>l \<in> {lo..<hi}. edges Lp Li (elt ls l) i))"
proof -
  define I where "I k d \<longleftrightarrow> alen d = n \<and>
    (\<forall>i. 0 \<le> i \<longrightarrow> i < n \<longrightarrow> elt d i = elt deg i - (\<Sum>l \<in> {lo..<k}. edges Lp Li (elt ls l) i))" for k d
  have "\<exists>deg'. for_loop lo hi (\<lambda>deg l. bind_result (rd ls l) (\<lambda>cc. release_column Lp Li cc deg)) deg = Inr deg' \<and>
    I hi deg'"
  proof (rule for_loop_rule[OF range(2), where I = I])
    show "I lo deg" using deg by (simp add: I_def)
    fix l d assume l: "lo \<le> l" "l < hi" and I: "I l d"
    obtain d' where "release_column Lp Li (elt ls l) d = Inr d'" "alen d' = n"
      "\<forall>i. 0 \<le> i \<longrightarrow> i < n \<longrightarrow> elt d' i = elt d i - edges Lp Li (elt ls l) i"
      using release_column_edges[OF lower, of "elt ls l" d] cols[OF l] I by (auto simp: I_def)
    then show "\<exists>s'. bind_result (rd ls l) (\<lambda>cc. release_column Lp Li cc d) = Inr s' \<and> I (l + 1) s'"
      using I l range by (auto simp: I_def sum_upto_last)
  qed
  then show ?thesis by (simp add: I_def)
qed

section \<open>The invariant\<close>

text \<open>
  \<open>k\<close> levels hold the first \<open>col\<close> elements of \<open>ls\<close>; none is empty, no column occurs twice, and what
  a column of a level depends on is in an earlier level.
\<close>

definition schedule_ok :: "int \<Rightarrow> int list \<Rightarrow> int list \<Rightarrow> int \<Rightarrow> int \<Rightarrow> int list \<Rightarrow> int list \<Rightarrow> bool" where
  "schedule_ok n Lp Li k col ptr ls \<longleftrightarrow> elt ptr 0 = 0 \<and> elt ptr k = col \<and>
    (\<forall>l \<in> {0..k}. 0 \<le> elt ptr l \<and> elt ptr l \<le> col) \<and> (\<forall>l \<in> {0..<k}. elt ptr l < elt ptr (l + 1)) \<and>
    inj_on (elt ls) {0..<col} \<and>
    (\<forall>l \<in> {0..<k}. \<forall>q \<in> {elt ptr l..<elt ptr (l + 1)}. \<forall>c \<in> {0..<n}.
      depends Lp Li c (elt ls q) \<longrightarrow> c \<in> elt ls ` {0..<elt ptr l})"

lemma schedule_ok_extend:
  assumes ok: "schedule_ok n Lp Li k col ptr ls" and k: "0 \<le> k" "k + 1 < alen ptr" and col: "0 \<le> col" "col < col'"
    and same: "\<And>q. 0 \<le> q \<Longrightarrow> q < col \<Longrightarrow> elt ls' q = elt ls q"
    and inj: "inj_on (elt ls') {col..<col'}" and new: "elt ls' ` {col..<col'} \<inter> elt ls ` {0..<col} = {}"
    and deps: "\<And>q c. col \<le> q \<Longrightarrow> q < col' \<Longrightarrow> 0 \<le> c \<Longrightarrow> c < n \<Longrightarrow> depends Lp Li c (elt ls' q) \<Longrightarrow> c \<in> elt ls ` {0..<col}"
  shows "schedule_ok n Lp Li (k + 1) col' (upd ptr (k + 1) col') ls'"
proof -
  have img: "elt ls' ` {0..<m} = elt ls ` {0..<m}" if "m \<le> col" for m
    using that same by (intro image_cong) auto
  have p: "elt (upd ptr (k + 1) col') l = (if l = k + 1 then col' else elt ptr l)" if "0 \<le> l" for l
    using k that by simp
  have old: "0 \<le> elt ptr l" "elt ptr l \<le> col" if "0 \<le> l" "l \<le> k" for l
    using ok that by (auto simp: schedule_ok_def)
  have "inj_on (elt ls') {0..<col'}"
  proof -
    have split: "{0..<col'} = {0..<col} \<union> {col..<col'}" using col by auto
    have "inj_on (elt ls') {0..<col} \<longleftrightarrow> inj_on (elt ls) {0..<col}" using same by (intro inj_on_cong) auto
    then have "inj_on (elt ls') {0..<col}" using ok by (simp add: schedule_ok_def)
    moreover have "{0..<col} - {col..<col'} = {0..<col}" "{col..<col'} - {0..<col} = {col..<col'}" by auto
    ultimately show ?thesis using inj new img[of col] unfolding split by (simp add: inj_on_Un Int_commute)
  qed
  moreover have "c \<in> elt ls' ` {0..<elt (upd ptr (k + 1) col') l}"
    if l: "0 \<le> l" "l < k + 1" and q: "q \<in> {elt (upd ptr (k + 1) col') l..<elt (upd ptr (k + 1) col') (l + 1)}"
      and c: "0 \<le> c" "c < n" and d: "depends Lp Li c (elt ls' q)" for l q c
  proof (cases "l = k")
    case True
    then have "q \<in> {col..<col'}" using q p[of k] p[of "k + 1"] k ok by (simp add: schedule_ok_def)
    with deps[of q c] c d True show ?thesis
      using p[of k] k ok img[of col] by (simp add: schedule_ok_def)
  next
    case False
    then have lk: "l < k" using l by simp
    then have q: "q \<in> {elt ptr l..<elt ptr (l + 1)}" using q p[of l] p[of "l + 1"] l by simp
    then have "elt ls' q = elt ls q" using old[of l] old[of "l + 1"] l lk by (intro same) auto
    then show ?thesis using ok q l lk c d p[of l] img[of "elt ptr l"] old[of l]
      by (auto simp: schedule_ok_def)
  qed
  moreover have "0 \<le> elt (upd ptr (k + 1) col') l \<and> elt (upd ptr (k + 1) col') l \<le> col'" if "0 \<le> l" "l \<le> k + 1" for l
    using that col old[of l] p[of l] by auto
  moreover have "elt (upd ptr (k + 1) col') l < elt (upd ptr (k + 1) col') (l + 1)" if "0 \<le> l" "l < k + 1" for l
  proof (cases "l = k")
    case True
    then show ?thesis using p[of k] p[of "k + 1"] k col ok by (simp add: schedule_ok_def)
  next
    case False
    then show ?thesis using that p[of l] p[of "l + 1"] ok by (simp add: schedule_ok_def)
  qed
  ultimately show ?thesis using p[of 0] p[of "k + 1"] k ok unfolding schedule_ok_def by auto
qed

definition level_inv :: "int \<Rightarrow> int list \<Rightarrow> int list \<Rightarrow> level_state \<Rightarrow> bool" where
  "level_inv n Lp Li s \<longleftrightarrow>
    alen (visited s) = n \<and> alen (levelSet s) = n \<and> alen (inDegree s) = n \<and> alen (levelPtr s) = n + 1 \<and>
    0 \<le> ls_begin s \<and> ls_begin s \<le> n \<and> ls_end s < n \<and>
    curLevelCol s = int (card (done_set (visited s))) \<and>
    elt (levelSet s) ` {0..<curLevelCol s} = done_set (visited s) \<and>
    0 \<le> curLevel s \<and> curLevel s \<le> curLevelCol s \<and>
    schedule_ok n Lp Li (curLevel s) (curLevelCol s) (levelPtr s) (levelSet s) \<and>
    (\<forall>i. 0 \<le> i \<longrightarrow> i < n \<longrightarrow> elt (inDegree s) i = 1 + (\<Sum>c \<in> {0..<n} - done_set (visited s). edges Lp Li c i)) \<and>
    (\<forall>i \<in> done_set (visited s). elt (inDegree s) i = 1) \<and>
    (\<forall>i. 0 \<le> i \<longrightarrow> i < n \<longrightarrow> i < ls_begin s \<or> ls_end s < i \<longrightarrow> i \<in> done_set (visited s)) \<and>
    (ls_begin s \<le> ls_end s \<longrightarrow> ls_begin s \<notin> done_set (visited s))"

lemma no_pending:
  "(\<Sum>c \<in> {0..<n} - V. edges Lp Li c i) = 0 \<longleftrightarrow> (\<forall>c. 0 \<le> c \<longrightarrow> c < n \<longrightarrow> depends Lp Li c i \<longrightarrow> c \<in> V)"
  by (subst sum_nonneg_eq_0_iff) (auto simp: edges_zero)

text \<open>The first column of the window is always ready, so every round makes progress.\<close>

lemma begin_ready:
  assumes lower: "lower_csc n Lp Li" and inv: "level_inv n Lp Li s" and win: "ls_begin s \<le> ls_end s"
  shows "elt (inDegree s) (ls_begin s) = 1" and "ls_begin s < n" and "ls_begin s \<notin> done_set (visited s)"
proof -
  show b: "ls_begin s < n" and "ls_begin s \<notin> done_set (visited s)"
    using inv win by (auto simp: level_inv_def)
  have "c \<in> done_set (visited s)" if "0 \<le> c" "c < n" "depends Lp Li c (ls_begin s)" for c
    using depends_lower(1)[OF lower that] inv that by (auto simp: level_inv_def)
  then show "elt (inDegree s) (ls_begin s) = 1"
    using inv b no_pending[where V = "done_set (visited s)"] by (simp add: level_inv_def)
qed

lemma level_round_ok:
  assumes lower: "lower_csc n Lp Li" and inv: "level_inv n Lp Li s" and win: "ls_begin s \<le> ls_end s"
    and past: "past \<noteq> Some 1"
  shows "(\<exists>s'. level_round past (release_column Lp Li) s = Inr s' \<and> level_inv n Lp Li s' \<and>
      ls_begin s < ls_begin s' \<and> (past = None \<longrightarrow> ls_begin s' \<le> ls_end s')) \<or>
    (past = None \<and> level_round past (release_column Lp Li) s = Inl (Undefined ''read outside an array''))"
proof -
  define deg b e V col where "deg = inDegree s" "b = ls_begin s" "e = ls_end s"
    "V = done_set (visited s)" "col = curLevelCol s"
  note defs = this
  have n: "alen (visited s) = n" "alen (levelSet s) = n" "alen deg = n" "alen (levelPtr s) = n + 1"
    and win': "0 \<le> b" "b \<le> e" "e < n" and col: "col = int (card V)"
    and img: "elt (levelSet s) ` {0..<col} = V" and cur: "0 \<le> curLevel s" "curLevel s \<le> col"
    and sched: "schedule_ok n Lp Li (curLevel s) col (levelPtr s) (levelSet s)"
    and degs: "\<And>i. 0 \<le> i \<Longrightarrow> i < n \<Longrightarrow> elt deg i = 1 + (\<Sum>c \<in> {0..<n} - V. edges Lp Li c i)"
    and Vdeg: "\<And>i. i \<in> V \<Longrightarrow> elt deg i = 1"
    and outside: "\<And>i. 0 \<le> i \<Longrightarrow> i < n \<Longrightarrow> i < b \<or> e < i \<Longrightarrow> i \<in> V"
    using inv win unfolding level_inv_def defs by blast+
  note ready = begin_ready[OF lower inv win, folded defs]
  have Vd: "V = done_set (visited s)" by (simp add: defs)
  have "b \<le> e + 1" using win' by simp
  note collected = collect_loop[OF n(3,1,2) win'(1) this win'(3) col[unfolded Vd], folded Vd]
  obtain vis' ls' col' where run: "for_loop b (e + 1) (collect deg) (visited s, levelSet s, col) = Inr (vis', ls', col')"
    and n': "alen vis' = n" "alen ls' = n"
    and V': "done_set vis' = V \<union> {i \<in> {b..e}. elt deg i = 1}"
    and col': "col' = int (card (done_set vis'))" "col \<le> col'"
    and same: "\<forall>q. 0 \<le> q \<longrightarrow> q < col \<longrightarrow> elt ls' q = elt (levelSet s) q"
    and new: "elt ls' ` {col..<col'} = done_set vis' - V" "inj_on (elt ls') {col..<col'}"
    using collected by (elim exE conjE) (rule that; assumption)
  define W where "W = done_set vis'"
  note same = same[rule_format] and V' = V'[folded W_def] and col' = col'[folded W_def] and new = new[folded W_def]
  have "V \<subseteq> {0..<n}" using n by (auto simp: Vd done_set_def)
  moreover have "W \<subseteq> {0..<n}" using n' by (auto simp: W_def done_set_def)
  moreover have "V \<subseteq> W" using V' by blast
  ultimately have sub: "V \<subseteq> {0..<n}" "W \<subseteq> {0..<n}" "V \<subseteq> W" by blast+
  have "b \<in> W" unfolding V' using win' ready by auto
  then have "card V < card W" using ready sub by (intro psubset_card_mono) (auto simp: W_def)
  then have lt: "0 \<le> col" "col < col'" "col' \<le> n" "curLevel s < n"
    using col col' cur card_bounded[OF sub(2)] win' by auto
  have Wdeg: "elt deg i = 1" if "i \<in> W" for i using that V' Vdeg by auto
  have wr: "wr (levelPtr s) (curLevel s + 1) col' = Inr (upd (levelPtr s) (curLevel s + 1) col')"
    using cur lt n by simp
  consider (stop) b' where "skip_begin past deg b = Inr b'" "skipped past deg b b'"
    | (fault) "past = None" "skip_begin past deg b = Inl (Undefined ''read outside an array'')"
    using skip_begin_spec[of b deg past] past win' n by auto
  then show ?thesis
  proof cases
    case fault
    then show ?thesis using run wr by (simp add: level_round_def defs)
  next
    case stop
    have bb': "b < b'" using stop(2) ready n by (cases "b = b'") (auto simp: skipped_def)
    obtain e' where e': "skip_end deg b' e = Inr e'" "0 \<le> e'" "e' \<le> e" "e' = e \<or> b' \<le> e' + 1"
      "\<And>i. e' < i \<Longrightarrow> i \<le> e \<Longrightarrow> elt deg i = 1" "b' \<le> e' \<Longrightarrow> elt deg e' \<noteq> 1"
      using skip_end_spec[of b' e deg] bb' win' n by auto
    have ptr: "elt (levelPtr s) (curLevel s) = col" using sched by (simp add: schedule_ok_def)
    have cols: "0 \<le> elt ls' l \<and> elt ls' l < n" if "col \<le> l" "l < col'" for l
    proof -
      have "elt ls' l \<in> W - V" unfolding new(1)[symmetric] using that by auto
      then show ?thesis using sub by auto
    qed
    obtain deg' where rel: "for_loop col col' (\<lambda>deg l. bind_result (rd ls' l) (\<lambda>cc. release_column Lp Li cc deg)) deg = Inr deg'"
      and dn: "alen deg' = n"
      and dval: "\<And>i. 0 \<le> i \<Longrightarrow> i < n \<Longrightarrow> elt deg' i = elt deg i - (\<Sum>l \<in> {col..<col'}. edges Lp Li (elt ls' l) i)"
      using release_loop[OF lower n(3), of col col' ls'] lt n' cols by auto
    have degs': "elt deg' i = 1 + (\<Sum>c \<in> {0..<n} - W. edges Lp Li c i)" if i: "0 \<le> i" "i < n" for i
    proof -
      have "(\<Sum>l \<in> {col..<col'}. edges Lp Li (elt ls' l) i) = (\<Sum>c \<in> W - V. edges Lp Li c i)"
        unfolding new(1)[symmetric] by (subst sum.reindex[OF new(2)]) simp
      moreover have "{0..<n} - V - (W - V) = {0..<n} - W" using sub by auto
      then have "(\<Sum>c \<in> {0..<n} - V. edges Lp Li c i) =
          (\<Sum>c \<in> {0..<n} - W. edges Lp Li c i) + (\<Sum>c \<in> W - V. edges Lp Li c i)"
        using sub sum.subset_diff[of "W - V" "{0..<n} - V" "\<lambda>c. edges Lp Li c i"] by auto
      ultimately show ?thesis using degs[OF i] dval[OF i] by simp
    qed
    have preds: "c \<in> V" if "i \<in> W" "0 \<le> c" "c < n" "depends Lp Li c i" for i c
    proof -
      have "0 \<le> i" "i < n" using that sub by auto
      then have "(\<Sum>c \<in> {0..<n} - V. edges Lp Li c i) = 0" using degs Wdeg[OF that(1)] by simp
      then show ?thesis using that no_pending by blast
    qed
    let ?s' = "\<lparr>ls_begin = b', ls_end = e', curLevel = curLevel s + 1, curLevelCol = col',
      levelPtr = upd (levelPtr s) (curLevel s + 1) col', levelSet = ls', inDegree = deg', visited = vis'\<rparr>"
    have round: "level_round past (release_column Lp Li) s = Inr ?s'"
      using run wr stop(1) e'(1) rel ptr cur lt n by (simp add: level_round_def defs)
    have Wout: "i \<in> W" if "0 \<le> i" "i < n" "i < b' \<or> e' < i" for i
    proof (cases "i < b \<or> e < i")
      case True
      then show ?thesis using outside[OF that(1,2)] sub by auto
    next
      case False
      then have "elt deg i = 1" using that stop(2) e'(5)[of i] by (auto simp: skipped_def)
      then show ?thesis using False V' by auto
    qed
    have fresh: "b' \<notin> W" if "b' \<le> e'"
      using Wdeg[of b'] stop(2) that e' win' n by (auto simp: skipped_def)
    have strict: "b' \<le> e'" if "past = None"
    proof (rule ccontr)
      have "b' < n" "elt deg b' \<noteq> 1" using stop(2) that n by (auto simp: skipped_def)
      moreover assume "\<not> b' \<le> e'"
      ultimately show False using Wout[of b'] Wdeg[of b'] bb' win' by auto
    qed
    have Wdeg': "elt deg' i = 1" if "i \<in> W" for i
      using degs'[of i] that sub preds[OF that] no_pending[where V = W] by fastforce
    have img': "elt ls' ` {0..<col'} = W"
    proof -
      have split: "{0..<col'} = {0..<col} \<union> {col..<col'}" using lt by auto
      have "elt ls' ` {0..<col} = elt (levelSet s) ` {0..<col}" using same by (intro image_cong) auto
      then show ?thesis unfolding split image_Un using img new(1) sub by auto
    qed
    have sched': "schedule_ok n Lp Li (curLevel s + 1) col' (upd (levelPtr s) (curLevel s + 1) col') ls'"
    proof (rule schedule_ok_extend[OF sched cur(1) _ lt(1,2) same new(2)])
      show "curLevel s + 1 < alen (levelPtr s)" using lt n by simp
      show "elt ls' ` {col..<col'} \<inter> elt (levelSet s) ` {0..<col} = {}" using img new(1) by auto
      fix q c assume "col \<le> q" "q < col'" "0 \<le> c" "c < n" "depends Lp Li c (elt ls' q)"
      moreover from this have "elt ls' q \<in> W - V" unfolding new(1)[symmetric] by auto
      ultimately show "c \<in> elt (levelSet s) ` {0..<col}" using preds img by auto
    qed
    have nums: "0 \<le> b'" "b' \<le> n" "e' < n" "0 \<le> curLevel s + 1" "curLevel s + 1 \<le> col'"
      "alen (upd (levelPtr s) (curLevel s + 1) col') = n + 1"
      using stop(2) n bb' win' e'(3) cur lt by (auto simp: skipped_def)
    have "level_inv n Lp Li ?s'"
      unfolding level_inv_def level_state.simps W_def[symmetric]
      using n' dn col'(1) nums sched' img' fresh degs' Wdeg' Wout by blast
    then show ?thesis using round strict bb' by (auto simp: defs(2))
  qed
qed

section \<open>The loop and the whole function\<close>

lemma level_loop_ok:
  assumes lower: "lower_csc n Lp Li" and past: "past \<noteq> Some 1" and inv: "level_inv n Lp Li s"
  shows "(\<exists>s'. level_loop past (release_column Lp Li) s = Inr s' \<and> level_inv n Lp Li s' \<and>
      ls_end s' < ls_begin s' \<and> (past = None \<longrightarrow> ls_end s < ls_begin s)) \<or>
    (past = None \<and> level_loop past (release_column Lp Li) s = Inl (Undefined ''read outside an array''))"
  using inv
proof (induction s rule: measure_induct_rule[where f = "\<lambda>s. nat (n - ls_begin s)"])
  case (less s)
  show ?case
  proof (cases "ls_begin s \<le> ls_end s")
    case False
    then show ?thesis using less.prems by (simp add: level_loop.simps[of past _ s])
  next
    case True
    then have unfold: "level_loop past (release_column Lp Li) s =
        bind_result (level_round past (release_column Lp Li) s) (level_loop past (release_column Lp Li))"
      by (simp add: level_loop.simps[of past _ s])
    from level_round_ok[OF lower less.prems True past] show ?thesis
    proof
      assume "\<exists>s'. level_round past (release_column Lp Li) s = Inr s' \<and> level_inv n Lp Li s' \<and>
        ls_begin s < ls_begin s' \<and> (past = None \<longrightarrow> ls_begin s' \<le> ls_end s')"
      then obtain s' where s': "level_round past (release_column Lp Li) s = Inr s'" "level_inv n Lp Li s'"
        "ls_begin s < ls_begin s'" "past = None \<longrightarrow> ls_begin s' \<le> ls_end s'" by blast
      have "nat (n - ls_begin s') < nat (n - ls_begin s)"
        using s'(3) less.prems True by (auto simp: level_inv_def)
      from less.IH[OF this s'(2)] show ?thesis using s'(1,4) unfold by auto
    next
      assume fault: "past = None \<and> level_round past (release_column Lp Li) s = Inl (Undefined ''read outside an array'')"
      have "level_loop past (release_column Lp Li) s = Inl (Undefined ''read outside an array'')"
        unfolding unfold fault[THEN conjunct2] by simp
      with fault show ?thesis by blast
    qed
  qed
qed

lemma level_start_inv:
  assumes n: "0 \<le> n" and deg: "alen deg = n"
    "\<And>i. 0 \<le> i \<Longrightarrow> i < n \<Longrightarrow> elt deg i = 1 + (\<Sum>c \<in> {0..<n}. edges Lp Li c i)"
  shows "level_inv n Lp Li (level_start n deg)"
proof -
  have "done_set (replicate (nat n) False) = {}"
    using n by (auto simp: done_set_def)
  then show ?thesis using n deg
    by (auto simp: level_inv_def level_start_def schedule_ok_def)
qed

definition levels_ok :: "int \<Rightarrow> int list \<Rightarrow> int list \<Rightarrow> int \<times> int list \<times> int list \<Rightarrow> bool" where
  "levels_ok n Lp Li r = (case r of (k, ptr, ls) \<Rightarrow>
    0 \<le> k \<and> k \<le> n \<and> alen ptr = n + 1 \<and> alen ls = n \<and>
    schedule_ok n Lp Li k n ptr ls \<and> elt ls ` {0..<n} = {0..<n})"

lemma level_inv_done:
  assumes inv: "level_inv n Lp Li s" and empty: "ls_end s < ls_begin s"
  shows "levels_ok n Lp Li (level_result s)"
proof -
  have n: "0 \<le> n" using inv by (auto simp: level_inv_def)
  have "done_set (visited s) = {0..<n}"
    using inv empty by (fastforce simp: level_inv_def done_set_def)
  moreover from this have "curLevelCol s = n" using inv n by (simp add: level_inv_def)
  ultimately show ?thesis using inv n by (auto simp: level_inv_def levels_ok_def level_result_def)
qed

lemma buildLevelSet_CSC_levels:
  assumes lower: "lower_csc n Lp Li" and Lp0: "elt Lp 0 = 0" and v: "v \<noteq> 1"
  shows "\<exists>r. buildLevelSet_CSC (Some v) n (elt Lp n) Lp Li = Inr r \<and> levels_ok n Lp Li r"
proof -
  have n: "0 \<le> n" using lower_csc_compressed[OF lower] by (rule compressedD)
  obtain deg where deg: "for_loop 0 (elt Lp n) (count_in Li) (replicate (nat n) 0) = Inr deg" "alen deg = n"
    "\<forall>i. 0 \<le> i \<longrightarrow> i < n \<longrightarrow> elt deg i = 1 + (\<Sum>c \<in> {0..<n}. edges Lp Li c i)"
    using initial_degrees[OF lower Lp0] by blast
  then show ?thesis
    using level_loop_ok[OF lower, of "Some v" "level_start n deg"] level_start_inv[OF n deg(2)] v level_inv_done
    by (fastforce simp: buildLevelSet_CSC_def)
qed

lemma buildLevelSet_CSC_faults:
  assumes lower: "lower_csc n Lp Li" and Lp0: "elt Lp 0 = 0" and n: "0 < n"
  shows "buildLevelSet_CSC None n (elt Lp n) Lp Li = Inl (Undefined ''read outside an array'')"
proof -
  obtain deg where deg: "for_loop 0 (elt Lp n) (count_in Li) (replicate (nat n) 0) = Inr deg" "alen deg = n"
    "\<forall>i. 0 \<le> i \<longrightarrow> i < n \<longrightarrow> elt deg i = 1 + (\<Sum>c \<in> {0..<n}. edges Lp Li c i)"
    using initial_degrees[OF lower Lp0] by blast
  have "\<not> ls_end (level_start n deg) < ls_begin (level_start n deg)" using n by (simp add: level_start_def)
  then show ?thesis
    using level_loop_ok[OF lower, of None "level_start n deg"] level_start_inv[of n deg Lp Li] deg n
    by (auto simp: buildLevelSet_CSC_def)
qed

section \<open>The version for a dependence graph\<close>

lemma elt_in_set: "rd a i = Inr x \<Longrightarrow> x \<in> set a"
  by (auto simp: rd_def elt_def alen_def split: if_splits)

lemma skip_end_range: "skip_end deg b e = Inr e' \<Longrightarrow> 0 \<le> e'"
  by (induction deg b e rule: skip_end.induct)
     (auto simp: skip_end.simps[of deg b e for deg b e] rd_def split: if_splits)

definition source_zero :: "int list \<Rightarrow> bool" where
  "source_zero deg \<longleftrightarrow> 0 < alen deg \<and> elt deg 0 = 0"

lemma source_zero_upd:
  assumes "source_zero deg" "0 \<notin> set succs" "rd succs j = Inr r" "wr deg r v = Inr deg'"
  shows "source_zero deg'"
proof -
  have "r \<noteq> 0" using assms(2,3) elt_in_set by fastforce
  moreover have "0 \<le> r \<and> r < alen deg" "deg' = upd deg r v"
    using assms(4) by (auto simp: wr_def split: if_splits)
  ultimately show ?thesis using assms(1) by (simp add: source_zero_def)
qed

lemma level_round_stuck:
  assumes round: "level_round past (release_node DAG) s = Inr s'"
    and src: "\<forall>succs \<in> set DAG. 0 \<notin> set succs"
    and s: "ls_begin s = 0" "source_zero (inDegree s)"
  shows "ls_begin s' = 0 \<and> 0 \<le> ls_end s' \<and> source_zero (inDegree s')"
proof -
  have skip: "skip_begin past (inDegree s) 0 = Inr 0"
  proof -
    have "rd_past past (inDegree s) 0 = Inr 0"
      using s(2) by (auto simp: source_zero_def rd_past_def split: option.splits)
    then show ?thesis by (subst skip_begin.simps) simp
  qed
  have keep: "source_zero deg'" if "release_node DAG cc deg = Inr deg'" "source_zero deg" for cc deg deg'
  proof -
    obtain succs where succs: "rd DAG cc = Inr succs" "for_loop 0 (alen succs) (drop_edge succs) deg = Inr deg'"
      using \<open>release_node DAG cc deg = Inr deg'\<close> by (auto simp: release_node_def)
    have "0 \<notin> set succs" using src elt_in_set[OF succs(1)] by blast
    from succs(2) that(2) show ?thesis
      by (rule for_loop_preserves) (auto simp: drop_edge_def simp del: rd_elt wr_upd dest: source_zero_upd[OF _ \<open>0 \<notin> set succs\<close>])
  qed
  from round obtain vis ls col ptr e lo hi deg where
    e: "skip_end (inDegree s) 0 (ls_end s) = Inr e" and
    deg: "for_loop lo hi (\<lambda>deg l. bind_result (rd ls l) (\<lambda>cc. release_node DAG cc deg)) (inDegree s) = Inr deg" and
    s': "s' = \<lparr>ls_begin = 0, ls_end = e, curLevel = curLevel s + 1, curLevelCol = col, levelPtr = ptr,
      levelSet = ls, inDegree = deg, visited = vis\<rparr>"
    by (auto simp: level_round_def s(1) skip)
  have "source_zero deg"
    using deg s(2) by (rule for_loop_preserves) (auto dest: keep)
  then show ?thesis using skip_end_range[OF e] by (simp add: s')
qed

lemma level_loop_stuck:
  assumes src: "\<forall>succs \<in> set DAG. 0 \<notin> set succs"
  shows "ls_begin s = 0 \<Longrightarrow> 0 \<le> ls_end s \<Longrightarrow> source_zero (inDegree s) \<Longrightarrow>
    level_loop past (release_node DAG) s \<noteq> Inr s'"
proof (induction past "release_node DAG" s rule: level_loop.induct)
  case (1 past s)
  show ?case
  proof
    assume "level_loop past (release_node DAG) s = Inr s'"
    then obtain t where t: "level_round past (release_node DAG) s = Inr t" "level_loop past (release_node DAG) t = Inr s'"
      using "1.prems" by (auto simp: level_loop.simps[of past _ s])
    from level_round_stuck[OF t(1) src "1.prems"(1,3)] "1.hyps"[OF _ t(1)] t(2) "1.prems" show False by simp
  qed
qed

lemma buildLevelSet_DAG_stuck:
  assumes n: "0 < n" and src: "\<forall>succs \<in> set DAG. 0 \<notin> set succs"
  shows "buildLevelSet_DAG past n DAG \<noteq> Inr r"
proof
  assume "buildLevelSet_DAG past n DAG = Inr r"
  then obtain deg s where
    deg: "for_loop 0 (alen DAG) (\<lambda>deg i. bind_result (rd DAG i) (\<lambda>succs.
      for_loop 0 (alen succs) (count_in succs) deg)) (replicate (nat n) 0) = Inr deg" and
    run: "level_loop past (release_node DAG) (level_start n deg) = Inr s"
    by (auto simp: buildLevelSet_DAG_def)
  have count: "source_zero d'" if "for_loop 0 (alen succs) (count_in succs) d = Inr d'" "source_zero d"
    "0 \<notin> set succs" for succs d d'
    using that(1,2) by (rule for_loop_preserves) (auto simp: count_in_def simp del: rd_elt wr_upd dest: source_zero_upd[OF _ that(3)])
  have "source_zero (replicate (nat n) 0)" using n by (simp add: source_zero_def)
  with deg have "source_zero deg"
    by (rule for_loop_preserves) (use src in \<open>auto simp del: rd_elt dest!: elt_in_set intro: count\<close>)
  then show False
    using level_loop_stuck[OF src, of "level_start n deg" past s] run n by (simp add: level_start_def)
qed

text \<open>The counts of incoming edges, and a number of rounds of the loop.\<close>

definition in_degrees :: "int \<Rightarrow> int list list \<Rightarrow> int list result" where
  "in_degrees n DAG = for_loop 0 (alen DAG) (\<lambda>deg i. bind_result (rd DAG i) (\<lambda>succs.
     for_loop 0 (alen succs) (count_in succs) deg)) (replicate (nat n) 0)"

definition level_rounds :: "int option \<Rightarrow> int list list \<Rightarrow> int \<Rightarrow> level_state \<Rightarrow> level_state result" where
  "level_rounds past DAG k s = for_loop 0 k (\<lambda>s _. level_round past (release_node DAG) s) s"

text \<open>A graph of \<open>n\<close> nodes without an edge into node 0.\<close>

definition no_edge_to_0 :: "int \<Rightarrow> int list list \<Rightarrow> bool" where
  "no_edge_to_0 n DAG \<longleftrightarrow> alen DAG = n \<and> (\<forall>succs \<in> set DAG. set succs \<subseteq> {1..<n})"

lemma source_loop:
  fixes f :: "int list \<Rightarrow> int \<Rightarrow> int list result"
  assumes run: "\<And>r deg. 1 \<le> r \<Longrightarrow> r < n \<Longrightarrow> alen deg = n \<Longrightarrow> elt deg 0 = 0 \<Longrightarrow> \<exists>deg'. f deg r = Inr deg' \<and> alen deg' = n \<and> elt deg' 0 = 0"
    and succs: "set succs \<subseteq> {1..<n}" and deg: "alen deg = n" "elt deg 0 = 0"
  shows "\<exists>deg'. for_loop 0 (alen succs) (\<lambda>deg j. bind_result (rd succs j) (f deg)) deg = Inr deg' \<and> alen deg' = n \<and> elt deg' 0 = 0"
proof (rule for_loop_rule)
  fix j and d :: "int list" assume j: "0 \<le> j" "j < alen succs" and d: "alen d = n \<and> elt d 0 = 0"
  then have "elt succs j \<in> {1..<n}" using succs elt_in_set[of succs j "elt succs j"] by auto
  then show "\<exists>d'. bind_result (rd succs j) (f d) = Inr d' \<and> alen d' = n \<and> elt d' 0 = 0" using run[of "elt succs j" d] j d by auto
qed (use deg in \<open>simp_all add: alen_def\<close>)

lemma release_node_source:
  assumes "no_edge_to_0 n DAG" "0 \<le> cc" "cc < n" "alen deg = n" "elt deg 0 = 0"
  shows "\<exists>deg'. release_node DAG cc deg = Inr deg' \<and> alen deg' = n \<and> elt deg' 0 = 0"
proof -
  have cc: "rd DAG cc = Inr (elt DAG cc)" using assms by (simp add: no_edge_to_0_def)
  then have "set (elt DAG cc) \<subseteq> {1..<n}" using assms(1) elt_in_set[OF cc] by (simp add: no_edge_to_0_def)
  from source_loop[OF _ this assms(4,5), of "\<lambda>deg r. bind_result (rd deg r) (\<lambda>d. wr deg r (d - 1))"]
  show ?thesis by (simp add: release_node_def cc drop_edge_def[abs_def])
qed

lemma in_degrees_source:
  assumes "no_edge_to_0 n DAG" "0 < n"
  shows "\<exists>deg. in_degrees n DAG = Inr deg \<and> alen deg = n \<and> elt deg 0 = 0"
  unfolding in_degrees_def
proof (rule for_loop_rule)
  fix i and d :: "int list" assume i: "0 \<le> i" "i < alen DAG" and d: "alen d = n \<and> elt d 0 = 0"
  have r: "rd DAG i = Inr (elt DAG i)" using i by simp
  then have "set (elt DAG i) \<subseteq> {1..<n}" using assms(1) elt_in_set[OF r] by (simp add: no_edge_to_0_def)
  from source_loop[OF _ this, of "\<lambda>deg r. bind_result (rd deg r) (\<lambda>d. wr deg r (d + 1))" d] d
  show "\<exists>d'. bind_result (rd DAG i) (\<lambda>succs. for_loop 0 (alen succs) (count_in succs) d) = Inr d' \<and> alen d' = n \<and> elt d' 0 = 0"
    by (simp add: r count_in_def[abs_def])
qed (use assms in \<open>auto simp: alen_def elt_def\<close>)

definition stuck_inv :: "int \<Rightarrow> level_state \<Rightarrow> bool" where
  "stuck_inv n s \<longleftrightarrow> ls_begin s = 0 \<and> 0 \<le> ls_end s \<and> ls_end s < n \<and> alen (inDegree s) = n \<and> elt (inDegree s) 0 = 0 \<and>
     alen (visited s) = n \<and> alen (levelSet s) = n \<and> curLevelCol s = int (card (done_set (visited s))) \<and>
     alen (levelPtr s) = n + 1 \<and> 0 \<le> curLevel s \<and> elt (levelPtr s) (curLevel s) = curLevelCol s"

lemma skip_end_source:
  "alen deg = n \<Longrightarrow> elt deg 0 = 0 \<Longrightarrow> 0 \<le> e \<Longrightarrow> e < n \<Longrightarrow> \<exists>e'. skip_end deg 0 e = Inr e' \<and> 0 \<le> e' \<and> e' \<le> e"
proof (induction deg "0 :: int" e rule: skip_end.induct)
  case (1 deg e)
  have rd: "rd deg e = Inr (elt deg e)" using 1(2,4,5) by simp
  show ?case
  proof (cases "elt deg e = 1")
    case True
    then have "0 < e" using 1(3,4) by (cases "e = 0") auto
    then obtain e' where "skip_end deg 0 (e - 1) = Inr e'" "0 \<le> e'" "e' \<le> e - 1" using "1.hyps"[OF rd] 1(2-5) True by auto
    then show ?thesis using rd True 1(4) by (subst skip_end.simps) auto
  next
    case False
    then show ?thesis using rd 1(4) by (subst skip_end.simps) auto
  qed
qed

lemma stuck_round:
  assumes inv: "stuck_inv n s" and dag: "no_edge_to_0 n DAG"
  shows "\<exists>st. for_loop (ls_begin s) (ls_end s + 1) (collect (inDegree s)) (visited s, levelSet s, curLevelCol s) = Inr st \<and>
    (if curLevel s < n then \<exists>s'. level_round past (release_node DAG) s = Inr s' \<and> stuck_inv n s' \<and> curLevel s' = curLevel s + 1
     else level_round past (release_node DAG) s = Inl (Undefined ''write outside an array''))"
proof -
  have s: "ls_begin s = 0" "0 \<le> ls_end s" "ls_end s < n" "alen (inDegree s) = n" "elt (inDegree s) 0 = 0" "alen (visited s) = n"
    "alen (levelSet s) = n" "curLevelCol s = int (card (done_set (visited s)))" "alen (levelPtr s) = n + 1" "0 \<le> curLevel s"
    "elt (levelPtr s) (curLevel s) = curLevelCol s" using inv by (simp_all add: stuck_inv_def)
  obtain vis ls col where c: "for_loop 0 (ls_end s + 1) (collect (inDegree s)) (visited s, levelSet s, curLevelCol s) = Inr (vis, ls, col)"
    "alen vis = n" "alen ls = n" "col = int (card (done_set vis))" "curLevelCol s \<le> col"
    "elt ls ` {curLevelCol s..<col} = done_set vis - done_set (visited s)"
    using collect_loop[OF s(4,6,7) order_refl _ s(3,8)] s(2) by auto
  show ?thesis
  proof (cases "curLevel s < n")
    case False
    then have "wr (levelPtr s) (curLevel s + 1) col = Inl (Undefined ''write outside an array'')" using s by (simp add: wr_def)
    then show ?thesis using c(1) False by (simp add: level_round_def s(1))
  next
    case True
    let ?ptr = "upd (levelPtr s) (curLevel s + 1) col"
    obtain e where e: "skip_end (inDegree s) 0 (ls_end s) = Inr e" "0 \<le> e" "e \<le> ls_end s" using skip_end_source[OF s(4,5,2,3)] by blast
    have b: "skip_begin past (inDegree s) 0 = Inr 0"
    proof -
      have "rd_past past (inDegree s) 0 = Inr 0" using s(2-5) by (auto simp: rd_past_def split: option.splits)
      then show ?thesis by (subst skip_begin.simps) simp
    qed
    have node: "elt ls l \<in> {0..<n}" if "curLevelCol s \<le> l" "l < col" for l
      using c(2,6) that by (fastforce simp: done_set_def)
    have len: "col \<le> n"
    proof -
      have "done_set vis \<subseteq> {0..<n}" using c(2) by (auto simp: done_set_def)
      then show ?thesis using card_bounded[of "done_set vis" n] c(4) s(2,3) by simp
    qed
    have "\<exists>deg. for_loop (curLevelCol s) col (\<lambda>deg l. bind_result (rd ls l) (\<lambda>cc. release_node DAG cc deg)) (inDegree s) = Inr deg \<and>
      alen deg = n \<and> elt deg 0 = 0"
    proof (rule for_loop_rule[OF c(5)])
      fix l and d :: "int list" assume l: "curLevelCol s \<le> l" "l < col" and d: "alen d = n \<and> elt d 0 = 0"
      have "rd ls l = Inr (elt ls l)" using l len c(3) s(8) by simp
      then show "\<exists>d'. bind_result (rd ls l) (\<lambda>cc. release_node DAG cc d) = Inr d' \<and> alen d' = n \<and> elt d' 0 = 0"
        using release_node_source[OF dag, of "elt ls l" d] node[OF l] d by simp
    qed (use s in simp)
    then obtain deg where deg: "for_loop (curLevelCol s) col (\<lambda>deg l. bind_result (rd ls l) (\<lambda>cc. release_node DAG cc deg)) (inDegree s) = Inr deg"
      "alen deg = n" "elt deg 0 = 0" by blast
    have ptr: "elt ?ptr (curLevel s) = curLevelCol s" using s True by simp
    let ?s' = "\<lparr>ls_begin = 0, ls_end = e, curLevel = curLevel s + 1, curLevelCol = col, levelPtr = ?ptr, levelSet = ls, inDegree = deg, visited = vis\<rparr>"
    have "level_round past (release_node DAG) s = Inr ?s'"
      using c(1) b e(1) deg(1) s(9,10) ptr True by (simp add: level_round_def s(1))
    moreover have "stuck_inv n ?s'" using s c(2-4) e deg True by (simp add: stuck_inv_def)
    ultimately show ?thesis using c(1) True by (simp add: s(1))
  qed
qed

lemma stuck_loop:
  assumes dag: "no_edge_to_0 n DAG"
  shows "stuck_inv n s \<Longrightarrow> curLevel s \<le> n \<Longrightarrow> level_loop past (release_node DAG) s = Inl (Undefined ''write outside an array'')"
proof (induction past "release_node DAG" s rule: level_loop.induct)
  case (1 past s)
  have le: "ls_begin s \<le> ls_end s" using "1.prems"(1) by (simp add: stuck_inv_def)
  note R = stuck_round[OF "1.prems"(1) dag, of past]
  show ?case
  proof (cases "curLevel s < n")
    case True
    then obtain s' where s': "level_round past (release_node DAG) s = Inr s'" "stuck_inv n s'" "curLevel s' = curLevel s + 1" using R by auto
    then show ?thesis using "1.hyps"[OF le s'(1,2)] True le by (subst level_loop.simps) simp
  next
    case False
    then show ?thesis using R le by (subst level_loop.simps) auto
  qed
qed

lemma buildLevelSet_DAG_overruns:
  assumes n: "0 < n" and dag: "no_edge_to_0 n DAG"
  shows "\<exists>deg s st. in_degrees n DAG = Inr deg \<and> level_rounds past DAG n (level_start n deg) = Inr s \<and> ls_begin s \<le> ls_end s \<and>
    for_loop (ls_begin s) (ls_end s + 1) (collect (inDegree s)) (visited s, levelSet s, curLevelCol s) = Inr st \<and>
    curLevel s + 1 = alen (levelPtr s) \<and> buildLevelSet_DAG past n DAG = Inl (Undefined ''write outside an array'')"
proof -
  obtain deg where deg: "in_degrees n DAG = Inr deg" "alen deg = n" "elt deg 0 = 0" using in_degrees_source[OF dag n] by blast
  have none: "done_set (replicate (nat n) False) = {}" using n by (auto simp: done_set_def)
  have start: "stuck_inv n (level_start n deg)" "curLevel (level_start n deg) = 0"
    using n deg by (simp_all add: stuck_inv_def level_start_def none)
  have "\<exists>s. level_rounds past DAG n (level_start n deg) = Inr s \<and> (stuck_inv n s \<and> curLevel s = n)"
    unfolding level_rounds_def
  proof (rule for_loop_rule[where I = "\<lambda>k s. stuck_inv n s \<and> curLevel s = k"])
    fix k s assume "0 \<le> k" "k < n" "stuck_inv n s \<and> curLevel s = k"
    then show "\<exists>s'. level_round past (release_node DAG) s = Inr s' \<and> stuck_inv n s' \<and> curLevel s' = k + 1"
      using stuck_round[OF _ dag, of s past] by auto
  qed (use start n in auto)
  then obtain s where s: "level_rounds past DAG n (level_start n deg) = Inr s" "stuck_inv n s" "curLevel s = n" by blast
  moreover obtain st where "for_loop (ls_begin s) (ls_end s + 1) (collect (inDegree s)) (visited s, levelSet s, curLevelCol s) = Inr st"
    using stuck_round[OF s(2) dag, of past] by blast
  moreover have "ls_begin s \<le> ls_end s" "curLevel s + 1 = alen (levelPtr s)" using s(2,3) by (simp_all add: stuck_inv_def)
  moreover have "buildLevelSet_DAG past n DAG = Inl (Undefined ''write outside an array'')"
    using deg(1) stuck_loop[OF dag start(1), of past] start(2) n by (simp add: buildLevelSet_DAG_def in_degrees_def)
  ultimately show ?thesis using deg(1) by blast
qed

end
