(* ===== verification/Dependence_Graph.thy ===== *)
theory Dependence_Graph
  imports Level_Set_Correct
begin

text \<open>
  The inspectors of incomplete Cholesky (\<open>src/timeResults/src/iChol.h\<close>): \<open>computeDAG\<close> builds the
  dependence graph of the columns from the constraints as extracted, \<open>computeDAG_simplified\<close> from the
  simplified ones with two loops less. Every dependence the first finds is found by the second, and
  both draw edges from smaller to larger columns only.
\<close>

section \<open>The inspectors\<close>

definition push_edge :: "int list list \<Rightarrow> int \<Rightarrow> int \<Rightarrow> int list list result" where
  "push_edge DAG i ip = (if i < ip then bind_result (rd DAG i) (\<lambda>es. wr DAG i (es @ [ip]))
    else if ip < i then bind_result (rd DAG ip) (\<lambda>es. wr DAG ip (es @ [i]))
    else Inr DAG)"

text \<open>\<open>row[col[m]]\<close> and \<open>row[col[m] + 1]\<close>.\<close>

definition row_begin :: "int list \<Rightarrow> int list \<Rightarrow> int \<Rightarrow> int result" where
  "row_begin row col m = bind_result (rd col m) (rd row)"

definition row_end :: "int list \<Rightarrow> int list \<Rightarrow> int \<Rightarrow> int result" where
  "row_end row col m = bind_result (rd col m) (\<lambda>c. rd row (c + 1))"

text \<open>The condition of the innermost loop, evaluated from left to right.\<close>

definition same_columns :: "int list \<Rightarrow> int \<Rightarrow> int \<Rightarrow> int \<Rightarrow> int \<Rightarrow> bool result" where
  "same_columns col lp kp l k =
    bind_result (rd col (lp + 1)) (\<lambda>a. bind_result (rd col kp) (\<lambda>b. if \<not> a \<le> b then Inr False else
    bind_result (rd col (l + 1)) (\<lambda>a. bind_result (rd col k) (\<lambda>b. if \<not> a \<le> b then Inr False else
    bind_result (rd col l) (\<lambda>a. bind_result (rd col k) (\<lambda>b. if a \<noteq> b then Inr False else
    bind_result (rd col lp) (\<lambda>a. bind_result (rd col kp) (\<lambda>b. Inr (a = b)))))))))"

text \<open>The loops of \<open>computeDAG\<close> from the inside out: over \<open>lp\<close>, \<open>kp\<close>, \<open>mp\<close>, \<open>l\<close>, \<open>m\<close> and \<open>i\<close>.\<close>

definition dag_lp :: "int list \<Rightarrow> int \<Rightarrow> int \<Rightarrow> int \<Rightarrow> int \<Rightarrow> int \<Rightarrow> int list list \<Rightarrow> int \<Rightarrow> int list list result" where
  "dag_lp col i ip l mp kp DAG lp =
    bind_result (same_columns col lp kp l mp) (\<lambda>c. if c then push_edge DAG i ip else Inr DAG)"

definition dag_mp :: "int list \<Rightarrow> int list \<Rightarrow> int \<Rightarrow> int \<Rightarrow> int \<Rightarrow> int \<Rightarrow> int list list \<Rightarrow> int \<Rightarrow> int list list result" where
  "dag_mp row col i ip m l DAG mp =
    bind_result (row_begin row col m) (\<lambda>lo. bind_result (row_end row col m) (\<lambda>hi.
    if lo \<le> mp \<and> mp < hi
    then bind_result (row_begin row col mp) (\<lambda>kp0. bind_result (row_end row col mp) (\<lambda>kp1.
      for_loop kp0 kp1 (\<lambda>DAG kp. bind_result (rd row (ip + 1)) (\<lambda>rp1.
        for_loop m rp1 (dag_lp col i ip l mp kp) DAG)) DAG))
    else Inr DAG))"

definition dag_l :: "int list \<Rightarrow> int list \<Rightarrow> int \<Rightarrow> int \<Rightarrow> int list list \<Rightarrow> int \<Rightarrow> int list list result" where
  "dag_l row col i m DAG l =
    bind_result (rd col m) (\<lambda>ip. bind_result (rd row ip) (\<lambda>rp. bind_result (rd row (ip + 1)) (\<lambda>rp1.
    for_loop (rp + 1) rp1 (dag_mp row col i ip m l) DAG)))"

definition dag_i :: "int list \<Rightarrow> int list \<Rightarrow> int list list \<Rightarrow> int \<Rightarrow> int list list result" where
  "dag_i row col DAG i =
    bind_result (rd row i) (\<lambda>ri. bind_result (rd row (i + 1)) (\<lambda>ri1.
    for_loop (ri + 1) ri1 (\<lambda>DAG m. for_loop m ri1 (dag_l row col i m) DAG) DAG))"

definition computeDAG :: "int \<Rightarrow> int list \<Rightarrow> int list \<Rightarrow> int list list \<Rightarrow> int list list result" where
  "computeDAG n row col DAG = for_loop 0 n (dag_i row col) DAG"

text \<open>The loops of \<open>computeDAG_simplified\<close>, over \<open>mp\<close>, \<open>m\<close> and \<open>i\<close>.\<close>

definition simplified_mp :: "int list \<Rightarrow> int list \<Rightarrow> int \<Rightarrow> int \<Rightarrow> int list list \<Rightarrow> int \<Rightarrow> int list list result" where
  "simplified_mp row col i ip DAG mp =
    bind_result (row_begin row col mp) (\<lambda>a. bind_result (row_end row col mp) (\<lambda>b.
    if a < b then push_edge DAG i ip else Inr DAG))"

definition simplified_m :: "int list \<Rightarrow> int list \<Rightarrow> int \<Rightarrow> int list list \<Rightarrow> int \<Rightarrow> int list list result" where
  "simplified_m row col i DAG m =
    bind_result (rd col m) (\<lambda>ip.
    bind_result (row_begin row col m) (\<lambda>a. bind_result (rd row ip) (\<lambda>b.
    bind_result (row_end row col m) (\<lambda>c. bind_result (rd row (ip + 1)) (\<lambda>d.
    for_loop (max a (b + 1)) (min c d) (simplified_mp row col i ip) DAG)))))"

definition simplified_i :: "int list \<Rightarrow> int list \<Rightarrow> int list list \<Rightarrow> int \<Rightarrow> int list list result" where
  "simplified_i row col DAG i =
    bind_result (rd row i) (\<lambda>ri. bind_result (rd row (i + 1)) (\<lambda>ri1.
    for_loop (ri + 1) ri1 (simplified_m row col i) DAG))"

definition computeDAG_simplified :: "int \<Rightarrow> int list \<Rightarrow> int list \<Rightarrow> int list list \<Rightarrow> int list list result" where
  "computeDAG_simplified n row col DAG = for_loop 0 n (simplified_i row col) DAG"

section \<open>The edges drawn\<close>

definition edge_set :: "int list list \<Rightarrow> (int \<times> int) set" where
  "edge_set DAG = {(a, b). 0 \<le> a \<and> a < alen DAG \<and> b \<in> set (elt DAG a)}"

text \<open>Row \<open>i\<close> has column \<open>ip\<close> behind its first element, and row \<open>ip\<close> has there a column whose row is not empty.\<close>

definition linked :: "int \<Rightarrow> int list \<Rightarrow> int list \<Rightarrow> int \<Rightarrow> int \<Rightarrow> bool" where
  "linked n row col i ip \<longleftrightarrow> 0 \<le> i \<and> i < n \<and>
    (\<exists>m \<in> {elt row i + 1..<elt row (i + 1)}. elt col m = ip) \<and>
    (\<exists>mp \<in> {elt row ip + 1..<elt row (ip + 1)}. elt row (elt col mp) < elt row (elt col mp + 1))"

definition dependences :: "int \<Rightarrow> int list \<Rightarrow> int list \<Rightarrow> (int \<times> int) set" where
  "dependences n row col = {(a, b). a < b \<and> (linked n row col a b \<or> linked n row col b a)}"

lemma edge_set_upd:
  "0 \<le> i \<Longrightarrow> i < alen DAG \<Longrightarrow> edge_set (upd DAG i (elt DAG i @ [j])) = insert (i, j) (edge_set DAG)"
  by (auto simp: edge_set_def split: if_splits)

lemma push_edge_set:
  "push_edge DAG i ip = Inr DAG' \<Longrightarrow>
    edge_set DAG' = (if i = ip then {} else {(min i ip, max i ip)}) \<union> edge_set DAG"
  by (auto simp: push_edge_def rd_Inr_iff wr_Inr_iff edge_set_upd simp del: rd_elt wr_upd split: if_splits)

lemmas loop_reads = rd_Inr_iff row_begin_def row_end_def

lemma push_dependence:
  assumes "push_edge D i ip = Inr E" "linked n row col i ip"
  shows "edge_set D \<subseteq> edge_set E" and "edge_set E \<subseteq> edge_set D \<union> dependences n row col"
    and "i \<noteq> ip \<Longrightarrow> (min i ip, max i ip) \<in> edge_set E"
proof -
  have "i \<noteq> ip \<Longrightarrow> (min i ip, max i ip) \<in> dependences n row col"
    using assms(2) by (auto simp: dependences_def min_def max_def)
  then show "edge_set E \<subseteq> edge_set D \<union> dependences n row col"
    using push_edge_set[OF assms(1)] by auto
  show "edge_set D \<subseteq> edge_set E" "i \<noteq> ip \<Longrightarrow> (min i ip, max i ip) \<in> edge_set E"
    using push_edge_set[OF assms(1)] by auto
qed

lemma computeDAG_edges:
  assumes "computeDAG n row col DAG0 = Inr DAG"
  shows "edge_set DAG \<subseteq> edge_set DAG0 \<union> dependences n row col"
proof -
  define P where "P DAG \<longleftrightarrow> edge_set DAG \<subseteq> edge_set DAG0 \<union> dependences n row col" for DAG
  have lp: "P E" if "dag_lp col i ip l mp kp D lp = Inr E" "P D" "linked n row col i ip" for i ip l mp kp D lp E
  proof -
    from that(1) obtain c where c: "(if c then push_edge D i ip else Inr D) = Inr E"
      by (auto simp: dag_lp_def)
    show ?thesis
    proof (cases c)
      case True
      with c have "push_edge D i ip = Inr E" by simp
      from push_dependence(2)[OF this that(3)] that(2) show ?thesis unfolding P_def by blast
    next
      case False
      with c that(2) show ?thesis by simp
    qed
  qed
  have mp: "P E" if "dag_mp row col i ip m l D mp = Inr E" "P D"
    and i: "0 \<le> i" "i < n" "elt row i + 1 \<le> m" "m < elt row (i + 1)" "elt col m = ip"
      "elt row ip + 1 \<le> mp" "mp < elt row (ip + 1)" for i ip m l D mp E
  proof (cases "elt row (elt col mp) < elt row (elt col mp + 1)")
    case True
    then have link: "linked n row col i ip" using i by (auto simp: linked_def)
    show ?thesis using that(1,2)
      by (auto simp: dag_mp_def loop_reads simp del: rd_elt split: if_splits
        elim!: for_loop_preserves intro: lp[OF _ _ link])
  next
    case False
    then show ?thesis using that(1,2) by (auto simp: dag_mp_def loop_reads simp del: rd_elt split: if_splits)
  qed
  have l: "P E" if "dag_l row col i m D l = Inr E" "P D"
    and "0 \<le> i" "i < n" "elt row i + 1 \<le> m" "m < elt row (i + 1)" for i m D l E
    using that by (auto simp: dag_l_def loop_reads simp del: rd_elt elim!: for_loop_preserves intro: mp)
  have i: "P E" if "dag_i row col D i = Inr E" "P D" "0 \<le> i" "i < n" for i D E
    using that by (auto simp: dag_i_def loop_reads simp del: rd_elt elim!: for_loop_preserves intro: l)
  have "P DAG"
    using assms unfolding computeDAG_def
  proof (rule for_loop_preserves)
    show "P DAG0" by (simp add: P_def)
  qed (rule i)
  then show ?thesis by (simp add: P_def)
qed

text \<open>The simplified inspector draws exactly the edges of \<open>dependences\<close>.\<close>

lemma simplified_mp_edges:
  assumes run: "simplified_mp row col i ip D mp = Inr E" and i: "0 \<le> i" "i < n"
    and m: "elt row i + 1 \<le> m" "m < elt row (i + 1)" "elt col m = ip"
    and mp: "elt row ip + 1 \<le> mp" "mp < elt row (ip + 1)"
  shows "edge_set D \<subseteq> edge_set E" and "edge_set E \<subseteq> edge_set D \<union> dependences n row col"
    and "elt row (elt col mp) < elt row (elt col mp + 1) \<Longrightarrow> i \<noteq> ip \<Longrightarrow> (min i ip, max i ip) \<in> edge_set E"
proof -
  have *: "(if elt row (elt col mp) < elt row (elt col mp + 1) then push_edge D i ip else Inr D) = Inr E"
    using run by (auto simp: simplified_mp_def loop_reads simp del: rd_elt)
  have "edge_set D \<subseteq> edge_set E \<and> edge_set E \<subseteq> edge_set D \<union> dependences n row col \<and>
    (elt row (elt col mp) < elt row (elt col mp + 1) \<longrightarrow> i \<noteq> ip \<longrightarrow> (min i ip, max i ip) \<in> edge_set E)"
  proof (cases "elt row (elt col mp) < elt row (elt col mp + 1)")
    case True
    with i m mp have "linked n row col i ip" by (auto simp: linked_def)
    from push_dependence[OF _ this, of D E] * True show ?thesis by simp
  qed (use * in auto)
  then show "edge_set D \<subseteq> edge_set E" and "edge_set E \<subseteq> edge_set D \<union> dependences n row col"
    and "elt row (elt col mp) < elt row (elt col mp + 1) \<Longrightarrow> i \<noteq> ip \<Longrightarrow> (min i ip, max i ip) \<in> edge_set E"
    by blast+
qed

lemma simplified_m_loop:
  assumes "simplified_m row col i D m = Inr E"
  shows "for_loop (elt row (elt col m) + 1) (elt row (elt col m + 1)) (simplified_mp row col i (elt col m)) D = Inr E"
  using assms by (auto simp: simplified_m_def loop_reads simp del: rd_elt)

lemma simplified_i_loop:
  assumes "simplified_i row col D i = Inr E"
  shows "for_loop (elt row i + 1) (elt row (i + 1)) (simplified_m row col i) D = Inr E"
  using assms by (auto simp: simplified_i_def loop_reads simp del: rd_elt)

lemma simplified_mono:
  assumes "computeDAG_simplified n row col DAG0 = Inr DAG"
    and push: "\<And>i ip m mp D E. 0 \<le> i \<Longrightarrow> i < n \<Longrightarrow> elt row i + 1 \<le> m \<Longrightarrow> m < elt row (i + 1) \<Longrightarrow> elt col m = ip \<Longrightarrow>
      elt row ip + 1 \<le> mp \<Longrightarrow> mp < elt row (ip + 1) \<Longrightarrow> P D \<Longrightarrow> simplified_mp row col i ip D mp = Inr E \<Longrightarrow> P E"
  shows "simplified_m row col i D m = Inr E \<Longrightarrow> P D \<Longrightarrow> 0 \<le> i \<Longrightarrow> i < n \<Longrightarrow> elt row i + 1 \<le> m \<Longrightarrow>
      m < elt row (i + 1) \<Longrightarrow> P E"
    and "simplified_i row col D i = Inr E \<Longrightarrow> P D \<Longrightarrow> 0 \<le> i \<Longrightarrow> i < n \<Longrightarrow> P E"
    and "P DAG0 \<Longrightarrow> P DAG"
proof -
  show m: "P E" if "simplified_m row col i D m = Inr E" "P D" "0 \<le> i" "i < n" "elt row i + 1 \<le> m" "m < elt row (i + 1)"
    for i D m E
    using simplified_m_loop[OF that(1)] that(2)
  proof (rule for_loop_preserves)
    fix mp D E
    assume "elt row (elt col m) + 1 \<le> mp" "mp < elt row (elt col m + 1)" "P D" "simplified_mp row col i (elt col m) D mp = Inr E"
    then show "P E" using push[OF that(3-6) refl] by blast
  qed
  show i: "P E" if "simplified_i row col D i = Inr E" "P D" "0 \<le> i" "i < n" for i D E
    using simplified_i_loop[OF that(1)] that(2)
  proof (rule for_loop_preserves)
    fix m D E
    assume "elt row i + 1 \<le> m" "m < elt row (i + 1)" "P D" "simplified_m row col i D m = Inr E"
    then show "P E" using m[of i D m E] that(3,4) by blast
  qed
  show "P DAG" if "P DAG0"
    using assms(1)[unfolded computeDAG_simplified_def] that by (rule for_loop_preserves) (rule i)
qed

lemma computeDAG_simplified_edges:
  assumes run: "computeDAG_simplified n row col DAG0 = Inr DAG"
  shows "edge_set DAG = edge_set DAG0 \<union> dependences n row col"
proof
  show "edge_set DAG \<subseteq> edge_set DAG0 \<union> dependences n row col"
  proof (rule simplified_mono(3)[OF run, where P = "\<lambda>D. edge_set D \<subseteq> edge_set DAG0 \<union> dependences n row col"])
    fix i ip m mp D E
    assume "0 \<le> i" "i < n" "elt row i + 1 \<le> m" "m < elt row (i + 1)" "elt col m = ip"
      "elt row ip + 1 \<le> mp" "mp < elt row (ip + 1)" "edge_set D \<subseteq> edge_set DAG0 \<union> dependences n row col"
      and "simplified_mp row col i ip D mp = Inr E"
    then show "edge_set E \<subseteq> edge_set DAG0 \<union> dependences n row col"
      using simplified_mp_edges(2)[of row col i ip D mp E n m] by blast
  qed simp
  have keep: "\<And>i ip m mp D E. 0 \<le> i \<Longrightarrow> i < n \<Longrightarrow> elt row i + 1 \<le> m \<Longrightarrow> m < elt row (i + 1) \<Longrightarrow> elt col m = ip \<Longrightarrow>
      elt row ip + 1 \<le> mp \<Longrightarrow> mp < elt row (ip + 1) \<Longrightarrow> e \<in> edge_set D \<Longrightarrow>
      simplified_mp row col i ip D mp = Inr E \<Longrightarrow> e \<in> edge_set E" for e
    using simplified_mp_edges(1) by blast
  have mono_m: "e \<in> edge_set E" if "simplified_m row col i D m = Inr E" "e \<in> edge_set D" "0 \<le> i" "i < n"
    "elt row i + 1 \<le> m" "m < elt row (i + 1)" for e i m D E
    by (rule simplified_mono(1)[OF run _ that(1), where P = "\<lambda>D. e \<in> edge_set D"])
       (use that in \<open>blast intro: keep\<close>)+
  have mono_i: "e \<in> edge_set E" if "simplified_i row col D i = Inr E" "e \<in> edge_set D" "0 \<le> i" "i < n" for e i D E
    by (rule simplified_mono(2)[OF run _ that(1), where P = "\<lambda>D. e \<in> edge_set D"])
       (use that in \<open>blast intro: keep\<close>)+
  have mono: "e \<in> edge_set DAG" if "e \<in> edge_set DAG0" for e
    by (rule simplified_mono(3)[OF run, where P = "\<lambda>D. e \<in> edge_set D"])
       (use that in \<open>blast intro: keep\<close>)+
  have "(min i ip, max i ip) \<in> edge_set DAG" if "linked n row col i ip" "i \<noteq> ip" for i ip
  proof -
    from that(1) obtain m mp where i: "0 \<le> i" "i < n" and m0: "m \<in> {elt row i + 1..<elt row (i + 1)}" "elt col m = ip"
      and mp0: "mp \<in> {elt row ip + 1..<elt row (ip + 1)}" "elt row (elt col mp) < elt row (elt col mp + 1)"
      unfolding linked_def by blast
    have m: "elt row i + 1 \<le> m" "m < elt row (i + 1)" "elt col m = ip" using m0 by simp_all
    have mp: "elt row ip + 1 \<le> mp" "mp < elt row (ip + 1)" "elt row (elt col mp) < elt row (elt col mp + 1)"
      using mp0 by simp_all
    let ?e = "(min i ip, max i ip)"
    have in_m: "?e \<in> edge_set E" if "simplified_m row col i D m = Inr E" for D E
      using simplified_m_loop[OF that]
    proof (rule for_loop_establishes[where k = mp])
      show "elt row (elt col m) + 1 \<le> mp" "mp < elt row (elt col m + 1)" using m mp by simp_all
      show "?e \<in> edge_set E" if "simplified_mp row col i (elt col m) D mp = Inr E" for D E
        using simplified_mp_edges(3)[OF that i m(1,2) refl] m(3) mp \<open>i \<noteq> ip\<close> by simp
      show "?e \<in> edge_set E" if "elt row (elt col m) + 1 \<le> q" "q < elt row (elt col m + 1)" "?e \<in> edge_set D"
        "simplified_mp row col i (elt col m) D q = Inr E" for q D E
        using keep[OF i m(1,2) refl that] .
    qed
    have in_i: "?e \<in> edge_set E" if "simplified_i row col D i = Inr E" for D E
      using simplified_i_loop[OF that]
    proof (rule for_loop_establishes[where k = m])
      show "?e \<in> edge_set E" if "elt row i + 1 \<le> q" "q < elt row (i + 1)" "?e \<in> edge_set D"
        "simplified_m row col i D q = Inr E" for q D E
        using mono_m[OF that(4,3) i that(1,2)] .
    qed (use m in_m in auto)
    show ?thesis
      using run[unfolded computeDAG_simplified_def]
    proof (rule for_loop_establishes[where k = i])
      show "?e \<in> edge_set E" if "0 \<le> j" "j < n" "?e \<in> edge_set D" "simplified_i row col D j = Inr E" for j D E
        using mono_i[OF that(4,3,1,2)] .
    qed (use i in_i in auto)
  qed
  then have "dependences n row col \<subseteq> edge_set DAG"
    by (fastforce simp: dependences_def min_def max_def)
  moreover have "edge_set DAG0 \<subseteq> edge_set DAG" using mono by blast
  ultimately show "edge_set DAG0 \<union> dependences n row col \<subseteq> edge_set DAG" by blast
qed

text \<open>Level sets of such a graph: node 0 has no incoming edge.\<close>

lemma edge_set_empty: "0 \<le> n \<Longrightarrow> edge_set (replicate (nat n) []) = {}"
  by (auto simp: edge_set_def)

lemma forward_edges_source:
  assumes "\<And>a b. (a, b) \<in> edge_set DAG \<Longrightarrow> a < b"
  shows "\<forall>succs \<in> set DAG. 0 \<notin> set succs"
proof (intro ballI notI)
  fix succs assume "succs \<in> set DAG" "0 \<in> set succs"
  then obtain k where "k < length DAG" "DAG ! k = succs" by (auto simp: in_set_conv_nth)
  then have "(int k, 0) \<in> edge_set DAG" using \<open>0 \<in> set succs\<close> by (simp add: edge_set_def elt_def alen_def)
  from assms[OF this] show False by simp
qed

text \<open>No inspector draws an edge into column 0.\<close>

lemma push_edge_ok:
  assumes "push_edge D i ip = Inr E" "no_edge_to_0 n D" "0 \<le> i" "i < n" "ip < n"
  shows "no_edge_to_0 n E"
proof -
  have upd: "no_edge_to_0 n (upd D a (elt D a @ [b]))" if "0 \<le> a" "a < alen D" "1 \<le> b" "b < n" for a b
  proof -
    have "set (upd D a (elt D a @ [b])) \<subseteq> insert (elt D a @ [b]) (set D)" by (simp add: upd_def set_update_subset_insert)
    moreover have "elt D a \<in> set D" using that by (auto simp: elt_def alen_def nat_less_iff)
    ultimately show ?thesis using assms(2) that unfolding no_edge_to_0_def by fastforce
  qed
  show ?thesis using assms upd
    by (auto simp: push_edge_def rd_Inr_iff wr_Inr_iff simp del: rd_elt wr_upd split: if_splits)
qed

lemma computeDAG_no_edge_to_0:
  assumes "computeDAG n row col (replicate (nat n) []) = Inr DAG" "alen row = n + 1" "0 \<le> n"
  shows "no_edge_to_0 n DAG"
proof -
  let ?P = "no_edge_to_0 n"
  have lp: "?P E" if "dag_lp col i ip l mp kp D lp = Inr E" "?P D" "0 \<le> i" "i < n" "ip < n" for i ip l mp kp D lp E
    using that push_edge_ok[of D i ip E n] by (auto simp: dag_lp_def split: if_splits)
  have mp: "?P E" if "dag_mp row col i ip m l D mp = Inr E" "?P D" and i: "0 \<le> i" "i < n" "ip < n" for i ip m l D mp E
    using that(1,2) by (auto simp: dag_mp_def loop_reads simp del: rd_elt split: if_splits elim!: for_loop_preserves intro: lp[OF _ _ i])
  have l: "?P E" if "dag_l row col i m D l = Inr E" "?P D" and "0 \<le> i" "i < n" for i m D l E
    using that assms(2) by (auto simp: dag_l_def loop_reads simp del: rd_elt elim!: for_loop_preserves intro: mp)
  have i: "?P E" if "dag_i row col D i = Inr E" "?P D" "0 \<le> i" "i < n" for i D E
    using that by (auto simp: dag_i_def loop_reads simp del: rd_elt elim!: for_loop_preserves intro: l)
  show ?thesis using assms(1) unfolding computeDAG_def
    by (rule for_loop_preserves) (use i assms(3) in \<open>auto simp: no_edge_to_0_def\<close>)
qed

lemma computeDAG_simplified_no_edge_to_0:
  assumes "computeDAG_simplified n row col (replicate (nat n) []) = Inr DAG" "alen row = n + 1" "0 \<le> n"
  shows "no_edge_to_0 n DAG"
proof -
  let ?P = "no_edge_to_0 n"
  have mp: "?P E" if "simplified_mp row col i ip D mp = Inr E" "?P D" "0 \<le> i" "i < n" "ip < n" for i ip D mp E
    using that push_edge_ok[of D i ip E n] by (auto simp: simplified_mp_def loop_reads simp del: rd_elt split: if_splits)
  have m: "?P E" if "simplified_m row col i D m = Inr E" "?P D" "0 \<le> i" "i < n" for i m D E
    using that assms(2) by (auto simp: simplified_m_def loop_reads simp del: rd_elt elim!: for_loop_preserves intro: mp)
  have i: "?P E" if "simplified_i row col D i = Inr E" "?P D" "0 \<le> i" "i < n" for i D E
    using that by (auto simp: simplified_i_def loop_reads simp del: rd_elt elim!: for_loop_preserves intro: m)
  show ?thesis using assms(1) unfolding computeDAG_simplified_def
    by (rule for_loop_preserves) (use i assms(3) in \<open>auto simp: no_edge_to_0_def\<close>)
qed

end
