(* ===== verification/Kernel_Properties.thy ===== *)
theory Kernel_Properties
  imports Kernels Dependence_Graph
begin

text \<open>
  The properties of the numeric code: level sets, dependence graphs, forward substitution and the
  kernels of \<open>src/data\<close>.
\<close>

section \<open>Level sets\<close>

text \<open>C4: For a lower triangular matrix whose columns start with the diagonal, the loop of
  \<open>buildLevelSet_CSC\<close> ends on a machine that finds anything but 1 behind the array \<open>inDegree\<close>. There
  are at most \<open>n\<close> levels, none is empty, every column is in exactly one of them, and a column only
  depends on columns of earlier levels.\<close>

theorem buildLevelSet_CSC_correct:
  assumes "lower_csc n Lp Li" and "elt Lp 0 = 0" and "v \<noteq> 1"
  shows "\<exists>r. buildLevelSet_CSC (Some v) n (elt Lp n) Lp Li = Inr r \<and> levels_ok n Lp Li r"
  using assms by (rule buildLevelSet_CSC_levels)

theorem buildLevelSet_CSC_correct_witness:
  "\<exists>r. buildLevelSet_CSC (Some 7) 4 (elt [0,2,3,5,6] 4) [0,2,3,5,6] [0,2,1,2,3,3] = Inr r \<and>
    levels_ok 4 [0,2,3,5,6] [0,2,1,2,3,3] r"
  by (rule buildLevelSet_CSC_correct) code_simp+

text \<open>C35: Every call of \<open>buildLevelSet_CSC\<close> for a lower triangular matrix with a column reads past the
  end of \<open>inDegree\<close>: when all columns are done, nothing stops the scan that moves \<open>begin\<close>.\<close>

theorem buildLevelSet_CSC_reads_past_end:
  assumes "lower_csc n Lp Li" and "elt Lp 0 = 0" and "0 < n"
  shows "buildLevelSet_CSC None n (elt Lp n) Lp Li = Inl (Undefined ''read outside an array'')"
  using assms by (rule buildLevelSet_CSC_faults)

theorem buildLevelSet_CSC_reads_past_end_witness:
  "buildLevelSet_CSC None 4 (elt [0,2,3,5,6] 4) [0,2,3,5,6] [0,2,1,2,3,3] = Inl (Undefined ''read outside an array'')"
  by (rule buildLevelSet_CSC_reads_past_end) code_simp+

section \<open>Dependence graphs\<close>

text \<open>C9: Simplifying the inspector of incomplete Cholesky loses no dependence: when both inspectors
  return, every edge that \<open>computeDAG\<close> draws is drawn by \<open>computeDAG_simplified\<close>, which draws exactly the
  edges between a column and a row linked to it.\<close>

theorem computeDAG_simplified_complete:
  assumes "computeDAG n row col (replicate (nat n) []) = Inr DAG"
    and "computeDAG_simplified n row col (replicate (nat n) []) = Inr DAG'" and "0 \<le> n"
  shows "edge_set DAG \<subseteq> edge_set DAG' \<and> edge_set DAG' = dependences n row col"
  using computeDAG_edges[OF assms(1)] computeDAG_simplified_edges[OF assms(2)] edge_set_empty[OF assms(3)] by auto

theorem computeDAG_simplified_complete_witness:
  "edge_set [[1, 1], [], []] \<subseteq> edge_set [[1], [], []] \<and>
    edge_set [[1], [], []] = dependences 3 [0,3,5,6] [0,1,2,1,2,2]"
  by (rule computeDAG_simplified_complete) code_simp+

text \<open>C36: No level set is ever built from a dependence graph of \<open>computeDAG\<close> or \<open>computeDAG_simplified\<close> for a matrix of
  \<open>n\<close> rows, with \<open>n + 1\<close> row pointers. \<open>buildLevelSet_DAG\<close> waits for nodes with one incoming edge, the diagonal of the
  other version, which column 0 never has: after \<open>n\<close> rounds its loop is not over, and the next round, whose scan for
  columns succeeds, writes the end of its level to \<open>levelPtr[n + 1]\<close>, outside of that array.\<close>

theorem buildLevelSet_DAG_never_returns:
  assumes "0 < n" and "alen row = n + 1" and "computeDAG n row col (replicate (nat n) []) = Inr DAG \<or>
    computeDAG_simplified n row col (replicate (nat n) []) = Inr DAG"
  shows "\<exists>deg s st. in_degrees n DAG = Inr deg \<and> level_rounds past DAG n (level_start n deg) = Inr s \<and> ls_begin s \<le> ls_end s \<and>
    for_loop (ls_begin s) (ls_end s + 1) (collect (inDegree s)) (visited s, levelSet s, curLevelCol s) = Inr st \<and>
    curLevel s + 1 = alen (levelPtr s) \<and> buildLevelSet_DAG past n DAG = Inl (Undefined ''write outside an array'')"
proof (rule buildLevelSet_DAG_overruns[OF assms(1)])
  show "no_edge_to_0 n DAG"
    using assms computeDAG_no_edge_to_0[of n row col DAG] computeDAG_simplified_no_edge_to_0[of n row col DAG] by auto
qed

theorem buildLevelSet_DAG_never_returns_witness:
  "buildLevelSet_DAG (Some 7) 3 [[1], [], []] = Inl (Undefined ''write outside an array'')"
proof -
  have "computeDAG_simplified 3 [0,3,5,6] [0,1,2,1,2,2] (replicate (nat 3) []) = Inr [[1], [], []]" by code_simp
  with buildLevelSet_DAG_never_returns[of 3 "[0,3,5,6]" "[0,1,2,1,2,2]" "[[1], [], []]" "Some 7"]
  show ?thesis by (auto simp: alen_def)
qed

text \<open>Whatever the row pointers are, it returns nothing.\<close>

lemma buildLevelSet_DAG_returns_nothing:
  assumes "0 < n" and "computeDAG n row col (replicate (nat n) []) = Inr DAG \<or>
    computeDAG_simplified n row col (replicate (nat n) []) = Inr DAG"
  shows "buildLevelSet_DAG past n DAG \<noteq> Inr r"
proof -
  have "edge_set DAG \<subseteq> dependences n row col"
    using assms computeDAG_edges[of n row col "replicate (nat n) []" DAG]
      computeDAG_simplified_edges[of n row col "replicate (nat n) []" DAG]
      edge_set_empty[of n] by auto
  then have "a < b" if "(a, b) \<in> edge_set DAG" for a b using that by (auto simp: dependences_def)
  from buildLevelSet_DAG_stuck[OF assms(1) forward_edges_source[OF this]] show ?thesis by simp
qed

section \<open>Forward substitution\<close>

text \<open>C8: For a lower triangular matrix in compressed columns that start with the diagonal, where no diagonal
  element is zero and the arrays of values and of the right side are long enough, \<open>lsolve\<close> returns 1 and the
  only solution of the system; elements of \<open>x\<close> past the system are kept.\<close>

theorem lsolve_correct:
  fixes Lx :: "'a::field list"
  assumes "lower_csc n Lp Li" and "elt Lp n \<le> alen Lx" and "n \<le> alen b"
    and "\<forall>j \<in> {0..<n}. elt Lx (elt Lp j) \<noteq> 0"
  shows "\<exists>y. lsolve n (Some Lp) (Some Li) (Some Lx) (Some b) = Inr (1, Some y) \<and>
    solution Lp Li Lx n b y \<and> (\<forall>z. solution Lp Li Lx n b z \<longrightarrow> z = y)"
  using fs_csc_solves[OF assms] solution_unique[OF assms(1,4)] by (auto simp: lsolve_fs_csc)

theorem lsolve_correct_witness:
  "\<exists>y. lsolve 3 (Some [0,2,4,5]) (Some [0,2,1,2,2]) (Some [2,1,3,1,4 :: rat]) (Some [2,6,8]) = Inr (1, Some y) \<and>
    solution [0,2,4,5] [0,2,1,2,2] [2,1,3,1,4 :: rat] 3 [2,6,8] y \<and>
    (\<forall>z. solution [0,2,4,5] [0,2,1,2,2] [2,1,3,1,4] 3 [2,6,8] z \<longrightarrow> z = y)"
  by (rule lsolve_correct) code_simp+

text \<open>C5: In whatever order the loads and stores of the parallel inner loop are interleaved, each thread keeping its
  own order, \<open>lsolve_parInner\<close> computes what \<open>lsolve\<close> computes, for a lower triangular matrix
  whose columns start with the diagonal and have no row twice and arrays that are long enough.\<close>

theorem lsolve_parInner_any_schedule:
  fixes Lx :: "'a::field list"
  assumes "lower_csc n Lp Li" and "elt Lp n \<le> alen Lx" and "n \<le> alen b"
    and "distinct_rows n Lp Li" and "valid_schedules n Lp schedule"
  shows "lsolve_parInner n (Some Lp) (Some Li) (Some Lx) schedule (Some b) =
    lsolve n (Some Lp) (Some Li) (Some Lx) (Some b)"
  using assms by (rule parInner_lsolve)

theorem lsolve_parInner_any_schedule_witness:
  "lsolve_parInner 3 (Some [0,3,5,6]) (Some [0,1,2,1,2,2]) (Some [2,1,1,3,1,4 :: rat])
      (\<lambda>j. if j = 0 then [2,1,1,2] else if j = 1 then [4,4] else []) (Some [2,4,6]) =
    lsolve 3 (Some [0,3,5,6]) (Some [0,1,2,1,2,2]) (Some [2,1,1,3,1,4]) (Some [2,4,6])"
  by (rule lsolve_parInner_any_schedule) code_simp+

text \<open>Two iterations for the same row race, and one of the two updates can get lost.\<close>

lemma parallel_update_lost:
  "lsolve_parInner 2 (Some [0,3,4]) (Some [0,1,1,1]) (Some [1,1,1,1 :: rat])
      (\<lambda>j. if j = 0 then [1,2,1,2] else []) (Some [1,5]) = Inr (1, Some [1,4]) \<and>
   lsolve 2 (Some [0,3,4]) (Some [0,1,1,1]) (Some [1,1,1,1 :: rat]) (Some [1,5]) = Inr (1, Some [1,3])"
  by code_simp

text \<open>The check of the experiments passes: on the right-hand side of \<open>rhsInit\<close> both the sequential
  and, for every schedule, the parallel solve give a vector that \<open>testTriangular\<close> accepts.\<close>

lemma experiment_check_passes:
  fixes Ax :: "'a::linordered_field list"
  assumes "lower_csc n Ap Ai" and "elt Ap n \<le> alen Ax" and "alen x = n"
    and "\<forall>j \<in> {0..<n}. elt Ax (elt Ap j) \<noteq> 0"
    and "distinct_rows n Ap Ai" and "valid_schedules n Ap schedule"
  shows "serial_check n Ap Ai Ax x = Inr True \<and> parallel_check n Ap Ai Ax schedule x = Inr True"
  using serial_check_true[OF assms(1-4)] parallel_serial_check[OF assms(1-3,5,6)] by simp

text \<open>The test looks at one side only: too large a solution passes.\<close>

lemma testTriangular_one_sided: "testTriangular 2 [5, 1 :: rat] = Inr True"
  by code_simp

section \<open>Kernels\<close>

text \<open>\<open>spMV_Mul_csr\<close> adds the product of the matrix and \<open>x\<close> to \<open>y\<close>.\<close>

lemma spMV_Mul_csr_correct:
  fixes val :: "'a::comm_ring_1 list"
  assumes "compressed n rowPtr col" and "elt rowPtr n \<le> alen val" and "n \<le> alen x" and "n \<le> alen y"
  shows "\<exists>y'. spMV_Mul_csr n rowPtr col val x y = Inr y' \<and> alen y' = alen y \<and>
    (\<forall>i. 0 \<le> i \<longrightarrow> i < n \<longrightarrow> elt y' i = elt y i + (\<Sum>c \<in> {0..<n}. entry rowPtr col val i c * elt x c)) \<and>
    (\<forall>i. n \<le> i \<longrightarrow> i < alen y \<longrightarrow> elt y' i = elt y i)"
  using assms by (rule spMV_product)

end
