(* ===== verification/Union_Find.thy ===== *)
theory Union_Find
  imports C_Arrays
begin

text \<open>
  The disjoint sets of \<open>src/IEGenLib/src/util/UnionFindUniverse.cc\<close>. An element has a parent (\<open>UF_NIL\<close>
  at the root of its tree); the root of a tree has the name of its set and the number of its elements,
  and a name has the root of the set it stands for. \<open>Find\<close> compresses the paths it walks. Nothing
  bounds the recursion of \<open>do_FIND\<close>, which does not return on a cycle: it is a partial function, and
  \<open>None\<close> is not returning.
\<close>

section \<open>State and operations\<close>

record uf_element =
  parent :: int
  name :: int
  count :: int
  root :: int

type_synonym universe = "uf_element list"

abbreviation UF_NIL :: int where
  "UF_NIL \<equiv> - 1"

definition uf_Init :: "int \<Rightarrow> uf_element" where
  "uf_Init i = \<lparr>parent = UF_NIL, name = i, count = 1, root = i\<rparr>"

definition UnionFindUniverse :: "int \<Rightarrow> universe" where
  "UnionFindUniverse highWaterMark = map uf_Init [0..highWaterMark - 1]"

definition set_parent :: "universe \<Rightarrow> int \<Rightarrow> int \<Rightarrow> universe result" where
  "set_parent e v p = bind_result (rd e v) (\<lambda>x. wr e v (x\<lparr>parent := p\<rparr>))"

partial_function (option) do_FIND :: "universe \<Rightarrow> int \<Rightarrow> (universe \<times> int) result option" where
  "do_FIND e v = (case rd e v of Inl err \<Rightarrow> Some (Inl err) | Inr x \<Rightarrow>
    if parent x = UF_NIL then Some (Inr (e, v))
    else Option.bind (do_FIND e (parent x)) (\<lambda>res. Some (bind_result res (\<lambda>(e, p).
      bind_result (set_parent e v p) (\<lambda>e. Inr (e, p))))))"

definition Find :: "universe \<Rightarrow> int \<Rightarrow> (universe \<times> int) result option" where
  "Find e v = (case rd e v of Inl err \<Rightarrow> Some (Inl err) | Inr x \<Rightarrow>
    if parent x = UF_NIL then Some (Inr (e, name x))
    else Option.bind (do_FIND e (parent x)) (\<lambda>res. Some (bind_result res (\<lambda>(e, p).
      bind_result (set_parent e v p) (\<lambda>e. bind_result (rd e p) (\<lambda>y. Inr (e, name y)))))))"

definition uf_Union :: "universe \<Rightarrow> int \<Rightarrow> int \<Rightarrow> int \<Rightarrow> universe result" where
  "uf_Union e i j k = (if i = j \<and> j = k then Inr e else
    bind_result (rd e i) (\<lambda>ei. bind_result (rd e j) (\<lambda>ej.
    bind_result (rd e (root ei)) (\<lambda>ri. bind_result (rd e (root ej)) (\<lambda>rj.
    let (large, small) = (if count ri > count rj then (root ei, root ej) else (root ej, root ei)) in
    bind_result (set_parent e small large) (\<lambda>e.
    bind_result (rd e small) (\<lambda>s. bind_result (rd e large) (\<lambda>l.
    bind_result (wr e large (l\<lparr>count := count l + count s\<rparr>)) (\<lambda>e.
    bind_result (rd e large) (\<lambda>l. bind_result (wr e large (l\<lparr>name := k\<rparr>)) (\<lambda>e.
    bind_result (rd e k) (\<lambda>x. wr e k (x\<lparr>root := large\<rparr>)))))))))))))"

text \<open>The use shown in the header: merge the sets of \<open>a\<close> and \<open>b\<close> under the name of the second.\<close>

definition merge :: "universe \<Rightarrow> int \<Rightarrow> int \<Rightarrow> universe result option" where
  "merge e a b = Option.bind (Find e a) (\<lambda>r1. case r1 of Inl err \<Rightarrow> Some (Inl err) | Inr (e, i) \<Rightarrow>
    Option.bind (Find e b) (\<lambda>r2. case r2 of Inl err \<Rightarrow> Some (Inl err) | Inr (e, j) \<Rightarrow>
    Option.bind (Find e b) (\<lambda>r3. case r3 of Inl err \<Rightarrow> Some (Inl err) | Inr (e, k) \<Rightarrow>
      Some (uf_Union e i j k))))"

section \<open>Trees\<close>

text \<open>From \<open>v\<close>, \<open>d\<close> steps to the parent lead to the root \<open>r\<close>.\<close>

inductive path :: "universe \<Rightarrow> int \<Rightarrow> nat \<Rightarrow> int \<Rightarrow> bool" for e where
  here: "0 \<le> v \<Longrightarrow> v < alen e \<Longrightarrow> parent (elt e v) = UF_NIL \<Longrightarrow> path e v 0 v"
| up: "0 \<le> v \<Longrightarrow> v < alen e \<Longrightarrow> parent (elt e v) \<noteq> UF_NIL \<Longrightarrow> path e (parent (elt e v)) d r \<Longrightarrow> path e v (Suc d) r"

inductive_cases path_rootE: "path e v 0 r"
inductive_cases path_stepE: "path e v (Suc d) r"

lemma path_range: "path e v d r \<Longrightarrow> 0 \<le> v \<and> v < alen e"
  by (induction rule: path.induct) auto

lemma path_end: "path e v d r \<Longrightarrow> 0 \<le> r \<and> r < alen e \<and> parent (elt e r) = UF_NIL"
  by (induction rule: path.induct) auto

lemma path_unique: "path e v d r \<Longrightarrow> path e v d' r' \<Longrightarrow> d = d' \<and> r = r'"
proof (induction arbitrary: d' r' rule: path.induct)
  case (here v)
  from here.prems show ?case by cases (simp_all add: here.hyps)
next
  case (up v d r)
  from up.prems show ?case
  proof cases
    case (up d'')
    with \<open>\<And>d' r'. path e (parent (elt e v)) d' r' \<Longrightarrow> d = d' \<and> r = r'\<close>[of d'' r'] show ?thesis by simp
  qed (simp add: up.hyps)
qed

lemma path_root: "path e v d r \<Longrightarrow> path e r 0 r"
  using path_end by (blast intro: path.here)

text \<open>Compression: pointing an inner element straight to its root keeps all roots and lengthens no path.\<close>

definition shorter :: "universe \<Rightarrow> universe \<Rightarrow> bool" where
  "shorter e e' \<longleftrightarrow> alen e' = alen e \<and>
    (\<forall>v d r. path e v d r \<longrightarrow> (\<exists>d' \<le> d. path e' v d' r)) \<and>
    (\<forall>v. 0 \<le> v \<longrightarrow> v < alen e \<longrightarrow> name (elt e' v) = name (elt e v) \<and> count (elt e' v) = count (elt e v) \<and>
      root (elt e' v) = root (elt e v) \<and> (parent (elt e' v) = UF_NIL \<longleftrightarrow> parent (elt e v) = UF_NIL))"

lemma shorter_refl: "shorter e e"
  by (auto simp: shorter_def)

lemma shorter_trans: "shorter e f \<Longrightarrow> shorter f g \<Longrightarrow> shorter e g"
proof -
  assume "shorter e f" and fg: "shorter f g"
  then have "\<exists>d' \<le> d. path g v d' r" if "path e v d r" for v d r
    using that unfolding shorter_def by (meson order_trans)
  with \<open>shorter e f\<close> fg show "shorter e g" by (simp add: shorter_def)
qed

lemma compress_path:
  assumes v: "path e v (Suc d) r"
  defines "e' \<equiv> upd e v ((elt e v)\<lparr>parent := r\<rparr>)"
  shows "path e u k s \<Longrightarrow> \<exists>k' \<le> k. path e' u k' s"
proof (induction rule: path.induct)
  have v0: "0 \<le> v" "v < alen e" and inner: "parent (elt e v) \<noteq> UF_NIL"
    using v by (auto elim: path_stepE)
  case (here u)
  with inner have "u \<noteq> v" by auto
  with here v0 have "path e' u 0 u" by (intro path.here) (auto simp: e'_def)
  then show ?case by blast
next
  have v0: "0 \<le> v" "v < alen e" and inner: "parent (elt e v) \<noteq> UF_NIL"
    using v by (auto elim: path_stepE)
  have r: "0 \<le> r" "r < alen e" "parent (elt e r) = UF_NIL" using path_end[OF v] by auto
  case (up u k s)
  show ?case
  proof (cases "u = v")
    case True
    have "path e' r 0 r" using r inner v0 by (intro path.here) (auto simp: e'_def)
    moreover have "r \<noteq> UF_NIL" using r by simp
    ultimately have "path e' v (Suc 0) r"
      using v0 by (intro path.up) (auto simp: e'_def)
    moreover have "path e v (Suc k) s" using up True by (blast intro: path.up)
    then have "s = r" "k = d" using path_unique[OF v] by auto
    ultimately show ?thesis using True by auto
  next
    case False
    with up obtain k' where "k' \<le> k" "path e' (parent (elt e' u)) k' s"
      using v0 by (auto simp: e'_def)
    with False up v0 have "path e' u (Suc k') s" by (intro path.up) (auto simp: e'_def)
    with \<open>k' \<le> k\<close> show ?thesis by auto
  qed
qed

lemma compress_shorter:
  assumes "path e v (Suc d) r"
  shows "shorter e (upd e v ((elt e v)\<lparr>parent := r\<rparr>))"
proof -
  have v0: "0 \<le> v" "v < alen e" "parent (elt e v) \<noteq> UF_NIL" using assms by (auto elim: path_stepE)
  have "r \<noteq> UF_NIL" using path_end[OF assms] by auto
  with v0 compress_path[OF assms] show ?thesis by (auto simp: shorter_def)
qed

lemma set_parent_upd: "0 \<le> v \<Longrightarrow> v < alen e \<Longrightarrow> set_parent e v p = Inr (upd e v ((elt e v)\<lparr>parent := p\<rparr>))"
  by (simp add: set_parent_def)

lemma do_FIND_root:
  "path e v d r \<Longrightarrow> \<exists>e'. do_FIND e v = Some (Inr (e', r)) \<and> shorter e e'"
proof (induction rule: path.induct)
  case (here v)
  then show ?case by (subst do_FIND.simps) (auto intro: shorter_refl)
next
  case (up v d r)
  then obtain e' where e': "do_FIND e (parent (elt e v)) = Some (Inr (e', r))" "shorter e e'" by blast
  have "path e v (Suc d) r" using up by (blast intro: path.up)
  with e'(2) obtain k where k: "path e' v k r" unfolding shorter_def by blast
  have len: "alen e' = alen e" and inner: "parent (elt e' v) \<noteq> UF_NIL"
    using e'(2) up by (auto simp: shorter_def)
  have "shorter e' (upd e' v ((elt e' v)\<lparr>parent := r\<rparr>))"
  proof (cases k)
    case 0
    with k inner show ?thesis by (auto elim: path_rootE)
  next
    case (Suc k')
    with k show ?thesis by (simp add: compress_shorter)
  qed
  moreover have "do_FIND e v = Some (Inr (upd e' v ((elt e' v)\<lparr>parent := r\<rparr>), r))"
    using up(1-3) e'(1) len by (subst do_FIND.simps) (simp add: set_parent_upd)
  ultimately show ?case using e'(2) shorter_trans by blast
qed

lemma Find_name:
  assumes "path e v d r"
  shows "\<exists>e'. Find e v = Some (Inr (e', name (elt e r))) \<and> shorter e e'"
  using assms
proof cases
  case here
  then show ?thesis by (auto simp: Find_def shorter_refl)
next
  case (up d')
  obtain e' where e': "do_FIND e v = Some (Inr (e', r))" "shorter e e'"
    using do_FIND_root[OF assms] by blast
  have "0 \<le> r" "r < alen e" using path_end[OF assms] by auto
  moreover from this have "alen e' = alen e" "name (elt e' r) = name (elt e r)"
    using e'(2) by (auto simp: shorter_def)
  ultimately have "Find e v = Some (Inr (e', name (elt e r)))"
    using e'(1) up(2,3,4)
    by (subst (asm) do_FIND.simps) (auto simp: Find_def bind_eq_Some_conv split: sum.splits)
  then show ?thesis using e'(2) by blast
qed

section \<open>The invariant\<close>

definition members :: "universe \<Rightarrow> int \<Rightarrow> int set" where
  "members e r = {v. \<exists>d. path e v d r}"

definition is_root :: "universe \<Rightarrow> int \<Rightarrow> bool" where
  "is_root e r \<longleftrightarrow> 0 \<le> r \<and> r < alen e \<and> parent (elt e r) = UF_NIL"

text \<open>
  Every element leads to a root; the name of a root leads back to it; a root counts its elements, and
  its tree is at most logarithmically high.
\<close>

definition uf_inv :: "universe \<Rightarrow> bool" where
  "uf_inv e \<longleftrightarrow> (\<forall>v. 0 \<le> v \<longrightarrow> v < alen e \<longrightarrow> (\<exists>d r. path e v d r)) \<and>
    (\<forall>r. is_root e r \<longrightarrow> 0 \<le> name (elt e r) \<and> name (elt e r) < alen e \<and> root (elt e (name (elt e r))) = r \<and>
      count (elt e r) = int (card (members e r))) \<and>
    (\<forall>v d r. path e v d r \<longrightarrow> 2 ^ d \<le> count (elt e r))"

definition same_set :: "universe \<Rightarrow> int \<Rightarrow> int \<Rightarrow> bool" where
  "same_set e u v \<longleftrightarrow> (\<exists>r. u \<in> members e r \<and> v \<in> members e r)"

lemma is_root_path: "path e v d r \<Longrightarrow> is_root e r"
  using path_end by (auto simp: is_root_def)

lemma members_range: "members e r \<subseteq> {0..<alen e}"
  using path_range by (fastforce simp: members_def)

lemma finite_members [simp]: "finite (members e r)"
  using members_range by (rule finite_subset) simp

lemma members_unique: "v \<in> members e r \<Longrightarrow> v \<in> members e s \<Longrightarrow> r = s"
  using path_unique by (auto simp: members_def)

lemma members_disjoint: "r \<noteq> s \<Longrightarrow> members e r \<inter> members e s = {}"
  using members_unique by blast

lemma uf_invD:
  assumes "uf_inv e"
  shows "0 \<le> v \<Longrightarrow> v < alen e \<Longrightarrow> \<exists>d r. path e v d r"
    and "is_root e r \<Longrightarrow> 0 \<le> name (elt e r) \<and> name (elt e r) < alen e"
    and "is_root e r \<Longrightarrow> root (elt e (name (elt e r))) = r"
    and "is_root e r \<Longrightarrow> count (elt e r) = int (card (members e r))"
    and "path e v d r \<Longrightarrow> 2 ^ d \<le> count (elt e r)"
  using assms by (simp_all add: uf_inv_def)

lemma shorter_members:
  assumes "uf_inv e" "shorter e e'"
  shows "members e' r = members e r"
proof
  show "members e r \<subseteq> members e' r" using assms(2) unfolding shorter_def members_def by blast
  show "members e' r \<subseteq> members e r"
  proof
    fix v assume "v \<in> members e' r"
    then obtain d where d: "path e' v d r" by (auto simp: members_def)
    then obtain k s where "path e v k s" using uf_invD(1)[OF assms(1), of v] path_range[OF d] assms(2)
      by (auto simp: shorter_def)
    moreover from this obtain k' where "path e' v k' s" using assms(2) unfolding shorter_def by blast
    ultimately show "v \<in> members e r" using path_unique[OF d] by (auto simp: members_def)
  qed
qed

lemma shorter_root: "shorter e e' \<Longrightarrow> is_root e' r \<longleftrightarrow> is_root e r"
  by (auto simp: shorter_def is_root_def)

lemma shorter_inv:
  assumes inv: "uf_inv e" and sh: "shorter e e'"
  shows "uf_inv e'"
proof -
  have len: "alen e' = alen e" using sh by (simp add: shorter_def)
  have same: "name (elt e' v) = name (elt e v)" "count (elt e' v) = count (elt e v)" "root (elt e' v) = root (elt e v)"
    if "0 \<le> v" "v < alen e" for v using sh that by (simp_all add: shorter_def)
  have r: "0 \<le> r" "r < alen e" if "is_root e r" for r using that by (auto simp: is_root_def)
  have "2 ^ d \<le> count (elt e' s)" if d: "path e' v d s" for v d s
  proof -
    obtain k t where k: "path e v k t" using uf_invD(1)[OF inv, of v] path_range[OF d] len by auto
    then obtain k' where "k' \<le> k" "path e' v k' t" using sh unfolding shorter_def by blast
    with path_unique[OF d] have "d \<le> k" "t = s" by auto
    then have "(2::int) ^ d \<le> 2 ^ k" by (simp add: power_increasing)
    from order_trans[OF this uf_invD(5)[OF inv k]] \<open>t = s\<close> show ?thesis
      using same(2)[of s] path_end[OF k] by simp
  qed
  moreover have "\<exists>d s. path e' v d s" if "0 \<le> v" "v < alen e'" for v
    using uf_invD(1)[OF inv, of v] sh that len unfolding shorter_def by fastforce
  ultimately show ?thesis
    unfolding uf_inv_def
    using uf_invD(2-4)[OF inv] r same len shorter_members[OF inv sh] shorter_root[OF sh] by auto
qed

lemma same_set_iff:
  assumes "uf_inv e" "path e u d r" "path e v d' s"
  shows "same_set e u v \<longleftrightarrow> name (elt e r) = name (elt e s)"
proof -
  have "u \<in> members e r" "v \<in> members e s" using assms by (auto simp: members_def)
  then have "same_set e u v \<longleftrightarrow> r = s" unfolding same_set_def using members_unique by metis
  moreover have "name (elt e r) = name (elt e s) \<longleftrightarrow> r = s"
    using uf_invD(3)[OF assms(1)] is_root_path[OF assms(2)] is_root_path[OF assms(3)] by metis
  ultimately show ?thesis by simp
qed

section \<open>Construction and union\<close>

lemma universe_elt: "0 \<le> v \<Longrightarrow> v < n \<Longrightarrow> elt (UnionFindUniverse n) v = uf_Init v"
  by (simp add: UnionFindUniverse_def elt_def)

lemma universe_alen: "0 \<le> n \<Longrightarrow> alen (UnionFindUniverse n) = n"
  by (simp add: UnionFindUniverse_def alen_def)

lemma universe_path:
  assumes "0 \<le> n"
  shows "path (UnionFindUniverse n) v d r \<longleftrightarrow> 0 \<le> v \<and> v < n \<and> d = 0 \<and> r = v"
proof
  show "path (UnionFindUniverse n) v d r \<Longrightarrow> 0 \<le> v \<and> v < n \<and> d = 0 \<and> r = v"
    by (erule path.cases) (use assms in \<open>auto simp: universe_elt universe_alen uf_Init_def\<close>)
  show "0 \<le> v \<and> v < n \<and> d = 0 \<and> r = v \<Longrightarrow> path (UnionFindUniverse n) v d r"
    using assms path.here[of v "UnionFindUniverse n"] by (auto simp: universe_elt universe_alen uf_Init_def)
qed

lemma universe_inv:
  assumes "0 \<le> n"
  shows "uf_inv (UnionFindUniverse n)" and "same_set (UnionFindUniverse n) u v \<longleftrightarrow> u = v \<and> 0 \<le> u \<and> u < n"
proof -
  have m: "members (UnionFindUniverse n) r = (if 0 \<le> r \<and> r < n then {r} else {})" for r
    using assms by (auto simp: members_def universe_path)
  then show "uf_inv (UnionFindUniverse n)"
    using assms by (auto simp: uf_inv_def universe_path is_root_def universe_alen universe_elt uf_Init_def)
  show "same_set (UnionFindUniverse n) u v \<longleftrightarrow> u = v \<and> 0 \<le> u \<and> u < n"
    by (auto simp: same_set_def m split: if_splits)
qed

lemma path_cong:
  assumes "alen e' = alen e" "\<And>v. 0 \<le> v \<Longrightarrow> v < alen e \<Longrightarrow> parent (elt e' v) = parent (elt e v)"
  shows "path e v d r \<Longrightarrow> path e' v d r"
  by (induction rule: path.induct) (auto intro: path.intros simp: assms)

lemma link_path:
  assumes s: "is_root e small" and l: "is_root e large" and ne: "small \<noteq> large"
    and len: "alen e' = alen e" and par: "\<And>v. 0 \<le> v \<Longrightarrow> v < alen e \<Longrightarrow>
      parent (elt e' v) = (if v = small then large else parent (elt e v))"
  shows "path e v d r \<Longrightarrow> path e' v (if r = small then Suc d else d) (if r = small then large else r)"
proof (induction rule: path.induct)
  case (here v)
  have "path e' large 0 large" using l ne len par by (intro path.here) (auto simp: is_root_def)
  moreover have "large \<noteq> UF_NIL" using l by (auto simp: is_root_def)
  ultimately have "path e' small (Suc 0) large" using s len par by (intro path.up) (auto simp: is_root_def)
  moreover have "path e' v 0 v" if "v \<noteq> small" using that here len par by (intro path.here) auto
  ultimately show ?case by simp
next
  case (up v d r)
  then have "v \<noteq> small" using s by (auto simp: is_root_def)
  with par[of v] up have "parent (elt e' v) = parent (elt e v)" by simp
  with up len path.up[of v e'] show ?case by (auto split: if_splits)
qed

lemma link_members:
  assumes inv: "uf_inv e" and s: "is_root e small" and l: "is_root e large" and ne: "small \<noteq> large"
    and len: "alen e' = alen e" and par: "\<And>v. 0 \<le> v \<Longrightarrow> v < alen e \<Longrightarrow>
      parent (elt e' v) = (if v = small then large else parent (elt e v))"
  shows "members e' r = (if r = small then {} else if r = large then members e small \<union> members e large else members e r)"
proof -
  have link: "path e' v (if r = small then Suc d else d) (if r = small then large else r)"
    if "path e v d r" for v d r
    using that by (rule link_path[OF s l ne len, rotated]) (rule par)
  have "v \<in> members e' r \<longleftrightarrow> (\<exists>t. v \<in> members e t \<and> (if t = small then large else t) = r)" for v
  proof
    assume "\<exists>t. v \<in> members e t \<and> (if t = small then large else t) = r"
    then show "v \<in> members e' r" using link unfolding members_def by blast
  next
    assume "v \<in> members e' r"
    then obtain d where d: "path e' v d r" by (auto simp: members_def)
    then obtain k t where k: "path e v k t" using uf_invD(1)[OF inv, of v] path_range[OF d] len by auto
    from link[OF k] path_unique[OF d] have "(if t = small then large else t) = r" by blast
    with k show "\<exists>t. v \<in> members e t \<and> (if t = small then large else t) = r" by (auto simp: members_def)
  qed
  moreover have "(\<exists>t. v \<in> members e t \<and> (if t = small then large else t) = r) \<longleftrightarrow>
      r \<noteq> small \<and> v \<in> members e r \<or> r = large \<and> v \<in> members e small" for v
    using ne by metis
  ultimately show ?thesis using ne by (intro set_eqI) auto
qed

text \<open>The state \<open>Union\<close> leaves, for two different sets.\<close>

definition linked_state :: "universe \<Rightarrow> int \<Rightarrow> int \<Rightarrow> int \<Rightarrow> universe" where
  "linked_state e small large k =
    (let e1 = upd e small ((elt e small)\<lparr>parent := large\<rparr>);
         e2 = upd e1 large ((elt e1 large)\<lparr>count := count (elt e1 large) + count (elt e1 small)\<rparr>);
         e3 = upd e2 large ((elt e2 large)\<lparr>name := k\<rparr>)
     in upd e3 k ((elt e3 k)\<lparr>root := large\<rparr>))"

lemma linked_state_elt:
  assumes "is_root e small" "is_root e large" "small \<noteq> large" "0 \<le> k" "k < alen e"
  shows "alen (linked_state e small large k) = alen e"
    and "0 \<le> v \<Longrightarrow> v < alen e \<Longrightarrow> parent (elt (linked_state e small large k) v) = (if v = small then large else parent (elt e v))"
    and "0 \<le> v \<Longrightarrow> v < alen e \<Longrightarrow> name (elt (linked_state e small large k) v) = (if v = large then k else name (elt e v))"
    and "0 \<le> v \<Longrightarrow> v < alen e \<Longrightarrow> root (elt (linked_state e small large k) v) = (if v = k then large else root (elt e v))"
    and "0 \<le> v \<Longrightarrow> v < alen e \<Longrightarrow> count (elt (linked_state e small large k) v) =
      (if v = large then count (elt e large) + count (elt e small) else count (elt e v))"
  using assms by (auto simp: linked_state_def Let_def is_root_def)

lemma linked_state_inv:
  assumes inv: "uf_inv e" and s: "is_root e small" and l: "is_root e large" and ne: "small \<noteq> large"
    and size: "count (elt e small) \<le> count (elt e large)" and k: "0 \<le> k" "k < alen e"
    and fresh: "\<And>r. is_root e r \<Longrightarrow> r \<noteq> small \<Longrightarrow> r \<noteq> large \<Longrightarrow> name (elt e r) \<noteq> k"
  shows "uf_inv (linked_state e small large k)"
proof -
  let ?f = "linked_state e small large k"
  note E = linked_state_elt[OF s l ne k]
  have link: "path ?f v (if r = small then Suc d else d) (if r = small then large else r)"
    if "path e v d r" for v d r
    using that by (rule link_path[OF s l ne E(1), rotated]) (rule E(2))
  have mem: "members ?f r = (if r = small then {} else if r = large then members e small \<union> members e large else members e r)" for r
    by (rule link_members[OF inv s l ne E(1)]) (rule E(2))
  have roots: "is_root ?f r \<longleftrightarrow> is_root e r \<and> r \<noteq> small" for r
    using E(1) E(2)[of r] l by (auto simp: is_root_def)
  have "\<exists>d r. path ?f v d r" if "0 \<le> v" "v < alen ?f" for v
    using uf_invD(1)[OF inv, of v] that E(1) link by metis
  moreover have "0 \<le> name (elt ?f r) \<and> name (elt ?f r) < alen ?f \<and> root (elt ?f (name (elt ?f r))) = r \<and>
      count (elt ?f r) = int (card (members ?f r))" if "is_root ?f r" for r
  proof -
    have r: "is_root e r" "r \<noteq> small" "0 \<le> r" "r < alen e" using that roots by (auto simp: is_root_def)
    note D = uf_invD(2-4)[OF inv r(1)]
    have "card (members e small \<union> members e large) = card (members e small) + card (members e large)"
      by (rule card_Un_disjoint) (use members_disjoint[OF ne] in simp_all)
    then show ?thesis
      using D r k E(1) E(3-5)[OF r(3,4)] E(4)[of "name (elt e r)"] E(4)[of k] fresh[OF r(1,2)] mem[of r]
        uf_invD(4)[OF inv l] uf_invD(4)[OF inv s]
      by (cases "r = large") auto
  qed
  moreover have "2 ^ d \<le> count (elt ?f r)" if d: "path ?f v d r" for v d r
  proof -
    obtain c t where c: "path e v c t" using uf_invD(1)[OF inv, of v] path_range[OF d] E(1) by auto
    from link[OF c] path_unique[OF d]
    have dr: "d = (if t = small then Suc c else c)" "r = (if t = small then large else t)" by auto
    have t: "0 \<le> t" "t < alen e" "(2::int) ^ c \<le> count (elt e t)"
      using path_end[OF c] uf_invD(5)[OF inv c] by auto
    have "(2::int) ^ 0 \<le> count (elt e large)" "(2::int) ^ 0 \<le> count (elt e small)"
      using uf_invD(5)[OF inv] l s path.here by (fastforce simp: is_root_def)+
    then show ?thesis
      using t size l s E(5)[of t] E(5)[of large] by (auto simp: dr is_root_def)
  qed
  ultimately show ?thesis unfolding uf_inv_def by blast
qed

lemma uf_Union_links:
  assumes inv: "uf_inv e" and ri: "is_root e ri" and rj: "is_root e rj" and ne: "ri \<noteq> rj"
    and k: "0 \<le> k" "k < alen e"
  shows "uf_Union e (name (elt e ri)) (name (elt e rj)) k = Inr
    (if count (elt e ri) > count (elt e rj) then linked_state e rj ri k else linked_state e ri rj k)"
proof -
  have i: "0 \<le> name (elt e ri)" "name (elt e ri) < alen e" "root (elt e (name (elt e ri))) = ri"
    and j: "0 \<le> name (elt e rj)" "name (elt e rj) < alen e" "root (elt e (name (elt e rj))) = rj"
    using uf_invD(2,3)[OF inv ri] uf_invD(2,3)[OF inv rj] by auto
  then have "name (elt e ri) \<noteq> name (elt e rj)" using ne by auto
  moreover have "0 \<le> ri" "ri < alen e" "0 \<le> rj" "rj < alen e" using ri rj by (auto simp: is_root_def)
  ultimately show ?thesis using i j k ne
    by (simp add: uf_Union_def linked_state_def Let_def set_parent_upd)
qed

lemma same_set_link:
  assumes inv: "uf_inv e" and s: "is_root e small" and l: "is_root e large" and ne: "small \<noteq> large"
    and k: "0 \<le> k" "k < alen e"
  shows "same_set (linked_state e small large k) u v \<longleftrightarrow> same_set e u v \<or>
    (u \<in> members e small \<and> v \<in> members e large) \<or> (u \<in> members e large \<and> v \<in> members e small)"
proof -
  note E = linked_state_elt[OF s l ne k]
  have mem: "members (linked_state e small large k) r =
      (if r = small then {} else if r = large then members e small \<union> members e large else members e r)" for r
    by (rule link_members[OF inv s l ne E(1)]) (rule E(2))
  let ?f = "linked_state e small large k"
  show ?thesis
  proof
    assume "same_set ?f u v"
    then obtain r where r: "u \<in> members ?f r" "v \<in> members ?f r" unfolding same_set_def by blast
    then show "same_set e u v \<or> (u \<in> members e small \<and> v \<in> members e large) \<or>
        (u \<in> members e large \<and> v \<in> members e small)"
      unfolding mem same_set_def by (cases "r = small"; cases "r = large") auto
  next
    assume "same_set e u v \<or> (u \<in> members e small \<and> v \<in> members e large) \<or>
        (u \<in> members e large \<and> v \<in> members e small)"
    then consider r where "r \<noteq> small" "r \<noteq> large" "u \<in> members e r" "v \<in> members e r"
      | "u \<in> members e small \<union> members e large" "v \<in> members e small \<union> members e large"
    proof
      assume same: "same_set e u v"
      then obtain r where "u \<in> members e r" "v \<in> members e r" unfolding same_set_def by blast
      then show thesis using that by (cases "r = small"; cases "r = large") auto
    qed (use that in blast)
    then show "same_set ?f u v"
    proof cases
      case (1 r)
      then have "u \<in> members ?f r" "v \<in> members ?f r" by (simp_all add: mem)
      then show ?thesis unfolding same_set_def by blast
    next
      case 2
      then have "u \<in> members ?f large" "v \<in> members ?f large" using ne by (simp_all add: mem)
      then show ?thesis unfolding same_set_def by blast
    qed
  qed
qed

lemma same_set_members:
  "u \<in> members e r \<Longrightarrow> same_set e u v \<longleftrightarrow> v \<in> members e r"
  using members_unique unfolding same_set_def by metis

text \<open>\<open>uf_Union\<close> of the names of two sets, under a name that no third set has.\<close>

lemma uf_Union_correct:
  assumes inv: "uf_inv e" and a: "a \<in> members e ri" and b: "b \<in> members e rj" and k: "0 \<le> k" "k < alen e"
    and fresh: "\<And>r. is_root e r \<Longrightarrow> r \<noteq> ri \<Longrightarrow> r \<noteq> rj \<Longrightarrow> name (elt e r) \<noteq> k" and ne: "ri \<noteq> rj"
  shows "\<exists>e'. uf_Union e (name (elt e ri)) (name (elt e rj)) k = Inr e' \<and> uf_inv e' \<and> alen e' = alen e \<and>
    (\<forall>u v. same_set e' u v \<longleftrightarrow> same_set e u v \<or> (same_set e a u \<and> same_set e b v) \<or>
      (same_set e b u \<and> same_set e a v)) \<and>
    (\<exists>r. is_root e' r \<and> a \<in> members e' r \<and> name (elt e' r) = k)"
proof -
  have ri: "is_root e ri" and rj: "is_root e rj" using a b is_root_path by (auto simp: members_def)
  have main: "uf_inv (linked_state e s l k) \<and> alen (linked_state e s l k) = alen e \<and>
      (\<forall>u v. same_set (linked_state e s l k) u v \<longleftrightarrow> same_set e u v \<or> (same_set e a u \<and> same_set e b v) \<or>
        (same_set e b u \<and> same_set e a v)) \<and>
      (\<exists>r. is_root (linked_state e s l k) r \<and> a \<in> members (linked_state e s l k) r \<and>
        name (elt (linked_state e s l k) r) = k)"
    if sl: "{s, l} = {ri, rj}" and size: "count (elt e s) \<le> count (elt e l)" for s l
  proof -
    have s: "is_root e s" and l: "is_root e l" and d: "s \<noteq> l" using sl ri rj ne by (auto simp: doubleton_eq_iff)
    note E = linked_state_elt[OF s l d k]
    have fr: "name (elt e r) \<noteq> k" if "is_root e r" "r \<noteq> s" "r \<noteq> l" for r
      using fresh[OF that(1)] that sl by (auto simp: doubleton_eq_iff)
    have "a \<in> members e s \<union> members e l" using a sl by (auto simp: doubleton_eq_iff)
    then have "a \<in> members (linked_state e s l k) l"
      using link_members[OF inv s l d E(1,2), of l] d by simp
    moreover have "is_root (linked_state e s l k) l" "name (elt (linked_state e s l k) l) = k"
      using l d E(1) E(2)[of l] E(3)[of l] by (auto simp: is_root_def)
    moreover have "same_set (linked_state e s l k) u v \<longleftrightarrow> same_set e u v \<or> (same_set e a u \<and> same_set e b v) \<or>
        (same_set e b u \<and> same_set e a v)" for u v
      using same_set_link[OF inv s l d k, of u v] sl same_set_members[OF a] same_set_members[OF b]
      by (auto simp: doubleton_eq_iff)
    ultimately show ?thesis using linked_state_inv[OF inv s l d size k fr] E(1) by blast
  qed
  show ?thesis
    unfolding uf_Union_links[OF inv ri rj ne k]
    using main[of rj ri] main[of ri rj] by (auto simp: insert_commute)
qed

lemma merge_correct:
  assumes inv: "uf_inv e" and a: "0 \<le> a" "a < alen e" and b: "0 \<le> b" "b < alen e"
  shows "\<exists>e'. merge e a b = Some (Inr e') \<and> uf_inv e' \<and> alen e' = alen e \<and>
    (\<forall>u v. same_set e' u v \<longleftrightarrow> same_set e u v \<or> (same_set e a u \<and> same_set e b v) \<or>
      (same_set e b u \<and> same_set e a v))"
proof -
  obtain d ri where pa: "path e a d ri" using uf_invD(1)[OF inv a] by blast
  obtain d' rj where pb: "path e b d' rj" using uf_invD(1)[OF inv b] by blast
  obtain e1 where e1: "Find e a = Some (Inr (e1, name (elt e ri)))" "shorter e e1"
    using Find_name[OF pa] by blast
  have step: "\<exists>f. Find g b = Some (Inr (f, name (elt e rj))) \<and> shorter e f" if "shorter e g" for g
  proof -
    from \<open>shorter e g\<close> pb obtain c where "path g b c rj" unfolding shorter_def by blast
    then obtain f where "Find g b = Some (Inr (f, name (elt g rj)))" "shorter g f" using Find_name by blast
    moreover have "name (elt g rj) = name (elt e rj)" using \<open>shorter e g\<close> path_end[OF pb] by (simp add: shorter_def)
    ultimately show ?thesis using shorter_trans[OF that] by auto
  qed
  obtain e2 where e2: "Find e1 b = Some (Inr (e2, name (elt e rj)))" "shorter e e2" using step[OF e1(2)] by blast
  obtain e3 where e3: "Find e2 b = Some (Inr (e3, name (elt e rj)))" "shorter e e3" using step[OF e2(2)] by blast
  have m: "merge e a b = Some (uf_Union e3 (name (elt e ri)) (name (elt e rj)) (name (elt e rj)))"
    using e1(1) e2(1) e3(1) by (simp add: merge_def)
  have inv3: "uf_inv e3" and len: "alen e3 = alen e"
    using shorter_inv[OF inv e3(2)] e3(2) by (simp_all add: shorter_def)
  have mem: "members e3 r = members e r" for r using shorter_members[OF inv e3(2)] .
  have same: "same_set e3 u v \<longleftrightarrow> same_set e u v" for u v by (simp add: same_set_def mem)
  have am: "a \<in> members e ri" and bm: "b \<in> members e rj" using pa pb by (auto simp: members_def)
  have names: "name (elt e3 r) = name (elt e r)" if "is_root e r" for r
    using that e3(2) by (simp add: is_root_def shorter_def)
  have ri: "is_root e ri" and rj: "is_root e rj" using pa pb is_root_path by auto
  show ?thesis
  proof (cases "ri = rj")
    case True
    have "same_set e a u \<and> same_set e b v \<or> same_set e b u \<and> same_set e a v \<Longrightarrow> same_set e u v" for u v
      unfolding same_set_members[OF am] same_set_members[OF bm] True unfolding same_set_def by blast
    moreover have "merge e a b = Some (Inr e3)" using m True by (simp add: uf_Union_def)
    ultimately show ?thesis using inv3 len same by (intro exI[of _ e3]) blast
  next
    case False
    have "name (elt e3 r) \<noteq> name (elt e3 rj)" if "is_root e3 r" "r \<noteq> ri" "r \<noteq> rj" for r
      using uf_invD(3)[OF inv3 that(1)] uf_invD(3)[OF inv3, of rj] rj shorter_root[OF e3(2)] that(3) by metis
    moreover have "0 \<le> name (elt e3 rj)" "name (elt e3 rj) < alen e3"
      using uf_invD(2)[OF inv3, of rj] rj shorter_root[OF e3(2)] by auto
    ultimately show ?thesis
      using uf_Union_correct[OF inv3, of a ri b rj "name (elt e3 rj)"] am bm False m names[OF ri] names[OF rj] len
      by (auto simp: mem same)
  qed
qed

text \<open>The number of steps of a \<open>Find\<close> is logarithmic in the number of elements.\<close>

lemma path_logarithmic:
  assumes "uf_inv e" "path e v d r"
  shows "2 ^ d \<le> alen e"
proof -
  have "int (card (members e r)) \<le> alen e"
    using card_mono[OF _ members_range, of e r] by (simp add: le_nat_iff[OF alen_nonneg])
  then show ?thesis using uf_invD(4)[OF assms(1) is_root_path[OF assms(2)]] uf_invD(5)[OF assms] by linarith
qed

text \<open>
  \<open>Union(i, i, k)\<close> with another name makes the root of the set its own parent; no later \<open>Find\<close> returns.
\<close>

lemma do_FIND_cycle: "do_FIND e v = Some res \<Longrightarrow> \<not> (0 \<le> v \<and> v < alen e \<and> parent (elt e v) = v)"
proof (rule do_FIND.raw_induct[where P = "\<lambda>e v res. \<not> (0 \<le> v \<and> v < alen e \<and> parent (elt e v) = v)"])
  fix f e v res
  assume IH: "\<And>e v res. f e v = Some res \<Longrightarrow> \<not> (0 \<le> v \<and> v < alen e \<and> parent (elt e v) = v)"
    and eq: "(case rd e v of Inl err \<Rightarrow> Some (Inl err) | Inr x \<Rightarrow>
    if parent x = UF_NIL then Some (Inr (e, v))
    else Option.bind (f e (parent x)) (\<lambda>res. Some (bind_result res (\<lambda>(e, p).
      bind_result (set_parent e v p) (\<lambda>e. Inr (e, p)))))) = Some res"
  show "\<not> (0 \<le> v \<and> v < alen e \<and> parent (elt e v) = v)"
  proof
    assume v: "0 \<le> v \<and> v < alen e \<and> parent (elt e v) = v"
    then obtain res' where "f e v = Some res'" using eq by (auto simp: bind_eq_Some_conv)
    from IH[OF this] v show False by blast
  qed
qed

lemma Union_with_itself_hangs:
  assumes inv: "uf_inv e" and r: "is_root e r" and k: "k \<noteq> name (elt e r)" "0 \<le> k" "k < alen e"
  shows "\<exists>e'. uf_Union e (name (elt e r)) (name (elt e r)) k = Inr e' \<and> Find e' r = None"
proof -
  have n: "0 \<le> name (elt e r)" "name (elt e r) < alen e" "root (elt e (name (elt e r))) = r" "0 \<le> r" "r < alen e"
    using uf_invD(2,3)[OF inv r] r by (auto simp: is_root_def)
  then obtain e' where e': "uf_Union e (name (elt e r)) (name (elt e r)) k = Inr e'" "alen e' = alen e"
    "parent (elt e' r) = r"
    using k by (auto simp: uf_Union_def Let_def set_parent_upd)
  have "do_FIND e' r = None" using do_FIND_cycle[of e' r] e' n by (cases "do_FIND e' r") auto
  then have "Find e' r = None" using e' n by (simp add: Find_def)
  with e'(1) show ?thesis by blast
qed

section \<open>What a client relies on\<close>

text \<open>Joining along a list of pairs; \<open>None\<close> when a join does not return.\<close>

fun join_all :: "('e \<Rightarrow> int \<Rightarrow> int \<Rightarrow> 'e result option) \<Rightarrow> 'e \<Rightarrow> (int \<times> int) list \<Rightarrow> 'e result option" where
  "join_all join e [] = Some (Inr e)"
| "join_all join e ((a, b) # ps) = (case join e a b of
      Some (Inr e) \<Rightarrow> join_all join e ps
    | r \<Rightarrow> r)"

locale disjoint_sets =
  fixes join :: "'e \<Rightarrow> int \<Rightarrow> int \<Rightarrow> 'e result option"
    and same :: "'e \<Rightarrow> int \<Rightarrow> int \<Rightarrow> bool"
    and dom_of :: "'e \<Rightarrow> int set"
    and inv :: "'e \<Rightarrow> bool"
  assumes join_ok: "inv e \<Longrightarrow> a \<in> dom_of e \<Longrightarrow> b \<in> dom_of e \<Longrightarrow> \<exists>e'. join e a b = Some (Inr e') \<and>
      inv e' \<and> dom_of e' = dom_of e \<and>
      (\<forall>u v. same e' u v \<longleftrightarrow> same e u v \<or> (same e a u \<and> same e b v) \<or> (same e b u \<and> same e a v))"
    and same_equiv: "inv e \<Longrightarrow> equiv (dom_of e) {(u, v). same e u v}"
begin

lemma same_refl: "inv e \<Longrightarrow> u \<in> dom_of e \<Longrightarrow> same e u u"
  using same_equiv[of e] by (auto simp: equiv_def refl_on_def)

lemma same_sym: "inv e \<Longrightarrow> same e u v \<Longrightarrow> same e v u"
  using same_equiv[of e] by (auto simp: equiv_def sym_def)

text \<open>After joining the pairs, two elements are together iff a chain of pairs connects them.\<close>

lemma join_all_connects:
  assumes "inv e" "\<forall>(a, b) \<in> set ps. a \<in> dom_of e \<and> b \<in> dom_of e"
  shows "\<exists>e'. join_all join e ps = Some (Inr e') \<and> inv e' \<and> dom_of e' = dom_of e \<and>
    (\<forall>u \<in> dom_of e. \<forall>v. same e' u v \<longleftrightarrow> (u, v) \<in> ({(u, v). same e u v} \<union> set ps \<union> (set ps)\<inverse>)\<^sup>*)"
  using assms
proof (induction ps arbitrary: e)
  case Nil
  have "trans {(u, v). same e u v}" using same_equiv[OF Nil(1)] by (simp add: equiv_def)
  then have "{(u, v). same e u v}\<^sup>* = {(u, v). same e u v}\<^sup>="
    by (simp add: rtrancl_trancl_reflcl trancl_id Un_commute)
  then show ?case using Nil same_refl by auto
next
  case (Cons p ps)
  obtain a b where p: "p = (a, b)" by (cases p)
  have ab: "a \<in> dom_of e" "b \<in> dom_of e" using Cons.prems p by auto
  from join_ok[OF Cons.prems(1) ab] obtain e1 where
    e1: "join e a b = Some (Inr e1)" "inv e1" "dom_of e1 = dom_of e" and
    same: "\<And>u v. same e1 u v \<longleftrightarrow> same e u v \<or> (same e a u \<and> same e b v) \<or> (same e b u \<and> same e a v)"
    by blast
  have "\<forall>(a, b) \<in> set ps. a \<in> dom_of e1 \<and> b \<in> dom_of e1" using Cons.prems e1(3) by simp
  from Cons.IH[OF e1(2) this] e1(1,3) p obtain e' where
    e': "join_all join e (p # ps) = Some (Inr e')" "inv e'" "dom_of e' = dom_of e" and
    closure: "\<And>u v. u \<in> dom_of e \<Longrightarrow> same e' u v \<longleftrightarrow> (u, v) \<in> ({(u, v). same e1 u v} \<union> set ps \<union> (set ps)\<inverse>)\<^sup>*"
    by auto
  let ?R = "{(u, v). same e u v}" and ?E = "set ps \<union> (set ps)\<inverse>"
  have "({(u, v). same e1 u v} \<union> ?E)\<^sup>* = (?R \<union> {(a, b), (b, a)} \<union> ?E)\<^sup>*"
  proof (rule rtrancl_subset)
    show "?R \<union> {(a, b), (b, a)} \<union> ?E \<subseteq> {(u, v). same e1 u v} \<union> ?E"
      using same same_refl[OF Cons.prems(1)] ab by auto
    have "(u, v) \<in> (?R \<union> {(a, b), (b, a)} \<union> ?E)\<^sup>*" if "same e1 u v" for u v
    proof -
      have step: "(x, y) \<in> (?R \<union> {(a, b), (b, a)} \<union> ?E)\<^sup>*" if "same e x y \<or> (x, y) \<in> {(a, b), (b, a)}" for x y
        using that by blast
      from that[unfolded same] show ?thesis
      proof (elim disjE conjE)
        assume "same e a u" "same e b v"
        then show ?thesis
          using step[of u a] step[of a b] step[of b v] same_sym[OF Cons.prems(1)] by (meson insertCI rtrancl_trans)
      next
        assume "same e b u" "same e a v"
        then show ?thesis
          using step[of u b] step[of b a] step[of a v] same_sym[OF Cons.prems(1)] by (meson insertCI rtrancl_trans)
      qed (use step in blast)
    qed
    then show "{(u, v). same e1 u v} \<union> ?E \<subseteq> (?R \<union> {(a, b), (b, a)} \<union> ?E)\<^sup>*" by auto
  qed
  moreover have "?R \<union> {(a, b), (b, a)} \<union> ?E = ?R \<union> set (p # ps) \<union> (set (p # ps))\<inverse>" using p by auto
  ultimately have eq: "({(u, v). same e1 u v} \<union> set ps \<union> (set ps)\<inverse>)\<^sup>* =
      (?R \<union> set (p # ps) \<union> (set (p # ps))\<inverse>)\<^sup>*"
    by (simp only: Un_assoc)
  show ?case using e' closure unfolding eq by blast
qed

end

lemma same_set_equiv:
  assumes "uf_inv e"
  shows "equiv {0..<alen e} {(u, v). same_set e u v}"
proof (rule equivI)
  show "{(u, v). same_set e u v} \<subseteq> {0..<alen e} \<times> {0..<alen e}"
    unfolding same_set_def using members_range by blast
  show "refl_on {0..<alen e} {(u, v). same_set e u v}"
    using uf_invD(1)[OF assms] unfolding refl_on_def same_set_def members_def by fastforce
  show "sym {(u, v). same_set e u v}" by (auto simp: sym_def same_set_def)
  show "trans {(u, v). same_set e u v}"
  proof (rule transI, clarify)
    fix x y z assume "same_set e x y" "same_set e y z"
    then show "same_set e x z" unfolding same_set_def using members_unique[of y e] by blast
  qed
qed

interpretation uf: disjoint_sets merge same_set "\<lambda>e. {0..<alen e}" uf_inv
proof
  fix e a b
  assume "uf_inv e" "a \<in> {0..<alen e}" "b \<in> {0..<alen e}"
  then show "\<exists>e'. merge e a b = Some (Inr e') \<and> uf_inv e' \<and> {0..<alen e'} = {0..<alen e} \<and>
      (\<forall>u v. same_set e' u v \<longleftrightarrow> same_set e u v \<or> (same_set e a u \<and> same_set e b v) \<or>
        (same_set e b u \<and> same_set e a v))"
    using merge_correct[of e a b] by auto
qed (rule same_set_equiv)

section \<open>Properties\<close>

text \<open>C37: Merging the sets of the pairs of a list, as the header shows, in a new universe always returns;
  then \<open>Find\<close> returns the same name for two elements exactly when a chain of pairs connects them.\<close>

theorem union_find_connected:
  assumes "\<forall>(a, b) \<in> set ps. 0 \<le> a \<and> a < n \<and> 0 \<le> b \<and> b < n" and "0 \<le> u" "u < n" "0 \<le> v" "v < n"
  shows "\<exists>e e1 e2 i j. join_all merge (UnionFindUniverse n) ps = Some (Inr e) \<and>
    Find e u = Some (Inr (e1, i)) \<and> Find e v = Some (Inr (e2, j)) \<and>
    (i = j \<longleftrightarrow> (u, v) \<in> (set ps \<union> (set ps)\<inverse>)\<^sup>*)"
proof -
  have n: "0 \<le> n" using assms by simp
  obtain e where e: "join_all merge (UnionFindUniverse n) ps = Some (Inr e)" "uf_inv e" "{0..<alen e} = {0..<n}"
    and same: "\<And>u v. u \<in> {0..<n} \<Longrightarrow> same_set e u v \<longleftrightarrow>
      (u, v) \<in> ({(u, v). same_set (UnionFindUniverse n) u v} \<union> set ps \<union> (set ps)\<inverse>)\<^sup>*"
    using uf.join_all_connects[OF universe_inv(1)[OF n], of ps] assms(1) n by (auto simp: universe_alen)
  have "{(u, v). same_set (UnionFindUniverse n) u v} \<subseteq> Id" using universe_inv(2)[OF n] by auto
  then have "({(u, v). same_set (UnionFindUniverse n) u v} \<union> set ps \<union> (set ps)\<inverse>)\<^sup>* = (set ps \<union> (set ps)\<inverse>)\<^sup>*"
    by (intro rtrancl_subset) auto
  moreover obtain d r where u: "path e u d r" using uf_invD(1)[OF e(2), of u] e(3) assms by fastforce
  moreover obtain d' s where v: "path e v d' s" using uf_invD(1)[OF e(2), of v] e(3) assms by fastforce
  ultimately show ?thesis
    using e(1) Find_name[OF u] Find_name[OF v] same_set_iff[OF e(2) u v] same[of u v] assms(2,3) by auto
qed

theorem union_find_connected_witness:
  "\<exists>e e1 e2 i j. join_all merge (UnionFindUniverse 5) [(0, 1), (2, 3), (1, 3)] = Some (Inr e) \<and>
    Find e 0 = Some (Inr (e1, i)) \<and> Find e 2 = Some (Inr (e2, j)) \<and>
    (i = j \<longleftrightarrow> (0, 2) \<in> (set [(0, 1), (2, 3), (1, 3)] \<union> (set [(0, 1), (2, 3), (1, 3 :: int)])\<inverse>)\<^sup>*)"
  by (rule union_find_connected) auto

text \<open>The path from an element to the root of its set has at most logarithmically many steps in the
  number of elements, so that is how deep \<open>do_FIND\<close> recurses.\<close>

lemma find_depth:
  assumes "uf_inv e" and "path e v d r"
  shows "2 ^ d \<le> alen e \<and> (\<exists>e'. do_FIND e v = Some (Inr (e', r)))"
  using path_logarithmic[OF assms] do_FIND_root[OF assms(2)] by blast

end
