(* ===== verification/Complexity.thy ===== *)
theory Complexity
  imports C_Arrays Driver UF_Params
begin

text \<open>
  The complexity of an inspector (\<open>complexityForPartialParallel.cc\<close>): a visitor that finds the range of each tuple
  variable, and the text of the product. An entry of the array is -1 for a variable whose range is not known, 0 for one
  that is projected out, 1 for one that others determine, 2 for \<open>O(nnz/n)\<close> and 3 for \<open>O(n)\<close>.
\<close>

section \<open>The visitor\<close>

record complexity_state =
  complexity :: "int list"
  tv1 :: "trm option"
  tv2 :: "trm option"
  ufcUB :: "trm option"
  varUB :: "trm option"
  nestedness :: int

definition loc_of :: "trm \<Rightarrow> int" where
  "loc_of t = (case t of TupleVarTerm c l \<Rightarrow> l | _ \<Rightarrow> 0)"

definition var_symbol :: "trm \<Rightarrow> string" where
  "var_symbol t = (case t of VarTerm c x \<Rightarrow> x | _ \<Rightarrow> '''')"

text \<open>An equality between two tuple variables.\<close>

definition complexity_eq :: "int list \<Rightarrow> int \<Rightarrow> int \<Rightarrow> int list result" where
  "complexity_eq c l1 l2 =
     bind_result (rd c l1) (\<lambda>c1. bind_result (rd c l2) (\<lambda>c2.
       if c1 = -1 \<and> c2 = -1 then Inr c
       else if c1 = 0 \<or> c2 = 0 then Inr c
       else if c1 = 1 \<or> c2 = 1 then Inr c
       else if c1 = -1 \<or> c2 > 1 then wr c l1 1
       else if c1 > 1 \<or> c2 = -1 then wr c l2 1
       else if c2 \<le> c1 then wr c l1 1
       else wr c l2 1))"

text \<open>An inequality with one tuple variable.\<close>

definition complexity_bound :: "int list \<Rightarrow> trm \<Rightarrow> trm option \<Rightarrow> trm option \<Rightarrow> int list result" where
  "complexity_bound c t var ufc =
     bind_result (rd c (loc_of t)) (\<lambda>c1.
       if coefficient t > 0 \<or> c1 > -1 then Inr c
       else (case var of
           Some v \<Rightarrow>
             if var_symbol v = ''n'' \<or> var_symbol v = ''m'' then wr c (loc_of t) 3
             else if var_symbol v = ''nnz'' then wr c (loc_of t) 2
             else Inr c
         | None \<Rightarrow> if ufc \<noteq> None then wr c (loc_of t) 2 else Inr c))"

text \<open>An inequality between two tuple variables: the bound of the larger one is one of the smaller one.\<close>

definition complexity_less :: "int list \<Rightarrow> trm \<Rightarrow> trm \<Rightarrow> int list result" where
  "complexity_less c t1 t2 =
     (if coefficient t1 < 0 \<and> coefficient t2 < 0 then Inr c
      else if coefficient t1 < 0 \<and> coefficient t2 > 0 then
        bind_result (rd c (loc_of t2)) (\<lambda>c2.
          if c2 < 2 then Inr c
          else bind_result (rd c (loc_of t1)) (\<lambda>c1. if c2 < c1 then wr c (loc_of t1) c2 else Inr c))
      else if coefficient t1 > 0 \<and> coefficient t2 < 0 then
        bind_result (rd c (loc_of t1)) (\<lambda>c1.
          if c1 < 2 then Inr c
          else bind_result (rd c (loc_of t2)) (\<lambda>c2. if c1 < c2 then wr c (loc_of t2) c1 else Inr c))
      else Inr c)"

definition complexity_constraint :: "exptype \<Rightarrow> complexity_state \<Rightarrow> int list result" where
  "complexity_constraint et s = (case tv1 s of
     None \<Rightarrow> Inr (complexity s)
   | Some t1 \<Rightarrow>
       bind_result (rd (complexity s) (loc_of t1)) (\<lambda>c1.
         if c1 = 0 \<or> c1 = 1 then Inr (complexity s)
         else if et = Equality then
           (case tv2 s of
              Some t2 \<Rightarrow> complexity_eq (complexity s) (loc_of t1) (loc_of t2)
            | None \<Rightarrow> if ufcUB s \<noteq> None then wr (complexity s) (loc_of t1) 1 else Inr (complexity s))
         else
           (case tv2 s of
              None \<Rightarrow> complexity_bound (complexity s) t1 (varUB s) (ufcUB s)
            | Some t2 \<Rightarrow> complexity_less (complexity s) t1 t2)))"

text \<open>The methods for variables run after the variable is visited, which is when it is visited, as it has no parts.\<close>

definition VisitorCalculateComplexity :: "complexity_state visitor" where
  "VisitorCalculateComplexity = base_Visitor\<lparr>
     postVisitUFCallTerm := \<lambda>t s. Inr (t, if nestedness s \<noteq> 0 then s else s\<lparr>ufcUB := Some t\<rparr>),
     preVisitVarTerm := \<lambda>t s. Inr (if nestedness s \<noteq> 0 then s else s\<lparr>varUB := Some t\<rparr>),
     preVisitTupleVarTerm := \<lambda>t s. Inr (t, if nestedness s \<noteq> 0 then s
       else if tv1 s = None then s\<lparr>tv1 := Some t\<rparr>
       else if tv2 s = None then s\<lparr>tv2 := Some t\<rparr> else s),
     preVisitExp := \<lambda>e s. Inr (if mExpType e = Expression then s\<lparr>nestedness := nestedness s + 1\<rparr>
       else s\<lparr>nestedness := 0, tv1 := None, tv2 := None, ufcUB := None, varUB := None\<rparr>),
     postVisitExp := \<lambda>e s.
       if mExpType e = Expression then Inr (s\<lparr>nestedness := nestedness s - 1\<rparr>)
       else bind_result (complexity_constraint (mExpType e) s) (\<lambda>c. Inr (s\<lparr>complexity := c\<rparr>))\<rparr>"

section \<open>The text\<close>

definition calculateComplexityStr :: "int list \<Rightarrow> nat \<Rightarrow> string" where
  "calculateComplexityStr complexities arr =
     (let numOfNNZdNs = int (length (filter (\<lambda>c. c = 2) (take arr complexities)));
          numOfNs = int (length (filter (\<lambda>c. c = 3) (take arr complexities)));
          diff = numOfNs - numOfNNZdNs;
          strNumOfNs = show_int numOfNs; strNumOfNNZdNs = show_int numOfNNZdNs; strDiff = show_int \<bar>diff\<bar>
      in ''O('' @
         (if numOfNNZdNs = 0 then ''n^'' @ strNumOfNs @ '')''
          else if numOfNs = 0 then ''nnz^'' @ strNumOfNNZdNs @ ''/'' @ ''n^'' @ strNumOfNNZdNs @ '')''
          else if diff < 0 then ''nnz^'' @ strNumOfNNZdNs @ ''/'' @ ''n^'' @ strDiff @ '')''
          else if diff > 0 then ''n^'' @ strDiff @ ''*'' @ ''nnz^'' @ strNumOfNNZdNs @ '')''
          else ''nnz^'' @ strNumOfNNZdNs @ '')''))"

section \<open>The complexity of a set\<close>

text \<open>The array has one element more than there are variables, which is not set.\<close>

definition initial_complexities :: "sparse \<Rightarrow> nat \<Rightarrow> int \<Rightarrow> int list \<Rightarrow> int list result" where
  "initial_complexities cs arity junk parallelTvs =
     bind_result (map_result (\<lambda>i.
         if int i \<in> set parallelTvs then Inr (-1)
         else bind_result (isUFCallParam cs (int i)) (\<lambda>param. Inr (if param then -1 else 0)))
       [0..<arity]) (\<lambda>c. Inr (c @ [junk]))"

definition calculate_complexities :: "sparse \<Rightarrow> int list \<Rightarrow> int list result" where
  "calculate_complexities cs complexities =
     bind_result (accept_sparse VisitorCalculateComplexity cs
         \<lparr>complexity = complexities, tv1 = None, tv2 = None, ufcUB = None, varUB = None, nestedness = 0\<rparr>) (\<lambda>(cs, s).
     bind_result (accept_sparse VisitorCalculateComplexity cs s) (\<lambda>(cs, s). Inr (complexity s)))"

definition complexityForPartialParallel :: "sparse \<Rightarrow> nat \<Rightarrow> int \<Rightarrow> int list \<Rightarrow> string result" where
  "complexityForPartialParallel cs arity junk parallelTvs =
     (if length cs \<noteq> 1 then Inl (Assert_exception
        (''SparseConstraints::complexityForPartialParallel:'' @ ''number of conjunctions is not 1.''))
      else bind_result (initial_complexities cs arity junk parallelTvs) (\<lambda>complexities.
        bind_result (calculate_complexities cs complexities) (\<lambda>complexities.
          Inr (calculateComplexityStr complexities arity))))"

section \<open>Visits that keep an invariant\<close>

text \<open>The interface: methods that neither fail nor change the object and keep an invariant of the fields of the visitor, at
  terms with a property that holds of the terms in the arguments of calls too.\<close>

locale invariant_visit =
  fixes v :: "'s visitor" and P :: "'s \<Rightarrow> bool" and Q :: "trm \<Rightarrow> bool"
  assumes Q_args: "Q (UFCallTerm c f args i) \<Longrightarrow> a \<in> set args \<Longrightarrow> list_all Q (mTerms a)"
    and visit_Term: "Q (Term c) \<Longrightarrow> P s \<Longrightarrow> \<exists>s'. preVisitTerm v (Term c) s = Inr s' \<and> P s'"
    and visit_VarTerm: "Q (VarTerm c x) \<Longrightarrow> P s \<Longrightarrow> \<exists>s'. preVisitVarTerm v (VarTerm c x) s = Inr s' \<and> P s'"
    and visit_TupleVarTerm: "Q (TupleVarTerm c l) \<Longrightarrow> P s \<Longrightarrow> \<exists>s'. preVisitTupleVarTerm v (TupleVarTerm c l) s = Inr (TupleVarTerm c l, s') \<and> P s'"
    and enter_call: "Q (UFCallTerm c f args i) \<Longrightarrow> P s \<Longrightarrow> \<exists>s'. preVisitUFCallTerm v (UFCallTerm c f args i) s = Inr s' \<and> P s'"
    and leave_call: "Q (UFCallTerm c f args i) \<Longrightarrow> P s \<Longrightarrow>
      \<exists>s'. postVisitUFCallTerm v (UFCallTerm c f args i) s = Inr (UFCallTerm c f args i, s') \<and> P s'"
    and enter_exp: "list_all Q (mTerms e) \<Longrightarrow> P s \<Longrightarrow> \<exists>s'. preVisitExp v e s = Inr s' \<and> P s'"
    and leave_exp: "list_all Q (mTerms e) \<Longrightarrow> P s \<Longrightarrow> \<exists>s'. postVisitExp v e s = Inr s' \<and> P s'"
    and enter_conj: "P s \<Longrightarrow> \<exists>s'. preVisitConjunction v d s = Inr s' \<and> P s'"
    and leave_conj: "P s \<Longrightarrow> \<exists>s'. postVisitConjunction v d s = Inr (d, s') \<and> P s'"
    and enter_sparse: "P s \<Longrightarrow> \<exists>s'. preVisitSparseConstraints v cs s = Inr s' \<and> P s'"
    and leave_sparse: "P s \<Longrightarrow> \<exists>s'. postVisitSparseConstraints v cs s = Inr s' \<and> P s'"
begin

lemma visit_all_same:
  assumes "\<And>x s. x \<in> set xs \<Longrightarrow> P s \<Longrightarrow> \<exists>s'. f x s = Inr (x, s') \<and> P s'" "P s"
  shows "\<exists>s'. visit_all f xs s = Inr (xs, s') \<and> P s'"
  using visit_all_same_rule[of "\<lambda>ys. P" s xs f] assms by blast

lemma accept_same:
  "Q t \<Longrightarrow> P s \<Longrightarrow> \<exists>s'. accept_trm v t s = Inr (t, s') \<and> P s'"
  "list_all Q (mTerms e) \<Longrightarrow> P s \<Longrightarrow> \<exists>s'. accept_exp v e s = Inr (e, s') \<and> P s'"
proof (induction t and e arbitrary: s and s rule: trm.induct exp.induct)
  case (UFCallTerm c f args i)
  have Qa: "list_all Q (mTerms a)" if "a \<in> set args" for a using Q_args[OF UFCallTerm.prems(1) that] .
  obtain s1 where s1: "preVisitUFCallTerm v (UFCallTerm c f args i) s = Inr s1" "P s1" using enter_call[OF UFCallTerm.prems] by blast
  obtain s2 where s2: "visit_all (accept_exp v) args s1 = Inr (args, s2)" "P s2"
    using visit_all_same[of args "accept_exp v" s1] UFCallTerm.IH Qa s1(2) by blast
  from leave_call[OF UFCallTerm.prems(1) s2(2)] s1(1) s2(1) show ?case by auto
next
  case (Exp ts et)
  obtain s1 where s1: "preVisitExp v (Exp ts et) s = Inr s1" "P s1" using enter_exp[OF Exp.prems] by blast
  obtain s2 where s2: "visit_all (accept_trm v) ts s1 = Inr (ts, s2)" "P s2"
    using visit_all_same[of ts "accept_trm v" s1] Exp.IH Exp.prems(1) s1(2) by (auto simp: list_all_iff)
  from leave_exp[OF Exp.prems(1) s2(2)] s1(1) s2(1) show ?case by auto
qed (use visit_Term visit_VarTerm visit_TupleVarTerm in \<open>fastforce+\<close>)

lemma accept_conj_same: "conj_all Q c \<Longrightarrow> P s \<Longrightarrow> \<exists>s'. accept_conj v c s = Inr (c, s') \<and> P s'"
proof -
  assume c: "conj_all Q c" and s: "P s"
  obtain s1 where s1: "preVisitConjunction v c s = Inr s1" "P s1" using enter_conj[OF s] by blast
  obtain s2 where s2: "visit_all (accept_exp v) (mEqualities c) s1 = Inr (mEqualities c, s2)" "P s2"
    using visit_all_same[of "mEqualities c" "accept_exp v" s1] accept_same(2) c s1(2) by (auto simp: conj_all_def)
  obtain s3 where s3: "visit_all (accept_exp v) (mInequalities c) s2 = Inr (mInequalities c, s3)" "P s3"
    using visit_all_same[of "mInequalities c" "accept_exp v" s2] accept_same(2) c s2(2) by (auto simp: conj_all_def)
  from leave_conj[OF s3(2), of c] s1(1) s2(1) s3(1) show ?thesis by (auto simp: accept_conj_def)
qed

lemma accept_sparse_same:
  assumes "\<forall>c \<in> set cs. conj_all Q c" "P s"
  shows "\<exists>s'. accept_sparse v cs s = Inr (cs, s') \<and> P s'"
proof -
  obtain s1 where s1: "preVisitSparseConstraints v cs s = Inr s1" "P s1" using enter_sparse[OF assms(2)] by blast
  obtain s2 where s2: "visit_all (accept_conj v) cs s1 = Inr (cs, s2)" "P s2"
    using visit_all_same[of cs "accept_conj v" s1] accept_conj_same assms(1) s1(2) by blast
  from leave_sparse[OF s2(2)] s1(1) s2(1) show ?thesis by (auto simp: accept_sparse_def)
qed

end

section \<open>The visitor for complexities\<close>

text \<open>What a constraint may do to an entry: find a range for an unknown one, or a smaller one. A variable that is
  projected out stays so.\<close>

definition cost_step :: "int \<Rightarrow> int \<Rightarrow> bool" where
  "cost_step a b \<longleftrightarrow> b = a \<or> a = -1 \<and> 1 \<le> b \<and> b \<le> 3 \<or> 2 \<le> a \<and> 1 \<le> b \<and> b < a"

lemma cost_step_refl [simp]: "cost_step a a"
  by (simp add: cost_step_def)

lemma cost_step_trans: "cost_step a b \<Longrightarrow> cost_step b c \<Longrightarrow> cost_step a c"
  by (auto simp: cost_step_def)

definition costs_step :: "int list \<Rightarrow> int list \<Rightarrow> bool" where
  "costs_step c c' \<longleftrightarrow> alen c' = alen c \<and> (\<forall>i. 0 \<le> i \<longrightarrow> i < alen c \<longrightarrow> cost_step (elt c i) (elt c' i))"

lemma costs_step_refl [simp]: "costs_step c c"
  by (simp add: costs_step_def)

lemma costs_step_trans: "costs_step a b \<Longrightarrow> costs_step b c \<Longrightarrow> costs_step a c"
  by (auto simp: costs_step_def dest: cost_step_trans)

lemma costs_step_wr: "0 \<le> i \<Longrightarrow> i < alen c \<Longrightarrow> cost_step (elt c i) x \<Longrightarrow> \<exists>c'. wr c i x = Inr c' \<and> costs_step c c'"
  by (auto simp: wr_def costs_step_def elt_upd)

definition costs_ok :: "int \<Rightarrow> int list \<Rightarrow> bool" where
  "costs_ok n c \<longleftrightarrow> (\<forall>i. 0 \<le> i \<longrightarrow> i < n \<longrightarrow> -1 \<le> elt c i \<and> elt c i \<le> 3)"

lemma costs_ok_step:
  assumes "costs_step c c'" "costs_ok n c" "n \<le> alen c"
  shows "costs_ok n c'"
  unfolding costs_ok_def
proof (intro allI impI)
  fix i assume i: "0 \<le> i" "i < n"
  then have "cost_step (elt c i) (elt c' i)" "-1 \<le> elt c i \<and> elt c i \<le> 3" using assms by (auto simp: costs_step_def costs_ok_def)
  then show "-1 \<le> elt c' i \<and> elt c' i \<le> 3" unfolding cost_step_def by linarith
qed

text \<open>The two variables of a constraint are in the array.\<close>

definition loc_in :: "int \<Rightarrow> trm option \<Rightarrow> bool" where
  "loc_in n t \<longleftrightarrow> (case t of None \<Rightarrow> True | Some t \<Rightarrow> 0 \<le> loc_of t \<and> loc_of t < n)"

lemma complexity_constraint_step:
  assumes ok: "costs_ok n (complexity s)" and n: "n \<le> alen (complexity s)" and locs: "loc_in n (tv1 s)" "loc_in n (tv2 s)"
  shows "\<exists>c. complexity_constraint et s = Inr c \<and> costs_step (complexity s) c"
proof (cases "tv1 s")
  case None
  then show ?thesis by (simp add: complexity_constraint_def)
next
  case (Some t1)
  let ?c = "complexity s"
  have l1: "0 \<le> loc_of t1" "loc_of t1 < alen ?c" "loc_of t1 < n" using locs(1) n Some by (simp_all add: loc_in_def)
  let ?c1 = "elt ?c (loc_of t1)"
  have r1: "rd ?c (loc_of t1) = Inr ?c1" "-1 \<le> ?c1" "?c1 \<le> 3" using l1 ok by (auto simp: rd_def costs_ok_def)
  have w1: "\<exists>c'. wr ?c (loc_of t1) x = Inr c' \<and> costs_step ?c c'" if "cost_step ?c1 x" for x using costs_step_wr[OF l1(1,2) that] .
  have one1: "\<exists>c'. wr ?c (loc_of t1) 1 = Inr c' \<and> costs_step ?c c'" if "?c1 \<noteq> 0" "?c1 \<noteq> 1"
  proof (rule w1)
    show "cost_step ?c1 1" using that r1 unfolding cost_step_def by linarith
  qed
  have new1: "\<exists>c'. wr ?c (loc_of t1) 2 = Inr c' \<and> costs_step ?c c'" "\<exists>c'. wr ?c (loc_of t1) 3 = Inr c' \<and> costs_step ?c c'"
    if "\<not> - 1 < ?c1" by (rule w1, use that r1 in \<open>simp add: cost_step_def\<close>)+
  show ?thesis
  proof (cases "tv2 s")
    case None
    then show ?thesis
      using Some r1 one1 new1 by (auto simp: complexity_constraint_def complexity_bound_def split: option.splits)
  next
    case t2: (Some t2)
    have l2: "0 \<le> loc_of t2" "loc_of t2 < alen ?c" "loc_of t2 < n" using locs(2) n t2 by (simp_all add: loc_in_def)
    let ?c2 = "elt ?c (loc_of t2)"
    have r2: "rd ?c (loc_of t2) = Inr ?c2" "-1 \<le> ?c2" "?c2 \<le> 3" using l2 ok by (auto simp: rd_def costs_ok_def)
    have w2: "\<exists>c'. wr ?c (loc_of t2) x = Inr c' \<and> costs_step ?c c'" if "cost_step ?c2 x" for x using costs_step_wr[OF l2(1,2) that] .
    have one2: "\<exists>c'. wr ?c (loc_of t2) 1 = Inr c' \<and> costs_step ?c c'" if "?c2 \<noteq> 0" "?c2 \<noteq> 1"
    proof (rule w2)
      show "cost_step ?c2 1" using that r2 unfolding cost_step_def by linarith
    qed
    have less1: "\<exists>c'. wr ?c (loc_of t1) ?c2 = Inr c' \<and> costs_step ?c c'" if "\<not> ?c2 < 2" "?c2 < ?c1"
      by (rule w1) (use that in \<open>simp add: cost_step_def\<close>)
    have less2: "\<exists>c'. wr ?c (loc_of t2) ?c1 = Inr c' \<and> costs_step ?c c'" if "\<not> ?c1 < 2" "?c1 < ?c2"
      by (rule w2) (use that in \<open>simp add: cost_step_def\<close>)
    show ?thesis
      using Some t2 r1 r2 one1 one2 less1 less2
      by (cases "et = Equality") (simp_all add: complexity_constraint_def complexity_eq_def complexity_less_def)
  qed
qed

definition cost_state :: "int \<Rightarrow> int list \<Rightarrow> complexity_state \<Rightarrow> bool" where
  "cost_state n c0 s \<longleftrightarrow> n \<le> alen (complexity s) \<and> costs_ok n (complexity s) \<and> costs_step c0 (complexity s) \<and>
     loc_in n (tv1 s) \<and> loc_in n (tv2 s)"

lemma cost_hooks:
  "preVisitTupleVarTerm VisitorCalculateComplexity t s = Inr (t, if nestedness s \<noteq> 0 then s
       else if tv1 s = None then s\<lparr>tv1 := Some t\<rparr> else if tv2 s = None then s\<lparr>tv2 := Some t\<rparr> else s)"
  "preVisitTerm VisitorCalculateComplexity t s = Inr s"
  "preVisitVarTerm VisitorCalculateComplexity t s = Inr (if nestedness s \<noteq> 0 then s else s\<lparr>varUB := Some t\<rparr>)"
  "preVisitUFCallTerm VisitorCalculateComplexity t s = Inr s"
  "postVisitUFCallTerm VisitorCalculateComplexity t s = Inr (t, if nestedness s \<noteq> 0 then s else s\<lparr>ufcUB := Some t\<rparr>)"
  "preVisitExp VisitorCalculateComplexity e s = Inr (if mExpType e = Expression then s\<lparr>nestedness := nestedness s + 1\<rparr>
       else s\<lparr>nestedness := 0, tv1 := None, tv2 := None, ufcUB := None, varUB := None\<rparr>)"
  "postVisitExp VisitorCalculateComplexity e s = (if mExpType e = Expression then Inr (s\<lparr>nestedness := nestedness s - 1\<rparr>)
       else bind_result (complexity_constraint (mExpType e) s) (\<lambda>c. Inr (s\<lparr>complexity := c\<rparr>)))"
  "preVisitConjunction VisitorCalculateComplexity d s = Inr s" "postVisitConjunction VisitorCalculateComplexity d s = Inr (d, s)"
  "preVisitSparseConstraints VisitorCalculateComplexity cs s = Inr s" "postVisitSparseConstraints VisitorCalculateComplexity cs s = Inr s"
  by (simp_all add: VisitorCalculateComplexity_def base_Visitor_def)

interpretation cost_visit: invariant_visit VisitorCalculateComplexity "cost_state n c0" "tvars_within {0..<n}" for n c0
proof unfold_locales
  fix c f args i a assume "tvars_within {0..<n} (UFCallTerm c f args i)" "a \<in> set args"
  then show "list_all (tvars_within {0..<n}) (mTerms a)" by (simp add: tvars_within.P_call)
next
  fix c l s assume "tvars_within {0..<n} (TupleVarTerm c l)" "cost_state n c0 s"
  then show "\<exists>s'. preVisitTupleVarTerm VisitorCalculateComplexity (TupleVarTerm c l) s = Inr (TupleVarTerm c l, s') \<and> cost_state n c0 s'"
    by (auto simp: cost_hooks cost_state_def loc_in_def loc_of_def tvars_within_def)
next
  fix e s assume "cost_state n c0 s"
  then have s: "n \<le> alen (complexity s)" "costs_ok n (complexity s)" "costs_step c0 (complexity s)" "loc_in n (tv1 s)" "loc_in n (tv2 s)"
    by (simp_all add: cost_state_def)
  obtain c where c: "complexity_constraint (mExpType e) s = Inr c" "costs_step (complexity s) c"
    using complexity_constraint_step[OF s(2,1,4,5)] by blast
  have "cost_state n c0 (s\<lparr>complexity := c\<rparr>)"
    using s costs_ok_step[OF c(2) s(2,1)] costs_step_trans[OF s(3) c(2)] c(2) by (simp add: cost_state_def costs_step_def)
  then show "\<exists>s'. postVisitExp VisitorCalculateComplexity e s = Inr s' \<and> cost_state n c0 s'"
    using c(1) s by (simp add: cost_hooks cost_state_def)
qed (auto simp: cost_hooks cost_state_def loc_in_def)

lemma calculate_complexities_step:
  assumes "\<forall>c \<in> set cs. conj_tvars c \<subseteq> {0..<n}" "n \<le> alen c0" "costs_ok n c0"
  shows "\<exists>c. calculate_complexities cs c0 = Inr c \<and> costs_step c0 c \<and> costs_ok n c"
proof -
  let ?s = "\<lparr>complexity = c0, tv1 = None, tv2 = None, ufcUB = None, varUB = None, nestedness = 0\<rparr>"
  have all: "\<forall>c \<in> set cs. conj_all (tvars_within {0..<n}) c" using assms(1) by (simp add: conj_tvars_all)
  have "cost_state n c0 ?s" using assms(2,3) by (simp add: cost_state_def loc_in_def)
  then obtain s1 where s1: "accept_sparse VisitorCalculateComplexity cs ?s = Inr (cs, s1)" "cost_state n c0 s1"
    using cost_visit.accept_sparse_same[OF all] by blast
  then obtain s2 where "accept_sparse VisitorCalculateComplexity cs s1 = Inr (cs, s2)" "cost_state n c0 s2"
    using cost_visit.accept_sparse_same[OF all] by blast
  with s1(1) show ?thesis by (auto simp: calculate_complexities_def cost_state_def)
qed

section \<open>Properties\<close>

lemma initial_complexities_facts:
  assumes "sparse_kinds cs"
  obtains c where "initial_complexities cs arity junk tvs = Inr (c @ [junk])" "length c = arity"
    "\<forall>i < arity. c ! i = (if int i \<notin> set tvs \<and> isUFCallParam cs (int i) = Inr False then 0 else -1)"
proof -
  let ?f = "\<lambda>i. if int i \<notin> set tvs \<and> isUFCallParam cs (int i) = Inr False then 0 else (-1::int)"
  have "map_result (\<lambda>i. if int i \<in> set tvs then Inr (-1)
         else bind_result (isUFCallParam cs (int i)) (\<lambda>param. Inr (if param then -1 else 0))) [0..<arity] = Inr (map ?f [0..<arity])"
  proof (rule map_result_pure)
    fix i
    obtain r where "isUFCallParam cs (int i) = Inr r" by (rule isUFCallParam_found[OF assms, of "int i"])
    then show "(if int i \<in> set tvs then Inr (-1)
         else bind_result (isUFCallParam cs (int i)) (\<lambda>param. Inr (if param then -1 else 0))) = Inr (?f i)" by simp
  qed
  then show thesis by (intro that[of "map ?f [0..<arity]"]) (simp_all add: initial_complexities_def)
qed

text \<open>C39: For a set of one conjunction of constraints of their kinds that mentions variables of its tuple only, the
  complexity is computed without a read or write outside of the array of ranges: the text is that of ranges between -1 and
  3 in which exactly the variables count as projected out that are neither to be kept nor found in a call, whatever the
  constraints are.\<close>

theorem complexityForPartialParallel_correct:
  assumes "sparse_kinds [c]" "conj_tvars c \<subseteq> {0..<int arity}"
  shows "\<exists>cs. complexityForPartialParallel [c] arity junk tvs = Inr (calculateComplexityStr cs arity) \<and>
    (\<forall>i < arity. -1 \<le> cs ! i \<and> cs ! i \<le> 3 \<and> (cs ! i = 0 \<longleftrightarrow> int i \<notin> set tvs \<and> isUFCallParam [c] (int i) = Inr False))"
proof -
  obtain c0 where c0: "initial_complexities [c] arity junk tvs = Inr (c0 @ [junk])" "length c0 = arity"
    "\<forall>i < arity. c0 ! i = (if int i \<notin> set tvs \<and> isUFCallParam [c] (int i) = Inr False then 0 else -1)"
    by (rule initial_complexities_facts[OF assms(1)])
  have elt0: "elt (c0 @ [junk]) (int i) = c0 ! i" if "i < arity" for i using that c0(2) by (simp add: elt_def nth_append)
  have "costs_ok (int arity) (c0 @ [junk])" unfolding costs_ok_def
  proof (intro allI impI)
    fix i assume i: "0 \<le> i" "i < int arity"
    then have "elt (c0 @ [junk]) i = c0 ! nat i" using elt0[of "nat i"] by (simp add: nat_less_iff)
    then show "-1 \<le> elt (c0 @ [junk]) i \<and> elt (c0 @ [junk]) i \<le> 3" using c0(3) i by (simp add: nat_less_iff)
  qed
  moreover have "int arity \<le> alen (c0 @ [junk])" using c0(2) by (simp add: alen_def)
  ultimately obtain cs where cs: "calculate_complexities [c] (c0 @ [junk]) = Inr cs" "costs_step (c0 @ [junk]) cs" "costs_ok (int arity) cs"
    using calculate_complexities_step[of "[c]" "int arity" "c0 @ [junk]"] assms(2) by auto
  have "-1 \<le> cs ! i \<and> cs ! i \<le> 3 \<and> (cs ! i = 0 \<longleftrightarrow> int i \<notin> set tvs \<and> isUFCallParam [c] (int i) = Inr False)" if i: "i < arity" for i
  proof -
    have "cost_step (elt (c0 @ [junk]) (int i)) (elt cs (int i))"
      using cs(2) i c0(2) unfolding costs_step_def by (simp add: alen_def)
    then have "cost_step (c0 ! i) (cs ! i)" unfolding elt0[OF i] by (simp add: elt_def)
    moreover have "-1 \<le> elt cs (int i) \<and> elt cs (int i) \<le> 3" using cs(3) i unfolding costs_ok_def by simp
    then have "-1 \<le> cs ! i \<and> cs ! i \<le> 3" by (simp add: elt_def)
    ultimately show ?thesis using c0(3) i by (auto simp: cost_step_def split: if_splits)
  qed
  moreover have "complexityForPartialParallel [c] arity junk tvs = Inr (calculateComplexityStr cs arity)"
    using c0(1) cs(1) by (simp add: complexityForPartialParallel_def)
  ultimately show ?thesis by blast
qed

text \<open>An example: \<open>{[i, k, x] : i = col(k) \<and> 0 <= i < n \<and> ptr(i) <= k < ptr(i + 1)}\<close> where \<open>i\<close> is kept.\<close>

definition complexity_conj :: conjunction where
  "complexity_conj = (Conjunction_new 3 0)\<lparr>
     mEqualities := [Exp [TupleVarTerm 1 0, UFCallTerm (-1) ''col'' [Exp [TupleVarTerm 1 1] Expression] (-1)] Equality],
     mInequalities := [Exp [TupleVarTerm (-1) 0, VarTerm 1 ''n'', Term (-1)] Inequality, Exp [TupleVarTerm 1 0] Inequality,
       Exp [TupleVarTerm (-1) 1, UFCallTerm 1 ''ptr'' [Exp [TupleVarTerm 1 0, Term 1] Expression] (-1), Term (-1)] Inequality]\<rparr>"

theorem complexityForPartialParallel_correct_witness:
  "\<exists>cs. complexityForPartialParallel [complexity_conj] 3 7 [0] = Inr (calculateComplexityStr cs 3) \<and> cs ! 2 = 0 \<and> cs ! 1 \<noteq> 0"
proof -
  have "sparse_kinds [complexity_conj]" "conj_tvars complexity_conj \<subseteq> {0..<int 3}" by code_simp+
  moreover have "isUFCallParam [complexity_conj] (int 2) = Inr False" "isUFCallParam [complexity_conj] (int 1) \<noteq> Inr False" by code_simp+
  ultimately show ?thesis using complexityForPartialParallel_correct[of complexity_conj 3 7 "[0]"] by force
qed

lemma complexity_conj_text: "complexityForPartialParallel [complexity_conj] 3 7 [0] = Inr ''O(nnz^1/n^1)''"
  by code_simp

text \<open>Of two variables that are equal the first loses its loop, also when its range is the smaller one; a variable
  without a known range counts as one that others determine; and some texts are in no table of the driver.\<close>

lemma complexity_eq_keeps_larger: "complexity_eq [2, 3] 0 1 = Inr [1, 3]"
  by code_simp

lemma complexity_unknown_range: "calculateComplexityStr [-1, -1] 2 = calculateComplexityStr [0, 1] 2"
  by code_simp

lemma complexity_not_in_table: "calculateComplexityStr [2] 1 = ''O(nnz^1/n^1)''" "getPrettyComplexity ''O(nnz^1/n^1)'' = ''NaN''"
  "calculateComplexityStr [1] 1 = ''O(n^0)''" "getPrettyComplexity ''O(n^0)'' = ''NaN''"
  by code_simp+

end
