(* ===== verification/Set_Relationship.thy ===== *)
theory Set_Relationship
  imports Driver
begin

text \<open>
  Comparing sets and relations as sets of points (\<open>setRelationship.cc\<close>): which of two conjunctions has all the
  constraints of the other, and the same for normalized sets and relations.
\<close>

section \<open>Conjunctions\<close>

datatype set_relationship = SetEqual | SubSetEqual | SubSet | SuperSet | SuperSetEqual | UnKnown | UnSatSet

definition exp_set :: "exp list \<Rightarrow> exp list" where
  "exp_set es = foldl (\<lambda>s e. insert_unique exp_less e s) [] es"

text \<open>A constraint of the candidate for the superset is taken from those of the other or collected.\<close>

definition match_constraint :: "exp list \<times> exp list \<Rightarrow> exp \<Rightarrow> exp list \<times> exp list" where
  "match_constraint = (\<lambda>(sup_set, sub_set) e.
     if list_ex (incomparable exp_less e) sub_set
     then (sup_set, filter (\<lambda>x. \<not> incomparable exp_less e x) sub_set)
     else (insert_unique exp_less e sup_set, sub_set))"

definition unmatched :: "exp list \<Rightarrow> exp list \<Rightarrow> exp list" where
  "unmatched sup_list sub_list = fst (foldl match_constraint ([], exp_set sub_list) sup_list)"

definition conj_setRelationship :: "conjunction \<Rightarrow> conjunction \<Rightarrow> set_relationship" where
  "conj_setRelationship c right_side =
     (let lConstC = length (mEqualities c) + length (mInequalities c);
          rConstC = length (mEqualities right_side) + length (mInequalities right_side);
          (supSetCand, subSetCand) = (if lConstC \<le> rConstC then (c, right_side) else (right_side, c));
          supSetEq = unmatched (mEqualities supSetCand) (mEqualities subSetCand);
          supSetInEq = unmatched (mInequalities supSetCand) (mInequalities subSetCand);
          answer = (if lConstC \<le> rConstC then SuperSetEqual else SubSetEqual)
      in if supSetEq = [] \<and> supSetInEq = [] then answer
         else
           let isSupSet = (length supSetEq = 1 \<and> supSetInEq = [])
           in if isSupSet then answer else UnKnown)"

section \<open>Sets and relations\<close>

definition islUnSat :: "string \<Rightarrow> bool result" where
  "islUnSat s = bind_result (getPartsFromStr s) (\<lambda>parts. Inr (trim (constraints parts) = ''FALSE''))"

definition first_conj :: "sparse \<Rightarrow> conjunction result" where
  "first_conj cs = (case cs of [] \<Rightarrow> Inl (Undefined ''begin of an empty list'') | c # _ \<Rightarrow> Inr c)"

definition either_unsat :: "string result \<Rightarrow> string result \<Rightarrow> bool result" where
  "either_unsat l r = bind_result (bind_result l islUnSat) (\<lambda>u.
     if u then Inr True else bind_result r islUnSat)"

definition Set_setRelationship ::
  "(set_object \<Rightarrow> set_object result) \<Rightarrow> (string \<Rightarrow> string) \<Rightarrow> set_object environment \<Rightarrow> set_object \<Rightarrow> set_object \<Rightarrow>
     set_relationship result" where
  "Set_setRelationship thru_isl qinv env s right_side =
     bind_result (bind_result (Set_copy qinv s) (\<lambda>ls. Set_normalize thru_isl qinv env ls False)) (\<lambda>ls.
     bind_result (bind_result (Set_copy qinv right_side) (\<lambda>rs. Set_normalize thru_isl qinv env rs False)) (\<lambda>rs.
     bind_result (either_unsat (Set_getString ls) (Set_getString rs)) (\<lambda>none.
       if none then Inr UnSatSet
       else bind_result (Set_eq qinv ls rs) (\<lambda>eq.
         if eq then Inr SetEqual
         else
           bind_result (first_conj (mConjunctions ls)) (\<lambda>lside.
           bind_result (first_conj (mConjunctions rs)) (\<lambda>rside.
             let ret = conj_setRelationship lside rside
             in Inr (if ret = UnKnown then conj_setRelationship lside rside else ret)))))))"

text \<open>For relations the first look is at the conjunctions before they are normalized.\<close>

definition Relation_setRelationship ::
  "(relation_object \<Rightarrow> relation_object result) \<Rightarrow> (string \<Rightarrow> string) \<Rightarrow> set_object environment \<Rightarrow> relation_object \<Rightarrow> relation_object \<Rightarrow>
     set_relationship result" where
  "Relation_setRelationship thru_isl qinv env r right_side =
     bind_result (bind_result (Relation_copy qinv r) (\<lambda>ls. Relation_normalize thru_isl qinv env ls False)) (\<lambda>ls.
     bind_result (bind_result (Relation_copy qinv right_side) (\<lambda>rs. Relation_normalize thru_isl qinv env rs False)) (\<lambda>rs.
     bind_result (either_unsat (Relation_getString ls) (Relation_getString rs)) (\<lambda>none.
       if none then Inr UnSatSet
       else bind_result (Relation_eq qinv ls rs) (\<lambda>eq.
         if eq then Inr SetEqual
         else
           bind_result (first_conj (rConjunctions r)) (\<lambda>lside.
           bind_result (first_conj (rConjunctions right_side)) (\<lambda>rside.
             let ret = conj_setRelationship lside rside
             in if ret = UnKnown then
                  bind_result (first_conj (rConjunctions ls)) (\<lambda>lside.
                  bind_result (first_conj (rConjunctions rs)) (\<lambda>rside. Inr (conj_setRelationship lside rside)))
                else Inr ret))))))"

section \<open>Bounds of a variable\<close>

record bounds_state =
  tvb_nest :: int
  tvb_exps :: "exp list"
  tvb_found :: bool

definition VisitorGetTVBounds :: "int \<Rightarrow> bounds_state visitor" where
  "VisitorGetTVBounds loc = base_Visitor\<lparr>
     preVisitUFCallTerm := \<lambda>t s. Inr (s\<lparr>tvb_nest := tvb_nest s + 1\<rparr>),
     postVisitUFCallTerm := \<lambda>t s. Inr (t, s\<lparr>tvb_nest := tvb_nest s - 1\<rparr>),
     preVisitTupleVarTerm := \<lambda>t s. Inr (t, if tvb_nest s = 0 \<and> (case t of TupleVarTerm c l \<Rightarrow> l = loc | _ \<Rightarrow> False)
       then s\<lparr>tvb_found := True\<rparr> else s),
     preVisitExp := \<lambda>e s. Inr (if tvb_nest s = 0 then s\<lparr>tvb_found := False\<rparr> else s),
     postVisitExp := \<lambda>e s. Inr (if tvb_nest s = 0 \<and> tvb_found s then s\<lparr>tvb_exps := tvb_exps s @ [e]\<rparr> else s)\<rparr>"

section \<open>What an answer says\<close>

lemma exp_set_keys: "key_of_exp ` set (exp_set es) = key_of_exp ` set es"
proof -
  have "key_of_exp ` set (foldl (\<lambda>s e. insert_unique exp_less e s) s es) = key_of_exp ` set s \<union> key_of_exp ` set es" for s
    by (induction es arbitrary: s) (simp_all add: exp_order.keys_insert_unique)
  then show ?thesis by (simp add: exp_set_def)
qed

lemma unmatched_keys:
  assumes "unmatched sup_list sub_list = []"
  shows "key_of_exp ` set sup_list \<subseteq> key_of_exp ` set sub_list"
proof -
  have step: "fst (match_constraint st e) = [] \<Longrightarrow> fst st = [] \<and> key_of_exp e \<in> key_of_exp ` set (snd st) \<and> set (snd (match_constraint st e)) \<subseteq> set (snd st)"
    for st e
  proof (cases st)
    case (Pair a b)
    have "insert_unique exp_less e a \<noteq> []" by (cases a) simp_all
    then show "fst (match_constraint st e) = [] \<Longrightarrow> ?thesis"
      using Pair by (auto simp: match_constraint_def list_ex_iff exp_order.incomparable_key split: if_splits)
  qed
  have "fst (foldl match_constraint st es) = [] \<Longrightarrow> key_of_exp ` set es \<subseteq> key_of_exp ` set (snd st) \<and> fst st = []" for st es
  proof (induction es arbitrary: st)
    case (Cons e es)
    then have IH: "key_of_exp ` set es \<subseteq> key_of_exp ` set (snd (match_constraint st e))" "fst (match_constraint st e) = []" by simp_all
    from step[OF IH(2)] IH(1) show ?case by auto
  qed simp
  from this[of "([], exp_set sub_list)" sup_list] assms show ?thesis by (simp add: unmatched_def exp_set_keys)
qed

lemma constraints_superset:
  assumes wf: "conj_wf c" "conj_wf d" and td: "mTupleDecl c = mTupleDecl d"
    and none: "unmatched (mEqualities c) (mEqualities d) = []" "unmatched (mInequalities c) (mInequalities d) = []"
    and holds: "conj_holds I d"
  shows "conj_holds I c"
proof -
  have eq: "holds_eq I e" if e: "e \<in> set (mEqualities c)" for e
  proof -
    obtain e' where "e' \<in> set (mEqualities d)" "key_of_exp e' = key_of_exp e" using unmatched_keys[OF none(1)] e by (metis image_iff subsetD imageI)
    with key_of_exp_eval[of e' e I] wf e holds show ?thesis by (auto simp: conj_wf_def conj_holds_def holds_eq_def)
  qed
  have "holds_ineq I e" if e: "e \<in> set (mInequalities c)" for e
  proof -
    obtain e' where "e' \<in> set (mInequalities d)" "key_of_exp e' = key_of_exp e" using unmatched_keys[OF none(2)] e by (metis image_iff subsetD imageI)
    with key_of_exp_eval[of e' e I] wf e holds show ?thesis by (auto simp: conj_wf_def conj_holds_def holds_ineq_def)
  qed
  with eq holds td show ?thesis by (simp add: conj_holds_def)
qed

text \<open>The case in which the answer is not justified: all but one equality of the candidate are in the other conjunction.\<close>

definition one_equality_left :: "conjunction \<Rightarrow> conjunction \<Rightarrow> bool" where
  "one_equality_left c d \<longleftrightarrow> length (unmatched (mEqualities c) (mEqualities d)) = 1 \<and> unmatched (mInequalities c) (mInequalities d) = []"

text \<open>C40: The relationship of two conjunctions of well-formed constraints over the same variables is one of three
  answers, and unless all constraints but one equality are found, \<open>SuperSetEqual\<close> and
  \<open>SubSetEqual\<close> mean what they say: no point of the one conjunction is missing in the other.\<close>

theorem conj_setRelationship_correct:
  assumes "conj_wf c" "conj_wf d" "mTupleDecl c = mTupleDecl d" "\<not> one_equality_left c d" "\<not> one_equality_left d c"
  shows "case conj_setRelationship c d of
      SuperSetEqual \<Rightarrow> \<forall>I. conj_holds I d \<longrightarrow> conj_holds I c
    | SubSetEqual \<Rightarrow> \<forall>I. conj_holds I c \<longrightarrow> conj_holds I d
    | UnKnown \<Rightarrow> True
    | _ \<Rightarrow> False"
  using constraints_superset[OF assms(1-3)] constraints_superset[OF assms(2,1) assms(3)[symmetric]] assms(4,5)
  by (auto simp: conj_setRelationship_def one_equality_left_def Let_def)

definition within_10 :: conjunction where
  "within_10 = (Conjunction_new 1 0)\<lparr>mInequalities := [Exp [TupleVarTerm (-1) 0, Term 10] Inequality, Exp [TupleVarTerm 1 0] Inequality]\<rparr>"

definition not_negative :: conjunction where
  "not_negative = (Conjunction_new 1 0)\<lparr>mInequalities := [Exp [TupleVarTerm 1 0] Inequality]\<rparr>"

theorem conj_setRelationship_correct_witness: "Collect (\<lambda>I. conj_holds I within_10) \<subseteq> Collect (\<lambda>I. conj_holds I not_negative)"
proof -
  have "conj_wf not_negative" "conj_wf within_10" "mTupleDecl not_negative = mTupleDecl within_10"
    "\<not> one_equality_left not_negative within_10" "\<not> one_equality_left within_10 not_negative" by code_simp+
  moreover have "conj_setRelationship not_negative within_10 = SuperSetEqual" by code_simp
  ultimately show ?thesis using conj_setRelationship_correct[of not_negative within_10] by auto
qed

text \<open>A single equality that is not found makes a conjunction a superset, whatever it says.\<close>

lemma conj_setRelationship_unsound:
  "\<exists>c d I. conj_setRelationship c d = SuperSetEqual \<and> conj_holds I d \<and> \<not> conj_holds I c"
proof -
  let ?c = "(Conjunction_new 1 0)\<lparr>mEqualities := [Exp [TupleVarTerm 1 0] Equality]\<rparr>"
  let ?I = "\<lparr>tv = \<lambda>l. 5, sym = \<lambda>x. 0, uf = \<lambda>f i as. 0\<rparr>"
  have "conj_setRelationship ?c not_negative = SuperSetEqual" "conj_holds ?I not_negative" "\<not> conj_holds ?I ?c" by code_simp+
  then show ?thesis by blast
qed

section \<open>The bounds of a variable\<close>

text \<open>The visitor collects the constraints in which the variable occurs outside of calls.\<close>

definition mentions :: "int \<Rightarrow> exp \<Rightarrow> bool" where
  "mentions loc e \<longleftrightarrow> (\<exists>c. TupleVarTerm c loc \<in> set (mTerms e))"

definition is_var :: "int \<Rightarrow> trm \<Rightarrow> bool" where
  "is_var loc t \<longleftrightarrow> (case t of TupleVarTerm c l \<Rightarrow> l = loc | _ \<Rightarrow> False)"

lemma bounds_hooks:
  "preVisitTerm (VisitorGetTVBounds loc) t s = Inr s" "preVisitVarTerm (VisitorGetTVBounds loc) t s = Inr s"
  "preVisitTupleVarTerm (VisitorGetTVBounds loc) t s = Inr (t, if tvb_nest s = 0 \<and> is_var loc t then s\<lparr>tvb_found := True\<rparr> else s)"
  "preVisitUFCallTerm (VisitorGetTVBounds loc) t s = Inr (s\<lparr>tvb_nest := tvb_nest s + 1\<rparr>)"
  "postVisitUFCallTerm (VisitorGetTVBounds loc) t s = Inr (t, s\<lparr>tvb_nest := tvb_nest s - 1\<rparr>)"
  "preVisitExp (VisitorGetTVBounds loc) e s = Inr (if tvb_nest s = 0 then s\<lparr>tvb_found := False\<rparr> else s)"
  "postVisitExp (VisitorGetTVBounds loc) e s = Inr (if tvb_nest s = 0 \<and> tvb_found s then s\<lparr>tvb_exps := tvb_exps s @ [e]\<rparr> else s)"
  "preVisitConjunction (VisitorGetTVBounds loc) d s = Inr s" "postVisitConjunction (VisitorGetTVBounds loc) d s = Inr (d, s)"
  by (simp_all add: VisitorGetTVBounds_def base_Visitor_def is_var_def)

lemma bounds_visit:
  "tvb_nest s \<ge> 0 \<Longrightarrow> accept_trm (VisitorGetTVBounds loc) t s =
     Inr (t, if tvb_nest s = 0 \<and> is_var loc t then s\<lparr>tvb_found := True\<rparr> else s)"
  "tvb_nest s > 0 \<Longrightarrow> accept_exp (VisitorGetTVBounds loc) e s = Inr (e, s)"
proof (induction t and e arbitrary: s and s rule: trm.induct exp.induct)
  case (UFCallTerm c f args i)
  let ?s = "s\<lparr>tvb_nest := tvb_nest s + 1\<rparr>"
  have "visit_all (accept_exp (VisitorGetTVBounds loc)) args ?s = Inr (map (\<lambda>a. a) args, ?s)"
    by (rule visit_all_map) (use UFCallTerm in simp)
  then show ?case by (simp add: bounds_hooks is_var_def)
next
  case (Exp ts et)
  have "visit_all (accept_trm (VisitorGetTVBounds loc)) ts s = Inr (map (\<lambda>a. a) ts, s)"
    by (rule visit_all_map) (use Exp in simp)
  then show ?case using Exp.prems by (simp add: bounds_hooks)
qed (simp_all add: bounds_hooks is_var_def)

lemma bounds_exp:
  assumes "tvb_nest s = 0"
  obtains b where "accept_exp (VisitorGetTVBounds loc) e s =
    Inr (e, s\<lparr>tvb_exps := tvb_exps s @ (if mentions loc e then [e] else []), tvb_found := b\<rparr>)"
proof -
  obtain ts et where e: "e = Exp ts et" by (cases e)
  have "visit_all (accept_trm (VisitorGetTVBounds loc)) ts s = Inr (ts, if list_ex (is_var loc) ts then s\<lparr>tvb_found := True\<rparr> else s)"
    if "tvb_nest s = 0" for s
    using that by (induction ts arbitrary: s) (simp_all add: bounds_visit(1))
  from this[of "s\<lparr>tvb_found := False\<rparr>"] assms
  have "accept_exp (VisitorGetTVBounds loc) e s =
      Inr (e, if list_ex (is_var loc) ts then s\<lparr>tvb_exps := tvb_exps s @ [e], tvb_found := True\<rparr> else s\<lparr>tvb_found := False\<rparr>)"
    by (simp add: e bounds_hooks)
  moreover have "is_var loc t \<longleftrightarrow> (\<exists>c. t = TupleVarTerm c loc)" for t by (cases t) (auto simp: is_var_def)
  then have "list_ex (is_var loc) ts \<longleftrightarrow> mentions loc e" by (auto simp: e mentions_def list_ex_iff)
  ultimately show thesis
    by (cases "mentions loc e") (auto intro: that[of True] that[of False])
qed

lemma bounds_exps:
  "tvb_nest s = 0 \<Longrightarrow> \<exists>b. visit_all (accept_exp (VisitorGetTVBounds loc)) es s =
    Inr (es, s\<lparr>tvb_exps := tvb_exps s @ filter (mentions loc) es, tvb_found := b\<rparr>)"
proof (induction es arbitrary: s)
  case Nil
  have "s = s\<lparr>tvb_exps := tvb_exps s @ [], tvb_found := tvb_found s\<rparr>" by simp
  then show ?case by (auto intro: exI[of _ "tvb_found s"])
next
  case (Cons e es)
  obtain b where b: "accept_exp (VisitorGetTVBounds loc) e s =
      Inr (e, s\<lparr>tvb_exps := tvb_exps s @ (if mentions loc e then [e] else []), tvb_found := b\<rparr>)" by (rule bounds_exp[OF Cons.prems])
  from Cons.IH[of "s\<lparr>tvb_exps := tvb_exps s @ (if mentions loc e then [e] else []), tvb_found := b\<rparr>"] Cons.prems b
  show ?case by (cases "mentions loc e") auto
qed

lemma getTVBounds_collects:
  "\<exists>b. accept_conj (VisitorGetTVBounds loc) c \<lparr>tvb_nest = 0, tvb_exps = [], tvb_found = False\<rparr> =
    Inr (c, \<lparr>tvb_nest = 0, tvb_exps = filter (mentions loc) (mEqualities c @ mInequalities c), tvb_found = b\<rparr>)"
proof -
  obtain b where b: "visit_all (accept_exp (VisitorGetTVBounds loc)) (mEqualities c) \<lparr>tvb_nest = 0, tvb_exps = [], tvb_found = False\<rparr> =
      Inr (mEqualities c, \<lparr>tvb_nest = 0, tvb_exps = filter (mentions loc) (mEqualities c), tvb_found = b\<rparr>)"
    using bounds_exps[of "\<lparr>tvb_nest = 0, tvb_exps = [], tvb_found = False\<rparr>" loc "mEqualities c"] by auto
  from bounds_exps[of "\<lparr>tvb_nest = 0, tvb_exps = filter (mentions loc) (mEqualities c), tvb_found = b\<rparr>" loc "mInequalities c"] b
  show ?thesis by (auto simp: accept_conj_def bounds_hooks)
qed

end
