(* ===== verification/Graph.thy ===== *)
theory Graph
  imports Std_Map C_Arrays
begin

text \<open>
  The graph template of the compiler CHiLL (\<open>chill/include/chill/graph.hh\<close>): vertices are numbered, the edges that leave
  a vertex are a map from the number of the other end to the list of edges. The two topological sorts are modelled with
  the stack, the colors and the counters of the code.
\<close>

section \<open>The graph\<close>

type_synonym 'e edge_list = "(int, 'e list) std_map"

record ('v, 'e) graph =
  vertex :: "('v \<times> 'e edge_list) list"
  directed :: bool

definition Graph :: "bool \<Rightarrow> ('v, 'e) graph" where
  "Graph directed_arg = \<lparr>vertex = [], directed = directed_arg\<rparr>"

text \<open>The class \<open>Empty\<close> of vertices without a label: no two are equal.\<close>

definition empty_eq :: "unit \<Rightarrow> unit \<Rightarrow> bool" where
  "empty_eq a b = False"

definition vertexCount :: "('v, 'e, 'm) graph_scheme \<Rightarrow> int" where
  "vertexCount g = alen (vertex g)"

definition out_edges :: "('v, 'e, 'm) graph_scheme \<Rightarrow> int \<Rightarrow> 'e edge_list" where
  "out_edges g v = snd (elt (vertex g) v)"

definition edgeCount :: "('v, 'e, 'm) graph_scheme \<Rightarrow> int" where
  "edgeCount g =
     (let result = sum_list (map (\<lambda>(v, es). sum_list (map (\<lambda>(j, e). int (length e)) es)) (vertex g))
      in if \<not> directed g then c_div result 2 else result)"

definition graph_isEmpty :: "('v, 'e, 'm) graph_scheme \<Rightarrow> bool" where
  "graph_isEmpty g \<longleftrightarrow> vertexCount g = 0"

definition isDirected :: "('v, 'e, 'm) graph_scheme \<Rightarrow> bool" where
  "isDirected g = directed g"

text \<open>\<open>insert\<close> returns the number of an equal vertex that is there already.\<close>

fun find_vertex :: "('v \<Rightarrow> 'v \<Rightarrow> bool) \<Rightarrow> 'v \<Rightarrow> ('v \<times> 'e edge_list) list \<Rightarrow> int \<Rightarrow> int option" where
  "find_vertex eq v [] i = None"
| "find_vertex eq v (q # vs) i = (if eq (fst q) v then Some i else find_vertex eq v vs (i + 1))"

definition graph_insert :: "('v \<Rightarrow> 'v \<Rightarrow> bool) \<Rightarrow> ('v, 'e, 'm) graph_scheme \<Rightarrow> 'v \<Rightarrow> ('v, 'e, 'm) graph_scheme \<times> int" where
  "graph_insert eq g v = (case find_vertex eq v (vertex g) 0 of
     Some i \<Rightarrow> (g, i)
   | None \<Rightarrow> (g\<lparr>vertex := vertex g @ [(v, [])]\<rparr>, vertexCount g))"

text \<open>\<open>second[k]\<close> with its empty default, and edges added behind the others between the same vertices.\<close>

definition edges_to :: "int \<Rightarrow> 'e edge_list \<Rightarrow> 'e list" where
  "edges_to k es = (case std_find (<) k es of Some e \<Rightarrow> e | None \<Rightarrow> [])"

definition push_edges :: "('v, 'e, 'm) graph_scheme \<Rightarrow> int \<Rightarrow> int \<Rightarrow> 'e list \<Rightarrow> ('v, 'e, 'm) graph_scheme" where
  "push_edges g v1 v2 e = g\<lparr>vertex := upd (vertex g) v1
     (fst (elt (vertex g) v1), std_assign (<) v2 (edges_to v2 (out_edges g v1) @ e) (out_edges g v1))\<rparr>"

definition in_graph :: "('v, 'e, 'm) graph_scheme \<Rightarrow> int \<Rightarrow> bool" where
  "in_graph g v \<longleftrightarrow> 0 \<le> v \<and> v < vertexCount g"

definition connect :: "('v, 'e, 'm) graph_scheme \<Rightarrow> int \<Rightarrow> int \<Rightarrow> 'e \<Rightarrow> ('v, 'e, 'm) graph_scheme result" where
  "connect g v1 v2 e =
     (if \<not> (in_graph g v1 \<and> in_graph g v2) then Inl (Assertion ''v1 < vertex.size() && v2 < vertex.size()'')
      else
        let g1 = push_edges g v1 v2 [e]
        in Inr (if \<not> directed g then push_edges g1 v2 v1 [e] else g1))"

definition connect_all :: "('v, 'e, 'm) graph_scheme \<Rightarrow> int \<Rightarrow> int \<Rightarrow> 'e list \<Rightarrow> ('v, 'e, 'm) graph_scheme result" where
  "connect_all g v1 v2 e =
     (if \<not> (in_graph g v1 \<and> in_graph g v2) then Inl (Assertion ''v1 < vertex.size() && v2 < vertex.size()'')
      else if e = [] then Inr g
      else
        let g1 = push_edges g v1 v2 e
        in Inr (if \<not> directed g then push_edges g1 v2 v1 e else g1))"

definition erase_edges :: "('v, 'e, 'm) graph_scheme \<Rightarrow> int \<Rightarrow> int \<Rightarrow> ('v, 'e, 'm) graph_scheme" where
  "erase_edges g v1 v2 = g\<lparr>vertex := upd (vertex g) v1
     (fst (elt (vertex g) v1), filter (\<lambda>q. \<not> incomparable (<) v2 (fst q)) (out_edges g v1))\<rparr>"

definition disconnect :: "('v, 'e, 'm) graph_scheme \<Rightarrow> int \<Rightarrow> int \<Rightarrow> ('v, 'e, 'm) graph_scheme result" where
  "disconnect g v1 v2 =
     (if \<not> (in_graph g v1 \<and> in_graph g v2) then Inl (Assertion ''v1 < vertex.size() && v2 < vertex.size()'')
      else
        let g1 = erase_edges g v1 v2
        in Inr (if \<not> directed g then erase_edges g1 v2 v1 else g1))"

definition hasEdge :: "('v, 'e, 'm) graph_scheme \<Rightarrow> int \<Rightarrow> int \<Rightarrow> bool result" where
  "hasEdge g v1 v2 = bind_result (rd (vertex g) v1) (\<lambda>q. Inr (std_find (<) v2 (snd q) \<noteq> None))"

definition getEdge :: "('v, 'e, 'm) graph_scheme \<Rightarrow> int \<Rightarrow> int \<Rightarrow> 'e list result" where
  "getEdge g v1 v2 = bind_result (hasEdge g v1 v2) (\<lambda>has. Inr (if \<not> has then [] else edges_to v2 (out_edges g v1)))"

text \<open>What \<open>operator<<\<close> prints: a line for each pair of vertices with edges.\<close>

definition graph_text :: "('e \<Rightarrow> string) \<Rightarrow> ('v, 'e, 'm) graph_scheme \<Rightarrow> string" where
  "graph_text show_edge g = concat (map (\<lambda>i. concat (map (\<lambda>(j, es).
       show_int i @ ''->'' @ show_int j @ '':'' @ concat (map (\<lambda>e. '' '' @ show_edge e) es) @ [CHR 0x0A]) (out_edges g i)))
     [0..vertexCount g - 1])"

section \<open>Topological sort with strongly connected components\<close>

datatype color = WHITE | GREY | BLACK

definition successors :: "('v, 'e, 'm) graph_scheme \<Rightarrow> int \<Rightarrow> int list" where
  "successors g v = map fst (out_edges g v)"

definition push_white :: "color list \<Rightarrow> int list \<Rightarrow> int list \<Rightarrow> int list result" where
  "push_white col ws S = fold_result (\<lambda>S w. bind_result (rd col w) (\<lambda>c. Inr (if c = WHITE then w # S else S))) S ws"

text \<open>
  The loop over the stack, which both searches have. A vertex that is finished is put in front of the list \<open>fin\<close>: in the
  first search this is the part of the array \<open>order\<close> from \<open>c\<close> on, in the second one the set \<open>s\<close>.
\<close>

lemma count_update:
  "k < length xs \<Longrightarrow> length (filter P (xs[k := y])) + (if P (xs ! k) then 1 else 0) = length (filter P xs) + (if P y then 1 else 0)"
proof (induction xs arbitrary: k)
  case (Cons x xs)
  then show ?case by (cases k) auto
qed simp

lemma rd_wr_list: "rd a i = Inr x \<Longrightarrow> wr a i y = Inr b \<Longrightarrow> nat i < length a \<and> a ! nat i = x \<and> b = a[nat i := y]"
  by (auto simp: rd_Inr_iff wr_Inr_iff alen_def elt_def upd_def nat_less_iff)

lemma white_decreases:
  assumes "rd col v = Inr WHITE" "wr col v GREY = Inr col'"
  shows "length (filter (\<lambda>c. c = WHITE) col') < length (filter (\<lambda>c. c = WHITE) col)"
  using rd_wr_list[OF assms] count_update[of "nat v" col "\<lambda>c. c = WHITE" GREY] by auto

lemma same_white:
  assumes "rd col v = Inr GREY" "wr col v BLACK = Inr col'"
  shows "length (filter (\<lambda>c. c = WHITE) col') = length (filter (\<lambda>c. c = WHITE) col)"
  using rd_wr_list[OF assms] count_update[of "nat v" col "\<lambda>c. c = WHITE" BLACK] by auto

function dfs_loop :: "(int \<Rightarrow> int list) \<Rightarrow> int list \<Rightarrow> color list \<Rightarrow> int list \<Rightarrow> (color list \<times> int list) result" where
  "dfs_loop succ [] col fin = Inr (col, fin)"
| "dfs_loop succ (v # S) col fin = bind_result (rd col v) (\<lambda>c. case c of
     WHITE \<Rightarrow> bind_result (push_white col (succ v) (v # S)) (\<lambda>S.
       bind_result (wr col v GREY) (\<lambda>col. dfs_loop succ S col fin))
   | GREY \<Rightarrow> bind_result (wr col v BLACK) (\<lambda>col. dfs_loop succ S col (v # fin))
   | BLACK \<Rightarrow> dfs_loop succ S col fin)"
  by pat_completeness auto
termination
  by (relation "measures [\<lambda>(succ, S, col, fin). length (filter (\<lambda>c. c = WHITE) col), \<lambda>(succ, S, col, fin). length S]")
     (auto simp: white_decreases same_white)

text \<open>The first search starts at the last vertex.\<close>

definition first_search :: "(int \<Rightarrow> int list) \<Rightarrow> int \<Rightarrow> (color list \<times> int list) result" where
  "first_search succ n = fold_result (\<lambda>(col, order) i. bind_result (rd col i) (\<lambda>c.
       if c = WHITE then dfs_loop succ [i] col order else Inr (col, order)))
     (replicate (nat n) WHITE, []) (rev [0..n - 1])"

definition transposed :: "(int \<Rightarrow> int list) \<Rightarrow> int \<Rightarrow> int list list result" where
  "transposed succ n = for_loop 0 n (\<lambda>T i.
     fold_result (\<lambda>T j. bind_result (rd T j) (\<lambda>s. wr T j (insert_unique (<) i s))) T (succ i)) (replicate (nat n) [])"

definition second_search :: "int list list \<Rightarrow> int list \<Rightarrow> (color list \<times> int list list) result" where
  "second_search edgeT order = fold_result (\<lambda>(col, result) r. bind_result (rd col r) (\<lambda>c.
       if c = WHITE
       then bind_result (dfs_loop (elt edgeT) [r] col []) (\<lambda>(col, s). Inr (col, result @ [sort (remdups s)]))
       else Inr (col, result)))
     (replicate (length order) WHITE, []) order"

definition topoSort :: "('v, 'e, 'm) graph_scheme \<Rightarrow> int list list result" where
  "topoSort g =
     bind_result (first_search (successors g) (vertexCount g)) (\<lambda>(col, order).
     bind_result (transposed (successors g) (vertexCount g)) (\<lambda>edgeT.
     bind_result (second_search edgeT order) (\<lambda>(col, result). Inr result)))"

section \<open>Topological sort in layers\<close>

definition drop_in_edge :: "int list \<times> int list \<Rightarrow> int \<Rightarrow> (int list \<times> int list) result" where
  "drop_in_edge = (\<lambda>(cnt, s) e. bind_result (rd cnt e) (\<lambda>c. bind_result (wr cnt e (c - 1)) (\<lambda>cnt.
     Inr (cnt, if c - 1 = 0 then insert_unique (<) e s else s))))"

definition drop_vertices :: "(int \<Rightarrow> int list) \<Rightarrow> int list \<Rightarrow> int list \<Rightarrow> (int list \<times> int list) result" where
  "drop_vertices succ cnt layer = fold_result (\<lambda>st i. fold_result drop_in_edge st (succ i)) (cnt, []) layer"

lemma drop_in_edge_step:
  assumes "drop_in_edge (cnt, s) e = Inr (cnt', s')"
  shows "length (filter (\<lambda>c. 0 < c) cnt') + (if s = s' then 0 else 1) \<le> length (filter (\<lambda>c. 0 < c) cnt)"
proof -
  from assms obtain c where c: "rd cnt e = Inr c" "wr cnt e (c - 1) = Inr cnt'"
    "s' = (if c - 1 = 0 then insert_unique (<) e s else s)"
    by (auto simp: drop_in_edge_def)
  then show ?thesis
    using rd_wr_list[OF c(1,2)] count_update[of "nat e" cnt "\<lambda>c. 0 < c" "c - 1"] by (auto split: if_splits)
qed

lemma drop_vertices_step:
  assumes "drop_vertices succ cnt layer = Inr (cnt', s')"
  shows "length (filter (\<lambda>c. 0 < c) cnt') + (if s' = [] then 0 else 1) \<le> length (filter (\<lambda>c. 0 < c) cnt)"
proof -
  define ok where "ok st \<longleftrightarrow> length (filter (\<lambda>c. 0 < c) (fst st)) + (if snd st = [] then 0 else 1) \<le> length (filter (\<lambda>c. 0 < c) cnt)"
    for st :: "int list \<times> int list"
  have step: "ok st'" if "ok st" "drop_in_edge st e = Inr st'" for st st' e
    using drop_in_edge_step[of "fst st" "snd st" e "fst st'" "snd st'"] that by (auto simp: ok_def split: if_splits)
  have edges: "ok st'" if "fold_result drop_in_edge st es = Inr st'" "ok st" for st st' es
    using that by (induction es arbitrary: st) (auto intro: step)
  have "ok st'" if "fold_result (\<lambda>st i. fold_result drop_in_edge st (succ i)) st l = Inr st'" "ok st" for st st' l
    using that by (induction l arbitrary: st) (auto intro: edges)
  from this[of "(cnt, [])" layer "(cnt', s')"] assms show ?thesis by (simp add: ok_def drop_vertices_def)
qed

function packed_loop :: "(int \<Rightarrow> int list) \<Rightarrow> int list \<Rightarrow> int list \<Rightarrow> int list list \<Rightarrow> int list list result" where
  "packed_loop succ cnt [] result = Inr result"
| "packed_loop succ cnt (i # s) result =
     bind_result (drop_vertices succ cnt (i # s)) (\<lambda>(cnt, s'). packed_loop succ cnt s' (result @ [i # s]))"
  by pat_completeness auto
termination
  by (relation "measure (\<lambda>(succ, cnt, s, result). 2 * length (filter (\<lambda>c. 0 < c) cnt) + (if s = [] then 0 else 1))")
     (auto dest!: drop_vertices_step split: if_splits)


definition count_edges :: "(int \<Rightarrow> int list) \<Rightarrow> int \<Rightarrow> int list result" where
  "count_edges succ n = for_loop 0 n (\<lambda>cnt i.
     fold_result (\<lambda>cnt e. bind_result (rd cnt e) (\<lambda>c. wr cnt e (c + 1))) cnt (succ i)) (replicate (nat n) 0)"

definition packed_topoSort :: "('v, 'e, 'm) graph_scheme \<Rightarrow> int list list result" where
  "packed_topoSort g =
     bind_result (count_edges (successors g) (vertexCount g)) (\<lambda>cnt.
       packed_loop (successors g) cnt (filter (\<lambda>i. elt cnt i = 0) [0..vertexCount g - 1]) [])"

section \<open>Invariant of the operations\<close>

text \<open>The other end of every edge is a vertex, and the edges of a vertex are sorted by it.\<close>

definition graph_ok :: "('v, 'e, 'm) graph_scheme \<Rightarrow> bool" where
  "graph_ok g \<longleftrightarrow> list_all (\<lambda>q. std_ok (<) (snd q) \<and> list_all (\<lambda>e. in_graph g (fst e)) (snd q)) (vertex g)"

definition edges_between :: "('v, 'e, 'm) graph_scheme \<Rightarrow> int \<Rightarrow> int \<Rightarrow> 'e list" where
  "edges_between g v1 v2 = (if in_graph g v1 then edges_to v2 (out_edges g v1) else [])"

lemma graph_okD:
  assumes "graph_ok g" "in_graph g v"
  shows "std_ok (<) (out_edges g v)" "q \<in> set (out_edges g v) \<Longrightarrow> in_graph g (fst q)"
proof -
  have "nat v < length (vertex g)" using assms(2) by (simp add: in_graph_def vertexCount_def alen_def nat_less_iff)
  then have "elt (vertex g) v \<in> set (vertex g)" by (simp add: elt_def)
  then have "std_ok (<) (snd (elt (vertex g) v)) \<and> list_all (\<lambda>e. in_graph g (fst e)) (snd (elt (vertex g) v))"
    using assms(1) unfolding graph_ok_def list_all_iff by blast
  then show "std_ok (<) (out_edges g v)" "q \<in> set (out_edges g v) \<Longrightarrow> in_graph g (fst q)"
    unfolding out_edges_def list_all_iff by auto
qed

lemma successors_range: "graph_ok g \<Longrightarrow> in_graph g v \<Longrightarrow> w \<in> set (successors g v) \<Longrightarrow> in_graph g w"
  using graph_okD(2) by (fastforce simp: successors_def)

lemma graph_okI:
  assumes "\<And>v. in_graph g v \<Longrightarrow> std_ok (<) (out_edges g v) \<and> (\<forall>q \<in> set (out_edges g v). in_graph g (fst q))"
  shows "graph_ok g"
proof -
  have "std_ok (<) (snd (vertex g ! k)) \<and> (\<forall>q \<in> set (snd (vertex g ! k)). in_graph g (fst q))" if "k < length (vertex g)" for k
    using assms[of "int k"] that by (simp add: in_graph_def vertexCount_def alen_def out_edges_def elt_def)
  then show ?thesis unfolding graph_ok_def list_all_length by (simp add: list_all_iff)
qed

lemma push_edges_vertices [simp]:
  "vertexCount (push_edges g v1 v2 e) = vertexCount g" "in_graph (push_edges g v1 v2 e) v = in_graph g v"
  "directed (push_edges g v1 v2 e) = directed g"
  by (simp_all add: push_edges_def vertexCount_def in_graph_def)

lemma push_edges_out: "in_graph g v1 \<Longrightarrow> in_graph g v \<Longrightarrow> out_edges (push_edges g v1 v2 e) v =
    (if v = v1 then std_assign (<) v2 (edges_to v2 (out_edges g v1) @ e) (out_edges g v1) else out_edges g v)"
  by (simp add: push_edges_def out_edges_def in_graph_def vertexCount_def)

lemma push_edges_ok:
  assumes "graph_ok g" "in_graph g v1" "in_graph g v2"
  shows "graph_ok (push_edges g v1 v2 e)"
proof (rule graph_okI)
  fix v assume v: "in_graph (push_edges g v1 v2 e) v"
  have "fst ` set (std_assign (<) v2 (edges_to v2 (out_edges g v1) @ e) (out_edges g v1)) = insert v2 (fst ` set (out_edges g v1))"
    using by_value.assign_keys[of v2 _ "out_edges g v1"] by simp
  then have "in_graph g (fst q)" if "q \<in> set (std_assign (<) v2 (edges_to v2 (out_edges g v1) @ e) (out_edges g v1))" for q
    using that assms graph_okD(2)[OF assms(1,2)] by (metis image_iff insert_iff)
  then show "std_ok (<) (out_edges (push_edges g v1 v2 e) v) \<and>
      (\<forall>q \<in> set (out_edges (push_edges g v1 v2 e) v). in_graph (push_edges g v1 v2 e) (fst q))"
    using v assms graph_okD[OF assms(1)] by (auto simp: push_edges_out by_value.assign_ok)
qed

lemma push_edges_between:
  assumes "graph_ok g" "in_graph g v1" "in_graph g v2"
  shows "edges_between (push_edges g v1 v2 e) u w =
    (if u = v1 \<and> w = v2 then edges_between g u w @ e else edges_between g u w)"
  using assms graph_okD(1)[OF assms(1,2)]
  by (auto simp: edges_between_def push_edges_out edges_to_def by_value.find_assign)

text \<open>What the operations do, on every branch.\<close>

lemma connect_all_correct:
  assumes "graph_ok g" "in_graph g v1" "in_graph g v2"
  shows "\<exists>g'. connect_all g v1 v2 e = Inr g' \<and> graph_ok g' \<and> vertexCount g' = vertexCount g \<and> directed g' = directed g \<and>
    (directed g \<longrightarrow> (\<forall>u w. edges_between g' u w = (if u = v1 \<and> w = v2 then edges_between g u w @ e else edges_between g u w)))"
proof (cases "e = []")
  case True
  then show ?thesis using assms by (simp add: connect_all_def)
next
  case False
  let ?g1 = "push_edges g v1 v2 e"
  have "graph_ok ?g1" "graph_ok (push_edges ?g1 v2 v1 e)"
    using push_edges_ok[of g v1 v2 e] push_edges_ok[of ?g1 v2 v1 e] assms by auto
  then show ?thesis using False assms push_edges_between[OF assms] by (simp add: connect_all_def Let_def)
qed

lemma connect_is_connect_all: "connect g v1 v2 e = connect_all g v1 v2 [e]"
  by (simp add: connect_def connect_all_def)

lemma connect_fails_iff:
  "connect_all g v1 v2 e = Inl (Assertion ''v1 < vertex.size() && v2 < vertex.size()'') \<longleftrightarrow> \<not> (in_graph g v1 \<and> in_graph g v2)"
  by (simp add: connect_all_def Let_def)

lemma erase_edges_vertices [simp]:
  "vertexCount (erase_edges g v1 v2) = vertexCount g" "in_graph (erase_edges g v1 v2) v = in_graph g v"
  "directed (erase_edges g v1 v2) = directed g"
  by (simp_all add: erase_edges_def vertexCount_def in_graph_def)

lemma std_ok_filter: "std_ok lt m \<Longrightarrow> std_ok lt (filter P m)"
  by (induction m) (auto simp: list_all_iff)

lemma std_find_filter: "std_find (<) (k :: int) (filter (\<lambda>q. \<not> incomparable (<) k' (fst q)) m) =
    (if k = k' then None else std_find (<) k m)"
  by (induction m) (auto simp: by_value.incomparable_key)

lemma erase_edges_out: "in_graph g v1 \<Longrightarrow> in_graph g v \<Longrightarrow> out_edges (erase_edges g v1 v2) v =
    (if v = v1 then filter (\<lambda>q. \<not> incomparable (<) v2 (fst q)) (out_edges g v1) else out_edges g v)"
  by (simp add: erase_edges_def out_edges_def in_graph_def vertexCount_def)

lemma erase_edges_ok: "graph_ok g \<Longrightarrow> in_graph g v1 \<Longrightarrow> graph_ok (erase_edges g v1 v2)"
  by (rule graph_okI) (auto simp: erase_edges_out std_ok_filter graph_okD)

lemma erase_edges_between:
  "in_graph g v1 \<Longrightarrow> edges_between (erase_edges g v1 v2) u w = (if u = v1 \<and> w = v2 then [] else edges_between g u w)"
  by (auto simp: edges_between_def erase_edges_out edges_to_def std_find_filter)

lemma disconnect_correct:
  assumes "graph_ok g" "in_graph g v1" "in_graph g v2"
  shows "\<exists>g'. disconnect g v1 v2 = Inr g' \<and> graph_ok g' \<and> vertexCount g' = vertexCount g \<and> directed g' = directed g \<and>
    (\<forall>u w. edges_between g' u w =
      (if u = v1 \<and> w = v2 \<or> \<not> directed g \<and> u = v2 \<and> w = v1 then [] else edges_between g u w))"
proof (cases "directed g")
  case True
  then show ?thesis using assms by (simp add: disconnect_def erase_edges_ok erase_edges_between)
next
  case False
  let ?g = "erase_edges (erase_edges g v1 v2) v2 v1"
  have "disconnect g v1 v2 = Inr ?g" using False assms by (simp add: disconnect_def)
  moreover have "graph_ok ?g" using assms by (intro erase_edges_ok) simp_all
  moreover have "edges_between ?g u w = (if u = v1 \<and> w = v2 \<or> \<not> directed g \<and> u = v2 \<and> w = v1 then [] else edges_between g u w)" for u w
  proof -
    have "edges_between ?g u w = (if u = v2 \<and> w = v1 then [] else edges_between (erase_edges g v1 v2) u w)"
      by (rule erase_edges_between) (simp add: assms)
    then show ?thesis using erase_edges_between[OF assms(2), of v2 u w] False by presburger
  qed
  ultimately show ?thesis by auto
qed

lemma getEdge_between: "in_graph g v1 \<Longrightarrow> getEdge g v1 v2 = Inr (edges_between g v1 v2)"
  by (simp add: getEdge_def hasEdge_def in_graph_def vertexCount_def edges_between_def edges_to_def out_edges_def)

lemma getEdge_outside: "\<not> in_graph g v1 \<Longrightarrow> getEdge g v1 v2 = Inl (Undefined ''read outside an array'')"
  by (auto simp: getEdge_def hasEdge_def in_graph_def vertexCount_def rd_def)

text \<open>Vertices without a label are always new.\<close>

lemma find_vertex_empty [simp]: "find_vertex empty_eq v vs i = None"
  by (induction vs arbitrary: i) (auto simp: empty_eq_def)

lemma insert_empty: "graph_insert empty_eq g v = (g\<lparr>vertex := vertex g @ [(v, [])]\<rparr>, vertexCount g)"
  by (simp add: graph_insert_def)

lemma in_graph_insert: "in_graph (fst (graph_insert empty_eq g v)) u \<longleftrightarrow> in_graph g u \<or> u = vertexCount g"
  by (auto simp: insert_empty in_graph_def vertexCount_def alen_def)

lemma insert_empty_ok: "graph_ok g \<Longrightarrow> graph_ok (fst (graph_insert empty_eq g v))"
  using in_graph_insert[of g v] by (auto simp: graph_ok_def insert_empty list_all_iff)

section \<open>Examples\<close>

definition edges_graph :: "int \<Rightarrow> (int \<times> int) list \<Rightarrow> (unit, unit) graph result" where
  "edges_graph n es = fold_result (\<lambda>g (u, v). connect g u v ())
     (foldl (\<lambda>g i. fst (graph_insert empty_eq g ())) (Graph True) [0..n - 1]) es"

text \<open>The graph of the comment at the head of the file.\<close>

text \<open>Evaluation looks at what a bind continues with only when it is known how it continues.\<close>

declare bind_result_def [code_unfold]

lemma topoSort_example:
  "bind_result (edges_graph 4 [(0, 1), (0, 2), (1, 2), (2, 1), (2, 3)]) topoSort = Inr [[0], [1, 2], [3]]"
  by code_simp

text \<open>
  An edge from a vertex to itself pushes the vertex onto the stack again before it is grey, so that it is finished before
  its successors with smaller numbers. The order of the first search is then wrong and two components become one.
\<close>

lemma topoSort_self_loop:
  "bind_result (edges_graph 2 [(1, 0)]) topoSort = Inr [[1], [0]]"
  "bind_result (edges_graph 2 [(1, 0), (1, 1)]) topoSort = Inr [[0, 1]]"
  by code_simp+

text \<open>The sort in layers leaves out every vertex that a cycle leads to.\<close>

lemma packed_topoSort_example:
  "bind_result (edges_graph 4 [(0, 1), (0, 2), (1, 2), (2, 1), (2, 3)]) packed_topoSort = Inr [[0]]"
  "bind_result (edges_graph 4 [(0, 1), (0, 2), (1, 2), (2, 3)]) packed_topoSort = Inr [[0], [1], [2], [3]]"
  by code_simp+

end
