(* ===== verification/Graph_Sort.thy ===== *)
theory Graph_Sort
  imports Graph
begin

text \<open>
  The topological sorts of \<open>graph.hh\<close> are correct. For \<open>topoSort\<close>, which computes strongly connected components with two
  depth-first searches, the vertices must have no edge to themselves, as in the graphs that the compiler builds.
\<close>

section \<open>One search\<close>

definition succ_ok :: "(int \<Rightarrow> int list) \<Rightarrow> int \<Rightarrow> bool" where
  "succ_ok succ n \<longleftrightarrow> (\<forall>u w. 0 \<le> u \<and> u < n \<and> w \<in> set (succ u) \<longrightarrow> 0 \<le> w \<and> w < n \<and> w \<noteq> u)"

lemma succ_okD: "succ_ok succ n \<Longrightarrow> 0 \<le> u \<Longrightarrow> u < n \<Longrightarrow> w \<in> set (succ u) \<Longrightarrow> 0 \<le> w \<and> w < n \<and> w \<noteq> u"
  unfolding succ_ok_def by blast

definition edge_rel :: "(int \<Rightarrow> int list) \<Rightarrow> int \<Rightarrow> (int \<times> int) set" where
  "edge_rel succ n = {(u, w). 0 \<le> u \<and> u < n \<and> w \<in> set (succ u)}"

definition colored :: "color list \<Rightarrow> color \<Rightarrow> int set" where
  "colored col c = {v. 0 \<le> v \<and> v < alen col \<and> elt col v = c}"

lemma colored_upd:
  "0 \<le> v \<Longrightarrow> v < alen col \<Longrightarrow> colored (upd col v c) d = (if d = c then insert v (colored col d) else colored col d - {v})"
  by (auto simp: colored_def)

lemma colored_disjoint: "u \<in> colored col c \<Longrightarrow> u \<in> colored col d \<Longrightarrow> c = d"
  by (auto simp: colored_def)

lemma colored_cases: "0 \<le> v \<Longrightarrow> v < alen col \<Longrightarrow> v \<in> colored col WHITE \<or> v \<in> colored col GREY \<or> v \<in> colored col BLACK"
  using color.exhaust[of "elt col v"] by (auto simp: colored_def)

lemma colored_range: "v \<in> colored col c \<Longrightarrow> 0 \<le> v \<and> v < alen col"
  by (simp add: colored_def)

definition white_of :: "color list \<Rightarrow> int list \<Rightarrow> int list" where
  "white_of col ws = filter (\<lambda>w. elt col w = WHITE) ws"

lemma push_white_eq: "\<forall>w \<in> set ws. 0 \<le> w \<and> w < alen col \<Longrightarrow> push_white col ws S = Inr (rev (white_of col ws) @ S)"
  by (induction ws arbitrary: S) (auto simp: push_white_def white_of_def)

text \<open>
  The interface of a loop invariant of the search: what holds of stack, colors and finished vertices is kept by the three
  steps. Then the search ends, without an access outside of the array, and it holds with the empty stack.
\<close>

locale search_invariant =
  fixes succ :: "int \<Rightarrow> int list" and n :: int
    and I :: "int list \<Rightarrow> color list \<Rightarrow> int list \<Rightarrow> bool"
  assumes inv_range: "I st col fin \<Longrightarrow> succ_ok succ n \<and> alen col = n \<and> set st \<subseteq> {0..<n}"
    and inv_white: "I (v # st) col fin \<Longrightarrow> v \<in> colored col WHITE \<Longrightarrow> I (rev (white_of col (succ v)) @ v # st) (upd col v GREY) fin"
    and inv_grey: "I (v # st) col fin \<Longrightarrow> v \<in> colored col GREY \<Longrightarrow> I st (upd col v BLACK) (v # fin)"
    and inv_black: "I (v # st) col fin \<Longrightarrow> v \<in> colored col BLACK \<Longrightarrow> I st col fin"
begin

lemma search_runs:
  "s = succ \<Longrightarrow> I st col fin \<Longrightarrow> \<exists>col' fin'. dfs_loop s st col fin = Inr (col', fin') \<and> I [] col' fin'"
proof (induction s st col fin rule: dfs_loop.induct)
  case (2 s v st col fin)
  note inv = inv_range[OF 2(5)]
  have s: "s = succ" by (rule 2(4))
  have v: "0 \<le> v" "v < alen col" using inv by auto
  then have r: "rd col v = Inr (elt col v)" by simp
  show ?case
  proof (cases "elt col v")
    case WHITE
    have w: "v \<in> colored col WHITE" using v WHITE by (simp add: colored_def)
    have p: "push_white col (s v) (v # st) = Inr (rev (white_of col (s v)) @ v # st)"
      using inv v succ_okD[of succ n v] unfolding s by (intro push_white_eq ballI) auto
    from 2(1)[OF r WHITE p wr_upd[OF v] s] inv_white[OF 2(5) w] s show ?thesis
      using p[unfolded s] by (simp add: r WHITE v)
  next
    case GREY
    then have w: "v \<in> colored col GREY" using v by (simp add: colored_def)
    from 2(2)[OF r GREY wr_upd[OF v] s] inv_grey[OF 2(5) w] show ?thesis by (simp add: r GREY v)
  next
    case BLACK
    then have w: "v \<in> colored col BLACK" using v by (simp add: colored_def)
    from 2(3)[OF r BLACK s] inv_black[OF 2(5) w] show ?thesis by (simp add: r BLACK)
  qed
qed simp

end

section \<open>What a search visits\<close>

text \<open>
  A grey vertex is on the stack; above its topmost occurrence are only vertices that it leads to, among them those of its
  successors that are still white.
\<close>

definition stack_ok :: "(int \<Rightarrow> int list) \<Rightarrow> int \<Rightarrow> int list \<Rightarrow> color list \<Rightarrow> bool" where
  "stack_ok succ n st col \<longleftrightarrow> colored col GREY \<subseteq> set st \<and>
     (\<forall>as u bs. st = as @ u # bs \<and> u \<notin> set as \<and> u \<in> colored col GREY \<longrightarrow>
        set (succ u) \<inter> colored col WHITE \<subseteq> set as \<and> (\<forall>x \<in> set as. (u, x) \<in> (edge_rel succ n)\<^sup>*))"

lemma first_split: "as @ u # bs = as' @ u # bs' \<Longrightarrow> u \<notin> set as \<Longrightarrow> u \<notin> set as' \<Longrightarrow> as = as' \<and> bs = bs'"
  by (auto simp: append_eq_append_conv2 append_eq_Cons_conv Cons_eq_append_conv)

lemma stack_okD:
  assumes "stack_ok succ n st col" "st = as @ u # bs" "u \<notin> set as" "u \<in> colored col GREY"
  shows "set (succ u) \<inter> colored col WHITE \<subseteq> set as" "x \<in> set as \<Longrightarrow> (u, x) \<in> (edge_rel succ n)\<^sup>*"
  using assms unfolding stack_ok_def by blast+

lemma stack_ok_white:
  assumes st: "stack_ok succ n (v # st) col" and v: "v \<in> colored col WHITE" and ok: "succ_ok succ n" "alen col = n" "set (v # st) \<subseteq> {0..<n}"
  shows "stack_ok succ n (rev (white_of col (succ v)) @ v # st) (upd col v GREY)"
proof -
  let ?ws = "white_of col (succ v)"
  have vr: "0 \<le> v" "v < alen col" "v < n" using ok by auto
  have ws: "set ?ws = set (succ v) \<inter> colored col WHITE" "v \<notin> set ?ws"
    using succ_okD[OF ok(1) vr(1,3)] ok(2) unfolding white_of_def colored_def set_filter by blast+
  have grey: "colored (upd col v GREY) GREY = insert v (colored col GREY)" "colored (upd col v GREY) WHITE = colored col WHITE - {v}"
    using vr by (simp_all add: colored_upd)
  have edges: "(v, x) \<in> edge_rel succ n" if "x \<in> set ?ws" for x using that ws vr by (auto simp: edge_rel_def)
  show ?thesis unfolding stack_ok_def grey
  proof (intro conjI allI impI; (elim conjE)?)
    show "insert v (colored col GREY) \<subseteq> set (rev ?ws @ v # st)" using st v by (auto simp: stack_ok_def dest: colored_disjoint)
  next
    fix as u bs assume a: "rev ?ws @ v # st = as @ u # bs" "u \<notin> set as" "u \<in> insert v (colored col GREY)"
    have "set (succ u) \<inter> (colored col WHITE - {v}) \<subseteq> set as \<and> (\<forall>x \<in> set as. (u, x) \<in> (edge_rel succ n)\<^sup>*)"
    proof (cases "u = v")
      case True
      then have "as = rev ?ws" using first_split[of "rev ?ws" v st as bs] a ws(2) by auto
      then show ?thesis using ws edges True by auto
    next
      case False
      then have u: "u \<in> colored col GREY" "u \<notin> set ?ws" using a ws by (auto dest: colored_disjoint)
      then have "u \<in> set st" using st False by (auto simp: stack_ok_def)
      then obtain cs ds where cs: "st = cs @ u # ds" "u \<notin> set cs" by (meson split_list_first)
      then have "as = rev ?ws @ v # cs" using first_split[of "rev ?ws @ v # cs" u ds as bs] a False u by auto
      moreover have d: "set (succ u) \<inter> colored col WHITE \<subseteq> set (v # cs)" "\<And>x. x \<in> set (v # cs) \<Longrightarrow> (u, x) \<in> (edge_rel succ n)\<^sup>*"
        using stack_okD[OF st, of "v # cs" u ds] cs False u by auto
      moreover have "(u, x) \<in> (edge_rel succ n)\<^sup>*" if "x \<in> set ?ws" for x
        using d(2)[of v] edges[OF that] by (simp add: rtrancl_into_rtrancl)
      ultimately show ?thesis by auto
    qed
    then show "set (succ u) \<inter> (colored col WHITE - {v}) \<subseteq> set as" "\<forall>x \<in> set as. (u, x) \<in> (edge_rel succ n)\<^sup>*" by auto
  qed
qed

text \<open>Taking a vertex that is not white from the stack.\<close>

lemma stack_ok_pop:
  assumes st: "stack_ok succ n (v # st) col" and v: "v \<notin> colored col WHITE" "0 \<le> v" "v < alen col"
    and col': "colored col' GREY = colored col GREY - {v}" "colored col' WHITE = colored col WHITE"
  shows "stack_ok succ n st col'"
  unfolding stack_ok_def col'
proof (intro conjI allI impI; (elim conjE)?)
  show "colored col GREY - {v} \<subseteq> set st" using st by (auto simp: stack_ok_def)
next
  fix as u bs assume a: "st = as @ u # bs" "u \<notin> set as" "u \<in> colored col GREY - {v}"
  then have "set (succ u) \<inter> colored col WHITE \<subseteq> set (v # as)" "\<And>x. x \<in> set (v # as) \<Longrightarrow> (u, x) \<in> (edge_rel succ n)\<^sup>*"
    using stack_okD[OF st, of "v # as" u bs] by auto
  then show "set (succ u) \<inter> colored col WHITE \<subseteq> set as" "\<forall>x \<in> set as. (u, x) \<in> (edge_rel succ n)\<^sup>*" using v by auto
qed

text \<open>
  A search that starts with the vertices \<open>W\<close> white and \<open>r\<close> on the stack: what it visits can be reached from \<open>r\<close> without
  leaving \<open>W\<close>. \<open>D\<close> are vertices, \<open>W\<close> among them, whose successors are not white once they are finished.
\<close>

definition within :: "(int \<times> int) set \<Rightarrow> int set \<Rightarrow> int \<Rightarrow> int set" where
  "within R W r = {x. (r, x) \<in> (R \<inter> UNIV \<times> W)\<^sup>*}"

definition search_inv ::
  "(int \<Rightarrow> int list) \<Rightarrow> int \<Rightarrow> int set \<Rightarrow> int set \<Rightarrow> int set \<Rightarrow> int \<Rightarrow> int list \<Rightarrow> color list \<Rightarrow> int list \<Rightarrow> bool" where
  "search_inv succ n D W F r st col fin \<longleftrightarrow>
     succ_ok succ n \<and> alen col = n \<and> set st \<subseteq> {0..<n} \<and> stack_ok succ n st col \<and>
     W \<subseteq> D \<and> W \<subseteq> {0..<n} \<and> r \<in> W \<and> colored col WHITE \<subseteq> W \<and> colored col GREY \<subseteq> W \<and>
     (r \<in> set st \<or> r \<notin> colored col WHITE) \<and>
     (\<forall>u \<in> colored col BLACK \<inter> D. set (succ u) \<inter> colored col WHITE = {}) \<and>
     set st \<subseteq> within (edge_rel succ n) W r \<and> W - colored col WHITE \<subseteq> within (edge_rel succ n) W r \<and>
     distinct fin \<and> set fin = F \<union> (W \<inter> colored col BLACK) \<and> F \<inter> W = {}"

lemma search_invD:
  assumes "search_inv succ n D W F r st col fin"
  shows "succ_ok succ n" "alen col = n" "set st \<subseteq> {0..<n}" "stack_ok succ n st col" "W \<subseteq> D" "r \<in> W" "colored col WHITE \<subseteq> W"
    "colored col GREY \<subseteq> W" "r \<in> set st \<or> r \<notin> colored col WHITE"
    "u \<in> colored col BLACK \<Longrightarrow> u \<in> D \<Longrightarrow> set (succ u) \<inter> colored col WHITE = {}"
    "set st \<subseteq> within (edge_rel succ n) W r" "W - colored col WHITE \<subseteq> within (edge_rel succ n) W r"
    "distinct fin" "set fin = F \<union> (W \<inter> colored col BLACK)" "F \<inter> W = {}" "W \<subseteq> {0..<n}"
  using assms unfolding search_inv_def by blast+

lemma search_inv_white:
  assumes inv: "search_inv succ n D W F r (v # st) col fin" and v: "v \<in> colored col WHITE"
  shows "search_inv succ n D W F r (rev (white_of col (succ v)) @ v # st) (upd col v GREY) fin"
proof -
  note i = search_invD[OF inv]
  have vr: "0 \<le> v" "v < alen col" "v < n" using i(2,3) by auto
  have ws: "set (white_of col (succ v)) = set (succ v) \<inter> colored col WHITE"
    using succ_okD[OF i(1) vr(1,3)] i(2) unfolding white_of_def colored_def set_filter by blast
  have cols: "colored (upd col v GREY) GREY = insert v (colored col GREY)" "colored (upd col v GREY) WHITE = colored col WHITE - {v}"
    "colored (upd col v GREY) BLACK = colored col BLACK"
    using vr v by (auto simp: colored_upd dest: colored_disjoint)
  have reach: "w \<in> within (edge_rel succ n) W r" if "w \<in> set (white_of col (succ v))" for w
  proof -
    have "(v, w) \<in> edge_rel succ n \<inter> UNIV \<times> W" using that ws vr i(7) by (auto simp: edge_rel_def)
    moreover have "v \<in> within (edge_rel succ n) W r" using i(11) by simp
    ultimately show ?thesis unfolding within_def by (auto intro: rtrancl_into_rtrancl)
  qed
  have stack: "set (rev (white_of col (succ v)) @ v # st) \<subseteq> {0..<n}" using i(2,3) ws by (auto simp: colored_def)
  have start: "r \<in> set (rev (white_of col (succ v)) @ v # st) \<or> r \<notin> colored col WHITE - {v}" using i(9) by auto
  have black: "\<forall>u \<in> colored col BLACK \<inter> D. set (succ u) \<inter> (colored col WHITE - {v}) = {}" using i(10) by blast
  have stack_in: "set (rev (white_of col (succ v)) @ v # st) \<subseteq> within (edge_rel succ n) W r" using i(11) reach by auto
  have visited: "W - (colored col WHITE - {v}) \<subseteq> within (edge_rel succ n) W r" using i(11,12) by auto
  have len: "alen (upd col v GREY) = n" using i(2) by simp
  show ?thesis
    unfolding search_inv_def cols
    using i(1,5-8,13-16) v len stack start black stack_in visited stack_ok_white[OF i(4) v i(1,2,3)] by blast
qed

lemma search_inv_pop:
  assumes inv: "search_inv succ n D W F r (v # st) col fin" and v: "v \<notin> colored col WHITE"
    and col': "alen col' = alen col" "colored col' GREY = colored col GREY - {v}" "colored col' WHITE = colored col WHITE"
    and black: "colored col' BLACK = insert v (colored col BLACK)"
    and fin': "distinct fin'" "set fin' = F \<union> (W \<inter> insert v (colored col BLACK))"
  shows "search_inv succ n D W F r st col' fin'"
proof -
  note i = search_invD[OF inv]
  have vr: "0 \<le> v" "v < alen col" using i(2,3) by auto
  have "set (succ v) \<inter> colored col WHITE = {}" if "v \<in> D"
  proof (cases "v \<in> colored col GREY")
    case True
    then show ?thesis using stack_okD(1)[OF i(4), of "[]" v st] by simp
  next
    case False
    then have "v \<in> colored col BLACK" using colored_cases[OF vr] v by blast
    then show ?thesis using i(10)[of v] that by simp
  qed
  then have black_ok: "\<forall>u \<in> insert v (colored col BLACK) \<inter> D. set (succ u) \<inter> colored col WHITE = {}" using i(10) by blast
  have start: "r \<in> set st \<or> r \<notin> colored col WHITE" using i(9) v by auto
  have st: "set st \<subseteq> {0..<n}" "set st \<subseteq> within (edge_rel succ n) W r" "colored col GREY - {v} \<subseteq> W" using i(3,8,11) by auto
  show ?thesis
    unfolding search_inv_def black col'
    using i(1,2,5,6,7,12,15,16) black_ok start st stack_ok_pop[OF i(4) v vr col'(2,3)] fin' by blast
qed

interpretation visited: search_invariant succ n "search_inv succ n D W F r" for succ n D W F r
proof (unfold_locales)
  fix st col fin assume "search_inv succ n D W F r st col fin"
  then show "succ_ok succ n \<and> alen col = n \<and> set st \<subseteq> {0..<n}" by (auto simp: search_inv_def)
next
  fix v st col fin assume "search_inv succ n D W F r (v # st) col fin" "v \<in> colored col WHITE"
  then show "search_inv succ n D W F r (rev (white_of col (succ v)) @ v # st) (upd col v GREY) fin" by (rule search_inv_white)
next
  fix v st col fin assume inv: "search_inv succ n D W F r (v # st) col fin" and v: "v \<in> colored col GREY"
  note i = search_invD[OF inv]
  have vr: "0 \<le> v" "v < alen col" using i(2,3) by auto
  have not: "v \<notin> colored col WHITE" "v \<notin> colored col BLACK" using v by (auto dest: colored_disjoint)
  show "search_inv succ n D W F r st (upd col v BLACK) (v # fin)"
    using i(8,13-15) v not vr by (intro search_inv_pop[OF inv not(1)]) (auto simp: colored_upd)
next
  fix v st col fin assume inv: "search_inv succ n D W F r (v # st) col fin" and v: "v \<in> colored col BLACK"
  have not: "v \<notin> colored col WHITE" "v \<notin> colored col GREY" using v by (auto dest: colored_disjoint)
  show "search_inv succ n D W F r st col fin"
    using search_invD[OF inv] v not by (intro search_inv_pop[OF inv not(1)]) auto
qed

text \<open>At the end nothing is grey, and what is no longer white is what the start leads to.\<close>

lemma search_done:
  assumes "search_inv succ n D W F r [] col fin"
  shows "colored col GREY = {}" "W - colored col WHITE = within (edge_rel succ n) W r" "set fin = F \<union> within (edge_rel succ n) W r"
proof -
  note i = search_invD[OF assms]
  show grey: "colored col GREY = {}" using i(4) by (simp add: stack_ok_def)
  have "x \<in> W - colored col WHITE" if "(r, x) \<in> (edge_rel succ n \<inter> UNIV \<times> W)\<^sup>*" for x
    using that
  proof (induction rule: rtrancl_induct)
    case base
    then show ?case using i(6,9) by auto
  next
    case (step y z)
    then have y: "y \<in> W" "y \<notin> colored col WHITE" "0 \<le> y" "y < alen col" "z \<in> set (succ y)" using i(2) by (auto simp: edge_rel_def)
    then have "y \<in> colored col BLACK" using colored_cases[of y col] grey by auto
    then have "z \<notin> colored col WHITE" using i(5) i(10)[of y] y by auto
    then show ?case using step.hyps by auto
  qed
  then show w: "W - colored col WHITE = within (edge_rel succ n) W r" using i(12) by (auto simp: within_def)
  have "W \<inter> colored col BLACK = W - colored col WHITE"
  proof -
    have "x \<in> colored col BLACK" if "x \<in> W" "x \<notin> colored col WHITE" for x
      using colored_cases[of x col] that i(2,16) grey by auto
    then show ?thesis by (auto dest: colored_disjoint)
  qed
  then show "set fin = F \<union> within (edge_rel succ n) W r" using i(14) w by simp
qed

section \<open>The order of the first search\<close>

text \<open>
  A list of finished vertices, the last one first: if one that is finished earlier leads to a vertex through vertices that
  are finished earlier than it, then the two lead to each other.
\<close>

definition finish_ok :: "(int \<times> int) set \<Rightarrow> int list \<Rightarrow> bool" where
  "finish_ok R fin \<longleftrightarrow> (\<forall>xs r ys u. fin = xs @ r # ys \<and> u \<in> set ys \<and> (u, r) \<in> (R \<inter> set ys \<times> UNIV)\<^sup>* \<longrightarrow> (r, u) \<in> R\<^sup>*)"

definition grey_back :: "(int \<times> int) set \<Rightarrow> color list \<Rightarrow> bool" where
  "grey_back R col \<longleftrightarrow> (\<forall>u \<in> colored col BLACK. \<forall>g \<in> colored col GREY.
     (u, g) \<in> (R \<inter> colored col BLACK \<times> UNIV)\<^sup>* \<longrightarrow> (g, u) \<in> R\<^sup>*)"

definition order_inv ::
  "(int \<Rightarrow> int list) \<Rightarrow> int \<Rightarrow> int set \<Rightarrow> int set \<Rightarrow> int \<Rightarrow> int list \<Rightarrow> color list \<Rightarrow> int list \<Rightarrow> bool" where
  "order_inv succ n W F r st col fin \<longleftrightarrow> search_inv succ n UNIV W F r st col fin \<and> set fin = colored col BLACK \<and>
     grey_back (edge_rel succ n) col \<and> finish_ok (edge_rel succ n) fin"

lemma path_through:
  "(u, g) \<in> (R \<inter> insert v B \<times> UNIV)\<^sup>* \<Longrightarrow> (u, g) \<in> (R \<inter> B \<times> UNIV)\<^sup>* \<or> (u, v) \<in> (R \<inter> B \<times> UNIV)\<^sup>*"
proof (induction rule: rtrancl_induct)
  case (step y z)
  then show ?case by (cases "y = v") (auto intro: rtrancl_into_rtrancl)
qed simp

lemma grey_back_white:
  assumes inv: "search_inv succ n UNIV W F r (v # st) col fin" and v: "v \<in> colored col WHITE"
    and gb: "grey_back (edge_rel succ n) col"
  shows "grey_back (edge_rel succ n) (upd col v GREY)"
proof -
  have vr: "0 \<le> v" "v < alen col" using v by (auto simp: colored_def)
  have cols: "colored (upd col v GREY) GREY = insert v (colored col GREY)" "colored (upd col v GREY) BLACK = colored col BLACK"
    using vr v by (auto simp: colored_upd dest: colored_disjoint)
  have "False" if u: "u \<in> colored col BLACK" and p: "(u, v) \<in> (edge_rel succ n \<inter> colored col BLACK \<times> UNIV)\<^sup>*" for u
    using p
  proof (cases rule: rtranclE)
    case base
    then show ?thesis using u v by (auto dest: colored_disjoint)
  next
    case (step y)
    then have "y \<in> colored col BLACK" "v \<in> set (succ y)" by (auto simp: edge_rel_def)
    then show ?thesis using search_invD(10)[OF inv, of y] v by auto
  qed
  then show ?thesis using gb unfolding grey_back_def cols by blast
qed

lemma grey_back_grey:
  assumes inv: "search_inv succ n UNIV W F r (v # st) col fin" and v: "v \<in> colored col GREY"
    and gb: "grey_back (edge_rel succ n) col"
  shows "grey_back (edge_rel succ n) (upd col v BLACK)"
proof -
  let ?R = "edge_rel succ n"
  have vr: "0 \<le> v" "v < alen col" using v by (auto simp: colored_def)
  have cols: "colored (upd col v BLACK) GREY = colored col GREY - {v}" "colored (upd col v BLACK) BLACK = insert v (colored col BLACK)"
    using vr by (simp_all add: colored_upd)
  have "(g, u) \<in> ?R\<^sup>*" if u: "u \<in> insert v (colored col BLACK)" and g: "g \<in> colored col GREY" "g \<noteq> v"
    and p: "(u, g) \<in> (?R \<inter> insert v (colored col BLACK) \<times> UNIV)\<^sup>*" for u g
  proof -
    have "g \<in> set st" using search_invD(4)[OF inv] g by (auto simp: stack_ok_def)
    then obtain as bs where "st = as @ g # bs" "g \<notin> set as" by (meson split_list_first)
    then have gv: "(g, v) \<in> ?R\<^sup>*" using stack_okD(2)[OF search_invD(4)[OF inv], of "v # as" g bs v] g by simp
    show ?thesis
    proof (cases "u = v")
      case True
      then show ?thesis using gv by simp
    next
      case False
      then have b: "u \<in> colored col BLACK" using u by simp
      from path_through[OF p] show ?thesis
      proof
        assume "(u, g) \<in> (?R \<inter> colored col BLACK \<times> UNIV)\<^sup>*"
        then show ?thesis using gb b g by (auto simp: grey_back_def)
      next
        assume "(u, v) \<in> (?R \<inter> colored col BLACK \<times> UNIV)\<^sup>*"
        then have "(v, u) \<in> ?R\<^sup>*" using gb b v by (auto simp: grey_back_def)
        then show ?thesis using gv by (rule rtrancl_trans[rotated])
      qed
    qed
  qed
  then show ?thesis unfolding grey_back_def cols by blast
qed

lemma finish_ok_Cons:
  assumes "finish_ok R fin" "\<And>u. u \<in> set fin \<Longrightarrow> (u, v) \<in> (R \<inter> set fin \<times> UNIV)\<^sup>* \<Longrightarrow> (v, u) \<in> R\<^sup>*"
  shows "finish_ok R (v # fin)"
  using assms unfolding finish_ok_def Cons_eq_append_conv by blast

interpretation ordered: search_invariant succ n "order_inv succ n W F r" for succ n W F r
proof (unfold_locales)
  fix st col fin assume "order_inv succ n W F r st col fin"
  then show "succ_ok succ n \<and> alen col = n \<and> set st \<subseteq> {0..<n}" by (auto simp: order_inv_def search_inv_def)
next
  fix v st col fin assume inv: "order_inv succ n W F r (v # st) col fin" and v: "v \<in> colored col WHITE"
  have "colored (upd col v GREY) BLACK = colored col BLACK"
    using v colored_upd[of v col GREY BLACK] by (auto simp: colored_def)
  then show "order_inv succ n W F r (rev (white_of col (succ v)) @ v # st) (upd col v GREY) fin"
    using inv v search_inv_white[of succ n UNIV W F r v st col fin] grey_back_white[of succ n W F r v st col fin] by (simp add: order_inv_def)
next
  fix v st col fin assume inv: "order_inv succ n W F r (v # st) col fin" and v: "v \<in> colored col GREY"
  have "colored (upd col v BLACK) BLACK = insert v (colored col BLACK)" using v by (auto simp: colored_upd colored_def)
  moreover have "finish_ok (edge_rel succ n) (v # fin)"
    using inv v by (intro finish_ok_Cons) (auto simp: order_inv_def grey_back_def)
  ultimately show "order_inv succ n W F r st (upd col v BLACK) (v # fin)"
    using inv v visited.inv_grey[of succ n UNIV W F r v st col fin] grey_back_grey[of succ n W F r v st col fin] by (simp add: order_inv_def)
next
  fix v st col fin assume "order_inv succ n W F r (v # st) col fin" "v \<in> colored col BLACK"
  then show "order_inv succ n W F r st col fin"
    using visited.inv_black[of succ n UNIV W F r v st col fin] by (simp add: order_inv_def)
qed

text \<open>Between two searches nothing is grey.\<close>

definition rest_inv :: "(int \<Rightarrow> int list) \<Rightarrow> int \<Rightarrow> color list \<Rightarrow> int list \<Rightarrow> bool" where
  "rest_inv succ n col fin \<longleftrightarrow> alen col = n \<and> colored col GREY = {} \<and>
     (\<forall>u \<in> colored col BLACK. set (succ u) \<inter> colored col WHITE = {}) \<and>
     distinct fin \<and> set fin = colored col BLACK \<and> finish_ok (edge_rel succ n) fin"

lemma first_round:
  assumes ok: "succ_ok succ n" and inv: "rest_inv succ n col fin" and r: "r \<in> colored col WHITE"
  shows "\<exists>col' fin'. dfs_loop succ [r] col fin = Inr (col', fin') \<and> rest_inv succ n col' fin' \<and>
    colored col' WHITE \<subseteq> colored col WHITE - {r}"
proof -
  let ?W = "colored col WHITE"
  have "within (edge_rel succ n) ?W r \<supseteq> {r}" by (simp add: within_def)
  then have start: "order_inv succ n ?W (colored col BLACK) r [r] col fin"
    using ok inv r by (auto simp: order_inv_def search_inv_def rest_inv_def stack_ok_def grey_back_def colored_def)
  obtain col' fin' where run: "dfs_loop succ [r] col fin = Inr (col', fin')" and e: "order_inv succ n ?W (colored col BLACK) r [] col' fin'"
    using ordered.search_runs[OF refl start] by blast
  then have s: "search_inv succ n UNIV ?W (colored col BLACK) r [] col' fin'" by (simp add: order_inv_def)
  have "rest_inv succ n col' fin'"
    using e search_invD(2,13)[OF s] search_invD(10)[OF s] search_done(1)[OF s] by (auto simp: rest_inv_def order_inv_def)
  moreover have "colored col' WHITE \<subseteq> ?W - {r}" using search_invD(7,9)[OF s] by auto
  ultimately show ?thesis using run by blast
qed

lemma first_rounds:
  assumes "succ_ok succ n" "rest_inv succ n col fin" "set js \<subseteq> {0..<n}"
  shows "\<exists>col' fin'. fold_result (\<lambda>(col, order) i. bind_result (rd col i) (\<lambda>c.
       if c = WHITE then dfs_loop succ [i] col order else Inr (col, order))) (col, fin) js = Inr (col', fin') \<and>
     rest_inv succ n col' fin' \<and> colored col' WHITE \<subseteq> colored col WHITE - set js"
  using assms(2,3)
proof (induction js arbitrary: col fin)
  case (Cons i js)
  have i: "0 \<le> i" "i < alen col" using Cons.prems by (auto simp: rest_inv_def)
  show ?case
  proof (cases "i \<in> colored col WHITE")
    case True
    obtain col1 fin1 where 1: "dfs_loop succ [i] col fin = Inr (col1, fin1)" "rest_inv succ n col1 fin1"
      "colored col1 WHITE \<subseteq> colored col WHITE - {i}"
      using first_round[OF assms(1) Cons.prems(1) True] by blast
    obtain col2 fin2 where 2: "fold_result (\<lambda>(col, order) i. bind_result (rd col i) (\<lambda>c.
       if c = WHITE then dfs_loop succ [i] col order else Inr (col, order))) (col1, fin1) js = Inr (col2, fin2)"
      "rest_inv succ n col2 fin2" "colored col2 WHITE \<subseteq> colored col1 WHITE - set js"
      using Cons.IH[OF 1(2)] Cons.prems(2) by auto
    have w: "elt col i = WHITE" using True by (simp add: colored_def)
    have "colored col2 WHITE \<subseteq> colored col WHITE - set (i # js)" using 1(3) 2(3) by auto
    then show ?thesis using 1(1) 2(1,2) i w by (simp del: dfs_loop.simps)
  next
    case False
    then have "elt col i \<noteq> WHITE" using i by (simp add: colored_def)
    then show ?thesis using Cons.IH[OF Cons.prems(1)] Cons.prems(2) i False by auto
  qed
qed (use assms in auto)

lemma first_search_correct:
  assumes ok: "succ_ok succ n" and n: "0 \<le> n"
  shows "\<exists>col order. first_search succ n = Inr (col, order) \<and> distinct order \<and> set order = {0..<n} \<and> finish_ok (edge_rel succ n) order"
proof -
  let ?col = "replicate (nat n) WHITE"
  have cols: "colored ?col GREY = {}" "colored ?col BLACK = {}" "colored ?col WHITE = {0..<n}" "alen ?col = n"
    using n by (auto simp: colored_def)
  then have "rest_inv succ n ?col []" by (simp add: rest_inv_def finish_ok_def)
  moreover have "set (rev [0..n - 1]) \<subseteq> {0..<n}" by auto
  ultimately obtain col order where run: "first_search succ n = Inr (col, order)" and inv: "rest_inv succ n col order"
    and none: "colored col WHITE \<subseteq> colored ?col WHITE - set (rev [0..n - 1])"
    using first_rounds[OF ok, of ?col "[]" "rev [0..n - 1]"] unfolding first_search_def by blast
  have "colored col WHITE = {}" using none cols(3) by auto
  then have "colored col BLACK = {0..<n}"
    using inv colored_cases[of _ col] by (auto simp: rest_inv_def) (auto simp: colored_def)
  then show ?thesis using run inv by (auto simp: rest_inv_def)
qed

section \<open>The second search\<close>

lemma set_insert_int: "set (insert_unique (<) (i :: int) xs) = insert i (set xs)"
  using by_value.keys_insert_unique[of i xs] by simp

lemma transpose_vertex:
  assumes "set ws \<subseteq> {0..<n}" "alen T = n"
  shows "\<exists>T'. fold_result (\<lambda>T j. bind_result (rd T j) (\<lambda>s. wr T j (insert_unique (<) i s))) T ws = Inr T' \<and> alen T' = n \<and>
    (\<forall>j. 0 \<le> j \<longrightarrow> j < n \<longrightarrow> set (elt T' j) = set (elt T j) \<union> (if j \<in> set ws then {i :: int} else {}))"
  using assms
proof (induction ws arbitrary: T)
  case (Cons w ws)
  then have w: "0 \<le> w" "w < alen T" by auto
  let ?T = "upd T w (insert_unique (<) i (elt T w))"
  obtain T' where "fold_result (\<lambda>T j. bind_result (rd T j) (\<lambda>s. wr T j (insert_unique (<) i s))) ?T ws = Inr T'" "alen T' = n"
    "\<forall>j. 0 \<le> j \<longrightarrow> j < n \<longrightarrow> set (elt T' j) = set (elt ?T j) \<union> (if j \<in> set ws then {i} else {})"
    using Cons.IH[of ?T] Cons.prems by auto
  then show ?case using w Cons.prems(2) by (auto simp: set_insert_int)
qed simp

lemma transposed_correct:
  assumes ok: "succ_ok succ n" and n: "0 \<le> n"
  shows "\<exists>T. transposed succ n = Inr T \<and> alen T = n \<and> (\<forall>j. 0 \<le> j \<longrightarrow> j < n \<longrightarrow> set (elt T j) = {i. 0 \<le> i \<and> i < n \<and> j \<in> set (succ i)})"
  unfolding transposed_def
proof (rule for_loop_rule[OF n, of "\<lambda>k T. alen T = n \<and> (\<forall>j. 0 \<le> j \<longrightarrow> j < n \<longrightarrow> set (elt T j) = {i. 0 \<le> i \<and> i < k \<and> j \<in> set (succ i)})"])
  show "alen (replicate (nat n) ([] :: int list)) = n \<and>
      (\<forall>j. 0 \<le> j \<longrightarrow> j < n \<longrightarrow> set (elt (replicate (nat n) []) j) = {i. 0 \<le> i \<and> i < 0 \<and> j \<in> set (succ i)})"
    using n by auto
next
  fix k T assume k: "0 \<le> k" "k < n"
    and T: "alen T = n \<and> (\<forall>j. 0 \<le> j \<longrightarrow> j < n \<longrightarrow> set (elt T j) = {i. 0 \<le> i \<and> i < k \<and> j \<in> set (succ i)})"
  have "set (succ k) \<subseteq> {0..<n}" using succ_okD[OF ok k] by auto
  then obtain T' where T': "fold_result (\<lambda>T j. bind_result (rd T j) (\<lambda>s. wr T j (insert_unique (<) k s))) T (succ k) = Inr T'"
    "alen T' = n" "\<forall>j. 0 \<le> j \<longrightarrow> j < n \<longrightarrow> set (elt T' j) = set (elt T j) \<union> (if j \<in> set (succ k) then {k} else {})"
    using transpose_vertex[of "succ k" n T k] T by blast
  have "{i. 0 \<le> i \<and> i < k + 1 \<and> j \<in> set (succ i)} = {i. 0 \<le> i \<and> i < k \<and> j \<in> set (succ i)} \<union> (if j \<in> set (succ k) then {k} else {})" for j
    using k by (auto simp: order_le_less)
  then show "\<exists>T'. fold_result (\<lambda>T j. bind_result (rd T j) (\<lambda>s. wr T j (insert_unique (<) k s))) T (succ k) = Inr T' \<and>
      alen T' = n \<and> (\<forall>j. 0 \<le> j \<longrightarrow> j < n \<longrightarrow> set (elt T' j) = {i. 0 \<le> i \<and> i < k + 1 \<and> j \<in> set (succ i)})"
    using T T' by auto
qed

definition component :: "(int \<times> int) set \<Rightarrow> int \<Rightarrow> int set" where
  "component R r = {x. (x, r) \<in> R\<^sup>* \<and> (r, x) \<in> R\<^sup>*}"

lemma component_same: "x \<in> component R r \<Longrightarrow> component R x = component R r"
  by (auto simp: component_def intro: rtrancl_trans)

text \<open>
  Where the vertices that are no longer white are closed under predecessors, and all those before \<open>r\<close> in the order of the
  first search are among them, the second search from \<open>r\<close> visits the component of \<open>r\<close>.
\<close>

lemma within_converse: "x \<in> within (R\<inverse>) W r \<longleftrightarrow> (x, r) \<in> (R \<inter> W \<times> UNIV)\<^sup>*"
proof -
  have "(R\<inverse> \<inter> UNIV \<times> W) = (R \<inter> W \<times> UNIV)\<inverse>" by auto
  then show ?thesis by (simp add: within_def rtrancl_converse)
qed

lemma closed_path: "(u, w) \<in> R\<^sup>* \<Longrightarrow> w \<in> B \<Longrightarrow> (\<And>u w. (u, w) \<in> R \<Longrightarrow> w \<in> B \<Longrightarrow> u \<in> B) \<Longrightarrow> u \<in> B"
  by (induction rule: converse_rtrancl_induct) auto

lemma within_component:
  assumes fin: "finish_ok R (pre @ r # post)" and r: "r \<notin> B" and pre: "set pre \<subseteq> B"
    and all: "Field R \<subseteq> set (pre @ r # post)"
    and closed: "\<And>u w. (u, w) \<in> R \<Longrightarrow> w \<in> B \<Longrightarrow> u \<in> B"
  shows "within (R\<inverse>) (set (pre @ r # post) - B) r = component R r"
proof (intro equalityI subsetI)
  let ?W = "set (pre @ r # post) - B"
  fix x assume x: "x \<in> within (R\<inverse>) ?W r"
  have sub: "?W \<subseteq> insert r (set post)" using pre by auto
  have p: "(x, r) \<in> (R \<inter> ?W \<times> UNIV)\<^sup>*" using x by (simp add: within_converse)
  have "(x, r) \<in> (R \<inter> insert r (set post) \<times> UNIV)\<^sup>*" using p rtrancl_mono[of "R \<inter> ?W \<times> UNIV" "R \<inter> insert r (set post) \<times> UNIV"] sub by blast
  from path_through[OF this] have q: "(x, r) \<in> (R \<inter> set post \<times> UNIV)\<^sup>*" by simp
  have "(r, x) \<in> R\<^sup>*"
  proof (cases "x = r")
    case False
    then have "x \<in> ?W" using p by (auto elim: converse_rtranclE)
    then have "x \<in> set post" using sub False by auto
    then show ?thesis using fin q unfolding finish_ok_def by blast
  qed simp
  moreover have "(x, r) \<in> R\<^sup>*" using p rtrancl_mono[of "R \<inter> ?W \<times> UNIV" R] by blast
  ultimately show "x \<in> component R r" by (simp add: component_def)
next
  let ?W = "set (pre @ r # post) - B"
  fix x assume "x \<in> component R r"
  then have x: "(x, r) \<in> R\<^sup>*" "(r, x) \<in> R\<^sup>*" by (auto simp: component_def)
  have "(y, r) \<in> R\<^sup>* \<Longrightarrow> (x, y) \<in> R\<^sup>* \<Longrightarrow> (y, r) \<in> (R \<inter> ?W \<times> UNIV)\<^sup>*" for y
  proof (induction rule: converse_rtrancl_induct)
    case (step y z)
    have "(r, y) \<in> R\<^sup>*" using x(2) step.prems by (rule rtrancl_trans)
    then have "y \<notin> B" using closed_path[of r y R B] closed r by blast
    moreover have "y \<in> set (pre @ r # post)" using all step.hyps(1) by (auto simp: Field_def)
    ultimately have "(y, z) \<in> R \<inter> ?W \<times> UNIV" using step.hyps(1) by auto
    moreover have "(z, r) \<in> (R \<inter> ?W \<times> UNIV)\<^sup>*" using step by (meson rtrancl.rtrancl_into_rtrancl)
    ultimately show ?case by (rule converse_rtrancl_into_rtrancl)
  qed simp
  from this[OF x(1)] show "x \<in> within (R\<inverse>) ?W r" by (simp add: within_converse)
qed

lemma within_closed: "w \<in> within (R\<inverse>) W r \<Longrightarrow> (u, w) \<in> R \<Longrightarrow> u \<in> W \<Longrightarrow> u \<in> within (R\<inverse>) W r"
  unfolding within_converse by (rule converse_rtrancl_into_rtrancl[of u w]) auto

text \<open>The sets found so far: what they hold is no longer white, each is a component, and no edge leads back.\<close>

definition found_ok :: "(int \<times> int) set \<Rightarrow> int list list \<Rightarrow> bool" where
  "found_ok R result \<longleftrightarrow> distinct (concat result) \<and> (\<forall>c \<in> set result. \<exists>r \<in> set c. set c = component R r) \<and>
     sorted_wrt (\<lambda>c d. R \<inter> set d \<times> set c = {}) result"

definition second_inv :: "(int \<times> int) set \<Rightarrow> int \<Rightarrow> color list \<Rightarrow> int list list \<Rightarrow> bool" where
  "second_inv R n col result \<longleftrightarrow> alen col = n \<and> colored col GREY = {} \<and> set (concat result) = colored col BLACK \<and>
     found_ok R result \<and> (\<forall>u w. (u, w) \<in> R \<and> w \<in> colored col BLACK \<longrightarrow> u \<in> colored col BLACK)"

lemma second_round:
  assumes ok: "succ_ok T n" and R: "edge_rel T n = R\<inverse>" and fin: "finish_ok R (pre @ r # post)" and order: "set (pre @ r # post) = {0..<n}"
    and inv: "second_inv R n col result" and pre: "set pre \<subseteq> colored col BLACK" and r: "r \<in> colored col WHITE"
  shows "\<exists>col' s. dfs_loop T [r] col [] = Inr (col', s) \<and> second_inv R n col' (result @ [sort (remdups s)]) \<and>
    colored col' BLACK = insert r (colored col BLACK \<union> colored col' BLACK)"
proof -
  let ?B = "colored col BLACK" and ?W = "colored col WHITE" and ?C = "component R r"
  have rB: "r \<notin> ?B" using r by (auto dest: colored_disjoint)
  have col: "alen col = n" "colored col GREY = {}" "\<And>u w. (u, w) \<in> R \<Longrightarrow> w \<in> ?B \<Longrightarrow> u \<in> ?B" "set (concat result) = ?B"
    using inv unfolding second_inv_def by blast+
  have W: "?W = set (pre @ r # post) - ?B"
    unfolding order using colored_cases[of _ col] col(1,2) by (auto dest: colored_disjoint) (auto simp: colored_def)
  have field: "Field R \<subseteq> set (pre @ r # post)"
  proof -
    have "0 \<le> u \<and> u < n \<and> 0 \<le> w \<and> w < n" if "(w, u) \<in> R" for u w
    proof -
      have "(u, w) \<in> edge_rel T n" using that by (simp add: R)
      then show ?thesis using succ_okD[OF ok, of u w] by (auto simp: edge_rel_def)
    qed
    then show ?thesis unfolding order by (force simp: Field_def)
  qed
  have C: "within (edge_rel T n) ?W r = ?C" unfolding R W by (rule within_component[OF fin rB pre field col(3)])
  have start: "search_inv T n ?W ?W {} r [r] col []"
    using ok r col(1,2) by (auto simp: search_inv_def stack_ok_def within_def dest: colored_disjoint) (auto simp: colored_def)
  obtain col' s where run: "dfs_loop T [r] col [] = Inr (col', s)" and e: "search_inv T n ?W ?W {} r [] col' s"
    using visited.search_runs[OF refl start] by blast
  note d = search_done[OF e] search_invD(2,7,12)[OF e]
  have s: "set s = ?C" using d(3) C by simp
  have CW: "?C \<subseteq> ?W" using d(2) C by auto
  have black: "colored col' BLACK = ?B \<union> ?C"
  proof -
    have all: "colored c WHITE \<union> colored c BLACK = {0..<n}" if "alen c = n" "colored c GREY = {}" for c
    proof -
      have "x \<in> colored c WHITE \<union> colored c BLACK \<longleftrightarrow> x \<in> {0..<n}" for x
        using colored_cases[of x c] colored_range[of x c] that by auto
      then show ?thesis by blast
    qed
    have "colored col' BLACK = {0..<n} - colored col' WHITE" "?B = {0..<n} - ?W"
      using all[OF d(4,1)] all[OF col(1,2)] colored_disjoint[of _ col' WHITE BLACK] colored_disjoint[of _ col WHITE BLACK] by auto
    moreover have "?W - colored col' WHITE = ?C" "colored col' WHITE \<subseteq> ?W" "?W \<subseteq> {0..<n}" using d C all[OF col(1,2)] by auto
    ultimately show ?thesis by auto
  qed
  have rC: "r \<in> ?C" by (simp add: component_def)
  have closed: "u \<in> ?B \<union> ?C" if "(u, w) \<in> R" "w \<in> ?B \<union> ?C" for u w
  proof (cases "u \<in> ?W")
    case True
    then have "w \<in> ?C" using that col(3)[OF that(1)] by (auto dest: colored_disjoint)
    then show ?thesis using within_closed[of w R ?W r u] C that(1) True by (simp add: R)
  next
    case False
    have "u \<in> set (pre @ r # post)" using field that(1) by (auto simp: Field_def)
    then show ?thesis using False W by auto
  qed
  have "R \<inter> ?C \<times> set d = {}" if "d \<in> set result" for d
  proof -
    have "set d \<subseteq> ?B" using that col(4) by auto
    moreover have "?W \<inter> ?B = {}" using colored_disjoint[of _ col WHITE BLACK] by auto
    ultimately show ?thesis using col(3) CW by blast
  qed
  then have "found_ok R (result @ [sort (remdups s)])"
    using inv s CW col(4) rC by (auto simp: second_inv_def found_ok_def sorted_wrt_append dest: colored_disjoint)
  then have "second_inv R n col' (result @ [sort (remdups s)])"
    using d(1,4) black closed col(4) s by (simp add: second_inv_def) blast
  then show ?thesis using run black rC by auto
qed

lemma second_rounds:
  assumes "succ_ok T n" "edge_rel T n = R\<inverse>" "finish_ok R (pre @ post)" "set (pre @ post) = {0..<n}"
    "second_inv R n col result" "set pre \<subseteq> colored col BLACK"
  shows "\<exists>col' result'. fold_result (\<lambda>(col, result) r. bind_result (rd col r) (\<lambda>c.
       if c = WHITE
       then bind_result (dfs_loop T [r] col []) (\<lambda>(col, s). Inr (col, result @ [sort (remdups s)]))
       else Inr (col, result))) (col, result) post = Inr (col', result') \<and>
     second_inv R n col' result' \<and> set (pre @ post) \<subseteq> colored col' BLACK"
  using assms(3-6)
proof (induction post arbitrary: pre col result)
  case (Cons r post)
  have r: "0 \<le> r" "r < alen col" using Cons.prems(2,3) by (auto simp: second_inv_def)
  have split: "pre @ r # post = (pre @ [r]) @ post" by simp
  show ?case
  proof (cases "r \<in> colored col WHITE")
    case True
    obtain col1 s where 1: "dfs_loop T [r] col [] = Inr (col1, s)" "second_inv R n col1 (result @ [sort (remdups s)])"
      "colored col1 BLACK = insert r (colored col BLACK \<union> colored col1 BLACK)"
      using second_round[OF assms(1,2) Cons.prems(1,2,3,4) True] by blast
    have w: "elt col r = WHITE" using True by (simp add: colored_def)
    have "set (pre @ [r]) \<subseteq> colored col1 BLACK" using 1(3) Cons.prems(4) by auto
    from Cons.IH[OF Cons.prems(1)[unfolded split] Cons.prems(2)[unfolded split] 1(2) this]
    show ?thesis using 1(1) r w by (simp del: dfs_loop.simps)
  next
    case False
    then have w: "elt col r \<noteq> WHITE" using r by (simp add: colored_def)
    have "r \<in> colored col BLACK" using False colored_cases[OF r] Cons.prems(3) by (auto simp: second_inv_def)
    then have "set (pre @ [r]) \<subseteq> colored col BLACK" using Cons.prems(4) by auto
    from Cons.IH[OF Cons.prems(1)[unfolded split] Cons.prems(2)[unfolded split] Cons.prems(3) this]
    show ?thesis using r w by (simp del: dfs_loop.simps)
  qed
qed (use assms in auto)

section \<open>The sort\<close>

definition graph_edges :: "('v, 'e, 'm) graph_scheme \<Rightarrow> (int \<times> int) set" where
  "graph_edges g = edge_rel (successors g) (vertexCount g)"

definition no_self_loops :: "('v, 'e, 'm) graph_scheme \<Rightarrow> bool" where
  "no_self_loops g \<longleftrightarrow> list_all (\<lambda>v. v \<notin> set (successors g v)) [0..vertexCount g - 1]"

lemma succ_ok_graph: "graph_ok g \<Longrightarrow> no_self_loops g \<Longrightarrow> succ_ok (successors g) (vertexCount g)"
proof -
  assume ok: "graph_ok g" and loops: "no_self_loops g"
  have "0 \<le> w \<and> w < vertexCount g \<and> w \<noteq> u" if "0 \<le> u" "u < vertexCount g" "w \<in> set (successors g u)" for u w
  proof -
    have "u \<notin> set (successors g u)" using loops that(1,2) by (simp add: no_self_loops_def list_all_iff)
    moreover have "in_graph g w" using successors_range[OF ok, of u w] that by (simp add: in_graph_def)
    ultimately show ?thesis using that(3) unfolding in_graph_def by blast
  qed
  then show ?thesis unfolding succ_ok_def by blast
qed

lemma sort_components:
  assumes ok: "succ_ok succ n" and n: "0 \<le> n"
  shows "\<exists>col order T col' result. first_search succ n = Inr (col, order) \<and> transposed succ n = Inr T \<and>
    second_search T order = Inr (col', result) \<and> set (concat result) = {0..<n} \<and> found_ok (edge_rel succ n) result"
proof -
  let ?R = "edge_rel succ n"
  obtain col order where 1: "first_search succ n = Inr (col, order)" "distinct order" "set order = {0..<n}" "finish_ok ?R order"
    using first_search_correct[OF ok n] by blast
  obtain T where T: "transposed succ n = Inr T" "alen T = n"
    "\<And>j. 0 \<le> j \<Longrightarrow> j < n \<Longrightarrow> set (elt T j) = {i. 0 \<le> i \<and> i < n \<and> j \<in> set (succ i)}"
    using transposed_correct[OF ok n] by blast
  have R: "edge_rel (elt T) n = ?R\<inverse>"
  proof -
    have "(u, w) \<in> edge_rel (elt T) n \<longleftrightarrow> (u, w) \<in> ?R\<inverse>" for u w
    proof (cases "0 \<le> u \<and> u < n")
      case True
      then show ?thesis using T(3)[of u] by (simp add: edge_rel_def)
    next
      case False
      then have "(w, u) \<notin> ?R" using succ_okD[OF ok, of w u] unfolding edge_rel_def by blast
      moreover have "(u, w) \<notin> edge_rel (elt T) n" using False by (auto simp: edge_rel_def)
      ultimately show ?thesis by blast
    qed
    then show ?thesis by (intro set_eqI) (metis surj_pair)
  qed
  have okT: "succ_ok (elt T) n"
    unfolding succ_ok_def using T(3) succ_okD[OF ok] by blast
  have len: "length order = nat n" using distinct_card[OF 1(2)] 1(3) n by simp
  let ?col = "replicate (length order) WHITE"
  have cols: "colored ?col GREY = {}" "colored ?col BLACK = {}" "alen ?col = n"
    unfolding len using n by (auto simp: colored_def)
  then have start: "second_inv ?R n ?col []" by (simp add: second_inv_def found_ok_def)
  obtain col' result where run: "second_search T order = Inr (col', result)" and inv: "second_inv ?R n col' result"
    and all: "set ([] @ order) \<subseteq> colored col' BLACK"
    using second_rounds[OF okT R, of "[]" order ?col "[]"] 1(3,4) start unfolding second_search_def by auto
  have "set (concat result) = {0..<n}"
    using inv all 1(3) colored_range[of _ col' BLACK] unfolding second_inv_def by force
  then show ?thesis using 1(1) T(1) run inv unfolding second_inv_def by blast
qed

text \<open>C11: For a well-formed graph without an edge from a vertex to itself \<open>topoSort\<close> returns, without
  an access outside of its arrays, a partition of the vertices; each set of it is a strongly connected component, and no
  edge leads from a set to one before it.\<close>

theorem topoSort_correct:
  assumes "graph_ok g" "no_self_loops g"
  shows "\<exists>result. topoSort g = Inr result \<and> distinct (concat result) \<and> set (concat result) = {0..<vertexCount g} \<and>
    list_all (\<lambda>c. \<exists>r \<in> set c. set c = component (graph_edges g) r) result \<and>
    sorted_wrt (\<lambda>c d. graph_edges g \<inter> set d \<times> set c = {}) result"
proof -
  have "0 \<le> vertexCount g" by (simp add: vertexCount_def)
  from sort_components[OF succ_ok_graph[OF assms] this] show ?thesis
    by (auto simp: topoSort_def found_ok_def graph_edges_def list_all_iff)
qed

definition comment_graph :: "(unit, unit) graph" where
  "comment_graph = \<lparr>vertex = map (\<lambda>es. ((), map (\<lambda>j. (j, [()])) es)) [[1, 2], [2], [1, 3], []], directed = True\<rparr>"

theorem topoSort_correct_witness:
  "topoSort comment_graph = Inr [[0], [1, 2], [3]] \<and> (\<exists>r. component (graph_edges comment_graph) r = {1, 2})"
proof -
  have "graph_ok comment_graph" "no_self_loops comment_graph" by code_simp+
  from topoSort_correct[OF this] obtain result where r: "topoSort comment_graph = Inr result"
    "list_all (\<lambda>c. \<exists>r \<in> set c. set c = component (graph_edges comment_graph) r) result" by blast
  have run: "topoSort comment_graph = Inr [[0], [1, 2], [3]]" by code_simp
  then have "result = [[0], [1, 2], [3]]" using r(1) by simp
  then have "\<exists>r \<in> set [1, 2]. set [1, 2] = component (graph_edges comment_graph) r" using r(2) by (simp only: list.pred_inject)
  then have "\<exists>r. component (graph_edges comment_graph) r = {1, 2}" by auto
  then show ?thesis using run by blast
qed

section \<open>The sort in layers\<close>

lemma distinct_count: "distinct xs \<Longrightarrow> count_list xs v = (if v \<in> set xs then 1 else 0)"
  by (induction xs) auto

lemma count_card:
  "distinct us \<Longrightarrow> (\<And>u. u \<in> set us \<Longrightarrow> distinct (succ u)) \<Longrightarrow>
    count_list (concat (map succ us)) v = card {u \<in> set us. v \<in> set (succ u)}"
proof (induction us)
  case (Cons u us)
  have "{x \<in> set (u # us). v \<in> set (succ x)} = (if v \<in> set (succ u) then {u} else {}) \<union> {x \<in> set us. v \<in> set (succ x)}" by auto
  moreover have "count_list (succ u) v = (if v \<in> set (succ u) then 1 else 0)"
    using Cons.prems(2)[of u] by (simp add: distinct_count)
  ultimately show ?case using Cons by auto
qed simp

lemma inc_edges:
  assumes "set es \<subseteq> {0..<n}" "alen cnt = n"
  shows "\<exists>cnt'. fold_result (\<lambda>cnt e. bind_result (rd cnt e) (\<lambda>c. wr cnt e (c + 1))) cnt es = Inr cnt' \<and> alen cnt' = n \<and>
    (\<forall>v. 0 \<le> v \<longrightarrow> v < n \<longrightarrow> elt cnt' v = elt cnt v + int (count_list es v))"
  using assms
proof (induction es arbitrary: cnt)
  case (Cons e es)
  then have e: "0 \<le> e" "e < alen cnt" by auto
  let ?cnt = "upd cnt e (elt cnt e + 1)"
  obtain cnt' where "fold_result (\<lambda>cnt e. bind_result (rd cnt e) (\<lambda>c. wr cnt e (c + 1))) ?cnt es = Inr cnt'" "alen cnt' = n"
    "\<forall>v. 0 \<le> v \<longrightarrow> v < n \<longrightarrow> elt cnt' v = elt ?cnt v + int (count_list es v)"
    using Cons.IH[of ?cnt] Cons.prems by auto
  then show ?case using e Cons.prems(2) by auto
qed simp

definition reached_zero :: "int \<Rightarrow> int list \<Rightarrow> int list \<Rightarrow> int set" where
  "reached_zero n cnt0 cnt = {v. 0 \<le> v \<and> v < n \<and> 0 < elt cnt0 v \<and> elt cnt v \<le> 0}"

lemma drop_edges:
  assumes "set es \<subseteq> {0..<n}" "alen cnt = n" "set s = reached_zero n cnt0 cnt" "sorted_wrt (<) s"
    "\<forall>v. 0 \<le> v \<longrightarrow> v < n \<longrightarrow> elt cnt v \<le> elt cnt0 v"
  shows "\<exists>cnt' s'. fold_result drop_in_edge (cnt, s) es = Inr (cnt', s') \<and> alen cnt' = n \<and>
    (\<forall>v. 0 \<le> v \<longrightarrow> v < n \<longrightarrow> elt cnt' v = elt cnt v - int (count_list es v)) \<and>
    set s' = reached_zero n cnt0 cnt' \<and> sorted_wrt (<) s'"
  using assms
proof (induction es arbitrary: cnt s)
  case (Cons e es)
  then have e: "0 \<le> e" "e < n" "e < alen cnt" by auto
  let ?cnt = "upd cnt e (elt cnt e - 1)" and ?s = "if elt cnt e - 1 = 0 then insert_unique (<) e s else s"
  have "set ?s = reached_zero n cnt0 ?cnt"
    using Cons.prems(2,3,5) e by (auto simp: reached_zero_def set_insert_int split: if_splits)
  moreover have "sorted_wrt (<) ?s" using by_value.sorted_insert_unique[OF Cons.prems(4)] Cons.prems(4) by simp
  moreover have "\<forall>v. 0 \<le> v \<longrightarrow> v < n \<longrightarrow> elt ?cnt v \<le> elt cnt0 v" using Cons.prems(2,5) e by fastforce
  ultimately obtain cnt' s' where r: "fold_result drop_in_edge (?cnt, ?s) es = Inr (cnt', s')" "alen cnt' = n"
    "\<forall>v. 0 \<le> v \<longrightarrow> v < n \<longrightarrow> elt cnt' v = elt ?cnt v - int (count_list es v)" "set s' = reached_zero n cnt0 cnt'" "sorted_wrt (<) s'"
    using Cons.IH[of ?cnt ?s] Cons.prems(1,2) by auto
  have "drop_in_edge (cnt, s) e = Inr (?cnt, ?s)" using e by (simp add: drop_in_edge_def)
  then show ?case using r e Cons.prems(2) by (auto simp del: drop_in_edge_def)
qed auto

text \<open>
  What the sort in layers promises: a layer is the set of all vertices that are in no earlier one and whose predecessors
  all are.
\<close>

fun layers_ok :: "(int \<times> int) set \<Rightarrow> int set \<Rightarrow> int set \<Rightarrow> int list list \<Rightarrow> bool" where
  "layers_ok R V P [] \<longleftrightarrow> (\<forall>v \<in> V - P. \<not> R\<inverse> `` {v} \<subseteq> P)"
| "layers_ok R V P (l # ls) \<longleftrightarrow> l \<noteq> [] \<and> sorted_wrt (<) l \<and> set l = {v \<in> V - P. R\<inverse> `` {v} \<subseteq> P} \<and> layers_ok R V (P \<union> set l) ls"

definition graph_fine :: "(int \<Rightarrow> int list) \<Rightarrow> int \<Rightarrow> bool" where
  "graph_fine succ n \<longleftrightarrow> (\<forall>u. 0 \<le> u \<and> u < n \<longrightarrow> set (succ u) \<subseteq> {0..<n} \<and> distinct (succ u))"

definition preds_outside :: "(int \<Rightarrow> int list) \<Rightarrow> int \<Rightarrow> int set \<Rightarrow> int \<Rightarrow> int set" where
  "preds_outside succ n P v = {u. 0 \<le> u \<and> u < n \<and> u \<notin> P \<and> v \<in> set (succ u)}"

lemma finite_preds [simp]: "finite (preds_outside succ n P v)"
  by (rule finite_subset[of _ "{0..<n}"]) (auto simp: preds_outside_def)

lemma preds_outside_empty: "graph_fine succ n \<Longrightarrow> preds_outside succ n P v = {} \<longleftrightarrow> (edge_rel succ n)\<inverse> `` {v} \<subseteq> P"
  by (auto simp: preds_outside_def edge_rel_def)

definition packed_inv :: "(int \<Rightarrow> int list) \<Rightarrow> int \<Rightarrow> int set \<Rightarrow> int list \<Rightarrow> int list \<Rightarrow> bool" where
  "packed_inv succ n P cnt s \<longleftrightarrow> alen cnt = n \<and> sorted_wrt (<) s \<and> P \<subseteq> {0..<n} \<and>
     (\<forall>v. 0 \<le> v \<longrightarrow> v < n \<longrightarrow> elt cnt v = int (card (preds_outside succ n P v))) \<and>
     (\<forall>v \<in> P. elt cnt v = 0) \<and> set s = {v. 0 \<le> v \<and> v < n \<and> v \<notin> P \<and> elt cnt v = 0}"

lemma packed_inv_layer:
  assumes "graph_fine succ n" "packed_inv succ n P cnt s"
  shows "set s = {v \<in> {0..<n} - P. (edge_rel succ n)\<inverse> `` {v} \<subseteq> P}"
  using assms(2) preds_outside_empty[OF assms(1)] by (auto simp: packed_inv_def)

lemma packed_step:
  assumes ok: "graph_fine succ n" and inv: "packed_inv succ n P cnt s"
  shows "\<exists>cnt' s'. drop_vertices succ cnt s = Inr (cnt', s') \<and> packed_inv succ n (P \<union> set s) cnt' s'"
proof -
  have i: "alen cnt = n" "sorted_wrt (<) s" "P \<subseteq> {0..<n}" "\<And>v. 0 \<le> v \<Longrightarrow> v < n \<Longrightarrow> elt cnt v = int (card (preds_outside succ n P v))"
    "\<And>v. v \<in> P \<Longrightarrow> elt cnt v = 0" "set s = {v. 0 \<le> v \<and> v < n \<and> v \<notin> P \<and> elt cnt v = 0}"
    using inv unfolding packed_inv_def by blast+
  have s: "distinct s" "set s \<subseteq> {0..<n}" using i(2,6) strict_sorted_iff by auto
  let ?es = "concat (map succ s)"
  have es: "set ?es \<subseteq> {0..<n}" using ok s(2) by (fastforce simp: graph_fine_def)
  have "reached_zero n cnt cnt = {}" by (auto simp: reached_zero_def)
  then obtain cnt' s' where r: "drop_vertices succ cnt s = Inr (cnt', s')" "alen cnt' = n"
    "\<And>v. 0 \<le> v \<Longrightarrow> v < n \<Longrightarrow> elt cnt' v = elt cnt v - int (count_list ?es v)" "set s' = reached_zero n cnt cnt'" "sorted_wrt (<) s'"
    using drop_edges[OF es i(1), of "[]" cnt] by (auto simp: drop_vertices_def nested_fold)
  have count: "int (count_list ?es v) = int (card {u \<in> set s. v \<in> set (succ u)})" for v
  proof -
    have "distinct (succ u)" if "u \<in> set s" for u using ok s(2) that unfolding graph_fine_def by auto
    then show ?thesis using count_card[OF s(1), of succ v] by simp
  qed
  have cnt': "elt cnt' v = int (card (preds_outside succ n (P \<union> set s) v))" if "0 \<le> v" "v < n" for v
  proof -
    have "preds_outside succ n P v = preds_outside succ n (P \<union> set s) v \<union> {u \<in> set s. v \<in> set (succ u)}"
      "preds_outside succ n (P \<union> set s) v \<inter> {u \<in> set s. v \<in> set (succ u)} = {}"
      using i(6) by (auto simp: preds_outside_def)
    then have "card (preds_outside succ n P v) = card (preds_outside succ n (P \<union> set s) v) + card {u \<in> set s. v \<in> set (succ u)}"
      by (metis (no_types, lifting) card_Un_disjoint finite_preds finite_Un)
    then show ?thesis using r(3)[OF that] i(4)[OF that] count by simp
  qed
  have zero: "elt cnt' v = 0" if "v \<in> P \<union> set s" for v
  proof -
    have v: "0 \<le> v" "v < n" "elt cnt v = 0" using that i(3,5,6) by auto
    then show ?thesis using r(3)[OF v(1,2)] cnt'[OF v(1,2)] by linarith
  qed
  have "elt cnt v = 0 \<Longrightarrow> 0 \<le> v \<Longrightarrow> v < n \<Longrightarrow> v \<in> P \<union> set s" for v using i(6) by auto
  then have "set s' = {v. 0 \<le> v \<and> v < n \<and> v \<notin> P \<union> set s \<and> elt cnt' v = 0}"
    unfolding r(4) reached_zero_def using i(4,5,6) cnt' by (auto; force)
  then show ?thesis using r cnt' zero i(3) s(2) by (auto simp: packed_inv_def)
qed

lemma packed_loop_correct:
  assumes ok: "graph_fine succ n"
  shows "sc = succ \<Longrightarrow> packed_inv succ n P cnt s \<Longrightarrow>
    \<exists>ls. packed_loop sc cnt s result = Inr (result @ ls) \<and> layers_ok (edge_rel succ n) {0..<n} P ls"
proof (induction sc cnt s result arbitrary: P rule: packed_loop.induct)
  case (1 sc cnt result)
  then show ?case using packed_inv_layer[OF ok, of P cnt "[]"] by auto
next
  case (2 sc cnt i s result)
  obtain cnt' s' where r: "drop_vertices succ cnt (i # s) = Inr (cnt', s')" "packed_inv succ n (P \<union> set (i # s)) cnt' s'"
    using packed_step[OF ok 2(3)] by blast
  obtain ls where ls: "packed_loop succ cnt' s' (result @ [i # s]) = Inr ((result @ [i # s]) @ ls)"
    "layers_ok (edge_rel succ n) {0..<n} (P \<union> set (i # s)) ls"
    using 2(1)[OF _ refl 2(2) r(2)] r(1) 2(2) by auto
  have "sorted_wrt (<) (i # s)" using 2(3) by (simp add: packed_inv_def)
  then have "layers_ok (edge_rel succ n) {0..<n} P ((i # s) # ls)"
    using ls(2) packed_inv_layer[OF ok 2(3)] unfolding layers_ok.simps by blast
  moreover have "packed_loop sc cnt (i # s) result = Inr (result @ (i # s) # ls)" using r(1) ls(1) 2(2) by simp
  ultimately show ?case by blast
qed

lemma edge_ends_distinct: "std_ok (<) es \<Longrightarrow> distinct (map fst (es :: 'e edge_list))"
  by (induction es) (auto simp: list_all_iff)

lemma successors_distinct: "graph_ok g \<Longrightarrow> in_graph g v \<Longrightarrow> distinct (successors g v)"
proof -
  assume "graph_ok g" "in_graph g v"
  then have "std_ok (<) (out_edges g v)" by (rule graph_okD)
  then show ?thesis unfolding successors_def by (rule edge_ends_distinct)
qed

lemma graph_fine_graph: "graph_ok g \<Longrightarrow> graph_fine (successors g) (vertexCount g)"
proof -
  assume ok: "graph_ok g"
  have "set (successors g u) \<subseteq> {0..<vertexCount g} \<and> distinct (successors g u)" if "0 \<le> u" "u < vertexCount g" for u
  proof -
    have u: "in_graph g u" using that by (simp add: in_graph_def)
    then have "w \<in> {0..<vertexCount g}" if "w \<in> set (successors g u)" for w
      using successors_range[OF ok u that] by (simp add: in_graph_def)
    then show ?thesis using successors_distinct[OF ok u] by blast
  qed
  then show ?thesis unfolding graph_fine_def by blast
qed

lemma count_edges_correct:
  assumes ok: "graph_fine succ n" and n: "0 \<le> n"
  shows "\<exists>cnt. count_edges succ n = Inr cnt \<and> packed_inv succ n {} cnt (filter (\<lambda>i. elt cnt i = 0) [0..n - 1])"
proof -
  have es: "set (concat (map succ [0..n - 1])) \<subseteq> {0..<n}" using ok by (fastforce simp: graph_fine_def)
  obtain cnt where c: "count_edges succ n = Inr cnt" "alen cnt = n"
    "\<And>v. 0 \<le> v \<Longrightarrow> v < n \<Longrightarrow> elt cnt v = int (count_list (concat (map succ [0..n - 1])) v)"
    using inc_edges[OF es, of "replicate (nat n) 0"] n by (auto simp: count_edges_def for_loop_def nested_fold)
  have "elt cnt v = int (card (preds_outside succ n {} v))" if "0 \<le> v" "v < n" for v
  proof -
    have "count_list (concat (map succ [0..n - 1])) v = card {u \<in> set [0..n - 1]. v \<in> set (succ u)}"
      by (rule count_card) (use ok in \<open>auto simp: graph_fine_def\<close>)
    moreover have "{u \<in> set [0..n - 1]. v \<in> set (succ u)} = preds_outside succ n {} v" by (auto simp: preds_outside_def)
    ultimately show ?thesis using c(3)[OF that] by simp
  qed
  moreover have "sorted_wrt (<) (filter (\<lambda>i. elt cnt i = 0) [0..n - 1])" by (rule sorted_wrt_filter) simp
  ultimately have "packed_inv succ n {} cnt (filter (\<lambda>i. elt cnt i = 0) [0..n - 1])"
    using c(2) by (auto simp: packed_inv_def)
  then show ?thesis using c(1) by blast
qed

lemma layers_accessible:
  assumes "layers_ok R V P ls" "P \<subseteq> Wellfounded.acc R" "Field R \<subseteq> V" "P \<subseteq> V"
  shows "P \<union> set (concat ls) = V \<inter> Wellfounded.acc R \<and> distinct (concat ls) \<and> P \<inter> set (concat ls) = {}"
  using assms
proof (induction ls arbitrary: P)
  case Nil
  have "v \<in> V \<Longrightarrow> v \<in> P" if "v \<in> Wellfounded.acc R" for v
    using that
  proof (induction rule: Wellfounded.acc.induct)
    case (accI v)
    have "R\<inverse> `` {v} \<subseteq> P" using accI Nil(3) by (auto simp: Field_def)
    then show ?case using Nil(1) accI(3) by auto
  qed
  then show ?case using Nil by auto
next
  case (Cons l ls)
  have l: "set l = {v \<in> V - P. R\<inverse> `` {v} \<subseteq> P}" "layers_ok R V (P \<union> set l) ls" "sorted_wrt (<) l" using Cons.prems(1) by auto
  have "v \<in> Wellfounded.acc R" if "v \<in> set l" for v
  proof (rule Wellfounded.acc.accI)
    fix u assume "(u, v) \<in> R"
    then have "u \<in> P" using that l(1) by blast
    then show "u \<in> Wellfounded.acc R" using Cons.prems(2) by blast
  qed
  then have acc: "P \<union> set l \<subseteq> Wellfounded.acc R" using Cons.prems(2) by blast
  have in_V: "set l \<inter> P = {}" "P \<union> set l \<subseteq> V" using l(1) Cons.prems(4) by auto
  have "distinct l" using l(3) strict_sorted_iff by blast
  then show ?case using Cons.IH[OF l(2) acc Cons.prems(3) in_V(2)] in_V(1) by auto
qed

text \<open>C23: For every well-formed graph \<open>packed_topoSort\<close> ends without an access outside of its array.
  Each layer is the set of all vertices that are in no earlier layer and whose predecessors all are; the layers are
  disjoint and hold exactly the vertices that no cycle leads to.\<close>

theorem packed_topoSort_correct:
  assumes "graph_ok g"
  shows "\<exists>ls. packed_topoSort g = Inr ls \<and> layers_ok (graph_edges g) {0..<vertexCount g} {} ls \<and> distinct (concat ls) \<and>
    set (concat ls) = {0..<vertexCount g} \<inter> Wellfounded.acc (graph_edges g)"
proof -
  note fine = graph_fine_graph[OF assms]
  have n: "0 \<le> vertexCount g" by (simp add: vertexCount_def)
  obtain cnt where cnt: "count_edges (successors g) (vertexCount g) = Inr cnt"
    "packed_inv (successors g) (vertexCount g) {} cnt (filter (\<lambda>i. elt cnt i = 0) [0..vertexCount g - 1])"
    using count_edges_correct[OF fine n] by blast
  obtain ls where ls: "packed_topoSort g = Inr ls" "layers_ok (graph_edges g) {0..<vertexCount g} {} ls"
    using packed_loop_correct[OF fine refl cnt(2), of "[]"] cnt(1) by (auto simp: packed_topoSort_def graph_edges_def)
  have "Field (graph_edges g) \<subseteq> {0..<vertexCount g}"
    using fine by (fastforce simp: graph_edges_def edge_rel_def graph_fine_def Field_def)
  from layers_accessible[OF ls(2) _ this] ls show ?thesis by auto
qed

theorem packed_topoSort_correct_witness:
  "packed_topoSort comment_graph = Inr [[0]] \<and> 1 \<notin> Wellfounded.acc (graph_edges comment_graph)"
proof -
  have "graph_ok comment_graph" "vertexCount comment_graph = 4" by code_simp+
  moreover have run: "packed_topoSort comment_graph = Inr [[0]]" by code_simp
  ultimately have "set (concat [[0]]) = {0..<4} \<inter> Wellfounded.acc (graph_edges comment_graph)"
    using packed_topoSort_correct[of comment_graph] by auto
  then have "1 \<notin> Wellfounded.acc (graph_edges comment_graph)" by (auto simp: set_eq_iff dest!: spec[of _ 1])
  then show ?thesis using run by blast
qed

end
