(* ===== verification/Dependence_Vector.thy ===== *)
theory Dependence_Vector
  imports C_Arrays "HOL-Library.Multiset"
begin

text \<open>
  Dependence vectors of the compiler CHiLL (\<open>chill/dep.cc\<close>, \<open>dep.hh\<close>): for each loop a range of distances between the
  source and the destination of a dependence. The distances that a vector stands for are its points; what the operations
  do is stated over them.
\<close>

section \<open>The vectors\<close>

datatype dependence_type = DEP_W2R | DEP_R2W | DEP_W2W | DEP_R2R | DEP_CONTROL | DEP_UNKNOWN

text \<open>
  The vectors \<open>lbounds\<close> and \<open>ubounds\<close> always have one length and are one list of pairs here. A symbol is its name. The
  field \<open>from_same_stmt\<close> is \<open>None\<close> where the code leaves it uninitialised. A bound is a \<open>long long\<close>; as all are between
  \<open>-posInfinity\<close> and \<open>posInfinity\<close>, a negation does not overflow.
\<close>

record dep_vector =
  dv_type :: dependence_type
  dv_sym :: "string option"
  from_same_stmt :: "bool option"
  is_reduction_cand :: bool
  is_reduction :: bool
  dv_bounds :: "(int \<times> int) list"
  quasi :: bool
  is_scalar_dependence :: bool

definition posInfinity :: int where
  "posInfinity = 0x7ffffffffffffff"

definition DependenceVector :: dep_vector where
  "DependenceVector = \<lparr>dv_type = DEP_UNKNOWN, dv_sym = None, from_same_stmt = Some False, is_reduction_cand = False,
     is_reduction = False, dv_bounds = [], quasi = False, is_scalar_dependence = False\<rparr>"

text \<open>The copy constructor and the assignment leave out \<open>from_same_stmt\<close>.\<close>

definition dv_copy :: "dep_vector \<Rightarrow> dep_vector" where
  "dv_copy d = d\<lparr>from_same_stmt := None\<rparr>"

definition dv_assign :: "dep_vector \<Rightarrow> dep_vector \<Rightarrow> dep_vector" where
  "dv_assign d other = other\<lparr>from_same_stmt := from_same_stmt d\<rparr>"

section \<open>Printing\<close>

definition bound_text :: "int \<times> int \<Rightarrow> string" where
  "bound_text = (\<lambda>(lbound, ubound).
     if lbound = ubound then show_int lbound
     else if lbound = - posInfinity then
       (if ubound = posInfinity then ''*''
        else if ubound = -1 then ''-'' else show_int ubound @ ''-'')
     else if ubound = posInfinity then
       (if lbound = 1 then ''+'' else show_int lbound @ ''+'')
     else show_int lbound @ ''~'' @ show_int ubound)"

fun bounds_text :: "(int \<times> int) list \<Rightarrow> string" where
  "bounds_text [] = ''''"
| "bounds_text [b] = bound_text b"
| "bounds_text (b # bs) = bound_text b @ '', '' @ bounds_text bs"

definition dep_vector_text :: "dep_vector \<Rightarrow> string" where
  "dep_vector_text d =
     (case dv_sym d of Some x \<Rightarrow> x @ '':'' @ (if quasi d then ''_quasi'' else '''') | None \<Rightarrow> '''') @
     (case dv_type d of
        DEP_W2R \<Rightarrow> ''flow'' @ (if is_reduction d then ''_reduction'' else '''')
      | DEP_R2W \<Rightarrow> ''anti'' @ (if is_reduction d then ''_reduction'' else '''')
      | DEP_W2W \<Rightarrow> ''output'' @ (if is_reduction d then ''_reduction'' else '''')
      | DEP_R2R \<Rightarrow> ''input''
      | DEP_CONTROL \<Rightarrow> ''control''
      | _ \<Rightarrow> ''unknown'') @
     ''('' @ bounds_text (dv_bounds d) @ '')''"

section \<open>Tests\<close>

definition is_data_dependence :: "dep_vector \<Rightarrow> bool" where
  "is_data_dependence d \<longleftrightarrow> dv_type d = DEP_W2R \<or> dv_type d = DEP_R2W \<or> dv_type d = DEP_W2W \<or> dv_type d = DEP_R2R"

definition is_control_dependence :: "dep_vector \<Rightarrow> bool" where
  "is_control_dependence d \<longleftrightarrow> dv_type d = DEP_CONTROL"

definition num_bounds :: "dep_vector \<Rightarrow> int" where
  "num_bounds d = alen (dv_bounds d)"

text \<open>The loop over the first dimensions that returns at one whose distance is not zero.\<close>

fun none_carries :: "(int \<times> int) list \<Rightarrow> bool" where
  "none_carries [] = True"
| "none_carries ((l, u) # bs) = (if l > 0 \<or> u < 0 then False else none_carries bs)"

definition has_negative_been_carried_at :: "dep_vector \<Rightarrow> int \<Rightarrow> bool result" where
  "has_negative_been_carried_at d dim =
     (if \<not> is_data_dependence d then Inl (Invalid_argument ''only works for data dependences'')
      else if dim < 0 \<or> num_bounds d \<le> dim then Inr False
      else if \<not> none_carries (take (nat dim) (dv_bounds d)) then Inr False
      else Inr (fst (elt (dv_bounds d) dim) < 0))"

definition has_been_carried_at :: "dep_vector \<Rightarrow> int \<Rightarrow> bool result" where
  "has_been_carried_at d dim =
     (if \<not> is_data_dependence d then Inl (Invalid_argument ''only works for data dependences'')
      else if dim < 0 \<or> num_bounds d \<le> dim then Inr False
      else if \<not> none_carries (take (nat dim) (dv_bounds d)) then Inr False
      else Inr (fst (elt (dv_bounds d) dim) \<noteq> 0 \<or> snd (elt (dv_bounds d) dim) \<noteq> 0))"

fun some_carries :: "(int \<times> int) list \<Rightarrow> bool" where
  "some_carries [] = False"
| "some_carries ((l, u) # bs) = (if l > 0 then True else if u < 0 then True else some_carries bs)"

definition has_been_carried_before :: "dep_vector \<Rightarrow> int \<Rightarrow> bool result" where
  "has_been_carried_before d dim =
     (if \<not> is_data_dependence d then Inl (Invalid_argument ''only works for data dependences'')
      else if dim < 0 then Inr False
      else Inr (some_carries (take (nat (if dim > num_bounds d then num_bounds d else dim)) (dv_bounds d))))"

text \<open>
  A comparison of an \<open>int\<close> with the size of a vector is one of unsigned numbers: a negative number is larger than every
  size.
\<close>

definition beyond :: "int \<Rightarrow> dep_vector \<Rightarrow> bool" where
  "beyond dim d \<longleftrightarrow> dim < 0 \<or> num_bounds d \<le> dim"

definition isZero_dim :: "dep_vector \<Rightarrow> int \<Rightarrow> bool result" where
  "isZero_dim d dim =
     (if beyond dim d then Inl (Invalid_argument ''invalid dependence dimension'')
      else Inr (list_all (\<lambda>(l, u). \<not> (l \<noteq> 0 \<or> u \<noteq> 0)) (take (nat dim + 1) (dv_bounds d))))"

definition isZero :: "dep_vector \<Rightarrow> bool result" where
  "isZero d = isZero_dim d (num_bounds d - 1)"

fun positive_bounds :: "(int \<times> int) list \<Rightarrow> bool" where
  "positive_bounds [] = False"
| "positive_bounds ((l, u) # bs) =
     (if l \<noteq> 0 \<or> u \<noteq> 0
      then if l < 0 then False else if l > 0 then True else positive_bounds bs
      else positive_bounds bs)"

definition isPositive :: "dep_vector \<Rightarrow> bool" where
  "isPositive d = positive_bounds (dv_bounds d)"

fun negative_bounds :: "(int \<times> int) list \<Rightarrow> bool" where
  "negative_bounds [] = False"
| "negative_bounds ((l, u) # bs) =
     (if l \<noteq> 0 \<or> u \<noteq> 0
      then if u > 0 then False else if u < 0 then True else negative_bounds bs
      else negative_bounds bs)"

definition isNegative :: "dep_vector \<Rightarrow> bool" where
  "isNegative d = negative_bounds (dv_bounds d)"

definition isAllPositive :: "dep_vector \<Rightarrow> bool" where
  "isAllPositive d = list_all (\<lambda>(l, u). \<not> l < 0) (dv_bounds d)"

definition isAllNegative :: "dep_vector \<Rightarrow> bool" where
  "isAllNegative d = list_all (\<lambda>(l, u). \<not> u > 0) (dv_bounds d)"

definition dv_hasPositive :: "dep_vector \<Rightarrow> int \<Rightarrow> bool result" where
  "dv_hasPositive d dim =
     (if beyond dim d then Inl (Invalid_argument ''invalid dependence dimension'')
      else Inr (fst (elt (dv_bounds d) dim) > 0))"

definition dv_hasNegative :: "dep_vector \<Rightarrow> int \<Rightarrow> bool result" where
  "dv_hasNegative d dim =
     (if beyond dim d then Inl (Invalid_argument ''invalid dependence dimension'')
      else Inr (snd (elt (dv_bounds d) dim) < 0))"

definition isCarried :: "dep_vector \<Rightarrow> int \<Rightarrow> int \<Rightarrow> bool result" where
  "isCarried d dim distance =
     (if distance \<le> 0 then Inl (Invalid_argument ''invalid dependence distance size'')
      else
        let dim = (if dim < 0 \<or> dim > num_bounds d then num_bounds d else dim)
        in if \<not> none_carries (take (nat dim) (dv_bounds d)) then Inr False
           else if dim \<ge> num_bounds d then Inr True
           else if fst (elt (dv_bounds d) dim) > distance then Inr False
           else if snd (elt (dv_bounds d) dim) < - distance then Inr False
           else Inr True)"

section \<open>Transformations\<close>

fun permuted_sign :: "(int \<times> int) list \<Rightarrow> int list \<Rightarrow> bool result" where
  "permuted_sign bs [] = Inr True"
| "permuted_sign bs (i # pi) = bind_result (rd bs i) (\<lambda>(l, u).
     if l > 0 then Inr True else if l < 0 then Inr False else permuted_sign bs pi)"

definition canPermute :: "dep_vector \<Rightarrow> int list \<Rightarrow> bool result" where
  "canPermute d pi =
     (if alen pi \<noteq> num_bounds d
      then Inl (Invalid_argument ''permute dimensionality do not match dependence space'')
      else permuted_sign (dv_bounds d) pi)"

text \<open>
  The loop of \<open>normalize\<close>: \<open>before\<close> are the bounds that it has passed, all zero, \<open>(l, u) # rest\<close> those from the current one
  on. \<open>push_back\<close> copies the vector.
\<close>

fun normalize_loop :: "dep_vector \<Rightarrow> (int \<times> int) list \<Rightarrow> (int \<times> int) list \<Rightarrow> dep_vector list \<Rightarrow> dep_vector list" where
  "normalize_loop dv before [] result = result @ [dv_copy (dv\<lparr>dv_bounds := before\<rparr>)]"
| "normalize_loop dv before ((l, u) # rest) result =
     (let (result, l, u) =
            (if l < 0 \<and> u \<ge> 0
             then (result @ [dv_copy (dv\<lparr>dv_bounds := before @ (l, -1) # rest\<rparr>)], 0, u) else (result, l, u));
          (result, l, u) =
            (if l = 0 \<and> u > 0
             then (result @ [dv_copy (dv\<lparr>dv_bounds := before @ (1, u) # rest\<rparr>)], 0, 0) else (result, l, u))
      in if l = 0 \<and> u = 0
         then normalize_loop dv (before @ [(l, u)]) rest result
         else result @ [dv_copy (dv\<lparr>dv_bounds := before @ (l, u) # rest\<rparr>)])"

definition dv_normalize :: "dep_vector \<Rightarrow> dep_vector list" where
  "dv_normalize d = normalize_loop (dv_copy d) [] (dv_bounds d) []"

fun violated :: "(int \<times> int) list \<Rightarrow> bool \<Rightarrow> bool" where
  "violated [] v = v"
| "violated ((l, u) # bs) v = (if l > 0 then v else if l < 0 then violated bs True else violated bs v)"

definition dv_permute :: "dep_vector \<Rightarrow> int list \<Rightarrow> dep_vector list result" where
  "dv_permute d pi =
     (if alen pi \<noteq> num_bounds d
      then Inl (Invalid_argument ''permute dimensionality do not match dependence space'')
      else bind_result (map_result (rd (dv_bounds d)) pi) (\<lambda>bs.
        let dv = (dv_copy d)\<lparr>dv_bounds := bs\<rparr>
        in if violated bs False \<and> \<not> quasi d \<and> \<not> is_scalar_dependence d
           then Inl (Ir_error ''dependence violation'')
           else Inr (dv_normalize dv)))"

definition dv_reverse :: "dep_vector \<Rightarrow> dep_vector" where
  "dv_reverse d = (dv_copy d)\<lparr>
     dv_type := (case dv_type d of DEP_W2R \<Rightarrow> DEP_R2W | DEP_R2W \<Rightarrow> DEP_W2R | _ \<Rightarrow> dv_type d),
     dv_bounds := map (\<lambda>(l, u). (- u, - l)) (dv_bounds d),
     quasi := True\<rparr>"

section \<open>The distances of a vector\<close>

text \<open>A bound that is infinite is none.\<close>

definition in_range :: "int \<Rightarrow> int \<times> int \<Rightarrow> bool" where
  "in_range x b \<longleftrightarrow> (fst b = - posInfinity \<or> fst b \<le> x) \<and> (snd b = posInfinity \<or> x \<le> snd b)"

definition distances :: "(int \<times> int) list \<Rightarrow> int list set" where
  "distances bs = {xs. list_all2 in_range xs bs}"

definition ranges_ok :: "(int \<times> int) list \<Rightarrow> bool" where
  "ranges_ok bs \<longleftrightarrow> list_all (\<lambda>b. fst b \<le> snd b) bs"

fun lex_positive :: "int list \<Rightarrow> bool" where
  "lex_positive [] = False"
| "lex_positive (x # xs) \<longleftrightarrow> x > 0 \<or> x = 0 \<and> lex_positive xs"

definition lex_negative :: "int list \<Rightarrow> bool" where
  "lex_negative xs \<longleftrightarrow> lex_positive (map uminus xs)"

definition all_zero :: "int list \<Rightarrow> bool" where
  "all_zero xs \<longleftrightarrow> list_all (\<lambda>x. x = 0) xs"

lemma lex_simps [simp]:
  "\<not> lex_negative []" "lex_negative (x # xs) \<longleftrightarrow> x < 0 \<or> x = 0 \<and> lex_negative xs"
  "all_zero []" "all_zero (x # xs) \<longleftrightarrow> x = 0 \<and> all_zero xs"
  by (auto simp: lex_negative_def all_zero_def)

lemma lex_trichotomy:
  "lex_positive xs \<or> lex_negative xs \<or> all_zero xs" "\<not> (lex_positive xs \<and> lex_negative xs)"
  "\<not> (lex_positive xs \<and> all_zero xs)" "\<not> (lex_negative xs \<and> all_zero xs)"
  by (induction xs) auto

lemma posInfinity_pos [simp]: "0 < posInfinity" "posInfinity \<noteq> 0" "1 \<noteq> - posInfinity" "- posInfinity < 0"
  "posInfinity \<noteq> -1" "0 \<noteq> posInfinity"
  by (auto simp: posInfinity_def)

lemma distances_simps [simp]:
  "xs \<in> distances [] \<longleftrightarrow> xs = []"
  "xs \<in> distances (b # bs) \<longleftrightarrow> (\<exists>y ys. xs = y # ys \<and> in_range y b \<and> ys \<in> distances bs)"
  by (auto simp: distances_def list_all2_Cons2)

lemma distances_Cons_image: "distances (b # bs) = {y # ys |y ys. in_range y b \<and> ys \<in> distances bs}"
  by auto

lemma ranges_ok_simps [simp]: "ranges_ok []" "ranges_ok (b # bs) \<longleftrightarrow> fst b \<le> snd b \<and> ranges_ok bs"
  by (auto simp: ranges_ok_def)

lemma length_distances: "xs \<in> distances bs \<Longrightarrow> length xs = length bs"
  by (simp add: distances_def list_all2_lengthD)

lemma in_range_low: "fst b \<le> snd b \<Longrightarrow> in_range (fst b) b"
  and in_range_high: "fst b \<le> snd b \<Longrightarrow> in_range (snd b) b"
  and in_range_zero: "in_range 0 b \<longleftrightarrow> fst b \<le> 0 \<and> 0 \<le> snd b"
  by (auto simp: in_range_def posInfinity_def)

lemma in_range_pos: "fst b > 0 \<Longrightarrow> in_range x b \<Longrightarrow> x > 0"
  and in_range_nonneg: "fst b \<ge> 0 \<Longrightarrow> in_range x b \<Longrightarrow> x \<ge> 0"
  and in_range_neg: "snd b < 0 \<Longrightarrow> in_range x b \<Longrightarrow> x < 0"
  and in_range_nonpos: "snd b \<le> 0 \<Longrightarrow> in_range x b \<Longrightarrow> x \<le> 0"
  by (auto simp: in_range_def posInfinity_def)

lemma distances_nonempty: "ranges_ok bs \<Longrightarrow> \<exists>xs. xs \<in> distances bs"
  by (induction bs) (auto intro: in_range_low)

lemma positive_bounds_iff: "ranges_ok bs \<Longrightarrow> positive_bounds bs \<longleftrightarrow> (\<forall>xs \<in> distances bs. lex_positive xs)"
proof (induction bs)
  case (Cons b bs)
  obtain ys where ys: "ys \<in> distances bs" using distances_nonempty Cons.prems by auto
  obtain l u where b: "b = (l, u)" by (cases b)
  consider "l < 0" | "l > 0" | "l = 0" by linarith
  then show ?case
  proof cases
    case 1
    then have "l # ys \<in> distances (b # bs)" "\<not> lex_positive (l # ys)"
      using ys Cons.prems in_range_low[of b] by (auto simp: b)
    then have "\<not> (\<forall>xs \<in> distances (b # bs). lex_positive xs)" by blast
    then show ?thesis using 1 by (simp add: b)
  next
    case 2
    then show ?thesis using in_range_pos[of b] by (auto simp: b)
  next
    case 3
    have "(\<forall>xs \<in> distances (b # bs). lex_positive xs) \<longleftrightarrow> (\<forall>ys \<in> distances bs. lex_positive ys)"
    proof
      assume l: "\<forall>xs \<in> distances (b # bs). lex_positive xs"
      have "lex_positive ys" if "ys \<in> distances bs" for ys
        using l[rule_format, of "0 # ys"] that 3 Cons.prems by (auto simp: b in_range_zero)
      then show "\<forall>ys \<in> distances bs. lex_positive ys" by blast
    next
      assume "\<forall>ys \<in> distances bs. lex_positive ys"
      then show "\<forall>xs \<in> distances (b # bs). lex_positive xs" using in_range_nonneg[of b] 3 by (force simp: b)
    qed
    then show ?thesis using 3 Cons by (simp add: b)
  qed
qed simp

text \<open>The negated ranges have the negated distances, so what holds for positive distances holds for negative ones.\<close>

definition negated :: "(int \<times> int) list \<Rightarrow> (int \<times> int) list" where
  "negated bs = map (\<lambda>(l, u). (- u, - l)) bs"

lemma in_range_negated: "in_range (- x) (- u, - l) \<longleftrightarrow> in_range x (l, u)"
  by (auto simp: in_range_def)

lemma negated_distances: "map uminus xs \<in> distances (negated bs) \<longleftrightarrow> xs \<in> distances bs"
  by (auto simp: distances_def negated_def list_all2_conv_all_nth in_range_negated split_beta)

lemma negated_ball: "(\<forall>xs \<in> distances (negated bs). P xs) \<longleftrightarrow> (\<forall>xs \<in> distances bs. P (map uminus xs))"
proof
  assume a: "\<forall>xs \<in> distances bs. P (map uminus xs)"
  show "\<forall>xs \<in> distances (negated bs). P xs"
  proof
    fix xs assume "xs \<in> distances (negated bs)"
    then have "map uminus xs \<in> distances bs" using negated_distances[of "map uminus xs" bs] by (simp add: o_def)
    from a[rule_format, OF this] show "P xs" by (simp add: o_def)
  qed
qed (simp add: negated_distances)

lemma negated_ok [simp]: "ranges_ok (negated bs) \<longleftrightarrow> ranges_ok bs"
  by (auto simp: ranges_ok_def negated_def list_all_iff)

lemma negative_bounds_negated: "negative_bounds bs = positive_bounds (negated bs)"
  by (induction bs rule: negative_bounds.induct) (simp_all add: negated_def disj_commute)

lemma negative_bounds_iff: "ranges_ok bs \<Longrightarrow> negative_bounds bs \<longleftrightarrow> (\<forall>xs \<in> distances bs. lex_negative xs)"
  by (simp add: negative_bounds_negated positive_bounds_iff negated_ball lex_negative_def)

lemma violated_True [simp]: "violated bs True"
  by (induction bs) auto

lemma violated_iff: "ranges_ok bs \<Longrightarrow> violated bs False \<longleftrightarrow> (\<exists>xs \<in> distances bs. lex_negative xs)"
proof (induction bs)
  case (Cons b bs)
  obtain ys where ys: "ys \<in> distances bs" using distances_nonempty Cons.prems by auto
  obtain l u where b: "b = (l, u)" by (cases b)
  consider "l < 0" | "l > 0" | "l = 0" by linarith
  then show ?case
  proof cases
    case 1
    then have "l # ys \<in> distances (b # bs)" "lex_negative (l # ys)"
      using ys Cons.prems in_range_low[of b] by (auto simp: b)
    then have "\<exists>xs \<in> distances (b # bs). lex_negative xs" by blast
    then show ?thesis using 1 by (simp add: b)
  next
    case 2
    then show ?thesis using in_range_pos[of b] by (fastforce simp: b)
  next
    case 3
    have "(\<exists>xs \<in> distances (b # bs). lex_negative xs) \<longleftrightarrow> (\<exists>ys \<in> distances bs. lex_negative ys)"
    proof
      assume "\<exists>xs \<in> distances (b # bs). lex_negative xs"
      then show "\<exists>ys \<in> distances bs. lex_negative ys" using in_range_nonneg[of b] 3 by (fastforce simp: b)
    next
      assume "\<exists>ys \<in> distances bs. lex_negative ys"
      then obtain ys where "ys \<in> distances bs" "lex_negative ys" by blast
      then have "0 # ys \<in> distances (b # bs)" "lex_negative (0 # ys)"
        using 3 Cons.prems by (auto simp: b in_range_zero)
      then show "\<exists>xs \<in> distances (b # bs). lex_negative xs" by blast
    qed
    then show ?thesis using 3 Cons by (simp add: b)
  qed
qed simp

section \<open>Normalization\<close>

definition dv_distances :: "dep_vector \<Rightarrow> int list set" where
  "dv_distances d = distances (dv_bounds d)"

text \<open>All distances of a normalized vector have one sign.\<close>

definition definite :: "dep_vector \<Rightarrow> bool" where
  "definite d \<longleftrightarrow> (\<forall>xs \<in> dv_distances d. lex_positive xs) \<or> (\<forall>xs \<in> dv_distances d. lex_negative xs) \<or>
     (\<forall>xs \<in> dv_distances d. all_zero xs)"

definition disjoint_vectors :: "dep_vector \<Rightarrow> dep_vector \<Rightarrow> bool" where
  "disjoint_vectors d e \<longleftrightarrow> dv_distances d \<inter> dv_distances e = {}"

lemma dv_distances_copy [simp]: "dv_distances (dv_copy d) = dv_distances d"
  by (simp add: dv_distances_def dv_copy_def)

lemma dv_distances_bounds [simp]: "dv_distances (d\<lparr>dv_bounds := bs\<rparr>) = distances bs"
  by (simp add: dv_distances_def)

lemma distances_split:
  assumes "\<And>x. in_range x b \<longleftrightarrow> in_range x c \<or> in_range x d"
  shows "distances (before @ b # rest) = distances (before @ c # rest) \<union> distances (before @ d # rest)"
  using assms by (auto simp: distances_def list_all2_append2 list_all2_Cons2; blast)

lemma distances_disjoint:
  assumes "\<And>x. \<not> (in_range x c \<and> in_range x d)"
  shows "distances (before @ c # rest) \<inter> distances (before @ d # rest) = {}"
proof -
  have False if "xs \<in> distances (before @ c # rest)" "xs \<in> distances (before @ d # rest)" for xs
  proof -
    have "length before < length (before @ c # rest)" by simp
    then have "in_range (xs ! length before) c" "in_range (xs ! length before) d"
      using that unfolding distances_def
      by (auto dest!: list_all2_nthD2[where p = "length before"] simp del: list_all2_append)
    then show False using assms by blast
  qed
  then show ?thesis by blast
qed

lemma in_range_split: "l < 0 \<Longrightarrow> 0 \<le> u \<Longrightarrow> in_range x (l, u) \<longleftrightarrow> in_range x (l, -1) \<or> in_range x (0, u)"
  and in_range_split_zero: "0 < u \<Longrightarrow> in_range x (0, u) \<longleftrightarrow> in_range x (1, u) \<or> in_range x (0, 0)"
  by (auto simp: in_range_def posInfinity_def)

lemma in_range_disjoint: "\<not> (in_range x (l, -1) \<and> in_range x (0, u))" "\<not> (in_range x (1, u) \<and> in_range x (0, 0))"
  by (auto simp: in_range_def posInfinity_def)

text \<open>The vectors that the loop adds: one for each sign that the distance of the current loop can have.\<close>

fun pieces :: "dep_vector \<Rightarrow> (int \<times> int) list \<Rightarrow> (int \<times> int) list \<Rightarrow> dep_vector list" where
  "pieces dv before [] = [dv_copy (dv\<lparr>dv_bounds := before\<rparr>)]"
| "pieces dv before ((l, u) # rest) =
     (if l < 0 \<and> 0 \<le> u then [dv_copy (dv\<lparr>dv_bounds := before @ (l, -1) # rest\<rparr>)] else []) @
     (if l \<le> 0 \<and> 0 < u then [dv_copy (dv\<lparr>dv_bounds := before @ (1, u) # rest\<rparr>)] else []) @
     (if l \<le> 0 \<and> 0 \<le> u then pieces dv (before @ [(0, 0)]) rest
      else [dv_copy (dv\<lparr>dv_bounds := before @ (l, u) # rest\<rparr>)])"

lemma normalize_loop_pieces: "normalize_loop dv before bs result = result @ pieces dv before bs"
proof (induction bs arbitrary: before result)
  case (Cons b bs)
  obtain l u where b: "b = (l, u)" by (cases b)
  consider "l < 0" "0 < u" | "l < 0" "u = 0" | "l < 0" "u < 0" | "l = 0" "0 < u" | "l = 0" "u = 0" | "l = 0" "u < 0" | "0 < l"
    by linarith
  then show ?case unfolding b by cases (simp_all add: Cons.IH)
qed simp

lemma pieces_points: "(\<Union>v \<in> set (pieces dv before bs). dv_distances v) = distances (before @ bs)"
proof (induction bs arbitrary: before)
  case (Cons b bs)
  obtain l u where b: "b = (l, u)" by (cases b)
  have zero: "distances (before @ (0, u) # bs) =
      (if 0 < u then distances (before @ (1, u) # bs) else {}) \<union> distances (before @ (0, 0) # bs)" if "0 \<le> u"
    using distances_split[OF in_range_split_zero, of u before bs] that by auto
  have low: "distances (before @ (l, u) # bs) =
      (if l < 0 then distances (before @ (l, -1) # bs) else {}) \<union> distances (before @ (0, u) # bs)" if "l \<le> 0" "0 \<le> u"
    using distances_split[OF in_range_split, of l u before bs] that by auto
  show ?case
    using Cons.IH[of "before @ [(0, 0)]"] zero low by (auto simp: b simp del: distances_simps)
qed simp

lemma pieces_disjoint: "sorted_wrt disjoint_vectors (pieces dv before bs)"
proof (induction bs arbitrary: before)
  case (Cons b bs)
  obtain l u where b: "b = (l, u)" by (cases b)
  have inside: "dv_distances v \<subseteq> distances (before @ (0, 0) # bs)" if "v \<in> set (pieces dv (before @ [(0, 0)]) bs)" for v
    using pieces_points[of dv "before @ [(0, 0)]" bs] that by auto
  have d: "distances (before @ (l, -1) # bs) \<inter> distances (before @ (1, u) # bs) = {}"
    "distances (before @ (l, -1) # bs) \<inter> distances (before @ (0, 0) # bs) = {}"
    "distances (before @ (1, u) # bs) \<inter> distances (before @ (0, 0) # bs) = {}"
    by (rule distances_disjoint; auto simp: in_range_def posInfinity_def)+
  have "disjoint_vectors (dv_copy (dv\<lparr>dv_bounds := before @ (l, -1) # bs\<rparr>)) v"
    "disjoint_vectors (dv_copy (dv\<lparr>dv_bounds := before @ (1, u) # bs\<rparr>)) v" if "v \<in> set (pieces dv (before @ [(0, 0)]) bs)" for v
    using inside[OF that] d unfolding disjoint_vectors_def by auto
  then show ?case using Cons.IH[of "before @ [(0, 0)]"] d(1)
    by (auto simp: b sorted_wrt_append disjoint_vectors_def[of "dv_copy (dv\<lparr>dv_bounds := _\<rparr>)" "dv_copy (dv\<lparr>dv_bounds := _\<rparr>)"])
qed simp

lemma zeros_before: "xs \<in> distances (replicate k (0, 0) @ bs) \<longleftrightarrow> (\<exists>ys \<in> distances bs. xs = replicate k 0 @ ys)"
proof (induction k arbitrary: xs)
  case (Suc k)
  have "in_range y (0, 0) \<longleftrightarrow> y = 0" for y by (auto simp: in_range_def)
  then show ?case using Suc by auto
qed simp

lemma lex_zeros: "lex_positive (replicate k 0 @ ys) = lex_positive ys" "lex_negative (replicate k 0 @ ys) = lex_negative ys"
  "all_zero (replicate k 0 @ ys) = all_zero ys"
  by (induction k) auto

lemma definite_at:
  "u < 0 \<Longrightarrow> definite (dv_copy (dv\<lparr>dv_bounds := replicate k (0, 0) @ (l, u) # rest\<rparr>))"
  "0 < l \<Longrightarrow> definite (dv_copy (dv\<lparr>dv_bounds := replicate k (0, 0) @ (l, u) # rest\<rparr>))"
  using in_range_neg[of "(l, u)"] in_range_pos[of "(l, u)"]
  by (auto simp: definite_def zeros_before lex_zeros)

lemma pieces_definite: "list_all definite (pieces dv (replicate k (0, 0)) bs)"
proof (induction bs arbitrary: k)
  case Nil
  have "xs \<in> distances (replicate k (0, 0)) \<Longrightarrow> all_zero xs" for xs
    using zeros_before[of xs k "[]"] lex_zeros(3)[of k "[]"] by auto
  then show ?case by (simp add: definite_def)
next
  case (Cons b bs)
  obtain l u where b: "b = (l, u)" by (cases b)
  show ?case using Cons.IH[of "Suc k"]
    by (auto simp: b definite_at replicate_append_same[symmetric] simp del: replicate_append_same)
qed

text \<open>C22: The vectors into which a dependence vector is normalized have no distance in common, together exactly the
  distances of the vector, and each of them is definite: all its distances are lexicographically positive, or all are
  negative, or all are zero.\<close>

theorem normalize_vectors_correct:
  "(\<Union>v \<in> set (dv_normalize d). dv_distances v) = dv_distances d \<and> sorted_wrt disjoint_vectors (dv_normalize d) \<and>
   list_all definite (dv_normalize d)"
  using pieces_points[of "dv_copy d" "[]" "dv_bounds d"] pieces_disjoint[of "dv_copy d" "[]" "dv_bounds d"]
    pieces_definite[of "dv_copy d" 0 "dv_bounds d"]
  by (simp add: dv_normalize_def normalize_loop_pieces dv_distances_def)

text \<open>Facts about \<open>dv_normalize\<close> that the operations on graphs use.\<close>

lemma normalize_points: "(\<Union>v \<in> set (dv_normalize d). dv_distances v) = dv_distances d"
  using pieces_points[of "dv_copy d" "[]" "dv_bounds d"] by (simp add: dv_normalize_def normalize_loop_pieces dv_distances_def)

lemma normalize_nonempty [simp]: "dv_normalize d \<noteq> []"
proof -
  have "pieces dv before bs \<noteq> []" for dv before bs
    by (induction bs arbitrary: before) (auto split: if_splits)
  then show ?thesis by (simp add: dv_normalize_def normalize_loop_pieces)
qed

section \<open>Permutation\<close>

text \<open>The distances after the loops are exchanged: loop \<open>i\<close> is the old loop \<open>pi ! i\<close>.\<close>

definition permuted :: "int list \<Rightarrow> 'a list \<Rightarrow> 'a list" where
  "permuted pi xs = map (elt xs) pi"

definition permutation :: "int list \<Rightarrow> nat \<Rightarrow> bool" where
  "permutation pi n \<longleftrightarrow> length pi = n \<and> set pi = {0..<int n}"

lemma permutation_nat: "permutation pi n \<Longrightarrow> mset (map nat pi) = mset [0..<n]"
proof -
  assume p: "permutation pi n"
  have "nat ` {0..<int n} = {..<n}" using image_comp[of nat int "{..<n}"] by (auto simp: image_iff Bex_def intro!: exI[of _ "int _"])
  then have "set (map nat pi) = set [0..<n]" "length (map nat pi) = length [0..<n]"
    using p by (auto simp: permutation_def)
  moreover from this have "distinct (map nat pi)" by (metis card_distinct distinct_card distinct_upt)
  ultimately show ?thesis by (metis distinct_upt set_eq_iff_mset_eq_distinct)
qed

lemma permuted_distances:
  assumes "permutation pi (length bs)"
  shows "distances (permuted pi bs) = permuted pi ` distances bs"
proof
  have pi: "length pi = length bs" "set pi = {0..<int (length bs)}" using assms by (auto simp: permutation_def)
  have at_pi: "nat (pi ! k) < length bs" if "k < length bs" for k
    using nth_mem[of k pi] pi that by auto
  show "permuted pi ` distances bs \<subseteq> distances (permuted pi bs)"
    using at_pi pi by (auto simp: distances_def permuted_def elt_def list_all2_conv_all_nth)
  show "distances (permuted pi bs) \<subseteq> permuted pi ` distances bs"
  proof
    fix ys assume "ys \<in> distances (permuted pi bs)"
    then have ys: "length ys = length bs" "\<And>k. k < length bs \<Longrightarrow> in_range (ys ! k) (bs ! nat (pi ! k))"
      using pi by (auto simp: distances_def permuted_def elt_def list_all2_conv_all_nth)
    have inj: "distinct (map nat pi)" using permutation_nat[OF assms] by (metis distinct_upt mset_eq_imp_distinct_iff)
    define origin where "origin j = (THE k. k < length bs \<and> nat (pi ! k) = j)" for j
    have origin: "origin (nat (pi ! k)) = k" if "k < length bs" for k
      unfolding origin_def using that inj pi(1) by (intro the_equality) (auto simp: distinct_conv_nth)
    define xs where "xs = map (\<lambda>j. ys ! origin j) [0..<length bs]"
    have "permuted pi xs = ys"
      using ys(1) at_pi origin pi(1) by (intro nth_equalityI) (auto simp: permuted_def xs_def elt_def)
    moreover have "in_range (xs ! j) (bs ! j)" if "j < length bs" for j
    proof -
      have "int j \<in> set pi" using that pi(2) by simp
      then obtain k where "k < length bs" "pi ! k = int j" using pi(1) by (auto simp: in_set_conv_nth)
      then show ?thesis using ys(2)[of k] origin[of k] that by (simp add: xs_def)
    qed
    moreover have "xs \<in> distances bs"
      unfolding distances_def list_all2_conv_all_nth mem_Collect_eq using \<open>\<And>j. j < length bs \<Longrightarrow> in_range (xs ! j) (bs ! j)\<close>
      by (simp add: xs_def)
    ultimately show "ys \<in> permuted pi ` distances bs" by blast
  qed
qed

lemma permuted_ok: "permutation pi (length bs) \<Longrightarrow> ranges_ok bs \<Longrightarrow> ranges_ok (permuted pi bs)"
  by (auto simp: ranges_ok_def permuted_def list_all_iff permutation_def elt_def)

lemma read_permuted: "permutation pi (length bs) \<Longrightarrow> map_result (rd bs) pi = Inr (permuted pi bs)"
  unfolding permuted_def by (rule map_result_pure) (auto simp: permutation_def alen_def)

lemma permuted_sign_violated:
  "\<forall>i \<in> set pi. 0 \<le> i \<and> i < alen bs \<Longrightarrow> permuted_sign bs pi = Inr (\<not> violated (permuted pi bs) False)"
proof (induction pi)
  case (Cons i pi)
  then show ?case by (cases "elt bs i") (simp add: permuted_def)
qed (simp add: permuted_def)

lemma dv_permute_eq:
  assumes "permutation pi (length (dv_bounds d))"
  shows "dv_permute d pi = (if violated (permuted pi (dv_bounds d)) False \<and> \<not> quasi d \<and> \<not> is_scalar_dependence d
    then Inl (Ir_error ''dependence violation'')
    else Inr (dv_normalize ((dv_copy d)\<lparr>dv_bounds := permuted pi (dv_bounds d)\<rparr>)))"
  using assms by (simp add: dv_permute_def read_permuted num_bounds_def permutation_def alen_def)

text \<open>A permutation of the loops is a violation of a dependence when it makes a distance lexicographically negative.\<close>

definition legal :: "dep_vector \<Rightarrow> int list \<Rightarrow> bool" where
  "legal d pi \<longleftrightarrow> (\<forall>xs \<in> dv_distances d. \<not> lex_negative (permuted pi xs))"

lemma violated_legal:
  assumes "permutation pi (length (dv_bounds d))" "ranges_ok (dv_bounds d)"
  shows "violated (permuted pi (dv_bounds d)) False \<longleftrightarrow> \<not> legal d pi"
  using violated_iff[OF permuted_ok[OF assms]] by (simp add: permuted_distances[OF assms(1)] legal_def dv_distances_def)

lemma canPermute_legal:
  assumes "permutation pi (length (dv_bounds d))" "ranges_ok (dv_bounds d)"
  shows "canPermute d pi = Inr (legal d pi)"
proof -
  have "permuted_sign (dv_bounds d) pi = Inr (\<not> violated (permuted pi (dv_bounds d)) False)"
    using assms(1) by (intro permuted_sign_violated) (auto simp: permutation_def alen_def)
  then show ?thesis using violated_legal[OF assms] assms(1)
    by (simp add: canPermute_def num_bounds_def permutation_def alen_def)
qed

lemma dv_permute_points:
  assumes "permutation pi (length (dv_bounds d))" "dv_permute d pi = Inr vs"
  shows "(\<Union>v \<in> set vs. dv_distances v) = permuted pi ` dv_distances d"
  using assms normalize_points[of "(dv_copy d)\<lparr>dv_bounds := permuted pi (dv_bounds d)\<rparr>"]
  by (auto simp: dv_permute_eq permuted_distances dv_distances_def split: if_splits)

text \<open>C21: Let the bounds of the distances of a dependence vector be ordered. Exchanging its loops by a permutation
  fails exactly when it is neither a quasi nor a scalar dependence and one of its distances would become lexicographically
  negative, which is what \<open>canPermute\<close> tests; otherwise the vectors returned stand for the permuted
  distances, for no others, and each is definite.\<close>

theorem dv_permute_correct:
  assumes "permutation pi (length (dv_bounds d))" "ranges_ok (dv_bounds d)"
  shows "canPermute d pi = Inr (legal d pi) \<and>
    (case dv_permute d pi of
        Inl e \<Rightarrow> e = Ir_error ''dependence violation'' \<and> \<not> legal d pi \<and> \<not> quasi d \<and> \<not> is_scalar_dependence d
      | Inr vs \<Rightarrow> (\<Union>v \<in> set vs. dv_distances v) = permuted pi ` dv_distances d \<and> list_all definite vs \<and>
          (legal d pi \<or> quasi d \<or> is_scalar_dependence d))"
proof
  show "canPermute d pi = Inr (legal d pi)" by (rule canPermute_legal[OF assms])
  have "list_all definite (dv_normalize v)" for v
    using pieces_definite[of "dv_copy v" 0 "dv_bounds v"] by (simp add: dv_normalize_def normalize_loop_pieces)
  then show "case dv_permute d pi of
        Inl e \<Rightarrow> e = Ir_error ''dependence violation'' \<and> \<not> legal d pi \<and> \<not> quasi d \<and> \<not> is_scalar_dependence d
      | Inr vs \<Rightarrow> (\<Union>v \<in> set vs. dv_distances v) = permuted pi ` dv_distances d \<and> list_all definite vs \<and>
          (legal d pi \<or> quasi d \<or> is_scalar_dependence d)"
    using dv_permute_points[OF assms(1)] violated_legal[OF assms] by (auto simp: dv_permute_eq[OF assms(1)])
qed

text \<open>The vector \<open>(1, 0~5, -3)\<close> of the comment in \<open>dep.hh\<close>, whose first two loops are exchanged.\<close>

definition example_vector :: dep_vector where
  "example_vector = DependenceVector\<lparr>dv_type := DEP_W2R, dv_bounds := [(1, 1), (0, 5), (-3, -3)]\<rparr>"

lemma example_vector_permuted:
  "map_sum id (map dep_vector_text) (dv_permute example_vector [1, 0, 2]) = Inr [''flow(1~5, 1, -3)'', ''flow(0, 1, -3)'']"
  by code_simp

theorem dv_permute_correct_witness:
  "legal example_vector [1, 0, 2] \<and> \<not> legal example_vector [2, 0, 1] \<and>
   (\<exists>vs. dv_permute example_vector [1, 0, 2] = Inr vs \<and>
     (\<Union>v \<in> set vs. dv_distances v) = permuted [1, 0, 2] ` dv_distances example_vector)"
proof -
  have ok: "permutation [1, 0, 2] (length (dv_bounds example_vector))" "permutation [2, 0, 1] (length (dv_bounds example_vector))"
    "ranges_ok (dv_bounds example_vector)"
    by (auto simp: permutation_def example_vector_def)
  have "canPermute example_vector [1, 0, 2] = Inr True" "canPermute example_vector [2, 0, 1] = Inr False" by code_simp+
  then show ?thesis
    using dv_permute_correct[OF ok(1,3)] dv_permute_correct[OF ok(2,3)]
    by (cases "dv_permute example_vector [1, 0, 2]") auto
qed

section \<open>Carried dependences\<close>

lemma none_carries_iff: "none_carries bs \<longleftrightarrow> replicate (length bs) 0 \<in> distances bs"
  by (induction bs rule: none_carries.induct) (simp_all add: in_range_zero not_less)

lemma some_carries_none: "some_carries bs = (\<not> none_carries bs)"
  by (induction bs rule: none_carries.induct) simp_all

text \<open>A dependence is carried by a loop at a distance that is zero in the loops around it and not in that one.\<close>

definition carried_at :: "int \<Rightarrow> int list \<Rightarrow> bool" where
  "carried_at dim xs \<longleftrightarrow> list_all (\<lambda>x. x = 0) (take (nat dim) xs) \<and> elt xs dim \<noteq> 0"

lemma distances_append: "xs \<in> distances (as @ bs) \<longleftrightarrow> (\<exists>ys \<in> distances as. \<exists>zs \<in> distances bs. xs = ys @ zs)"
proof
  assume "xs \<in> distances (as @ bs)"
  then show "\<exists>ys \<in> distances as. \<exists>zs \<in> distances bs. xs = ys @ zs" by (auto simp: distances_def list_all2_append2)
qed (auto simp: distances_def intro: list_all2_appendI)

text \<open>The distances that are zero up to a loop and have a given value in it.\<close>

lemma distance_reaches:
  assumes ok: "ranges_ok bs" and dim: "0 \<le> dim" "dim < alen bs"
  shows "(\<exists>xs \<in> distances bs. list_all (\<lambda>x. x = 0) (take (nat dim) xs) \<and> P (elt xs dim)) \<longleftrightarrow>
    none_carries (take (nat dim) bs) \<and> (\<exists>x. in_range x (elt bs dim) \<and> P x)"
proof -
  let ?k = "nat dim"
  have k: "?k < length bs" using dim by (simp add: alen_def nat_less_iff)
  have split: "bs = take ?k bs @ elt bs dim # drop (Suc ?k) bs" using id_take_nth_drop[OF k] by (simp add: elt_def)
  obtain rest where rest: "rest \<in> distances (drop (Suc ?k) bs)"
    using distances_nonempty[of "drop (Suc ?k) bs"] ok by (auto simp: ranges_ok_def list_all_iff dest: in_set_dropD)
  show ?thesis
  proof
    assume "\<exists>xs \<in> distances bs. list_all (\<lambda>x. x = 0) (take ?k xs) \<and> P (elt xs dim)"
    then obtain xs where xs: "xs \<in> distances bs" "list_all (\<lambda>x. x = 0) (take ?k xs)" "P (elt xs dim)" by blast
    from xs(1) obtain ys x zs where s: "xs = ys @ x # zs" "ys \<in> distances (take ?k bs)" "in_range x (elt bs dim)"
      by (subst (asm) split) (auto simp: distances_append)
    have len: "length ys = ?k" using length_distances[OF s(2)] k by simp
    then have "ys = replicate ?k 0" using xs(2) by (simp add: s(1) list_all_iff replicate_eqI)
    then show "none_carries (take ?k bs) \<and> (\<exists>x. in_range x (elt bs dim) \<and> P x)"
      using s xs(3) len k by (auto simp: none_carries_iff elt_def nth_append min_def)
  next
    assume r: "none_carries (take ?k bs) \<and> (\<exists>x. in_range x (elt bs dim) \<and> P x)"
    then obtain x where x: "in_range x (elt bs dim)" "P x" by blast
    let ?xs = "replicate ?k 0 @ x # rest"
    have "replicate ?k 0 \<in> distances (take ?k bs)" "x # rest \<in> distances (elt bs dim # drop (Suc ?k) bs)"
      using r x(1) rest k by (auto simp: none_carries_iff min_def)
    then have "?xs \<in> distances bs" by (subst split) (unfold distances_append, blast)
    moreover have "list_all (\<lambda>x. x = 0) (take ?k ?xs)" "P (elt ?xs dim)"
      using x(2) by (auto simp: elt_def nth_append list_all_iff)
    ultimately show "\<exists>xs \<in> distances bs. list_all (\<lambda>x. x = 0) (take ?k xs) \<and> P (elt xs dim)" by blast
  qed
qed

lemma in_range_exists:
  assumes "fst b \<le> snd b"
  shows "(\<exists>x. in_range x b \<and> x \<noteq> 0) \<longleftrightarrow> fst b \<noteq> 0 \<or> snd b \<noteq> 0"
    "(\<exists>x. in_range x b \<and> x < 0) \<longleftrightarrow> fst b < 0"
    "0 < distance \<Longrightarrow> (\<exists>x. in_range x b \<and> \<bar>x\<bar> \<le> distance) \<longleftrightarrow> \<not> fst b > distance \<and> \<not> snd b < - distance"
proof -
  show "(\<exists>x. in_range x b \<and> x \<noteq> 0) \<longleftrightarrow> fst b \<noteq> 0 \<or> snd b \<noteq> 0"
    using in_range_low[OF assms] in_range_high[OF assms] in_range_nonneg[of b] in_range_nonpos[of b] by force
  show "(\<exists>x. in_range x b \<and> x < 0) \<longleftrightarrow> fst b < 0"
    using in_range_low[OF assms] in_range_nonneg[of b] by (meson not_le)
  assume d: "0 < distance"
  show "(\<exists>x. in_range x b \<and> \<bar>x\<bar> \<le> distance) \<longleftrightarrow> \<not> fst b > distance \<and> \<not> snd b < - distance"
  proof
    assume "\<exists>x. in_range x b \<and> \<bar>x\<bar> \<le> distance"
    then show "\<not> fst b > distance \<and> \<not> snd b < - distance" using d by (auto simp: in_range_def posInfinity_def)
  next
    assume "\<not> fst b > distance \<and> \<not> snd b < - distance"
    then have "in_range (max (fst b) (- distance)) b \<and> \<bar>max (fst b) (- distance)\<bar> \<le> distance"
      using d assms by (auto simp: in_range_def max_def)
    then show "\<exists>x. in_range x b \<and> \<bar>x\<bar> \<le> distance" by blast
  qed
qed

lemma prefix_zero:
  assumes "ranges_ok bs" "0 \<le> dim" "dim \<le> alen bs"
  shows "none_carries (take (nat dim) bs) \<longleftrightarrow> (\<exists>xs \<in> distances bs. list_all (\<lambda>x. x = 0) (take (nat dim) xs))"
proof (cases "dim < alen bs")
  case True
  have "fst (elt bs dim) \<le> snd (elt bs dim)"
    using assms(1,2) True by (simp add: ranges_ok_def list_all_length elt_def alen_def nat_less_iff)
  from in_range_low[OF this] show ?thesis
    using distance_reaches[OF assms(1,2) True, of "\<lambda>x. True"] by auto
next
  case False
  then have "nat dim = length bs" using assms(3) by (simp add: alen_def)
  moreover have "list_all (\<lambda>x. x = 0) xs \<longleftrightarrow> xs = replicate (length bs) 0" if "xs \<in> distances bs" for xs
    using length_distances[OF that] by (metis (mono_tags, lifting) in_set_replicate list_all_iff replicate_eqI)
  ultimately show ?thesis by (auto simp: none_carries_iff length_distances list_all_iff)
qed

text \<open>The tests for the loop that carries a dependence are exact: a loop is reported to carry it if and only if there is
  a distance that is zero in the outer loops and not in this one (negative in this one, at most so long in this one), and
  the dependence is reported to be carried before if and only if no distance is zero in all the outer loops.\<close>

lemma carried_correct:
  assumes "is_data_dependence d" "ranges_ok (dv_bounds d)" "0 \<le> dim" "dim < num_bounds d" "0 < distance"
  shows "has_been_carried_at d dim = Inr (\<exists>xs \<in> dv_distances d. carried_at dim xs) \<and>
    has_negative_been_carried_at d dim = Inr (\<exists>xs \<in> dv_distances d. carried_at dim xs \<and> elt xs dim < 0) \<and>
    isCarried d dim distance =
      Inr (\<exists>xs \<in> dv_distances d. list_all (\<lambda>x. x = 0) (take (nat dim) xs) \<and> \<bar>elt xs dim\<bar> \<le> distance) \<and>
    has_been_carried_before d dim = Inr (\<forall>xs \<in> dv_distances d. \<not> list_all (\<lambda>x. x = 0) (take (nat dim) xs))"
proof (intro conjI)
  have dim: "dim < alen (dv_bounds d)" using assms(4) by (simp add: num_bounds_def)
  have ok: "fst (elt (dv_bounds d) dim) \<le> snd (elt (dv_bounds d) dim)"
    using assms(2,3) dim by (simp add: ranges_ok_def list_all_length elt_def alen_def nat_less_iff)
  note reach = distance_reaches[OF assms(2,3) dim]
  show "has_been_carried_at d dim = Inr (\<exists>xs \<in> dv_distances d. carried_at dim xs)"
    using assms reach[of "\<lambda>x. x \<noteq> 0"] by (auto simp: has_been_carried_at_def carried_at_def dv_distances_def in_range_exists(1)[OF ok])
  show "has_negative_been_carried_at d dim = Inr (\<exists>xs \<in> dv_distances d. carried_at dim xs \<and> elt xs dim < 0)"
  proof -
    have "(\<exists>xs \<in> dv_distances d. carried_at dim xs \<and> elt xs dim < 0) \<longleftrightarrow>
        (\<exists>xs \<in> dv_distances d. list_all (\<lambda>x. x = 0) (take (nat dim) xs) \<and> elt xs dim < 0)"
      by (auto simp: carried_at_def)
    then show ?thesis using assms reach[of "\<lambda>x. x < 0"]
      by (auto simp: has_negative_been_carried_at_def dv_distances_def in_range_exists(2)[OF ok])
  qed
  show "isCarried d dim distance =
      Inr (\<exists>xs \<in> dv_distances d. list_all (\<lambda>x. x = 0) (take (nat dim) xs) \<and> \<bar>elt xs dim\<bar> \<le> distance)"
    using assms reach[of "\<lambda>x. \<bar>x\<bar> \<le> distance"]
    by (auto simp: isCarried_def dv_distances_def in_range_exists(3)[OF ok] Let_def)
  show "has_been_carried_before d dim = Inr (\<forall>xs \<in> dv_distances d. \<not> list_all (\<lambda>x. x = 0) (take (nat dim) xs))"
    using assms dim prefix_zero[OF assms(2,3)]
    by (simp add: has_been_carried_before_def some_carries_none dv_distances_def)
qed

section \<open>Signs and reversal\<close>

lemma isPositive_correct:
  "ranges_ok (dv_bounds d) \<Longrightarrow> isPositive d \<longleftrightarrow> (\<forall>xs \<in> dv_distances d. lex_positive xs)"
  by (simp add: isPositive_def positive_bounds_iff dv_distances_def)

lemma isNegative_correct:
  "ranges_ok (dv_bounds d) \<Longrightarrow> isNegative d \<longleftrightarrow> (\<forall>xs \<in> dv_distances d. lex_negative xs)"
  by (simp add: isNegative_def negative_bounds_iff dv_distances_def)

lemma dv_reverse_distances: "dv_distances (dv_reverse d) = map uminus ` dv_distances d"
proof -
  have "xs \<in> distances (negated (dv_bounds d)) \<longleftrightarrow> xs \<in> map uminus ` distances (dv_bounds d)" for xs
    using negated_distances[of "map uminus xs" "dv_bounds d"] negated_distances[of _ "dv_bounds d"]
    by (auto simp: o_def image_iff intro!: bexI[of _ "map uminus xs"])
  then show ?thesis by (auto simp: dv_distances_def dv_reverse_def negated_def)
qed

lemma dv_reverse_reverse: "dv_reverse (dv_reverse d) = (dv_copy d)\<lparr>quasi := True\<rparr>"
  by (cases "dv_type d") (simp_all add: dv_reverse_def dv_copy_def o_def split_beta)

lemma dv_reverse_sign: "ranges_ok (dv_bounds d) \<Longrightarrow> isPositive (dv_reverse d) = isNegative d"
  by (simp add: isPositive_def isNegative_def dv_reverse_def negative_bounds_negated negated_def)

text \<open>The copy of a vector whose field \<open>from_same_stmt\<close> is set has it unset.\<close>

lemma dv_copy_loses: "from_same_stmt (dv_copy DependenceVector) = None" "from_same_stmt DependenceVector = Some False"
  by (simp_all add: dv_copy_def DependenceVector_def)

text \<open>The test for zero fails for the vector without loops, which is zero.\<close>

lemma isZero_empty: "isZero DependenceVector = Inl (Invalid_argument ''invalid dependence dimension'')"
  by (simp add: isZero_def isZero_dim_def beyond_def num_bounds_def DependenceVector_def alen_def)

lemma isZero_correct:
  assumes "ranges_ok (dv_bounds d)" "dv_bounds d \<noteq> []"
  shows "isZero d = Inr (\<forall>xs \<in> dv_distances d. all_zero xs)"
proof -
  have "list_all (\<lambda>(l, u). \<not> (l \<noteq> 0 \<or> u \<noteq> 0)) bs \<longleftrightarrow> (\<forall>xs \<in> distances bs. all_zero xs)" if "ranges_ok bs" for bs
    using that
  proof (induction bs)
    case (Cons b bs)
    obtain ys where ys: "ys \<in> distances bs" using distances_nonempty Cons.prems by auto
    have "(\<forall>xs \<in> distances (b # bs). all_zero xs) \<longleftrightarrow>
        (\<forall>x. in_range x b \<longrightarrow> x = 0) \<and> (\<forall>xs \<in> distances bs. all_zero xs)"
    proof
      assume a: "\<forall>xs \<in> distances (b # bs). all_zero xs"
      have "x = 0 \<and> all_zero zs" if "in_range x b" "zs \<in> distances bs" for x zs
        using a[rule_format, of "x # zs"] that by simp
      then show "(\<forall>x. in_range x b \<longrightarrow> x = 0) \<and> (\<forall>xs \<in> distances bs. all_zero xs)"
        using ys in_range_low[of b] Cons.prems by auto
    qed auto
    moreover have "(\<forall>x. in_range x b \<longrightarrow> x = 0) \<longleftrightarrow> fst b = 0 \<and> snd b = 0"
      using in_range_exists(1)[of b] Cons.prems by auto
    ultimately show ?case using Cons by (cases b) simp
  qed simp
  moreover have "0 < alen (dv_bounds d)" "nat (alen (dv_bounds d) - 1) + 1 = length (dv_bounds d)"
    using assms(2) by (simp_all add: alen_def nat_diff_distrib')
  ultimately show ?thesis using assms(1) by (simp add: isZero_def isZero_dim_def beyond_def num_bounds_def dv_distances_def)
qed

end
