(* ===== verification/Loop_Dependences.thy ===== *)
theory Loop_Dependences
  imports Graph_Sort Dependence_Vector
begin

text \<open>
  The dependence graph of CHiLL (the class \<open>DependenceGraph\<close> of \<open>chill/dep.cc\<close>): statements are vertices without a label,
  the edges carry dependence vectors.
\<close>

section \<open>The graph and its operations\<close>

record dep_graph = "(unit, dep_vector) graph" +
  num_dim :: int

definition DependenceGraph :: "int \<Rightarrow> dep_graph" where
  "DependenceGraph n = \<lparr>vertex = [], directed = True, num_dim = n\<rparr>"

text \<open>The loop that inserts the vertices of a graph into a new one, whose number of dimensions is 0.\<close>

definition same_vertices :: "dep_graph \<Rightarrow> dep_graph" where
  "same_vertices g = foldl (\<lambda>h q. fst (graph_insert empty_eq h (fst q))) (DependenceGraph 0) (vertex g)"

definition unknown_distances :: "int list \<Rightarrow> dep_vector \<Rightarrow> dep_vector result" where
  "unknown_distances pi d = for_loop 0 (alen pi) (\<lambda>d k.
     if elt pi k \<noteq> k
     then bind_result (wr (dv_bounds d) k (- posInfinity, posInfinity)) (\<lambda>bs. Inr (d\<lparr>dv_bounds := bs\<rparr>))
     else Inr d) (dv_copy d)"

definition permute_edge :: "int list \<Rightarrow> int list \<Rightarrow> int \<Rightarrow> dep_graph \<Rightarrow> int \<times> dep_vector list \<Rightarrow> dep_graph result" where
  "permute_edge pi active i = (\<lambda>h (j, es).
     if active = [] \<or> i \<in> set active \<and> j \<in> set active
     then fold_result (\<lambda>h d. bind_result (dv_permute d pi) (\<lambda>dv. connect_all h i j dv)) h es
     else if i \<notin> set active \<and> j \<notin> set active then connect_all h i j (map dv_copy es)
     else bind_result (map_result (unknown_distances pi) es) (\<lambda>dv. connect_all h i j dv))"

definition dg_permute :: "dep_graph \<Rightarrow> int list \<Rightarrow> int list \<Rightarrow> dep_graph result" where
  "dg_permute g pi active =
     for_loop 0 (vertexCount g) (\<lambda>h i. fold_result (permute_edge pi active i) h (out_edges g i)) (same_vertices g)"

definition subspace_edge :: "int \<Rightarrow> int \<Rightarrow> dep_graph \<Rightarrow> int \<times> dep_vector list \<Rightarrow> dep_graph result" where
  "subspace_edge dim i = (\<lambda>h (j, es). fold_result (\<lambda>h d.
     if dv_type d \<noteq> DEP_CONTROL
     then bind_result (isCarried d dim posInfinity) (\<lambda>c. if c then connect h i j (dv_copy d) else Inr h)
     else connect h i j (dv_copy d)) h es)"

definition dg_subspace :: "dep_graph \<Rightarrow> int \<Rightarrow> dep_graph result" where
  "dg_subspace g dim =
     for_loop 0 (vertexCount g) (\<lambda>h i. fold_result (subspace_edge dim i) h (out_edges g i)) (same_vertices g)"

text \<open>The loops over all vectors, which end at the first one that fails the test.\<close>

fun all_pass :: "('a \<Rightarrow> bool result) \<Rightarrow> 'a list \<Rightarrow> bool result" where
  "all_pass f [] = Inr True"
| "all_pass f (x # xs) = bind_result (f x) (\<lambda>b. if \<not> b then Inr False else all_pass f xs)"

definition all_vectors :: "dep_graph \<Rightarrow> dep_vector list" where
  "all_vectors g = concat (map (\<lambda>q. concat (map snd (snd q))) (vertex g))"

definition dg_isPositive :: "dep_graph \<Rightarrow> bool" where
  "dg_isPositive g = list_all isPositive (all_vectors g)"

definition dg_hasPositive :: "dep_graph \<Rightarrow> int \<Rightarrow> bool result" where
  "dg_hasPositive g dim = all_pass (\<lambda>d. dv_hasPositive d dim) (all_vectors g)"

definition dg_hasNegative :: "dep_graph \<Rightarrow> int \<Rightarrow> bool result" where
  "dg_hasNegative g dim = all_pass (\<lambda>d. dv_hasNegative d dim) (all_vectors g)"

section \<open>The edges of a graph\<close>

text \<open>All vectors with the vertices they connect, in the order in which the loops meet them.\<close>

definition all_edges :: "dep_graph \<Rightarrow> (int \<times> int \<times> dep_vector) list" where
  "all_edges g = concat (map (\<lambda>i. concat (map (\<lambda>(j, es). map (\<lambda>d. (i, j, d)) es) (out_edges g i))) [0..vertexCount g - 1])"

definition vectors_of :: "int \<Rightarrow> int \<Rightarrow> (int \<times> int \<times> 'a) list \<Rightarrow> 'a list" where
  "vectors_of u w ts = map (snd \<circ> snd) (filter (\<lambda>(i, j, d). i = u \<and> j = w) ts)"

lemma vectors_of_simps [simp]:
  "vectors_of u w [] = []"
  "vectors_of u w ((i, j, d) # ts) = (if i = u \<and> j = w then [d] else []) @ vectors_of u w ts"
  "vectors_of u w (ts @ ts') = vectors_of u w ts @ vectors_of u w ts'"
  by (simp_all add: vectors_of_def)

lemma vectors_of_vertex:
  "std_ok (<) es \<Longrightarrow> vectors_of u w (concat (map (\<lambda>(j, ds). map (\<lambda>d. (i, j, d)) ds) es)) = (if i = u then edges_to w es else [])"
proof (induction es)
  case (Cons q es)
  obtain j ds where q: "q = (j, ds)" by (cases q)
  have one: "vectors_of u w (map (\<lambda>d. (i, j, d)) ds) = (if i = u \<and> j = w then ds else [])" by (induction ds) auto
  have "j = w \<Longrightarrow> std_find (<) w es = None" using Cons.prems by (intro by_value.find_below) (auto simp: q list_all_iff)
  then show ?case using Cons one by (auto simp: q edges_to_def by_value.incomparable_key)
qed (simp add: edges_to_def)

lemma vectors_of_all:
  assumes "graph_ok g"
  shows "vectors_of u w (all_edges g) = edges_between g u w"
proof -
  have "vectors_of u w (concat (map (\<lambda>i. concat (map (\<lambda>(j, es). map (\<lambda>d. (i, j, d)) es) (out_edges g i))) is)) =
      (if u \<in> set is then edges_to w (out_edges g u) else [])" if "distinct is" "\<forall>i \<in> set is. in_graph g i" for "is"
    using that
  proof (induction "is")
    case (Cons i js)
    have i: "std_ok (<) (out_edges g i)" using graph_okD(1)[OF assms, of i] Cons.prems(2) by simp
    have rest: "distinct js" "\<forall>i \<in> set js. in_graph g i" using Cons.prems by simp_all
    show ?case
    proof (cases "i = u")
      case True
      then have "u \<notin> set js" using Cons.prems(1) by simp
      then show ?thesis using vectors_of_vertex[OF i, of u w i] Cons.IH[OF rest] True by simp
    next
      case False
      then show ?thesis using vectors_of_vertex[OF i, of u w i] Cons.IH[OF rest] by simp
    qed
  qed simp
  from this[of "[0..vertexCount g - 1]"] show ?thesis by (auto simp: all_edges_def edges_between_def in_graph_def)
qed

lemma all_edges_iff: "graph_ok g \<Longrightarrow> (u, w, d) \<in> set (all_edges g) \<longleftrightarrow> d \<in> set (edges_between g u w)"
  by (force simp: vectors_of_all[symmetric] vectors_of_def)

lemma all_edges_range: "graph_ok g \<Longrightarrow> (u, w, d) \<in> set (all_edges g) \<Longrightarrow> in_graph g u \<and> in_graph g w"
proof -
  assume ok: "graph_ok g" and e: "(u, w, d) \<in> set (all_edges g)"
  from e obtain es where es: "u \<in> set [0..vertexCount g - 1]" "(w, es) \<in> set (out_edges g u)"
    unfolding all_edges_def by fastforce
  then have u: "in_graph g u" by (simp add: in_graph_def)
  then show ?thesis using graph_okD(2)[OF ok u es(2)] by simp
qed

section \<open>Building a graph edge by edge\<close>

text \<open>Every vector is replaced by a list of vectors between the same vertices.\<close>

definition build :: "(dep_vector \<Rightarrow> dep_vector list result) \<Rightarrow> dep_graph \<Rightarrow> int \<times> int \<times> dep_vector \<Rightarrow> dep_graph result" where
  "build f = (\<lambda>h (i, j, d). bind_result (f d) (\<lambda>dv. connect_all h i j dv))"

lemma num_dim_connect_all: "connect_all h i j dv = Inr h' \<Longrightarrow> num_dim h' = num_dim h"
  by (auto simp: connect_all_def Let_def push_edges_def split: if_splits)

lemma build_succeeds:
  assumes "graph_ok h" "directed h" "\<forall>(i, j, d) \<in> set ts. in_graph h i \<and> in_graph h j \<and> f d = Inr (F d)"
  shows "\<exists>h'. fold_result (build f) h ts = Inr h' \<and> graph_ok h' \<and> vertexCount h' = vertexCount h \<and> num_dim h' = num_dim h \<and>
    (\<forall>u w. edges_between h' u w = edges_between h u w @ concat (map F (vectors_of u w ts)))"
  using assms
proof (induction ts arbitrary: h)
  case (Cons t ts)
  obtain i j d where t: "t = (i, j, d)" by (cases t)
  have d: "in_graph h i" "in_graph h j" "f d = Inr (F d)" using Cons.prems(3) by (auto simp: t)
  obtain h1 where h1: "connect_all h i j (F d) = Inr h1" "graph_ok h1" "vertexCount h1 = vertexCount h" "directed h1 = directed h"
    "\<And>u w. edges_between h1 u w = (if u = i \<and> w = j then edges_between h u w @ F d else edges_between h u w)"
    using connect_all_correct[OF Cons.prems(1) d(1,2), of "F d"] Cons.prems(2) by blast
  have same: "in_graph h1 = in_graph h" using h1(3) by (simp add: in_graph_def fun_eq_iff)
  obtain h' where h': "fold_result (build f) h1 ts = Inr h'" "graph_ok h'" "vertexCount h' = vertexCount h1" "num_dim h' = num_dim h1"
    "\<forall>u w. edges_between h' u w = edges_between h1 u w @ concat (map F (vectors_of u w ts))"
    using Cons.IH[OF h1(2)] Cons.prems(2,3) h1(4) same by auto
  have "fold_result (build f) h (t # ts) = Inr h'" using d(3) h1(1) h'(1) by (simp add: t build_def)
  moreover have "edges_between h' u w = edges_between h u w @ concat (map F (vectors_of u w (t # ts)))" for u w
    using h'(5) h1(5)[of u w] by (cases "u = i \<and> w = j") (auto simp: t)
  ultimately show ?case using h' h1(3) num_dim_connect_all[OF h1(1)] by auto
qed simp

lemma build_fails:
  assumes "graph_ok h" "directed h" "\<forall>(i, j, d) \<in> set ts. in_graph h i \<and> in_graph h j" "(i, j, d) \<in> set ts" "f d = Inl e"
  shows "\<exists>i j d e. fold_result (build f) h ts = Inl e \<and> (i, j, d) \<in> set ts \<and> f d = Inl e"
  using assms(1-4)
proof (induction ts arbitrary: h)
  case (Cons t ts)
  obtain i' j' d' where t: "t = (i', j', d')" by (cases t)
  show ?case
  proof (cases "f d'")
    case (Inl e')
    then have "fold_result (build f) h (t # ts) = Inl e'" by (simp add: t build_def)
    then show ?thesis using Inl t by (metis list.set_intros(1))
  next
    case (Inr ds)
    have in_h: "in_graph h i'" "in_graph h j'" using Cons.prems(3) by (auto simp: t)
    obtain h1 where h1: "connect_all h i' j' ds = Inr h1" "graph_ok h1" "vertexCount h1 = vertexCount h" "directed h1 = directed h"
      using connect_all_correct[OF Cons.prems(1) in_h, of ds] by blast
    have "in_graph h1 = in_graph h" using h1(3) by (simp add: in_graph_def fun_eq_iff)
    moreover have "(i, j, d) \<in> set ts" using Cons.prems(4) t Inr assms(5) by auto
    ultimately obtain i2 j2 d2 e2 where "fold_result (build f) h1 ts = Inl e2" "(i2, j2, d2) \<in> set ts" "f d2 = Inl e2"
      using Cons.IH[OF h1(2)] Cons.prems(2,3) h1(4) by auto
    moreover have "fold_result (build f) h (t # ts) = fold_result (build f) h1 ts" using Inr h1(1) by (simp add: t build_def)
    ultimately show ?thesis by (metis list.set_intros(2))
  qed
qed simp

text \<open>The new graph before edges are added.\<close>

lemma same_vertices_facts:
  "graph_ok (same_vertices g)" "vertexCount (same_vertices g) = vertexCount g" "directed (same_vertices g)"
  "num_dim (same_vertices g) = 0" "edges_between (same_vertices g) u w = []"
proof -
  have inv: "(graph_ok h \<and> directed h \<and> num_dim h = 0 \<and> (\<forall>q \<in> set (vertex h). snd q = [])) \<Longrightarrow>
      (let h' = foldl (\<lambda>h q. fst (graph_insert empty_eq h (fst q))) h vs
       in graph_ok h' \<and> directed h' \<and> num_dim h' = 0 \<and> (\<forall>q \<in> set (vertex h'). snd q = []) \<and> vertexCount h' = vertexCount h + alen vs)"
    for vs :: "(unit \<times> dep_vector edge_list) list" and h :: dep_graph
  proof (induction vs arbitrary: h)
    case (Cons v vs)
    let ?h = "fst (graph_insert empty_eq h (fst v))"
    have "graph_ok ?h \<and> directed ?h \<and> num_dim ?h = 0 \<and> (\<forall>q \<in> set (vertex ?h). snd q = [])"
      using Cons.prems insert_empty_ok[of h "fst v"] by (auto simp: insert_empty)
    from Cons.IH[OF this] show ?case by (simp add: Let_def insert_empty vertexCount_def alen_def)
  qed (simp add: Let_def alen_def)
  have "graph_ok (DependenceGraph 0)" by (simp add: graph_ok_def DependenceGraph_def)
  then have h: "graph_ok (same_vertices g) \<and> directed (same_vertices g) \<and> num_dim (same_vertices g) = 0 \<and>
      (\<forall>q \<in> set (vertex (same_vertices g)). snd q = []) \<and> vertexCount (same_vertices g) = vertexCount (DependenceGraph 0) + vertexCount g"
    using inv[of "DependenceGraph 0" "vertex g"] by (simp add: same_vertices_def DependenceGraph_def Let_def vertexCount_def)
  then show "graph_ok (same_vertices g)" "vertexCount (same_vertices g) = vertexCount g" "directed (same_vertices g)"
    "num_dim (same_vertices g) = 0" by (simp_all add: vertexCount_def DependenceGraph_def alen_def)
  have "out_edges (same_vertices g) u = []" if "in_graph (same_vertices g) u"
  proof -
    have "nat u < length (vertex (same_vertices g))" using that by (simp add: in_graph_def vertexCount_def alen_def nat_less_iff)
    then show ?thesis using h by (simp add: out_edges_def elt_def)
  qed
  then show "edges_between (same_vertices g) u w = []" by (simp add: edges_between_def edges_to_def)
qed

section \<open>Permutation of the loops of a graph\<close>

lemma flat_edges:
  "for_loop 0 (vertexCount g) (\<lambda>h i. fold_result (\<lambda>h (j, es). fold_result (\<lambda>h d. step h (i, j, d)) h es) h (out_edges g i)) h0 =
    fold_result step h0 (all_edges g)"
proof -
  have "fold_result (\<lambda>h (j, es). fold_result (\<lambda>h d. step h (i, j, d)) h es) h qs =
      fold_result step h (concat (map (\<lambda>(j, es). map (\<lambda>d. (i, j, d)) es) qs))" for h i qs
    by (induction qs arbitrary: h) (auto simp: fold_result_append fold_result_map split: prod.splits)
  then show ?thesis by (simp add: for_loop_def all_edges_def nested_fold)
qed

lemma dg_permute_build: "dg_permute g pi [] = fold_result (build (\<lambda>d. dv_permute d pi)) (same_vertices g) (all_edges g)"
  unfolding flat_edges[symmetric] by (simp add: dg_permute_def permute_edge_def build_def)

lemma Union_concat_map: "(\<Union>v \<in> set (concat (map F xs)). P v) = (\<Union>x \<in> set xs. \<Union>v \<in> set (F x). P v)"
  by auto

text \<open>The vectors of a graph are for \<open>n\<close> loops.\<close>

definition vectors_ok :: "nat \<Rightarrow> dep_graph \<Rightarrow> bool" where
  "vectors_ok n g \<longleftrightarrow> list_all (\<lambda>(i, j, d). length (dv_bounds d) = n \<and> ranges_ok (dv_bounds d)) (all_edges g)"

definition violates :: "int list \<Rightarrow> dep_vector \<Rightarrow> bool" where
  "violates pi d \<longleftrightarrow> \<not> legal d pi \<and> \<not> quasi d \<and> \<not> is_scalar_dependence d"

definition between_distances :: "dep_graph \<Rightarrow> int \<Rightarrow> int \<Rightarrow> int list set" where
  "between_distances g u w = (\<Union>d \<in> set (edges_between g u w). dv_distances d)"

lemma dv_permute_cases:
  assumes "permutation pi (length (dv_bounds d))" "ranges_ok (dv_bounds d)"
  shows "if violates pi d then dv_permute d pi = Inl (Ir_error ''dependence violation'')
    else \<exists>vs. dv_permute d pi = Inr vs \<and> (\<Union>v \<in> set vs. dv_distances v) = permuted pi ` dv_distances d"
  using dv_permute_points[OF assms(1)] violated_legal[OF assms] by (auto simp: dv_permute_eq[OF assms(1)] violates_def)

text \<open>C12: Permuting all loops of a well-formed dependence graph whose vectors have one ordered pair of bounds for
  each loop fails exactly when some dependence is violated, which is neither a quasi nor a scalar dependence; otherwise
  the new graph has the same statements and between any two of them exactly the permuted distances.\<close>

theorem dg_permute_correct:
  assumes "graph_ok g" "permutation pi n" "vectors_ok n g"
  shows "case dg_permute g pi [] of
      Inl e \<Rightarrow> e = Ir_error ''dependence violation'' \<and> list_ex (\<lambda>(i, j, d). violates pi d) (all_edges g)
    | Inr h \<Rightarrow> \<not> list_ex (\<lambda>(i, j, d). violates pi d) (all_edges g) \<and> graph_ok h \<and> vertexCount h = vertexCount g \<and>
        (\<forall>u w. between_distances h u w = permuted pi ` between_distances g u w)"
proof -
  let ?h0 = "same_vertices g" and ?f = "\<lambda>d. dv_permute d pi"
  have vec: "length (dv_bounds d) = n" "ranges_ok (dv_bounds d)" if "(i, j, d) \<in> set (all_edges g)" for i j d
    using assms(3) that by (auto simp: vectors_ok_def list_all_iff)
  have perm: "if violates pi d then dv_permute d pi = Inl (Ir_error ''dependence violation'')
      else \<exists>vs. dv_permute d pi = Inr vs \<and> (\<Union>v \<in> set vs. dv_distances v) = permuted pi ` dv_distances d"
    if "(i, j, d) \<in> set (all_edges g)" for i j d
    using dv_permute_cases[of pi d] vec[OF that] assms(2) by simp
  have in_h: "in_graph ?h0 i \<and> in_graph ?h0 j" if "(i, j, d) \<in> set (all_edges g)" for i j d
    using all_edges_range[OF assms(1) that] by (simp add: in_graph_def same_vertices_facts)
  show ?thesis
  proof (cases "list_ex (\<lambda>(i, j, d). violates pi d) (all_edges g)")
    case True
    then obtain i j d where t: "(i, j, d) \<in> set (all_edges g)" "violates pi d" by (auto simp: list_ex_iff)
    then have "dv_permute d pi = Inl (Ir_error ''dependence violation'')" using perm[OF t(1)] by simp
    then obtain i' j' d' e where e: "dg_permute g pi [] = Inl e" "(i', j', d') \<in> set (all_edges g)" "dv_permute d' pi = Inl e"
      using build_fails[of ?h0 "all_edges g" i j d ?f] same_vertices_facts[of g] in_h t(1)
      unfolding dg_permute_build by blast
    then have "e = Ir_error ''dependence violation''" using perm[OF e(2)] by (auto split: if_splits)
    then show ?thesis using e True by simp
  next
    case False
    define F where "F d = (case dv_permute d pi of Inr vs \<Rightarrow> vs | Inl e \<Rightarrow> [])" for d
    have F: "dv_permute d pi = Inr (F d) \<and> (\<Union>v \<in> set (F d). dv_distances v) = permuted pi ` dv_distances d"
      if "(i, j, d) \<in> set (all_edges g)" for i j d
    proof -
      have "\<not> violates pi d" using False that by (auto simp: list_ex_iff)
      then show ?thesis using perm[OF that] by (auto simp: F_def)
    qed
    obtain h where h: "dg_permute g pi [] = Inr h" "graph_ok h" "vertexCount h = vertexCount ?h0"
      "\<forall>u w. edges_between h u w = edges_between ?h0 u w @ concat (map F (vectors_of u w (all_edges g)))"
      using build_succeeds[of ?h0 "all_edges g" ?f F] same_vertices_facts[of g] in_h F unfolding dg_permute_build by blast
    have "between_distances h u w = permuted pi ` between_distances g u w" for u w
    proof -
      have "(\<Union>v \<in> set (F d). dv_distances v) = permuted pi ` dv_distances d" if "d \<in> set (edges_between g u w)" for d
        using F[of u w d] all_edges_iff[OF assms(1), of u w d] that by simp
      moreover have "edges_between h u w = concat (map F (edges_between g u w))"
        using h(4) same_vertices_facts(5)[of g u w] vectors_of_all[OF assms(1), of u w] by simp
      ultimately show ?thesis
        unfolding between_distances_def image_UN by (simp only: Union_concat_map) (rule SUP_cong[OF refl], blast)
    qed
    then show ?thesis using h(1-3) False same_vertices_facts(2)[of g] by simp
  qed
qed

text \<open>Two statements: one depends on itself with the vector \<open>(1, 0~5, -3)\<close>, the other on it with \<open>(0, 2, 1+)\<close>.\<close>

definition two_statements :: dep_graph where
  "two_statements = \<lparr>vertex = [((), [(0, [example_vector]),
     (1, [DependenceVector\<lparr>dv_type := DEP_W2R, dv_bounds := [(0, 0), (2, 2), (1, posInfinity)]\<rparr>])]), ((), [])],
     directed = True, num_dim = 3\<rparr>"

theorem dg_permute_correct_witness:
  "\<exists>h. dg_permute two_statements [1, 0, 2] [] = Inr h \<and>
     between_distances h 0 0 = permuted [1, 0, 2] ` between_distances two_statements 0 0"
proof -
  have ok: "graph_ok two_statements" "permutation [1, 0, 2] 3" "vectors_ok 3 two_statements"
    by (code_simp, force simp: permutation_def, code_simp)
  have "(\<lambda>r. case r of Inl e \<Rightarrow> False | Inr h \<Rightarrow> True) (dg_permute two_statements [1, 0, 2] [])" by code_simp
  then show ?thesis using dg_permute_correct[OF ok] by (auto split: sum.splits)
qed

lemma dg_permute_violated: "dg_permute two_statements [2, 0, 1] [] = Inl (Ir_error ''dependence violation'')"
  by code_simp

text \<open>The new graph says that it is for no loops.\<close>

lemma dg_permute_forgets_dimensions:
  "map_sum id num_dim (dg_permute two_statements [1, 0, 2] []) = Inr 0" "num_dim two_statements = 3"
  by code_simp+

section \<open>Subspaces, unknown distances and signs\<close>

definition keeps :: "int \<Rightarrow> dep_vector \<Rightarrow> bool" where
  "keeps dim d \<longleftrightarrow> dv_type d = DEP_CONTROL \<or> isCarried d dim posInfinity = Inr True"

lemma isCarried_total: "\<exists>c. isCarried d dim posInfinity = Inr c"
  by (auto simp: isCarried_def Let_def posInfinity_def)

lemma fold_step_build:
  assumes "\<And>h i j d. (i, j, d) \<in> set ts \<Longrightarrow> in_graph h i \<Longrightarrow> in_graph h j \<Longrightarrow> step h (i, j, d) = build f h (i, j, d)"
    and "graph_ok h" "directed h" "\<forall>(i, j, d) \<in> set ts. in_graph h i \<and> in_graph h j \<and> f d = Inr (F d)"
  shows "fold_result step h ts = fold_result (build f) h ts"
  using assms
proof (induction ts arbitrary: h)
  case (Cons t ts)
  obtain i j d where t: "t = (i, j, d)" by (cases t)
  have d: "in_graph h i" "in_graph h j" "f d = Inr (F d)" using Cons.prems(4) by (auto simp: t)
  obtain h1 where h1: "connect_all h i j (F d) = Inr h1" "graph_ok h1" "vertexCount h1 = vertexCount h" "directed h1 = directed h"
    using connect_all_correct[OF Cons.prems(2) d(1,2), of "F d"] by blast
  have same: "in_graph h1 = in_graph h" using h1(3) by (simp add: in_graph_def fun_eq_iff)
  have "step h t = build f h t" using Cons.prems(1)[of i j d h] d by (simp add: t)
  moreover have "build f h t = Inr h1" using d(3) h1(1) by (simp add: t build_def)
  moreover have "fold_result step h1 ts = fold_result (build f) h1 ts"
    using Cons.prems(1,3,4) h1(2,4) same by (intro Cons.IH) auto
  ultimately show ?case by simp
qed simp

text \<open>The subspace of a loop keeps the control dependences and those that may still be carried by the loop or inside it.\<close>

lemma dg_subspace_correct:
  assumes "graph_ok g"
  shows "\<exists>h. dg_subspace g dim = Inr h \<and> graph_ok h \<and> vertexCount h = vertexCount g \<and>
    (\<forall>u w. edges_between h u w = map dv_copy (filter (keeps dim) (edges_between g u w)))"
proof -
  let ?h0 = "same_vertices g" and ?F = "\<lambda>d. if keeps dim d then [dv_copy d] else []"
  define step where "step h t = (case t of (i, j, d) \<Rightarrow> if dv_type d \<noteq> DEP_CONTROL
     then bind_result (isCarried d dim posInfinity) (\<lambda>c. if c then connect h i j (dv_copy d) else Inr h)
     else connect h i j (dv_copy d))" for h :: dep_graph and t
  have "dg_subspace g dim = fold_result step ?h0 (all_edges g)"
    unfolding flat_edges[symmetric] by (simp add: dg_subspace_def subspace_edge_def step_def)
  also have "\<dots> = fold_result (build (\<lambda>d. Inr (?F d))) ?h0 (all_edges g)"
  proof (rule fold_step_build[where F = ?F])
    fix h :: dep_graph and i j d assume "in_graph h i" "in_graph h j"
    then show "step h (i, j, d) = build (\<lambda>d. Inr (?F d)) h (i, j, d)"
      using isCarried_total[of d dim] by (auto simp: step_def build_def keeps_def connect_is_connect_all) (auto simp: connect_all_def)
  qed (use same_vertices_facts[of g] all_edges_range[OF assms] in \<open>auto simp: in_graph_def\<close>)
  finally have eq: "dg_subspace g dim = fold_result (build (\<lambda>d. Inr (?F d))) ?h0 (all_edges g)" .
  have "\<forall>(i, j, d) \<in> set (all_edges g). in_graph ?h0 i \<and> in_graph ?h0 j \<and> Inr (?F d) = Inr (?F d)"
    using all_edges_range[OF assms] same_vertices_facts(2)[of g] by (auto simp: in_graph_def)
  from build_succeeds[OF same_vertices_facts(1,3) this]
  obtain h where h: "dg_subspace g dim = Inr h" "graph_ok h" "vertexCount h = vertexCount g"
    "\<forall>u w. edges_between h u w = concat (map ?F (edges_between g u w))"
    unfolding eq using same_vertices_facts(2,5)[of g] vectors_of_all[OF assms] by auto
  moreover have "concat (map ?F xs) = map dv_copy (filter (keeps dim) xs)" for xs by (induction xs) auto
  ultimately show ?thesis by auto
qed

text \<open>Between a statement that takes part in a permutation and one that does not, the distances of the moved loops are
  forgotten, so that none is lost.\<close>

lemma unknown_distances_superset:
  assumes "permutation pi (length (dv_bounds d))"
  shows "\<exists>d'. unknown_distances pi d = Inr d' \<and> dv_distances d \<subseteq> dv_distances d'"
proof -
  let ?n = "length (dv_bounds d)"
  have len: "alen pi = int ?n" using assms by (simp add: permutation_def alen_def)
  have "\<exists>d'. unknown_distances pi d = Inr d' \<and> (length (dv_bounds d') = ?n \<and> dv_distances d \<subseteq> dv_distances d')"
    unfolding unknown_distances_def
  proof (rule for_loop_rule[of 0 "alen pi" "\<lambda>_ d'. length (dv_bounds d') = ?n \<and> dv_distances d \<subseteq> dv_distances d'"])
    show "length (dv_bounds (dv_copy d)) = ?n \<and> dv_distances d \<subseteq> dv_distances (dv_copy d)" by (simp add: dv_copy_def dv_distances_def)
  next
    fix k d' assume k: "0 \<le> k" "k < alen pi" and d': "length (dv_bounds d') = ?n \<and> dv_distances d \<subseteq> dv_distances d'"
    have "distances bs \<subseteq> distances (bs[nat k := (- posInfinity, posInfinity)])" for bs
    proof
      fix xs assume xs: "xs \<in> distances bs"
      have "in_range (xs ! i) (bs[nat k := (- posInfinity, posInfinity)] ! i)" if "i < length bs" for i
        using xs that by (cases "i = nat k") (auto simp: distances_def list_all2_conv_all_nth in_range_def)
      then show "xs \<in> distances (bs[nat k := (- posInfinity, posInfinity)])"
        using xs by (simp add: distances_def list_all2_conv_all_nth)
    qed
    then have "dv_distances d \<subseteq> distances (upd (dv_bounds d') k (- posInfinity, posInfinity))"
      using d' unfolding dv_distances_def upd_def by blast
    then show "\<exists>d''. (if elt pi k \<noteq> k then bind_result (wr (dv_bounds d') k (- posInfinity, posInfinity)) (\<lambda>bs. Inr (d'\<lparr>dv_bounds := bs\<rparr>))
        else Inr d') = Inr d'' \<and> length (dv_bounds d'') = ?n \<and> dv_distances d \<subseteq> dv_distances d''"
      using k len d' by (auto simp: alen_def upd_def wr_def)
  qed (simp add: alen_def)
  then show ?thesis by blast
qed

lemma in_concat_map: "q \<in> set qs \<Longrightarrow> x \<in> set (h q) \<Longrightarrow> x \<in> set (concat (map h qs))"
  by auto

lemma all_vectors_iff: "graph_ok g \<Longrightarrow> set (all_vectors g) = {d. \<exists>u w. d \<in> set (edges_between g u w)}"
proof -
  assume ok: "graph_ok g"
  have "(d \<in> set (all_vectors g)) = (\<exists>u w. (u, w, d) \<in> set (all_edges g))" for d
  proof
    assume "d \<in> set (all_vectors g)"
    then obtain p q where p: "p \<in> set (vertex g)" "q \<in> set (snd p)" "d \<in> set (snd q)" by (auto simp: all_vectors_def)
    from p(1) obtain k where "k < length (vertex g)" "p = vertex g ! k" by (auto simp: in_set_conv_nth)
    moreover obtain j es where "q = (j, es)" by (cases q)
    ultimately have "(j, es) \<in> set (out_edges g (int k))" "d \<in> set es" "int k \<in> set [0..vertexCount g - 1]"
      using p(2,3) by (simp_all add: vertexCount_def alen_def out_edges_def elt_def)
    then have "(int k, j, d) \<in> set (all_edges g)" unfolding all_edges_def
      by (intro in_concat_map[of "int k"] in_concat_map[of "(j, es)"]) auto
    then show "\<exists>u w. (u, w, d) \<in> set (all_edges g)" by blast
  next
    assume "\<exists>u w. (u, w, d) \<in> set (all_edges g)"
    then obtain u q where "0 \<le> u" "u < vertexCount g" "q \<in> set (out_edges g u)" "d \<in> set (snd q)"
      by (fastforce simp: all_edges_def)
    moreover from this have "elt (vertex g) u \<in> set (vertex g)" by (simp add: elt_def vertexCount_def alen_def nat_less_iff)
    ultimately show "d \<in> set (all_vectors g)" by (force simp: all_vectors_def out_edges_def)
  qed
  then show ?thesis using all_edges_iff[OF ok] by blast
qed

lemma dg_isPositive_correct:
  assumes "graph_ok g" "vectors_ok n g"
  shows "dg_isPositive g \<longleftrightarrow> (\<forall>u w. \<forall>xs \<in> between_distances g u w. lex_positive xs)"
proof -
  have "ranges_ok (dv_bounds d)" if "d \<in> set (edges_between g u w)" for u w d
    using assms that all_edges_iff[of g u w d] by (auto simp: vectors_ok_def list_all_iff)
  then show ?thesis
    using all_vectors_iff[OF assms(1)] isPositive_correct
    by (simp add: dg_isPositive_def list_all_iff between_distances_def) blast
qed

end
