(* ===== verification/Cholesky_Parallel.thy ===== *)
theory Cholesky_Parallel
  imports Kernels
begin

text \<open>
  The parallel incomplete factorizations \<open>ic0_csr_parInner\<close> of the experiments (\<open>timeResults/src/ic0_csc_k.h\<close>, where the
  loop over the elements \<open>k\<close> of a column is parallel, and \<open>ic0_csc_m7.h\<close>, where the loop over the elements \<open>m\<close> of the
  pivot column is). Threads are interleaved at the loads and stores of \<open>val\<close>; with any interleaving the result is that of
  the sequential \<open>ic0_csr\<close>.
\<close>

section \<open>Threads\<close>

text \<open>
  A thread has the iterations of its innermost loop to do, each given by \<open>m\<close>, \<open>k\<close> and \<open>l\<close>. The test of an iteration reads
  only \<open>rowIdx\<close>, which nobody writes; if it succeeds the thread loads the three values and, at its next turn, stores the
  difference. A schedule lists the turns.
\<close>

type_synonym iteration_item = "int \<times> int \<times> int"

record 'a threads =
  shared :: "'a list"
  to_do :: "int \<Rightarrow> iteration_item list"
  loaded :: "int \<Rightarrow> 'a option"

definition iteration_enabled :: "int list \<Rightarrow> iteration_item \<Rightarrow> bool result" where
  "iteration_enabled rowIdx = (\<lambda>(m, k, l).
     bind_result (rd rowIdx l) (\<lambda>a. bind_result (rd rowIdx k) (\<lambda>b. if a \<noteq> b then Inr False else
     bind_result (rd rowIdx (l + 1)) (\<lambda>a. bind_result (rd rowIdx k) (\<lambda>b. Inr (a \<le> b))))))"

definition thread_turn :: "int list \<Rightarrow> 'a::field threads \<Rightarrow> int \<Rightarrow> 'a threads result" where
  "thread_turn rowIdx st t = (case to_do st t of
     [] \<Rightarrow> Inr st
   | (m, k, l) # rest \<Rightarrow>
       (case loaded st t of
          None \<Rightarrow> bind_result (iteration_enabled rowIdx (m, k, l)) (\<lambda>on.
            if \<not> on then Inr (st\<lparr>to_do := (to_do st)(t := rest)\<rparr>)
            else bind_result (rd (shared st) k) (\<lambda>vk. bind_result (rd (shared st) m) (\<lambda>vm. bind_result (rd (shared st) l) (\<lambda>vl.
              Inr (st\<lparr>loaded := (loaded st)(t := Some (vk - vm * vl))\<rparr>)))))
        | Some v \<Rightarrow> bind_result (wr (shared st) k v) (\<lambda>val.
            Inr (st\<lparr>shared := val, to_do := (to_do st)(t := rest), loaded := (loaded st)(t := None)\<rparr>))))"

text \<open>The threads have joined when none has anything to do; a schedule that ends before that is not an execution.\<close>

definition parallel_region ::
  "int list \<Rightarrow> int \<Rightarrow> int \<Rightarrow> (int \<Rightarrow> iteration_item list) \<Rightarrow> int list \<Rightarrow> 'a::field list \<Rightarrow> 'a list result" where
  "parallel_region rowIdx lo hi work schedule val =
     bind_result (fold_result (thread_turn rowIdx) \<lparr>shared = val, to_do = (\<lambda>t. if lo \<le> t \<and> t < hi then work t else []), loaded = (\<lambda>t. None)\<rparr> schedule) (\<lambda>st.
       if list_all (\<lambda>t. to_do st t = []) [lo..hi - 1] then Inr (shared st) else Inl (Assertion ''the region has not ended''))"

section \<open>The factorizations\<close>

text \<open>The schedule of the parallel region for the pivot \<open>i\<close> (and the element \<open>m\<close>) is an argument.\<close>

definition ic0_rest_k :: "(int \<Rightarrow> int \<Rightarrow> int list) \<Rightarrow> int list \<Rightarrow> int list \<Rightarrow> int \<Rightarrow> 'a::field list \<Rightarrow> 'a list result" where
  "ic0_rest_k schedule colPtr rowIdx i val =
    bind_result (rd colPtr i) (\<lambda>lo. bind_result (rd colPtr (i + 1)) (\<lambda>hi.
    bind_result (for_loop (lo + 1) hi (ic0_scale colPtr i) val) (\<lambda>val.
    for_loop (lo + 1) hi (\<lambda>val m.
      bind_result (rd rowIdx m) (\<lambda>r. bind_result (rd colPtr r) (\<lambda>k0. bind_result (rd colPtr (r + 1)) (\<lambda>k1.
      parallel_region rowIdx k0 k1 (\<lambda>k. map (\<lambda>l. (m, k, l)) [m..hi - 1]) (schedule i m) val)))) val)))"

definition ic0_csr_parInner_k ::
  "(int \<Rightarrow> int \<Rightarrow> int list) \<Rightarrow> ('a \<Rightarrow> 'a) \<Rightarrow> int \<Rightarrow> 'a::field list \<Rightarrow> int list \<Rightarrow> int list \<Rightarrow> 'a list result" where
  "ic0_csr_parInner_k schedule sqroot n val colPtr rowIdx =
    for_loop 0 (n - 1) (\<lambda>val i.
      bind_result (rd colPtr i) (\<lambda>d. bind_result (rd val d) (\<lambda>v.
      bind_result (wr val d (sqroot v)) (ic0_rest_k schedule colPtr rowIdx i)))) val"

definition work_of_m :: "int list \<Rightarrow> int list \<Rightarrow> int \<Rightarrow> int \<Rightarrow> iteration_item list" where
  "work_of_m colPtr rowIdx hi m = (let r = elt rowIdx m in
     concat (map (\<lambda>k. map (\<lambda>l. (m, k, l)) [m..hi - 1]) [elt colPtr r..elt colPtr (r + 1) - 1]))"

text \<open>The bounds of the loops inside the parallel one are read from arrays that nobody writes, before the threads start.\<close>

definition ic0_rest_m :: "(int \<Rightarrow> int list) \<Rightarrow> int list \<Rightarrow> int list \<Rightarrow> int \<Rightarrow> 'a::field list \<Rightarrow> 'a list result" where
  "ic0_rest_m schedule colPtr rowIdx i val =
    bind_result (rd colPtr i) (\<lambda>lo. bind_result (rd colPtr (i + 1)) (\<lambda>hi.
    bind_result (for_loop (lo + 1) hi (ic0_scale colPtr i) val) (\<lambda>val.
    bind_result (map_result (\<lambda>m. bind_result (rd rowIdx m) (\<lambda>r. bind_result (rd colPtr r) (\<lambda>k0. rd colPtr (r + 1)))) [lo + 1..hi - 1]) (\<lambda>_.
    parallel_region rowIdx (lo + 1) hi (work_of_m colPtr rowIdx hi) (schedule i) val))))"

definition ic0_csr_parInner_m ::
  "(int \<Rightarrow> int list) \<Rightarrow> ('a \<Rightarrow> 'a) \<Rightarrow> int \<Rightarrow> 'a::field list \<Rightarrow> int list \<Rightarrow> int list \<Rightarrow> 'a list result" where
  "ic0_csr_parInner_m schedule sqroot n val colPtr rowIdx =
    for_loop 0 (n - 1) (\<lambda>val i.
      bind_result (rd colPtr i) (\<lambda>d. bind_result (rd val d) (\<lambda>v.
      bind_result (wr val d (sqroot v)) (ic0_rest_m schedule colPtr rowIdx i)))) val"

section \<open>A region without conflicts\<close>

definition enabled :: "int list \<Rightarrow> iteration_item \<Rightarrow> bool" where
  "enabled rowIdx = (\<lambda>(m, k, l). elt rowIdx l = elt rowIdx k \<and> elt rowIdx (l + 1) \<le> elt rowIdx k)"

definition item_ok :: "int list \<Rightarrow> 'a list \<Rightarrow> iteration_item \<Rightarrow> bool" where
  "item_ok rowIdx val = (\<lambda>(m, k, l). 0 \<le> m \<and> m < alen val \<and> 0 \<le> k \<and> k < alen val \<and> 0 \<le> l \<and> l < alen val \<and>
     k < alen rowIdx \<and> l + 1 < alen rowIdx)"

definition target :: "iteration_item \<Rightarrow> int" where
  "target = (\<lambda>(m, k, l). k)"

text \<open>What a thread writes no thread but itself reads, and it only in the element that it writes.\<close>

definition no_conflict :: "int list \<Rightarrow> 'a list \<Rightarrow> (int \<Rightarrow> iteration_item list) \<Rightarrow> bool" where
  "no_conflict rowIdx val W \<longleftrightarrow>
     (\<forall>t. \<forall>w \<in> set (W t). item_ok rowIdx val w) \<and>
     (\<forall>t t' w w'. w \<in> set (W t) \<and> w' \<in> set (W t') \<longrightarrow> (t \<noteq> t' \<longrightarrow> target w \<noteq> target w') \<and>
        (case w of (m, k, l) \<Rightarrow> m \<noteq> target w' \<and> l \<noteq> target w'))"

lemma no_conflict_free: "no_conflict rowIdx val W \<Longrightarrow> (m, k, l) \<in> set (W t) \<Longrightarrow> m \<notin> target ` set (W t') \<and> l \<notin> target ` set (W t')"
  unfolding no_conflict_def by fast

lemma no_conflict_disjoint: "no_conflict rowIdx val W \<Longrightarrow> w \<in> set (W t) \<Longrightarrow> t' \<noteq> t \<Longrightarrow> target w \<notin> target ` set (W t')"
  unfolding no_conflict_def by (metis imageE)

definition taken :: "int list \<Rightarrow> 'a::field list \<Rightarrow> int \<Rightarrow> iteration_item list \<Rightarrow> 'a" where
  "taken rowIdx val k ws = sum_list (map (\<lambda>(m, k', l). if k' = k \<and> enabled rowIdx (m, k', l) then elt val m * elt val l else 0) ws)"

lemma taken_simps [simp]:
  "taken rowIdx val k [] = 0"
  "taken rowIdx val k (ws @ ws') = taken rowIdx val k ws + taken rowIdx val k ws'"
  "taken rowIdx val k [(m, k', l)] = (if k' = k \<and> enabled rowIdx (m, k', l) then elt val m * elt val l else 0)"
  by (simp_all add: taken_def)

lemma iteration_enabled_eq: "item_ok rowIdx val w \<Longrightarrow> iteration_enabled rowIdx w = Inr (enabled rowIdx w)"
  by (auto simp: iteration_enabled_def enabled_def item_ok_def split: prod.splits)

text \<open>
  The invariant: an element that a thread writes has lost the products of the iterations that the thread has finished, a
  loaded value is the next one to be stored, and the other elements are unchanged.
\<close>

definition thread_inv ::
  "int list \<Rightarrow> 'a::field list \<Rightarrow> iteration_item list \<Rightarrow> 'a list \<Rightarrow> iteration_item list \<Rightarrow> 'a option \<Rightarrow> nat \<Rightarrow> bool" where
  "thread_inv rowIdx val ws now todo ld turns \<longleftrightarrow>
     (\<exists>fin. ws = fin @ todo \<and> (\<forall>k \<in> target ` set ws. elt now k = elt val k - taken rowIdx val k fin)) \<and>
     (\<forall>v. ld = Some v \<longrightarrow> (\<exists>m k l rest. todo = (m, k, l) # rest \<and> enabled rowIdx (m, k, l) \<and> v = elt now k - elt val m * elt val l)) \<and>
     (todo = [] \<or> turns + 2 * length todo \<le> 2 * length ws + (if ld = None then 0 else 1))"

definition region_inv :: "int list \<Rightarrow> 'a::field list \<Rightarrow> (int \<Rightarrow> iteration_item list) \<Rightarrow> int list \<Rightarrow> 'a threads \<Rightarrow> bool" where
  "region_inv rowIdx val W turns st \<longleftrightarrow> alen (shared st) = alen val \<and>
     (\<forall>k. 0 \<le> k \<and> k < alen val \<and> (\<forall>t. k \<notin> target ` set (W t)) \<longrightarrow> elt (shared st) k = elt val k) \<and>
     (\<forall>t. thread_inv rowIdx val (W t) (shared st) (to_do st t) (loaded st t) (count_list turns t))"

lemma thread_inv_cong:
  assumes "thread_inv rowIdx val ws now todo ld turns" "\<And>k. k \<in> target ` set ws \<Longrightarrow> elt now' k = elt now k"
  shows "thread_inv rowIdx val ws now' todo ld turns"
proof -
  have "target (m, k, l) \<in> target ` set ws" if "ws = fin @ (m, k, l) # rest" for fin m k l rest using that by auto
  then have "elt now' k = elt now k" if "ws = fin @ (m, k, l) # rest" for fin m k l rest
    using assms(2)[of k] that by (simp add: target_def)
  then show ?thesis using assms unfolding thread_inv_def by (metis (no_types, lifting))
qed

lemma region_step:
  assumes nc: "no_conflict rowIdx val W" and inv: "region_inv rowIdx val W turns st"
  shows "\<exists>st'. thread_turn rowIdx st t = Inr st' \<and> region_inv rowIdx val W (turns @ [t]) st'"
proof -
  have len: "alen (shared st) = alen val"
    and frame: "\<And>k. 0 \<le> k \<Longrightarrow> k < alen val \<Longrightarrow> \<forall>t. k \<notin> target ` set (W t) \<Longrightarrow> elt (shared st) k = elt val k"
    and thr: "\<And>t. thread_inv rowIdx val (W t) (shared st) (to_do st t) (loaded st t) (count_list turns t)"
    using inv unfolding region_inv_def by blast+
  have other: "count_list (turns @ [t]) u = count_list turns u" if "u \<noteq> t" for u using that by simp
  show ?thesis
  proof (cases "to_do st t")
    case Nil
    have "thread_inv rowIdx val (W t) (shared st) (to_do st t) (loaded st t) (count_list (turns @ [t]) t)"
      using thr[of t] Nil unfolding thread_inv_def by auto
    then have "region_inv rowIdx val W (turns @ [t]) st"
      unfolding region_inv_def using len frame thr other by metis
    then show ?thesis using Nil by (simp add: thread_turn_def)
  next
    case (Cons w rest)
    obtain m k l where w: "w = (m, k, l)" by (cases w)
    have now_t: "\<exists>fin. W t = fin @ (m, k, l) # rest \<and> (\<forall>k \<in> target ` set (W t). elt (shared st) k = elt val k - taken rowIdx val k fin)"
      using thr[of t] unfolding thread_inv_def Cons w by (rule conjunct1)
    then obtain fin where fin: "W t = fin @ (m, k, l) # rest"
      "\<And>k. k \<in> target ` set (W t) \<Longrightarrow> elt (shared st) k = elt val k - taken rowIdx val k fin" by blast
    have turns: "count_list turns t + 2 * length (w # rest) \<le> 2 * length (W t) + (if loaded st t = None then 0 else 1)"
      using thr[of t] unfolding thread_inv_def Cons by simp
    have mem: "(m, k, l) \<in> set (W t)" using fin(1) by simp
    have tgt: "target (m, k, l) = k" by (simp add: target_def)
    have ok: "item_ok rowIdx val (m, k, l)" using nc mem unfolding no_conflict_def by blast
    have kt: "k \<in> target ` set (W t)" using tgt mem by (metis image_eqI)
    have free: "\<forall>t'. m \<notin> target ` set (W t')" "\<forall>t'. l \<notin> target ` set (W t')"
      using no_conflict_free[OF nc mem] by blast+
    have disj: "t' \<noteq> t \<Longrightarrow> k \<notin> target ` set (W t')" for t'
      using no_conflict_disjoint[OF nc mem] tgt by blast
    have r: "0 \<le> m" "m < alen val" "0 \<le> k" "k < alen val" "0 \<le> l" "l < alen val" using ok by (auto simp: item_ok_def)
    have ml: "elt (shared st) m = elt val m" "elt (shared st) l = elt val l" using frame free r by auto
    have en: "iteration_enabled rowIdx (m, k, l) = Inr (enabled rowIdx (m, k, l))" by (rule iteration_enabled_eq[OF ok])
    show ?thesis
    proof (cases "loaded st t")
      case None
      show ?thesis
      proof (cases "enabled rowIdx (m, k, l)")
        case False
        let ?st = "st\<lparr>to_do := (to_do st)(t := rest)\<rparr>"
        have "thread_inv rowIdx val (W t) (shared st) rest None (count_list (turns @ [t]) t)"
          unfolding thread_inv_def using fin False turns None by (intro conjI exI[of _ "fin @ [(m, k, l)]"]) auto
        then have "region_inv rowIdx val W (turns @ [t]) ?st"
          unfolding region_inv_def using len frame thr other None by (auto simp del: count_list_append)
        then show ?thesis using Cons None en False w by (simp add: thread_turn_def)
      next
        case True
        let ?v = "elt (shared st) k - elt val m * elt val l"
        let ?st = "st\<lparr>loaded := (loaded st)(t := Some ?v)\<rparr>"
        have "thread_inv rowIdx val (W t) (shared st) (w # rest) (Some ?v) (count_list (turns @ [t]) t)"
          unfolding thread_inv_def w using fin True turns None by (intro conjI exI[of _ fin]) auto
        then have "region_inv rowIdx val W (turns @ [t]) ?st"
          unfolding region_inv_def using len frame thr other Cons by (auto simp del: count_list_append)
        then show ?thesis using Cons None en True w r len ml by (simp add: thread_turn_def)
      qed
    next
      case (Some v)
      then have v: "enabled rowIdx (m, k, l)" "v = elt (shared st) k - elt val m * elt val l"
        using thr[of t] unfolding thread_inv_def Cons w by auto
      let ?now = "upd (shared st) k v"
      let ?st = "st\<lparr>shared := ?now, to_do := (to_do st)(t := rest), loaded := (loaded st)(t := None)\<rparr>"
      have range: "0 \<le> k'" "k' < alen val" if "k' \<in> target ` set (W u)" for k' u
        using nc that unfolding no_conflict_def item_ok_def target_def by fastforce+
      have now: "elt ?now k' = (if k' = k then v else elt (shared st) k')" if "0 \<le> k'" for k' using r len that by simp
      have "elt ?now k' = elt val k' - taken rowIdx val k' (fin @ [(m, k, l)])" if "k' \<in> target ` set (W t)" for k'
        using now[OF range(1)[OF that]] fin(2)[OF that] v fin(2)[OF kt] by auto
      then have "thread_inv rowIdx val (W t) ?now rest None (count_list (turns @ [t]) t)"
        unfolding thread_inv_def using fin(1) turns Some by (intro conjI exI[of _ "fin @ [(m, k, l)]"]) auto
      moreover have "thread_inv rowIdx val (W u) ?now (to_do st u) (loaded st u) (count_list (turns @ [t]) u)" if "u \<noteq> t" for u
      proof -
        have "elt ?now k' = elt (shared st) k'" if k': "k' \<in> target ` set (W u)" for k'
          using now[OF range(1)[OF k']] disj[OF \<open>u \<noteq> t\<close>] k' by auto
        then show ?thesis using thread_inv_cong[OF thr[of u]] other[OF that] by simp
      qed
      moreover have "elt ?now k' = elt val k'" if "0 \<le> k'" "k' < alen val" "\<forall>t. k' \<notin> target ` set (W t)" for k'
        using frame[OF that] now[OF that(1)] kt that(3) by auto
      ultimately have "region_inv rowIdx val W (turns @ [t]) ?st"
        unfolding region_inv_def using len by (auto simp del: count_list_append)
      then show ?thesis using Cons Some w r len by (simp add: thread_turn_def)
    qed
  qed
qed

lemma region_run:
  assumes nc: "no_conflict rowIdx val W"
  shows "\<exists>st. fold_result (thread_turn rowIdx) \<lparr>shared = val, to_do = W, loaded = (\<lambda>t. None)\<rparr> turns = Inr st \<and> region_inv rowIdx val W turns st"
proof (induction turns rule: rev_induct)
  case Nil
  show ?case by (auto simp: region_inv_def thread_inv_def)
next
  case (snoc t turns)
  then obtain st where st: "fold_result (thread_turn rowIdx) \<lparr>shared = val, to_do = W, loaded = (\<lambda>t. None)\<rparr> turns = Inr st"
    "region_inv rowIdx val W turns st" by blast
  from region_step[OF nc st(2), of t] st(1) show ?case by (auto simp: fold_result_append)
qed

text \<open>What is left when all threads have ended.\<close>

definition region_result :: "int list \<Rightarrow> 'a::field list \<Rightarrow> (int \<Rightarrow> iteration_item list) \<Rightarrow> 'a list \<Rightarrow> bool" where
  "region_result rowIdx val W now \<longleftrightarrow> alen now = alen val \<and>
     (\<forall>k. 0 \<le> k \<and> k < alen val \<and> (\<forall>t. k \<notin> target ` set (W t)) \<longrightarrow> elt now k = elt val k) \<and>
     (\<forall>t. \<forall>k \<in> target ` set (W t). elt now k = elt val k - taken rowIdx val k (W t))"

lemma region_result_unique: "region_result rowIdx val W a \<Longrightarrow> region_result rowIdx val W b \<Longrightarrow> a = b"
  unfolding region_result_def by (rule array_eqI) metis+

lemma region_ended:
  assumes "region_inv rowIdx val W turns st" "\<And>t. to_do st t = []"
  shows "region_result rowIdx val W (shared st)"
  using assms unfolding region_inv_def region_result_def thread_inv_def by auto

text \<open>A schedule gives every thread turns enough when it has two for each of its iterations.\<close>

definition enough_turns :: "(int \<Rightarrow> iteration_item list) \<Rightarrow> int list \<Rightarrow> bool" where
  "enough_turns W schedule \<longleftrightarrow> (\<forall>t. 2 * length (W t) \<le> count_list schedule t)"

lemma region_ends:
  assumes "region_inv rowIdx val W turns st" "enough_turns W turns"
  shows "to_do st t = []"
proof -
  have "to_do st t = [] \<or> count_list turns t + 2 * length (to_do st t) \<le> 2 * length (W t) + (if loaded st t = None then 0 else 1)"
    using assms(1) unfolding region_inv_def thread_inv_def by blast
  moreover have "2 * length (W t) \<le> count_list turns t" using assms(2) by (simp add: enough_turns_def)
  ultimately show ?thesis by (cases "to_do st t") (auto split: if_splits)
qed

definition region_work :: "int \<Rightarrow> int \<Rightarrow> (int \<Rightarrow> iteration_item list) \<Rightarrow> int \<Rightarrow> iteration_item list" where
  "region_work lo hi work t = (if lo \<le> t \<and> t < hi then work t else [])"

lemma parallel_region_any_schedule:
  assumes "no_conflict rowIdx val (region_work lo hi work)" "enough_turns (region_work lo hi work) schedule"
  shows "\<exists>now. parallel_region rowIdx lo hi work schedule val = Inr now \<and> region_result rowIdx val (region_work lo hi work) now"
proof -
  have w: "(\<lambda>t. if lo \<le> t \<and> t < hi then work t else []) = region_work lo hi work" by (simp add: region_work_def fun_eq_iff)
  obtain st where st: "fold_result (thread_turn rowIdx) \<lparr>shared = val, to_do = region_work lo hi work, loaded = (\<lambda>t. None)\<rparr> schedule = Inr st"
    "region_inv rowIdx val (region_work lo hi work) schedule st"
    using region_run[OF assms(1)] by blast
  note ends = region_ends[OF st(2) assms(2)]
  then show ?thesis using st region_ended[OF st(2) ends] by (simp add: parallel_region_def w list_all_iff)
qed

section \<open>The sequential loops\<close>

definition item_update :: "int list \<Rightarrow> 'a::field list \<Rightarrow> iteration_item \<Rightarrow> 'a list result" where
  "item_update rowIdx val = (\<lambda>(m, k, l). ic0_update rowIdx m k val l)"

text \<open>The turns in which the threads run one after the other.\<close>

definition turns_of :: "int list \<Rightarrow> int \<Rightarrow> iteration_item \<Rightarrow> int list" where
  "turns_of rowIdx t w = (if enabled rowIdx w then [t, t] else [t])"

lemma item_turns:
  assumes ok: "item_ok rowIdx (shared st) w" and st: "to_do st t = w # rest" "loaded st t = None"
  shows "\<exists>val. item_update rowIdx (shared st) w = Inr val \<and> alen val = alen (shared st) \<and>
    fold_result (thread_turn rowIdx) st (turns_of rowIdx t w) = Inr (st\<lparr>shared := val, to_do := (to_do st)(t := rest)\<rparr>)"
proof -
  obtain m k l where w: "w = (m, k, l)" by (cases w)
  have r: "0 \<le> m" "m < alen (shared st)" "0 \<le> k" "k < alen (shared st)" "0 \<le> l" "l < alen (shared st)" "k < alen rowIdx" "l + 1 < alen rowIdx"
    using ok by (auto simp: item_ok_def w)
  have same: "(loaded st)(t := None) = loaded st" using st(2) by auto
  show ?thesis
  proof (cases "enabled rowIdx w")
    case True
    then show ?thesis using r st iteration_enabled_eq[OF ok] same
      by (auto simp: item_update_def ic0_update_def w turns_of_def thread_turn_def enabled_def)
  next
    case False
    then show ?thesis using r st iteration_enabled_eq[OF ok]
      by (auto simp: item_update_def ic0_update_def w turns_of_def thread_turn_def enabled_def)
  qed
qed

lemma thread_turns:
  assumes "\<forall>w \<in> set ws. item_ok rowIdx val w" "alen (shared st) = alen val" "to_do st t = ws" "loaded st t = None"
  shows "\<exists>now. fold_result (item_update rowIdx) (shared st) ws = Inr now \<and> alen now = alen val \<and>
    fold_result (thread_turn rowIdx) st (concat (map (turns_of rowIdx t) ws)) = Inr (st\<lparr>shared := now, to_do := (to_do st)(t := [])\<rparr>)"
  using assms
proof (induction ws arbitrary: st)
  case Nil
  then have "(to_do st)(t := []) = to_do st" by auto
  then show ?case using Nil by simp
next
  case (Cons w ws)
  have ok: "item_ok rowIdx (shared st) w" using Cons.prems(1,2) by (auto simp: item_ok_def)
  obtain v where v: "item_update rowIdx (shared st) w = Inr v" "alen v = alen (shared st)"
    "fold_result (thread_turn rowIdx) st (turns_of rowIdx t w) = Inr (st\<lparr>shared := v, to_do := (to_do st)(t := ws)\<rparr>)"
    using item_turns[OF ok Cons.prems(3,4)] by blast
  let ?st = "st\<lparr>shared := v, to_do := (to_do st)(t := ws)\<rparr>"
  have "\<forall>w \<in> set ws. item_ok rowIdx val w" "alen (shared ?st) = alen val" "to_do ?st t = ws" "loaded ?st t = None"
    using Cons.prems v(2) by simp_all
  from Cons.IH[OF this] obtain now where "fold_result (item_update rowIdx) (shared ?st) ws = Inr now" "alen now = alen val"
    "fold_result (thread_turn rowIdx) ?st (concat (map (turns_of rowIdx t) ws)) = Inr (?st\<lparr>shared := now, to_do := (to_do ?st)(t := [])\<rparr>)"
    by blast
  moreover have "(to_do ?st)(t := []) = (to_do st)(t := [])" by simp
  ultimately show ?case using v(1,3) by (simp add: fold_result_append del: fun_upd_apply) 
qed

lemma threads_in_turn:
  assumes nc: "no_conflict rowIdx val W" and ts: "distinct ts"
  shows "alen (shared st) = alen val \<Longrightarrow> (\<forall>t \<in> set ts. to_do st t = W t) \<Longrightarrow> (\<forall>t. loaded st t = None) \<Longrightarrow>
    \<exists>now. fold_result (\<lambda>val t. fold_result (item_update rowIdx) val (W t)) (shared st) ts = Inr now \<and>
      fold_result (thread_turn rowIdx) st (concat (map (\<lambda>t. concat (map (turns_of rowIdx t) (W t))) ts)) =
        Inr (st\<lparr>shared := now, to_do := (\<lambda>t. if t \<in> set ts then [] else to_do st t)\<rparr>)"
  using ts
proof (induction ts arbitrary: st)
  case Nil
  show ?case by simp
next
  case (Cons t ts)
  have ok: "\<forall>w \<in> set (W t). item_ok rowIdx val w" using nc by (auto simp: no_conflict_def)
  obtain v where v: "fold_result (item_update rowIdx) (shared st) (W t) = Inr v" "alen v = alen val"
    "fold_result (thread_turn rowIdx) st (concat (map (turns_of rowIdx t) (W t))) = Inr (st\<lparr>shared := v, to_do := (to_do st)(t := [])\<rparr>)"
    using thread_turns[OF ok, of st t] Cons.prems by fastforce
  let ?st = "st\<lparr>shared := v, to_do := (to_do st)(t := [])\<rparr>"
  obtain now where now: "fold_result (\<lambda>val t. fold_result (item_update rowIdx) val (W t)) v ts = Inr now"
    "fold_result (thread_turn rowIdx) ?st (concat (map (\<lambda>t. concat (map (turns_of rowIdx t) (W t))) ts)) =
        Inr (?st\<lparr>shared := now, to_do := (\<lambda>u. if u \<in> set ts then [] else to_do ?st u)\<rparr>)"
    using Cons.IH[of ?st] Cons.prems v(2) by fastforce
  have "(\<lambda>u. if u \<in> set ts then [] else to_do ?st u) = (\<lambda>u. if u \<in> set (t # ts) then [] else to_do st u)" by auto
  then show ?case using v(1,3) now by (simp add: fold_result_append)
qed

lemma sequential_region:
  assumes nc: "no_conflict rowIdx val (region_work lo hi work)"
  shows "\<exists>now. for_loop lo hi (\<lambda>val t. fold_result (item_update rowIdx) val (work t)) val = Inr now \<and>
    region_result rowIdx val (region_work lo hi work) now"
proof -
  let ?W = "region_work lo hi work" and ?st = "\<lparr>shared = val, to_do = region_work lo hi work, loaded = (\<lambda>t. None)\<rparr>"
  let ?turns = "concat (map (\<lambda>t. concat (map (turns_of rowIdx t) (?W t))) [lo..hi - 1])"
  obtain now where now: "fold_result (\<lambda>val t. fold_result (item_update rowIdx) val (?W t)) val [lo..hi - 1] = Inr now"
    "fold_result (thread_turn rowIdx) ?st ?turns = Inr (?st\<lparr>shared := now, to_do := (\<lambda>t. if t \<in> set [lo..hi - 1] then [] else ?W t)\<rparr>)"
    using threads_in_turn[OF nc distinct_upto, of ?st lo "hi - 1"] unfolding threads.select_convs by blast
  obtain st where st: "fold_result (thread_turn rowIdx) ?st ?turns = Inr st" "region_inv rowIdx val ?W ?turns st"
    using region_run[OF nc] by blast
  then have "st = ?st\<lparr>shared := now, to_do := (\<lambda>t. if t \<in> set [lo..hi - 1] then [] else ?W t)\<rparr>" using now(2) by simp
  then have "region_result rowIdx val ?W now" using region_ended[OF st(2)] by (simp add: region_work_def)
  moreover have "fold_result (\<lambda>val t. fold_result (item_update rowIdx) val (?W t)) val [lo..hi - 1] =
      for_loop lo hi (\<lambda>val t. fold_result (item_update rowIdx) val (work t)) val"
    unfolding for_loop_def by (rule fold_result_cong) (auto simp: region_work_def)
  ultimately show ?thesis using now(1) by (intro exI[of _ now]) simp
qed

text \<open>A region without conflicts does what the sequential loop does.\<close>

lemma parallel_region_sequential:
  assumes "no_conflict rowIdx val (region_work lo hi work)" "enough_turns (region_work lo hi work) schedule"
  shows "parallel_region rowIdx lo hi work schedule val = for_loop lo hi (\<lambda>val t. fold_result (item_update rowIdx) val (work t)) val"
  using parallel_region_any_schedule[OF assms] sequential_region[OF assms(1)] region_result_unique by metis


section \<open>The loops of the factorization\<close>

definition items_of_k :: "int \<Rightarrow> int \<Rightarrow> int \<Rightarrow> iteration_item list" where
  "items_of_k m hi k = map (\<lambda>l. (m, k, l)) [m..hi - 1]"

lemma loop_over_l: "for_loop m hi (ic0_update rowIdx m k) val = fold_result (item_update rowIdx) val (items_of_k m hi k)"
  by (simp add: for_loop_def items_of_k_def fold_result_map item_update_def)

lemma work_of_m_eq: "work_of_m colPtr rowIdx hi m = concat (map (items_of_k m hi) [elt colPtr (elt rowIdx m)..elt colPtr (elt rowIdx m + 1) - 1])"
  by (simp add: work_of_m_def items_of_k_def[abs_def] Let_def)

lemma loop_over_k:
  "for_loop (elt colPtr (elt rowIdx m)) (elt colPtr (elt rowIdx m + 1)) (\<lambda>val k. for_loop m hi (ic0_update rowIdx m k) val) val =
    fold_result (item_update rowIdx) val (work_of_m colPtr rowIdx hi m)"
  unfolding loop_over_l work_of_m_eq unfolding for_loop_def by (rule nested_fold)

text \<open>Where the iterations of a column are.\<close>

definition item_of_column :: "int list \<Rightarrow> int list \<Rightarrow> int \<Rightarrow> iteration_item \<Rightarrow> bool" where
  "item_of_column colPtr rowIdx i = (\<lambda>(m, k, l). elt colPtr i < m \<and> m \<le> l \<and> l < elt colPtr (i + 1) \<and>
     elt colPtr (elt rowIdx m) \<le> k \<and> k < elt colPtr (elt rowIdx m + 1))"

lemma column_below:
  assumes L: "lower_csc n colPtr rowIdx" and i: "0 \<le> i" "i < n" and m: "elt colPtr i < m" "m < elt colPtr (i + 1)"
  shows "i < elt rowIdx m" "elt rowIdx m < n" "m < alen rowIdx" "0 \<le> m" "m < elt colPtr n"
  using lower_cscD(3)[OF L i m] position_ok[OF lower_csc_compressed[OF L] i, of m] m by auto

lemma item_of_columnD:
  assumes L: "lower_csc n colPtr rowIdx" and val: "elt colPtr n \<le> alen val" and i: "0 \<le> i" "i < n - 1"
    and it: "item_of_column colPtr rowIdx i (m, k, l)"
  shows "item_ok rowIdx val (m, k, l)" "m < elt colPtr (i + 1)" "l < elt colPtr (i + 1)" "elt colPtr (i + 1) \<le> k"
proof -
  have C: "compressed n colPtr rowIdx" using L by (rule lower_csc_compressed)
  have m: "elt colPtr i < m" "m < elt colPtr (i + 1)" and l: "elt colPtr i < l" "l < elt colPtr (i + 1)"
    and k: "elt colPtr (elt rowIdx m) \<le> k" "k < elt colPtr (elt rowIdx m + 1)"
    using it by (auto simp: item_of_column_def)
  have i': "i < n" using i by simp
  note M = column_below[OF L i(1) i' m] and R = column_below[OF L i(1) i' l]
  have K: "0 \<le> k" "k < elt colPtr n" "k < alen rowIdx" using position_ok(1-3)[OF C _ _ k] M i by auto
  have "elt colPtr (i + 1) < elt colPtr (i + 2)" using lower_cscD(1)[OF L, of "i + 1"] i by (simp add: algebra_simps)
  moreover have "elt colPtr (i + 2) \<le> elt colPtr n" using ptr_mono[OF C, of "i + 2" n] i by simp
  moreover have "elt colPtr n \<le> alen rowIdx" using C by (simp add: compressed_def)
  ultimately have "l + 1 < alen rowIdx" using l by linarith
  then show "item_ok rowIdx val (m, k, l)" using M R K val by (auto simp: item_ok_def)
  show "m < elt colPtr (i + 1)" "l < elt colPtr (i + 1)" by fact+
  show "elt colPtr (i + 1) \<le> k" using ptr_mono[OF C, of "i + 1" "elt rowIdx m"] M i k(1) by linarith
qed

lemma column_no_conflict:
  assumes L: "lower_csc n colPtr rowIdx" and val: "elt colPtr n \<le> alen val" and i: "0 \<le> i" "i < n - 1"
    and items: "\<And>t w. w \<in> set (W t) \<Longrightarrow> item_of_column colPtr rowIdx i w"
    and apart: "\<And>t t' w w'. w \<in> set (W t) \<Longrightarrow> w' \<in> set (W t') \<Longrightarrow> target w = target w' \<Longrightarrow> t = t'"
  shows "no_conflict rowIdx val W"
  unfolding no_conflict_def
proof (intro conjI allI ballI impI)
  fix t w assume "w \<in> set (W t)"
  moreover obtain m k l where "w = (m, k, l)" by (cases w)
  ultimately show "item_ok rowIdx val w" using items item_of_columnD(1)[OF L val i] by blast
next
  fix t t' w w' assume "w \<in> set (W t) \<and> w' \<in> set (W t')" "t \<noteq> t'"
  then show "target w \<noteq> target w'" using apart by blast
next
  fix t t' w w' assume "w \<in> set (W t) \<and> w' \<in> set (W t')"
  then have "item_of_column colPtr rowIdx i w" "item_of_column colPtr rowIdx i w'" using items by blast+
  then show "case w of (m, k, l) \<Rightarrow> m \<noteq> target w' \<and> l \<noteq> target w'"
    using item_of_columnD(2-4)[OF L val i] by (cases w; cases w') (force simp: target_def)
qed

lemma no_conflict_k:
  assumes L: "lower_csc n colPtr rowIdx" and val: "elt colPtr n \<le> alen val" and i: "0 \<le> i" "i < n - 1"
    and m: "elt colPtr i < m" "m < elt colPtr (i + 1)"
  shows "no_conflict rowIdx val (region_work (elt colPtr (elt rowIdx m)) (elt colPtr (elt rowIdx m + 1)) (items_of_k m (elt colPtr (i + 1))))"
  by (rule column_no_conflict[OF L val i])
     (use m in \<open>auto simp: region_work_def items_of_k_def item_of_column_def target_def split: if_splits\<close>)

lemma distinct_columns:
  assumes "lower_csc n colPtr rowIdx" "0 \<le> a" "a < b" "b < n" "elt colPtr a \<le> k" "k < elt colPtr (a + 1)" "elt colPtr b \<le> k"
  shows False
  using ptr_mono[OF lower_csc_compressed[OF assms(1)], of "a + 1" b] assms by simp

lemma no_conflict_m:
  assumes L: "lower_csc n colPtr rowIdx" and val: "elt colPtr n \<le> alen val" and i: "0 \<le> i" "i < n - 1"
    and D: "distinct_rows n colPtr rowIdx"
  shows "no_conflict rowIdx val (region_work (elt colPtr i + 1) (elt colPtr (i + 1)) (work_of_m colPtr rowIdx (elt colPtr (i + 1))))"
proof (rule column_no_conflict[OF L val i])
  fix t w assume "w \<in> set (region_work (elt colPtr i + 1) (elt colPtr (i + 1)) (work_of_m colPtr rowIdx (elt colPtr (i + 1))) t)"
  then show "item_of_column colPtr rowIdx i w"
    by (auto simp: region_work_def work_of_m_eq items_of_k_def item_of_column_def split: if_splits)
next
  fix t t' w w'
  let ?W = "region_work (elt colPtr i + 1) (elt colPtr (i + 1)) (work_of_m colPtr rowIdx (elt colPtr (i + 1)))"
  assume w: "w \<in> set (?W t)" "w' \<in> set (?W t')" and same: "target w = target w'"
  let ?r = "elt rowIdx t" and ?r' = "elt rowIdx t'" and ?k = "target w"
  have t: "elt colPtr i < t" "t < elt colPtr (i + 1)" "elt colPtr ?r \<le> ?k" "?k < elt colPtr (?r + 1)"
    and t': "elt colPtr i < t'" "t' < elt colPtr (i + 1)" "elt colPtr ?r' \<le> ?k" "?k < elt colPtr (?r' + 1)"
    using w same by (auto simp: region_work_def work_of_m_eq items_of_k_def target_def split: if_splits)
  have i': "i < n" using i by simp
  note R = column_below[OF L i(1) i' t(1,2)] and R' = column_below[OF L i(1) i' t'(1,2)]
  have "?r = ?r'"
    using distinct_columns[OF L _ _ R'(2) t(3,4) t'(3)] distinct_columns[OF L _ _ R(2) t'(3,4) t(3)] R R' i
    by (cases "?r" "?r'" rule: linorder_cases) auto
  moreover have "i \<in> {0..<n}" using i by simp
  ultimately show "t = t'" using D[unfolded distinct_rows_def, rule_format, of i t t'] t t' by simp
qed

section \<open>The parallel factorizations\<close>

definition fair_schedule :: "int \<Rightarrow> int \<Rightarrow> (int \<Rightarrow> iteration_item list) \<Rightarrow> int list \<Rightarrow> bool" where
  "fair_schedule lo hi work schedule \<longleftrightarrow> list_all (\<lambda>t. 2 * length (work t) \<le> count_list schedule t) [lo..hi - 1]"

lemma fair_enough: "fair_schedule lo hi work schedule \<Longrightarrow> enough_turns (region_work lo hi work) schedule"
  by (auto simp: fair_schedule_def enough_turns_def region_work_def list_all_iff)

definition fair_schedules_k :: "int \<Rightarrow> int list \<Rightarrow> int list \<Rightarrow> (int \<Rightarrow> int \<Rightarrow> int list) \<Rightarrow> bool" where
  "fair_schedules_k n colPtr rowIdx schedule \<longleftrightarrow> list_all (\<lambda>i. list_all (\<lambda>m.
     fair_schedule (elt colPtr (elt rowIdx m)) (elt colPtr (elt rowIdx m + 1)) (items_of_k m (elt colPtr (i + 1))) (schedule i m))
     [elt colPtr i + 1..elt colPtr (i + 1) - 1]) [0..n - 2]"

definition fair_schedules_m :: "int \<Rightarrow> int list \<Rightarrow> int list \<Rightarrow> (int \<Rightarrow> int list) \<Rightarrow> bool" where
  "fair_schedules_m n colPtr rowIdx schedule \<longleftrightarrow> list_all (\<lambda>i.
     fair_schedule (elt colPtr i + 1) (elt colPtr (i + 1)) (work_of_m colPtr rowIdx (elt colPtr (i + 1))) (schedule i)) [0..n - 2]"

lemma for_loop_cong_inv:
  assumes "P s" "\<And>i t. lo \<le> i \<Longrightarrow> i < hi \<Longrightarrow> P t \<Longrightarrow> body t i = body' t i"
    "\<And>i t t'. P t \<Longrightarrow> body' t i = Inr t' \<Longrightarrow> P t'"
  shows "for_loop lo hi body s = for_loop lo hi body' s"
proof -
  have "fold_result body s xs = fold_result body' s xs" if "\<forall>i \<in> set xs. lo \<le> i \<and> i < hi" "P s" for xs
    using that
  proof (induction xs arbitrary: s)
    case (Cons i xs)
    then show ?case using assms(2)[of i s] assms(3)[of s i] by (cases "body' s i") auto
  qed simp
  from this[of "[lo..hi - 1]"] assms(1) show ?thesis by (simp add: for_loop_def)
qed

lemma ic0_update_alen: "ic0_update rowIdx m k val l = Inr v \<Longrightarrow> alen v = alen val"
  by (auto simp: ic0_update_def simp del: rd_elt wr_upd split: if_splits dest!: wr_alen)

lemma ic0_scale_alen: "ic0_scale colPtr i val m = Inr v \<Longrightarrow> alen v = alen val"
  by (auto simp: ic0_scale_def simp del: rd_elt wr_upd dest!: wr_alen)

lemma ic0_inner_alen:
  "for_loop k0 k1 (\<lambda>val k. for_loop m hi (ic0_update rowIdx m k) val) val = Inr v \<Longrightarrow> alen v = alen val"
  by (erule wr_loop_alen) (erule wr_loop_alen, erule ic0_update_alen)

lemma ic0_pivot_loop_alen:
  assumes "for_loop (lo + 1) hi (\<lambda>val m. bind_result (rd rowIdx m) (\<lambda>r. bind_result (rd colPtr r) (\<lambda>k0. bind_result (rd colPtr (r + 1)) (\<lambda>k1.
      for_loop k0 k1 (\<lambda>val k. for_loop m hi (ic0_update rowIdx m k) val) val)))) val = Inr v"
  shows "alen v = alen val"
  using assms by (rule wr_loop_alen) (auto simp del: rd_elt dest: ic0_inner_alen)

lemma ic0_rest_alen:
  assumes "ic0_rest colPtr rowIdx i val = Inr v"
  shows "alen v = alen val"
proof -
  from assms[unfolded ic0_rest_def bind_result_Inr] obtain lo hi u where
    scale: "for_loop (lo + 1) hi (ic0_scale colPtr i) val = Inr u" and
    update: "for_loop (lo + 1) hi (\<lambda>val m. bind_result (rd rowIdx m) (\<lambda>r. bind_result (rd colPtr r) (\<lambda>k0. bind_result (rd colPtr (r + 1)) (\<lambda>k1.
      for_loop k0 k1 (\<lambda>val k. for_loop m hi (ic0_update rowIdx m k) val) val)))) u = Inr v"
    by blast
  show ?thesis using wr_loop_alen[OF scale ic0_scale_alen] ic0_pivot_loop_alen[OF update] by simp
qed

lemma ic0_rest_k_eq:
  assumes L: "lower_csc n colPtr rowIdx" and val: "elt colPtr n \<le> alen val" and i: "0 \<le> i" "i < n - 1"
    and fair: "fair_schedules_k n colPtr rowIdx schedule"
  shows "ic0_rest_k schedule colPtr rowIdx i val = ic0_rest colPtr rowIdx i val"
proof -
  have C: "compressed n colPtr rowIdx" using L by (rule lower_csc_compressed)
  note len = compressedD(2)[OF C]
  have body: "bind_result (rd rowIdx m) (\<lambda>r. bind_result (rd colPtr r) (\<lambda>k0. bind_result (rd colPtr (r + 1)) (\<lambda>k1.
      parallel_region rowIdx k0 k1 (\<lambda>k. map (\<lambda>l. (m, k, l)) [m..elt colPtr (i + 1) - 1]) (schedule i m) u))) =
    bind_result (rd rowIdx m) (\<lambda>r. bind_result (rd colPtr r) (\<lambda>k0. bind_result (rd colPtr (r + 1)) (\<lambda>k1.
      for_loop k0 k1 (\<lambda>val k. for_loop m (elt colPtr (i + 1)) (ic0_update rowIdx m k) val) u)))"
    if m: "elt colPtr i + 1 \<le> m" "m < elt colPtr (i + 1)" and u: "elt colPtr n \<le> alen u" for m u
  proof -
    have i': "i < n" and m': "elt colPtr i < m" using i m by auto
    note M = column_below[OF L i(1) i' m' m(2)]
    have "fair_schedule (elt colPtr (elt rowIdx m)) (elt colPtr (elt rowIdx m + 1)) (items_of_k m (elt colPtr (i + 1))) (schedule i m)"
      using fair i m by (simp add: fair_schedules_k_def list_all_iff)
    from parallel_region_sequential[OF no_conflict_k[OF L u i m' m(2)] fair_enough[OF this]]
    show ?thesis using M i len by (simp add: loop_over_l items_of_k_def[abs_def])
  qed
  have loop: "for_loop (elt colPtr i + 1) (elt colPtr (i + 1)) (\<lambda>val m.
      bind_result (rd rowIdx m) (\<lambda>r. bind_result (rd colPtr r) (\<lambda>k0. bind_result (rd colPtr (r + 1)) (\<lambda>k1.
      parallel_region rowIdx k0 k1 (\<lambda>k. map (\<lambda>l. (m, k, l)) [m..elt colPtr (i + 1) - 1]) (schedule i m) val)))) u =
    for_loop (elt colPtr i + 1) (elt colPtr (i + 1)) (\<lambda>val m.
      bind_result (rd rowIdx m) (\<lambda>r. bind_result (rd colPtr r) (\<lambda>k0. bind_result (rd colPtr (r + 1)) (\<lambda>k1.
      for_loop k0 k1 (\<lambda>val k. for_loop m (elt colPtr (i + 1)) (ic0_update rowIdx m k) val) val)))) u"
    if u: "elt colPtr n \<le> alen u" for u
    by (rule for_loop_cong_inv[where P = "\<lambda>u. elt colPtr n \<le> alen u"]; (rule u body; assumption)?)
       (auto simp del: rd_elt dest: ic0_inner_alen)
  have rds: "rd colPtr i = Inr (elt colPtr i)" "rd colPtr (i + 1) = Inr (elt colPtr (i + 1))" using i len by simp_all
  show ?thesis
  proof (cases "for_loop (elt colPtr i + 1) (elt colPtr (i + 1)) (ic0_scale colPtr i) val")
    case (Inr u)
    then have "elt colPtr n \<le> alen u" using wr_loop_alen[OF Inr ic0_scale_alen] val by simp
    from loop[OF this] show ?thesis unfolding ic0_rest_k_def ic0_rest_def rds bind_result_simps Inr .
  qed (simp add: ic0_rest_k_def ic0_rest_def rds)
qed



lemma ic0_rest_m_eq:
  assumes L: "lower_csc n colPtr rowIdx" and val: "elt colPtr n \<le> alen val" and i: "0 \<le> i" "i < n - 1"
    and D: "distinct_rows n colPtr rowIdx" and fair: "fair_schedules_m n colPtr rowIdx schedule"
  shows "ic0_rest_m schedule colPtr rowIdx i val = ic0_rest colPtr rowIdx i val"
proof -
  have C: "compressed n colPtr rowIdx" using L by (rule lower_csc_compressed)
  note len = compressedD(2)[OF C]
  have i': "i < n" using i by simp
  have rds: "rd colPtr i = Inr (elt colPtr i)" "rd colPtr (i + 1) = Inr (elt colPtr (i + 1))" using i len by simp_all
  have M: "rd rowIdx m = Inr (elt rowIdx m)" "rd colPtr (elt rowIdx m) = Inr (elt colPtr (elt rowIdx m))"
    "rd colPtr (elt rowIdx m + 1) = Inr (elt colPtr (elt rowIdx m + 1))" if "elt colPtr i + 1 \<le> m" "m < elt colPtr (i + 1)" for m
    using column_below[OF L i(1) i', of m] that len i by simp_all
  have ys: "map_result (\<lambda>m. bind_result (rd rowIdx m) (\<lambda>r. bind_result (rd colPtr r) (\<lambda>k0. rd colPtr (r + 1)))) [elt colPtr i + 1..elt colPtr (i + 1) - 1] =
      Inr (map (\<lambda>m. elt colPtr (elt rowIdx m + 1)) [elt colPtr i + 1..elt colPtr (i + 1) - 1])"
    by (rule map_result_pure) (simp add: M)
  have "fair_schedule (elt colPtr i + 1) (elt colPtr (i + 1)) (work_of_m colPtr rowIdx (elt colPtr (i + 1))) (schedule i)"
    using fair i by (simp add: fair_schedules_m_def list_all_iff)
  note region = parallel_region_sequential[OF no_conflict_m[OF L _ i D] fair_enough[OF this]]
  have loop: "for_loop (elt colPtr i + 1) (elt colPtr (i + 1)) (\<lambda>val m.
      bind_result (rd rowIdx m) (\<lambda>r. bind_result (rd colPtr r) (\<lambda>k0. bind_result (rd colPtr (r + 1)) (\<lambda>k1.
      for_loop k0 k1 (\<lambda>val k. for_loop m (elt colPtr (i + 1)) (ic0_update rowIdx m k) val) val)))) u =
    for_loop (elt colPtr i + 1) (elt colPtr (i + 1)) (\<lambda>val m. fold_result (item_update rowIdx) val (work_of_m colPtr rowIdx (elt colPtr (i + 1)) m)) u"
    for u by (rule for_loop_cong) (simp only: M bind_result_simps loop_over_k)
  show ?thesis
  proof (cases "for_loop (elt colPtr i + 1) (elt colPtr (i + 1)) (ic0_scale colPtr i) val")
    case (Inr u)
    then have "elt colPtr n \<le> alen u" using wr_loop_alen[OF Inr ic0_scale_alen] val by simp
    from region[OF this] show ?thesis unfolding ic0_rest_m_def ic0_rest_def rds bind_result_simps Inr ys loop .
  qed (simp add: ic0_rest_m_def ic0_rest_def rds)
qed

lemma ic0_outer_cong:
  assumes "elt colPtr n \<le> alen val"
    and "\<And>i u. 0 \<le> i \<Longrightarrow> i < n - 1 \<Longrightarrow> elt colPtr n \<le> alen u \<Longrightarrow> rest i u = ic0_rest colPtr rowIdx i u"
  shows "for_loop 0 (n - 1) (\<lambda>val i. bind_result (rd colPtr i) (\<lambda>d. bind_result (rd val d) (\<lambda>v. bind_result (wr val d (sqroot v)) (rest i)))) val =
    ic0_csr sqroot n val colPtr rowIdx"
  unfolding ic0_csr_def
proof (rule for_loop_cong_inv[where P = "\<lambda>u. elt colPtr n \<le> alen u"])
  fix i :: int and t :: "'a list" assume i: "0 \<le> i" "i < n - 1" and t: "elt colPtr n \<le> alen t"
  have "bind_result (wr t d v) (rest i) = bind_result (wr t d v) (ic0_rest colPtr rowIdx i)" for d v
    by (rule bind_result_cong) (use t i assms(2) in \<open>auto simp del: wr_upd dest!: wr_alen\<close>)
  then show "bind_result (rd colPtr i) (\<lambda>d. bind_result (rd t d) (\<lambda>v. bind_result (wr t d (sqroot v)) (rest i))) =
      bind_result (rd colPtr i) (\<lambda>d. bind_result (rd t d) (\<lambda>v. bind_result (wr t d (sqroot v)) (ic0_rest colPtr rowIdx i)))"
    by simp
next
  fix i :: int and t t' :: "'a list" assume t: "elt colPtr n \<le> alen t" and
    "bind_result (rd colPtr i) (\<lambda>d. bind_result (rd t d) (\<lambda>v. bind_result (wr t d (sqroot v)) (ic0_rest colPtr rowIdx i))) = Inr t'"
  then show "elt colPtr n \<le> alen t'" by (auto simp del: wr_upd rd_elt dest!: wr_alen ic0_rest_alen)
qed (rule assms(1))

text \<open>C6: Both parallel versions of \<open>ic0_csr\<close> give what the sequential one gives, or fail as it does,
  whatever the order in which the loads and stores of their threads follow each other, each thread keeping its own order,
  for a lower triangular matrix whose columns start with the diagonal, without equal rows in a column.\<close>

theorem ic0_csr_parInner_correct:
  assumes "lower_csc n colPtr rowIdx" and "elt colPtr n \<le> alen val" and "distinct_rows n colPtr rowIdx"
    and "fair_schedules_k n colPtr rowIdx schedule" and "fair_schedules_m n colPtr rowIdx schedule'"
  shows "ic0_csr_parInner_k schedule sqroot n val colPtr rowIdx = ic0_csr sqroot n val colPtr rowIdx \<and>
    ic0_csr_parInner_m schedule' sqroot n val colPtr rowIdx = ic0_csr sqroot n val colPtr rowIdx"
  unfolding ic0_csr_parInner_k_def ic0_csr_parInner_m_def
  using ic0_outer_cong[OF assms(2) ic0_rest_k_eq[OF assms(1) _ _ _ assms(4)]]
    ic0_outer_cong[OF assms(2) ic0_rest_m_eq[OF assms(1) _ _ _ assms(3,5)]] by blast


theorem ic0_csr_parInner_correct_witness:
  "ic0_csr_parInner_k (\<lambda>i m. if m = 1 then [4, 3, 3, 4, 4, 3, 4, 3] else [5, 5]) (\<lambda>v. v / 2) 3
      [4, 2, 6, 8, 10, 12 :: rat] [0, 3, 5, 6] [0, 1, 2, 1, 2, 2] =
    ic0_csr (\<lambda>v. v / 2) 3 [4, 2, 6, 8, 10, 12] [0, 3, 5, 6] [0, 1, 2, 1, 2, 2] \<and>
   ic0_csr_parInner_m (\<lambda>i. if i = 0 then [2, 1, 1, 2, 1, 1, 1, 1, 1, 1] else [4, 4]) (\<lambda>v. v / 2) 3
      [4, 2, 6, 8, 10, 12 :: rat] [0, 3, 5, 6] [0, 1, 2, 1, 2, 2] =
    ic0_csr (\<lambda>v. v / 2) 3 [4, 2, 6, 8, 10, 12] [0, 3, 5, 6] [0, 1, 2, 1, 2, 2]"
proof (rule ic0_csr_parInner_correct)
  show "lower_csc 3 [0, 3, 5, 6] [0, 1, 2, 1, 2, 2]" by code_simp
  show "elt [0, 3, 5, 6] 3 \<le> alen [4, 2, 6, 8, 10, 12 :: rat]" by code_simp
  show "distinct_rows 3 [0, 3, 5, 6] [0, 1, 2, 1, 2, 2]" by code_simp
  show "fair_schedules_k 3 [0, 3, 5, 6] [0, 1, 2, 1, 2, 2] (\<lambda>i m. if m = 1 then [4, 3, 3, 4, 4, 3, 4, 3] else [5, 5])"
    by code_simp
  show "fair_schedules_m 3 [0, 3, 5, 6] [0, 1, 2, 1, 2, 2] (\<lambda>i. if i = 0 then [2, 1, 1, 2, 1, 1, 1, 1, 1, 1] else [4, 4])"
    by code_simp
qed

end
