(* ===== verification/Matrix_File.thy ===== *)
theory Matrix_File
  imports C_Arrays Complex_Main
begin

text \<open>
  Reading a matrix in coordinate format (\<open>timeResults/src/util.h\<close>). A file is its text, or nothing when it cannot be
  opened; streams have the state that the function can observe. A \<open>double\<close> is an element of a field, so a literal is
  read without rounding and without overflow. The memory that \<open>new\<close> returns for \<open>row\<close> and \<open>val\<close> is not initialised: its
  content is a parameter.
\<close>

section \<open>Streams\<close>

text \<open>\<open>at_end\<close> and \<open>failed\<close> are the bits \<open>eofbit\<close> and \<open>failbit\<close>.\<close>

record istream =
  unread :: string
  at_end :: bool
  failed :: bool

definition string_stream :: "string \<Rightarrow> istream" where
  "string_stream s = \<lparr>unread = s, at_end = False, failed = False\<rparr>"

definition file_stream :: "string option \<Rightarrow> istream" where
  "file_stream f = (case f of None \<Rightarrow> \<lparr>unread = '''', at_end = False, failed = True\<rparr> | Some s \<Rightarrow> string_stream s)"

abbreviation newline :: char where "newline \<equiv> CHR 0x0A"

text \<open>A stream that is not good leaves the line as it was.\<close>

definition getline :: "string \<Rightarrow> istream \<Rightarrow> string \<times> istream" where
  "getline line st = (if at_end st \<or> failed st then (line, st\<lparr>failed := True\<rparr>) else
     (case dropWhile (\<lambda>c. c \<noteq> newline) (unread st) of
        [] \<Rightarrow> (unread st, st\<lparr>unread := '''', at_end := True, failed := (unread st = '''')\<rparr>)
      | _ # rest \<Rightarrow> (takeWhile (\<lambda>c. c \<noteq> newline) (unread st), st\<lparr>unread := rest\<rparr>)))"

text \<open>
  \<open>st >> v\<close>: a stream that has failed or has only white space left keeps the old value. \<open>get\<close> returns the new value,
  whether the text was accepted, and the rest.
\<close>

definition extract_value :: "(string \<Rightarrow> 'v \<times> bool \<times> string) \<Rightarrow> 'v \<Rightarrow> istream \<Rightarrow> 'v \<times> istream" where
  "extract_value get old st = (if failed st then (old, st) else
     let s = dropWhile is_space (unread st) in
     if s = '''' then (old, st\<lparr>unread := '''', at_end := True, failed := True\<rparr>)
     else (case get s of (v, ok, r) \<Rightarrow> (v, st\<lparr>unread := r, failed := \<not> ok\<rparr>)))"

definition get_word :: "string \<Rightarrow> string \<times> bool \<times> string" where
  "get_word s = (takeWhile (\<lambda>c. \<not> is_space c) s, True, dropWhile (\<lambda>c. \<not> is_space c) s)"

definition get_int :: "string \<Rightarrow> int option \<times> bool \<times> string" where
  "get_int s = (case scan_int s of
     None \<Rightarrow> (Some 0, False, '''')
   | Some (v, r) \<Rightarrow> if v < - (2 ^ 31) then (Some (- (2 ^ 31)), False, r) else if 2 ^ 31 \<le> v then (Some (2 ^ 31 - 1), False, r)
       else (Some v, True, r))"

text \<open>A negative number is read into a \<open>size_t\<close> modulo its range.\<close>

definition get_size :: "string \<Rightarrow> int \<times> bool \<times> string" where
  "get_size s = (case scan_int s of
     None \<Rightarrow> (0, False, '''')
   | Some (v, r) \<Rightarrow> if 2 ^ 64 \<le> \<bar>v\<bar> then (2 ^ 64 - 1, False, r) else (v mod 2 ^ 64, True, r))"

definition times_ten_to :: "'a::field \<Rightarrow> int \<Rightarrow> 'a" where
  "times_ten_to v e = (if e < 0 then v / 10 ^ nat (- e) else v * 10 ^ nat e)"

definition get_unsigned :: "bool \<Rightarrow> string \<Rightarrow> 'a::field option \<times> bool \<times> string" where
  "get_unsigned neg s =
     (let ds = takeWhile is_digit s;
          s = dropWhile is_digit s;
          point = (s \<noteq> '''' \<and> hd s = CHR ''.'');
          fs = (if point then takeWhile is_digit (tl s) else '''');
          s = (if point then dropWhile is_digit (tl s) else s);
          v = of_nat (read_nat (ds @ fs)) / 10 ^ length fs;
          v = (if neg then - v else v)
      in if ds @ fs = '''' then (Some 0, False, s)
         else if s \<noteq> '''' \<and> (hd s = CHR ''e'' \<or> hd s = CHR ''E'') then
           (if tl s \<noteq> '''' \<and> is_space (hd (tl s)) then (Some 0, False, tl s) else
            case scan_int (tl s) of None \<Rightarrow> (Some 0, False, tl s) | Some (e, r) \<Rightarrow> (Some (times_ten_to v e), True, r))
         else (Some v, True, s))"

definition get_double :: "string \<Rightarrow> 'a::field option \<times> bool \<times> string" where
  "get_double s = get_unsigned (hd s = CHR ''-'') (if hd s = CHR ''-'' \<or> hd s = CHR ''+'' then tl s else s)"

section \<open>The header\<close>

definition tolower :: "char \<Rightarrow> char" where
  "tolower c = (let k = of_char c :: nat in if 65 \<le> k \<and> k \<le> 90 then char_of (k + 32) else c)"

text \<open>What is printed, without the end of the line, about a first line that is refused.\<close>

definition header_error :: "string \<Rightarrow> string option" where
  "header_error line =
     (let (banner, iss) = extract_value get_word '''' (string_stream line);
          (mtx, iss) = extract_value get_word '''' iss;
          (crd, iss) = extract_value get_word '''' iss;
          (arith, iss) = extract_value get_word '''' iss;
          (sym, iss) = extract_value get_word '''' iss
      in if failed iss then Some ''Invalid header (first line does not contain 5 tokens)''
         else if banner \<noteq> ''%%matrixmarket'' then Some ''Invalid header (first token is not \"%%%%MatrixMarket\")''
         else if mtx \<noteq> ''matrix'' then Some ''Not a matrix; this driver cannot handle that.\"''
         else if crd \<noteq> ''coordinate'' then Some ''Not in coordinate format; this driver cannot handle that.\"''
         else if arith \<noteq> ''real'' then
           (if arith = ''complex'' then Some ''Complex matrix; use zreadMM instead!''
            else if arith = ''pattern'' then Some ''Pattern matrix; values are needed!''
            else Some ''Unknown arithmetic'')
         else None)"

text \<open>The loop need not end.\<close>

partial_function (option) skip_comments :: "string \<Rightarrow> istream \<Rightarrow> (string \<times> istream) option" where
  "skip_comments line st =
     (if take 1 line = ''%'' then (case getline line st of (line, st) \<Rightarrow> skip_comments line st) else Some (line, st))"

declare skip_comments.simps [code]

section \<open>The entries\<close>

record 'a matrix =
  dimension :: int
  nonzeros :: int
  colptr :: "int list"
  rows :: "int list"
  vals :: "'a list"

record 'a reader =
  input :: istream
  in_x :: "int option"
  in_y :: "int option"
  in_value :: "'a option"
  r_i :: int
  r_colCnt :: int
  r_nnzCnt :: int
  r_col :: "int list"
  r_row :: "int list"
  r_val :: "'a list"

definition decrement :: "int option \<Rightarrow> int result" where
  "decrement v = (case v of None \<Rightarrow> Inl (Undefined ''uninitialised or overflow'') | Some i \<Rightarrow> if i = - (2 ^ 31) then Inl (Undefined ''uninitialised or overflow'') else Inr (i - 1))"

text \<open>One round; \<open>False\<close> says that the function returns \<open>false\<close>. \<open>y > n\<close> compares as \<open>size_t\<close>.\<close>

definition read_round :: "int \<Rightarrow> 'a::field reader \<Rightarrow> (bool \<times> 'a reader) result" where
  "read_round n st =
     (let (x, inp) = extract_value get_int (in_x st) (input st) in bind_result (decrement x) (\<lambda>x.
      let (y, inp) = extract_value get_int (in_y st) inp in bind_result (decrement y) (\<lambda>y.
      let (v, inp) = extract_value get_double (in_value st) inp;
          st = st\<lparr>input := inp, in_x := Some x, in_y := Some y, in_value := v\<rparr>;
          k = r_nnzCnt st
      in if n < y mod 2 ^ 64 then Inr (False, st) else
      bind_result (case v of None \<Rightarrow> Inl (Undefined ''uninitialised or overflow'') | Some v \<Rightarrow> Inr v) (\<lambda>v.
      if y = r_i st then
        bind_result (wr (r_val st) k v) (\<lambda>val. bind_result (wr (r_row st) k x) (\<lambda>row.
        Inr (True, st\<lparr>r_val := val, r_row := row, r_colCnt := r_colCnt st + 1, r_nnzCnt := k + 1\<rparr>)))
      else
        bind_result (rd (r_col st) (r_i st)) (\<lambda>c. bind_result (wr (r_col st) (r_i st + 1) (c + r_colCnt st)) (\<lambda>col.
        bind_result (wr (r_val st) k v) (\<lambda>val. bind_result (wr (r_row st) k x) (\<lambda>row.
        Inr (True, st\<lparr>r_col := col, r_i := r_i st + 1, r_colCnt := 1, r_val := val, r_row := row, r_nnzCnt := k + 1\<rparr>)))))))))"

lemma read_round_counts: "read_round n st = Inr (True, st') \<Longrightarrow> r_nnzCnt st' = r_nnzCnt st + 1"
  by (auto simp: read_round_def Let_def split_beta simp del: wr_upd rd_elt split: if_splits)

function read_entries :: "int \<Rightarrow> int \<Rightarrow> 'a::field reader \<Rightarrow> (bool \<times> 'a reader) result" where
  "read_entries n NNZ st = (if r_nnzCnt st < NNZ then
     bind_result (read_round n st) (\<lambda>(ok, st'). if ok then read_entries n NNZ st' else Inr (False, st')) else Inr (True, st))"
  by auto

termination
  by (relation "measure (\<lambda>(n, NNZ, st). nat (NNZ - r_nnzCnt st))") (auto dest: read_round_counts)

declare read_entries.simps [simp del]

text \<open>The function: what it prints, what it returns, and the values of its reference parameters.\<close>

definition readMatrix ::
  "(int \<Rightarrow> int) \<Rightarrow> (int \<Rightarrow> 'a) \<Rightarrow> string option \<Rightarrow> 'a::field matrix \<Rightarrow> (string \<times> bool \<times> 'a matrix) result option" where
  "readMatrix junk_row junk_val fName m =
     (let (line, inFile) = getline '''' (file_stream fName); line = map tolower line in
      case header_error line of Some msg \<Rightarrow> Some (Inr (msg, False, m)) | None \<Rightarrow>
      (case skip_comments line inFile of None \<Rightarrow> None | Some (line, inFile) \<Rightarrow> Some
       (let (n, issDim) = extract_value get_size (dimension m) (string_stream line);
            (n, issDim) = extract_value get_size n issDim;
            (NNZ, issDim) = extract_value get_size (nonzeros m) issDim;
            m = m\<lparr>dimension := n, nonzeros := NNZ\<rparr>
        in if failed issDim then Inr (''The matrix dimension is missing'', False, m) else
           if n \<le> 0 \<or> NNZ \<le> 0 then Inr ('''', False, m) else
           bind_result (read_entries n NNZ \<lparr>input = inFile, in_x = None, in_y = None, in_value = None, r_i = 0, r_colCnt = 0,
             r_nnzCnt = 0, r_col = replicate (nat ((n + 1) mod 2 ^ 64)) 0, r_row = map junk_row [0..NNZ - 1],
             r_val = map junk_val [0..NNZ - 1]\<rparr>) (\<lambda>(ok, st).
           if \<not> ok then Inr ('''', False, m\<lparr>colptr := r_col st, rows := r_row st, vals := r_val st\<rparr>) else
           bind_result (rd (r_col st) (n - 1)) (\<lambda>c. bind_result (wr (r_col st) n (c + r_colCnt st)) (\<lambda>col.
           Inr ('''', True, m\<lparr>colptr := col, rows := r_row st, vals := r_val st\<rparr>)))))))"



section \<open>The text of a matrix\<close>

text \<open>A number with its sign, the whole part and the digits behind the point; an entry has a row, a column and a number.\<close>

datatype literal = Literal bool nat string

fun literal_text :: "literal \<Rightarrow> string" where
  "literal_text (Literal neg w fs) = (if neg then ''-'' else '''') @ show_nat w @ (if fs = '''' then '''' else CHR ''.'' # fs)"

fun literal_value :: "literal \<Rightarrow> 'a::field" where
  "literal_value (Literal neg w fs) = (let v = of_nat w + of_nat (read_nat fs) / 10 ^ length fs in if neg then - v else v)"

fun literal_ok :: "literal \<Rightarrow> bool" where
  "literal_ok (Literal neg w fs) \<longleftrightarrow> list_all is_digit fs"

type_synonym mm_entry = "int \<times> int \<times> literal"

fun entry_text :: "mm_entry \<Rightarrow> string" where
  "entry_text (x, y, v) = show_int (x + 1) @ '' '' @ show_int (y + 1) @ '' '' @ literal_text v @ [newline]"

definition matrix_text :: "string \<Rightarrow> string list \<Rightarrow> int \<Rightarrow> mm_entry list \<Rightarrow> string" where
  "matrix_text symmetry comments n es =
     ''%%MatrixMarket matrix coordinate real '' @ symmetry @ newline # concat (map (\<lambda>c. CHR ''%'' # c @ [newline]) comments) @
     show_int n @ '' '' @ show_int n @ '' '' @ show_int (int (length es)) @ newline # concat (map entry_text es)"

section \<open>Reading one number\<close>

lemma not_digit_chars [simp]: "\<not> is_digit newline" "\<not> is_digit CHR '' ''" "\<not> is_digit CHR ''.''" "is_space newline" "is_space CHR '' ''"
  "\<not> is_space CHR ''-''"
  by code_simp+

lemma digit_char: "is_digit c \<Longrightarrow> \<not> is_space c \<and> c \<noteq> CHR ''-'' \<and> c \<noteq> CHR ''+''"
  by (auto simp: is_digit_def is_space_def)

lemma skip_spaces: "list_all is_space ws \<Longrightarrow> dropWhile is_space (ws @ s) = dropWhile is_space s"
  by (induction ws) auto

lemma extract_value_first:
  assumes "\<not> failed st" "unread st = ws @ s" "list_all is_space ws" "dropWhile is_space s = s" "s \<noteq> ''''" "get s = (v, True, r)"
  shows "extract_value get old st = (v, st\<lparr>unread := r, failed := False\<rparr>)"
  using assms by (simp add: extract_value_def skip_spaces)

lemma show_int_nonempty [simp]: "show_int i \<noteq> ''''"
  by (simp add: show_int_def)

lemma extract_int:
  assumes "\<not> failed st" "unread st = ws @ show_int i @ r" "list_all is_space ws" "0 \<le> i" "i < 2 ^ 31" "\<not> is_digit (hd r)"
  shows "extract_value get_int old st = (Some i, st\<lparr>unread := r, failed := False\<rparr>)"
  by (rule extract_value_first[OF assms(1-3)]) (use assms scan_int_show[of i r] in \<open>auto simp: get_int_def\<close>)

lemma extract_size:
  assumes "\<not> failed st" "unread st = ws @ show_int i @ r" "list_all is_space ws" "0 \<le> i" "i < 2 ^ 64" "r = '''' \<or> \<not> is_digit (hd r)"
  shows "extract_value get_size old st = (i, st\<lparr>unread := r, failed := False\<rparr>)"
  by (rule extract_value_first[OF assms(1-3)]) (use assms scan_int_show[of i r] in \<open>auto simp: get_size_def\<close>)

lemma read_nat_append: "read_nat (ds @ fs) = read_nat ds * 10 ^ length fs + read_nat fs"
proof (induction fs rule: rev_induct)
  case (snoc c fs)
  have "read_nat (s @ [c]) = 10 * read_nat s + (of_char c - 48)" for s by (simp add: read_nat_def)
  from this[of "ds @ fs"] this[of fs] snoc show ?case by (simp add: algebra_simps)
qed (simp add: read_nat_def)

lemma get_double_literal:
  assumes "literal_ok l"
  shows "get_double (literal_text l @ newline # r) = (Some (literal_value l :: 'a::field_char_0), True, newline # r)"
proof (cases l)
  case (Literal neg w fs)
  obtain c cs where c: "show_nat w = c # cs" by (cases "show_nat w") auto
  have d: "is_digit c" using hd_show_nat_digit[of w] unfolding c by simp
  have fs: "\<And>x. x \<in> set fs \<Longrightarrow> is_digit x" using assms by (simp add: Literal list_all_iff)
  have ds: "\<And>x. x \<in> set (show_nat w) \<Longrightarrow> is_digit x" using show_nat_digits by blast
  define rest where "rest = (if fs = '''' then '''' else CHR ''.'' # fs) @ newline # r"
  have "rest = '''' \<or> \<not> is_digit (hd rest)" by (simp add: rest_def)
  then have whole: "takeWhile is_digit (show_nat w @ rest) = show_nat w" "dropWhile is_digit (show_nat w @ rest) = rest"
    using takeWhile_run[of "show_nat w" is_digit rest] dropWhile_run[of "show_nat w" is_digit rest] ds by blast+
  note frac = takeWhile_run[of fs is_digit "newline # r", OF fs] dropWhile_run[of fs is_digit "newline # r", OF fs]
  have sign: "(if hd s = CHR ''-'' \<or> hd s = CHR ''+'' then tl s else s) = show_nat w @ rest" "(hd s = CHR ''-'') = neg"
    if "s = (if neg then ''-'' else '''') @ show_nat w @ rest" for s
    using that digit_char[OF d] by (auto simp: c)
  have val_eq: "of_nat (read_nat (show_nat w @ fs)) / 10 ^ length fs = (of_nat w + of_nat (read_nat fs) / 10 ^ length fs :: 'a)"
    by (simp add: read_nat_append add_divide_distrib)
  have "literal_text l @ newline # r = (if neg then ''-'' else '''') @ show_nat w @ rest" by (simp add: Literal rest_def)
  note s = sign[OF this]
  have frac: "takeWhile is_digit (fs @ newline # r) = fs" "dropWhile is_digit (fs @ newline # r) = newline # r" using frac by simp_all
  have double: "get_double (literal_text l @ newline # r) = (get_unsigned neg (show_nat w @ rest) :: 'a option \<times> bool \<times> string)"
    unfolding get_double_def s(1) unfolding s(2) ..
  show ?thesis
  proof (cases "fs = ''''")
    case True
    then have "rest = newline # r" by (simp add: rest_def)
    show ?thesis unfolding double get_unsigned_def Let_def whole unfolding \<open>rest = newline # r\<close>
      by (simp add: Literal True read_nat_def[of "''''"])
  next
    case False
    then have "rest = CHR ''.'' # fs @ newline # r" by (simp add: rest_def)
    show ?thesis unfolding double get_unsigned_def Let_def whole unfolding \<open>rest = CHR ''.'' # fs @ newline # r\<close>
      by (simp add: Literal False frac val_eq)
  qed
qed

lemma literal_text_starts: "dropWhile is_space (literal_text l @ r) = literal_text l @ r" "literal_text l \<noteq> ''''"
proof -
  obtain neg w fs where l: "l = Literal neg w fs" by (cases l)
  show "dropWhile is_space (literal_text l @ r) = literal_text l @ r" using dropWhile_show_nat[of w] by (simp add: l)
  show "literal_text l \<noteq> ''''" by (simp add: l)
qed

lemma extract_double:
  assumes "\<not> failed st" "unread st = CHR '' '' # literal_text l @ newline # r" "literal_ok l"
  shows "extract_value get_double old st = (Some (literal_value l :: 'a::field_char_0), st\<lparr>unread := newline # r, failed := False\<rparr>)"
  using assms literal_text_starts(1)[of l "newline # r"] literal_text_starts(2)[of l] get_double_literal[OF assms(3), of r]
  by (intro extract_value_first[where ws = "'' ''" and s = "literal_text l @ newline # r"]) auto


section \<open>Reading the entries\<close>

definition row_of :: "mm_entry \<Rightarrow> int" where "row_of e = fst e"

definition column_of :: "mm_entry \<Rightarrow> int" where "column_of e = fst (snd e)"

definition value_of :: "mm_entry \<Rightarrow> 'a::field" where "value_of e = literal_value (snd (snd e))"

definition entry_ok :: "int \<Rightarrow> mm_entry \<Rightarrow> bool" where
  "entry_ok n e \<longleftrightarrow> 0 \<le> row_of e \<and> row_of e < n \<and> 0 \<le> column_of e \<and> column_of e < n \<and> literal_ok (snd (snd e))"

text \<open>Where a column starts: behind the entries of the columns before it.\<close>

definition column_start :: "mm_entry list \<Rightarrow> int \<Rightarrow> int" where
  "column_start es j = int (length (filter (\<lambda>e. column_of e < j) es))"

definition column_size :: "mm_entry list \<Rightarrow> int \<Rightarrow> int" where
  "column_size es j = int (length (filter (\<lambda>e. column_of e = j) es))"

lemma column_start_append [simp]: "column_start (es @ es') j = column_start es j + column_start es' j"
  by (simp add: column_start_def)

lemma column_size_append [simp]: "column_size (es @ es') j = column_size es j + column_size es' j"
  by (simp add: column_size_def)

lemma column_single [simp]: "column_start [e] j = (if column_of e < j then 1 else 0)" "column_size [e] j = (if column_of e = j then 1 else 0)"
  by (simp_all add: column_start_def column_size_def)

lemma column_start_next: "column_start es (j + 1) = column_start es j + column_size es j"
  by (induction es) (auto simp: column_start_def column_size_def)

lemma column_size_none: "(\<And>e. e \<in> set es \<Longrightarrow> column_of e < j) \<Longrightarrow> column_size es j = 0"
  unfolding column_size_def by (simp add: filter_empty_conv) (metis less_irrefl)

lemma extract_entry:
  assumes st: "\<not> failed inp" "unread inp = ws @ entry_text e @ r" "list_all is_space ws" and e: "entry_ok n e" and n: "n < 2 ^ 31"
  shows "\<exists>inp1 inp2 inp3. extract_value get_int x0 inp = (Some (row_of e + 1), inp1) \<and>
    extract_value get_int y0 inp1 = (Some (column_of e + 1), inp2) \<and>
    extract_value get_double v0 inp2 = (Some (value_of e :: 'a::field_char_0), inp3) \<and>
    \<not> failed inp3 \<and> unread inp3 = newline # r"
proof -
  obtain x y v where xyv: "e = (x, y, v)" by (cases e)
  have ok: "0 \<le> x" "x < n" "0 \<le> y" "y < n" "literal_ok v" using e by (auto simp: entry_ok_def xyv row_of_def column_of_def)
  let ?r2 = "CHR '' '' # literal_text v @ newline # r" and ?r1 = "CHR '' '' # show_int (y + 1) @ CHR '' '' # literal_text v @ newline # r"
  let ?i1 = "inp\<lparr>unread := ?r1, failed := False\<rparr>" and ?i2 = "inp\<lparr>unread := ?r2, failed := False\<rparr>"
  have "extract_value get_int x0 inp = (Some (x + 1), ?i1)"
    using extract_int[OF st(1), of ws "x + 1" ?r1 x0] st ok n by (simp add: xyv)
  moreover have "extract_value get_int y0 ?i1 = (Some (y + 1), ?i2)"
    using extract_int[of ?i1 "'' ''" "y + 1" ?r2 y0] ok n by simp
  moreover have "extract_value get_double v0 ?i2 = (Some (literal_value v :: 'a), ?i2\<lparr>unread := newline # r, failed := False\<rparr>)"
    using extract_double[of ?i2 v r v0] ok by simp
  ultimately show ?thesis by (auto simp: xyv row_of_def column_of_def value_of_def)
qed

definition reader_inv :: "int \<Rightarrow> int \<Rightarrow> mm_entry list \<Rightarrow> 'a::field reader \<Rightarrow> bool" where
  "reader_inv n N es st \<longleftrightarrow> \<not> failed (input st) \<and> r_nnzCnt st = int (length es) \<and>
     alen (r_col st) = n + 1 \<and> alen (r_row st) = N \<and> alen (r_val st) = N \<and> 0 \<le> r_i st \<and> r_i st < n \<and>
     r_colCnt st = column_size es (r_i st) \<and> (\<forall>e \<in> set es. column_of e \<le> r_i st) \<and>
     (\<forall>j. 0 \<le> j \<and> j \<le> r_i st \<longrightarrow> elt (r_col st) j = column_start es j) \<and>
     (\<forall>p < length es. elt (r_row st) (int p) = row_of (es ! p) \<and> elt (r_val st) (int p) = value_of (es ! p))"

lemma elt_upd_nth:
  assumes "\<forall>p < length es. elt a (int p) = f (es ! p)" "int (length es) < alen a"
  shows "\<forall>p < length (es @ [e]). elt (upd a (int (length es)) (f e)) (int p) = f ((es @ [e]) ! p)"
  using assms by (auto simp: nth_append less_Suc_eq)

lemma read_round_ok:
  fixes st :: "'a::field_char_0 reader"
  assumes inv: "reader_inv n N es st" and inp: "unread (input st) = ws @ entry_text e @ r" "list_all is_space ws"
    and e: "entry_ok n e" "column_of e = r_i st \<or> column_of e = r_i st + 1" and n: "n < 2 ^ 31" and N: "int (length es) < N"
  shows "\<exists>st'. read_round n st = Inr (True, st') \<and> reader_inv n N (es @ [e]) st' \<and> r_i st' = column_of e \<and> unread (input st') = newline # r"
proof -
  have I: "\<not> failed (input st)" "r_nnzCnt st = int (length es)" "alen (r_col st) = n + 1" "alen (r_row st) = N" "alen (r_val st) = N"
    "0 \<le> r_i st" "r_i st < n" "r_colCnt st = column_size es (r_i st)" "\<And>e. e \<in> set es \<Longrightarrow> column_of e \<le> r_i st"
    "\<And>j. 0 \<le> j \<Longrightarrow> j \<le> r_i st \<Longrightarrow> elt (r_col st) j = column_start es j"
    "\<forall>p < length es. elt (r_row st) (int p) = row_of (es ! p)" "\<forall>p < length es. elt (r_val st) (int p) = value_of (es ! p)"
    using inv by (auto simp: reader_inv_def)
  obtain inp1 inp2 inp3 where x: "extract_value get_int (in_x st) (input st) = (Some (row_of e + 1), inp1)"
    "extract_value get_int (in_y st) inp1 = (Some (column_of e + 1), inp2)"
    "extract_value get_double (in_value st) inp2 = (Some (value_of e :: 'a), inp3)" "\<not> failed inp3" "unread inp3 = newline # r"
    using extract_entry[OF I(1) inp e(1) n] by blast
  have ok: "0 \<le> row_of e" "0 \<le> column_of e" "column_of e < n" using e(1) by (auto simp: entry_ok_def)
  have dec: "decrement (Some (row_of e + 1)) = Inr (row_of e)" "decrement (Some (column_of e + 1)) = Inr (column_of e)"
    using ok by (simp_all add: decrement_def)
  have small: "\<not> n < column_of e mod 2 ^ 64" using ok n by simp
  have row: "\<forall>p < length (es @ [e]). elt (upd (r_row st) (int (length es)) (row_of e)) (int p) = row_of ((es @ [e]) ! p)"
    by (rule elt_upd_nth) (use I N in auto)
  have val: "\<forall>p < length (es @ [e]). elt (upd (r_val st) (int (length es)) (value_of e)) (int p) = value_of ((es @ [e]) ! p)"
    by (rule elt_upd_nth) (use I N in auto)
  let ?st = "st\<lparr>input := inp3, in_x := Some (row_of e), in_y := Some (column_of e), in_value := Some (value_of e)\<rparr>"
  let ?val = "upd (r_val st) (int (length es)) (value_of e)" and ?row = "upd (r_row st) (int (length es)) (row_of e)"
  show ?thesis
  proof (cases "column_of e = r_i st")
    case True
    let ?s = "?st\<lparr>r_val := ?val, r_row := ?row, r_colCnt := r_colCnt st + 1, r_nnzCnt := int (length es) + 1\<rparr>"
    have "read_round n st = Inr (True, ?s)"
      using x dec small I N True by (simp add: read_round_def Let_def)
    moreover have "reader_inv n N (es @ [e]) ?s"
      unfolding reader_inv_def using I row val x True by auto
    ultimately show ?thesis using x True by auto
  next
    case False
    then have c: "column_of e = r_i st + 1" using e(2) by simp
    let ?col = "upd (r_col st) (r_i st + 1) (column_start es (r_i st) + r_colCnt st)"
    let ?s = "?st\<lparr>r_col := ?col, r_i := r_i st + 1, r_colCnt := 1, r_val := ?val, r_row := ?row, r_nnzCnt := int (length es) + 1\<rparr>"
    have "read_round n st = Inr (True, ?s)"
      using x dec small I N False c ok by (simp add: read_round_def Let_def)
    moreover have "column_size es (r_i st + 1) = 0" by (rule column_size_none) (use I(9) in force)
    moreover have "elt ?col j = column_start es j" if "0 \<le> j" "j \<le> r_i st + 1" for j
      using that I(3,6,7,8,10) by (cases "j = r_i st + 1") (auto simp: column_start_next)
    moreover have "\<forall>e \<in> set es. column_of e \<le> r_i st + 1" using I(9) by force
    ultimately have "reader_inv n N (es @ [e]) ?s"
      unfolding reader_inv_def using I(1-8) ok row val x c by simp
    then show ?thesis using \<open>read_round n st = Inr (True, ?s)\<close> x c by auto
  qed
qed


text \<open>No column is passed over.\<close>

fun consecutive :: "int \<Rightarrow> int list \<Rightarrow> bool" where
  "consecutive i [] \<longleftrightarrow> True"
| "consecutive i (y # ys) \<longleftrightarrow> (y = i \<or> y = i + 1) \<and> consecutive y ys"

lemma consecutive_sorted:
  assumes "sorted (i # ys)" "set ys \<subseteq> {..<n}" "{i<..<n} \<subseteq> set ys"
  shows "consecutive i ys \<and> (i < n \<longrightarrow> last (i # ys) = n - 1)"
  using assms
proof (induction ys arbitrary: i)
  case Nil
  then have "i < n \<Longrightarrow> i = n - 1" by (metis empty_iff empty_set greaterThanLessThan_iff less_add_one linorder_not_less order_antisym_conv subset_iff zle_diff1_eq)
  then show ?case by simp
next
  case (Cons y ys)
  have y: "i \<le> y" "y < n" "sorted (y # ys)" "set ys \<subseteq> {..<n}" using Cons.prems by auto
  have "{y<..<n} \<subseteq> set ys"
  proof
    fix k assume "k \<in> {y<..<n}"
    then have "k \<in> set (y # ys)" by (intro subsetD[OF Cons.prems(3)]) (use y(1) in simp)
    then show "k \<in> set ys" using \<open>k \<in> {y<..<n}\<close> by simp
  qed
  note IH = Cons.IH[OF y(3,4) this]
  have "\<not> i + 1 < y"
  proof
    assume "i + 1 < y"
    then have "i + 1 \<in> set (y # ys)" by (intro subsetD[OF Cons.prems(3)]) (use y(2) in simp)
    then show False using y(3) \<open>i + 1 < y\<close> by auto
  qed
  then show ?case using IH y(1,2) by auto
qed

lemma read_entries_ok:
  fixes st :: "'a::field_char_0 reader"
  assumes "reader_inv n N es st" "unread (input st) = ws @ concat (map entry_text rs)" "list_all is_space ws"
    "int (length es) + int (length rs) = N" "consecutive (r_i st) (map column_of rs)" "\<forall>e \<in> set rs. entry_ok n e" "n < 2 ^ 31"
  shows "\<exists>st'. read_entries n N st = Inr (True, st') \<and> reader_inv n N (es @ rs) st' \<and> r_i st' = last (r_i st # map column_of rs)"
  using assms
proof (induction rs arbitrary: es st ws)
  case Nil
  then have "\<not> r_nnzCnt st < N" by (simp add: reader_inv_def)
  then show ?case using Nil by (simp add: read_entries.simps[of n N st])
next
  case (Cons e rs)
  have more: "r_nnzCnt st < N" "int (length es) < N" using Cons.prems by (simp_all add: reader_inv_def)
  have unr: "unread (input st) = ws @ entry_text e @ concat (map entry_text rs)" using Cons.prems(2) by simp
  obtain st' where st': "read_round n st = Inr (True, st')" "reader_inv n N (es @ [e]) st'" "r_i st' = column_of e"
    "unread (input st') = newline # concat (map entry_text rs)"
    using read_round_ok[OF Cons.prems(1) unr Cons.prems(3) _ _ Cons.prems(7) more(2)] Cons.prems(5,6) by auto
  have "\<exists>st''. read_entries n N st' = Inr (True, st'') \<and> reader_inv n N ((es @ [e]) @ rs) st'' \<and> r_i st'' = last (r_i st' # map column_of rs)"
    by (rule Cons.IH[where ws = "[newline]"]) (use Cons.prems st' in auto)
  then show ?case using st' more by (simp add: read_entries.simps[of n N st])
qed


section \<open>The whole file\<close>

definition good_stream :: "string \<Rightarrow> istream" where
  "good_stream s = \<lparr>unread = s, at_end = False, failed = False\<rparr>"

lemma getline_line: "newline \<notin> set l \<Longrightarrow> getline old (good_stream (l @ newline # r)) = (l, good_stream r)"
proof -
  assume "newline \<notin> set l"
  then have "dropWhile (\<lambda>c. c \<noteq> newline) (l @ newline # r) = newline # r" "takeWhile (\<lambda>c. c \<noteq> newline) (l @ newline # r) = l"
    by (induction l) auto
  then show ?thesis by (simp add: getline_def good_stream_def)
qed

lemma skip_comments_lines:
  assumes "take 1 line = ''%''" "list_all (\<lambda>c. newline \<notin> set c) comments" "newline \<notin> set d" "take 1 d \<noteq> ''%''"
  shows "skip_comments line (good_stream (concat (map (\<lambda>c. CHR ''%'' # c @ [newline]) comments) @ d @ newline # r)) = Some (d, good_stream r)"
  using assms
proof (induction comments arbitrary: line)
  case Nil
  then show ?case using getline_line[of d line r] skip_comments.simps[of d "good_stream r"] by (subst skip_comments.simps) simp
next
  case (Cons c cs)
  let ?rest = "concat (map (\<lambda>c. CHR ''%'' # c @ [newline]) cs) @ d @ newline # r"
  have "getline line (good_stream ((CHR ''%'' # c) @ newline # ?rest)) = (CHR ''%'' # c, good_stream ?rest)"
    using Cons.prems(2) by (intro getline_line) auto
  then show ?case using Cons by (subst skip_comments.simps) simp
qed

lemma show_int_chars: "0 \<le> i \<Longrightarrow> c \<in> set (show_int i) \<Longrightarrow> is_digit c"
  using show_nat_digits by (auto simp: show_int_def)

lemma show_int_first: "0 \<le> i \<Longrightarrow> take 1 (show_int i @ s) \<noteq> ''%''"
proof -
  assume "0 \<le> i"
  moreover obtain c cs where "show_int i = c # cs" by (cases "show_int i") auto
  ultimately have "is_digit c" "show_int i = c # cs" using show_int_chars[of i c] by auto
  moreover have "\<not> is_digit CHR ''%''" by code_simp
  ultimately show ?thesis by auto
qed

definition dimensions :: "int \<Rightarrow> int \<Rightarrow> string" where
  "dimensions n N = show_int n @ '' '' @ show_int n @ '' '' @ show_int N"

lemma dimensions_read:
  assumes "0 \<le> n" "n < 2 ^ 31" "0 \<le> N" "N < 2 ^ 31"
  shows "\<exists>d1 d2 d3. extract_value get_size a (string_stream (dimensions n N)) = (n, d1) \<and> extract_value get_size b d1 = (n, d2) \<and>
    extract_value get_size c d2 = (N, d3) \<and> \<not> failed d3"
proof -
  let ?d1 = "(string_stream (dimensions n N))\<lparr>unread := CHR '' '' # show_int n @ CHR '' '' # show_int N, failed := False\<rparr>"
  let ?d2 = "?d1\<lparr>unread := CHR '' '' # show_int N, failed := False\<rparr>"
  have "extract_value get_size a (string_stream (dimensions n N)) = (n, ?d1)"
    by (rule extract_size[where ws = "''''"]) (use assms in \<open>auto simp: string_stream_def dimensions_def\<close>)
  moreover have "extract_value get_size b ?d1 = (n, ?d2)"
    by (rule extract_size[where ws = "'' ''"]) (use assms in auto)
  moreover have "extract_value get_size c ?d2 = (N, ?d2\<lparr>unread := '''', failed := False\<rparr>)"
    by (rule extract_size[where ws = "'' ''"]) (use assms in auto)
  ultimately show ?thesis by force
qed

lemma header_accepted:
  "header_error (map tolower (''%%MatrixMarket matrix coordinate real '' @ ''general'')) = None"
  "header_error (map tolower (''%%MatrixMarket matrix coordinate real '' @ ''symmetric'')) = None"
  by code_simp+

definition compressed_matrix :: "int \<Rightarrow> mm_entry list \<Rightarrow> 'a::field matrix" where
  "compressed_matrix n es = \<lparr>dimension = n, nonzeros = int (length es), colptr = map (column_start es) [0..n],
     rows = map row_of es, vals = map value_of es\<rparr>"

lemma finished_reader:
  fixes st :: "'a::field_char_0 reader"
  assumes "reader_inv n (int (length es)) es st" "r_i st = n - 1"
  shows "upd (r_col st) n (elt (r_col st) (n - 1) + r_colCnt st) = map (column_start es) [0..n]"
    "r_row st = map row_of es" "r_val st = map value_of es"
proof -
  have I: "alen (r_col st) = n + 1" "alen (r_row st) = int (length es)" "alen (r_val st) = int (length es)" "0 \<le> r_i st"
    "r_colCnt st = column_size es (r_i st)" "\<And>j. 0 \<le> j \<Longrightarrow> j \<le> r_i st \<Longrightarrow> elt (r_col st) j = column_start es j"
    "\<forall>p < length es. elt (r_row st) (int p) = row_of (es ! p) \<and> elt (r_val st) (int p) = value_of (es ! p)"
    using assms(1) by (auto simp: reader_inv_def)
  have nth: "elt (map f [0..n]) j = f j" if "0 \<le> j" "j \<le> n" for f :: "int \<Rightarrow> int" and j
    using that by (simp add: elt_def nth_upto)
  have len: "alen (map f [0..n]) = n + 1" if "0 \<le> n" for f :: "int \<Rightarrow> int" using that by (simp add: alen_def)
  show "upd (r_col st) n (elt (r_col st) (n - 1) + r_colCnt st) = map (column_start es) [0..n]"
  proof (rule array_eqI)
    show "alen (upd (r_col st) n (elt (r_col st) (n - 1) + r_colCnt st)) = alen (map (column_start es) [0..n])"
      using I(1,4) assms(2) len by simp
    fix j assume j: "0 \<le> j" "j < alen (upd (r_col st) n (elt (r_col st) (n - 1) + r_colCnt st))"
    then have "j \<le> n" using I(1) by simp
    then show "elt (upd (r_col st) n (elt (r_col st) (n - 1) + r_colCnt st)) j = elt (map (column_start es) [0..n]) j"
      using j I assms(2) nth[of j] column_start_next[of es "n - 1"] by (cases "j = n") auto
  qed
  have arr: "a = map f es" if "alen a = int (length es)" "\<forall>p < length es. elt a (int p) = f (es ! p)" for a :: "'b list" and f
    using that by (intro nth_equalityI) (auto simp: alen_def elt_def)
  show "r_row st = map row_of es" "r_val st = map value_of es" using I by (auto intro!: arr)
qed

text \<open>C7: The text of a matrix of \<open>n\<close> rows and columns whose entries are in range and ordered by
  columns, of which none is empty, both numbers below \<open>2^31\<close>, with any comments, general or symmetric, is
  read as its compressed form.\<close>

theorem readMatrix_roundtrip:
  fixes m :: "'a::field_char_0 matrix"
  assumes "0 < n" and "n < 2 ^ 31" and "int (length es) < 2 ^ 31" and "list_all (entry_ok n) es"
    and "sorted (map column_of es)" and "set (map column_of es) = {0..<n}"
    and "symmetry = ''general'' \<or> symmetry = ''symmetric''" and "list_all (\<lambda>c. newline \<notin> set c) comments"
  shows "readMatrix junk_row junk_val (Some (matrix_text symmetry comments n es)) m = Some (Inr ('''', True, compressed_matrix n es))"
proof -
  let ?N = "int (length es)" and ?entries = "concat (map entry_text es)"
  let ?rest = "concat (map (\<lambda>c. CHR ''%'' # c @ [newline]) comments) @ dimensions n ?N @ newline # ?entries"
  define first where "first = ''%%MatrixMarket matrix coordinate real '' @ symmetry"
  have contents: "matrix_text symmetry comments n es = first @ newline # ?rest" by (simp add: matrix_text_def dimensions_def first_def)
  have "newline \<notin> set first" using assms(7) by (auto simp: first_def)
  from getline_line[OF this] have line: "getline '''' (file_stream (Some (matrix_text symmetry comments n es))) = (first, good_stream ?rest)"
    unfolding contents by (simp add: file_stream_def string_stream_def good_stream_def)
  have ok: "header_error (map tolower first) = None" using header_accepted assms(7) unfolding first_def by blast
  have "map tolower first = CHR ''%'' # map tolower (tl first)" by (simp add: tolower_def first_def)
  then have "take 1 (map tolower first) = ''%''" by simp
  moreover have "take 1 (dimensions n ?N) \<noteq> ''%''" unfolding dimensions_def by (rule show_int_first) (use assms(1) in simp)
  moreover have "newline \<notin> set (dimensions n ?N)" using assms(1) by (auto simp: dimensions_def dest: show_int_chars[rotated])
  ultimately have skip: "skip_comments (map tolower first) (good_stream ?rest) = Some (dimensions n ?N, good_stream ?entries)"
    using assms(8) by (intro skip_comments_lines) auto
  obtain d1 d2 d3 where d: "extract_value get_size (dimension m) (string_stream (dimensions n ?N)) = (n, d1)"
    "extract_value get_size n d1 = (n, d2)" "extract_value get_size (nonzeros m) d2 = (?N, d3)" "\<not> failed d3"
    using dimensions_read[of n ?N] assms(1-3) by force
  have "0 \<in> set (map column_of es)" using assms(1,6) by simp
  then have nonempty: "es \<noteq> []" by auto
  let ?st = "\<lparr>input = good_stream ?entries, in_x = None, in_y = None, in_value = None, r_i = 0, r_colCnt = 0,
    r_nnzCnt = 0, r_col = replicate (nat ((n + 1) mod 2 ^ 64)) 0, r_row = map junk_row [0..?N - 1], r_val = map junk_val [0..?N - 1]\<rparr> :: 'a reader"
  have "(n + 1) mod 2 ^ 64 = n + 1" using assms(1,2) by simp
  then have inv: "reader_inv n ?N [] ?st"
    using assms(1) by (auto simp: reader_inv_def good_stream_def alen_def column_size_def column_start_def)
  have "sorted (0 # map column_of es)" using assms(5,6) by auto
  moreover have "set (map column_of es) \<subseteq> {..<n}" "{0<..<n} \<subseteq> set (map column_of es)" unfolding assms(6) by auto
  ultimately have C: "consecutive 0 (map column_of es)" "last (0 # map column_of es) = n - 1"
    using consecutive_sorted assms(1) by blast+
  have "\<exists>st'. read_entries n ?N ?st = Inr (True, st') \<and> reader_inv n ?N ([] @ es) st' \<and> r_i st' = last (r_i ?st # map column_of es)"
    by (rule read_entries_ok[where ws = "''''"]) (use inv C assms in \<open>auto simp: good_stream_def list_all_iff\<close>)
  then obtain st' where st': "read_entries n ?N ?st = Inr (True, st')" "reader_inv n ?N es st'" "r_i st' = n - 1" using C by auto
  have len: "alen (r_col st') = n + 1" using st'(2) by (simp add: reader_inv_def)
  show ?thesis
    using finished_reader[OF st'(2,3)] len assms(1) nonempty st'(1) unfolding readMatrix_def line
    by (simp add: ok skip d compressed_matrix_def Let_def del: map_append)
qed


declare bind_result_def [code_unfold]

theorem readMatrix_roundtrip_witness:
  "readMatrix (\<lambda>i. 7) (\<lambda>i. 7) (Some (matrix_text ''symmetric'' ['' a comment''] 2
      [(0, 0, Literal False 1 ''5''), (1, 0, Literal True 20 ''''), (1, 1, Literal False 0 ''25'')])) (compressed_matrix 0 [] :: rat matrix) =
    Some (Inr ('''', True, compressed_matrix 2
      [(0, 0, Literal False 1 ''5''), (1, 0, Literal True 20 ''''), (1, 1, Literal False 0 ''25'')])) \<and>
   compressed_matrix 2 [(0, 0, Literal False 1 ''5''), (1, 0, Literal True 20 ''''), (1, 1, Literal False 0 ''25'')] =
    \<lparr>dimension = 2, nonzeros = 3, colptr = [0, 2, 3], rows = [0, 1, 1], vals = [3 / 2, - 20, 1 / 4 :: rat]\<rparr>"
proof (rule conjI, rule readMatrix_roundtrip)
  show "list_all (entry_ok 2) [(0, 0, Literal False 1 ''5''), (1, 0, Literal True 20 ''''), (1, 1, Literal False 0 ''25'')]" by code_simp
  show "sorted (map column_of [(0, 0, Literal False 1 ''5''), (1, 0, Literal True 20 ''''), (1, 1, Literal False 0 ''25'')])" by code_simp
  show "set (map column_of [(0, 0, Literal False 1 ''5''), (1, 0, Literal True 20 ''''), (1, 1, Literal False 0 ''25'')]) = {0..<2}"
    by code_simp
  show "list_all (\<lambda>c. newline \<notin> set c) ['' a comment'']" by code_simp
  show "compressed_matrix 2 [(0, 0, Literal False 1 ''5''), (1, 0, Literal True 20 ''''), (1, 1, Literal False 0 ''25'')] =
    \<lparr>dimension = 2, nonzeros = 3, colptr = [0, 2, 3], rows = [0, 1, 1], vals = [3 / 2, - 20, 1 / 4 :: rat]\<rparr>" by code_simp
qed simp_all

text \<open>A column without entries: \<open>i\<close> goes up by one only, and the pointers are not those of the matrix.\<close>

lemma readMatrix_empty_column:
  "readMatrix (\<lambda>i. 7) (\<lambda>i. 7) (Some (matrix_text ''general'' [] 3 [(0, 0, Literal False 1 ''''), (2, 2, Literal False 1 '''')]))
      (compressed_matrix 0 [] :: rat matrix) =
    Some (Inr ('''', True, \<lparr>dimension = 3, nonzeros = 2, colptr = [0, 1, 0, 1], rows = [0, 2], vals = [1, 1]\<rparr>))"
  "colptr (compressed_matrix 3 [(0, 0, Literal False 1 ''''), (2, 2, Literal False 1 '''')] :: rat matrix) = [0, 1, 1, 2]"
  by code_simp+

text \<open>Column \<open>n + 1\<close> passes the check, and the pointer after the last one is written.\<close>

lemma readMatrix_column_past_end:
  "readMatrix (\<lambda>i. 7) (\<lambda>i. 7) (Some (matrix_text ''general'' [] 1
      [(0, 0, Literal False 1 ''''), (0, 1, Literal False 1 ''''), (0, 0, Literal False 1 '''')])) (compressed_matrix 0 [] :: rat matrix) =
    Some (Inl (Undefined ''write outside an array''))"
  by code_simp

text \<open>A file that ends in a comment without a newline is read forever.\<close>

lemma skip_comments_returns: "skip_comments line st = Some r \<Longrightarrow> \<not> (take 1 line = ''%'' \<and> (at_end st \<or> failed st))"
proof (rule skip_comments.raw_induct[where P = "\<lambda>line st r. \<not> (take 1 line = ''%'' \<and> (at_end st \<or> failed st))"])
  fix skip line st r
  assume IH: "\<And>line st r. skip line st = Some r \<Longrightarrow> \<not> (take 1 line = ''%'' \<and> (at_end st \<or> failed st))"
    and eq: "(if take 1 line = ''%'' then (case getline line st of (line, st) \<Rightarrow> skip line st) else Some (line, st)) = Some r"
  show "\<not> (take 1 line = ''%'' \<and> (at_end st \<or> failed st))"
  proof
    assume stuck: "take 1 line = ''%'' \<and> (at_end st \<or> failed st)"
    then have "skip line (st\<lparr>failed := True\<rparr>) = Some r" using eq by (simp add: getline_def)
    from IH[OF this] stuck show False by simp
  qed
qed

lemma skip_comments_stuck: "take 1 line = ''%'' \<Longrightarrow> at_end st \<or> failed st \<Longrightarrow> skip_comments line st = None"
  using skip_comments_returns by (cases "skip_comments line st") blast+

lemma readMatrix_never_returns:
  "readMatrix junk_row junk_val (Some ''%%MatrixMarket matrix coordinate real general'') m = None"
proof -
  let ?l = "''%%matrixmarket matrix coordinate real general''"
  have "header_error ?l = None" by code_simp
  moreover have "map tolower ''%%MatrixMarket matrix coordinate real general'' = ?l" by code_simp
  moreover have "getline '''' (file_stream (Some ''%%MatrixMarket matrix coordinate real general'')) =
      (''%%MatrixMarket matrix coordinate real general'', \<lparr>unread = '''', at_end = True, failed = False\<rparr>)" by code_simp
  moreover have "skip_comments ?l \<lparr>unread = '''', at_end = True, failed = False\<rparr> = None" by (rule skip_comments_stuck) simp_all
  ultimately show ?thesis unfolding readMatrix_def by (simp only: Let_def prod.case option.case)
qed

end
