(* ===== verification/Dot_Print.thy ===== *)
theory Dot_Print
  imports Sets
begin

text \<open>
  The graphs that \<open>toDotString\<close> prints for expressions, conjunctions, sets and relations (\<open>expression.cc\<close>,
  \<open>set_relation.cc\<close>), as the statements they consist of and their text. The counter \<open>next_id\<close> is passed through. The
  nodes are numbered in the order in which they are printed, and the graph is a tree.
\<close>

section \<open>Statements\<close>

text \<open>A node with its label; an edge with the arrow as it is printed.\<close>

datatype dot_stmt = Dot_node int string | Dot_edge string int int

abbreviation newline_escape :: string where "newline_escape \<equiv> [CHR 0x5C, CHR ''n'']"

primrec dot_text :: "dot_stmt \<Rightarrow> string" where
  "dot_text (Dot_node i label) = show_int i @ '' [label = '' @ [CHR 0x22] @ label @ [CHR 0x22] @ ''];'' @ [CHR 0x0A]"
| "dot_text (Dot_edge arrow i j) = show_int i @ arrow @ show_int j @ '';'' @ [CHR 0x0A]"

primrec type_name :: "trm \<Rightarrow> string" where
  "type_name (Term c) = ''Term''"
| "type_name (VarTerm c s) = ''VarTerm''"
| "type_name (TupleVarTerm c l) = ''TupleVarTerm''"
| "type_name (UFCallTerm c f args i) = ''UFCallTerm''"

definition UFCallTerm_toDotString :: "int \<Rightarrow> string \<Rightarrow> int \<Rightarrow> bool \<Rightarrow> string" where
  "UFCallTerm_toDotString c f i absValue =
     coeffToStream c absValue @ f @ ''(...)'' @ (if isIndexed i then ''['' @ show_int (tupleIndex i) @ '']'' else '''')"

definition toDotString_trm :: "trm \<Rightarrow> bool \<Rightarrow> string" where
  "toDotString_trm t absValue = (case t of UFCallTerm c f args i \<Rightarrow> UFCallTerm_toDotString c f i absValue | _ \<Rightarrow> toString_trm t absValue)"

section \<open>Expressions\<close>

text \<open>\<open>dot_children\<close> prints expressions below a node: arguments of a call, or the constraints of a conjunction.\<close>

fun dot_exp :: "int \<Rightarrow> exp \<Rightarrow> dot_stmt list \<times> int"
  and dot_terms :: "int \<Rightarrow> int \<Rightarrow> trm list \<Rightarrow> dot_stmt list \<times> int"
  and dot_children :: "int \<Rightarrow> int \<Rightarrow> exp list \<Rightarrow> dot_stmt list \<times> int" where
  "dot_exp next_id (Exp ts et) =
     (case dot_terms next_id (next_id + 1) ts of (below, next_id') \<Rightarrow>
       (Dot_node next_id (''Exp'' @ newline_escape @ (if length ts > 1 then ''... + ...'' else '''')) # below, next_id'))"
| "dot_terms self_id term_id [] = ([], term_id)"
| "dot_terms self_id term_id (t # ts) =
     (case (case t of UFCallTerm c f args i \<Rightarrow> dot_children term_id (term_id + 1) args | _ \<Rightarrow> ([], term_id + 1)) of (below, next_id) \<Rightarrow>
      case dot_terms self_id next_id ts of (others, next_id') \<Rightarrow>
       (Dot_edge '' -> '' self_id term_id #
        Dot_node term_id (type_name t @ newline_escape @ '' '' @ toDotString_trm t False) # below @ others, next_id'))"
| "dot_children parent_id self_id [] = ([], self_id)"
| "dot_children parent_id self_id (e # es) =
     (case dot_exp self_id e of (own, next_id) \<Rightarrow>
      case dot_children parent_id next_id es of (others, next_id') \<Rightarrow>
       (Dot_edge '' -> '' parent_id self_id # own @ others, next_id'))"

section \<open>Conjunctions, sets and relations\<close>

definition dot_group :: "int \<Rightarrow> int \<Rightarrow> string \<Rightarrow> exp list \<Rightarrow> dot_stmt list \<times> int" where
  "dot_group self_id group_id label es =
     (if es = [] then ([], group_id) else
      case dot_children group_id (group_id + 1) es of (below, next_id) \<Rightarrow>
       (Dot_edge ''->'' self_id group_id # Dot_node group_id label # below, next_id))"

definition dot_conjunction :: "int \<Rightarrow> conjunction \<Rightarrow> dot_stmt list \<times> int" where
  "dot_conjunction self_id c =
     (case dot_group self_id (self_id + 1) (''Equalities'' @ newline_escape @ ''... = 0'') (mEqualities c) of (eqs, next_id) \<Rightarrow>
      case dot_group self_id next_id (''Inequalities'' @ newline_escape @ ''... >= 0'') (mInequalities c) of (ineqs, next_id') \<Rightarrow>
       (Dot_node self_id (''Conjunction'' @ newline_escape @ tuple_decl_toString (mTupleDecl c) True (nat (mInArity c))) # eqs @ ineqs,
        next_id'))"

fun dot_sparse :: "int \<Rightarrow> sparse \<Rightarrow> dot_stmt list" where
  "dot_sparse next_id [] = []"
| "dot_sparse next_id (c # cs) =
     (case dot_conjunction next_id c of (own, next_id') \<Rightarrow> Dot_edge '' -> '' 0 next_id # own @ dot_sparse (next_id' + 1) cs)"

definition Set_dot :: "set_object \<Rightarrow> dot_stmt list" where
  "Set_dot s = Dot_node 0 (''Set'' @ newline_escape @ ''mArity='' @ show_nat (mArity s)) # dot_sparse 1 (mConjunctions s)"

definition Relation_dot :: "relation_object \<Rightarrow> dot_stmt list" where
  "Relation_dot r = Dot_node 0 (''Relation'' @ newline_escape @ ''mInArity='' @ show_nat (rInArity r) @ newline_escape @
     ''mOutArity='' @ show_nat (rOutArity r)) # dot_sparse 1 (rConjunctions r)"

definition digraph :: "dot_stmt list \<Rightarrow> string" where
  "digraph stmts = ''digraph SparseConstraints {'' @ [CHR 0x0A] @ concat (map dot_text stmts) @ ''}'' @ [CHR 0x0A]"

definition Set_toDotString :: "set_object \<Rightarrow> string" where
  "Set_toDotString s = digraph (Set_dot s)"

definition Relation_toDotString :: "relation_object \<Rightarrow> string" where
  "Relation_toDotString r = digraph (Relation_dot r)"

section \<open>The graph is a tree\<close>

fun dot_nodes :: "dot_stmt list \<Rightarrow> int list" where
  "dot_nodes [] = []"
| "dot_nodes (Dot_node i label # r) = i # dot_nodes r"
| "dot_nodes (Dot_edge arrow i j # r) = dot_nodes r"

fun dot_edges :: "dot_stmt list \<Rightarrow> (int \<times> int) list" where
  "dot_edges [] = []"
| "dot_edges (Dot_node i label # r) = dot_edges r"
| "dot_edges (Dot_edge arrow i j # r) = (i, j) # dot_edges r"

lemma dot_nodes_append [simp]: "dot_nodes (r @ r') = dot_nodes r @ dot_nodes r'"
  by (induction r rule: dot_nodes.induct) simp_all

lemma dot_edges_append [simp]: "dot_edges (r @ r') = dot_edges r @ dot_edges r'"
  by (induction r rule: dot_edges.induct) simp_all

text \<open>Statements that number the nodes from \<open>n\<close> to \<open>m\<close>, each below an earlier one of them or below \<open>up\<close>.\<close>

definition hangs_below :: "int \<Rightarrow> int \<Rightarrow> dot_stmt list \<times> int \<Rightarrow> bool" where
  "hangs_below up n p \<longleftrightarrow> (case p of (r, m) \<Rightarrow> n \<le> m \<and> dot_nodes r = [n..m - 1] \<and> map snd (dot_edges r) = [n..m - 1] \<and>
     (\<forall>(a, b) \<in> set (dot_edges r). (a = up \<or> n \<le> a) \<and> a < b))"

definition grows_from :: "int \<Rightarrow> dot_stmt list \<times> int \<Rightarrow> bool" where
  "grows_from n p \<longleftrightarrow> (case p of (r, m) \<Rightarrow> n < m \<and> dot_nodes r = [n..m - 1] \<and> map snd (dot_edges r) = [n + 1..m - 1] \<and>
     (\<forall>(a, b) \<in> set (dot_edges r). n \<le> a \<and> a < b))"

lemma upto_join: "n \<le> k \<Longrightarrow> k \<le> m \<Longrightarrow> [n..k - 1] @ [k..m - 1] = [n..m - (1::int)]"
  using upto_split2[of n "k - 1" "m - 1"] by (cases "n = k") auto

lemma hangs_below_append:
  assumes "hangs_below up n (r, k)" "hangs_below up k (r', m)"
  shows "hangs_below up n (r @ r', m)"
  using assms upto_join[of n k m] by (fastforce simp: hangs_below_def)

lemma hangs_below_node:
  assumes "grows_from n (r, m)" "up < n"
  shows "hangs_below up n (Dot_edge arrow up n # r, m)"
  using assms upto_rec1[of n "m - 1"] by (auto simp: hangs_below_def grows_from_def)

lemma grows_from_node:
  assumes "hangs_below n (n + 1) (r, m)"
  shows "grows_from n (Dot_node n label # r, m)"
  using assms upto_rec1[of n "m - 1"] by (fastforce simp: hangs_below_def grows_from_def)

lemma hangs_below_nothing [simp]: "hangs_below up n ([], n)"
  by (simp add: hangs_below_def)

lemma dot_exp_tree:
  "grows_from n (dot_exp n e)"
  "self < k \<Longrightarrow> hangs_below self k (dot_terms self k ts)"
  "self < k \<Longrightarrow> hangs_below self k (dot_children self k es)"
proof (induction n e and self k ts and self k es rule: dot_exp_dot_terms_dot_children.induct)
  case (1 n ts et)
  then show ?case by (auto intro: grows_from_node split: prod.splits)
next
  case (3 self k t ts)
  obtain below m where b: "(case t of UFCallTerm c f args i \<Rightarrow> dot_children k (k + 1) args | _ \<Rightarrow> ([], k + 1)) = (below, m)"
    by force
  have below: "hangs_below k (k + 1) (below, m)"
    using 3(1) b by (cases t) auto
  then have "k < m" by (simp add: hangs_below_def)
  obtain others j where o: "dot_terms self m ts = (others, j)" by force
  have "hangs_below self m (others, j)" using 3(2)[OF b[symmetric]] 3(3) o \<open>k < m\<close> by simp
  with hangs_below_node[OF grows_from_node[OF below] 3(3)] show ?case
    using b o hangs_below_append by fastforce
next
  case (5 parent k e es)
  obtain own m where own: "dot_exp k e = (own, m)" by force
  with 5(1) have grows: "grows_from k (own, m)" by simp
  then have "k < m" by (simp add: grows_from_def)
  obtain others j where o: "dot_children parent m es = (others, j)" by force
  have "hangs_below parent m (others, j)" using 5(2)[OF own[symmetric]] 5(3) o \<open>k < m\<close> by simp
  with hangs_below_node[OF grows 5(3)] show ?case
    using own o hangs_below_append by fastforce
qed simp_all


lemma dot_group_tree: "self < k \<Longrightarrow> hangs_below self k (dot_group self k label es)"
proof (cases "es = []")
  case False
  assume "self < k"
  obtain below m where b: "dot_children k (k + 1) es = (below, m)" by force
  have "hangs_below k (k + 1) (below, m)" using dot_exp_tree(3)[of k "k + 1" es] b by simp
  from hangs_below_node[OF grows_from_node[OF this] \<open>self < k\<close>] show ?thesis using b False by (simp add: dot_group_def)
qed (simp add: dot_group_def)

lemma dot_conjunction_tree: "grows_from n (dot_conjunction n c)"
proof -
  let ?eq = "dot_group n (n + 1) (''Equalities'' @ newline_escape @ ''... = 0'') (mEqualities c)"
  obtain eqs k where e: "?eq = (eqs, k)" by force
  have eqs: "hangs_below n (n + 1) (eqs, k)" using dot_group_tree[of n "n + 1"] by (simp flip: e)
  then have "n < k" by (simp add: hangs_below_def)
  let ?ineq = "dot_group n k (''Inequalities'' @ newline_escape @ ''... >= 0'') (mInequalities c)"
  obtain ineqs m where i: "?ineq = (ineqs, m)" by force
  have "hangs_below n k (ineqs, m)" using dot_group_tree[of n k] \<open>n < k\<close> by (simp flip: i)
  from grows_from_node[OF hangs_below_append[OF eqs this]] show ?thesis
    unfolding dot_conjunction_def e prod.case i .
qed

lemma dot_sparse_tree:
  "0 < n \<Longrightarrow> map snd (dot_edges (dot_sparse n cs)) = dot_nodes (dot_sparse n cs) \<and> sorted_wrt (<) (dot_nodes (dot_sparse n cs)) \<and>
    (\<forall>i \<in> set (dot_nodes (dot_sparse n cs)). n \<le> i) \<and>
    (\<forall>(a, b) \<in> set (dot_edges (dot_sparse n cs)). (a = 0 \<or> a \<in> set (dot_nodes (dot_sparse n cs))) \<and> a < b)"
proof (induction cs arbitrary: n)
  case (Cons c cs)
  obtain own m where own: "dot_conjunction n c = (own, m)" by force
  have g: "n < m" "dot_nodes own = [n..m - 1]" "map snd (dot_edges own) = [n + 1..m - 1]"
    "\<And>a b. (a, b) \<in> set (dot_edges own) \<Longrightarrow> n \<le> a \<and> a < b"
    using dot_conjunction_tree[of n c] own by (auto simp: grows_from_def)
  have src: "a \<in> set (dot_nodes own)" if "(a, b) \<in> set (dot_edges own)" for a b
  proof -
    have "b \<in> set (map snd (dot_edges own))" using that by force
    then show ?thesis using g(4)[OF that] unfolding g(2,3) by simp
  qed
  have IH: "map snd (dot_edges (dot_sparse (m + 1) cs)) = dot_nodes (dot_sparse (m + 1) cs)" "sorted_wrt (<) (dot_nodes (dot_sparse (m + 1) cs))"
    "\<And>i. i \<in> set (dot_nodes (dot_sparse (m + 1) cs)) \<Longrightarrow> m + 1 \<le> i"
    "\<And>a b. (a, b) \<in> set (dot_edges (dot_sparse (m + 1) cs)) \<Longrightarrow> (a = 0 \<or> a \<in> set (dot_nodes (dot_sparse (m + 1) cs))) \<and> a < b"
    using Cons.IH[of "m + 1"] Cons.prems g(1) by fastforce+
  let ?rest = "dot_sparse (m + 1) cs"
  have eq: "dot_sparse n (c # cs) = Dot_edge '' -> '' 0 n # own @ ?rest" using own by simp
  have "\<forall>(a, b) \<in> set (dot_edges own). (a = 0 \<or> a \<in> set (dot_nodes own) \<union> set (dot_nodes ?rest)) \<and> a < b"
    using g(4) src by blast
  moreover have "\<forall>(a, b) \<in> set (dot_edges ?rest). (a = 0 \<or> a \<in> set (dot_nodes own) \<union> set (dot_nodes ?rest)) \<and> a < b"
    using IH(4) by blast
  moreover have "[n..m - 1] = n # [n + 1..m - 1]" using g(1) by (simp add: upto_rec1)
  moreover have "sorted_wrt (<) (dot_nodes own @ dot_nodes ?rest)"
    unfolding sorted_wrt_append g(2) using IH(2,3) by fastforce
  moreover have "\<forall>i \<in> set (dot_nodes own) \<union> set (dot_nodes ?rest). n \<le> i" using IH(3) g(1,2) by fastforce
  ultimately show ?case using g(2,3) IH(1) Cons.prems unfolding eq by auto
qed simp

text \<open>Whatever hangs below an earlier node is reached from the root.\<close>

lemma rooted_reachable:
  assumes "\<forall>b \<in> N. \<exists>a. (a, b) \<in> E \<and> (a = root \<or> a \<in> N) \<and> a < (b :: int)" "\<forall>b \<in> N. root < b"
  shows "b \<in> N \<Longrightarrow> (root, b) \<in> E\<^sup>*"
proof (induction "nat (b - root)" arbitrary: b rule: less_induct)
  case less
  obtain a where a: "(a, b) \<in> E" "a = root \<or> a \<in> N" "a < b" using assms(1) less.prems by blast
  have "(root, a) \<in> E\<^sup>*"
  proof (cases "a = root")
    case False
    then have "a \<in> N" "root < a" using a(2) assms(2) by auto
    then show ?thesis using less.hyps[of a] a(3) by simp
  qed simp
  then show ?case using a(1) by (rule rtrancl_into_rtrancl)
qed

definition dot_tree :: "dot_stmt list \<Rightarrow> bool" where
  "dot_tree r \<longleftrightarrow> distinct (dot_nodes r) \<and> map snd (dot_edges r) = tl (dot_nodes r) \<and> set (dot_nodes r) = (set (dot_edges r))\<^sup>* `` {hd (dot_nodes r)}"

lemma dot_tree_sparse: "dot_tree (Dot_node 0 label # dot_sparse 1 cs)"
proof -
  let ?r = "dot_sparse 1 cs"
  let ?N = "set (dot_nodes ?r)" and ?E = "set (dot_edges ?r)"
  have r: "map snd (dot_edges ?r) = dot_nodes ?r" "sorted_wrt (<) (dot_nodes ?r)" "\<forall>i \<in> ?N. 0 < i"
    "\<forall>(a, b) \<in> ?E. (a = 0 \<or> a \<in> ?N) \<and> a < b"
    using dot_sparse_tree[of 1 cs] by fastforce+
  have pred: "\<forall>b \<in> ?N. \<exists>a. (a, b) \<in> ?E \<and> (a = 0 \<or> a \<in> ?N) \<and> a < b"
  proof
    fix b assume "b \<in> ?N"
    then have "b \<in> snd ` ?E" by (simp flip: r(1))
    then show "\<exists>a. (a, b) \<in> ?E \<and> (a = 0 \<or> a \<in> ?N) \<and> a < b" using r(4) by fastforce
  qed
  have sn: "snd ` ?E = ?N" using arg_cong[OF r(1), of set] by simp
  have "b \<in> insert 0 ?N" if "(0, b) \<in> ?E\<^sup>*" for b
    by (rule rtranclE[OF that]) (use sn in force)+
  moreover have "(0, b) \<in> ?E\<^sup>*" if "b \<in> ?N" for b using rooted_reachable[OF pred r(3) that] .
  ultimately have "insert 0 ?N = ?E\<^sup>* `` {0}" by auto
  moreover have "distinct (dot_nodes ?r)" using r(2) by (simp add: strict_sorted_iff)
  ultimately show ?thesis using r(1,3) by (auto simp: dot_tree_def)
qed

text \<open>C19: What \<open>toDotString\<close> prints for a set or a relation is a tree: no number is given to two nodes, every node but
  the first has exactly one edge to it, and all are reached from the first.\<close>

theorem toDotString_tree: "dot_tree (Set_dot s) \<and> dot_tree (Relation_dot r)"
  unfolding Set_dot_def Relation_dot_def using dot_tree_sparse by blast


text \<open>The expression of the first test, whose text is in \<open>testExpToDotStringTest1.in.dot\<close>.\<close>

lemma dot_exp_first_test:
  "fst (dot_exp 0 (Exp [TupleVarTerm 16 3, VarTerm 10 ''M'', VarTerm (-2) ''N'',
      UFCallTerm 3 ''foo'' [Exp [VarTerm 5 ''N''] Expression, Exp [UFCallTerm 7 ''g'' [Exp [TupleVarTerm 3 0] Expression] (-1)] Expression] (-1),
      Term 8] Expression)) =
   (let arrow = Dot_edge '' -> ''; nl = newline_escape in
    [Dot_node 0 (''Exp'' @ nl @ ''... + ...''),
     arrow 0 1, Dot_node 1 (''TupleVarTerm'' @ nl @ '' 16 __tv3''),
     arrow 0 2, Dot_node 2 (''VarTerm'' @ nl @ '' 10 M''),
     arrow 0 3, Dot_node 3 (''VarTerm'' @ nl @ '' -2 N''),
     arrow 0 4, Dot_node 4 (''UFCallTerm'' @ nl @ '' 3 foo(...)''),
     arrow 4 5, Dot_node 5 (''Exp'' @ nl), arrow 5 6, Dot_node 6 (''VarTerm'' @ nl @ '' 5 N''),
     arrow 4 7, Dot_node 7 (''Exp'' @ nl), arrow 7 8, Dot_node 8 (''UFCallTerm'' @ nl @ '' 7 g(...)''),
     arrow 8 9, Dot_node 9 (''Exp'' @ nl), arrow 9 10, Dot_node 10 (''TupleVarTerm'' @ nl @ '' 3 __tv0''),
     arrow 0 11, Dot_node 11 (''Term'' @ nl @ '' 8'')])"
  by code_simp

end
