(* ===== verification/Argument_Slots.thy ===== *)
theory Argument_Slots
  imports Sets C_Arrays
begin

text \<open>
  Terms with slots for expressions that are null until they are set (\<open>expression.cc\<close>): a \<open>UFCallTerm\<close> from its
  construction to the last call of \<open>setParamExp\<close>, and the class \<open>TupleExpTerm\<close>. When all slots of a call are set it is
  the call of the type \<open>trm\<close>.
\<close>

section \<open>The contract of slots\<close>

text \<open>A slot is set once and keeps its expression; nothing else changes.\<close>

locale slots =
  fixes put :: "'s \<Rightarrow> nat \<Rightarrow> exp \<Rightarrow> 's result"
    and slots_of :: "'s \<Rightarrow> exp option list"
    and others :: "'s \<Rightarrow> 'r"
  assumes put_free: "i < length (slots_of s) \<Longrightarrow> slots_of s ! i = None \<Longrightarrow>
      \<exists>s'. put s i e = Inr s' \<and> slots_of s' = (slots_of s)[i := Some e] \<and> others s' = others s"
    and put_refused: "length (slots_of s) \<le> i \<or> slots_of s ! i \<noteq> None \<Longrightarrow> \<exists>m. put s i e = Inl (Assert_exception m)"
begin

text \<open>The order in which free slots are set does not matter.\<close>

lemma fill:
  assumes "distinct order" "\<forall>i \<in> set order. i < length (slots_of s) \<and> slots_of s ! i = None"
  shows "\<exists>s'. fold_result (\<lambda>s i. put s i (es i)) s order = Inr s' \<and> others s' = others s \<and>
    slots_of s' = map (\<lambda>i. if i \<in> set order then Some (es i) else slots_of s ! i) [0..<length (slots_of s)]"
  using assms
proof (induction order arbitrary: s)
  case Nil
  then show ?case by (simp add: map_nth)
next
  case (Cons i order)
  obtain t where t: "put s i (es i) = Inr t" "slots_of t = (slots_of s)[i := Some (es i)]" "others t = others s"
    using put_free[of i s "es i"] Cons.prems(2) by auto
  have "\<forall>j \<in> set order. j < length (slots_of t) \<and> slots_of t ! j = None"
    using Cons.prems t(2) by (auto simp: nth_list_update)
  from Cons.IH[OF _ this] Cons.prems(1) obtain u where u: "fold_result (\<lambda>s i. put s i (es i)) t order = Inr u" "others u = others t"
    "slots_of u = map (\<lambda>j. if j \<in> set order then Some (es j) else slots_of t ! j) [0..<length (slots_of t)]"
    by auto
  have "slots_of u = map (\<lambda>j. if j \<in> set (i # order) then Some (es j) else slots_of s ! j) [0..<length (slots_of s)]"
    unfolding u(3) t(2) using Cons.prems by (auto simp: nth_list_update)
  then show ?case using t u by simp
qed

text \<open>A second expression for the same slot is refused.\<close>

lemma fill_twice:
  assumes "distinct order" "\<forall>i \<in> set order. i < length (slots_of s) \<and> slots_of s ! i = None" "j \<in> set order"
  shows "\<exists>m. fold_result (\<lambda>s i. put s i (es i)) s (order @ j # rest) = Inl (Assert_exception m)"
proof -
  obtain t where t: "fold_result (\<lambda>s i. put s i (es i)) s order = Inr t"
    "slots_of t = map (\<lambda>i. if i \<in> set order then Some (es i) else slots_of s ! i) [0..<length (slots_of s)]"
    using fill[OF assms(1,2)] by blast
  then have "slots_of t ! j \<noteq> None" using assms(2,3) by simp
  then obtain m where "put t j (es j) = Inl (Assert_exception m)" using put_refused by blast
  then show ?thesis using t(1) by (simp add: fold_result_append)
qed

end

section \<open>Calls under construction\<close>

record ufcall =
  uc_coeff :: int
  uc_name :: string
  uc_args :: "exp option list"
  uc_index :: int

definition UFCallTerm_new :: "int \<Rightarrow> string \<Rightarrow> nat \<Rightarrow> int \<Rightarrow> ufcall" where
  "UFCallTerm_new coeff funcName num_args tuple_index =
     \<lparr>uc_coeff = coeff, uc_name = funcName, uc_args = replicate num_args None, uc_index = tuple_index\<rparr>"

definition setParamExp :: "ufcall \<Rightarrow> nat \<Rightarrow> exp \<Rightarrow> ufcall result" where
  "setParamExp u i param_exp =
     (if length (uc_args u) \<le> i then Inl (Assert_exception ''UFCallTerm::setParamExp: i is out of bounds'')
      else if uc_args u ! i \<noteq> None then Inl (Assert_exception ''UFCallTerm::setParamExp: param exp being set twice'')
      else Inr (u\<lparr>uc_args := (uc_args u)[i := Some param_exp]\<rparr>))"

definition slot_getParamExp :: "ufcall \<Rightarrow> nat \<Rightarrow> exp result" where
  "slot_getParamExp u i =
     (if length (uc_args u) \<le> i then Inl (Assert_exception ''UFCallTerm::setParamExp: i is out of bounds'')
      else case uc_args u ! i of
        None \<Rightarrow> Inl (Assert_exception ''UFCallTerm::setParamExp: requested parameter hasn't been set'')
      | Some e \<Rightarrow> Inr e)"

text \<open>\<open>operator=\<close> does not copy the coefficient; the copy constructor has the one of \<open>Term\<close> do it.\<close>

definition UFCallTerm_assign :: "ufcall \<Rightarrow> ufcall \<Rightarrow> ufcall result" where
  "UFCallTerm_assign u other =
     (if list_all (\<lambda>a. a \<noteq> None) (uc_args other)
      then Inr (u\<lparr>uc_name := uc_name other, uc_args := uc_args other, uc_index := uc_index other\<rparr>)
      else Inl (Assert_exception ''UFCallTerm::operator=: other missing a parameter expression''))"

definition UFCallTerm_copy :: "ufcall \<Rightarrow> ufcall result" where
  "UFCallTerm_copy other = UFCallTerm_assign \<lparr>uc_coeff = uc_coeff other, uc_name = '''', uc_args = [], uc_index = 0\<rparr> other"

definition nonIndexedClone :: "ufcall \<Rightarrow> ufcall result" where
  "nonIndexedClone u = bind_result (UFCallTerm_copy u) (\<lambda>r. Inr (r\<lparr>uc_index := -1\<rparr>))"

text \<open>\<open>mTupleIndex\<close> is an \<open>int\<close>, the argument an \<open>unsigned int\<close>.\<close>

definition setTupleIndex :: "ufcall \<Rightarrow> nat \<Rightarrow> ufcall" where
  "setTupleIndex u idx = u\<lparr>uc_index := (if 2 ^ 31 \<le> idx then int idx - 2 ^ 32 else int idx)\<rparr>"

definition slot_text :: "exp option \<Rightarrow> string" where
  "slot_text a = (case a of None \<Rightarrow> '''' | Some e \<Rightarrow> toString_exp e)"

definition slot_toString :: "ufcall \<Rightarrow> bool \<Rightarrow> string" where
  "slot_toString u absValue = UFCallTerm_toString (uc_coeff u) (uc_name u) (map slot_text (uc_args u)) (uc_index u) absValue"

text \<open>The call that a \<open>UFCallTerm\<close> without null pointers is.\<close>

definition completed :: "ufcall \<Rightarrow> trm option" where
  "completed u = (if list_all (\<lambda>a. a \<noteq> None) (uc_args u)
     then Some (UFCallTerm (uc_coeff u) (uc_name u) (map the (uc_args u)) (uc_index u)) else None)"

interpretation call_slots: slots setParamExp uc_args "\<lambda>u. (uc_coeff u, uc_name u, uc_index u)"
  by unfold_locales (auto simp: setParamExp_def)

lemma UFCallTerm_new_sel [simp]: "uc_args (UFCallTerm_new c f n i) = replicate n None" "uc_coeff (UFCallTerm_new c f n i) = c"
  "uc_name (UFCallTerm_new c f n i) = f" "uc_index (UFCallTerm_new c f n i) = i"
  by (simp_all add: UFCallTerm_new_def)

lemma completed_toString: "completed u = Some t \<Longrightarrow> slot_toString u b = toString_trm t b"
proof -
  assume "completed u = Some t"
  then have t: "t = UFCallTerm (uc_coeff u) (uc_name u) (map the (uc_args u)) (uc_index u)" and all: "list_all (\<lambda>a. a \<noteq> None) (uc_args u)"
    by (auto simp: completed_def split: if_splits)
  have "map slot_text (uc_args u) = map (toString_exp \<circ> the) (uc_args u)"
    using all by (intro map_cong) (auto simp: list_all_iff slot_text_def)
  then show ?thesis unfolding t slot_toString_def toString_exp.simps toString_trm.simps by (simp only: map_map)
qed

lemma setParamExp_complete:
  assumes "distinct order" "set order = {..<length es}"
  shows "\<exists>u. fold_result (\<lambda>u i. setParamExp u i (es ! i)) (UFCallTerm_new c f (length es) idx) order = Inr u \<and>
    completed u = Some (UFCallTerm c f es idx) \<and> slot_toString u b = toString_trm (UFCallTerm c f es idx) b"
proof -
  have "\<forall>i \<in> set order. i < length (uc_args (UFCallTerm_new c f (length es) idx)) \<and> uc_args (UFCallTerm_new c f (length es) idx) ! i = None"
    using assms(2) by auto
  from call_slots.fill[OF assms(1) this, of "\<lambda>i. es ! i"] obtain u where
    u: "fold_result (\<lambda>u i. setParamExp u i (es ! i)) (UFCallTerm_new c f (length es) idx) order = Inr u"
    "uc_coeff u = c" "uc_name u = f" "uc_index u = idx"
    "uc_args u = map (\<lambda>i. if i \<in> set order then Some (es ! i) else replicate (length es) None ! i) [0..<length es]"
    by auto
  have "uc_args u = map (Some \<circ> (\<lambda>i. es ! i)) [0..<length es]" unfolding u(5) using assms(2) by (intro map_cong) auto
  then have "uc_args u = map Some es" by (simp add: map_nth flip: map_map)
  then have "completed u = Some (UFCallTerm c f es idx)" by (simp add: completed_def u list_all_iff comp_def)
  then show ?thesis using u(1) completed_toString by blast
qed

section \<open>Tuples of expressions\<close>

text \<open>\<open>mSize\<close> is the length of \<open>mExps\<close>.\<close>

record tuple_exp =
  te_coeff :: int
  te_exps :: "exp option list"

definition TupleExpTerm_new :: "int \<Rightarrow> nat \<Rightarrow> tuple_exp" where
  "TupleExpTerm_new coeff n = \<lparr>te_coeff = coeff, te_exps = replicate n None\<rparr>"

definition setExpElem :: "tuple_exp \<Rightarrow> nat \<Rightarrow> exp \<Rightarrow> tuple_exp result" where
  "setExpElem t i e =
     (if length (te_exps t) \<le> i then Inl (Assert_exception ''Attempt to set expression out of tuple bounds'')
      else if te_exps t ! i \<noteq> None then Inl (Assert_exception ''UFCallTerm::setParamExp: param exp being set twice'')
      else Inr (t\<lparr>te_exps := (te_exps t)[i := Some e]\<rparr>))"

definition getExpElem :: "tuple_exp \<Rightarrow> nat \<Rightarrow> exp option result" where
  "getExpElem t i =
     (if length (te_exps t) \<le> i then Inl (Assert_exception ''Attempt to get expression out of tuple bounds'')
      else Inr (te_exps t ! i))"

definition TupleExpTerm_cloneExp :: "tuple_exp \<Rightarrow> nat \<Rightarrow> exp result" where
  "TupleExpTerm_cloneExp t i =
     (if length (te_exps t) \<le> i then Inl (Assert_exception ''Attempt to get expression out of tuple bounds'')
      else case te_exps t ! i of None \<Rightarrow> Inl (Assert_exception ''TupleExpTerm::cloneExp: NULL exp'') | Some e \<Rightarrow> Inr e)"

text \<open>The copy of an unset element is a call through a null pointer.\<close>

definition TupleExpTerm_assign :: "tuple_exp \<Rightarrow> tuple_exp \<Rightarrow> tuple_exp result" where
  "TupleExpTerm_assign t other =
     (if list_all (\<lambda>a. a \<noteq> None) (te_exps other) then Inr (t\<lparr>te_exps := te_exps other\<rparr>) else Inl (Undefined ''null pointer''))"

definition TupleExpTerm_factorMatches :: "tuple_exp \<Rightarrow> trm + tuple_exp \<Rightarrow> bool" where
  "TupleExpTerm_factorMatches t other =
     (case other of Inl u \<Rightarrow> False | Inr u \<Rightarrow> if length (te_exps t) \<noteq> length (te_exps u) then False else True)"

text \<open>The elements are multiplied by the coefficients and added; the coefficient stays.\<close>

definition TupleExpTerm_combine :: "tuple_exp \<Rightarrow> trm + tuple_exp \<Rightarrow> (bool \<times> tuple_exp) result" where
  "TupleExpTerm_combine t other =
     (if \<not> TupleExpTerm_factorMatches t other then Inr (False, t) else
      case other of
        Inl u \<Rightarrow> Inl (Assert_exception ''TupleExpTerm::combine: something wrong with other tuple expression term'')
      | Inr u \<Rightarrow>
          bind_result (map_result (\<lambda>(a, b). case (a, b) of
              (Some e, Some e') \<Rightarrow> Inr (Some (addExp (multiplyBy e (te_coeff t)) (multiplyBy e' (te_coeff u))))
            | _ \<Rightarrow> Inl (Assert_exception ''TupleExpTerm::combine: NULL expression''))
            (zip (te_exps t) (te_exps u)))
          (\<lambda>es. Inr (True, t\<lparr>te_exps := es\<rparr>)))"

text \<open>\<open>operator<\<close> on two tuples: the loop compares the pointers. The addresses of the elements are parameters.\<close>

fun addresses_less :: "int list \<Rightarrow> int list \<Rightarrow> bool" where
  "addresses_less (a # as) (b # bs) = (if a < b then True else if b < a then False else addresses_less as bs)"
| "addresses_less _ _ = False"

definition TupleExpTerm_less :: "int list \<Rightarrow> int list \<Rightarrow> tuple_exp \<Rightarrow> tuple_exp \<Rightarrow> bool" where
  "TupleExpTerm_less addresses addresses' t u =
     (if length (te_exps t) < length (te_exps u) then True
      else if length (te_exps u) < length (te_exps t) then False
      else addresses_less addresses addresses')"

definition TupleExpTerm_toString :: "tuple_exp \<Rightarrow> string" where
  "TupleExpTerm_toString t = ''( '' @ argsToStream (map slot_text (te_exps t)) @ '' )''"

interpretation tuple_slots: slots setExpElem te_exps te_coeff
  by unfold_locales (auto simp: setExpElem_def)

section \<open>What combining means\<close>

definition tuple_value :: "interp \<Rightarrow> tuple_exp \<Rightarrow> int list" where
  "tuple_value I t = map (\<lambda>a. te_coeff t * eval_exp I (the a)) (te_exps t)"

definition wf_tuple :: "tuple_exp \<Rightarrow> bool" where
  "wf_tuple t \<longleftrightarrow> list_all (\<lambda>a. case a of None \<Rightarrow> False | Some e \<Rightarrow> wf_exp e) (te_exps t)"

lemma combine_elements:
  assumes "length as = length bs" "list_all (\<lambda>a. case a of None \<Rightarrow> False | Some e \<Rightarrow> wf_exp e) as"
    "list_all (\<lambda>a. case a of None \<Rightarrow> False | Some e \<Rightarrow> wf_exp e) bs"
  shows "\<exists>es. map_result (\<lambda>(a, b). case (a, b) of
      (Some e, Some e') \<Rightarrow> Inr (Some (addExp (multiplyBy e c) (multiplyBy e' d)))
    | _ \<Rightarrow> Inl (Assert_exception ''TupleExpTerm::combine: NULL expression'')) (zip as bs) = Inr es \<and>
    map (\<lambda>a. eval_exp I (the a)) es = map2 (\<lambda>a b. c * eval_exp I (the a) + d * eval_exp I (the b)) as bs \<and>
    list_all (\<lambda>a. case a of None \<Rightarrow> False | Some e \<Rightarrow> wf_exp e) es"
  using assms
proof (induction as bs rule: list_induct2)
  case (Cons a as b bs)
  then obtain e e' where "a = Some e" "b = Some e'" "wf_exp e" "wf_exp e'" by (auto split: option.splits)
  with Cons show ?case by (auto simp: eval_addExp wf_addExp)
qed simp

text \<open>The value of the result is the sum when the coefficient of the term that is combined into is 1.\<close>

lemma TupleExpTerm_combine_value:
  assumes "wf_tuple t" "wf_tuple u" "length (te_exps t) = length (te_exps u)"
  shows "\<exists>r. TupleExpTerm_combine t (Inr u) = Inr (True, r) \<and> wf_tuple r \<and>
    tuple_value I r = map2 (\<lambda>v w. te_coeff t * (v + w)) (tuple_value I t) (tuple_value I u)"
proof -
  obtain es where es: "map_result (\<lambda>(a, b). case (a, b) of
      (Some e, Some e') \<Rightarrow> Inr (Some (addExp (multiplyBy e (te_coeff t)) (multiplyBy e' (te_coeff u))))
    | _ \<Rightarrow> Inl (Assert_exception ''TupleExpTerm::combine: NULL expression'')) (zip (te_exps t) (te_exps u)) = Inr es"
    "map (\<lambda>a. eval_exp I (the a)) es = map2 (\<lambda>a b. te_coeff t * eval_exp I (the a) + te_coeff u * eval_exp I (the b)) (te_exps t) (te_exps u)"
    "list_all (\<lambda>a. case a of None \<Rightarrow> False | Some e \<Rightarrow> wf_exp e) es"
    using combine_elements[OF assms(3)] assms(1,2) unfolding wf_tuple_def by blast
  have "map (\<lambda>a. te_coeff t * eval_exp I (the a)) es = map (\<lambda>v. te_coeff t * v) (map (\<lambda>a. eval_exp I (the a)) es)" by simp
  also have "\<dots> = map2 (\<lambda>v w. te_coeff t * (v + w)) (tuple_value I t) (tuple_value I u)"
    unfolding es(2) by (simp add: tuple_value_def zip_map_map case_prod_beta)
  finally show ?thesis
    using es(1,3) assms(3)
    by (intro exI[of _ "t\<lparr>te_exps := es\<rparr>"]) (simp add: TupleExpTerm_combine_def TupleExpTerm_factorMatches_def wf_tuple_def tuple_value_def)
qed

text \<open>With another coefficient it is not: \<open>2 (N) + 2 (N)\<close> becomes \<open>2 (4 N)\<close>.\<close>

lemma TupleExpTerm_combine_coefficient:
  "TupleExpTerm_combine \<lparr>te_coeff = 2, te_exps = [Some (Exp [VarTerm 1 ''N''] Expression)]\<rparr>
      (Inr \<lparr>te_coeff = 2, te_exps = [Some (Exp [VarTerm 1 ''N''] Expression)]\<rparr>) =
    Inr (True, \<lparr>te_coeff = 2, te_exps = [Some (Exp [VarTerm 4 ''N''] Expression)]\<rparr>)"
  by code_simp

text \<open>Of two equal tuples one is less than the other, by where they are.\<close>

lemma TupleExpTerm_less_addresses:
  "TupleExpTerm_less [8] [16] \<lparr>te_coeff = 1, te_exps = [Some empty_exp]\<rparr> \<lparr>te_coeff = 1, te_exps = [Some empty_exp]\<rparr>"
  by code_simp

lemma UFCallTerm_assign_coefficient:
  "UFCallTerm_assign (UFCallTerm_new 5 ''f'' 0 (-1)) (UFCallTerm_new 3 ''g'' 0 (-1)) = Inr (UFCallTerm_new 5 ''g'' 0 (-1))"
  by code_simp

end
