(* ===== verification/Loop_Fusion.thy ===== *)
theory Loop_Fusion
  imports Loop_Dependences
begin

text \<open>
  The fusion of loops in CHiLL (\<open>typed_fusion\<close>, \<open>update_successors\<close> and \<open>construct_induced_graph_at_level\<close> of
  \<open>chill/loop.cc\<close>). A vertex of the graph is the set of statements of one loop, an increasing list; the label of an edge
  is false when the two loops cannot be fused. Arrays have the lengths they are declared with, and every access is checked.
\<close>

section \<open>The graph of the loops\<close>

type_synonym loop_graph = "(int list, bool) graph"

text \<open>Whether a dependence orders the loops, and whether it keeps them from being fused.\<close>

definition orders_loops :: "int \<Rightarrow> dep_vector \<Rightarrow> bool result" where
  "orders_loops dep_dim d =
     (if is_control_dependence d then Inr True else if is_data_dependence d then has_been_carried_at d dep_dim else Inr False)"

definition prevents_fusion :: "int \<Rightarrow> dep_vector \<Rightarrow> bool result" where
  "prevents_fusion dep_dim d = (if is_data_dependence d then has_negative_been_carried_at d dep_dim else Inr False)"

text \<open>The loop over the dependences from one statement to another: \<open>has_true_edge\<close> and \<open>is_connected\<close> of their direction.\<close>

fun scan_dependences :: "int \<Rightarrow> bool \<Rightarrow> dep_vector list \<Rightarrow> bool \<times> bool \<Rightarrow> (bool \<times> bool) result" where
  "scan_dependences dep_dim opposite [] (has_true, connected) = Inr (has_true, connected)"
| "scan_dependences dep_dim opposite (d # dvs) (has_true, connected) =
     bind_result (orders_loops dep_dim d) (\<lambda>ordered.
     if \<not> ordered then scan_dependences dep_dim opposite dvs (has_true, connected)
     else if opposite then Inl (Loop_error ''Graph input for fusion has cycles not a DAG!!'')
     else bind_result (prevents_fusion dep_dim d) (\<lambda>bad.
       if bad then Inr (has_true, True) else scan_dependences dep_dim opposite dvs (True, connected)))"

definition scan_pair :: "int \<Rightarrow> dep_graph \<Rightarrow> (bool \<times> bool) \<times> (bool \<times> bool) \<Rightarrow> int \<times> int \<Rightarrow> ((bool \<times> bool) \<times> (bool \<times> bool)) result" where
  "scan_pair dep_dim dep = (\<lambda>(ij, ji) (ii, jj).
     bind_result (getEdge dep ii jj) (\<lambda>dvs. bind_result (scan_dependences dep_dim False dvs ij) (\<lambda>ij.
     bind_result (getEdge dep jj ii) (\<lambda>dvs. bind_result (scan_dependences dep_dim (snd ij \<or> fst ij) dvs ji) (\<lambda>ji. Inr (ij, ji))))))"

definition connect_loops :: "loop_graph \<Rightarrow> int \<Rightarrow> int \<Rightarrow> bool \<times> bool \<Rightarrow> loop_graph result" where
  "connect_loops g i j = (\<lambda>(has_true, connected).
     if connected then connect g i j False else if has_true then connect g i j True else Inr g)"

definition construct_induced_graph_at_level :: "int list list \<Rightarrow> dep_graph \<Rightarrow> int \<Rightarrow> loop_graph result" where
  "construct_induced_graph_at_level s dep dep_dim =
     for_loop 0 (alen s) (\<lambda>g i. for_loop (i + 1) (alen s) (\<lambda>g j.
       bind_result (fold_result (scan_pair dep_dim dep) ((False, False), (False, False)) (List.product (elt s i) (elt s j))) (\<lambda>(ij, ji).
       bind_result (connect_loops g i j ij) (\<lambda>g. connect_loops g j i ji))) g)
     (foldl (\<lambda>g v. fst (graph_insert (=) g v)) (Graph True) s)"

section \<open>Typed fusion\<close>

text \<open>\<open>work_list\<close> and \<open>type_list\<close> are one list of pairs.\<close>

record fusion =
  f_graph :: loop_graph
  f_work :: "(int \<times> bool) list"
  cant_fuse_with :: "int list"
  node_to_fused_nodes :: "int list"
  node_num :: "int list"
  f_next :: "int list"
  f_fused :: int
  lastfused :: int
  lastnum :: int
  f_sets :: "int list list"

definition mark_successor :: "bool list \<Rightarrow> int \<Rightarrow> fusion \<Rightarrow> int \<Rightarrow> fusion result" where
  "mark_successor types n st m =
     bind_result (rd (node_num st) m) (\<lambda>k.
     if k \<noteq> -1 then Inl (Loop_error ''Graph input for fusion has cycles not a DAG!!'') else
     bind_result (getEdge (f_graph st) n m) (\<lambda>check.
     bind_result (rd types m) (\<lambda>t. bind_result (rd (cant_fuse_with st) m) (\<lambda>c.
     bind_result (if t \<and> \<not> list_all id check then rd (node_num st) n else rd (cant_fuse_with st) n) (\<lambda>k.
     bind_result (wr (cant_fuse_with st) m (max c k)) (\<lambda>cant. Inr (st\<lparr>cant_fuse_with := cant\<rparr>)))))))"

definition no_incoming_edges :: "loop_graph \<Rightarrow> int \<Rightarrow> bool result" where
  "no_incoming_edges g i = bind_result (map_result (\<lambda>j. hasEdge g j i) (filter (\<lambda>j. j \<noteq> i) [0..vertexCount g - 1])) (\<lambda>hs.
     Inr (list_all Not hs))"

definition release_successor :: "bool list \<Rightarrow> int \<Rightarrow> fusion \<Rightarrow> int \<Rightarrow> fusion result" where
  "release_successor types n st m =
     bind_result (disconnect (f_graph st) n m) (\<lambda>g.
     bind_result (no_incoming_edges g m) (\<lambda>free.
     if free then bind_result (rd types m) (\<lambda>t. Inr (st\<lparr>f_graph := g, f_work := f_work st @ [(m, t)]\<rparr>))
     else Inr (st\<lparr>f_graph := g\<rparr>)))"

definition update_successors :: "bool list \<Rightarrow> int \<Rightarrow> fusion \<Rightarrow> fusion result" where
  "update_successors types n st =
     bind_result (rd (vertex (f_graph st)) n) (\<lambda>_. let ms = successors (f_graph st) n in
     bind_result (fold_result (mark_successor types n) st ms) (\<lambda>st. fold_result (release_successor types n) st ms))"

definition fusion_failure :: "'a result \<Rightarrow> 'a result" where
  "fusion_failure r = (case r of Inl (Loop_error m) \<Rightarrow> Inl (Loop_error ''statements cannot be fused together due to negative dependence'') | _ \<Rightarrow> r)"

definition statements_of :: "loop_graph \<Rightarrow> int \<Rightarrow> int list result" where
  "statements_of g n = bind_result (rd (vertex g) n) (\<lambda>v. Inr (fst v))"

text \<open>A new set with the number \<open>lastnum + 1\<close>; only sets of the type are chained by \<open>next\<close>.\<close>

definition chain_set :: "bool \<Rightarrow> fusion \<Rightarrow> fusion result" where
  "chain_set type st =
     (if \<not> type then Inr st
      else if lastfused st = 0 then Inr (st\<lparr>f_fused := lastnum st, lastfused := lastnum st\<rparr>)
      else bind_result (wr (f_next st) (lastfused st) (lastnum st)) (\<lambda>nx. Inr (st\<lparr>f_next := nx, lastfused := lastnum st\<rparr>)))"

definition new_set :: "bool list \<Rightarrow> int \<Rightarrow> bool \<Rightarrow> fusion \<Rightarrow> fusion result" where
  "new_set types n type st =
     bind_result (statements_of (f_graph st) n) (\<lambda>v. let k = lastnum st + 1 in
     bind_result (wr (node_num st) n k) (\<lambda>num.
     bind_result (wr (node_to_fused_nodes st) k n) (\<lambda>nodes.
     bind_result (chain_set type (st\<lparr>node_to_fused_nodes := nodes, node_num := num, lastnum := k, f_sets := f_sets st @ [v]\<rparr>))
     (\<lambda>st. fusion_failure (update_successors types n st)))))"

definition join_set :: "bool list \<Rightarrow> int \<Rightarrow> int \<Rightarrow> fusion \<Rightarrow> fusion result" where
  "join_set types n p st =
     bind_result (rd (node_to_fused_nodes st) p) (\<lambda>rep_node. bind_result (rd (node_num st) rep_node) (\<lambda>k.
     bind_result (wr (node_num st) n k) (\<lambda>num.
     bind_result (fusion_failure (update_successors types n (st\<lparr>node_num := num\<rparr>))) (\<lambda>st.
     bind_result (statements_of (f_graph st) n) (\<lambda>v. bind_result (rd (f_sets st) (k - 1)) (\<lambda>s.
     bind_result (wr (f_sets st) (k - 1) (foldl (\<lambda>s x. insert_unique (<) x s) s v)) (\<lambda>sets. Inr (st\<lparr>f_sets := sets\<rparr>))))))))"

definition fusion_round :: "bool list \<Rightarrow> int \<times> bool \<Rightarrow> fusion \<Rightarrow> fusion result" where
  "fusion_round types = (\<lambda>(n, type) st.
     if type then
       bind_result (rd (cant_fuse_with st) n) (\<lambda>c. bind_result (if c = 0 then Inr (f_fused st) else rd (f_next st) c) (\<lambda>p.
       if p \<noteq> 0 then join_set types n p st else new_set types n type st))
     else new_set types n type st)"

text \<open>Nothing in the loop says that it ends.\<close>

partial_function (option) fusion_loop :: "bool list \<Rightarrow> fusion \<Rightarrow> int list list result option" where
  "fusion_loop types st = (case f_work st of
     [] \<Rightarrow> Some (Inr (f_sets st))
   | w # work \<Rightarrow> (case fusion_round types w (st\<lparr>f_work := work\<rparr>) of
       Inl e \<Rightarrow> Some (Inl e)
     | Inr st \<Rightarrow> fusion_loop types st))"

definition fusion_roots :: "loop_graph \<Rightarrow> bool list result" where
  "fusion_roots g = for_loop 0 (vertexCount g) (\<lambda>roots i. for_loop (i + 1) (vertexCount g) (\<lambda>roots j.
     bind_result (hasEdge g i j) (\<lambda>e. bind_result (if e then wr roots j False else Inr roots) (\<lambda>roots.
     bind_result (hasEdge g j i) (\<lambda>e. if e then wr roots i False else Inr roots)))) roots) (replicate (nat (vertexCount g)) True)"

definition typed_fusion :: "loop_graph \<Rightarrow> bool list \<Rightarrow> int list list result option" where
  "typed_fusion g types =
     (let n = vertexCount g in
      case bind_result (fusion_roots g) (\<lambda>roots.
           bind_result (map_result (\<lambda>i. bind_result (rd types i) (\<lambda>t. Inr (i, t))) (filter (elt roots) [0..n - 1])) (\<lambda>work.
           bind_result (topoSort g) (\<lambda>s2.
           if work = [] \<or> alen s2 \<noteq> n then Inl (Loop_error ''Input for fusion not a DAG!!'') else
           Inr \<lparr>f_graph = g, f_work = work, cant_fuse_with = replicate (nat n) 0, node_to_fused_nodes = replicate (nat n) 0,
             node_num = replicate (nat n) (-1), f_next = replicate (nat n) 0, f_fused = 0, lastfused = 0, lastnum = 0, f_sets = []\<rparr>))) of
        Inl e \<Rightarrow> Some (Inl e)
      | Inr st \<Rightarrow> fusion_loop types st)"

declare fusion_loop.simps [code]

end
