(* ===== verification/Fusion_Correct.thy ===== *)
theory Fusion_Correct
  imports Loop_Fusion
begin

text \<open>
  One round of typed fusion: numbering a loop, marking its successors and releasing those without other predecessors
  keeps the invariant of the loop (\<open>fusion_inv\<close>) as long as there is room for the number.
\<close>

section \<open>The successors of a vertex\<close>

definition bad_edge :: "('v, bool, 'm) graph_scheme \<Rightarrow> int \<Rightarrow> int \<Rightarrow> bool" where
  "bad_edge g u v \<longleftrightarrow> \<not> list_all id (edges_between g u v)"

definition all_fusible :: "int \<Rightarrow> bool list \<Rightarrow> bool" where
  "all_fusible n types \<longleftrightarrow> alen types = n \<and> list_all id types"

lemma all_fusible_rd: "all_fusible n types \<Longrightarrow> 0 \<le> v \<Longrightarrow> v < n \<Longrightarrow> rd types v = Inr True"
proof -
  assume "all_fusible n types" "0 \<le> v" "v < n"
  then have "rd types v = Inr (elt types v)" "elt types v \<in> set types"
    by (auto simp: all_fusible_def elt_def alen_def nat_less_iff)
  then show ?thesis using \<open>all_fusible n types\<close> by (auto simp: all_fusible_def list_all_iff)
qed

text \<open>What the label of an edge asks of the number of its other end, less one.\<close>

definition edge_weight :: "loop_graph \<Rightarrow> int list \<Rightarrow> int list \<Rightarrow> int \<Rightarrow> int \<Rightarrow> int" where
  "edge_weight g num cant u v = (if bad_edge g u v then elt num u else elt cant u)"

lemma mark_successors:
  assumes types: "all_fusible n types" and w: "in_graph (f_graph st) w" and n: "vertexCount (f_graph st) = n"
    and len: "alen (node_num st) = n" "alen (cant_fuse_with st) = n"
    and ms: "distinct ms" "\<forall>m \<in> set ms. in_graph (f_graph st) m \<and> m \<noteq> w \<and> elt (node_num st) m = -1"
  shows "\<exists>cant. fold_result (mark_successor types w) st ms = Inr (st\<lparr>cant_fuse_with := cant\<rparr>) \<and> alen cant = n \<and>
    (\<forall>v. 0 \<le> v \<and> v < n \<longrightarrow> elt cant v = (if v \<in> set ms
      then max (elt (cant_fuse_with st) v) (edge_weight (f_graph st) (node_num st) (cant_fuse_with st) w v) else elt (cant_fuse_with st) v))"
  using w n len ms
proof (induction ms arbitrary: st)
  case Nil
  then show ?case by (intro exI[of _ "cant_fuse_with st"]) simp
next
  case (Cons m ms)
  let ?g = "f_graph st" and ?c = "cant_fuse_with st"
  have m: "in_graph ?g m" "m \<noteq> w" "elt (node_num st) m = -1" "0 \<le> m" "m < n" and w: "0 \<le> w" "w < n"
    using Cons.prems by (auto simp: in_graph_def)
  let ?cant = "upd ?c m (max (elt ?c m) (edge_weight ?g (node_num st) ?c w m))"
  let ?st = "st\<lparr>cant_fuse_with := ?cant\<rparr>"
  have step: "mark_successor types w st m = Inr ?st"
    using Cons.prems m w all_fusible_rd[OF types m(4,5)]
    by (simp add: mark_successor_def getEdge_between bad_edge_def edge_weight_def)
  have same: "edge_weight ?g (node_num st) ?cant w v = edge_weight ?g (node_num st) ?c w v" for v
    using m w Cons.prems by (simp add: edge_weight_def)
  have "distinct ms" "\<forall>m \<in> set ms. in_graph (f_graph ?st) m \<and> m \<noteq> w \<and> elt (node_num ?st) m = -1" "alen (cant_fuse_with ?st) = n"
    using Cons.prems by auto
  from Cons.IH[OF _ _ _ this(3,1,2)] Cons.prems obtain cant where
    c: "fold_result (mark_successor types w) ?st ms = Inr (?st\<lparr>cant_fuse_with := cant\<rparr>)" "alen cant = n"
    "\<And>v. 0 \<le> v \<Longrightarrow> v < n \<Longrightarrow> elt cant v = (if v \<in> set ms then max (elt ?cant v) (edge_weight ?g (node_num st) ?cant w v) else elt ?cant v)"
    by auto
  have "elt cant v = (if v \<in> set (m # ms) then max (elt ?c v) (edge_weight ?g (node_num st) ?c w v) else elt ?c v)"
    if "0 \<le> v" "v < n" for v
    using c(3)[OF that] that m Cons.prems by (auto simp: same)
  then show ?case using c(1,2) step by auto
qed

lemma hasEdge_successor: "in_graph g j \<Longrightarrow> hasEdge g j i = Inr (i \<in> set (successors g j))"
  by (auto simp: hasEdge_def in_graph_def vertexCount_def successors_def out_edges_def by_value.find_None_iff)

lemma no_incoming_edges_eq: "no_incoming_edges g i = Inr (\<forall>j. in_graph g j \<and> j \<noteq> i \<longrightarrow> i \<notin> set (successors g j))"
proof -
  have "map_result (\<lambda>j. hasEdge g j i) (filter (\<lambda>j. j \<noteq> i) [0..vertexCount g - 1]) =
      Inr (map (\<lambda>j. i \<in> set (successors g j)) (filter (\<lambda>j. j \<noteq> i) [0..vertexCount g - 1]))"
    by (rule map_result_pure) (auto simp: in_graph_def intro: hasEdge_successor)
  then show ?thesis by (auto simp: no_incoming_edges_def list_all_iff in_graph_def)
qed

text \<open>Which successors of \<open>w\<close> get into the work list.\<close>

definition freed :: "loop_graph \<Rightarrow> int \<Rightarrow> int \<Rightarrow> bool" where
  "freed g w m \<longleftrightarrow> (\<forall>j. in_graph g j \<and> j \<noteq> m \<and> j \<noteq> w \<longrightarrow> m \<notin> set (successors g j))"

lemma erase_edges_label: "in_graph g v1 \<Longrightarrow> in_graph g v \<Longrightarrow> fst (elt (vertex (erase_edges g v1 v2)) v) = fst (elt (vertex g) v)"
  by (simp add: erase_edges_def in_graph_def vertexCount_def)

lemma release_successors:
  assumes types: "all_fusible n types" and ok: "graph_ok (f_graph st)" "directed (f_graph st)" "vertexCount (f_graph st) = n"
    and w: "in_graph (f_graph st) w" and ms: "distinct ms" "\<forall>m \<in> set ms. in_graph (f_graph st) m \<and> m \<noteq> w"
  shows "\<exists>g. fold_result (release_successor types w) st ms =
      Inr (st\<lparr>f_graph := g, f_work := f_work st @ map (\<lambda>m. (m, True)) (filter (freed (f_graph st) w) ms)\<rparr>) \<and>
    graph_ok g \<and> directed g \<and> vertexCount g = n \<and> (\<forall>u. in_graph g u \<longrightarrow> fst (elt (vertex g) u) = fst (elt (vertex (f_graph st)) u) \<and>
      out_edges g u = (if u = w then filter (\<lambda>q. fst q \<notin> set ms) (out_edges (f_graph st) u) else out_edges (f_graph st) u))"
  using ok w ms
proof (induction ms arbitrary: st)
  case Nil
  then show ?case by (intro exI[of _ "f_graph st"]) simp
next
  case (Cons m ms)
  let ?g = "f_graph st" and ?g1 = "erase_edges (f_graph st) w m"
  have m: "in_graph ?g m" "m \<noteq> w" "0 \<le> m" "m < n" using Cons.prems by (auto simp: in_graph_def)
  have w: "in_graph ?g w" by fact
  have dis: "disconnect ?g w m = Inr ?g1" using Cons.prems m by (simp add: disconnect_def)
  have g1: "graph_ok ?g1" "directed ?g1" "vertexCount ?g1 = n" "in_graph ?g1 w" using erase_edges_ok[OF Cons.prems(1) w] Cons.prems by simp_all
  have out1: "out_edges ?g1 u = (if u = w then filter (\<lambda>q. fst q \<noteq> m) (out_edges ?g w) else out_edges ?g u)" if "in_graph ?g u" for u
    using erase_edges_out[OF w that, of m] by (auto simp: by_value.incomparable_key intro: filter_cong)
  have succ1: "set (successors ?g1 u) = (if u = w then set (successors ?g w) - {m} else set (successors ?g u))" if "in_graph ?g u" for u
    using out1[OF that] by (auto simp: successors_def)
  have free: "no_incoming_edges ?g1 m = Inr (freed ?g w m)"
    unfolding no_incoming_edges_eq freed_def using succ1 m by auto
  let ?st = "st\<lparr>f_graph := ?g1, f_work := f_work st @ (if freed ?g w m then [(m, True)] else [])\<rparr>"
  have step: "release_successor types w st m = Inr ?st"
    using dis free all_fusible_rd[OF types m(3,4)] by (simp add: release_successor_def)
  have same: "freed ?g1 w = freed ?g w"
    unfolding freed_def fun_eq_iff using succ1 by auto
  have "distinct ms" "\<forall>m \<in> set ms. in_graph (f_graph ?st) m \<and> m \<noteq> w" using Cons.prems by auto
  with Cons.IH[of ?st] g1 obtain g where g: "fold_result (release_successor types w) ?st ms =
      Inr (?st\<lparr>f_graph := g, f_work := f_work ?st @ map (\<lambda>m. (m, True)) (filter (freed ?g1 w) ms)\<rparr>)"
    "graph_ok g" "directed g" "vertexCount g = n"
    "\<And>u. in_graph g u \<Longrightarrow> fst (elt (vertex g) u) = fst (elt (vertex ?g1) u) \<and>
      out_edges g u = (if u = w then filter (\<lambda>q. fst q \<notin> set ms) (out_edges ?g1 u) else out_edges ?g1 u)"
    by auto
  have "fst (elt (vertex g) u) = fst (elt (vertex ?g) u) \<and>
      out_edges g u = (if u = w then filter (\<lambda>q. fst q \<notin> set (m # ms)) (out_edges ?g u) else out_edges ?g u)" if u: "in_graph g u" for u
  proof -
    have "in_graph ?g u" using u g(4) Cons.prems by (simp add: in_graph_def)
    then show ?thesis using g(5)[OF u] out1[of u] w erase_edges_label[OF w, of u m] by (auto intro: filter_cong)
  qed
  moreover have "fold_result (release_successor types w) st (m # ms) =
      Inr (st\<lparr>f_graph := g, f_work := f_work st @ map (\<lambda>m. (m, True)) (filter (freed ?g w) (m # ms))\<rparr>)"
    using step g(1) by (simp add: same)
  ultimately show ?case using g(2-4) by blast
qed


section \<open>The invariant of the loop\<close>

definition edge_demand :: "loop_graph \<Rightarrow> (int \<Rightarrow> int) \<Rightarrow> int \<Rightarrow> int \<Rightarrow> int" where
  "edge_demand g N u v = (if bad_edge g u v then N u else N u - 1)"

text \<open>Numberings of the vertices, from 1, that no edge contradicts: the sets are made in the order of their numbers.\<close>

definition obeys :: "loop_graph \<Rightarrow> (int \<Rightarrow> int) \<Rightarrow> bool" where
  "obeys g N \<longleftrightarrow> (\<forall>v. in_graph g v \<longrightarrow> 1 \<le> N v) \<and> (\<forall>(u, v) \<in> graph_edges g. edge_demand g N u v < N v)"

definition least_numbering :: "loop_graph \<Rightarrow> (int \<Rightarrow> int) \<Rightarrow> bool" where
  "least_numbering g N \<longleftrightarrow> obeys g N \<and> (\<forall>M. obeys g M \<longrightarrow> (\<forall>v. in_graph g v \<longrightarrow> N v \<le> M v))"

definition label_of :: "loop_graph \<Rightarrow> int \<Rightarrow> int set" where
  "label_of g v = set (fst (elt (vertex g) v))"

text \<open>The vertices that have a number, and what a vertex without one has got from them.\<close>

definition numbered :: "loop_graph \<Rightarrow> int list \<Rightarrow> int set" where
  "numbered g num = {v. in_graph g v \<and> elt num v \<noteq> -1}"

definition cant_ok :: "loop_graph \<Rightarrow> int set \<Rightarrow> (int \<Rightarrow> int) \<Rightarrow> int \<Rightarrow> int \<Rightarrow> bool" where
  "cant_ok g D N v c \<longleftrightarrow> 0 \<le> c \<and> (\<forall>u \<in> D. (u, v) \<in> graph_edges g \<longrightarrow> edge_demand g N u v \<le> c) \<and>
     (c = 0 \<or> (\<exists>u \<in> D. (u, v) \<in> graph_edges g \<and> c = edge_demand g N u v))"

definition ready :: "loop_graph \<Rightarrow> int set \<Rightarrow> int set" where
  "ready g D = {v. in_graph g v \<and> v \<notin> D \<and> (\<forall>u. (u, v) \<in> graph_edges g \<longrightarrow> u \<in> D)}"

text \<open>The graph without the edges that leave numbered vertices.\<close>

definition cut_graph :: "loop_graph \<Rightarrow> int set \<Rightarrow> loop_graph \<Rightarrow> bool" where
  "cut_graph g0 D g \<longleftrightarrow> graph_ok g \<and> directed g \<and> vertexCount g = vertexCount g0 \<and>
     (\<forall>u. in_graph g0 u \<longrightarrow> fst (elt (vertex g) u) = fst (elt (vertex g0) u) \<and> out_edges g u = (if u \<in> D then [] else out_edges g0 u))"

definition numbers_ok :: "loop_graph \<Rightarrow> int set \<Rightarrow> (int \<Rightarrow> int) \<Rightarrow> int \<Rightarrow> bool" where
  "numbers_ok g D N k \<longleftrightarrow> D \<subseteq> {v. in_graph g v} \<and> (\<forall>v \<in> D. 1 \<le> N v \<and> N v \<le> k) \<and>
     (\<forall>(u, v) \<in> graph_edges g. v \<in> D \<longrightarrow> u \<in> D \<and> edge_demand g N u v < N v) \<and>
     (\<forall>M. obeys g M \<longrightarrow> (\<forall>v \<in> D. N v \<le> M v))"

definition sets_ok :: "loop_graph \<Rightarrow> int set \<Rightarrow> (int \<Rightarrow> int) \<Rightarrow> int \<Rightarrow> int list list \<Rightarrow> bool" where
  "sets_ok g D N k s \<longleftrightarrow> alen s = k \<and> (\<forall>i. 1 \<le> i \<and> i \<le> k \<longrightarrow> set (elt s (i - 1)) = \<Union> (label_of g ` {v \<in> D. N v = i}))"

definition fusion_inv :: "loop_graph \<Rightarrow> fusion \<Rightarrow> bool" where
  "fusion_inv g st \<longleftrightarrow> (let n = vertexCount g; D = numbered g (node_num st); N = elt (node_num st); k = lastnum st in
     cut_graph g D (f_graph st) \<and>
     alen (cant_fuse_with st) = n \<and> alen (node_to_fused_nodes st) = n \<and> alen (node_num st) = n \<and> alen (f_next st) = n \<and>
     distinct (map fst (f_work st)) \<and> set (map fst (f_work st)) = ready g D \<and> list_all snd (f_work st) \<and>
     (\<forall>v. in_graph g v \<and> v \<notin> D \<longrightarrow> cant_ok g D N v (elt (cant_fuse_with st) v)) \<and>
     (\<forall>v \<in> D. elt (cant_fuse_with st) v = N v - 1) \<and>
     0 \<le> k \<and> k < n \<and> numbers_ok g D N k \<and>
     (\<forall>i. 1 \<le> i \<and> i \<le> k \<longrightarrow> elt (node_to_fused_nodes st) i \<in> D \<and> N (elt (node_to_fused_nodes st) i) = i) \<and>
     (\<forall>i. 1 \<le> i \<and> i < n \<longrightarrow> elt (f_next st) i = (if i < k then i + 1 else 0)) \<and>
     f_fused st = (if k = 0 then 0 else 1) \<and> lastfused st = k \<and> sets_ok g D N k (f_sets st))"

lemma graph_edges_iff: "(u, v) \<in> graph_edges g \<longleftrightarrow> in_graph g u \<and> v \<in> set (successors g u)"
  by (auto simp: graph_edges_def edge_rel_def in_graph_def)

lemma edge_in_graph: "graph_ok g \<Longrightarrow> (u, v) \<in> graph_edges g \<Longrightarrow> in_graph g u \<and> in_graph g v"
  using successors_range by (auto simp: graph_edges_iff)

text \<open>Numbering one more vertex \<open>w\<close>, which is ready, with the least number it can have.\<close>

lemma numbers_ok_insert:
  assumes ok: "graph_ok g" "acyclic (graph_edges g)" and N: "numbers_ok g D N k" and w: "w \<in> ready g D" and c: "cant_ok g D N w c" and k: "c + 1 \<le> k'" "k \<le> k'"
    and N': "\<And>v. v \<in> D \<Longrightarrow> N' v = N v" "N' w = c + 1"
  shows "numbers_ok g (insert w D) N' k'"
  unfolding numbers_ok_def
proof (intro conjI)
  have w': "in_graph g w" "w \<notin> D" "\<And>u. (u, w) \<in> graph_edges g \<Longrightarrow> u \<in> D" using w by (auto simp: ready_def)
  show "insert w D \<subseteq> {v. in_graph g v}" using N w' by (auto simp: numbers_ok_def)
  show "\<forall>v \<in> insert w D. 1 \<le> N' v \<and> N' v \<le> k'" using N N' c k by (force simp: numbers_ok_def cant_ok_def)
  have demand: "edge_demand g N' u v = edge_demand g N u v" if "u \<in> D" for u v using N'(1)[OF that] by (simp add: edge_demand_def)
  show "\<forall>(u, v) \<in> graph_edges g. v \<in> insert w D \<longrightarrow> u \<in> insert w D \<and> edge_demand g N' u v < N' v"
  proof (intro ballI, clarify)
    fix u v assume uv: "(u, v) \<in> graph_edges g" "v \<in> insert w D"
    show "u \<in> insert w D \<and> edge_demand g N' u v < N' v"
    proof (cases "v = w")
      case True
      then show ?thesis using w'(3)[of u] uv c N'(2) demand[of u w] by (force simp: cant_ok_def)
    next
      case False
      then have "v \<in> D" "u \<in> D" "edge_demand g N u v < N v" using uv N by (auto simp: numbers_ok_def)
      then show ?thesis using N'(1)[of v] demand[of u v] by simp
    qed
  qed
  show "\<forall>M. obeys g M \<longrightarrow> (\<forall>v \<in> insert w D. N' v \<le> M v)"
  proof (intro allI impI)
    fix M assume M: "obeys g M"
    then have D: "\<forall>v \<in> D. N v \<le> M v" using N by (auto simp: numbers_ok_def)
    have "c + 1 \<le> M w"
    proof (cases "c = 0")
      case True
      then show ?thesis using M w'(1) by (auto simp: obeys_def)
    next
      case False
      then obtain u where u: "u \<in> D" "(u, w) \<in> graph_edges g" "c = edge_demand g N u w" using c by (auto simp: cant_ok_def)
      then have "edge_demand g M u w < M w" using M by (auto simp: obeys_def)
      moreover have "edge_demand g N u w \<le> edge_demand g M u w" using D u(1) by (auto simp: edge_demand_def)
      ultimately show ?thesis using u(3) by simp
    qed
    then show "\<forall>v \<in> insert w D. N' v \<le> M v" using D N' by auto
  qed
qed

lemma cant_ok_insert:
  assumes c: "cant_ok g D N v c" and N': "\<And>u. u \<in> D \<Longrightarrow> N' u = N u" and w: "w \<notin> D"
  shows "cant_ok g (insert w D) N' v (if (w, v) \<in> graph_edges g then max c (edge_demand g N' w v) else c)"
proof -
  have demand: "edge_demand g N' u v = edge_demand g N u v" if "u \<in> D" for u using N'[OF that] by (simp add: edge_demand_def)
  show ?thesis using c demand unfolding cant_ok_def by (auto simp: max_def)
qed

lemma ready_insert:
  assumes "graph_ok g" "acyclic (graph_edges g)" "w \<in> ready g D"
  shows "ready g (insert w D) = (ready g D - {w}) \<union> {m. (w, m) \<in> graph_edges g \<and> m \<notin> D \<and> (\<forall>u. (u, m) \<in> graph_edges g \<longrightarrow> u \<in> insert w D)}"
  using assms edge_in_graph[OF assms(1)] by (auto simp: ready_def acyclic_def)


lemma cut_graphD:
  assumes "cut_graph g0 D g"
  shows "graph_ok g" "directed g" "vertexCount g = vertexCount g0" "in_graph g v = in_graph g0 v"
    "in_graph g0 u \<Longrightarrow> fst (elt (vertex g) u) = fst (elt (vertex g0) u)"
    "in_graph g0 u \<Longrightarrow> out_edges g u = (if u \<in> D then [] else out_edges g0 u)"
  using assms by (auto simp: cut_graph_def in_graph_def)

lemma update_ready:
  assumes types: "all_fusible (vertexCount g0) types" and ok: "graph_ok g0" "acyclic (graph_edges g0)"
    and cut: "cut_graph g0 D (f_graph st)" and w: "w \<in> ready g0 D"
    and len: "alen (node_num st) = vertexCount g0" "alen (cant_fuse_with st) = vertexCount g0"
    and num: "numbered g0 (node_num st) = insert w D" and c: "elt (cant_fuse_with st) w = elt (node_num st) w - 1"
    and closed': "\<forall>u v. (u, v) \<in> graph_edges g0 \<longrightarrow> v \<in> D \<longrightarrow> u \<in> D"
  shows "\<exists>cant g added. update_successors types w st = Inr (st\<lparr>cant_fuse_with := cant, f_graph := g, f_work := f_work st @ added\<rparr>) \<and>
    cut_graph g0 (insert w D) g \<and> alen cant = vertexCount g0 \<and>
    (\<forall>v. in_graph g0 v \<longrightarrow> elt cant v = (if (w, v) \<in> graph_edges g0
      then max (elt (cant_fuse_with st) v) (edge_demand g0 (elt (node_num st)) w v) else elt (cant_fuse_with st) v)) \<and>
    distinct (map fst added) \<and> set (map fst added) = {m. (w, m) \<in> graph_edges g0 \<and> (\<forall>u. (u, m) \<in> graph_edges g0 \<longrightarrow> u \<in> insert w D)} \<and>
    list_all snd added"
proof -
  let ?g = "f_graph st" and ?E = "graph_edges g0"
  have closed: "u \<in> D" if "(u, v) \<in> graph_edges g0" "v \<in> D" for u v using closed' that by blast
  note C = cut_graphD[OF cut]
  have w': "in_graph g0 w" "w \<notin> D" using w by (auto simp: ready_def)
  have irrefl: "(v, v) \<notin> ?E" for v using ok(2) by (auto simp: acyclic_def)
  have out: "out_edges ?g w = out_edges g0 w" using C(6)[OF w'(1)] w'(2) by simp
  then have succ: "successors ?g w = successors g0 w" by (simp add: successors_def)
  have ms: "m \<in> set (successors g0 w) \<longleftrightarrow> (w, m) \<in> ?E" for m using w' by (simp add: graph_edges_iff)
  have target: "in_graph g0 m \<and> m \<noteq> w \<and> m \<notin> insert w D" if "(w, m) \<in> ?E" for m
    using that edge_in_graph[OF ok(1) that] irrefl closed[OF that] w'(2) by auto
  have fresh: "\<forall>m \<in> set (successors g0 w). in_graph ?g m \<and> m \<noteq> w \<and> elt (node_num st) m = -1"
  proof
    fix m assume "m \<in> set (successors g0 w)"
    then have m: "in_graph g0 m" "m \<noteq> w" "m \<notin> insert w D" using target ms by auto
    then have "elt (node_num st) m = -1" using num by (auto simp: numbered_def)
    then show "in_graph ?g m \<and> m \<noteq> w \<and> elt (node_num st) m = -1" using m C(4) by blast
  qed
  have dist: "distinct (successors g0 w)" by (rule successors_distinct[OF ok(1) w'(1)])
  obtain cant where mark: "fold_result (mark_successor types w) st (successors g0 w) = Inr (st\<lparr>cant_fuse_with := cant\<rparr>)" "alen cant = vertexCount g0"
    "\<And>v. 0 \<le> v \<Longrightarrow> v < vertexCount g0 \<Longrightarrow> elt cant v = (if v \<in> set (successors g0 w)
      then max (elt (cant_fuse_with st) v) (edge_weight ?g (node_num st) (cant_fuse_with st) w v) else elt (cant_fuse_with st) v)"
    using mark_successors[OF types _ C(3) len dist fresh] C(4) w'(1) by blast
  have bad: "bad_edge ?g w v = bad_edge g0 w v" for v
    using out w' C(4) by (simp add: bad_edge_def edges_between_def)
  have weight: "edge_weight ?g (node_num st) (cant_fuse_with st) w v = edge_demand g0 (elt (node_num st)) w v" for v
    by (simp add: edge_weight_def edge_demand_def bad c)
  let ?st = "st\<lparr>cant_fuse_with := cant\<rparr>"
  have fresh': "\<forall>m \<in> set (successors g0 w). in_graph (f_graph ?st) m \<and> m \<noteq> w" using fresh by simp
  have st: "graph_ok (f_graph ?st)" "directed (f_graph ?st)" "vertexCount (f_graph ?st) = vertexCount g0" "in_graph (f_graph ?st) w"
    using C(1-4) w'(1) by simp_all
  obtain g where rel: "fold_result (release_successor types w) ?st (successors g0 w) =
      Inr (?st\<lparr>f_graph := g, f_work := f_work st @ map (\<lambda>m. (m, True)) (filter (freed ?g w) (successors g0 w))\<rparr>)"
    "graph_ok g" "directed g" "vertexCount g = vertexCount g0"
    "\<And>u. in_graph g u \<Longrightarrow> fst (elt (vertex g) u) = fst (elt (vertex ?g) u) \<and>
      out_edges g u = (if u = w then filter (\<lambda>q. fst q \<notin> set (successors g0 w)) (out_edges ?g u) else out_edges ?g u)"
    using release_successors[OF types st dist fresh'] by auto
  have "filter (\<lambda>q. fst q \<notin> set (successors g0 w)) (out_edges ?g w) = []"
    by (auto simp: out successors_def filter_empty_conv)
  then have cut': "cut_graph g0 (insert w D) g"
    using rel(2-5) C(5,6) by (auto simp: cut_graph_def in_graph_def)
  have succ_cur: "set (successors ?g j) = (if j \<in> D then {} else set (successors g0 j))" if "in_graph g0 j" for j
    using C(6)[OF that] by (simp add: successors_def)
  have free: "freed ?g w m \<longleftrightarrow> (\<forall>u. (u, m) \<in> ?E \<longrightarrow> u \<in> insert w D)" if "(w, m) \<in> ?E" for m
    unfolding freed_def C(4) graph_edges_iff using succ_cur irrefl[of m] by (auto simp: graph_edges_iff)
  let ?added = "map (\<lambda>m. (m, True)) (filter (freed ?g w) (successors g0 w))"
  have "update_successors types w st = Inr (st\<lparr>cant_fuse_with := cant, f_graph := g, f_work := f_work st @ ?added\<rparr>)"
    using mark(1) rel(1) w'(1) C(3) succ by (simp add: update_successors_def in_graph_def vertexCount_def)
  moreover have "map fst ?added = filter (freed ?g w) (successors g0 w)" by (simp add: comp_def)
  moreover have "set (filter (freed ?g w) (successors g0 w)) = {m. (w, m) \<in> ?E \<and> (\<forall>u. (u, m) \<in> ?E \<longrightarrow> u \<in> insert w D)}"
    using free by (auto simp: ms)
  moreover have "\<forall>v. in_graph g0 v \<longrightarrow> elt cant v = (if (w, v) \<in> ?E
      then max (elt (cant_fuse_with st) v) (edge_demand g0 (elt (node_num st)) w v) else elt (cant_fuse_with st) v)"
    using mark(3) by (simp add: in_graph_def ms weight)
  moreover have "list_all snd ?added" by (simp add: list_all_iff)
  moreover have "distinct (filter (freed ?g w) (successors g0 w))" using dist by simp
  ultimately show ?thesis using cut' mark(2) by (intro exI[of _ cant] exI[of _ g] exI[of _ ?added]) (simp only: simp_thms)
qed


lemma fusion_invD:
  assumes "fusion_inv g st"
  shows "cut_graph g (numbered g (node_num st)) (f_graph st)" "alen (cant_fuse_with st) = vertexCount g"
    "alen (node_to_fused_nodes st) = vertexCount g" "alen (node_num st) = vertexCount g" "alen (f_next st) = vertexCount g"
    "distinct (map fst (f_work st))" "set (map fst (f_work st)) = ready g (numbered g (node_num st))" "list_all snd (f_work st)"
    "\<And>v. in_graph g v \<Longrightarrow> v \<notin> numbered g (node_num st) \<Longrightarrow> cant_ok g (numbered g (node_num st)) (elt (node_num st)) v (elt (cant_fuse_with st) v)"
    "\<And>v. v \<in> numbered g (node_num st) \<Longrightarrow> elt (cant_fuse_with st) v = elt (node_num st) v - 1"
    "0 \<le> lastnum st" "lastnum st < vertexCount g" "numbers_ok g (numbered g (node_num st)) (elt (node_num st)) (lastnum st)"
    "\<And>i. 1 \<le> i \<Longrightarrow> i \<le> lastnum st \<Longrightarrow> elt (node_to_fused_nodes st) i \<in> numbered g (node_num st) \<and>
      elt (node_num st) (elt (node_to_fused_nodes st) i) = i"
    "\<And>i. 1 \<le> i \<Longrightarrow> i < vertexCount g \<Longrightarrow> elt (f_next st) i = (if i < lastnum st then i + 1 else 0)"
    "f_fused st = (if lastnum st = 0 then 0 else 1)" "lastfused st = lastnum st"
    "sets_ok g (numbered g (node_num st)) (elt (node_num st)) (lastnum st) (f_sets st)"
  using assms unfolding fusion_inv_def Let_def by blast+

lemma advance:
  assumes types: "all_fusible (vertexCount g0) types" and ok: "graph_ok g0" "acyclic (graph_edges g0)"
    and inv: "fusion_inv g0 st" and wk: "f_work st = (w, t) # work" and c: "c = elt (cant_fuse_with st) w"
    and s1: "f_graph s1 = f_graph st" "cant_fuse_with s1 = cant_fuse_with st" "f_work s1 = work" "node_num s1 = upd (node_num st) w (c + 1)"
    and k': "c + 1 \<le> k'" "lastnum st \<le> k'"
  shows "\<exists>cant g wk. update_successors types w s1 = Inr (s1\<lparr>cant_fuse_with := cant, f_graph := g, f_work := wk\<rparr>) \<and>
    numbered g0 (node_num s1) = insert w (numbered g0 (node_num st)) \<and>
    cut_graph g0 (numbered g0 (node_num s1)) g \<and> alen cant = vertexCount g0 \<and>
    distinct (map fst wk) \<and> set (map fst wk) = ready g0 (numbered g0 (node_num s1)) \<and> list_all snd wk \<and>
    (\<forall>v. in_graph g0 v \<and> v \<notin> numbered g0 (node_num s1) \<longrightarrow> cant_ok g0 (numbered g0 (node_num s1)) (elt (node_num s1)) v (elt cant v)) \<and>
    (\<forall>v \<in> numbered g0 (node_num s1). elt cant v = elt (node_num s1) v - 1) \<and>
    numbers_ok g0 (numbered g0 (node_num s1)) (elt (node_num s1)) k'"
proof -
  let ?n = "vertexCount g0" and ?D = "numbered g0 (node_num st)" and ?N = "elt (node_num st)" and ?N' = "elt (node_num s1)" and ?E = "graph_edges g0"
  note I = fusion_invD[OF inv]
  have w: "w \<in> ready g0 ?D" using I(7) wk by force
  then have w': "in_graph g0 w" "w \<notin> ?D" "0 \<le> w" "w < ?n" by (auto simp: ready_def in_graph_def)
  have cok: "cant_ok g0 ?D ?N w c" using I(9)[OF w'(1,2)] c by simp
  then have c0: "0 \<le> c" by (simp add: cant_ok_def)
  have N': "?N' v = (if v = w then c + 1 else ?N v)" if "in_graph g0 v" for v
    using that w' I(4) s1(4) by (simp add: in_graph_def)
  have num: "numbered g0 (node_num s1) = insert w ?D"
  proof (intro set_eqI iffI)
    fix v assume "v \<in> numbered g0 (node_num s1)"
    then have "in_graph g0 v" "?N' v \<noteq> -1" by (auto simp: numbered_def)
    then show "v \<in> insert w ?D" using N'[of v] by (auto simp: numbered_def split: if_splits)
  next
    fix v assume v: "v \<in> insert w ?D"
    then have "in_graph g0 v" using w' by (auto simp: numbered_def)
    then show "v \<in> numbered g0 (node_num s1)" using N'[of v] v c0 by (auto simp: numbered_def)
  qed
  have closed: "u \<in> ?D" if "(u, v) \<in> ?E" "v \<in> ?D" for u v using I(13) that by (auto simp: numbers_ok_def)
  have len: "alen (node_num s1) = ?n" "alen (cant_fuse_with s1) = ?n" using I(2,4) s1 by simp_all
  have cw: "elt (cant_fuse_with s1) w = elt (node_num s1) w - 1" using N'[OF w'(1)] s1(2) c by simp
  have cut: "cut_graph g0 ?D (f_graph s1)" using I(1) s1(1) by simp
  have "\<forall>u v. (u, v) \<in> ?E \<longrightarrow> v \<in> ?D \<longrightarrow> u \<in> ?D" using closed by blast
  from update_ready[OF types ok cut w len num cw this] obtain cant g added where u:
    "update_successors types w s1 = Inr (s1\<lparr>cant_fuse_with := cant, f_graph := g, f_work := f_work s1 @ added\<rparr>)"
    "cut_graph g0 (insert w ?D) g" "alen cant = ?n"
    "\<And>v. in_graph g0 v \<Longrightarrow> elt cant v = (if (w, v) \<in> ?E then max (elt (cant_fuse_with s1) v) (edge_demand g0 ?N' w v) else elt (cant_fuse_with s1) v)"
    "distinct (map fst added)" "set (map fst added) = {m. (w, m) \<in> ?E \<and> (\<forall>u. (u, m) \<in> ?E \<longrightarrow> u \<in> insert w ?D)}" "list_all snd added"
    by blast
  have sameN: "?N' v = ?N v" if "v \<in> ?D" for v using N'[of v] that w'(2) by (auto simp: numbered_def)
  have irrefl: "(v, v) \<notin> ?E" for v using ok(2) by (auto simp: acyclic_def)
  have rest: "set (map fst work) = ready g0 ?D - {w}" "distinct (map fst work)" "list_all snd work" using I(6,7,8) wk by auto
  have "set (map fst (work @ added)) = ready g0 (insert w ?D)"
    unfolding ready_insert[OF ok w] set_map set_append image_Un using rest(1) u(6) closed w'(2) by auto
  moreover have "distinct (map fst (work @ added))"
  proof -
    have "m \<notin> ready g0 ?D" if "(w, m) \<in> ?E" for m using that w'(2) by (auto simp: ready_def)
    then show ?thesis using rest u(5,6) by auto
  qed
  moreover have "cant_ok g0 (insert w ?D) ?N' v (elt cant v)" if v: "in_graph g0 v" "v \<notin> insert w ?D" for v
  proof -
    have "cant_ok g0 ?D ?N v (elt (cant_fuse_with st) v)" using I(9) v by simp
    from cant_ok_insert[OF this sameN w'(2)] show ?thesis unfolding u(4)[OF v(1)] s1(2) .
  qed
  moreover have "elt cant v = ?N' v - 1" if v: "v \<in> insert w ?D" for v
  proof -
    have "in_graph g0 v" "(w, v) \<notin> ?E" using v w' irrefl closed[of w v] by (auto simp: numbered_def)
    then have "elt cant v = elt (cant_fuse_with s1) v" using u(4) by simp
    then show ?thesis using v cw I(10)[of v] sameN[of v] s1(2) by auto
  qed
  moreover have "numbers_ok g0 (insert w ?D) ?N' k'"
    using numbers_ok_insert[OF ok I(13) w cok k' sameN] N'[OF w'(1)] by simp
  ultimately show ?thesis using u(1,2,3) rest(3) u(7) s1(3) num
    by (intro exI[of _ cant] exI[of _ g] exI[of _ "work @ added"]) simp
qed


lemma fusion_failure_Inr [simp]: "fusion_failure (Inr x) = Inr x"
  by (simp add: fusion_failure_def)

lemma set_insert_unique_fold: "set (foldl (\<lambda>s x. insert_unique (<) x s) s v) = set s \<union> set (v :: int list)"
  by (induction v arbitrary: s) (auto simp: set_insert_int)

lemma sets_ok_join:
  assumes s: "sets_ok g D N k s" and w: "w \<notin> D" and p: "1 \<le> p" "p \<le> k" and N': "\<And>v. v \<in> D \<Longrightarrow> N' v = N v" "N' w = p"
    and t: "set t = set (elt s (p - 1)) \<union> label_of g w"
  shows "sets_ok g (insert w D) N' k (upd s (p - 1) t)"
proof -
  have "set (elt (upd s (p - 1) t) (i - 1)) = \<Union> (label_of g ` {v \<in> insert w D. N' v = i})" if i: "1 \<le> i" "i \<le> k" for i
  proof -
    have old: "{v \<in> D. N' v = i} = {v \<in> D. N v = i}" using N'(1) by auto
    have "{v \<in> insert w D. N' v = i} = (if i = p then insert w {v \<in> D. N v = i} else {v \<in> D. N v = i})"
      using N'(2) old by auto
    then show ?thesis using s i p t by (auto simp: sets_ok_def)
  qed
  then show ?thesis using s by (simp add: sets_ok_def)
qed

lemma elt_append: "elt (s @ t) i = (if nat i < length s then elt s i else elt t (i - alen s))"
  by (auto simp: elt_def nth_append alen_def nat_diff_distrib' nat_less_iff intro: arg_cong[where f = "(!) t"])

lemma sets_ok_new:
  assumes s: "sets_ok g D N k s" and k: "0 \<le> k" and w: "w \<notin> D" and N': "\<And>v. v \<in> D \<Longrightarrow> N' v = N v" "N' w = k + 1"
    and D: "\<And>v. v \<in> D \<Longrightarrow> N v \<le> k" and t: "set t = label_of g w"
  shows "sets_ok g (insert w D) N' (k + 1) (s @ [t])"
proof -
  have len: "alen s = k" using s by (simp add: sets_ok_def)
  have "set (elt (s @ [t]) (i - 1)) = \<Union> (label_of g ` {v \<in> insert w D. N' v = i})" if i: "1 \<le> i" "i \<le> k + 1" for i
  proof (cases "i = k + 1")
    case True
    have "{v \<in> insert w D. N' v = i} = {w}" using True N' D by force
    moreover have "nat k = length s" using len k by (auto simp: alen_def)
    then have "elt (s @ [t]) (i - 1) = t" using True by (simp add: elt_def)
    ultimately show ?thesis using t by simp
  next
    case False
    have "{v \<in> insert w D. N' v = i} = {v \<in> D. N v = i}" using False N' by auto
    moreover have "elt (s @ [t]) (i - 1) = elt s (i - 1)" using False i len by (simp add: elt_append alen_def nat_less_iff)
    ultimately show ?thesis using s i False by (simp add: sets_ok_def)
  qed
  moreover have "alen (s @ [t]) = k + 1" using len by (simp add: alen_def)
  ultimately show ?thesis by (simp add: sets_ok_def)
qed

lemma fusion_round_ok:
  assumes types: "all_fusible (vertexCount g0) types" and ok: "graph_ok g0" "acyclic (graph_edges g0)"
    and inv: "fusion_inv g0 st" and wk: "f_work st = (w, t) # work" and c: "c = elt (cant_fuse_with st) w"
  shows "c \<le> lastnum st \<and> (if c + 1 < vertexCount g0
    then \<exists>st'. fusion_round types (w, t) (st\<lparr>f_work := work\<rparr>) = Inr st' \<and> fusion_inv g0 st' \<and>
      numbered g0 (node_num st') = insert w (numbered g0 (node_num st))
    else fusion_round types (w, t) (st\<lparr>f_work := work\<rparr>) = Inl (Undefined ''write outside an array''))"
proof -
  let ?n = "vertexCount g0" and ?D = "numbered g0 (node_num st)" and ?N = "elt (node_num st)" and ?k = "lastnum st"
  let ?s0 = "st\<lparr>f_work := work\<rparr>"
  note I = fusion_invD[OF inv]
  have w: "w \<in> ready g0 ?D" using I(7) wk by force
  then have w': "in_graph g0 w" "w \<notin> ?D" "0 \<le> w" "w < ?n" by (auto simp: ready_def in_graph_def)
  have cok: "cant_ok g0 ?D ?N w c" using I(9)[OF w'(1,2)] c by simp
  have D: "1 \<le> ?N v \<and> ?N v \<le> ?k" if "v \<in> ?D" for v using I(13) that by (auto simp: numbers_ok_def)
  have ck: "0 \<le> c" "c \<le> ?k" using cok D I(11) by (force simp: cant_ok_def edge_demand_def)+
  have t: "t = True" using I(8) wk by simp
  have p: "(if c = 0 then Inr (f_fused st) else rd (f_next st) c) = Inr (if c < ?k then c + 1 else 0)"
    using I(5) I(15)[of c] I(16) ck I(12) by auto
  have rdc: "rd (cant_fuse_with ?s0) w = Inr c" using w' I(2) c by simp
  have label: "statements_of g w = Inr (fst (elt (vertex g0) w))" if "cut_graph g0 D' g" for g D'
    using cut_graphD[OF that] w' by (simp add: statements_of_def in_graph_def vertexCount_def)
  have round: "fusion_round types (w, t) ?s0 = (if c < ?k then join_set types w (c + 1) ?s0 else new_set types w t ?s0)"
    using p rdc ck by (auto simp: fusion_round_def t)
  let ?num = "upd (node_num st) w (c + 1)"
  have N': "elt ?num v = (if v = w then c + 1 else ?N v)" if "in_graph g0 v" for v using that w' I(4) by (simp add: in_graph_def)
  have sameN: "elt ?num v = ?N v" if "v \<in> ?D" for v using N'[of v] that w'(2) by (auto simp: numbered_def)
  show ?thesis
  proof (cases "c < ?k")
    case True
    define rep where "rep = elt (node_to_fused_nodes st) (c + 1)"
    have rep: "rep \<in> ?D" "?N rep = c + 1" "0 \<le> rep" "rep < ?n" using I(14)[of "c + 1"] ck True by (auto simp: rep_def numbered_def in_graph_def)
    let ?s1 = "?s0\<lparr>node_num := ?num\<rparr>"
    obtain cant g wk' where adv: "update_successors types w ?s1 = Inr (?s1\<lparr>cant_fuse_with := cant, f_graph := g, f_work := wk'\<rparr>)"
      "numbered g0 ?num = insert w ?D" "cut_graph g0 (insert w ?D) g" "alen cant = ?n" "distinct (map fst wk')"
      "set (map fst wk') = ready g0 (insert w ?D)" "list_all snd wk'"
      "\<forall>v. in_graph g0 v \<and> v \<notin> insert w ?D \<longrightarrow> cant_ok g0 (insert w ?D) (elt ?num) v (elt cant v)"
      "\<forall>v \<in> insert w ?D. elt cant v = elt ?num v - 1" "numbers_ok g0 (insert w ?D) (elt ?num) ?k"
      using advance[OF types ok inv wk c, of ?s1 ?k] True by auto
    let ?t = "foldl (\<lambda>s x. insert_unique (<) x s) (elt (f_sets st) c) (fst (elt (vertex g0) w))"
    let ?st' = "?s1\<lparr>cant_fuse_with := cant, f_graph := g, f_work := wk', f_sets := upd (f_sets st) c ?t\<rparr>"
    have len: "alen (f_sets st) = ?k" using I(18) by (simp add: sets_ok_def)
    have "join_set types w (c + 1) ?s0 = Inr ?st'"
      using adv(1) rep w' I(3,4,12) ck True len label[OF adv(3)] by (simp add: join_set_def flip: rep_def)
    moreover have "sets_ok g0 (insert w ?D) (elt ?num) ?k (upd (f_sets st) c ?t)"
      using sets_ok_join[OF I(18) w'(2), of "c + 1" "elt ?num" ?t] True ck sameN N'[OF w'(1)]
      by (simp add: set_insert_unique_fold label_of_def)
    moreover have "i \<in> insert w ?D \<and> elt ?num i = j" if "i = elt (node_to_fused_nodes st) j" "1 \<le> j" "j \<le> ?k" for i j
      using I(14)[OF that(2,3)] that(1) sameN by auto
    ultimately have "join_set types w (c + 1) ?s0 = Inr ?st' \<and> fusion_inv g0 ?st' \<and> numbered g0 (node_num ?st') = insert w ?D"
      unfolding fusion_inv_def Let_def using adv I(3-5,11,12,15-17) by simp
    then show ?thesis using round True ck I(12) by auto
  next
    case False
    then have c_k: "c = ?k" using ck by simp
    show ?thesis
    proof (cases "?k + 1 < ?n")
      case False
      then have "wr (node_to_fused_nodes st) (?k + 1) w = Inl (Undefined ''write outside an array'')" using I(3) by (simp add: wr_def)
      then show ?thesis using False round c_k w' I(4) label[OF I(1)] by (simp add: new_set_def Let_def)
    next
      case True
      define nx where "nx = (if ?k = 0 then f_next st else upd (f_next st) ?k (?k + 1))"
      define fu where "fu = (if ?k = 0 then 1 else f_fused st)"
      let ?v = "fst (elt (vertex g0) w)" and ?nodes = "upd (node_to_fused_nodes st) (?k + 1) w"
      let ?s2 = "?s0\<lparr>node_to_fused_nodes := ?nodes, node_num := ?num, lastnum := ?k + 1, f_sets := f_sets st @ [?v]\<rparr>"
      let ?s1 = "?s2\<lparr>f_fused := fu, f_next := nx, lastfused := ?k + 1\<rparr>"
      obtain cant g wk' where adv: "update_successors types w ?s1 = Inr (?s1\<lparr>cant_fuse_with := cant, f_graph := g, f_work := wk'\<rparr>)"
        "numbered g0 ?num = insert w ?D" "cut_graph g0 (insert w ?D) g" "alen cant = ?n" "distinct (map fst wk')"
        "set (map fst wk') = ready g0 (insert w ?D)" "list_all snd wk'"
        "\<forall>v. in_graph g0 v \<and> v \<notin> insert w ?D \<longrightarrow> cant_ok g0 (insert w ?D) (elt ?num) v (elt cant v)"
        "\<forall>v \<in> insert w ?D. elt cant v = elt ?num v - 1" "numbers_ok g0 (insert w ?D) (elt ?num) (?k + 1)"
        using advance[OF types ok inv wk c, of ?s1 "?k + 1"] c_k by auto
      let ?st' = "?s1\<lparr>cant_fuse_with := cant, f_graph := g, f_work := wk'\<rparr>"
      have chain: "chain_set True ?s2 = Inr ?s1"
        using I(5,11,12,16,17) by (auto simp: chain_set_def nx_def fu_def)
      have "wr (node_num st) w (?k + 1) = Inr ?num" "wr (node_to_fused_nodes st) (?k + 1) w = Inr ?nodes"
        using w' I(3,4,11) True c_k by simp_all
      then have "new_set types w t ?s0 = fusion_failure (update_successors types w ?s1)"
        using label[OF I(1)] t chain by (simp add: new_set_def Let_def)
      then have "new_set types w t ?s0 = Inr ?st'" unfolding adv(1) by simp
      moreover have "sets_ok g0 (insert w ?D) (elt ?num) (?k + 1) (f_sets st @ [?v])"
        by (rule sets_ok_new[OF I(18,11) w'(2) sameN]) (use N'[OF w'(1)] c_k D in \<open>auto simp: label_of_def\<close>)
      moreover have "elt ?nodes j \<in> insert w ?D \<and> elt ?num (elt ?nodes j) = j" if "1 \<le> j" "j \<le> ?k + 1" for j
      proof (cases "j = ?k + 1")
        case True
        then show ?thesis using that I(3) \<open>?k + 1 < ?n\<close> N'[OF w'(1)] c_k by simp
      next
        case False
        then show ?thesis using that I(3,11) True I(14)[of j] sameN by auto
      qed
      moreover have "elt nx j = (if j < ?k + 1 then j + 1 else 0)" if "1 \<le> j" "j < ?n" for j
        using that I(5,11,12) I(15)[OF that] by (auto simp: nx_def)
      moreover have "alen nx = ?n" "fu = 1" using I(5,16) by (simp_all add: nx_def fu_def)
      ultimately have "new_set types w t ?s0 = Inr ?st' \<and> fusion_inv g0 ?st' \<and> numbered g0 (node_num ?st') = insert w ?D"
        unfolding fusion_inv_def Let_def using adv I(3,4,11) True by simp
      then show ?thesis using round c_k True by auto
    qed
  qed
qed

end
