(* ===== verification/Fusion_Result.thy ===== *)
theory Fusion_Result
  imports Fusion_Correct
begin

text \<open>
  What typed fusion returns. The loops of a graph without a cycle that all have the type get the least numbers that no edge
  contradicts, and the sets returned are the statements of the loops of each number, unless there are as many numbers as
  loops: then the code writes outside of an array. And what \<open>construct_induced_graph_at_level\<close> makes of the dependences.
\<close>

section \<open>The whole fusion\<close>

definition all_vertices :: "loop_graph \<Rightarrow> int set" where
  "all_vertices g = {v. in_graph g v}"

lemma all_vertices_range: "all_vertices g = {0..<vertexCount g}"
  by (auto simp: all_vertices_def in_graph_def)

lemma finite_vertices: "finite (all_vertices g)"
  by (simp add: all_vertices_range)

lemma acyclic_wf: "graph_ok (g :: loop_graph) \<Longrightarrow> acyclic (graph_edges g) \<Longrightarrow> wf (graph_edges g)"
proof (rule finite_acyclic_wf)
  assume "graph_ok g"
  then have "graph_edges g \<subseteq> all_vertices g \<times> all_vertices g" using edge_in_graph by (auto simp: all_vertices_def)
  then show "finite (graph_edges g)" by (rule finite_subset) (simp add: all_vertices_range)
qed

text \<open>While some vertex has no number, the work list is not empty.\<close>

lemma ready_exists:
  assumes ok: "graph_ok g" "acyclic (graph_edges g)" and D: "\<not> all_vertices g \<subseteq> D"
  shows "ready g D \<noteq> {}"
proof -
  obtain v where "v \<in> all_vertices g - D" using D by blast
  from wfE_min[OF acyclic_wf[OF ok] this] obtain u where u: "u \<in> all_vertices g - D"
    "\<And>y. (y, u) \<in> graph_edges g \<Longrightarrow> y \<notin> all_vertices g - D" by blast
  have "y \<in> D" if "(y, u) \<in> graph_edges g" for y
    using u(2)[OF that] edge_in_graph[OF ok(1) that] by (simp add: all_vertices_def)
  then have "u \<in> ready g D" using u(1) by (auto simp: ready_def all_vertices_def)
  then show ?thesis by blast
qed

lemma least_of_numbers_ok: "graph_ok g \<Longrightarrow> numbers_ok g (all_vertices g) N k \<Longrightarrow> least_numbering g N"
  unfolding least_numbering_def
proof
  assume ok: "graph_ok g" and N: "numbers_ok g (all_vertices g) N k"
  have "v \<in> all_vertices g" if "(u, v) \<in> graph_edges g" for u v using edge_in_graph[OF ok that] by (simp add: all_vertices_def)
  then show "obeys g N" using N by (auto simp: numbers_ok_def obeys_def all_vertices_def)
  show "\<forall>M. obeys g M \<longrightarrow> (\<forall>v. in_graph g v \<longrightarrow> N v \<le> M v)" using N by (simp add: numbers_ok_def all_vertices_def)
qed

text \<open>With a set more than there is room for, every vertex has a set of its own.\<close>

lemma groups_fill:
  assumes D: "D \<subseteq> all_vertices g" "w \<in> all_vertices g" "w \<notin> D" and n: "vertexCount g = k + 1" "0 \<le> k"
    and rep: "\<And>i. 1 \<le> i \<Longrightarrow> i \<le> k \<Longrightarrow> f i \<in> D \<and> N (f i) = i"
  shows "insert w D = all_vertices g"
proof -
  have fin: "finite D" using D(1) by (rule finite_subset) (simp add: all_vertices_range)
  have "inj_on f {1..k}" by (rule inj_on_inverseI[of _ N]) (use rep in auto)
  then have "card {1..k} = card (f ` {1..k})" by (simp add: card_image)
  also have "\<dots> \<le> card D" by (rule card_mono[OF fin]) (use rep in auto)
  finally have "card (all_vertices g) \<le> card (insert w D)" using D fin n by (simp add: all_vertices_range)
  then show ?thesis using D by (intro card_seteq) (auto simp: all_vertices_range)
qed

lemma fusion_inv_unnumbered:
  assumes inv: "fusion_inv g st" and ok: "graph_ok g" "acyclic (graph_edges g)" and wk: "f_work st = []"
  shows "numbered g (node_num st) = all_vertices g"
proof -
  have "ready g (numbered g (node_num st)) = {}" using fusion_invD(7)[OF inv] wk by simp
  then have "all_vertices g \<subseteq> numbered g (node_num st)" using ready_exists[OF ok] by blast
  then show ?thesis by (auto simp: numbered_def all_vertices_def)
qed

definition fusion_result :: "loop_graph \<Rightarrow> (int \<Rightarrow> int) \<Rightarrow> int list list result option \<Rightarrow> bool" where
  "fusion_result g N r \<longleftrightarrow> (if \<exists>v. in_graph g v \<and> N v = vertexCount g then r = Some (Inl (Undefined ''write outside an array''))
     else \<exists>s. r = Some (Inr s) \<and> (\<forall>v. in_graph g v \<longrightarrow> N v \<le> alen s) \<and>
       (\<forall>i. 1 \<le> i \<and> i \<le> alen s \<longrightarrow> (\<exists>v. in_graph g v \<and> N v = i) \<and> set (elt s (i - 1)) = \<Union> (label_of g ` {v. in_graph g v \<and> N v = i})))"

lemma fusion_loop_ok:
  assumes types: "all_fusible (vertexCount g) types" and ok: "graph_ok g" "acyclic (graph_edges g)"
    and inv: "fusion_inv g st"
  shows "\<exists>N. least_numbering g N \<and> fusion_result g N (fusion_loop types st)"
  using inv
proof (induction "card (all_vertices g - numbered g (node_num st))" arbitrary: st rule: less_induct)
  case less
  let ?D = "numbered g (node_num st)" and ?N = "elt (node_num st)"
  note I = fusion_invD[OF less.prems]
  show ?case
  proof (cases "f_work st")
    case Nil
    have D: "?D = all_vertices g" by (rule fusion_inv_unnumbered[OF less.prems ok Nil])
    have nums: "numbers_ok g (all_vertices g) ?N (lastnum st)" using I(13) unfolding D .
    then have N: "1 \<le> ?N v \<and> ?N v \<le> lastnum st" if "in_graph g v" for v
      using that by (simp add: numbers_ok_def all_vertices_def)
    have sets: "sets_ok g (all_vertices g) ?N (lastnum st) (f_sets st)" using I(18) unfolding D .
    then have len: "alen (f_sets st) = lastnum st" by (simp add: sets_ok_def)
    have "\<exists>v. in_graph g v \<and> ?N v = i" if "1 \<le> i" "i \<le> lastnum st" for i
      using I(14)[OF that] unfolding D all_vertices_def by blast
    moreover have "set (elt (f_sets st) (i - 1)) = \<Union> (label_of g ` {v. in_graph g v \<and> ?N v = i})" if "1 \<le> i" "i \<le> lastnum st" for i
      using sets that by (simp add: sets_ok_def all_vertices_def)
    moreover have "fusion_loop types st = Some (Inr (f_sets st))" using Nil by (simp add: fusion_loop.simps)
    ultimately have "\<exists>s. fusion_loop types st = Some (Inr s) \<and> (\<forall>v. in_graph g v \<longrightarrow> ?N v \<le> alen s) \<and>
      (\<forall>i. 1 \<le> i \<and> i \<le> alen s \<longrightarrow> (\<exists>v. in_graph g v \<and> ?N v = i) \<and> set (elt s (i - 1)) = \<Union> (label_of g ` {v. in_graph g v \<and> ?N v = i}))"
      using N unfolding len[symmetric] by blast
    moreover have "\<not> (\<exists>v. in_graph g v \<and> ?N v = vertexCount g)" using N I(12) by fastforce
    ultimately have "fusion_result g ?N (fusion_loop types st)" unfolding fusion_result_def by (simp only: if_False)
    moreover have "least_numbering g ?N" by (rule least_of_numbers_ok[OF ok(1) nums])
    ultimately show ?thesis by blast
  next
    case (Cons q work)
    obtain w t where q: "q = (w, t)" by fastforce
    define c where "c = elt (cant_fuse_with st) w"
    have w: "w \<in> ready g ?D" using I(7) Cons q by force
    then have w': "w \<in> all_vertices g" "w \<notin> ?D" by (auto simp: ready_def all_vertices_def)
    note R = fusion_round_ok[OF types ok less.prems Cons[unfolded q] c_def]
    have step: "fusion_loop types st = (case fusion_round types (w, t) (st\<lparr>f_work := work\<rparr>) of Inl e \<Rightarrow> Some (Inl e) | Inr st \<Rightarrow> fusion_loop types st)"
      unfolding fusion_loop.simps[of types st] Cons q list.case ..
    show ?thesis
    proof (cases "c + 1 < vertexCount g")
      case True
      obtain st' where st': "fusion_round types (w, t) (st\<lparr>f_work := work\<rparr>) = Inr st'" "fusion_inv g st'"
        "numbered g (node_num st') = insert w ?D" using R unfolding if_P[OF True] by blast
      have "card (all_vertices g - numbered g (node_num st')) < card (all_vertices g - ?D)"
        unfolding st'(3) using w' finite_vertices by (intro psubset_card_mono finite_Diff psubsetI) blast+
      from less.hyps[OF this st'(2)] show ?thesis unfolding step st'(1) sum.case .
    next
      case False
      then have c: "c = lastnum st" "vertexCount g = lastnum st + 1" using R I(12) by simp_all
      have all: "insert w ?D = all_vertices g"
        by (rule groups_fill[OF _ w' c(2) I(11), where f = "elt (node_to_fused_nodes st)" and N = ?N])
          (use I(14) in \<open>auto simp: numbered_def all_vertices_def\<close>)
      let ?N' = "?N(w := c + 1)"
      have "cant_ok g ?D ?N w c" using I(9)[of w] w' by (simp add: c_def all_vertices_def)
      then have "numbers_ok g (insert w ?D) ?N' (c + 1)"
        by (rule numbers_ok_insert[OF ok I(13) w]) (use c w' in auto)
      then have "least_numbering g ?N'" unfolding all by (rule least_of_numbers_ok[OF ok(1)])
      moreover have "fusion_loop types st = Some (Inl (Undefined ''write outside an array''))" using R unfolding if_not_P[OF False] step by simp
      moreover have "in_graph g w \<and> ?N' w = vertexCount g" using c w' by (simp add: all_vertices_def)
      ultimately show ?thesis unfolding fusion_result_def by (metis (mono_tags, lifting))
    qed
  qed
qed

lemma one_more_pair:
  assumes "A i" "A j" "i \<noteq> j"
  shows "(\<forall>u. A u \<and> u \<noteq> v \<and> P u \<longrightarrow> (u, v) \<notin> E) \<and> \<not> (v = j \<and> (i, j) \<in> E) \<and> \<not> (v = i \<and> (j, i) \<in> E) \<longleftrightarrow>
    (\<forall>u. A u \<and> u \<noteq> v \<and> (P u \<or> u = i \<and> v = j \<or> u = j \<and> v = i) \<longrightarrow> (u, v) \<notin> E)"
  using assms by blast

lemma fusion_roots_ok:
  assumes n: "vertexCount g = n" "0 \<le> n"
  shows "\<exists>roots. fusion_roots g = Inr roots \<and> alen roots = n \<and>
    (\<forall>v. in_graph g v \<longrightarrow> elt roots v = (\<forall>u. in_graph g u \<and> u \<noteq> v \<longrightarrow> (u, v) \<notin> graph_edges g))"
proof -
  define cleared where "cleared P r \<longleftrightarrow> alen r = n \<and>
    (\<forall>v. in_graph g v \<longrightarrow> elt r v = (\<forall>u. in_graph g u \<and> u \<noteq> v \<and> P (min u v) (max u v) \<longrightarrow> (u, v) \<notin> graph_edges g))" for P r
  have "\<exists>r. fusion_roots g = Inr r \<and> cleared (\<lambda>a b. a < n) r"
    unfolding fusion_roots_def n(1)
  proof (rule for_loop_rule[where I = "\<lambda>i. cleared (\<lambda>a b. a < i)", OF n(2)])
    show "cleared (\<lambda>a b. a < 0) (replicate (nat n) True)"
      using n by (auto simp: cleared_def alen_def in_graph_def elt_def)
  next
    fix i r assume i: "0 \<le> i" "i < n" and r: "cleared (\<lambda>a b. a < i) r"
    let ?body = "\<lambda>roots j. bind_result (hasEdge g i j) (\<lambda>e. bind_result (if e then wr roots j False else Inr roots) (\<lambda>roots.
      bind_result (hasEdge g j i) (\<lambda>e. if e then wr roots i False else Inr roots)))"
    have "\<exists>r'. for_loop (i + 1) n ?body r = Inr r' \<and> cleared (\<lambda>a b. a < i \<or> a = i \<and> b < n) r'"
    proof (rule for_loop_rule[where I = "\<lambda>j. cleared (\<lambda>a b. a < i \<or> a = i \<and> b < j)"])
      show "i + 1 \<le> n" using i by simp
      have "(\<lambda>u v. min u v < i \<or> min u v = i \<and> max u v < i + 1) u v = (min u v < i)" if "u \<noteq> v" for u v :: int
        using that by (auto simp: min_def max_def)
      then show "cleared (\<lambda>a b. a < i \<or> a = i \<and> b < i + 1) r" using r unfolding cleared_def by auto
    next
      fix j r assume j: "i + 1 \<le> j" "j < n" and r: "cleared (\<lambda>a b. a < i \<or> a = i \<and> b < j) r"
      let ?r = "if (i, j) \<in> graph_edges g then upd r j False else r"
      let ?r' = "if (j, i) \<in> graph_edges g then upd ?r i False else ?r"
      have g: "in_graph g i" "in_graph g j" using i j n by (simp_all add: in_graph_def)
      have "?body r j = Inr ?r'"
        using g i j r by (simp add: hasEdge_successor graph_edges_iff cleared_def)
      moreover have "cleared (\<lambda>a b. a < i \<or> a = i \<and> b < j + 1) ?r'"
        unfolding cleared_def
      proof (intro conjI allI impI)
        show "alen ?r' = n" using r by (simp add: cleared_def)
        fix v assume v: "in_graph g v"
        have pair: "(min u v < i \<or> min u v = i \<and> max u v < j + 1) = ((min u v < i \<or> min u v = i \<and> max u v < j) \<or> u = i \<and> v = j \<or> u = j \<and> v = i)" for u
          using j by (auto simp: min_def max_def)
        have "elt ?r' v = (elt r v \<and> \<not> (v = j \<and> (i, j) \<in> graph_edges g) \<and> \<not> (v = i \<and> (j, i) \<in> graph_edges g))"
        proof -
          have v': "0 \<le> v" "v < n" and len: "alen r = n" using v n r by (simp_all add: in_graph_def cleared_def)
          then have "elt ?r v = (elt r v \<and> \<not> (v = j \<and> (i, j) \<in> graph_edges g))" "alen ?r = n" using j i by auto
          then show ?thesis using v' i by auto
        qed
        also have old: "elt r v = (\<forall>u. in_graph g u \<and> u \<noteq> v \<and> (min u v < i \<or> min u v = i \<and> max u v < j) \<longrightarrow> (u, v) \<notin> graph_edges g)"
          using r v by (simp add: cleared_def)
        also have "\<dots> \<and> \<not> (v = j \<and> (i, j) \<in> graph_edges g) \<and> \<not> (v = i \<and> (j, i) \<in> graph_edges g) \<longleftrightarrow>
          (\<forall>u. in_graph g u \<and> u \<noteq> v \<and> (min u v < i \<or> min u v = i \<and> max u v < j + 1) \<longrightarrow> (u, v) \<notin> graph_edges g)"
          unfolding pair by (rule one_more_pair) (use g j in auto)
        finally show "elt ?r' v = (\<forall>u. in_graph g u \<and> u \<noteq> v \<and> (min u v < i \<or> min u v = i \<and> max u v < j + 1) \<longrightarrow> (u, v) \<notin> graph_edges g)" .
      qed
      ultimately show "\<exists>s'. ?body r j = Inr s' \<and> cleared (\<lambda>a b. a < i \<or> a = i \<and> b < j + 1) s'" by blast
    qed
    moreover have "cleared (\<lambda>a b. a < i \<or> a = i \<and> b < n) r' \<Longrightarrow> cleared (\<lambda>a b. a < i + 1) r'" for r'
    proof -
      have "(min u v < i \<or> min u v = i \<and> max u v < n) = (min u v < i + 1)" if "in_graph g u" "in_graph g v" for u v
        using that n by (auto simp: in_graph_def)
      then show "cleared (\<lambda>a b. a < i \<or> a = i \<and> b < n) r' \<Longrightarrow> cleared (\<lambda>a b. a < i + 1) r'" unfolding cleared_def by auto
    qed
    ultimately show "\<exists>s'. for_loop (i + 1) n ?body r = Inr s' \<and> cleared (\<lambda>a b. a < i + 1) s'" by blast
  qed
  moreover have "min u v < n" if "in_graph g u" "in_graph g v" for u v using that n by (auto simp: in_graph_def min_def)
  ultimately show ?thesis unfolding cleared_def by blast
qed

lemma topoSort_acyclic:
  assumes ok: "graph_ok g" "acyclic (graph_edges (g :: loop_graph))"
  shows "\<exists>s. topoSort g = Inr s \<and> alen s = vertexCount g"
proof -
  have "no_self_loops g"
  proof -
    have "(v, v) \<notin> graph_edges g" for v using ok(2) by (auto simp: acyclic_def)
    then show ?thesis by (simp add: no_self_loops_def list_all_iff graph_edges_iff in_graph_def)
  qed
  moreover have n: "0 \<le> vertexCount g" by (simp add: vertexCount_def)
  ultimately obtain s where s: "topoSort g = Inr s" "set (concat s) = {0..<vertexCount g}" "found_ok (graph_edges g) s"
    using sort_components[OF succ_ok_graph[OF ok(1)] n] by (auto simp: topoSort_def graph_edges_def)
  have "component (graph_edges g) r = {r}" for r
  proof -
    have "x = r" if "(x, r) \<in> (graph_edges g)\<^sup>*" "(r, x) \<in> (graph_edges g)\<^sup>*" for x
      using acyclic_impl_antisym_rtrancl[OF ok(2)] that by (auto simp: antisym_def)
    then show ?thesis by (auto simp: component_def)
  qed
  moreover have dis: "distinct (concat s)" using s(3) by (simp add: found_ok_def)
  ultimately have one: "length c = 1" if "c \<in> set s" for c
  proof -
    have "\<exists>r. set c = {r}" using that s(3) \<open>\<And>r. component (graph_edges g) r = {r}\<close> by (auto simp: found_ok_def)
    moreover have "distinct c" using dis that by (metis distinct_concat_iff)
    ultimately show ?thesis using distinct_card[of c] by auto
  qed
  have "length (concat s) = length s" using one by (induction s) auto
  moreover have "length (concat s) = card {0..<vertexCount g}" using s(2) distinct_card[OF dis] by simp
  ultimately have "alen s = vertexCount g" using n by (simp add: alen_def)
  then show ?thesis using s(1) by blast
qed

definition fusion_start :: "loop_graph \<Rightarrow> (int \<times> bool) list \<Rightarrow> fusion" where
  "fusion_start g work = (let n = vertexCount g in
     \<lparr>f_graph = g, f_work = work, cant_fuse_with = replicate (nat n) 0, node_to_fused_nodes = replicate (nat n) 0,
       node_num = replicate (nat n) (-1), f_next = replicate (nat n) 0, f_fused = 0, lastfused = 0, lastnum = 0, f_sets = []\<rparr>)"

lemma fusion_start_ok:
  assumes ok: "graph_ok g" "directed g" "0 < vertexCount g"
    and work: "distinct (map fst work)" "set (map fst work) = ready g {}" "list_all snd work"
  shows "fusion_inv g (fusion_start g work)"
proof -
  let ?n = "vertexCount g"
  have num: "numbered g (replicate (nat ?n) (-1)) = {}" by (auto simp: numbered_def in_graph_def)
  show ?thesis
    unfolding fusion_inv_def Let_def fusion_start_def using ok work num
    by (auto simp: cut_graph_def cant_ok_def numbers_ok_def sets_ok_def in_graph_def alen_def)
qed

lemma typed_fusion_start:
  assumes types: "all_fusible (vertexCount g) types" and ok: "graph_ok g" "directed g" "acyclic (graph_edges g)" "0 < vertexCount g"
  shows "\<exists>work. typed_fusion g types = fusion_loop types (fusion_start g work) \<and> fusion_inv g (fusion_start g work)"
proof -
  let ?n = "vertexCount g"
  obtain roots where roots: "fusion_roots g = Inr roots" "alen roots = ?n"
    "\<And>v. in_graph g v \<Longrightarrow> elt roots v = (\<forall>u. in_graph g u \<and> u \<noteq> v \<longrightarrow> (u, v) \<notin> graph_edges g)"
    using fusion_roots_ok[of g ?n] ok(4) by auto
  define work where "work = map (\<lambda>i. (i, True)) (filter (elt roots) [0..?n - 1])"
  have irrefl: "(v, v) \<notin> graph_edges g" for v using ok(3) by (auto simp: acyclic_def)
  have root: "elt roots v \<longleftrightarrow> (\<forall>u. (u, v) \<notin> graph_edges g)" if "in_graph g v" for v
    unfolding roots(3)[OF that] using irrefl edge_in_graph[OF ok(1)] by blast
  have "map fst work = filter (elt roots) [0..?n - 1]" by (simp add: work_def comp_def)
  moreover have set: "set (filter (elt roots) [0..?n - 1]) = ready g {}" using root by (auto simp: ready_def in_graph_def)
  ultimately have inv: "fusion_inv g (fusion_start g work)"
    by (intro fusion_start_ok ok) (simp_all add: work_def list_all_iff)
  have "map_result (\<lambda>i. bind_result (rd types i) (\<lambda>t. Inr (i, t))) (filter (elt roots) [0..?n - 1]) = Inr work"
    unfolding work_def by (rule map_result_pure) (use all_fusible_rd[OF types] in auto)
  moreover have "work \<noteq> []"
  proof -
    have "\<not> all_vertices g \<subseteq> {}" using ok(4) by (auto simp: all_vertices_range)
    from ready_exists[OF ok(1,3) this] have "filter (elt roots) [0..?n - 1] \<noteq> []" unfolding set[symmetric] set_empty .
    then show ?thesis by (simp add: work_def)
  qed
  moreover obtain s where "topoSort g = Inr s" "alen s = ?n" using topoSort_acyclic[OF ok(1,3)] by blast
  ultimately have "typed_fusion g types = fusion_loop types (fusion_start g work)"
    using roots(1) by (simp add: typed_fusion_def fusion_start_def Let_def)
  then show ?thesis using inv by blast
qed

section \<open>The graph of the loops\<close>

text \<open>Some dependence from a statement of the one loop to a statement of the other orders the loops, or prevents their fusion.\<close>

definition some_dependence :: "dep_graph \<Rightarrow> (dep_vector \<Rightarrow> bool) \<Rightarrow> int list \<Rightarrow> int list \<Rightarrow> bool" where
  "some_dependence dep P a b \<longleftrightarrow> (\<exists>ii \<in> set a. \<exists>jj \<in> set b. \<exists>dvs. getEdge dep ii jj = Inr dvs \<and> (\<exists>d \<in> set dvs. P d))"

definition ordering :: "int \<Rightarrow> dep_vector \<Rightarrow> bool" where
  "ordering dep_dim d \<longleftrightarrow> orders_loops dep_dim d = Inr True"

definition preventing :: "int \<Rightarrow> dep_vector \<Rightarrow> bool" where
  "preventing dep_dim d \<longleftrightarrow> orders_loops dep_dim d = Inr True \<and> prevents_fusion dep_dim d = Inr True"

definition loop_edge :: "int \<Rightarrow> dep_graph \<Rightarrow> int list \<Rightarrow> int list \<Rightarrow> bool list" where
  "loop_edge dep_dim dep a b = (if some_dependence dep (preventing dep_dim) a b then [False]
     else if some_dependence dep (ordering dep_dim) a b then [True] else [])"

text \<open>What the flags of a direction say after the dependences of \<open>X\<close>.\<close>

definition flags_ok :: "int \<Rightarrow> (dep_vector \<Rightarrow> bool) \<Rightarrow> bool \<times> bool \<Rightarrow> bool \<times> bool \<Rightarrow> bool" where
  "flags_ok dd X q q' \<longleftrightarrow> snd q' = (snd q \<or> (\<exists>d. X d \<and> preventing dd d)) \<and> (\<not> snd q' \<longrightarrow> fst q' = (fst q \<or> (\<exists>d. X d \<and> ordering dd d)))"

lemma flags_ok_trans: "flags_ok dd X q q' \<Longrightarrow> flags_ok dd Y q' q'' \<Longrightarrow> flags_ok dd (\<lambda>d. X d \<or> Y d) q q''"
  unfolding flags_ok_def by blast

lemma scan_dependences_ok:
  "scan_dependences dd opposite dvs q = Inr q' \<Longrightarrow> flags_ok dd (\<lambda>d. d \<in> set dvs) q q'"
proof (induction dd opposite dvs q rule: scan_dependences.induct)
  case (1 dd opposite t c)
  then show ?case by (auto simp: flags_ok_def)
next
  case (2 dd opposite d dvs t c)
  obtain b where b: "orders_loops dd d = Inr b" using "2.prems" by auto
  show ?case
  proof (cases b)
    case False
    then have "flags_ok dd (\<lambda>d. d \<in> set dvs) (t, c) q'" using "2.IH"(1)[of b] "2.prems" b by simp
    moreover have "\<not> ordering dd d" "\<not> preventing dd d" using b False by (simp_all add: ordering_def preventing_def)
    ultimately show ?thesis by (auto simp: flags_ok_def)
  next
    case True
    then have opp: "\<not> opposite" and "ordering dd d" using "2.prems" b by (auto simp: ordering_def)
    moreover obtain p where p: "prevents_fusion dd d = Inr p" using "2.prems" b True opp by auto
    moreover have "preventing dd d = p" using b True p by (simp add: preventing_def)
    moreover have "\<not> p \<Longrightarrow> flags_ok dd (\<lambda>d. d \<in> set dvs) (True, c) q'" using "2.IH"(2)[of b p] "2.prems" b True opp p by simp
    ultimately show ?thesis using "2.prems" b True by (cases p) (auto simp: flags_ok_def)
  qed
qed

definition pair_dependence :: "dep_graph \<Rightarrow> int \<times> int \<Rightarrow> dep_vector \<Rightarrow> bool" where
  "pair_dependence dep = (\<lambda>(ii, jj) d. \<exists>dvs. getEdge dep ii jj = Inr dvs \<and> d \<in> set dvs)"

lemma scan_pair_ok:
  assumes "scan_pair dd dep (ij, ji) p = Inr (ij', ji')"
  shows "flags_ok dd (pair_dependence dep p) ij ij' \<and> flags_ok dd (pair_dependence dep (snd p, fst p)) ji ji'"
proof -
  obtain ii jj where p: "p = (ii, jj)" by fastforce
  show ?thesis using assms by (auto simp: scan_pair_def p pair_dependence_def dest!: scan_dependences_ok)
qed

lemma scan_pairs_ok:
  "fold_result (scan_pair dd dep) (ij, ji) ps = Inr (ij', ji') \<Longrightarrow>
   flags_ok dd (\<lambda>d. \<exists>p \<in> set ps. pair_dependence dep p d) ij ij' \<and>
   flags_ok dd (\<lambda>d. \<exists>p \<in> set ps. pair_dependence dep (snd p, fst p) d) ji ji'"
proof (induction ps arbitrary: ij ji)
  case Nil
  then show ?case by (simp add: flags_ok_def)
next
  case (Cons p ps)
  obtain a b where ab: "scan_pair dd dep (ij, ji) p = Inr (a, b)" "fold_result (scan_pair dd dep) (a, b) ps = Inr (ij', ji')"
    using Cons.prems by auto
  note here = scan_pair_ok[OF ab(1)] and rest = Cons.IH[OF ab(2)]
  from flags_ok_trans[OF conjunct1[OF here] conjunct1[OF rest]] flags_ok_trans[OF conjunct2[OF here] conjunct2[OF rest]]
  show ?case by simp
qed

lemma loops_of_pair:
  assumes "fold_result (scan_pair dd dep) ((False, False), (False, False)) (List.product a b) = Inr (ij, ji)"
  shows "loop_edge dd dep a b = (if snd ij then [False] else if fst ij then [True] else [])"
    "loop_edge dd dep b a = (if snd ji then [False] else if fst ji then [True] else [])"
proof -
  have ab: "(\<exists>d. (\<exists>p \<in> set (List.product a b). pair_dependence dep p d) \<and> P d) = some_dependence dep P a b" for P
    by (auto simp: some_dependence_def pair_dependence_def)
  have ba: "(\<exists>d. (\<exists>p \<in> set (List.product a b). pair_dependence dep (snd p, fst p) d) \<and> P d) = some_dependence dep P b a" for P
    by (auto simp: some_dependence_def pair_dependence_def)
  show "loop_edge dd dep a b = (if snd ij then [False] else if fst ij then [True] else [])"
    "loop_edge dd dep b a = (if snd ji then [False] else if fst ji then [True] else [])"
    using scan_pairs_ok[OF assms] unfolding flags_ok_def ab ba by (auto simp: loop_edge_def)
qed

lemma connect_loops_ok:
  assumes g: "graph_ok g" "directed g" "in_graph g i" "in_graph g j" "edges_between g i j = []"
  shows "\<exists>g'. connect_loops g i j q = Inr g' \<and> graph_ok g' \<and> directed g' \<and> map fst (vertex g') = map fst (vertex g) \<and>
    (\<forall>u w. edges_between g' u w = (if u = i \<and> w = j then (if snd q then [False] else if fst q then [True] else []) else edges_between g u w))"
proof -
  have "nat i < length (vertex g)" "0 \<le> i" using g(3) by (auto simp: in_graph_def vertexCount_def alen_def nat_less_iff)
  then have "map fst (vertex (push_edges g i j e)) = map fst (vertex g)" for e
    by (simp add: push_edges_def upd_def elt_def map_update list_update_same_conv)
  then show ?thesis using g push_edges_ok[OF g(1,3,4)] push_edges_between[OF g(1,3,4)]
    by (auto simp: connect_loops_def connect_def split: prod.split)
qed

text \<open>The two loops as one over all pairs of sets.\<close>

definition loop_pairs :: "int \<Rightarrow> (int \<times> int) list" where
  "loop_pairs n = concat (map (\<lambda>i. map (\<lambda>j. (i, j)) [i + 1..n - 1]) [0..n - 1])"

definition connect_pair :: "int list list \<Rightarrow> dep_graph \<Rightarrow> int \<Rightarrow> loop_graph \<Rightarrow> int \<times> int \<Rightarrow> loop_graph result" where
  "connect_pair s dep dep_dim g = (\<lambda>(i, j).
     bind_result (fold_result (scan_pair dep_dim dep) ((False, False), (False, False)) (List.product (elt s i) (elt s j))) (\<lambda>(ij, ji).
     bind_result (connect_loops g i j ij) (\<lambda>g. connect_loops g j i ji)))"

lemma construct_pairs:
  "construct_induced_graph_at_level s dep dep_dim =
     fold_result (connect_pair s dep dep_dim) (foldl (\<lambda>g v. fst (graph_insert (=) g v)) (Graph True) s) (loop_pairs (alen s))"
proof -
  have "fold_result (\<lambda>g j. connect_pair s dep dep_dim g (i, j)) g js = fold_result (connect_pair s dep dep_dim) g (map (\<lambda>j. (i, j)) js)" for i g js
    by (simp add: fold_result_map)
  then show ?thesis
    unfolding construct_induced_graph_at_level_def for_loop_def loop_pairs_def
    by (simp add: connect_pair_def nested_fold[symmetric] fold_result_map)
qed

lemma loop_pairs_ok: "distinct (loop_pairs n)" "(i, j) \<in> set (loop_pairs n) \<longleftrightarrow> 0 \<le> i \<and> i < j \<and> j < n"
proof -
  have "distinct (concat (map (\<lambda>i. map (\<lambda>j. (i, j)) [i + 1..n - 1]) is))" if "distinct is" for "is" :: "int list"
    using that by (induction "is") (auto simp: distinct_map inj_on_def)
  then show "distinct (loop_pairs n)" by (simp add: loop_pairs_def)
  show "(i, j) \<in> set (loop_pairs n) \<longleftrightarrow> 0 \<le> i \<and> i < j \<and> j < n" by (auto simp: loop_pairs_def image_iff)
qed

lemma insert_all:
  "distinct s \<Longrightarrow> vertex (foldl (\<lambda>g v. fst (graph_insert (=) g v)) (Graph True :: loop_graph) s) = map (\<lambda>v. (v, [])) s \<and>
    directed (foldl (\<lambda>g v. fst (graph_insert (=) g v)) (Graph True :: loop_graph) s)"
proof (induction s rule: rev_induct)
  case Nil
  then show ?case by (simp add: Graph_def)
next
  case (snoc v s)
  have "find_vertex (=) v (map (\<lambda>v. (v, [] :: bool edge_list)) s) k = None" if "v \<notin> set s" for k
    using that by (induction s arbitrary: k) auto
  moreover define g :: loop_graph where "g = foldl (\<lambda>g v. fst (graph_insert (=) g v)) (Graph True) s"
  then have "vertex g = map (\<lambda>v. (v, [])) s" "directed g" "v \<notin> set s" using snoc by simp_all
  ultimately have "fst (graph_insert (=) g v) = g\<lparr>vertex := vertex g @ [(v, [])]\<rparr>" by (simp add: graph_insert_def)
  then show ?case using \<open>vertex g = _\<close> \<open>directed g\<close> by (simp add: g_def[symmetric])
qed

lemma connect_pairs_ok:
  assumes "fold_result (connect_pair s dep dep_dim) g ps = Inr g'" "distinct ps"
    and "\<forall>(i, j) \<in> set ps. 0 \<le> i \<and> i < j \<and> j < alen s"
    and "graph_ok g" "directed g" "map fst (vertex g) = s" "\<forall>(i, j) \<in> set ps. edges_between g i j = [] \<and> edges_between g j i = []"
  shows "graph_ok g' \<and> directed g' \<and> map fst (vertex g') = s \<and> (\<forall>u w. edges_between g' u w =
    (if (u, w) \<in> set ps \<or> (w, u) \<in> set ps then loop_edge dep_dim dep (elt s u) (elt s w) else edges_between g u w))"
  using assms
proof (induction ps arbitrary: g)
  case Nil
  then show ?case by simp
next
  case (Cons p ps)
  obtain i j where p: "p = (i, j)" by fastforce
  have ij: "0 \<le> i" "i < j" "j < alen s" using Cons.prems(3) p by auto
  have n: "vertexCount g = alen s" using arg_cong[OF Cons.prems(6), of alen] by (simp add: vertexCount_def alen_def)
  have g: "in_graph g i" "in_graph g j" using ij n by (simp_all add: in_graph_def)
  have empty: "edges_between g i j = []" "edges_between g j i = []" using Cons.prems(7) p by auto
  obtain a b where scan: "fold_result (scan_pair dep_dim dep) ((False, False), (False, False)) (List.product (elt s i) (elt s j)) = Inr (a, b)"
    using Cons.prems(1) p by (auto simp: connect_pair_def)
  note edge = loops_of_pair[OF scan]
  obtain g1 where g1: "connect_loops g i j a = Inr g1" "graph_ok g1" "directed g1" "map fst (vertex g1) = map fst (vertex g)"
    "\<And>u w. edges_between g1 u w = (if u = i \<and> w = j then loop_edge dep_dim dep (elt s i) (elt s j) else edges_between g u w)"
    using connect_loops_ok[OF Cons.prems(4,5) g empty(1), of a] unfolding edge(1) by blast
  have n1: "vertexCount g1 = alen s" using arg_cong[OF g1(4), of alen] n by (simp add: vertexCount_def alen_def)
  have g1': "in_graph g1 j" "in_graph g1 i" using ij n1 by (simp_all add: in_graph_def)
  have "edges_between g1 j i = []" using g1(5) empty ij by auto
  then obtain g2 where g2: "connect_loops g1 j i b = Inr g2" "graph_ok g2" "directed g2" "map fst (vertex g2) = map fst (vertex g1)"
    "\<And>u w. edges_between g2 u w = (if u = j \<and> w = i then loop_edge dep_dim dep (elt s j) (elt s i) else edges_between g1 u w)"
    using connect_loops_ok[OF g1(2,3) g1', of b] unfolding edge(2) by blast
  have run: "fold_result (connect_pair s dep dep_dim) g2 ps = Inr g'"
  proof -
    have "connect_pair s dep dep_dim g (i, j) = Inr g2" by (simp add: connect_pair_def scan g1(1) g2(1))
    then show ?thesis using Cons.prems(1) by (simp add: p)
  qed
  have fresh: "(i, j) \<notin> set ps" "(j, i) \<notin> set ps" using Cons.prems(2,3) p ij by auto
  have still: "\<forall>(u, w) \<in> set ps. edges_between g2 u w = [] \<and> edges_between g2 w u = []"
  proof (clarify, intro conjI)
    fix u w assume uw: "(u, w) \<in> set ps"
    then have "edges_between g u w = []" "edges_between g w u = []" using Cons.prems(7) by auto
    moreover have "\<not> (u = i \<and> w = j)" "\<not> (u = j \<and> w = i)" using uw fresh by blast+
    ultimately show "edges_between g2 u w = []" "edges_between g2 w u = []"
      using g2(5)[of u w] g2(5)[of w u] g1(5)[of u w] g1(5)[of w u] by (simp_all only: if_False conj_commute)
  qed
  have "graph_ok g' \<and> directed g' \<and> map fst (vertex g') = s \<and> (\<forall>u w. edges_between g' u w =
    (if (u, w) \<in> set ps \<or> (w, u) \<in> set ps then loop_edge dep_dim dep (elt s u) (elt s w) else edges_between g2 u w))"
    using Cons.IH[OF run _ _ g2(2,3) _ still] Cons.prems(2,3,6) g1(4) g2(4) by simp
  then have G: "graph_ok g'" "directed g'" "map fst (vertex g') = s" "\<And>u w. edges_between g' u w =
    (if (u, w) \<in> set ps \<or> (w, u) \<in> set ps then loop_edge dep_dim dep (elt s u) (elt s w) else edges_between g2 u w)" by blast+
  have "edges_between g' u w = (if (u, w) \<in> set (p # ps) \<or> (w, u) \<in> set (p # ps) then loop_edge dep_dim dep (elt s u) (elt s w) else edges_between g u w)" for u w
    unfolding G(4) g2(5) g1(5) p using ij by auto
  then show ?case using G(1-3) by blast
qed

text \<open>
  Where the construction succeeds, the graph has the sets as its vertices, and between two of them one edge when some
  dependence orders them: it is false when one of these prevents fusion.
\<close>

lemma construct_induced_graph_ok:
  assumes "construct_induced_graph_at_level s dep dep_dim = Inr g" "distinct s"
  shows "graph_ok g \<and> directed g \<and> map fst (vertex g) = s \<and> (\<forall>u w. edges_between g u w =
    (if in_graph g u \<and> in_graph g w \<and> u \<noteq> w then loop_edge dep_dim dep (elt s u) (elt s w) else []))"
proof -
  let ?g = "foldl (\<lambda>g v. fst (graph_insert (=) g v)) (Graph True :: loop_graph) s"
  have v: "vertex ?g = map (\<lambda>v. (v, [])) s" "directed ?g" using insert_all[OF assms(2)] by simp_all
  have none: "edges_between ?g u w = []" for u w
    using v by (auto simp: edges_between_def edges_to_def out_edges_def in_graph_def vertexCount_def elt_def alen_def nat_less_iff)
  have ok: "graph_ok ?g" by (simp add: graph_ok_def v list_all_iff)
  have lab: "map fst (vertex ?g) = s" by (simp add: v comp_def)
  have range: "\<forall>(i, j) \<in> set (loop_pairs (alen s)). 0 \<le> i \<and> i < j \<and> j < alen s" using loop_pairs_ok(2) by auto
  have empty: "\<forall>(i, j) \<in> set (loop_pairs (alen s)). edges_between ?g i j = [] \<and> edges_between ?g j i = []" using none by simp
  have G: "graph_ok g" "directed g" "map fst (vertex g) = s" "\<And>u w. edges_between g u w =
    (if (u, w) \<in> set (loop_pairs (alen s)) \<or> (w, u) \<in> set (loop_pairs (alen s)) then loop_edge dep_dim dep (elt s u) (elt s w) else edges_between ?g u w)"
    using connect_pairs_ok[OF assms(1)[unfolded construct_pairs] loop_pairs_ok(1) range ok v(2) lab empty] by blast+
  have "vertexCount g = alen s" using arg_cong[OF G(3), of alen] by (simp add: vertexCount_def alen_def)
  then show ?thesis using G none by (auto simp: loop_pairs_ok(2) in_graph_def)
qed

section \<open>The result\<close>

text \<open>
  For a well-formed directed graph with a vertex and without a cycle, of loops that all have the type: where every loop gets
  a number of its own, typed fusion writes outside of an array; otherwise it returns, for each number, the statements of the
  loops with that number. The numbers are the least for which no edge leads to a smaller number, and no edge whose
  loops cannot be fused leads to the same number.
\<close>

theorem typed_fusion_correct:
  assumes "graph_ok g" "directed g" "acyclic (graph_edges g)" "0 < vertexCount g" "all_fusible (vertexCount g) types"
  shows "\<exists>N. least_numbering g N \<and> fusion_result g N (typed_fusion g types)"
  using typed_fusion_start[OF assms(5,1-4)] fusion_loop_ok[OF assms(5,1,3)] by metis

text \<open>The same for the graph of the loops.\<close>

theorem fusion_of_induced_graph:
  assumes "construct_induced_graph_at_level s dep dep_dim = Inr g" "distinct s" "s \<noteq> []" "acyclic (graph_edges g)" "all_fusible (alen s) types"
  shows "\<exists>N. least_numbering g N \<and> fusion_result g N (typed_fusion g types)"
proof -
  note G = construct_induced_graph_ok[OF assms(1,2)]
  then have "length (vertex g) = length s" by (metis length_map)
  then have "vertexCount g = alen s" by (simp add: vertexCount_def alen_def)
  then show ?thesis using typed_fusion_correct[of g types] G assms(3-5) by (simp add: alen_def)
qed

section \<open>Examples\<close>

text \<open>A graph of loops of one statement each, with its edges.\<close>

definition loops_graph :: "int \<Rightarrow> (int \<times> int \<times> bool) list \<Rightarrow> loop_graph result" where
  "loops_graph n es = fold_result (\<lambda>g (i, j, e). connect g i j e) (foldl (\<lambda>g v. fst (graph_insert (=) g [v])) (Graph True) [0..n - 1]) es"

definition fusion_example :: "int \<Rightarrow> (int \<times> int \<times> bool) list \<Rightarrow> bool list \<Rightarrow> int list list result option" where
  "fusion_example n es types = (case loops_graph n es of Inl e \<Rightarrow> Some (Inl e) | Inr g \<Rightarrow> typed_fusion g types)"

lemma typed_fusion_examples:
  "fusion_example 3 [(0, 1, False), (1, 2, True)] [True, True, True] = Some (Inr [[0], [1, 2]])"
  "fusion_example 3 [(0, 1, True), (0, 2, True)] [True, True, True] = Some (Inr [[0, 1, 2]])"
  by code_simp+

text \<open>As many numbers as loops: for one loop, and for two that cannot be fused.\<close>

lemma typed_fusion_overruns:
  "fusion_example 1 [] [True] = Some (Inl (Undefined ''write outside an array''))"
  "fusion_example 2 [(0, 1, False)] [True, True] = Some (Inl (Undefined ''write outside an array''))"
  by code_simp+

text \<open>
  Loops 0 and 2 have the type, loop 1 between them has not. That loop 1 comes after loop 0 is not passed on to loop 2, which
  is fused with loop 0: the statement of loop 2 then comes before that of loop 1, on which it depends.
\<close>

lemma typed_fusion_reorders:
  "fusion_example 3 [(0, 1, True), (1, 2, True)] [True, False, True] = Some (Inr [[0, 2], [1]])"
  by code_simp

end
