(* ===== verification/Spec2Isabelle.thy ===== *)
theory Spec2Isabelle
  imports Environment Conj_Properties UF_Params Driver_Correct Kernel_Properties Union_Find Complexity Set_Relationship Loop_Dependences Cholesky_Parallel
  Matrix_File Dot_Print Argument_Slots Fusion_Result
begin

text \<open>
  The repository finds loops of sparse matrix codes that can run in parallel. A dependence between two
  iterations is a relation whose constraints contain uninterpreted functions, the index arrays. The
  library IEGenLib (\<open>src/IEGenLib\<close>) represents such sets and relations, composes them, and simplifies
  them; a driver (\<open>src/findFullParWithZ3.cc\<close>) asks a solver whether a dependence can exist, and the
  experiments (\<open>src/timeResults\<close>) run inspectors and parallel kernels. This development models the set
  and relation library, which is C++ code under \<open>src/IEGenLib/src/set_relation\<close> and \<open>util\<close>, the driver, and the
  numeric code under \<open>src/timeResults/src\<close> and \<open>src/data\<close>.

  \<^bold>\<open>How the parts interact.\<close> A set or relation is a list of conjunctions, sorted by \<open>operator<\<close>; a
  conjunction has a tuple declaration and two sorted lists of expressions, the equalities and the
  inequalities; an expression is a sorted list of terms; a term is a constant, a symbolic constant, a
  tuple variable or the call of an uninterpreted function with expressions as arguments. The operations
  of sets work on conjunctions, these on expressions. Composition and application solve equalities for
  the variables they remove and substitute the solutions, for which an expression may have to invert a
  call: the environment of uninterpreted functions says which functions have an inverse. The level sets
  and the triangular solves share the compressed format of a sparse matrix.

  \<^bold>\<open>Theories.\<close>
  \<^item> \<open>Prelude\<close>: results (\<open>error + 'a\<close>, an \<open>assert_exception\<close> or undefined behaviour), C division, decimal
    numbers, and the locales of a sorting key and of a sorted constraint list.
  \<^item> \<open>Expression\<close> (\<open>expression.h\<close>, \<open>expression.cc\<close>): the datatype \<open>trm\<close> has one constructor per class
    below \<open>Term\<close>, \<open>Exp\<close> is the list \<open>mTerms\<close> with the kind of the expression; sums, multiples, division,
    comparison. \<open>Exp_Order\<close>: the order is a strict weak order. \<open>Exp_Print\<close>: printing, and that the text
    determines the expression. \<open>Exp_Semantics\<close>: the value of an expression at a point, an interpretation
    of symbols, variables and functions. \<open>Exp_Canonical\<close>, \<open>Exp_Facts\<close>: the invariant of the term list and
    the properties of the operations.
  \<^item> \<open>Std_Map\<close>, \<open>Substitute\<close> (\<open>SubMap.cc\<close>, \<open>Exp::substitute\<close>), \<open>Solve\<close> (\<open>solveForFactor\<close> and what it calls),
    \<open>Collapse\<close> (\<open>collapseNestedInvertibleFunctions\<close>), \<open>Remap\<close> (\<open>remapTupleVars\<close>); \<open>Argument_Slots\<close>: calls whose
    arguments are being set, and tuples of expressions.
  \<^item> \<open>Environment\<close> (\<open>environment.cc\<close>, \<open>UninterpFunc.h\<close>), \<open>TupleDecl\<close> (\<open>TupleDecl.cc\<close>), \<open>Util\<close> (\<open>util.cc\<close>),
    \<open>Union_Find\<close> (\<open>UnionFindUniverse.cc\<close>: a forest of sets with path compression).
  \<^item> \<open>Conjunction\<close>, \<open>Conj_Apply\<close> (the class \<open>Conjunction\<close> of \<open>set_relation.cc\<close>); \<open>Conj_Semantics\<close>: the
    points of a conjunction; \<open>Conj_Solve\<close>, \<open>Conj_Rename\<close>, \<open>Conj_Image\<close>, \<open>Conj_Apply_Correct\<close>,
    \<open>Conj_Compose_Correct\<close>: its operations against them; \<open>Term_Property\<close>: properties of all subterms that
    the operations of expressions keep.
  \<^item> \<open>Sets\<close> (\<open>SparseConstraints\<close>, \<open>Set\<close>, \<open>Relation\<close> of \<open>set_relation.cc\<close>), \<open>Set_Semantics\<close>: their points;
    \<open>Dot_Print\<close>: the graphs that \<open>toDotString\<close> prints.
    \<open>Conj_Properties\<close>: the properties of conjunctions, sets and relations.
  \<^item> \<open>UFCall_Map\<close> (\<open>UFCallMap.cc\<close>: symbols that stand for calls), \<open>Visitor\<close> (\<open>Visitor.h\<close> and the methods
    \<open>acceptVisitor\<close>), \<open>Plain_Sets\<close>: the sets that the passes below work on and what copying keeps of them.
  \<^item> The passes, which are visitors: \<open>UF_Params\<close> (\<open>isUFCallParam\<close>, the removal of expensive constraints),
    \<open>Affine\<close> (\<open>indexUFCs\<close>, \<open>boundDomainRange\<close>, \<open>superAffineSet\<close>, \<open>reverseAffineSubstitution\<close>, \<open>normalize\<close>,
    \<open>projectOut\<close>, \<open>simplifyForPartialParallel\<close>); \<open>Rebuild\<close>: visitors that build a new set term by term, as a
    locale; \<open>Super_Affine\<close>: calls and symbols have the same values; \<open>Bounds\<close>: what \<open>boundDomainRange\<close> adds;
    \<open>Normalize\<close>, \<open>Project_Out\<close>: the passes composed.
  \<^item> Text for isl: \<open>ISL_Strings\<close> (\<open>isl_str_manipulation.cc\<close>: declarations and constraints in the text of a
    set), \<open>Pretty_Print\<close> (\<open>prettyPrintString\<close>, \<open>toISLString\<close>, \<open>passSetThruISL\<close>, \<open>islSetProjectOut\<close>).
  \<^item> Domain information: \<open>Rules\<close> (the instances of quantified rules, \<open>instantiationSet\<close>,
    \<open>detectUnsatOrFindEqualities\<close> of \<open>set_relation.cc\<close>), \<open>Rule_Instances\<close>: an instance holds where its rule
    does; \<open>Detect\<close>: what the whole test returns.
  \<^item> Text for the solver: \<open>Solver_Text\<close> (\<open>getString\<close>, \<open>getZ3form\<close> of sets and of rules, and
    \<open>getUQRForFuncDomainRange\<close>); \<open>Solver_Correct\<close>, \<open>Solver_Rules\<close>: the assertions printed for a set can be
    satisfied when it has a point, and those for a rule say what the rule says.
  \<^item> The driver: \<open>Driver\<close> (\<open>findFullParWithZ3.cc\<close>, \<open>jsonHelper.cc\<close>: the environment of an input file, the rounds,
    the script and the verdict for a loop), \<open>Driver_Correct\<close>: what a verdict rests on.
  \<^item> \<open>Complexity\<close> (\<open>complexityForPartialParallel.cc\<close>: the cost of the inspector for a dependence),
    \<open>Set_Relationship\<close> (\<open>setRelationship.cc\<close>: which of two sets contains the other).
  \<^item> The compiler CHiLL (\<open>src/chill\<close>): \<open>Dependence_Vector\<close> (the class \<open>DependenceVector\<close> of \<open>dep.cc\<close>: ranges of
    distances, and the distances they stand for), \<open>Graph\<close> (\<open>graph.hh\<close>), \<open>Graph_Sort\<close>: its topological sorts return
    the strongly connected components and the layers; \<open>Loop_Dependences\<close> (the class \<open>DependenceGraph\<close>); \<open>Loop_Fusion\<close> (\<open>loop.cc\<close>:
    \<open>construct_induced_graph_at_level\<close>, \<open>update_successors\<close>, \<open>typed_fusion\<close>), \<open>Fusion_Correct\<close>, \<open>Fusion_Result\<close>: the sets of
    statements that the fusion of loops returns.
  \<^item> \<open>C_Arrays\<close>: arrays with checked access and counted loops; \<open>Sparse_Matrix\<close>: compressed matrices and what
    the kernels assume of them.
  \<^item> \<open>Level_Set\<close>, \<open>Level_Set_Correct\<close> (\<open>levelSet.h\<close>), \<open>Dependence_Graph\<close> (\<open>iChol.h\<close>), \<open>Triangular\<close>
    (\<open>triangularSolve.h\<close>, \<open>data/fs_csc.c\<close>, the check in \<open>test/ForwardSolveCSC.cc\<close>), \<open>Kernels\<close> (the other
    files of \<open>data\<close> and \<open>ic0_csc_k.h\<close>), \<open>Kernel_Properties\<close>; \<open>Cholesky_Parallel\<close> (the versions of \<open>ic0_csr\<close> with a
    parallel loop, in \<open>ic0_csc_k.h\<close> and \<open>ic0_csc_m7.h\<close>), \<open>Matrix_File\<close> (\<open>util.h\<close>: reading a matrix from a file).

  \<^bold>\<open>What is shown.\<close> For expressions: sums, multiples and division have the values they should and keep
  the terms sorted, distinct and without zero coefficients; comparison decides equality of coefficients;
  printing is injective; substitution, solving, collapsing and renaming are sound; solving for a term inside of a
  call that has an inverse succeeds, and cleaning up leaves the collapsed, normalised constraints that are not trivial. For conjunctions and
  sets: each operation against the set of points, an interpretation of which extends that of expressions:
  \<open>Apply\<close> is the image of a set under a relation, \<open>Compose\<close> the composition, \<open>Inverse\<close>, \<open>Union\<close> and
  \<open>Intersect\<close> what their names say, under the conditions their statements name; lemmas show what happens
  without them. For the passes: the bounds added to a set say that every call has its arguments in the
  domain and its value in the range of the function; replacing calls by symbols keeps the points, with the
  symbols read as the values of the calls, and putting the calls back undoes it; \<open>normalize\<close> keeps the
  points within the bounds; removing expensive constraints only adds points, and removes no more constraints than
  its budget allows. For domain information: a set
  that is reported empty has no point at which the rules hold and the calls are within their bounds, and the
  equalities that are found cut away no such point, for any library that satisfies the laws \<open>isl_laws\<close>; turning
  the text of a set into that of a relation loses nothing. For the driver: it calls a loop fully parallel only
  when the solver has refuted every dependence it has read, with scripts that could be satisfied if a
  dependence existed. For the environment: the invariant of inverse functions. For the numeric code: level
  sets are a partition in which dependences go to later levels, the parallel solve gives the
  sequential result in every interleaving of its loads and stores, the solve gives the only solution,
  and the simplified inspector finds every dependence.

  \<^bold>\<open>Modelling decisions.\<close>
  \<^item> Coefficients and constants are unbounded integers, as overflow of \<open>int\<close> is undefined in C++; indices
    into arrays are \<open>int\<close> too, and every access is checked: an access outside an array is the error
    \<open>Undefined\<close>. A \<open>double\<close> is an element of a field; rounding, infinities and NaN are not modelled.
  \<^item> Objects are values. The source clones before it stores, so sharing is not observable; pointers that
    may be null are options. An operation that throws leaves no object: the partly changed state after an
    exception is only modelled for the environment, which is global.
  \<^item> \<open>set\<close>, \<open>map\<close> and \<open>list\<close> of the standard library are sorted lists with the comparison of the source.
  \<^item> The environment is a parameter of what depends on it: the query for the inverse of a function
    (\<open>qinv\<close>) of the expressions, and the sets that are domains and ranges (type \<open>'s\<close>) of the environment.
  \<^item> A visitor is a record of functions on the object visited and the fields of the visitor. The answers of
    the isl library are parameters of \<open>normalize\<close> and \<open>projectOut\<close>; the theorems assume that the set it
    returns has the points it should. In \<open>Rules\<close> the library is a record of its functions on a type of sets of its
    own, with their laws as a hypothesis, and the generated parser is a function from text to sets.
  \<^item> The parallel loop runs under a schedule, a list in which each iteration occurs once for its loads and
    once for its store; the theorems hold for every schedule. In \<open>Cholesky_Parallel\<close> a schedule lists the threads that take
    the turns, and has enough turns for each. \<open>sqrt\<close> is a parameter.
  \<^item> \<open>buildLevelSet_CSC\<close> has a parameter for the content of the memory behind \<open>inDegree\<close>, because it reads it.

  \<^bold>\<open>Termination and fuel.\<close> There is no fuel. Recursion follows the data or has a measure; the loop of the
  level sets terminates because each round writes one more element of \<open>levelPtr\<close>, inside or outside.
  \<open>do_FIND\<close> follows parents, which may form a cycle: it is a partial function with value \<open>None\<close> when it
  does not return, and the union-find theorems show that it returns. The loop over the comments of a file is one
  too, and the loop over the work list of the fusion of loops, which is shown to return when all loops have the type.

  \<^bold>\<open>Not modelled.\<close> A \<open>TupleExpTerm\<close> as a term of an expression, and \<open>groupIndexedUFCalls\<close>, which would make one;
  the isl library and the generated parser;
  the solver, whose answer to a script is a parameter; the drivers of IEGenLib; of CHiLL and Omega+
  (\<open>src/chill\<close>), a compiler of its own, everything but the dependence vectors, the graphs and the fusion of loops; the vendored libraries.
\<close>

end
